(* ===== verification/Prelude.thy ===== *)
theory Prelude
  imports Main "HOL-Library.Word" "HOL-Library.AList" "HOL-Library.Monad_Syntax"
begin

unbundle bit_operations_syntax

text \<open>
  Shared vocabulary of the development: fixed-width unsigned arithmetic, error codes, byte
  strings, association lists for the hash maps of the program, and half-open address ranges.

  Integer conventions. A \<open>uint64_t\<close> or \<open>uint32_t\<close> quantity that is only added, subtracted,
  compared and divided is a \<open>nat\<close> and every C++ operation that can wrap is written with
  \<open>add64\<close>, \<open>sub64\<close>, \<open>add32\<close>, \<open>sub32\<close>, which reduce modulo \<open>2 ^ 64\<close> or \<open>2 ^ 32\<close>. Packed bit fields
  and checksums use the \<open>word\<close> type. A C++ \<open>int\<close> return code is an \<open>int\<close>.

  Process aborts. \<open>cxxlab_assert\<close> terminates the process when its condition is false, and an
  uncaught C++ exception does the same. Operations that can do either have an \<open>option\<close> result in
  which \<open>None\<close> is that abort.
\<close>

section \<open>Unsigned arithmetic with wrap-around\<close>

named_theorems wrap_simps

type_synonym u64 = nat
type_synonym u32 = nat

definition add64 :: "u64 \<Rightarrow> u64 \<Rightarrow> u64" where
  "add64 a b = (a + b) mod 2 ^ 64"

definition sub64 :: "u64 \<Rightarrow> u64 \<Rightarrow> u64" where
  "sub64 a b = (a + (2 ^ 64 - b)) mod 2 ^ 64"

definition mul64 :: "u64 \<Rightarrow> u64 \<Rightarrow> u64" where
  "mul64 a b = (a * b) mod 2 ^ 64"

definition neg64 :: "u64 \<Rightarrow> u64" where
  "neg64 a = (2 ^ 64 - a) mod 2 ^ 64"

definition add32 :: "u32 \<Rightarrow> u32 \<Rightarrow> u32" where
  "add32 a b = (a + b) mod 2 ^ 32"

definition sub32 :: "u32 \<Rightarrow> u32 \<Rightarrow> u32" where
  "sub32 a b = (a + (2 ^ 32 - b)) mod 2 ^ 32"

definition UINT64_MAX :: u64 where
  "UINT64_MAX = 2 ^ 64 - 1"

definition UINT32_MAX :: u32 where
  "UINT32_MAX = 2 ^ 32 - 1"

lemma add64_exact [wrap_simps]: "a + b < 2 ^ 64 \<Longrightarrow> add64 a b = a + b"
  by (simp add: add64_def)

lemma sub64_exact [wrap_simps]: "b \<le> a \<Longrightarrow> a < 2 ^ 64 \<Longrightarrow> sub64 a b = a - b"
proof -
  assume "b \<le> a" and "a < 2 ^ 64"
  then have "a + (2 ^ 64 - b) = (a - b) + 2 ^ 64"
    by simp
  then have "(a + (2 ^ 64 - b)) mod 2 ^ 64 = (a - b) mod 2 ^ 64"
    by (metis mod_add_self2)
  with \<open>a < 2 ^ 64\<close> show ?thesis
    by (simp add: sub64_def)
qed

lemma mul64_exact [wrap_simps]: "a * b < 2 ^ 64 \<Longrightarrow> mul64 a b = a * b"
  by (simp add: mul64_def)

lemma add32_exact [wrap_simps]: "a + b < 2 ^ 32 \<Longrightarrow> add32 a b = a + b"
  by (simp add: add32_def)

lemma sub32_exact [wrap_simps]: "b \<le> a \<Longrightarrow> a < 2 ^ 32 \<Longrightarrow> sub32 a b = a - b"
proof -
  assume "b \<le> a" and "a < 2 ^ 32"
  then have "a + (2 ^ 32 - b) = (a - b) + 2 ^ 32"
    by simp
  then have "(a + (2 ^ 32 - b)) mod 2 ^ 32 = (a - b) mod 2 ^ 32"
    by (metis mod_add_self2)
  with \<open>a < 2 ^ 32\<close> show ?thesis
    by (simp add: sub32_def)
qed

lemma add64_less [simp]: "add64 a b < 2 ^ 64"
  by (simp add: add64_def)

lemma sub64_less [simp]: "sub64 a b < 2 ^ 64"
  by (simp add: sub64_def)

lemma add32_less [simp]: "add32 a b < 2 ^ 32"
  by (simp add: add32_def)

lemma sub32_less [simp]: "sub32 a b < 2 ^ 32"
  by (simp add: sub32_def)

section \<open>Error codes\<close>

abbreviation ENOENT :: int where "ENOENT \<equiv> 2"
abbreviation EIO :: int where "EIO \<equiv> 5"
abbreviation EBADF :: int where "EBADF \<equiv> 9"
abbreviation EINVAL :: int where "EINVAL \<equiv> 22"
abbreviation ENOSPC :: int where "ENOSPC \<equiv> 28"

section \<open>Byte strings\<close>

type_synonym byte = "8 word"
type_synonym bytes = "byte list"

text \<open>The object representation of an unsigned integer on the little-endian targets.\<close>

primrec le_bytes :: "nat \<Rightarrow> nat \<Rightarrow> bytes" where
  "le_bytes 0 v = []"
| "le_bytes (Suc n) v = of_nat v # le_bytes n (v div 256)"

primrec le_val :: "bytes \<Rightarrow> nat" where
  "le_val [] = 0"
| "le_val (b # bs) = unat b + 256 * le_val bs"

lemma length_le_bytes [simp]: "length (le_bytes n v) = n"
  by (induction n arbitrary: v) auto

lemma unat_of_nat_byte: "unat (of_nat v :: byte) = v mod 256"
  by (simp add: unat_of_nat)

lemma le_val_le_bytes: "le_val (le_bytes n v) = v mod 256 ^ n"
proof (induction n arbitrary: v)
  case 0
  then show ?case by simp
next
  case (Suc n)
  have "v mod (256 * 256 ^ n) = 256 * (v div 256 mod 256 ^ n) + v mod 256"
    by (rule mod_mult2_eq)
  with Suc show ?case by (simp add: unat_of_nat_byte)
qed

lemma le_val_le_bytes_exact [simp]: "v < 256 ^ n \<Longrightarrow> le_val (le_bytes n v) = v"
  by (simp add: le_val_le_bytes)

section \<open>Association lists\<close>

text \<open>
  A hash map is an association list with distinct keys. The list order stands for the
  container's (unspecified) iteration order.
\<close>

abbreviation al_keys :: "('k \<times> 'v) list \<Rightarrow> 'k list" where
  "al_keys \<equiv> map fst"

lemma map_of_update_same [simp]: "map_of (AList.update k v xs) k = Some v"
  by (simp add: update_conv')

lemma map_of_update_other [simp]: "k' \<noteq> k \<Longrightarrow> map_of (AList.update k v xs) k' = map_of xs k'"
  by (simp add: update_conv')

lemma map_of_update: "map_of (AList.update k v xs) = (map_of xs)(k \<mapsto> v)"
  by (rule update_conv')

lemma map_of_delete: "map_of (AList.delete k xs) = (map_of xs)(k := None)"
  by (rule AList.delete_conv')

lemma map_of_delete_same [simp]: "map_of (AList.delete k xs) k = None"
  by (simp add: map_of_delete)

lemma map_of_delete_other [simp]: "k' \<noteq> k \<Longrightarrow> map_of (AList.delete k xs) k' = map_of xs k'"
  by (simp add: map_of_delete)

lemma distinct_al_update: "distinct (al_keys xs) \<Longrightarrow> distinct (al_keys (AList.update k v xs))"
  by (simp add: distinct_update)

lemma distinct_al_delete: "distinct (al_keys xs) \<Longrightarrow> distinct (al_keys (AList.delete k xs))"
  by (simp add: distinct_delete)

section \<open>Address ranges\<close>

definition arange :: "nat \<Rightarrow> nat \<Rightarrow> nat set" where
  "arange off len = {off..<off + len}"

lemma mem_arange [simp]: "x \<in> arange off len \<longleftrightarrow> off \<le> x \<and> x < off + len"
  by (simp add: arange_def)

lemma arange_zero [simp]: "arange off 0 = {}"
  by (simp add: arange_def)

lemma arange_split: "a \<le> b \<Longrightarrow> arange off b = arange off a \<union> arange (off + a) (b - a)"
  by (auto simp: arange_def)

lemma finite_arange [simp]: "finite (arange off len)"
  by (simp add: arange_def)

lemma card_arange [simp]: "card (arange off len) = len"
  by (simp add: arange_def)

lemma arange_mono: "a' \<le> a \<Longrightarrow> a + n \<le> a' + n' \<Longrightarrow> arange a n \<subseteq> arange a' n'"
  by (auto simp: arange_def)

end
