(* ===== verification/Intarith.thy ===== *)
theory Intarith
  imports Prelude
begin

unbundle bit_operations_syntax

text \<open>
  \<^verbatim>\<open>common/intarith.h\<close>: the rounding, power-of-two alignment and bit-counting helpers every
  other component calls. The templates are modelled at \<open>T = U = uint64_t\<close>, the instance the
  allocators, the journal and the device layer use. A zero divisor is undefined in C++ and every
  law below asks for a positive one.
\<close>

section \<open>Rounding\<close>

definition div_round_up :: "u64 \<Rightarrow> u64 \<Rightarrow> u64" where
  "div_round_up n d = (if n = 0 then 0 else add64 1 (sub64 n 1 div d))"

definition round_down_to :: "u64 \<Rightarrow> u64 \<Rightarrow> u64" where
  "round_down_to n d = sub64 n (n mod d)"

definition round_up_to :: "u64 \<Rightarrow> u64 \<Rightarrow> u64" where
  "round_up_to n d =
     (let rem = n mod d in if rem \<noteq> 0 then add64 n (sub64 d rem) else n)"

definition shift_round_up :: "u64 \<Rightarrow> nat \<Rightarrow> u64" where
  "shift_round_up x y = drop_bit y (sub64 (add64 x (push_bit y 1)) 1)"

section \<open>Power-of-two alignment\<close>

definition isp2 :: "u64 \<Rightarrow> bool" where
  "isp2 x \<longleftrightarrow> x > 0 \<and> x AND (x - 1) = 0"

definition p2align :: "u64 \<Rightarrow> u64 \<Rightarrow> u64" where
  "p2align x align = x AND neg64 align"

definition p2phase :: "u64 \<Rightarrow> u64 \<Rightarrow> u64" where
  "p2phase x align = x AND sub64 align 1"

definition p2nphase :: "u64 \<Rightarrow> u64 \<Rightarrow> u64" where
  "p2nphase x align = neg64 x AND sub64 align 1"

definition p2roundup :: "u64 \<Rightarrow> u64 \<Rightarrow> u64" where
  "p2roundup x align = neg64 (neg64 x AND neg64 align)"

section \<open>Bit counting\<close>

text \<open>\<open>std::countr_zero\<close>, \<open>std::countl_zero\<close>, \<open>std::bit_width\<close> and \<open>std::popcount\<close> on 64 bits.\<close>

fun ctz_from :: "nat \<Rightarrow> u64 \<Rightarrow> nat" where
  "ctz_from 0 v = 0"
| "ctz_from (Suc n) v = (if odd v then 0 else Suc (ctz_from n (v div 2)))"

definition ctz :: "u64 \<Rightarrow> nat" where
  "ctz v = ctz_from 64 v"

fun bit_width :: "u64 \<Rightarrow> nat" where
  "bit_width v = (if v = 0 then 0 else Suc (bit_width (v div 2)))"

declare bit_width.simps [simp del]

definition clz :: "u64 \<Rightarrow> nat" where
  "clz v = 64 - bit_width v"

definition cbits :: "u64 \<Rightarrow> nat" where
  "cbits v = (if v = 0 then 0 else bit_width v)"

fun popcount :: "u64 \<Rightarrow> nat" where
  "popcount v = (if v = 0 then 0 else v mod 2 + popcount (v div 2))"

declare popcount.simps [simp del]

section \<open>Powers of two\<close>

lemma and_pred_even: "(2 * m) AND (2 * m - 1) = 2 * (m AND (m - 1))" if "m > 0" for m :: nat
proof -
  from that have "2 * m - 1 = 1 + 2 * (m - 1)"
    by simp
  then show ?thesis
    by (simp add: and_rec [of "2 * m"])
qed

lemma and_pred_odd: "Suc (2 * m) AND (2 * m) = 2 * m" for m :: nat
  by (simp add: and_rec [of "Suc (2 * m)"])

lemma isp2_even: "isp2 (2 * m) \<longleftrightarrow> isp2 m"
  by (cases "m = 0") (simp_all add: isp2_def and_pred_even [unfolded One_nat_def])

lemma isp2_odd: "isp2 (Suc (2 * m)) \<longleftrightarrow> m = 0"
  by (simp add: isp2_def and_pred_odd)

lemma isp2_power: "isp2 (2 ^ k)"
  by (induction k) (simp_all add: isp2_even, simp add: isp2_def)

lemma isp2_imp_power: "isp2 x \<Longrightarrow> \<exists>k. x = 2 ^ k"
proof (induction x rule: less_induct)
  case (less x)
  show ?case
  proof (cases "even x")
    case True
    then obtain m where m: "x = 2 * m" by blast
    with less.prems have "isp2 m" and "m > 0"
      by (simp_all add: isp2_even, simp_all add: isp2_def)
    with less.IH [of m] m obtain k where "m = 2 ^ k" by auto
    with m have "x = 2 ^ Suc k" by simp
    then show ?thesis by blast
  next
    case False
    then obtain m where "x = Suc (2 * m)"
      by (metis oddE Suc_eq_plus1)
    with less.prems have "x = 2 ^ 0"
      by (simp add: isp2_odd)
    then show ?thesis by blast
  qed
qed

lemma isp2_iff: "isp2 x \<longleftrightarrow> (\<exists>k. x = 2 ^ k)"
  using isp2_imp_power isp2_power by blast

lemma isp2_pos: "isp2 x \<Longrightarrow> x > 0"
  by (simp add: isp2_def)

lemma isp2_mult: "isp2 a \<Longrightarrow> isp2 b \<Longrightarrow> isp2 (a * b)"
  by (auto simp: isp2_iff simp flip: power_add)

lemma isp2_less_power:
  assumes "isp2 x" and "x < 2 ^ 64"
  obtains k where "x = 2 ^ k" and "k < 64"
proof -
  from isp2_imp_power [OF assms(1)] obtain k where k: "x = 2 ^ k" ..
  with assms(2) have "(2 :: nat) ^ k < 2 ^ 64" by simp
  then have "k < 64" by (rule power_less_imp_less_exp [rotated]) simp
  with k show thesis by (rule that)
qed

section \<open>Alignment in arithmetic terms\<close>

lemma neg64_power: "k < 64 \<Longrightarrow> neg64 (2 ^ k) = push_bit k (mask (64 - k))"
proof -
  assume k: "k < 64"
  have "push_bit k (mask (64 - k)) = (2 ^ (64 - k) - 1) * 2 ^ k"
    by (simp add: push_bit_eq_mult mask_eq_exp_minus_1)
  also have "\<dots> = 2 ^ (64 - k) * 2 ^ k - (2 ^ k :: nat)"
    by (simp add: diff_mult_distrib)
  also have "\<dots> = 2 ^ 64 - 2 ^ k"
    using k by (simp flip: power_add)
  finally have "push_bit k (mask (64 - k)) = (2 ^ 64 - 2 ^ k :: nat)" .
  moreover have "(2 ^ 64 - 2 ^ k :: nat) < 2 ^ 64"
    by (rule diff_less) simp_all
  ultimately show ?thesis
    by (simp add: neg64_def)
qed

lemma bit_below_64: "x < 2 ^ 64 \<Longrightarrow> bit x n \<Longrightarrow> n < 64" for x :: nat
proof (rule ccontr)
  assume x: "x < 2 ^ 64" and "bit x n" and "\<not> n < 64"
  then have "(2 :: nat) ^ 64 \<le> 2 ^ n"
    by (intro power_increasing) simp_all
  with x have "x div 2 ^ n = 0"
    by (intro div_less) (rule less_le_trans)
  with \<open>bit x n\<close> show False
    by (simp add: bit_iff_odd)
qed

lemma and_neg64_power:
  assumes "k < 64" and "x < 2 ^ 64"
  shows "x AND neg64 (2 ^ k) = x div 2 ^ k * 2 ^ k"
proof -
  have "x AND neg64 (2 ^ k) = push_bit k (drop_bit k x)"
    unfolding neg64_power [OF assms(1)]
    by (rule bit_eqI) (auto simp: bit_simps possible_bit_def dest: bit_below_64 [OF assms(2)])
  then show ?thesis
    by (simp add: push_bit_eq_mult drop_bit_eq_div)
qed

lemma p2align_eq: "isp2 a \<Longrightarrow> a < 2 ^ 64 \<Longrightarrow> x < 2 ^ 64 \<Longrightarrow> p2align x a = x div a * a"
  by (elim isp2_less_power) (auto simp: p2align_def and_neg64_power)

lemma sub64_power_1: "a = 2 ^ k \<Longrightarrow> k < 64 \<Longrightarrow> sub64 a 1 = mask k"
proof -
  assume a: "a = 2 ^ k" and k: "k < 64"
  have "(2 :: nat) ^ k < 2 ^ 64"
    using k by (intro power_strict_increasing) simp_all
  moreover have "1 \<le> (2 :: nat) ^ k"
    by simp
  ultimately have "sub64 (2 ^ k) 1 = 2 ^ k - 1"
    by (intro sub64_exact)
  with a show ?thesis
    by (simp add: mask_eq_exp_minus_1)
qed

lemma p2phase_eq: "isp2 a \<Longrightarrow> a < 2 ^ 64 \<Longrightarrow> p2phase x a = x mod a"
proof (elim isp2_less_power)
  fix k assume a: "a = 2 ^ k" and k: "k < 64"
  have "sub64 a 1 = mask k"
    using a k by (rule sub64_power_1)
  then show ?thesis
    using a by (simp add: p2phase_def take_bit_eq_mod flip: take_bit_eq_mask)
qed

lemma neg64_mod_power:
  assumes "k < 64"
  shows "neg64 x mod 2 ^ k = (2 ^ 64 - x) mod 2 ^ k"
  unfolding neg64_def using assms by (intro mod_mod_cancel le_imp_power_dvd) simp

lemma p2nphase_eq:
  assumes "isp2 a" and "a < 2 ^ 64" and "x < 2 ^ 64"
  shows "p2nphase x a = (2 ^ 64 - x) mod a"
proof -
  from assms(1,2) obtain k where k: "a = 2 ^ k" "k < 64"
    by (rule isp2_less_power)
  have "sub64 a 1 = mask k"
    using k by (rule sub64_power_1)
  then have "p2nphase x a = neg64 x mod a"
    using k by (simp add: p2nphase_def take_bit_eq_mod flip: take_bit_eq_mask)
  with k show ?thesis
    by (simp add: neg64_mod_power)
qed

lemma ceil_mult_bounds:
  fixes x a :: nat
  assumes "a > 0"
  shows "x \<le> (x + (a - 1)) div a * a" and "(x + (a - 1)) div a * a < x + a"
proof -
  have "(x + (a - 1)) div a * a + (x + (a - 1)) mod a = x + (a - 1)"
    by (rule div_mult_mod_eq)
  moreover have "(x + (a - 1)) mod a < a"
    using assms by simp
  ultimately show "x \<le> (x + (a - 1)) div a * a" and "(x + (a - 1)) div a * a < x + a"
    using assms by linarith+
qed

lemma p2roundup_eq:
  assumes "isp2 a" and "a < 2 ^ 64" and "x \<le> 2 ^ 64 - a"
  shows "p2roundup x a = (x + (a - 1)) div a * a"
proof (cases "x = 0")
  case True
  with isp2_pos [OF assms(1)] show ?thesis
    by (simp add: p2roundup_def neg64_def)
next
  case False
  from assms(1,2) obtain k where k: "a = 2 ^ k" "k < 64"
    by (rule isp2_less_power)
  define q where "q = (2 :: nat) ^ (64 - k)"
  have N: "(2 :: nat) ^ 64 = q * a"
    using k by (simp add: q_def flip: power_add)
  define d where "d = (x + (a - 1)) div a"
  have pos: "a > 0" using k by simp
  have lo: "x \<le> d * a" and hi: "d * a < x + a"
    unfolding d_def by (rule ceil_mult_bounds [OF pos])+
  have "d * a < q * a"
    using hi assms(2,3) False N by simp
  then have dq: "d < q" by simp
  have "(q - d) * a \<le> q * a - x" "q * a - x < (q - d + 1) * a"
    using lo hi \<open>d * a < q * a\<close> unfolding diff_mult_distrib add_mult_distrib by linarith+
  then have quo: "(q * a - x) div a = q - d"
    by (intro div_nat_eqI) (simp_all add: mult.commute)
  have "neg64 x = q * a - x"
    using False N by (simp add: neg64_def)
  then have "neg64 x AND neg64 a = (q - d) * a"
    using quo k and_neg64_power [OF k(2), of "neg64 x"] by (simp add: neg64_def)
  then have "p2roundup x a = (q * a - (q - d) * a) mod (q * a)"
    unfolding p2roundup_def neg64_def N by simp
  also have "q * a - (q - d) * a = d * a"
    using \<open>d * a < q * a\<close> unfolding diff_mult_distrib by linarith
  also have "d * a mod (q * a) = d * a"
    using \<open>d * a < q * a\<close> by simp
  finally show ?thesis by (simp add: d_def)
qed

lemma p2nphase_roundup:
  assumes "isp2 a" and "x + a < 2 ^ 64"
  shows "x + p2nphase x a = p2roundup x a"
proof -
  have lt: "a < 2 ^ 64" "x < 2 ^ 64" "x \<le> 2 ^ 64 - a"
    using assms(2) by auto
  have pos: "a > 0" using assms(1) by (rule isp2_pos)
  obtain k where k: "a = 2 ^ k" "k < 64"
    using assms(1) lt(1) by (rule isp2_less_power)
  define c where "c = (x + (a - 1)) div a * a"
  have c: "x \<le> c" "c < x + a" "a dvd c"
    unfolding c_def by (rule ceil_mult_bounds [OF pos])+ (rule dvd_triv_right)
  have "a dvd 2 ^ 64"
    unfolding k(1) by (rule le_imp_power_dvd) (use k in simp)
  then obtain m where m: "2 ^ 64 - c = a * m"
    using c(3) by (metis dvd_diff_nat dvdE)
  have "2 ^ 64 - x = (c - x) + a * m"
    using m c assms(2) by simp
  moreover have "((c - x) + a * m) mod a = c - x"
    using c by (subst mod_mult_self2) simp
  ultimately have "(2 ^ 64 - x) mod a = c - x"
    by metis
  then show ?thesis
    unfolding p2nphase_eq [OF assms(1) lt(1,2)] p2roundup_eq [OF assms(1) lt(1,3), folded c_def]
    using c(1) by simp
qed

lemma p2align_le: "isp2 a \<Longrightarrow> a < 2 ^ 64 \<Longrightarrow> x < 2 ^ 64 \<Longrightarrow> p2align x a \<le> x"
  by (simp add: p2align_eq)

lemma p2align_dvd: "isp2 a \<Longrightarrow> a < 2 ^ 64 \<Longrightarrow> x < 2 ^ 64 \<Longrightarrow> a dvd p2align x a"
  by (simp add: p2align_eq)

lemma p2align_pos: "isp2 a \<Longrightarrow> a < 2 ^ 64 \<Longrightarrow> x < 2 ^ 64 \<Longrightarrow> a \<le> x \<Longrightarrow> 0 < p2align x a"
  by (simp add: p2align_eq div_greater_zero_iff isp2_pos)

lemma p2roundup_ge: "isp2 a \<Longrightarrow> a < 2 ^ 64 \<Longrightarrow> x \<le> 2 ^ 64 - a \<Longrightarrow> x \<le> p2roundup x a"
  unfolding p2roundup_eq by (rule ceil_mult_bounds) (rule isp2_pos)

lemma p2roundup_dvd: "isp2 a \<Longrightarrow> a < 2 ^ 64 \<Longrightarrow> x \<le> 2 ^ 64 - a \<Longrightarrow> a dvd p2roundup x a"
  by (simp add: p2roundup_eq)

lemma round_up_to_eq:
  assumes "d > 0" and "x + d \<le> 2 ^ 64"
  shows "round_up_to x d = (x + (d - 1)) div d * d"
proof (cases "x mod d = 0")
  case True
  then obtain c where x: "x = d * c" by auto
  have "(x + (d - 1)) div d = c"
    using assms(1) x by (intro div_nat_eqI) (simp_all add: algebra_simps)
  with True x show ?thesis
    by (simp add: round_up_to_def Let_def mult.commute)
next
  case False
  have "x mod d < d" using assms(1) by simp
  have "d < 2 ^ 64" using assms False by (cases "x = 0") auto
  with \<open>x mod d < d\<close> have s: "sub64 d (x mod d) = d - x mod d"
    by (simp add: sub64_exact)
  have "x + (d - x mod d) = (x div d + 1) * d"
    using div_mult_mod_eq [of x d] \<open>x mod d < d\<close> unfolding add_mult_distrib by linarith
  moreover have "(x + (d - 1)) div d = x div d + 1"
  proof (rule div_nat_eqI)
    show "d * (x div d + 1) \<le> x + (d - 1)"
      using mult_div_mod_eq [of d x] False assms(1) unfolding distrib_left by linarith
    have "d * Suc (x div d + 1) = d * (x div d) + d + d"
      by simp
    then show "x + (d - 1) < d * Suc (x div d + 1)"
      using mult_div_mod_eq [of d x] \<open>x mod d < d\<close> by linarith
  qed
  ultimately show ?thesis
    using s False assms by (simp add: round_up_to_def Let_def add64_exact)
qed

text \<open>
  For a power-of-two alignment \<open>a\<close>, \<open>p2align\<close> is the largest multiple of \<open>a\<close> not above \<open>x\<close>,
  \<open>p2phase\<close> is the distance to it, \<open>p2roundup\<close> is the least multiple of \<open>a\<close> not below \<open>x\<close>, and
  \<open>p2nphase\<close> is the distance to that one; no step wraps as long as the rounded value fits in 64
  bits. \<open>isp2\<close> holds exactly of the powers of two.
\<close>

theorem p2_alignment:
  assumes "isp2 a" and "x + a < 2 ^ 64"
  shows "p2align x a + p2phase x a = x \<and> p2phase x a < a \<and> a dvd p2align x a \<and>
         x + p2nphase x a = p2roundup x a \<and> p2nphase x a < a \<and> a dvd p2roundup x a \<and>
         (\<exists>k. a = 2 ^ k)"
proof -
  have bounds: "a < 2 ^ 64" "x < 2 ^ 64" "x \<le> 2 ^ 64 - a" and pos: "a > 0"
    using assms isp2_pos by auto
  have "x + p2nphase x a = p2roundup x a"
    by (rule p2nphase_roundup) (use assms in auto)
  with assms(1) bounds pos show ?thesis
    by (simp add: p2align_eq p2phase_eq p2nphase_eq p2roundup_dvd isp2_imp_power)
qed

theorem p2_alignment_witness:
  "isp2 4096 \<and> p2align 10000 4096 + p2phase 10000 4096 = 10000 \<and>
   10000 + p2nphase 10000 4096 = p2roundup 10000 4096"
proof -
  have "isp2 4096"
    using isp2_power [of 12] by simp
  with p2_alignment [of 4096 10000] show ?thesis by simp
qed

end
