(* ===== verification/Ranges.thy ===== *)
theory Ranges
  imports Prelude
begin

text \<open>
  Sorted lists of disjoint address ranges: the abstract content of \<open>interval_set\<close> and of the range
  tree of \<open>AvlAllocator\<close>. A range is a pair of its first address and the address after its last;
  two neighbours leave a gap of at least one address, so a set of addresses has one such list.
\<close>

type_synonym ranges = "(nat \<times> nat) list"

fun ranges_ok :: "nat \<Rightarrow> ranges \<Rightarrow> bool" where
  "ranges_ok lb [] \<longleftrightarrow> True"
| "ranges_ok lb ((s, e) # rs) \<longleftrightarrow> lb \<le> s \<and> s < e \<and> ranges_ok (Suc e) rs"

text \<open>The least start a range may have after \<open>rs\<close>.\<close>

fun rtop :: "nat \<Rightarrow> ranges \<Rightarrow> nat" where
  "rtop lb [] = lb"
| "rtop lb ((s, e) # rs) = rtop (Suc e) rs"

definition addrs :: "ranges \<Rightarrow> nat set" where
  "addrs rs = (\<Union>(s, e) \<in> set rs. {s..<e})"

definition covered :: "ranges \<Rightarrow> nat" where
  "covered rs = (\<Sum>(s, e) \<leftarrow> rs. e - s)"

lemma addrs_simps [simp]:
  "addrs [] = {}"
  "addrs ((s, e) # rs) = {s..<e} \<union> addrs rs"
  "addrs (rs @ ts) = addrs rs \<union> addrs ts"
  by (auto simp: addrs_def)

lemma covered_simps [simp]:
  "covered [] = 0"
  "covered ((s, e) # rs) = (e - s) + covered rs"
  "covered (rs @ ts) = covered rs + covered ts"
  by (simp_all add: covered_def)

lemma rtop_append [simp]: "rtop lb (rs @ ts) = rtop (rtop lb rs) ts"
  by (induction lb rs rule: rtop.induct) auto

lemma ranges_ok_append [simp]:
  "ranges_ok lb (rs @ ts) \<longleftrightarrow> ranges_ok lb rs \<and> ranges_ok (rtop lb rs) ts"
  by (induction lb rs rule: ranges_ok.induct) auto

lemma ranges_ok_mono: "ranges_ok lb rs \<Longrightarrow> lb' \<le> lb \<Longrightarrow> ranges_ok lb' rs"
  by (cases rs) auto

lemma rtop_mono: "lb' \<le> lb \<Longrightarrow> rtop lb' rs \<le> rtop lb rs"
  by (cases rs) auto

lemma rtop_ge: "ranges_ok lb rs \<Longrightarrow> lb \<le> rtop lb rs"
proof (induction lb rs rule: ranges_ok.induct)
  case (2 lb s e rs)
  then have "lb \<le> Suc e" and "Suc e \<le> rtop (Suc e) rs" by auto
  then show ?case by (simp add: order_trans [of lb "Suc e"])
qed simp

lemma ranges_ok_addrs_ge: "ranges_ok lb rs \<Longrightarrow> x \<in> addrs rs \<Longrightarrow> lb \<le> x"
  by (induction lb rs rule: ranges_ok.induct) fastforce+

lemma ranges_ok_addrs_less: "ranges_ok lb rs \<Longrightarrow> x \<in> addrs rs \<Longrightarrow> Suc x < rtop lb rs"
proof (induction lb rs rule: ranges_ok.induct)
  case (2 lb s e rs)
  then show ?case
    using rtop_ge [of "Suc e" rs] by auto
qed simp

lemma ranges_ok_memD: "ranges_ok lb rs \<Longrightarrow> (s, e) \<in> set rs \<Longrightarrow> lb \<le> s \<and> s < e \<and> Suc e \<le> rtop lb rs"
proof (induction lb rs rule: ranges_ok.induct)
  case (2 lb s' e' rs)
  then show ?case
    using rtop_ge [of "Suc e'" rs] by auto
qed simp

lemma rtop_le: "(\<And>s e. (s, e) \<in> set rs \<Longrightarrow> Suc e \<le> b) \<Longrightarrow> lb \<le> b \<Longrightarrow> rtop lb rs \<le> b"
  by (induction lb rs rule: rtop.induct) auto

lemma finite_addrs [simp]: "finite (addrs rs)"
  by (auto simp: addrs_def)

lemma mem_addrs: "x \<in> addrs rs \<longleftrightarrow> (\<exists>s e. (s, e) \<in> set rs \<and> s \<le> x \<and> x < e)"
  unfolding addrs_def by force

lemma addrs_subset: "(s, e) \<in> set rs \<Longrightarrow> {s..<e} \<subseteq> addrs rs"
  unfolding addrs_def by force

lemma card_addrs: "ranges_ok lb rs \<Longrightarrow> card (addrs rs) = covered rs"
proof (induction lb rs rule: ranges_ok.induct)
  case (2 lb s e rs)
  then have "{s..<e} \<inter> addrs rs = {}"
    using ranges_ok_addrs_ge [of "Suc e" rs] by fastforce
  with 2 show ?case
    by (simp add: card_Un_disjoint)
qed simp

lemma covered_le: "ranges_ok lb rs \<Longrightarrow> (\<And>s e. (s, e) \<in> set rs \<Longrightarrow> e \<le> b) \<Longrightarrow> covered rs \<le> b - lb"
proof (induction lb rs rule: ranges_ok.induct)
  case (2 lb s e rs)
  then have "covered rs \<le> b - Suc e" and "e \<le> b" and "lb \<le> s" and "s < e"
    by auto
  then show ?case by simp
qed simp

text \<open>A range of addresses inside the set lies inside one range of the list.\<close>

lemma addrs_contains_range:
  assumes "ranges_ok lb rs" and "{a..<b} \<subseteq> addrs rs" and "a < b"
  obtains s e where "(s, e) \<in> set rs" and "s \<le> a" and "b \<le> e"
  using assms
proof (induction lb rs rule: ranges_ok.induct)
  case (1 lb)
  then show ?case by auto
next
  case (2 lb s e rs)
  have ge: "\<And>x. x \<in> addrs rs \<Longrightarrow> Suc e \<le> x"
    using 2 ranges_ok_addrs_ge by auto
  show ?case
  proof (cases "a < e")
    case True
    then have "a \<in> {s..<e}"
      using 2 ge [of a] by fastforce
    moreover have "b \<le> e"
    proof (rule ccontr)
      assume "\<not> b \<le> e"
      with True have "e \<in> {a..<b}" by auto
      with 2 ge [of e] show False by auto
    qed
    ultimately show ?thesis using 2 by auto
  next
    case False
    with 2 have "{a..<b} \<subseteq> addrs rs" by auto
    with 2 show ?thesis by auto
  qed
qed

text \<open>The list is determined by the set of addresses.\<close>

lemma ranges_unique:
  "ranges_ok lb rs \<Longrightarrow> ranges_ok lb' ts \<Longrightarrow> addrs rs = addrs ts \<Longrightarrow> rs = ts"
proof (induction rs arbitrary: lb lb' ts)
  case Nil
  then show ?case by (cases ts) auto
next
  case (Cons r rs)
  obtain s e where r: "r = (s, e)" by (cases r)
  from Cons.prems r have ok: "s < e" "ranges_ok (Suc e) rs" by auto
  have ne: "ts \<noteq> []"
    using Cons.prems r ok by auto
  then obtain s' e' ts' where ts: "ts = (s', e') # ts'" by (cases ts) auto
  from Cons.prems ts have ok': "s' < e'" "ranges_ok (Suc e') ts'" by auto
  note ge = ranges_ok_addrs_ge [OF ok(2)] and ge' = ranges_ok_addrs_ge [OF ok'(2)]
  have eq: "{s..<e} \<union> addrs rs = {s'..<e'} \<union> addrs ts'"
    using Cons.prems(3) r ts by simp
  have "s = s'"
  proof (rule antisym)
    have "s' \<in> {s..<e} \<union> addrs rs" using eq ok'(1) by auto
    then show "s \<le> s'" using ge ok by fastforce
    have "s \<in> {s'..<e'} \<union> addrs ts'" using eq ok(1) by auto
    then show "s' \<le> s" using ge' ok' by fastforce
  qed
  moreover have "e = e'"
  proof (rule antisym)
    show "e \<le> e'"
    proof (rule ccontr)
      assume "\<not> e \<le> e'"
      then have "e' \<in> {s..<e}" using ok' \<open>s = s'\<close> by auto
      then have "e' \<in> {s'..<e'} \<union> addrs ts'" using eq by auto
      then show False using ge' [of e'] by auto
    qed
    show "e' \<le> e"
    proof (rule ccontr)
      assume "\<not> e' \<le> e"
      then have "e \<in> {s'..<e'}" using ok \<open>s = s'\<close> by auto
      then have "e \<in> {s..<e} \<union> addrs rs" using eq by auto
      then show False using ge [of e] by auto
    qed
  qed
  moreover have "addrs rs = addrs ts'"
  proof -
    have "{s..<e} \<inter> addrs rs = {}" and "{s..<e} \<inter> addrs ts' = {}"
      using ge ge' \<open>e = e'\<close> by fastforce+
    with eq \<open>s = s'\<close> \<open>e = e'\<close> show ?thesis by blast
  qed
  ultimately show ?case
    using Cons.IH [OF ok(2) ok'(2)] r ts by simp
qed

section \<open>Whole units\<close>

text \<open>Free space made of whole units.\<close>

definition whole_units :: "nat \<Rightarrow> nat set \<Rightarrow> bool" where
  "whole_units unit F \<longleftrightarrow> (\<forall>x y. x div unit = y div unit \<longrightarrow> x \<in> F \<longrightarrow> y \<in> F)"

lemma whole_units_diff:
  assumes "whole_units unit F" and "unit dvd off" and "unit dvd len" and "unit > 0"
  shows "whole_units unit (F - arange off len)"
proof -
  obtain c d where off: "off = c * unit" and len: "off + len = d * unit"
    using assms(2,3) by (metis dvd_add dvd_div_mult_self)
  have "x \<in> arange off len \<longleftrightarrow> c \<le> x div unit \<and> x div unit < d" for x
    using assms(4) unfolding mem_arange len unfolding off
    by (simp add: less_eq_div_iff_mult_less_eq div_less_iff_less_mult)
  then have "x \<in> arange off len \<longleftrightarrow> y \<in> arange off len" if "x div unit = y div unit" for x y
    using that by simp
  with assms(1) show ?thesis
    unfolding whole_units_def by blast
qed

lemma range_maximal:
  assumes "ranges_ok lb rs" and "(s, e) \<in> set rs"
  shows "e \<notin> addrs rs" and "s > 0 \<Longrightarrow> s - 1 \<notin> addrs rs"
proof -
  obtain B A where rs: "rs = B @ (s, e) # A" using assms(2) by (meson split_list)
  have lo: "x \<in> addrs B \<Longrightarrow> Suc x < s" and hi: "x \<in> addrs A \<Longrightarrow> e < x" and "s < e" for x
    using assms(1) rs ranges_ok_addrs_less [of lb B x] ranges_ok_addrs_ge [of "Suc e" A x] by auto
  then show "e \<notin> addrs rs" and "s > 0 \<Longrightarrow> s - 1 \<notin> addrs rs"
    using rs by force+
qed

lemma whole_units_range:
  assumes "whole_units unit (addrs rs)" and "ranges_ok lb rs" and "(s, e) \<in> set rs" and "unit > 0"
  shows "unit dvd s" and "unit dvd e"
proof -
  note m = range_maximal [OF assms(2,3)]
  have mem: "s \<in> addrs rs" "e - 1 \<in> addrs rs" "s < e"
    using addrs_subset [OF assms(3)] ranges_ok_memD [OF assms(2,3)] by auto
  have pred: "(x - 1) div unit = x div unit" if "\<not> unit dvd x" for x
    using that assms(4) by (cases x) (auto simp: div_Suc mod_eq_0_iff_dvd)
  show "unit dvd s"
    using assms(1) mem(1) m(2) pred [of s] unfolding whole_units_def by (metis dvd_0_right gr0I)
  show "unit dvd e"
    using assms(1) mem(2) m(1) pred [of e] unfolding whole_units_def by metis
qed

end
