(* ===== verification/Interval_Set.thy ===== *)
theory Interval_Set
  imports Ranges
begin

text \<open>
  \<^verbatim>\<open>common/interval_set.h\<close> at \<open>T = uint64_t\<close>. The \<open>std::map\<close> from offset to length is the list of
  its pairs in key order, \<open>_size\<close> the cached number of covered addresses. The contract proved here
  is that the class is a set of addresses: \<open>insert\<close> adds a range, \<open>erase\<close> removes one, \<open>size\<close> is
  the number of addresses, and the stored map is canonical (sorted, disjoint, coalesced).
\<close>

section \<open>The class\<close>

record interval_set =
  ivals :: "(u64 \<times> u64) list"
  isize :: u64

definition iset_empty :: interval_set where
  "iset_empty = \<lparr>ivals = [], isize = 0\<rparr>"

text \<open>\<open>m_[k] = v\<close> on the ordered map.\<close>

fun omap_set :: "u64 \<Rightarrow> u64 \<Rightarrow> (u64 \<times> u64) list \<Rightarrow> (u64 \<times> u64) list" where
  "omap_set k v [] = [(k, v)]"
| "omap_set k v (p # ps) =
     (if k < fst p then (k, v) # p # ps
      else if k = fst p then (k, v) # ps
      else p # omap_set k v ps)"

lemma omap_set_filter:
  "filter (\<lambda>p. fst p < k) (omap_set k v ps) = filter (\<lambda>p. fst p < k) ps"
  by (induction ps) auto

text \<open>The two sides of \<open>m_.lower_bound(off)\<close>.\<close>

definition below :: "u64 \<Rightarrow> (u64 \<times> u64) list \<Rightarrow> (u64 \<times> u64) list" where
  "below off m = takeWhile (\<lambda>p. fst p < off) m"

definition from_lb :: "u64 \<Rightarrow> (u64 \<times> u64) list \<Rightarrow> (u64 \<times> u64) list" where
  "from_lb off m = dropWhile (\<lambda>p. fst p < off) m"

text \<open>The loop of \<open>insert\<close>: absorb every interval that touches the growing one.\<close>

fun ins_absorb :: "u64 \<Rightarrow> u64 \<Rightarrow> u64 \<Rightarrow> (u64 \<times> u64) list \<Rightarrow> u64 \<times> u64 \<times> (u64 \<times> u64) list" where
  "ins_absorb off len old_len [] = (len, old_len, [])"
| "ins_absorb off len old_len ((s, l) # r) =
     (if s \<le> add64 off len
      then ins_absorb off (max len (sub64 (add64 s l) off)) (add64 old_len l) r
      else (len, old_len, (s, l) # r))"

definition iset_insert :: "u64 \<Rightarrow> u64 \<Rightarrow> interval_set \<Rightarrow> interval_set" where
  "iset_insert off len iv =
     (if len = 0 then iv
      else
        let before = below off (ivals iv);
            (len1, old1, rest) = ins_absorb off len 0 (from_lb off (ivals iv))
        in if before \<noteq> [] \<and> off \<le> add64 (fst (last before)) (snd (last before))
           then
             let (ps, pl) = last before;
                 new_end = max (add64 off len1) (add64 ps pl);
                 len2 = sub64 new_end ps
             in \<lparr>ivals = butlast before @ (ps, len2) # rest,
                 isize = add64 (isize iv) (sub64 len2 (add64 old1 pl))\<rparr>
           else
             \<lparr>ivals = before @ (off, len1) # rest,
              isize = add64 (isize iv) (sub64 len1 old1)\<rparr>)"

text \<open>
  The loop of \<open>erase\<close>. \<open>m_[end] = right_len\<close> goes to the keys after the iterator, where the loop
  stops at it.
\<close>

function (sequential) er_loop ::
  "u64 \<Rightarrow> u64 \<Rightarrow> u64 \<Rightarrow> (u64 \<times> u64) list \<Rightarrow> u64 \<times> u64 \<times> (u64 \<times> u64) list" where
  "er_loop en old_len new_len [] = (old_len, new_len, [])"
| "er_loop en old_len new_len ((s, l) # r) =
     (if s < en
      then
        (let it_end = add64 s l; old1 = add64 old_len l
         in if it_end > en
            then er_loop en old1 (add64 new_len (sub64 it_end en))
                   (omap_set en (sub64 it_end en) r)
            else er_loop en old1 new_len r)
      else (old_len, new_len, (s, l) # r))"
  by pat_completeness auto

termination
  by (relation "measure (\<lambda>(e, _, _, ps). length (filter (\<lambda>p. fst p < e) ps))")
    (auto simp: omap_set_filter)

definition iset_erase :: "u64 \<Rightarrow> u64 \<Rightarrow> interval_set \<Rightarrow> interval_set" where
  "iset_erase off len iv =
     (if len = 0 then iv
      else
        let before = below off (ivals iv);
            after = from_lb off (ivals iv);
            en = add64 off len;
            (before1, after1, old1, new1) =
              (if before \<noteq> [] \<and> off < add64 (fst (last before)) (snd (last before))
               then
                 let (ps, pl) = last before;
                     cut = butlast before @ [(ps, sub64 off ps)];
                     right_len = sub64 (add64 ps pl) en
                 in if en < add64 ps pl
                    then
                      (if after = [] \<or> en < fst (hd after)
                       then (omap_set en right_len cut, after, pl,
                             add64 (sub64 off ps) right_len)
                       else (cut, omap_set en right_len after, pl,
                             add64 (sub64 off ps) right_len))
                    else (cut, after, pl, sub64 off ps)
               else (before, after, 0, 0));
            (old2, new2, rest) = er_loop en old1 new1 after1
        in \<lparr>ivals = before1 @ rest, isize = add64 (isize iv) (sub64 new2 old2)\<rparr>)"

definition iset_clear :: "interval_set \<Rightarrow> interval_set" where
  "iset_clear iv = \<lparr>ivals = [], isize = 0\<rparr>"

text \<open>\<open>range_start\<close> and \<open>range_end\<close> assert that the set is not empty.\<close>

definition range_start :: "interval_set \<Rightarrow> u64 option" where
  "range_start iv = (if ivals iv = [] then None else Some (fst (hd (ivals iv))))"

definition range_end :: "interval_set \<Rightarrow> u64 option" where
  "range_end iv =
     (if ivals iv = [] then None
      else Some (add64 (fst (last (ivals iv))) (snd (last (ivals iv)))))"

definition iset_insert_set :: "interval_set \<Rightarrow> interval_set \<Rightarrow> interval_set" where
  "iset_insert_set other iv = fold (\<lambda>(off, len). iset_insert off len) (ivals other) iv"

text \<open>\<open>_recalc_size\<close>, run after \<open>decode\<close> has filled the map.\<close>

definition recalc_size :: "interval_set \<Rightarrow> interval_set" where
  "recalc_size iv = iv\<lparr>isize := fold (\<lambda>(off, len) n. add64 n len) (ivals iv) 0\<rparr>"

section \<open>The abstract set and the invariant\<close>

definition to_ranges :: "(u64 \<times> u64) list \<Rightarrow> ranges" where
  "to_ranges m = map (\<lambda>(s, l). (s, s + l)) m"

definition iset_addrs :: "interval_set \<Rightarrow> nat set" where
  "iset_addrs iv = addrs (to_ranges (ivals iv))"

definition iset_inv :: "interval_set \<Rightarrow> bool" where
  "iset_inv iv \<longleftrightarrow>
     ranges_ok 0 (to_ranges (ivals iv)) \<and>
     (\<forall>(s, l) \<in> set (ivals iv). s + l < 2 ^ 64) \<and>
     isize iv = covered (to_ranges (ivals iv))"

lemma to_ranges_simps [simp]:
  "to_ranges [] = []"
  "to_ranges ((s, l) # m) = (s, s + l) # to_ranges m"
  "to_ranges (m @ m') = to_ranges m @ to_ranges m'"
  by (simp_all add: to_ranges_def)

lemma mem_to_ranges: "(s, e) \<in> set (to_ranges m) \<longleftrightarrow> (\<exists>l. (s, l) \<in> set m \<and> e = s + l)"
  by (force simp: to_ranges_def)

lemma below_from_lb: "below off m @ from_lb off m = m"
  by (simp add: below_def from_lb_def)

lemma below_less: "(s, l) \<in> set (below off m) \<Longrightarrow> s < off"
  by (auto simp: below_def dest: set_takeWhileD)

lemma from_lb_ge:
  "ranges_ok lb (to_ranges m) \<Longrightarrow> (s, l) \<in> set (from_lb off m) \<Longrightarrow> off \<le> s"
proof (induction m arbitrary: lb)
  case Nil
  then show ?case by (simp add: from_lb_def)
next
  case (Cons p m)
  obtain s' l' where p: "p = (s', l')" by (cases p)
  show ?case
  proof (cases "s' < off")
    case True
    with Cons p show ?thesis by (auto simp: from_lb_def)
  next
    case False
    have "off \<le> s''" if "(s'', l'') \<in> set m" for s'' l''
    proof -
      have "(s'', s'' + l'') \<in> set (to_ranges m)"
        using that by (auto simp: mem_to_ranges)
      moreover have "ranges_ok (Suc (s' + l')) (to_ranges m)"
        using Cons.prems p by simp
      ultimately have "Suc (s' + l') \<le> s''"
        using ranges_ok_memD by blast
      with False show ?thesis by simp
    qed
    with False Cons.prems p show ?thesis by (auto simp: from_lb_def)
  qed
qed

lemma size_step:
  assumes "old \<le> n + len" and "n + len - old < 2 ^ 64" and "old < 2 ^ 64"
  shows "add64 n (sub64 len old) = n + len - old"
proof -
  have "add64 n (sub64 len old) = (n + (len + (2 ^ 64 - old))) mod 2 ^ 64"
    unfolding add64_def sub64_def by (rule mod_add_right_eq)
  also have "n + (len + (2 ^ 64 - old)) = (n + len - old) + 2 ^ 64"
    using assms by simp
  finally show ?thesis
    using assms(2) by simp
qed

lemma ranges_covered_less:
  assumes "ranges_ok lb (to_ranges m)" and "\<forall>(s, l) \<in> set m. s + l < 2 ^ 64"
  shows "covered (to_ranges m) < 2 ^ 64"
proof -
  have "covered (to_ranges m) \<le> (2 ^ 64 - 1) - lb"
    using assms by (intro covered_le) (auto simp: mem_to_ranges)
  then show ?thesis by simp
qed

text \<open>A rebuilt map satisfies the invariant once its covered length balances the size update.\<close>

lemma iset_rebuild:
  assumes "ranges_ok 0 (to_ranges m)" and "\<forall>(s, l) \<in> set m. s + l < 2 ^ 64"
    and "old + covered (to_ranges m) = n + len" and "old < 2 ^ 64"
  shows "iset_inv \<lparr>ivals = m, isize = add64 n (sub64 len old)\<rparr>"
proof -
  have "covered (to_ranges m) = n + len - old"
    using assms(3) by simp
  moreover have "covered (to_ranges m) < 2 ^ 64"
    using assms(1,2) by (rule ranges_covered_less)
  ultimately show ?thesis
    using assms size_step [of old n len] by (simp add: iset_inv_def)
qed

text \<open>What the invariant says of the two sides of \<open>lower_bound\<close>.\<close>

lemma iset_sides:
  fixes off :: u64
  assumes "iset_inv iv"
  defines "b \<equiv> below off (ivals iv)" and "a \<equiv> from_lb off (ivals iv)"
  shows "ivals iv = b @ a" and "ranges_ok 0 (to_ranges b)"
    and "ranges_ok (rtop 0 (to_ranges b)) (to_ranges a)"
    and "ranges_ok off (to_ranges a)"
    and "\<forall>(s, l) \<in> set b \<union> set a. s + l < 2 ^ 64"
    and "isize iv = covered (to_ranges b) + covered (to_ranges a)"
    and "covered (to_ranges b) + covered (to_ranges a) < 2 ^ 64"
proof -
  show split: "ivals iv = b @ a"
    by (simp add: b_def a_def below_from_lb)
  show "ranges_ok 0 (to_ranges b)" "ranges_ok (rtop 0 (to_ranges b)) (to_ranges a)"
    "\<forall>(s, l) \<in> set b \<union> set a. s + l < 2 ^ 64"
    "isize iv = covered (to_ranges b) + covered (to_ranges a)"
    using assms(1) split by (auto simp: iset_inv_def)
  moreover have "\<And>s l. (s, l) \<in> set a \<Longrightarrow> off \<le> s"
    using assms(1) from_lb_ge [of 0 "ivals iv" _ _ off] by (auto simp: iset_inv_def a_def)
  ultimately show "ranges_ok off (to_ranges a)"
    by (cases a) fastforce+
  show "covered (to_ranges b) + covered (to_ranges a) < 2 ^ 64"
    using assms(1) split ranges_covered_less [of 0 "ivals iv"] by (simp add: iset_inv_def)
qed

section \<open>Insertion\<close>

lemma ins_absorb_spec:
  assumes "ins_absorb off len old m = (len', old', rest)"
    and "ranges_ok lb (to_ranges m)" and "off \<le> lb" and "0 < len" and "off + len < 2 ^ 64"
    and "\<forall>(s, l) \<in> set m. s + l < 2 ^ 64" and "old + covered (to_ranges m) < 2 ^ 64"
  shows "len \<le> len' \<and> off + len' < 2 ^ 64 \<and> ranges_ok (Suc (off + len')) (to_ranges rest) \<and>
    {off..<off + len'} \<union> addrs (to_ranges rest) = {off..<off + len} \<union> addrs (to_ranges m) \<and>
    old' + covered (to_ranges rest) = old + covered (to_ranges m) \<and> (\<exists>pre. m = pre @ rest)"
  using assms
proof (induction off len old m arbitrary: lb rule: ins_absorb.induct)
  case (1 off len old_len)
  then show ?case by auto
next
  case (2 off len old s l r)
  have bounds: "s + l < 2 ^ 64" "off \<le> s" "0 < l" "ranges_ok (Suc (s + l)) (to_ranges r)"
    using "2.prems" by auto
  have ol: "add64 off len = off + len"
    using "2.prems" by (simp add: add64_exact)
  show ?case
  proof (cases "s \<le> off + len")
    case True
    define len1 where "len1 = max len (s + l - off)"
    have arith: "max len (sub64 (add64 s l) off) = len1" "add64 old l = old + l"
      using "2.prems" bounds by (simp_all add: len1_def add64_exact sub64_exact)
    have "len1 \<le> len' \<and> off + len' < 2 ^ 64 \<and> ranges_ok (Suc (off + len')) (to_ranges rest) \<and>
      {off..<off + len'} \<union> addrs (to_ranges rest) = {off..<off + len1} \<union> addrs (to_ranges r) \<and>
      old' + covered (to_ranges rest) = old + l + covered (to_ranges r) \<and> (\<exists>pre. r = pre @ rest)"
    proof (rule "2.IH" [unfolded ol arith, OF True])
      show "ins_absorb off len1 (old + l) r = (len', old', rest)"
        using "2.prems"(1) True by (simp add: ol arith)
      show "ranges_ok (Suc (s + l)) (to_ranges r)" and "off \<le> Suc (s + l)"
        using bounds by simp_all
    qed (use "2.prems" True bounds in \<open>auto simp: len1_def\<close>)
    moreover have "{off..<off + len1} = {off..<off + len} \<union> {s..<s + l}"
      using True bounds by (auto simp: len1_def)
    ultimately show ?thesis
      by (auto simp: len1_def intro: exI [of _ "(s, l) # _"])
  next
    case False
    with "2.prems" ol bounds show ?thesis by auto
  qed
qed

text \<open>The branch in which the new interval joins the one before it.\<close>

lemma insert_merges_prev:
  assumes "ranges_ok 0 (to_ranges (b @ [(ps, pl)]))"
    and "ranges_ok (rtop 0 (to_ranges (b @ [(ps, pl)]))) (to_ranges (pre @ rest))"
    and "ranges_ok (Suc (off + len)) (to_ranges rest)"
    and "ps < off" and "off \<le> ps + pl" and "0 < len"
  defines "en \<equiv> max (off + len) (ps + pl)"
  shows "ranges_ok 0 (to_ranges (b @ (ps, en - ps) # rest))"
    and "{ps..<en} = {ps..<ps + pl} \<union> {off..<off + len}"
proof -
  have "ranges_ok (Suc (ps + pl)) (to_ranges rest)"
    using assms(2) rtop_ge [of "Suc (ps + pl)" "to_ranges pre"] by (auto intro: ranges_ok_mono)
  with assms(3) have "ranges_ok (Suc en) (to_ranges rest)"
    by (cases rest) (auto simp: en_def)
  with assms show "ranges_ok 0 (to_ranges (b @ (ps, en - ps) # rest))"
    by (auto simp: en_def)
  show "{ps..<en} = {ps..<ps + pl} \<union> {off..<off + len}"
    using assms(4-6) by (auto simp: en_def)
qed

lemma iset_insert_correct:
  assumes inv: "iset_inv iv" and fits: "off + len < 2 ^ 64"
  shows "iset_inv (iset_insert off len iv) \<and>
         iset_addrs (iset_insert off len iv) = iset_addrs iv \<union> arange off len"
proof (cases "len = 0")
  case True
  with inv show ?thesis by (simp add: iset_insert_def)
next
  case False
  define before after where "before = below off (ivals iv)" and "after = from_lb off (ivals iv)"
  note sides = iset_sides [OF inv, of off, folded before_def after_def]
  obtain len1 old1 rest where ab: "ins_absorb off len 0 after = (len1, old1, rest)"
    by (metis prod_cases3)
  obtain pre where sp: "len \<le> len1" "off + len1 < 2 ^ 64"
    "ranges_ok (Suc (off + len1)) (to_ranges rest)"
    "{off..<off + len1} \<union> addrs (to_ranges rest) = {off..<off + len} \<union> addrs (to_ranges after)"
    "old1 + covered (to_ranges rest) = covered (to_ranges after)" "after = pre @ rest"
    using ins_absorb_spec [OF ab sides(4)] False fits sides(5,7) by auto
  note res = iset_insert_def [of off len iv, folded before_def after_def, unfolded ab]
  show ?thesis
  proof (cases "before \<noteq> [] \<and> off \<le> add64 (fst (last before)) (snd (last before))")
    case merge: True
    then obtain b ps pl where bf: "before = b @ [(ps, pl)]"
      by (metis append_butlast_last_id surj_pair)
    have ps: "ps < off" "ps + pl < 2 ^ 64"
      using bf below_less [of ps pl off "ivals iv"] sides(5) by (auto simp: before_def)
    have touch: "off \<le> ps + pl"
      using merge bf ps by (simp add: add64_exact)
    define en where "en = max (off + len1) (ps + pl)"
    note mp = insert_merges_prev [OF sides(2,3) [unfolded bf sp(6)] sp(3) ps(1) touch, folded en_def]
    have en: "ps < en" "en < 2 ^ 64"
      using ps sp(2) by (auto simp: en_def)
    have new: "iset_insert off len iv =
        \<lparr>ivals = b @ (ps, en - ps) # rest, isize = add64 (isize iv) (sub64 (en - ps) (old1 + pl))\<rparr>"
      using False merge bf en sp sides(7) ps
      by (simp add: res Let_def en_def [symmetric] sub64_exact add64_exact)
    have "iset_inv (iset_insert off len iv)"
      unfolding new using mp(1) False sp sides bf en ps by (intro iset_rebuild) auto
    moreover have "iset_addrs (iset_insert off len iv) = iset_addrs iv \<union> arange off len"
      using new mp(2) sp(1,4) sides(1) bf en False by (auto simp: iset_addrs_def arange_def)
    ultimately show ?thesis ..
  next
    case noM: False
    have new: "iset_insert off len iv =
        \<lparr>ivals = before @ (off, len1) # rest, isize = add64 (isize iv) (sub64 len1 old1)\<rparr>"
      using False noM by (auto simp: res Let_def)
    have "rtop 0 (to_ranges before) \<le> off"
      using noM sides(5) by (cases before rule: rev_cases) (auto simp: add64_exact)
    then have "iset_inv (iset_insert off len iv)"
      unfolding new using False sp sides by (intro iset_rebuild) auto
    moreover have "iset_addrs (iset_insert off len iv) = iset_addrs iv \<union> arange off len"
      using new sp(4) sides(1) by (auto simp: iset_addrs_def arange_def)
    ultimately show ?thesis ..
  qed
qed

section \<open>Removal\<close>

lemma omap_set_front: "ranges_ok (Suc k) (to_ranges r) \<Longrightarrow> omap_set k v r = (k, v) # r"
  by (cases r) auto

lemma omap_set_back: "\<forall>p \<in> set r. fst p < k \<Longrightarrow> omap_set k v r = r @ [(k, v)]"
  by (induction r) auto

lemma er_loop_skip: "ranges_ok en (to_ranges m) \<Longrightarrow> er_loop en old new m = (old, new, m)"
  by (cases m) auto

lemma er_loop_spec:
  assumes "er_loop en old new m = (old', new', rest)"
    and "ranges_ok lb (to_ranges m)" and "\<forall>(s, l) \<in> set m. s + l < 2 ^ 64"
    and "old + covered (to_ranges m) < 2 ^ 64" and "new + covered (to_ranges m) < 2 ^ 64"
  shows "ranges_ok (max lb en) (to_ranges rest) \<and>
    addrs (to_ranges rest) = addrs (to_ranges m) - {..<en} \<and>
    old' + covered (to_ranges rest) + new = old + covered (to_ranges m) + new' \<and>
    (\<forall>(s, l) \<in> set rest. s + l < 2 ^ 64) \<and> old' \<le> old + covered (to_ranges m)"
  using assms
proof (induction m arbitrary: lb old new)
  case Nil
  then show ?case by auto
next
  case (Cons p r)
  obtain s l where p: "p = (s, l)" by (cases p)
  have b: "lb \<le> s" "0 < l" "s + l < 2 ^ 64" "ranges_ok (Suc (s + l)) (to_ranges r)"
    "add64 s l = s + l" "add64 old l = old + l"
    using Cons.prems p by (auto simp: add64_exact)
  note ge = ranges_ok_addrs_ge [OF b(4)]
  consider (keep) "en \<le> s" | (cut) "s < en" "en < s + l" | (drop) "s < en" "s + l \<le> en"
    by linarith
  then show ?case
  proof cases
    case keep
    then have "ranges_ok en (to_ranges (p # r))"
      using Cons.prems(2) p by simp
    then have "old' = old \<and> new' = new \<and> rest = p # r"
      using Cons.prems(1) er_loop_skip by fastforce
    moreover have "x \<ge> en" if "x \<in> addrs (to_ranges (p # r))" for x
      using ranges_ok_addrs_ge [OF \<open>ranges_ok en _\<close> that] .
    ultimately show ?thesis
      using Cons.prems p keep by fastforce
  next
    case cut
    have front: "omap_set en (s + l - en) r = (en, s + l - en) # r"
      using b(4) cut by (intro omap_set_front) (auto intro: ranges_ok_mono)
    have "er_loop en old new (p # r) =
        er_loop en (old + l) (new + (s + l - en)) (omap_set en (s + l - en) r)"
      using cut b p Cons.prems by (simp add: Let_def sub64_exact add64_exact)
    also have "\<dots> = (old + l, new + (s + l - en), (en, s + l - en) # r)"
      unfolding front by (rule er_loop_skip) (use cut b in auto)
    finally show ?thesis
      using Cons.prems cut b p ge by fastforce
  next
    case drop
    have "er_loop en (old + l) new r = (old', new', rest)"
      using Cons.prems(1) drop b p by (simp add: Let_def)
    from Cons.IH [OF this b(4)] Cons.prems b p show ?thesis
      using drop by (auto intro: ranges_ok_mono)
  qed
qed

text \<open>The interval before the erased range loses its tail, and its part past the range is put back.\<close>

lemma erase_inside:
  assumes "ranges_ok 0 (to_ranges (b @ [(ps, pl)]))"
    and "ranges_ok (rtop 0 (to_ranges (b @ [(ps, pl)]))) (to_ranges after)"
    and "ps < off" and "off < en" and "en < ps + pl"
  shows "ranges_ok 0 (to_ranges (b @ [(ps, off - ps), (en, ps + pl - en)] @ after))"
    and "addrs (to_ranges (b @ [(ps, off - ps), (en, ps + pl - en)] @ after)) =
      addrs (to_ranges (b @ [(ps, pl)] @ after)) - {off..<en}"
proof -
  show "ranges_ok 0 (to_ranges (b @ [(ps, off - ps), (en, ps + pl - en)] @ after))"
    using assms by simp
  have lo: "x \<in> addrs (to_ranges b) \<Longrightarrow> x < ps" for x
    using assms(1) ranges_ok_addrs_less [of 0 "to_ranges b" x] by simp
  have hi: "x \<in> addrs (to_ranges after) \<Longrightarrow> ps + pl < x" for x
    using assms(2) ranges_ok_addrs_ge [of "Suc (ps + pl)" "to_ranges after" x] by simp
  have "{ps..<off} \<union> {en..<ps + pl} = {ps..<ps + pl} - {off..<en}"
    using assms(3-5) by auto
  then show "addrs (to_ranges (b @ [(ps, off - ps), (en, ps + pl - en)] @ after)) =
      addrs (to_ranges (b @ [(ps, pl)] @ after)) - {off..<en}"
    using assms(3-5) lo hi by fastforce
qed

lemma iset_erase_correct:
  assumes inv: "iset_inv iv" and fits: "off + len < 2 ^ 64"
  shows "iset_inv (iset_erase off len iv) \<and>
         iset_addrs (iset_erase off len iv) = iset_addrs iv - arange off len"
proof (cases "len = 0")
  case True
  with inv show ?thesis by (simp add: iset_erase_def)
next
  case False
  define before after where "before = below off (ivals iv)" and "after = from_lb off (ivals iv)"
  note sides = iset_sides [OF inv, of off, folded before_def after_def]
  note res = iset_erase_def [of off len iv, folded before_def after_def]
  have en: "add64 off len = off + len" using fits by (simp add: add64_exact)
  have bl: "\<And>s l. (s, l) \<in> set before \<Longrightarrow> s < off"
    using below_less by (auto simp: before_def)
  have lo: "\<And>x. x \<in> addrs (to_ranges before) \<Longrightarrow> Suc x < rtop 0 (to_ranges before)"
    and hi: "\<And>x. x \<in> addrs (to_ranges after) \<Longrightarrow> off \<le> x"
    using ranges_ok_addrs_less [OF sides(2)] ranges_ok_addrs_ge [OF sides(4)] by auto
  consider (clear) "rtop 0 (to_ranges before) \<le> Suc off"
    | (inside) b ps pl where "before = b @ [(ps, pl)]" "off + len < ps + pl"
    | (tail) b ps pl where "before = b @ [(ps, pl)]" "off < ps + pl" "ps + pl \<le> off + len"
    by (cases before rule: rev_cases) force+
  then show ?thesis
  proof cases
    case clear
    have no: "\<not> (before \<noteq> [] \<and> off < add64 (fst (last before)) (snd (last before)))"
      using clear sides(5) by (cases before rule: rev_cases) (auto simp: add64_exact)
    obtain old2 new2 rest where lp: "er_loop (off + len) 0 0 after = (old2, new2, rest)"
      by (metis prod_cases3)
    note sp = er_loop_spec [OF lp sides(3)]
    have new: "iset_erase off len iv =
        \<lparr>ivals = before @ rest, isize = add64 (isize iv) (sub64 new2 old2)\<rparr>"
      using False no lp by (auto simp: res en Let_def)
    have "iset_inv (iset_erase off len iv)"
      unfolding new using sp sides by (intro iset_rebuild) (auto intro: ranges_ok_mono)
    moreover have "iset_addrs (iset_erase off len iv) = iset_addrs iv - arange off len"
      using new sp sides lo hi clear by (fastforce simp: iset_addrs_def arange_def)
    ultimately show ?thesis ..
  next
    case (inside b ps pl)
    have ps: "ps < off" "ps + pl < 2 ^ 64" "add64 ps pl = ps + pl"
      using bl inside(1) sides(5) by (auto simp: add64_exact)
    note ei = erase_inside [OF sides(2,3) [unfolded inside(1)] ps(1) _ inside(2)]
    have "ranges_ok (Suc (off + len)) (to_ranges after)"
      using sides(3) inside by (auto intro: ranges_ok_mono)
    then have ok': "ranges_ok (off + len) (to_ranges after)"
      and front: "after = [] \<or> off + len < fst (hd after)"
      by (auto intro: ranges_ok_mono) (cases after; auto)
    note skip = er_loop_skip [OF ok']
    have snoc_right: "omap_set (off + len) (ps + pl - (off + len)) (b @ [(ps, off - ps)]) =
        b @ [(ps, off - ps), (off + len, ps + pl - (off + len))]"
      using ps(1) bl inside(1) by (subst omap_set_back) fastforce+
    have new: "iset_erase off len iv =
        \<lparr>ivals = b @ [(ps, off - ps), (off + len, ps + pl - (off + len))] @ after,
         isize = add64 (isize iv) (sub64 (off - ps + (ps + pl - (off + len))) pl)\<rparr>"
      using False inside ps skip front snoc_right
      by (simp add: res en Let_def sub64_exact add64_exact)
    have "iset_inv (iset_erase off len iv)"
      unfolding new using False ei(1) sides inside ps by (intro iset_rebuild) auto
    moreover have "iset_addrs (iset_erase off len iv) = iset_addrs iv - arange off len"
      using False ei(2) sides(1) inside(1) unfolding new iset_addrs_def arange_def by simp
    ultimately show ?thesis ..
  next
    case (tail b ps pl)
    have ps: "ps < off" "ps + pl < 2 ^ 64" "add64 ps pl = ps + pl"
      using bl tail(1) sides(5) by (auto simp: add64_exact)
    obtain old2 new2 rest where lp: "er_loop (off + len) pl (off - ps) after = (old2, new2, rest)"
      by (metis prod_cases3)
    have cov: "pl + covered (to_ranges after) < 2 ^ 64" "off - ps + covered (to_ranges after) < 2 ^ 64"
      using sides(7) tail ps by auto
    have sp: "ranges_ok (max (rtop 0 (to_ranges before)) (off + len)) (to_ranges rest)"
      "addrs (to_ranges rest) = addrs (to_ranges after) - {..<off + len}"
      "old2 + covered (to_ranges rest) + (off - ps) = pl + covered (to_ranges after) + new2"
      "\<forall>(s, l) \<in> set rest. s + l < 2 ^ 64" "old2 < 2 ^ 64"
      using er_loop_spec [OF lp sides(3) _ cov] sides(5) cov by auto
    have "ranges_ok (Suc off) (to_ranges rest)"
      using sp(1) by (rule ranges_ok_mono) (use False in simp)
    have new: "iset_erase off len iv =
        \<lparr>ivals = (b @ [(ps, off - ps)]) @ rest, isize = add64 (isize iv) (sub64 new2 old2)\<rparr>"
      using False tail ps lp by (simp add: res en Let_def sub64_exact)
    have "iset_inv (iset_erase off len iv)"
      unfolding new using \<open>ranges_ok (Suc off) _\<close> sp(3-5) sides tail ps
      by (intro iset_rebuild) auto
    moreover have "iset_addrs (iset_erase off len iv) = iset_addrs iv - arange off len"
    proof -
      have "addrs (to_ranges b) \<subseteq> {..<off}"
        using sides(2) tail(1) ps(1) ranges_ok_addrs_less [of 0 "to_ranges b"] by fastforce
      then have "addrs (to_ranges b) - {off..<off + len} = addrs (to_ranges b)" by auto
      moreover have "addrs (to_ranges after) - {off..<off + len} = addrs (to_ranges rest)"
        unfolding sp(2) using hi by auto
      moreover have "{ps..<ps + pl} - {off..<off + len} = {ps..<off}"
        using tail ps by auto
      ultimately show ?thesis
        using sides(1) tail(1) ps(1) by (simp add: new iset_addrs_def arange_def Un_Diff Un_assoc)
    qed
    ultimately show ?thesis ..
  qed
qed

section \<open>The interface of a set of address ranges\<close>

text \<open>
  What the clients of \<open>interval_set\<close> rely on: the operations act on a set of addresses, as long
  as the ranges end below the limit of the address type.
\<close>

locale range_set =
  fixes empty :: "'s"
    and insert :: "nat \<Rightarrow> nat \<Rightarrow> 's \<Rightarrow> 's"
    and erase :: "nat \<Rightarrow> nat \<Rightarrow> 's \<Rightarrow> 's"
    and elems :: "'s \<Rightarrow> nat set"
    and invar :: "'s \<Rightarrow> bool"
    and limit :: nat
  assumes empty_law: "invar empty \<and> elems empty = {}"
    and insert_law: "invar s \<Longrightarrow> off + len < limit \<Longrightarrow>
      invar (insert off len s) \<and> elems (insert off len s) = elems s \<union> arange off len"
    and erase_law: "invar s \<Longrightarrow> off + len < limit \<Longrightarrow>
      invar (erase off len s) \<and> elems (erase off len s) = elems s - arange off len"
begin

lemma insert_all:
  "invar s \<Longrightarrow> \<forall>(off, len) \<in> set xs. off + len < limit \<Longrightarrow>
   invar (fold (\<lambda>(off, len). insert off len) xs s) \<and>
   elems (fold (\<lambda>(off, len). insert off len) xs s) =
     elems s \<union> (\<Union>(off, len) \<in> set xs. arange off len)"
proof (induction xs arbitrary: s)
  case Nil
  then show ?case by simp
next
  case (Cons p xs)
  obtain off len where p: "p = (off, len)" by (cases p)
  have "invar (insert off len s) \<and> elems (insert off len s) = elems s \<union> arange off len"
    using Cons.prems p by (intro insert_law) auto
  with Cons.IH [of "insert off len s"] Cons.prems p show ?case
    by (auto simp: Un_assoc)
qed

lemma insert_erase_disjoint:
  assumes "invar s" and "off + len < limit" and "elems s \<inter> arange off len = {}"
  shows "elems (erase off len (insert off len s)) = elems s"
proof -
  have "invar (insert off len s) \<and> elems (insert off len s) = elems s \<union> arange off len"
    using assms(1,2) by (rule insert_law)
  with erase_law [OF _ assms(2), of "insert off len s"] assms(3) show ?thesis by auto
qed

end

lemma iset_empty_correct: "iset_inv iset_empty \<and> iset_addrs iset_empty = {}"
  by (simp add: iset_inv_def iset_addrs_def iset_empty_def)

interpretation iset: range_set iset_empty iset_insert iset_erase iset_addrs iset_inv "2 ^ 64"
  by unfold_locales (rule iset_empty_correct iset_insert_correct iset_erase_correct; assumption)+

lemma iset_size: "iset_inv iv \<Longrightarrow> isize iv = card (iset_addrs iv)"
  by (auto simp: iset_inv_def iset_addrs_def card_addrs [of 0])

lemma iset_insert_set_correct:
  assumes "iset_inv iv" and "iset_inv other"
  shows "iset_inv (iset_insert_set other iv)"
    and "iset_addrs (iset_insert_set other iv) = iset_addrs iv \<union> iset_addrs other"
proof -
  have "iset_addrs other = (\<Union>(off, len) \<in> set (ivals other). arange off len)"
    by (force simp: iset_addrs_def to_ranges_def addrs_def arange_def)
  moreover have "\<forall>(off, len) \<in> set (ivals other). off + len < 2 ^ 64"
    using assms(2) by (simp add: iset_inv_def)
  ultimately show "iset_inv (iset_insert_set other iv)"
    and "iset_addrs (iset_insert_set other iv) = iset_addrs iv \<union> iset_addrs other"
    using iset.insert_all [OF assms(1), of "ivals other"] by (simp_all add: iset_insert_set_def)
qed

text \<open>Two interval sets with the same addresses are equal: the representation is canonical.\<close>

lemma iset_canonical:
  assumes "iset_inv a" and "iset_inv b" and "iset_addrs a = iset_addrs b"
  shows "a = b"
proof -
  have "to_ranges (ivals a) = to_ranges (ivals b)"
    using assms ranges_unique [of 0 _ 0] by (simp add: iset_inv_def iset_addrs_def)
  moreover have "inj (\<lambda>(s, l). (s, s + l :: nat))"
    by (auto simp: inj_on_def)
  ultimately have "ivals a = ivals b"
    by (simp add: to_ranges_def inj_map_eq_map)
  then show ?thesis
    using assms by (simp add: iset_inv_def)
qed

section \<open>Refinement\<close>

text \<open>Client programs over the class, and what they mean on a set of addresses.\<close>

datatype iset_op = Insert u64 u64 | Erase u64 u64 | Clear

fun iset_step :: "iset_op \<Rightarrow> interval_set \<Rightarrow> interval_set" where
  "iset_step (Insert off len) iv = iset_insert off len iv"
| "iset_step (Erase off len) iv = iset_erase off len iv"
| "iset_step Clear iv = iset_clear iv"

fun set_step :: "iset_op \<Rightarrow> nat set \<Rightarrow> nat set" where
  "set_step (Insert off len) A = A \<union> arange off len"
| "set_step (Erase off len) A = A - arange off len"
| "set_step Clear A = {}"

fun op_in_range :: "iset_op \<Rightarrow> bool" where
  "op_in_range (Insert off len) \<longleftrightarrow> off + len < 2 ^ 64"
| "op_in_range (Erase off len) \<longleftrightarrow> off + len < 2 ^ 64"
| "op_in_range Clear \<longleftrightarrow> True"

lemma iset_step_correct:
  assumes "iset_inv iv" and "op_in_range op"
  shows "iset_inv (iset_step op iv) \<and> iset_addrs (iset_step op iv) = set_step op (iset_addrs iv)"
proof (cases op)
  case Clear
  then show ?thesis by (simp add: iset_clear_def iset_inv_def iset_addrs_def)
qed (use assms iset_insert_correct iset_erase_correct in simp_all)

lemma iset_run_correct:
  "iset_inv iv \<Longrightarrow> \<forall>op \<in> set ops. op_in_range op \<Longrightarrow>
   iset_inv (fold iset_step ops iv) \<and>
   iset_addrs (fold iset_step ops iv) = fold set_step ops (iset_addrs iv)"
proof (induction ops arbitrary: iv)
  case Nil
  then show ?case by simp
next
  case (Cons op ops)
  from Cons.prems iset_step_correct [of iv op] have
    "iset_inv (iset_step op iv) \<and> iset_addrs (iset_step op iv) = set_step op (iset_addrs iv)"
    by simp
  with Cons show ?case by simp
qed

text \<open>
  C20: every program of \<open>insert\<close>, \<open>erase\<close> and \<open>clear\<close> calls on an \<open>interval_set\<close> whose ranges end
  below \<open>2 ^ 64\<close> computes the same set of addresses as the program on plain sets. The stored map
  stays sorted, disjoint and coalesced, and the cached \<open>_size\<close> is the number of addresses, in
  spite of being maintained by wrapping subtraction.
\<close>

theorem interval_set_refines_set:
  assumes "\<forall>op \<in> set ops. op_in_range op"
  shows "iset_addrs (fold iset_step ops iset_empty) = fold set_step ops {} \<and>
    iset_inv (fold iset_step ops iset_empty) \<and>
    isize (fold iset_step ops iset_empty) = card (fold set_step ops {})"
  using iset_run_correct [OF conjunct1 [OF iset_empty_correct] assms] iset_empty_correct
  by (simp add: iset_size)

theorem interval_set_refines_set_witness:
  "isize (fold iset_step [Insert 0 8, Insert 16 8, Insert 8 8, Erase 4 2] iset_empty) = 22"
proof -
  have "fold set_step [Insert 0 8, Insert 16 8, Insert 8 8, Erase 4 2] {} = {0..<4} \<union> {6..<24}"
    by (auto simp: arange_def)
  then have "card (fold set_step [Insert 0 8, Insert 16 8, Insert 8 8, Erase 4 2] {}) = 22"
    by (simp add: card_Un_disjoint)
  with interval_set_refines_set [of "[Insert 0 8, Insert 16 8, Insert 8 8, Erase 4 2]"]
  show ?thesis by simp
qed

end
