(* ===== verification/Space_Allocator.thy ===== *)
theory Space_Allocator
  imports Ranges
begin

text \<open>
  The contract of \<^verbatim>\<open>blk/allocator.h\<close>: what the clients of an \<open>Allocator\<close> rely on, whichever class
  implements it. An allocation hands out extents of free space and a release gives them back. A
  client program is a sequence of allocations and of releases of earlier allocations.
\<close>

section \<open>Extents\<close>

definition ext_set :: "(nat \<times> nat) list \<Rightarrow> nat set" where
  "ext_set xs = (\<Union>(off, len) \<in> set xs. arange off len)"

definition ext_len :: "(nat \<times> nat) list \<Rightarrow> nat" where
  "ext_len xs = sum_list (map snd xs)"

fun ext_disjoint :: "(nat \<times> nat) list \<Rightarrow> bool" where
  "ext_disjoint [] \<longleftrightarrow> True"
| "ext_disjoint ((off, len) # xs) \<longleftrightarrow> arange off len \<inter> ext_set xs = {} \<and> ext_disjoint xs"

lemma ext_simps [simp]:
  "ext_set [] = {}" "ext_set ((off, len) # xs) = arange off len \<union> ext_set xs"
  "ext_len [] = 0" "ext_len ((off, len) # xs) = len + ext_len xs"
  by (simp_all add: ext_set_def ext_len_def)

lemma ext_set_append [simp]: "ext_set (xs @ ys) = ext_set xs \<union> ext_set ys"
  by (simp add: ext_set_def)

lemma ext_disjoint_append [simp]:
  "ext_disjoint (xs @ ys) \<longleftrightarrow> ext_disjoint xs \<and> ext_disjoint ys \<and> ext_set xs \<inter> ext_set ys = {}"
  by (induction xs rule: ext_disjoint.induct) auto

lemma finite_ext_set [simp]: "finite (ext_set xs)"
  by (auto simp: ext_set_def)

lemma card_ext_set: "ext_disjoint xs \<Longrightarrow> card (ext_set xs) = ext_len xs"
  by (induction xs rule: ext_disjoint.induct) (auto simp: card_Un_disjoint)

lemma ext_len_0_iff: "\<forall>(off, len) \<in> set xs. 0 < len \<Longrightarrow> ext_len xs = 0 \<longleftrightarrow> xs = []"
  by (cases xs) auto

section \<open>Client programs\<close>

datatype alloc_op =
    Alloc nat
      \<comment> \<open>ask for this many bytes, and keep what is given\<close>
  | Release nat
      \<comment> \<open>release the outstanding allocation with this index\<close>

type_synonym held = "(nat \<times> nat) list list"

fun client_step ::
  "(nat \<Rightarrow> 's \<Rightarrow> (int \<times> (nat \<times> nat) list \<times> 's) option) \<Rightarrow> ((nat \<times> nat) list \<Rightarrow> 's \<Rightarrow> 's option) \<Rightarrow>
   alloc_op \<Rightarrow> 's \<times> held \<Rightarrow> ('s \<times> held) option" where
  "client_step alloc release (Alloc want) (s, h) =
     do { (r, xs, s') \<leftarrow> alloc want s; Some (s', h @ [xs]) }"
| "client_step alloc release (Release i) (s, h) =
     (if i < length h
      then do { s' \<leftarrow> release (h ! i) s; Some (s', take i h @ drop (Suc i) h) }
      else Some (s, h))"

fun client_run ::
  "(nat \<Rightarrow> 's \<Rightarrow> (int \<times> (nat \<times> nat) list \<times> 's) option) \<Rightarrow> ((nat \<times> nat) list \<Rightarrow> 's \<Rightarrow> 's option) \<Rightarrow>
   alloc_op list \<Rightarrow> 's \<times> held \<Rightarrow> ('s \<times> held) option" where
  "client_run alloc release [] c = Some c"
| "client_run alloc release (op # ops) c =
     do { c' \<leftarrow> client_step alloc release op c; client_run alloc release ops c' }"

fun op_wants :: "(nat \<Rightarrow> bool) \<Rightarrow> alloc_op \<Rightarrow> bool" where
  "op_wants ok (Alloc want) \<longleftrightarrow> ok want"
| "op_wants ok (Release i) \<longleftrightarrow> True"

text \<open>A request of a positive number of whole units.\<close>

definition ok_request :: "nat \<Rightarrow> nat \<Rightarrow> bool" where
  "ok_request unit want \<longleftrightarrow> 0 < want \<and> want < 2 ^ 63 \<and> want mod unit = 0"

text \<open>No two outstanding extents overlap, and free and outstanding space partition \<open>F\<close>.\<close>

definition ledger_ok :: "nat set \<Rightarrow> nat set \<Rightarrow> held \<Rightarrow> bool" where
  "ledger_ok F free h \<longleftrightarrow>
     ext_disjoint (concat h) \<and> free \<inter> ext_set (concat h) = {} \<and> free \<union> ext_set (concat h) = F"

section \<open>The interface\<close>

locale space_allocator =
  fixes alloc :: "nat \<Rightarrow> 's \<Rightarrow> (int \<times> (nat \<times> nat) list \<times> 's) option"
    and release :: "(nat \<times> nat) list \<Rightarrow> 's \<Rightarrow> 's option"
    and free :: "'s \<Rightarrow> nat set"
    and invar :: "'s \<Rightarrow> bool"
    and ok_ext :: "'s \<Rightarrow> nat \<times> nat \<Rightarrow> bool"
    and ok_want :: "nat \<Rightarrow> bool"
  assumes alloc_law: "invar s \<Longrightarrow> ok_want want \<Longrightarrow>
      \<exists>r xs s'. alloc want s = Some (r, xs, s') \<and> invar s' \<and> ok_ext s' = ok_ext s \<and>
        ext_disjoint xs \<and> ext_set xs \<subseteq> free s \<and> free s' = free s - ext_set xs \<and>
        (\<forall>x \<in> set xs. ok_ext s x)"
    and release_law: "invar s \<Longrightarrow> \<forall>x \<in> set xs. ok_ext s x \<Longrightarrow>
      ext_set xs \<inter> free s = {} \<Longrightarrow>
      \<exists>s'. release xs s = Some s' \<and> invar s' \<and> ok_ext s' = ok_ext s \<and> free s' = free s \<union> ext_set xs"
begin

definition client_inv :: "nat set \<Rightarrow> (nat \<times> nat \<Rightarrow> bool) \<Rightarrow> 's \<times> held \<Rightarrow> bool" where
  "client_inv F P c \<longleftrightarrow>
     invar (fst c) \<and> ok_ext (fst c) = P \<and> ledger_ok F (free (fst c)) (snd c) \<and>
     (\<forall>x \<in> set (concat (snd c)). P x)"

lemma client_step_inv:
  assumes inv: "client_inv F P (s, h)" and "op_wants ok_want op"
  shows "\<exists>c. client_step alloc release op (s, h) = Some c \<and> client_inv F P c"
proof (cases op)
  case (Alloc want)
  have "invar s" and "ok_want want"
    using assms Alloc by (auto simp: client_inv_def)
  from alloc_law [OF this] show ?thesis
    using inv Alloc by (fastforce simp: client_inv_def ledger_ok_def)
next
  case (Release i)
  show ?thesis
  proof (cases "i < length h")
    case True
    define g xs t where "g = take i h" and "xs = h ! i" and "t = drop (Suc i) h"
    have h: "h = g @ xs # t" using True by (simp add: g_def xs_def t_def id_take_nth_drop)
    have "invar s" and "\<forall>x \<in> set xs. ok_ext s x" and "ext_set xs \<inter> free s = {}"
      using inv h by (auto simp: client_inv_def ledger_ok_def)
    from release_law [OF this] obtain s' where rel: "release xs s = Some s'"
      and s': "invar s'" "ok_ext s' = ok_ext s" "free s' = free s \<union> ext_set xs"
      by blast
    have "client_step alloc release op (s, h) = Some (s', g @ t)"
      using True rel by (simp add: Release g_def xs_def t_def)
    moreover have "client_inv F P (s', g @ t)"
      using inv s' unfolding client_inv_def ledger_ok_def h by auto
    ultimately show ?thesis by blast
  next
    case False
    with Release inv show ?thesis by simp
  qed
qed

lemma client_run_inv:
  "client_inv F P c \<Longrightarrow> \<forall>op \<in> set ops. op_wants ok_want op \<Longrightarrow>
   \<exists>c'. client_run alloc release ops c = Some c' \<and> client_inv F P c'"
proof (induction ops arbitrary: c)
  case Nil
  then show ?case by simp
next
  case (Cons op ops)
  obtain s h where "c = (s, h)" by (cases c)
  with client_step_inv [of F P s h op] Cons.prems obtain c'
    where "client_step alloc release op c = Some c'" and "client_inv F P c'" by auto
  with Cons.IH [of c'] Cons.prems show ?case by simp
qed

lemma client_safe:
  assumes "invar s" and "\<forall>op \<in> set ops. op_wants ok_want op"
  shows "\<exists>s' h. client_run alloc release ops (s, []) = Some (s', h) \<and> invar s' \<and>
    ledger_ok (free s) (free s') h"
proof -
  have "client_inv (free s) (ok_ext s) (s, [])"
    using assms(1) by (simp add: client_inv_def ledger_ok_def)
  from client_run_inv [OF this assms(2)] show ?thesis
    by (auto simp: client_inv_def)
qed

end

end
