(* ===== verification/Avl_Allocator.thy ===== *)
theory Avl_Allocator
  imports Intarith Interval_Set Space_Allocator "HOL-Library.Multiset"
begin

unbundle bit_operations_syntax

text \<open>
  \<^verbatim>\<open>blk/avl_allocator.{h,cc}\<close> and the non-virtual parts of \<^verbatim>\<open>blk/allocator.cc\<close>: the in-memory
  allocator of free device space.

  The two Boost intrusive containers of the class hold the same nodes, \<open>range_tree_\<close> in offset
  order and \<open>range_size_tree_\<close> in (length, offset) order. Each is the list of its nodes in the
  container's order, and a node is its pair of start and end. Because the ranges of the tree are
  disjoint, a node is determined by that pair.

  \<open>AvlAllocator\<close> is also the base class of \<open>HybridAllocator\<close>, which overrides
  \<open>_spillover_range\<close> and keeps a child allocator. The operations below therefore take the
  override as a parameter \<open>spill\<close> and thread the subclass's state \<open>c\<close>; \<open>spill_base\<close> is the
  base-class version, which asserts. \<open>None\<close> is a failed \<open>cxxlab_assert\<close>.
\<close>

section \<open>State\<close>

record avl =
  device_size :: u64
  block_size :: u64
  range_tree :: ranges
  range_size_tree :: ranges
  num_free :: u64
  lbas :: "u64 list"
  range_count_cap :: u64
  end_word :: u64
    \<comment> \<open>what reading \<open>start\<close> through the end iterator of \<open>range_tree_\<close> yields\<close>

definition range_size_alloc_threshold :: u64 where
  "range_size_alloc_threshold = 128 * 1024"

definition range_size_alloc_free_pct :: nat where
  "range_size_alloc_free_pct = 4"

definition max_search_count :: u32 where
  "max_search_count = 100"

definition max_search_bytes :: u32 where
  "max_search_bytes = 16 * 1024 * 1024"

text \<open>\<open>sizeof(range_seg_t)\<close>: two words and two hooks of three pointers each.\<close>

definition sizeof_range_seg :: u64 where
  "sizeof_range_seg = 64"

definition avl_new :: "u64 \<Rightarrow> u64 \<Rightarrow> u64 \<Rightarrow> u64 \<Rightarrow> avl" where
  "avl_new dev_size blk_size max_mem ew =
     \<lparr>device_size = dev_size, block_size = blk_size, range_tree = [], range_size_tree = [],
      num_free = 0, lbas = replicate 64 0, range_count_cap = max_mem div sizeof_range_seg,
      end_word = ew\<rparr>"

definition seg_length :: "nat \<times> nat \<Rightarrow> u64" where
  "seg_length r = sub64 (snd r) (fst r)"

definition shorter :: "nat \<times> nat \<Rightarrow> nat \<times> nat \<Rightarrow> bool" where
  "shorter l r \<longleftrightarrow>
     (if seg_length l < seg_length r then True
      else if seg_length l > seg_length r then False
      else fst l < fst r)"

text \<open>\<open>range_size_tree_.insert\<close>: after every element that is not greater.\<close>

fun sz_insert :: "nat \<times> nat \<Rightarrow> ranges \<Rightarrow> ranges" where
  "sz_insert r [] = [r]"
| "sz_insert r (q # qs) = (if shorter r q then r # q # qs else q # sz_insert r qs)"

definition lowest_size_available :: "avl \<Rightarrow> u64" where
  "lowest_size_available a =
     (case range_size_tree a of [] \<Rightarrow> 0 | r # _ \<Rightarrow> seg_length r)"

section \<open>Insertion into the two trees\<close>

text \<open>\<open>AvlAllocator::_spillover_range\<close> is \<open>cxxlab_assert(false)\<close>.\<close>

definition spill_base :: "u64 \<Rightarrow> u64 \<Rightarrow> unit \<Rightarrow> unit option" where
  "spill_base start en c = None"

definition range_size_tree_rm :: "nat \<times> nat \<Rightarrow> avl \<Rightarrow> avl option" where
  "range_size_tree_rm r a =
     (if num_free a \<ge> seg_length r
      then Some (a\<lparr>num_free := sub64 (num_free a) (seg_length r),
                   range_size_tree := remove1 r (range_size_tree a)\<rparr>)
      else None)"

definition add_free_node :: "nat \<times> nat \<Rightarrow> avl \<Rightarrow> avl" where
  "add_free_node r a =
     a\<lparr>range_size_tree := sz_insert r (range_size_tree a),
       num_free := add64 (num_free a) (seg_length r)\<rparr>"

text \<open>
  \<open>_try_insert_range\<close>. The optional position is the index of the node \<open>insert_before\<close> is given.
  The flag of the result says whether the range was kept in the trees.
\<close>

definition try_insert_range ::
  "(u64 \<Rightarrow> u64 \<Rightarrow> 'c \<Rightarrow> 'c option) \<Rightarrow> u64 \<Rightarrow> u64 \<Rightarrow> nat option \<Rightarrow> avl \<Rightarrow> 'c \<Rightarrow> (bool \<times> avl \<times> 'c) option" where
  "try_insert_range spill start en pos a c =
     (let below_cap = range_count_cap a = 0 \<or> length (range_size_tree a) < range_count_cap a;
          remove_lowest = \<not> below_cap \<and> sub64 en start > lowest_size_available a
      in if \<not> below_cap \<and> \<not> remove_lowest
         then do { c1 \<leftarrow> spill start en c; Some (False, a, c1) }
         else
           let a1 = (case pos of
                       None \<Rightarrow> a
                     | Some i \<Rightarrow>
                         add_free_node (start, en)
                           (a\<lparr>range_tree := take i (range_tree a) @ (start, en) # drop i (range_tree a)\<rparr>))
           in if remove_lowest
              then
                (case range_size_tree a1 of
                   [] \<Rightarrow> None
                 | r # _ \<Rightarrow>
                     do { a2 \<leftarrow> range_size_tree_rm r a1;
                          c1 \<leftarrow> spill (fst r) (snd r) c;
                          Some (True, a2\<lparr>range_tree := remove1 r (range_tree a2)\<rparr>, c1) })
              else Some (True, a1, c))"

definition range_size_tree_try_insert ::
  "(u64 \<Rightarrow> u64 \<Rightarrow> 'c \<Rightarrow> 'c option) \<Rightarrow> nat \<times> nat \<Rightarrow> avl \<Rightarrow> 'c \<Rightarrow> (avl \<times> 'c) option" where
  "range_size_tree_try_insert spill r a c =
     do { (kept, a1, c1) \<leftarrow> try_insert_range spill (fst r) (snd r) None a c;
          Some (if kept then add_free_node r a1
                else a1\<lparr>range_tree := remove1 r (range_tree a1)\<rparr>, c1) }"

text \<open>\<open>range_tree_.upper_bound\<close> of \<open>[start, end)\<close>: the first node that starts at or after \<open>end\<close>.\<close>

definition upper_idx :: "u64 \<Rightarrow> ranges \<Rightarrow> nat" where
  "upper_idx en rt = length (takeWhile (\<lambda>r. \<not> en \<le> fst r) rt)"

definition add_to_tree ::
  "(u64 \<Rightarrow> u64 \<Rightarrow> 'c \<Rightarrow> 'c option) \<Rightarrow> u64 \<Rightarrow> u64 \<Rightarrow> avl \<Rightarrow> 'c \<Rightarrow> (avl \<times> 'c) option" where
  "add_to_tree spill start sz a c =
     (if sz = 0 then None
      else
        let en = add64 start sz;
            rt = range_tree a;
            i = upper_idx en rt;
            rs_before = (if i > 0 then Some (rt ! (i - 1)) else None);
            rs_after = (if i < length rt then Some (rt ! i) else None);
            merge_before = (case rs_before of None \<Rightarrow> False | Some b \<Rightarrow> snd b = start);
            merge_after = (case rs_after of None \<Rightarrow> False | Some f \<Rightarrow> fst f = en)
        in if merge_before \<and> merge_after
           then do { a1 \<leftarrow> range_size_tree_rm (the rs_before) a;
                     a2 \<leftarrow> range_size_tree_rm (the rs_after) a1;
                     let node = (fst (the rs_before), snd (the rs_after));
                     range_size_tree_try_insert spill node
                       (a2\<lparr>range_tree := take (i - 1) rt @ node # drop (i + 1) rt\<rparr>) c }
           else if merge_before
           then do { a1 \<leftarrow> range_size_tree_rm (the rs_before) a;
                     let node = (fst (the rs_before), en);
                     range_size_tree_try_insert spill node (a1\<lparr>range_tree := rt[i - 1 := node]\<rparr>) c }
           else if merge_after
           then do { a1 \<leftarrow> range_size_tree_rm (the rs_after) a;
                     let node = (start, snd (the rs_after));
                     range_size_tree_try_insert spill node (a1\<lparr>range_tree := rt[i := node]\<rparr>) c }
           else do { (kept, a1, c1) \<leftarrow> try_insert_range spill start en (Some i) a c; Some (a1, c1) })"

section \<open>Removal from the two trees\<close>

text \<open>\<open>range_tree_.lower_bound\<close> and \<open>find\<close> of \<open>[start, end)\<close>, as an index.\<close>

definition lower_idx :: "u64 \<Rightarrow> ranges \<Rightarrow> nat" where
  "lower_idx start rt = length (takeWhile (\<lambda>r. snd r \<le> start) rt)"

definition find_idx :: "u64 \<Rightarrow> u64 \<Rightarrow> ranges \<Rightarrow> nat option" where
  "find_idx start en rt =
     (let i = lower_idx start rt
      in if i < length rt \<and> \<not> en \<le> fst (rt ! i) then Some i else None)"

definition process_range_removal ::
  "(u64 \<Rightarrow> u64 \<Rightarrow> 'c \<Rightarrow> 'c option) \<Rightarrow> u64 \<Rightarrow> u64 \<Rightarrow> nat \<Rightarrow> avl \<Rightarrow> 'c \<Rightarrow> (avl \<times> 'c) option" where
  "process_range_removal spill start en i a c =
     (let rs = range_tree a ! i;
          left_over = fst rs \<noteq> start;
          right_over = snd rs \<noteq> en
      in do {
        a1 \<leftarrow> range_size_tree_rm rs a;
        if left_over \<and> right_over
        then do { let node = (fst rs, start);
                  (kept, a2, c1) \<leftarrow> try_insert_range spill en (snd rs) (Some (i + 1))
                                     (a1\<lparr>range_tree := (range_tree a1)[i := node]\<rparr>) c;
                  range_size_tree_try_insert spill node a2 c1 }
        else if left_over
        then do { let node = (fst rs, start);
                  range_size_tree_try_insert spill node
                    (a1\<lparr>range_tree := (range_tree a1)[i := node]\<rparr>) c }
        else if right_over
        then do { let node = (en, snd rs);
                  range_size_tree_try_insert spill node
                    (a1\<lparr>range_tree := (range_tree a1)[i := node]\<rparr>) c }
        else Some (a1\<lparr>range_tree := remove1 rs (range_tree a1)\<rparr>, c) })"

definition remove_from_tree ::
  "(u64 \<Rightarrow> u64 \<Rightarrow> 'c \<Rightarrow> 'c option) \<Rightarrow> u64 \<Rightarrow> u64 \<Rightarrow> avl \<Rightarrow> 'c \<Rightarrow> (avl \<times> 'c) option" where
  "remove_from_tree spill start sz a c =
     (let en = add64 start sz
      in if sz = 0 then None
         else
           case find_idx start en (range_tree a) of
             None \<Rightarrow> None
           | Some i \<Rightarrow>
               if fst (range_tree a ! i) \<le> start \<and> snd (range_tree a ! i) \<ge> en \<and> sz \<le> num_free a
               then process_range_removal spill start en i a c
               else None)"

section \<open>Picking a block\<close>

text \<open>
  The first loop of \<open>_pick_block_after\<close> walks from \<open>rs_start\<close> to the end and the second one from the
  beginning to \<open>rs_start\<close>. A walk returns an offset, gives up on one of the two search limits, or
  runs out of nodes with its counters. \<open>-1ULL\<close> is \<open>UINT64_MAX\<close>.
\<close>

datatype walk = Found u64 | Stop | Ran u32 u64

fun walk_after :: "u64 \<Rightarrow> u64 \<Rightarrow> u64 \<Rightarrow> u32 \<Rightarrow> u64 \<Rightarrow> ranges \<Rightarrow> walk" where
  "walk_after base sz align cnt bytes [] = Ran cnt bytes"
| "walk_after base sz align cnt bytes (rs # rest) =
     (let offset = p2roundup (fst rs) align;
          bytes' = sub64 (fst rs) base
      in if add64 offset sz \<le> snd rs then Found offset
         else if max_search_count > 0 \<and> add32 cnt 1 > max_search_count then Stop
         else if max_search_bytes > 0 \<and> bytes' > max_search_bytes then Stop
         else walk_after base sz align (add32 cnt 1) bytes' rest)"

fun walk_before :: "u64 \<Rightarrow> u64 \<Rightarrow> u64 \<Rightarrow> u32 \<Rightarrow> u64 \<Rightarrow> ranges \<Rightarrow> walk" where
  "walk_before base sz align cnt bytes [] = Ran cnt bytes"
| "walk_before base sz align cnt bytes (rs # rest) =
     (let offset = p2roundup (fst rs) align
      in if add64 offset sz \<le> snd rs then Found offset
         else if max_search_count > 0 \<and> add32 cnt 1 > max_search_count then Stop
         else if max_search_bytes > 0 \<and> add64 bytes (sub64 base (fst rs)) > max_search_bytes then Stop
         else walk_before base sz align (add32 cnt 1) bytes rest)"

text \<open>The result is the new value of \<open>*cursor\<close> and the offset.\<close>

definition pick_block_after :: "u64 \<Rightarrow> u64 \<Rightarrow> u64 \<Rightarrow> avl \<Rightarrow> u64 \<times> u64" where
  "pick_block_after cursor sz align a =
     (let rt = range_tree a;
          i = lower_idx cursor rt;
          base = (if i < length rt then fst (rt ! i) else end_word a)
      in case walk_after base sz align 0 0 (drop i rt) of
           Found offset \<Rightarrow> (add64 offset sz, offset)
         | Stop \<Rightarrow> (cursor, UINT64_MAX)
         | Ran cnt bytes \<Rightarrow>
             if cursor = 0 then (cursor, UINT64_MAX)
             else
               (case walk_before base sz align cnt bytes (take i rt) of
                  Found offset \<Rightarrow> (add64 offset sz, offset)
                | _ \<Rightarrow> (cursor, UINT64_MAX)))"

fun walk_fits :: "u64 \<Rightarrow> u64 \<Rightarrow> u32 \<Rightarrow> ranges \<Rightarrow> u64" where
  "walk_fits sz align cnt [] = UINT64_MAX"
| "walk_fits sz align cnt (rs # rest) =
     (if max_search_count > 0 \<and> add32 cnt 1 > max_search_count then UINT64_MAX
      else
        let offset = p2roundup (fst rs) align
        in if add64 offset sz \<le> snd rs then offset
           else walk_fits sz align (add32 cnt 1) rest)"

definition pick_block_fits :: "u64 \<Rightarrow> u64 \<Rightarrow> avl \<Rightarrow> u64" where
  "pick_block_fits sz align a =
     walk_fits sz align 0 (dropWhile (\<lambda>r. shorter r (0, sz)) (range_size_tree a))"

section \<open>Allocation\<close>

text \<open>
  The \<open>do\<close> loop of \<open>_allocate_single\<close>: the start and the size it ends with. \<open>size' < size\<close> holds for
  every positive size, and makes the recursion end also at \<open>size = unit = 0\<close>, which
  \<open>cxxlab_assert(isp2(unit))\<close> excludes.
\<close>

function fits_loop :: "u64 \<Rightarrow> avl \<Rightarrow> u64 \<Rightarrow> u64 \<times> u64" where
  "fits_loop unit a sz =
     (let start = pick_block_fits sz unit a
      in if start \<noteq> UINT64_MAX then (start, sz)
         else
           let sz' = p2align (sz div 2) unit
           in if sz' \<ge> unit \<and> sz' < sz then fits_loop unit a sz' else (start, sz'))"
  by auto
termination by (relation "measure (\<lambda>(unit, a, sz). sz)") auto

declare fits_loop.simps [simp del]

definition max_range_size :: "avl \<Rightarrow> u64" where
  "max_range_size a =
     (if range_size_tree a = [] then 0
      else sub64 (snd (last (range_size_tree a))) (fst (last (range_size_tree a))))"

text \<open>The first attempt of \<open>_allocate_single\<close>, from the cursor for the alignment of the size.\<close>

definition first_pick :: "bool \<Rightarrow> u64 \<Rightarrow> u64 \<Rightarrow> avl \<Rightarrow> (avl \<times> u64) option" where
  "first_pick forced sz unit a =
     (let free_pct = mul64 (num_free a) 100 div device_size a
      in if forced \<or> max_range_size a < range_size_alloc_threshold
            \<or> free_pct < range_size_alloc_free_pct
         then Some (a, UINT64_MAX)
         else
           let align = sz AND neg64 sz
           in if align = 0 then None
              else
                let (cursor, start) = pick_block_after (lbas a ! (cbits align - 1)) sz unit a
                in Some (a\<lparr>lbas := (lbas a)[cbits align - 1 := cursor]\<rparr>, start))"

text \<open>\<open>_allocate_single\<close>. The result is the offset and the length, or \<open>Inl\<close> of the error code.\<close>

definition allocate_single ::
  "(u64 \<Rightarrow> u64 \<Rightarrow> 'c \<Rightarrow> 'c option) \<Rightarrow> u64 \<Rightarrow> u64 \<Rightarrow> avl \<Rightarrow> 'c \<Rightarrow> ((int + u64 \<times> u64) \<times> avl \<times> 'c) option" where
  "allocate_single spill sz unit a c =
     (let max_size = max_range_size a
      in if max_size < sz \<and> max_size < unit then Some (Inl (- ENOSPC), a, c)
         else
           let forced = max_size < sz;
               sz1 = (if forced then p2align max_size unit else sz)
           in if forced \<and> \<not> sz1 > 0 then None
              else do {
                (a1, start1) \<leftarrow> first_pick forced sz1 unit a;
                let (start, sz2) = (if start1 = UINT64_MAX then fits_loop unit a1 sz1 else (start1, sz1));
                if start = UINT64_MAX then Some (Inl (- ENOSPC), a1, c)
                else do { (a2, c1) \<leftarrow> remove_from_tree spill start sz2 a1 c;
                          Some (Inr (start, sz2), a2, c1) } })"

lemma p2align_le_any: "p2align x a \<le> x"
proof -
  have "int (x AND neg64 a) \<le> int x"
    by (simp only: of_nat_and_eq) (rule AND_upper1; simp)
  then show ?thesis by (simp add: p2align_def)
qed

lemma fits_loop_le: "fits_loop unit a sz = (start, sz') \<Longrightarrow> sz' \<le> sz"
proof (induction unit a sz rule: fits_loop.induct)
  case (1 unit a sz)
  have "p2align (sz div 2) unit \<le> sz"
    using p2align_le_any [of "sz div 2" unit] by linarith
  with 1 show ?case
    by (subst (asm) (2) fits_loop.simps) (fastforce simp: Let_def split: if_splits)
qed

lemma remove_from_tree_pos: "remove_from_tree spill start sz a c = Some r \<Longrightarrow> sz > 0"
  by (auto simp: remove_from_tree_def Let_def split: if_splits)

lemma allocate_single_len:
  "allocate_single spill sz unit a c = Some (Inr (start, len), a', c') \<Longrightarrow> 0 < len \<and> len \<le> sz"
  unfolding allocate_single_def Let_def
  by (auto split: if_splits prod.splits bind_splits
      dest!: remove_from_tree_pos fits_loop_le
      intro: order_trans [OF _ order_trans [OF p2align_le_any less_imp_le]])

text \<open>
  The loop of \<open>_allocate\<close>; \<open>emplace_back\<close> constructs a \<open>pextent_t\<close>, which keeps the low 32 bits of
  the length. The subtraction and the sum cannot wrap: \<open>allocated < want\<close>, and a block is no longer
  than what is left.
\<close>

function allocate_loop ::
  "(u64 \<Rightarrow> u64 \<Rightarrow> 'c \<Rightarrow> 'c option) \<Rightarrow> u64 \<Rightarrow> u64 \<Rightarrow> u64 \<Rightarrow> u64 \<Rightarrow> (u64 \<times> u32) list \<Rightarrow> avl \<Rightarrow> 'c \<Rightarrow>
   (u64 \<times> (u64 \<times> u32) list \<times> avl \<times> 'c) option" where
  "allocate_loop spill want unit max_alloc allocated extents a c =
     (if allocated < want
      then
        case allocate_single spill (min max_alloc (want - allocated)) unit a c of
          None \<Rightarrow> None
        | Some (Inl r, a1, c1) \<Rightarrow> Some (allocated, extents, a1, c1)
        | Some (Inr (offset, len), a1, c1) \<Rightarrow>
            allocate_loop spill want unit max_alloc (allocated + len)
              (extents @ [(offset, len mod 2 ^ 32)]) a1 c1
      else Some (allocated, extents, a, c))"
  by auto
termination
  by (relation "measure (\<lambda>(spill, want, unit, max_alloc, allocated, rest). want - allocated)")
    (auto dest!: allocate_single_len)

declare allocate_loop.simps [simp del]

text \<open>\<open>static_cast<int64_t>\<close> of an unsigned value.\<close>

definition to_i64 :: "u64 \<Rightarrow> int" where
  "to_i64 x = (if x < 2 ^ 63 then int x else int x - 2 ^ 64)"

definition allocate_blocks ::
  "(u64 \<Rightarrow> u64 \<Rightarrow> 'c \<Rightarrow> 'c option) \<Rightarrow> u64 \<Rightarrow> u64 \<Rightarrow> u64 \<Rightarrow> avl \<Rightarrow> 'c \<Rightarrow>
   (int \<times> (u64 \<times> u32) list \<times> avl \<times> 'c) option" where
  "allocate_blocks spill want unit max_alloc a c =
     do { (allocated, extents, a1, c1) \<leftarrow> allocate_loop spill want unit max_alloc 0 [] a c;
          Some (if allocated \<noteq> 0 then to_i64 allocated else - ENOSPC, extents, a1, c1) }"

text \<open>
  \<open>allocate\<close>, on an empty \<open>extents\<close> vector: the blocks it appends. Its first two lines are assertions.
\<close>

definition capped_alloc_size :: "u64 \<Rightarrow> u64 \<Rightarrow> u64 \<Rightarrow> u64" where
  "capped_alloc_size want max_alloc blk =
     (let m = (if max_alloc = 0 then want else max_alloc)
      in if m \<ge> UINT32_MAX then p2align UINT32_MAX blk else m)"

definition avl_allocate ::
  "u64 \<Rightarrow> u64 \<Rightarrow> u64 \<Rightarrow> avl \<Rightarrow> (int \<times> (u64 \<times> u32) list \<times> avl) option" where
  "avl_allocate want unit max_alloc a =
     (if isp2 unit \<and> want mod unit = 0
      then do { (r, extents, a1, c) \<leftarrow>
                  allocate_blocks spill_base want unit
                    (capped_alloc_size want max_alloc (block_size a)) a ();
                Some (r, extents, a1) }
      else None)"

text \<open>The overload of \<^verbatim>\<open>allocator.cc\<close> without a size limit.\<close>

definition avl_allocate_all :: "u64 \<Rightarrow> u64 \<Rightarrow> avl \<Rightarrow> (int \<times> (u64 \<times> u32) list \<times> avl) option" where
  "avl_allocate_all want unit a = avl_allocate want unit want a"

section \<open>Release, initialisation and shutdown\<close>

primrec release_loop ::
  "(u64 \<Rightarrow> u64 \<Rightarrow> 'c \<Rightarrow> 'c option) \<Rightarrow> (u64 \<times> u64) list \<Rightarrow> avl \<Rightarrow> 'c \<Rightarrow> (avl \<times> 'c) option" where
  "release_loop spill [] a c = Some (a, c)"
| "release_loop spill (p # ps) a c =
     (if add64 (fst p) (snd p) \<le> device_size a
      then do { (a1, c1) \<leftarrow> add_to_tree spill (fst p) (snd p) a c; release_loop spill ps a1 c1 }
      else None)"

definition avl_release :: "interval_set \<Rightarrow> avl \<Rightarrow> avl option" where
  "avl_release iv a = map_option fst (release_loop spill_base (ivals iv) a ())"

text \<open>\<open>Allocator::release(const PExtentVector &)\<close> collects the extents in an \<open>interval_set\<close>.\<close>

definition avl_release_vec :: "(u64 \<times> u32) list \<Rightarrow> avl \<Rightarrow> avl option" where
  "avl_release_vec exts a = avl_release (fold (\<lambda>(off, len). iset_insert off len) exts iset_empty) a"

definition avl_init_add_free :: "u64 \<Rightarrow> u64 \<Rightarrow> avl \<Rightarrow> avl option" where
  "avl_init_add_free offset len a =
     (if len = 0 then Some a
      else if add64 offset len \<le> device_size a
      then map_option fst (add_to_tree spill_base offset len a ())
      else None)"

definition avl_init_rm_free :: "u64 \<Rightarrow> u64 \<Rightarrow> avl \<Rightarrow> avl option" where
  "avl_init_rm_free offset len a =
     (if len = 0 then Some a
      else if add64 offset len \<le> device_size a
      then map_option fst (remove_from_tree spill_base offset len a ())
      else None)"

definition avl_get_free :: "avl \<Rightarrow> u64" where
  "avl_get_free a = num_free a"

definition avl_foreach :: "avl \<Rightarrow> (u64 \<times> u64) list" where
  "avl_foreach a = map (\<lambda>r. (fst r, sub64 (snd r) (fst r))) (range_tree a)"

definition avl_shutdown :: "avl \<Rightarrow> avl" where
  "avl_shutdown a = a\<lparr>range_size_tree := [], range_tree := [], num_free := 0\<rparr>"

section \<open>Invariant\<close>

lemma covered_mset: "mset rs = mset ts \<Longrightarrow> covered rs = covered ts"
  unfolding covered_def by (metis mset_map sum_mset_sum_list)

text \<open>The size tree of \<open>a\<close> holds the ranges \<open>rs\<close>, and \<open>num_free_\<close> is their length.\<close>

definition sz_ok :: "ranges \<Rightarrow> avl \<Rightarrow> bool" where
  "sz_ok rs a \<longleftrightarrow>
     mset (range_size_tree a) = mset rs \<and> sorted_wrt shorter (range_size_tree a) \<and>
     num_free a = covered rs \<and> covered rs < 2 ^ 63 \<and> (\<forall>(s, e) \<in> set rs. s < e \<and> e < 2 ^ 63)"

definition avl_inv :: "avl \<Rightarrow> bool" where
  "avl_inv a \<longleftrightarrow>
     range_count_cap a = 0 \<and> 0 < device_size a \<and> device_size a < 2 ^ 63 \<and> length (lbas a) = 64 \<and>
     ranges_ok 0 (range_tree a) \<and> (\<forall>(s, e) \<in> set (range_tree a). e \<le> device_size a) \<and>
     sz_ok (range_tree a) a"

definition avl_free :: "avl \<Rightarrow> nat set" where
  "avl_free a = addrs (range_tree a)"

lemma shorter_trans: "shorter x y \<Longrightarrow> shorter y z \<Longrightarrow> shorter x z"
  by (auto simp: shorter_def split: if_splits)

lemma shorter_cases: "\<not> shorter x y \<Longrightarrow> fst x \<noteq> fst y \<Longrightarrow> shorter y x"
  by (auto simp: shorter_def split: if_splits)

lemma mset_sz_insert [simp]: "mset (sz_insert r rs) = add_mset r (mset rs)"
  by (induction rs) auto

lemma set_sz_insert [simp]: "set (sz_insert r rs) = insert r (set rs)"
  by (induction rs) auto

lemma sorted_sz_insert:
  "sorted_wrt shorter rs \<Longrightarrow> fst r \<notin> fst ` set rs \<Longrightarrow> sorted_wrt shorter (sz_insert r rs)"
  by (induction rs) (auto intro: shorter_trans shorter_cases)

lemma sorted_wrt_remove1: "sorted_wrt P xs \<Longrightarrow> sorted_wrt P (remove1 x xs)"
  by (induction xs) (auto dest: subsetD [OF set_remove1_subset])

lemma seg_length_eq: "s < e \<Longrightarrow> e < 2 ^ 63 \<Longrightarrow> seg_length (s, e) = e - s"
  by (simp add: seg_length_def sub64_exact)

lemma range_size_tree_rm_ok:
  assumes "sz_ok (xs @ r # ys) a"
  obtains n t where "range_size_tree_rm r a = Some (a\<lparr>num_free := n, range_size_tree := t\<rparr>)"
    and "sz_ok (xs @ ys) (a\<lparr>num_free := n, range_size_tree := t\<rparr>)"
proof -
  obtain s e where r: "r = (s, e)" by (cases r)
  have len: "seg_length r = e - s" "s < e" "e < 2 ^ 63"
    using assms r by (auto simp: sz_ok_def seg_length_eq)
  have "sub64 (num_free a) (e - s) = covered (xs @ ys)"
    using assms r len by (simp add: sz_ok_def sub64_exact)
  moreover have "mset (remove1 r (range_size_tree a)) = mset (xs @ ys)"
    using assms by (simp add: sz_ok_def)
  ultimately show ?thesis
    using assms r len that [of "remove1 r (range_size_tree a)" "covered (xs @ ys)"]
    by (auto simp: range_size_tree_rm_def sz_ok_def sorted_wrt_remove1)
qed

lemma add_free_node_ok:
  assumes "sz_ok (xs @ ys) a" and "s < e" and "e < 2 ^ 63"
    and "covered (xs @ (s, e) # ys) < 2 ^ 63" and "s \<notin> fst ` set (xs @ ys)"
  obtains n t where "add_free_node (s, e) a = a\<lparr>num_free := n, range_size_tree := t\<rparr>"
    and "sz_ok (xs @ (s, e) # ys) (a\<lparr>num_free := n, range_size_tree := t\<rparr>)"
proof -
  have "add64 (num_free a) (seg_length (s, e)) = covered (xs @ (s, e) # ys)"
    using assms by (simp add: sz_ok_def seg_length_eq add64_exact)
  moreover have "set (range_size_tree a) = set (xs @ ys)"
    using assms(1) by (metis set_mset_mset sz_ok_def)
  then have "sorted_wrt shorter (sz_insert (s, e) (range_size_tree a))"
    using assms by (intro sorted_sz_insert) (auto simp: sz_ok_def)
  ultimately show ?thesis
    using assms that [of "sz_insert (s, e) (range_size_tree a)" "covered (xs @ (s, e) # ys)"]
    by (auto simp: add_free_node_def sz_ok_def)
qed

lemma try_insert_uncapped:
  "range_count_cap a = 0 \<Longrightarrow> try_insert_range spill s e None a c = Some (True, a, c)"
  "range_count_cap a = 0 \<Longrightarrow> try_insert_range spill s e (Some i) a c =
     Some (True, add_free_node (s, e)
       (a\<lparr>range_tree := take i (range_tree a) @ (s, e) # drop i (range_tree a)\<rparr>), c)"
  by (simp_all add: try_insert_range_def Let_def)

lemma range_size_tree_try_insert_uncapped:
  "range_count_cap a = 0 \<Longrightarrow> range_size_tree_try_insert spill r a c = Some (add_free_node r a, c)"
  by (simp add: range_size_tree_try_insert_def try_insert_uncapped)

text \<open>From \<open>a\<close> to \<open>b\<close> only the trees and the count changed, and the free space of \<open>b\<close> is \<open>F\<close>.\<close>

definition avl_to :: "avl \<Rightarrow> avl \<Rightarrow> nat set \<Rightarrow> bool" where
  "avl_to a b F \<longleftrightarrow>
     avl_inv b \<and> avl_free b = F \<and>
     (\<exists>rt n t. b = a\<lparr>range_tree := rt, num_free := n, range_size_tree := t\<rparr>)"

lemma avl_toI:
  "avl_inv b \<Longrightarrow> b = a\<lparr>num_free := n, range_size_tree := t, range_tree := rt\<rparr> \<Longrightarrow> avl_to a b (addrs rt)"
  unfolding avl_to_def avl_free_def by (intro conjI exI [of _ rt] exI [of _ n] exI [of _ t]) simp_all

text \<open>A tree with one node replaced by, or extended by, \<open>(s, e)\<close>.\<close>

lemma avl_to_replace:
  assumes "avl_inv a" and "sz_ok (xs @ ys) b" and "ranges_ok 0 (xs @ (s, e) # ys)"
    and "\<forall>(s, e) \<in> set (xs @ (s, e) # ys). e \<le> device_size a"
    and "b = a\<lparr>num_free := n, range_size_tree := t\<rparr>"
  shows "avl_to a (add_free_node (s, e) (b\<lparr>range_tree := xs @ (s, e) # ys\<rparr>)) (addrs (xs @ (s, e) # ys))"
proof -
  have "s < e" and "e < 2 ^ 63" and dev: "device_size a < 2 ^ 63"
    using assms(1,3,4) by (auto simp: avl_inv_def)
  moreover have "covered (xs @ (s, e) # ys) \<le> device_size a - 0"
    using assms(4) by (intro covered_le [OF assms(3)]) auto
  moreover have "s \<notin> fst ` set (xs @ ys)"
  proof
    assume "s \<in> fst ` set (xs @ ys)"
    then obtain e' where "(s, e') \<in> set xs \<or> (s, e') \<in> set ys" by force
    then show False
      using assms(3) ranges_ok_memD [of 0 xs s e'] ranges_ok_memD [of "Suc e" ys s e'] by auto
  qed
  moreover have "sz_ok (xs @ ys) (b\<lparr>range_tree := xs @ (s, e) # ys\<rparr>)"
    using assms(2) by (simp add: sz_ok_def)
  ultimately obtain n' t' where add: "add_free_node (s, e) (b\<lparr>range_tree := xs @ (s, e) # ys\<rparr>) =
      b\<lparr>range_tree := xs @ (s, e) # ys, num_free := n', range_size_tree := t'\<rparr>"
    and ok: "sz_ok (xs @ (s, e) # ys) (b\<lparr>range_tree := xs @ (s, e) # ys, num_free := n', range_size_tree := t'\<rparr>)"
    by (elim add_free_node_ok [of xs ys _ s e]) linarith+
  have "avl_inv (b\<lparr>range_tree := xs @ (s, e) # ys, num_free := n', range_size_tree := t'\<rparr>)"
    using ok assms(1,3,4) unfolding assms(5) by (simp add: avl_inv_def)
  moreover have "b\<lparr>range_tree := xs @ (s, e) # ys, num_free := n', range_size_tree := t'\<rparr> =
      a\<lparr>range_tree := xs @ (s, e) # ys, num_free := n', range_size_tree := t'\<rparr>"
    using assms(5) by simp
  ultimately show ?thesis
    unfolding add avl_to_def avl_free_def by auto
qed

text \<open>The position \<open>upper_bound\<close> finds for a range that is not in the tree.\<close>

lemma upper_idx_split:
  assumes "ranges_ok 0 rt" and "addrs rt \<inter> {start..<en} = {}" and "start < en"
  obtains B A where "rt = B @ A" and "upper_idx en rt = length B"
    and "rtop 0 B \<le> Suc start" and "ranges_ok en A"
proof -
  define B A where "B = takeWhile (\<lambda>r. \<not> en \<le> fst r) rt" and "A = dropWhile (\<lambda>r. \<not> en \<le> fst r) rt"
  have rt: "rt = B @ A" by (simp add: B_def A_def)
  have B: "s < en" if "(s, e) \<in> set B" for s e
    using set_takeWhileD [of "(s, e)" "\<lambda>r. \<not> en \<le> fst r" rt] that by (simp add: B_def)
  have top: "rtop 0 B \<le> Suc start"
  proof (rule rtop_le)
    fix s e assume se: "(s, e) \<in> set B"
    have "s < e" using assms(1) rt se ranges_ok_memD [of 0 B s e] by simp
    moreover have "{s..<e} \<inter> {start..<en} = {}"
      using addrs_subset [OF se] assms(2) unfolding rt addrs_simps(3) by blast
    then have "max s start \<notin> {s..<e} \<inter> {start..<en}" by simp
    ultimately show "Suc e \<le> Suc start" using B [OF se] assms(3) by auto
  qed simp
  have "ranges_ok en A"
    using assms(1) rt hd_dropWhile [of "\<lambda>r. \<not> en \<le> fst r" rt, folded A_def] by (cases A) auto
  moreover have "upper_idx en rt = length B"
    unfolding B_def upper_idx_def ..
  ultimately show ?thesis
    using rt top by (intro that)
qed

lemma rtop_snoc: "B \<noteq> [] \<Longrightarrow> rtop lb B = Suc (snd (last B))"
  by (cases B rule: rev_cases) auto

lemma ranges_ok_hd: "ranges_ok lb A \<Longrightarrow> A \<noteq> [] \<Longrightarrow> fst (hd A) \<noteq> lb \<Longrightarrow> ranges_ok (Suc lb) A"
  by (cases A) auto

text \<open>The four cases of \<open>_add_to_tree\<close>: which neighbours the new range touches.\<close>

lemma add_to_tree_both:
  assumes "range_count_cap a = 0" and "sz > 0" and "add64 start sz = en"
    and "range_tree a = B @ (s, start) # (en, e) # A" and "upper_idx en (range_tree a) = Suc (length B)"
    and "range_size_tree_rm (s, start) a = Some a1" and "range_size_tree_rm (en, e) a1 = Some a2"
    and "range_count_cap a2 = 0"
  shows "add_to_tree spill start sz a c = Some (add_free_node (s, e) (a2\<lparr>range_tree := B @ (s, e) # A\<rparr>), c)"
  using assms by (simp add: add_to_tree_def nth_append range_size_tree_try_insert_uncapped Let_def)

lemma add_to_tree_before:
  assumes "range_count_cap a = 0" and "sz > 0" and "add64 start sz = en"
    and "range_tree a = B @ (s, start) # A" and "upper_idx en (range_tree a) = Suc (length B)"
    and "ranges_ok (Suc en) A"
    and "range_size_tree_rm (s, start) a = Some a1" and "range_count_cap a1 = 0"
  shows "add_to_tree spill start sz a c = Some (add_free_node (s, en) (a1\<lparr>range_tree := B @ (s, en) # A\<rparr>), c)"
  using assms by (cases A)
    (auto simp add: add_to_tree_def nth_append range_size_tree_try_insert_uncapped Let_def list_update_append)

lemma add_to_tree_after:
  assumes "range_count_cap a = 0" and "sz > 0" and "add64 start sz = en"
    and "range_tree a = B @ (en, e) # A" and "upper_idx en (range_tree a) = length B"
    and "rtop 0 B \<le> start"
    and "range_size_tree_rm (en, e) a = Some a1" and "range_count_cap a1 = 0"
  shows "add_to_tree spill start sz a c = Some (add_free_node (start, e) (a1\<lparr>range_tree := B @ (start, e) # A\<rparr>), c)"
  using assms by (cases B rule: rev_cases)
    (auto simp add: add_to_tree_def nth_append range_size_tree_try_insert_uncapped Let_def list_update_append)

lemma add_to_tree_none:
  assumes "range_count_cap a = 0" and "sz > 0" and "add64 start sz = en"
    and "range_tree a = B @ A" and "upper_idx en (range_tree a) = length B"
    and "rtop 0 B \<le> start" and "ranges_ok (Suc en) A"
  shows "add_to_tree spill start sz a c =
    Some (add_free_node (start, en) (a\<lparr>range_tree := B @ (start, en) # A\<rparr>), c)"
  using assms by (cases B rule: rev_cases; cases A)
    (auto simp add: add_to_tree_def nth_append try_insert_uncapped Let_def)

lemma add_to_tree_ok:
  assumes inv: "avl_inv a" and sz: "sz > 0" and fits: "start + sz \<le> device_size a"
    and disj: "avl_free a \<inter> arange start sz = {}"
  shows "\<exists>b. add_to_tree spill start sz a c = Some (b, c) \<and> avl_to a b (avl_free a \<union> arange start sz)"
proof -
  define en where "en = start + sz"
  have en: "add64 start sz = en" "start < en"
    using inv fits sz by (simp_all add: en_def add64_exact avl_inv_def)
  have ok: "ranges_ok 0 (range_tree a)" and cap: "range_count_cap a = 0"
    and sy: "sz_ok (range_tree a) a" and dev: "\<forall>(s, e) \<in> set (range_tree a). e \<le> device_size a"
    using inv by (auto simp: avl_inv_def)
  obtain B A where rt: "range_tree a = B @ A" and i: "upper_idx en (range_tree a) = length B"
    and B: "rtop 0 B \<le> Suc start" and A: "ranges_ok en A"
    using upper_idx_split [OF ok _ en(2)] disj by (auto simp: avl_free_def arange_def en_def)
  have st: "ranges_ok 0 B" "ranges_ok (rtop 0 B) A" using ok rt by auto
  have A_cases: "ranges_ok (Suc en) A \<or> (\<exists>e' A'. A = (en, e') # A')"
    using A by (cases A) (auto simp: Suc_le_eq order_le_less)
  have B_cases: "rtop 0 B \<le> start \<or> (\<exists>B' bs. B = B' @ [(bs, start)])"
    using B by (cases B rule: rev_cases) (auto simp: le_Suc_eq)
  have free: "avl_free a \<union> arange start sz = addrs B \<union> {start..<en} \<union> addrs A"
    using rt by (auto simp: avl_free_def arange_def en_def)
  consider (both) B' s e A' where "B = B' @ [(s, start)]" "A = (en, e) # A'"
    | (before) B' s where "B = B' @ [(s, start)]" "ranges_ok (Suc en) A"
    | (after) e A' where "rtop 0 B \<le> start" "A = (en, e) # A'"
    | (none) "rtop 0 B \<le> start" "ranges_ok (Suc en) A"
    using A_cases B_cases by blast
  then show ?thesis
  proof cases
    case (both B' s e A')
    obtain n1 t1 where rm1: "range_size_tree_rm (s, start) a = Some (a\<lparr>num_free := n1, range_size_tree := t1\<rparr>)"
      and sy1: "sz_ok (B' @ (en, e) # A') (a\<lparr>num_free := n1, range_size_tree := t1\<rparr>)"
      using sy unfolding rt both append_assoc append.simps by (rule range_size_tree_rm_ok)
    obtain n2 t2 where rm2: "range_size_tree_rm (en, e) (a\<lparr>num_free := n1, range_size_tree := t1\<rparr>) =
        Some (a\<lparr>num_free := n2, range_size_tree := t2\<rparr>)"
      and sy2: "sz_ok (B' @ A') (a\<lparr>num_free := n2, range_size_tree := t2\<rparr>)"
      by (rule range_size_tree_rm_ok [OF sy1]) (rule that, simp_all)
    note add = add_to_tree_both [OF cap sz en(1) _ _ rm1 rm2, of B' A' spill c]
    have "addrs (B' @ (s, e) # A') = avl_free a \<union> arange start sz"
      unfolding free both using st both en by auto
    then show ?thesis
      using add avl_to_replace [OF inv sy2 _ _ refl, of s e] cap rt i both st dev en(2) by auto
  next
    case (before B' s)
    obtain n1 t1 where rm1: "range_size_tree_rm (s, start) a = Some (a\<lparr>num_free := n1, range_size_tree := t1\<rparr>)"
      and sy1: "sz_ok (B' @ A) (a\<lparr>num_free := n1, range_size_tree := t1\<rparr>)"
      using sy unfolding rt before(1) append_assoc append.simps by (rule range_size_tree_rm_ok)
    note add = add_to_tree_before [OF cap sz en(1) _ _ before(2) rm1, of B' spill c]
    have "addrs (B' @ (s, en) # A) = avl_free a \<union> arange start sz"
      unfolding free before(1) using st before en by auto
    then show ?thesis
      using add avl_to_replace [OF inv sy1 _ _ refl, of s en] cap rt i before st dev en(2) fits en_def
      by auto
  next
    case (after e A')
    obtain n1 t1 where rm1: "range_size_tree_rm (en, e) a = Some (a\<lparr>num_free := n1, range_size_tree := t1\<rparr>)"
      and sy1: "sz_ok (B @ A') (a\<lparr>num_free := n1, range_size_tree := t1\<rparr>)"
      using sy unfolding rt after by (rule range_size_tree_rm_ok)
    note add = add_to_tree_after [OF cap sz en(1) _ _ after(1) rm1, of A' spill c]
    have "addrs (B @ (start, e) # A') = avl_free a \<union> arange start sz"
      unfolding free after(2) using st after en by auto
    then show ?thesis
      using add avl_to_replace [OF inv sy1 _ _ refl, of start e] cap rt i after st dev en(2) by auto
  next
    case none
    have sy1: "sz_ok (B @ A) a"
      using sy rt by simp
    note add = add_to_tree_none [OF cap sz en(1) rt i none, of spill c]
    have "addrs (B @ (start, en) # A) = avl_free a \<union> arange start sz"
      unfolding free by auto
    then show ?thesis
      using add avl_to_replace [OF inv sy1, of start en "range_size_tree a" "num_free a"]
        rt none st dev en(2) fits en_def by auto
  qed
qed

text \<open>The node \<open>find\<close> gives for a range inside the free space.\<close>

lemma find_idx_split:
  assumes "ranges_ok 0 rt" and "{start..<en} \<subseteq> addrs rt" and "start < en"
  obtains B s e A where "rt = B @ (s, e) # A" and "find_idx start en rt = Some (length B)"
    and "s \<le> start" and "en \<le> e"
proof -
  obtain s e where "(s, e) \<in> set rt" and se: "s \<le> start" "en \<le> e"
    using addrs_contains_range [OF assms] by blast
  then obtain B A where rt: "rt = B @ (s, e) # A" by (meson split_list)
  have "e' \<le> start" if "(s', e') \<in> set B" for s' e'
    using that assms(1) rt se(1) ranges_ok_memD [of 0 B s' e'] by simp
  then have "takeWhile (\<lambda>r. snd r \<le> start) rt = B"
    using rt se assms(3) by (auto simp: takeWhile_append)
  then have "find_idx start en rt = Some (length B)"
    using rt se assms(3) by (simp add: find_idx_def lower_idx_def Let_def)
  with rt se show ?thesis by (intro that)
qed

lemma add_free_node_range_tree:
  "add_free_node r (a\<lparr>range_tree := rt\<rparr>) = (add_free_node r a)\<lparr>range_tree := rt\<rparr>"
  by (simp add: add_free_node_def)

lemma process_range_removal_ok:
  assumes inv: "avl_inv a" and rt: "range_tree a = B @ (s, e) # A"
    and se: "s \<le> start" "start < en" "en \<le> e"
  shows "\<exists>b. process_range_removal spill start en (length B) a c = Some (b, c) \<and>
    avl_to a b (avl_free a - {start..<en})"
proof -
  have st: "ranges_ok 0 B" "rtop 0 B \<le> s" "ranges_ok (Suc e) A"
    and cap: "range_count_cap a = 0" and dev: "\<forall>(s, e) \<in> set (B @ (s, e) # A). e \<le> device_size a"
    using inv rt by (auto simp: avl_inv_def)
  have lo: "x \<in> addrs B \<Longrightarrow> x < s" and hi: "x \<in> addrs A \<Longrightarrow> e < x" for x
    using ranges_ok_addrs_less [OF st(1), of x] st(2) ranges_ok_addrs_ge [OF st(3), of x] by auto
  have free: "avl_free a - {start..<en} = addrs B \<union> ({s..<start} \<union> ({en..<e} \<union> addrs A))"
    using rt se lo hi by (fastforce simp: avl_free_def)
  obtain n t where rm: "range_size_tree_rm (s, e) a = Some (a\<lparr>num_free := n, range_size_tree := t\<rparr>)"
    and sy: "sz_ok (B @ A) (a\<lparr>num_free := n, range_size_tree := t\<rparr>)"
    by (rule range_size_tree_rm_ok [of B "(s, e)" A a]) (use inv rt in \<open>simp add: avl_inv_def\<close>)
  note def = process_range_removal_def [of spill start en "length B" a c]
  note ins = try_insert_uncapped range_size_tree_try_insert_uncapped
  consider (whole) "s = start" "e = en" | (right) "s = start" "en < e"
    | (left) "s < start" "e = en" | (middle) "s < start" "en < e"
    using se by linarith
  then show ?thesis
  proof cases
    case whole
    have "(s, e) \<notin> set B"
      using st(1,2) whole se ranges_ok_memD [of 0 B s e] by auto
    then have "process_range_removal spill start en (length B) a c =
        Some (a\<lparr>num_free := n, range_size_tree := t, range_tree := B @ A\<rparr>, c)"
      using rt rm whole by (simp add: def Let_def remove1_append)
    moreover have "avl_inv (a\<lparr>num_free := n, range_size_tree := t, range_tree := B @ A\<rparr>)"
      using inv sy rt st se by (auto simp: avl_inv_def sz_ok_def intro: ranges_ok_mono)
    ultimately show ?thesis
      unfolding free using whole avl_toI [OF _ refl, of "B @ A" t n a] by auto
  next
    case right
    then show ?thesis 
      using avl_to_replace [OF inv sy _ _ refl, of en e] cap rt rm st dev se unfolding free
      by (auto simp: def Let_def ins)
  next
    case left
    then show ?thesis 
      using avl_to_replace [OF inv sy _ _ refl, of s start] cap rt rm st dev se unfolding free
      by (auto simp: def Let_def ins ranges_ok_mono)
  next
    case middle
    obtain n' t' where add: "add_free_node (en, e) (a\<lparr>num_free := n, range_size_tree := t\<rparr>) =
        a\<lparr>num_free := n', range_size_tree := t'\<rparr>"
      and sy': "sz_ok (B @ (en, e) # A) (a\<lparr>num_free := n', range_size_tree := t'\<rparr>)"
    proof (rule add_free_node_ok [OF sy middle(2)])
      show "e < 2 ^ 63" and "covered (B @ (en, e) # A) < 2 ^ 63"
        using inv rt se by (auto simp: avl_inv_def sz_ok_def)
      show "en \<notin> fst ` set (B @ A)"
        using st middle se ranges_ok_memD [of 0 B] ranges_ok_memD [of "Suc e" A] by fastforce
    qed (rule that, simp_all)
    have "process_range_removal spill start en (length B) a c =
        Some (add_free_node (s, start) (a\<lparr>num_free := n', range_size_tree := t',
           range_tree := B @ (s, start) # (en, e) # A\<rparr>), c)"
      using rt rm middle cap add by (simp add: def Let_def ins add_free_node_range_tree list_update_append)
    then show ?thesis 
      using avl_to_replace [OF inv sy' _ _ refl, of s start] st dev se middle unfolding free by auto
  qed
qed

lemma remove_from_tree_ok:
  assumes inv: "avl_inv a" and sz: "sz > 0" and sub: "arange start sz \<subseteq> avl_free a"
  shows "\<exists>b. remove_from_tree spill start sz a c = Some (b, c) \<and> avl_to a b (avl_free a - arange start sz)"
proof -
  have ok: "ranges_ok 0 (range_tree a)" using inv by (simp add: avl_inv_def)
  obtain B s e A where rt: "range_tree a = B @ (s, e) # A"
    and find: "find_idx start (start + sz) (range_tree a) = Some (length B)"
    and se: "s \<le> start" "start + sz \<le> e"
    by (rule find_idx_split [OF ok, of start "start + sz"])
      (use sub sz in \<open>auto simp: avl_free_def arange_def\<close>)
  have en: "add64 start sz = start + sz" and "sz \<le> num_free a"
    using inv rt se by (auto simp: avl_inv_def sz_ok_def intro!: add64_exact)
  then show ?thesis
    using process_range_removal_ok [OF inv rt se(1), of "start + sz" spill c] find rt se sz
    by (simp add: remove_from_tree_def arange_def)
qed

section \<open>Picking a block\<close>

lemma walk_after_found:
  "walk_after base sz align n b rs = Found off \<Longrightarrow>
   \<exists>r \<in> set rs. off = p2roundup (fst r) align \<and> add64 off sz \<le> snd r"
  by (induction rs arbitrary: n b) (auto simp: Let_def split: if_splits)

lemma walk_before_found:
  "walk_before base sz align n b rs = Found off \<Longrightarrow>
   \<exists>r \<in> set rs. off = p2roundup (fst r) align \<and> add64 off sz \<le> snd r"
  by (induction rs arbitrary: n b) (auto simp: Let_def split: if_splits)

lemma walk_fits_found:
  "walk_fits sz align n rs = off \<Longrightarrow> off \<noteq> UINT64_MAX \<Longrightarrow>
   \<exists>r \<in> set rs. off = p2roundup (fst r) align \<and> add64 off sz \<le> snd r"
  by (induction rs arbitrary: n) (auto simp: Let_def split: if_splits)

lemma pick_block_after_found:
  assumes "pick_block_after cursor sz align a = (cursor', off)" and "off \<noteq> UINT64_MAX"
  shows "\<exists>r \<in> set (range_tree a). off = p2roundup (fst r) align \<and> add64 off sz \<le> snd r"
  using assms unfolding pick_block_after_def Let_def
  by (auto split: walk.splits if_splits dest!: walk_after_found walk_before_found
      dest: in_set_takeD in_set_dropD)

lemma pick_block_fits_found:
  assumes "pick_block_fits sz align a = off" and "off \<noteq> UINT64_MAX"
  shows "\<exists>r \<in> set (range_size_tree a). off = p2roundup (fst r) align \<and> add64 off sz \<le> snd r"
  using walk_fits_found [OF assms [unfolded pick_block_fits_def]] by (auto dest: set_dropWhileD)

lemma fits_loop_found:
  assumes "fits_loop unit a sz = (start, sz')" and "start \<noteq> UINT64_MAX" and "0 < sz" and "sz < 2 ^ 64"
    and "isp2 unit" and "unit < 2 ^ 64"
  shows "0 < sz' \<and> sz' \<le> sz \<and> (unit dvd sz \<longrightarrow> unit dvd sz') \<and>
    (\<exists>r \<in> set (range_size_tree a). start = p2roundup (fst r) unit \<and> add64 start sz' \<le> snd r)"
  using assms(1,3,4)
proof (induction sz rule: less_induct)
  case (less sz)
  show ?case
  proof (cases "pick_block_fits sz unit a = UINT64_MAX")
    case True
    define h where "h = p2align (sz div 2) unit"
    have "unit \<le> h" and "h < sz" and rec: "fits_loop unit a h = (start, sz')"
      using less.prems(1) True assms(2)
      by (subst (asm) fits_loop.simps, simp add: Let_def h_def split: if_splits)+
    moreover have "0 < unit" and "unit dvd h"
      using assms(5,6) less.prems(3) by (auto simp: h_def isp2_pos intro!: p2align_dvd)
    ultimately show ?thesis
      using less.IH [of h] less.prems(3) by auto
  next
    case False
    then have "start = pick_block_fits sz unit a" and "sz' = sz"
      using less.prems(1) by (subst (asm) fits_loop.simps, simp add: Let_def)+
    then show ?thesis
      using pick_block_fits_found [OF _ assms(2)] less.prems by auto
  qed
qed

lemma pow2_dvd_2_63:
  assumes "isp2 unit" and "unit < 2 ^ 64"
  shows "unit dvd 2 ^ 63"
proof -
  obtain k where "unit = 2 ^ k" and "k < 64" using isp2_less_power [OF assms] .
  then show ?thesis using le_imp_power_dvd [of k 63 2] by simp
qed

text \<open>What a found offset means: an aligned block inside a free range, with no wrap-around.\<close>

lemma block_in_range:
  assumes "isp2 unit" and "unit < 2 ^ 64" and "s < e" and "e < 2 ^ 63" and "sz < 2 ^ 63"
    and "off = p2roundup s unit" and "add64 off sz \<le> e"
  shows "unit dvd off \<and> s \<le> off \<and> off + sz \<le> e"
proof -
  obtain d where d: "2 ^ 63 = unit * d"
    using pow2_dvd_2_63 [OF assms(1,2)] by (rule dvdE)
  have pos: "unit > 0" and "unit \<le> 2 ^ 63"
    using isp2_pos [OF assms(1)] dvd_imp_le [OF pow2_dvd_2_63 [OF assms(1,2)]] by simp_all
  then have le: "s \<le> 2 ^ 64 - unit" using assms(3,4) by simp
  note eq = p2roundup_eq [OF assms(1,2) le]
  define c where "c = (s + (unit - 1)) div unit"
  have off: "off = unit * c"
    unfolding assms(6) eq c_def by (rule mult.commute)
  have ge: "s \<le> off" and "off < s + unit"
    using ceil_mult_bounds [OF pos, of s, folded c_def] off by (simp_all add: mult.commute)
  with off have "unit * c < unit * Suc d" using assms(3,4) d by simp
  then have "c \<le> d" by (simp only: nat_mult_less_cancel1 pos less_Suc_eq_le)
  then have "off \<le> 2 ^ 63" unfolding d off by simp
  then have "add64 off sz = off + sz" using assms(5) by (intro add64_exact) simp
  with off ge assms(7) show ?thesis by simp
qed

lemma range_in_tree:
  assumes "avl_inv a" and "r \<in> set (range_tree a) \<or> r \<in> set (range_size_tree a)"
  shows "r \<in> set (range_tree a) \<and> fst r < snd r \<and> snd r < 2 ^ 63"
proof -
  have "set (range_size_tree a) = set (range_tree a)"
    using assms(1) unfolding avl_inv_def sz_ok_def by (metis set_mset_mset)
  with assms show ?thesis by (cases r) (auto simp: avl_inv_def sz_ok_def)
qed

text \<open>A block an allocation may hand out: nonempty, aligned and free.\<close>

definition free_block :: "u64 \<Rightarrow> u64 \<Rightarrow> u64 \<Rightarrow> avl \<Rightarrow> bool" where
  "free_block unit off len a \<longleftrightarrow> 0 < len \<and> unit dvd off \<and> arange off len \<subseteq> avl_free a"

lemma free_blockI:
  assumes "avl_inv a" and "isp2 unit" and "unit < 2 ^ 64" and "0 < sz" and "sz < 2 ^ 63"
    and "\<exists>r \<in> set (range_tree a) \<union> set (range_size_tree a). off = p2roundup (fst r) unit \<and> add64 off sz \<le> snd r"
  shows "free_block unit off sz a"
proof -
  obtain s e where r: "(s, e) \<in> set (range_tree a)" "s < e" "e < 2 ^ 63"
    and off: "off = p2roundup s unit" "add64 off sz \<le> e"
    using assms(6) range_in_tree [OF assms(1)] by force
  have "unit dvd off \<and> s \<le> off \<and> off + sz \<le> e"
    using block_in_range [OF assms(2,3) r(2,3) assms(5) off] .
  moreover have "{s..<e} \<subseteq> avl_free a"
    using addrs_subset [OF r(1)] by (simp add: avl_free_def)
  ultimately show ?thesis
    using assms(4) by (auto simp: free_block_def arange_def)
qed

lemma and_neg64_pos:
  assumes "0 < x" and "x < 2 ^ 64"
  shows "0 < x AND neg64 x"
proof (rule ccontr)
  assume no: "\<not> 0 < x AND neg64 x"
  have n: "neg64 x = 2 ^ 64 - x" using assms by (simp add: neg64_def)
  have "int (x AND neg64 x) + int (x OR neg64 x) = int x + int (neg64 x)"
    unfolding of_nat_and_eq of_nat_or_eq by (rule plus_and_or)
  then have "int (x OR neg64 x) = 2 ^ 64" using no n assms(2) by simp
  moreover have "int (x OR neg64 x) < 2 ^ 64"
    unfolding of_nat_or_eq using assms n by (intro OR_upper) auto
  ultimately show False by simp
qed

section \<open>One block\<close>

lemma max_range_size_less: "avl_inv a \<Longrightarrow> max_range_size a < 2 ^ 63"
  using range_in_tree [of a "last (range_size_tree a)"]
  by (auto simp: max_range_size_def sub64_exact)

lemma first_pick_ok:
  assumes "avl_inv a" and "0 < sz" and "sz < 2 ^ 64"
  obtains ls start where "first_pick forced sz unit a = Some (a\<lparr>lbas := ls\<rparr>, start)" and "length ls = 64"
    and "start \<noteq> UINT64_MAX \<Longrightarrow>
      \<exists>r \<in> set (range_tree a). start = p2roundup (fst r) unit \<and> add64 start sz \<le> snd r"
proof -
  define align where "align = sz AND neg64 sz"
  obtain cursor start where pick: "pick_block_after (lbas a ! (cbits align - 1)) sz unit a = (cursor, start)"
    by fastforce
  have len: "length (lbas a) = 64" using assms(1) by (simp add: avl_inv_def)
  have "align \<noteq> 0" using and_neg64_pos [OF assms(2,3)] by (simp add: align_def)
  then have "first_pick forced sz unit a = Some (a\<lparr>lbas := lbas a\<rparr>, UINT64_MAX) \<or>
      first_pick forced sz unit a = Some (a\<lparr>lbas := (lbas a)[cbits align - 1 := cursor]\<rparr>, start)"
    using pick by (simp add: first_pick_def Let_def align_def)
  then show ?thesis
    using that len pick_block_after_found [OF pick] by (metis length_list_update)
qed

definition avl_same :: "avl \<Rightarrow> avl \<Rightarrow> bool" where
  "avl_same a b \<longleftrightarrow> device_size b = device_size a \<and> block_size b = block_size a"

lemma allocate_single_ok:
  assumes inv: "avl_inv a" and unit: "isp2 unit" "unit < 2 ^ 64" and sz: "0 < sz" "sz < 2 ^ 64"
  shows "\<exists>r b. allocate_single spill sz unit a c = Some (r, b, c) \<and> avl_inv b \<and> avl_same a b \<and>
    (case r of Inl e \<Rightarrow> e = - ENOSPC \<and> avl_free b = avl_free a
     | Inr (off, len) \<Rightarrow> free_block unit off len a \<and> len \<le> sz \<and> (unit dvd sz \<longrightarrow> unit dvd len) \<and>
         avl_free b = avl_free a - arange off len)"
proof (cases "max_range_size a < sz \<and> max_range_size a < unit")
  case True
  with inv show ?thesis
    by (simp add: allocate_single_def avl_same_def)
next
  case False
  define forced sz1 where "forced = (max_range_size a < sz)"
    and "sz1 = (if forced then p2align (max_range_size a) unit else sz)"
  have m: "max_range_size a < 2 ^ 63" using max_range_size_less [OF inv] .
  have sz1: "0 < sz1" "sz1 \<le> sz" "sz1 < 2 ^ 63" "unit dvd sz \<longrightarrow> unit dvd sz1"
    using False m sz unit p2align_le [OF unit, of "max_range_size a"]
      p2align_pos [OF unit, of "max_range_size a"] p2align_dvd [OF unit, of "max_range_size a"]
    by (auto simp: sz1_def forced_def)
  obtain ls start1 where pick: "first_pick forced sz1 unit a = Some (a\<lparr>lbas := ls\<rparr>, start1)"
    and ls: "length ls = 64" and f1: "start1 \<noteq> UINT64_MAX \<Longrightarrow>
      \<exists>r \<in> set (range_tree a). start1 = p2roundup (fst r) unit \<and> add64 start1 sz1 \<le> snd r"
    by (rule first_pick_ok [OF inv sz1(1)]) (use sz1 in auto)
  define a1 where "a1 = a\<lparr>lbas := ls\<rparr>"
  have inv1: "avl_inv a1" and free1: "avl_free a1 = avl_free a" and same1: "avl_same a a1"
    using inv ls by (simp_all add: a1_def avl_inv_def sz_ok_def avl_free_def avl_same_def)
  obtain start sz2 where pos: "(if start1 = UINT64_MAX then fits_loop unit a1 sz1 else (start1, sz1)) = (start, sz2)"
    by fastforce
  have run: "allocate_single spill sz unit a c =
      (if start = UINT64_MAX then Some (Inl (- ENOSPC), a1, c)
       else do { (a2, c1) \<leftarrow> remove_from_tree spill start sz2 a1 c; Some (Inr (start, sz2), a2, c1) })"
    unfolding allocate_single_def Let_def if_not_P [OF False] forced_def [symmetric]
      sz1_def [symmetric] pick a1_def [symmetric] bind.bind_lunit prod.case pos
    using sz1(1) False [folded forced_def] by auto
  show ?thesis
  proof (cases "start = UINT64_MAX")
    case True
    with run inv1 free1 same1 show ?thesis by simp
  next
    case False
    have sz2: "0 < sz2" "sz2 \<le> sz1" "unit dvd sz1 \<longrightarrow> unit dvd sz2"
      and "\<exists>r \<in> set (range_tree a1) \<union> set (range_size_tree a1). start = p2roundup (fst r) unit \<and> add64 start sz2 \<le> snd r"
      using pos fits_loop_found [of unit a1 sz1 start sz2] f1 False sz1 unit
      by (auto simp: a1_def split: if_splits)
    then have blk: "free_block unit start sz2 a1"
      using sz1 by (intro free_blockI [OF inv1 unit]) auto
    obtain b where b: "remove_from_tree spill start sz2 a1 c = Some (b, c)"
      and to: "avl_to a1 b (avl_free a1 - arange start sz2)"
      using remove_from_tree_ok [OF inv1 sz2(1), of start spill c] blk by (auto simp: free_block_def)
    have "avl_same a b" using to same1 by (auto simp: avl_to_def avl_same_def)
    then show ?thesis
      using run False b to blk sz1 sz2 free1 by (auto simp: avl_to_def free_block_def)
  qed
qed

section \<open>When one block is always found\<close>

lemma p2roundup_aligned:
  assumes "isp2 unit" and "unit < 2 ^ 64" and "unit dvd s" and "s < 2 ^ 63"
  shows "p2roundup s unit = s"
proof -
  have "unit \<le> 2 ^ 63" using dvd_imp_le [OF pow2_dvd_2_63 [OF assms(1,2)]] by simp
  then have le: "s \<le> 2 ^ 64 - unit" using assms(4) by simp
  obtain c where s: "s = unit * c" using assms(3) by (rule dvdE)
  have "(unit * c + (unit - 1)) div unit = c"
    using isp2_pos [OF assms(1)] by (intro div_nat_eqI) (auto simp: algebra_simps)
  then show ?thesis
    unfolding p2roundup_eq [OF assms(1,2) le] unfolding s by (simp add: mult.commute)
qed

lemma pick_block_fits_whole:
  assumes inv: "avl_inv a" and whole: "whole_units unit (avl_free a)" and unit: "isp2 unit" "unit < 2 ^ 64"
    and "0 < sz" and "sz \<le> max_range_size a"
  shows "pick_block_fits sz unit a \<noteq> UINT64_MAX"
proof -
  define rest where "rest = dropWhile (\<lambda>r. shorter r (0, sz)) (range_size_tree a)"
  have ne: "range_size_tree a \<noteq> []" using assms(5,6) by (auto simp: max_range_size_def)
  have "\<not> shorter (last (range_size_tree a)) (0, sz)"
    using assms(5,6) ne max_range_size_less [OF inv]
    by (simp add: shorter_def seg_length_def max_range_size_def sub64_exact split: if_splits)
  then have "rest \<noteq> []" using ne last_in_set [OF ne] by (auto simp: rest_def dropWhile_eq_Nil_conv)
  then obtain s e rs where rest: "rest = (s, e) # rs" by (cases rest) auto
  have sh: "\<not> shorter (s, e) (0, sz)"
    using hd_dropWhile [of "\<lambda>r. shorter r (0, sz)" "range_size_tree a", folded rest_def] rest by simp
  have "(s, e) \<in> set rest" using rest by simp
  then have "(s, e) \<in> set (range_size_tree a)" unfolding rest_def by (rule set_dropWhileD)
  with range_in_tree [OF inv, of "(s, e)"] have r: "(s, e) \<in> set (range_tree a)" "s < e" "e < 2 ^ 63"
    by auto
  have "unit dvd s"
    using whole_units_range(1) [OF whole [unfolded avl_free_def] _ r(1)] inv isp2_pos [OF unit(1)]
    by (auto simp: avl_inv_def)
  then have "p2roundup s unit = s"
    using r unit by (intro p2roundup_aligned) auto
  moreover have "s + sz \<le> e"
    using sh r max_range_size_less [OF inv] assms(6)
    by (simp add: shorter_def seg_length_def sub64_exact split: if_splits)
  ultimately show ?thesis
    using r by (simp add: pick_block_fits_def rest_def [symmetric] rest add64_exact UINT64_MAX_def
        max_search_count_def add32_def)
qed

lemma avl_free_nonempty: "avl_inv a \<Longrightarrow> avl_free a \<noteq> {} \<Longrightarrow> range_size_tree a \<noteq> []"
  by (auto simp: avl_inv_def sz_ok_def avl_free_def)

lemma allocate_single_whole:
  assumes inv: "avl_inv a" and unit: "isp2 unit" "unit < 2 ^ 64" and sz: "0 < sz" "sz < 2 ^ 64"
    and whole: "whole_units unit (avl_free a)" and ne: "avl_free a \<noteq> {}"
  shows "allocate_single spill sz unit a c \<noteq> Some (Inl r, b, c')"
proof -
  have ne': "range_size_tree a \<noteq> []" using avl_free_nonempty [OF inv ne] .
  obtain s e where l: "last (range_size_tree a) = (s, e)" by fastforce
  then have r: "(s, e) \<in> set (range_tree a)" "s < e" "e < 2 ^ 63"
    using range_in_tree [OF inv, of "(s, e)"] last_in_set [OF ne'] by auto
  then have m: "max_range_size a = e - s" using ne' l by (simp add: max_range_size_def sub64_exact)
  have "unit dvd s \<and> unit dvd e"
    using whole_units_range [OF whole [unfolded avl_free_def] _ r(1)] inv isp2_pos [OF unit(1)]
    by (auto simp: avl_inv_def)
  then have "unit \<le> e - s" using r(2) by (intro dvd_imp_le) (auto intro: dvd_diff_nat)
  define forced sz1 where "forced = (max_range_size a < sz)"
    and "sz1 = (if forced then p2align (max_range_size a) unit else sz)"
  have sz1: "0 < sz1" "sz1 \<le> max_range_size a" "sz1 < 2 ^ 64"
    using m r sz unit p2align_le [OF unit, of "e - s"] \<open>unit \<le> e - s\<close>
      p2align_pos [OF unit, of "e - s"] by (auto simp: sz1_def forced_def)
  obtain ls start1 where pick: "first_pick forced sz1 unit a = Some (a\<lparr>lbas := ls\<rparr>, start1)"
    by (rule first_pick_ok [OF inv sz1(1,3)])
  have "fst (fits_loop unit (a\<lparr>lbas := ls\<rparr>) sz1) \<noteq> UINT64_MAX"
    using pick_block_fits_whole [OF inv whole unit sz1(1,2)]
    by (subst fits_loop.simps) (simp add: Let_def pick_block_fits_def)
  then show ?thesis
    using \<open>unit \<le> e - s\<close> m sz1(1)
    unfolding allocate_single_def Let_def forced_def [symmetric] sz1_def [symmetric] pick
    by (auto split: prod.splits bind_splits if_splits)
qed

section \<open>Whole allocations\<close>

text \<open>The result of an allocation of blocks \<open>xs\<close> that takes \<open>a\<close> to \<open>b\<close>.\<close>

definition allocated_from :: "u64 \<Rightarrow> (u64 \<times> u64) list \<Rightarrow> avl \<Rightarrow> avl \<Rightarrow> bool" where
  "allocated_from unit xs a b \<longleftrightarrow>
     avl_inv b \<and> avl_same a b \<and> ext_disjoint xs \<and> ext_set xs \<subseteq> avl_free a \<and>
     avl_free b = avl_free a - ext_set xs \<and> (\<forall>(off, len) \<in> set xs. 0 < len \<and> len < 2 ^ 32 \<and> unit dvd off)"

lemma allocated_from_Cons:
  assumes "free_block unit off len a" and "len < 2 ^ 32" and "avl_same a b"
    and "avl_free b = avl_free a - arange off len" and "allocated_from unit xs b b'"
  shows "allocated_from unit ((off, len) # xs) a b'"
  using assms unfolding allocated_from_def free_block_def avl_same_def by auto

lemma allocate_loop_ok:
  assumes unit: "isp2 unit" "unit < 2 ^ 64" and m: "0 < m" "m < 2 ^ 32" and want: "want < 2 ^ 64"
  shows "avl_inv a \<Longrightarrow> n \<le> want \<Longrightarrow>
    \<exists>xs b. allocate_loop spill want unit m n acc a c = Some (n + ext_len xs, acc @ xs, b, c) \<and>
      allocated_from unit xs a b \<and> n + ext_len xs \<le> want \<and>
      (unit dvd m \<and> unit dvd want \<and> unit dvd n \<and> whole_units unit (avl_free a) \<longrightarrow>
        (n + ext_len xs = want \<or> avl_free b = {}) \<and> whole_units unit (avl_free b))"
proof (induction "want - n" arbitrary: n acc a rule: less_induct)
  case less
  note IH = less(1) and inv = less(2) and n = less(3)
  show ?case
  proof (cases "n < want")
    case False
    with inv n show ?thesis
      by (intro exI [of _ "[]"]) (simp add: allocate_loop.simps allocated_from_def avl_same_def)
  next
    case True
    define sz where "sz = min m (want - n)"
    have sz: "0 < sz" "sz < 2 ^ 64" "sz < 2 ^ 32" "sz \<le> want - n"
      using True m want by (simp_all add: sz_def)
    have dvd: "unit dvd sz" if "unit dvd m" "unit dvd want" "unit dvd n"
      using that by (auto simp: sz_def min_def intro: dvd_diff_nat)
    note whole = allocate_single_whole [OF inv unit sz(1,2), of spill c]
    obtain r b where run: "allocate_single spill sz unit a c = Some (r, b, c)" and b: "avl_inv b" "avl_same a b"
      and r: "case r of Inl e \<Rightarrow> e = - ENOSPC \<and> avl_free b = avl_free a
        | Inr (off, len) \<Rightarrow> free_block unit off len a \<and> len \<le> sz \<and> (unit dvd sz \<longrightarrow> unit dvd len) \<and>
           avl_free b = avl_free a - arange off len"
      using allocate_single_ok [OF inv unit sz(1,2), of spill c] by blast
    show ?thesis
    proof (cases r)
      case (Inl e)
      with True run b r n whole show ?thesis
        by (intro exI [of _ "[]"] exI [of _ b])
          (auto simp: allocate_loop.simps [of spill want unit m n] sz_def [symmetric] allocated_from_def)
    next
      case (Inr p)
      obtain off len where p: "p = (off, len)" by fastforce
      have blk: "free_block unit off len a" "len \<le> sz" "unit dvd sz \<longrightarrow> unit dvd len"
        "avl_free b = avl_free a - arange off len"
        using r Inr p by auto
      have len: "0 < len" "len < 2 ^ 32" "n + len \<le> want" "want - (n + len) < want - n"
        using blk sz n True by (auto simp: free_block_def)
      obtain xs b' where rec: "allocate_loop spill want unit m (n + len) (acc @ [(off, len)]) b c =
          Some (n + len + ext_len xs, (acc @ [(off, len)]) @ xs, b', c)"
        and al: "allocated_from unit xs b b'" and le: "n + len + ext_len xs \<le> want"
        and comp: "unit dvd m \<and> unit dvd want \<and> unit dvd n + len \<and> whole_units unit (avl_free b) \<longrightarrow>
          (n + len + ext_len xs = want \<or> avl_free b' = {}) \<and> whole_units unit (avl_free b')"
        using IH [OF len(4) b(1) len(3)] by blast
      have "allocate_loop spill want unit m n acc a c =
          Some (n + ext_len ((off, len) # xs), acc @ (off, len) # xs, b', c)"
        using True run Inr p rec len(2) by (simp add: allocate_loop.simps [of spill want unit m n] sz_def [symmetric])
      moreover have "allocated_from unit ((off, len) # xs) a b'"
        using allocated_from_Cons [OF blk(1) len(2) b(2) blk(4) al] .
      moreover have "unit dvd m \<and> unit dvd want \<and> unit dvd n \<and> whole_units unit (avl_free a) \<longrightarrow>
          (n + ext_len ((off, len) # xs) = want \<or> avl_free b' = {}) \<and> whole_units unit (avl_free b')"
        using comp blk dvd whole_units_diff [of unit "avl_free a" off len] isp2_pos [OF unit(1)]
        by (auto simp: free_block_def add.assoc)
      ultimately show ?thesis using le by (metis ext_simps(4) add.assoc)
    qed
  qed
qed

lemma capped_alloc_size_ok:
  assumes "isp2 blk" and "blk < 2 ^ 32" and "0 < want"
  shows "0 < capped_alloc_size want m blk \<and> capped_alloc_size want m blk < 2 ^ 32"
    and "unit dvd blk \<Longrightarrow> unit dvd want \<Longrightarrow> unit dvd m \<Longrightarrow> unit dvd capped_alloc_size want m blk"
proof -
  have "blk \<le> UINT32_MAX" "UINT32_MAX < 2 ^ 64" "blk < 2 ^ 64" "UINT32_MAX < 2 ^ 32"
    using assms(2) by (simp_all add: UINT32_MAX_def)
  then have "0 < p2align UINT32_MAX blk" "p2align UINT32_MAX blk < 2 ^ 32" "blk dvd p2align UINT32_MAX blk"
    using p2align_pos [OF assms(1), of UINT32_MAX] p2align_le [OF assms(1), of UINT32_MAX]
      p2align_dvd [OF assms(1), of UINT32_MAX] by auto
  then show "0 < capped_alloc_size want m blk \<and> capped_alloc_size want m blk < 2 ^ 32"
    and "unit dvd blk \<Longrightarrow> unit dvd want \<Longrightarrow> unit dvd m \<Longrightarrow> unit dvd capped_alloc_size want m blk"
    using assms(3) \<open>UINT32_MAX < 2 ^ 32\<close> by (auto simp: capped_alloc_size_def Let_def intro: dvd_trans)
qed

lemma num_free_card: "avl_inv a \<Longrightarrow> num_free a = card (avl_free a)"
  using card_addrs [of 0 "range_tree a"] by (simp add: avl_inv_def sz_ok_def avl_free_def)

lemma finite_avl_free [simp]: "finite (avl_free a)"
  by (simp add: avl_free_def)

lemma allocated_from_card:
  assumes "avl_inv a" and "allocated_from unit xs a b"
  shows "num_free b + ext_len xs = num_free a"
proof -
  have "card (avl_free b) + card (ext_set xs) = card (avl_free a)"
    using assms(2) card_Diff_subset [of "ext_set xs" "avl_free a"] card_mono [of "avl_free a" "ext_set xs"]
    by (auto simp: allocated_from_def)
  then show ?thesis
    using assms num_free_card card_ext_set by (simp add: allocated_from_def)
qed

lemma avl_allocate_ok:
  assumes inv: "avl_inv a" and unit: "isp2 unit" "unit < 2 ^ 64"
    and want: "0 < want" "want < 2 ^ 63" "unit dvd want"
    and blk: "isp2 (block_size a)" "block_size a < 2 ^ 32"
  shows "\<exists>xs b. avl_allocate want unit m a = Some (if xs = [] then - ENOSPC else int (ext_len xs), xs, b) \<and>
    allocated_from unit xs a b \<and> ext_len xs \<le> want \<and>
    (unit dvd m \<and> unit dvd block_size a \<and> whole_units unit (avl_free a) \<longrightarrow>
      ext_len xs = min want (num_free a) \<and> whole_units unit (avl_free b))"
proof -
  define cap where "cap = capped_alloc_size want m (block_size a)"
  note c = capped_alloc_size_ok [OF blk want(1), where m = m, folded cap_def]
  have w: "want < 2 ^ 64" using want(2) by simp
  obtain xs b where run: "allocate_loop spill_base want unit cap 0 [] a () = Some (ext_len xs, xs, b, ())"
    and al: "allocated_from unit xs a b" and le: "ext_len xs \<le> want"
    and comp: "unit dvd cap \<and> whole_units unit (avl_free a) \<longrightarrow>
      (ext_len xs = want \<or> avl_free b = {}) \<and> whole_units unit (avl_free b)"
    using allocate_loop_ok [OF unit _ _ w inv, of cap 0 spill_base "[]" "()"] c(1) want(3) by auto
  have "ext_len xs = 0 \<longleftrightarrow> xs = []"
    using al by (intro ext_len_0_iff) (auto simp: allocated_from_def)
  then have "avl_allocate want unit m a = Some (if xs = [] then - ENOSPC else int (ext_len xs), xs, b)"
    using unit(1) want run le
    by (auto simp: avl_allocate_def allocate_blocks_def cap_def [symmetric] to_i64_def dvd_eq_mod_eq_0)
  moreover have "ext_len xs = min want (num_free a) \<and> whole_units unit (avl_free b)"
    if "unit dvd m" "unit dvd block_size a" "whole_units unit (avl_free a)"
  proof -
    have "(ext_len xs = want \<or> avl_free b = {}) \<and> whole_units unit (avl_free b)"
      using that comp c(2) [OF that(2) want(3) that(1)] by blast
    moreover have "avl_inv b" using al by (simp add: allocated_from_def)
    ultimately show ?thesis
      using allocated_from_card [OF inv al] le num_free_card [of b] by auto
  qed
  ultimately show ?thesis using al le by blast
qed

text \<open>A request no longer than the longest free range is served in one piece.\<close>

lemma allocate_single_run:
  assumes inv: "avl_inv a" and unit: "isp2 unit" "unit < 2 ^ 64" and sz: "0 < sz" "sz \<le> max_range_size a"
    and whole: "whole_units unit (avl_free a)" and run: "allocate_single spill sz unit a c = Some (Inr (off, len), b, c')"
  shows "len = sz"
proof -
  have sz64: "sz < 2 ^ 64" using sz max_range_size_less [OF inv] by simp
  obtain ls start1 where pick: "first_pick False sz unit a = Some (a\<lparr>lbas := ls\<rparr>, start1)"
    by (rule first_pick_ok [OF inv sz(1) sz64])
  have "snd (fits_loop unit (a\<lparr>lbas := ls\<rparr>) sz) = sz"
    using pick_block_fits_whole [OF inv whole unit sz]
    by (subst fits_loop.simps) (simp add: Let_def pick_block_fits_def)
  then show ?thesis
    using run sz(2) unfolding allocate_single_def Let_def
    by (auto simp: not_less pick split: prod.splits bind_splits if_splits)
qed

lemma avl_allocate_run:
  assumes inv: "avl_inv a" and unit: "isp2 unit" "unit < 2 ^ 64" and want: "0 < want" "want < UINT32_MAX" "unit dvd want"
    and blk: "isp2 (block_size a)" "block_size a < 2 ^ 32" "unit dvd block_size a"
    and whole: "whole_units unit (avl_free a)" and long: "want \<le> max_range_size a"
  shows "\<exists>off b. avl_allocate want unit want a = Some (int want, [(off, want)], b)"
proof -
  have w: "want < 2 ^ 32" "want < 2 ^ 64" "want < 2 ^ 63" using want(2) by (simp_all add: UINT32_MAX_def)
  have cap: "capped_alloc_size want want (block_size a) = want" using want(1,2) by (simp add: capped_alloc_size_def)
  obtain r b where r: "allocate_single spill_base want unit a () = Some (r, b, ())" "avl_inv b"
    using allocate_single_ok [OF inv unit want(1) w(2), of spill_base "()"] by blast
  have "range_size_tree a \<noteq> []" using long want(1) by (auto simp: max_range_size_def)
  then have l: "last (range_size_tree a) \<in> set (range_size_tree a)" by (rule last_in_set)
  obtain s e where "last (range_size_tree a) = (s, e)" by fastforce
  then have "(s, e) \<in> set (range_tree a)" "s < e" using range_in_tree [OF inv, of "(s, e)"] l by auto
  then have "s \<in> avl_free a" by (force simp: avl_free_def addrs_def)
  then have "avl_free a \<noteq> {}" by blast
  then obtain off len where "r = Inr (off, len)"
    using allocate_single_whole [OF inv unit want(1) w(2) whole, of spill_base "()"] r(1) by (cases r) auto
  moreover have "len = want"
    using allocate_single_run [OF inv unit want(1) long whole, of spill_base "()" off len b "()"] r(1) calculation by simp
  ultimately have "allocate_loop spill_base want unit want 0 [] a () = Some (want, [(off, want)], b, ())"
    using r(1) want(1) w(1) by (simp add: allocate_loop.simps)
  then show ?thesis
    using unit(1) want w by (auto simp: avl_allocate_def allocate_blocks_def cap to_i64_def dvd_eq_mod_eq_0)
qed

section \<open>Release and initialisation\<close>

lemma release_loop_ok:
  "avl_inv a \<Longrightarrow> ranges_ok lb (to_ranges ps) \<Longrightarrow> \<forall>(s, l) \<in> set ps. s + l \<le> device_size a \<Longrightarrow>
   addrs (to_ranges ps) \<inter> avl_free a = {} \<Longrightarrow>
   \<exists>b. release_loop spill ps a c = Some (b, c) \<and> avl_inv b \<and> avl_same a b \<and>
     avl_free b = avl_free a \<union> addrs (to_ranges ps)"
proof (induction ps arbitrary: a lb)
  case Nil
  then show ?case by (simp add: avl_same_def)
next
  case (Cons p ps)
  obtain s l where p: "p = (s, l)" by (cases p)
  have l: "0 < l" "s + l \<le> device_size a" "ranges_ok (Suc (s + l)) (to_ranges ps)"
    and disj: "avl_free a \<inter> arange s l = {}" and "add64 s l = s + l"
    using Cons.prems p by (auto simp: arange_def avl_inv_def intro!: add64_exact)
  then obtain b where b: "add_to_tree spill s l a c = Some (b, c)" "avl_to a b (avl_free a \<union> arange s l)"
    using add_to_tree_ok [OF Cons.prems(1), of l s spill c] by blast
  then have "avl_inv b" "device_size b = device_size a" "block_size b = block_size a"
    "avl_free b = avl_free a \<union> arange s l"
    by (auto simp: avl_to_def)
  moreover have "addrs (to_ranges ps) \<inter> (avl_free a \<union> arange s l) = {}"
    using Cons.prems(4) ranges_ok_addrs_ge [OF l(3)] p by (fastforce simp: arange_def)
  ultimately show ?case
    using Cons.IH [of b, OF _ l(3)] Cons.prems(3) b(1) p l(2) \<open>add64 s l = s + l\<close>
    by (auto simp: avl_same_def arange_def Un_assoc)
qed

lemma avl_release_vec_ok:
  assumes "avl_inv a" and "\<forall>(off, len) \<in> set xs. off + len \<le> device_size a"
    and "ext_set xs \<inter> avl_free a = {}"
  shows "\<exists>b. avl_release_vec xs a = Some b \<and> avl_inv b \<and> avl_same a b \<and>
    avl_free b = avl_free a \<union> ext_set xs"
proof -
  define iv where "iv = fold (\<lambda>(off, len). iset_insert off len) xs iset_empty"
  have "\<forall>(off, len) \<in> set xs. off + len < 2 ^ 64"
    using assms(1,2) by (fastforce simp: avl_inv_def)
  then have iv: "iset_inv iv" and els: "iset_addrs iv = ext_set xs"
    using iset.insert_all [of iset_empty xs] iset_empty_correct
    by (auto simp: iv_def ext_set_def)
  have ok: "ranges_ok 0 (to_ranges (ivals iv))" and ads: "addrs (to_ranges (ivals iv)) = ext_set xs"
    using iv els by (simp_all add: iset_inv_def iset_addrs_def)
  have "s + l \<le> device_size a" if "(s, l) \<in> set (ivals iv)" for s l
  proof -
    have m: "(s, s + l) \<in> set (to_ranges (ivals iv))"
      using that by (force simp: to_ranges_def)
    then have "s + l - 1 \<in> ext_set xs"
      using addrs_subset [OF m] ranges_ok_memD [OF ok m] ads by auto
    then show ?thesis using assms(2) by (fastforce simp: ext_set_def)
  qed
  then show ?thesis
    using release_loop_ok [OF assms(1) ok, of spill_base "()"] ads assms(3)
    by (auto simp: avl_release_vec_def avl_release_def iv_def [symmetric])
qed

lemma avl_init_add_free_ok:
  assumes "avl_inv a" and "offset + len \<le> device_size a" and "avl_free a \<inter> arange offset len = {}"
  shows "\<exists>b. avl_init_add_free offset len a = Some b \<and> avl_inv b \<and> avl_same a b \<and>
    avl_free b = avl_free a \<union> arange offset len"
proof (cases "len = 0")
  case True
  with assms show ?thesis by (simp add: avl_init_add_free_def avl_same_def)
next
  case False
  have "add64 offset len = offset + len"
    using assms by (intro add64_exact) (simp add: avl_inv_def)
  then show ?thesis
    using add_to_tree_ok [OF assms(1) _ assms(2,3), of spill_base "()"] False assms(2)
    by (auto simp: avl_init_add_free_def avl_to_def avl_same_def)
qed

lemma avl_init_rm_free_ok:
  assumes "avl_inv a" and "arange offset len \<subseteq> avl_free a"
  shows "\<exists>b. avl_init_rm_free offset len a = Some b \<and> avl_inv b \<and> avl_same a b \<and>
    avl_free b = avl_free a - arange offset len"
proof (cases "len = 0")
  case True
  with assms show ?thesis by (simp add: avl_init_rm_free_def avl_same_def)
next
  case False
  then have "offset + len - 1 \<in> avl_free a" using assms(2) by (auto simp: arange_def)
  then have le: "offset + len \<le> device_size a"
    using assms(1) by (fastforce simp: avl_inv_def avl_free_def mem_addrs)
  then have "add64 offset len = offset + len"
    using assms by (intro add64_exact) (simp add: avl_inv_def)
  then show ?thesis
    using remove_from_tree_ok [OF assms(1) _ assms(2), of spill_base "()"] False le
    by (auto simp: avl_init_rm_free_def avl_to_def avl_same_def)
qed

lemma avl_new_inv:
  "0 < dev \<Longrightarrow> dev < 2 ^ 63 \<Longrightarrow> avl_inv (avl_new dev blk 0 ew) \<and> avl_free (avl_new dev blk 0 ew) = {}"
  by (simp add: avl_inv_def sz_ok_def avl_new_def avl_free_def)

section \<open>The allocator implements the interface\<close>

definition avl_ready :: "u64 \<Rightarrow> avl \<Rightarrow> bool" where
  "avl_ready unit a \<longleftrightarrow> avl_inv a \<and> isp2 (block_size a) \<and> block_size a < 2 ^ 32 \<and> isp2 unit \<and> unit < 2 ^ 64"

lemma avl_free_less: "avl_inv a \<Longrightarrow> x \<in> avl_free a \<Longrightarrow> x < device_size a"
  by (fastforce simp: avl_inv_def avl_free_def mem_addrs)

lemma allocated_from_bounded:
  assumes "avl_inv a" and "allocated_from unit xs a b" and "(off, len) \<in> set xs"
  shows "off + len \<le> device_size a"
proof -
  have "0 < len" and "arange off len \<subseteq> avl_free a"
    using assms(2,3) by (force simp: allocated_from_def ext_set_def)+
  then have "off + len - 1 \<in> avl_free a" by auto
  from avl_free_less [OF assms(1) this] show ?thesis by simp
qed

lemma avl_alloc_law:
  assumes "avl_ready unit a" and "ok_request unit want"
  shows "\<exists>r xs b. avl_allocate_all want unit a = Some (r, xs, b) \<and> avl_ready unit b \<and>
    device_size b = device_size a \<and> ext_disjoint xs \<and> ext_set xs \<subseteq> avl_free a \<and>
    avl_free b = avl_free a - ext_set xs \<and> (\<forall>(off, len) \<in> set xs. off + len \<le> device_size a)"
proof -
  have a: "avl_inv a" "isp2 unit" "unit < 2 ^ 64" "isp2 (block_size a)" "block_size a < 2 ^ 32"
    and w: "0 < want" "want < 2 ^ 63" "unit dvd want"
    using assms by (auto simp: avl_ready_def ok_request_def dvd_eq_mod_eq_0)
  obtain xs b where run: "avl_allocate want unit want a = Some (if xs = [] then - ENOSPC else int (ext_len xs), xs, b)"
    and al: "allocated_from unit xs a b"
    using avl_allocate_ok [OF a(1-3) w a(4,5), of want] by blast
  moreover have "\<forall>(off, len) \<in> set xs. off + len \<le> device_size a"
    using allocated_from_bounded [OF a(1) al] by auto
  ultimately show ?thesis
    using a by (auto simp: avl_allocate_all_def allocated_from_def avl_ready_def avl_same_def)
qed

lemma avl_release_law:
  assumes "avl_ready unit a" and "\<forall>(off, len) \<in> set xs. off + len \<le> device_size a"
    and "ext_set xs \<inter> avl_free a = {}"
  shows "\<exists>b. avl_release_vec xs a = Some b \<and> avl_ready unit b \<and> device_size b = device_size a \<and>
    avl_free b = avl_free a \<union> ext_set xs"
  using avl_release_vec_ok [of a xs] assms by (auto simp: avl_ready_def avl_same_def)

interpretation avl_space: space_allocator
  "\<lambda>want. avl_allocate_all want unit" avl_release_vec avl_free "avl_ready unit"
  "\<lambda>a (off, len). off + len \<le> device_size a" "ok_request unit"
  for unit
proof
  show "\<exists>r xs b. avl_allocate_all want unit a = Some (r, xs, b) \<and> avl_ready unit b \<and>
      (\<lambda>(off, len). off + len \<le> device_size b) = (\<lambda>(off, len). off + len \<le> device_size a) \<and> ext_disjoint xs \<and>
      ext_set xs \<subseteq> avl_free a \<and> avl_free b = avl_free a - ext_set xs \<and> (\<forall>x \<in> set xs. case x of (off, len) \<Rightarrow> off + len \<le> device_size a)"
    if "avl_ready unit a" "ok_request unit want" for a want using avl_alloc_law [OF that] by metis
  show "\<exists>b. avl_release_vec xs a = Some b \<and> avl_ready unit b \<and>
      (\<lambda>(off, len). off + len \<le> device_size b) = (\<lambda>(off, len). off + len \<le> device_size a) \<and> avl_free b = avl_free a \<union> ext_set xs"
    if "avl_ready unit a" "\<forall>x \<in> set xs. case x of (off, len) \<Rightarrow> off + len \<le> device_size a" "ext_set xs \<inter> avl_free a = {}" for a xs
    using avl_release_law [OF that] by metis
qed

section \<open>Properties\<close>

text \<open>
  C17: allocation. For a power-of-two unit and a request that is a multiple of it, \<open>allocate\<close> runs
  without failing an assertion. The extents it returns are nonempty, unit-aligned, shorter than
  \<open>2 ^ 32\<close>, pairwise disjoint and were free. They are exactly what leaves the free space. The result
  code is their total length, or \<open>-ENOSPC\<close> if there are none. Both trees and \<open>num_free_\<close> stay
  consistent.
\<close>

theorem avl_allocate_sound:
  assumes "avl_inv a" and "isp2 unit" and "unit < 2 ^ 64" and "isp2 (block_size a)" and "block_size a < 2 ^ 32"
    and "0 < want" and "want < 2 ^ 63" and "want mod unit = 0"
  shows "\<exists>r xs b. avl_allocate want unit max_alloc a = Some (r, xs, b) \<and> avl_inv b \<and>
    r = (if xs = [] then - ENOSPC else int (ext_len xs)) \<and> ext_len xs \<le> want \<and>
    (\<forall>(off, len) \<in> set xs. 0 < len \<and> len < 2 ^ 32 \<and> off mod unit = 0) \<and>
    ext_disjoint xs \<and> ext_set xs \<subseteq> avl_free a \<and> avl_free b = avl_free a - ext_set xs \<and>
    num_free b + ext_len xs = num_free a"
proof -
  from avl_allocate_ok [OF assms(1-3,6,7) _ assms(4,5), of max_alloc] assms(8)
  obtain xs b where "avl_allocate want unit max_alloc a =
      Some (if xs = [] then - ENOSPC else int (ext_len xs), xs, b)"
    and al: "allocated_from unit xs a b" and "ext_len xs \<le> want"
    by (auto simp: dvd_eq_mod_eq_0)
  with allocated_from_card [OF assms(1) al] al show ?thesis
    by (auto simp: allocated_from_def dvd_eq_mod_eq_0)
qed

text \<open>
  C19: no false \<open>-ENOSPC\<close>. When the free space consists of whole units, which every allocation and
  release in multiples of the unit maintains, \<open>allocate\<close> hands out the whole request, or all free
  space if that is less, however fragmented the space is.
\<close>

theorem avl_allocate_complete:
  assumes "avl_inv a" and "isp2 unit" and "unit < 2 ^ 64" and "isp2 (block_size a)" and "block_size a < 2 ^ 32"
    and "0 < want" and "want < 2 ^ 63" and "want mod unit = 0"
    and "max_alloc mod unit = 0" and "block_size a mod unit = 0" and "whole_units unit (avl_free a)"
  shows "\<exists>r xs b. avl_allocate want unit max_alloc a = Some (r, xs, b) \<and>
    ext_len xs = min want (num_free a) \<and> whole_units unit (avl_free b)"
  using avl_allocate_ok [OF assms(1-3,6,7) _ assms(4,5), of max_alloc] assms(8-11)
  by (auto simp: dvd_eq_mod_eq_0)

text \<open>
  C6: no double allocation. In every program of allocations and releases of earlier allocations
  through the interface of \<^verbatim>\<open>allocator.h\<close>, no assertion fails, the extents outstanding at the end do
  not overlap, and free and outstanding space together are the space that was free at the start.
\<close>

theorem avl_client_safe:
  assumes "avl_ready unit a" and "\<forall>op \<in> set ops. op_wants (ok_request unit) op"
  shows "\<exists>b h. client_run (\<lambda>want. avl_allocate_all want unit) avl_release_vec ops (a, []) = Some (b, h) \<and>
    avl_ready unit b \<and> ledger_ok (avl_free a) (avl_free b) h"
  by (rule avl_space.client_safe [OF assms])

subsection \<open>Witnesses\<close>

text \<open>A device of 16 blocks with two free ranges.\<close>

definition avl_sample :: avl where
  "avl_sample = \<lparr>device_size = 65536, block_size = 4096, range_tree = [(0, 8192), (16384, 65536)],
     range_size_tree = [(0, 8192), (16384, 65536)], num_free = 57344, lbas = replicate 64 0,
     range_count_cap = 0, end_word = 0\<rparr>"

lemma isp2_4096: "isp2 4096"
  using isp2_power [of 12] by simp

lemma avl_sample_inv: "avl_inv avl_sample"
  by (simp add: avl_inv_def avl_sample_def sz_ok_def shorter_def seg_length_def sub64_def)

lemma avl_sample_whole: "whole_units 4096 (avl_free avl_sample)"
proof -
  have eq: "avl_free avl_sample = {x. x div 4096 < 2 \<or> (4 \<le> x div 4096 \<and> x div 4096 < 16)}"
    by (auto simp: avl_free_def avl_sample_def)
  show ?thesis unfolding whole_units_def eq by auto
qed

theorem avl_allocate_sound_witness:
  "\<exists>r xs b. avl_allocate 32768 4096 0 avl_sample = Some (r, xs, b) \<and> ext_disjoint xs \<and>
     avl_free b = avl_free avl_sample - ext_set xs \<and> num_free b + ext_len xs = 57344"
  using avl_allocate_sound [of avl_sample 4096 32768 0] avl_sample_inv isp2_4096
  by (force simp: avl_sample_def)

theorem avl_allocate_complete_witness:
  "\<exists>r xs b. avl_allocate 61440 4096 0 avl_sample = Some (r, xs, b) \<and> ext_len xs = 57344"
  using avl_allocate_complete [of avl_sample 4096 61440 0] avl_sample_inv isp2_4096 avl_sample_whole
  by (force simp: avl_sample_def)

theorem avl_client_safe_witness:
  "\<exists>b h. client_run (\<lambda>want. avl_allocate_all want 4096) avl_release_vec
       [Alloc 8192, Alloc 32768, Release 0, Alloc 12288] (avl_sample, []) = Some (b, h) \<and>
     ledger_ok ({0..<8192} \<union> {16384..<65536}) (avl_free b) h"
  using avl_client_safe [of 4096 avl_sample "[Alloc 8192, Alloc 32768, Release 0, Alloc 12288]"]
    avl_sample_inv isp2_4096
  by (simp add: avl_ready_def ok_request_def avl_free_def avl_sample_def) blast

end
