(* ===== verification/Block_Device.thy ===== *)
theory Block_Device
  imports Intarith
begin

unbundle bit_operations_syntax

text \<open>
  \<^verbatim>\<open>blk/block_device.cc\<close> and the synchronous part of \<^verbatim>\<open>blk/kernel_device.cc\<close>.

  The kernel below the class is part of the state: the bytes of the file behind the two
  descriptors (\<open>contents\<close>), the bytes that survive a power failure (\<open>stable\<close>), and the outcomes of
  the system calls still to come (\<open>sys\<close>, indexed by the counter \<open>tick\<close>). A call fails with an error
  number or transfers a part of what it was asked for, at least one byte unless a read is at the
  end of the file, and at most the kernel's limit for one transfer.
\<close>

section \<open>State\<close>

datatype sysret =
    Done nat
      \<comment> \<open>success, and the most bytes the call transfers\<close>
  | Fail nat
      \<comment> \<open>failure, and one less than the error number\<close>

record kdev =
  dev_size :: u64
  dev_block :: u64
  fd_open :: bool
  io_since_flush :: bool
  file_len :: nat
  contents :: "nat \<Rightarrow> byte"
  stable :: "nat \<Rightarrow> byte"
  junk :: "nat \<Rightarrow> byte"
    \<comment> \<open>what a fresh buffer holds\<close>
  sys :: "nat \<Rightarrow> sysret"
  tick :: nat

definition MAX_RW_COUNT :: nat where
  "MAX_RW_COUNT = 0x7ffff000"

definition errno_of :: "nat \<Rightarrow> int" where
  "errno_of e = int (Suc e)"

text \<open>Conversion of an unsigned length to the \<open>int\<close> a call returns.\<close>

definition to_i32 :: "nat \<Rightarrow> int" where
  "to_i32 n = (let m = n mod 2 ^ 32 in if m < 2 ^ 31 then int m else int m - 2 ^ 32)"

definition is_valid_io :: "u64 \<Rightarrow> u64 \<Rightarrow> kdev \<Rightarrow> bool" where
  "is_valid_io off len d \<longleftrightarrow>
     (if len = 0 then False
      else if off \<ge> dev_size d then False
      else if add64 off len < off then False
      else if add64 off len > dev_size d then False
      else if off AND sub64 (dev_block d) 1 \<noteq> 0 then False
      else if len AND sub64 (dev_block d) 1 \<noteq> 0 then False
      else True)"

section \<open>System calls\<close>

definition xfer :: "nat \<Rightarrow> nat \<Rightarrow> nat" where
  "xfer k len = min (max 1 k) (min MAX_RW_COUNT len)"

definition sys_pread :: "u64 \<Rightarrow> u64 \<Rightarrow> kdev \<Rightarrow> int \<times> bytes \<times> kdev" where
  "sys_pread off len d =
     (let d1 = d\<lparr>tick := Suc (tick d)\<rparr>
      in case sys d (tick d) of
           Fail e \<Rightarrow> (- errno_of e, [], d1)
         | Done k \<Rightarrow>
             let n = xfer k (min len (file_len d - off))
             in (int n, map (contents d) [off..<off + n], d1))"

definition patch :: "nat \<Rightarrow> bytes \<Rightarrow> (nat \<Rightarrow> byte) \<Rightarrow> nat \<Rightarrow> byte" where
  "patch off bs f = (\<lambda>x. if off \<le> x \<and> x < off + length bs then bs ! (x - off) else f x)"

definition sys_pwritev :: "u64 \<Rightarrow> bytes list \<Rightarrow> kdev \<Rightarrow> int \<times> kdev" where
  "sys_pwritev off iov d =
     (let d1 = d\<lparr>tick := Suc (tick d)\<rparr>
      in case sys d (tick d) of
           Fail e \<Rightarrow> (- errno_of e, d1)
         | Done k \<Rightarrow>
             let n = xfer k (length (concat iov))
             in (int n, d1\<lparr>contents := patch off (take n (concat iov)) (contents d),
                           file_len := max (file_len d) (off + n)\<rparr>))"

section \<open>Synchronous operations\<close>

text \<open>\<open>read\<close>: the result code and the bytes appended to \<open>*pbl\<close>.\<close>

definition kd_read :: "u64 \<Rightarrow> u64 \<Rightarrow> bool \<Rightarrow> kdev \<Rightarrow> int \<times> bytes \<times> kdev" where
  "kd_read off len buffered d =
     (if \<not> buffered \<and> \<not> is_valid_io off len d then (- EINVAL, [], d)
      else if \<not> fd_open d then (- EBADF, [], d)
      else
        let (r, bs, d1) = sys_pread off len d
        in if r < 0 then (r, [], d1)
           else (r, bs @ map (junk d) [length bs..<len], d1))"

text \<open>\<open>read_random\<close>: the result code and the bytes stored in \<open>buf\<close>.\<close>

definition kd_read_random :: "u64 \<Rightarrow> u64 \<Rightarrow> bool \<Rightarrow> kdev \<Rightarrow> int \<times> bytes \<times> kdev" where
  "kd_read_random off len buffered d =
     (if len = 0 \<or> add64 off len < off then (- EINVAL, [], d)
      else if \<not> fd_open d then (- EBADF, [], d)
      else if \<not> buffered \<and> (off AND sub64 (dev_block d) 1 \<noteq> 0 \<or> len AND sub64 (dev_block d) 1 \<noteq> 0)
      then
        let msk = UINT64_MAX XOR sub64 (dev_block d) 1;
            aligned_off = off AND msk;
            aligned_end = sub64 (add64 (add64 off len) (dev_block d)) 1 AND msk;
            aligned_len = sub64 aligned_end aligned_off;
            (r, bs, d1) = sys_pread aligned_off aligned_len d
        in if r < 0 then (r, [], d1)
           else if nat r < add64 (sub64 off aligned_off) len then (- EIO, [], d1)
           else (to_i32 len, take len (drop (sub64 off aligned_off) bs), d1)
      else
        let (r, bs, d1) = sys_pread off len d
        in if r < 0 then (r, [], d1) else (r, bs, d1))"

text \<open>The inner loop of \<open>write\<close>: skip the part of the vector that was written.\<close>

fun advance_iov :: "nat \<Rightarrow> bytes list \<Rightarrow> bytes list" where
  "advance_iov written [] = []"
| "advance_iov written (v # iov) =
     (if written = 0 then v # iov
      else if written < length v then drop written v # iov
      else advance_iov (written - length v) iov)"

lemma concat_advance_iov: "concat (advance_iov n iov) = drop n (concat iov)"
  by (induction n iov rule: advance_iov.induct) auto

text \<open>
  The outer loop. \<open>left\<close> is the length of the remaining vector, so it is not a variable of its own.
  The result is the error code that ended it, if one did.
\<close>

function write_loop :: "u64 \<Rightarrow> bytes list \<Rightarrow> kdev \<Rightarrow> int option \<times> kdev" where
  "write_loop off iov d =
     (if concat iov = [] then (None, d)
      else
        let (r, d1) = sys_pwritev off iov d
        in if r < 0 then (Some r, d1)
           else write_loop (add64 off (nat r)) (advance_iov (nat r) iov) d1)"
  by auto
termination
proof (relation "measure (\<lambda>(off, iov, d). length (concat iov))", goal_cases)
  case (2 off iov d x r d1)
  then have "0 < nat r" and "0 < length (concat iov)"
    by (auto simp: sys_pwritev_def Let_def xfer_def MAX_RW_COUNT_def errno_of_def split: sysret.splits)
  then show ?case
    by (simp add: concat_advance_iov del: length_concat length_greater_0_conv)
qed simp

declare write_loop.simps [simp del]

text \<open>
  \<open>write\<close> of a buffer whose memory segments are \<open>iov\<close>. \<open>rebuild_aligned\<close> only copies the segments to
  aligned memory.
\<close>

definition kd_write :: "u64 \<Rightarrow> bytes list \<Rightarrow> bool \<Rightarrow> kdev \<Rightarrow> int \<times> kdev" where
  "kd_write off iov buffered d =
     (if \<not> buffered \<and> \<not> is_valid_io off (length (concat iov)) d then (- EINVAL, d)
      else if \<not> fd_open d then (- EBADF, d)
      else
        case write_loop off iov d of
          (Some r, d1) \<Rightarrow> (r, d1)
        | (None, d1) \<Rightarrow> (to_i32 (length (concat iov)), d1\<lparr>io_since_flush := True\<rparr>))"

definition kd_flush :: "kdev \<Rightarrow> int \<times> kdev" where
  "kd_flush d =
     (if \<not> io_since_flush d then (0, d)
      else if \<not> fd_open d then (- EBADF, d\<lparr>io_since_flush := False\<rparr>)
      else
        let d1 = d\<lparr>io_since_flush := False, tick := Suc (tick d)\<rparr>
        in case sys d (tick d) of
             Fail e \<Rightarrow> (- errno_of e, d1)
           | Done k \<Rightarrow> (0, d1\<lparr>stable := contents d\<rparr>))"

section \<open>Bytes written and read\<close>

lemma patch_in: "off \<le> x \<Longrightarrow> x < off + length bs \<Longrightarrow> patch off bs f x = bs ! (x - off)"
  by (simp add: patch_def)

lemma patch_out: "x < off \<or> off + length bs \<le> x \<Longrightarrow> patch off bs f x = f x"
  by (auto simp: patch_def)

lemma patch_Nil [simp]: "patch off [] f = f"
  by (rule ext) (auto simp: patch_def)

lemma patch_append: "patch (off + length xs) ys (patch off xs f) = patch off (xs @ ys) f"
  by (rule ext) (auto simp: patch_def nth_append)

text \<open>The bytes at \<open>[off, off + len)\<close>.\<close>

definition slice :: "(nat \<Rightarrow> byte) \<Rightarrow> nat \<Rightarrow> nat \<Rightarrow> bytes" where
  "slice f off len = map f [off..<off + len]"

lemma length_slice [simp]: "length (slice f off len) = len"
  by (simp add: slice_def)

lemma slice_patch_same: "length bs = len \<Longrightarrow> slice (patch off bs f) off len = bs"
  by (rule nth_equalityI) (auto simp: slice_def patch_def)

lemma slice_patch_disjoint:
  "arange off len \<inter> arange off' (length bs) = {} \<Longrightarrow> slice (patch off' bs f) off len = slice f off len"
  by (auto simp: slice_def patch_def disjoint_iff)

lemma slice_cong: "(\<And>x. off \<le> x \<Longrightarrow> x < off + len \<Longrightarrow> f x = g x) \<Longrightarrow> slice f off len = slice g off len"
  by (auto simp: slice_def)

lemma slice_append: "slice f off (m + n) = slice f off m @ slice f (off + m) n"
  unfolding slice_def by (simp add: upt_add_eq_append [of off "off + m"] add.assoc [symmetric] flip: map_append)

lemma slice_nth [simp]: "i < len \<Longrightarrow> slice f off len ! i = f (off + i)"
  by (simp add: slice_def)

section \<open>What the operations do\<close>

text \<open>Fields no operation changes, up to the consumption of system call outcomes.\<close>

definition dev_frame :: "kdev \<Rightarrow> kdev \<Rightarrow> bool" where
  "dev_frame d e \<longleftrightarrow> dev_size e = dev_size d \<and> dev_block e = dev_block d \<and> fd_open e = fd_open d \<and>
     junk e = junk d \<and> sys e = sys d \<and> file_len d \<le> file_len e"

lemma dev_frame_refl [simp]: "dev_frame d d"
  by (simp add: dev_frame_def)

lemma dev_frame_trans: "dev_frame d e \<Longrightarrow> dev_frame e f \<Longrightarrow> dev_frame d f"
  by (auto simp: dev_frame_def)

lemma xfer_bounds: "0 < n \<Longrightarrow> 0 < xfer k n \<and> xfer k n \<le> n"
  by (auto simp: xfer_def MAX_RW_COUNT_def min_def max_def)

lemma xfer_le: "xfer k n \<le> n"
  by (simp add: xfer_def min_le_iff_disj)

lemma sys_pwritev_spec:
  assumes "sys_pwritev off iov d = (r, e)" and "concat iov \<noteq> []"
  shows "dev_frame d e \<and> stable e = stable d \<and> io_since_flush e = io_since_flush d \<and>
    (if r < 0 then contents e = contents d
     else 0 < nat r \<and> nat r \<le> length (concat iov) \<and>
       contents e = patch off (take (nat r) (concat iov)) (contents d) \<and> off + nat r \<le> file_len e)"
proof -
  have "0 < length (concat iov)" using assms(2) unfolding length_greater_0_conv .
  note x = xfer_bounds [OF this]
  show ?thesis
  proof (cases "sys d (tick d)")
    case (Done k)
    with assms(1) x [of k] show ?thesis
      by (auto simp: sys_pwritev_def Let_def dev_frame_def simp del: length_concat)
  next
    case (Fail e)
    with assms(1) show ?thesis
      by (auto simp: sys_pwritev_def Let_def errno_of_def dev_frame_def)
  qed
qed

lemma write_loop_spec:
  assumes "write_loop off iov d = (res, e)" and "off + length (concat iov) < 2 ^ 64"
  shows "dev_frame d e \<and> stable e = stable d \<and> io_since_flush e = io_since_flush d \<and>
    (\<exists>m \<le> length (concat iov). contents e = patch off (take m (concat iov)) (contents d) \<and>
      (res = None \<longrightarrow> m = length (concat iov)) \<and> (\<forall>r. res = Some r \<longrightarrow> r < 0)) \<and>
    (res = None \<longrightarrow> concat iov \<noteq> [] \<longrightarrow> off + length (concat iov) \<le> file_len e)"
  using assms
proof (induction off iov d rule: write_loop.induct)
  case (1 off iov d)
  show ?case
  proof (cases "concat iov = []")
    case True
    with 1 show ?thesis by (simp add: write_loop.simps del: concat_eq_Nil_conv)
  next
    case False
    obtain r d1 where pw: "sys_pwritev off iov d = (r, d1)" by fastforce
    note sp = sys_pwritev_spec [OF pw False]
    show ?thesis
    proof (cases "r < 0")
      case True
      with 1(2) False pw sp show ?thesis
        by (subst (asm) write_loop.simps) (auto intro!: exI [of _ 0] simp del: concat_eq_Nil_conv)
    next
      case pos: False
      define n where "n = nat r"
      have n: "0 < n" "n \<le> length (concat iov)"
        and c1: "contents d1 = patch off (take n (concat iov)) (contents d)"
        and f1: "dev_frame d d1" "stable d1 = stable d" "io_since_flush d1 = io_since_flush d"
        and l1: "off + n \<le> file_len d1"
        using sp pos by (auto simp: n_def)
      have off: "add64 off n = off + n"
        using 1(3) n by (intro add64_exact) linarith
      have rec: "write_loop (off + n) (advance_iov n iov) d1 = (res, e)"
        using 1(2) False pw pos off by (subst (asm) write_loop.simps) (simp add: n_def del: concat_eq_Nil_conv)
      have len: "length (concat (advance_iov n iov)) = length (concat iov) - n"
        unfolding concat_advance_iov by simp
      from 1(1) [OF False refl pw [symmetric] pos, folded n_def, unfolded off, OF rec] 1(3) n
      have IH: "dev_frame d1 e \<and> stable e = stable d1 \<and> io_since_flush e = io_since_flush d1 \<and>
        (\<exists>m \<le> length (concat iov) - n. contents e = patch (off + n) (take m (drop n (concat iov))) (contents d1) \<and>
          (res = None \<longrightarrow> m = length (concat iov) - n) \<and> (\<forall>r. res = Some r \<longrightarrow> r < 0)) \<and>
        (res = None \<longrightarrow> drop n (concat iov) \<noteq> [] \<longrightarrow> off + length (concat iov) \<le> file_len e)"
        unfolding len concat_advance_iov by (simp del: length_concat)
      then obtain m where m: "m \<le> length (concat iov) - n"
        and ce: "contents e = patch (off + n) (take m (drop n (concat iov))) (contents d1)"
        and res: "res = None \<longrightarrow> m = length (concat iov) - n" "\<forall>r. res = Some r \<longrightarrow> r < 0"
        by blast
      have "contents e = patch off (take (n + m) (concat iov)) (contents d)"
        using ce c1 n(2) patch_append [of off "take n (concat iov)" "take m (drop n (concat iov))" "contents d"]
        by (simp add: take_add del: length_concat)
      moreover have "off + length (concat iov) \<le> file_len e" if "res = None"
        using IH that l1 n(2) by (cases "drop n (concat iov) = []") (auto simp: dev_frame_def simp del: length_concat)
      ultimately show ?thesis
        using IH f1 m n res dev_frame_trans [OF f1(1)] by (intro conjI exI [of _ "n + m"]) auto
    qed
  qed
qed

lemma to_i32_small: "n < 2 ^ 31 \<Longrightarrow> to_i32 n = int n"
  by (simp add: to_i32_def)

lemma kd_write_spec:
  assumes "kd_write off iov buffered d = (r, e)" and "length (concat iov) < 2 ^ 31"
    and "off + length (concat iov) < 2 ^ 64"
  shows "dev_frame d e \<and> stable e = stable d \<and> (io_since_flush d \<longrightarrow> io_since_flush e) \<and>
    (if r < 0 then \<exists>m \<le> length (concat iov). contents e = patch off (take m (concat iov)) (contents d)
     else r = int (length (concat iov)) \<and> contents e = patch off (concat iov) (contents d) \<and>
       io_since_flush e \<and> (concat iov \<noteq> [] \<longrightarrow> off + length (concat iov) \<le> file_len e))"
proof (cases "(\<not> buffered \<and> \<not> is_valid_io off (length (concat iov)) d) \<or> \<not> fd_open d")
  case True
  with assms(1) have "e = d" and "r < 0" by (auto simp: kd_write_def split: if_splits)
  then show ?thesis by (auto intro!: exI [of _ 0])
next
  case False
  obtain res d1 where lp: "write_loop off iov d = (res, d1)" by fastforce
  note sp = write_loop_spec [OF lp assms(3)]
  show ?thesis
  proof (cases res)
    case None
    then have "r = int (length (concat iov))" and "e = d1\<lparr>io_since_flush := True\<rparr>"
      using False lp assms(1,2) by (auto simp: kd_write_def to_i32_small simp del: length_concat)
    with sp None show ?thesis by (auto simp: dev_frame_def simp del: length_concat)
  next
    case (Some r')
    then have "r = r'" and "e = d1"
      using False lp assms(1) by (auto simp: kd_write_def simp del: length_concat)
    moreover have "r' < 0" using sp Some by blast
    ultimately show ?thesis using sp by (simp del: length_concat) blast
  qed
qed

lemma sys_pread_spec:
  assumes "sys_pread off len d = (r, bs, e)"
  shows "e = d\<lparr>tick := Suc (tick d)\<rparr> \<and> (r < 0 \<longrightarrow> bs = []) \<and>
    (0 \<le> r \<longrightarrow> nat r \<le> len \<and> bs = slice (contents d) off (nat r))"
  using assms order_trans [OF xfer_le min.cobounded1]
  by (auto simp: sys_pread_def Let_def errno_of_def slice_def split: sysret.splits)

lemma kd_read_spec:
  assumes "kd_read off len buffered d = (r, bs, e)"
  shows "dev_frame d e \<and> dev_frame e d \<and> contents e = contents d \<and> stable e = stable d \<and>
    io_since_flush e = io_since_flush d \<and> (r < 0 \<longrightarrow> bs = []) \<and>
    (0 \<le> r \<longrightarrow> nat r \<le> len \<and> length bs = len \<and> take (nat r) bs = slice (contents d) off (nat r))"
proof (cases "(\<not> buffered \<and> \<not> is_valid_io off len d) \<or> \<not> fd_open d")
  case True
  with assms have "e = d" and "r < 0" and "bs = []" by (auto simp: kd_read_def split: if_splits)
  then show ?thesis by simp
next
  case False
  obtain r1 bs1 d1 where pr: "sys_pread off len d = (r1, bs1, d1)" by (metis prod_cases3)
  note sp = sys_pread_spec [OF pr]
  have "r = r1" "e = d1" "bs = (if r1 < 0 then [] else bs1 @ map (junk d) [length bs1..<len])"
    using False assms pr by (auto simp: kd_read_def split: if_splits)
  with sp show ?thesis by (auto simp: dev_frame_def)
qed

text \<open>
  A device whose reads are never cut short before the end of the file. The clients of \<open>read\<close> treat
  every nonnegative result as complete, so their correctness depends on it.
\<close>

definition no_short :: "kdev \<Rightarrow> bool" where
  "no_short d \<longleftrightarrow> (\<forall>t k. sys d t = Done k \<longrightarrow> MAX_RW_COUNT \<le> k)"

lemma kd_read_full:
  assumes "kd_read off len buffered d = (r, bs, e)" and "0 \<le> r" and "no_short d"
    and "len \<le> MAX_RW_COUNT" and "off + len \<le> file_len d"
  shows "bs = slice (contents d) off len"
proof -
  obtain r1 bs1 d1 where pr: "sys_pread off len d = (r1, bs1, d1)" by (metis prod_cases3)
  have bs: "r = r1" "bs = bs1 @ map (junk d) [length bs1..<len]"
    using assms(1,2) pr by (auto simp: kd_read_def split: if_splits)
  then obtain k where k: "sys d (tick d) = Done k" "r1 = int (xfer k (min len (file_len d - off)))"
    using pr assms(2) by (auto simp: sys_pread_def Let_def errno_of_def split: sysret.splits)
  have "xfer k (min len (file_len d - off)) = len"
    using assms(3-5) k(1) unfolding no_short_def xfer_def by (cases "len = 0") force+
  with k sys_pread_spec [OF pr] bs show ?thesis by simp
qed

section \<open>The interface to byte storage\<close>

text \<open>
  What the journal and the engine use of a device: \<open>img\<close> is its content, \<open>room\<close> the part that can be
  read back, \<open>ok\<close> what the environment guarantees.
\<close>

locale byte_store =
  fixes wr :: "nat \<Rightarrow> bytes \<Rightarrow> 'd \<Rightarrow> int \<times> 'd"
    and rd :: "nat \<Rightarrow> nat \<Rightarrow> 'd \<Rightarrow> int \<times> bytes \<times> 'd"
    and img :: "'d \<Rightarrow> nat \<Rightarrow> byte"
    and room :: "'d \<Rightarrow> nat"
    and ok :: "'d \<Rightarrow> bool"
    and limit :: nat
  assumes wr_law: "ok d \<Longrightarrow> length bs < limit \<Longrightarrow> off + length bs < 2 ^ 64 \<Longrightarrow> wr off bs d = (r, e) \<Longrightarrow>
      ok e \<and> room d \<le> room e \<and>
      (if r < 0 then \<exists>m \<le> length bs. img e = patch off (take m bs) (img d)
       else r = int (length bs) \<and> img e = patch off bs (img d) \<and> (bs \<noteq> [] \<longrightarrow> off + length bs \<le> room e))"
    and rd_law: "ok d \<Longrightarrow> len < limit \<Longrightarrow> off + len \<le> room d \<Longrightarrow> rd off len d = (r, bs, e) \<Longrightarrow>
      ok e \<and> room e = room d \<and> img e = img d \<and> (0 \<le> r \<longrightarrow> bs = slice (img d) off len)"
begin

lemma read_back:
  assumes "ok d" and "length bs < limit" and "off + length bs < 2 ^ 64" and "bs \<noteq> []"
    and "wr off bs d = (r, e)" and "0 \<le> r" and "rd off (length bs) e = (r', bs', f)" and "0 \<le> r'"
  shows "bs' = bs"
proof -
  note w = wr_law [OF assms(1-3,5)]
  then have "off + length bs \<le> room e" and img: "img e = patch off bs (img d)" and "ok e"
    using assms(4,6) by auto
  from rd_law [OF \<open>ok e\<close> assms(2) this(1) assms(7)] assms(8) img show ?thesis
    by (simp add: slice_patch_same)
qed

lemma write_keeps:
  assumes "ok d" and "length bs < limit" and "off + length bs < 2 ^ 64" and "wr off bs d = (r, e)"
    and "arange off' len \<inter> arange off (length bs) = {}"
  shows "slice (img e) off' len = slice (img d) off' len"
proof -
  obtain m where m: "m \<le> length bs" "img e = patch off (take m bs) (img d)"
    using wr_law [OF assms(1-4)] by (metis order_refl take_all_iff)
  have "arange off' len \<inter> arange off (length (take m bs)) = {}"
    using assms(5) m(1) by auto
  then show ?thesis unfolding m(2) by (rule slice_patch_disjoint)
qed

end

lemma no_short_frame: "dev_frame d e \<Longrightarrow> no_short d \<Longrightarrow> no_short e"
  by (simp add: dev_frame_def no_short_def)

interpretation kd: byte_store
  "\<lambda>off bs. kd_write off [bs] buffered" "\<lambda>off len. kd_read off len buffered'" contents file_len no_short "2 ^ 30"
  for buffered buffered'
proof (unfold_locales, goal_cases)
  case (1 d bs off r e)
  have seg: "concat [bs] = bs" by simp
  note sp = kd_write_spec [of off "[bs]" buffered d r e, unfolded seg, OF 1(4) _ 1(3)]
  have f: "dev_frame d e" using sp 1(2) by simp
  then have "no_short e" "file_len d \<le> file_len e"
    using no_short_frame 1(1) by (auto simp: dev_frame_def)
  then show ?case using sp 1(2) by (cases "r < 0") simp_all
next
  case (2 d len off r bs e)
  then have len: "len \<le> MAX_RW_COUNT" by (simp add: MAX_RW_COUNT_def)
  note sp = kd_read_spec [OF 2(4)]
  have "no_short e" using no_short_frame sp 2(1) by blast
  moreover have "file_len e = file_len d" using sp by (simp add: dev_frame_def)
  ultimately show ?case
    using sp kd_read_full [OF 2(4) _ 2(1) len 2(3)] by simp
qed

section \<open>Properties\<close>

text \<open>
  C24: a completed \<open>write\<close> stores the whole buffer although \<open>pwritev\<close> may stop anywhere in any segment
  of it. All other bytes of the device keep their values. A failed \<open>write\<close> has stored a prefix of
  the buffer and nothing else.
\<close>

theorem kd_write_correct:
  assumes "kd_write off iov buffered d = (r, e)" and "length (concat iov) < 2 ^ 31"
    and "off + length (concat iov) < 2 ^ 64"
  shows "if r < 0 then \<exists>m \<le> length (concat iov). contents e = patch off (take m (concat iov)) (contents d)
    else r = int (length (concat iov)) \<and> contents e = patch off (concat iov) (contents d) \<and> io_since_flush e"
  using kd_write_spec [OF assms] by (auto split: if_splits)

text \<open>
  Reading back. On a device whose reads are not cut short, a \<open>read\<close> that succeeds after a
  \<open>write\<close> to the same place returns what was written, buffered or not.
\<close>

theorem kd_write_read:
  assumes "no_short d" and "length bs < 2 ^ 30" and "off + length bs < 2 ^ 64" and "bs \<noteq> []"
    and "kd_write off [bs] buffered d = (r, e)" and "0 \<le> r"
    and "kd_read off (length bs) buffered' e = (r', bs', f)" and "0 \<le> r'"
  shows "bs' = bs"
  using assms by (rule kd.read_back)

text \<open>Sequences of calls: what they return, and what the writes among them do to the content.\<close>

datatype dev_call = Call_write u64 "bytes list" bool | Call_read u64 u64 bool | Call_flush

fun dev_exec :: "dev_call \<Rightarrow> kdev \<Rightarrow> int \<times> kdev" where
  "dev_exec (Call_write off iov buffered) d = kd_write off iov buffered d"
| "dev_exec (Call_read off len buffered) d = (case kd_read off len buffered d of (r, bs, d1) \<Rightarrow> (r, d1))"
| "dev_exec Call_flush d = kd_flush d"

fun dev_calls :: "dev_call list \<Rightarrow> kdev \<Rightarrow> int list \<times> kdev" where
  "dev_calls [] d = ([], d)"
| "dev_calls (c # cs) d = (let (r, d1) = dev_exec c d; (rs, d2) = dev_calls cs d1 in (r # rs, d2))"

fun written :: "dev_call \<Rightarrow> (nat \<Rightarrow> byte) \<Rightarrow> nat \<Rightarrow> byte" where
  "written (Call_write off iov buffered) f = patch off (concat iov) f"
| "written c f = f"

fun call_fits :: "dev_call \<Rightarrow> bool" where
  "call_fits (Call_write off iov buffered) \<longleftrightarrow> length (concat iov) < 2 ^ 31 \<and> off + length (concat iov) < 2 ^ 64"
| "call_fits c \<longleftrightarrow> True"

fun is_read :: "dev_call \<Rightarrow> bool" where
  "is_read (Call_read off len buffered) \<longleftrightarrow> True"
| "is_read c \<longleftrightarrow> False"

text \<open>The invariant: what is not stable is known to be so. It is kept by calls that succeed, and by reads.\<close>

lemma dev_exec_tracks:
  assumes "io_since_flush d \<or> stable d = contents d" and "call_fits c" and "dev_exec c d = (r, e)" and "is_read c \<or> 0 \<le> r"
  shows "(io_since_flush e \<or> stable e = contents e) \<and> contents e = written c (contents d) \<and>
    (c = Call_flush \<longrightarrow> stable e = contents e)"
proof (cases c)
  case (Call_write off iov buffered)
  then show ?thesis using assms kd_write_spec [of off iov buffered d r e] by (auto split: if_splits)
next
  case (Call_read off len buffered)
  obtain bs where "kd_read off len buffered d = (r, bs, e)" using assms(3) Call_read by (auto split: prod.splits)
  from kd_read_spec [OF this] show ?thesis using assms(1) Call_read by simp
next
  case Call_flush
  then show ?thesis using assms by (auto simp: kd_flush_def Let_def errno_of_def split: if_splits sysret.splits)
qed

lemma dev_calls_tracks:
  "io_since_flush d \<or> stable d = contents d \<Longrightarrow> \<forall>c \<in> set cs. call_fits c \<Longrightarrow> dev_calls cs d = (rs, e) \<Longrightarrow>
   list_all2 (\<lambda>c r. is_read c \<or> 0 \<le> r) cs rs \<Longrightarrow>
   (io_since_flush e \<or> stable e = contents e) \<and> contents e = fold written cs (contents d)"
proof (induction cs arbitrary: d rs)
  case (Cons c cs)
  obtain r d1 where x: "dev_exec c d = (r, d1)" by fastforce
  obtain rs' where c: "dev_calls cs d1 = (rs', e)" "rs = r # rs'" using Cons.prems(3) x by (auto split: prod.splits)
  have "(io_since_flush d1 \<or> stable d1 = contents d1) \<and> contents d1 = written c (contents d)"
    using dev_exec_tracks [OF Cons.prems(1) _ x] Cons.prems(2,4) c(2) by auto
  then show ?case using Cons.IH [of d1 rs'] Cons.prems(2,4) c by auto
qed simp

lemma dev_calls_append:
  "dev_calls (cs @ cs') d = (let (rs, d1) = dev_calls cs d; (rs', d2) = dev_calls cs' d1 in (rs @ rs', d2))"
  by (induction cs arbitrary: d) (auto split: prod.splits)

text \<open>
  C25: durability. On a device whose content is stable, after any sequence of writes, reads and flushes that ends with
  a flush and in which every write and flush succeeded, the bytes that survive a power failure are the initial ones
  with all the writes applied in their order. Reads may fail. A failed flush before (as \<open>kd_flush_failure_forgotten\<close>
  shows) or a write that failed half-way would leave bytes behind that no later flush makes stable.
\<close>

theorem kd_flush_durable:
  assumes "stable d = contents d" and "\<forall>c \<in> set cs. call_fits c" and "dev_calls (cs @ [Call_flush]) d = (rs, e)"
    and "list_all2 (\<lambda>c r. is_read c \<or> 0 \<le> r) (cs @ [Call_flush]) rs"
  shows "stable e = fold written cs (stable d) \<and> contents e = stable e"
proof -
  obtain rs1 d1 where 1: "dev_calls cs d = (rs1, d1)" by fastforce
  obtain r where 2: "kd_flush d1 = (r, e)" "rs = rs1 @ [r]" using assms(3) 1 by (auto simp: dev_calls_append split: prod.splits)
  have ok: "list_all2 (\<lambda>c r. is_read c \<or> 0 \<le> r) cs rs1" "0 \<le> r" using assms(4) 2(2) by (auto simp: list_all2_append2 dest: list_all2_lengthD)
  note t = dev_calls_tracks [OF disjI2 [OF assms(1)] assms(2) 1 ok(1)]
  then show ?thesis using dev_exec_tracks [of d1 Call_flush r e] 2(1) ok(2) assms(1) by auto
qed

text \<open>
  C26: a failed \<open>fdatasync\<close> is reported once only. \<open>flush\<close> clears \<open>io_since_flush_\<close> before the call and
  does not set it again, so the next \<open>flush\<close> returns 0 although nothing became stable.
\<close>

theorem kd_flush_failure_forgotten:
  assumes "io_since_flush d" and "sys d (tick d) = Fail n" and "kd_flush d = (r, e)"
  shows "r < 0 \<and> kd_flush e = (0, e) \<and> stable e = stable d"
  using assms by (auto simp: kd_flush_def errno_of_def Let_def split: if_splits)

subsection \<open>Witnesses\<close>

text \<open>A device of four blocks. Its system calls succeed, the fifth excepted.\<close>

definition kd_sample :: kdev where
  "kd_sample = \<lparr>dev_size = 16384, dev_block = 4096, fd_open = True, io_since_flush = False,
     file_len = 16384, contents = (\<lambda>x. 0), stable = (\<lambda>x. 0), junk = (\<lambda>x. 0xAA),
     sys = (\<lambda>t. if t = 4 then Fail 4 else Done MAX_RW_COUNT), tick = 0\<rparr>"

lemma sample_write:
  "kd_write 100 [[1, 2], [3]] True kd_sample =
     (3, kd_sample\<lparr>contents := patch 100 [1, 2, 3] (\<lambda>x. 0), io_since_flush := True, tick := 1\<rparr>)"
  by (simp add: kd_write_def write_loop.simps sys_pwritev_def kd_sample_def xfer_def MAX_RW_COUNT_def
      to_i32_def Let_def)

lemma sample_write_1:
  "kd_write 100 [[1, 2, 3]] True kd_sample =
     (3, kd_sample\<lparr>contents := patch 100 [1, 2, 3] (\<lambda>x. 0), io_since_flush := True, tick := 1\<rparr>)"
  by (simp add: kd_write_def write_loop.simps sys_pwritev_def kd_sample_def xfer_def MAX_RW_COUNT_def
      to_i32_def Let_def)

lemma no_short_sample: "no_short kd_sample"
  by (simp add: no_short_def kd_sample_def)

theorem kd_write_correct_witness:
  "contents (snd (kd_write 100 [[1, 2], [3]] True kd_sample)) = patch 100 [1, 2, 3] (contents kd_sample)"
  using kd_write_correct [OF sample_write] by (simp add: sample_write)

theorem kd_write_read_witness:
  "fst (snd (kd_read 100 3 True (snd (kd_write 100 [[1, 2, 3]] True kd_sample)))) = [1, 2, 3]"
proof -
  define e where "e = kd_sample\<lparr>contents := patch 100 [1, 2, 3] (\<lambda>x. 0), io_since_flush := True, tick := 1\<rparr>"
  obtain r bs f where rd: "kd_read 100 (length [1, 2, 3 :: byte]) True e = (r, bs, f)" by (metis prod_cases3)
  then have "0 \<le> r"
    by (auto simp: kd_read_def sys_pread_def e_def kd_sample_def Let_def split: if_splits)
  with kd_write_read [OF no_short_sample _ _ _ sample_write_1 _ rd [unfolded e_def]]
  have "bs = [1, 2, 3]" by simp
  then show ?thesis using rd by (simp add: sample_write_1 e_def numeral_3_eq_3)
qed

theorem kd_flush_durable_witness:
  "stable (snd (dev_calls ([Call_write 100 [[1, 2, 3]] True] @ [Call_flush]) kd_sample)) = patch 100 [1, 2, 3] (\<lambda>x. 0)"
proof -
  let ?cs = "[Call_write 100 [[1, 2, 3]] True]"
  define e where "e = snd (dev_calls (?cs @ [Call_flush]) kd_sample)"
  have run: "dev_calls (?cs @ [Call_flush]) kd_sample = ([3, 0], e)"
    by (simp add: e_def sample_write_1) (simp add: kd_flush_def kd_sample_def Let_def)
  have init: "stable kd_sample = contents kd_sample" "contents kd_sample = (\<lambda>x. 0)" by (simp_all add: kd_sample_def)
  have "stable e = fold written ?cs (stable kd_sample) \<and> contents e = stable e"
    by (rule kd_flush_durable [OF init(1) _ run]) simp_all
  then show ?thesis using init by (simp add: e_def)
qed

theorem kd_flush_failure_forgotten_witness:
  "kd_flush (snd (kd_flush (kd_sample\<lparr>io_since_flush := True, tick := 4\<rparr>))) =
     (0, snd (kd_flush (kd_sample\<lparr>io_since_flush := True, tick := 4\<rparr>)))"
  using kd_flush_failure_forgotten [of "kd_sample\<lparr>io_since_flush := True, tick := 4\<rparr>" 4] 
  by (simp add: kd_sample_def prod_eq_iff)

end
