(* ===== verification/Crc32.thy ===== *)
theory Crc32
  imports Prelude
begin

unbundle bit_operations_syntax

text \<open>
  \<^verbatim>\<open>common/crc32.cc\<close>: the CRC-32C that guards every journal record, superblock and extent header.
  The byte-wise routine with its 256-entry table is compared with the bit-wise definition of the
  code. The ISA-L branch calls the external \<open>crc32_iscsi\<close>, which is a parameter here.
\<close>

section \<open>Model\<close>

type_synonym crc = "32 word"

definition POLY_CASTAGNOLI :: crc where
  "POLY_CASTAGNOLI = 0x82F63B78"

text \<open>One iteration of the inner loop of \<open>CRC32Table\<close>.\<close>

definition crc_bit :: "crc \<Rightarrow> crc" where
  "crc_bit c = (if c AND 1 \<noteq> 0 then drop_bit 1 c XOR POLY_CASTAGNOLI else drop_bit 1 c)"

definition crc_table :: "crc list" where
  "crc_table = map (\<lambda>i. (crc_bit ^^ 8) (of_nat i)) [0..<256]"

definition crc_byte :: "byte \<Rightarrow> crc \<Rightarrow> crc" where
  "crc_byte b c = drop_bit 8 c XOR (crc_table ! unat ((c XOR ucast b) AND 0xFF))"

definition crc32c_software_fallback :: "bytes \<Rightarrow> crc \<Rightarrow> crc" where
  "crc32c_software_fallback data previous_crc = NOT (fold crc_byte data (NOT previous_crc))"

text \<open>The loop over a null \<open>data\<close> pointer, which stands for a buffer of zeros.\<close>

primrec crc_zeros :: "nat \<Rightarrow> crc \<Rightarrow> crc" where
  "crc_zeros 0 c = c"
| "crc_zeros (Suc n) c = crc_zeros n (drop_bit 8 c XOR (crc_table ! unat (c AND 0xFF)))"

text \<open>
  \<open>calc_crc32\<close>. The data is \<open>None\<close> for a null pointer. It holds at least \<open>len\<close> bytes otherwise.
\<close>

definition calc_crc32 :: "bytes option \<Rightarrow> nat \<Rightarrow> crc \<Rightarrow> crc" where
  "calc_crc32 data len previous_crc =
     (if len = 0 then previous_crc
      else
        case data of
          None \<Rightarrow> NOT (crc_zeros len (NOT previous_crc))
        | Some d \<Rightarrow> crc32c_software_fallback (take len d) previous_crc)"

text \<open>The loop of the ISA-L branch: chunks of at most \<open>INT_MAX\<close> bytes.\<close>

definition INT_MAX :: nat where
  "INT_MAX = 2 ^ 31 - 1"

function isal_loop :: "(bytes \<Rightarrow> crc \<Rightarrow> crc) \<Rightarrow> bytes \<Rightarrow> crc \<Rightarrow> crc" where
  "isal_loop crc32_iscsi p c =
     (if p = [] then c
      else
        let chunk = min (length p) INT_MAX
        in isal_loop crc32_iscsi (drop chunk p) (crc32_iscsi (take chunk p) c))"
  by auto
termination
  by (relation "measure (\<lambda>(f, p, c). length p)") (auto simp: INT_MAX_def)

declare isal_loop.simps [simp del]

definition calc_crc32_isal :: "(bytes \<Rightarrow> crc \<Rightarrow> crc) \<Rightarrow> bytes \<Rightarrow> crc \<Rightarrow> crc" where
  "calc_crc32_isal crc32_iscsi data previous_crc =
     (if data = [] then previous_crc else NOT (isal_loop crc32_iscsi data (NOT previous_crc)))"

text \<open>The CRC of a whole buffer, as the callers of \<^verbatim>\<open>btier\<close> and \<^verbatim>\<open>bluestore\<close> use it.\<close>

abbreviation crc_of :: "bytes \<Rightarrow> crc" where
  "crc_of d \<equiv> calc_crc32 (Some d) (length d) 0"

section \<open>The table is the bit-wise code\<close>

lemma and_1_iff: "c AND 1 \<noteq> 0 \<longleftrightarrow> bit c 0" for c :: crc
  by (simp add: and_one_eq odd_iff_mod_2_eq_one bit_0)

lemma crc_bit_alt: "crc_bit c = drop_bit 1 c XOR (if bit c 0 then POLY_CASTAGNOLI else 0)"
  by (simp add: crc_bit_def and_1_iff)

lemma crc_bit_xor: "crc_bit (x XOR y) = crc_bit x XOR crc_bit y"
  unfolding crc_bit_alt drop_bit_xor bit_xor_iff
  by (cases "bit x 0"; cases "bit y 0") (simp_all add: bit_eq_iff bit_xor_iff, blast+)

lemma crc_bits_xor: "(crc_bit ^^ n) (x XOR y) = (crc_bit ^^ n) x XOR (crc_bit ^^ n) y"
  by (induction n) (simp_all add: crc_bit_xor)

lemma crc_bits_low_zero: "take_bit n x = 0 \<Longrightarrow> (crc_bit ^^ n) x = drop_bit n x"
proof (induction n arbitrary: x)
  case 0
  then show ?case by simp
next
  case (Suc n)
  have "take_bit n x = 0"
    using Suc.prems by (metis take_bit_of_0 take_bit_take_bit min.absorb1 le_SucI order_refl)
  then have "(crc_bit ^^ n) x = drop_bit n x" by (rule Suc.IH)
  moreover have "\<not> bit x n"
    using arg_cong [OF Suc.prems, of "\<lambda>w. bit w n"] by (simp add: bit_take_bit_iff)
  ultimately show ?case
    by (simp add: crc_bit_alt [of "drop_bit n x"] bit_drop_bit_eq)
qed

lemma low_high: "x = take_bit 8 x XOR (x AND NOT (mask 8))" for x :: crc
  by (rule bit_eqI) (auto simp: bit_simps)

lemma crc_table_entry: "take_bit 8 i = i \<Longrightarrow> crc_table ! unat i = (crc_bit ^^ 8) i"
proof -
  assume i: "take_bit 8 i = i"
  have "unat i < 256"
    using take_bit_nat_less_exp [of 8 "unat i"] arg_cong [OF i, of unat] by (simp add: unsigned_take_bit_eq)
  then show ?thesis by (simp add: crc_table_def)
qed

text \<open>One table step is eight bit steps.\<close>

lemma crc_byte_bits: "crc_byte b c = (crc_bit ^^ 8) (c XOR ucast b)"
proof -
  define y where "y = c XOR (ucast b :: crc)"
  have lo: "y AND 0xFF = take_bit 8 y"
    by (simp add: take_bit_eq_mask mask_eq_exp_minus_1)
  have hi: "take_bit 8 (y AND NOT (mask 8)) = 0"
    by (rule bit_eqI) (auto simp: bit_simps)
  have "drop_bit 8 (y AND NOT (mask 8)) = drop_bit 8 c"
    by (rule bit_eqI) (auto simp: y_def bit_simps dest: bit_imp_le_length)
  then have "(crc_bit ^^ 8) y = (crc_bit ^^ 8) (take_bit 8 y) XOR drop_bit 8 c"
    using low_high [of y] crc_bits_xor [of 8 "take_bit 8 y" "y AND NOT (mask 8)"] crc_bits_low_zero [OF hi]
    by simp
  then show ?thesis
    by (simp add: crc_byte_def y_def [symmetric] lo crc_table_entry xor.commute)
qed

section \<open>Bit-wise reference\<close>

definition crc_update :: "bytes \<Rightarrow> crc \<Rightarrow> crc" where
  "crc_update data c = fold (\<lambda>b c. (crc_bit ^^ 8) (c XOR ucast b)) data c"

definition crc_spec :: "bytes \<Rightarrow> crc \<Rightarrow> crc" where
  "crc_spec data previous_crc = NOT (crc_update data (NOT previous_crc))"

lemma crc_fold_update: "fold crc_byte data c = crc_update data c"
proof -
  have "crc_byte = (\<lambda>b c. (crc_bit ^^ 8) (c XOR ucast b))"
    by (intro ext) (rule crc_byte_bits)
  then show ?thesis by (simp add: crc_update_def)
qed

lemma software_fallback_spec: "crc32c_software_fallback data prev = crc_spec data prev"
  by (simp add: crc32c_software_fallback_def crc_spec_def crc_fold_update)

lemma crc_zeros_fold: "crc_zeros n c = fold crc_byte (replicate n 0) c"
  by (induction n arbitrary: c) (simp_all add: crc_byte_def)

lemma calc_crc32_fold:
  "calc_crc32 data len prev =
     crc_spec (case data of None \<Rightarrow> replicate len 0 | Some d \<Rightarrow> take len d) prev"
  by (cases data)
    (auto simp: calc_crc32_def software_fallback_spec [symmetric] crc_zeros_fold crc32c_software_fallback_def)

lemma crc_of_spec: "crc_of d = crc_spec d 0"
  by (simp add: calc_crc32_fold)

lemma crc_spec_append: "crc_spec (xs @ ys) prev = crc_spec ys (crc_spec xs prev)"
  by (simp add: crc_spec_def crc_update_def)

section \<open>Error detection\<close>

lemma poly_top: "bit POLY_CASTAGNOLI 31"
  by (simp add: POLY_CASTAGNOLI_def)

lemma xor_cancel: "x XOR z = y XOR z \<Longrightarrow> x = y" for x y z :: crc
proof -
  assume "x XOR z = y XOR z"
  then have "(x XOR z) XOR z = (y XOR z) XOR z" by simp
  then show "x = y" by (simp add: xor.assoc)
qed

lemma crc_bit_inj: "crc_bit x = crc_bit y \<Longrightarrow> x = y"
proof -
  assume eq: "crc_bit x = crc_bit y"
  have top: "bit (crc_bit c) 31 \<longleftrightarrow> bit c 0" for c
    using bit_imp_le_length [of c 32] by (auto simp: crc_bit_alt bit_xor_iff bit_drop_bit_eq poly_top)
  have b0: "bit x 0 \<longleftrightarrow> bit y 0" using top [of x] top [of y] eq by simp
  then have "drop_bit 1 x = drop_bit 1 y"
    using eq unfolding crc_bit_alt by (auto dest: xor_cancel)
  then have "bit x (Suc n) \<longleftrightarrow> bit y (Suc n)" for n
    using bit_drop_bit_eq [of 1 x] bit_drop_bit_eq [of 1 y] by (metis comp_apply plus_1_eq_Suc)
  then show "x = y"
    using b0 by (intro bit_eqI) (metis not0_implies_Suc)
qed

lemma crc_bits_inj: "(crc_bit ^^ n) x = (crc_bit ^^ n) y \<Longrightarrow> x = y"
  by (induction n) (auto dest: crc_bit_inj)

lemma crc_byte_inj: "crc_byte b x = crc_byte b y \<Longrightarrow> x = y"
  unfolding crc_byte_bits by (blast dest: crc_bits_inj xor_cancel)

lemma crc_fold_inj: "fold crc_byte ds x = fold crc_byte ds y \<Longrightarrow> x = y"
  by (induction ds arbitrary: x y) (auto dest: crc_byte_inj)

text \<open>Up to four bytes enter the register as one word.\<close>

primrec le_word :: "bytes \<Rightarrow> crc" where
  "le_word [] = 0"
| "le_word (b # bs) = ucast b XOR push_bit 8 (le_word bs)"

lemma le_word_bits: "bit (le_word bs) n \<Longrightarrow> n < 8 * length bs"
proof (induction bs arbitrary: n)
  case Nil
  then show ?case by simp
next
  case (Cons b bs)
  show ?case
  proof (cases "n < 8")
    case False
    then have "\<not> bit b n" using bit_imp_le_length [of b n] by auto
    with Cons.prems False have "bit (le_word bs) (n - 8)"
      by (simp add: bit_xor_iff bit_push_bit_iff bit_unsigned_iff)
    from Cons.IH [OF this] show ?thesis by simp
  qed simp
qed

lemma crc_fold_word: "length bs \<le> 4 \<Longrightarrow> fold crc_byte bs c = (crc_bit ^^ (8 * length bs)) (c XOR le_word bs)"
proof (induction bs arbitrary: c)
  case Nil
  then show ?case by simp
next
  case (Cons b bs)
  define W where "W = le_word bs"
  have "take_bit 8 (push_bit 8 W) = 0"
    by (rule bit_eqI) (auto simp: bit_simps)
  then have "(crc_bit ^^ 8) (push_bit 8 W) = drop_bit 8 (push_bit 8 W)"
    by (rule crc_bits_low_zero)
  also have "\<dots> = W"
    using le_word_bits [of bs] Cons.prems by (intro bit_eqI) (fastforce simp: W_def bit_simps)
  finally have "crc_byte b c XOR W = (crc_bit ^^ 8) (c XOR le_word (b # bs))"
    by (simp add: crc_byte_bits W_def [symmetric] crc_bits_xor xor.assoc)
  moreover have "fold crc_byte bs (crc_byte b c) = (crc_bit ^^ (8 * length bs)) (crc_byte b c XOR W)"
    unfolding W_def using Cons.prems by (intro Cons.IH) simp
  ultimately show ?case
    by (simp add: funpow_add add.commute [of 8])
qed

lemma le_word_inj: "length bs = length bs' \<Longrightarrow> length bs \<le> 4 \<Longrightarrow> le_word bs = le_word bs' \<Longrightarrow> bs = bs'"
proof (induction bs bs' rule: list_induct2)
  case Nil
  then show ?case by simp
next
  case (Cons b bs b' bs')
  have eq: "bit (le_word (b # bs)) n = bit (le_word (b' # bs')) n" for n
    using Cons.prems(2) by simp
  have "b = b'"
  proof (rule bit_eqI)
    fix n assume "possible_bit TYPE(byte) n"
    then show "bit b n = bit b' n"
      using eq [of n] by (simp add: bit_simps)
  qed
  moreover have "le_word bs = le_word bs'"
  proof (rule bit_eqI)
    fix n
    show "bit (le_word bs) n = bit (le_word bs') n"
    proof (cases "n < 24")
      case True
      have "\<not> bit b (8 + n)" "\<not> bit b' (8 + n)"
        using bit_imp_le_length [of b "8 + n"] bit_imp_le_length [of b' "8 + n"] by auto
      with True show ?thesis using eq [of "8 + n"] by (simp add: bit_simps)
    next
      case False
      then show ?thesis
        using le_word_bits [of bs n] le_word_bits [of bs' n] Cons.prems Cons.hyps by auto
    qed
  qed
  ultimately show ?case using Cons by simp
qed

lemma crc_burst:
  assumes "length bs = length bs'" and "length bs \<le> 4" and "bs \<noteq> bs'"
  shows "crc_spec (xs @ bs @ ys) prev \<noteq> crc_spec (xs @ bs' @ ys) prev"
proof
  assume "crc_spec (xs @ bs @ ys) prev = crc_spec (xs @ bs' @ ys) prev"
  then have "fold crc_byte ys (fold crc_byte bs c) = fold crc_byte ys (fold crc_byte bs' c)"
    if "c = fold crc_byte xs (NOT prev)" for c
    using that by (simp add: software_fallback_spec [symmetric] crc32c_software_fallback_def)
  then have "fold crc_byte bs (fold crc_byte xs (NOT prev)) = fold crc_byte bs' (fold crc_byte xs (NOT prev))"
    by (blast dest: crc_fold_inj)
  then have "le_word bs = le_word bs'"
    using assms crc_fold_word by (metis crc_bits_inj xor.commute xor_cancel)
  with assms le_word_inj show False by blast
qed

lemma crc_update_append: "crc_update (xs @ ys) c = crc_update ys (crc_update xs c)"
  by (simp add: crc_update_def)

lemma isal_loop_update:
  assumes "\<And>d c. crc32_iscsi d c = crc_update d c"
  shows "isal_loop crc32_iscsi p c = crc_update p c"
proof (induction p arbitrary: c rule: length_induct)
  case (1 p)
  show ?case
  proof (cases "p = []")
    case True
    then show ?thesis by (simp add: isal_loop.simps crc_update_def)
  next
    case False
    define k where "k = min (length p) INT_MAX"
    have "length (drop k p) < length p" using False by (simp add: k_def INT_MAX_def)
    with 1 have "isal_loop crc32_iscsi (drop k p) (crc_update (take k p) c) = crc_update p c"
      by (metis append_take_drop_id crc_update_append)
    then show ?thesis
      using False assms by (subst isal_loop.simps) (simp add: k_def Let_def)
  qed
qed

section \<open>Properties\<close>

text \<open>
  C23: the table-driven \<open>calc_crc32\<close> is the bit-by-bit CRC-32C, for a buffer and for the null pointer
  that stands for zeros, and it is incremental: the checksum of a concatenation is the checksum of
  the second part started from that of the first. The callers rely on this when they checksum a
  header field by field.
\<close>

theorem calc_crc32_correct:
  "calc_crc32 (Some d) (length d) prev = crc_spec d prev \<and>
   calc_crc32 None n prev = crc_spec (replicate n 0) prev \<and>
   calc_crc32 (Some (d @ e)) (length (d @ e)) prev =
     calc_crc32 (Some e) (length e) (calc_crc32 (Some d) (length d) prev)"
  by (simp add: calc_crc32_fold crc_spec_append)

text \<open>
  Error detection. Two buffers that differ only within a window of at most four bytes have
  different checksums.
\<close>

theorem calc_crc32_detects_burst:
  assumes "length bs = length bs'" and "length bs \<le> 4" and "bs \<noteq> bs'"
  shows "calc_crc32 (Some (xs @ bs @ ys)) (length (xs @ bs @ ys)) prev \<noteq>
    calc_crc32 (Some (xs @ bs' @ ys)) (length (xs @ bs' @ ys)) prev"
  using crc_burst [OF assms] by (simp add: calc_crc32_fold)

theorem calc_crc32_detects_burst_witness:
  "calc_crc32 (Some [1, 2, 3, 4, 5]) 5 0 \<noteq> calc_crc32 (Some [1, 0, 0, 4, 5]) 5 0"
  using calc_crc32_detects_burst [of "[2, 3]" "[0, 0]" "[1]" "[4, 5]" 0] by (simp add: eval_nat_numeral)

text \<open>
  The ISA-L build computes the same checksums, chunk by chunk, if \<open>crc32_iscsi\<close> updates the
  register the way its documentation says: without inverting it before or after.
\<close>

theorem calc_crc32_isal_eq:
  assumes "\<And>d c. crc32_iscsi d c = crc_update d c"
  shows "calc_crc32_isal crc32_iscsi d prev = calc_crc32 (Some d) (length d) prev"
  by (simp add: calc_crc32_isal_def calc_crc32_fold isal_loop_update [OF assms] crc_spec_def crc_update_def)

theorem calc_crc32_isal_eq_witness:
  "calc_crc32_isal crc_update [1, 2, 3] 0 = calc_crc32 (Some [1, 2, 3]) 3 0"
  using calc_crc32_isal_eq [of crc_update "[1, 2, 3]" 0] by (simp add: eval_nat_numeral)

end
