(* ===== verification/Btier_Types.thy ===== *)
theory Btier_Types
  imports Crc32
begin

unbundle bit_operations_syntax

text \<open>
  \<^verbatim>\<open>btier/btier_types.h\<close>: locations of extents and keys, the packed 64-bit metrics word of an extent,
  and the header at the start of each extent on disk.
\<close>

section \<open>Locations\<close>

text \<open>
  \<open>Tier\<close> is an \<open>enum class\<close> over \<open>uint8_t\<close>; a value read from a journal can be any byte.
\<close>

datatype tier = FAST | SLOW | OTHER_TIER byte

fun tier_byte :: "tier \<Rightarrow> byte" where
  "tier_byte FAST = 0"
| "tier_byte SLOW = 1"
| "tier_byte (OTHER_TIER b) = b"

definition tier_of_byte :: "byte \<Rightarrow> tier" where
  "tier_of_byte b = (if b = 0 then FAST else if b = 1 then SLOW else OTHER_TIER b)"

fun tier_ok :: "tier \<Rightarrow> bool" where
  "tier_ok FAST \<longleftrightarrow> True"
| "tier_ok SLOW \<longleftrightarrow> True"
| "tier_ok (OTHER_TIER b) \<longleftrightarrow> b \<noteq> 0 \<and> b \<noteq> 1"

lemma tier_round_trip [simp]: "tier_ok t \<Longrightarrow> tier_of_byte (tier_byte t) = t"
  by (cases t) (auto simp: tier_of_byte_def)

record disk_location =
  dl_offset :: u64
  dl_length :: u32
  dl_tier :: tier

record key_location =
  kl_extent :: u64
  kl_offset :: u32
  kl_length :: u32

definition no_key_location :: key_location where
  "no_key_location = \<lparr>kl_extent = 0, kl_offset = 0, kl_length = 0\<rparr>"

definition no_disk_location :: disk_location where
  "no_disk_location = \<lparr>dl_offset = 0, dl_length = 0, dl_tier = FAST\<rparr>"

datatype io_op = READ | WRITE

section \<open>Extent metrics\<close>

type_synonym metrics = "64 word"

definition ACTIVE :: "32 word" where "ACTIVE = 0"
definition MIGRATING :: "32 word" where "MIGRATING = 1"

definition pack :: "32 word \<Rightarrow> 32 word \<Rightarrow> 32 word \<Rightarrow> 32 word \<Rightarrow> 64 word \<Rightarrow> metrics" where
  "pack access wr random state gen =
     ucast (access AND 0xFFF) OR push_bit 12 (ucast (wr AND 0xFFF)) OR
     push_bit 24 (ucast (random AND 0x3F)) OR push_bit 30 (ucast (state AND 0x3)) OR
     push_bit 32 (gen AND 0xFFFFFFFF)"

definition access_count :: "metrics \<Rightarrow> 32 word" where
  "access_count v = ucast (v AND 0xFFF)"

definition write_count :: "metrics \<Rightarrow> 32 word" where
  "write_count v = ucast (drop_bit 12 v AND 0xFFF)"

definition randomness :: "metrics \<Rightarrow> 32 word" where
  "randomness v = ucast (drop_bit 24 v AND 0x3F)"

definition ext_state :: "metrics \<Rightarrow> 32 word" where
  "ext_state v = ucast (drop_bit 30 v AND 0x3)"

definition generation :: "metrics \<Rightarrow> 64 word" where
  "generation v = drop_bit 32 v"

definition is_migrating :: "metrics \<Rightarrow> bool" where
  "is_migrating v \<longleftrightarrow> ext_state v = MIGRATING"

lemma masks:
  "(0xFFF :: 'a :: len word) = mask 12" "(0x3F :: 'a word) = mask 6" "(0x3 :: 'a word) = mask 2"
  "(0xFFFFFFFF :: 'a word) = mask 32"
  by (simp_all add: mask_eq_exp_minus_1)

lemmas metrics_defs = pack_def access_count_def write_count_def randomness_def ext_state_def generation_def

lemma bit_field:
  "bit (push_bit k (ucast (x AND mask m) :: 64 word)) n \<longleftrightarrow>
     k \<le> n \<and> n < k + m \<and> n < 64 \<and> bit (x :: 32 word) (n - k)"
  by (auto simp: bit_push_bit_iff bit_unsigned_iff bit_and_iff bit_mask_iff dest: bit_imp_le_length)

lemma bit_pack:
  "bit (pack a w r s g) n \<longleftrightarrow> n < 64 \<and>
     (if n < 12 then bit a n else if n < 24 then bit w (n - 12) else if n < 30 then bit r (n - 24)
      else if n < 32 then bit s (n - 30) else bit g (n - 32))"
proof -
  have low: "bit (ucast (a AND mask 12) :: 64 word) n \<longleftrightarrow> n < 12 \<and> bit a n"
    by (auto simp: bit_unsigned_iff bit_and_iff bit_mask_iff)
  have high: "bit (push_bit 32 (g AND mask 32)) n \<longleftrightarrow> 32 \<le> n \<and> n < 64 \<and> bit g (n - 32)"
    by (auto simp: bit_push_bit_iff bit_and_iff bit_mask_iff)
  show ?thesis
    unfolding pack_def masks bit_or_iff low high bit_field by auto
qed

lemma pack_fields:
  "access_count (pack a w r s g) = a AND 0xFFF"
  "write_count (pack a w r s g) = w AND 0xFFF"
  "randomness (pack a w r s g) = r AND 0x3F"
  "ext_state (pack a w r s g) = s AND 0x3"
  "generation (pack a w r s g) = g AND 0xFFFFFFFF"
  unfolding access_count_def write_count_def randomness_def ext_state_def generation_def masks
  by (rule bit_eqI, simp add: bit_unsigned_iff bit_and_iff bit_mask_iff bit_drop_bit_eq bit_pack, linarith?)+

lemma pack_unpack:
  "pack (access_count v) (write_count v) (randomness v) (ext_state v) (generation v) = v"
proof (rule bit_eqI)
  fix n assume "possible_bit TYPE(metrics) n"
  then show "bit (pack (access_count v) (write_count v) (randomness v) (ext_state v) (generation v)) n = bit v n"
    by (auto simp: bit_pack access_count_def write_count_def randomness_def ext_state_def generation_def masks
        bit_unsigned_iff bit_and_iff bit_mask_iff bit_drop_bit_eq)
qed

section \<open>Extent header\<close>

definition HEADER_SIZE :: u32 where "HEADER_SIZE = 4096"

definition EXTENT_MAGIC :: u64 where "EXTENT_MAGIC = 0x4254494552535445"

record extent_header =
  hdr_magic :: u64
  hdr_extent_id :: u64
  hdr_length :: u32
  hdr_used_bytes :: u32
  hdr_live_bytes :: u32
  hdr_reserved :: u32
  hdr_generation :: u64
  hdr_crc :: u32

text \<open>The bytes before the \<open>crc\<close> field, at offset 40, and the whole 4 KiB object.\<close>

definition header_prefix :: "extent_header \<Rightarrow> bytes" where
  "header_prefix h =
     le_bytes 8 (hdr_magic h) @ le_bytes 8 (hdr_extent_id h) @ le_bytes 4 (hdr_length h) @
     le_bytes 4 (hdr_used_bytes h) @ le_bytes 4 (hdr_live_bytes h) @ le_bytes 4 (hdr_reserved h) @
     le_bytes 8 (hdr_generation h)"

definition header_bytes :: "extent_header \<Rightarrow> bytes" where
  "header_bytes h = header_prefix h @ le_bytes 4 (hdr_crc h) @ replicate (1013 * 4) 0"

definition header_crc :: "extent_header \<Rightarrow> u32" where
  "header_crc h = unat (crc_of (header_prefix h))"

text \<open>\<open>memcpy\<close> of a buffer into an \<open>ExtentHeader\<close>.\<close>

definition field_at :: "nat \<Rightarrow> nat \<Rightarrow> bytes \<Rightarrow> nat" where
  "field_at off n bs = le_val (take n (drop off bs))"

definition header_of_bytes :: "bytes \<Rightarrow> extent_header" where
  "header_of_bytes bs =
     \<lparr>hdr_magic = field_at 0 8 bs, hdr_extent_id = field_at 8 8 bs, hdr_length = field_at 16 4 bs,
      hdr_used_bytes = field_at 20 4 bs, hdr_live_bytes = field_at 24 4 bs,
      hdr_reserved = field_at 28 4 bs, hdr_generation = field_at 32 8 bs, hdr_crc = field_at 40 4 bs\<rparr>"

text \<open>The header \<open>write_extent_header\<close> and \<open>flush_dirty_headers\<close> build.\<close>

definition make_header :: "u64 \<Rightarrow> u32 \<Rightarrow> u32 \<Rightarrow> u32 \<Rightarrow> u64 \<Rightarrow> extent_header" where
  "make_header extent_id len used live gen =
     (let h = \<lparr>hdr_magic = EXTENT_MAGIC, hdr_extent_id = extent_id, hdr_length = len, hdr_used_bytes = used,
               hdr_live_bytes = live, hdr_reserved = 0, hdr_generation = gen, hdr_crc = 0\<rparr>
      in h\<lparr>hdr_crc := header_crc h\<rparr>)"

definition header_ok :: "extent_header \<Rightarrow> bool" where
  "header_ok h \<longleftrightarrow>
     hdr_magic h < 2 ^ 64 \<and> hdr_extent_id h < 2 ^ 64 \<and> hdr_length h < 2 ^ 32 \<and> hdr_used_bytes h < 2 ^ 32 \<and>
     hdr_live_bytes h < 2 ^ 32 \<and> hdr_reserved h < 2 ^ 32 \<and> hdr_generation h < 2 ^ 64 \<and> hdr_crc h < 2 ^ 32"

lemma length_header_prefix [simp]: "length (header_prefix h) = 40"
  by (simp add: header_prefix_def)

lemma length_header_bytes [simp]: "length (header_bytes h) = 4096"
  by (simp add: header_bytes_def)

lemma field_at_skip: "length xs \<le> off \<Longrightarrow> field_at off n (xs @ ys) = field_at (off - length xs) n ys"
  by (simp add: field_at_def)

lemma field_at_here: "v < 256 ^ n \<Longrightarrow> field_at 0 n (le_bytes n v @ ys) = v"
  by (simp add: field_at_def)

lemma header_of_bytes_correct: "header_ok h \<Longrightarrow> header_of_bytes (header_bytes h) = h"
  unfolding header_of_bytes_def header_bytes_def header_prefix_def append_assoc header_ok_def
  by (cases h) (simp add: field_at_skip field_at_here)

lemma header_crc_crc_update [simp]: "header_crc (h\<lparr>hdr_crc := c\<rparr>) = header_crc h"
  by (simp add: header_crc_def header_prefix_def)

section \<open>Properties\<close>

text \<open>
  The metrics word. Unpacking a packed word gives each field reduced to its width, packing the
  fields of any word gives the word back, and no field overlaps another.
\<close>

theorem metrics_round_trip:
  "access_count (pack a w r s g) = a AND 0xFFF \<and> write_count (pack a w r s g) = w AND 0xFFF \<and>
   randomness (pack a w r s g) = r AND 0x3F \<and> ext_state (pack a w r s g) = s AND 0x3 \<and>
   generation (pack a w r s g) = g AND 0xFFFFFFFF \<and>
   pack (access_count v) (write_count v) (randomness v) (ext_state v) (generation v) = v"
  by (simp add: pack_fields pack_unpack)

text \<open>
  An extent header survives its 4 KiB on-disk form, the stored checksum verifies, and a change
  within any four bytes before the checksum is detected.
\<close>

theorem extent_header_round_trip:
  assumes "extent_id < 2 ^ 64" and "len < 2 ^ 32" and "used < 2 ^ 32" and "live < 2 ^ 32" and "gen < 2 ^ 64"
    and "header_prefix (make_header extent_id len used live gen) = xs @ bs @ ys"
    and "length bs' = length bs" and "length bs \<le> 4" and "bs' \<noteq> bs"
  shows "length (header_bytes (make_header extent_id len used live gen)) = 4096 \<and>
    header_of_bytes (header_bytes (make_header extent_id len used live gen)) = make_header extent_id len used live gen \<and>
    hdr_crc (make_header extent_id len used live gen) = header_crc (make_header extent_id len used live gen) \<and>
    hdr_crc (make_header extent_id len used live gen) \<noteq> unat (crc_of (xs @ bs' @ ys))"
proof -
  define h where "h = make_header extent_id len used live gen"
  have "unat c < 2 ^ 32" for c :: crc using unsigned_less [of c] by simp
  then have "header_ok h"
    using assms(1-5) by (simp add: h_def header_ok_def make_header_def header_crc_def EXTENT_MAGIC_def)
  moreover have "hdr_crc h = header_crc h"
    by (simp add: h_def make_header_def Let_def header_crc_def header_prefix_def)
  moreover have "crc_of (header_prefix h) \<noteq> crc_of (xs @ bs' @ ys)"
    using crc_burst [of bs bs' xs ys 0] assms(6-9) by (simp add: h_def calc_crc32_fold)
  ultimately show ?thesis
    unfolding h_def [symmetric] header_crc_def by (metis header_of_bytes_correct length_header_bytes word_unat_eq_iff)
qed

theorem extent_header_round_trip_witness:
  "header_of_bytes (header_bytes (make_header 7 65536 100 60 3)) = make_header 7 65536 100 60 3"
proof -
  obtain b bs where p: "header_prefix (make_header 7 65536 100 60 3) = [] @ [b] @ bs"
    using length_header_prefix [of "make_header 7 65536 100 60 3"]
    by (cases "header_prefix (make_header 7 65536 100 60 3)") auto
  from extent_header_round_trip [OF _ _ _ _ _ p, of "[b + 1]"] show ?thesis by simp
qed

end
