(* ===== verification/Key_Map.thy ===== *)
theory Key_Map
  imports Btier_Types
begin

text \<open>
  \<^verbatim>\<open>btier/key_map.cc\<close>: the in-memory index from keys to their locations, with a reverse index from
  extents to the keys they hold. Hash maps are association lists and the hash sets of the reverse
  index are lists without repetition.
\<close>

section \<open>Model\<close>

type_synonym key = bytes

record key_entry =
  ke_loc :: key_location
  ke_last_lba :: u64
  ke_consecutive :: u32

record key_map =
  km_map :: "(key \<times> key_entry) list"
  km_rindex :: "(u64 \<times> key list) list"

definition kSequentialThreshold :: u64 where "kSequentialThreshold = 64 * 1024"
definition kMaxSeqAward :: u32 where "kMaxSeqAward = 63"

definition new_key_entry :: key_entry where
  "new_key_entry = \<lparr>ke_loc = no_key_location, ke_last_lba = 0, ke_consecutive = 0\<rparr>"

definition km_new :: key_map where
  "km_new = \<lparr>km_map = [], km_rindex = []\<rparr>"

definition km_lookup :: "key \<Rightarrow> key_map \<Rightarrow> key_location option" where
  "km_lookup key km = map_option ke_loc (map_of (km_map km) key)"

text \<open>The two updates of the reverse index that every operation shares.\<close>

definition rindex_erase :: "u64 \<Rightarrow> key \<Rightarrow> (u64 \<times> key list) list \<Rightarrow> (u64 \<times> key list) list" where
  "rindex_erase ext key ri =
     (case map_of ri ext of
        None \<Rightarrow> ri
      | Some ks \<Rightarrow>
          let ks' = removeAll key ks
          in if ks' = [] then AList.delete ext ri else AList.update ext ks' ri)"

definition rindex_insert :: "u64 \<Rightarrow> key \<Rightarrow> (u64 \<times> key list) list \<Rightarrow> (u64 \<times> key list) list" where
  "rindex_insert ext key ri =
     AList.update ext (List.insert key (case map_of ri ext of None \<Rightarrow> [] | Some ks \<Rightarrow> ks)) ri"

definition track_stride :: "u64 \<Rightarrow> key_entry \<Rightarrow> key_entry" where
  "track_stride lba en =
     (let prev_lba = ke_last_lba en;
          delta = (if lba > prev_lba then sub64 lba prev_lba else sub64 prev_lba lba)
      in en\<lparr>ke_last_lba := lba,
            ke_consecutive :=
              (if delta \<le> kSequentialThreshold
               then if ke_consecutive en < kMaxSeqAward then ke_consecutive en + 1 else ke_consecutive en
               else 0)\<rparr>)"

definition km_put :: "key \<Rightarrow> key_location \<Rightarrow> u64 \<Rightarrow> key_map \<Rightarrow> key_map" where
  "km_put key loc lba km =
     (let old = map_of (km_map km) key;
          en = (case old of None \<Rightarrow> new_key_entry | Some en \<Rightarrow> en);
          ri = (if old \<noteq> None \<and> kl_extent (ke_loc en) \<noteq> kl_extent loc
                then rindex_erase (kl_extent (ke_loc en)) key (km_rindex km) else km_rindex km)
      in \<lparr>km_map = AList.update key ((track_stride lba en)\<lparr>ke_loc := loc\<rparr>) (km_map km),
          km_rindex = rindex_insert (kl_extent loc) key ri\<rparr>)"

definition km_erase :: "key \<Rightarrow> key_map \<Rightarrow> key_map" where
  "km_erase key km =
     (case map_of (km_map km) key of
        None \<Rightarrow> km
      | Some en \<Rightarrow>
          \<lparr>km_map = AList.delete key (km_map km),
           km_rindex = rindex_erase (kl_extent (ke_loc en)) key (km_rindex km)\<rparr>)"

definition km_keys_in_extent :: "u64 \<Rightarrow> key_map \<Rightarrow> key list" where
  "km_keys_in_extent ext km = (case map_of (km_rindex km) ext of None \<Rightarrow> [] | Some ks \<Rightarrow> ks)"

definition km_batch_one :: "key \<times> key_location \<Rightarrow> key_map \<Rightarrow> key_map" where
  "km_batch_one u km =
     (let (key, loc) = u
      in case map_of (km_map km) key of
           Some en \<Rightarrow>
             let ri = (if kl_extent (ke_loc en) \<noteq> kl_extent loc
                       then rindex_erase (kl_extent (ke_loc en)) key (km_rindex km) else km_rindex km)
             in \<lparr>km_map = AList.update key (en\<lparr>ke_loc := loc\<rparr>) (km_map km),
                 km_rindex = rindex_insert (kl_extent loc) key ri\<rparr>
         | None \<Rightarrow>
             \<lparr>km_map = AList.update key (new_key_entry\<lparr>ke_loc := loc\<rparr>) (km_map km),
              km_rindex = rindex_insert (kl_extent loc) key (km_rindex km)\<rparr>)"

definition km_batch_update :: "(key \<times> key_location) list \<Rightarrow> key_map \<Rightarrow> key_map" where
  "km_batch_update us km = fold km_batch_one us km"

definition km_get_consecutive :: "key \<Rightarrow> key_map \<Rightarrow> u32" where
  "km_get_consecutive key km =
     (case map_of (km_map km) key of None \<Rightarrow> 0 | Some en \<Rightarrow> ke_consecutive en)"

definition km_size :: "key_map \<Rightarrow> nat" where
  "km_size km = length (km_map km)"

definition km_keys_in_extent_count :: "u64 \<Rightarrow> key_map \<Rightarrow> nat" where
  "km_keys_in_extent_count ext km =
     (case map_of (km_rindex km) ext of None \<Rightarrow> 0 | Some ks \<Rightarrow> length ks)"

section \<open>Invariant\<close>

definition km_inv :: "key_map \<Rightarrow> bool" where
  "km_inv km \<longleftrightarrow>
     distinct (al_keys (km_map km)) \<and> distinct (al_keys (km_rindex km)) \<and>
     (\<forall>ext ks. map_of (km_rindex km) ext = Some ks \<longrightarrow> ks \<noteq> [] \<and> distinct ks) \<and>
     (\<forall>ext key. key \<in> set (km_keys_in_extent ext km) \<longleftrightarrow>
        (\<exists>loc. km_lookup key km = Some loc \<and> kl_extent loc = ext)) \<and>
     (\<forall>key en. map_of (km_map km) key = Some en \<longrightarrow> ke_consecutive en \<le> kMaxSeqAward)"

text \<open>The reverse index as a function, and a well-formed one.\<close>

definition rset :: "(u64 \<times> key list) list \<Rightarrow> u64 \<Rightarrow> key set" where
  "rset ri ext = (case map_of ri ext of None \<Rightarrow> {} | Some ks \<Rightarrow> set ks)"

definition rindex_ok :: "(u64 \<times> key list) list \<Rightarrow> bool" where
  "rindex_ok ri \<longleftrightarrow> distinct (al_keys ri) \<and> (\<forall>ext ks. map_of ri ext = Some ks \<longrightarrow> ks \<noteq> [] \<and> distinct ks)"

lemma km_inv_alt:
  "km_inv km \<longleftrightarrow> distinct (al_keys (km_map km)) \<and> rindex_ok (km_rindex km) \<and>
     (\<forall>ext. rset (km_rindex km) ext = {key. \<exists>loc. km_lookup key km = Some loc \<and> kl_extent loc = ext}) \<and>
     (\<forall>key en. map_of (km_map km) key = Some en \<longrightarrow> ke_consecutive en \<le> kMaxSeqAward)"
proof -
  have "set (km_keys_in_extent ext km) = rset (km_rindex km) ext" for ext
    by (simp add: km_keys_in_extent_def rset_def split: option.split)
  then show ?thesis unfolding km_inv_def rindex_ok_def by auto
qed

lemma rindex_erase_ok:
  assumes "rindex_ok ri"
  shows "rindex_ok (rindex_erase ext key ri)"
    and "rset (rindex_erase ext key ri) = (rset ri)(ext := rset ri ext - {key})"
proof -
  show "rindex_ok (rindex_erase ext key ri)"
    using assms by (auto simp: rindex_ok_def rindex_erase_def Let_def map_of_update map_of_delete
        distinct_al_update distinct_al_delete distinct_removeAll split: option.splits if_splits
        simp del: map_of_eq_Some_iff)
  show "rset (rindex_erase ext key ri) = (rset ri)(ext := rset ri ext - {key})"
    using assms by (intro ext) (auto simp: rset_def rindex_erase_def Let_def map_of_update map_of_delete
        removeAll_filter_not_eq filter_empty_conv split: option.splits if_splits)
qed

lemma rindex_insert_ok:
  assumes "rindex_ok ri"
  shows "rindex_ok (rindex_insert ext key ri)"
    and "rset (rindex_insert ext key ri) = (rset ri)(ext := insert key (rset ri ext))"
proof -
  show "rindex_ok (rindex_insert ext key ri)"
    using assms by (auto simp: rindex_ok_def rindex_insert_def map_of_update distinct_al_update
        List.insert_def split: option.splits if_splits simp del: map_of_eq_Some_iff)
  show "rset (rindex_insert ext key ri) = (rset ri)(ext := insert key (rset ri ext))"
    by (intro ext) (auto simp: rset_def rindex_insert_def map_of_update split: option.splits)
qed

section \<open>Operations\<close>

text \<open>The content of the index, as the map the clients see.\<close>

definition km_view :: "key_map \<Rightarrow> key \<rightharpoonup> key_location" where
  "km_view km = (\<lambda>key. km_lookup key km)"

text \<open>\<open>put\<close> and \<open>batch_update\<close> move a key in the same way.\<close>

lemma km_move_ok:
  assumes inv: "km_inv km" and loc: "ke_loc en = loc" and con: "ke_consecutive en \<le> kMaxSeqAward"
    and ri: "ri = (case map_of (km_map km) key of
        Some old \<Rightarrow> if kl_extent (ke_loc old) \<noteq> kl_extent loc
          then rindex_erase (kl_extent (ke_loc old)) key (km_rindex km) else km_rindex km
      | None \<Rightarrow> km_rindex km)"
    and km': "km' = \<lparr>km_map = AList.update key en (km_map km), km_rindex = rindex_insert (kl_extent loc) key ri\<rparr>"
  shows "km_inv km' \<and> km_view km' = (km_view km)(key \<mapsto> loc)"
proof -
  have v: "km_view km' = (km_view km)(key \<mapsto> loc)"
    by (rule ext) (simp add: km_view_def km_lookup_def km' map_of_update loc)
  have ok: "rindex_ok (km_rindex km)" and
    sets: "\<And>e. rset (km_rindex km) e = {k. \<exists>l. km_view km k = Some l \<and> kl_extent l = e}"
    using inv by (auto simp: km_inv_alt km_view_def)
  have ri_ok: "rindex_ok ri" using ok rindex_erase_ok(1) by (auto simp: ri split: option.split)
  have "rset ri e = {k. \<exists>l. km_view km k = Some l \<and> kl_extent l = e} - (if e \<noteq> kl_extent loc then {key} else {})" for e
    using sets ok by (auto simp: ri rindex_erase_ok(2) km_view_def km_lookup_def split: option.splits if_splits)
  then have "rset (km_rindex km') e = {k. \<exists>l. km_view km' k = Some l \<and> kl_extent l = e}" for e
    using rindex_insert_ok(2) [OF ri_ok] unfolding v by (auto simp: km')
  then have "km_inv km'"
    using inv con rindex_insert_ok(1) [OF ri_ok]
    by (auto simp: km_inv_alt km' km_view_def distinct_al_update map_of_update
        simp del: map_of_eq_Some_iff split: if_splits)
  with v show ?thesis by simp
qed

lemma track_stride_bound: "ke_consecutive en \<le> kMaxSeqAward \<Longrightarrow> ke_consecutive (track_stride lba en) \<le> kMaxSeqAward"
  by (simp add: track_stride_def Let_def)

lemma km_put_ok:
  assumes "km_inv km"
  shows "km_inv (km_put key loc lba km) \<and> km_view (km_put key loc lba km) = (km_view km)(key \<mapsto> loc)"
proof (rule km_move_ok [OF assms])
  define en where "en = (case map_of (km_map km) key of None \<Rightarrow> new_key_entry | Some en \<Rightarrow> en)"
  show "ke_loc ((track_stride lba en)\<lparr>ke_loc := loc\<rparr>) = loc" by simp
  have "ke_consecutive en \<le> kMaxSeqAward"
    using assms by (auto simp: en_def new_key_entry_def km_inv_alt simp del: map_of_eq_Some_iff split: option.split)
  then show "ke_consecutive ((track_stride lba en)\<lparr>ke_loc := loc\<rparr>) \<le> kMaxSeqAward"
    using track_stride_bound [of en lba] by simp
  show "km_put key loc lba km =
      \<lparr>km_map = AList.update key ((track_stride lba en)\<lparr>ke_loc := loc\<rparr>) (km_map km),
       km_rindex = rindex_insert (kl_extent loc) key
         (case map_of (km_map km) key of
            Some old \<Rightarrow> if kl_extent (ke_loc old) \<noteq> kl_extent loc
              then rindex_erase (kl_extent (ke_loc old)) key (km_rindex km) else km_rindex km
          | None \<Rightarrow> km_rindex km)\<rparr>"
    by (simp add: km_put_def en_def Let_def split: option.split)
qed simp

lemma km_batch_one_ok:
  assumes "km_inv km"
  shows "km_inv (km_batch_one (key, loc) km) \<and> km_view (km_batch_one (key, loc) km) = (km_view km)(key \<mapsto> loc)"
proof (rule km_move_ok [OF assms])
  define en where "en = (case map_of (km_map km) key of None \<Rightarrow> new_key_entry | Some en \<Rightarrow> en)"
  show "ke_loc (en\<lparr>ke_loc := loc\<rparr>) = loc" by simp
  show "ke_consecutive (en\<lparr>ke_loc := loc\<rparr>) \<le> kMaxSeqAward"
    using assms by (auto simp: en_def new_key_entry_def km_inv_alt simp del: map_of_eq_Some_iff split: option.split)
  show "km_batch_one (key, loc) km =
      \<lparr>km_map = AList.update key (en\<lparr>ke_loc := loc\<rparr>) (km_map km),
       km_rindex = rindex_insert (kl_extent loc) key
         (case map_of (km_map km) key of
            Some old \<Rightarrow> if kl_extent (ke_loc old) \<noteq> kl_extent loc
              then rindex_erase (kl_extent (ke_loc old)) key (km_rindex km) else km_rindex km
          | None \<Rightarrow> km_rindex km)\<rparr>"
    by (simp add: km_batch_one_def en_def Let_def split: option.split)
qed simp

lemma km_batch_update_ok:
  "km_inv km \<Longrightarrow> km_inv (km_batch_update us km) \<and> km_view (km_batch_update us km) = km_view km ++ map_of (rev us)"
proof (induction us arbitrary: km)
  case Nil
  then show ?case by (simp add: km_batch_update_def)
next
  case (Cons u us)
  obtain key loc where u: "u = (key, loc)" by (cases u)
  note one = km_batch_one_ok [OF Cons.prems, of key loc]
  have "(km_view km)(key \<mapsto> loc) ++ map_of (rev us) = km_view km ++ map_of (rev (u # us))"
    by (rule ext) (simp add: u map_add_def split: option.split)
  moreover have "km_batch_update (u # us) km = km_batch_update us (km_batch_one u km)"
    by (simp add: km_batch_update_def)
  ultimately show ?case
    using Cons.IH [of "km_batch_one u km"] one unfolding u by metis
qed

lemma km_erase_ok:
  assumes inv: "km_inv km"
  shows "km_inv (km_erase key km) \<and> km_view (km_erase key km) = (km_view km)(key := None)"
proof (cases "map_of (km_map km) key")
  case None
  then have "km_view km key = None" by (simp add: km_view_def km_lookup_def)
  with None inv show ?thesis by (auto simp: km_erase_def)
next
  case (Some en)
  define km' where "km' = km_erase key km"
  have k: "km_map km' = AList.delete key (km_map km)"
    "km_rindex km' = rindex_erase (kl_extent (ke_loc en)) key (km_rindex km)"
    using Some by (simp_all add: km'_def km_erase_def)
  have v: "km_view km' = (km_view km)(key := None)"
    by (rule ext) (simp add: km_view_def km_lookup_def k map_of_delete)
  have ok: "rindex_ok (km_rindex km)" and
    sets: "\<And>e. rset (km_rindex km) e = {k. \<exists>l. km_view km k = Some l \<and> kl_extent l = e}"
    using inv by (auto simp: km_inv_alt km_view_def)
  have "rset (km_rindex km') e = {k. \<exists>l. km_view km' k = Some l \<and> kl_extent l = e}" for e
    unfolding v k using sets Some
    by (auto simp: rindex_erase_ok(2) [OF ok] km_view_def km_lookup_def split: if_splits)
  then have "km_inv km'"
    using inv rindex_erase_ok(1) [OF ok]
    by (auto simp: km_inv_alt k km_view_def distinct_al_delete map_of_delete
        simp del: map_of_eq_Some_iff split: if_splits)
  with v show ?thesis by (simp add: km'_def)
qed

lemma km_keys_in_extent_iff:
  "km_inv km \<Longrightarrow> key \<in> set (km_keys_in_extent ext km) \<longleftrightarrow>
     (\<exists>loc. km_lookup key km = Some loc \<and> kl_extent loc = ext)"
  by (simp add: km_inv_def)

lemma km_new_inv: "km_inv km_new \<and> km_view km_new = Map.empty"
  by (auto simp: km_inv_def km_new_def km_keys_in_extent_def km_lookup_def km_view_def)

section \<open>The interface of the index\<close>

text \<open>
  What the engine and the migration code rely on: \<open>view\<close> behaves as a map, and \<open>keys_in\<close> gives exactly
  the keys located in an extent.
\<close>

locale key_index =
  fixes view :: "'s \<Rightarrow> key \<rightharpoonup> key_location"
    and put :: "key \<Rightarrow> key_location \<Rightarrow> u64 \<Rightarrow> 's \<Rightarrow> 's"
    and erase :: "key \<Rightarrow> 's \<Rightarrow> 's"
    and batch :: "(key \<times> key_location) list \<Rightarrow> 's \<Rightarrow> 's"
    and keys_in :: "u64 \<Rightarrow> 's \<Rightarrow> key list"
    and invar :: "'s \<Rightarrow> bool"
  assumes put_law: "invar s \<Longrightarrow> invar (put k l lba s) \<and> view (put k l lba s) = (view s)(k \<mapsto> l)"
    and erase_law: "invar s \<Longrightarrow> invar (erase k s) \<and> view (erase k s) = (view s)(k := None)"
    and batch_law: "invar s \<Longrightarrow> invar (batch us s) \<and> view (batch us s) = view s ++ map_of (rev us)"
    and keys_law: "invar s \<Longrightarrow> set (keys_in e s) = {k. \<exists>l. view s k = Some l \<and> kl_extent l = e}"
begin

text \<open>Erasing every key of an extent, as recovery does for a corrupt one.\<close>

lemma erase_all: "invar s \<Longrightarrow> invar (fold erase ks s) \<and> view (fold erase ks s) = (view s) |` (- set ks)"
proof (induction ks arbitrary: s)
  case Nil
  then show ?case by simp
next
  case (Cons k ks)
  note e = erase_law [OF Cons.prems, of k]
  have "((view s)(k := None)) |` (- set ks) = (view s) |` (- set (k # ks))"
    by (rule ext) (auto simp: restrict_map_def)
  moreover have "fold erase (k # ks) s = fold erase ks (erase k s)" by simp
  ultimately show ?case
    using Cons.IH [of "erase k s"] e by metis
qed

lemma erase_extent:
  assumes "invar s"
  shows "keys_in e (fold erase (keys_in e s) s) = []"
proof -
  note a = erase_all [OF assms, of "keys_in e s"]
  then have "set (keys_in e (fold erase (keys_in e s) s)) = {}"
    using keys_law [OF assms, of e] keys_law [of "fold erase (keys_in e s) s" e]
    by (auto simp: restrict_map_def split: if_splits)
  then show ?thesis by simp
qed

text \<open>Moving keys between extents with \<open>batch\<close> leaves none of them behind.\<close>

lemma batch_moves:
  assumes "invar s" and "set (keys_in e s) \<subseteq> fst ` set us" and "\<forall>(k, l) \<in> set us. kl_extent l = e'" and "e \<noteq> e'"
  shows "keys_in e (batch us s) = []"
proof -
  note b = batch_law [OF assms(1), of us]
  have "view (batch us s) k = Some l \<Longrightarrow> kl_extent l \<noteq> e" for k l
  proof
    assume k: "view (batch us s) k = Some l" and e: "kl_extent l = e"
    show False
    proof (cases "map_of (rev us) k")
      case None
      then have "k \<notin> fst ` set us" using map_of_eq_None_iff [of "rev us" k] by simp
      moreover have "view s k = Some l" using k None b by (simp add: map_add_def)
      then have "k \<in> set (keys_in e s)" using e keys_law [OF assms(1), of e] by auto
      ultimately show False using assms(2) by auto
    next
      case (Some l')
      then have "(k, l') \<in> set us" using map_of_SomeD by fastforce
      then show False using assms(3,4) Some k b e by (auto simp: map_add_def)
    qed
  qed
  then have "set (keys_in e (batch us s)) = {}"
    using b keys_law [of "batch us s" e] by auto
  then show ?thesis by simp
qed

end

interpretation kmi: key_index km_view km_put km_erase km_batch_update km_keys_in_extent km_inv
  by unfold_locales (simp_all add: km_put_ok km_erase_ok km_batch_update_ok,
      auto simp: km_keys_in_extent_iff km_view_def)

section \<open>Refinement\<close>

datatype km_op = Put key key_location u64 | EraseKey key | Batch "(key \<times> key_location) list"

fun km_step :: "km_op \<Rightarrow> key_map \<Rightarrow> key_map" where
  "km_step (Put k l lba) km = km_put k l lba km"
| "km_step (EraseKey k) km = km_erase k km"
| "km_step (Batch us) km = km_batch_update us km"

fun map_step :: "km_op \<Rightarrow> (key \<rightharpoonup> key_location) \<Rightarrow> key \<rightharpoonup> key_location" where
  "map_step (Put k l lba) m = m(k \<mapsto> l)"
| "map_step (EraseKey k) m = m(k := None)"
| "map_step (Batch us) m = m ++ map_of (rev us)"

lemma km_run_ok: "km_inv km \<Longrightarrow> km_inv (fold km_step ops km) \<and> km_view (fold km_step ops km) = fold map_step ops (km_view km)"
proof (induction ops arbitrary: km)
  case Nil
  then show ?case by simp
next
  case (Cons op ops)
  have "km_inv (km_step op km) \<and> km_view (km_step op km) = map_step op (km_view km)"
    using Cons.prems kmi.put_law kmi.erase_law kmi.batch_law by (cases op) simp_all
  with Cons.IH [of "km_step op km"] show ?case by simp
qed

text \<open>
  C21: the key index is a map with an exact inverse. After any sequence of \<open>put\<close>, \<open>erase\<close> and
  \<open>batch_update\<close> calls a lookup gives the location written last, and \<open>keys_in_extent\<close> lists each
  key located in the extent once and no other key.
\<close>

theorem key_map_refines_map:
  "km_view (fold km_step ops km_new) = fold map_step ops Map.empty \<and>
   set (km_keys_in_extent ext (fold km_step ops km_new)) =
     {k. \<exists>l. fold map_step ops Map.empty k = Some l \<and> kl_extent l = ext} \<and>
   distinct (km_keys_in_extent ext (fold km_step ops km_new)) \<and>
   km_keys_in_extent_count ext (fold km_step ops km_new) =
     card {k. \<exists>l. fold map_step ops Map.empty k = Some l \<and> kl_extent l = ext}"
proof -
  define km where "km = fold km_step ops km_new"
  have inv: "km_inv km" and v: "km_view km = fold map_step ops Map.empty"
    using km_run_ok [of km_new ops] km_new_inv by (simp_all add: km_def)
  have d: "distinct (km_keys_in_extent ext km)"
    using inv by (auto simp: km_inv_def km_keys_in_extent_def simp del: map_of_eq_Some_iff split: option.split)
  have "km_keys_in_extent_count ext km = length (km_keys_in_extent ext km)"
    by (simp add: km_keys_in_extent_count_def km_keys_in_extent_def split: option.split)
  then show ?thesis
    using kmi.keys_law [OF inv, of ext] v d distinct_card [OF d] by (simp add: km_def [symmetric])
qed

end
