(* ===== verification/Extent_Map.thy ===== *)
theory Extent_Map
  imports Avl_Allocator Block_Device Key_Map
begin

unbundle bit_operations_syntax

text \<open>
  \<^verbatim>\<open>btier/extent_map.cc\<close>: the table of extents with their packing state, the free lists per tier, the
  deferred-free queue, and the migration handles. The two allocators and the two block devices are
  objects of the engine that the map only points to; they are the record \<open>tiers\<close>, which every
  operation that uses them takes and returns. A null pointer is \<open>None\<close>.

  The locks make each operation atomic, so an operation is a function on the state. An option result
  is \<open>None\<close> when an assertion of an allocator fails.
\<close>

section \<open>State\<close>

record extent_entry =
  ee_raw :: metrics
  ee_last_access :: u32
  ee_loc :: disk_location
  ee_used :: u32
  ee_live :: u32
  ee_io_refs :: u32

record tiers =
  fast_alloc :: "avl option"
  slow_alloc :: "avl option"
  fast_dev :: "kdev option"
  slow_dev :: "kdev option"

type_synonym free_list = "(u32 \<times> u64) list"

record extent_map =
  em_block_size :: u64
  em_extent_size :: u64
  em_entries :: "(u64 \<times> extent_entry) list"
  em_next_id :: u64
  em_fast_list :: free_list
  em_slow_list :: free_list
  em_deferred :: "(disk_location \<times> u64) list"
  em_seqno :: u64
  em_dirty :: "u64 list"

text \<open>
  The arrays indexed by \<open>static_cast<int>(tier)\<close>. An index other than 0 and 1 is undefined in C++; every
  tier the engine stores is FAST or SLOW, and the model takes any other for SLOW.
\<close>

definition alloc_of :: "tier \<Rightarrow> tiers \<Rightarrow> avl option" where
  "alloc_of t ts = (if t = FAST then fast_alloc ts else slow_alloc ts)"

definition set_alloc :: "tier \<Rightarrow> avl \<Rightarrow> tiers \<Rightarrow> tiers" where
  "set_alloc t a ts = (if t = FAST then ts\<lparr>fast_alloc := Some a\<rparr> else ts\<lparr>slow_alloc := Some a\<rparr>)"

definition dev_of :: "tier \<Rightarrow> tiers \<Rightarrow> kdev option" where
  "dev_of t ts = (if t = FAST then fast_dev ts else slow_dev ts)"

definition set_dev :: "tier \<Rightarrow> kdev \<Rightarrow> tiers \<Rightarrow> tiers" where
  "set_dev t d ts = (if t = FAST then ts\<lparr>fast_dev := Some d\<rparr> else ts\<lparr>slow_dev := Some d\<rparr>)"

definition free_list_of :: "tier \<Rightarrow> extent_map \<Rightarrow> free_list" where
  "free_list_of t em = (if t = FAST then em_fast_list em else em_slow_list em)"

definition set_free_list :: "tier \<Rightarrow> free_list \<Rightarrow> extent_map \<Rightarrow> extent_map" where
  "set_free_list t l em = (if t = FAST then em\<lparr>em_fast_list := l\<rparr> else em\<lparr>em_slow_list := l\<rparr>)"

definition em_new :: "u64 \<Rightarrow> u64 \<Rightarrow> extent_map" where
  "em_new blk ext_sz =
     \<lparr>em_block_size = blk, em_extent_size = ext_sz, em_entries = [], em_next_id = 1, em_fast_list = [],
      em_slow_list = [], em_deferred = [], em_seqno = 0, em_dirty = []\<rparr>"

definition entry_new :: "disk_location \<Rightarrow> extent_entry" where
  "entry_new loc = \<lparr>ee_raw = 0, ee_last_access = 0, ee_loc = loc, ee_used = 0, ee_live = 0, ee_io_refs = 0\<rparr>"

section \<open>Internal helpers\<close>

definition free_entry_less :: "u32 \<times> u64 \<Rightarrow> u32 \<times> u64 \<Rightarrow> bool" where
  "free_entry_less a b \<longleftrightarrow> fst a < fst b \<or> (fst a = fst b \<and> snd a < snd b)"

text \<open>Insertion into and removal from an ordered \<open>std::set\<close>.\<close>

fun fl_insert :: "u32 \<times> u64 \<Rightarrow> free_list \<Rightarrow> free_list" where
  "fl_insert x [] = [x]"
| "fl_insert x (y # ys) =
     (if free_entry_less x y then x # y # ys else if x = y then y # ys else y # fl_insert x ys)"

definition fl_erase :: "u32 \<times> u64 \<Rightarrow> free_list \<Rightarrow> free_list" where
  "fl_erase x l = removeAll x l"

definition mark_dirty :: "u64 \<Rightarrow> extent_map \<Rightarrow> extent_map" where
  "mark_dirty ext em = em\<lparr>em_dirty := insort_insert ext (em_dirty em)\<rparr>"

definition em_lookup :: "u64 \<Rightarrow> extent_map \<Rightarrow> extent_entry option" where
  "em_lookup ext em = map_of (em_entries em) ext"

definition em_store :: "u64 \<Rightarrow> extent_entry \<Rightarrow> extent_map \<Rightarrow> extent_map" where
  "em_store ext en em = em\<lparr>em_entries := AList.update ext en (em_entries em)\<rparr>"

definition bump_generation :: "extent_entry \<Rightarrow> extent_entry" where
  "bump_generation en =
     (let old = ee_raw en
      in en\<lparr>ee_raw := pack (access_count old) (write_count old) (randomness old) (ext_state old)
                       (generation old + 1)\<rparr>)"

definition add_deferred_free :: "disk_location \<Rightarrow> extent_map \<Rightarrow> extent_map" where
  "add_deferred_free loc em = em\<lparr>em_deferred := em_deferred em @ [(loc, em_seqno em)]\<rparr>"

definition update_free_list :: "u64 \<Rightarrow> tier \<Rightarrow> u32 \<Rightarrow> u32 \<Rightarrow> extent_map \<Rightarrow> extent_map" where
  "update_free_list ext t old_free new_free em =
     set_free_list t (fl_insert (new_free, ext) (fl_erase (old_free, ext) (free_list_of t em))) em"

definition capacity_of :: "disk_location \<Rightarrow> u32" where
  "capacity_of loc = sub32 (dl_length loc) HEADER_SIZE"

definition write_header :: "disk_location \<Rightarrow> extent_header \<Rightarrow> tiers \<Rightarrow> tiers" where
  "write_header loc hdr ts =
     (case dev_of (dl_tier loc) ts of
        None \<Rightarrow> ts
      | Some d \<Rightarrow> set_dev (dl_tier loc) (snd (kd_write (dl_offset loc) [header_bytes hdr] False d)) ts)"

definition write_extent_header :: "u64 \<Rightarrow> disk_location \<Rightarrow> tiers \<Rightarrow> tiers" where
  "write_extent_header ext loc ts = write_header loc (make_header ext (dl_length loc) 0 0 0) ts"

section \<open>Queries and metrics\<close>

definition init_free_space :: "tiers \<Rightarrow> tiers option" where
  "init_free_space ts =
     do { ts1 \<leftarrow> (case fast_alloc ts of None \<Rightarrow> Some ts
                  | Some a \<Rightarrow> map_option (\<lambda>b. ts\<lparr>fast_alloc := Some b\<rparr>) (avl_init_add_free 0 (device_size a) a));
          (case slow_alloc ts1 of None \<Rightarrow> Some ts1
                  | Some a \<Rightarrow> map_option (\<lambda>b. ts1\<lparr>slow_alloc := Some b\<rparr>) (avl_init_add_free 0 (device_size a) a)) }"

definition em_get_location :: "u64 \<Rightarrow> extent_map \<Rightarrow> disk_location option" where
  "em_get_location ext em = map_option ee_loc (em_lookup ext em)"

definition em_get_raw_metrics :: "u64 \<Rightarrow> extent_map \<Rightarrow> metrics" where
  "em_get_raw_metrics ext em = (case em_lookup ext em of None \<Rightarrow> 0 | Some en \<Rightarrow> ee_raw en)"

definition em_record_io :: "u64 \<Rightarrow> io_op \<Rightarrow> u32 \<Rightarrow> extent_map \<Rightarrow> extent_map" where
  "em_record_io ext op now em =
     (case em_lookup ext em of
        None \<Rightarrow> em
      | Some en \<Rightarrow>
          let old = ee_raw en;
              new_access = min (access_count old + 1) 4095;
              new_write = (if op = WRITE then min (write_count old + 1) 4095 else write_count old)
          in em_store ext
               (en\<lparr>ee_last_access := now,
                   ee_raw := pack new_access new_write (randomness old) (ext_state old) (generation old)\<rparr>) em)"

definition em_set_randomness :: "u64 \<Rightarrow> 32 word \<Rightarrow> extent_map \<Rightarrow> extent_map" where
  "em_set_randomness ext rnd em =
     (case em_lookup ext em of
        None \<Rightarrow> em
      | Some en \<Rightarrow>
          let old = ee_raw en
          in em_store ext
               (en\<lparr>ee_raw := pack (access_count old) (write_count old) (rnd AND 0x3F) (ext_state old)
                              (generation old)\<rparr>) em)"

record snapshot_entry =
  se_extent_id :: u64
  se_location :: disk_location
  se_raw_metrics :: metrics
  se_last_access :: u32
  se_used :: u32
  se_live :: u32

definition em_snapshot :: "extent_map \<Rightarrow> snapshot_entry list" where
  "em_snapshot em =
     map (\<lambda>(ext, en). \<lparr>se_extent_id = ext, se_location = ee_loc en, se_raw_metrics = ee_raw en,
            se_last_access = ee_last_access en, se_used = ee_used en, se_live = ee_live en\<rparr>) (em_entries em)"

definition em_refresh_randomness :: "key_map \<Rightarrow> extent_map \<Rightarrow> extent_map" where
  "em_refresh_randomness km em =
     fold (\<lambda>s em. em_set_randomness (se_extent_id s)
             (if \<exists>k \<in> set (km_keys_in_extent (se_extent_id s) km). km_get_consecutive k km = 0 then 63 else 0) em)
       (em_snapshot em) em"

text \<open>The walk from \<open>lower_bound({needed_bytes, 0})\<close>.\<close>

fun find_active :: "extent_map \<Rightarrow> free_list \<Rightarrow> u64" where
  "find_active em [] = UINT64_MAX"
| "find_active em ((fb, ext) # rest) =
     (case em_lookup ext em of
        None \<Rightarrow> find_active em rest
      | Some en \<Rightarrow> if ext_state (ee_raw en) = ACTIVE then ext else find_active em rest)"

definition em_find_extent_with_space :: "tier \<Rightarrow> u32 \<Rightarrow> extent_map \<Rightarrow> u64" where
  "em_find_extent_with_space t needed em =
     find_active em (dropWhile (\<lambda>x. free_entry_less x (needed, 0)) (free_list_of t em))"

section \<open>Packing\<close>

definition em_append_slot :: "u64 \<Rightarrow> u32 \<Rightarrow> extent_map \<Rightarrow> u32 \<times> extent_map" where
  "em_append_slot ext sz em =
     (case em_lookup ext em of
        None \<Rightarrow> (UINT32_MAX, em)
      | Some en \<Rightarrow>
          if ext_state (ee_raw en) \<noteq> ACTIVE then (UINT32_MAX, em)
          else
            let cap = capacity_of (ee_loc en)
            in if add32 (ee_used en) sz > cap then (UINT32_MAX, em)
               else
                 let old_free = sub32 cap (ee_used en);
                     en1 = bump_generation (en\<lparr>ee_used := add32 (ee_used en) sz, ee_live := add32 (ee_live en) sz\<rparr>);
                     new_free = sub32 cap (ee_used en1)
                 in (ee_used en,
                     update_free_list ext (dl_tier (ee_loc en)) old_free new_free
                       (mark_dirty ext (em_store ext en1 em))))"

definition em_mark_dead_slot :: "u64 \<Rightarrow> u32 \<Rightarrow> extent_map \<Rightarrow> extent_map" where
  "em_mark_dead_slot ext len em =
     (case em_lookup ext em of
        None \<Rightarrow> em
      | Some en \<Rightarrow>
          let cap = capacity_of (ee_loc en);
              old_free = sub32 cap (ee_used en);
              en1 = bump_generation
                (en\<lparr>ee_live := (if ee_live en \<ge> len then sub32 (ee_live en) len else 0)\<rparr>);
              new_free = sub32 cap (ee_used en1)
          in update_free_list ext (dl_tier (ee_loc en)) old_free new_free
               (mark_dirty ext (em_store ext en1 em)))"

definition em_get_live_bytes :: "u64 \<Rightarrow> extent_map \<Rightarrow> u32" where
  "em_get_live_bytes ext em = (case em_lookup ext em of None \<Rightarrow> 0 | Some en \<Rightarrow> ee_live en)"

definition em_get_used_bytes :: "u64 \<Rightarrow> extent_map \<Rightarrow> u32" where
  "em_get_used_bytes ext em = (case em_lookup ext em of None \<Rightarrow> 0 | Some en \<Rightarrow> ee_used en)"

section \<open>Allocation\<close>

definition aligned_size :: "u64 \<Rightarrow> u64 \<Rightarrow> u64" where
  "aligned_size sz blk = (let a = round_up_to sz blk in if a = 0 then blk else a)"

text \<open>
  The part \<open>allocate_extent\<close> and \<open>allocate_raw\<close> share: the location, if the allocator of the tier gives
  enough. What it gave is not returned to it when it is not enough.
\<close>

definition alloc_on :: "tier \<Rightarrow> u64 \<Rightarrow> extent_map \<Rightarrow> tiers \<Rightarrow> (disk_location option \<times> tiers) option" where
  "alloc_on t sz em ts =
     (let want = aligned_size sz (em_block_size em)
      in case alloc_of t ts of
           None \<Rightarrow> Some (None, ts)
         | Some a \<Rightarrow>
             do { (got, exts, a1) \<leftarrow> avl_allocate want (em_block_size em) want a;
                  let ts1 = set_alloc t a1 ts;
                  Some (if got < to_i64 want \<or> exts = [] then (None, ts1)
                        else (Some \<lparr>dl_offset = fst (hd exts), dl_length = snd (hd exts), dl_tier = t\<rparr>, ts1)) })"

text \<open>
  \<open>allocate_raw\<close>; the recursion into SLOW ends there. A FAST tier without an allocator does not fall
  back.
\<close>

definition em_allocate_raw :: "tier \<Rightarrow> u64 \<Rightarrow> extent_map \<Rightarrow> tiers \<Rightarrow> (disk_location option \<times> tiers) option" where
  "em_allocate_raw t sz em ts =
     do { (loc, ts1) \<leftarrow> alloc_on t sz em ts;
          if loc = None \<and> t = FAST \<and> alloc_of t ts \<noteq> None then alloc_on SLOW sz em ts1 else Some (loc, ts1) }"

definition em_insert_entry :: "disk_location \<Rightarrow> extent_map \<Rightarrow> tiers \<Rightarrow> (u64 \<times> disk_location) \<times> extent_map \<times> tiers" where
  "em_insert_entry loc em ts =
     (let ext = em_next_id em;
          em1 = em_store ext (entry_new loc) (em\<lparr>em_next_id := add64 ext 1\<rparr>);
          em2 = set_free_list (dl_tier loc)
                  (fl_insert (capacity_of loc, ext) (free_list_of (dl_tier loc) em1)) em1
      in ((ext, loc), em2, write_extent_header ext loc ts))"

definition em_allocate_extent ::
  "tier \<Rightarrow> u64 \<Rightarrow> extent_map \<Rightarrow> tiers \<Rightarrow> ((u64 \<times> disk_location) option \<times> extent_map \<times> tiers) option" where
  "em_allocate_extent t sz em ts =
     do { (loc, ts1) \<leftarrow> em_allocate_raw t sz em ts;
          case loc of
            None \<Rightarrow> Some (None, em, ts1)
          | Some l \<Rightarrow> (let (res, em1, ts2) = em_insert_entry l em ts1 in Some (Some res, em1, ts2)) }"

section \<open>Migration\<close>

record migration_handle =
  mh_extent_id :: u64
  mh_src_loc :: disk_location
  mh_gen_before :: "64 word"

definition set_state :: "32 word \<Rightarrow> 64 word \<Rightarrow> metrics \<Rightarrow> metrics" where
  "set_state st gen raw = pack (access_count raw) (write_count raw) (randomness raw) st gen"

definition em_begin_migration :: "u64 \<Rightarrow> extent_map \<Rightarrow> migration_handle option \<times> extent_map" where
  "em_begin_migration ext em =
     (case em_lookup ext em of
        None \<Rightarrow> (None, em)
      | Some en \<Rightarrow>
          if ext_state (ee_raw en) \<noteq> ACTIVE then (None, em)
          else
            let gen = generation (ee_raw en)
            in (Some \<lparr>mh_extent_id = ext, mh_src_loc = ee_loc en, mh_gen_before = gen\<rparr>,
                em_store ext (en\<lparr>ee_raw := set_state MIGRATING gen (ee_raw en)\<rparr>) em))"

definition em_commit_migration :: "migration_handle \<Rightarrow> disk_location \<Rightarrow> extent_map \<Rightarrow> bool \<times> extent_map" where
  "em_commit_migration h new_loc em =
     (case em_lookup (mh_extent_id h) em of
        None \<Rightarrow> (False, em)
      | Some en \<Rightarrow>
          if generation (ee_raw en) \<noteq> mh_gen_before h then (False, em)
          else
            (True,
             mark_dirty (mh_extent_id h)
               (add_deferred_free (ee_loc en)
                  (em_store (mh_extent_id h)
                     (en\<lparr>ee_loc := new_loc,
                         ee_raw := set_state ACTIVE (mh_gen_before h + 1) (ee_raw en)\<rparr>) em))))"

definition em_abort_migration :: "migration_handle \<Rightarrow> extent_map \<Rightarrow> extent_map" where
  "em_abort_migration h em =
     (case em_lookup (mh_extent_id h) em of
        None \<Rightarrow> em
      | Some en \<Rightarrow>
          if ext_state (ee_raw en) \<noteq> MIGRATING then em
          else em_store (mh_extent_id h)
                 (en\<lparr>ee_raw := set_state ACTIVE (generation (ee_raw en)) (ee_raw en)\<rparr>) em)"

definition em_check_migration :: "migration_handle \<Rightarrow> extent_map \<Rightarrow> bool" where
  "em_check_migration h em =
     (case em_lookup (mh_extent_id h) em of
        None \<Rightarrow> False
      | Some en \<Rightarrow> generation (ee_raw en) = mh_gen_before h)"

definition em_release_source :: "disk_location \<Rightarrow> extent_map \<Rightarrow> extent_map" where
  "em_release_source loc em = add_deferred_free loc em"

section \<open>Lifecycle\<close>

definition em_free :: "u64 \<Rightarrow> extent_map \<Rightarrow> extent_map" where
  "em_free ext em =
     (case em_lookup ext em of
        None \<Rightarrow> em
      | Some en \<Rightarrow>
          let em1 = em\<lparr>em_entries := AList.delete ext (em_entries em)\<rparr>;
              old_free = sub32 (capacity_of (ee_loc en)) (ee_used en);
              t = dl_tier (ee_loc en)
          in add_deferred_free (ee_loc en)
               (set_free_list t (fl_erase (old_free, ext) (free_list_of t em1)) em1))"

definition release_loc :: "disk_location \<Rightarrow> tiers \<Rightarrow> tiers option" where
  "release_loc loc ts =
     (case alloc_of (dl_tier loc) ts of
        None \<Rightarrow> Some ts
      | Some a \<Rightarrow>
          do { b \<leftarrow> avl_release (iset_insert (dl_offset loc) (dl_length loc) iset_empty) a;
               Some (set_alloc (dl_tier loc) b ts) })"

fun deferred_loop :: "u64 \<Rightarrow> (disk_location \<times> u64) list \<Rightarrow> tiers \<Rightarrow> ((disk_location \<times> u64) list \<times> tiers) option" where
  "deferred_loop cur [] ts = Some ([], ts)"
| "deferred_loop cur ((loc, added) # rest) ts =
     (if sub64 cur added \<ge> 2
      then do { ts1 \<leftarrow> release_loc loc ts; deferred_loop cur rest ts1 }
      else do { (kept, ts1) \<leftarrow> deferred_loop cur rest ts; Some ((loc, added) # kept, ts1) })"

definition em_process_deferred_free :: "extent_map \<Rightarrow> tiers \<Rightarrow> (extent_map \<times> tiers) option" where
  "em_process_deferred_free em ts =
     do { (kept, ts1) \<leftarrow> deferred_loop (em_seqno em) (em_deferred em) ts;
          Some (em\<lparr>em_seqno := add64 (em_seqno em) 1, em_deferred := kept\<rparr>, ts1) }"

definition em_clear_deferred_free :: "extent_map \<Rightarrow> extent_map" where
  "em_clear_deferred_free em = em\<lparr>em_deferred := []\<rparr>"

definition em_size :: "extent_map \<Rightarrow> nat" where
  "em_size em = length (em_entries em)"

definition em_io_ref_inc :: "u64 \<Rightarrow> extent_map \<Rightarrow> extent_map" where
  "em_io_ref_inc ext em =
     (case em_lookup ext em of
        None \<Rightarrow> em | Some en \<Rightarrow> em_store ext (en\<lparr>ee_io_refs := add32 (ee_io_refs en) 1\<rparr>) em)"

definition em_io_ref_dec :: "u64 \<Rightarrow> extent_map \<Rightarrow> extent_map" where
  "em_io_ref_dec ext em =
     (case em_lookup ext em of
        None \<Rightarrow> em | Some en \<Rightarrow> em_store ext (en\<lparr>ee_io_refs := sub32 (ee_io_refs en) 1\<rparr>) em)"

section \<open>Recovery helpers and headers\<close>

definition em_create_entry_from_journal :: "u64 \<Rightarrow> disk_location \<Rightarrow> extent_map \<Rightarrow> extent_map" where
  "em_create_entry_from_journal ext loc em =
     (let em1 = em_store ext (entry_new loc) em;
          em2 = (if ext \<ge> em_next_id em1 then em1\<lparr>em_next_id := add64 ext 1\<rparr> else em1)
      in set_free_list (dl_tier loc) (fl_insert (capacity_of loc, ext) (free_list_of (dl_tier loc) em2)) em2)"

definition em_restore_extent_state :: "u64 \<Rightarrow> u32 \<Rightarrow> u32 \<Rightarrow> extent_map \<Rightarrow> extent_map" where
  "em_restore_extent_state ext used live em =
     (case em_lookup ext em of
        None \<Rightarrow> em
      | Some en \<Rightarrow>
          let cap = capacity_of (ee_loc en);
              old_free = sub32 cap (ee_used en);
              new_free = sub32 cap used
          in mark_dirty ext
               (update_free_list ext (dl_tier (ee_loc en)) old_free new_free
                  (em_store ext (en\<lparr>ee_used := used, ee_live := live\<rparr>) em)))"

definition flush_header :: "extent_map \<Rightarrow> u64 \<Rightarrow> tiers \<Rightarrow> tiers" where
  "flush_header em ext ts =
     (case em_lookup ext em of
        None \<Rightarrow> ts
      | Some en \<Rightarrow>
          write_header (ee_loc en)
            (make_header ext (dl_length (ee_loc en)) (ee_used en) (ee_live en) (unat (generation (ee_raw en)))) ts)"

definition em_flush_dirty_headers :: "extent_map \<Rightarrow> tiers \<Rightarrow> extent_map \<times> tiers" where
  "em_flush_dirty_headers em ts = (em\<lparr>em_dirty := []\<rparr>, fold (flush_header em) (em_dirty em) ts)"

end
