(* ===== verification/Extent_Space.thy ===== *)
theory Extent_Space
  imports Extent_Map
begin

text \<open>
  Who owns which bytes. Every byte of the two devices is free in an allocator, or belongs to an
  extent of the map, or to a location that waits for its deferred release, or is used by nobody; it
  is never two of these. The invariant \<open>space_inv\<close> states this, with the bounds of the packing state
  of each extent, and every operation of the extent map keeps it. The devices may fail any call and
  write part of a buffer; a read inside the file that succeeds is complete (\<open>no_short\<close>).
\<close>

section \<open>Ownership\<close>

text \<open>An address is a pair of a side, true for FAST, and an offset.\<close>

definition loc_set :: "disk_location \<Rightarrow> (bool \<times> nat) set" where
  "loc_set l = {dl_tier l = FAST} \<times> arange (dl_offset l) (dl_length l)"

definition side_alloc :: "bool \<Rightarrow> tiers \<Rightarrow> avl option" where
  "side_alloc f ts = (if f then fast_alloc ts else slow_alloc ts)"

definition side_dev :: "bool \<Rightarrow> tiers \<Rightarrow> kdev option" where
  "side_dev f ts = (if f then fast_dev ts else slow_dev ts)"

definition free_space :: "tiers \<Rightarrow> (bool \<times> nat) set" where
  "free_space ts = {(f, x). \<exists>a. side_alloc f ts = Some a \<and> x \<in> avl_free a}"

text \<open>The addresses the engine may use: the FAST device starts with \<open>res\<close> bytes of journal.\<close>

definition usable :: "nat \<Rightarrow> tiers \<Rightarrow> (bool \<times> nat) set" where
  "usable res ts = {(f, x). \<exists>a. side_alloc f ts = Some a \<and> x < device_size a \<and> (f \<longrightarrow> res \<le> x)}"

definition owners :: "extent_map \<Rightarrow> bool \<times> nat \<Rightarrow> nat" where
  "owners em p =
     length (filter (\<lambda>(ext, en). p \<in> loc_set (ee_loc en)) (em_entries em)) +
     length (filter (\<lambda>(l, s). p \<in> loc_set l) (em_deferred em))"

definition loc_ok :: "u64 \<Rightarrow> disk_location \<Rightarrow> bool" where
  "loc_ok blk l \<longleftrightarrow> blk dvd dl_offset l \<and> blk dvd dl_length l \<and> 0 < dl_length l \<and> dl_length l \<le> 2 ^ 31"

definition packing_ok :: "extent_entry \<Rightarrow> bool" where
  "packing_ok en \<longleftrightarrow> ee_live en \<le> ee_used en \<and> ee_used en + HEADER_SIZE \<le> dl_length (ee_loc en)"

definition block_ok :: "u64 \<Rightarrow> bool" where
  "block_ok blk \<longleftrightarrow> isp2 blk \<and> HEADER_SIZE \<le> blk \<and> blk \<le> 2 ^ 30"

definition side_ok :: "u64 \<Rightarrow> tiers \<Rightarrow> bool \<Rightarrow> bool" where
  "side_ok blk ts f \<longleftrightarrow>
     (\<exists>a d. side_alloc f ts = Some a \<and> side_dev f ts = Some d \<and> avl_inv a \<and> block_size a = blk \<and>
        whole_units blk (avl_free a) \<and> device_size a \<le> file_len d \<and> no_short d)"

definition space_inv :: "nat \<Rightarrow> extent_map \<Rightarrow> tiers \<Rightarrow> bool" where
  "space_inv res em ts \<longleftrightarrow>
     block_ok (em_block_size em) \<and> (\<forall>f. side_ok (em_block_size em) ts f) \<and>
     distinct (al_keys (em_entries em)) \<and>
     (\<forall>(ext, en) \<in> set (em_entries em). ext < em_next_id em \<and> packing_ok en \<and> loc_ok (em_block_size em) (ee_loc en)) \<and>
     (\<forall>(l, s) \<in> set (em_deferred em). loc_ok (em_block_size em) l) \<and>
     (\<forall>p. owners em p + of_bool (p \<in> free_space ts) \<le> of_bool (p \<in> usable res ts))"

text \<open>The part of the extent map the invariant is about.\<close>

definition em_core :: "extent_map \<Rightarrow> u64 \<times> (u64 \<times> extent_entry) list \<times> u64 \<times> (disk_location \<times> u64) list" where
  "em_core em = (em_block_size em, em_entries em, em_next_id em, em_deferred em)"

lemma em_core_simps [simp]:
  "em_core (set_free_list t l em) = em_core em"
  "em_core (mark_dirty e em) = em_core em"
  "em_core (update_free_list e t x y em) = em_core em"
  "em_core (em\<lparr>em_dirty := ds\<rparr>) = em_core em"
  by (simp_all add: em_core_def set_free_list_def mark_dirty_def update_free_list_def)

lemma em_core_cong:
  assumes "em_core em = em_core em'"
  shows "em_block_size em = em_block_size em'" "em_entries em = em_entries em'" "em_next_id em = em_next_id em'"
    "em_deferred em = em_deferred em'" "em_lookup ext em = em_lookup ext em'" "space_inv res em ts = space_inv res em' ts"
  using assms by (simp_all add: em_core_def em_lookup_def space_inv_def owners_def)

section \<open>Counting in association lists\<close>

lemma filter_update_present:
  "distinct (al_keys xs) \<Longrightarrow> map_of xs k = Some v \<Longrightarrow>
   length (filter P (AList.update k w xs)) + of_bool (P (k, v)) = length (filter P xs) + of_bool (P (k, w))"
  by (induction xs) (auto split: if_splits simp del: map_of_eq_Some_iff)

lemma filter_update_absent:
  "map_of xs k = None \<Longrightarrow> length (filter P (AList.update k w xs)) = length (filter P xs) + of_bool (P (k, w))"
  by (induction xs) (auto split: if_splits simp del: map_of_eq_None_iff)

lemma delete_absent: "map_of xs k = None \<Longrightarrow> AList.delete k xs = xs"
  by (induction xs) (auto split: if_splits simp: AList.delete_eq simp del: map_of_eq_None_iff)

lemma filter_delete_present:
  "distinct (al_keys xs) \<Longrightarrow> map_of xs k = Some v \<Longrightarrow>
   length (filter P (AList.delete k xs)) + of_bool (P (k, v)) = length (filter P xs)"
proof (induction xs)
  case (Cons x xs)
  show ?case
  proof (cases "fst x = k")
    case True
    then have "map_of xs k = None" and "snd x = v" using Cons.prems by (auto simp: map_of_eq_None_iff)
    with True show ?thesis by (cases x) (simp add: delete_absent)
  next
    case False
    with Cons show ?thesis by (cases x) (auto simp del: map_of_eq_Some_iff)
  qed
qed simp

lemma set_al_update: "distinct (al_keys xs) \<Longrightarrow> set (AList.update k v xs) \<subseteq> insert (k, v) (set xs)"
  by (induction xs) auto

lemma set_al_delete: "set (AList.delete k xs) \<subseteq> set xs"
  by (simp add: AList.delete_eq)

text \<open>Two different extents that contain the same address count twice.\<close>

lemma filter_two:
  assumes "distinct (al_keys xs)" and "map_of xs k = Some v" and "map_of xs l = Some w" and "k \<noteq> l"
    and "P (k, v)" and "P (l, w)"
  shows "2 \<le> length (filter P xs)"
proof -
  have "{(k, v), (l, w)} \<subseteq> set (filter P xs)" using assms by (auto dest: map_of_SomeD)
  then have "card {(k, v), (l, w)} \<le> card (set (filter P xs))" by (intro card_mono) auto
  also have "\<dots> \<le> length (filter P xs)" by (rule card_length)
  finally show ?thesis using assms(4) by simp
qed

section \<open>Consequences of the invariant\<close>

lemma em_lookup_store [simp]: "em_lookup e (em_store ext en em) = (if e = ext then Some en else em_lookup e em)"
  by (simp add: em_lookup_def em_store_def map_of_update)

lemma space_inv_entry:
  assumes "space_inv res em ts" and "em_lookup ext em = Some en"
  shows "ext < em_next_id em" and "packing_ok en" and "loc_ok (em_block_size em) (ee_loc en)"
    and "(ext, en) \<in> set (em_entries em)"
proof -
  show "(ext, en) \<in> set (em_entries em)" using assms(2) by (simp add: em_lookup_def map_of_SomeD)
  with assms(1) show "ext < em_next_id em" "packing_ok en" "loc_ok (em_block_size em) (ee_loc en)"
    unfolding space_inv_def by auto
qed

lemma owners_entry:
  "em_lookup ext em = Some en \<Longrightarrow> p \<in> loc_set (ee_loc en) \<Longrightarrow> 1 \<le> owners em p"
  unfolding owners_def em_lookup_def
  by (auto dest!: map_of_SomeD simp: Suc_le_eq filter_empty_conv intro!: trans_less_add1)

lemma space_ledger:
  "space_inv res em ts \<Longrightarrow> owners em p + of_bool (p \<in> free_space ts) \<le> of_bool (p \<in> usable res ts)"
  unfolding space_inv_def by blast

lemma owners_le_1:
  assumes "space_inv res em ts"
  shows "owners em p \<le> 1"
  using space_ledger [OF assms, of p] by (simp add: of_bool_def split: if_splits)

lemma space_inv_entry_owned:
  assumes "space_inv res em ts" and "em_lookup ext em = Some en"
  shows "loc_set (ee_loc en) \<subseteq> usable res ts" and "loc_set (ee_loc en) \<inter> free_space ts = {}"
proof -
  have "of_bool (p \<in> free_space ts) + 1 \<le> (of_bool (p \<in> usable res ts) :: nat)" if "p \<in> loc_set (ee_loc en)" for p
    using assms(1) owners_entry [OF assms(2) that] unfolding space_inv_def by (metis add.commute add_le_mono1 le_trans)
  then show "loc_set (ee_loc en) \<subseteq> usable res ts" "loc_set (ee_loc en) \<inter> free_space ts = {}"
    by (fastforce simp: of_bool_def split: if_splits)+
qed

lemma space_inv_entries_disjoint:
  assumes inv: "space_inv res em ts" and a: "em_lookup e1 em = Some en1" and b: "em_lookup e2 em = Some en2"
    and ne: "e1 \<noteq> e2"
  shows "loc_set (ee_loc en1) \<inter> loc_set (ee_loc en2) = {}"
proof -
  have "owners em p \<le> 1" for p
    by (rule owners_le_1 [OF inv])
  moreover have "2 \<le> owners em p" if "p \<in> loc_set (ee_loc en1)" "p \<in> loc_set (ee_loc en2)" for p
    unfolding owners_def using inv a b ne that
    by (intro trans_le_add1 filter_two [of _ e1 en1 e2 en2]) (auto simp: space_inv_def em_lookup_def)
  ultimately have "p \<notin> loc_set (ee_loc en2)" if "p \<in> loc_set (ee_loc en1)" for p
    using that by (meson le_trans one_less_numeral_iff semiring_norm(76) not_le)
  then show ?thesis by blast
qed

lemma packing_ok_bounds:
  assumes "packing_ok en" and "loc_ok blk (ee_loc en)"
  shows "capacity_of (ee_loc en) = dl_length (ee_loc en) - HEADER_SIZE" and "ee_used en \<le> capacity_of (ee_loc en)"
    and "capacity_of (ee_loc en) < 2 ^ 31" and "ee_live en < 2 ^ 31"
proof -
  show c: "capacity_of (ee_loc en) = dl_length (ee_loc en) - HEADER_SIZE"
    using assms unfolding capacity_of_def packing_ok_def loc_ok_def by (intro sub32_exact) auto
  show "ee_used en \<le> capacity_of (ee_loc en)" "capacity_of (ee_loc en) < 2 ^ 31" "ee_live en < 2 ^ 31"
    unfolding c using assms by (auto simp: packing_ok_def loc_ok_def HEADER_SIZE_def)
qed

section \<open>Operations on entries\<close>

lemma space_inv_store:
  assumes inv: "space_inv res em ts" and old: "em_lookup ext em = Some en"
    and loc: "ee_loc en' = ee_loc en" and pack: "packing_ok en'"
  shows "space_inv res (em_store ext en' em) ts"
proof -
  have d: "distinct (al_keys (em_entries em))" using inv by (simp add: space_inv_def)
  have "owners (em_store ext en' em) p = owners em p" for p
    using filter_update_present [OF d old [unfolded em_lookup_def], of "\<lambda>(ext, en). p \<in> loc_set (ee_loc en)" en'] loc
    by (simp add: owners_def em_store_def)
  moreover have "set (em_entries (em_store ext en' em)) \<subseteq> insert (ext, en') (set (em_entries em))"
    using set_al_update [OF d] by (simp add: em_store_def)
  ultimately show ?thesis
    using inv space_inv_entry [OF inv old] loc pack distinct_al_update [OF d]
    unfolding space_inv_def by (auto simp: em_store_def)
qed

lemma space_inv_same_packing:
  assumes "space_inv res em ts" and "em_lookup ext em = Some en"
    and "ee_loc en' = ee_loc en" and "ee_used en' = ee_used en" and "ee_live en' = ee_live en"
  shows "space_inv res (em_store ext en' em) ts"
  using space_inv_store [OF assms(1,2,3)] space_inv_entry(2) [OF assms(1,2)] assms(3-5)
  by (simp add: packing_ok_def)

text \<open>
  What an operation does to the entries, as far as the packing state is concerned: location, used
  and live bytes of every extent.
\<close>

definition em_view :: "extent_map \<Rightarrow> u64 \<rightharpoonup> disk_location \<times> u32 \<times> u32" where
  "em_view em ext = map_option (\<lambda>en. (ee_loc en, ee_used en, ee_live en)) (em_lookup ext em)"

lemma em_view_core: "em_core em = em_core em' \<Longrightarrow> em_view em = em_view em'"
  by (rule ext) (simp add: em_view_def em_lookup_def em_core_def)

lemma em_view_store: "em_view (em_store ext en em) = (em_view em)(ext \<mapsto> (ee_loc en, ee_used en, ee_live en))"
  by (rule ext) (simp add: em_view_def)

lemma bump_generation_simps [simp]:
  "ee_loc (bump_generation en) = ee_loc en" "ee_used (bump_generation en) = ee_used en"
  "ee_live (bump_generation en) = ee_live en"
  by (simp_all add: bump_generation_def Let_def)

definition em_same :: "extent_map \<Rightarrow> extent_map \<Rightarrow> bool" where
  "em_same em em' \<longleftrightarrow> em_block_size em' = em_block_size em \<and> em_next_id em' = em_next_id em \<and>
     em_deferred em' = em_deferred em"

lemma em_same_store: "em_same em (em_store ext en em)"
  by (simp add: em_same_def em_store_def)

lemma em_same_core: "em_core em' = em_core em'' \<Longrightarrow> em_same em em' \<longleftrightarrow> em_same em em''"
  by (simp add: em_same_def em_core_def)

text \<open>Operations that only touch metrics or reference counts.\<close>

definition quiet :: "(extent_map \<Rightarrow> extent_map) \<Rightarrow> bool" where
  "quiet f \<longleftrightarrow> (\<forall>em. em_same em (f em) \<and> em_view (f em) = em_view em \<and>
     (\<forall>res ts. space_inv res em ts \<longrightarrow> space_inv res (f em) ts))"

lemma quiet_update:
  assumes "\<And>en. ee_loc (g en) = ee_loc en \<and> ee_used (g en) = ee_used en \<and> ee_live (g en) = ee_live en"
  shows "quiet (\<lambda>em. case em_lookup ext em of None \<Rightarrow> em | Some en \<Rightarrow> em_store ext (g en) em)"
proof -
  have "em_same em (em_store ext (g en) em)" and "em_view (em_store ext (g en) em) = em_view em"
    and "space_inv res em ts \<Longrightarrow> space_inv res (em_store ext (g en) em) ts"
    if "em_lookup ext em = Some en" for em en res ts
  proof -
    show "em_same em (em_store ext (g en) em)" by (rule em_same_store)
    show "em_view (em_store ext (g en) em) = em_view em"
      using that assms [of en] by (simp add: em_view_store fun_eq_iff) (simp add: em_view_def)
    show "space_inv res em ts \<Longrightarrow> space_inv res (em_store ext (g en) em) ts"
      using space_inv_same_packing [OF _ that] assms [of en] by blast
  qed
  then show ?thesis by (auto simp: quiet_def em_same_def split: option.split)
qed

lemma quiet_ops: "quiet (em_record_io ext op now)" "quiet (em_io_ref_inc ext)" "quiet (em_io_ref_dec ext)"
  "quiet (em_set_randomness ext rnd)"
proof -
  show "quiet (em_record_io ext op now)" "quiet (em_set_randomness ext rnd)"
    unfolding em_record_io_def em_set_randomness_def Let_def by (rule quiet_update, simp)+
  show "quiet (em_io_ref_inc ext)" "quiet (em_io_ref_dec ext)"
    unfolding em_io_ref_inc_def em_io_ref_dec_def by (rule quiet_update, simp)+
qed

text \<open>Reserving a slot, and marking one dead.\<close>

definition slot_reserved ::
  "u64 \<Rightarrow> u32 \<Rightarrow> u32 \<Rightarrow> extent_map \<Rightarrow> extent_map \<Rightarrow> bool" where
  "slot_reserved ext sz off em em' \<longleftrightarrow>
     (\<exists>loc live. em_view em ext = Some (loc, off, live) \<and> off + sz + HEADER_SIZE \<le> dl_length loc \<and>
        em_view em' = (em_view em)(ext \<mapsto> (loc, off + sz, live + sz)))"

lemma em_append_slot_ok:
  assumes inv: "space_inv res em ts" and run: "em_append_slot ext sz em = (off, em')" and sz: "sz < 2 ^ 31"
  shows "space_inv res em' ts \<and> em_same em em' \<and>
    (if off = UINT32_MAX then em' = em else slot_reserved ext sz off em em')"
proof (cases "off = UINT32_MAX \<and> em' = em")
  case True
  then show ?thesis using inv by (simp add: em_same_def)
next
  case False
  define ok where "ok en \<longleftrightarrow> ext_state (ee_raw en) = ACTIVE \<and> add32 (ee_used en) sz \<le> capacity_of (ee_loc en)" for en :: extent_entry
  obtain en where en: "em_lookup ext em = Some en" and "ok en"
    using run False by (auto simp: em_append_slot_def Let_def ok_def split: option.splits if_splits)
  define en1 where "en1 = bump_generation (en\<lparr>ee_used := add32 (ee_used en) sz, ee_live := add32 (ee_live en) sz\<rparr>)"
  note b = space_inv_entry [OF inv en]
  note c = packing_ok_bounds [OF b(2,3)]
  have live: "ee_live en \<le> ee_used en" using b(2) by (simp add: packing_ok_def)
  have ex: "add32 (ee_used en) sz = ee_used en + sz" "add32 (ee_live en) sz = ee_live en + sz"
    using c(2-4) sz by (simp_all add: add32_exact)
  have fit: "ee_used en + sz + HEADER_SIZE \<le> dl_length (ee_loc en)"
    using \<open>ok en\<close> ex c(1) b(2) by (auto simp: ok_def packing_ok_def)
  have off: "off = ee_used en" and core: "em_core em' = em_core (em_store ext en1 em)"
    using run en \<open>ok en\<close> by (auto simp: em_append_slot_def ok_def en1_def Let_def)
  have "off \<noteq> UINT32_MAX" using off c by (simp add: UINT32_MAX_def)
  moreover have "packing_ok en1" using live fit by (simp add: packing_ok_def en1_def ex)
  then have "space_inv res em' ts"
    using space_inv_store [OF inv en, of en1] em_core_cong(6) [OF core] by (simp add: en1_def)
  moreover have "slot_reserved ext sz off em em'"
    using fit en unfolding slot_reserved_def em_view_core [OF core] em_view_store off
    by (simp add: en1_def ex em_view_def [of em ext])
  moreover have "em_same em em'" using em_same_store em_same_core [OF core] by blast
  ultimately show ?thesis by simp
qed

lemma em_mark_dead_slot_ok:
  assumes inv: "space_inv res em ts"
  shows "space_inv res (em_mark_dead_slot ext len em) ts \<and> em_same em (em_mark_dead_slot ext len em) \<and>
    em_view (em_mark_dead_slot ext len em) =
      (case em_view em ext of None \<Rightarrow> em_view em | Some (loc, used, live) \<Rightarrow> (em_view em)(ext \<mapsto> (loc, used, live - len)))"
proof (cases "em_lookup ext em")
  case None
  then show ?thesis using inv by (simp add: em_mark_dead_slot_def em_same_def em_view_def)
next
  case (Some en)
  define en1 where "en1 = bump_generation (en\<lparr>ee_live := (if ee_live en \<ge> len then sub32 (ee_live en) len else 0)\<rparr>)"
  note b = space_inv_entry [OF inv Some]
  have live: "ee_live en1 = ee_live en - len"
    using packing_ok_bounds(4) [OF b(2,3)] by (simp add: en1_def sub32_exact)
  have core: "em_core (em_mark_dead_slot ext len em) = em_core (em_store ext en1 em)"
    using Some by (simp add: em_mark_dead_slot_def en1_def Let_def)
  have "packing_ok en1" using b(2) live by (auto simp: packing_ok_def en1_def)
  then have "space_inv res (em_mark_dead_slot ext len em) ts"
    using space_inv_store [OF inv Some, of en1] em_core_cong(6) [OF core] by (simp add: en1_def)
  moreover have "em_view (em_mark_dead_slot ext len em) = (em_view em)(ext \<mapsto> (ee_loc en, ee_used en, ee_live en - len))"
    unfolding em_view_core [OF core] em_view_store live by (simp add: en1_def)
  moreover have "em_view em ext = Some (ee_loc en, ee_used en, ee_live en)" using Some by (simp add: em_view_def)
  ultimately show ?thesis
    using em_same_store em_same_core [OF core] by auto
qed

text \<open>Freeing an extent hands its location to the deferred queue.\<close>

lemma em_free_ok:
  assumes inv: "space_inv res em ts"
  shows "space_inv res (em_free ext em) ts \<and> em_block_size (em_free ext em) = em_block_size em \<and>
    em_next_id (em_free ext em) = em_next_id em \<and> em_view (em_free ext em) = (em_view em)(ext := None)"
proof (cases "em_lookup ext em")
  case None
  then show ?thesis using inv by (auto simp: em_free_def em_view_def fun_eq_iff)
next
  case (Some en)
  define em1 where "em1 = em\<lparr>em_entries := AList.delete ext (em_entries em), em_deferred := em_deferred em @ [(ee_loc en, em_seqno em)]\<rparr>"
  have core: "em_core (em_free ext em) = em_core em1"
    using Some by (simp add: em_free_def add_deferred_free_def set_free_list_def em_core_def em1_def Let_def)
  have d: "distinct (al_keys (em_entries em))" using inv by (simp add: space_inv_def)
  have "owners em1 p = owners em p" for p
    using filter_delete_present [OF d Some [unfolded em_lookup_def], of "\<lambda>(ext, en). p \<in> loc_set (ee_loc en)"]
    by (auto simp: owners_def em1_def)
  then have "space_inv res em1 ts"
    using inv space_inv_entry [OF inv Some] distinct_al_delete [OF d] set_al_delete [of ext "em_entries em"]
    unfolding space_inv_def by (auto simp: em1_def)
  moreover have "em_view em1 = (em_view em)(ext := None)"
    by (rule HOL.ext) (simp add: em_view_def em_lookup_def em1_def map_of_delete)
  ultimately show ?thesis
    using em_core_cong(6) [OF core] em_view_core [OF core] core by (simp add: em_core_def em1_def)
qed

section \<open>The devices\<close>

text \<open>All bytes of the two devices outside \<open>S\<close> keep their values.\<close>

definition dev_agree :: "(bool \<times> nat) set \<Rightarrow> tiers \<Rightarrow> tiers \<Rightarrow> bool" where
  "dev_agree S ts ts' \<longleftrightarrow>
     (\<forall>f. case side_dev f ts of
            None \<Rightarrow> side_dev f ts' = None
          | Some d \<Rightarrow> \<exists>e. side_dev f ts' = Some e \<and> dev_frame d e \<and> (\<forall>x. (f, x) \<notin> S \<longrightarrow> contents e x = contents d x))"

definition same_allocs :: "tiers \<Rightarrow> tiers \<Rightarrow> bool" where
  "same_allocs ts ts' \<longleftrightarrow> (\<forall>f. side_alloc f ts' = side_alloc f ts)"

lemma dev_agree_refl [simp]: "dev_agree S ts ts"
  by (auto simp: dev_agree_def split: option.split)

lemma dev_agree_mono: "dev_agree S ts ts' \<Longrightarrow> S \<subseteq> T \<Longrightarrow> dev_agree T ts ts'"
  unfolding dev_agree_def by (fastforce split: option.splits)

lemma dev_agree_trans:
  assumes "dev_agree S ts ts'" and "dev_agree S ts' ts''"
  shows "dev_agree S ts ts''"
  unfolding dev_agree_def
proof (intro allI)
  fix f
  show "case side_dev f ts of None \<Rightarrow> side_dev f ts'' = None
      | Some d \<Rightarrow> \<exists>e. side_dev f ts'' = Some e \<and> dev_frame d e \<and> (\<forall>x. (f, x) \<notin> S \<longrightarrow> contents e x = contents d x)"
    using assms [unfolded dev_agree_def, THEN spec, of f] by (auto split: option.splits intro: dev_frame_trans)
qed

lemma dev_agree_Some:
  assumes "dev_agree S ts ts'" and "side_dev f ts = Some d"
  obtains e where "side_dev f ts' = Some e" and "dev_frame d e" and "\<And>x. (f, x) \<notin> S \<Longrightarrow> contents e x = contents d x"
  using assms(1) [unfolded dev_agree_def, THEN spec, of f] assms(2) that by auto

lemma dev_agree_slice:
  assumes "dev_agree S ts ts'" and "side_dev f ts = Some d" and "side_dev f ts' = Some e"
    and "({f} \<times> arange off len) \<inter> S = {}"
  shows "slice (contents e) off len = slice (contents d) off len"
proof (rule slice_cong)
  fix x assume "off \<le> x" "x < off + len"
  then have "(f, x) \<in> {f} \<times> arange off len" by simp
  then have "(f, x) \<notin> S" using assms(4) by blast
  moreover have "\<forall>x. (f, x) \<notin> S \<longrightarrow> contents e x = contents d x"
    using assms(1) [unfolded dev_agree_def, THEN spec, of f] assms(2,3) by simp
  ultimately show "contents e x = contents d x" by blast
qed

lemma side_simps [simp]:
  "side_alloc f (set_alloc t a ts) = (if f = (t = FAST) then Some a else side_alloc f ts)"
  "side_dev f (set_alloc t a ts) = side_dev f ts"
  "side_dev f (set_dev t d ts) = (if f = (t = FAST) then Some d else side_dev f ts)"
  "side_alloc f (set_dev t d ts) = side_alloc f ts"
  by (auto simp: side_alloc_def side_dev_def set_alloc_def set_dev_def)

lemma alloc_of_side: "alloc_of t ts = side_alloc (t = FAST) ts"
  by (simp add: alloc_of_def side_alloc_def)

lemma dev_of_side: "dev_of t ts = side_dev (t = FAST) ts"
  by (simp add: dev_of_def side_dev_def)

lemma space_inv_dev:
  assumes "space_inv res em ts" and "dev_agree S ts ts'" and "same_allocs ts ts'"
  shows "space_inv res em ts'"
proof -
  have "free_space ts' = free_space ts" "usable res ts' = usable res ts"
    using assms(3) by (simp_all add: free_space_def usable_def same_allocs_def)
  moreover have "side_ok (em_block_size em) ts' f" for f
  proof -
    have "side_ok (em_block_size em) ts f" using assms(1) by (simp add: space_inv_def)
    then obtain a d where "side_alloc f ts = Some a" "side_dev f ts = Some d"
      and a: "avl_inv a" "block_size a = em_block_size em" "whole_units (em_block_size em) (avl_free a)" "device_size a \<le> file_len d"
      and ns: "no_short d"
      by (auto simp: side_ok_def)
    moreover obtain e where "side_dev f ts' = Some e" "dev_frame d e"
      using dev_agree_Some [OF assms(2) \<open>side_dev f ts = Some d\<close>] by metis
    ultimately show ?thesis
      using assms(3) no_short_frame [OF _ ns] unfolding side_ok_def same_allocs_def dev_frame_def by (metis le_trans)
  qed
  ultimately show ?thesis using assms(1) by (simp add: space_inv_def)
qed

text \<open>A single device write, whatever its outcome.\<close>

lemma kd_write_outside:
  assumes "kd_write off [bs] buffered d = (r, e)" and "length bs < 2 ^ 31" and "off + length bs < 2 ^ 64"
    and "x \<notin> arange off (length bs)"
  shows "contents e x = contents d x"
proof -
  have "\<exists>m. contents e = patch off (take m bs) (contents d)"
    using kd_write_spec [OF assms(1)] assms(2,3) by (cases "r < 0") (auto intro: exI [of _ "length bs"])
  then obtain m where "contents e = patch off (take m bs) (contents d)" ..
  then show ?thesis using assms(4) by (auto simp: patch_def)
qed

lemma dev_agree_write:
  assumes "side_dev (t = FAST) ts = Some d" and "kd_write off [bs] buffered d = (r, e)"
    and "length bs < 2 ^ 31" and "off + length bs < 2 ^ 64" and "{t = FAST} \<times> arange off (length bs) \<subseteq> S"
  shows "dev_agree S ts (set_dev t e ts)" and "same_allocs ts (set_dev t e ts)"
proof -
  have "dev_frame d e" using kd_write_spec [OF assms(2)] assms(3,4) by simp
  moreover have "contents e x = contents d x" if "(t = FAST, x) \<notin> S" for x
    using kd_write_outside [OF assms(2-4)] assms(5) that by blast
  ultimately show "dev_agree S ts (set_dev t e ts)"
    using assms(1) by (auto simp: dev_agree_def split: option.split)
  show "same_allocs ts (set_dev t e ts)" by (simp add: same_allocs_def)
qed

lemma write_header_ok:
  assumes "dl_offset loc + HEADER_SIZE < 2 ^ 64" and "{dl_tier loc = FAST} \<times> arange (dl_offset loc) HEADER_SIZE \<subseteq> S"
  shows "dev_agree S ts (write_header loc hdr ts) \<and> same_allocs ts (write_header loc hdr ts)"
proof (cases "side_dev (dl_tier loc = FAST) ts")
  case None
  then show ?thesis by (simp add: write_header_def dev_of_side same_allocs_def)
next
  case (Some d)
  obtain r e where w: "kd_write (dl_offset loc) [header_bytes hdr] False d = (r, e)" by fastforce
  have "write_header loc hdr ts = set_dev (dl_tier loc) e ts"
    using Some w by (simp add: write_header_def dev_of_side)
  then show ?thesis
    using dev_agree_write [OF Some w, of S] assms by (simp add: HEADER_SIZE_def)
qed

section \<open>Allocation\<close>

lemma block_ok_less: "block_ok blk \<Longrightarrow> 0 < blk \<and> blk < 2 ^ 32"
  by (auto simp: block_ok_def HEADER_SIZE_def)

lemma aligned_size_props:
  assumes "block_ok blk" and "sz \<le> 2 ^ 30"
  shows "0 < aligned_size sz blk" and "aligned_size sz blk \<le> 2 ^ 31" and "blk dvd aligned_size sz blk" and "sz \<le> aligned_size sz blk"
proof -
  have b: "0 < blk" "blk \<le> 2 ^ 30" using assms(1) block_ok_less by (auto simp: block_ok_def)
  have r: "round_up_to sz blk = (sz + (blk - 1)) div blk * blk"
    using assms b by (intro round_up_to_eq) auto
  have "round_up_to sz blk \<le> sz + (blk - 1)" "blk dvd round_up_to sz blk" unfolding r by simp_all
  moreover have "sz \<le> round_up_to sz blk" unfolding r using ceil_mult_bounds [of blk sz] b(1) by simp
  ultimately show "0 < aligned_size sz blk" "aligned_size sz blk \<le> 2 ^ 31" "blk dvd aligned_size sz blk" "sz \<le> aligned_size sz blk"
    using b assms(2) unfolding aligned_size_def Let_def by (auto simp: split: if_splits)
qed

text \<open>Extents taken from free space that consists of whole blocks are whole blocks themselves.\<close>

lemma ext_disjoint_member:
  "ext_disjoint xs \<Longrightarrow> (o1, l1) \<in> set xs \<Longrightarrow> (o2, l2) \<in> set xs \<Longrightarrow> (o1, l1) \<noteq> (o2, l2) \<Longrightarrow>
   arange o1 l1 \<inter> arange o2 l2 = {}"
proof (induction xs)
  case (Cons x xs)
  have "arange st l \<subseteq> ext_set xs" if "(st, l) \<in> set xs" for st l
    using that by (auto simp: ext_set_def)
  then show ?case using Cons by (cases x) auto
qed simp

lemma allocated_whole_length:
  assumes al: "allocated_from blk xs a b" and wa: "whole_units blk (avl_free a)" and wb: "whole_units blk (avl_free b)"
    and mem: "(off, len) \<in> set xs" and blk: "0 < blk"
  shows "blk dvd len"
proof (rule ccontr)
  assume nd: "\<not> blk dvd len"
  have x: "\<forall>(o2, l2) \<in> set xs. blk dvd o2" "ext_set xs \<subseteq> avl_free a" "avl_free b = avl_free a - ext_set xs"
    "ext_disjoint xs" and off: "blk dvd off"
    using al mem by (auto simp: allocated_from_def)
  define q r where "q = off div blk + len div blk" and "r = len mod blk"
  have r: "0 < r" "r < blk" using nd blk by (auto simp: r_def dvd_eq_mod_eq_0)
  have e: "off + len = blk * q + r"
    using off by (simp add: q_def r_def algebra_simps dvd_div_mult_self)
  define y where "y = blk * q"
  have same: "y div blk = (off + len) div blk" using r blk by (simp add: y_def e)
  have yin: "off \<le> y" "y < off + len" using r e off by (auto simp: y_def q_def algebra_simps dvd_mult_div_cancel)
  have y: "y \<in> ext_set xs" using mem yin by (force simp: ext_set_def)
  have "off + len \<notin> ext_set xs"
  proof
    assume "off + len \<in> ext_set xs"
    then obtain o2 l2 where m: "(o2, l2) \<in> set xs" "o2 \<le> off + len" "off + len < o2 + l2"
      by (auto simp: ext_set_def)
    then have "blk dvd o2" using x(1) by blast
    then obtain c where c: "o2 = blk * c" by auto
    have "o2 div blk \<le> (off + len) div blk" using m(2) by (rule div_le_mono)
    then have "c \<le> q" unfolding c e using r blk by simp
    then have "o2 \<le> y" unfolding c y_def by simp
    moreover have "y < o2 + l2" using m(3) yin(2) by simp
    ultimately have "y \<in> arange o2 l2 \<inter> arange off len" using yin by simp
    moreover have "(o2, l2) \<noteq> (off, len)" using m(3) by auto
    note ext_disjoint_member [OF x(4) m(1) mem this]
    ultimately show False by simp
  qed
  moreover have "off + len \<in> avl_free a"
    by (rule wa [unfolded whole_units_def, rule_format, OF same]) (use y x(2) in blast)
  ultimately have "off + len \<in> avl_free b" using x(3) by blast
  then have "y \<in> avl_free b" by (rule wb [unfolded whole_units_def, rule_format, OF same [symmetric]])
  then show False using y x(3) by blast
qed

text \<open>A location that nobody owns and that no allocator holds free.\<close>

definition unowned :: "nat \<Rightarrow> disk_location \<Rightarrow> extent_map \<Rightarrow> tiers \<Rightarrow> bool" where
  "unowned res loc em ts \<longleftrightarrow>
     loc_ok (em_block_size em) loc \<and>
     (\<forall>p \<in> loc_set loc. owners em p = 0 \<and> p \<notin> free_space ts \<and> p \<in> usable res ts)"

lemma side_okE:
  assumes "space_inv res em ts"
  obtains a d where "side_alloc f ts = Some a" and "side_dev f ts = Some d" and "avl_inv a"
    and "block_size a = em_block_size em" and "whole_units (em_block_size em) (avl_free a)" and "device_size a \<le> file_len d"
    and "no_short d"
proof -
  have "side_ok (em_block_size em) ts f" using assms by (simp add: space_inv_def)
  then show ?thesis using that by (auto simp: side_ok_def)
qed

lemma free_unowned:
  assumes "space_inv res em ts" and "p \<in> free_space ts"
  shows "owners em p = 0 \<and> p \<in> usable res ts"
  using space_ledger [OF assms(1), of p] assms(2) by (simp add: of_bool_def split: if_splits)

text \<open>Replacing the allocator of a side by one with less free space.\<close>

lemma space_inv_shrink:
  assumes inv: "space_inv res em ts" and a: "side_alloc (t = FAST) ts = Some a"
    and b: "avl_inv b" "avl_same a b" "avl_free b \<subseteq> avl_free a" "whole_units (em_block_size em) (avl_free b)"
  shows "space_inv res em (set_alloc t b ts)" and "free_space (set_alloc t b ts) \<subseteq> free_space ts"
    and "usable res (set_alloc t b ts) = usable res ts"
proof -
  show fr: "free_space (set_alloc t b ts) \<subseteq> free_space ts"
    using a b(3) by (auto simp: free_space_def split: if_splits)
  show us: "usable res (set_alloc t b ts) = usable res ts"
    using a b(2) by (auto simp: usable_def avl_same_def split: if_splits)
  have so: "side_ok (em_block_size em) (set_alloc t b ts) f" for f
    by (rule side_okE [OF inv, of f]) (use a b in \<open>auto simp: side_ok_def avl_same_def\<close>)
  have "of_bool (p \<in> free_space (set_alloc t b ts)) \<le> (of_bool (p \<in> free_space ts) :: nat)" for p
    using fr by (auto simp: of_bool_def)
  then have "owners em p + of_bool (p \<in> free_space (set_alloc t b ts)) \<le> of_bool (p \<in> usable res ts)" for p
    using space_ledger [OF inv, of p] by (meson add_left_mono le_trans)
  then show "space_inv res em (set_alloc t b ts)"
    using inv so unfolding space_inv_def us by blast
qed

lemma alloc_on_ok:
  assumes inv: "space_inv res em ts" and sz: "sz \<le> 2 ^ 30"
  shows "\<exists>r ts'. alloc_on t sz em ts = Some (r, ts') \<and> space_inv res em ts' \<and> dev_agree {} ts ts' \<and>
    usable res ts' = usable res ts \<and>
    (\<forall>loc. r = Some loc \<longrightarrow> dl_tier loc = t \<and> unowned res loc em ts' \<and> loc_set loc \<subseteq> free_space ts)"
proof -
  define blk where "blk = em_block_size em"
  have blk: "block_ok blk" using inv by (simp add: space_inv_def blk_def)
  note w = aligned_size_props [OF blk sz]
  obtain a where a: "side_alloc (t = FAST) ts = Some a" "avl_inv a" "block_size a = blk" "whole_units blk (avl_free a)"
    unfolding blk_def by (rule side_okE [OF inv])
  have bb: "isp2 blk" "blk < 2 ^ 32" "0 < blk" using blk block_ok_less by (auto simp: block_ok_def)
  obtain xs b where run: "avl_allocate (aligned_size sz blk) blk (aligned_size sz blk) a =
      Some (if xs = [] then - ENOSPC else int (ext_len xs), xs, b)"
    and al: "allocated_from blk xs a b" and len: "ext_len xs \<le> aligned_size sz blk"
    and wb: "whole_units blk (avl_free b)"
    using avl_allocate_ok [OF a(2) bb(1) _ w(1) _ w(3), of "aligned_size sz blk"] w(2,3) a bb by auto
  have b: "avl_inv b" "avl_same a b" "avl_free b = avl_free a - ext_set xs" "ext_set xs \<subseteq> avl_free a"
    using al by (auto simp: allocated_from_def)
  note sh = space_inv_shrink [OF inv a(1) b(1,2) _ wb [unfolded blk_def]]
  define ts' where "ts' = set_alloc t b ts"
  have ts': "space_inv res em ts'" "dev_agree {} ts ts'" "usable res ts' = usable res ts"
    using sh b(3) by (auto simp: ts'_def dev_agree_def split: option.split)
  have "unowned res \<lparr>dl_offset = fst (hd xs), dl_length = snd (hd xs), dl_tier = t\<rparr> em ts' \<and>
      loc_set \<lparr>dl_offset = fst (hd xs), dl_length = snd (hd xs), dl_tier = t\<rparr> \<subseteq> free_space ts" if ne: "xs \<noteq> []"
  proof -
    obtain off l ys where xs: "xs = (off, l) # ys" using ne by (cases xs) auto
    have l: "blk dvd l" by (rule allocated_whole_length [OF al a(4) wb _ bb(3), of off]) (simp add: xs)
    have "0 < l" "blk dvd off" "l \<le> 2 ^ 31"
      using al len w(2) by (auto simp: allocated_from_def xs)
    moreover have "(t = FAST, x) \<in> free_space ts \<and> (t = FAST, x) \<notin> free_space ts'" if "x \<in> arange off l" for x
      using that b(3,4) a(1) unfolding xs by (auto simp: free_space_def ts'_def)
    moreover have "owners em p = 0 \<and> p \<in> usable res ts" if "p \<in> free_space ts" for p
      by (rule free_unowned [OF inv that])
    ultimately show ?thesis
      using l ts'(3) by (auto simp: unowned_def loc_ok_def loc_set_def xs blk_def [symmetric])
  qed
  moreover have "alloc_on t sz em ts =
      Some (if xs = [] \<or> int (ext_len xs) < to_i64 (aligned_size sz blk) then None
            else Some \<lparr>dl_offset = fst (hd xs), dl_length = snd (hd xs), dl_tier = t\<rparr>, ts')"
    using run a(1) by (simp add: alloc_on_def alloc_of_side blk_def ts'_def Let_def)
  ultimately show ?thesis using ts' by auto
qed

lemma em_allocate_raw_ok:
  assumes inv: "space_inv res em ts" and sz: "sz \<le> 2 ^ 30"
  shows "\<exists>r ts'. em_allocate_raw t sz em ts = Some (r, ts') \<and> space_inv res em ts' \<and> dev_agree {} ts ts' \<and>
    usable res ts' = usable res ts \<and> (\<forall>loc. r = Some loc \<longrightarrow> unowned res loc em ts')"
proof -
  obtain r ts1 where 1: "alloc_on t sz em ts = Some (r, ts1)" "space_inv res em ts1" "dev_agree {} ts ts1"
    "usable res ts1 = usable res ts" "\<forall>loc. r = Some loc \<longrightarrow> unowned res loc em ts1"
    using alloc_on_ok [OF inv sz, of t] by blast
  obtain r2 ts2 where 2: "alloc_on SLOW sz em ts1 = Some (r2, ts2)" "space_inv res em ts2" "dev_agree {} ts1 ts2"
    "usable res ts2 = usable res ts1" "\<forall>loc. r2 = Some loc \<longrightarrow> unowned res loc em ts2"
    using alloc_on_ok [OF 1(2) sz, of SLOW] by blast
  then show ?thesis
    using 1 dev_agree_trans [OF 1(3) 2(3)] by (simp add: em_allocate_raw_def)
qed

lemma space_inv_insert:
  assumes inv: "space_inv res em ts" and un: "unowned res loc em ts" and fresh: "em_lookup ext em = None"
    and loc: "ee_loc en = loc" and pack: "packing_ok en" and nxt: "ext < nxt" "em_next_id em \<le> nxt"
  shows "space_inv res (em_store ext en (em\<lparr>em_next_id := nxt\<rparr>)) ts"
proof -
  define em' where "em' = em_store ext en (em\<lparr>em_next_id := nxt\<rparr>)"
  have d: "distinct (al_keys (em_entries em))" using inv by (simp add: space_inv_def)
  have "owners em' p = owners em p + of_bool (p \<in> loc_set loc)" for p
    using filter_update_absent [OF fresh [unfolded em_lookup_def], of "\<lambda>(ext, en). p \<in> loc_set (ee_loc en)" en] loc
    by (simp add: owners_def em_store_def em'_def)
  moreover have "owners em p + of_bool (p \<in> loc_set loc) + of_bool (p \<in> free_space ts) \<le> of_bool (p \<in> usable res ts)" for p
    using space_ledger [OF inv, of p] un by (cases "p \<in> loc_set loc") (simp_all add: unowned_def)
  moreover have "set (em_entries em') \<subseteq> insert (ext, en) (set (em_entries em))"
    using set_al_update [OF d] by (simp add: em_store_def em'_def)
  then have "\<forall>(e, n) \<in> set (em_entries em'). e < nxt \<and> packing_ok n \<and> loc_ok (em_block_size em) (ee_loc n)"
    using inv un loc pack nxt unfolding space_inv_def unowned_def by fastforce
  moreover have "distinct (al_keys (em_entries em'))"
    using distinct_al_update [OF d] by (simp add: em_store_def em'_def)
  moreover have "em_block_size em' = em_block_size em" "em_next_id em' = nxt" "em_deferred em' = em_deferred em"
    by (simp_all add: em'_def em_store_def)
  ultimately show ?thesis using inv unfolding space_inv_def em'_def [symmetric] by simp blast
qed

lemma packing_ok_new: "block_ok blk \<Longrightarrow> loc_ok blk loc \<Longrightarrow> packing_ok (entry_new loc)"
  using dvd_imp_le [of blk "dl_length loc"] by (auto simp: packing_ok_def entry_new_def loc_ok_def block_ok_def)

lemma space_inv_bound:
  assumes "space_inv res em ts" and "(f, x) \<in> usable res ts"
  shows "x < 2 ^ 63"
proof -
  obtain a where "side_alloc f ts = Some a" "avl_inv a" by (rule side_okE [OF assms(1)])
  then show ?thesis using assms(2) by (auto simp: usable_def avl_inv_def)
qed

text \<open>
  A new extent. It lies in free space, has the next identifier, is empty, and writing its header
  changes no byte outside of it.
\<close>

lemma em_allocate_extent_ok:
  assumes inv: "space_inv res em ts" and sz: "sz \<le> 2 ^ 30" and id: "em_next_id em < 2 ^ 64 - 1"
  shows "\<exists>r em' ts'. em_allocate_extent t sz em ts = Some (r, em', ts') \<and> space_inv res em' ts' \<and>
    em_block_size em' = em_block_size em \<and> usable res ts' = usable res ts \<and>
    (case r of
       None \<Rightarrow> em' = em \<and> dev_agree {} ts ts'
     | Some (ext, loc) \<Rightarrow> ext = em_next_id em \<and> em_view em ext = None \<and> em_next_id em' = Suc ext \<and>
         em_view em' = (em_view em)(ext \<mapsto> (loc, 0, 0)) \<and> dev_agree (loc_set loc) ts ts')"
proof -
  obtain r ts1 where raw: "em_allocate_raw t sz em ts = Some (r, ts1)" and inv1: "space_inv res em ts1"
    and ag: "dev_agree {} ts ts1" and us: "usable res ts1 = usable res ts"
    and un: "\<And>loc. r = Some loc \<Longrightarrow> unowned res loc em ts1"
    using em_allocate_raw_ok [OF inv sz, of t] by blast
  show ?thesis
  proof (cases r)
    case None
    with raw inv1 ag us show ?thesis by (auto simp: em_allocate_extent_def)
  next
    case (Some loc)
    define ext em1 ts2 where "ext = em_next_id em"
      and "em1 = em_store ext (entry_new loc) (em\<lparr>em_next_id := Suc ext\<rparr>)"
      and "ts2 = write_extent_header ext loc ts1"
    have u: "unowned res loc em ts1" by (rule un [OF Some])
    have fresh: "em_lookup ext em = None"
      using space_inv_entry(1) [OF inv, of ext] by (cases "em_lookup ext em") (auto simp: ext_def)
    have blk: "block_ok (em_block_size em)" "loc_ok (em_block_size em) loc"
      using inv u by (auto simp: space_inv_def unowned_def)
    have inv2: "space_inv res em1 ts1"
      unfolding em1_def
      by (rule space_inv_insert [OF inv1 u fresh _ packing_ok_new [OF blk]]) (simp_all add: entry_new_def ext_def)
    have hd: "HEADER_SIZE \<le> dl_length loc" using packing_ok_new [OF blk] by (simp add: packing_ok_def entry_new_def)
    have sub: "{dl_tier loc = FAST} \<times> arange (dl_offset loc) HEADER_SIZE \<subseteq> loc_set loc"
      using hd by (auto simp: loc_set_def)
    have "(dl_tier loc = FAST, dl_offset loc) \<in> loc_set loc" using hd by (simp add: loc_set_def HEADER_SIZE_def)
    then have "dl_offset loc < 2 ^ 63" using u space_inv_bound [OF inv1] by (auto simp: unowned_def)
    then have w: "dev_agree (loc_set loc) ts1 ts2" "same_allocs ts1 ts2"
      using write_header_ok [OF _ sub, of ts1] unfolding ts2_def write_extent_header_def HEADER_SIZE_def by simp_all
    have inv3: "space_inv res em1 ts2" by (rule space_inv_dev [OF inv2 w])
    define em2 where "em2 = set_free_list (dl_tier loc) (fl_insert (capacity_of loc, ext) (free_list_of (dl_tier loc) em1)) em1"
    have core: "em_core em2 = em_core em1" by (simp add: em2_def)
    have run: "em_allocate_extent t sz em ts = Some (Some (ext, loc), em2, ts2)"
      using raw Some id by (simp add: em_allocate_extent_def em_insert_entry_def ts2_def em2_def em1_def ext_def
          Let_def add64_exact)
    have "em_view em2 = (em_view em)(ext \<mapsto> (loc, 0, 0))"
      unfolding em_view_core [OF core] em1_def em_view_store
      by (simp add: entry_new_def em_view_def [abs_def] em_lookup_def)
    moreover have "dev_agree (loc_set loc) ts ts2"
      using dev_agree_trans [OF dev_agree_mono [OF ag] w(1)] by simp
    moreover have "usable res ts2 = usable res ts"
      using us w(2) by (simp add: usable_def same_allocs_def)
    ultimately show ?thesis
      using run fresh inv3 em_core_cong [OF core]
      by (auto simp: em_view_def [of em ext] em1_def em_store_def ext_def [symmetric])
  qed
qed

section \<open>Deferred release\<close>

lemma whole_units_Compl: "whole_units blk F \<Longrightarrow> whole_units blk (- F)"
  unfolding whole_units_def by (metis ComplD ComplI)

lemma whole_units_union:
  assumes "whole_units blk F" and "blk dvd off" and "blk dvd len" and "0 < blk"
  shows "whole_units blk (F \<union> arange off len)"
proof -
  have "whole_units blk (- F - arange off len)"
    by (rule whole_units_diff [OF whole_units_Compl [OF assms(1)] assms(2-4)])
  then have "whole_units blk (- (- F - arange off len))" by (rule whole_units_Compl)
  also have "- (- F - arange off len) = F \<union> arange off len" by blast
  finally show ?thesis .
qed

lemma loc_set_end:
  assumes "space_inv res em ts" and "loc_set loc \<subseteq> usable res ts" and "0 < dl_length loc"
    and "side_alloc (dl_tier loc = FAST) ts = Some a"
  shows "dl_offset loc + dl_length loc \<le> device_size a"
proof -
  have "(dl_tier loc = FAST, dl_offset loc + dl_length loc - 1) \<in> loc_set loc"
    using assms(3) by (auto simp: loc_set_def)
  then show ?thesis using assms(2-4) by (auto simp: usable_def)
qed

lemma avl_release_one:
  assumes "avl_inv a" and "off + len \<le> device_size a" and "arange off len \<inter> avl_free a = {}"
  shows "\<exists>b. avl_release (iset_insert off len iset_empty) a = Some b \<and> avl_inv b \<and> avl_same a b \<and>
    avl_free b = avl_free a \<union> arange off len"
  using avl_release_vec_ok [OF assms(1), of "[(off, len)]"] assms(2,3) by (simp add: avl_release_vec_def)

text \<open>The entry at any position of the queue can be released.\<close>

lemma release_loc_ok:
  assumes inv: "space_inv res em ts" and q: "em_deferred em = pre @ (loc, s) # post"
  shows "\<exists>ts'. release_loc loc ts = Some ts' \<and> space_inv res (em\<lparr>em_deferred := pre @ post\<rparr>) ts' \<and>
    dev_agree {} ts ts' \<and> usable res ts' = usable res ts"
proof -
  define em' where "em' = em\<lparr>em_deferred := pre @ post\<rparr>"
  have own: "owners em p = owners em' p + of_bool (p \<in> loc_set loc)" for p
    by (simp add: owners_def em'_def q)
  have ok: "loc_ok (em_block_size em) loc" using inv q by (auto simp: space_inv_def)
  obtain a where a: "side_alloc (dl_tier loc = FAST) ts = Some a" "avl_inv a" "block_size a = em_block_size em"
    "whole_units (em_block_size em) (avl_free a)"
    by (rule side_okE [OF inv])
  have mine: "p \<in> usable res ts \<and> p \<notin> free_space ts" if "p \<in> loc_set loc" for p
    using space_ledger [OF inv, of p] own [of p] that by (simp add: of_bool_def split: if_splits)
  have "dl_offset loc + dl_length loc \<le> device_size a"
    using mine ok by (intro loc_set_end [OF inv _ _ a(1)]) (auto simp: loc_ok_def)
  moreover have "arange (dl_offset loc) (dl_length loc) \<inter> avl_free a = {}"
    using mine a(1) by (auto simp: loc_set_def free_space_def)
  ultimately obtain b where b: "avl_release (iset_insert (dl_offset loc) (dl_length loc) iset_empty) a = Some b"
    "avl_inv b" "avl_same a b" "avl_free b = avl_free a \<union> arange (dl_offset loc) (dl_length loc)"
    using avl_release_one [OF a(2)] by blast
  define ts' where "ts' = set_alloc (dl_tier loc) b ts"
  have run: "release_loc loc ts = Some ts'" using a(1) b(1) by (simp add: release_loc_def alloc_of_side ts'_def)
  have us: "usable res ts' = usable res ts"
    using a(1) b(3) by (auto simp: usable_def ts'_def avl_same_def split: if_splits)
  have fr: "free_space ts' = free_space ts \<union> loc_set loc"
    using a(1) b(4) by (auto simp: free_space_def ts'_def loc_set_def split: if_splits)
  have "0 < em_block_size em" using inv block_ok_less by (auto simp: space_inv_def)
  then have wb: "whole_units (em_block_size em) (avl_free b)"
    using whole_units_union [OF a(4)] ok unfolding b(4) loc_ok_def by blast
  have side: "side_ok (em_block_size em) ts' f" for f
    by (rule side_okE [OF inv, of f]) (use a b wb in \<open>auto simp: side_ok_def avl_same_def ts'_def\<close>)
  have "owners em' p + of_bool (p \<in> free_space ts') \<le> of_bool (p \<in> usable res ts')" for p
    using space_ledger [OF inv, of p] own [of p] mine [of p] unfolding us fr
    by (cases "p \<in> loc_set loc") simp_all
  moreover have "em_block_size em' = em_block_size em" "em_entries em' = em_entries em"
    "em_next_id em' = em_next_id em" "set (em_deferred em') \<subseteq> set (em_deferred em)"
    using q by (auto simp: em'_def)
  ultimately have "space_inv res em' ts'"
    using inv side unfolding space_inv_def by auto
  moreover have "dev_agree {} ts ts'" by (auto simp: dev_agree_def ts'_def split: option.split)
  ultimately show ?thesis using run us by (auto simp: em'_def)
qed

lemma deferred_loop_ok:
  "space_inv res em ts \<Longrightarrow> em_deferred em = pre @ q \<Longrightarrow>
   \<exists>kept ts'. deferred_loop cur q ts = Some (kept, ts') \<and> space_inv res (em\<lparr>em_deferred := pre @ kept\<rparr>) ts' \<and>
     dev_agree {} ts ts' \<and> usable res ts' = usable res ts"
proof (induction q arbitrary: em ts pre)
  case Nil
  then have "em\<lparr>em_deferred := pre\<rparr> = em" by simp
  with Nil show ?case by auto
next
  case (Cons d q)
  obtain loc s where d: "d = (loc, s)" by (cases d)
  show ?case
  proof (cases "sub64 cur s \<ge> 2")
    case True
    obtain ts1 where 1: "release_loc loc ts = Some ts1" "space_inv res (em\<lparr>em_deferred := pre @ q\<rparr>) ts1"
      "dev_agree {} ts ts1" "usable res ts1 = usable res ts"
      using release_loc_ok [OF Cons.prems(1) Cons.prems(2) [unfolded d]] by blast
    obtain kept ts2 where "deferred_loop cur q ts1 = Some (kept, ts2)"
      "space_inv res (em\<lparr>em_deferred := pre @ kept\<rparr>) ts2" "dev_agree {} ts1 ts2" "usable res ts2 = usable res ts1"
      using Cons.IH [OF 1(2), of pre] by auto
    then show ?thesis using 1 True d dev_agree_trans [of "{}" ts ts1 ts2] by auto
  next
    case False
    obtain kept ts1 where "deferred_loop cur q ts = Some (kept, ts1)"
      "space_inv res (em\<lparr>em_deferred := (pre @ [d]) @ kept\<rparr>) ts1" "dev_agree {} ts ts1" "usable res ts1 = usable res ts"
      using Cons.IH [OF Cons.prems(1), of "pre @ [d]"] Cons.prems(2) by auto
    then show ?thesis using False d by auto
  qed
qed

lemma em_process_deferred_free_ok:
  assumes inv: "space_inv res em ts"
  shows "\<exists>em' ts'. em_process_deferred_free em ts = Some (em', ts') \<and> space_inv res em' ts' \<and>
    em_view em' = em_view em \<and> em_block_size em' = em_block_size em \<and> em_next_id em' = em_next_id em \<and>
    dev_agree {} ts ts' \<and> usable res ts' = usable res ts"
proof -
  obtain kept ts' where 1: "deferred_loop (em_seqno em) (em_deferred em) ts = Some (kept, ts')"
    "space_inv res (em\<lparr>em_deferred := kept\<rparr>) ts'" "dev_agree {} ts ts'" "usable res ts' = usable res ts"
    using deferred_loop_ok [OF inv, of "[]" "em_deferred em" "em_seqno em"] by auto
  define em' where "em' = em\<lparr>em_seqno := add64 (em_seqno em) 1, em_deferred := kept\<rparr>"
  have core: "em_core em' = em_core (em\<lparr>em_deferred := kept\<rparr>)" by (simp add: em_core_def em'_def)
  have "em_view em' = em_view em" by (rule ext) (simp add: em_view_def em_lookup_def em'_def)
  moreover have "space_inv res em' ts'" using 1(2) em_core_cong(6) [OF core] by simp
  moreover have "em_process_deferred_free em ts = Some (em', ts')"
    using 1(1) by (simp add: em_process_deferred_free_def em'_def)
  ultimately show ?thesis using 1(3,4) by (auto simp: em'_def)
qed

end
