(* ===== verification/Float_Rounding.thy ===== *)
theory Float_Rounding
  imports Complex_Main
begin

text \<open>
  IEEE 754 arithmetic as the program uses it. A finite \<open>float\<close> or \<open>double\<close> is the rational number it
  denotes, and the result of an operation is the exact result rounded to 24 or 53 significant bits,
  to the nearest, ties to even. The exponent is unbounded: infinities, NaN and subnormal numbers are
  not modelled. Where the values come from the configuration, the theorems have conditions that keep them
  inside the range: weights of at most \<open>2 ^ 100\<close> in \<open>Scoring\<close>, which bounds every intermediate result, and
  \<open>out_of_range\<close> in the parser of the configuration file.
\<close>

section \<open>Definitions\<close>

function nlog2 :: "int \<Rightarrow> nat" where
  "nlog2 n = (if n < 2 then 0 else Suc (nlog2 (n div 2)))"
  by auto

termination
  by (relation "measure nat") auto

declare nlog2.simps [simp del]

text \<open>The exponent of the leading bit of a positive number.\<close>

definition bin_exp :: "rat \<Rightarrow> int" where
  "bin_exp x =
     (let (p, q) = quotient_of x; e = int (nlog2 p) - int (nlog2 q)
      in if 2 powi e \<le> x then e else e - 1)"

definition round_even :: "rat \<Rightarrow> int" where
  "round_even x =
     (let f = \<lfloor>x\<rfloor>; r = x - of_int f
      in if r < 1 / 2 then f else if 1 / 2 < r then f + 1 else if even f then f else f + 1)"

definition round_sig :: "int \<Rightarrow> rat \<Rightarrow> rat" where
  "round_sig p x =
     (if x = 0 then 0
      else let u = 2 powi (bin_exp \<bar>x\<bar> - p + 1) in sgn x * of_int (round_even (\<bar>x\<bar> / u)) * u)"

definition f32 :: "rat \<Rightarrow> rat" where "f32 = round_sig 24"
definition f64 :: "rat \<Rightarrow> rat" where "f64 = round_sig 53"

section \<open>Exponent and integer rounding\<close>

lemma nlog2_bounds: "0 < n \<Longrightarrow> 2 ^ nlog2 n \<le> n \<and> n < 2 * 2 ^ nlog2 n"
proof (induction n rule: nlog2.induct)
  case (1 n)
  show ?case
  proof (cases "n < 2")
    case True
    with 1 show ?thesis by (simp add: nlog2.simps [of n])
  next
    case False
    then have "2 ^ nlog2 (n div 2) \<le> n div 2 \<and> n div 2 < 2 * 2 ^ nlog2 (n div 2)" using 1 by simp
    moreover have "nlog2 n = Suc (nlog2 (n div 2))" using False by (simp add: nlog2.simps [of n])
    moreover have "n = 2 * (n div 2) + n mod 2" "n mod 2 < 2" by simp_all
    ultimately show ?thesis by (simp only: power_Suc) linarith
  qed
qed

lemma nlog2_of_int:
  assumes "0 < p"
  shows "(2 :: rat) ^ nlog2 p \<le> of_int p" and "of_int p < (2 :: rat) * 2 ^ nlog2 p"
proof -
  have "(of_int (2 ^ nlog2 p) :: rat) \<le> of_int p" "(of_int p :: rat) < of_int (2 * 2 ^ nlog2 p)"
    using nlog2_bounds [OF assms] by (simp_all only: of_int_le_iff of_int_less_iff)
  then show "(2 :: rat) ^ nlog2 p \<le> of_int p" and "of_int p < (2 :: rat) * 2 ^ nlog2 p"
    by (simp_all only: of_int_mult of_int_power of_int_numeral)
qed

lemma bin_exp_bounds:
  assumes "0 < x"
  shows "2 powi bin_exp x \<le> x" and "x < 2 * 2 powi bin_exp x"
proof -
  obtain p q where pq: "quotient_of x = (p, q)" by fastforce
  have q: "0 < q" using quotient_of_denom_pos [OF pq] .
  have x: "x = of_int p / of_int q" using quotient_of_div [OF pq] .
  have p: "0 < p" using assms q by (simp add: x zero_less_divide_iff)
  define a b where "a = nlog2 p" and "b = nlog2 q"
  have A': "(2 :: rat) ^ a \<le> of_int p" "(of_int p :: rat) < 2 * 2 ^ a" using nlog2_of_int [OF p] by (simp_all add: a_def)
  have B': "(2 :: rat) ^ b \<le> of_int q" "(of_int q :: rat) < 2 * 2 ^ b" using nlog2_of_int [OF q] by (simp_all add: b_def)
  define e where "e = int a - int b"
  have pe: "(2 :: rat) powi e = 2 ^ a / 2 ^ b" by (simp add: e_def power_int_diff)
  have up: "x < 2 * 2 powi e"
  proof -
    have "x * 2 ^ b \<le> of_int p" using B'(1) q p by (simp add: x field_simps)
    then show ?thesis using A'(2) by (simp add: pe field_simps)
  qed
  have low: "2 powi e < 2 * x"
  proof -
    have "2 ^ a * of_int q < of_int p * (2 * 2 ^ b :: rat)"
      using A' B' p q by (intro mult_le_less_imp_less) simp_all
    then show ?thesis using q by (simp add: pe x field_simps)
  qed
  have E: "bin_exp x = (if 2 powi e \<le> x then e else e - 1)"
    by (simp add: bin_exp_def pq a_def b_def e_def Let_def)
  show "2 powi bin_exp x \<le> x" and "x < 2 * 2 powi bin_exp x"
    using up low by (simp_all add: E power_int_diff)
qed

lemma bin_exp_mono:
  assumes "0 < x" and "x \<le> y"
  shows "bin_exp x \<le> bin_exp y"
proof (rule ccontr)
  assume "\<not> bin_exp x \<le> bin_exp y"
  then have "(2 :: rat) powi (bin_exp y + 1) \<le> 2 powi bin_exp x" by (intro power_int_increasing) auto
  with bin_exp_bounds [OF assms(1)] bin_exp_bounds [of y] assms show False by (simp add: power_int_add)
qed

lemma round_even_between: "\<lfloor>x\<rfloor> \<le> round_even x \<and> round_even x \<le> \<lfloor>x\<rfloor> + 1"
  by (simp add: round_even_def Let_def)

lemma round_even_of_int [simp]: "round_even (of_int n) = n"
  by (simp add: round_even_def)

lemma round_even_mono:
  assumes "x \<le> y"
  shows "round_even x \<le> round_even y"
proof (cases "\<lfloor>x\<rfloor> = \<lfloor>y\<rfloor>")
  case True
  with assms show ?thesis by (auto simp: round_even_def Let_def)
next
  case False
  then have "\<lfloor>x\<rfloor> + 1 \<le> \<lfloor>y\<rfloor>" using assms floor_mono [of x y] by simp
  then show ?thesis using round_even_between [of x] round_even_between [of y] by linarith
qed

section \<open>Rounding to significant bits\<close>

lemma round_sig_0 [simp]: "round_sig p 0 = 0"
  by (simp add: round_sig_def)

lemma round_sig_minus [simp]: "round_sig p (- x) = - round_sig p x"
  by (simp add: round_sig_def Let_def sgn_minus)

lemma round_sig_pos:
  "0 < x \<Longrightarrow> round_sig p x = of_int (round_even (x / 2 powi (bin_exp x - p + 1))) * 2 powi (bin_exp x - p + 1)"
  by (simp add: round_sig_def Let_def)

lemma powi_nat_sub: "0 < p \<Longrightarrow> (2 :: rat) powi (e - p + 1) * of_int (2 ^ nat (p - 1)) = 2 powi e"
  by (simp add: power_int_nonneg_exp [symmetric] power_int_add [symmetric] flip: power_int_nonneg_exp)

lemma round_sig_between:
  assumes "0 < x" and "0 < p"
  shows "2 powi bin_exp x \<le> round_sig p x" and "round_sig p x \<le> 2 * 2 powi bin_exp x"
proof -
  define u where "u = (2 :: rat) powi (bin_exp x - p + 1)"
  have u: "0 < u" by (simp add: u_def)
  have top: "u * of_int (2 ^ nat (p - 1)) = 2 powi bin_exp x" using powi_nat_sub [OF assms(2)] by (simp add: u_def)
  note b = bin_exp_bounds [OF assms(1), folded top]
  have "of_int (2 ^ nat (p - 1)) \<le> x / u" and "x / u \<le> of_int (2 * 2 ^ nat (p - 1))"
    using b u by (simp_all add: pos_le_divide_eq pos_divide_le_eq mult.commute mult.left_commute)
  from round_even_mono [OF this(1)] round_even_mono [OF this(2)]
  have r: "2 ^ nat (p - 1) \<le> round_even (x / u)" "round_even (x / u) \<le> 2 * 2 ^ nat (p - 1)"
    by (simp_all only: round_even_of_int)
  have "of_int (2 ^ nat (p - 1)) * u \<le> of_int (round_even (x / u)) * u"
    and "of_int (round_even (x / u)) * u \<le> of_int (2 * 2 ^ nat (p - 1)) * u"
    using r u by (metis mult_right_mono of_int_le_iff less_imp_le)+
  then show "2 powi bin_exp x \<le> round_sig p x" and "round_sig p x \<le> 2 * 2 powi bin_exp x"
    unfolding round_sig_pos [OF assms(1)] u_def [symmetric] top [symmetric] by (simp_all add: mult_ac)
qed

lemma round_sig_mono_pos:
  assumes "0 < x" and "x \<le> y" and "0 < p"
  shows "round_sig p x \<le> round_sig p y"
proof (cases "bin_exp x = bin_exp y")
  case True
  define u where "u = (2 :: rat) powi (bin_exp y - p + 1)"
  have "0 < u" by (simp add: u_def)
  then have "round_even (x / u) \<le> round_even (y / u)" using assms by (intro round_even_mono divide_right_mono) auto
  then show ?thesis
    using assms True \<open>0 < u\<close> by (simp add: round_sig_pos u_def [symmetric])
next
  case False
  then have "bin_exp x + 1 \<le> bin_exp y" using bin_exp_mono [OF assms(1,2)] by simp
  then have "(2 :: rat) powi (bin_exp x + 1) \<le> 2 powi bin_exp y" by (intro power_int_increasing) auto
  then show ?thesis
    using round_sig_between [of x p] round_sig_between [of y p] assms by (simp add: power_int_add)
qed

lemma round_sig_nonneg: "0 \<le> x \<Longrightarrow> 0 < p \<Longrightarrow> 0 \<le> round_sig p x"
  using round_sig_between(1) [of x p] by (cases "x = 0") (auto intro: order.trans [of 0 "2 powi bin_exp x"])

lemma round_sig_mono:
  assumes "x \<le> y" and "0 < p"
  shows "round_sig p x \<le> round_sig p y"
proof -
  consider "0 < x" | "x \<le> 0" "0 \<le> y" | "y < 0" by linarith
  then show ?thesis
  proof cases
    case 1
    then show ?thesis using assms round_sig_mono_pos by blast
  next
    case 2
    then show ?thesis
      using round_sig_nonneg [of "- x" p] round_sig_nonneg [of y p] assms(2) by simp
  next
    case 3
    then show ?thesis using round_sig_mono_pos [of "- y" "- x" p] assms by simp
  qed
qed

text \<open>A number with at most \<open>p\<close> significant bits is not changed.\<close>

lemma round_sig_exact:
  assumes "0 < x" and "x = of_int m * 2 powi k" and "x < 2 powi (k + p)"
  shows "round_sig p x = x"
proof -
  have "2 powi bin_exp x < (2 :: rat) powi (k + p)" using bin_exp_bounds(1) [OF assms(1)] assms(3) by simp
  then have "\<not> k + p \<le> bin_exp x" using power_int_increasing [of "k + p" "bin_exp x" "2 :: rat"] by linarith
  then obtain n where n: "k = bin_exp x - p + 1 + int n" using zle_iff_zadd [of "bin_exp x - p + 1" k] by auto
  define u where "u = (2 :: rat) powi (bin_exp x - p + 1)"
  have "(2 :: rat) powi k = 2 ^ n * u"
    using power_int_add [of "2 :: rat" "bin_exp x - p + 1" "int n"] by (simp add: u_def n [symmetric])
  then have "x = of_int (m * 2 ^ n) * u" using assms(2) by (metis mult.assoc of_int_mult of_int_numeral of_int_power)
  moreover have "u \<noteq> 0" by (simp add: u_def)
  ultimately have "x / u = of_int (m * 2 ^ n)" by (metis nonzero_mult_div_cancel_right)
  then have "round_even (x / u) = m * 2 ^ n" by (simp only: round_even_of_int)
  with \<open>x / u = _\<close> \<open>u \<noteq> 0\<close> have "of_int (round_even (x / u)) * u = x" by (metis nonzero_eq_divide_eq)
  then show ?thesis by (simp only: round_sig_pos [OF assms(1)] u_def)
qed

lemma round_sig_of_nat: "0 < p \<Longrightarrow> of_nat n < (2 :: rat) powi p \<Longrightarrow> round_sig p (of_nat n) = of_nat n"
  by (cases "n = 0") (simp, rule round_sig_exact [of _ "int n" 0], simp_all)

section \<open>Single and double precision\<close>

lemma f32_mono: "x \<le> y \<Longrightarrow> f32 x \<le> f32 y" and f64_mono: "x \<le> y \<Longrightarrow> f64 x \<le> f64 y"
  by (simp_all add: f32_def f64_def round_sig_mono)

lemma of_nat_less_powi: "n < 2 ^ k \<Longrightarrow> of_nat n < (2 :: rat) powi int k"
  by (metis of_nat_less_iff of_nat_numeral of_nat_power power_int_of_nat)

lemma f32_nat: "n < 2 ^ 24 \<Longrightarrow> f32 (of_nat n) = of_nat n" and f64_nat: "n < 2 ^ 53 \<Longrightarrow> f64 (of_nat n) = of_nat n"
  using of_nat_less_powi [of n 24] of_nat_less_powi [of n 53]
  by (simp_all add: f32_def f64_def round_sig_of_nat del: power_int_numeral)

lemma f_consts [simp]: "f32 0 = 0" "f64 0 = 0" "f32 1 = 1" "f64 1 = 1"
  using f32_nat [of 1] f64_nat [of 1] by (simp_all add: f32_def f64_def)

lemma f32_nonneg: "0 \<le> x \<Longrightarrow> 0 \<le> f32 x" and f64_nonneg: "0 \<le> x \<Longrightarrow> 0 \<le> f64 x"
  using f32_mono [of 0 x] f64_mono [of 0 x] by simp_all

lemma f64_pos: "0 < x \<Longrightarrow> 0 < f64 x"
  using round_sig_between(1) [of x 53] unfolding f64_def by (auto intro: order.strict_trans2 [of 0 "2 powi bin_exp x"])

lemma f32_le_1: "x \<le> 1 \<Longrightarrow> f32 x \<le> 1" and f64_le_1: "x \<le> 1 \<Longrightarrow> f64 x \<le> 1"
  using f32_mono [of x 1] f64_mono [of x 1] by simp_all

text \<open>A quotient of rounded numbers, of which the smaller is divided by the larger.\<close>

lemma f64_ratio: "0 \<le> x \<Longrightarrow> x \<le> y \<Longrightarrow> 0 < y \<Longrightarrow> 0 \<le> f64 (f64 x / f64 y) \<and> f64 (f64 x / f64 y) \<le> 1"
  using f64_mono [of x y] f64_pos [of y] f64_nonneg [of x] by (auto intro!: f64_nonneg f64_le_1)

end
