(* ===== verification/Journal.thy ===== *)
theory Journal
  imports Key_Map Block_Device Float_Rounding
begin

unbundle bit_operations_syntax

text \<open>
  \<^verbatim>\<open>btier/journal.cc\<close>: the write-ahead journal at the start of the FAST device. A superblock of 4 KiB
  is followed by a data region that is written from front to back and then from the front again.
  Each transaction is a BEGIN record, its records, and a COMMIT record with a checksum, padded with
  zeros to a multiple of 4 KiB.

  A \<open>bufferlist\<close> is its bytes. Reading past the end of one throws \<open>end_of_buffer\<close>, which nothing in
  the journal catches: the parsers return \<open>None\<close> then.
\<close>

section \<open>Records\<close>

definition OP_TXN_BEGIN :: byte where "OP_TXN_BEGIN = 1"
definition OP_KEY_PUT :: byte where "OP_KEY_PUT = 2"
definition OP_KEY_DEL :: byte where "OP_KEY_DEL = 3"
definition OP_MARK_DEAD :: byte where "OP_MARK_DEAD = 4"
definition OP_EXTENT_NEW :: byte where "OP_EXTENT_NEW = 5"
definition OP_EXTENT_FREE :: byte where "OP_EXTENT_FREE = 6"
definition OP_TXN_COMMIT :: byte where "OP_TXN_COMMIT = 7"
definition OP_CHECKPOINT :: byte where "OP_CHECKPOINT = 8"

lemmas op_defs = OP_TXN_BEGIN_def OP_KEY_PUT_def OP_KEY_DEL_def OP_MARK_DEAD_def OP_EXTENT_NEW_def
  OP_EXTENT_FREE_def OP_TXN_COMMIT_def OP_CHECKPOINT_def

record journal_record =
  jr_op :: byte
  jr_txn_id :: u64
  jr_key :: key
  jr_key_loc :: key_location
  jr_extent_id :: u64
  jr_extent_loc :: disk_location
  jr_dead_length :: u32
  jr_crc :: u32

definition jr_new :: "byte \<Rightarrow> u64 \<Rightarrow> journal_record" where
  "jr_new op txn_id =
     \<lparr>jr_op = op, jr_txn_id = txn_id, jr_key = [], jr_key_loc = no_key_location, jr_extent_id = 0,
      jr_extent_loc = no_disk_location, jr_dead_length = 0, jr_crc = 0\<rparr>"

definition put_u8 :: "byte \<Rightarrow> bytes" where "put_u8 v = [v]"
definition put_u32 :: "u32 \<Rightarrow> bytes" where "put_u32 v = le_bytes 4 v"
definition put_u64 :: "u64 \<Rightarrow> bytes" where "put_u64 v = le_bytes 8 v"

definition put_string :: "bytes \<Rightarrow> bytes" where
  "put_string s = put_u32 (length s mod 2 ^ 32) @ s"

definition put_key_location :: "key_location \<Rightarrow> bytes" where
  "put_key_location kl = put_u64 (kl_extent kl) @ put_u32 (kl_offset kl) @ put_u32 (kl_length kl)"

definition put_disk_location :: "disk_location \<Rightarrow> bytes" where
  "put_disk_location dl = put_u64 (dl_offset dl) @ put_u32 (dl_length dl) @ put_u8 (tier_byte (dl_tier dl))"

definition serialize_record :: "journal_record \<Rightarrow> bytes" where
  "serialize_record rec =
     put_u8 (jr_op rec) @ put_u64 (jr_txn_id rec) @
     (if jr_op rec = OP_KEY_PUT then put_string (jr_key rec) @ put_key_location (jr_key_loc rec)
      else if jr_op rec = OP_KEY_DEL then put_string (jr_key rec)
      else if jr_op rec = OP_MARK_DEAD then put_u64 (jr_extent_id rec) @ put_u32 (jr_dead_length rec)
      else if jr_op rec = OP_EXTENT_NEW then put_u64 (jr_extent_id rec) @ put_disk_location (jr_extent_loc rec)
      else if jr_op rec = OP_EXTENT_FREE then put_u64 (jr_extent_id rec)
      else if jr_op rec = OP_TXN_COMMIT then put_u32 (jr_crc rec)
      else [])"

text \<open>\<open>p.copy(n, dest)\<close> on the rest of the buffer.\<close>

definition get_bytes :: "nat \<Rightarrow> bytes \<Rightarrow> (bytes \<times> bytes) option" where
  "get_bytes n p = (if n \<le> length p then Some (take n p, drop n p) else None)"

definition get_u8 :: "bytes \<Rightarrow> (byte \<times> bytes) option" where
  "get_u8 p = do { (b, q) \<leftarrow> get_bytes 1 p; Some (hd b, q) }"

definition get_u32 :: "bytes \<Rightarrow> (u32 \<times> bytes) option" where
  "get_u32 p = do { (b, q) \<leftarrow> get_bytes 4 p; Some (le_val b, q) }"

definition get_u64 :: "bytes \<Rightarrow> (u64 \<times> bytes) option" where
  "get_u64 p = do { (b, q) \<leftarrow> get_bytes 8 p; Some (le_val b, q) }"

definition get_string :: "bytes \<Rightarrow> (bytes \<times> bytes) option" where
  "get_string p = do { (len, q) \<leftarrow> get_u32 p; get_bytes len q }"

definition get_key_location :: "bytes \<Rightarrow> (key_location \<times> bytes) option" where
  "get_key_location p =
     do { (ext, p) \<leftarrow> get_u64 p; (off, p) \<leftarrow> get_u32 p; (len, p) \<leftarrow> get_u32 p;
          Some (\<lparr>kl_extent = ext, kl_offset = off, kl_length = len\<rparr>, p) }"

definition get_disk_location :: "bytes \<Rightarrow> (disk_location \<times> bytes) option" where
  "get_disk_location p =
     do { (off, p) \<leftarrow> get_u64 p; (len, p) \<leftarrow> get_u32 p; (t, p) \<leftarrow> get_u8 p;
          Some (\<lparr>dl_offset = off, dl_length = len, dl_tier = tier_of_byte t\<rparr>, p) }"

definition deserialize_record :: "bytes \<Rightarrow> (journal_record \<times> bytes) option" where
  "deserialize_record p =
     do { (op, p) \<leftarrow> get_u8 p;
          (txn, p) \<leftarrow> get_u64 p;
          let rec = jr_new op txn;
          if op = OP_KEY_PUT
          then do { (k, p) \<leftarrow> get_string p; (kl, p) \<leftarrow> get_key_location p;
                    Some (rec\<lparr>jr_key := k, jr_key_loc := kl\<rparr>, p) }
          else if op = OP_KEY_DEL
          then do { (k, p) \<leftarrow> get_string p; Some (rec\<lparr>jr_key := k\<rparr>, p) }
          else if op = OP_MARK_DEAD
          then do { (e, p) \<leftarrow> get_u64 p; (l, p) \<leftarrow> get_u32 p;
                    Some (rec\<lparr>jr_extent_id := e, jr_dead_length := l\<rparr>, p) }
          else if op = OP_EXTENT_NEW
          then do { (e, p) \<leftarrow> get_u64 p; (dl, p) \<leftarrow> get_disk_location p;
                    Some (rec\<lparr>jr_extent_id := e, jr_extent_loc := dl\<rparr>, p) }
          else if op = OP_EXTENT_FREE
          then do { (e, p) \<leftarrow> get_u64 p; Some (rec\<lparr>jr_extent_id := e\<rparr>, p) }
          else if op = OP_TXN_COMMIT
          then do { (c, p) \<leftarrow> get_u32 p; Some (rec\<lparr>jr_crc := c\<rparr>, p) }
          else Some (rec, p) }"

subsection \<open>Round trip\<close>

lemma get_bytes_append: "length xs = n \<Longrightarrow> get_bytes n (xs @ ys) = Some (xs, ys)"
  by (simp add: get_bytes_def)

lemma get_put_u8 [simp]: "get_u8 (put_u8 b @ p) = Some (b, p)"
  by (simp add: get_u8_def put_u8_def get_bytes_def)

lemma get_put_u32 [simp]: "v < 2 ^ 32 \<Longrightarrow> get_u32 (put_u32 v @ p) = Some (v, p)"
  by (simp add: get_u32_def put_u32_def get_bytes_append)

lemma get_put_u64 [simp]: "v < 2 ^ 64 \<Longrightarrow> get_u64 (put_u64 v @ p) = Some (v, p)"
  by (simp add: get_u64_def put_u64_def get_bytes_append)

lemma get_put_string [simp]: "length s < 2 ^ 32 \<Longrightarrow> get_string (put_string s @ p) = Some (s, p)"
  by (simp add: get_string_def put_string_def get_bytes_append)

definition kl_ok :: "key_location \<Rightarrow> bool" where
  "kl_ok kl \<longleftrightarrow> kl_extent kl < 2 ^ 64 \<and> kl_offset kl < 2 ^ 32 \<and> kl_length kl < 2 ^ 32"

definition dl_ok :: "disk_location \<Rightarrow> bool" where
  "dl_ok dl \<longleftrightarrow> dl_offset dl < 2 ^ 64 \<and> dl_length dl < 2 ^ 32 \<and> tier_ok (dl_tier dl)"

lemma get_put_key_location [simp]: "kl_ok kl \<Longrightarrow> get_key_location (put_key_location kl @ p) = Some (kl, p)"
  by (cases kl) (simp add: get_key_location_def put_key_location_def kl_ok_def)

lemma get_put_disk_location [simp]: "dl_ok dl \<Longrightarrow> get_disk_location (put_disk_location dl @ p) = Some (dl, p)"
  by (cases dl) (simp add: get_disk_location_def put_disk_location_def dl_ok_def)

text \<open>A record whose fields are in range, and which has only the fields its operation uses.\<close>

definition jr_ok :: "journal_record \<Rightarrow> bool" where
  "jr_ok rec \<longleftrightarrow>
     jr_txn_id rec < 2 ^ 64 \<and> length (jr_key rec) < 2 ^ 32 \<and> kl_ok (jr_key_loc rec) \<and>
     jr_extent_id rec < 2 ^ 64 \<and> dl_ok (jr_extent_loc rec) \<and> jr_dead_length rec < 2 ^ 32 \<and> jr_crc rec < 2 ^ 32 \<and>
     (jr_op rec \<notin> {OP_KEY_PUT, OP_KEY_DEL} \<longrightarrow> jr_key rec = []) \<and>
     (jr_op rec \<noteq> OP_KEY_PUT \<longrightarrow> jr_key_loc rec = no_key_location) \<and>
     (jr_op rec \<notin> {OP_MARK_DEAD, OP_EXTENT_NEW, OP_EXTENT_FREE} \<longrightarrow> jr_extent_id rec = 0) \<and>
     (jr_op rec \<noteq> OP_EXTENT_NEW \<longrightarrow> jr_extent_loc rec = no_disk_location) \<and>
     (jr_op rec \<noteq> OP_MARK_DEAD \<longrightarrow> jr_dead_length rec = 0) \<and>
     (jr_op rec \<noteq> OP_TXN_COMMIT \<longrightarrow> jr_crc rec = 0)"

lemma deserialize_serialize:
  assumes "jr_ok rec"
  shows "deserialize_record (serialize_record rec @ p) = Some (rec, p)"
proof -
  obtain op txn k kl e dl dead crc where rec: "rec = \<lparr>jr_op = op, jr_txn_id = txn, jr_key = k,
      jr_key_loc = kl, jr_extent_id = e, jr_extent_loc = dl, jr_dead_length = dead, jr_crc = crc\<rparr>"
    by (cases rec)
  show ?thesis
    using assms unfolding rec jr_ok_def serialize_record_def deserialize_record_def
    by (auto simp: jr_new_def op_defs Let_def)
qed

subsection \<open>Progress of the parser\<close>

lemma get_bytes_less: "get_bytes n p = Some (b, q) \<Longrightarrow> length q + n = length p"
  by (auto simp: get_bytes_def split: if_splits)

lemma get_less:
  "get_u8 p = Some (b, q) \<Longrightarrow> length q < length p"
  "get_u32 p = Some (v, q) \<Longrightarrow> length q < length p"
  "get_u64 p = Some (w, q) \<Longrightarrow> length q < length p"
  "get_string p = Some (s, q) \<Longrightarrow> length q < length p"
  "get_key_location p = Some (kl, q) \<Longrightarrow> length q < length p"
  "get_disk_location p = Some (dl, q) \<Longrightarrow> length q < length p"
  by (auto simp: get_u8_def get_u32_def get_u64_def get_string_def get_key_location_def
      get_disk_location_def split: bind_splits dest!: get_bytes_less)

lemma deserialize_less: "deserialize_record p = Some (rec, q) \<Longrightarrow> length q < length p"
  by (auto simp: deserialize_record_def Let_def split: bind_splits if_splits dest!: get_less)

section \<open>State\<close>

definition kSuperblockSize :: u64 where "kSuperblockSize = 4096"
definition kDataStart :: u64 where "kDataStart = kSuperblockSize"
definition kTxnAlignment :: u64 where "kTxnAlignment = 4096"
definition JOURNAL_MAGIC :: u64 where "JOURNAL_MAGIC = 0x42544A5350423031"

lemmas journal_consts = kSuperblockSize_def kDataStart_def kTxnAlignment_def

record superblock =
  sb_magic :: u64
  sb_checkpoint_offset :: u64
  sb_checkpoint_seqno :: u64
  sb_write_offset :: u64
  sb_pad :: bytes

record txn_buffer =
  tb_records :: "journal_record list"
  tb_serialized :: bytes

record journal =
  j_data_size :: u64
  j_next_txn_id :: u64
  j_active :: "(u64 \<times> txn_buffer) list"
  j_super :: superblock
  j_write_offset :: u64

definition sb_new :: superblock where
  "sb_new = \<lparr>sb_magic = 0, sb_checkpoint_offset = 0, sb_checkpoint_seqno = 0, sb_write_offset = 0,
     sb_pad = replicate 4064 0\<rparr>"

definition sb_bytes :: "superblock \<Rightarrow> bytes" where
  "sb_bytes sb = put_u64 (sb_magic sb) @ put_u64 (sb_checkpoint_offset sb) @
     put_u64 (sb_checkpoint_seqno sb) @ put_u64 (sb_write_offset sb) @ sb_pad sb"

definition sb_of_bytes :: "bytes \<Rightarrow> superblock" where
  "sb_of_bytes bs = \<lparr>sb_magic = field_at 0 8 bs, sb_checkpoint_offset = field_at 8 8 bs,
     sb_checkpoint_seqno = field_at 16 8 bs, sb_write_offset = field_at 24 8 bs,
     sb_pad = take 4064 (drop 32 bs)\<rparr>"

section \<open>Superblock and raw writes\<close>

definition write_superblock :: "journal \<Rightarrow> kdev \<Rightarrow> int \<times> kdev" where
  "write_superblock j d =
     (let (r, d1) = kd_write 0 [sb_bytes (j_super j)] False d
      in if r < 0 then (r, d1) else kd_flush d1)"

definition read_superblock :: "journal \<Rightarrow> kdev \<Rightarrow> int \<times> journal \<times> kdev" where
  "read_superblock j d =
     (let (r, bl, d1) = kd_read 0 4096 False d
      in if r < 0 then (r, j, d1)
         else if length bl < 4096 then (- EIO, j, d1)
         else
           let sb = sb_of_bytes bl
           in if sb_magic sb \<noteq> JOURNAL_MAGIC
              then
                let j1 = j\<lparr>j_super := sb_new\<lparr>sb_magic := JOURNAL_MAGIC\<rparr>, j_write_offset := 0\<rparr>;
                    (r2, d2) = write_superblock j1 d1
                in (r2, j1, d2)
              else (0, j\<lparr>j_super := sb, j_write_offset := sb_write_offset sb\<rparr>, d1))"

text \<open>The constructor of \<open>Impl\<close> and of \<open>Journal\<close>.\<close>

definition j_empty :: "u64 \<Rightarrow> journal" where
  "j_empty dev_sz =
     \<lparr>j_data_size = (if dev_sz > kSuperblockSize then dev_sz - kSuperblockSize else 0),
      j_next_txn_id = 1, j_active = [], j_super = sb_new, j_write_offset = 0\<rparr>"

definition j_new :: "u64 \<Rightarrow> kdev \<Rightarrow> journal \<times> kdev" where
  "j_new dev_sz d = snd (read_superblock (j_empty dev_sz) d)"

definition padded_len :: "nat \<Rightarrow> u64" where
  "padded_len len =
     (let padded = round_up_to len kTxnAlignment in if padded = 0 then kTxnAlignment else padded)"

definition pad_and_write :: "bytes \<Rightarrow> journal \<Rightarrow> kdev \<Rightarrow> int \<times> journal \<times> kdev" where
  "pad_and_write bl j d =
     (let padded = padded_len (length bl);
          bl1 = (if padded > length bl then bl @ replicate (padded - length bl) 0 else bl);
          j1 = (if add64 (j_write_offset j) padded > j_data_size j then j\<lparr>j_write_offset := 0\<rparr> else j);
          abs_offset = add64 kDataStart (j_write_offset j1);
          (r, d1) = kd_write abs_offset [bl1] False d
      in if r < 0 then (r, j1, d1)
         else
           let w = add64 (j_write_offset j1) padded;
               j2 = j1\<lparr>j_write_offset := (if w \<ge> j_data_size j then 0 else w)\<rparr>;
               (r2, d2) = kd_flush d1
           in (r2, j2, d2))"

section \<open>Transactions\<close>

definition begin_txn :: "journal \<Rightarrow> u64 \<times> journal" where
  "begin_txn j =
     (let txn_id = j_next_txn_id j
      in (txn_id, j\<lparr>j_next_txn_id := add64 txn_id 1,
                    j_active := (if map_of (j_active j) txn_id = None
                      then AList.update txn_id \<lparr>tb_records = [], tb_serialized = []\<rparr> (j_active j)
                      else j_active j)\<rparr>))"

definition j_append :: "u64 \<Rightarrow> journal_record \<Rightarrow> journal \<Rightarrow> int \<times> journal" where
  "j_append txn_id rec j =
     (case map_of (j_active j) txn_id of
        None \<Rightarrow> (- ENOENT, j)
      | Some tb \<Rightarrow>
          let r = rec\<lparr>jr_txn_id := txn_id\<rparr>
          in (0, j\<lparr>j_active := AList.update txn_id
                    \<lparr>tb_records = tb_records tb @ [r],
                     tb_serialized = tb_serialized tb @ serialize_record r\<rparr> (j_active j)\<rparr>))"

definition data_crc :: "bytes \<Rightarrow> u32" where
  "data_crc bl = (if length bl > 0 then unat (calc_crc32 (Some bl) (length bl) 0) else 0)"

definition commit_record :: "u64 \<Rightarrow> u32 \<Rightarrow> journal_record" where
  "commit_record txn_id crc = (jr_new OP_TXN_COMMIT txn_id)\<lparr>jr_crc := crc\<rparr>"

definition commit_txn :: "u64 \<Rightarrow> journal \<Rightarrow> kdev \<Rightarrow> int \<times> journal \<times> kdev" where
  "commit_txn txn_id j d =
     (case map_of (j_active j) txn_id of
        None \<Rightarrow> (- ENOENT, j, d)
      | Some tb \<Rightarrow>
          let crc = data_crc (tb_serialized tb);
              txn_bl = serialize_record (jr_new OP_TXN_BEGIN txn_id) @ tb_serialized tb @
                serialize_record (commit_record txn_id crc);
              j1 = j\<lparr>j_active := AList.delete txn_id (j_active j)\<rparr>;
              (r, j2, d1) = pad_and_write txn_bl j1 d
          in if r < 0 then (r, j2, d1)
             else
               let j3 = j2\<lparr>j_super := (j_super j2)\<lparr>sb_write_offset := j_write_offset j2\<rparr>\<rparr>;
                   (r2, d2) = write_superblock j3 d1
               in (0, j3, d2))"

definition j_checkpoint :: "journal_record list \<Rightarrow> journal \<Rightarrow> kdev \<Rightarrow> int \<times> journal \<times> kdev" where
  "j_checkpoint full_state j d =
     (let records_bl = concat (map serialize_record full_state);
          crc = data_crc records_bl;
          bl = serialize_record (jr_new OP_TXN_BEGIN 0) @ serialize_record (jr_new OP_CHECKPOINT 0) @
            records_bl @ serialize_record (commit_record 0 crc);
          ckpt_start = j_write_offset j;
          (r, j1, d1) = pad_and_write bl j d
      in if r < 0 then (r, j1, d1)
         else
           let sb = (j_super j1)\<lparr>sb_checkpoint_offset := ckpt_start, sb_write_offset := j_write_offset j1,
                      sb_checkpoint_seqno := add64 (sb_checkpoint_seqno (j_super j1)) 1\<rparr>;
               j2 = j1\<lparr>j_super := sb\<rparr>;
               (r2, d2) = write_superblock j2 d1
           in (0, j2, d2))"

section \<open>Recovery\<close>

text \<open>
  The loop that reads the scan range, one chunk of at most 4 KiB at a time. \<open>remaining < to_read\<close> is
  only possible for a superblock whose offsets lie outside the data region, which the journal never
  writes; the model stops there instead of wrapping the counter.
\<close>

function scan_loop :: "u64 \<Rightarrow> u64 \<Rightarrow> u64 \<Rightarrow> bytes \<Rightarrow> kdev \<Rightarrow> bytes \<times> kdev" where
  "scan_loop data_size remaining pos acc d =
     (if remaining = 0 then (acc, d)
      else
        let n = min kTxnAlignment remaining;
            to_read = (if add64 pos n > data_size then sub64 data_size pos else n);
            (r, chunk, d1) = kd_read (add64 kDataStart pos) to_read True d
        in if r < 0 \<or> chunk = [] then (acc, d1)
           else if remaining < to_read then (acc @ chunk, d1)
           else
             let pos1 = add64 pos to_read
             in scan_loop data_size (remaining - to_read) (if pos1 \<ge> data_size then 0 else pos1)
                  (acc @ chunk) d1)"
  by auto
termination
proof (relation "measure (\<lambda>(ds, remaining, pos, acc, d). remaining)", goal_cases)
  case (2 data_size remaining pos acc d n to_read x r y chunk d1 pos1)
  then have "length chunk = to_read"
    using kd_read_spec [of "add64 kDataStart pos" to_read True d r chunk d1] by auto
  then show ?case using 2 by (cases chunk) auto
qed simp

declare scan_loop.simps [simp del]

text \<open>
  The loop that parses the records: \<open>off\<close> is the position of the iterator in \<open>full\<close>, and the
  transaction being read is \<open>None\<close> when \<open>in_txn\<close> is false.
\<close>

function parse_loop ::
  "bytes \<Rightarrow> nat \<Rightarrow> (u64 \<times> journal_record list) option \<Rightarrow> journal_record list \<Rightarrow> journal_record list option" where
  "parse_loop full off txn result =
     (if length full - off < 9 then Some result
      else
        case deserialize_record (drop off full) of
          None \<Rightarrow> None
        | Some (rec, rest) \<Rightarrow>
            let off1 = length full - length rest
            in if jr_op rec = 0
               then
                 let next_boundary = (off div kTxnAlignment + 1) * kTxnAlignment
                 in if next_boundary \<ge> length full then Some result
                    else parse_loop full next_boundary txn result
               else if jr_op rec = OP_TXN_BEGIN
               then parse_loop full off1 (Some (jr_txn_id rec, [])) result
               else if jr_op rec = OP_TXN_COMMIT
               then
                 parse_loop full off1 None
                   (case txn of
                      Some (tid, recs) \<Rightarrow>
                        if jr_txn_id rec = tid \<and> data_crc (concat (map serialize_record recs)) = jr_crc rec
                        then result @ recs else result
                    | None \<Rightarrow> result)
               else
                 parse_loop full off1
                   (case txn of
                      Some (tid, recs) \<Rightarrow>
                        Some (tid, if jr_op rec \<noteq> OP_CHECKPOINT then recs @ [rec] else recs)
                    | None \<Rightarrow> None)
                   result)"
  by auto
termination
proof (relation "measure (\<lambda>(full, off, txn, result). length full - off)", goal_cases)
  case (2 full off txn result a rec rest off1 nb)
  then have "off < nb" "nb < length full"
    using dividend_less_times_div [of kTxnAlignment off] by (auto simp: journal_consts algebra_simps)
  then show ?case by simp
qed (auto dest!: deserialize_less)

declare parse_loop.simps [simp del]

definition all_zeros :: "bytes \<Rightarrow> bool" where
  "all_zeros bs \<longleftrightarrow> (\<forall>b \<in> set bs. b = 0)"

text \<open>\<open>recover\<close>; \<open>None\<close> is an exception out of the parser.\<close>

definition scan_and_parse :: "journal \<Rightarrow> kdev \<Rightarrow> (journal_record list \<times> journal \<times> kdev) option" where
  "scan_and_parse j d =
     (let scan_start = sb_checkpoint_offset (j_super j);
          scan_end = j_write_offset j;
          scan_len = (if scan_end \<ge> scan_start then sub64 scan_end scan_start
                      else add64 (sub64 (j_data_size j) scan_start) scan_end);
          (full, d1) = scan_loop (j_data_size j) scan_len scan_start [] d
      in do { result \<leftarrow> parse_loop full 0 None []; Some (result, j, d1) })"

definition j_recover :: "journal \<Rightarrow> kdev \<Rightarrow> (journal_record list \<times> journal \<times> kdev) option" where
  "j_recover j d =
     (let (r, j1, d1) = read_superblock j d
      in if r < 0 then Some ([], j1, d1)
         else if sb_checkpoint_offset (j_super j1) = j_write_offset j1
         then
           if j_write_offset j1 = 0
           then
             let (r2, first, d2) = kd_read kDataStart kTxnAlignment True d1
             in if r2 < 0 \<or> first = [] \<or> all_zeros first then Some ([], j1, d2)
                else scan_and_parse j1 d2
           else Some ([], j1, d1)
         else scan_and_parse j1 d1)"

section \<open>Maintenance\<close>

definition j_sync :: "kdev \<Rightarrow> kdev" where
  "j_sync d = snd (kd_flush d)"

definition j_trim :: "journal \<Rightarrow> kdev \<Rightarrow> journal \<times> kdev" where
  "j_trim j d =
     (let j1 = j\<lparr>j_super := (j_super j)\<lparr>sb_checkpoint_offset := j_write_offset j,
                                       sb_write_offset := j_write_offset j\<rparr>\<rparr>
      in (j1, snd (write_superblock j1 d)))"

definition j_close :: "kdev \<Rightarrow> kdev" where
  "j_close d = snd (kd_flush d)"

definition j_used_bytes :: "journal \<Rightarrow> u64" where
  "j_used_bytes j =
     (let cp = sb_checkpoint_offset (j_super j); wp = j_write_offset j
      in if wp \<ge> cp then sub64 wp cp else add64 (sub64 (j_data_size j) cp) wp)"

definition j_get_usage :: "journal \<Rightarrow> rat" where
  "j_get_usage j =
     (if j_data_size j = 0 then 1 else f64 (f64 (of_nat (j_used_bytes j)) / f64 (of_nat (j_data_size j))))"

definition needs_checkpoint :: "journal \<Rightarrow> bool" where
  "needs_checkpoint j \<longleftrightarrow> f64 (80 / 100) \<le> j_get_usage j"

definition is_near_full :: "journal \<Rightarrow> bool" where
  "is_near_full j \<longleftrightarrow> f64 (95 / 100) \<le> j_get_usage j"

end
