(* ===== verification/Journal_Recovery.thy ===== *)
theory Journal_Recovery
  imports Journal
begin

text \<open>
  What the journal promises: after a crash, \<open>recover\<close> returns the records of the transactions that
  were committed since the last checkpoint, in order, and nothing else.
\<close>

section \<open>Parsing a txns\<close>

text \<open>A record a client may append: in range, and not one of the three framing records.\<close>

definition data_record :: "journal_record \<Rightarrow> bool" where
  "data_record rec \<longleftrightarrow> jr_ok rec \<and> jr_op rec \<in> {OP_KEY_PUT, OP_KEY_DEL, OP_MARK_DEAD, OP_EXTENT_NEW, OP_EXTENT_FREE}"

definition txn_body :: "u64 \<Rightarrow> bool \<Rightarrow> journal_record list \<Rightarrow> bytes" where
  "txn_body tid ckpt recs =
     serialize_record (jr_new OP_TXN_BEGIN tid) @
     (if ckpt then serialize_record (jr_new OP_CHECKPOINT tid) else []) @
     concat (map serialize_record recs) @
     serialize_record (commit_record tid (data_crc (concat (map serialize_record recs))))"

definition txn_image :: "bytes \<Rightarrow> bytes" where
  "txn_image bl = bl @ replicate (padded_len (length bl) - length bl) 0"

lemma length_put [simp]:
  "length (put_u8 b) = 1" "length (put_u32 v) = 4" "length (put_u64 w) = 8"
  by (simp_all add: put_u8_def put_u32_def put_u64_def)

lemma serialize_ge_9: "9 \<le> length (serialize_record rec)"
  by (simp add: serialize_record_def)

lemma jr_new_ok: "tid < 2 ^ 64 \<Longrightarrow> op \<in> {OP_TXN_BEGIN, OP_CHECKPOINT} \<Longrightarrow> jr_ok (jr_new op tid)"
  by (auto simp: jr_ok_def jr_new_def kl_ok_def dl_ok_def no_key_location_def no_disk_location_def op_defs)

lemma commit_record_ok: "tid < 2 ^ 64 \<Longrightarrow> crc < 2 ^ 32 \<Longrightarrow> jr_ok (commit_record tid crc)"
  by (auto simp: jr_ok_def jr_new_def commit_record_def kl_ok_def dl_ok_def no_key_location_def
      no_disk_location_def op_defs)

lemma crc_unat_less: "unat c < 2 ^ 32" for c :: crc
  using unsigned_less [of c] by simp

lemma data_crc_less: "data_crc bl < 2 ^ 32"
  using crc_unat_less [of "calc_crc32 (Some bl) (length bl) 0"] by (simp add: data_crc_def)

lemma drop_drop_append: "drop off full = xs @ ys \<Longrightarrow> drop (off + length xs) full = ys"
  by (metis add.commute append_eq_conv_conj drop_drop)

text \<open>One iteration of the parse loop on a well-formed record.\<close>

lemma parse_step:
  assumes "drop off full = serialize_record rec @ rest" and "jr_ok rec" and "jr_op rec \<noteq> 0"
  shows "parse_loop full off txn result =
    (if jr_op rec = OP_TXN_BEGIN
     then parse_loop full (off + length (serialize_record rec)) (Some (jr_txn_id rec, [])) result
     else if jr_op rec = OP_TXN_COMMIT
     then parse_loop full (off + length (serialize_record rec)) None
       (case txn of
          Some (tid, recs) \<Rightarrow>
            if jr_txn_id rec = tid \<and> data_crc (concat (map serialize_record recs)) = jr_crc rec
            then result @ recs else result
        | None \<Rightarrow> result)
     else parse_loop full (off + length (serialize_record rec))
       (case txn of
          Some (tid, recs) \<Rightarrow> Some (tid, if jr_op rec \<noteq> OP_CHECKPOINT then recs @ [rec] else recs)
        | None \<Rightarrow> None)
       result)"
proof -
  have len: "length full - off = length (serialize_record rec) + length rest"
    using arg_cong [OF assms(1), of length] by simp
  then have ge: "\<not> length full - off < 9" and off1: "length full - length rest = off + length (serialize_record rec)"
    using serialize_ge_9 [of rec] by linarith+
  show ?thesis
    unfolding parse_loop.simps [of full off] assms(1) deserialize_serialize [OF assms(2)]
    using ge assms(3) by (simp add: off1 Let_def)
qed

lemma parse_records:
  assumes "drop off full = concat (map serialize_record rs) @ rest" and "\<forall>r \<in> set rs. data_record r"
  shows "parse_loop full off (Some (tid, cur)) result =
    parse_loop full (off + length (concat (map serialize_record rs))) (Some (tid, cur @ rs)) result"
  using assms
proof (induction rs arbitrary: off cur)
  case Nil
  then show ?case by simp
next
  case (Cons r rs)
  have r: "jr_ok r" "jr_op r \<noteq> 0" "jr_op r \<noteq> OP_TXN_BEGIN" "jr_op r \<noteq> OP_TXN_COMMIT" "jr_op r \<noteq> OP_CHECKPOINT"
    using Cons.prems(2) by (auto simp: data_record_def op_defs)
  define off1 where "off1 = off + length (serialize_record r)"
  have here: "drop off full = serialize_record r @ (concat (map serialize_record rs) @ rest)"
    using Cons.prems(1) by simp
  then have there: "drop off1 full = concat (map serialize_record rs) @ rest"
    unfolding off1_def by (rule drop_drop_append)
  have "parse_loop full off (Some (tid, cur)) result = parse_loop full off1 (Some (tid, cur @ [r])) result"
    using r by (subst parse_step [OF here]) (simp_all add: off1_def)
  also have "\<dots> = parse_loop full (off1 + length (concat (map serialize_record rs))) (Some (tid, (cur @ [r]) @ rs)) result"
    using Cons.prems(2) by (intro Cons.IH there) simp
  finally show ?case by (simp add: off1_def add.assoc)
qed

lemma parse_body:
  assumes "drop off full = txn_body tid ckpt recs @ rest" and "\<forall>r \<in> set recs. data_record r" and "tid < 2 ^ 64"
  shows "parse_loop full off txn result =
    parse_loop full (off + length (txn_body tid ckpt recs)) None (result @ recs)"
proof -
  define B C R where "B = serialize_record (jr_new OP_TXN_BEGIN tid)"
    and "C = (if ckpt then serialize_record (jr_new OP_CHECKPOINT tid) else [])"
    and "R = concat (map serialize_record recs)"
  define T where "T = serialize_record (commit_record tid (data_crc R))"
  have body: "txn_body tid ckpt recs = B @ C @ R @ T"
    by (simp add: txn_body_def B_def C_def R_def T_def)
  have d0: "drop off full = B @ (C @ R @ T @ rest)" using assms(1) body by simp
  note d1 = drop_drop_append [OF d0]
  note d2 = drop_drop_append [OF d1]
  note d3 = drop_drop_append [OF d2]
  have ops: "jr_op (jr_new op t) = op" "jr_txn_id (jr_new op t) = t" for op t
    by (simp_all add: jr_new_def)
  have "parse_loop full off txn result = parse_loop full (off + length B) (Some (tid, [])) result"
    using parse_step [OF d0 [unfolded B_def] jr_new_ok [OF assms(3)]]
    by (simp add: B_def ops op_defs)
  also have "\<dots> = parse_loop full (off + length B + length C) (Some (tid, [])) result"
  proof (cases ckpt)
    case True
    then have d1': "drop (off + length B) full = serialize_record (jr_new OP_CHECKPOINT tid) @ (R @ T @ rest)"
      using d1 by (simp add: C_def)
    from parse_step [OF d1' jr_new_ok [OF assms(3)]] True show ?thesis
      by (simp add: C_def ops op_defs)
  qed (simp add: C_def)
  also have "\<dots> = parse_loop full (off + length B + length C + length R) (Some (tid, recs)) result"
    using parse_records [OF d2 [unfolded R_def] assms(2), of tid "[]" result] by (simp add: R_def)
  also have "\<dots> = parse_loop full (off + length B + length C + length R + length T) None (result @ recs)"
    using parse_step [OF d3 [unfolded T_def] commit_record_ok [OF assms(3) data_crc_less], of "Some (tid, recs)" result]
    by (simp add: T_def commit_record_def ops op_defs R_def)
  finally show ?thesis by (simp add: body add.assoc)
qed

text \<open>The zeros after a transaction are skipped.\<close>

lemma deserialize_zero:
  assumes "9 \<le> length p" and "hd p = 0"
  shows "\<exists>rec rest. deserialize_record p = Some (rec, rest) \<and> jr_op rec = 0"
proof -
  obtain q where p: "p = 0 # q" and "8 \<le> length q"
    using assms by (cases p) auto
  then have "get_u8 p = Some (0, q)" and "get_u64 q = Some (le_val (take 8 q), drop 8 q)"
    by (simp_all add: get_u8_def get_u64_def get_bytes_def)
  then show ?thesis
    by (simp add: deserialize_record_def jr_new_def op_defs Let_def)
qed

lemma parse_padding:
  assumes "drop off full = replicate k 0 @ rest" and "k < kTxnAlignment" and "kTxnAlignment dvd off + k"
  shows "parse_loop full off txn result = parse_loop full (off + k) txn result"
proof (cases "k = 0 \<or> length full - off < 9")
  case True
  have "parse_loop full o1 txn result = Some result" if "length full - o1 < 9" for o1
    using that by (simp add: parse_loop.simps)
  with True show ?thesis by (cases "k = 0") simp_all
next
  case False
  have "hd (drop off full) = 0" using assms(1) False by (cases k) simp_all
  then obtain rec rest' where des: "deserialize_record (drop off full) = Some (rec, rest')" and op: "jr_op rec = 0"
    using deserialize_zero [of "drop off full"] False by auto
  obtain c where c: "off + k = kTxnAlignment * c" using assms(3) by (rule dvdE)
  have "off div kTxnAlignment = c - 1"
    using c assms(2) False by (intro div_nat_eqI) (auto simp: journal_consts algebra_simps)
  then have nb: "(off div kTxnAlignment + 1) * kTxnAlignment = off + k"
    using c False by (cases c) (simp_all add: mult.commute)
  show ?thesis
  proof (cases "off + k \<ge> length full")
    case True
    then have "parse_loop full (off + k) txn result = Some result"
      by (simp add: parse_loop.simps)
    with True des op nb False show ?thesis by (simp add: parse_loop.simps [of full off] Let_def)
  next
    case inside: False
    with des op nb False show ?thesis by (simp add: parse_loop.simps [of full off] Let_def)
  qed
qed

lemma padded_len_props:
  assumes "0 < len" and "len < 2 ^ 63"
  shows "len \<le> padded_len len" and "padded_len len < len + kTxnAlignment" and "kTxnAlignment dvd padded_len len"
proof -
  have eq: "round_up_to len kTxnAlignment = (len + (kTxnAlignment - 1)) div kTxnAlignment * kTxnAlignment"
    using assms by (intro round_up_to_eq) (simp_all add: journal_consts)
  have "len \<le> round_up_to len kTxnAlignment" "round_up_to len kTxnAlignment < len + kTxnAlignment"
    unfolding eq by (rule ceil_mult_bounds; simp add: journal_consts)+
  moreover have "kTxnAlignment dvd round_up_to len kTxnAlignment" unfolding eq by simp
  ultimately show "len \<le> padded_len len" and "padded_len len < len + kTxnAlignment" and "kTxnAlignment dvd padded_len len"
    using assms(1) by (auto simp: padded_len_def Let_def)
qed

text \<open>A log is a list of transactions: identifier, whether it is a checkpoint, and records.\<close>

type_synonym log_entry = "u64 \<times> bool \<times> journal_record list"

fun entry_image :: "log_entry \<Rightarrow> bytes" where
  "entry_image (tid, ckpt, recs) = txn_image (txn_body tid ckpt recs)"

fun entry_ok :: "log_entry \<Rightarrow> bool" where
  "entry_ok (tid, ckpt, recs) \<longleftrightarrow>
     tid < 2 ^ 64 \<and> (\<forall>r \<in> set recs. data_record r) \<and> length (txn_body tid ckpt recs) < 2 ^ 29"

definition log_records :: "log_entry list \<Rightarrow> journal_record list" where
  "log_records txns = concat (map (\<lambda>(tid, ckpt, recs). recs) txns)"

lemma txn_body_pos: "0 < length (txn_body tid ckpt recs)"
  using serialize_ge_9 [of "jr_new OP_TXN_BEGIN tid"] unfolding txn_body_def length_append by linarith

lemma entry_image_length:
  assumes "entry_ok (tid, ckpt, recs)"
  shows "length (entry_image (tid, ckpt, recs)) = padded_len (length (txn_body tid ckpt recs))"
    and "kTxnAlignment dvd length (entry_image (tid, ckpt, recs))"
    and "0 < length (entry_image (tid, ckpt, recs))" and "length (entry_image (tid, ckpt, recs)) < 2 ^ 30"
proof -
  have small: "length (txn_body tid ckpt recs) < 2 ^ 29" using assms by simp
  then have "length (txn_body tid ckpt recs) < 2 ^ 63" by simp
  note p = padded_len_props [OF txn_body_pos this]
  show len: "length (entry_image (tid, ckpt, recs)) = padded_len (length (txn_body tid ckpt recs))"
    using p(1) small by (simp add: txn_image_def)
  show "kTxnAlignment dvd length (entry_image (tid, ckpt, recs))"
    unfolding len using p(3) small by simp
  show "0 < length (entry_image (tid, ckpt, recs))"
    unfolding len using p(1) txn_body_pos [of tid ckpt recs] by linarith
  show "length (entry_image (tid, ckpt, recs)) < 2 ^ 30"
    unfolding len using p(2) small by (simp add: journal_consts)
qed

lemma parse_entry:
  assumes "drop off full = entry_image en @ rest" and "entry_ok en" and "kTxnAlignment dvd off"
  shows "parse_loop full off txn result = parse_loop full (off + length (entry_image en)) None (result @ log_records [en])"
proof -
  obtain tid ckpt recs where en: "en = (tid, ckpt, recs)" by (cases en)
  define body where "body = txn_body tid ckpt recs"
  define k where "k = padded_len (length body) - length body"
  have d0: "drop off full = body @ (replicate k 0 @ rest)"
    using assms(1) by (simp add: en txn_image_def body_def k_def)
  have len: "length (entry_image en) = length body + k"
    by (simp add: en txn_image_def body_def k_def)
  have "length body < 2 ^ 63" using assms(2) by (simp add: en body_def)
  then have k: "k < kTxnAlignment"
    using padded_len_props(1,2) [OF txn_body_pos, of tid ckpt recs] unfolding k_def body_def by linarith
  have "kTxnAlignment dvd off + length (entry_image en)"
    using entry_image_length(2) [OF assms(2) [unfolded en]] assms(3) by (simp only: en dvd_add)
  then have al: "kTxnAlignment dvd off + length body + k" by (simp add: len add.assoc)
  have "parse_loop full off txn result = parse_loop full (off + length body) None (result @ recs)"
    using parse_body [OF d0 [unfolded body_def]] assms(2) by (simp add: en body_def)
  also have "\<dots> = parse_loop full (off + length body + k) None (result @ recs)"
    by (rule parse_padding [OF drop_drop_append [OF d0] k al])
  finally show ?thesis unfolding len by (simp add: add.assoc en log_records_def)
qed

lemma parse_log_from:
  assumes "drop off full = concat (map entry_image txns)" and "\<forall>en \<in> set txns. entry_ok en" and "kTxnAlignment dvd off"
  shows "parse_loop full off txn result = Some (result @ log_records txns)"
  using assms
proof (induction txns arbitrary: off txn result)
  case Nil
  then show ?case by (simp add: parse_loop.simps log_records_def)
next
  case (Cons en txns)
  have d: "drop off full = entry_image en @ concat (map entry_image txns)" using Cons.prems(1) by simp
  have al: "kTxnAlignment dvd length (entry_image en)"
    using Cons.prems(2) entry_image_length(2) by (cases en) simp
  have "parse_loop full off txn result =
      parse_loop full (off + length (entry_image en)) None (result @ log_records [en])"
    using Cons.prems by (intro parse_entry [OF d]) simp_all
  also have "\<dots> = Some ((result @ log_records [en]) @ log_records txns)"
    using Cons.prems al by (intro Cons.IH drop_drop_append [OF d]) simp_all
  finally show ?case by (simp add: log_records_def)
qed

lemma parse_log:
  "\<forall>en \<in> set txns. entry_ok en \<Longrightarrow> parse_loop (concat (map entry_image txns)) 0 None [] = Some (log_records txns)"
  using parse_log_from [of 0 "concat (map entry_image txns)" txns None "[]"] by simp

section \<open>A working device\<close>

text \<open>
  All system calls succeed and transfer what they can, the device is open, and its block size
  divides the alignment of the journal.
\<close>

definition healthy :: "kdev \<Rightarrow> bool" where
  "healthy d \<longleftrightarrow> (\<forall>t. \<exists>k. sys d t = Done k \<and> MAX_RW_COUNT \<le> k)"

definition dev_ready :: "kdev \<Rightarrow> bool" where
  "dev_ready d \<longleftrightarrow> healthy d \<and> fd_open d \<and> isp2 (dev_block d) \<and> dev_block d dvd 4096 \<and>
     dev_size d \<le> file_len d \<and> dev_size d < 2 ^ 63"

lemma healthy_no_short: "healthy d \<Longrightarrow> no_short d"
  unfolding healthy_def no_short_def by (metis sysret.inject(1))

lemma dev_ready_frame: "dev_ready d \<Longrightarrow> dev_frame d e \<Longrightarrow> dev_ready e"
  by (simp add: dev_ready_def dev_frame_def healthy_def)

lemma write_loop_healthy: "healthy d \<Longrightarrow> fst (write_loop off iov d) = None"
proof (induction off iov d rule: write_loop.induct)
  case (1 off iov d)
  show ?case
  proof (cases "concat iov = []")
    case True
    then show ?thesis by (simp add: write_loop.simps del: concat_eq_Nil_conv)
  next
    case False
    obtain r d1 where pw: "sys_pwritev off iov d = (r, d1)" by fastforce
    have "healthy d1"
      using 1(2) sys_pwritev_spec [OF pw False] by (simp add: healthy_def dev_frame_def)
    moreover have "\<not> r < 0"
    proof -
      obtain k where "sys d (tick d) = Done k" using 1(2) by (auto simp: healthy_def)
      with pw show ?thesis by (auto simp: sys_pwritev_def Let_def)
    qed
    ultimately have "fst (write_loop (add64 off (nat r)) (advance_iov (nat r) iov) d1) = None"
      using 1(1) [OF False refl pw [symmetric]] by blast
    then show ?thesis
      using False pw \<open>\<not> r < 0\<close> by (subst write_loop.simps) (simp del: concat_eq_Nil_conv)
  qed
qed

lemma block_and_zero:
  assumes "dev_ready d" and "4096 dvd x"
  shows "x AND sub64 (dev_block d) 1 = 0"
proof -
  have b: "isp2 (dev_block d)" "dev_block d dvd 4096" using assms(1) by (auto simp: dev_ready_def)
  then have "dev_block d \<le> 4096" by (intro dvd_imp_le) simp_all
  then have "p2phase x (dev_block d) = x mod dev_block d"
    by (intro p2phase_eq b) simp
  also have "\<dots> = 0" using b(2) assms(2) by (meson dvd_trans mod_0_imp_dvd dvd_eq_mod_eq_0)
  finally show ?thesis by (simp add: p2phase_def)
qed

lemma ready_valid_io:
  assumes "dev_ready d" and "4096 dvd off" and "4096 dvd len" and "0 < len" and "off + len \<le> dev_size d"
  shows "is_valid_io off len d"
proof -
  have "add64 off len = off + len"
    using assms(1,5) by (intro add64_exact) (simp add: dev_ready_def)
  then show ?thesis
    using assms block_and_zero [OF assms(1,2)] block_and_zero [OF assms(1,3)] by (simp add: is_valid_io_def)
qed

lemma ready_write:
  assumes "dev_ready d" and "4096 dvd off" and "4096 dvd length bl" and "bl \<noteq> []"
    and "off + length bl \<le> dev_size d" and "length bl < 2 ^ 31"
  obtains e where "kd_write off [bl] False d = (int (length bl), e)" and "dev_ready e" and "dev_frame d e"
    and "contents e = patch off bl (contents d)" and "stable e = stable d" and "io_since_flush e"
proof -
  obtain r e where w: "kd_write off [bl] False d = (r, e)" by fastforce
  have "is_valid_io off (length bl) d" using assms by (intro ready_valid_io) simp_all
  moreover have "healthy d" "fd_open d" "dev_size d < 2 ^ 63" using assms(1) by (auto simp: dev_ready_def)
  ultimately have "r = int (length bl)"
    using w write_loop_healthy [of d off "[bl]"] assms(6)
    by (auto simp: kd_write_def to_i32_small split: prod.splits option.splits)
  with kd_write_spec [OF w] assms(5,6) \<open>dev_size d < 2 ^ 63\<close> w dev_ready_frame [OF assms(1)] that
  show ?thesis by auto
qed

lemma ready_read:
  assumes "dev_ready d" and "buffered \<or> is_valid_io off len d" and "off + len \<le> dev_size d" and "len < 2 ^ 30"
  obtains r e where "kd_read off len buffered d = (r, slice (contents d) off len, e)" and "0 \<le> r"
    and "dev_ready e" and "dev_frame d e" and "contents e = contents d" and "stable e = stable d"
proof -
  obtain r bs e where rd: "kd_read off len buffered d = (r, bs, e)" by (metis prod_cases3)
  note sp = kd_read_spec [OF rd]
  obtain k where "sys d (tick d) = Done k" using assms(1) by (auto simp: dev_ready_def healthy_def)
  then have r: "0 \<le> r"
    using rd assms(1,2) by (auto simp: kd_read_def sys_pread_def dev_ready_def Let_def)
  have "bs = slice (contents d) off len"
    using assms by (intro kd_read_full [OF rd r healthy_no_short])
      (auto simp: dev_ready_def MAX_RW_COUNT_def)
  with rd have rd': "kd_read off len buffered d = (r, slice (contents d) off len, e)" by simp
  show ?thesis
    by (rule that [OF rd' r]) (use sp dev_ready_frame [OF assms(1)] in auto)
qed

lemma ready_flush:
  assumes "dev_ready d"
  obtains e where "kd_flush d = (0, e)" and "dev_ready e" and "dev_frame d e" and "contents e = contents d"
    and "io_since_flush d \<Longrightarrow> stable e = contents d"
proof -
  obtain k where "sys d (tick d) = Done k" "fd_open d" using assms by (auto simp: dev_ready_def healthy_def)
  then have "fst (kd_flush d) = 0" "dev_frame d (snd (kd_flush d))" "contents (snd (kd_flush d)) = contents d"
    "io_since_flush d \<Longrightarrow> stable (snd (kd_flush d)) = contents d"
    by (auto simp: kd_flush_def Let_def dev_frame_def)
  then show ?thesis
    using that [of "snd (kd_flush d)"] dev_ready_frame [OF assms] by (auto simp: prod_eq_iff)
qed

section \<open>The on-disk state of the journal\<close>

definition sb_ok :: "superblock \<Rightarrow> bool" where
  "sb_ok sb \<longleftrightarrow> sb_magic sb = JOURNAL_MAGIC \<and> sb_checkpoint_offset sb < 2 ^ 64 \<and>
     sb_checkpoint_seqno sb < 2 ^ 64 \<and> sb_write_offset sb < 2 ^ 64 \<and> length (sb_pad sb) = 4064"

lemma length_sb_bytes [simp]: "length (sb_pad sb) = 4064 \<Longrightarrow> length (sb_bytes sb) = 4096"
  by (simp add: sb_bytes_def)

lemma sb_round_trip: "sb_ok sb \<Longrightarrow> sb_of_bytes (sb_bytes sb) = sb"
  unfolding sb_of_bytes_def sb_bytes_def sb_ok_def put_u64_def
  by (cases sb) (simp add: field_at_skip field_at_here JOURNAL_MAGIC_def)

text \<open>
  The journal \<open>j\<close> of \<open>sz\<close> bytes on device \<open>d\<close> holds the log: the superblock on disk is the one in memory,
  and the bytes between the two offsets are the images of the transactions. The write head has not
  reached the end of the data region yet.
\<close>

definition journal_holds :: "u64 \<Rightarrow> log_entry list \<Rightarrow> journal \<Rightarrow> kdev \<Rightarrow> bool" where
  "journal_holds sz txns j d \<longleftrightarrow>
     dev_ready d \<and> sz \<le> dev_size d \<and> kSuperblockSize < sz \<and> j_data_size j = sz - kSuperblockSize \<and>
     sb_ok (j_super j) \<and> slice (contents d) 0 4096 = sb_bytes (j_super j) \<and>
     sb_write_offset (j_super j) = j_write_offset j \<and>
     sb_checkpoint_offset (j_super j) \<le> j_write_offset j \<and> j_write_offset j < j_data_size j \<and>
     kTxnAlignment dvd j_write_offset j \<and>
     (\<forall>en \<in> set txns. entry_ok en) \<and>
     slice (contents d) (kDataStart + sb_checkpoint_offset (j_super j))
       (j_write_offset j - sb_checkpoint_offset (j_super j)) = concat (map entry_image txns)"

lemma scan_loop_ok:
  assumes "dev_ready d" and "pos + remaining \<le> ds" and "kDataStart + ds \<le> dev_size d"
  shows "\<exists>e. scan_loop ds remaining pos acc d = (acc @ slice (contents d) (kDataStart + pos) remaining, e) \<and>
    dev_ready e \<and> dev_frame d e \<and> contents e = contents d"
  using assms
proof (induction remaining arbitrary: pos acc d rule: less_induct)
  case (less remaining)
  show ?case
  proof (cases "remaining = 0")
    case True
    with less.prems show ?thesis by (simp add: scan_loop.simps slice_def)
  next
    case False
    define n where "n = min kTxnAlignment remaining"
    have n: "0 < n" "n \<le> remaining" "n < 2 ^ 30" "kDataStart + pos + n \<le> dev_size d" "dev_size d < 2 ^ 63"
      using False less.prems by (auto simp: n_def journal_consts dev_ready_def)
    then have ad: "add64 pos n = pos + n" "add64 kDataStart pos = kDataStart + pos"
      using less.prems by (auto intro!: add64_exact)
    obtain r d1 where rd: "kd_read (kDataStart + pos) n True d = (r, slice (contents d) (kDataStart + pos) n, d1)"
      and r: "0 \<le> r" and d1: "dev_ready d1" "dev_frame d d1" "contents d1 = contents d"
      by (rule ready_read [OF less.prems(1), of True "kDataStart + pos" n]) (use n in auto)
    define pos1 where "pos1 = (if pos + n \<ge> ds then 0 else pos + n)"
    have step: "scan_loop ds remaining pos acc d =
        scan_loop ds (remaining - n) pos1 (acc @ slice (contents d) (kDataStart + pos) n) d1"
    proof -
      have "slice (contents d) (kDataStart + pos) n \<noteq> []"
        using n(1) length_slice [of "contents d" "kDataStart + pos" n] by (metis list.size(3) less_irrefl)
      then show ?thesis
        using False n less.prems(2) rd r
        by (subst scan_loop.simps) (simp add: n_def [symmetric] ad pos1_def Let_def)
    qed
    have "dev_size d1 = dev_size d" using d1(2) by (simp add: dev_frame_def)
    moreover have "pos1 + (remaining - n) \<le> ds" using n less.prems(2) by (auto simp: pos1_def)
    ultimately obtain e where e: "scan_loop ds (remaining - n) pos1 (acc @ slice (contents d) (kDataStart + pos) n) d1 =
        ((acc @ slice (contents d) (kDataStart + pos) n) @ slice (contents d1) (kDataStart + pos1) (remaining - n), e)"
      "dev_ready e" "dev_frame d1 e" "contents e = contents d1"
      using less.IH [of "remaining - n" d1 pos1] n d1(1) less.prems(3) by fastforce
    have "slice (contents d) (kDataStart + pos1) (remaining - n) = slice (contents d) (kDataStart + pos + n) (remaining - n)"
      using n less.prems(2) by (auto simp: pos1_def add.assoc slice_def)
    moreover have "slice (contents d) (kDataStart + pos) remaining =
        slice (contents d) (kDataStart + pos) n @ slice (contents d) (kDataStart + pos + n) (remaining - n)"
      using slice_append [of "contents d" "kDataStart + pos" n "remaining - n"] n by simp
    ultimately show ?thesis
      using step e d1 dev_frame_trans [OF d1(2)] by simp
  qed
qed

lemma journal_holds_frame:
  assumes "journal_holds sz txns j d" and "dev_ready e" and "dev_frame d e" and "contents e = contents d"
    and "j_super j' = j_super j" and "j_write_offset j' = j_write_offset j" and "j_data_size j' = j_data_size j"
  shows "journal_holds sz txns j' e"
  using assms by (simp add: journal_holds_def dev_frame_def)

lemma read_superblock_sb:
  assumes "dev_ready d" and "4096 < dev_size d" and "sb_ok sb" and "slice (contents d) 0 4096 = sb_bytes sb"
  obtains e where "read_superblock j0 d = (0, j0\<lparr>j_super := sb, j_write_offset := sb_write_offset sb\<rparr>, e)"
    and "dev_ready e" and "dev_frame d e" and "contents e = contents d" and "stable e = stable d"
proof -
  have v: "is_valid_io 0 4096 d" using assms by (intro ready_valid_io) auto
  obtain r e where "kd_read 0 4096 False d = (r, slice (contents d) 0 4096, e)" and "0 \<le> r"
    and e: "dev_ready e" "dev_frame d e" "contents e = contents d" "stable e = stable d"
    by (rule ready_read [OF assms(1) disjI2 [OF v]]) (use assms(2) in auto)
  then have "read_superblock j0 d = (0, j0\<lparr>j_super := sb, j_write_offset := sb_write_offset sb\<rparr>, e)"
    using assms(3,4) sb_round_trip [OF assms(3)] by (simp add: read_superblock_def sb_ok_def)
  then show ?thesis using that e by blast
qed

lemma read_superblock_ok:
  assumes "journal_holds sz txns j d"
  obtains e where "read_superblock j0 d = (0, j0\<lparr>j_super := j_super j, j_write_offset := j_write_offset j\<rparr>, e)"
    and "dev_ready e" and "dev_frame d e" and "contents e = contents d" and "stable e = stable d"
proof -
  have h: "dev_ready d" "4096 < dev_size d" "sb_ok (j_super j)" "slice (contents d) 0 4096 = sb_bytes (j_super j)"
    and w: "sb_write_offset (j_super j) = j_write_offset j"
    using assms by (auto simp: journal_holds_def journal_consts)
  show ?thesis by (rule read_superblock_sb [OF h, of j0]) (use w that in auto)
qed

lemma j_new_ok:
  assumes "journal_holds sz txns j d"
  shows "\<exists>j' e. j_new sz d = (j', e) \<and> journal_holds sz txns j' e \<and> j_active j' = [] \<and>
    j_next_txn_id j' = 1 \<and> j_data_size j' = j_data_size j \<and> dev_frame d e \<and> contents e = contents d \<and> stable e = stable d"
proof -
  obtain e where r: "read_superblock (j_empty sz) d =
      (0, (j_empty sz)\<lparr>j_super := j_super j, j_write_offset := j_write_offset j\<rparr>, e)"
    and e: "dev_ready e" "dev_frame d e" "contents e = contents d" "stable e = stable d"
    by (rule read_superblock_ok [OF assms])
  have "journal_holds sz txns ((j_empty sz)\<lparr>j_super := j_super j, j_write_offset := j_write_offset j\<rparr>) e"
    by (rule journal_holds_frame [OF assms e(1-3)]) (use assms in \<open>simp_all add: journal_holds_def j_empty_def\<close>)
  then show ?thesis using r e assms by (simp add: j_new_def j_empty_def journal_holds_def)
qed

lemma j_recover_ok:
  assumes hold: "journal_holds sz txns j d" and ds: "j_data_size j0 = j_data_size j"
  shows "\<exists>j1 e. j_recover j0 d = Some (log_records txns, j1, e) \<and> journal_holds sz txns j1 e \<and>
    j1 = j0\<lparr>j_super := j_super j, j_write_offset := j_write_offset j\<rparr> \<and> dev_frame d e \<and> contents e = contents d"
proof -
  define j1 where "j1 = j0\<lparr>j_super := j_super j, j_write_offset := j_write_offset j\<rparr>"
  define c w where "c = sb_checkpoint_offset (j_super j)" and "w = j_write_offset j"
  obtain d1 where sb: "read_superblock j0 d = (0, j1, d1)"
    and d1: "dev_ready d1" "dev_frame d d1" "contents d1 = contents d"
    unfolding j1_def by (rule read_superblock_ok [OF hold])
  have h1: "journal_holds sz txns j1 d1"
    by (rule journal_holds_frame [OF hold d1]) (use ds in \<open>simp_all add: j1_def\<close>)
  have geo: "c \<le> w" "w < j_data_size j1" "kDataStart + j_data_size j1 \<le> dev_size d1" "dev_size d1 < 2 ^ 63"
    and img: "slice (contents d1) (kDataStart + c) (w - c) = concat (map entry_image txns)"
    and ok: "\<forall>en \<in> set txns. entry_ok en"
    using h1 by (auto simp: journal_holds_def c_def w_def j1_def journal_consts dev_ready_def)
  have scan: "\<exists>e. scan_and_parse j1 d2 = Some (log_records txns, j1, e) \<and> dev_ready e \<and> dev_frame d2 e \<and> contents e = contents d2"
    if d2: "dev_ready d2" "dev_frame d1 d2" "contents d2 = contents d1" for d2
  proof -
    have "kDataStart + j_data_size j1 \<le> dev_size d2" using d2(2) geo(3) by (simp add: dev_frame_def)
    then obtain e where e: "scan_loop (j_data_size j1) (w - c) c [] d2 = (concat (map entry_image txns), e)"
      "dev_ready e" "dev_frame d2 e" "contents e = contents d2"
      using scan_loop_ok [OF d2(1), of c "w - c" "j_data_size j1" "[]"] geo img d2(3) by auto
    have "sub64 w c = w - c" using geo by (intro sub64_exact) auto
    then show ?thesis
      using e geo(1) parse_log [OF ok] by (auto simp: scan_and_parse_def Let_def j1_def c_def [symmetric] w_def [symmetric])
  qed
  have run: "\<exists>e. j_recover j0 d = Some (log_records txns, j1, e) \<and> dev_ready e \<and> dev_frame d1 e \<and> contents e = contents d1"
  proof (cases "c = w")
    case False
    then show ?thesis
      using scan [OF d1(1)] by (simp add: j_recover_def sb) (simp add: j1_def c_def w_def)
  next
    case True
    then have "concat (map entry_image txns) = []" using img by (simp add: slice_def)
    then have nil: "log_records txns = []"
      using ok entry_image_length(3) by (cases txns) (fastforce simp: log_records_def)+
    show ?thesis
    proof (cases "w = 0")
      case True
      obtain r2 bs d2 where rd: "kd_read kDataStart kTxnAlignment True d1 = (r2, bs, d2)" by (metis prod_cases3)
      from kd_read_spec [OF rd] have d2: "dev_ready d2" "dev_frame d1 d2" "contents d2 = contents d1"
        using dev_ready_frame [OF d1(1)] by auto
      from scan [OF d2] obtain e where e: "scan_and_parse j1 d2 = Some (log_records txns, j1, e)"
        "dev_ready e" "dev_frame d2 e" "contents e = contents d2"
        by blast
      have "j_recover j0 d = Some (log_records txns, j1, d2) \<or> j_recover j0 d = Some (log_records txns, j1, e)"
        using rd nil e(1) True \<open>c = w\<close> by (simp add: j_recover_def sb) (simp add: j1_def c_def w_def)
      then show ?thesis
        using d2 e dev_frame_trans [OF d2(2) e(3)] by auto
    next
      case False
      then show ?thesis
        using True nil d1 by (simp add: j_recover_def sb) (simp add: j1_def c_def w_def)
    qed
  qed
  then obtain e where e: "j_recover j0 d = Some (log_records txns, j1, e)" "dev_ready e" "dev_frame d1 e" "contents e = contents d1"
    by blast
  have "journal_holds sz txns j1 e" by (rule journal_holds_frame [OF h1 e(2-4)]) simp_all
  then show ?thesis
    using e d1 dev_frame_trans [OF d1(2) e(3)] by (auto simp: j1_def)
qed

section \<open>Appending to the txns\<close>

text \<open>Room for a transaction before the end of the data region.\<close>

definition has_room :: "journal \<Rightarrow> nat \<Rightarrow> bool" where
  "has_room j len \<longleftrightarrow> j_write_offset j + padded_len len < j_data_size j"

lemma pad_and_write_fits:
  assumes hold: "journal_holds sz txns j d" and ok: "entry_ok (tid, ckpt, recs)"
    and room: "j_write_offset j + padded_len (length (txn_body tid ckpt recs)) \<le> j_data_size j"
  obtains e where
    "pad_and_write (txn_body tid ckpt recs) j d =
       (0, j\<lparr>j_write_offset := (if j_write_offset j + length (entry_image (tid, ckpt, recs)) = j_data_size j then 0
             else j_write_offset j + length (entry_image (tid, ckpt, recs)))\<rparr>, e)"
    and "dev_ready e" and "dev_frame d e"
    and "contents e = patch (kDataStart + j_write_offset j) (entry_image (tid, ckpt, recs)) (contents d)"
    and "stable e = contents e"
proof -
  define bl img w where "bl = txn_body tid ckpt recs" and "img = entry_image (tid, ckpt, recs)"
    and "w = j_write_offset j"
  note len = entry_image_length [OF ok, folded bl_def img_def]
  have d: "dev_ready d" "kDataStart + j_data_size j \<le> dev_size d" "dev_size d < 2 ^ 63" "kTxnAlignment dvd w"
    using hold by (auto simp: journal_holds_def journal_consts dev_ready_def w_def)
  have fit: "w + length img \<le> j_data_size j"
    using room len(1) by (simp add: bl_def w_def)
  have "length bl < 2 ^ 63" using ok by (simp add: bl_def)
  then have pl: "length bl \<le> padded_len (length bl)"
    using padded_len_props(1) [OF txn_body_pos] by (simp add: bl_def)
  have bl1: "(if padded_len (length bl) > length bl then bl @ replicate (padded_len (length bl) - length bl) 0 else bl) = img"
    using pl by (auto simp: img_def bl_def txn_image_def)
  have ad: "add64 w (length img) = w + length img" "add64 kDataStart w = kDataStart + w"
    using fit d by (auto intro!: add64_exact)
  have ne: "img \<noteq> []" using len(3) by auto
  have al: "4096 dvd kDataStart + w" "4096 dvd length img"
    using d(4) len(2) by (auto simp: journal_consts)
  obtain d1 where wr: "kd_write (kDataStart + w) [img] False d = (int (length img), d1)"
    and d1: "dev_ready d1" "dev_frame d d1" "contents d1 = patch (kDataStart + w) img (contents d)" "io_since_flush d1"
    by (rule ready_write [OF d(1) al(1) al(2) ne]) (use fit d(2) len(4) in auto)
  obtain e where fl: "kd_flush d1 = (0, e)" "dev_ready e" "dev_frame d1 e" "contents e = contents d1"
    "stable e = contents d1"
    using ready_flush [OF d1(1)] d1(4) by metis
  have "pad_and_write bl j d =
      (0, j\<lparr>j_write_offset := (if w + length img = j_data_size j then 0 else w + length img)\<rparr>, e)"
    unfolding pad_and_write_def Let_def bl1 unfolding len(1) [symmetric]
    using fit ad wr fl(1) by (auto simp: w_def)
  then show ?thesis
    using that [of e] fl d1 dev_frame_trans [OF d1(2)] by (simp add: bl_def img_def w_def)
qed

lemma pad_and_write_ok:
  assumes hold: "journal_holds sz txns j d" and ok: "entry_ok (tid, ckpt, recs)"
    and room: "has_room j (length (txn_body tid ckpt recs))"
  obtains e where
    "pad_and_write (txn_body tid ckpt recs) j d =
       (0, j\<lparr>j_write_offset := j_write_offset j + length (entry_image (tid, ckpt, recs))\<rparr>, e)"
    and "dev_ready e" and "dev_frame d e"
    and "contents e = patch (kDataStart + j_write_offset j) (entry_image (tid, ckpt, recs)) (contents d)"
    and "stable e = contents e"
proof -
  have lt: "j_write_offset j + length (entry_image (tid, ckpt, recs)) < j_data_size j"
    using room entry_image_length(1) [OF ok] unfolding has_room_def by simp
  have le: "j_write_offset j + padded_len (length (txn_body tid ckpt recs)) \<le> j_data_size j"
    using room by (simp add: has_room_def)
  show ?thesis
    by (rule pad_and_write_fits [OF hold ok le], rule that) (use lt in \<open>auto simp del: entry_image.simps\<close>)
qed

lemma write_superblock_ok:
  assumes "dev_ready d" and "4096 < dev_size d" and "sb_ok (j_super j)"
  obtains e where "write_superblock j d = (0, e)" and "dev_ready e" and "dev_frame d e"
    and "contents e = patch 0 (sb_bytes (j_super j)) (contents d)" and "stable e = contents e"
proof -
  have len: "length (sb_bytes (j_super j)) = 4096" using assms(3) by (simp add: sb_ok_def)
  then have ne: "sb_bytes (j_super j) \<noteq> []" by auto
  obtain d1 where wr: "kd_write 0 [sb_bytes (j_super j)] False d = (int (length (sb_bytes (j_super j))), d1)"
    and d1: "dev_ready d1" "dev_frame d d1" "contents d1 = patch 0 (sb_bytes (j_super j)) (contents d)" "io_since_flush d1"
    by (rule ready_write [OF assms(1) _ _ ne, of 0]) (use len assms(2) in auto)
  obtain e where fl: "kd_flush d1 = (0, e)" "dev_ready e" "dev_frame d1 e" "contents e = contents d1"
    "stable e = contents d1"
    using ready_flush [OF d1(1)] d1(4) by metis
  have "write_superblock j d = (0, e)" using wr fl(1) by (simp add: write_superblock_def)
  then show ?thesis
    using that [of e] fl d1 dev_frame_trans [OF d1(2)] by simp
qed

text \<open>The data region does not overlap the superblock.\<close>

lemma journal_holds_write:
  assumes hold: "journal_holds sz txns j d" and "dev_ready e" and "dev_frame d e"
    and cont: "contents e = patch (kDataStart + j_write_offset j) bs (contents d)"
    and j': "j_super j' = j_super j" "j_write_offset j' = j_write_offset j" "j_data_size j' = j_data_size j"
  shows "journal_holds sz txns j' e"
proof -
  define c w where "c = sb_checkpoint_offset (j_super j)" and "w = j_write_offset j"
  have "c \<le> w" using hold by (simp add: journal_holds_def c_def w_def)
  then have "slice (contents e) (kDataStart + c) (w - c) = slice (contents d) (kDataStart + c) (w - c)"
    and "slice (contents e) 0 4096 = slice (contents d) 0 4096"
    unfolding cont by (auto intro!: slice_patch_disjoint simp: w_def journal_consts)
  then show ?thesis
    using assms by (auto simp: journal_holds_def dev_frame_def c_def w_def)
qed

text \<open>Writing a transaction and then a superblock that covers it.\<close>

lemma journal_holds_extend:
  assumes hold: "journal_holds sz txns j d" and ok: "entry_ok en" and fits: "w' < j_data_size j"
    and w': "w' = j_write_offset j + length (entry_image en)"
    and d1: "contents d1 = patch (kDataStart + j_write_offset j) (entry_image en) (contents d)" "dev_frame d d1"
    and d2: "dev_ready d2" "dev_frame d1 d2" "contents d2 = patch 0 (sb_bytes sb) (contents d1)"
    and sb: "sb_ok sb" "sb_write_offset sb = w'"
    and c: "(sb_checkpoint_offset sb = sb_checkpoint_offset (j_super j) \<and> txns' = txns @ [en]) \<or>
      (sb_checkpoint_offset sb = j_write_offset j \<and> txns' = [en])"
    and j': "j_super j' = sb" "j_write_offset j' = w'" "j_data_size j' = j_data_size j"
  shows "journal_holds sz txns' j' d2"
proof -
  define c0 w where "c0 = sb_checkpoint_offset (j_super j)" and "w = j_write_offset j"
  have h: "c0 \<le> w" "kTxnAlignment dvd w" "\<forall>en \<in> set txns. entry_ok en"
    and old: "slice (contents d) (kDataStart + c0) (w - c0) = concat (map entry_image txns)"
    using hold by (auto simp: journal_holds_def c0_def w_def)
  have al: "kTxnAlignment dvd length (entry_image en)" using entry_image_length(2) ok by (cases en) simp
  have len: "length (sb_bytes sb) = 4096" using sb(1) by (simp add: sb_ok_def)
  have new: "slice (contents d2) (kDataStart + w) (length (entry_image en)) = entry_image en"
    unfolding d2(3) d1(1) by (subst slice_patch_disjoint) (auto simp: len slice_patch_same w_def journal_consts)
  have keep: "slice (contents d2) (kDataStart + c0) (w - c0) = concat (map entry_image txns)"
    unfolding d2(3) d1(1) old [symmetric] using h(1)
    by (subst slice_patch_disjoint; (subst slice_patch_disjoint)?) (auto simp: len w_def journal_consts)
  have "slice (contents d2) (kDataStart + c0) (w' - c0) = concat (map entry_image (txns @ [en]))"
    using slice_append [of "contents d2" "kDataStart + c0" "w - c0" "length (entry_image en)"] keep new h(1) w'
    by (simp add: w_def add.assoc)
  moreover have "slice (contents d2) 0 4096 = sb_bytes sb"
    unfolding d2(3) by (rule slice_patch_same [OF len])
  moreover have "\<forall>en \<in> set txns'. entry_ok en" using c h(3) ok by auto
  moreover have "dev_size d2 = dev_size d" using d1(2) d2(2) by (simp add: dev_frame_def)
  ultimately show ?thesis
    using hold fits d2(1) sb j' c new w' h(1) al
    by (auto simp: journal_holds_def c0_def w_def)
qed

text \<open>The buffer of an open transaction.\<close>

definition txn_ok :: "u64 \<Rightarrow> txn_buffer \<Rightarrow> bool" where
  "txn_ok tid tb \<longleftrightarrow> tid < 2 ^ 64 \<and> tb_serialized tb = concat (map serialize_record (tb_records tb)) \<and>
     (\<forall>r \<in> set (tb_records tb). data_record r)"

definition active_ok :: "journal \<Rightarrow> bool" where
  "active_ok j \<longleftrightarrow> (\<forall>tid tb. map_of (j_active j) tid = Some tb \<longrightarrow> txn_ok tid tb)"

lemma commit_txn_ok:
  assumes hold: "journal_holds sz txns j d" and act: "active_ok j" and tb: "map_of (j_active j) tid = Some tb"
    and small: "length (txn_body tid False (tb_records tb)) < 2 ^ 29"
    and room: "has_room j (length (txn_body tid False (tb_records tb)))"
  shows "\<exists>j' e. commit_txn tid j d = (0, j', e) \<and> journal_holds sz (txns @ [(tid, False, tb_records tb)]) j' e \<and>
    active_ok j' \<and> dev_frame d e \<and> stable e = contents e \<and>
    j_active j' = AList.delete tid (j_active j) \<and> j_next_txn_id j' = j_next_txn_id j"
proof -
  define en where "en = (tid, False, tb_records tb)"
  define j1 where "j1 = j\<lparr>j_active := AList.delete tid (j_active j)\<rparr>"
  have t: "tid < 2 ^ 64" "tb_serialized tb = concat (map serialize_record (tb_records tb))"
    "\<forall>r \<in> set (tb_records tb). data_record r"
    using act tb by (auto simp: active_ok_def txn_ok_def)
  then have ok: "entry_ok en" using small by (simp add: en_def)
  have h1: "journal_holds sz txns j1 d" using hold by (simp add: journal_holds_def j1_def)
  have ds: "j_data_size j < 2 ^ 63" "sb_ok (j_super j)" "4096 < dev_size d" "sz \<le> dev_size d"
    using hold by (auto simp: journal_holds_def dev_ready_def journal_consts)
  obtain d1 where pw: "pad_and_write (txn_body tid False (tb_records tb)) j1 d =
      (0, j1\<lparr>j_write_offset := j_write_offset j1 + length (entry_image en)\<rparr>, d1)"
    and d1: "dev_ready d1" "dev_frame d d1"
      "contents d1 = patch (kDataStart + j_write_offset j1) (entry_image en) (contents d)"
    unfolding en_def by (rule pad_and_write_ok [OF h1 ok [unfolded en_def]]) (use room in \<open>auto simp: has_room_def j1_def\<close>)
  define w' where "w' = j_write_offset j + length (entry_image en)"
  have w': "w' < j_data_size j"
    using room entry_image_length(1) ok by (simp add: has_room_def w'_def en_def)
  define j3 where "j3 = j1\<lparr>j_write_offset := w', j_super := (j_super j)\<lparr>sb_write_offset := w'\<rparr>\<rparr>"
  have sb: "sb_ok (j_super j3)" using ds w' by (simp add: j3_def sb_ok_def)
  have sz1: "4096 < dev_size d1" using d1(2) ds(3) by (simp add: dev_frame_def)
  obtain e where ws: "write_superblock j3 d1 = (0, e)" and e: "dev_ready e" "dev_frame d1 e"
      "contents e = patch 0 (sb_bytes (j_super j3)) (contents d1)" "stable e = contents e"
    by (rule write_superblock_ok [OF d1(1) sz1 sb])
  have run: "commit_txn tid j d = (0, j3, e)"
    using tb pw ws t(2) by (simp add: commit_txn_def txn_body_def Let_def j1_def [symmetric]) (simp add: j3_def w'_def j1_def)
  have "journal_holds sz (txns @ [en]) j3 e"
    by (rule journal_holds_extend [OF h1 ok _ _ d1(3,2) e(1-3) sb])
      (use w' in \<open>simp_all add: j3_def j1_def w'_def\<close>)
  moreover have "active_ok j3"
    using act by (auto simp: active_ok_def j3_def j1_def map_of_delete)
  ultimately show ?thesis
    using run e dev_frame_trans [OF d1(2) e(2)] by (auto simp: en_def j3_def j1_def)
qed

lemma j_checkpoint_ok:
  assumes hold: "journal_holds sz txns j d" and st: "\<forall>r \<in> set st. data_record r"
    and small: "length (txn_body 0 True st) < 2 ^ 29" and room: "has_room j (length (txn_body 0 True st))"
  shows "\<exists>j' e. j_checkpoint st j d = (0, j', e) \<and> journal_holds sz [(0, True, st)] j' e \<and> dev_frame d e \<and>
    stable e = contents e \<and> j_active j' = j_active j \<and> j_next_txn_id j' = j_next_txn_id j"
proof -
  define en where "en = (0 :: u64, True, st)"
  have ok: "entry_ok en" using small st by (simp add: en_def)
  have ds: "j_data_size j < 2 ^ 63" "sb_ok (j_super j)" "4096 < dev_size d"
    using hold by (auto simp: journal_holds_def dev_ready_def journal_consts)
  obtain d1 where pw: "pad_and_write (txn_body 0 True st) j d =
      (0, j\<lparr>j_write_offset := j_write_offset j + length (entry_image en)\<rparr>, d1)"
    and d1: "dev_ready d1" "dev_frame d d1"
      "contents d1 = patch (kDataStart + j_write_offset j) (entry_image en) (contents d)"
    unfolding en_def by (rule pad_and_write_ok [OF hold ok [unfolded en_def] room])
  define w' where "w' = j_write_offset j + length (entry_image en)"
  have w': "w' < j_data_size j"
    using room entry_image_length(1) ok by (simp add: has_room_def w'_def en_def)
  define j3 where "j3 = j\<lparr>j_write_offset := w', j_super := (j_super j)\<lparr>sb_checkpoint_offset := j_write_offset j,
    sb_write_offset := w', sb_checkpoint_seqno := add64 (sb_checkpoint_seqno (j_super j)) 1\<rparr>\<rparr>"
  have sb: "sb_ok (j_super j3)"
    using ds w' add64_less [of "sb_checkpoint_seqno (j_super j)" 1] by (simp add: j3_def sb_ok_def w'_def)
  have sz1: "4096 < dev_size d1" using d1(2) ds(3) by (simp add: dev_frame_def)
  obtain e where ws: "write_superblock j3 d1 = (0, e)" and e: "dev_ready e" "dev_frame d1 e"
      "contents e = patch 0 (sb_bytes (j_super j3)) (contents d1)" "stable e = contents e"
    by (rule write_superblock_ok [OF d1(1) sz1 sb])
  have run: "j_checkpoint st j d = (0, j3, e)"
    using pw ws by (simp add: j_checkpoint_def txn_body_def Let_def j3_def w'_def)
  have "journal_holds sz [en] j3 e"
    by (rule journal_holds_extend [OF hold ok _ _ d1(3,2) e(1-3) sb])
      (use w' in \<open>simp_all add: j3_def w'_def\<close>)
  then show ?thesis
    using run e dev_frame_trans [OF d1(2) e(2)] by (auto simp: en_def j3_def)
qed

lemma begin_txn_ok:
  assumes "begin_txn j = (tid, j')" and "active_ok j" and "j_next_txn_id j < 2 ^ 64"
  shows "active_ok j' \<and> j_super j' = j_super j \<and> j_write_offset j' = j_write_offset j \<and>
    j_data_size j' = j_data_size j \<and> j_next_txn_id j' < 2 ^ 64"
  using assms add64_less [of "j_next_txn_id j" 1]
  by (auto simp: begin_txn_def Let_def active_ok_def txn_ok_def map_of_update split: if_splits)

lemma j_append_ok:
  assumes "j_append tid rec j = (r, j')" and "active_ok j" and "tid < 2 ^ 64" and "data_record rec"
  shows "active_ok j' \<and> j_super j' = j_super j \<and> j_write_offset j' = j_write_offset j \<and>
    j_data_size j' = j_data_size j \<and> j_next_txn_id j' = j_next_txn_id j"
proof (cases "map_of (j_active j) tid")
  case None
  with assms show ?thesis by (auto simp: j_append_def)
next
  case (Some tb)
  have "data_record (rec\<lparr>jr_txn_id := tid\<rparr>)"
    using assms(3,4) by (simp add: data_record_def jr_ok_def)
  with Some assms show ?thesis
    by (auto simp: j_append_def Let_def active_ok_def txn_ok_def map_of_update split: if_splits)
qed

section \<open>Runs of the journal with crashes\<close>

text \<open>A device that holds no journal yet.\<close>

definition fresh_device :: "u64 \<Rightarrow> kdev \<Rightarrow> bool" where
  "fresh_device sz d \<longleftrightarrow> dev_ready d \<and> sz \<le> dev_size d \<and> kSuperblockSize < sz \<and>
     sb_magic (sb_of_bytes (slice (contents d) 0 4096)) \<noteq> JOURNAL_MAGIC"

text \<open>
  The states a journal of \<open>sz\<close> bytes can be in, with the log of committed transactions since the last
  checkpoint. \<open>restart\<close> is a crash between two operations. \<open>torn\<close> is a crash in the middle of a commit
  or a checkpoint, before its superblock is written: any bytes may then be on disk from the write
  head on.
\<close>

inductive journal_run :: "u64 \<Rightarrow> journal \<Rightarrow> kdev \<Rightarrow> log_entry list \<Rightarrow> bool" for sz where
  fresh: "fresh_device sz d \<Longrightarrow> j_new sz d = (j, d') \<Longrightarrow> journal_run sz j d' []"
| start_txn: "journal_run sz j d txns \<Longrightarrow> begin_txn j = (tid, j') \<Longrightarrow> journal_run sz j' d txns"
| append: "journal_run sz j d txns \<Longrightarrow> tid < 2 ^ 64 \<Longrightarrow> data_record rec \<Longrightarrow> j_append tid rec j = (r, j') \<Longrightarrow>
    journal_run sz j' d txns"
| commit: "journal_run sz j d txns \<Longrightarrow> map_of (j_active j) tid = Some tb \<Longrightarrow>
    length (txn_body tid False (tb_records tb)) < 2 ^ 29 \<Longrightarrow>
    has_room j (length (txn_body tid False (tb_records tb))) \<Longrightarrow>
    commit_txn tid j d = (r, j', d') \<Longrightarrow> journal_run sz j' d' (txns @ [(tid, False, tb_records tb)])"
| checkpoint: "journal_run sz j d txns \<Longrightarrow> \<forall>rec \<in> set st. data_record rec \<Longrightarrow>
    length (txn_body 0 True st) < 2 ^ 29 \<Longrightarrow> has_room j (length (txn_body 0 True st)) \<Longrightarrow>
    j_checkpoint st j d = (r, j', d') \<Longrightarrow> journal_run sz j' d' [(0, True, st)]"
| restart: "journal_run sz j d txns \<Longrightarrow> j_new sz d = (j', d') \<Longrightarrow> journal_run sz j' d' txns"
| torn: "journal_run sz j d txns \<Longrightarrow> dev_frame d d1 \<Longrightarrow>
    contents d1 = patch (kDataStart + j_write_offset j) bs (contents d) \<Longrightarrow> stable d1 = contents d1 \<Longrightarrow>
    j_new sz d1 = (j', d') \<Longrightarrow> journal_run sz j' d' txns"

lemma j_new_fresh:
  assumes "fresh_device sz d"
  shows "\<exists>j e. j_new sz d = (j, e) \<and> journal_holds sz [] j e \<and> j_active j = [] \<and> j_next_txn_id j = 1 \<and>
    j_write_offset j = 0 \<and> sb_checkpoint_offset (j_super j) = 0 \<and> stable e = contents e \<and> dev_frame d e"
proof -
  have d: "dev_ready d" "sz \<le> dev_size d" "4096 < sz"
    and magic: "sb_magic (sb_of_bytes (slice (contents d) 0 4096)) \<noteq> JOURNAL_MAGIC"
    using assms by (auto simp: fresh_device_def journal_consts)
  then have v: "is_valid_io 0 4096 d" by (intro ready_valid_io) auto
  obtain r d1 where rd: "kd_read 0 4096 False d = (r, slice (contents d) 0 4096, d1)" "0 \<le> r"
    and d1: "dev_ready d1" "dev_frame d d1" "contents d1 = contents d"
    by (rule ready_read [OF d(1) disjI2 [OF v]]) (use d in auto)
  define j where "j = (j_empty sz)\<lparr>j_super := sb_new\<lparr>sb_magic := JOURNAL_MAGIC\<rparr>, j_write_offset := 0\<rparr>"
  have sb: "sb_ok (j_super j)" by (simp add: j_def sb_ok_def sb_new_def)
  have sz1: "4096 < dev_size d1" using d1(2) d by (simp add: dev_frame_def)
  obtain e where ws: "write_superblock j d1 = (0, e)" and e: "dev_ready e" "dev_frame d1 e"
      "contents e = patch 0 (sb_bytes (j_super j)) (contents d1)" "stable e = contents e"
    by (rule write_superblock_ok [OF d1(1) sz1 sb])
  have new: "j_new sz d = (j, e)"
    using rd magic ws by (simp add: j_new_def read_superblock_def j_def Let_def)
  have "length (sb_bytes (j_super j)) = 4096" using sb by (simp add: sb_ok_def)
  then have "slice (contents e) 0 4096 = sb_bytes (j_super j)" unfolding e(3) by (rule slice_patch_same)
  moreover have "dev_size e = dev_size d" using e(2) d1(2) by (simp add: dev_frame_def)
  ultimately have "journal_holds sz [] j e"
    using sb d e(1) by (simp add: journal_holds_def j_def j_empty_def journal_consts sb_new_def slice_def)
  then show ?thesis using new e(4) dev_frame_trans [OF d1(2) e(2)] by (auto simp: j_def j_empty_def sb_new_def)
qed

lemma journal_run_inv:
  "journal_run sz j d txns \<Longrightarrow>
   journal_holds sz txns j d \<and> active_ok j \<and> j_next_txn_id j < 2 ^ 64 \<and> stable d = contents d"
proof (induction rule: journal_run.induct)
  case (fresh d j d')
  then show ?case using j_new_fresh [OF fresh(1)] by (auto simp: active_ok_def)
next
  case (start_txn j d txns tid j')
  then show ?case using begin_txn_ok [of j tid j'] journal_holds_frame [of sz txns j d d j'] by (auto simp: journal_holds_def)
next
  case (append j d txns tid rec r j')
  then show ?case using j_append_ok [of tid rec j r j'] by (auto simp: journal_holds_def)
next
  case (commit j d txns tid tb r j' d')
  then show ?case using commit_txn_ok [of sz txns j d tid tb] by auto
next
  case (checkpoint j d txns st r j' d')
  then show ?case using j_checkpoint_ok [of sz txns j d st] by (auto simp: active_ok_def)
next
  case (restart j d txns j' d')
  then show ?case using j_new_ok [of sz txns j d] by (auto simp: active_ok_def)
next
  case (torn j d txns d1 bs j' d')
  have "dev_ready d1" using torn dev_ready_frame by (auto simp: journal_holds_def)
  then have "journal_holds sz txns j d1"
    using torn journal_holds_write [of sz txns j d d1 bs j] by simp
  then show ?case using j_new_ok [of sz txns j d1] torn by (auto simp: active_ok_def)
qed

section \<open>A journal that is filled exactly\<close>

text \<open>With both offsets 0 in the superblock, \<open>recover\<close> finds nothing, whatever the data region holds.\<close>

lemma recover_zero_offsets:
  assumes "dev_ready d" and "4096 < dev_size d" and "sb_ok sb" and "slice (contents d) 0 4096 = sb_bytes sb"
    and "sb_checkpoint_offset sb = 0" and "sb_write_offset sb = 0"
  shows "(case j_new sz d of (j0, d0) \<Rightarrow> map_option fst (j_recover j0 d0)) = Some []"
proof -
  define j0 where "j0 = (j_empty sz)\<lparr>j_super := sb, j_write_offset := 0\<rparr>"
  obtain d0 where d0: "read_superblock (j_empty sz) d = (0, j0, d0)" "dev_ready d0" "dev_frame d d0" "contents d0 = contents d"
    unfolding j0_def using read_superblock_sb [OF assms(1-4), of "j_empty sz"] assms(6) by metis
  have sz0: "4096 < dev_size d0" using d0(3) assms(2) by (simp add: dev_frame_def)
  obtain d1 where d1: "read_superblock j0 d0 = (0, j0, d1)"
    using read_superblock_sb [OF d0(2) sz0 assms(3), of j0] assms(4,6) d0(4) by (auto simp: j0_def)
  have "scan_and_parse j0 e = Some ([], j0, e)" for e
    using assms(5) by (simp add: scan_and_parse_def j0_def scan_loop.simps parse_loop.simps sub64_def)
  then have "map_option fst (j_recover j0 d0) = Some []"
    using d1 assms(5) by (simp add: j_recover_def j0_def split: prod.split)
  then show ?thesis using d0(1) by (simp add: j_new_def)
qed

lemma commit_exact_fill:
  assumes hold: "journal_holds sz txns j d" and act: "active_ok j" and tb: "map_of (j_active j) tid = Some tb"
    and small: "length (txn_body tid False (tb_records tb)) < 2 ^ 29"
    and fill: "j_write_offset j + padded_len (length (txn_body tid False (tb_records tb))) = j_data_size j"
    and zero: "sb_checkpoint_offset (j_super j) = 0"
  shows "\<exists>j' e. commit_txn tid j d = (0, j', e) \<and>
    (case j_new sz e of (j0, d0) \<Rightarrow> map_option fst (j_recover j0 d0)) = Some []"
proof -
  define en where "en = (tid, False, tb_records tb)"
  define j1 where "j1 = j\<lparr>j_active := AList.delete tid (j_active j)\<rparr>"
  have t: "tid < 2 ^ 64" "tb_serialized tb = concat (map serialize_record (tb_records tb))"
    "\<forall>r \<in> set (tb_records tb). data_record r"
    using act tb by (auto simp: active_ok_def txn_ok_def)
  then have ok: "entry_ok (tid, False, tb_records tb)" using small by simp
  have h1: "journal_holds sz txns j1 d" using hold by (simp add: journal_holds_def j1_def)
  have ds: "sb_ok (j_super j)" "4096 < dev_size d"
    using hold by (auto simp: journal_holds_def journal_consts)
  have end1: "j_write_offset j1 + length (entry_image (tid, False, tb_records tb)) = j_data_size j1"
    using fill entry_image_length(1) [OF ok] by (simp add: j1_def)
  obtain d1 where pw: "pad_and_write (txn_body tid False (tb_records tb)) j1 d = (0, j1\<lparr>j_write_offset := 0\<rparr>, d1)"
    and d1: "dev_ready d1" "dev_frame d d1"
    by (rule pad_and_write_fits [OF h1 ok]) (use fill end1 that in \<open>auto simp: j1_def\<close>)
  define j3 where "j3 = j1\<lparr>j_write_offset := 0, j_super := (j_super j)\<lparr>sb_write_offset := 0\<rparr>\<rparr>"
  have sb: "sb_ok (j_super j3)" using ds by (simp add: j3_def sb_ok_def)
  have sz1: "4096 < dev_size d1" using d1(2) ds(2) by (simp add: dev_frame_def)
  obtain e where ws: "write_superblock j3 d1 = (0, e)" and e: "dev_ready e" "dev_frame d1 e"
      "contents e = patch 0 (sb_bytes (j_super j3)) (contents d1)"
    by (rule write_superblock_ok [OF d1(1) sz1 sb])
  have "commit_txn tid j d = (0, j3, e)"
    using tb pw ws t(2) by (simp add: commit_txn_def txn_body_def Let_def j1_def [symmetric]) (simp add: j3_def j1_def)
  moreover have "slice (contents e) 0 4096 = sb_bytes (j_super j3)"
    unfolding e(3) using sb by (intro slice_patch_same) (simp add: sb_ok_def)
  moreover have "4096 < dev_size e" using e(2) sz1 by (simp add: dev_frame_def)
  ultimately show ?thesis
    using recover_zero_offsets [OF e(1) _ sb, of sz] zero by (auto simp: j3_def)
qed

section \<open>Properties\<close>

text \<open>
  Every record in range survives the journal's byte encoding, whatever follows it in the buffer.
\<close>

theorem journal_record_round_trip:
  assumes "jr_ok rec"
  shows "deserialize_record (serialize_record rec @ p) = Some (rec, p)"
  using assms by (rule deserialize_serialize)

text \<open>
  C3: crash safety. The states are those of \<open>journal_run\<close>: a journal on a new region of a working device that
  appends, commits and checkpoints transactions of less than 512 MiB, each of which leaves room behind it in the data region
  (the write head never reaches the end, so it does not wrap; for a commit that fills the region exactly the statement fails, see
  \<open>journal_exact_fill_loses_log\<close>), and that crashes and restarts between the operations or while a commit or a
  checkpoint has written any part of its data and not yet the superblock, whose write is atomic. In each of them, opening the
  journal and calling \<open>recover\<close> returns exactly the records of the transactions that were committed since the
  last checkpoint, in the order of their commits, and what \<open>recover\<close> reads is on stable storage.
\<close>

theorem journal_crash_safe:
  assumes "journal_run sz j d txns"
  shows "(case j_new sz d of (j0, d0) \<Rightarrow> map_option fst (j_recover j0 d0)) = Some (log_records txns) \<and>
    stable d = contents d"
proof -
  have hold: "journal_holds sz txns j d" and st: "stable d = contents d"
    using journal_run_inv [OF assms] by auto
  obtain j0 d0 where "j_new sz d = (j0, d0)" and "journal_holds sz txns j0 d0"
    using j_new_ok [OF hold] by blast
  with j_recover_ok [OF this(2) refl] st show ?thesis by auto
qed

text \<open>
  C27: progress. In such a state a commit for which there is room succeeds, and the state it leads to
  has the transaction at the end of its log.
\<close>

theorem journal_commit_succeeds:
  assumes "journal_run sz j d txns" and "map_of (j_active j) tid = Some tb"
    and "length (txn_body tid False (tb_records tb)) < 2 ^ 29"
    and "has_room j (length (txn_body tid False (tb_records tb)))"
  shows "\<exists>j' d'. commit_txn tid j d = (0, j', d') \<and> journal_run sz j' d' (txns @ [(tid, False, tb_records tb)])"
proof -
  obtain j' d' where c: "commit_txn tid j d = (0, j', d')"
    using commit_txn_ok [of sz txns j d tid tb] journal_run_inv [OF assms(1)] assms(2-4) by auto
  with journal_run.commit [OF assms c] show ?thesis by blast
qed

text \<open>
  C28: a committed transaction can be lost. If a commit fills the data region to its last byte while
  the checkpoint offset is 0, the write head wraps to 0, the two offsets coincide, and \<open>recover\<close> takes
  the full journal for an empty one: the commit returns 0 and nothing is recovered.
\<close>

theorem journal_exact_fill_loses_log:
  assumes "journal_run sz j d txns" and "map_of (j_active j) tid = Some tb"
    and "length (txn_body tid False (tb_records tb)) < 2 ^ 29"
    and "j_write_offset j + padded_len (length (txn_body tid False (tb_records tb))) = j_data_size j"
    and "sb_checkpoint_offset (j_super j) = 0"
  shows "\<exists>j' d'. commit_txn tid j d = (0, j', d') \<and>
    (case j_new sz d' of (j0, d0) \<Rightarrow> map_option fst (j_recover j0 d0)) = Some []"
  using commit_exact_fill journal_run_inv [OF assms(1)] assms(2-5) by blast

subsection \<open>Witnesses\<close>

text \<open>A working device of 16 blocks, with nothing on it.\<close>

definition jd_sample :: kdev where
  "jd_sample = kd_sample\<lparr>dev_size := 65536, file_len := 65536, sys := (\<lambda>t. Done MAX_RW_COUNT)\<rparr>"

definition del_sample :: journal_record where
  "del_sample = (jr_new OP_KEY_DEL 1)\<lparr>jr_key := [7]\<rparr>"

lemma del_sample_data: "data_record del_sample"
  by (simp add: del_sample_def data_record_def jr_ok_def jr_new_def op_defs kl_ok_def dl_ok_def
      no_key_location_def no_disk_location_def)

lemma del_sample_body: "length (txn_body 1 False [del_sample]) = 36"
  by (simp add: txn_body_def serialize_record_def del_sample_def jr_new_def op_defs put_string_def commit_record_def)

lemma padded_len_36: "padded_len 36 = 4096"
  by (simp add: padded_len_def round_up_to_def journal_consts Let_def add64_def sub64_def)

lemma jd_sample_ready: "dev_ready jd_sample"
  using isp2_power [of 12] by (simp add: dev_ready_def jd_sample_def kd_sample_def healthy_def)

lemma le_val_zeros: "le_val (replicate n 0) = 0"
  by (induction n) simp_all

lemma jd_sample_fresh: "4096 < sz \<Longrightarrow> sz \<le> 65536 \<Longrightarrow> fresh_device sz jd_sample"
  using jd_sample_ready
  by (simp add: fresh_device_def journal_consts jd_sample_def kd_sample_def sb_of_bytes_def field_at_def
      slice_def map_replicate_const le_val_zeros JOURNAL_MAGIC_def)

text \<open>A journal with one open transaction that deletes a key.\<close>

lemma sample_open:
  assumes "4096 < sz" and "sz \<le> 65536"
  obtains j d where "journal_run sz j d []" and "map_of (j_active j) 1 = Some \<lparr>tb_records = [del_sample],
      tb_serialized = serialize_record del_sample\<rparr>"
    and "j_write_offset j = 0" and "j_data_size j = sz - 4096" and "sb_checkpoint_offset (j_super j) = 0"
proof -
  obtain j d where new: "j_new sz jd_sample = (j, d)" and hold: "journal_holds sz [] j d"
    and j: "j_active j = []" "j_next_txn_id j = 1"
    and w: "j_write_offset j = 0" "sb_checkpoint_offset (j_super j) = 0"
    using j_new_fresh [OF jd_sample_fresh [OF assms]] by blast
  have run: "journal_run sz j d []" using jd_sample_fresh [OF assms] new by (rule journal_run.fresh)
  define j1 j2 where "j1 = snd (begin_txn j)" and "j2 = snd (j_append 1 del_sample j1)"
  have "begin_txn j = (1, j1)" using j by (simp add: j1_def begin_txn_def Let_def)
  then have run1: "journal_run sz j1 d []" by (rule journal_run.start_txn [OF run])
  have ap: "j_append 1 del_sample j1 = (0, j2)" 
    using j by (simp add: j2_def j1_def begin_txn_def j_append_def Let_def)
  have run2: "journal_run sz j2 d []" by (rule journal_run.append [OF run1 _ del_sample_data ap]) simp
  have "j_data_size j = sz - 4096" using hold by (simp add: journal_holds_def journal_consts)
  then show ?thesis
    using that [OF run2] j w
    by (simp add: j2_def j1_def begin_txn_def j_append_def Let_def del_sample_def jr_new_def)
qed

theorem journal_record_round_trip_witness:
  "deserialize_record (serialize_record del_sample @ [0, 0]) = Some (del_sample, [0, 0])"
  using journal_record_round_trip [of del_sample "[0, 0]"] del_sample_data by (simp add: data_record_def)

theorem journal_commit_succeeds_witness:
  "\<exists>j d j' d'. commit_txn 1 j d = (0, j', d') \<and> journal_run 65536 j' d' [(1, False, [del_sample])]"
proof -
  obtain j d where run: "journal_run 65536 j d []" and tb: "map_of (j_active j) 1 = Some \<lparr>tb_records = [del_sample],
      tb_serialized = serialize_record del_sample\<rparr>"
    and w: "j_write_offset j = 0" "j_data_size j = 65536 - 4096"
    by (rule sample_open [of 65536]) simp_all
  have "has_room j 36" using w by (simp add: has_room_def padded_len_36)
  then show ?thesis
    using journal_commit_succeeds [OF run tb] del_sample_body by auto
qed

lemma sample_committed: "\<exists>j d. journal_run 65536 j d [(1, False, [del_sample])]"
proof -
  obtain j d where run: "journal_run 65536 j d []" and tb: "map_of (j_active j) 1 = Some \<lparr>tb_records = [del_sample],
      tb_serialized = serialize_record del_sample\<rparr>"
    and w: "j_write_offset j = 0" "j_data_size j = 65536 - 4096"
    by (rule sample_open [of 65536]) simp_all
  have "has_room j 36" using w by (simp add: has_room_def padded_len_36)
  moreover obtain r j' d' where "commit_txn 1 j d = (r, j', d')" by (metis prod_cases3)
  ultimately have "journal_run 65536 j' d' [(1, False, [del_sample])]"
    using journal_run.commit [OF run tb, of r j' d'] del_sample_body by simp
  then show ?thesis by blast
qed

theorem journal_crash_safe_witness:
  "\<exists>j d. journal_run 65536 j d [(1, False, [del_sample])] \<and>
     (case j_new 65536 d of (j0, d0) \<Rightarrow> map_option fst (j_recover j0 d0)) = Some [del_sample]"
  using sample_committed journal_crash_safe [of 65536 _ _ "[(1, False, [del_sample])]"]
  by (fastforce simp: log_records_def)

theorem journal_exact_fill_loses_log_witness:
  "\<exists>j d j' d'. journal_run 8192 j d [] \<and> commit_txn 1 j d = (0, j', d') \<and>
     (case j_new 8192 d' of (j0, d0) \<Rightarrow> map_option fst (j_recover j0 d0)) = Some []"
proof -
  obtain j d where run: "journal_run 8192 j d []" and tb: "map_of (j_active j) 1 = Some \<lparr>tb_records = [del_sample],
      tb_serialized = serialize_record del_sample\<rparr>"
    and w: "j_write_offset j = 0" "j_data_size j = 8192 - 4096" "sb_checkpoint_offset (j_super j) = 0"
    by (rule sample_open [of 8192]) simp_all
  show ?thesis
    using journal_exact_fill_loses_log [OF run tb] run w del_sample_body padded_len_36 by auto
qed

end
