(* ===== verification/Btier_Config.thy ===== *)
theory Btier_Config
  imports Prelude Float_Rounding
begin

text \<open>
  \<^verbatim>\<open>btier/config.h\<close>: the configuration of the tiering engine. A \<open>float\<close> or \<open>double\<close> field is the
  rational number it denotes.
\<close>

record weight_set =
  w_recency :: rat
  w_frequency :: rat
  w_randomness :: rat
  w_write_penalty :: rat

record btier_config =
  fast_dev_path :: string
  slow_dev_path :: string
  extent_size :: u64
  cfg_block_size :: u64
  large_value_threshold :: u64
  base_weights :: weight_set
  low_watermark :: rat
  high_watermark :: rat
  scan_interval_ms :: u32
  max_migrations_per_cycle :: u32
  max_compactions_per_cycle :: u32
  promote_threshold :: rat
  demote_threshold :: rat
  compaction_dead_ratio :: rat
  compaction_usage_ratio :: rat
  cool_interval_sec :: u32
  sequential_threshold :: u64
  journal_size :: u64

definition default_weights :: weight_set where
  "default_weights = 
     \<lparr>w_recency = f32 (35 / 100), w_frequency = f32 (30 / 100), w_randomness = f32 (25 / 100),
      w_write_penalty = f32 (10 / 100)\<rparr>"

definition default_config :: btier_config where
  "default_config =
     \<lparr>fast_dev_path = [], slow_dev_path = [], extent_size = 4 * 1024 * 1024, cfg_block_size = 4096,
      large_value_threshold = 2 * 1024 * 1024, base_weights = default_weights, low_watermark = f64 (30 / 100),
      high_watermark = f64 (80 / 100), scan_interval_ms = 1000, max_migrations_per_cycle = 16,
      max_compactions_per_cycle = 4, promote_threshold = f32 (7 / 10), demote_threshold = f32 (3 / 10),
      compaction_dead_ratio = f64 (50 / 100), compaction_usage_ratio = f64 (80 / 100), cool_interval_sec = 300,
      sequential_threshold = 64 * 1024, journal_size = 64 * 1024 * 1024\<rparr>"

end
