(* ===== verification/Btier_Engine.thy ===== *)
theory Btier_Engine
  imports Extent_Space Journal_Recovery Btier_Config
begin

text \<open>
  \<^verbatim>\<open>btier/btier.cc\<close>: the tiered key-value engine over the key index, the extent map, the journal and the
  two devices. An operation is a function from the engine to its results and the new engine; \<open>None\<close>
  is an abort of the process, by an assertion of an allocator, by an exception out of the journal
  parser, or by the use of a null pointer. The clock is an argument. A value is one contiguous
  buffer.
\<close>

section \<open>State\<close>

text \<open>
  \<open>Impl\<close>. The journal is \<open>None\<close> before \<open>init\<close> and after \<open>shutdown\<close>; the extent map and the key index
  exist as long as it does.
\<close>

record engine =
  eng_cfg :: btier_config
  eng_tiers :: tiers
  eng_em :: extent_map
  eng_km :: key_map
  eng_journal :: "journal option"
  eng_initialized :: bool

definition no_tiers :: tiers where
  "no_tiers = \<lparr>fast_alloc = None, slow_alloc = None, fast_dev = None, slow_dev = None\<rparr>"

text \<open>A call on the journal, which writes to the FAST device.\<close>

definition with_journal :: "(journal \<Rightarrow> kdev \<Rightarrow> 'a \<times> journal \<times> kdev) \<Rightarrow> engine \<Rightarrow> ('a \<times> engine) option" where
  "with_journal f e =
     (case (eng_journal e, fast_dev (eng_tiers e)) of
        (Some j, Some d) \<Rightarrow>
          let (r, j1, d1) = f j d
          in Some (r, e\<lparr>eng_journal := Some j1, eng_tiers := (eng_tiers e)\<lparr>fast_dev := Some d1\<rparr>\<rparr>)
      | _ \<Rightarrow> None)"

section \<open>Checkpoint state\<close>

definition extent_new_record :: "u64 \<Rightarrow> disk_location \<Rightarrow> journal_record" where
  "extent_new_record ext loc = (jr_new OP_EXTENT_NEW 0)\<lparr>jr_extent_id := ext, jr_extent_loc := loc\<rparr>"

definition key_put_record :: "key \<Rightarrow> key_location \<Rightarrow> journal_record" where
  "key_put_record k kl = (jr_new OP_KEY_PUT 0)\<lparr>jr_key := k, jr_key_loc := kl\<rparr>"

definition key_del_record :: "key \<Rightarrow> journal_record" where
  "key_del_record k = (jr_new OP_KEY_DEL 0)\<lparr>jr_key := k\<rparr>"

definition mark_dead_record :: "key_location \<Rightarrow> journal_record" where
  "mark_dead_record kl = (jr_new OP_MARK_DEAD 0)\<lparr>jr_extent_id := kl_extent kl, jr_dead_length := kl_length kl\<rparr>"

text \<open>\<open>lookup\<close> leaves the default \<open>KeyLocation\<close> in place when it does not find the key.\<close>

definition lookup_or_default :: "key \<Rightarrow> key_map \<Rightarrow> key_location" where
  "lookup_or_default k km = (case km_lookup k km of None \<Rightarrow> no_key_location | Some kl \<Rightarrow> kl)"

definition build_checkpoint_state :: "extent_map \<Rightarrow> key_map \<Rightarrow> journal_record list" where
  "build_checkpoint_state em km =
     concat (map (\<lambda>s. extent_new_record (se_extent_id s) (se_location s) #
                      map (\<lambda>k. key_put_record k (lookup_or_default k km)) (km_keys_in_extent (se_extent_id s) km))
               (em_snapshot em))"

definition eng_checkpoint :: "engine \<Rightarrow> (int \<times> engine) option" where
  "eng_checkpoint e = with_journal (j_checkpoint (build_checkpoint_state (eng_em e) (eng_km e))) e"

section \<open>Writing a value\<close>

text \<open>A transaction of the given records: \<open>begin_txn\<close>, \<open>append\<close> for each, \<open>commit_txn\<close>.\<close>

definition run_txn :: "journal_record list \<Rightarrow> journal \<Rightarrow> kdev \<Rightarrow> int \<times> journal \<times> kdev" where
  "run_txn recs j d =
     (let (txn, j1) = begin_txn j;
          j2 = fold (\<lambda>rec j. snd (j_append txn rec j)) recs j1
      in commit_txn txn j2 d)"

definition put_pre_transaction_extent :: "u64 \<Rightarrow> disk_location \<Rightarrow> engine \<Rightarrow> (int \<times> engine) option" where
  "put_pre_transaction_extent ext loc e =
     do { (r, e1) \<leftarrow> with_journal (run_txn [extent_new_record ext loc]) e;
          Some (if r < 0 then (r, e1\<lparr>eng_em := em_free ext (eng_em e1)\<rparr>) else (0, e1)) }"

definition put_allocate_new_extent ::
  "tier \<Rightarrow> u64 \<Rightarrow> engine \<Rightarrow> ((int + u64 \<times> disk_location) \<times> engine) option" where
  "put_allocate_new_extent t sz e =
     do { (alloc, em1, ts1) \<leftarrow> em_allocate_extent t sz (eng_em e) (eng_tiers e);
          let e1 = e\<lparr>eng_em := em1, eng_tiers := ts1\<rparr>;
          case alloc of
            None \<Rightarrow> Some (Inl (- ENOSPC), e1)
          | Some (ext, loc) \<Rightarrow>
              do { (r, e2) \<leftarrow> put_pre_transaction_extent ext loc e1;
                   Some (if r < 0 then Inl r else Inr (ext, loc), e2) } }"

definition slot_address :: "disk_location \<Rightarrow> u32 \<Rightarrow> u64" where
  "slot_address loc off = add64 (add64 (dl_offset loc) HEADER_SIZE) off"

definition write_value :: "disk_location \<Rightarrow> u32 \<Rightarrow> bytes \<Rightarrow> engine \<Rightarrow> (int \<times> engine) option" where
  "write_value loc off v e =
     (case dev_of (dl_tier loc) (eng_tiers e) of
        None \<Rightarrow> None
      | Some d \<Rightarrow>
          let (r, d1) = kd_write (slot_address loc off) [v] True d
          in Some (r, e\<lparr>eng_tiers := set_dev (dl_tier loc) d1 (eng_tiers e)\<rparr>))"

record put_slot =
  ps_extent :: u64
  ps_offset :: u32
  ps_size :: u32
  ps_loc :: disk_location
  ps_new :: bool

definition put_cleanup_on_failure :: "put_slot \<Rightarrow> engine \<Rightarrow> engine" where
  "put_cleanup_on_failure s e =
     e\<lparr>eng_em := (if ps_new s then em_free (ps_extent s) (eng_em e)
                 else em_mark_dead_slot (ps_extent s) (ps_size s) (eng_em e))\<rparr>"

text \<open>The end of both branches of \<open>put_write_data\<close>: write into the reserved slot, or undo.\<close>

definition put_fill_slot :: "put_slot \<Rightarrow> bytes \<Rightarrow> engine \<Rightarrow> ((int + put_slot) \<times> engine) option" where
  "put_fill_slot s v e =
     do { (r, e1) \<leftarrow> write_value (ps_loc s) (ps_offset s) v e;
          Some (if r < 0 then (Inl r, put_cleanup_on_failure s e1) else (Inr s, e1)) }"

text \<open>A new extent of at least \<open>sz\<close> bytes and a slot in it, or an error with the extent freed again.\<close>

definition put_slot_in_new_extent :: "u64 \<Rightarrow> u32 \<Rightarrow> engine \<Rightarrow> ((int + put_slot) \<times> engine) option" where
  "put_slot_in_new_extent sz vsz e =
     do { (res, e1) \<leftarrow> put_allocate_new_extent FAST sz e;
          case res of
            Inl r \<Rightarrow> Some (Inl r, e1)
          | Inr (ext, loc) \<Rightarrow>
              let (off, em2) = em_append_slot ext vsz (eng_em e1);
                  e2 = e1\<lparr>eng_em := em2\<rparr>
              in Some (if off = UINT32_MAX
                       then (Inl (- EIO), e2\<lparr>eng_em := em_free ext (eng_em e2)\<rparr>)
                       else (Inr \<lparr>ps_extent = ext, ps_offset = off, ps_size = vsz, ps_loc = loc, ps_new = True\<rparr>, e2)) }"

text \<open>
  The branch for small values: an extent with space, or a new one; when the slot cannot be reserved,
  one more attempt with a new extent.
\<close>

definition put_small_slot :: "u32 \<Rightarrow> engine \<Rightarrow> ((int + put_slot) \<times> engine) option" where
  "put_small_slot vsz e =
     (let target = em_find_extent_with_space FAST vsz (eng_em e)
      in do { (res, fresh, e1) \<leftarrow>
                (if target = UINT64_MAX
                 then do { (res, e1) \<leftarrow> put_allocate_new_extent FAST (extent_size (eng_cfg e)) e;
                           Some (res, True, e1) }
                 else Some (case em_get_location target (eng_em e) of
                              None \<Rightarrow> Inl (- EIO) | Some loc \<Rightarrow> Inr (target, loc), False, e));
              case res of
                Inl r \<Rightarrow> Some (Inl r, e1)
              | Inr (ext, loc) \<Rightarrow>
                  let (off, em2) = em_append_slot ext vsz (eng_em e1);
                      e2 = e1\<lparr>eng_em := em2\<rparr>
                  in if off = UINT32_MAX
                     then put_slot_in_new_extent (extent_size (eng_cfg e)) vsz
                            (if fresh then e2\<lparr>eng_em := em_free ext (eng_em e2)\<rparr> else e2)
                     else Some (Inr \<lparr>ps_extent = ext, ps_offset = off, ps_size = vsz, ps_loc = loc, ps_new = fresh\<rparr>, e2) })"

definition put_write_data :: "bytes \<Rightarrow> engine \<Rightarrow> ((int + put_slot) \<times> engine) option" where
  "put_write_data v e =
     (let vsz = length v mod 2 ^ 32
      in do { (res, e1) \<leftarrow>
                (if vsz \<ge> large_value_threshold (eng_cfg e)
                 then put_slot_in_new_extent (add32 vsz HEADER_SIZE) vsz e
                 else put_small_slot vsz e);
              case res of Inl r \<Rightarrow> Some (Inl r, e1) | Inr s \<Rightarrow> put_fill_slot s v e1 })"

definition slot_key_location :: "put_slot \<Rightarrow> key_location" where
  "slot_key_location s = \<lparr>kl_extent = ps_extent s, kl_offset = ps_offset s, kl_length = ps_size s\<rparr>"

definition put_records :: "key \<Rightarrow> key_location option \<Rightarrow> put_slot \<Rightarrow> journal_record list" where
  "put_records k old s =
     (case old of None \<Rightarrow> [] | Some kl \<Rightarrow> [mark_dead_record kl]) @ [key_put_record k (slot_key_location s)]"

definition put_journal_transaction :: "key \<Rightarrow> key_location option \<Rightarrow> put_slot \<Rightarrow> engine \<Rightarrow> (int \<times> engine) option" where
  "put_journal_transaction k old s e = with_journal (run_txn (put_records k old s)) e"

text \<open>Marking an old slot dead and freeing its extent when nothing is live in it any more.\<close>

definition retire_slot :: "key_location \<Rightarrow> extent_map \<Rightarrow> extent_map" where
  "retire_slot kl em =
     (let em1 = em_mark_dead_slot (kl_extent kl) (kl_length kl) em
      in if em_get_live_bytes (kl_extent kl) em1 = 0 then em_free (kl_extent kl) em1 else em1)"

definition put_commit_memory_state :: "key \<Rightarrow> key_location option \<Rightarrow> put_slot \<Rightarrow> engine \<Rightarrow> engine" where
  "put_commit_memory_state k old s e =
     e\<lparr>eng_km := km_put k (slot_key_location s) (slot_address (ps_loc s) (ps_offset s)) (eng_km e),
       eng_em := (case old of None \<Rightarrow> eng_em e | Some kl \<Rightarrow> retire_slot kl (eng_em e))\<rparr>"

text \<open>A checkpoint if the journal exists and the predicate holds of it.\<close>

definition checkpoint_if :: "(journal \<Rightarrow> bool) \<Rightarrow> engine \<Rightarrow> engine option" where
  "checkpoint_if P e =
     (case eng_journal e of
        None \<Rightarrow> Some e
      | Some j \<Rightarrow> if P j then map_option snd (eng_checkpoint e) else Some e)"

definition btier_put :: "u32 \<Rightarrow> key \<Rightarrow> bytes \<Rightarrow> engine \<Rightarrow> (int \<times> engine) option" where
  "btier_put now k v e =
     (if \<not> eng_initialized e then Some (- EINVAL, e)
      else
        do { e1 \<leftarrow> checkpoint_if is_near_full e;
             let old = km_lookup k (eng_km e1);
             (res, e2) \<leftarrow> put_write_data v e1;
             case res of
               Inl r \<Rightarrow> Some (r, e2)
             | Inr s \<Rightarrow>
                 do { let e3 = e2\<lparr>eng_em := em_record_io (ps_extent s) WRITE now (eng_em e2)\<rparr>;
                      (r, e4) \<leftarrow> put_journal_transaction k old s e3;
                      if r < 0 then Some (r, put_cleanup_on_failure s e4)
                      else
                        do { e5 \<leftarrow> checkpoint_if needs_checkpoint e4;
                             Some (0, put_commit_memory_state k old s e5) } } })"

section \<open>Reading and deleting\<close>

definition btier_get :: "u32 \<Rightarrow> key \<Rightarrow> engine \<Rightarrow> (int \<times> bytes \<times> engine) option" where
  "btier_get now k e =
     (if \<not> eng_initialized e then Some (- EINVAL, [], e)
      else
        case km_lookup k (eng_km e) of
          None \<Rightarrow> Some (- ENOENT, [], e)
        | Some kl \<Rightarrow>
            case em_get_location (kl_extent kl) (eng_em e) of
              None \<Rightarrow> Some (- ENOENT, [], e)
            | Some loc \<Rightarrow>
                let em1 = em_io_ref_inc (kl_extent kl) (em_record_io (kl_extent kl) READ now (eng_em e))
                in case dev_of (dl_tier loc) (eng_tiers e) of
                     None \<Rightarrow> None
                   | Some d \<Rightarrow>
                       let (r, v, d1) = kd_read (slot_address loc (kl_offset kl)) (kl_length kl) True d
                       in Some (if r < 0 then r else 0, v,
                            e\<lparr>eng_em := em_io_ref_dec (kl_extent kl) em1,
                              eng_tiers := set_dev (dl_tier loc) d1 (eng_tiers e)\<rparr>))"

definition btier_del :: "key \<Rightarrow> engine \<Rightarrow> (int \<times> engine) option" where
  "btier_del k e =
     (if \<not> eng_initialized e then Some (- EINVAL, e)
      else
        case km_lookup k (eng_km e) of
          None \<Rightarrow> Some (- ENOENT, e)
        | Some kl \<Rightarrow>
            do { (r, e1) \<leftarrow> with_journal (run_txn [key_del_record k, mark_dead_record kl]) e;
                 Some (if r < 0 then (r, e1)
                       else (0, e1\<lparr>eng_km := km_erase k (eng_km e1), eng_em := retire_slot kl (eng_em e1)\<rparr>)) })"

section \<open>Recovery\<close>

definition replay_record :: "journal_record \<Rightarrow> extent_map \<times> key_map \<Rightarrow> extent_map \<times> key_map" where
  "replay_record rec s =
     (let (em, km) = s; op = jr_op rec
      in if op = OP_EXTENT_NEW then (em_create_entry_from_journal (jr_extent_id rec) (jr_extent_loc rec) em, km)
         else if op = OP_KEY_PUT then (em, km_put (jr_key rec) (jr_key_loc rec) 0 km)
         else if op = OP_KEY_DEL then (em, km_erase (jr_key rec) km)
         else if op = OP_MARK_DEAD then (em_mark_dead_slot (jr_extent_id rec) (jr_dead_length rec) em, km)
         else if op = OP_EXTENT_FREE then (em_free (jr_extent_id rec) em, km)
         else (em, km))"

text \<open>The sum of the lengths of the keys of an extent, in 32 bits.\<close>

definition live_in_extent :: "u64 \<Rightarrow> key_map \<Rightarrow> u32" where
  "live_in_extent ext km =
     fold (\<lambda>k acc. add32 acc (kl_length (lookup_or_default k km))) (km_keys_in_extent ext km) 0"

definition restore_extent :: "key_map \<Rightarrow> snapshot_entry \<Rightarrow> extent_map \<Rightarrow> extent_map" where
  "restore_extent km s em =
     (let live = live_in_extent (se_extent_id s) km
      in if live = 0 then em_free (se_extent_id s) em
         else em_restore_extent_state (se_extent_id s) live live em)"

fun claim_extents :: "snapshot_entry list \<Rightarrow> tiers \<Rightarrow> tiers option" where
  "claim_extents [] ts = Some ts"
| "claim_extents (s # ss) ts =
     (case alloc_of (dl_tier (se_location s)) ts of
        None \<Rightarrow> None
      | Some a \<Rightarrow>
          do { b \<leftarrow> avl_init_rm_free (dl_offset (se_location s)) (dl_length (se_location s)) a;
               claim_extents ss (set_alloc (dl_tier (se_location s)) b ts) })"

definition verify_extent :: "snapshot_entry \<Rightarrow> extent_map \<times> key_map \<times> tiers \<Rightarrow> extent_map \<times> key_map \<times> tiers" where
  "verify_extent s st =
     (let (em, km, ts) = st
      in case dev_of (dl_tier (se_location s)) ts of
           None \<Rightarrow> (em, km, ts)
         | Some d \<Rightarrow>
             let (r, bl, d1) = kd_read (dl_offset (se_location s)) HEADER_SIZE True d;
                 ts1 = set_dev (dl_tier (se_location s)) d1 ts
             in if r < 0 \<or> length bl < 4096 then (em, km, ts1)
                else
                  let hdr = header_of_bytes bl
                  in if hdr_magic hdr \<noteq> EXTENT_MAGIC then (em, km, ts1)
                     else if hdr_crc hdr \<noteq> header_crc hdr
                     then (em_free (se_extent_id s) em, fold km_erase (km_keys_in_extent (se_extent_id s) km) km, ts1)
                     else (em, km, ts1))"

definition recover_internal :: "journal_record list \<Rightarrow> engine \<Rightarrow> (int \<times> engine) option" where
  "recover_internal recs e =
     (let (em1, km1) = fold replay_record recs (eng_em e, eng_km e);
          em2 = fold (restore_extent km1) (em_snapshot em1) em1
      in do { ts1 \<leftarrow> claim_extents (em_snapshot em2) (eng_tiers e);
              let (em3, km3, ts3) = fold verify_extent (em_snapshot em2) (em2, km1, ts1);
              Some (0, e\<lparr>eng_em := em_clear_deferred_free em3, eng_km := km3, eng_tiers := ts3\<rparr>) })"

text \<open>\<open>journal->recover()\<close>, whose parser can throw.\<close>

definition journal_records :: "engine \<Rightarrow> (journal_record list \<times> engine) option" where
  "journal_records e =
     (case (eng_journal e, fast_dev (eng_tiers e)) of
        (Some j, Some d) \<Rightarrow>
          do { (recs, j1, d1) \<leftarrow> j_recover j d;
               Some (recs, e\<lparr>eng_journal := Some j1, eng_tiers := (eng_tiers e)\<lparr>fast_dev := Some d1\<rparr>\<rparr>) }
      | _ \<Rightarrow> None)"

definition btier_recover :: "engine \<Rightarrow> (int \<times> engine) option" where
  "btier_recover e =
     (if eng_journal e = None then Some (- EINVAL, e)
      else do { (recs, e1) \<leftarrow> journal_records e; recover_internal recs e1 })"

section \<open>Start and stop\<close>

definition journal_region :: "btier_config \<Rightarrow> kdev \<Rightarrow> u64" where
  "journal_region cfg d = (if journal_size cfg > dev_size d then dev_size d div 2 else journal_size cfg)"

text \<open>
  \<open>init\<close>. The first two arguments are what \<open>BlockDevice::open\<close> returned for the two paths, with the
  device it opened; \<open>ew\<close> is the word an allocator reads past the end of its tree.
\<close>

definition btier_init ::
  "int \<times> kdev \<Rightarrow> int \<times> kdev \<Rightarrow> u64 \<Rightarrow> btier_config \<Rightarrow> engine \<Rightarrow> (int \<times> engine) option" where
  "btier_init open_fast open_slow ew cfg e0 =
     (let (rf, fd) = open_fast; (rs, sd) = open_slow;
          e1 = e0\<lparr>eng_cfg := cfg, eng_tiers := (eng_tiers e0)\<lparr>fast_dev := Some fd\<rparr>\<rparr>
      in if rf < 0 then Some (rf, e1)
         else if rs < 0
         then Some (rs, e1\<lparr>eng_tiers := (eng_tiers e1)\<lparr>fast_dev := Some (fd\<lparr>fd_open := False\<rparr>), slow_dev := Some sd\<rparr>\<rparr>)
         else
           let jsz = journal_region cfg fd;
               ts = \<lparr>fast_alloc = Some (avl_new (dev_size fd) (cfg_block_size cfg) 0 ew),
                     slow_alloc = Some (avl_new (dev_size sd) (cfg_block_size cfg) 0 ew),
                     fast_dev = Some fd, slow_dev = Some sd\<rparr>
           in do { ts1 \<leftarrow> init_free_space ts;
                   fa \<leftarrow> fast_alloc ts1;
                   fa1 \<leftarrow> avl_init_rm_free 0 jsz fa;
                   fd1 \<leftarrow> fast_dev ts1;
                   let (j, fd2) = j_new jsz fd1;
                   let e2 = e1\<lparr>eng_tiers := ts1\<lparr>fast_alloc := Some fa1, fast_dev := Some fd2\<rparr>,
                               eng_em := em_new (cfg_block_size cfg) (extent_size cfg), eng_km := km_new,
                               eng_journal := Some j\<rparr>;
                   (recs, e3) \<leftarrow> journal_records e2;
                   (r, e4) \<leftarrow> (if recs \<noteq> [] then recover_internal recs e3
                               else map_option (\<lambda>(r, e). (0, e)) (with_journal (j_checkpoint []) e3));
                   Some (if r < 0 then (r, e4) else (0, e4\<lparr>eng_initialized := True\<rparr>)) })"

definition btier_sync :: "engine \<Rightarrow> int \<times> engine" where
  "btier_sync e =
     (if \<not> eng_initialized e then (- EINVAL, e)
      else
        let (em1, ts1) = em_flush_dirty_headers (eng_em e) (eng_tiers e);
            ts2 = (case (eng_journal e, fast_dev ts1) of
                     (Some j, Some d) \<Rightarrow> ts1\<lparr>fast_dev := Some (j_sync d)\<rparr> | _ \<Rightarrow> ts1);
            ts3 = (case slow_dev ts2 of None \<Rightarrow> ts2 | Some d \<Rightarrow> ts2\<lparr>slow_dev := Some (snd (kd_flush d))\<rparr>)
        in (0, e\<lparr>eng_em := em1, eng_tiers := ts3\<rparr>))"

text \<open>\<open>shutdown\<close>, after the migration thread has stopped; the devices as they are left behind.\<close>

definition btier_shutdown :: "engine \<Rightarrow> (engine \<times> tiers) option" where
  "btier_shutdown e =
     (if \<not> eng_initialized e then Some (e, eng_tiers e)
      else
        do { let e1 = snd (btier_sync e);
             e2 \<leftarrow> checkpoint_if (\<lambda>j. True) e1;
             let ts2 = (case (eng_journal e2, fast_dev (eng_tiers e2)) of
                          (Some j, Some d) \<Rightarrow> (eng_tiers e2)\<lparr>fast_dev := Some (j_close d)\<rparr> | _ \<Rightarrow> eng_tiers e2);
             (em3, ts3) \<leftarrow> em_process_deferred_free (eng_em e2) ts2;
             let closed = map_option (fd_open_update (\<lambda>_. False));
             Some (e2\<lparr>eng_em := em3, eng_km := km_new, eng_journal := None, eng_tiers := no_tiers,
                      eng_initialized := False\<rparr>,
                   ts3\<lparr>fast_dev := closed (fast_dev ts3), slow_dev := closed (slow_dev ts3)\<rparr>) })"

end
