(* ===== verification/Engine_Refinement.thy ===== *)
theory Engine_Refinement
  imports Btier_Engine
begin

text \<open>
  The engine implements a map from keys to values. \<open>eng_abs\<close> reads the value of a key from the device,
  at the place the key index and the extent map give; \<open>eng_inv\<close> is the invariant under which \<open>put\<close>,
  \<open>get\<close>, \<open>del\<close>, \<open>sync\<close> and the deferred release act on it as on a map. Devices may fail at any system
  call, and an operation that reports an error has changed nothing.
\<close>

section \<open>Keys and extents\<close>

type_synonym extent_view = "u64 \<rightharpoonup> disk_location \<times> u32 \<times> u32"
type_synonym key_view = "key \<rightharpoonup> key_location"

text \<open>The number of bytes the keys of an extent use.\<close>

definition ext_load :: "key_view \<Rightarrow> u64 \<Rightarrow> nat" where
  "ext_load m ext = (\<Sum>k \<in> dom m. if kl_extent (the (m k)) = ext then kl_length (the (m k)) else 0)"

definition keys_placed :: "key_view \<Rightarrow> extent_view \<Rightarrow> bool" where
  "keys_placed m v \<longleftrightarrow> finite (dom m) \<and>
     (\<forall>k kl. m k = Some kl \<longrightarrow> 0 < kl_length kl \<and>
        (\<exists>loc used live. v (kl_extent kl) = Some (loc, used, live) \<and> kl_offset kl + kl_length kl \<le> used))"

text \<open>The live counters, with a slack per extent for slots that no key points to yet.\<close>

definition live_counted :: "key_view \<Rightarrow> (u64 \<Rightarrow> nat) \<Rightarrow> extent_view \<Rightarrow> bool" where
  "live_counted m slack v \<longleftrightarrow>
     (\<forall>ext loc used live. v ext = Some (loc, used, live) \<longrightarrow> ext_load m ext + slack ext \<le> live)"

definition no_slack :: "u64 \<Rightarrow> nat" where
  "no_slack = (\<lambda>_. 0)"

lemma ext_load_erase:
  assumes "finite (dom m)" and "m k = Some kl"
  shows "ext_load m ext = ext_load (m(k := None)) ext + (if kl_extent kl = ext then kl_length kl else 0)"
proof -
  define w where "w = (\<lambda>k. if kl_extent (the (m k)) = ext then kl_length (the (m k)) else 0)"
  have "ext_load m ext = w k + (\<Sum>k \<in> dom m - {k}. w k)"
    unfolding ext_load_def w_def [symmetric] using assms by (intro sum.remove) auto
  moreover have "ext_load (m(k := None)) ext = (\<Sum>k \<in> dom m - {k}. w k)"
    unfolding ext_load_def by (intro sum.cong) (auto simp: w_def)
  ultimately show ?thesis using assms(2) by (simp add: w_def)
qed

lemma ext_load_put:
  assumes "finite (dom m)"
  shows "ext_load (m(k \<mapsto> kl)) ext = ext_load (m(k := None)) ext + (if kl_extent kl = ext then kl_length kl else 0)"
  using ext_load_erase [of "m(k \<mapsto> kl)" k kl ext] assms by simp

lemma ext_load_erase_le: "finite (dom m) \<Longrightarrow> ext_load (m(k := None)) ext \<le> ext_load m ext"
  using ext_load_erase [of m k _ ext] by (cases "m k") (auto simp: fun_upd_idem)

lemma keys_placedE:
  assumes "keys_placed m v" and "m k = Some kl"
  obtains loc used live where "v (kl_extent kl) = Some (loc, used, live)" and "kl_offset kl + kl_length kl \<le> used"
    and "0 < kl_length kl" and "finite (dom m)"
  using assms unfolding keys_placed_def by blast

lemma ext_load_zero:
  assumes "keys_placed m v" and "ext_load m ext = 0" and "m k = Some kl"
  shows "kl_extent kl \<noteq> ext"
  by (rule keys_placedE [OF assms(1,3)]) (use ext_load_erase [of m k kl ext] assms in auto)

lemma ext_load_none:
  assumes "\<And>k kl. m k = Some kl \<Longrightarrow> kl_extent kl \<noteq> ext"
  shows "ext_load m ext = 0"
  unfolding ext_load_def using assms by (intro sum.neutral) fastforce

section \<open>Contents\<close>

definition value_at :: "disk_location \<Rightarrow> key_location \<Rightarrow> tiers \<Rightarrow> bytes option" where
  "value_at loc kl ts =
     map_option (\<lambda>d. slice (contents d) (dl_offset loc + HEADER_SIZE + kl_offset kl) (kl_length kl)) (dev_of (dl_tier loc) ts)"

definition stored :: "key_view \<Rightarrow> extent_view \<Rightarrow> tiers \<Rightarrow> key \<rightharpoonup> bytes" where
  "stored m v ts k =
     (case m k of
        None \<Rightarrow> None
      | Some kl \<Rightarrow> (case v (kl_extent kl) of None \<Rightarrow> None | Some (loc, used, live) \<Rightarrow> value_at loc kl ts))"

definition slot_set :: "disk_location \<Rightarrow> u32 \<Rightarrow> u32 \<Rightarrow> (bool \<times> nat) set" where
  "slot_set loc off len = {dl_tier loc = FAST} \<times> arange (dl_offset loc + HEADER_SIZE + off) len"

lemma slot_set_sub: "off + len + HEADER_SIZE \<le> dl_length loc \<Longrightarrow> slot_set loc off len \<subseteq> loc_set loc"
  by (auto simp: slot_set_def loc_set_def)

lemma value_at_agree:
  assumes "dev_agree S ts ts'" and "slot_set loc (kl_offset kl) (kl_length kl) \<inter> S = {}"
  shows "value_at loc kl ts' = value_at loc kl ts"
proof (cases "side_dev (dl_tier loc = FAST) ts")
  case None
  then have "side_dev (dl_tier loc = FAST) ts' = None"
    using assms(1) [unfolded dev_agree_def, THEN spec, of "dl_tier loc = FAST"] by simp
  with None show ?thesis by (simp add: value_at_def dev_of_side)
next
  case (Some d)
  obtain e where e: "side_dev (dl_tier loc = FAST) ts' = Some e"
    using assms(1) [unfolded dev_agree_def, THEN spec, of "dl_tier loc = FAST"] Some by auto
  show ?thesis
    using dev_agree_slice [OF assms(1) Some e assms(2) [unfolded slot_set_def]] Some e
    by (simp add: value_at_def dev_of_side)
qed

text \<open>A step that keeps the locations of all extents that hold keys and does not write where keys are.\<close>

lemma stored_step:
  assumes "dev_agree S ts ts'"
    and "\<And>k kl loc used live. m k = Some kl \<Longrightarrow> v (kl_extent kl) = Some (loc, used, live) \<Longrightarrow>
      (\<exists>used' live'. v' (kl_extent kl) = Some (loc, used', live')) \<and> slot_set loc (kl_offset kl) (kl_length kl) \<inter> S = {}"
    and "keys_placed m v"
  shows "stored m v' ts' = stored m v ts"
proof (rule ext)
  fix k
  show "stored m v' ts' k = stored m v ts k"
  proof (cases "m k")
    case None
    then show ?thesis by (simp add: stored_def)
  next
    case (Some kl)
    then obtain loc used live where v: "v (kl_extent kl) = Some (loc, used, live)"
      by (rule keys_placedE [OF assms(3)])
    from assms(2) [OF Some v] obtain used' live' where "v' (kl_extent kl) = Some (loc, used', live')"
      and dis: "slot_set loc (kl_offset kl) (kl_length kl) \<inter> S = {}" by blast
    then show ?thesis
      using Some v value_at_agree [OF assms(1) dis] by (simp add: stored_def)
  qed
qed

section \<open>Invariant\<close>

text \<open>A journal that is idle and whose write head lies in its region of \<open>res\<close> bytes.\<close>

definition journal_idle :: "nat \<Rightarrow> journal \<Rightarrow> bool" where
  "journal_idle res j \<longleftrightarrow> kSuperblockSize < res \<and> res < 2 ^ 63 \<and> j_data_size j = res - kSuperblockSize \<and>
     j_write_offset j \<le> j_data_size j \<and> length (sb_pad (j_super j)) = 4064 \<and> j_active j = []"

definition eng_inv :: "nat \<Rightarrow> engine \<Rightarrow> bool" where
  "eng_inv res e \<longleftrightarrow>
     eng_initialized e \<and> extent_size (eng_cfg e) \<le> 2 ^ 30 \<and>
     space_inv res (eng_em e) (eng_tiers e) \<and> km_inv (eng_km e) \<and>
     (\<exists>j. eng_journal e = Some j \<and> journal_idle res j) \<and>
     keys_placed (km_view (eng_km e)) (em_view (eng_em e)) \<and>
     live_counted (km_view (eng_km e)) no_slack (em_view (eng_em e))"

definition eng_abs :: "engine \<Rightarrow> key \<rightharpoonup> bytes" where
  "eng_abs e = stored (km_view (eng_km e)) (em_view (eng_em e)) (eng_tiers e)"

definition journal_set :: "nat \<Rightarrow> (bool \<times> nat) set" where
  "journal_set res = {True} \<times> {..<res}"

lemma em_view_Some:
  "em_view em ext = Some (loc, used, live) \<longleftrightarrow>
   (\<exists>en. em_lookup ext em = Some en \<and> ee_loc en = loc \<and> ee_used en = used \<and> ee_live en = live)"
  by (auto simp: em_view_def)

lemma view_entry:
  assumes "space_inv res em ts" and "em_view em ext = Some (loc, used, live)"
  shows "used + HEADER_SIZE \<le> dl_length loc" and "loc_set loc \<subseteq> usable res ts" and "loc_ok (em_block_size em) loc"
    and "ext < em_next_id em"
proof -
  obtain en where en: "em_lookup ext em = Some en" "ee_loc en = loc" "ee_used en = used"
    using assms(2) by (auto simp: em_view_Some)
  from space_inv_entry [OF assms(1) en(1)] space_inv_entry_owned(1) [OF assms(1) en(1)] en(2,3)
  show "used + HEADER_SIZE \<le> dl_length loc" "loc_set loc \<subseteq> usable res ts" "loc_ok (em_block_size em) loc"
    "ext < em_next_id em" by (auto simp: packing_ok_def)
qed

lemma view_disjoint:
  assumes "space_inv res em ts" and "em_view em e1 = Some (loc1, u1, l1)" and "em_view em e2 = Some (loc2, u2, l2)"
    and "e1 \<noteq> e2"
  shows "loc_set loc1 \<inter> loc_set loc2 = {}"
  using space_inv_entries_disjoint [OF assms(1) _ _ assms(4)] assms(2,3) by (auto simp: em_view_Some)

lemma usable_journal: "S \<subseteq> usable res ts \<Longrightarrow> S \<inter> journal_set res = {}"
  by (auto simp: usable_def journal_set_def)

text \<open>Changes of the devices in the journal region are invisible.\<close>

lemma key_slot_sub:
  assumes "space_inv res em ts" and "keys_placed m (em_view em)" and "m k = Some kl"
    and "em_view em (kl_extent kl) = Some (loc, used, live)"
  shows "slot_set loc (kl_offset kl) (kl_length kl) \<subseteq> loc_set loc"
  by (rule keys_placedE [OF assms(2,3)])
    (use assms(4) view_entry(1) [OF assms(1,4)] slot_set_sub in auto)

lemma stored_journal:
  assumes "space_inv res em ts" and "keys_placed m (em_view em)" and "dev_agree (journal_set res) ts ts'"
  shows "stored m (em_view em) ts' = stored m (em_view em) ts"
proof (rule stored_step [OF assms(3) _ assms(2)])
  fix k kl loc used live
  assume k: "m k = Some kl" and v: "em_view em (kl_extent kl) = Some (loc, used, live)"
  have "slot_set loc (kl_offset kl) (kl_length kl) \<subseteq> usable res ts"
    using key_slot_sub [OF assms(1,2) k v] view_entry(2) [OF assms(1) v] by blast
  from usable_journal [OF this] v
  show "(\<exists>used' live'. em_view em (kl_extent kl) = Some (loc, used', live')) \<and>
      slot_set loc (kl_offset kl) (kl_length kl) \<inter> journal_set res = {}" by simp
qed

section \<open>Journal calls\<close>

lemma padded_len_bound: "0 < len \<Longrightarrow> len < 2 ^ 62 \<Longrightarrow> len \<le> padded_len len \<and> padded_len len < len + kTxnAlignment"
  using padded_len_props(1,2) [of len] by simp

lemma kd_flush_frame: "kd_flush d = (r, e) \<Longrightarrow> dev_frame d e \<and> contents e = contents d"
  by (auto simp: kd_flush_def Let_def dev_frame_def split: if_splits sysret.splits)

definition only_journal :: "nat \<Rightarrow> kdev \<Rightarrow> kdev \<Rightarrow> bool" where
  "only_journal res d d' \<longleftrightarrow> dev_frame d d' \<and> (\<forall>x \<ge> res. contents d' x = contents d x)"

lemma only_journal_refl [simp]: "only_journal res d d"
  by (simp add: only_journal_def)

lemma only_journal_trans: "only_journal res d e \<Longrightarrow> only_journal res e f \<Longrightarrow> only_journal res d f"
  unfolding only_journal_def using dev_frame_trans by auto

lemma only_journal_write:
  assumes "kd_write off [bs] False d = (r, e)" and "off + length bs \<le> res" and "length bs < 2 ^ 31" and "res < 2 ^ 63"
  shows "only_journal res d e"
proof -
  have o: "off + length bs < 2 ^ 64" using assms(2,4) by simp
  show ?thesis
    using kd_write_outside [OF assms(1,3) o] kd_write_spec [OF assms(1)] assms(2,3) o
    by (auto simp: only_journal_def)
qed

lemma only_journal_flush: "kd_flush d = (r, e) \<Longrightarrow> only_journal res d e"
  using kd_flush_frame by (simp add: only_journal_def)

lemma write_superblock_frame:
  assumes "write_superblock j d = (r, e)" and "kSuperblockSize < res" and "res < 2 ^ 63" and "length (sb_pad (j_super j)) = 4064"
  shows "only_journal res d e"
proof -
  obtain r1 d1 where w: "kd_write 0 [sb_bytes (j_super j)] False d = (r1, d1)" by fastforce
  have 1: "only_journal res d d1"
    using assms(2-4) by (intro only_journal_write [OF w]) (simp_all add: journal_consts)
  show ?thesis
  proof (cases "r1 < 0")
    case True
    with 1 w assms(1) show ?thesis by (simp add: write_superblock_def)
  next
    case False
    then have "kd_flush d1 = (r, e)" using w assms(1) by (simp add: write_superblock_def)
    with 1 only_journal_trans only_journal_flush show ?thesis by blast
  qed
qed

lemma pad_and_write_frame:
  assumes run: "pad_and_write bl j d = (r, j', d')" and idle: "journal_idle res j"
    and bl: "0 < length bl" "length bl < 2 ^ 30" "length bl + kTxnAlignment \<le> j_data_size j"
  shows "only_journal res d d' \<and> journal_idle res j' \<and> j_super j' = j_super j"
proof -
  define p bs w where "p = padded_len (length bl)" and "bs = (if p > length bl then bl @ replicate (p - length bl) 0 else bl)"
    and "w = (if add64 (j_write_offset j) p > j_data_size j then 0 else j_write_offset j)"
  note pb = padded_len_bound [of "length bl", folded p_def]
  have ds: "j_data_size j = res - 4096" "j_write_offset j \<le> j_data_size j" "4096 < res" "res < 2 ^ 63"
    using idle by (auto simp: journal_idle_def journal_consts)
  have p: "length bs = p" "p \<le> j_data_size j" "p < 2 ^ 31" using pb bl by (auto simp: bs_def journal_consts)
  have fit: "w + p \<le> j_data_size j"
  proof -
    have "add64 (j_write_offset j) p = j_write_offset j + p" using ds p by (intro add64_exact) simp
    then show ?thesis using p by (simp add: w_def)
  qed
  have off: "add64 kDataStart w = 4096 + w" "add64 w p = w + p"
    using fit ds by (auto simp: journal_consts intro!: add64_exact)
  define j1 where "j1 = j\<lparr>j_write_offset := w\<rparr>"
  have j1: "(if add64 (j_write_offset j) p > j_data_size j then j\<lparr>j_write_offset := 0\<rparr> else j) = j1"
    by (simp add: j1_def w_def)
  obtain r1 d1 where kw: "kd_write (4096 + w) [bs] False d = (r1, d1)" by fastforce
  have 1: "only_journal res d d1"
    using fit ds p by (intro only_journal_write [OF kw]) simp_all
  have run': "pad_and_write bl j d =
      (if r1 < 0 then (r1, j1, d1)
       else let j2 = j1\<lparr>j_write_offset := (if w + p \<ge> j_data_size j then 0 else w + p)\<rparr>; (r2, d2) = kd_flush d1 in (r2, j2, d2))"
    unfolding pad_and_write_def Let_def p_def [symmetric] bs_def [symmetric] j1
    by (simp add: off kw j1_def [THEN arg_cong [of _ _ j_write_offset]])
  show ?thesis
  proof (cases "r1 < 0")
    case True
    with run run' 1 fit idle show ?thesis by (auto simp: journal_idle_def j1_def)
  next
    case False
    obtain r2 d2 where fl: "kd_flush d1 = (r2, d2)" by fastforce
    then have "d' = d2" "j' = j1\<lparr>j_write_offset := (if w + p \<ge> j_data_size j then 0 else w + p)\<rparr>"
      using run run' False by auto
    moreover have "only_journal res d d2" using 1 only_journal_flush [OF fl] only_journal_trans by blast
    ultimately show ?thesis using idle by (auto simp: journal_idle_def j1_def)
  qed
qed

lemma journal_idle_super:
  "journal_idle res j \<Longrightarrow> length (sb_pad sb) = 4064 \<Longrightarrow> journal_idle res (j\<lparr>j_super := sb\<rparr>)"
  by (simp add: journal_idle_def)

lemma serialize_le: "length (serialize_record rec) \<le> 30 + length (jr_key rec)"
  by (simp add: serialize_record_def put_u8_def put_u32_def put_u64_def put_string_def put_key_location_def
      put_disk_location_def)

lemma serialize_begin_commit:
  "length (serialize_record (jr_new OP_TXN_BEGIN t)) = 9" "length (serialize_record (jr_new OP_CHECKPOINT t)) = 9"
  "length (serialize_record (commit_record t c)) = 13"
  by (simp_all add: serialize_record_def jr_new_def commit_record_def op_defs put_u8_def put_u32_def put_u64_def)

definition records_bytes :: "journal_record list \<Rightarrow> nat" where
  "records_bytes recs = (\<Sum>rec \<leftarrow> recs. 30 + length (jr_key rec))"

lemma concat_serialize_le: "length (concat (map serialize_record recs)) \<le> records_bytes recs"
  using serialize_le by (induction recs) (auto simp: records_bytes_def intro: add_mono)

text \<open>The tail of a transaction or checkpoint: write the image, then the superblock.\<close>

lemma write_then_super:
  assumes pw: "pad_and_write bl j d = (r, j1, d1)" and idle: "journal_idle res j"
    and bl: "0 < length bl" "length bl < 2 ^ 30" "length bl + kTxnAlignment \<le> j_data_size j"
    and sb: "\<And>s. length (sb_pad s) = 4064 \<Longrightarrow> length (sb_pad (f s)) = 4064"
    and ws: "write_superblock (j1\<lparr>j_super := f (j_super j1)\<rparr>) d1 = (r2, d2)"
  shows "only_journal res d d1" and "journal_idle res j1" and "only_journal res d d2"
    and "journal_idle res (j1\<lparr>j_super := f (j_super j1)\<rparr>)"
proof -
  have 1: "only_journal res d d1" "journal_idle res j1" using pad_and_write_frame [OF pw idle bl] by auto
  then have "length (sb_pad (f (j_super j1))) = 4064" "kSuperblockSize < res" "res < 2 ^ 63"
    using sb by (auto simp: journal_idle_def)
  with 1 show "only_journal res d d1" "journal_idle res j1" "only_journal res d d2"
    "journal_idle res (j1\<lparr>j_super := f (j_super j1)\<rparr>)"
    using write_superblock_frame [OF ws, of res] only_journal_trans journal_idle_super by auto
qed

lemma j_checkpoint_frame:
  assumes run: "j_checkpoint st j d = (r, j', d')" and idle: "journal_idle res j"
    and room: "records_bytes st + 31 + kTxnAlignment \<le> j_data_size j" "records_bytes st + 31 < 2 ^ 30"
  shows "only_journal res d d' \<and> journal_idle res j'"
proof -
  define bl where "bl = serialize_record (jr_new OP_TXN_BEGIN 0) @ serialize_record (jr_new OP_CHECKPOINT 0) @
      concat (map serialize_record st) @ serialize_record (commit_record 0 (data_crc (concat (map serialize_record st))))"
  have len: "length bl = length (concat (map serialize_record st)) + 31"
    by (simp add: bl_def serialize_begin_commit del: length_concat)
  obtain r1 j1 d1 where pw: "pad_and_write bl j d = (r1, j1, d1)" by (metis prod_cases3)
  define f where "f sb = sb\<lparr>sb_checkpoint_offset := j_write_offset j, sb_write_offset := j_write_offset j1,
      sb_checkpoint_seqno := add64 (sb_checkpoint_seqno sb) 1\<rparr>" for sb :: superblock
  obtain r2 d2 where ws: "write_superblock (j1\<lparr>j_super := f (j_super j1)\<rparr>) d1 = (r2, d2)" by fastforce
  have "0 < length bl" "length bl < 2 ^ 30" "length bl + kTxnAlignment \<le> j_data_size j"
    using len concat_serialize_le [of st] room by linarith+
  note t = write_then_super [where f = f, OF pw idle this _ ws]
  have "j_checkpoint st j d = (if r1 < 0 then (r1, j1, d1) else (0, j1\<lparr>j_super := f (j_super j1)\<rparr>, d2))"
    using ws unfolding j_checkpoint_def Let_def bl_def [symmetric] by (simp add: pw f_def)
  with run t show ?thesis by (cases "r1 < 0") (auto simp: f_def)
qed

lemma append_loop:
  "map_of (j_active j) txn = Some tb \<Longrightarrow> j_active j = [(txn, tb)] \<Longrightarrow>
   \<exists>tb'. fold (\<lambda>rec j. snd (j_append txn rec j)) recs j = j\<lparr>j_active := [(txn, tb')]\<rparr> \<and>
     length (tb_serialized tb') \<le> length (tb_serialized tb) + records_bytes recs"
proof (induction recs arbitrary: j tb)
  case Nil
  then have "j\<lparr>j_active := [(txn, tb)]\<rparr> = j" by simp
  then show ?case by (intro exI [of _ tb]) (simp add: records_bytes_def)
next
  case (Cons rec recs)
  define tb1 where "tb1 = \<lparr>tb_records = tb_records tb @ [rec\<lparr>jr_txn_id := txn\<rparr>],
      tb_serialized = tb_serialized tb @ serialize_record (rec\<lparr>jr_txn_id := txn\<rparr>)\<rparr>"
  define j1 where "j1 = j\<lparr>j_active := [(txn, tb1)]\<rparr>"
  have "snd (j_append txn rec j) = j1" using Cons.prems by (simp add: j_append_def j1_def tb1_def Let_def)
  moreover obtain tb' where "fold (\<lambda>rec j. snd (j_append txn rec j)) recs j1 = j1\<lparr>j_active := [(txn, tb')]\<rparr>"
    "length (tb_serialized tb') \<le> length (tb_serialized tb1) + records_bytes recs"
    using Cons.IH [of j1 tb1] by (auto simp: j1_def)
  moreover have "length (tb_serialized tb1) \<le> length (tb_serialized tb) + (30 + length (jr_key rec))"
    using serialize_le [of "rec\<lparr>jr_txn_id := txn\<rparr>"] by (simp add: tb1_def)
  ultimately show ?case by (intro exI [of _ tb']) (simp add: j1_def records_bytes_def)
qed

lemma run_txn_frame:
  assumes run: "run_txn recs j d = (r, j', d')" and idle: "journal_idle res j"
    and room: "records_bytes recs + 22 + kTxnAlignment \<le> j_data_size j" "records_bytes recs + 22 < 2 ^ 30"
  shows "only_journal res d d' \<and> journal_idle res j'"
proof -
  define txn where "txn = j_next_txn_id j"
  define tb0 where "tb0 = \<lparr>tb_records = [], tb_serialized = []\<rparr>"
  define j0 where "j0 = j\<lparr>j_next_txn_id := add64 txn 1, j_active := [(txn, tb0)]\<rparr>"
  have b: "begin_txn j = (txn, j0)" using idle by (simp add: begin_txn_def journal_idle_def j0_def txn_def tb0_def Let_def)
  obtain tb where fo: "fold (\<lambda>rec j. snd (j_append txn rec j)) recs j0 = j0\<lparr>j_active := [(txn, tb)]\<rparr>"
    and tb: "length (tb_serialized tb) \<le> records_bytes recs"
    using append_loop [of j0 txn tb0 recs] by (auto simp: j0_def tb0_def)
  define jt where "jt = j\<lparr>j_next_txn_id := add64 txn 1\<rparr>"
  have idle': "journal_idle res jt" using idle by (simp add: journal_idle_def jt_def)
  define bl where "bl = serialize_record (jr_new OP_TXN_BEGIN txn) @ tb_serialized tb @
      serialize_record (commit_record txn (data_crc (tb_serialized tb)))"
  have len: "length bl = length (tb_serialized tb) + 22" by (simp add: bl_def serialize_begin_commit)
  obtain r1 j1 d1 where pw: "pad_and_write bl jt d = (r1, j1, d1)" by (metis prod_cases3)
  define f where "f sb = sb\<lparr>sb_write_offset := j_write_offset j1\<rparr>" for sb :: superblock
  obtain r2 d2 where ws: "write_superblock (j1\<lparr>j_super := f (j_super j1)\<rparr>) d1 = (r2, d2)" by fastforce
  have "0 < length bl" "length bl < 2 ^ 30" "length bl + kTxnAlignment \<le> j_data_size jt"
    using len tb room by (simp_all add: jt_def)
  note t = write_then_super [where f = f, OF pw idle' this _ ws]
  have jt: "j0\<lparr>j_active := []\<rparr> = jt" using idle by (simp add: j0_def jt_def journal_idle_def)
  have "run_txn recs j d = commit_txn txn (j0\<lparr>j_active := [(txn, tb)]\<rparr>) d"
    by (simp add: run_txn_def b fo)
  also have "\<dots> = (if r1 < 0 then (r1, j1, d1) else (0, j1\<lparr>j_super := f (j_super j1)\<rparr>, d2))"
    using ws unfolding commit_txn_def by (simp add: bl_def [symmetric] jt pw f_def Let_def)
  finally show ?thesis using run t by (cases "r1 < 0") (auto simp: f_def)
qed

section \<open>Room in the journal\<close>

text \<open>The journal region has room for a transaction or checkpoint of \<open>n\<close> bytes of records.\<close>

definition fits :: "nat \<Rightarrow> nat \<Rightarrow> bool" where
  "fits res n \<longleftrightarrow> n + 31 + kTxnAlignment + kSuperblockSize \<le> res \<and> n + 31 < 2 ^ 30"

lemma fits_mono: "fits res n \<Longrightarrow> m \<le> n \<Longrightarrow> fits res m"
  by (simp add: fits_def)

definition key_bytes :: "key_view \<Rightarrow> nat" where
  "key_bytes m = (\<Sum>k \<in> dom m. 30 + length k)"

definition state_bytes :: "engine \<Rightarrow> nat" where
  "state_bytes e = 30 * card (dom (em_view (eng_em e))) + key_bytes (km_view (eng_km e))"

lemma records_bytes_append [simp]: "records_bytes (xs @ ys) = records_bytes xs + records_bytes ys"
  by (simp add: records_bytes_def)

lemma records_bytes_concat: "records_bytes (concat xss) = (\<Sum>xs \<leftarrow> xss. records_bytes xs)"
  by (induction xss) (simp_all add: records_bytes_def)

lemma km_keys_distinct: "km_inv km \<Longrightarrow> distinct (km_keys_in_extent ext km)"
  by (auto simp: km_inv_def km_keys_in_extent_def simp del: map_of_eq_Some_iff split: option.split)

lemma dom_em_view: "dom (em_view em) = fst ` set (em_entries em)"
proof -
  have "dom (em_view em) = dom (map_of (em_entries em))" by (auto simp: em_view_def em_lookup_def)
  then show ?thesis by (simp add: dom_map_of_conv_image_fst)
qed

lemma finite_km_view: "finite (dom (km_view km))"
proof -
  have "dom (km_view km) = dom (map_of (km_map km))" by (auto simp: km_view_def km_lookup_def)
  then show ?thesis by (simp add: finite_dom_map_of)
qed

lemma checkpoint_state_bytes:
  assumes km: "km_inv km" and d: "distinct (al_keys (em_entries em))"
  shows "records_bytes (build_checkpoint_state em km) \<le> 30 * card (dom (em_view em)) + key_bytes (km_view km)"
proof -
  define f :: "key \<Rightarrow> nat" where "f k = 30 + length k" for k
  define ids where "ids = al_keys (em_entries em)"
  have "records_bytes (build_checkpoint_state em km) =
      (\<Sum>s \<leftarrow> em_snapshot em. 30 + (\<Sum>k \<leftarrow> km_keys_in_extent (se_extent_id s) km. f k))"
    unfolding build_checkpoint_state_def records_bytes_concat
    by (simp add: records_bytes_def extent_new_record_def key_put_record_def jr_new_def comp_def f_def)
  also have "\<dots> = (\<Sum>ext \<leftarrow> ids. 30 + (\<Sum>k \<leftarrow> km_keys_in_extent ext km. f k))"
    by (simp add: em_snapshot_def ids_def comp_def split_def)
  also have "\<dots> = 30 * length ids + (\<Sum>ext \<in> set ids. \<Sum>k \<in> set (km_keys_in_extent ext km). f k)"
    using d [folded ids_def] km_keys_distinct [OF km]
    by (simp add: sum_list_addf sum_list_triv sum_list_distinct_conv_sum_set)
  also have "length ids = card (dom (em_view em))"
    using distinct_card [OF d] by (simp add: dom_em_view ids_def)
  also have "(\<Sum>ext \<in> set ids. \<Sum>k \<in> set (km_keys_in_extent ext km). f k) =
      (\<Sum>k \<in> (\<Union>ext \<in> set ids. set (km_keys_in_extent ext km)). f k)"
    by (rule sum.UNION_disjoint [symmetric]) (simp, simp, use kmi.keys_law [OF km] in auto)
  also have "\<dots> \<le> (\<Sum>k \<in> dom (km_view km). f k)"
    using kmi.keys_law [OF km] by (intro sum_mono2 finite_km_view) auto
  finally show ?thesis by (simp add: key_bytes_def f_def)
qed

section \<open>Steps of the engine\<close>

text \<open>A step that no client can see.\<close>

definition keeps :: "nat \<Rightarrow> engine \<Rightarrow> engine \<Rightarrow> bool" where
  "keeps res e e' \<longleftrightarrow> eng_inv res e' \<and> eng_abs e' = eng_abs e \<and> eng_km e' = eng_km e \<and> eng_cfg e' = eng_cfg e"

lemma keeps_refl: "eng_inv res e \<Longrightarrow> keeps res e e"
  by (simp add: keeps_def)

lemma keeps_trans: "keeps res e e' \<Longrightarrow> keeps res e' e'' \<Longrightarrow> keeps res e e''"
  by (simp add: keeps_def)

lemma with_journal_ok:
  assumes inv: "eng_inv res e"
    and f: "\<And>j d r j' d'. journal_idle res j \<Longrightarrow> f j d = (r, j', d') \<Longrightarrow> only_journal res d d' \<and> journal_idle res j'"
  shows "\<exists>r e'. with_journal f e = Some (r, e') \<and> keeps res e e' \<and> eng_em e' = eng_em e \<and>
    dev_agree (journal_set res) (eng_tiers e) (eng_tiers e')"
proof -
  obtain j where j: "eng_journal e = Some j" "journal_idle res j" using inv by (auto simp: eng_inv_def)
  have sp: "space_inv res (eng_em e) (eng_tiers e)" using inv by (simp add: eng_inv_def)
  obtain d where d: "side_dev True (eng_tiers e) = Some d" by (rule side_okE [OF sp, of True])
  then have fd: "fast_dev (eng_tiers e) = Some d" by (simp add: side_dev_def)
  obtain r j' d' where run: "f j d = (r, j', d')" by (metis prod_cases3)
  note o = f [OF j(2) run]
  define ts' where "ts' = (eng_tiers e)\<lparr>fast_dev := Some d'\<rparr>"
  define e' where "e' = e\<lparr>eng_journal := Some j', eng_tiers := ts'\<rparr>"
  have ag: "dev_agree (journal_set res) (eng_tiers e) ts'"
    using d o by (auto simp: dev_agree_def side_dev_def ts'_def only_journal_def journal_set_def split: option.split)
  have "same_allocs (eng_tiers e) ts'" by (simp add: same_allocs_def side_alloc_def ts'_def)
  then have "space_inv res (eng_em e) ts'" by (rule space_inv_dev [OF sp ag])
  moreover have kp: "keys_placed (km_view (eng_km e)) (em_view (eng_em e))" using inv by (simp add: eng_inv_def)
  ultimately have "keeps res e e'"
    using inv o stored_journal [OF sp kp ag] by (simp add: keeps_def eng_inv_def eng_abs_def e'_def)
  then show ?thesis using j fd run ag by (simp add: with_journal_def e'_def ts'_def)
qed

lemma journal_txn_ok:
  assumes inv: "eng_inv res e" and room: "fits res (records_bytes recs)"
  shows "\<exists>r e'. with_journal (run_txn recs) e = Some (r, e') \<and> keeps res e e' \<and> eng_em e' = eng_em e \<and>
    dev_agree (journal_set res) (eng_tiers e) (eng_tiers e')"
proof (rule with_journal_ok [OF inv])
  fix j d r j' d'
  assume idle: "journal_idle res j" and run: "run_txn recs j d = (r, j', d')"
  have "records_bytes recs + 22 + kTxnAlignment \<le> j_data_size j" "records_bytes recs + 22 < 2 ^ 30"
    using room idle by (auto simp: fits_def journal_idle_def)
  from run_txn_frame [OF run idle this] show "only_journal res d d' \<and> journal_idle res j'" .
qed

lemma eng_checkpoint_ok:
  assumes inv: "eng_inv res e" and room: "fits res (state_bytes e)"
  shows "\<exists>r e'. eng_checkpoint e = Some (r, e') \<and> keeps res e e' \<and> eng_em e' = eng_em e \<and>
    dev_agree (journal_set res) (eng_tiers e) (eng_tiers e')"
  unfolding eng_checkpoint_def
proof (rule with_journal_ok [OF inv])
  define st where "st = build_checkpoint_state (eng_em e) (eng_km e)"
  fix j d r j' d'
  assume idle: "journal_idle res j" and run: "j_checkpoint (build_checkpoint_state (eng_em e) (eng_km e)) j d = (r, j', d')"
  have "records_bytes st \<le> state_bytes e"
    unfolding st_def state_bytes_def using inv by (intro checkpoint_state_bytes) (auto simp: eng_inv_def space_inv_def)
  then have "records_bytes st + 31 + kTxnAlignment \<le> j_data_size j" "records_bytes st + 31 < 2 ^ 30"
    using room idle by (auto simp: fits_def journal_idle_def)
  from j_checkpoint_frame [OF run [folded st_def] idle this] show "only_journal res d d' \<and> journal_idle res j'" .
qed

lemma checkpoint_if_ok:
  assumes inv: "eng_inv res e" and room: "fits res (state_bytes e)"
  shows "\<exists>e'. checkpoint_if P e = Some e' \<and> keeps res e e' \<and> eng_em e' = eng_em e \<and>
    dev_agree (journal_set res) (eng_tiers e) (eng_tiers e')"
proof -
  obtain j where "eng_journal e = Some j" using inv by (auto simp: eng_inv_def)
  then show ?thesis
    using eng_checkpoint_ok [OF assms] keeps_refl [OF inv] by (auto simp: checkpoint_if_def)
qed

subsection \<open>Reserved slots\<close>

text \<open>
  The engine has reserved the slot: it lies in an extent after all slots that keys point to, and it
  is counted as live although no key points to it yet. A new extent holds no key at all.
\<close>

definition slot_held :: "put_slot \<Rightarrow> key_view \<Rightarrow> extent_view \<Rightarrow> bool" where
  "slot_held s m v \<longleftrightarrow>
     (\<exists>live. v (ps_extent s) = Some (ps_loc s, ps_offset s + ps_size s, live) \<and>
        ext_load m (ps_extent s) + ps_size s \<le> live) \<and>
     (\<forall>k kl. m k = Some kl \<longrightarrow> kl_extent kl = ps_extent s \<longrightarrow>
        \<not> ps_new s \<and> kl_offset kl + kl_length kl \<le> ps_offset s)"

abbreviation holds_slot :: "put_slot \<Rightarrow> engine \<Rightarrow> bool" where
  "holds_slot s e \<equiv> slot_held s (km_view (eng_km e)) (em_view (eng_em e))"

abbreviation ps_set :: "put_slot \<Rightarrow> (bool \<times> nat) set" where
  "ps_set s \<equiv> slot_set (ps_loc s) (ps_offset s) (ps_size s)"

text \<open>Replacing the extent map by one with the same or a wider view.\<close>

lemma keeps_em:
  assumes inv: "eng_inv res e" and sp: "space_inv res em' ts'" and ag: "dev_agree S (eng_tiers e) ts'"
    and kp: "keys_placed (km_view (eng_km e)) (em_view em')"
    and lc: "live_counted (km_view (eng_km e)) no_slack (em_view em')"
    and loc: "\<And>k kl loc used live. km_view (eng_km e) k = Some kl \<Longrightarrow>
      em_view (eng_em e) (kl_extent kl) = Some (loc, used, live) \<Longrightarrow>
      (\<exists>used' live'. em_view em' (kl_extent kl) = Some (loc, used', live')) \<and> loc_set loc \<inter> S = {}"
  shows "keeps res e (e\<lparr>eng_em := em', eng_tiers := ts'\<rparr>)"
proof -
  have kp0: "keys_placed (km_view (eng_km e)) (em_view (eng_em e))" and sp0: "space_inv res (eng_em e) (eng_tiers e)"
    using inv by (auto simp: eng_inv_def)
  have "stored (km_view (eng_km e)) (em_view em') ts' = stored (km_view (eng_km e)) (em_view (eng_em e)) (eng_tiers e)"
  proof (rule stored_step [OF ag _ kp0])
    fix k kl loc used live
    assume k: "km_view (eng_km e) k = Some kl" "em_view (eng_em e) (kl_extent kl) = Some (loc, used, live)"
    from loc [OF k] key_slot_sub [OF sp0 kp0 k]
    show "(\<exists>used' live'. em_view em' (kl_extent kl) = Some (loc, used', live')) \<and>
        slot_set loc (kl_offset kl) (kl_length kl) \<inter> S = {}" by blast
  qed
  then show ?thesis using inv sp kp lc by (simp add: keeps_def eng_inv_def eng_abs_def)
qed

text \<open>Freeing an extent without keys.\<close>

lemma keys_placed_without:
  assumes "keys_placed m v" and "\<And>k kl. m k = Some kl \<Longrightarrow> kl_extent kl \<noteq> ext"
  shows "keys_placed m (v(ext := x))"
  using assms unfolding keys_placed_def by simp

lemma free_unused_extent:
  assumes inv: "eng_inv res e" and unused: "\<And>k kl. km_view (eng_km e) k = Some kl \<Longrightarrow> kl_extent kl \<noteq> ext"
  shows "keeps res e (e\<lparr>eng_em := em_free ext (eng_em e)\<rparr>)"
proof -
  have sp: "space_inv res (eng_em e) (eng_tiers e)" using inv by (simp add: eng_inv_def)
  note fr = em_free_ok [OF sp, of ext]
  have "keeps res e (e\<lparr>eng_em := em_free ext (eng_em e), eng_tiers := eng_tiers e\<rparr>)"
    using inv fr unused
    by (intro keeps_em [OF inv _ dev_agree_refl [of "{}"]])
      (auto simp: eng_inv_def live_counted_def intro: keys_placed_without)
  then show ?thesis by simp
qed

text \<open>Reserving a slot.\<close>

lemma live_counted_load:
  "live_counted m slack v \<Longrightarrow> v ext = Some (loc, used, live) \<Longrightarrow> ext_load m ext + slack ext \<le> live"
  by (auto simp: live_counted_def)

lemma keys_placed_wider:
  assumes "keys_placed m v" and "v ext = Some (loc, used, live)" and "used \<le> used'"
  shows "keys_placed m (v(ext \<mapsto> (loc', used', live')))"
  using assms unfolding keys_placed_def by fastforce

lemma reserve_slot:
  assumes inv: "eng_inv res e" and run: "em_append_slot ext sz (eng_em e) = (off, em')" and sz: "sz < 2 ^ 30"
    and view: "em_view (eng_em e) ext = Some (loc, used, live)"
    and fresh: "\<And>k kl. fr \<Longrightarrow> km_view (eng_km e) k = Some kl \<Longrightarrow> kl_extent kl \<noteq> ext"
  shows "keeps res e (e\<lparr>eng_em := em'\<rparr>) \<and> dom (em_view em') = dom (em_view (eng_em e)) \<and>
    em_next_id em' = em_next_id (eng_em e) \<and> (off = UINT32_MAX \<longrightarrow> em' = eng_em e) \<and>
    (off \<noteq> UINT32_MAX \<longrightarrow>
      holds_slot \<lparr>ps_extent = ext, ps_offset = off, ps_size = sz, ps_loc = loc, ps_new = fr\<rparr> (e\<lparr>eng_em := em'\<rparr>))"
proof -
  define m v where "m = km_view (eng_km e)" and "v = em_view (eng_em e)"
  have sp: "space_inv res (eng_em e) (eng_tiers e)" and kp: "keys_placed m v" and lc: "live_counted m no_slack v"
    using inv by (auto simp: eng_inv_def m_def v_def)
  have ap: "space_inv res em' (eng_tiers e)" "em_same (eng_em e) em'"
    "if off = UINT32_MAX then em' = eng_em e else slot_reserved ext sz off (eng_em e) em'"
    using em_append_slot_ok [OF sp run] sz by auto
  show ?thesis
  proof (cases "off = UINT32_MAX")
    case True
    with ap keeps_refl [OF inv] show ?thesis by simp
  next
    case False
    then have off: "off = used" and fit: "off + sz + HEADER_SIZE \<le> dl_length loc"
      and v': "em_view em' = v(ext \<mapsto> (loc, off + sz, live + sz))"
      using ap(3) view by (auto simp: slot_reserved_def v_def)
    have load: "ext_load m ext \<le> live" using live_counted_load [OF lc, of ext] view by (simp add: v_def no_slack_def)
    have vx: "v ext = Some (loc, used, live)" using view by (simp add: v_def)
    have "keeps res e (e\<lparr>eng_em := em', eng_tiers := eng_tiers e\<rparr>)"
    proof (rule keeps_em [OF inv ap(1) dev_agree_refl [of "{}"]])
      show "keys_placed (km_view (eng_km e)) (em_view em')"
        unfolding v' using keys_placed_wider [OF kp vx] by (simp add: off m_def)
      show "live_counted (km_view (eng_km e)) no_slack (em_view em')"
        unfolding v' using lc load by (auto simp: live_counted_def no_slack_def m_def)
    qed (use v' vx in \<open>auto simp: v_def split: if_splits\<close>)
    moreover have "kl_offset kl + kl_length kl \<le> off" if "m k = Some kl" "kl_extent kl = ext" for k kl
      by (rule keys_placedE [OF kp that(1)]) (use that(2) vx off in auto)
    then have "slot_held \<lparr>ps_extent = ext, ps_offset = off, ps_size = sz, ps_loc = loc, ps_new = fr\<rparr> m (em_view em')"
      unfolding slot_held_def v' using load fresh by (auto simp: m_def)
    ultimately show ?thesis
      using False ap(2) vx by (auto simp: em_same_def v' m_def v_def)
  qed
qed

text \<open>Filling a reserved slot.\<close>

lemma slot_held_view:
  assumes "slot_held s m v"
  obtains live where "v (ps_extent s) = Some (ps_loc s, ps_offset s + ps_size s, live)"
    and "ext_load m (ps_extent s) + ps_size s \<le> live"
  using assms by (auto simp: slot_held_def)

lemma slot_disjoint_keys:
  assumes sp: "space_inv res em ts" and kp: "keys_placed m (em_view em)" and h: "slot_held s m (em_view em)"
    and k: "m k = Some kl" and v: "em_view em (kl_extent kl) = Some (loc, used, live)"
  shows "slot_set loc (kl_offset kl) (kl_length kl) \<inter> ps_set s = {}"
proof -
  obtain live' where vs: "em_view em (ps_extent s) = Some (ps_loc s, ps_offset s + ps_size s, live')"
    by (rule slot_held_view [OF h])
  show ?thesis
  proof (cases "kl_extent kl = ps_extent s")
    case True
    then have "kl_offset kl + kl_length kl \<le> ps_offset s" using h k by (auto simp: slot_held_def)
    moreover have "loc = ps_loc s" using True v vs by simp
    ultimately show ?thesis by (auto simp: slot_set_def)
  next
    case False
    have "ps_set s \<subseteq> loc_set (ps_loc s)" using view_entry(1) [OF sp vs] by (intro slot_set_sub)
    with key_slot_sub [OF sp kp k v] view_disjoint [OF sp v vs False] show ?thesis by blast
  qed
qed

lemma fill_slot:
  assumes inv: "eng_inv res e" and h: "holds_slot s e" and len: "length v = ps_size s" "ps_size s < 2 ^ 30"
  shows "\<exists>r e'. write_value (ps_loc s) (ps_offset s) v e = Some (r, e') \<and> keeps res e e' \<and> eng_em e' = eng_em e \<and>
    (0 \<le> r \<longrightarrow> value_at (ps_loc s) (slot_key_location s) (eng_tiers e') = Some v) \<and>
    dev_agree (ps_set s) (eng_tiers e) (eng_tiers e')"
proof -
  define ts where "ts = eng_tiers e"
  have sp: "space_inv res (eng_em e) ts" and kp: "keys_placed (km_view (eng_km e)) (em_view (eng_em e))"
    using inv by (auto simp: eng_inv_def ts_def)
  obtain live where vs: "em_view (eng_em e) (ps_extent s) = Some (ps_loc s, ps_offset s + ps_size s, live)"
    by (rule slot_held_view [OF h])
  note ve = view_entry [OF sp vs]
  have "(dl_tier (ps_loc s) = FAST, dl_offset (ps_loc s)) \<in> usable res ts"
    using ve(2,3) by (auto simp: loc_set_def loc_ok_def)
  then have "dl_offset (ps_loc s) < 2 ^ 63" by (rule space_inv_bound [OF sp])
  moreover have "ps_offset s + ps_size s + HEADER_SIZE \<le> 2 ^ 31" using ve(1,3) by (simp add: loc_ok_def)
  ultimately have addr: "slot_address (ps_loc s) (ps_offset s) = dl_offset (ps_loc s) + HEADER_SIZE + ps_offset s"
    and bnd: "dl_offset (ps_loc s) + HEADER_SIZE + ps_offset s + length v < 2 ^ 64"
    using len by (simp_all add: slot_address_def add64_exact)
  obtain d where d: "side_dev (dl_tier (ps_loc s) = FAST) ts = Some d" by (rule side_okE [OF sp])
  obtain r d' where w: "kd_write (dl_offset (ps_loc s) + HEADER_SIZE + ps_offset s) [v] True d = (r, d')" by fastforce
  define e' where "e' = e\<lparr>eng_tiers := set_dev (dl_tier (ps_loc s)) d' ts\<rparr>"
  have len31: "length v < 2 ^ 31" using len by simp
  have sub: "{dl_tier (ps_loc s) = FAST} \<times> arange (dl_offset (ps_loc s) + HEADER_SIZE + ps_offset s) (length v) \<subseteq> ps_set s"
    using len(1) by (simp add: slot_set_def)
  note ag = dev_agree_write [OF d w len31 bnd sub]
  have sp': "space_inv res (eng_em e) (set_dev (dl_tier (ps_loc s)) d' ts)" by (rule space_inv_dev [OF sp ag])
  have "stored (km_view (eng_km e)) (em_view (eng_em e)) (set_dev (dl_tier (ps_loc s)) d' ts) =
      stored (km_view (eng_km e)) (em_view (eng_em e)) ts"
    by (rule stored_step [OF ag(1) _ kp]) (use slot_disjoint_keys [OF sp kp h] in auto)
  then have "keeps res e e'" using inv sp' by (simp add: keeps_def eng_inv_def eng_abs_def e'_def ts_def)
  moreover have "value_at (ps_loc s) (slot_key_location s) (eng_tiers e') = Some v" if "0 \<le> r"
  proof -
    have "contents d' = patch (dl_offset (ps_loc s) + HEADER_SIZE + ps_offset s) v (contents d)"
      using kd_write_spec [OF w] len31 bnd that by simp
    then show ?thesis
      using len(1) by (simp add: value_at_def dev_of_side e'_def slot_key_location_def slice_patch_same)
  qed
  moreover have "dev_agree (ps_set s) (eng_tiers e) (eng_tiers e')" using ag(1) by (simp add: e'_def ts_def)
  ultimately show ?thesis
    using d w addr by (simp add: write_value_def dev_of_side ts_def [symmetric] e'_def)
qed

lemma cleanup_ok:
  assumes inv: "eng_inv res e" and h: "holds_slot s e"
  shows "keeps res e (put_cleanup_on_failure s e)"
proof (cases "ps_new s")
  case True
  then have "km_view (eng_km e) k = Some kl \<Longrightarrow> kl_extent kl \<noteq> ps_extent s" for k kl
    using h by (auto simp: slot_held_def)
  with True free_unused_extent [OF inv] show ?thesis by (simp add: put_cleanup_on_failure_def)
next
  case False
  define m v where "m = km_view (eng_km e)" and "v = em_view (eng_em e)"
  have sp: "space_inv res (eng_em e) (eng_tiers e)" and kp: "keys_placed m v" and lc: "live_counted m no_slack v"
    using inv by (auto simp: eng_inv_def m_def v_def)
  obtain live where vs: "v (ps_extent s) = Some (ps_loc s, ps_offset s + ps_size s, live)"
    and load: "ext_load m (ps_extent s) + ps_size s \<le> live"
    using slot_held_view [OF h] unfolding m_def v_def by blast
  define em' where "em' = em_mark_dead_slot (ps_extent s) (ps_size s) (eng_em e)"
  have md: "space_inv res em' (eng_tiers e)"
    "em_view em' = v(ps_extent s \<mapsto> (ps_loc s, ps_offset s + ps_size s, live - ps_size s))"
    using em_mark_dead_slot_ok [OF sp, of "ps_extent s" "ps_size s"] vs by (auto simp: em'_def v_def)
  have "keeps res e (e\<lparr>eng_em := em', eng_tiers := eng_tiers e\<rparr>)"
  proof (rule keeps_em [OF inv md(1) dev_agree_refl [of "{}"]])
    show "keys_placed (km_view (eng_km e)) (em_view em')"
      unfolding md(2) using keys_placed_wider [OF kp vs] by (simp add: m_def)
    show "live_counted (km_view (eng_km e)) no_slack (em_view em')"
      unfolding md(2) using lc load by (auto simp: live_counted_def no_slack_def m_def)
  qed (use md(2) vs in \<open>auto simp: v_def split: if_splits\<close>)
  then show ?thesis using False by (simp add: put_cleanup_on_failure_def em'_def)
qed

subsection \<open>New extents\<close>

abbreviation extents :: "engine \<Rightarrow> u64 set" where
  "extents e \<equiv> dom (em_view (eng_em e))"

abbreviation next_extent :: "engine \<Rightarrow> u64" where
  "next_extent e \<equiv> em_next_id (eng_em e)"

lemma extent_has_id: "eng_inv res e \<Longrightarrow> ext \<in> extents e \<Longrightarrow> ext < next_extent e"
  using view_entry(4) by (fastforce simp: eng_inv_def)

lemma key_extent: "eng_inv res e \<Longrightarrow> km_view (eng_km e) k = Some kl \<Longrightarrow> kl_extent kl \<in> extents e"
  unfolding eng_inv_def by (elim conjE keys_placedE) auto

lemma allocate_ok:
  assumes inv: "eng_inv res e" and sz: "sz \<le> 2 ^ 30" and id: "next_extent e < 2 ^ 64 - 1"
    and run: "em_allocate_extent t sz (eng_em e) (eng_tiers e) = Some (r, em', ts')"
  shows "keeps res e (e\<lparr>eng_em := em', eng_tiers := ts'\<rparr>) \<and> em_next_id em' \<le> Suc (next_extent e) \<and>
    (case r of
       None \<Rightarrow> em_view em' = em_view (eng_em e)
     | Some (ext, loc) \<Rightarrow> ext = next_extent e \<and> em_view em' = (em_view (eng_em e))(ext \<mapsto> (loc, 0, 0)))"
proof -
  define m v where "m = km_view (eng_km e)" and "v = em_view (eng_em e)"
  have sp: "space_inv res (eng_em e) (eng_tiers e)" and kp: "keys_placed m v" and lc: "live_counted m no_slack v"
    using inv by (auto simp: eng_inv_def m_def v_def)
  have al: "space_inv res em' ts'" "case r of
       None \<Rightarrow> em' = eng_em e \<and> dev_agree {} (eng_tiers e) ts'
     | Some (ext, loc) \<Rightarrow> ext = next_extent e \<and> v ext = None \<and> em_next_id em' = Suc ext \<and>
         em_view em' = v(ext \<mapsto> (loc, 0, 0)) \<and> dev_agree (loc_set loc) (eng_tiers e) ts'"
    using em_allocate_extent_ok [OF sp sz id, of t] run unfolding v_def by auto
  show ?thesis
  proof (cases r)
    case None
    then have "em' = eng_em e" "dev_agree {} (eng_tiers e) ts'" using al(2) by auto
    moreover from this have "keeps res e (e\<lparr>eng_em := em', eng_tiers := ts'\<rparr>)"
      using kp lc by (intro keeps_em [OF inv al(1)]) (auto simp: m_def v_def)
    ultimately show ?thesis using None by simp
  next
    case (Some x)
    obtain ext loc where x: "x = (ext, loc)" by (cases x)
    have n: "ext = next_extent e" "em_next_id em' = Suc ext" "em_view em' = v(ext \<mapsto> (loc, 0, 0))"
      and ag: "dev_agree (loc_set loc) (eng_tiers e) ts'" using al(2) Some x by auto
    have no: "kl_extent kl \<noteq> ext" if "m k = Some kl" for k kl
      using extent_has_id [OF inv key_extent [OF inv that [unfolded m_def]]] n(1) by simp
    have "keeps res e (e\<lparr>eng_em := em', eng_tiers := ts'\<rparr>)"
    proof (rule keeps_em [OF inv al(1) ag])
      show "keys_placed (km_view (eng_km e)) (em_view em')"
        unfolding n(3) using keys_placed_without [OF kp no] by (simp add: m_def)
      have "ext_load m ext = 0" using no by (rule ext_load_none)
      then show "live_counted (km_view (eng_km e)) no_slack (em_view em')"
        unfolding n(3) using lc by (auto simp: live_counted_def no_slack_def m_def)
      fix k kl loc' used live
      assume k: "km_view (eng_km e) k = Some kl" "em_view (eng_em e) (kl_extent kl) = Some (loc', used, live)"
      have ne: "kl_extent kl \<noteq> ext" using no k(1) by (simp add: m_def)
      then have k': "em_view em' (kl_extent kl) = Some (loc', used, live)" using k(2) n(3) by (simp add: v_def)
      moreover have "em_view em' ext = Some (loc, 0, 0)" using n(3) by simp
      ultimately have "loc_set loc' \<inter> loc_set loc = {}" using view_disjoint [OF al(1) _ _ ne] by blast
      with k' show "(\<exists>used' live'. em_view em' (kl_extent kl) = Some (loc', used', live')) \<and> loc_set loc' \<inter> loc_set loc = {}"
        by simp
    qed
    then show ?thesis using Some x n by (simp add: v_def)
  qed
qed

lemma new_extent_ok:
  assumes inv: "eng_inv res e" and sz: "sz \<le> 2 ^ 30" and id: "next_extent e < 2 ^ 64 - 1" and room: "fits res 30"
  shows "\<exists>x e'. put_allocate_new_extent t sz e = Some (x, e') \<and> keeps res e e' \<and> next_extent e' \<le> Suc (next_extent e) \<and>
    (case x of
       Inl r \<Rightarrow> r < 0 \<and> extents e' \<subseteq> extents e
     | Inr (ext, loc) \<Rightarrow> em_view (eng_em e') ext = Some (loc, 0, 0) \<and> extents e' = insert ext (extents e) \<and> ext \<notin> extents e)"
proof -
  have sp: "space_inv res (eng_em e) (eng_tiers e)" using inv by (simp add: eng_inv_def)
  obtain r em1 ts1 where run: "em_allocate_extent t sz (eng_em e) (eng_tiers e) = Some (r, em1, ts1)"
    using em_allocate_extent_ok [OF sp sz id, of t] by blast
  define e1 where "e1 = e\<lparr>eng_em := em1, eng_tiers := ts1\<rparr>"
  note al = allocate_ok [OF inv sz id run, folded e1_def]
  show ?thesis
  proof (cases r)
    case None
    then show ?thesis using run al by (auto simp: put_allocate_new_extent_def e1_def)
  next
    case (Some x)
    obtain ext loc where x: "x = (ext, loc)" by (cases x)
    have ext: "ext = next_extent e" and v1: "em_view em1 = (em_view (eng_em e))(ext \<mapsto> (loc, 0, 0))"
      using al Some x by auto
    have fresh: "ext \<notin> extents e" using extent_has_id [OF inv] ext by blast
    have inv1: "eng_inv res e1" and k1: "eng_km e1 = eng_km e" using al by (auto simp: keeps_def)
    have "records_bytes [extent_new_record ext loc] = 30" by (simp add: records_bytes_def extent_new_record_def jr_new_def)
    then obtain r2 e2 where tx: "with_journal (run_txn [extent_new_record ext loc]) e1 = Some (r2, e2)"
      and k2: "keeps res e1 e2" "eng_em e2 = eng_em e1"
      using journal_txn_ok [OF inv1, of "[extent_new_record ext loc]"] room by auto
    have inv2: "eng_inv res e2" using k2(1) by (simp add: keeps_def)
    have 02: "keeps res e e2" using al k2(1) keeps_trans by blast
    show ?thesis
    proof (cases "r2 < 0")
      case True
      have un: "km_view (eng_km e2) k = Some kl \<Longrightarrow> kl_extent kl \<noteq> ext" for k kl
        using key_extent [OF inv] fresh k1 k2(1) by (auto simp: keeps_def)
      note fr = free_unused_extent [OF inv2 un]
      define e3 where "e3 = e2\<lparr>eng_em := em_free ext (eng_em e2)\<rparr>"
      have "space_inv res (eng_em e2) (eng_tiers e2)" using inv2 by (simp add: eng_inv_def)
      note fo = em_free_ok [OF this, of ext]
      have "put_allocate_new_extent t sz e = Some (Inl r2, e3)"
        using run Some x tx True by (simp add: put_allocate_new_extent_def put_pre_transaction_extent_def e1_def e3_def)
      moreover have "keeps res e e3" using keeps_trans [OF 02 fr] by (simp add: e3_def)
      moreover have "extents e3 \<subseteq> extents e" using fo k2(2) v1 by (auto simp: e3_def e1_def split: if_splits)
      moreover have "next_extent e3 \<le> Suc (next_extent e)" using fo k2(2) al by (simp add: e3_def e1_def)
      ultimately show ?thesis using True by auto
    next
      case False
      have "put_allocate_new_extent t sz e = Some (Inr (ext, loc), e2)"
        using run Some x tx False by (simp add: put_allocate_new_extent_def put_pre_transaction_extent_def e1_def)
      moreover have "em_view (eng_em e2) = (em_view (eng_em e))(ext \<mapsto> (loc, 0, 0))" using k2(2) v1 by (simp add: e1_def)
      moreover have "next_extent e2 \<le> Suc (next_extent e)" using k2(2) al by (simp add: e1_def)
      ultimately show ?thesis using 02 fresh by auto
    qed
  qed
qed

subsection \<open>Finding a place\<close>

text \<open>What the three ways to obtain a slot have in common.\<close>

definition slot_result :: "nat \<Rightarrow> nat \<Rightarrow> u32 \<Rightarrow> engine \<Rightarrow> int + put_slot \<Rightarrow> engine \<Rightarrow> bool" where
  "slot_result res n vsz e x e' \<longleftrightarrow> keeps res e e' \<and> next_extent e' \<le> next_extent e + n \<and>
     card (extents e') \<le> Suc (card (extents e)) \<and>
     (case x of Inl r \<Rightarrow> r < 0 | Inr s \<Rightarrow> holds_slot s e' \<and> ps_size s = vsz)"

lemma card_extents: "dom (em_view em') \<subseteq> insert x (dom (em_view em)) \<Longrightarrow> card (dom (em_view em')) \<le> Suc (card (dom (em_view em)))"
  using card_mono [of "insert x (dom (em_view em))" "dom (em_view em')"] card_insert_le_m1 [of "Suc (card (dom (em_view em)))" "dom (em_view em)" x]
  by (simp add: dom_em_view)

lemma card_extents_sub: "dom (em_view em') \<subseteq> dom (em_view em) \<Longrightarrow> card (dom (em_view em')) \<le> card (dom (em_view em))"
  by (rule card_mono) (simp_all add: dom_em_view)

lemma slot_result_trans:
  assumes "keeps res e e1" and "extents e1 \<subseteq> extents e" and "next_extent e1 \<le> next_extent e + i"
    and "slot_result res n vsz e1 x e'" and "i + n \<le> k"
  shows "slot_result res k vsz e x e'"
  using assms keeps_trans [OF assms(1)] card_extents_sub [OF assms(2)] by (cases x) (simp_all add: slot_result_def)

lemma slot_in_new_extent:
  assumes inv: "eng_inv res e" and sz: "sz \<le> 2 ^ 30" and id: "next_extent e < 2 ^ 64 - 1" and room: "fits res 30"
    and vsz: "vsz < 2 ^ 30"
  shows "\<exists>x e'. put_slot_in_new_extent sz vsz e = Some (x, e') \<and> slot_result res 1 vsz e x e'"
proof -
  obtain x e1 where run: "put_allocate_new_extent FAST sz e = Some (x, e1)" and k1: "keeps res e e1"
    and n1: "next_extent e1 \<le> Suc (next_extent e)"
    and x: "case x of Inl r \<Rightarrow> r < 0 \<and> extents e1 \<subseteq> extents e
      | Inr (ext, loc) \<Rightarrow> em_view (eng_em e1) ext = Some (loc, 0, 0) \<and> extents e1 = insert ext (extents e) \<and> ext \<notin> extents e"
    using new_extent_ok [OF inv sz id room, of FAST] by blast
  show ?thesis
  proof (cases x)
    case (Inl r)
    with run k1 n1 x show ?thesis using card_extents_sub [of "eng_em e1" "eng_em e"] by (simp add: put_slot_in_new_extent_def slot_result_def)
  next
    case (Inr p)
    obtain ext loc where p: "p = (ext, loc)" by (cases p)
    have v1: "em_view (eng_em e1) ext = Some (loc, 0, 0)" and d1: "extents e1 = insert ext (extents e)" and fr: "ext \<notin> extents e"
      using x Inr p by auto
    have inv1: "eng_inv res e1" and km: "eng_km e1 = eng_km e" using k1 by (auto simp: keeps_def)
    have unused: "km_view (eng_km e1) k = Some kl \<Longrightarrow> kl_extent kl \<noteq> ext" for k kl
      using key_extent [OF inv] fr km by auto
    obtain off em2 where ap: "em_append_slot ext vsz (eng_em e1) = (off, em2)" by fastforce
    note rs = reserve_slot [OF inv1 ap vsz v1 unused, of True]
    define e2 where "e2 = e1\<lparr>eng_em := em2\<rparr>"
    have k2: "keeps res e e2" using keeps_trans [OF k1] rs by (simp add: e2_def)
    show ?thesis
    proof (cases "off = UINT32_MAX")
      case True
      then have e2: "e2 = e1" using rs by (simp add: e2_def)
      define e3 where "e3 = e2\<lparr>eng_em := em_free ext (eng_em e2)\<rparr>"
      have "space_inv res (eng_em e1) (eng_tiers e1)" using inv1 by (simp add: eng_inv_def)
      note fo = em_free_ok [OF this, of ext]
      have "put_slot_in_new_extent sz vsz e = Some (Inl (- EIO), e3)"
        using run Inr p ap True by (simp add: put_slot_in_new_extent_def e2_def e3_def)
      moreover have "keeps res e e3"
        using keeps_trans [OF k1 free_unused_extent [OF inv1 unused]] by (simp add: e3_def e2)
      moreover have "extents e3 \<subseteq> extents e" using fo d1 fr by (auto simp: e3_def e2)
      then have "card (extents e3) \<le> card (extents e)" by (rule card_extents_sub)
      ultimately show ?thesis using fo n1 by (simp add: slot_result_def e3_def e2)
    next
      case False
      define s where "s = \<lparr>ps_extent = ext, ps_offset = off, ps_size = vsz, ps_loc = loc, ps_new = True\<rparr>"
      have "put_slot_in_new_extent sz vsz e = Some (Inr s, e2)"
        using run Inr p ap False by (simp add: put_slot_in_new_extent_def e2_def s_def)
      moreover have "holds_slot s e2" using rs False by (simp add: s_def e2_def)
      moreover have "extents e2 \<subseteq> insert ext (extents e)" "next_extent e2 \<le> next_extent e + 1"
        using rs d1 n1 by (simp_all add: e2_def)
      ultimately show ?thesis using k2 card_extents by (simp add: slot_result_def s_def)
    qed
  qed
qed

lemma small_slot_existing:
  assumes inv: "eng_inv res e" and id: "next_extent e < 2 ^ 64 - 1" and room: "fits res 30" and vsz: "vsz < 2 ^ 30"
    and target: "em_find_extent_with_space FAST vsz (eng_em e) = ext" "ext \<noteq> UINT64_MAX"
  shows "\<exists>x e'. put_small_slot vsz e = Some (x, e') \<and> slot_result res 1 vsz e x e'"
proof (cases "em_lookup ext (eng_em e)")
  case None
  then show ?thesis
    using target keeps_refl [OF inv] by (simp add: put_small_slot_def em_get_location_def slot_result_def)
next
  case (Some en)
  then have v: "em_view (eng_em e) ext = Some (ee_loc en, ee_used en, ee_live en)" by (simp add: em_view_def)
  obtain off em2 where ap: "em_append_slot ext vsz (eng_em e) = (off, em2)" by fastforce
  note rs = reserve_slot [OF inv ap vsz v, of False, simplified]
  have sz: "extent_size (eng_cfg e) \<le> 2 ^ 30" using inv by (simp add: eng_inv_def)
  show ?thesis
  proof (cases "off = UINT32_MAX")
    case True
    then have "e\<lparr>eng_em := em2\<rparr> = e" using rs by simp
    then have "put_small_slot vsz e = put_slot_in_new_extent (extent_size (eng_cfg e)) vsz e"
      using target Some ap True by (simp add: put_small_slot_def em_get_location_def)
    then show ?thesis using slot_in_new_extent [OF inv sz id room vsz] by simp
  next
    case False
    then show ?thesis
      using target Some ap rs by (auto simp: put_small_slot_def em_get_location_def slot_result_def)
  qed
qed

lemma small_slot_new:
  assumes inv: "eng_inv res e" and id: "next_extent e < 2 ^ 64 - 2" and room: "fits res 30" and vsz: "vsz < 2 ^ 30"
    and target: "em_find_extent_with_space FAST vsz (eng_em e) = UINT64_MAX"
  shows "\<exists>x e'. put_small_slot vsz e = Some (x, e') \<and> slot_result res 2 vsz e x e'"
proof -
  define esz where "esz = extent_size (eng_cfg e)"
  have sz: "esz \<le> 2 ^ 30" using inv by (simp add: eng_inv_def esz_def)
  obtain x e1 where run: "put_allocate_new_extent FAST esz e = Some (x, e1)" and k1: "keeps res e e1"
    and n1: "next_extent e1 \<le> Suc (next_extent e)"
    and x: "case x of Inl r \<Rightarrow> r < 0 \<and> extents e1 \<subseteq> extents e
      | Inr (ext, loc) \<Rightarrow> em_view (eng_em e1) ext = Some (loc, 0, 0) \<and> extents e1 = insert ext (extents e) \<and> ext \<notin> extents e"
    using new_extent_ok [OF inv sz _ room, of FAST] id by fastforce
  show ?thesis
  proof (cases x)
    case (Inl r)
    with run k1 n1 x target show ?thesis using card_extents_sub [of "eng_em e1" "eng_em e"] by (simp add: put_small_slot_def esz_def slot_result_def)
  next
    case (Inr p)
    obtain ext loc where p: "p = (ext, loc)" by (cases p)
    have v1: "em_view (eng_em e1) ext = Some (loc, 0, 0)" and d1: "extents e1 = insert ext (extents e)" and fr: "ext \<notin> extents e"
      using x Inr p by auto
    have inv1: "eng_inv res e1" and km: "eng_km e1 = eng_km e" using k1 by (auto simp: keeps_def)
    have unused: "km_view (eng_km e1) k = Some kl \<Longrightarrow> kl_extent kl \<noteq> ext" for k kl
      using key_extent [OF inv] fr km by auto
    obtain off em2 where ap: "em_append_slot ext vsz (eng_em e1) = (off, em2)" by fastforce
    note rs = reserve_slot [OF inv1 ap vsz v1 unused, of True]
    show ?thesis
    proof (cases "off = UINT32_MAX")
      case True
      then have e2: "e1\<lparr>eng_em := em2\<rparr> = e1" and em2: "em2 = eng_em e1" using rs by auto
      define e3 where "e3 = e1\<lparr>eng_em := em_free ext (eng_em e1)\<rparr>"
      have "space_inv res (eng_em e1) (eng_tiers e1)" using inv1 by (simp add: eng_inv_def)
      note fo = em_free_ok [OF this, of ext]
      have k3: "keeps res e e3" using keeps_trans [OF k1 free_unused_extent [OF inv1 unused]] by (simp add: e3_def)
      have inv3: "eng_inv res e3" using k3 by (simp add: keeps_def)
      have id3: "next_extent e3 < 2 ^ 64 - 1" using fo n1 id by (simp add: e3_def)
      have "put_small_slot vsz e = put_slot_in_new_extent esz vsz e3"
        using target run Inr p ap True em2 by (simp add: put_small_slot_def esz_def e3_def)
      moreover have "extents e3 \<subseteq> extents e" using fo d1 fr by (simp add: e3_def)
      moreover have "next_extent e3 \<le> Suc (next_extent e)" using fo n1 by (simp add: e3_def)
      ultimately show ?thesis
        using slot_in_new_extent [OF inv3 sz id3 room vsz] slot_result_trans [OF k3, where k = 2 and i = 1 and n = 1] by fastforce
    next
      case False
      then show ?thesis
        using target run Inr p ap rs keeps_trans [OF k1] card_extents [of em2 ext "eng_em e"] d1 n1
        by (simp add: put_small_slot_def esz_def slot_result_def)
    qed
  qed
qed

lemma cleanup_size:
  assumes "eng_inv res e"
  shows "next_extent (put_cleanup_on_failure s e) = next_extent e" and "card (extents (put_cleanup_on_failure s e)) \<le> card (extents e)"
proof -
  have sp: "space_inv res (eng_em e) (eng_tiers e)" using assms by (simp add: eng_inv_def)
  note ops = em_free_ok [OF sp, of "ps_extent s"] em_mark_dead_slot_ok [OF sp, of "ps_extent s" "ps_size s"]
  then show "next_extent (put_cleanup_on_failure s e) = next_extent e"
    by (simp add: put_cleanup_on_failure_def em_same_def)
  show "card (extents (put_cleanup_on_failure s e)) \<le> card (extents e)"
    by (rule card_extents_sub) (use ops in \<open>auto simp: put_cleanup_on_failure_def split: option.splits if_splits\<close>)
qed

lemma write_data_ok:
  assumes inv: "eng_inv res e" and id: "next_extent e < 2 ^ 64 - 2" and room: "fits res 30"
    and len: "length v + HEADER_SIZE \<le> 2 ^ 30"
  shows "\<exists>x e'. put_write_data v e = Some (x, e') \<and> slot_result res 2 (length v) e x e' \<and>
    (\<forall>s. x = Inr s \<longrightarrow> value_at (ps_loc s) (slot_key_location s) (eng_tiers e') = Some v)"
proof -
  have v: "length v mod 2 ^ 32 = length v" "length v < 2 ^ 30" "add32 (length v) HEADER_SIZE = length v + HEADER_SIZE"
    using len by (simp_all add: HEADER_SIZE_def add32_exact)
  define get where "get = (if length v \<ge> large_value_threshold (eng_cfg e)
      then put_slot_in_new_extent (length v + HEADER_SIZE) (length v) e else put_small_slot (length v) e)"
  have "\<exists>x e'. get = Some (x, e') \<and> slot_result res 2 (length v) e x e'"
  proof (cases "length v \<ge> large_value_threshold (eng_cfg e)")
    case True
    then show ?thesis
      using slot_in_new_extent [OF inv len _ room v(2)] id by (fastforce simp: get_def slot_result_def)
  next
    case False
    then have g: "get = put_small_slot (length v) e" by (simp add: get_def)
    have id1: "next_extent e < 2 ^ 64 - 1" using id by simp
    show ?thesis
    proof (cases "em_find_extent_with_space FAST (length v) (eng_em e) = UINT64_MAX")
      case True
      then show ?thesis using small_slot_new [OF inv id room v(2)] g by simp
    next
      case False
      then show ?thesis
        using small_slot_existing [OF inv id1 room v(2) refl] g by (fastforce simp: slot_result_def)
    qed
  qed
  then obtain x e1 where gx: "get = Some (x, e1)" and sr: "slot_result res 2 (length v) e x e1" by blast
  have "put_write_data v e = get \<bind> (\<lambda>(res, e1). case res of Inl r \<Rightarrow> Some (Inl r, e1) | Inr s \<Rightarrow> put_fill_slot s v e1)"
    unfolding put_write_data_def get_def v(1) Let_def v(3) by simp
  then have pw: "put_write_data v e = (case x of Inl r \<Rightarrow> Some (Inl r, e1) | Inr s \<Rightarrow> put_fill_slot s v e1)"
    using gx by simp
  show ?thesis
  proof (cases x)
    case (Inl r)
    then show ?thesis using pw sr by simp
  next
    case (Inr s)
    have k1: "keeps res e e1" and h: "holds_slot s e1" "ps_size s = length v"
      and ex: "card (extents e1) \<le> Suc (card (extents e))" "next_extent e1 \<le> next_extent e + 2"
      using sr Inr by (auto simp: slot_result_def)
    have inv1: "eng_inv res e1" using k1 by (simp add: keeps_def)
    obtain r e2 where w: "write_value (ps_loc s) (ps_offset s) v e1 = Some (r, e2)" and k2: "keeps res e1 e2"
      and em: "eng_em e2 = eng_em e1" and val: "0 \<le> r \<longrightarrow> value_at (ps_loc s) (slot_key_location s) (eng_tiers e2) = Some v"
      using fill_slot [OF inv1 h(1), of v] h(2) v(2) by auto
    have h2: "holds_slot s e2" using h(1) em k2 by (simp add: keeps_def)
    have k02: "keeps res e e2" by (rule keeps_trans [OF k1 k2])
    show ?thesis
    proof (cases "r < 0")
      case True
      have inv2: "eng_inv res e2" using k2 by (simp add: keeps_def)
      have "card (extents (put_cleanup_on_failure s e2)) \<le> Suc (card (extents e))"
        using cleanup_size(2) [OF inv2, of s] ex(1) em by simp
      then show ?thesis
        using pw Inr w True keeps_trans [OF k02 cleanup_ok [OF inv2 h2]] cleanup_size(1) [OF inv2] ex(2) em
        by (simp add: put_fill_slot_def slot_result_def)
    next
      case False
      then show ?thesis
        using pw Inr w val k02 h2 h(2) ex em by (simp add: put_fill_slot_def slot_result_def)
    qed
  qed
qed

subsection \<open>Committing in memory\<close>

text \<open>Retiring the slot \<open>kl\<close> when \<open>m\<close> is the index without it.\<close>

definition same_places :: "key_view \<Rightarrow> extent_view \<Rightarrow> extent_view \<Rightarrow> bool" where
  "same_places m v v' \<longleftrightarrow>
     (\<forall>k kl loc used live. m k = Some kl \<longrightarrow> v (kl_extent kl) = Some (loc, used, live) \<longrightarrow>
       (\<exists>live'. v' (kl_extent kl) = Some (loc, used, live')))"

lemma retire_slot_ok:
  assumes sp: "space_inv res em ts" and kp: "keys_placed m (em_view em)"
    and lc: "live_counted m (no_slack(kl_extent kl := kl_length kl)) (em_view em)"
  shows "space_inv res (retire_slot kl em) ts \<and> keys_placed m (em_view (retire_slot kl em)) \<and>
    live_counted m no_slack (em_view (retire_slot kl em)) \<and> same_places m (em_view em) (em_view (retire_slot kl em)) \<and>
    em_next_id (retire_slot kl em) = em_next_id em \<and> dom (em_view (retire_slot kl em)) \<subseteq> dom (em_view em)"
proof -
  define ext v em1 where "ext = kl_extent kl" and "v = em_view em" and "em1 = em_mark_dead_slot ext (kl_length kl) em"
  have 1: "space_inv res em1 ts" "em_next_id em1 = em_next_id em"
    and v1: "em_view em1 = (case v ext of None \<Rightarrow> v | Some (loc, used, live) \<Rightarrow> v(ext \<mapsto> (loc, used, live - kl_length kl)))"
    using em_mark_dead_slot_ok [OF sp, of ext "kl_length kl"] unfolding v_def em1_def em_same_def by auto
  have kp1: "keys_placed m (em_view em1)"
    using kp keys_placed_wider [of m v ext] by (auto simp: v1 v_def split: option.split)
  have lc1: "live_counted m no_slack (em_view em1)"
  proof -
    have "ext_load m e + (no_slack(ext := kl_length kl)) e \<le> live" if "v e = Some (loc, used, live)" for e loc used live
      using live_counted_load [OF lc] that by (simp add: ext_def v_def)
    then show ?thesis unfolding live_counted_def v1
      by (auto simp: no_slack_def split: option.split if_splits) fastforce+
  qed
  have sm1: "same_places m v (em_view em1)" by (auto simp: same_places_def v1 split: option.split)
  have d1: "dom (em_view em1) = dom v" by (auto simp: v1 split: option.split)
  have live: "em_get_live_bytes ext em1 = (case em_view em1 ext of None \<Rightarrow> 0 | Some (loc, used, live) \<Rightarrow> live)"
    by (simp add: em_get_live_bytes_def em_view_def split: option.split)
  show ?thesis
  proof (cases "em_get_live_bytes ext em1 = 0")
    case True
    have no: "kl_extent kl' \<noteq> ext" if "m k = Some kl'" for k kl'
    proof (cases "em_view em1 ext")
      case None
      then show ?thesis using keys_placedE [OF kp1 that] by force
    next
      case (Some x)
      obtain loc used l where x: "x = (loc, used, l)" by (cases x)
      have "ext_load m ext = 0"
        using live_counted_load [OF lc1 Some [unfolded x]] True live Some x by (simp add: no_slack_def)
      then show ?thesis using ext_load_zero [OF kp1 _ that] by blast
    qed
    have r: "retire_slot kl em = em_free ext em1" using True by (simp add: retire_slot_def em1_def ext_def Let_def)
    note fr = em_free_ok [OF 1(1), of ext]
    have "live_counted m no_slack ((em_view em1)(ext := None))" using lc1 by (auto simp: live_counted_def)
    moreover have "same_places m v ((em_view em1)(ext := None))" using sm1 no by (auto simp: same_places_def)
    ultimately show ?thesis
      unfolding r using fr keys_placed_without [OF kp1 no] 1(2) d1 by (auto simp: v_def)
  next
    case False
    then have r: "retire_slot kl em = em1" by (simp add: retire_slot_def em1_def ext_def Let_def)
    show ?thesis unfolding r using 1 kp1 lc1 sm1 d1 by (simp add: v_def)
  qed
qed

lemma stored_places:
  assumes "same_places m v v'" and "keys_placed m v"
  shows "stored m v' ts = stored m v ts"
  using assms by (intro stored_step [OF dev_agree_refl [of "{}"]]) (auto simp: same_places_def, blast)

lemma commit_memory_ok:
  assumes inv: "eng_inv res e" and h: "holds_slot s e" and pos: "0 < ps_size s"
    and val: "value_at (ps_loc s) (slot_key_location s) (eng_tiers e) = Some v"
    and e': "e' = put_commit_memory_state k (km_lookup k (eng_km e)) s e"
  shows "eng_inv res e' \<and> eng_abs e' = (eng_abs e)(k \<mapsto> v) \<and> next_extent e' = next_extent e \<and>
    extents e' \<subseteq> extents e \<and> km_view (eng_km e') = (km_view (eng_km e))(k \<mapsto> slot_key_location s)"
proof -
  define m vw where "m = km_view (eng_km e)" and "vw = em_view (eng_em e)"
  define m' where "m' = m(k \<mapsto> slot_key_location s)"
  have sp: "space_inv res (eng_em e) (eng_tiers e)" and km: "km_inv (eng_km e)" and kp: "keys_placed m vw"
    and lc: "live_counted m no_slack vw" and fin: "finite (dom m)"
    using inv by (auto simp: eng_inv_def m_def vw_def keys_placed_def)
  obtain live where vs: "vw (ps_extent s) = Some (ps_loc s, ps_offset s + ps_size s, live)"
    and load: "ext_load m (ps_extent s) + ps_size s \<le> live"
    using slot_held_view [OF h] unfolding m_def vw_def by blast
  have kp': "keys_placed m' vw"
    using kp vs pos by (auto simp: keys_placed_def m'_def slot_key_location_def)
  define old where "old ext = (case m k of Some kl \<Rightarrow> if kl_extent kl = ext then kl_length kl else 0 | None \<Rightarrow> 0)" for ext
  have sum: "ext_load m ext = ext_load (m(k := None)) ext + old ext" for ext
    using ext_load_erase [OF fin, of k] by (cases "m k") (auto simp: old_def fun_upd_idem)
  have sum': "ext_load m' ext = ext_load (m(k := None)) ext + (if ps_extent s = ext then ps_size s else 0)" for ext
    using ext_load_put [OF fin, of k "slot_key_location s" ext] by (simp add: m'_def slot_key_location_def)
  have lc': "live_counted m' old vw"
    unfolding live_counted_def
  proof (intro allI impI)
    fix ext loc used l
    assume x: "vw ext = Some (loc, used, l)"
    have "ext_load m ext + (if ps_extent s = ext then ps_size s else 0) \<le> l"
      using live_counted_load [OF lc x] load vs x by (auto simp: no_slack_def)
    then show "ext_load m' ext + old ext \<le> l" using sum [of ext] sum' [of ext] by linarith
  qed
  define km' where "km' = km_put k (slot_key_location s) (slot_address (ps_loc s) (ps_offset s)) (eng_km e)"
  have km': "km_inv km'" "km_view km' = m'" using km_put_ok [OF km] by (simp_all add: km'_def m'_def m_def)
  define em' where "em' = (case m k of None \<Rightarrow> eng_em e | Some kl \<Rightarrow> retire_slot kl (eng_em e))"
  have eq: "e' = e\<lparr>eng_km := km', eng_em := em'\<rparr>"
    unfolding e' put_commit_memory_state_def km'_def em'_def m_def km_view_def by simp
  have em': "space_inv res em' (eng_tiers e) \<and> keys_placed m' (em_view em') \<and> live_counted m' no_slack (em_view em') \<and>
      same_places m' vw (em_view em') \<and> em_next_id em' = next_extent e \<and> dom (em_view em') \<subseteq> extents e"
  proof (cases "m k")
    case None
    then have "live_counted m' no_slack vw" using lc' by (simp add: live_counted_def old_def no_slack_def)
    then show ?thesis using None sp kp' by (simp add: em'_def vw_def [symmetric] same_places_def)
  next
    case (Some kl)
    then have "old = no_slack(kl_extent kl := kl_length kl)" by (auto simp: old_def no_slack_def fun_eq_iff)
    with retire_slot_ok [OF sp kp' [unfolded vw_def]] lc' Some show ?thesis by (simp add: em'_def vw_def)
  qed
  have "stored m' (em_view em') (eng_tiers e) = stored m' vw (eng_tiers e)"
    using em' kp' by (intro stored_places) auto
  also have "\<dots> = (stored m vw (eng_tiers e))(k \<mapsto> v)"
    using vs val by (intro ext) (simp add: stored_def m'_def slot_key_location_def)
  finally have "eng_abs e' = (eng_abs e)(k \<mapsto> v)" by (simp add: eng_abs_def eq km' m_def vw_def)
  moreover have "eng_inv res e'" using inv km' em' by (simp add: eng_inv_def eq)
  ultimately show ?thesis using em' km' by (simp add: eq m'_def m_def)
qed

section \<open>The operations\<close>

lemma key_bytes_put:
  assumes "finite (dom m)"
  shows "key_bytes (m(k \<mapsto> kl)) \<le> key_bytes m + 30 + length k"
proof -
  have "dom (m(k \<mapsto> kl)) = insert k (dom m)" by auto
  then show ?thesis using assms by (simp add: key_bytes_def sum.insert_if)
qed

lemma put_records_bytes: "records_bytes (put_records k old s) \<le> 60 + length k"
  by (simp add: put_records_def records_bytes_def key_put_record_def mark_dead_record_def jr_new_def split: option.split)

lemma quiet_engine:
  assumes "eng_inv res e" and "quiet f"
  shows "keeps res e (e\<lparr>eng_em := f (eng_em e)\<rparr>)" and "em_view (f (eng_em e)) = em_view (eng_em e)"
    and "em_next_id (f (eng_em e)) = next_extent e"
proof -
  have q: "em_same (eng_em e) (f (eng_em e))" "em_view (f (eng_em e)) = em_view (eng_em e)"
    "space_inv res (eng_em e) ts \<longrightarrow> space_inv res (f (eng_em e)) ts" for ts
    using assms(2) by (auto simp: quiet_def)
  then show "em_view (f (eng_em e)) = em_view (eng_em e)" "em_next_id (f (eng_em e)) = next_extent e"
    by (auto simp: em_same_def)
  show "keeps res e (e\<lparr>eng_em := f (eng_em e)\<rparr>)"
    using assms(1) q by (simp add: keeps_def eng_inv_def eng_abs_def)
qed

text \<open>
  One \<open>put\<close>. It ends with success and the key bound to the value, or with an error and nothing
  changed, whatever the devices do.
\<close>

definition put_outcome :: "nat \<Rightarrow> key \<Rightarrow> bytes \<Rightarrow> engine \<Rightarrow> int \<Rightarrow> engine \<Rightarrow> bool" where
  "put_outcome res k v e r e' \<longleftrightarrow> eng_inv res e' \<and> next_extent e' \<le> next_extent e + 2 \<and>
     state_bytes e' \<le> state_bytes e + 60 + length k \<and>
     (r = 0 \<and> eng_abs e' = (eng_abs e)(k \<mapsto> v) \<or> r < 0 \<and> eng_abs e' = eng_abs e)"

lemma state_bytes_keeps:
  "keeps res e e' \<Longrightarrow> card (extents e') \<le> card (extents e) + n \<Longrightarrow> state_bytes e' \<le> state_bytes e + 30 * n"
  by (simp add: state_bytes_def keeps_def)

lemma slot_value_journal:
  assumes inv: "eng_inv res e" and h: "holds_slot s e" and ag: "dev_agree (journal_set res) (eng_tiers e) ts'"
  shows "value_at (ps_loc s) (slot_key_location s) ts' = value_at (ps_loc s) (slot_key_location s) (eng_tiers e)"
proof (rule value_at_agree [OF ag])
  have sp: "space_inv res (eng_em e) (eng_tiers e)" using inv by (simp add: eng_inv_def)
  obtain live where vs: "em_view (eng_em e) (ps_extent s) = Some (ps_loc s, ps_offset s + ps_size s, live)"
    by (rule slot_held_view [OF h])
  have "ps_set s \<subseteq> usable res (eng_tiers e)"
    using slot_set_sub [OF view_entry(1) [OF sp vs]] view_entry(2) [OF sp vs] by blast
  from usable_journal [OF this]
  show "slot_set (ps_loc s) (kl_offset (slot_key_location s)) (kl_length (slot_key_location s)) \<inter> journal_set res = {}"
    by (simp add: slot_key_location_def)
qed

text \<open>The phases after the journal transaction.\<close>

lemma put_commit_phase:
  assumes inv: "eng_inv res e" and h: "holds_slot s e" and pos: "0 < ps_size s"
    and val: "value_at (ps_loc s) (slot_key_location s) (eng_tiers e) = Some v" and room: "fits res (state_bytes e)"
  shows "\<exists>e1 e2. checkpoint_if needs_checkpoint e = Some e1 \<and> eng_km e1 = eng_km e \<and>
    e2 = put_commit_memory_state k (km_lookup k (eng_km e)) s e1 \<and> eng_inv res e2 \<and>
    eng_abs e2 = (eng_abs e)(k \<mapsto> v) \<and> next_extent e2 = next_extent e \<and> state_bytes e2 \<le> state_bytes e + 30 + length k"
proof -
  obtain e1 where 1: "checkpoint_if needs_checkpoint e = Some e1" "keeps res e e1" "eng_em e1 = eng_em e"
    "dev_agree (journal_set res) (eng_tiers e) (eng_tiers e1)"
    using checkpoint_if_ok [OF inv room] by blast
  have inv1: "eng_inv res e1" and km: "eng_km e1 = eng_km e" and ab: "eng_abs e1 = eng_abs e"
    using 1(2) by (auto simp: keeps_def)
  have h1: "holds_slot s e1" using h 1(3) km by simp
  have v1: "value_at (ps_loc s) (slot_key_location s) (eng_tiers e1) = Some v"
    using slot_value_journal [OF inv h 1(4)] val by simp
  define e2 where "e2 = put_commit_memory_state k (km_lookup k (eng_km e1)) s e1"
  note cm = commit_memory_ok [OF inv1 h1 pos v1 e2_def]
  have "key_bytes (km_view (eng_km e2)) \<le> key_bytes (km_view (eng_km e)) + 30 + length k"
    using cm key_bytes_put [OF finite_km_view] km by simp
  moreover have "card (extents e2) \<le> card (extents e1)" using cm by (intro card_extents_sub) simp
  ultimately have "state_bytes e2 \<le> state_bytes e + 30 + length k" using 1(3) by (simp add: state_bytes_def)
  then show ?thesis using 1 cm km ab by (auto simp: e2_def)
qed

text \<open>The phases after the data is written.\<close>

lemma put_after_write:
  assumes inv: "eng_inv res e" and h: "holds_slot s e" and pos: "0 < ps_size s"
    and val: "value_at (ps_loc s) (slot_key_location s) (eng_tiers e) = Some v"
    and room: "fits res (state_bytes e + 60 + length k)"
  shows "\<exists>r e1 e'. put_journal_transaction k (km_lookup k (eng_km e)) s e = Some (r, e1) \<and>
    (if r < 0 then e' = put_cleanup_on_failure s e1 \<and> keeps res e e'
     else \<exists>e2. checkpoint_if needs_checkpoint e1 = Some e2 \<and>
       e' = put_commit_memory_state k (km_lookup k (eng_km e)) s e2 \<and> eng_inv res e' \<and> eng_abs e' = (eng_abs e)(k \<mapsto> v)) \<and>
    next_extent e' = next_extent e \<and> state_bytes e' \<le> state_bytes e + 30 + length k"
proof -
  define old where "old = km_lookup k (eng_km e)"
  have "fits res (records_bytes (put_records k old s))"
    by (rule fits_mono [OF room]) (use put_records_bytes [of k old s] in linarith)
  then obtain r e1 where 1: "put_journal_transaction k old s e = Some (r, e1)" "keeps res e e1"
    "eng_em e1 = eng_em e" "dev_agree (journal_set res) (eng_tiers e) (eng_tiers e1)"
    using journal_txn_ok [OF inv] unfolding put_journal_transaction_def by blast
  have inv1: "eng_inv res e1" and km: "eng_km e1 = eng_km e" and ab: "eng_abs e1 = eng_abs e"
    using 1(2) by (auto simp: keeps_def)
  have h1: "holds_slot s e1" using h 1(3) km by simp
  have sb: "state_bytes e1 = state_bytes e" using 1(3) km by (simp add: state_bytes_def)
  show ?thesis
  proof (cases "r < 0")
    case True
    define e' where "e' = put_cleanup_on_failure s e1"
    have k': "keeps res e e'" using keeps_trans [OF 1(2) cleanup_ok [OF inv1 h1]] by (simp add: e'_def)
    have "state_bytes e' \<le> state_bytes e"
      using state_bytes_keeps [OF k', of 0] cleanup_size(2) [OF inv1, of s] 1(3) by (simp add: e'_def)
    then show ?thesis using 1 True k' cleanup_size(1) [OF inv1, of s] by (auto simp: old_def e'_def)
  next
    case False
    have v1: "value_at (ps_loc s) (slot_key_location s) (eng_tiers e1) = Some v"
      using slot_value_journal [OF inv h 1(4)] val by simp
    have "fits res (state_bytes e1)" by (rule fits_mono [OF room]) (simp add: sb)
    from put_commit_phase [OF inv1 h1 pos v1 this, of k] show ?thesis
      using 1 False km ab sb by (auto simp: old_def)
  qed
qed

lemma btier_put_ok:
  assumes inv: "eng_inv res e" and v: "v \<noteq> []" "length v + HEADER_SIZE \<le> 2 ^ 30" and id: "next_extent e < 2 ^ 64 - 2"
    and room: "fits res (state_bytes e + 90 + length k)"
  shows "\<exists>r e'. btier_put now k v e = Some (r, e') \<and> put_outcome res k v e r e'"
proof -
  have init: "eng_initialized e" using inv by (simp add: eng_inv_def)
  have r0: "fits res (state_bytes e)" "fits res 30" using fits_mono [OF room] by simp_all
  obtain e1 where 1: "checkpoint_if is_near_full e = Some e1" "keeps res e e1" "eng_em e1 = eng_em e"
    using checkpoint_if_ok [OF inv r0(1)] by blast
  have inv1: "eng_inv res e1" using 1(2) by (simp add: keeps_def)
  obtain x e2 where 2: "put_write_data v e1 = Some (x, e2)" "slot_result res 2 (length v) e1 x e2"
    "\<And>s. x = Inr s \<Longrightarrow> value_at (ps_loc s) (slot_key_location s) (eng_tiers e2) = Some v"
    using write_data_ok [OF inv1 _ r0(2) v(2)] id 1(3) by auto
  have k2: "keeps res e e2" using 2(2) keeps_trans [OF 1(2)] by (simp add: slot_result_def)
  have inv2: "eng_inv res e2" using k2 by (simp add: keeps_def)
  have c2: "card (extents e2) \<le> card (extents e) + 1" "next_extent e2 \<le> next_extent e + 2"
    using 2(2) 1(3) by (simp_all add: slot_result_def)
  show ?thesis
  proof (cases x)
    case (Inl r)
    then have "r < 0" using 2(2) by (simp add: slot_result_def)
    then have "put_outcome res k v e r e2"
      using k2 c2 state_bytes_keeps [OF k2 c2(1)] by (simp add: put_outcome_def keeps_def)
    then show ?thesis using init 1(1) 2(1) Inl by (simp add: btier_put_def)
  next
    case (Inr s)
    define e3 where "e3 = e2\<lparr>eng_em := em_record_io (ps_extent s) WRITE now (eng_em e2)\<rparr>"
    note q = quiet_engine [OF inv2 quiet_ops(1) [of "ps_extent s" WRITE now], folded e3_def]
    have k3: "keeps res e e3" by (rule keeps_trans [OF k2 q(1)])
    have inv3: "eng_inv res e3" and km3: "eng_km e3 = eng_km e" "eng_km e1 = eng_km e" and ab3: "eng_abs e3 = eng_abs e"
      using k3 1(2) by (auto simp: keeps_def)
    have h3: "holds_slot s e3" and pos: "0 < ps_size s"
      using 2(2) Inr q v(1) by (auto simp: slot_result_def e3_def)
    have val: "value_at (ps_loc s) (slot_key_location s) (eng_tiers e3) = Some v" using 2(3) [OF Inr] by (simp add: e3_def)
    have "state_bytes e3 \<le> state_bytes e + 30" using state_bytes_keeps [OF k3, of 1] c2(1) q(2) by (simp add: e3_def)
    moreover from this have "fits res (state_bytes e3 + 60 + length k)" by (intro fits_mono [OF room]) simp
    moreover have "next_extent e3 = next_extent e2" using q(3) by (simp add: e3_def)
    ultimately show ?thesis
      using put_after_write [OF inv3 h3 pos val, of k] init 1(1) 2(1) Inr km3 ab3 k3 c2(2)
      by (auto simp: btier_put_def e3_def [symmetric] Let_def put_outcome_def keeps_def split: if_splits)
  qed
qed

text \<open>One \<open>get\<close>.\<close>

definition get_outcome :: "(key \<rightharpoonup> bytes) \<Rightarrow> key \<Rightarrow> int \<Rightarrow> bytes \<Rightarrow> bool" where
  "get_outcome m k r v \<longleftrightarrow>
     (case m k of None \<Rightarrow> r = - ENOENT | Some w \<Rightarrow> r = 0 \<and> v = w \<or> r < 0)"

lemma eng_abs_None: "eng_inv res e \<Longrightarrow> eng_abs e k = None \<longleftrightarrow> km_lookup k (eng_km e) = None"
proof -
  assume inv: "eng_inv res e"
  have sp: "space_inv res (eng_em e) (eng_tiers e)" and kp: "keys_placed (km_view (eng_km e)) (em_view (eng_em e))"
    using inv by (auto simp: eng_inv_def)
  show ?thesis
  proof (cases "km_lookup k (eng_km e)")
    case None
    then show ?thesis by (simp add: eng_abs_def stored_def km_view_def)
  next
    case (Some kl)
    then have "km_view (eng_km e) k = Some kl" by (simp add: km_view_def)
    from keys_placedE [OF kp this] obtain loc used live where v: "em_view (eng_em e) (kl_extent kl) = Some (loc, used, live)" .
    obtain d where "side_dev (dl_tier loc = FAST) (eng_tiers e) = Some d" by (rule side_okE [OF sp])
    with Some v show ?thesis by (simp add: eng_abs_def stored_def km_view_def value_at_def dev_of_side)
  qed
qed

lemma read_key:
  assumes sp: "space_inv res em ts" and v: "em_view em ext = Some (loc, used, live)" and fit: "off + len \<le> used"
    and d: "side_dev (dl_tier loc = FAST) ts = Some d"
    and rd: "kd_read (slot_address loc off) len True d = (r, bs, d')" and ok: "\<not> r < 0"
  shows "bs = slice (contents d) (dl_offset loc + HEADER_SIZE + off) len"
proof -
  obtain a d0 where a: "side_alloc (dl_tier loc = FAST) ts = Some a" and "side_dev (dl_tier loc = FAST) ts = Some d0"
    and "device_size a \<le> file_len d0" "no_short d0" "avl_inv a"
    by (rule side_okE [OF sp, of "dl_tier loc = FAST"])
  then have fl: "device_size a \<le> file_len d" "no_short d" "device_size a < 2 ^ 63" using d by (auto simp: avl_inv_def)
  note ve = view_entry [OF sp v]
  have l: "0 < dl_length loc" "dl_length loc \<le> 2 ^ 31" using ve(3) by (simp_all add: loc_ok_def)
  have "dl_offset loc + dl_length loc \<le> device_size a" by (rule loc_set_end [OF sp ve(2) l(1) a])
  then have stop: "dl_offset loc + HEADER_SIZE + off + len \<le> device_size a" using ve(1) fit by linarith
  then have addr: "slot_address loc off = dl_offset loc + HEADER_SIZE + off"
    using fl(3) by (simp add: slot_address_def add64_exact)
  show ?thesis
    using kd_read_full [OF rd _ fl(2)] ok stop fl(1) ve(1) fit l(2) unfolding addr
    by (simp add: MAX_RW_COUNT_def HEADER_SIZE_def)
qed

lemma btier_get_ok:
  assumes inv: "eng_inv res e"
  shows "\<exists>r v e'. btier_get now k e = Some (r, v, e') \<and> keeps res e e' \<and> get_outcome (eng_abs e) k r v \<and>
    next_extent e' = next_extent e \<and> extents e' = extents e"
proof (cases "km_lookup k (eng_km e)")
  case None
  then show ?thesis
    using inv keeps_refl [OF inv] eng_abs_None [OF inv, of k] by (simp add: btier_get_def eng_inv_def get_outcome_def)
next
  case (Some kl)
  define ext where "ext = kl_extent kl"
  have init: "eng_initialized e" and sp: "space_inv res (eng_em e) (eng_tiers e)"
    and kp: "keys_placed (km_view (eng_km e)) (em_view (eng_em e))"
    using inv by (auto simp: eng_inv_def)
  have k: "km_view (eng_km e) k = Some kl" using Some by (simp add: km_view_def)
  obtain loc used live where v: "em_view (eng_em e) ext = Some (loc, used, live)" and fit: "kl_offset kl + kl_length kl \<le> used"
    using keys_placedE [OF kp k] unfolding ext_def .
  obtain d where d: "side_dev (dl_tier loc = FAST) (eng_tiers e) = Some d" by (rule side_okE [OF sp])
  obtain r bs d' where rd: "kd_read (slot_address loc (kl_offset kl)) (kl_length kl) True d = (r, bs, d')" by (metis prod_cases3)
  define f where "f em = em_io_ref_dec ext (em_io_ref_inc ext (em_record_io ext READ now em))" for em
  have "quiet f" using quiet_ops(1,2,3) unfolding quiet_def f_def by (auto simp: em_same_def)
  note q = quiet_engine [OF inv this]
  define ts' where "ts' = set_dev (dl_tier loc) d' (eng_tiers e)"
  have ag: "dev_agree {} (eng_tiers e) ts'" and al: "same_allocs (eng_tiers e) ts'"
    using kd_read_spec [OF rd] d by (auto simp: dev_agree_def ts'_def same_allocs_def split: option.split)
  define e' where "e' = e\<lparr>eng_em := f (eng_em e), eng_tiers := ts'\<rparr>"
  have "keeps res e e'"
    unfolding e'_def
  proof (rule keeps_em [OF inv _ ag])
    have "space_inv res (f (eng_em e)) (eng_tiers e)" using q(1) by (simp add: keeps_def eng_inv_def)
    then show "space_inv res (f (eng_em e)) ts'" by (rule space_inv_dev [OF _ ag al])
  qed (use inv q(2) in \<open>auto simp: eng_inv_def\<close>)
  moreover have "em_get_location ext (eng_em e) = Some loc" using v by (auto simp: em_get_location_def em_view_def)
  then have "btier_get now k e = Some (if r < 0 then r else 0, bs, e')"
    using init Some d rd by (simp add: btier_get_def ext_def [symmetric] dev_of_side e'_def ts'_def f_def Let_def)
  moreover have "eng_abs e k = Some (slice (contents d) (dl_offset loc + HEADER_SIZE + kl_offset kl) (kl_length kl))"
    using k v d by (simp add: eng_abs_def stored_def ext_def value_at_def dev_of_side)
  then have "get_outcome (eng_abs e) k (if r < 0 then r else 0) bs"
    using read_key [OF sp v fit d rd] by (auto simp: get_outcome_def)
  ultimately show ?thesis using q(2,3) by (auto simp: e'_def)
qed

text \<open>One \<open>del\<close>.\<close>

definition del_outcome :: "nat \<Rightarrow> key \<Rightarrow> engine \<Rightarrow> int \<Rightarrow> engine \<Rightarrow> bool" where
  "del_outcome res k e r e' \<longleftrightarrow> eng_inv res e' \<and> next_extent e' = next_extent e \<and> state_bytes e' \<le> state_bytes e \<and>
     (eng_abs e k = None \<longrightarrow> r = - ENOENT) \<and>
     (r = 0 \<and> eng_abs e' = (eng_abs e)(k := None) \<or> r < 0 \<and> eng_abs e' = eng_abs e)"

lemma erase_memory_ok:
  assumes inv: "eng_inv res e" and k: "km_lookup k (eng_km e) = Some kl"
    and e': "e' = e\<lparr>eng_km := km_erase k (eng_km e), eng_em := retire_slot kl (eng_em e)\<rparr>"
  shows "eng_inv res e' \<and> eng_abs e' = (eng_abs e)(k := None) \<and> next_extent e' = next_extent e \<and>
    state_bytes e' \<le> state_bytes e"
proof -
  define m vw where "m = km_view (eng_km e)" and "vw = em_view (eng_em e)"
  have sp: "space_inv res (eng_em e) (eng_tiers e)" and km: "km_inv (eng_km e)" and kp: "keys_placed m vw"
    and lc: "live_counted m no_slack vw" and fin: "finite (dom m)"
    using inv by (auto simp: eng_inv_def m_def vw_def keys_placed_def)
  have mk: "m k = Some kl" using k by (simp add: m_def km_view_def)
  have kp': "keys_placed (m(k := None)) vw" using kp by (auto simp: keys_placed_def)
  have "live_counted (m(k := None)) (no_slack(kl_extent kl := kl_length kl)) vw"
    using lc ext_load_erase [OF fin mk] by (fastforce simp: live_counted_def no_slack_def)
  note rt = retire_slot_ok [OF sp kp' [unfolded vw_def] this [unfolded vw_def]]
  have km': "km_inv (km_erase k (eng_km e))" "km_view (km_erase k (eng_km e)) = m(k := None)"
    using km_erase_ok [OF km] by (simp_all add: m_def)
  have "stored (m(k := None)) (em_view (retire_slot kl (eng_em e))) (eng_tiers e) = stored (m(k := None)) vw (eng_tiers e)"
    using rt kp' by (intro stored_places) (auto simp: vw_def)
  also have "\<dots> = (stored m vw (eng_tiers e))(k := None)" by (rule ext) (simp add: stored_def)
  finally have "eng_abs e' = (eng_abs e)(k := None)" by (simp add: eng_abs_def e' km' m_def vw_def)
  moreover have "card (extents e') \<le> card (extents e)" using rt by (intro card_extents_sub) (simp add: e')
  moreover have "key_bytes (m(k := None)) \<le> key_bytes m"
    unfolding key_bytes_def using fin by (intro sum_mono2) auto
  ultimately show ?thesis
    using inv rt km' by (simp add: eng_inv_def e' state_bytes_def m_def)
qed

lemma del_records_bytes: "records_bytes [key_del_record k, mark_dead_record kl] = 60 + length k"
  by (simp add: records_bytes_def key_del_record_def mark_dead_record_def jr_new_def)

lemma btier_del_ok:
  assumes inv: "eng_inv res e" and room: "fits res (60 + length k)"
  shows "\<exists>r e'. btier_del k e = Some (r, e') \<and> del_outcome res k e r e'"
proof (cases "km_lookup k (eng_km e)")
  case None
  then show ?thesis
    using inv eng_abs_None [OF inv, of k] by (simp add: btier_del_def eng_inv_def del_outcome_def)
next
  case (Some kl)
  have init: "eng_initialized e" using inv by (simp add: eng_inv_def)
  have ne: "eng_abs e k \<noteq> None" using Some eng_abs_None [OF inv, of k] by simp
  obtain r e1 where 1: "with_journal (run_txn [key_del_record k, mark_dead_record kl]) e = Some (r, e1)" "keeps res e e1"
    "eng_em e1 = eng_em e"
    using journal_txn_ok [OF inv, of "[key_del_record k, mark_dead_record kl]"] room unfolding del_records_bytes by blast
  have inv1: "eng_inv res e1" and km: "eng_km e1 = eng_km e" and ab: "eng_abs e1 = eng_abs e"
    using 1(2) by (auto simp: keeps_def)
  have sb: "state_bytes e1 = state_bytes e" using 1(3) km by (simp add: state_bytes_def)
  define e2 where "e2 = e1\<lparr>eng_km := km_erase k (eng_km e1), eng_em := retire_slot kl (eng_em e1)\<rparr>"
  note er = erase_memory_ok [OF inv1 _ e2_def]
  show ?thesis
  proof (cases "r < 0")
    case True
    then show ?thesis using init Some 1 inv1 ab ne sb by (auto simp: btier_del_def del_outcome_def)
  next
    case False
    then show ?thesis
      using init Some 1 er ab ne sb km by (auto simp: btier_del_def del_outcome_def e2_def)
  qed
qed

section \<open>Maintenance\<close>

definition eng_collect :: "engine \<Rightarrow> engine option" where
  "eng_collect e =
     do { (em, ts) \<leftarrow> em_process_deferred_free (eng_em e) (eng_tiers e); Some (e\<lparr>eng_em := em, eng_tiers := ts\<rparr>) }"

lemma eng_collect_ok:
  assumes inv: "eng_inv res e"
  shows "\<exists>e'. eng_collect e = Some e' \<and> keeps res e e' \<and> next_extent e' = next_extent e \<and> extents e' = extents e"
proof -
  have sp: "space_inv res (eng_em e) (eng_tiers e)" using inv by (simp add: eng_inv_def)
  obtain em' ts' where 1: "em_process_deferred_free (eng_em e) (eng_tiers e) = Some (em', ts')" "space_inv res em' ts'"
    "em_view em' = em_view (eng_em e)" "em_next_id em' = next_extent e" "dev_agree {} (eng_tiers e) ts'"
    using em_process_deferred_free_ok [OF sp] by blast
  have "keeps res e (e\<lparr>eng_em := em', eng_tiers := ts'\<rparr>)"
    using inv 1(3) by (intro keeps_em [OF inv 1(2,5)]) (auto simp: eng_inv_def)
  then show ?thesis using 1 by (simp add: eng_collect_def)
qed

text \<open>Writing the header of an extent does not touch the values in it.\<close>

lemma flush_header_ok:
  assumes sp: "space_inv res em ts" and kp: "keys_placed m (em_view em)"
  shows "space_inv res em (flush_header em ext ts) \<and> stored m (em_view em) (flush_header em ext ts) = stored m (em_view em) ts"
proof (cases "em_lookup ext em")
  case None
  then show ?thesis using sp by (simp add: flush_header_def)
next
  case (Some en)
  define loc where "loc = ee_loc en"
  have v: "em_view em ext = Some (loc, ee_used en, ee_live en)" using Some by (simp add: em_view_def loc_def)
  note ve = view_entry [OF sp v]
  define S where "S = {dl_tier loc = FAST} \<times> arange (dl_offset loc) HEADER_SIZE"
  have hd: "HEADER_SIZE \<le> dl_length loc" using ve(1) by simp
  have "(dl_tier loc = FAST, dl_offset loc) \<in> usable res ts" using ve(2,3) by (auto simp: loc_set_def loc_ok_def)
  then have "dl_offset loc < 2 ^ 63" by (rule space_inv_bound [OF sp])
  then have "dl_offset loc + HEADER_SIZE < 2 ^ 64" by (simp add: HEADER_SIZE_def)
  from write_header_ok [OF this, of S ts] have w: "dev_agree S ts (flush_header em ext ts)" "same_allocs ts (flush_header em ext ts)"
    using Some by (simp_all add: S_def flush_header_def loc_def)
  have "stored m (em_view em) (flush_header em ext ts) = stored m (em_view em) ts"
  proof (rule stored_step [OF w(1) _ kp])
    fix k kl loc' used live
    assume k: "m k = Some kl" and v': "em_view em (kl_extent kl) = Some (loc', used, live)"
    have "slot_set loc' (kl_offset kl) (kl_length kl) \<inter> S = {}"
    proof (cases "kl_extent kl = ext")
      case True
      then have "loc' = loc" using v v' by simp
      then show ?thesis by (auto simp: slot_set_def S_def)
    next
      case False
      have "S \<subseteq> loc_set loc" using hd by (auto simp: S_def loc_set_def)
      with key_slot_sub [OF sp kp k v'] view_disjoint [OF sp v' v False] show ?thesis by blast
    qed
    with v' show "(\<exists>used' live'. em_view em (kl_extent kl) = Some (loc', used', live')) \<and>
        slot_set loc' (kl_offset kl) (kl_length kl) \<inter> S = {}" by simp
  qed
  with space_inv_dev [OF sp w] show ?thesis by simp
qed

lemma flush_headers_ok:
  "space_inv res em ts \<Longrightarrow> keys_placed m (em_view em) \<Longrightarrow>
   space_inv res em (fold (flush_header em) es ts) \<and>
   stored m (em_view em) (fold (flush_header em) es ts) = stored m (em_view em) ts"
proof (induction es arbitrary: ts)
  case (Cons x es)
  from flush_header_ok [OF Cons.prems, of x] Cons.IH [of "flush_header em x ts"] Cons.prems(2) show ?case by simp
qed simp

lemma flush_dev_ok:
  assumes sp: "space_inv res em ts" and d: "side_dev (t = FAST) ts = Some d"
  shows "space_inv res em (set_dev t (snd (kd_flush d)) ts)" and "dev_agree {} ts (set_dev t (snd (kd_flush d)) ts)"
proof -
  have "dev_frame d (snd (kd_flush d))" "contents (snd (kd_flush d)) = contents d"
    using kd_flush_frame [of d "fst (kd_flush d)" "snd (kd_flush d)"] by simp_all
  then show ag: "dev_agree {} ts (set_dev t (snd (kd_flush d)) ts)"
    using d by (auto simp: dev_agree_def split: option.split)
  show "space_inv res em (set_dev t (snd (kd_flush d)) ts)"
    by (rule space_inv_dev [OF sp ag]) (simp add: same_allocs_def)
qed

lemma btier_sync_ok:
  assumes inv: "eng_inv res e"
  shows "\<exists>e'. btier_sync e = (0, e') \<and> keeps res e e' \<and> next_extent e' = next_extent e \<and> extents e' = extents e"
proof -
  define em ts m where "em = eng_em e" and "ts = eng_tiers e" and "m = km_view (eng_km e)"
  have sp: "space_inv res em ts" and kp: "keys_placed m (em_view em)" and init: "eng_initialized e"
    using inv by (auto simp: eng_inv_def em_def ts_def m_def)
  obtain j where j: "eng_journal e = Some j" using inv by (auto simp: eng_inv_def)
  define ts1 where "ts1 = fold (flush_header em) (em_dirty em) ts"
  have 1: "space_inv res em ts1" "stored m (em_view em) ts1 = stored m (em_view em) ts"
    using flush_headers_ok [OF sp kp, of "em_dirty em"] by (simp_all add: ts1_def)
  obtain fd where fd: "side_dev (FAST = FAST) ts1 = Some fd" by (rule side_okE [OF 1(1)])
  note 2 = flush_dev_ok [OF 1(1) fd]
  define ts2 where "ts2 = set_dev FAST (snd (kd_flush fd)) ts1"
  obtain sd where sd: "side_dev (SLOW = FAST) ts2 = Some sd" by (rule side_okE [OF 2(1), folded ts2_def])
  note 3 = flush_dev_ok [OF 2(1) [folded ts2_def] sd]
  define ts3 where "ts3 = set_dev SLOW (snd (kd_flush sd)) ts2"
  define em' where "em' = em\<lparr>em_dirty := []\<rparr>"
  have core: "em_core em' = em_core em" by (simp add: em'_def)
  define e' where "e' = e\<lparr>eng_em := em', eng_tiers := ts3\<rparr>"
  have st: "stored m (em_view em) ts3 = stored m (em_view em) ts"
    using 1(2) stored_step [OF dev_agree_trans [OF 2(2) [folded ts2_def] 3(2) [folded ts3_def]] _ kp, of "em_view em"] by auto
  have "space_inv res em' ts3" using 3(1) em_core_cong(6) [OF core] by (simp add: ts3_def)
  then have "keeps res e e'"
    using inv st em_view_core [OF core] by (simp add: keeps_def eng_inv_def eng_abs_def e'_def em_def ts_def m_def)
  moreover have "btier_sync e = (0, e')"
    using init j fd sd
    by (simp add: btier_sync_def em_flush_dirty_headers_def j_sync_def em_def [symmetric] ts_def [symmetric] ts1_def [symmetric]
        e'_def em'_def ts3_def ts2_def set_dev_def side_dev_def Let_def)
  ultimately show ?thesis using em_view_core [OF core] em_core_cong(3) [OF core] by (simp add: e'_def em_def)
qed

end
