(* ===== verification/Engine_Client.thy ===== *)
theory Engine_Client
  imports Engine_Refinement
begin

text \<open>
  What a client of the engine can rely on: the interface of a key-value store as a locale, its
  consequence for every sequence of operations, the engine as an instance, and the start on new
  devices.
\<close>

section \<open>Operations and their specification\<close>

datatype kv_op = KPut u32 key bytes | KGet u32 key | KDel key | KUpkeep bool

datatype kv_out = Code int | Value int bytes

fun kv_exec ::
  "(u32 \<Rightarrow> key \<Rightarrow> bytes \<Rightarrow> 's \<Rightarrow> (int \<times> 's) option) \<Rightarrow> (u32 \<Rightarrow> key \<Rightarrow> 's \<Rightarrow> (int \<times> bytes \<times> 's) option) \<Rightarrow>
   (key \<Rightarrow> 's \<Rightarrow> (int \<times> 's) option) \<Rightarrow> (bool \<Rightarrow> 's \<Rightarrow> 's option) \<Rightarrow> kv_op \<Rightarrow> 's \<Rightarrow> (kv_out \<times> 's) option" where
  "kv_exec put get del upkeep (KPut now k v) s = map_option (\<lambda>(r, s'). (Code r, s')) (put now k v s)"
| "kv_exec put get del upkeep (KGet now k) s = map_option (\<lambda>(r, v, s'). (Value r v, s')) (get now k s)"
| "kv_exec put get del upkeep (KDel k) s = map_option (\<lambda>(r, s'). (Code r, s')) (del k s)"
| "kv_exec put get del upkeep (KUpkeep b) s = map_option (\<lambda>s'. (Code 0, s')) (upkeep b s)"

fun kv_run :: "(kv_op \<Rightarrow> 's \<Rightarrow> (kv_out \<times> 's) option) \<Rightarrow> kv_op list \<Rightarrow> 's \<Rightarrow> (kv_out list \<times> 's) option" where
  "kv_run ex [] s = Some ([], s)"
| "kv_run ex (op # ops) s = do { (x, s1) \<leftarrow> ex op s; (xs, s2) \<leftarrow> kv_run ex ops s1; Some (x # xs, s2) }"

text \<open>The results that are allowed on a map, and the map afterwards.\<close>

fun kv_spec :: "kv_op \<Rightarrow> kv_out \<Rightarrow> (key \<rightharpoonup> bytes) \<Rightarrow> (key \<rightharpoonup> bytes) \<Rightarrow> bool" where
  "kv_spec (KPut now k v) (Code r) m m' \<longleftrightarrow> r = 0 \<and> m' = m(k \<mapsto> v) \<or> r < 0 \<and> m' = m"
| "kv_spec (KGet now k) (Value r v) m m' \<longleftrightarrow>
     m' = m \<and> (case m k of None \<Rightarrow> r = - ENOENT | Some w \<Rightarrow> r = 0 \<and> v = w \<or> r < 0)"
| "kv_spec (KDel k) (Code r) m m' \<longleftrightarrow>
     (m k = None \<longrightarrow> r = - ENOENT) \<and> (r = 0 \<and> m' = m(k := None) \<or> r < 0 \<and> m' = m)"
| "kv_spec (KUpkeep b) (Code r) m m' \<longleftrightarrow> r = 0 \<and> m' = m"
| "kv_spec _ _ m m' \<longleftrightarrow> False"

fun kv_trace :: "kv_op list \<Rightarrow> kv_out list \<Rightarrow> (key \<rightharpoonup> bytes) \<Rightarrow> (key \<rightharpoonup> bytes) \<Rightarrow> bool" where
  "kv_trace [] [] m m' \<longleftrightarrow> m' = m"
| "kv_trace (op # ops) (x # xs) m m' \<longleftrightarrow> (\<exists>m1. kv_spec op x m m1 \<and> kv_trace ops xs m1 m')"
| "kv_trace _ _ m m' \<longleftrightarrow> False"

text \<open>Values are not empty and smaller than 1 GiB; the journal space an operation may need.\<close>

fun kv_ok :: "kv_op \<Rightarrow> bool" where
  "kv_ok (KPut now k v) \<longleftrightarrow> v \<noteq> [] \<and> length v + HEADER_SIZE \<le> 2 ^ 30"
| "kv_ok _ \<longleftrightarrow> True"

fun kv_cost :: "kv_op \<Rightarrow> nat" where
  "kv_cost (KPut now k v) = 90 + length k"
| "kv_cost (KDel k) = 60 + length k"
| "kv_cost _ = 0"

section \<open>The interface\<close>

locale kv_store =
  fixes put :: "u32 \<Rightarrow> key \<Rightarrow> bytes \<Rightarrow> 's \<Rightarrow> (int \<times> 's) option"
    and get :: "u32 \<Rightarrow> key \<Rightarrow> 's \<Rightarrow> (int \<times> bytes \<times> 's) option"
    and del :: "key \<Rightarrow> 's \<Rightarrow> (int \<times> 's) option"
    and upkeep :: "bool \<Rightarrow> 's \<Rightarrow> 's option"
    and view :: "'s \<Rightarrow> key \<rightharpoonup> bytes"
    and ready :: "nat \<Rightarrow> 's \<Rightarrow> bool"
  assumes put_law: "ready (n + (90 + length k)) s \<Longrightarrow> v \<noteq> [] \<Longrightarrow> length v + HEADER_SIZE \<le> 2 ^ 30 \<Longrightarrow>
      \<exists>r s'. put now k v s = Some (r, s') \<and> ready n s' \<and>
        (r = 0 \<and> view s' = (view s)(k \<mapsto> v) \<or> r < 0 \<and> view s' = view s)"
    and get_law: "ready n s \<Longrightarrow>
      \<exists>r v s'. get now k s = Some (r, v, s') \<and> ready n s' \<and> view s' = view s \<and> get_outcome (view s) k r v"
    and del_law: "ready (n + (60 + length k)) s \<Longrightarrow>
      \<exists>r s'. del k s = Some (r, s') \<and> ready n s' \<and> (view s k = None \<longrightarrow> r = - ENOENT) \<and>
        (r = 0 \<and> view s' = (view s)(k := None) \<or> r < 0 \<and> view s' = view s)"
    and upkeep_law: "ready n s \<Longrightarrow> \<exists>s'. upkeep b s = Some s' \<and> ready n s' \<and> view s' = view s"
begin

abbreviation exec :: "kv_op \<Rightarrow> 's \<Rightarrow> (kv_out \<times> 's) option" where
  "exec \<equiv> kv_exec put get del upkeep"

lemma exec_spec:
  assumes "ready (n + kv_cost op) s" and "kv_ok op"
  shows "\<exists>x s'. exec op s = Some (x, s') \<and> ready n s' \<and> kv_spec op x (view s) (view s')"
proof (cases op)
  case (KPut now k v)
  then show ?thesis using put_law [of n k s v now] assms by auto
next
  case (KGet now k)
  then show ?thesis using get_law [of n s now k] assms by (auto simp: get_outcome_def)
next
  case (KDel k)
  then show ?thesis using del_law [of n k s] assms by auto
next
  case (KUpkeep b)
  then show ?thesis using upkeep_law [of n s b] assms by auto
qed

lemma run_spec:
  "ready (n + sum_list (map kv_cost ops)) s \<Longrightarrow> \<forall>op \<in> set ops. kv_ok op \<Longrightarrow>
   \<exists>xs s'. kv_run exec ops s = Some (xs, s') \<and> ready n s' \<and> kv_trace ops xs (view s) (view s')"
proof (induction ops arbitrary: s)
  case (Cons op ops)
  have "ready ((n + sum_list (map kv_cost ops)) + kv_cost op) s" using Cons.prems(1) by (simp add: ac_simps)
  then obtain x s1 where 1: "exec op s = Some (x, s1)" "ready (n + sum_list (map kv_cost ops)) s1"
    "kv_spec op x (view s) (view s1)"
    using exec_spec Cons.prems(2) by (metis list.set_intros(1))
  moreover obtain xs s2 where "kv_run exec ops s1 = Some (xs, s2)" "ready n s2" "kv_trace ops xs (view s1) (view s2)"
    using Cons.IH [OF 1(2)] Cons.prems(2) by auto
  ultimately show ?case by auto
qed simp

end

section \<open>The engine is a key-value store\<close>

definition eng_upkeep :: "bool \<Rightarrow> engine \<Rightarrow> engine option" where
  "eng_upkeep b e = (if b then Some (snd (btier_sync e)) else eng_collect e)"

text \<open>The engine with a budget of \<open>n\<close> bytes of journal and as many extents.\<close>

definition eng_ready :: "nat \<Rightarrow> nat \<Rightarrow> engine \<Rightarrow> bool" where
  "eng_ready res n e \<longleftrightarrow> eng_inv res e \<and> fits res (state_bytes e + n) \<and> next_extent e + n < 2 ^ 64 - 2"

lemma eng_ready_keeps:
  "eng_ready res n e \<Longrightarrow> keeps res e e' \<Longrightarrow> next_extent e' = next_extent e \<Longrightarrow> extents e' = extents e \<Longrightarrow>
   eng_ready res n e' \<and> eng_abs e' = eng_abs e"
  by (simp add: eng_ready_def keeps_def state_bytes_def)

lemma eng_upkeep_ok:
  assumes "eng_ready res n e"
  shows "\<exists>e'. eng_upkeep b e = Some e' \<and> eng_ready res n e' \<and> eng_abs e' = eng_abs e"
proof -
  have inv: "eng_inv res e" using assms by (simp add: eng_ready_def)
  show ?thesis
    using btier_sync_ok [OF inv] eng_collect_ok [OF inv] eng_ready_keeps [OF assms] by (auto simp: eng_upkeep_def)
qed

lemma eng_put_law:
  assumes "eng_ready res (n + (90 + length k)) e" and "v \<noteq> []" and "length v + HEADER_SIZE \<le> 2 ^ 30"
  shows "\<exists>r e'. btier_put now k v e = Some (r, e') \<and> eng_ready res n e' \<and>
    (r = 0 \<and> eng_abs e' = (eng_abs e)(k \<mapsto> v) \<or> r < 0 \<and> eng_abs e' = eng_abs e)"
proof -
  have r: "eng_inv res e" "next_extent e < 2 ^ 64 - 2" "fits res (state_bytes e + 90 + length k)"
    using assms(1) fits_mono [of res "state_bytes e + (n + (90 + length k))"] by (auto simp: eng_ready_def)
  obtain rc e' where p: "btier_put now k v e = Some (rc, e')" "put_outcome res k v e rc e'"
    using btier_put_ok [OF r(1) assms(2,3) r(2,3)] by blast
  moreover have "eng_ready res n e'"
    using p(2) assms(1) fits_mono [of res "state_bytes e + (n + (90 + length k))" "state_bytes e' + n"]
    by (auto simp: eng_ready_def put_outcome_def)
  ultimately show ?thesis by (auto simp: put_outcome_def)
qed

lemma eng_get_law:
  assumes "eng_ready res n e"
  shows "\<exists>r v e'. btier_get now k e = Some (r, v, e') \<and> eng_ready res n e' \<and> eng_abs e' = eng_abs e \<and>
    get_outcome (eng_abs e) k r v"
proof -
  have "eng_inv res e" using assms by (simp add: eng_ready_def)
  from btier_get_ok [OF this, of now k] eng_ready_keeps [OF assms] show ?thesis by blast
qed

lemma eng_del_law:
  assumes "eng_ready res (n + (60 + length k)) e"
  shows "\<exists>r e'. btier_del k e = Some (r, e') \<and> eng_ready res n e' \<and> (eng_abs e k = None \<longrightarrow> r = - ENOENT) \<and>
    (r = 0 \<and> eng_abs e' = (eng_abs e)(k := None) \<or> r < 0 \<and> eng_abs e' = eng_abs e)"
proof -
  have r: "eng_inv res e" "fits res (60 + length k)"
    using assms fits_mono [of res "state_bytes e + (n + (60 + length k))"] by (auto simp: eng_ready_def)
  obtain rc e' where p: "btier_del k e = Some (rc, e')" "del_outcome res k e rc e'"
    using btier_del_ok [OF r] by blast
  moreover have "eng_ready res n e'"
    using p(2) assms fits_mono [of res "state_bytes e + (n + (60 + length k))" "state_bytes e' + n"]
    by (auto simp: eng_ready_def del_outcome_def)
  ultimately show ?thesis by (auto simp: del_outcome_def)
qed

interpretation btier: kv_store btier_put btier_get btier_del eng_upkeep eng_abs "eng_ready res" for res
  by unfold_locales (rule eng_put_law eng_get_law eng_del_law eng_upkeep_ok; assumption)+

abbreviation btier_exec :: "kv_op \<Rightarrow> engine \<Rightarrow> (kv_out \<times> engine) option" where
  "btier_exec \<equiv> kv_exec btier_put btier_get btier_del eng_upkeep"

section \<open>Starting on new devices\<close>

text \<open>
  Both devices work while the engine starts, there is no journal on the FAST one, and the sizes are
  multiples of the block size.
\<close>

definition new_devices :: "btier_config \<Rightarrow> kdev \<Rightarrow> kdev \<Rightarrow> bool" where
  "new_devices cfg fd sd \<longleftrightarrow>
     fresh_device (journal_size cfg) fd \<and> dev_ready sd \<and> 0 < dev_size sd \<and>
     block_ok (cfg_block_size cfg) \<and> extent_size cfg \<le> 2 ^ 30 \<and>
     cfg_block_size cfg dvd dev_size fd \<and> cfg_block_size cfg dvd dev_size sd \<and> cfg_block_size cfg dvd journal_size cfg"

lemma avl_full:
  assumes "0 < sz" and "sz < 2 ^ 63" and "0 < blk" and "blk dvd sz"
  obtains a where "avl_init_add_free 0 sz (avl_new sz blk 0 ew) = Some a" and "avl_inv a" and "device_size a = sz"
    and "block_size a = blk" and "avl_free a = arange 0 sz" and "whole_units blk (avl_free a)"
proof -
  have new: "avl_inv (avl_new sz blk 0 ew)" "avl_free (avl_new sz blk 0 ew) = {}" using avl_new_inv [OF assms(1,2)] by auto
  obtain a where a: "avl_init_add_free 0 sz (avl_new sz blk 0 ew) = Some a" "avl_inv a" "avl_same (avl_new sz blk 0 ew) a"
    "avl_free a = arange 0 sz"
    using avl_init_add_free_ok [OF new(1), of 0 sz] new(2) by (auto simp: avl_new_def)
  have "whole_units blk ({} \<union> arange 0 sz)" using assms by (intro whole_units_union) (auto simp: whole_units_def)
  then show ?thesis using that [OF a(1,2)] a(3,4) by (auto simp: avl_same_def avl_new_def)
qed

lemma space_inv_new:
  assumes blk: "block_ok blk"
    and fa: "avl_inv fa" "block_size fa = blk" "avl_free fa = arange 0 (device_size fa) - arange 0 res" "whole_units blk (avl_free fa)"
    and sa: "avl_inv sa" "block_size sa = blk" "avl_free sa = arange 0 (device_size sa)" "whole_units blk (avl_free sa)"
    and dv: "device_size fa \<le> file_len fd" "no_short fd" "device_size sa \<le> file_len sd" "no_short sd"
    and em: "em_entries em = []" "em_deferred em = []" "em_block_size em = blk"
    and ts: "ts = \<lparr>fast_alloc = Some fa, slow_alloc = Some sa, fast_dev = Some fd, slow_dev = Some sd\<rparr>"
  shows "space_inv res em ts"
proof -
  have "side_ok blk ts f" for f
    using fa sa dv by (cases f) (auto simp: side_ok_def side_alloc_def side_dev_def ts)
  moreover have "p \<in> free_space ts \<Longrightarrow> p \<in> usable res ts" for p
    using fa(3) sa(3) by (cases p) (auto simp: free_space_def usable_def side_alloc_def ts split: if_splits)
  then have "owners em p + of_bool (p \<in> free_space ts) \<le> of_bool (p \<in> usable res ts)" for p
    by (simp add: owners_def em)
  ultimately show ?thesis using blk unfolding space_inv_def em by auto
qed

lemma with_journal_initialized:
  "with_journal f (e\<lparr>eng_initialized := b\<rparr>) = map_option (\<lambda>(r, e'). (r, e'\<lparr>eng_initialized := b\<rparr>)) (with_journal f e)"
  by (simp add: with_journal_def split: option.split prod.split)

lemma first_checkpoint:
  assumes inv: "eng_inv res (e\<lparr>eng_initialized := True\<rparr>)" and room: "fits res 0"
  obtains r e' where "with_journal (j_checkpoint []) e = Some (r, e')"
    and "keeps res (e\<lparr>eng_initialized := True\<rparr>) (e'\<lparr>eng_initialized := True\<rparr>)" and "eng_em e' = eng_em e"
proof -
  define e1 where "e1 = e\<lparr>eng_initialized := True\<rparr>"
  have "\<exists>r e'. with_journal (j_checkpoint []) e1 = Some (r, e') \<and> keeps res e1 e' \<and> eng_em e' = eng_em e1 \<and>
      dev_agree (journal_set res) (eng_tiers e1) (eng_tiers e')"
    using inv room by (intro with_journal_ok j_checkpoint_frame)
      (auto simp: e1_def fits_def journal_idle_def records_bytes_def)
  then show ?thesis
    using that unfolding e1_def with_journal_initialized by (auto simp: e1_def)
qed

text \<open>The allocators after \<open>init_free_space\<close> and the removal of the journal region.\<close>

lemma init_allocators:
  assumes dv: "new_devices cfg fd sd" and res: "res = journal_size cfg" and blk: "blk = cfg_block_size cfg"
    and fr: "dev_frame fd fd'"
  obtains fa fb sa where "avl_init_add_free 0 (dev_size fd) (avl_new (dev_size fd) blk 0 ew) = Some fa"
    and "avl_init_add_free 0 (dev_size sd) (avl_new (dev_size sd) blk 0 ew) = Some sa"
    and "avl_init_rm_free 0 res fa = Some fb"
    and "space_inv res (em_new blk esz) \<lparr>fast_alloc = Some fb, slow_alloc = Some sa, fast_dev = Some fd', slow_dev = Some sd\<rparr>"
proof -
  have d: "fresh_device res fd" "dev_ready sd" "0 < dev_size sd" "block_ok blk"
    "blk dvd dev_size fd" "blk dvd dev_size sd" "blk dvd res" using dv by (auto simp: new_devices_def res blk)
  have b0: "0 < blk" using d(4) block_ok_less by blast
  have f: "res \<le> dev_size fd" "0 < dev_size fd" "dev_ready fd" "dev_size fd < 2 ^ 63" "dev_size sd < 2 ^ 63"
    using d(1,2) by (auto simp: fresh_device_def dev_ready_def journal_consts)
  obtain fa where fa: "avl_init_add_free 0 (dev_size fd) (avl_new (dev_size fd) blk 0 ew) = Some fa" "avl_inv fa"
    "device_size fa = dev_size fd" "block_size fa = blk" "avl_free fa = arange 0 (dev_size fd)" "whole_units blk (avl_free fa)"
    by (rule avl_full [OF f(2,4) b0 d(5)])
  obtain sa where sa: "avl_init_add_free 0 (dev_size sd) (avl_new (dev_size sd) blk 0 ew) = Some sa" "avl_inv sa"
    "device_size sa = dev_size sd" "block_size sa = blk" "avl_free sa = arange 0 (dev_size sd)" "whole_units blk (avl_free sa)"
    by (rule avl_full [OF d(3) f(5) b0 d(6)])
  have "arange 0 res \<subseteq> avl_free fa" using f(1) fa(5) by (auto simp: arange_def)
  then obtain fb where fb: "avl_init_rm_free 0 res fa = Some fb" "avl_inv fb" "avl_same fa fb" "avl_free fb = avl_free fa - arange 0 res"
    using avl_init_rm_free_ok [OF fa(2)] by blast
  have wb: "whole_units blk (avl_free fb)" unfolding fb(4) using whole_units_diff [OF fa(6) _ d(7) b0, of 0] by simp
  have ns: "no_short fd'" "no_short sd"
    using healthy_no_short [of sd] healthy_no_short [of fd] no_short_frame [OF fr] f(3) d(2) by (auto simp: dev_ready_def)
  have len: "device_size fb \<le> file_len fd'" "device_size sa \<le> file_len sd"
    using fb(3) fa(3) sa(3) fr f(3) d(2) by (auto simp: avl_same_def dev_frame_def dev_ready_def)
  have "space_inv res (em_new blk esz) \<lparr>fast_alloc = Some fb, slow_alloc = Some sa, fast_dev = Some fd', slow_dev = Some sd\<rparr>"
    using fb fa sa
    by (intro space_inv_new [OF d(4) fb(2) _ _ wb sa(2,4) _ sa(6) len(1) ns(1) len(2) ns(2) _ _ _ refl])
      (simp_all add: avl_same_def em_new_def)
  with that fa(1) sa(1) fb(1) show ?thesis by blast
qed

text \<open>A new journal recovers to nothing.\<close>

lemma init_journal:
  assumes "fresh_device res fd"
  obtains j fd1 j1 fd2 where "j_new res fd = (j, fd1)" and "j_recover j fd1 = Some ([], j1, fd2)"
    and "journal_idle res j1" and "dev_frame fd fd2"
proof -
  obtain j fd1 where j: "j_new res fd = (j, fd1)" "journal_holds res [] j fd1" "j_active j = []" "dev_frame fd fd1"
    using j_new_fresh [OF assms] by blast
  obtain j1 fd2 where rc: "j_recover j fd1 = Some ([], j1, fd2)" "journal_holds res [] j1 fd2" "j_active j1 = []" "dev_frame fd1 fd2"
    using j_recover_ok [OF j(2) refl] j(3) by (auto simp: log_records_def)
  have "journal_idle res j1"
    using rc(2,3) assms by (auto simp: journal_idle_def journal_holds_def sb_ok_def journal_consts dev_ready_def)
  with that j(1) rc(1) dev_frame_trans [OF j(4) rc(4)] show ?thesis by blast
qed

lemma btier_init_ok:
  assumes dv: "new_devices cfg fd sd" and room: "fits (journal_size cfg) n" and n: "n + 3 < 2 ^ 64"
  shows "\<exists>e. btier_init (0, fd) (0, sd) ew cfg e0 = Some (0, e) \<and> eng_ready (journal_size cfg) n e \<and> eng_abs e = Map.empty"
proof -
  define res blk where "res = journal_size cfg" and "blk = cfg_block_size cfg"
  have d: "fresh_device res fd" "extent_size cfg \<le> 2 ^ 30" "res \<le> dev_size fd"
    using dv by (auto simp: new_devices_def res_def fresh_device_def)
  obtain j fd1 j1 fd2 where j: "j_new res fd = (j, fd1)" "j_recover j fd1 = Some ([], j1, fd2)" "journal_idle res j1"
    "dev_frame fd fd2"
    by (rule init_journal [OF d(1)])
  define em where "em = em_new blk (extent_size cfg)"
  obtain fa fb sa where al: "avl_init_add_free 0 (dev_size fd) (avl_new (dev_size fd) blk 0 ew) = Some fa"
    "avl_init_add_free 0 (dev_size sd) (avl_new (dev_size sd) blk 0 ew) = Some sa" "avl_init_rm_free 0 res fa = Some fb"
    and sp: "space_inv res em \<lparr>fast_alloc = Some fb, slow_alloc = Some sa, fast_dev = Some fd2, slow_dev = Some sd\<rparr>"
    unfolding em_def by (rule init_allocators [OF dv res_def blk_def j(4)])
  define ts where "ts = \<lparr>fast_alloc = Some fb, slow_alloc = Some sa, fast_dev = Some fd2, slow_dev = Some sd\<rparr>"
  define e3 where "e3 = e0\<lparr>eng_cfg := cfg, eng_em := em, eng_km := km_new, eng_journal := Some j1, eng_tiers := ts\<rparr>"
  have view: "em_view em = Map.empty" by (rule ext) (simp add: em_view_def em_lookup_def em_def em_new_def)
  have inv: "eng_inv res (e3\<lparr>eng_initialized := True\<rparr>)"
    using sp j(3) d(2) km_new_inv view by (simp add: eng_inv_def e3_def ts_def keys_placed_def live_counted_def)
  obtain r e4 where ck: "with_journal (j_checkpoint []) e3 = Some (r, e4)"
    "keeps res (e3\<lparr>eng_initialized := True\<rparr>) (e4\<lparr>eng_initialized := True\<rparr>)" "eng_em e4 = eng_em e3"
    using first_checkpoint [OF inv] room fits_mono [of res n 0] res_def by blast
  define e where "e = e4\<lparr>eng_initialized := True\<rparr>"
  have new: "device_size (avl_new x y z w) = x" for x y z w by (simp add: avl_new_def)
  have "btier_init (0, fd) (0, sd) ew cfg e0 = Some (0, e)"
    using al j(1,2) ck(1) d(3)
    by (simp add: btier_init_def journal_region_def res_def [symmetric] init_free_space_def blk_def [symmetric] new
        journal_records_def e_def e3_def ts_def em_def Let_def)
  moreover have e: "eng_inv res e" "eng_abs e = Map.empty" "eng_km e = km_new" "eng_em e = em"
    using ck(2,3) km_new_inv by (auto simp: keeps_def e_def e3_def eng_abs_def stored_def fun_eq_iff)
  moreover have "state_bytes e = 0" "next_extent e = 1"
    using e(3,4) km_new_inv view by (simp_all add: state_bytes_def key_bytes_def em_def em_new_def)
  ultimately show ?thesis using room n by (auto simp: eng_ready_def res_def)
qed

section \<open>Properties\<close>

text \<open>
  C1: the engine is a key-value map. From any state that satisfies the invariant, a sequence of
  \<open>put\<close>, \<open>get\<close>, \<open>del\<close>, \<open>sync\<close> and deferred releases whose values are not empty and at most 1 GiB with
  their headers, and whose records fit the rest of the journal region (\<open>eng_ready\<close>), runs without an abort and
  answers as a map would: a \<open>put\<close> or \<open>del\<close> that returns 0 has its effect and one that returns an error has
  none, and a \<open>get\<close> that returns 0 gives the value of the last successful \<open>put\<close>. Any system call of
  the devices may fail; one that succeeds is not cut short (\<open>no_short\<close>, a part of the invariant).
\<close>

theorem engine_refines_map:
  assumes "eng_ready res (sum_list (map kv_cost ops)) e" and "\<forall>op \<in> set ops. kv_ok op"
  shows "\<exists>outs e'. kv_run btier_exec ops e = Some (outs, e') \<and> eng_inv res e' \<and>
    kv_trace ops outs (eng_abs e) (eng_abs e')"
  using btier.run_spec [of res 0 ops e] assms by (auto simp: eng_ready_def)

text \<open>
  C18: \<open>init\<close> on devices without a journal succeeds, and establishes the invariant for an empty map, with
  as much journal budget as the region has room for.
\<close>

theorem engine_init_empty:
  assumes "new_devices cfg fd sd" and "fits (journal_size cfg) n" and "n + 3 < 2 ^ 64"
  shows "\<exists>e. btier_init (0, fd) (0, sd) ew cfg e0 = Some (0, e) \<and> eng_ready (journal_size cfg) n e \<and> eng_abs e = Map.empty"
  by (rule btier_init_ok [OF assms])

section \<open>A concrete engine\<close>

definition cfg_sample :: btier_config where
  "cfg_sample = default_config\<lparr>journal_size := 32768, extent_size := 8192\<rparr>"

definition eng_blank :: engine where
  "eng_blank = \<lparr>eng_cfg = default_config, eng_tiers = no_tiers, eng_em = em_new 4096 8192, eng_km = km_new,
     eng_journal = None, eng_initialized = False\<rparr>"

lemma sample_devices: "new_devices cfg_sample jd_sample jd_sample"
proof -
  have "dev_size jd_sample = 65536" by (simp add: jd_sample_def)
  moreover have "block_ok 4096" using isp2_4096 by (simp add: block_ok_def HEADER_SIZE_def)
  ultimately show ?thesis
    using jd_sample_fresh [of 32768] jd_sample_ready
    by (simp add: new_devices_def cfg_sample_def default_config_def)
qed

lemma sample_room: "fits (journal_size cfg_sample) 1000"
  by (simp add: fits_def cfg_sample_def default_config_def journal_consts)

theorem engine_init_empty_witness:
  "\<exists>e. btier_init (0, jd_sample) (0, jd_sample) 0 cfg_sample eng_blank = Some (0, e) \<and> eng_abs e [1] = None"
proof -
  have n: "(1000 :: nat) + 3 < 2 ^ 64" by simp
  show ?thesis using engine_init_empty [OF sample_devices sample_room n, of 0 eng_blank] by auto
qed

theorem engine_refines_map_witness:
  "\<exists>e outs e'. eng_inv 32768 e \<and> kv_run btier_exec [KPut 0 [1] [2, 3], KGet 0 [1], KDel [4], KUpkeep True] e = Some (outs, e') \<and>
     kv_trace [KPut 0 [1] [2, 3], KGet 0 [1], KDel [4], KUpkeep True] outs Map.empty (eng_abs e')"
proof -
  define ops where "ops = [KPut 0 [1] [2, 3], KGet 0 [1], KDel [4], KUpkeep True]"
  have res: "journal_size cfg_sample = 32768" by (simp add: cfg_sample_def default_config_def)
  have "fits 32768 (sum_list (map kv_cost ops))" by (simp add: ops_def fits_def journal_consts)
  then obtain e where e: "eng_ready 32768 (sum_list (map kv_cost ops)) e" "eng_abs e = Map.empty"
    using btier_init_ok [OF sample_devices, of "sum_list (map kv_cost ops)" 0 eng_blank] unfolding res ops_def by auto
  have "\<forall>op \<in> set ops. kv_ok op" by (simp add: ops_def HEADER_SIZE_def)
  from engine_refines_map [OF e(1) this] show ?thesis
    using e by (auto simp: ops_def [symmetric] eng_ready_def)
qed

end
