(* ===== verification/Config_File.thy ===== *)
theory Config_File
  imports Btier_Config
begin

text \<open>
  \<^verbatim>\<open>btier/config.cc\<close>: the JSON parser and writer of the configuration file. The parser state, a text and a
  position, is the rest of the text from the position on; a parser returns the value and the rest,
  or \<open>None\<close> where the code returns false. \<open>std::map\<close> is an association list, of which the code only
  looks up keys.
\<close>

section \<open>JSON values\<close>

datatype json =
  JNull | JBool bool | JNumber rat | JString string | JObject "(string \<times> json) list" | JArray "json list"

definition is_number :: "json \<Rightarrow> bool" where "is_number v = (case v of JNumber _ \<Rightarrow> True | _ \<Rightarrow> False)"
definition is_object :: "json \<Rightarrow> bool" where "is_object v = (case v of JObject _ \<Rightarrow> True | _ \<Rightarrow> False)"

definition as_number :: "rat \<Rightarrow> json \<Rightarrow> rat" where
  "as_number d v = (case v of JNumber x \<Rightarrow> x | _ \<Rightarrow> d)"

definition as_string :: "json \<Rightarrow> string" where
  "as_string v = (case v of JString s \<Rightarrow> s | _ \<Rightarrow> [])"

definition json_get :: "string \<Rightarrow> json \<Rightarrow> json option" where
  "json_get k v = (case v of JObject m \<Rightarrow> map_of m k | _ \<Rightarrow> None)"

section \<open>Characters\<close>

definition NL :: char where "NL = CHR 0x0A"
definition TAB :: char where "TAB = CHR 0x09"
definition CR :: char where "CR = CHR 0x0D"
definition BS :: char where "BS = CHR 0x08"
definition FF :: char where "FF = CHR 0x0C"
definition DQ :: char where "DQ = CHR 0x22"
definition BSL :: char where "BSL = CHR 0x5C"

lemmas char_consts = NL_def TAB_def CR_def BS_def FF_def DQ_def BSL_def

text \<open>\<open>peek\<close> at the end of the text is a null character.\<close>

definition peek :: "string \<Rightarrow> char" where
  "peek s = (case s of [] \<Rightarrow> CHR 0x00 | c # _ \<Rightarrow> c)"

definition is_ws :: "char \<Rightarrow> bool" where
  "is_ws c \<longleftrightarrow> c = CHR '' '' \<or> c = TAB \<or> c = NL \<or> c = CR"

definition skip_ws :: "string \<Rightarrow> string" where
  "skip_ws s = dropWhile is_ws s"

definition is_digit :: "char \<Rightarrow> bool" where
  "is_digit c \<longleftrightarrow> 48 \<le> (of_char c :: int) \<and> (of_char c :: int) \<le> 57"

definition is_num_char :: "char \<Rightarrow> bool" where
  "is_num_char c \<longleftrightarrow>
     is_digit c \<or> c = CHR ''.'' \<or> c = CHR ''e'' \<or> c = CHR ''E'' \<or> c = CHR ''+'' \<or> c = CHR ''-''"

section \<open>Numbers\<close>

definition digit_val :: "char \<Rightarrow> int" where
  "digit_val c = of_char c - 48"

definition digits_val :: "string \<Rightarrow> int" where
  "digits_val s = foldl (\<lambda>n c. 10 * n + digit_val c) 0 s"

definition take_sign :: "string \<Rightarrow> bool \<times> string" where
  "take_sign s = (if peek s = CHR ''-'' then (True, tl s) else if peek s = CHR ''+'' then (False, tl s) else (False, s))"

text \<open>The exponent of a decimal number; an \<open>e\<close> without digits is not part of the number.\<close>

definition exponent_val :: "string \<Rightarrow> int" where
  "exponent_val s =
     (if peek s = CHR ''e'' \<or> peek s = CHR ''E''
      then let (neg, t) = take_sign (tl s); ds = takeWhile is_digit t
           in (if neg then - digits_val ds else digits_val ds)
      else 0)"

text \<open>
  \<open>std::stod\<close> on a string of the characters above: the value of the longest prefix that is a decimal
  number, rounded to double; an exception if there is none, or if the value is not in the range of
  normal doubles.
\<close>

definition out_of_range :: "rat \<Rightarrow> bool" where
  "out_of_range x \<longleftrightarrow> x \<ge> 2 ^ 1024 \<or> (0 < x \<and> x < 2 powi (- 1022))"

definition stod :: "string \<Rightarrow> rat option" where
  "stod s =
     (let (neg, s1) = take_sign s;
          ip = takeWhile is_digit s1; s2 = dropWhile is_digit s1;
          fp = (if peek s2 = CHR ''.'' then takeWhile is_digit (tl s2) else []);
          s3 = (if peek s2 = CHR ''.'' then dropWhile is_digit (tl s2) else s2)
      in if ip = [] \<and> fp = [] then None
         else
           let x = f64 (of_int (digits_val (ip @ fp)) * 10 powi (exponent_val s3 - int (length fp)))
           in if out_of_range x then None else Some (if neg then - x else x))"

section \<open>Parser\<close>

definition unescape :: "char \<Rightarrow> char" where
  "unescape c =
     (if c = CHR ''n'' then NL else if c = CHR ''t'' then TAB else if c = CHR ''r'' then CR
      else if c = CHR ''b'' then BS else if c = CHR ''f'' then FF else c)"

text \<open>The loop of \<open>parse_string\<close>, after the opening quote.\<close>

fun string_loop :: "string \<Rightarrow> string \<Rightarrow> (string \<times> string) option" where
  "string_loop acc [] = None"
| "string_loop acc (c # s) =
     (if c = DQ then Some (acc, s)
      else if c = BSL then (case s of [] \<Rightarrow> None | e # s1 \<Rightarrow> string_loop (acc @ [unescape e]) s1)
      else string_loop (acc @ [c]) s)"

definition parse_string :: "string \<Rightarrow> (string \<times> string) option" where
  "parse_string s = string_loop [] (tl s)"

definition parse_bool :: "string \<Rightarrow> (json \<times> string) option" where
  "parse_bool s =
     (if take 4 s = ''true'' then Some (JBool True, drop 4 s)
      else if take 5 s = ''false'' then Some (JBool False, drop 5 s) else None)"

definition parse_null :: "string \<Rightarrow> (json \<times> string) option" where
  "parse_null s = (if take 4 s = ''null'' then Some (JNull, drop 4 s) else None)"

definition parse_number :: "string \<Rightarrow> (json \<times> string) option" where
  "parse_number s =
     (let num = takeWhile is_num_char s
      in if num = [] then None
         else case stod num of None \<Rightarrow> None | Some x \<Rightarrow> Some (JNumber x, dropWhile is_num_char s))"

text \<open>Each of these consumes text.\<close>

lemma skip_ws_le: "length (skip_ws s) \<le> length s"
  by (simp add: skip_ws_def length_dropWhile_le)

lemma peek_cons: "peek s = c \<Longrightarrow> c \<noteq> CHR 0x00 \<Longrightarrow> s = c # tl s"
  by (cases s) (auto simp: peek_def)

lemma peek_tl: "peek s = c \<Longrightarrow> c \<noteq> CHR 0x00 \<Longrightarrow> length (tl s) < length s"
  by (cases s) (auto simp: peek_def)

lemma string_loop_less: "string_loop acc s = Some (v, r) \<Longrightarrow> length r < length s"
proof (induction acc s rule: string_loop.induct)
  case (2 acc c s)
  then show ?case by (cases s) (auto split: if_splits)
qed simp

lemma parse_string_less: "parse_string s = Some (v, r) \<Longrightarrow> length r < length s"
  using string_loop_less [of "[]" "tl s"] by (fastforce simp: parse_string_def)

lemma parse_atom_less:
  "parse_bool s = Some (v, r) \<Longrightarrow> length r < length s" "parse_null s = Some (v, r) \<Longrightarrow> length r < length s"
  "parse_number s = Some (v, r) \<Longrightarrow> length r < length s"
proof -
  show "parse_bool s = Some (v, r) \<Longrightarrow> length r < length s" "parse_null s = Some (v, r) \<Longrightarrow> length r < length s"
    by (cases s; auto simp: parse_bool_def parse_null_def split: if_splits)+
  assume "parse_number s = Some (v, r)"
  then have "takeWhile is_num_char s \<noteq> []" "r = dropWhile is_num_char s"
    by (auto simp: parse_number_def Let_def split: if_splits option.splits)
  then show "length r < length s"
    by (metis takeWhile_dropWhile_id length_append less_add_same_cancel2 length_greater_0_conv)
qed

text \<open>The start of the loop of \<open>parse_object\<close>: a key and the colon.\<close>

definition object_key :: "string \<Rightarrow> (string \<times> string) option" where
  "object_key s0 =
     (let s = skip_ws s0
      in if peek s \<noteq> DQ then None
         else case parse_string s of
                None \<Rightarrow> None
              | Some (k, t) \<Rightarrow> if peek (skip_ws t) \<noteq> CHR '':'' then None else Some (k, tl (skip_ws t)))"

lemma object_key_less: "object_key s = Some (k, t) \<Longrightarrow> length t < length s"
  using parse_string_less [of "skip_ws s"] skip_ws_le [of s]
  by (fastforce simp: object_key_def Let_def split: if_splits option.splits dest: order.strict_trans1 [OF skip_ws_le])

text \<open>
  \<open>parse_value\<close>, with the loops of \<open>parse_object\<close> and \<open>parse_array\<close>, which start after the opening
  bracket.
\<close>

function (sequential) parse_value :: "string \<Rightarrow> (json \<times> string) option"
  and object_loop :: "(string \<times> json) list \<Rightarrow> string \<Rightarrow> (json \<times> string) option"
  and array_loop :: "json list \<Rightarrow> string \<Rightarrow> (json \<times> string) option" where
  "parse_value s0 =
     (let s = skip_ws s0; c = peek s
      in if s = [] then None
         else if c = CHR ''{''
         then (let t = skip_ws (tl s) in if peek t = CHR ''}'' then Some (JObject [], tl t) else object_loop [] t)
         else if c = CHR ''[''
         then (let t = skip_ws (tl s) in if peek t = CHR '']'' then Some (JArray [], tl t) else array_loop [] t)
         else if c = DQ then map_option (\<lambda>(v, t). (JString v, t)) (parse_string s)
         else if c = CHR ''t'' \<or> c = CHR ''f'' then parse_bool s
         else if c = CHR ''n'' then parse_null s
         else parse_number s)"
| "object_loop m s =
     (case object_key s of
        None \<Rightarrow> None
      | Some (k, t) \<Rightarrow>
          (case parse_value t of
             None \<Rightarrow> None
           | Some (v, r) \<Rightarrow>
               (let m1 = AList.update k v m; r1 = skip_ws r
                in if peek r1 = CHR '','' then object_loop m1 (tl r1)
                   else if peek r1 = CHR ''}'' then Some (JObject m1, tl r1)
                   else None)))"
| "array_loop vs s =
     (case parse_value s of
        None \<Rightarrow> None
      | Some (v, r) \<Rightarrow>
          (let vs1 = vs @ [v]; r1 = skip_ws r
           in if peek r1 = CHR '','' then array_loop vs1 (tl r1)
              else if peek r1 = CHR '']'' then Some (JArray vs1, tl r1)
              else None))"
  by pat_completeness auto

termination
proof (relation "measure (\<lambda>x. case x of Inl s \<Rightarrow> 2 * length s | Inr (Inl (m, s)) \<Rightarrow> 2 * length s + 1
    | Inr (Inr (vs, s)) \<Rightarrow> 2 * length s + 1)")
  have tl_less: "length (tl (skip_ws s)) \<le> length s - 1" for s
    using skip_ws_le [of s] by simp
  have sub: "length (tl (skip_ws r)) < length s" if "length r < length s" for r s
    using tl_less [of r] that by linarith
  have less:
    "parse_value_object_loop_array_loop_dom (Inl s) \<Longrightarrow> parse_value s = Some (v, r) \<Longrightarrow> length r < length s"
    "parse_value_object_loop_array_loop_dom (Inr (Inl (m, s))) \<Longrightarrow> object_loop m s = Some (v, r) \<Longrightarrow> length r < length s"
    "parse_value_object_loop_array_loop_dom (Inr (Inr (vs, s))) \<Longrightarrow> array_loop vs s = Some (v, r) \<Longrightarrow> length r < length s"
    for s v r m vs
  proof (induction s and m s and vs s arbitrary: v r and v r and v r rule: parse_value_object_loop_array_loop.pinduct)
    case (1 s0)
    define s where "s = skip_ws s0"
    define t where "t = skip_ws (tl s)"
    have ne: "s \<noteq> []" using 1(4) by (auto simp: parse_value.psimps [OF 1(1)] s_def)
    then have t: "length (tl t) < length s0" "length t < length s0"
      using skip_ws_le [of s0] skip_ws_le [of "tl s"] by (cases s; auto simp: s_def t_def)+
    have obj: "length r < length s0" if "object_loop [] t = Some (v, r)" "peek s = CHR ''{''" "peek t \<noteq> CHR ''}''"
      using 1(2) [OF s_def refl ne that(2) t_def that(3,1)] t by simp
    have arr: "length r < length s0"
      if "array_loop [] t = Some (v, r)" "peek s \<noteq> CHR ''{''" "peek s = CHR ''[''" "peek t \<noteq> CHR '']''"
      using 1(3) [OF s_def refl ne that(2,3) t_def that(4,1)] t by simp
    have atom: "length r < length s0" if "length r < length s" using that skip_ws_le [of s0] by (simp add: s_def)
    show ?case
      using 1(4) ne t obj arr atom parse_atom_less [of s v r] parse_string_less [of s _ r]
      unfolding parse_value.psimps [OF 1(1)] Let_def s_def [symmetric] t_def [symmetric]
      by (auto split: if_splits)
  next
    case (2 m s)
    from 2(4) obtain k t w u where k: "object_key s = Some (k, t)" and p: "parse_value t = Some (w, u)"
      and rest: "(peek (skip_ws u) = CHR '','' \<and> object_loop (AList.update k w m) (tl (skip_ws u)) = Some (v, r)) \<or> r = tl (skip_ws u)"
      by (auto simp: object_loop.psimps [OF 2(1)] Let_def split: option.splits if_splits)
    have u: "length (tl (skip_ws u)) < length s" using 2(2) [OF k refl p] object_key_less [OF k] sub by fastforce
    from rest show ?case
    proof
      assume "peek (skip_ws u) = CHR '','' \<and> object_loop (AList.update k w m) (tl (skip_ws u)) = Some (v, r)"
      then show ?thesis using 2(3) [OF k refl p refl refl refl] u by fastforce
    qed (use u in simp)
  next
    case (3 vs s)
    from 3(4) obtain w u where p: "parse_value s = Some (w, u)"
      and rest: "(peek (skip_ws u) = CHR '','' \<and> array_loop (vs @ [w]) (tl (skip_ws u)) = Some (v, r)) \<or> r = tl (skip_ws u)"
      by (auto simp: array_loop.psimps [OF 3(1)] Let_def split: option.splits if_splits)
    have u: "length (tl (skip_ws u)) < length s" using 3(2) [OF p] sub by blast
    from rest show ?case
    proof
      assume "peek (skip_ws u) = CHR '','' \<and> array_loop (vs @ [w]) (tl (skip_ws u)) = Some (v, r)"
      then show ?thesis using 3(3) [OF p refl refl refl] u by fastforce
    qed (use u in simp)
  qed
  have inner: "length (skip_ws (tl (skip_ws s))) < length s" if "skip_ws s \<noteq> []" for s
    using that skip_ws_le [of s] skip_ws_le [of "tl (skip_ws s)"] by (cases "skip_ws s") auto
  have next_item: "length (tl (skip_ws r)) < length s"
    if "parse_value_object_loop_array_loop_dom (Inl s)" "parse_value s = Some (v, r)" for s v r
    using less(1) [OF that] sub by blast
  let ?R = "measure (\<lambda>x. case x of Inl s \<Rightarrow> 2 * length s | Inr (Inl (m, s)) \<Rightarrow> 2 * length s + 1
    | Inr (Inr (vs, s)) \<Rightarrow> 2 * length s + 1)"
  show "wf ?R" by simp
  show "(Inr (Inl ([], t)), Inl s0) \<in> ?R" if "s = skip_ws s0" "s \<noteq> []" "t = skip_ws (tl s)" for s0 s t
    using inner [of s0] that by simp
  show "(Inr (Inr ([], t)), Inl s0) \<in> ?R" if "s = skip_ws s0" "s \<noteq> []" "t = skip_ws (tl s)" for s0 s t
    using inner [of s0] that by simp
  show "(Inl t, Inr (Inl (m, s))) \<in> ?R" if "object_key s = Some x" "(k, t) = x" for s x k t m
    using object_key_less [of s k t] that by simp
  show "(Inr (Inl (m1, tl r1)), Inr (Inl (m, s))) \<in> ?R"
    if "object_key s = Some x" "(k, t) = x" "parse_value t = Some y" "(v, r) = y" "r1 = skip_ws r"
      "parse_value_object_loop_array_loop_dom (Inl t)" for s x k t m m1 y v r r1
    using next_item [of t v r] object_key_less [of s k t] that by simp
  show "(Inl s, Inr (Inr (vs, s))) \<in> ?R" for s vs by simp
  show "(Inr (Inr (vs1, tl r1)), Inr (Inr (vs, s))) \<in> ?R"
    if "parse_value s = Some y" "(v, r) = y" "r1 = skip_ws r" "parse_value_object_loop_array_loop_dom (Inl s)"
    for s y v r r1 vs vs1
    using next_item [of s v r] that by simp
qed

declare parse_value.simps [simp del] object_loop.simps [simp del] array_loop.simps [simp del]

definition json_parse :: "string \<Rightarrow> json option" where
  "json_parse text = (let s = skip_ws text in if s = [] then None else map_option fst (parse_value s))"

section \<open>Loading\<close>

text \<open>
  A cast of a double to an unsigned type truncates; it is undefined, here \<open>None\<close>, if the truncated
  value does not fit.
\<close>

definition to_unsigned :: "nat \<Rightarrow> rat \<Rightarrow> nat option" where
  "to_unsigned w x = (if - 1 < x \<and> x < 2 ^ w then Some (nat \<lfloor>x\<rfloor>) else None)"

definition string_field :: "string \<Rightarrow> json \<Rightarrow> string \<Rightarrow> string" where
  "string_field k obj d = (case json_get k obj of None \<Rightarrow> d | Some v \<Rightarrow> as_string v)"

definition unsigned_field :: "nat \<Rightarrow> string \<Rightarrow> json \<Rightarrow> nat \<Rightarrow> nat option" where
  "unsigned_field w k obj d =
     (case json_get k obj of None \<Rightarrow> Some d | Some v \<Rightarrow> to_unsigned w (as_number (f64 (of_nat d)) v))"

definition double_field :: "string \<Rightarrow> json \<Rightarrow> rat \<Rightarrow> rat" where
  "double_field k obj d = (case json_get k obj of None \<Rightarrow> d | Some v \<Rightarrow> as_number d v)"

definition float_field :: "string \<Rightarrow> json \<Rightarrow> rat \<Rightarrow> rat" where
  "float_field k obj d = (case json_get k obj of None \<Rightarrow> d | Some v \<Rightarrow> f32 (as_number d v))"

definition weights_field :: "json \<Rightarrow> weight_set \<Rightarrow> weight_set" where
  "weights_field obj w =
     (case json_get ''base_weights'' obj of
        None \<Rightarrow> w
      | Some ws \<Rightarrow>
          if is_object ws
          then \<lparr>w_recency = float_field ''w_recency'' ws (w_recency w),
                w_frequency = float_field ''w_frequency'' ws (w_frequency w),
                w_randomness = float_field ''w_randomness'' ws (w_randomness w),
                w_write_penalty = float_field ''w_write_penalty'' ws (w_write_penalty w)\<rparr>
          else w)"

definition config_of_json :: "json \<Rightarrow> btier_config \<Rightarrow> btier_config option" where
  "config_of_json obj cfg =
     do { es \<leftarrow> unsigned_field 64 ''extent_size'' obj (extent_size cfg);
          bs \<leftarrow> unsigned_field 64 ''block_size'' obj (cfg_block_size cfg);
          lv \<leftarrow> unsigned_field 64 ''large_value_threshold'' obj (large_value_threshold cfg);
          si \<leftarrow> unsigned_field 32 ''scan_interval_ms'' obj (scan_interval_ms cfg);
          mm \<leftarrow> unsigned_field 32 ''max_migrations_per_cycle'' obj (max_migrations_per_cycle cfg);
          mc \<leftarrow> unsigned_field 32 ''max_compactions_per_cycle'' obj (max_compactions_per_cycle cfg);
          ci \<leftarrow> unsigned_field 32 ''cool_interval_sec'' obj (cool_interval_sec cfg);
          st \<leftarrow> unsigned_field 64 ''sequential_threshold'' obj (sequential_threshold cfg);
          js \<leftarrow> unsigned_field 64 ''journal_size'' obj (journal_size cfg);
          Some \<lparr>fast_dev_path = string_field ''fast_dev_path'' obj (fast_dev_path cfg),
                slow_dev_path = string_field ''slow_dev_path'' obj (slow_dev_path cfg),
                extent_size = es, cfg_block_size = bs, large_value_threshold = lv,
                base_weights = weights_field obj (base_weights cfg),
                low_watermark = double_field ''low_watermark'' obj (low_watermark cfg),
                high_watermark = double_field ''high_watermark'' obj (high_watermark cfg),
                scan_interval_ms = si, max_migrations_per_cycle = mm, max_compactions_per_cycle = mc,
                promote_threshold = float_field ''promote_threshold'' obj (promote_threshold cfg),
                demote_threshold = float_field ''demote_threshold'' obj (demote_threshold cfg),
                compaction_dead_ratio = double_field ''compaction_dead_ratio'' obj (compaction_dead_ratio cfg),
                compaction_usage_ratio = double_field ''compaction_usage_ratio'' obj (compaction_usage_ratio cfg),
                cool_interval_sec = ci, sequential_threshold = st, journal_size = js\<rparr> }"

text \<open>\<open>load\<close>; the argument is the text of the file, \<open>None\<close> if it cannot be opened.\<close>

definition config_load :: "string option \<Rightarrow> btier_config option" where
  "config_load file =
     (case file of
        None \<Rightarrow> Some default_config
      | Some text \<Rightarrow>
          (case json_parse text of
             None \<Rightarrow> Some default_config
           | Some obj \<Rightarrow> if is_object obj then config_of_json obj default_config else Some default_config))"

section \<open>Saving\<close>

definition esc_char :: "char \<Rightarrow> string" where
  "esc_char c =
     (if c = DQ then [BSL, DQ] else if c = BSL then [BSL, BSL] else if c = NL then [BSL, CHR ''n'']
      else if c = TAB then [BSL, CHR ''t''] else if c = CR then [BSL, CHR ''r''] else [c])"

definition esc_json :: "string \<Rightarrow> string" where
  "esc_json s = DQ # concat (map esc_char s) @ [DQ]"

text \<open>\<open>operator<<\<close> of an output stream for unsigned integers.\<close>

definition digit_char :: "int \<Rightarrow> char" where
  "digit_char n = char_of (n + 48)"

function int_text :: "int \<Rightarrow> string" where
  "int_text n = (if n < 10 then [digit_char n] else int_text (n div 10) @ [digit_char (n mod 10)])"
  by auto

termination
  by (relation "measure nat") auto

declare int_text.simps [simp del]

definition nat_text :: "nat \<Rightarrow> string" where
  "nat_text n = int_text (int n)"

text \<open>
  \<open>operator<<\<close> for \<open>float\<close> and \<open>double\<close>, in the default format: six significant digits without trailing
  zeros, in scientific notation if the exponent is below -4 or above 5.
\<close>

definition dec_exp :: "rat \<Rightarrow> int" where
  "dec_exp x =
     (let (p, q) = quotient_of x; e = int (length (int_text p)) - int (length (int_text q))
      in if 10 powi e \<le> x then e else e - 1)"

definition six_digits :: "rat \<Rightarrow> int \<times> int" where
  "six_digits x =
     (let e = dec_exp x; n = round_even (x / 10 powi (e - 5))
      in if n = 10 ^ 6 then (10 ^ 5, e + 1) else (n, e))"

definition strip_zeros :: "string \<Rightarrow> string" where
  "strip_zeros s = rev (dropWhile (\<lambda>c. c = CHR ''0'') (rev s))"

definition with_fraction :: "string \<Rightarrow> string \<Rightarrow> string" where
  "with_fraction ip fp = (if strip_zeros fp = [] then ip else ip @ CHR ''.'' # strip_zeros fp)"

definition pad_left :: "nat \<Rightarrow> string \<Rightarrow> string" where
  "pad_left w s = replicate (w - length s) (CHR ''0'') @ s"

definition double_text :: "rat \<Rightarrow> string" where
  "double_text x =
     (if x = 0 then ''0''
      else
        let (n, e) = six_digits \<bar>x\<bar>; sg = (if x < 0 then ''-'' else [])
        in if - 4 \<le> e \<and> e < 6
           then let k = nat (5 - e)
                in sg @ with_fraction (int_text (n div 10 ^ k)) (pad_left k (int_text (n mod 10 ^ k)))
           else sg @ with_fraction (int_text (n div 10 ^ 5)) (pad_left 5 (int_text (n mod 10 ^ 5))) @
                ''e'' @ (if e < 0 then ''-'' else ''+'') @ pad_left 2 (int_text \<bar>e\<bar>))"

definition write_kv :: "string \<Rightarrow> string \<Rightarrow> bool \<Rightarrow> string" where
  "write_kv k val fin = ''    '' @ esc_json k @ '': '' @ val @ (if fin then [NL] else CHR '','' # [NL])"

text \<open>The members of the nested object, which the code writes out.\<close>

definition write_weight :: "string \<Rightarrow> rat \<Rightarrow> bool \<Rightarrow> string" where
  "write_weight k x fin =
     ''        '' @ DQ # k @ DQ # '': '' @ double_text x @ (if fin then [NL] else CHR '','' # [NL])"

definition weights_text :: "weight_set \<Rightarrow> string" where
  "weights_text w =
     CHR ''{'' # NL # write_weight ''w_recency'' (w_recency w) False @ write_weight ''w_frequency'' (w_frequency w) False @
     write_weight ''w_randomness'' (w_randomness w) False @ write_weight ''w_write_penalty'' (w_write_penalty w) True @
     ''    }''"

definition config_text :: "btier_config \<Rightarrow> string" where
  "config_text cfg =
     CHR ''{'' # NL #
     write_kv ''fast_dev_path'' (esc_json (fast_dev_path cfg)) False @
     write_kv ''slow_dev_path'' (esc_json (slow_dev_path cfg)) False @
     write_kv ''extent_size'' (nat_text (extent_size cfg)) False @
     write_kv ''block_size'' (nat_text (cfg_block_size cfg)) False @
     write_kv ''large_value_threshold'' (nat_text (large_value_threshold cfg)) False @
     write_kv ''base_weights'' (weights_text (base_weights cfg)) False @
     write_kv ''low_watermark'' (double_text (low_watermark cfg)) False @
     write_kv ''high_watermark'' (double_text (high_watermark cfg)) False @
     write_kv ''scan_interval_ms'' (nat_text (scan_interval_ms cfg)) False @
     write_kv ''max_migrations_per_cycle'' (nat_text (max_migrations_per_cycle cfg)) False @
     write_kv ''max_compactions_per_cycle'' (nat_text (max_compactions_per_cycle cfg)) False @
     write_kv ''promote_threshold'' (double_text (promote_threshold cfg)) False @
     write_kv ''demote_threshold'' (double_text (demote_threshold cfg)) False @
     write_kv ''compaction_dead_ratio'' (double_text (compaction_dead_ratio cfg)) False @
     write_kv ''compaction_usage_ratio'' (double_text (compaction_usage_ratio cfg)) False @
     write_kv ''cool_interval_sec'' (nat_text (cool_interval_sec cfg)) False @
     write_kv ''sequential_threshold'' (nat_text (sequential_threshold cfg)) False @
     write_kv ''journal_size'' (nat_text (journal_size cfg)) True @
     CHR ''}'' # [NL]"

text \<open>
  \<open>save\<close>. The arguments are the error number of the failed open, 0 if it succeeded, and whether the
  stream is good after the flush; the result is the return value and the text given to the stream.
\<close>

definition config_save :: "nat \<Rightarrow> bool \<Rightarrow> btier_config \<Rightarrow> int \<times> string option" where
  "config_save open_errno good cfg =
     (if open_errno \<noteq> 0 then (- int open_errno, None)
      else (if good then 0 else - EIO, Some (config_text cfg)))"

end
