(* ===== verification/Decimal_Text.thy ===== *)
theory Decimal_Text
  imports Config_File
begin

text \<open>
  The decimal text of floating-point numbers in the configuration file. A number that is the float or
  double nearest to a decimal number of at most six significant digits is printed as that decimal
  number, and reading the text rounds it to the same float or double again. The proof bounds the error
  of the two roundings (24 and 53 bits) by less than half a unit of the sixth digit.
\<close>

section \<open>Errors of rounding\<close>

lemma round_even_error: "\<bar>of_int (round_even y) - y\<bar> \<le> 1 / 2"
proof -
  have "of_int \<lfloor>y\<rfloor> \<le> y" "y < of_int \<lfloor>y\<rfloor> + 1" by linarith+
  then show ?thesis by (auto simp: round_even_def Let_def)
qed

lemma round_even_near:
  assumes "\<bar>y - of_int n\<bar> < 1 / 2"
  shows "round_even y = n"
proof -
  have "\<bar>of_int (round_even y) - (of_int n :: rat)\<bar> < 1" using round_even_error [of y] assms by linarith
  then have "\<bar>round_even y - n\<bar> < 1" by (metis of_int_abs of_int_diff of_int_less_1_iff)
  then show ?thesis by simp
qed

lemma round_sig_error:
  assumes "0 < x"
  shows "\<bar>round_sig p x - x\<bar> \<le> x * 2 powi (- p)"
proof -
  define u where "u = (2 :: rat) powi (bin_exp x - p + 1)"
  have u: "0 < u" "u = 2 powi bin_exp x * (2 * 2 powi (- p))"
    using power_int_add [of "2 :: rat" "bin_exp x" "1 - p"] power_int_add [of "2 :: rat" 1 "- p"]
    by (simp_all add: u_def algebra_simps)
  have "round_sig p x - x = (of_int (round_even (x / u)) - x / u) * u"
    using u(1) by (simp add: round_sig_pos [OF assms] u_def [symmetric] left_diff_distrib)
  then have "\<bar>round_sig p x - x\<bar> = \<bar>of_int (round_even (x / u)) - x / u\<bar> * u"
    using u(1) by (simp add: abs_mult)
  also have "\<dots> \<le> 1 / 2 * u" using round_even_error [of "x / u"] u(1) by (intro mult_right_mono) auto
  also have "\<dots> = 2 powi bin_exp x * 2 powi (- p)" by (simp add: u(2))
  also have "\<dots> \<le> x * 2 powi (- p)" using bin_exp_bounds(1) [OF assms] by (intro mult_right_mono) auto
  finally show ?thesis .
qed

lemma f64_error: "0 < x \<Longrightarrow> \<bar>f64 x - x\<bar> \<le> x / 2 ^ 53" and f32_error: "0 < x \<Longrightarrow> \<bar>f32 x - x\<bar> \<le> x / 2 ^ 24"
  using round_sig_error [of x 53] round_sig_error [of x 24]
  by (simp_all add: f64_def f32_def power_int_minus_divide)

lemma f32_f64_error:
  assumes "0 < x"
  shows "\<bar>f32 (f64 x) - x\<bar> \<le> x / 2 ^ 23"
proof -
  have "\<bar>f64 x - x\<bar> \<le> x / 9007199254740992" "\<bar>f32 (f64 x) - f64 x\<bar> \<le> f64 x / 16777216"
    using f64_error [OF assms] f32_error [OF f64_pos [OF assms]] by simp_all
  then have "\<bar>f32 (f64 x) - x\<bar> \<le> x / 8388608" using assms by linarith
  then show ?thesis by simp
qed

section \<open>Decimal digits\<close>

lemma digit_char_props:
  assumes "0 \<le> n" and "n < 10"
  shows "is_digit (digit_char n)" and "digit_val (digit_char n) = n"
proof -
  have "(of_char (digit_char n) :: int) = n + 48" using assms by (simp add: digit_char_def)
  then show "is_digit (digit_char n)" and "digit_val (digit_char n) = n"
    using assms by (simp_all add: is_digit_def digit_val_def)
qed

lemma int_text_digits: "0 \<le> n \<Longrightarrow> list_all is_digit (int_text n) \<and> int_text n \<noteq> []"
proof (induction n rule: int_text.induct)
  case (1 n)
  then show ?case by (subst (1 2) int_text.simps) (simp add: digit_char_props(1))
qed

lemma digits_val_snoc: "digits_val (xs @ [c]) = 10 * digits_val xs + digit_val c"
  by (simp add: digits_val_def)

lemma digits_val_append: "digits_val (xs @ ys) = digits_val xs * 10 ^ length ys + digits_val ys"
proof (induction ys rule: rev_induct)
  case (snoc c ys)
  then show ?case using digits_val_snoc [of "xs @ ys" c] by (simp add: digits_val_snoc algebra_simps)
qed (simp add: digits_val_def)

lemma digits_val_int: "0 \<le> n \<Longrightarrow> digits_val (int_text n) = n"
proof (induction n rule: int_text.induct)
  case (1 n)
  show ?case
  proof (cases "n < 10")
    case True
    then show ?thesis using 1 by (simp add: int_text.simps [of n] digits_val_def digit_char_props)
  next
    case False
    then show ?thesis using 1 by (simp add: int_text.simps [of n] digits_val_snoc digit_char_props)
  qed
qed

lemma digits_val_zeros [simp]: "digits_val (replicate z (CHR ''0'')) = 0"
  by (induction z) (simp_all add: digits_val_def digit_val_def)

lemma int_text_bounds: "0 < n \<Longrightarrow> 10 ^ length (int_text n) \<le> 10 * n \<and> n < 10 ^ length (int_text n)"
proof (induction n rule: int_text.induct)
  case (1 n)
  show ?case
  proof (cases "n < 10")
    case True
    then show ?thesis using 1 by (simp add: int_text.simps [of n])
  next
    case False
    let ?l = "length (int_text (n div 10))"
    have "10 ^ ?l \<le> 10 * (n div 10) \<and> n div 10 < 10 ^ ?l" using False 1 by simp
    moreover have "length (int_text n) = Suc ?l" using False by (simp add: int_text.simps [of n])
    moreover have "n = 10 * (n div 10) + n mod 10" "n mod 10 < 10" "0 \<le> n mod 10" by simp_all
    ultimately show ?thesis by (simp only: power_Suc) linarith
  qed
qed

section \<open>The decimal exponent\<close>

lemma dec_exp_bounds:
  assumes "0 < x"
  shows "10 powi dec_exp x \<le> x" and "x < 10 * 10 powi dec_exp x"
proof -
  obtain p q where pq: "quotient_of x = (p, q)" by fastforce
  have q: "0 < q" using quotient_of_denom_pos [OF pq] .
  have x: "x = of_int p / of_int q" using quotient_of_div [OF pq] .
  have p: "0 < p" using assms q by (simp add: x zero_less_divide_iff)
  define a b where "a = length (int_text p)" and "b = length (int_text q)"
  have B: "(10 :: rat) ^ length (int_text m) \<le> 10 * of_int m" "(of_int m :: rat) < 10 ^ length (int_text m)" if "0 < m" for m
  proof -
    have "(of_int (10 ^ length (int_text m)) :: rat) \<le> of_int (10 * m)" "(of_int m :: rat) < of_int (10 ^ length (int_text m))"
      using int_text_bounds [OF that] by (simp_all only: of_int_le_iff of_int_less_iff)
    then show "(10 :: rat) ^ length (int_text m) \<le> 10 * of_int m" "(of_int m :: rat) < 10 ^ length (int_text m)" by simp_all
  qed
  note A' = B [OF p, folded a_def] and B' = B [OF q, folded b_def]
  define e where "e = int a - int b"
  have pe: "(10 :: rat) powi e = 10 ^ a / 10 ^ b" by (simp add: e_def power_int_diff)
  have "of_int p * 10 ^ b < 10 ^ a * (10 * of_int q :: rat)" using A' B' p q by (intro mult_less_le_imp_less) simp_all
  then have up: "x < 10 * 10 powi e" using q by (simp add: pe x field_simps)
  have "10 ^ a * of_int q < 10 * of_int p * (10 ^ b :: rat)" using A' B' p q by (intro mult_le_less_imp_less) simp_all
  then have low: "10 powi e < 10 * x" using q by (simp add: pe x field_simps)
  have E: "dec_exp x = (if 10 powi e \<le> x then e else e - 1)"
    by (simp add: dec_exp_def pq a_def b_def e_def Let_def)
  show "10 powi dec_exp x \<le> x" and "x < 10 * 10 powi dec_exp x"
    using up low by (simp_all add: E power_int_diff)
qed

lemma dec_exp_eq:
  assumes "10 powi e \<le> x" and "x < 10 * 10 powi e"
  shows "dec_exp x = e"
proof -
  have "0 < (10 :: rat) powi e" by simp
  then have "0 < x" using assms(1) by linarith
  note b = dec_exp_bounds [OF this]
  have less: "i \<le> j" if "(10 :: rat) powi i < 10 * 10 powi j" for i j
  proof (rule ccontr)
    assume "\<not> i \<le> j"
    then have "(10 :: rat) powi (j + 1) \<le> 10 powi i" by (intro power_int_increasing) auto
    with that show False by (simp add: power_int_add)
  qed
  show ?thesis using less [of e "dec_exp x"] less [of "dec_exp x" e] b assms by linarith
qed

section \<open>Six digits\<close>

text \<open>A decimal number \<open>n / 10\<^sup>k\<close> with six digits, the first of which is not zero.\<close>

lemma six_digits_near:
  assumes n: "10 ^ 5 \<le> n" "n < 10 ^ 6" and err: "\<bar>x * 10 ^ k - of_int n\<bar> \<le> of_int n / 2 ^ 23"
  shows "six_digits x = (n, 5 - int k)"
proof -
  define y where "y = x * 10 ^ k"
  have u: "(10 :: rat) powi (m - int k) = 10 powi m / 10 ^ k" for m by (simp add: power_int_diff)
  have d: "x / 10 powi (m - int k) = y / 10 powi m" for m by (simp add: u y_def)
  have b: "10 powi (m - int k) \<le> x \<longleftrightarrow> 10 powi m \<le> y" "x < 10 * 10 powi (m - int k) \<longleftrightarrow> y < 10 * 10 powi m" for m
    by (simp_all add: u y_def field_simps)
  have r: "(of_int n :: rat) \<le> 999999" "(100000 :: rat) \<le> of_int n" using n by simp_all
  have e: "y \<le> of_int n + of_int n / 8388608" "of_int n - of_int n / 8388608 \<le> y"
    using err [folded y_def, unfolded abs_le_iff] by simp_all
  show ?thesis
  proof (cases "10 ^ 5 \<le> y")
    case True
    have "dec_exp x = 5 - int k" using True e r by (intro dec_exp_eq) (simp_all add: b)
    moreover have "\<bar>y - of_int n\<bar> < 1 / 2" using e r unfolding abs_less_iff by linarith
    then have "round_even (y / 10 powi 0) = n" by (intro round_even_near) simp
    ultimately show ?thesis using n d [of 0] by (simp add: six_digits_def Let_def)
  next
    case False
    then have "(of_int n :: rat) < 100001" using e r by (simp add: abs_le_iff)
    then have n5: "n = 10 ^ 5" using n by simp
    have "dec_exp x = 4 - int k" using False e by (intro dec_exp_eq) (simp_all add: b n5)
    moreover have "\<bar>y * 10 - 1000000\<bar> < 1 / 2" using e n5 unfolding abs_less_iff by simp
    then have "round_even (y / 10 powi (- 1)) = 10 ^ 6" by (intro round_even_near) (simp add: power_int_minus)
    ultimately show ?thesis using d [of "- 1"] by (simp add: six_digits_def Let_def n5)
  qed
qed

section \<open>Reading the text\<close>

lemma strip_zeros_split: "\<exists>z. s = strip_zeros s @ replicate z (CHR ''0'')"
proof -
  let ?P = "\<lambda>c. c = CHR ''0''"
  have "s = rev (dropWhile ?P (rev s)) @ rev (takeWhile ?P (rev s))"
    by (metis rev_append rev_rev_ident takeWhile_dropWhile_id)
  moreover have "rev (takeWhile ?P (rev s)) = replicate (length (takeWhile ?P (rev s))) (CHR ''0'')"
    by (intro replicate_eqI) (auto dest: set_takeWhileD)
  ultimately show ?thesis by (metis strip_zeros_def)
qed

lemma int_text_length:
  assumes "0 \<le> m" and "m < 10 ^ k" and "0 < k"
  shows "length (int_text m) \<le> k"
proof (cases "m = 0")
  case True
  then show ?thesis using assms by (simp add: int_text.simps [of 0])
next
  case False
  then have "(10 :: int) ^ length (int_text m) < 10 ^ Suc k" using int_text_bounds [of m] assms by simp
  then have "length (int_text m) < Suc k" by (rule power_less_imp_less_exp [rotated]) simp
  then show ?thesis by simp
qed

text \<open>The digits after the point stand for the fraction.\<close>

lemma fraction_value:
  assumes "0 \<le> m" and "m < 10 ^ k"
  defines "fp \<equiv> strip_zeros (pad_left k (int_text m))"
  shows "of_int (digits_val fp) / (10 :: rat) ^ length fp = of_int m / 10 ^ k" and "list_all is_digit fp"
proof -
  let ?F = "pad_left k (int_text m)"
  obtain z where z: "?F = fp @ replicate z (CHR ''0'')" using strip_zeros_split [of ?F] by (auto simp: fp_def)
  have all: "list_all is_digit ?F" using int_text_digits [OF assms(1)] by (auto simp: pad_left_def list_all_iff is_digit_def)
  then show "list_all is_digit fp" unfolding z by simp
  have F: "digits_val ?F = m" using digits_val_int [OF assms(1)] by (simp add: pad_left_def digits_val_append)
  then have v: "digits_val fp * 10 ^ z = m" by (simp add: z digits_val_append)
  show "of_int (digits_val fp) / (10 :: rat) ^ length fp = of_int m / 10 ^ k"
  proof (cases "m = 0")
    case True
    with v show ?thesis by simp
  next
    case False
    then have "0 < k" using assms(1,2) by (cases k) auto
    then have "length ?F = k" using int_text_length [OF assms(1,2)] by (simp add: pad_left_def)
    then have k: "k = length fp + z" by (simp add: z)
    have "(of_int m :: rat) = of_int (digits_val fp) * 10 ^ z" using v by (metis of_int_mult of_int_numeral of_int_power)
    then show ?thesis by (simp add: k power_add)
  qed
qed

lemma peek_simps [simp]: "peek [] = CHR 0x00" "peek (c # s) = c"
  by (simp_all add: peek_def)

lemma take_sign_digit: "is_digit c \<Longrightarrow> take_sign (c # s) = (False, c # s)"
  by (auto simp: take_sign_def is_digit_def)

text \<open>\<open>stod\<close> on digits, a point and digits, or on digits alone.\<close>

lemma stod_decimal:
  assumes "list_all is_digit ip" and "ip \<noteq> []" and "list_all is_digit fp"
  defines "x \<equiv> f64 (of_int (digits_val ip) + of_int (digits_val fp) / 10 ^ length fp)"
  assumes "\<not> out_of_range x"
  shows "stod (if fp = [] then ip else ip @ CHR ''.'' # fp) = Some x"
proof -
  have c: "\<not> is_digit (CHR ''.'')" by (simp add: is_digit_def)
  have all: "takeWhile is_digit ip = ip" "dropWhile is_digit ip = []" "takeWhile is_digit fp = fp" "dropWhile is_digit fp = []"
    "takeWhile is_digit (ip @ CHR ''.'' # fp) = ip" "dropWhile is_digit (ip @ CHR ''.'' # fp) = CHR ''.'' # fp"
    using assms(1,3) c by (simp_all add: list_all_iff takeWhile_append2 dropWhile_append2)
  have sg: "take_sign (ip @ t) = (False, ip @ t)" for t using assms(1,2) by (cases ip) (simp_all add: take_sign_digit)
  have v: "(of_int (digits_val (ip @ fp)) :: rat) * 10 powi (0 - int (length fp)) =
      of_int (digits_val ip) + of_int (digits_val fp) / 10 ^ length fp"
    by (simp add: digits_val_append power_int_minus field_simps)
  show ?thesis
  proof (cases "fp = []")
    case True
    then show ?thesis
      using assms(2,5) sg [of "[]"] v by (simp add: stod_def Let_def exponent_val_def x_def all(1,2))
  next
    case False
    then show ?thesis
      using assms(2,5) v by (simp add: stod_def Let_def exponent_val_def x_def sg all)
  qed
qed

section \<open>Decimal numbers of six digits\<close>

text \<open>Zero, and the decimal numbers of at most six significant digits from 0.0001 to 999999.\<close>

definition six_digit :: "rat \<Rightarrow> bool" where
  "six_digit d \<longleftrightarrow> d = 0 \<or> (\<exists>n k. 10 ^ 5 \<le> n \<and> n < (10 :: int) ^ 6 \<and> k \<le> (9 :: nat) \<and> d = of_int n / 10 ^ k)"

lemma not_out_of_range:
  assumes "1 / 2 ^ 20 \<le> x" and "x \<le> 2 ^ 40"
  shows "\<not> out_of_range x"
proof -
  have hi: "(2 :: rat) ^ 40 < 2 ^ 1024" by (intro power_strict_increasing) auto
  have lo: "(2 :: rat) powi (- 1022) \<le> 2 powi (- 20)" by (intro power_int_increasing) auto
  have "(2 :: rat) powi (- 20) = 1 / 2 ^ 20" by (simp add: power_int_minus_divide)
  note order.strict_trans1 [OF assms(2) hi] order.trans [OF lo order.trans [OF eq_refl [OF this] assms(1)]]
  then have "\<not> 2 ^ 1024 \<le> x" and "\<not> x < 2 powi (- 1022)" by (simp_all only: not_le not_less)
  then show ?thesis unfolding out_of_range_def by blast
qed

lemma stod_double_text:
  assumes n: "10 ^ 5 \<le> n" "n < 10 ^ 6" and k: "k \<le> 9" and d: "d = of_int n / 10 ^ k"
    and err: "\<bar>x - d\<bar> \<le> d / 2 ^ 23"
  shows "stod (double_text x) = Some (f64 d)"
proof -
  have r: "(100000 :: rat) \<le> of_int n" "(of_int n :: rat) \<le> 999999" using n by simp_all
  have p: "(10 :: rat) ^ k \<le> 10 ^ 9" "(1 :: rat) \<le> 10 ^ k" using k by (simp_all only: power_increasing one_le_numeral one_le_power)
  have d0: "1 / 10000 \<le> d" "d \<le> 999999"
  proof -
    have "(10 :: rat) ^ k \<le> 1000000000" using p(1) by simp
    then have "(10 :: rat) ^ k \<le> of_int n * 10000" using r(1) by linarith
    then show "1 / 10000 \<le> d" using p(2) by (simp add: d field_simps)
    have "of_int n \<le> 999999 * (10 :: rat) ^ k" using p(2) r by linarith
    then show "d \<le> 999999" using p(2) by (simp add: d field_simps)
  qed
  then have x: "0 < x" using err [unfolded abs_le_iff] by simp
  have "\<bar>x * 10 ^ k - of_int n\<bar> = \<bar>x - d\<bar> * 10 ^ k" 
    using abs_mult [of "x - d" "10 ^ k"] by (simp add: d left_diff_distrib)
  also have "\<dots> \<le> d / 2 ^ 23 * 10 ^ k" using err by (intro mult_right_mono) auto
  also have "\<dots> = of_int n / 2 ^ 23" by (simp add: d)
  finally have six: "six_digits x = (n, 5 - int k)" using six_digits_near n by blast
  let ?m = "n mod 10 ^ k" let ?fp = "strip_zeros (pad_left k (int_text ?m))" let ?ip = "int_text (n div 10 ^ k)"
  have m: "0 \<le> ?m" "?m < 10 ^ k" "0 \<le> n div 10 ^ k" using n by (simp_all add: pos_imp_zdiv_nonneg_iff)
  have t: "double_text x = (if ?fp = [] then ?ip else ?ip @ CHR ''.'' # ?fp)"
    using x k by (simp add: double_text_def six Let_def with_fraction_def)
  have "(of_int n :: rat) = of_int (n div 10 ^ k * 10 ^ k + ?m)" by (simp only: div_mult_mod_eq)
  also have "\<dots> = of_int (n div 10 ^ k) * 10 ^ k + of_int ?m" by (simp only: of_int_add of_int_mult of_int_numeral of_int_power)
  finally have v: "of_int (digits_val ?ip) + of_int (digits_val ?fp) / 10 ^ length ?fp = d"
    using fraction_value(1) [OF m(1,2)] digits_val_int [OF m(3)] by (simp add: d add_divide_distrib)
  have "\<bar>f64 d - d\<bar> \<le> d / 2 ^ 53" using d0 by (intro f64_error) simp
  then have "\<not> out_of_range (f64 d)" unfolding abs_le_iff using d0 by (intro not_out_of_range) simp_all
  then show ?thesis
    using stod_decimal [of ?ip ?fp] int_text_digits [OF m(3)] fraction_value(2) [OF m(1,2)] unfolding t v by blast
qed

text \<open>The doubles and floats nearest to such a number; a float is read as a double first.\<close>

definition decimal_double :: "rat \<Rightarrow> bool" where
  "decimal_double x \<longleftrightarrow> (\<exists>d. six_digit d \<and> x = f64 d)"

definition decimal_float :: "rat \<Rightarrow> bool" where
  "decimal_float x \<longleftrightarrow> (\<exists>d. six_digit d \<and> x = f32 (f64 d))"

lemma stod_six_digit:
  assumes "six_digit d" and "x = f64 d \<or> x = f32 (f64 d)"
  shows "stod (double_text x) = Some (f64 d)"
proof -
  consider "d = 0" | n k where "10 ^ 5 \<le> n" "n < (10 :: int) ^ 6" "k \<le> (9 :: nat)" "d = of_int n / 10 ^ k"
    using assms(1) unfolding six_digit_def by blast
  then show ?thesis
  proof cases
    case 1
    have "stod ''0'' = Some 0" by code_simp
    with 1 assms(2) show ?thesis by (auto simp: double_text_def)
  next
    case 2
    then have d: "0 < d" by simp
    have "d / 2 ^ 53 \<le> d / 2 ^ 23" using d by (intro divide_left_mono) auto
    then have "\<bar>x - d\<bar> \<le> d / 2 ^ 23" using assms(2) f64_error [OF d] f32_f64_error [OF d] order.trans by blast
    then show ?thesis using stod_double_text 2 by blast
  qed
qed

end
