(* ===== verification/Config_Round_Trip.thy ===== *)
theory Config_Round_Trip
  imports Decimal_Text
begin

text \<open>
  What the writer of the configuration file prints, the parser reads back; and every parser of the
  file consumes text.
\<close>

section \<open>Reading what was written\<close>

lemma skip_ws_simps [simp]:
  "skip_ws [] = []" "skip_ws (c # s) = (if is_ws c then skip_ws s else c # s)"
  by (simp_all add: skip_ws_def)

lemma string_loop_esc: "string_loop acc (concat (map esc_char s) @ DQ # r) = Some (acc @ s, r)"
proof (induction s arbitrary: acc)
  case (Cons c s)
  then show ?case by (auto simp: esc_char_def unescape_def char_consts)
qed simp

lemma parse_string_esc: "parse_string (esc_json s @ r) = Some (s, r)"
  using string_loop_esc [of "[]" s r] by (simp add: parse_string_def esc_json_def)

lemma nat_text_digits: "list_all is_digit (nat_text n) \<and> nat_text n \<noteq> []"
  using int_text_digits [of "int n"] by (simp add: nat_text_def)

lemma digits_val_text: "digits_val (nat_text n) = int n"
  by (simp add: nat_text_def digits_val_int)

lemma stod_nat:
  assumes "n < 2 ^ 53"
  shows "stod (nat_text n) = Some (of_nat n)"
proof -
  obtain c s where cs: "nat_text n = c # s" "is_digit c" using nat_text_digits [of n] by (cases "nat_text n") auto
  have all: "takeWhile is_digit (nat_text n) = nat_text n" "dropWhile is_digit (nat_text n) = []"
    using nat_text_digits [of n] by (auto simp: list_all_iff takeWhile_eq_all_conv dropWhile_eq_Nil_conv)
  have sg: "take_sign (nat_text n) = (False, nat_text n)" using cs by (simp add: take_sign_digit)
  have x: "f64 (of_nat n) = of_nat n" using f64_nat [OF assms] .
  have big: "\<not> (2 :: rat) ^ 1024 \<le> of_nat n"
  proof -
    have "(of_nat n :: rat) < 2 ^ 53" by (metis assms of_nat_less_iff of_nat_numeral of_nat_power)
    also have "\<dots> \<le> 2 ^ 1024" by (intro power_increasing) auto
    finally show ?thesis by simp
  qed
  have small: "\<not> (0 < (of_nat n :: rat) \<and> of_nat n < (2 :: rat) powi (- 1022))"
  proof -
    have "(2 :: rat) powi (- 1022) \<le> 2 powi 0" by (intro power_int_increasing) auto
    then show ?thesis by (auto simp: not_less Suc_le_eq [symmetric] intro!: order.trans [of _ 1])
  qed
  have "\<not> out_of_range (of_nat n)" using big small unfolding out_of_range_def by blast
  moreover have "nat_text n \<noteq> []" using cs(1) by simp
  ultimately show ?thesis
    unfolding stod_def sg Let_def prod.case all by (simp add: exponent_val_def digits_val_text x)
qed

text \<open>The text of a number consists of number characters.\<close>

definition number_text :: "string \<Rightarrow> bool" where
  "number_text s \<longleftrightarrow> list_all is_num_char s \<and> s \<noteq> []"

lemma num_char_consts: "is_num_char (CHR ''0'')" "is_num_char (CHR ''.'')" "is_num_char (CHR ''e'')"
    "is_num_char (CHR ''+'')" "is_num_char (CHR ''-'')"
  by (simp_all add: is_num_char_def is_digit_def)

lemma number_text_int: "0 \<le> n \<Longrightarrow> number_text (int_text n)"
  using int_text_digits [of n] by (auto simp: number_text_def list_all_iff is_num_char_def)

lemma number_text_nat: "number_text (nat_text n)"
  by (simp add: nat_text_def number_text_int)

lemma number_text_parts:
  "list_all is_num_char s \<Longrightarrow> list_all is_num_char (pad_left w s)"
  "number_text ip \<Longrightarrow> list_all is_num_char fp \<Longrightarrow> number_text (with_fraction ip fp)"
proof -
  have "list_all is_num_char (strip_zeros fp)" if "list_all is_num_char fp" for fp
    using that by (auto simp: strip_zeros_def list_all_iff dest: set_dropWhileD)
  then show "number_text ip \<Longrightarrow> list_all is_num_char fp \<Longrightarrow> number_text (with_fraction ip fp)"
    by (simp add: with_fraction_def number_text_def num_char_consts)
  show "list_all is_num_char s \<Longrightarrow> list_all is_num_char (pad_left w s)"
    by (auto simp: pad_left_def list_all_iff num_char_consts)
qed

lemma six_digits_nonneg: "0 \<le> x \<Longrightarrow> six_digits x = (n, e) \<Longrightarrow> 0 \<le> n"
  using round_even_mono [of 0 "x / 10 powi (dec_exp x - 5)"] round_even_of_int [of 0]
  by (auto simp: six_digits_def Let_def split: if_splits)

lemma number_text_double: "number_text (double_text x)"
proof (cases "x = 0")
  case True
  then show ?thesis by (simp add: double_text_def number_text_def num_char_consts)
next
  case False
  obtain n e where ne: "six_digits \<bar>x\<bar> = (n, e)" by fastforce
  have n0: "0 \<le> n" using six_digits_nonneg [OF _ ne] by simp
  have i: "list_all is_num_char (int_text k)" if "0 \<le> k" for k using number_text_int [OF that] by (simp add: number_text_def)
  have w: "number_text (with_fraction (int_text (n div 10 ^ k)) (pad_left k (int_text (n mod 10 ^ k))))" for k
    using n0 by (intro number_text_parts number_text_int i) (simp_all add: pos_imp_zdiv_nonneg_iff)
  have p: "list_all is_num_char (pad_left 2 (int_text \<bar>e\<bar>))" by (intro number_text_parts i) simp
  show ?thesis
    using False w [of "nat (5 - e)"] w [of 5] p
    by (simp add: double_text_def ne Let_def num_char_consts number_text_def)
qed

text \<open>The value that a text parses to, if no number character follows.\<close>

definition parses_to :: "string \<Rightarrow> json \<Rightarrow> bool" where
  "parses_to s v \<longleftrightarrow> (\<forall>t. \<not> is_num_char (peek t) \<longrightarrow> parse_value (s @ t) = Some (v, t))"

lemma parses_to_string: "parses_to (esc_json s) (JString s)"
proof -
  have "parse_value (esc_json s @ t) = Some (JString s, t)" for t
    using parse_string_esc [of s t] by (simp add: parse_value.simps esc_json_def is_ws_def char_consts)
  then show ?thesis by (simp add: parses_to_def)
qed

lemma num_char_cases:
  "is_num_char c \<Longrightarrow> \<not> is_ws c \<and> c \<noteq> CHR ''{'' \<and> c \<noteq> CHR ''['' \<and> c \<noteq> DQ \<and> c \<noteq> CHR ''t'' \<and> c \<noteq> CHR ''f'' \<and> c \<noteq> CHR ''n''"
  by (auto simp: is_num_char_def is_digit_def is_ws_def char_consts)

lemma parses_to_number:
  assumes "number_text s" and "stod s = Some x"
  shows "parses_to s (JNumber x)"
proof -
  obtain c s1 where c: "s = c # s1" "is_num_char c" using assms(1) by (cases s) (auto simp: number_text_def)
  have "parse_value (s @ t) = Some (JNumber x, t)" if "\<not> is_num_char (peek t)" for t
  proof -
    have all: "\<forall>c \<in> set s. is_num_char c" using assms(1) by (simp add: number_text_def list_all_iff)
    have "takeWhile is_num_char t = []" "dropWhile is_num_char t = t" using that by (cases t; simp)+
    then have "takeWhile is_num_char (s @ t) = s" "dropWhile is_num_char (s @ t) = t"
      using all by (simp_all add: takeWhile_append2 dropWhile_append2)
    then have "parse_number (s @ t) = Some (JNumber x, t)"
      using assms(2) c by (simp add: parse_number_def)
    then show ?thesis using num_char_cases [OF c(2)] by (simp add: parse_value.simps c(1))
  qed
  then show ?thesis by (simp add: parses_to_def)
qed

lemma parses_to_nat: "n < 2 ^ 53 \<Longrightarrow> parses_to (nat_text n) (JNumber (of_nat n))"
  by (intro parses_to_number number_text_nat stod_nat)

lemma parse_value_ws: "is_ws c \<Longrightarrow> parse_value (c # s) = parse_value s"
  by (simp add: parse_value.simps)

lemma object_loop_ws: "is_ws c \<Longrightarrow> object_loop m (c # s) = object_loop m s"
  by (simp add: object_loop.simps object_key_def)

lemma ws_consts: "is_ws (CHR '' '')" "is_ws NL"
  by (simp_all add: is_ws_def)

text \<open>One member of an object.\<close>

definition member_tail :: "bool \<Rightarrow> string" where
  "member_tail fin = (if fin then [NL] else CHR '','' # [NL])"

lemma object_loop_member:
  assumes "parses_to val v"
  shows "object_loop m (esc_json k @ '': '' @ val @ member_tail False @ rest) = object_loop (AList.update k v m) rest"
    and "object_loop m (esc_json k @ '': '' @ val @ member_tail True @ rest) =
      (let r = skip_ws rest
       in if peek r = CHR '','' then object_loop (AList.update k v m) (tl r)
          else if peek r = CHR ''}'' then Some (JObject (AList.update k v m), tl r) else None)"
proof -
  have key: "object_key (esc_json k @ '': '' @ u) = Some (k, CHR '' '' # u)" for u
  proof -
    have "skip_ws (esc_json k @ '': '' @ u) = esc_json k @ '': '' @ u" "peek (esc_json k @ '': '' @ u) = DQ"
      by (simp_all add: esc_json_def is_ws_def char_consts)
    then show ?thesis
      using parse_string_esc [of k "'': '' @ u"] by (simp add: object_key_def is_ws_def char_consts)
  qed
  have nn: "\<not> is_num_char (CHR '','')" "\<not> is_num_char NL" by (simp_all add: is_num_char_def is_digit_def char_consts)
  have val: "parse_value (CHR '' '' # val @ member_tail fin @ rest) = Some (v, member_tail fin @ rest)" for fin
    using assms nn by (simp add: parse_value_ws ws_consts parses_to_def member_tail_def)
  have c: "\<not> is_ws (CHR '','')" by (simp add: is_ws_def char_consts)
  show "object_loop m (esc_json k @ '': '' @ val @ member_tail False @ rest) = object_loop (AList.update k v m) rest"
    unfolding object_loop.simps [of m "esc_json k @ _"] key val option.case prod.case Let_def
    by (simp add: member_tail_def c object_loop_ws ws_consts)
  show "object_loop m (esc_json k @ '': '' @ val @ member_tail True @ rest) =
      (let r = skip_ws rest
       in if peek r = CHR '','' then object_loop (AList.update k v m) (tl r)
          else if peek r = CHR ''}'' then Some (JObject (AList.update k v m), tl r) else None)"
    unfolding object_loop.simps [of m "esc_json k @ _"] key val option.case prod.case Let_def
    by (simp add: member_tail_def ws_consts)
qed

lemma object_loop_kv:
  assumes "parses_to val v"
  shows "object_loop m (write_kv k val False @ rest) = object_loop (AList.update k v m) rest"
    and "object_loop m (write_kv k val True @ CHR ''}'' # rest) = Some (JObject (AList.update k v m), rest)"
  using object_loop_member [OF assms, of m k] unfolding write_kv_def append_assoc member_tail_def [symmetric]
  by (simp_all add: object_loop_ws is_ws_def char_consts)

lemma object_loop_weight:
  assumes "parses_to (double_text x) v" and "esc_json k = DQ # k @ [DQ]"
  shows "object_loop m (write_weight k x False @ rest) = object_loop (AList.update k v m) rest"
    and "object_loop m (write_weight k x True @ ''    }'' @ rest) = Some (JObject (AList.update k v m), rest)"
proof -
  have w: "write_weight k x fin = ''        '' @ esc_json k @ '': '' @ double_text x @ member_tail fin" for fin
    by (simp add: write_weight_def member_tail_def assms(2))
  show "object_loop m (write_weight k x False @ rest) = object_loop (AList.update k v m) rest"
    and "object_loop m (write_weight k x True @ ''    }'' @ rest) = Some (JObject (AList.update k v m), rest)"
    using object_loop_member [OF assms(1), of m k] unfolding w append_assoc
    by (simp_all add: object_loop_ws is_ws_def char_consts)
qed

lemma weight_keys: "esc_json k = DQ # k @ [DQ]"
  if "k \<in> {''w_recency'', ''w_frequency'', ''w_randomness'', ''w_write_penalty''}"
  using that by (auto simp: esc_json_def esc_char_def char_consts)

text \<open>The number that is read for a printed value.\<close>

definition text_value :: "rat \<Rightarrow> rat" where
  "text_value x = (case stod (double_text x) of None \<Rightarrow> 0 | Some y \<Rightarrow> y)"

lemma parses_to_double:
  "decimal_double x \<Longrightarrow> parses_to (double_text x) (JNumber x)"
  "decimal_float x \<Longrightarrow> parses_to (double_text x) (JNumber (text_value x))" "decimal_float x \<Longrightarrow> f32 (text_value x) = x"
  by (auto simp: decimal_double_def decimal_float_def text_value_def stod_six_digit intro!: parses_to_number number_text_double)

definition decimal_weights :: "weight_set \<Rightarrow> bool" where
  "decimal_weights w \<longleftrightarrow>
     decimal_float (w_recency w) \<and> decimal_float (w_frequency w) \<and> decimal_float (w_randomness w) \<and> decimal_float (w_write_penalty w)"

definition weights_json :: "weight_set \<Rightarrow> json" where
  "weights_json w =
     JObject [(''w_recency'', JNumber (text_value (w_recency w))), (''w_frequency'', JNumber (text_value (w_frequency w))),
       (''w_randomness'', JNumber (text_value (w_randomness w))), (''w_write_penalty'', JNumber (text_value (w_write_penalty w)))]"

lemma parses_to_weights:
  assumes "decimal_weights w"
  shows "parses_to (weights_text w) (weights_json w)"
proof -
  note p = parses_to_double(2)
  have "parse_value (weights_text w @ t) = Some (weights_json w, t)" for t
  proof -
    have "parse_value (weights_text w @ t) = object_loop [] (NL # drop 2 (weights_text w) @ t)"
      by (simp add: parse_value.simps weights_text_def is_ws_def char_consts write_weight_def object_loop_ws ws_consts(2) [unfolded NL_def])
    also have "\<dots> = Some (weights_json w, t)"
      using assms unfolding weights_text_def decimal_weights_def
      by (simp add: object_loop_ws ws_consts object_loop_weight [OF p weight_keys] weights_json_def del: append.simps(2))
    finally show ?thesis .
  qed
  then show ?thesis by (simp add: parses_to_def)
qed

definition config_printable :: "btier_config \<Rightarrow> bool" where
  "config_printable cfg \<longleftrightarrow>
     extent_size cfg < 2 ^ 53 \<and> cfg_block_size cfg < 2 ^ 53 \<and> large_value_threshold cfg < 2 ^ 53 \<and>
     sequential_threshold cfg < 2 ^ 53 \<and> journal_size cfg < 2 ^ 53 \<and> scan_interval_ms cfg < 2 ^ 32 \<and>
     max_migrations_per_cycle cfg < 2 ^ 32 \<and> max_compactions_per_cycle cfg < 2 ^ 32 \<and> cool_interval_sec cfg < 2 ^ 32 \<and>
     decimal_weights (base_weights cfg) \<and> decimal_double (low_watermark cfg) \<and> decimal_double (high_watermark cfg) \<and>
     decimal_float (promote_threshold cfg) \<and> decimal_float (demote_threshold cfg) \<and>
     decimal_double (compaction_dead_ratio cfg) \<and> decimal_double (compaction_usage_ratio cfg)"

definition config_json :: "btier_config \<Rightarrow> json" where
  "config_json cfg =
     JObject
       [(''fast_dev_path'', JString (fast_dev_path cfg)), (''slow_dev_path'', JString (slow_dev_path cfg)),
        (''extent_size'', JNumber (of_nat (extent_size cfg))), (''block_size'', JNumber (of_nat (cfg_block_size cfg))),
        (''large_value_threshold'', JNumber (of_nat (large_value_threshold cfg))),
        (''base_weights'', weights_json (base_weights cfg)), (''low_watermark'', JNumber (low_watermark cfg)),
        (''high_watermark'', JNumber (high_watermark cfg)), (''scan_interval_ms'', JNumber (of_nat (scan_interval_ms cfg))),
        (''max_migrations_per_cycle'', JNumber (of_nat (max_migrations_per_cycle cfg))),
        (''max_compactions_per_cycle'', JNumber (of_nat (max_compactions_per_cycle cfg))),
        (''promote_threshold'', JNumber (text_value (promote_threshold cfg))),
        (''demote_threshold'', JNumber (text_value (demote_threshold cfg))),
        (''compaction_dead_ratio'', JNumber (compaction_dead_ratio cfg)),
        (''compaction_usage_ratio'', JNumber (compaction_usage_ratio cfg)),
        (''cool_interval_sec'', JNumber (of_nat (cool_interval_sec cfg))),
        (''sequential_threshold'', JNumber (of_nat (sequential_threshold cfg))),
        (''journal_size'', JNumber (of_nat (journal_size cfg)))]"

lemma object_loop_skip_ws: "object_loop m (skip_ws s) = object_loop m s"
proof -
  have "skip_ws (skip_ws s) = skip_ws s" by (simp add: skip_ws_def)
  then have "object_key (skip_ws s) = object_key s" by (simp add: object_key_def)
  then show ?thesis by (subst (1 2) object_loop.simps) simp
qed

lemma parse_object_start:
  assumes "peek (skip_ws s) = DQ"
  shows "parse_value (CHR ''{'' # NL # s) = object_loop [] s"
proof -
  have "\<not> is_ws (CHR ''{'')" "DQ \<noteq> CHR ''}''" by (simp_all add: is_ws_def char_consts)
  then show ?thesis using assms by (simp add: parse_value.simps object_loop_skip_ws ws_consts)
qed

lemma peek_kv: "peek (skip_ws (write_kv k val fin @ r)) = DQ" "peek (skip_ws (write_weight j x fin @ r)) = DQ"
  by (simp_all add: write_kv_def write_weight_def esc_json_def is_ws_def char_consts)

lemma json_parse_config:
  assumes "config_printable cfg"
  shows "json_parse (config_text cfg) = Some (config_json cfg)"
proof -
  have n: "scan_interval_ms cfg < 2 ^ 53" "max_migrations_per_cycle cfg < 2 ^ 53" "max_compactions_per_cycle cfg < 2 ^ 53"
    "cool_interval_sec cfg < 2 ^ 53"
    using assms by (auto simp: config_printable_def)
  have "json_parse (config_text cfg) = map_option fst (parse_value (config_text cfg))"
    by (simp add: json_parse_def config_text_def is_ws_def char_consts)
  also have "\<dots> = map_option fst (object_loop [] (drop 2 (config_text cfg)))"
    unfolding config_text_def by (subst parse_object_start) (simp_all only: peek_kv append.simps drop_Suc_Cons numeral_2_eq_2 drop_0)
  also have "object_loop [] (drop 2 (config_text cfg)) = Some (config_json cfg, [NL])"
    using assms n unfolding config_text_def config_printable_def
    by (simp add: object_loop_kv [OF parses_to_string] object_loop_kv [OF parses_to_nat] object_loop_kv [OF parses_to_weights]
        object_loop_kv [OF parses_to_double(1)] object_loop_kv [OF parses_to_double(2)] config_json_def
        del: append.simps(2))
  finally show ?thesis by simp
qed

lemma to_unsigned_nat: "n < 2 ^ w \<Longrightarrow> to_unsigned w (of_nat n) = Some n"
  by (simp add: to_unsigned_def)

lemma json_get_field:
  "json_get k (JObject m) = map_of m k"
  by (simp add: json_get_def)

lemma field_simps_json:
  "json_get k obj = Some (JNumber (of_nat n)) \<Longrightarrow> n < 2 ^ w \<Longrightarrow> unsigned_field w k obj d = Some n"
  "json_get k obj = Some (JString s) \<Longrightarrow> string_field k obj d0 = s"
  "json_get k obj = Some (JNumber x) \<Longrightarrow> double_field k obj x0 = x"
  "json_get k obj = Some (JNumber (text_value x)) \<Longrightarrow> decimal_float x \<Longrightarrow> float_field k obj x0 = x"
  by (simp_all add: unsigned_field_def string_field_def double_field_def float_field_def as_number_def as_string_def
      to_unsigned_nat parses_to_double(3))

lemma weights_field_json:
  assumes "json_get ''base_weights'' obj = Some (weights_json w)" and "decimal_weights w"
  shows "weights_field obj w0 = w"
  using assms by (simp add: weights_field_def weights_json_def is_object_def json_get_field field_simps_json decimal_weights_def)

lemma config_of_json_config:
  assumes "config_printable cfg"
  shows "config_of_json (config_json cfg) d = Some cfg"
proof -
  have b: "n < 2 ^ 64" if "n < 2 ^ 53" for n :: nat using that by simp
  show ?thesis
    using assms b unfolding config_printable_def config_json_def config_of_json_def
    by (simp add: json_get_field field_simps_json weights_field_json)
qed

section \<open>Consumption of the text\<close>

lemma skip_ws_suffix: "\<exists>p. s = p @ skip_ws s"
  unfolding skip_ws_def by (metis takeWhile_dropWhile_id)

text \<open>\<open>r\<close> is what remains of \<open>s\<close> after at least one character.\<close>

definition consumed :: "string \<Rightarrow> string \<Rightarrow> bool" where
  "consumed s r \<longleftrightarrow> (\<exists>p. s = p @ r \<and> p \<noteq> [])"

lemma consumedI: "s = p @ r \<Longrightarrow> p \<noteq> [] \<Longrightarrow> consumed s r"
  by (auto simp: consumed_def)

lemma consumed_trans: "consumed s t \<Longrightarrow> consumed t r \<Longrightarrow> consumed s r"
  by (auto simp: consumed_def)

lemma consumed_skip: "consumed (skip_ws s) r \<Longrightarrow> consumed s r"
  using skip_ws_suffix [of s] by (metis append.assoc append_is_Nil_conv consumed_def)

lemma consumed_skip_tl: "consumed s r \<Longrightarrow> consumed s (tl (skip_ws r))"
proof -
  assume c: "consumed s r"
  obtain p where p: "r = p @ skip_ws r" using skip_ws_suffix by blast
  have "\<exists>q. skip_ws r = q @ tl (skip_ws r)" by (cases "skip_ws r") (auto intro: exI [of _ "[_]"])
  then obtain q where "r = p @ q @ tl (skip_ws r)" using p by metis
  with c show ?thesis by (metis append.assoc append_is_Nil_conv consumed_def)
qed

lemma consumed_cons: "consumed (c # s) s"
  by (simp add: consumed_def)

lemma string_loop_consumed: "string_loop acc s = Some (v, r) \<Longrightarrow> consumed s r"
proof (induction acc s rule: string_loop.induct)
  case (2 acc c s)
  show ?case
  proof (cases "c = BSL \<and> s \<noteq> []")
    case True
    then obtain e s1 where s: "s = e # s1" by (cases s) auto
    have "consumed s1 r" using 2 True s by (auto split: if_splits simp: char_consts)
    then show ?thesis using consumed_trans [OF consumed_trans [OF consumed_cons consumed_cons]] by (simp add: s)
  next
    case False
    then show ?thesis
      using 2 consumed_cons [of c s] consumed_trans [OF consumed_cons [of c s]] by (auto split: if_splits list.splits)
  qed
qed simp

lemma parse_string_consumed: "parse_string s = Some (v, r) \<Longrightarrow> consumed s r"
  using string_loop_consumed [of "[]" "tl s"] consumed_trans [OF consumed_cons] unfolding parse_string_def
  by (cases s) auto

lemma object_key_consumed: "object_key s = Some (k, t) \<Longrightarrow> consumed s t"
  by (auto simp: object_key_def Let_def split: if_splits option.splits
      intro!: consumed_skip [of s] consumed_skip_tl dest: parse_string_consumed)

lemma consumed_drop: "take n s = x \<Longrightarrow> x \<noteq> [] \<Longrightarrow> consumed s (drop n s)"
  using append_take_drop_id [of n s] by (metis consumedI)

lemma parse_atom_consumed:
  "parse_bool s = Some (v, r) \<Longrightarrow> consumed s r" "parse_null s = Some (v, r) \<Longrightarrow> consumed s r"
  "parse_number s = Some (v, r) \<Longrightarrow> consumed s r"
proof -
  show "parse_bool s = Some (v, r) \<Longrightarrow> consumed s r" "parse_null s = Some (v, r) \<Longrightarrow> consumed s r"
    by (auto simp: parse_bool_def parse_null_def split: if_splits intro: consumed_drop)
  show "parse_number s = Some (v, r) \<Longrightarrow> consumed s r"
    by (auto simp: parse_number_def Let_def split: if_splits option.splits
        intro: consumedI [of _ "takeWhile is_num_char s"])
qed

lemma parse_consumed:
  "parse_value s = Some (v, r) \<Longrightarrow> consumed s r"
  "object_loop m s = Some (v, r) \<Longrightarrow> consumed s r"
  "array_loop vs s = Some (v, r) \<Longrightarrow> consumed s r"
proof (induction s and m s and vs s arbitrary: v r and v r and v r rule: parse_value_object_loop_array_loop.induct)
  case (1 s0)
  define s t where "s = skip_ws s0" and "t = skip_ws (tl s)"
  have ne: "s \<noteq> []" using 1(3) by (auto simp: parse_value.simps s_def)
  then obtain c u where s: "s = c # u" by (cases s) auto
  have tt: "consumed s (tl t)" using consumed_skip_tl [OF consumed_cons [of c u]] by (simp add: s t_def)
  have rest: "consumed s r" if "consumed t r"
    using consumed_trans [OF consumed_cons [of c u] consumed_skip] that by (simp add: s t_def)
  have obj: "consumed s r" if "object_loop [] t = Some (v, r)" "peek s = CHR ''{''" "peek t \<noteq> CHR ''}''"
    using rest 1(1) [OF s_def refl ne that(2) t_def that(3,1)] by blast
  have arr: "consumed s r"
    if "array_loop [] t = Some (v, r)" "peek s \<noteq> CHR ''{''" "peek s = CHR ''[''" "peek t \<noteq> CHR '']''"
    using rest 1(2) [OF s_def refl ne that(2,3) t_def that(4,1)] by blast
  have "consumed s r"
    using 1(3) ne tt obj arr parse_atom_consumed [of s v r] parse_string_consumed [of s _ r]
    unfolding parse_value.simps [of s0] Let_def s_def [symmetric] t_def [symmetric]
    by (auto split: if_splits)
  then show ?case using consumed_skip by (simp add: s_def)
next
  case (2 m s)
  from 2(3) obtain k t w u where k: "object_key s = Some (k, t)" and p: "parse_value t = Some (w, u)"
    and rest: "(peek (skip_ws u) = CHR '','' \<and> object_loop (AList.update k w m) (tl (skip_ws u)) = Some (v, r)) \<or> r = tl (skip_ws u)"
    by (auto simp: object_loop.simps [of m s] Let_def split: option.splits if_splits)
  have u: "consumed s (tl (skip_ws u))"
    using 2(1) [OF k refl p] object_key_consumed [OF k] consumed_trans consumed_skip_tl by blast
  from rest show ?case using u 2(2) [OF k refl p refl refl refl] consumed_trans by blast
next
  case (3 vs s)
  from 3(3) obtain w u where p: "parse_value s = Some (w, u)"
    and rest: "(peek (skip_ws u) = CHR '','' \<and> array_loop (vs @ [w]) (tl (skip_ws u)) = Some (v, r)) \<or> r = tl (skip_ws u)"
    by (auto simp: array_loop.simps [of vs s] Let_def split: option.splits if_splits)
  have u: "consumed s (tl (skip_ws u))" using 3(1) [OF p] consumed_skip_tl by blast
  from rest show ?case using u 3(2) [OF p refl refl refl] consumed_trans by blast
qed

section \<open>Properties\<close>

text \<open>
  C29: a configuration that is saved and loaded again is the same configuration, whatever characters
  its paths contain, if its 64-bit numbers are below 2^53 (every number of the file passes through a
  double) and its weights, thresholds, watermarks and ratios are the floats or doubles nearest to zero
  or to decimal numbers of at most six significant digits between 0.0001 and 999999 (the writer prints
  six digits). A value that needs more than six digits is changed by saving and loading.
\<close>

theorem config_round_trip:
  assumes "config_printable cfg"
  shows "\<exists>text. config_save 0 True cfg = (0, Some text) \<and> config_load (Some text) = Some cfg"
  using json_parse_config [OF assms] config_of_json_config [OF assms]
  by (simp add: config_save_def config_load_def is_object_def config_json_def)

text \<open>The default configuration has two-digit fractions.\<close>

lemma six_digit_hundredths: "1 \<le> n \<Longrightarrow> n < 100 \<Longrightarrow> six_digit (of_int n / 100)"
proof -
  assume n: "1 \<le> n" "n < 100"
  have "10 ^ 5 \<le> (if n < 10 then n * 10 ^ 5 else n * 10 ^ 4)" "(if n < 10 then n * 10 ^ 5 else n * 10 ^ 4) < 10 ^ 6"
    using n by auto
  moreover have "of_int n / 100 = (of_int (if n < 10 then n * 10 ^ 5 else n * 10 ^ 4) :: rat) / 10 ^ (if n < 10 then 7 else 6)"
    by simp
  moreover have "(if n < 10 then 7 else 6) \<le> (9 :: nat)" by simp
  ultimately show ?thesis unfolding six_digit_def by blast
qed

lemma decimal_hundredths:
  assumes "1 \<le> n" and "n < 100"
  shows "decimal_double (f64 (of_int n / 100))" and "f32 (f64 (of_int n / 100)) = y \<Longrightarrow> decimal_float y"
  using six_digit_hundredths [OF assms] by (auto simp: decimal_double_def decimal_float_def)

lemma default_printable: "config_printable default_config"
proof -
  have "decimal_float (f32 (35 / 100))" by (rule decimal_hundredths(2) [of 35]) code_simp+
  moreover have "decimal_float (f32 (30 / 100))" by (rule decimal_hundredths(2) [of 30]) code_simp+
  moreover have "decimal_float (f32 (25 / 100))" by (rule decimal_hundredths(2) [of 25]) code_simp+
  moreover have "decimal_float (f32 (10 / 100))" by (rule decimal_hundredths(2) [of 10]) code_simp+
  moreover have "decimal_float (f32 (7 / 10))" by (rule decimal_hundredths(2) [of 70]) code_simp+
  moreover have "decimal_float (f32 (3 / 10))" by (rule decimal_hundredths(2) [of 30]) code_simp+
  moreover have "decimal_double (f64 (30 / 100))" using decimal_hundredths(1) [of 30] by simp
  moreover have "decimal_double (f64 (80 / 100))" using decimal_hundredths(1) [of 80] by simp
  moreover have "decimal_double (f64 (50 / 100))" using decimal_hundredths(1) [of 50] by simp
  ultimately show ?thesis
    by (simp add: config_printable_def default_config_def decimal_weights_def default_weights_def)
qed

theorem config_round_trip_witness:
  "\<exists>text. config_save 0 True (default_config\<lparr>fast_dev_path := [DQ, NL, CHR ''x'']\<rparr>) = (0, Some text) \<and>
     config_load (Some text) = Some (default_config\<lparr>fast_dev_path := [DQ, NL, CHR ''x'']\<rparr>)"
  using default_printable by (intro config_round_trip) (simp add: config_printable_def)

text \<open>
  The JSON parser ends on every text; what it returns for a value is that value with the rest of
  the text, and every value, each member of an object and each element of an array has consumed at
  least one character.
\<close>

theorem json_parser_consumes:
  "(parse_value s = None \<or> (\<exists>v p r. parse_value s = Some (v, r) \<and> s = p @ r \<and> p \<noteq> [])) \<and>
   (object_loop m s = None \<or> (\<exists>v p r. object_loop m s = Some (v, r) \<and> s = p @ r \<and> p \<noteq> [])) \<and>
   (array_loop vs s = None \<or> (\<exists>v p r. array_loop vs s = Some (v, r) \<and> s = p @ r \<and> p \<noteq> []))"
  using parse_consumed [unfolded consumed_def]
  by (metis option.exhaust surj_pair)

end
