(* ===== verification/Scoring.thy ===== *)
theory Scoring
  imports Extent_Map Btier_Config
begin

text \<open>
  \<^verbatim>\<open>btier/scoring_engine.cc\<close>: the heat score of an extent and the adaptation of the weights to the usage of
  the FAST tier, with every \<open>float\<close> and \<open>double\<close> operation rounded as in \<open>Float_Rounding\<close>.
\<close>

section \<open>Model\<close>

definition clamp01 :: "rat \<Rightarrow> rat" where
  "clamp01 x = (if x < 0 then 0 else if 1 < x then 1 else x)"

definition norm_recency :: "btier_config \<Rightarrow> u32 \<Rightarrow> u32 \<Rightarrow> rat" where
  "norm_recency cfg la now =
     (if cool_interval_sec cfg > 0
      then clamp01 (f32 (1 - f32 (f32 (of_nat (sub32 now la)) / f32 (of_nat (cool_interval_sec cfg))))) else 0)"

definition raw_score :: "btier_config \<Rightarrow> weight_set \<Rightarrow> metrics \<Rightarrow> u32 \<Rightarrow> u32 \<Rightarrow> rat" where
  "raw_score cfg w raw la now =
     (let norm_frequency = f32 (f32 (of_nat (unat (access_count raw))) / 4095);
          norm_randomness = f32 (f32 (of_nat (unat (randomness raw))) / 63);
          norm_write_penalty = f32 (f32 (of_nat (unat (write_count raw))) / 4095)
      in f32 (f32 (f32 (f32 (w_recency w * norm_recency cfg la now) + f32 (w_frequency w * norm_frequency)) +
                   f32 (w_randomness w * norm_randomness)) -
              f32 (w_write_penalty w * norm_write_penalty)))"

definition score :: "btier_config \<Rightarrow> weight_set \<Rightarrow> metrics \<Rightarrow> u32 \<Rightarrow> u32 \<Rightarrow> rat" where
  "score cfg w raw la now = clamp01 (raw_score cfg w raw la now)"

definition adapt_weights :: "btier_config \<Rightarrow> rat \<Rightarrow> weight_set" where
  "adapt_weights cfg wm =
     (let w = base_weights cfg
      in if wm > high_watermark cfg
         then
           let pressure = f32 (f64 (f64 (wm - high_watermark cfg) / f64 (1 - high_watermark cfg)))
           in w\<lparr>w_write_penalty := f32 (w_write_penalty w * f32 (1 + f32 (pressure * 2))),
                w_randomness := f32 (w_randomness w * f32 (1 + f32 (pressure * f32 (15 / 10)))),
                w_recency := f32 (w_recency w * f32 (1 - f32 (pressure * f32 (5 / 10))))\<rparr>
         else if wm < low_watermark cfg
         then w\<lparr>w_recency := f32 (w_recency w * f32 (12 / 10)), w_frequency := f32 (w_frequency w * f32 (11 / 10))\<rparr>
         else w)"

text \<open>\<open>ExtentMap::fast_watermark\<close>.\<close>

definition fast_watermark :: "tiers \<Rightarrow> rat" where
  "fast_watermark ts =
     (case fast_alloc ts of
        None \<Rightarrow> 1
      | Some a \<Rightarrow>
          if device_size a = 0 then 1
          else f64 (1 - f64 (f64 (of_nat (avl_get_free a)) / f64 (of_nat (device_size a)))))"

section \<open>Bounds and monotonicity\<close>

lemma clamp01_bounds: "0 \<le> clamp01 x \<and> clamp01 x \<le> 1"
  by (simp add: clamp01_def)

lemma clamp01_mono: "x \<le> y \<Longrightarrow> clamp01 x \<le> clamp01 y"
  by (auto simp: clamp01_def)

text \<open>
  Weights between 0 and a bound. With base weights up to \<open>2 ^ 100\<close> the adapted ones are at most \<open>2 ^ 102\<close>, and no
  intermediate result of the score exceeds \<open>2 ^ 104\<close>: far below the \<open>2 ^ 128\<close> at which a \<open>float\<close> overflows.
\<close>

definition weights_within :: "rat \<Rightarrow> weight_set \<Rightarrow> bool" where
  "weights_within B w \<longleftrightarrow> w_recency w \<in> {0..B} \<and> w_frequency w \<in> {0..B} \<and> w_randomness w \<in> {0..B} \<and> w_write_penalty w \<in> {0..B}"

lemma f32_two_power: "f32 (2 ^ k) = 2 ^ k"
  unfolding f32_def by (rule round_sig_exact [of _ 1 "int k"]) (simp_all add: power_int_add)

lemma f32_within: "x \<in> {0..2 ^ k} \<Longrightarrow> f32 x \<in> {0..2 ^ k}"
  using f32_mono [of x "2 ^ k"] f32_two_power [of k] f32_nonneg [of x] by simp

lemma f32_times_within:
  assumes "x \<in> {0..2 ^ m}" and "y \<in> {0..2 ^ n}"
  shows "f32 (x * y) \<in> {0..2 ^ (m + n)}"
proof (rule f32_within)
  have "x * y \<le> 2 ^ m * 2 ^ n" using assms by (intro mult_mono) simp_all
  then show "x * y \<in> {0..2 ^ (m + n)}" using assms by (simp add: power_add)
qed

lemma metric_bounds: "unat (access_count v) \<le> 4095" "unat (write_count v) \<le> 4095" "unat (randomness v) \<le> 63"
proof -
  have a: "unat (x AND 0xFFF) \<le> 4095" "unat (x AND 0x3F) \<le> 63" for x :: "64 word"
    using word_and_le1 [of x "0xFFF"] word_and_le1 [of x "0x3F"] by (simp_all add: word_le_nat_alt)
  have u: "unat (ucast x :: 32 word) \<le> unat x" for x :: "64 word" by (simp add: unsigned_ucast_eq)
  show "unat (access_count v) \<le> 4095" "unat (write_count v) \<le> 4095" "unat (randomness v) \<le> 63"
    unfolding access_count_def write_count_def randomness_def using a u order_trans by blast+
qed

lemma f32_ratio_within: "n \<le> m \<Longrightarrow> m < 2 ^ 24 \<Longrightarrow> f32 (f32 (of_nat n) / of_nat m) \<in> {0..2 ^ 0}"
  by (rule f32_within) (cases "m = 0"; simp add: f32_nat divide_le_eq_1)

text \<open>No intermediate result of the score overflows.\<close>

lemma score_in_range:
  assumes "weights_within (2 ^ 102) w"
  shows "raw_score cfg w raw la now \<in> {- (2 ^ 104)..2 ^ 104}"
    and "f32 (w_recency w * norm_recency cfg la now) \<in> {0..2 ^ 102}"
    and "f32 (w_frequency w * f32 (f32 (of_nat (unat (access_count raw))) / 4095)) \<in> {0..2 ^ 102}"
    and "f32 (w_randomness w * f32 (f32 (of_nat (unat (randomness raw))) / 63)) \<in> {0..2 ^ 102}"
    and "f32 (w_write_penalty w * f32 (f32 (of_nat (unat (write_count raw))) / 4095)) \<in> {0..2 ^ 102}"
proof -
  have nr: "norm_recency cfg la now \<in> {0..2 ^ 0}" using clamp01_bounds by (simp add: norm_recency_def)
  have n: "f32 (f32 (of_nat (unat (access_count raw))) / 4095) \<in> {0..2 ^ 0}" "f32 (f32 (of_nat (unat (write_count raw))) / 4095) \<in> {0..2 ^ 0}"
    "f32 (f32 (of_nat (unat (randomness raw))) / 63) \<in> {0..2 ^ 0}"
    using f32_ratio_within [OF metric_bounds(1), of raw] f32_ratio_within [OF metric_bounds(2), of raw] f32_ratio_within [OF metric_bounds(3), of raw] by simp_all
  have times: "f32 (x * y) \<in> {0..2 ^ 102}" if "x \<in> {0..2 ^ 102}" "y \<in> {0..2 ^ 0}" for x y
    using f32_times_within [OF that] by simp
  have w: "w_recency w \<in> {0..2 ^ 102}" "w_frequency w \<in> {0..2 ^ 102}" "w_randomness w \<in> {0..2 ^ 102}" "w_write_penalty w \<in> {0..2 ^ 102}"
    using assms unfolding weights_within_def by blast+
  show p: "f32 (w_recency w * norm_recency cfg la now) \<in> {0..2 ^ 102}"
    "f32 (w_frequency w * f32 (f32 (of_nat (unat (access_count raw))) / 4095)) \<in> {0..2 ^ 102}"
    "f32 (w_randomness w * f32 (f32 (of_nat (unat (randomness raw))) / 63)) \<in> {0..2 ^ 102}"
    "f32 (w_write_penalty w * f32 (f32 (of_nat (unat (write_count raw))) / 4095)) \<in> {0..2 ^ 102}"
    by (rule times [OF w(1) nr] times [OF w(2) n(1)] times [OF w(3) n(3)] times [OF w(4) n(2)])+
  have add: "f32 (x + y) \<in> {0..2 ^ Suc m}" if "x \<in> {0..2 ^ m}" "y \<in> {0..2 ^ m}" for x y m
    using that by (intro f32_within) simp
  define a b c d where "a = f32 (w_recency w * norm_recency cfg la now)" and "b = f32 (w_frequency w * f32 (f32 (of_nat (unat (access_count raw))) / 4095))"
    and "c = f32 (w_randomness w * f32 (f32 (of_nat (unat (randomness raw))) / 63))" and "d = f32 (w_write_penalty w * f32 (f32 (of_nat (unat (write_count raw))) / 4095))"
  have ab: "f32 (a + b) \<in> {0..2 ^ 103}" using add [of a 102 b] p(1,2) by (simp add: a_def b_def)
  have "c \<in> {0..2 ^ 103}" using p(3) by (simp add: c_def)
  then have abc: "f32 (f32 (a + b) + c) \<in> {0..2 ^ 104}" using add [OF ab] by simp
  then have "f32 (f32 (a + b) + c) - d \<in> {- (2 ^ 104)..2 ^ 104}" using p(4) by (simp add: d_def)
  then have "f32 (f32 (f32 (a + b) + c) - d) \<in> {f32 (- (2 ^ 104))..f32 (2 ^ 104)}" using f32_mono by auto
  moreover have "f32 (- (2 ^ 104)) = - (2 ^ 104)" using f32_two_power [of 104] by (simp add: f32_def)
  ultimately show "raw_score cfg w raw la now \<in> {- (2 ^ 104)..2 ^ 104}"
    using f32_two_power [of 104] by (simp add: raw_score_def a_def b_def c_def d_def Let_def)
qed

lemma norm_recency_mono: "sub32 now la' \<le> sub32 now la \<Longrightarrow> norm_recency cfg la now \<le> norm_recency cfg la' now"
  by (auto simp: norm_recency_def intro!: clamp01_mono f32_mono f32_nonneg divide_right_mono)

lemma fast_watermark_bounds:
  assumes "fast_alloc ts = Some a" and "avl_inv a"
  shows "0 \<le> fast_watermark ts \<and> fast_watermark ts \<le> 1"
proof -
  have "avl_free a \<subseteq> {..<device_size a}" using avl_free_less [OF assms(2)] by auto
  then have "card (avl_free a) \<le> device_size a" using card_mono [of "{..<device_size a}"] by simp
  then have "(of_nat (avl_get_free a) :: rat) \<le> of_nat (device_size a)"
    using num_free_card [OF assms(2)] by (simp add: avl_get_free_def)
  moreover have "0 < device_size a" using assms(2) by (simp add: avl_inv_def)
  ultimately have "0 \<le> f64 (f64 (of_nat (avl_get_free a)) / f64 (of_nat (device_size a)))"
    "f64 (f64 (of_nat (avl_get_free a)) / f64 (of_nat (device_size a))) \<le> 1"
    using f64_ratio [of "of_nat (avl_get_free a)" "of_nat (device_size a)"] by simp_all
  then show ?thesis using assms(1) by (auto simp: fast_watermark_def intro!: f64_nonneg f64_le_1)
qed

lemma pressure_bounds:
  assumes "hi < wm" and "wm \<le> 1"
  shows "0 \<le> f32 (f64 (f64 (wm - hi) / f64 (1 - hi)))" and "f32 (f64 (f64 (wm - hi) / f64 (1 - hi))) \<le> 1"
  using f64_ratio [of "wm - hi" "1 - hi"] assms by (simp_all add: f32_nonneg f32_le_1)

lemma adapt_weights_within:
  assumes "weights_within (2 ^ 100) (base_weights cfg)" and "wm \<le> 1"
  shows "weights_within (2 ^ 102) (adapt_weights cfg wm)"
proof -
  define w where "w = base_weights cfg"
  have w: "weights_within (2 ^ 100) w" using assms(1) by (simp add: w_def)
  have up: "x \<in> {0..2 ^ 102}" if "x \<in> {0..2 ^ 100}" for x :: rat using that by simp
  have k: "f32 (5 / 10) \<in> {0..2 ^ 0}" "f32 (15 / 10) \<in> {0..2 ^ 1}" "f32 (12 / 10) \<in> {0..2 ^ 1}" "f32 (11 / 10) \<in> {0..2 ^ 1}"
    by (rule f32_within, simp)+
  have times: "f32 (x * y) \<in> {0..2 ^ 102}" if "x \<in> {0..2 ^ 100}" "y \<in> {0..2 ^ n}" "n \<le> 2" for x y n
    using f32_times_within [OF that(1,2)] power_increasing [of "100 + n" 102 "2 :: rat"] that(3) by auto
  show ?thesis
  proof (cases "wm > high_watermark cfg")
    case True
    define p where "p = f32 (f64 (f64 (wm - high_watermark cfg) / f64 (1 - high_watermark cfg)))"
    have p: "p \<in> {0..2 ^ 0}" using pressure_bounds [OF True assms(2)] by (simp add: p_def)
    have "f32 (p * 2) \<in> {0..2 ^ 1}" "f32 (p * f32 (15 / 10)) \<in> {0..2 ^ 1}" "f32 (p * f32 (5 / 10)) \<in> {0..2 ^ 0}"
      using f32_times_within [OF p, of 2 1] f32_times_within [OF p k(2)] f32_times_within [OF p k(1)] by simp_all
    then have "f32 (1 + f32 (p * 2)) \<in> {0..2 ^ 2}" "f32 (1 + f32 (p * f32 (15 / 10))) \<in> {0..2 ^ 2}" "f32 (1 - f32 (p * f32 (5 / 10))) \<in> {0..2 ^ 0}"
      by (intro f32_within; simp)+
    with w True show ?thesis
      unfolding adapt_weights_def p_def [symmetric] w_def [symmetric] weights_within_def
      using times [of _ _ 2] times [of _ _ 0] up by (simp add: Let_def)
  next
    case False
    with w show ?thesis
      unfolding adapt_weights_def w_def [symmetric] weights_within_def using times [OF _ k(3)] times [OF _ k(4)] up by (simp add: Let_def)
  qed
qed

section \<open>Properties\<close>

text \<open>
  C30: the heat score. With the weights that \<open>adapt_weights\<close> derives from base weights between 0 and \<open>2 ^ 100\<close> for
  any usage of the FAST tier, no operation overflows and the score of an extent lies between 0 and 1; it does not fall when the
  extent was accessed more recently, more often or at more random places, and it does not rise when
  it was written more often. In particular a larger weight for randomness, which \<open>adapt_weights\<close> sets under pressure, keeps
  random extents on FAST, although its comment says that it speeds up their demotion.
\<close>

theorem score_monotone:
  assumes "weights_within (2 ^ 100) (base_weights cfg)" and "fast_alloc ts = Some a" and "avl_inv a"
    and "sub32 now la' \<le> sub32 now la" and "access_count raw \<le> access_count raw'"
    and "randomness raw \<le> randomness raw'" and "write_count raw' \<le> write_count raw"
  shows "\<bar>raw_score cfg (adapt_weights cfg (fast_watermark ts)) raw la now\<bar> \<le> 2 ^ 104 \<and>
    0 \<le> score cfg (adapt_weights cfg (fast_watermark ts)) raw la now \<and>
    score cfg (adapt_weights cfg (fast_watermark ts)) raw la now \<le> score cfg (adapt_weights cfg (fast_watermark ts)) raw' la' now \<and>
    score cfg (adapt_weights cfg (fast_watermark ts)) raw' la' now \<le> 1"
proof -
  define w where "w = adapt_weights cfg (fast_watermark ts)"
  have w: "weights_within (2 ^ 102) w"
    unfolding w_def using fast_watermark_bounds [OF assms(2,3)] by (intro adapt_weights_within assms(1)) simp
  then have nn: "0 \<le> w_recency w" "0 \<le> w_frequency w" "0 \<le> w_randomness w" "0 \<le> w_write_penalty w" by (simp_all add: weights_within_def)
  have le: "(of_nat (unat x) :: rat) \<le> of_nat (unat y)" if "x \<le> y" for x y :: "32 word"
    by (rule of_nat_mono) (use that in \<open>simp add: word_le_nat_alt\<close>)
  have "raw_score cfg w raw la now \<le> raw_score cfg w raw' la' now"
    unfolding raw_score_def Let_def using nn le [OF assms(5)] le [OF assms(6)] le [OF assms(7)] norm_recency_mono [OF assms(4), of cfg]
    by (intro f32_mono add_mono diff_mono mult_left_mono divide_right_mono) auto
  then have "score cfg w raw la now \<le> score cfg w raw' la' now" by (simp add: score_def clamp01_mono)
  moreover have "0 \<le> score cfg w raw la now" "score cfg w raw' la' now \<le> 1"
    using clamp01_bounds by (simp_all add: score_def)
  moreover have "\<bar>raw_score cfg w raw la now\<bar> \<le> 2 ^ 104" using score_in_range(1) [OF w, of cfg raw la now] by auto
  ultimately show ?thesis by (simp add: w_def)
qed

theorem score_monotone_witness:
  "score default_config (adapt_weights default_config (fast_watermark
       \<lparr>fast_alloc = Some avl_sample, slow_alloc = None, fast_dev = None, slow_dev = None\<rparr>)) (pack 1 1 0 0 0) 0 100 \<le>
   score default_config (adapt_weights default_config (fast_watermark
       \<lparr>fast_alloc = Some avl_sample, slow_alloc = None, fast_dev = None, slow_dev = None\<rparr>)) (pack 2 1 0 0 0) 50 100"
proof -
  have a: "access_count (pack 1 1 0 0 0) \<le> access_count (pack 2 1 0 0 0)"
    "randomness (pack 1 1 0 0 0) \<le> randomness (pack 2 1 0 0 0)" "write_count (pack 2 1 0 0 0) \<le> write_count (pack 1 1 0 0 0)"
    by (simp_all add: pack_fields)
  have s: "sub32 100 50 \<le> sub32 100 0" by (simp add: sub32_def)
  have "f32 (35 / 100) \<in> {0..2 ^ 0}" "f32 (30 / 100) \<in> {0..2 ^ 0}" "f32 (25 / 100) \<in> {0..2 ^ 0}" "f32 (10 / 100) \<in> {0..2 ^ 0}"
    by (rule f32_within, simp)+
  then have w: "weights_within (2 ^ 100) (base_weights default_config)"
    by (simp add: weights_within_def default_config_def default_weights_def)
  show ?thesis
    by (rule score_monotone [OF w _ avl_sample_inv s a, THEN conjunct2, THEN conjunct2, THEN conjunct1]) simp
qed

end
