(* ===== verification/Migration_Engine.thy ===== *)
theory Migration_Engine
  imports Engine_Refinement Scoring
begin

text \<open>
  \<^verbatim>\<open>btier/migration_engine.cc\<close> and the maintenance calls of \<^verbatim>\<open>btier/btier.cc\<close>: moving an extent to the other
  tier, compacting an extent, and the cycle of the background thread that scores all extents and
  queues the work. The definitions run a whole operation without another thread in between; the
  protocol of the migration handles under interference is the subject of the last section. The
  observer only logs.

  \<open>None\<close> is an abort of the process, as in the engine.
\<close>

section \<open>State\<close>

datatype task_type = TIER_MIGRATE | COMPACT

record migration_task =
  mt_type :: task_type
  mt_extent_id :: u64
  mt_from :: tier
  mt_to :: tier
  mt_score :: rat

datatype migration_result = COMMITTED | INTERRUPTED | FAILED

record migration_stats =
  promotions_committed :: u64
  demotions_committed :: u64
  compactions_committed :: u64
  interruptions :: u64
  io_errors :: u64

definition no_migration_stats :: migration_stats where
  "no_migration_stats =
     \<lparr>promotions_committed = 0, demotions_committed = 0, compactions_committed = 0, interruptions = 0, io_errors = 0\<rparr>"

text \<open>
  The migration engine points to the extent map, the key index and the devices of the engine, and to
  the scoring engine, of which it needs the active weights.
\<close>

record migrator =
  mg_engine :: engine
  mg_weights :: weight_set
  mg_queue :: "migration_task list"
  mg_stats :: migration_stats

definition mg_em_update :: "(extent_map \<Rightarrow> extent_map) \<Rightarrow> migrator \<Rightarrow> migrator" where
  "mg_em_update f g = g\<lparr>mg_engine := (mg_engine g)\<lparr>eng_em := f (eng_em (mg_engine g))\<rparr>\<rparr>"

definition mg_tiers_update :: "(tiers \<Rightarrow> tiers) \<Rightarrow> migrator \<Rightarrow> migrator" where
  "mg_tiers_update f g = g\<lparr>mg_engine := (mg_engine g)\<lparr>eng_tiers := f (eng_tiers (mg_engine g))\<rparr>\<rparr>"

abbreviation mg_em :: "migrator \<Rightarrow> extent_map" where "mg_em g \<equiv> eng_em (mg_engine g)"
abbreviation mg_tiers :: "migrator \<Rightarrow> tiers" where "mg_tiers g \<equiv> eng_tiers (mg_engine g)"
abbreviation mg_km :: "migrator \<Rightarrow> key_map" where "mg_km g \<equiv> eng_km (mg_engine g)"

text \<open>The counters.\<close>

definition count_io_error :: "migrator \<Rightarrow> migrator" where
  "count_io_error g = g\<lparr>mg_stats := (mg_stats g)\<lparr>io_errors := add64 (io_errors (mg_stats g)) 1\<rparr>\<rparr>"

definition count_interruption :: "migrator \<Rightarrow> migrator" where
  "count_interruption g = g\<lparr>mg_stats := (mg_stats g)\<lparr>interruptions := add64 (interruptions (mg_stats g)) 1\<rparr>\<rparr>"

definition count_compaction :: "migrator \<Rightarrow> migrator" where
  "count_compaction g =
     g\<lparr>mg_stats := (mg_stats g)\<lparr>compactions_committed := add64 (compactions_committed (mg_stats g)) 1\<rparr>\<rparr>"

definition count_move :: "tier \<Rightarrow> tier \<Rightarrow> migrator \<Rightarrow> migrator" where
  "count_move src dst g =
     (if src = SLOW \<and> dst = FAST
      then g\<lparr>mg_stats := (mg_stats g)\<lparr>promotions_committed := add64 (promotions_committed (mg_stats g)) 1\<rparr>\<rparr>
      else if src = FAST \<and> dst = SLOW
      then g\<lparr>mg_stats := (mg_stats g)\<lparr>demotions_committed := add64 (demotions_committed (mg_stats g)) 1\<rparr>\<rparr>
      else g)"

text \<open>I/O on the device of a tier.\<close>

definition mg_read :: "tier \<Rightarrow> u64 \<Rightarrow> u64 \<Rightarrow> migrator \<Rightarrow> (int \<times> bytes \<times> migrator) option" where
  "mg_read t off len g =
     (case dev_of t (mg_tiers g) of
        None \<Rightarrow> None
      | Some d \<Rightarrow> let (r, bl, d1) = kd_read off len True d in Some (r, bl, mg_tiers_update (set_dev t d1) g))"

definition mg_write :: "tier \<Rightarrow> u64 \<Rightarrow> bytes \<Rightarrow> migrator \<Rightarrow> (int \<times> migrator) option" where
  "mg_write t off bl g =
     (case dev_of t (mg_tiers g) of
        None \<Rightarrow> None
      | Some d \<Rightarrow> let (r, d1) = kd_write off [bl] True d in Some (r, mg_tiers_update (set_dev t d1) g))"

section \<open>Tier migration\<close>

text \<open>The part after the read: allocate the destination, write, commit or abort.\<close>

definition move_data ::
  "migration_handle \<Rightarrow> tier \<Rightarrow> tier \<Rightarrow> bytes \<Rightarrow> migrator \<Rightarrow> (migration_result \<times> migrator) option" where
  "move_data h src dst data g =
     do { (dst_opt, ts) \<leftarrow> em_allocate_raw dst (dl_length (mh_src_loc h)) (mg_em g) (mg_tiers g);
          let g3 = mg_tiers_update (\<lambda>_. ts) g;
          case dst_opt of
            None \<Rightarrow> Some (FAILED, mg_em_update (em_abort_migration h) g3)
          | Some dst_loc \<Rightarrow>
              do { (r, g4) \<leftarrow> mg_write dst (dl_offset dst_loc) data g3;
                   if r < 0
                   then Some (FAILED, count_io_error
                          (mg_em_update (em_release_source dst_loc \<circ> em_abort_migration h) g4))
                   else
                     case em_commit_migration h dst_loc (mg_em g4) of
                       (True, em5) \<Rightarrow> Some (COMMITTED, count_move src dst (mg_em_update (\<lambda>_. em5) g4))
                     | (False, em5) \<Rightarrow>
                         Some (INTERRUPTED, count_interruption
                           (mg_em_update (\<lambda>_. em_release_source dst_loc (em_abort_migration h em5)) g4)) } }"

definition migrate_tier :: "u64 \<Rightarrow> tier \<Rightarrow> tier \<Rightarrow> migrator \<Rightarrow> (migration_result \<times> migrator) option" where
  "migrate_tier ext src dst g =
     (case em_begin_migration ext (mg_em g) of
        (None, _) \<Rightarrow> Some (INTERRUPTED, g)
      | (Some h, em1) \<Rightarrow>
          do { let g1 = mg_em_update (\<lambda>_. em1) g;
               (r, data, g2) \<leftarrow> mg_read src (dl_offset (mh_src_loc h)) (dl_length (mh_src_loc h)) g1;
               if r < 0 then Some (FAILED, count_io_error (mg_em_update (em_abort_migration h) g2))
               else move_data h src dst data g2 })"

section \<open>Compaction\<close>

text \<open>
  The loop over the keys: read the value, reserve a slot of the new extent, write the value. An error
  is \<open>Inl\<close> with the information whether it was an I/O error.
\<close>

fun copy_keys ::
  "migration_handle \<Rightarrow> u64 \<Rightarrow> disk_location \<Rightarrow> key list \<Rightarrow> (key \<times> key_location) list \<Rightarrow> migrator \<Rightarrow>
   ((bool + (key \<times> key_location) list) \<times> migrator) option" where
  "copy_keys h new_ext new_loc [] updates g = Some (Inr updates, g)"
| "copy_keys h new_ext new_loc (k # ks) updates g =
     (let old = lookup_or_default k (mg_km g); t = dl_tier (mh_src_loc h)
      in do { (r, bl, g1) \<leftarrow> mg_read t (slot_address (mh_src_loc h) (kl_offset old)) (kl_length old) g;
              if r < 0 then Some (Inl True, g1)
              else
                let (off, em2) = em_append_slot new_ext (kl_length old) (mg_em g1);
                    g2 = mg_em_update (\<lambda>_. em2) g1
                in if off = UINT32_MAX then Some (Inl False, g2)
                   else
                     do { (r, g3) \<leftarrow> mg_write t (slot_address new_loc off) bl g2;
                          if r < 0 then Some (Inl True, g3)
                          else copy_keys h new_ext new_loc ks
                                 (updates @ [(k, \<lparr>kl_extent = new_ext, kl_offset = off, kl_length = kl_length old\<rparr>)]) g3 } })"

text \<open>The part after the new extent is there: copy, verify, commit or abort.\<close>

definition compact_into :: "migration_handle \<Rightarrow> u64 \<Rightarrow> disk_location \<Rightarrow> key list \<Rightarrow> migrator \<Rightarrow> (migration_result \<times> migrator) option" where
  "compact_into h new_ext new_loc ks g =
     do { (res, g3) \<leftarrow> copy_keys h new_ext new_loc ks [] g;
          case res of
            Inl io \<Rightarrow>
              (let g4 = mg_em_update (em_free new_ext \<circ> em_abort_migration h) g3
               in Some (FAILED, if io then count_io_error g4 else g4))
          | Inr updates \<Rightarrow>
              if \<not> em_check_migration h (mg_em g3)
              then Some (INTERRUPTED, count_interruption
                     (mg_em_update (em_free new_ext \<circ> em_abort_migration h) g3))
              else
                let g4 = g3\<lparr>mg_engine := (mg_engine g3)\<lparr>eng_km := km_batch_update updates (mg_km g3)\<rparr>\<rparr>
                in Some (COMMITTED, count_compaction (mg_em_update (em_free (mh_extent_id h)) g4)) }"

definition compact :: "u64 \<Rightarrow> migrator \<Rightarrow> (migration_result \<times> migrator) option" where
  "compact ext g =
     (case em_begin_migration ext (mg_em g) of
        (None, _) \<Rightarrow> Some (INTERRUPTED, g)
      | (Some h, em1) \<Rightarrow>
          let g1 = mg_em_update (\<lambda>_. em1) g;
              ks = km_keys_in_extent ext (mg_km g1)
          in if ks = [] then Some (COMMITTED, count_compaction (mg_em_update (em_free ext) g1))
             else
               do { (alloc, em2, ts2) \<leftarrow>
                      em_allocate_extent (dl_tier (mh_src_loc h)) (dl_length (mh_src_loc h)) (mg_em g1) (mg_tiers g1);
                    let g2 = mg_tiers_update (\<lambda>_. ts2) (mg_em_update (\<lambda>_. em2) g1);
                    case alloc of
                      None \<Rightarrow> Some (FAILED, mg_em_update (em_abort_migration h) g2)
                    | Some (new_ext, new_loc) \<Rightarrow> compact_into h new_ext new_loc ks g2 })"

section \<open>Queue and cycle\<close>

definition enqueue :: "migration_task \<Rightarrow> migrator \<Rightarrow> migrator" where
  "enqueue task g = g\<lparr>mg_queue := mg_queue g @ [task]\<rparr>"

definition enqueue_migrate :: "u64 \<Rightarrow> tier \<Rightarrow> tier \<Rightarrow> rat \<Rightarrow> migrator \<Rightarrow> migrator" where
  "enqueue_migrate ext src dst sc g =
     enqueue \<lparr>mt_type = TIER_MIGRATE, mt_extent_id = ext, mt_from = src, mt_to = dst, mt_score = sc\<rparr> g"

definition enqueue_compact :: "u64 \<Rightarrow> migrator \<Rightarrow> migrator" where
  "enqueue_compact ext g =
     enqueue \<lparr>mt_type = COMPACT, mt_extent_id = ext, mt_from = FAST, mt_to = FAST, mt_score = 0\<rparr> g"

definition pending :: "migrator \<Rightarrow> nat" where
  "pending g = length (mg_queue g)"

definition run_task :: "migration_task \<Rightarrow> migrator \<Rightarrow> migrator option" where
  "run_task task g =
     map_option snd
       (if mt_type task = TIER_MIGRATE then migrate_tier (mt_extent_id task) (mt_from task) (mt_to task) g
        else compact (mt_extent_id task) g)"

fun run_tasks :: "migration_task list \<Rightarrow> migrator \<Rightarrow> migrator option" where
  "run_tasks [] g = Some g"
| "run_tasks (t # ts) g = do { g1 \<leftarrow> run_task t g; run_tasks ts g1 }"

definition process_queue :: "migrator \<Rightarrow> migrator option" where
  "process_queue g = run_tasks (mg_queue g) (g\<lparr>mg_queue := []\<rparr>)"

text \<open>
  The scores in descending order. \<open>std::sort\<close> leaves the order of equal scores open; here they keep
  the order of the snapshot.
\<close>

definition score_snapshot :: "u32 \<Rightarrow> migrator \<Rightarrow> snapshot_entry list \<Rightarrow> (u64 \<times> rat) list" where
  "score_snapshot now g snap =
     sort_key (\<lambda>x. - snd x)
       (map (\<lambda>s. (se_extent_id s,
              score (eng_cfg (mg_engine g)) (mg_weights g) (se_raw_metrics s) (se_last_access s) now)) snap)"

fun queue_moves :: "nat \<Rightarrow> (u64 \<times> rat) list \<Rightarrow> migrator \<Rightarrow> migrator" where
  "queue_moves migrated [] g = g"
| "queue_moves migrated ((ext, sc) # rest) g =
     (let cfg = eng_cfg (mg_engine g)
      in if migrated \<ge> max_migrations_per_cycle cfg then g
         else case em_get_location ext (mg_em g) of
                None \<Rightarrow> queue_moves migrated rest g
              | Some loc \<Rightarrow>
                  if sc > promote_threshold cfg \<and> dl_tier loc = SLOW
                  then queue_moves (add32 migrated 1) rest (enqueue_migrate ext SLOW FAST sc g)
                  else if sc < demote_threshold cfg \<and> dl_tier loc = FAST
                  then queue_moves (add32 migrated 1) rest (enqueue_migrate ext FAST SLOW sc g)
                  else queue_moves migrated rest g)"

definition wants_compaction :: "btier_config \<Rightarrow> snapshot_entry \<Rightarrow> bool" where
  "wants_compaction cfg s \<longleftrightarrow>
     (let dead_bytes = sub32 (se_used s) (se_live s); cap = capacity_of (se_location s)
      in se_used s > 0 \<and> cap > 0 \<and>
         f64 (of_nat dead_bytes / of_nat (se_used s)) > compaction_dead_ratio cfg \<and>
         f64 (of_nat (se_used s) / of_nat cap) > compaction_usage_ratio cfg)"

fun queue_compactions :: "nat \<Rightarrow> snapshot_entry list \<Rightarrow> migrator \<Rightarrow> migrator" where
  "queue_compactions compacted [] g = g"
| "queue_compactions compacted (s # rest) g =
     (let cfg = eng_cfg (mg_engine g)
      in if compacted \<ge> max_compactions_per_cycle cfg then g
         else if wants_compaction cfg s
         then queue_compactions (add32 compacted 1) rest
                (enqueue \<lparr>mt_type = COMPACT, mt_extent_id = se_extent_id s, mt_from = dl_tier (se_location s),
                          mt_to = dl_tier (se_location s), mt_score = 0\<rparr> g)
         else queue_compactions compacted rest g)"

text \<open>Steps 2 and 3 of the cycle, which \<open>run_scoring_pass\<close> shares.\<close>

definition refresh_scores :: "migrator \<Rightarrow> migrator" where
  "refresh_scores g =
     (let g1 = mg_em_update (em_refresh_randomness (mg_km g)) g
      in g1\<lparr>mg_weights := adapt_weights (eng_cfg (mg_engine g1)) (fast_watermark (mg_tiers g1))\<rparr>)"

definition run_cycle_inline :: "u32 \<Rightarrow> migrator \<Rightarrow> migrator option" where
  "run_cycle_inline now g =
     do { (em1, ts1) \<leftarrow> em_process_deferred_free (mg_em g) (mg_tiers g);
          let g1 = refresh_scores (mg_tiers_update (\<lambda>_. ts1) (mg_em_update (\<lambda>_. em1) g));
          let snap = em_snapshot (mg_em g1);
          let g2 = queue_moves 0 (score_snapshot now g1 snap) g1;
          process_queue (queue_compactions 0 snap g2) }"

section \<open>Calls of the engine\<close>

text \<open>The first argument says whether the engine has a migration engine, or a scoring engine.\<close>

definition eng_set_weights :: "weight_set \<Rightarrow> engine \<Rightarrow> engine" where
  "eng_set_weights w e = e\<lparr>eng_cfg := (eng_cfg e)\<lparr>base_weights := w\<rparr>\<rparr>"

definition eng_set_watermarks :: "rat \<Rightarrow> rat \<Rightarrow> engine \<Rightarrow> engine" where
  "eng_set_watermarks lo hi e = e\<lparr>eng_cfg := (eng_cfg e)\<lparr>low_watermark := lo, high_watermark := hi\<rparr>\<rparr>"

definition eng_set_scan_interval :: "u32 \<Rightarrow> engine \<Rightarrow> engine" where
  "eng_set_scan_interval ms e = e\<lparr>eng_cfg := (eng_cfg e)\<lparr>scan_interval_ms := ms\<rparr>\<rparr>"

record scored_extent =
  sx_extent_id :: u64
  sx_score :: rat
  sx_tier :: tier

definition run_scoring_pass :: "bool \<Rightarrow> u32 \<Rightarrow> migrator \<Rightarrow> scored_extent list \<times> migrator" where
  "run_scoring_pass has_scoring now g =
     (if \<not> eng_initialized (mg_engine g) \<or> \<not> has_scoring then ([], g)
      else
        let g1 = refresh_scores g
        in (sort_key (\<lambda>x. - sx_score x)
              (map (\<lambda>s. \<lparr>sx_extent_id = se_extent_id s,
                        sx_score = score (eng_cfg (mg_engine g1)) (mg_weights g1) (se_raw_metrics s) (se_last_access s) now,
                        sx_tier = dl_tier (se_location s)\<rparr>) (em_snapshot (mg_em g1))), g1))"

definition eng_compact_extent :: "bool \<Rightarrow> u64 \<Rightarrow> migrator \<Rightarrow> (bool \<times> migrator) option" where
  "eng_compact_extent has_migration ext g =
     (if \<not> eng_initialized (mg_engine g) \<or> \<not> has_migration then Some (False, g)
      else map_option (\<lambda>(r, g). (r = COMMITTED, g)) (compact ext g))"

definition eng_run_migration_cycle :: "bool \<Rightarrow> u32 \<Rightarrow> migrator \<Rightarrow> migrator option" where
  "eng_run_migration_cycle has_migration now g =
     (if \<not> eng_initialized (mg_engine g) \<or> \<not> has_migration then Some g else run_cycle_inline now g)"

definition eng_get_migration_stats :: "bool \<Rightarrow> migrator \<Rightarrow> migration_stats" where
  "eng_get_migration_stats has_migration g =
     (if \<not> eng_initialized (mg_engine g) \<or> \<not> has_migration then no_migration_stats else mg_stats g)"

record btier_stats =
  st_num_keys :: nat
  st_num_extents :: nat
  st_fast_extents :: nat
  st_slow_extents :: nat
  st_fast_watermark :: rat
  st_journal_bytes :: u64
  st_migrations_pending :: nat
  st_migration :: migration_stats

definition btier_get_stats :: "bool \<Rightarrow> migrator \<Rightarrow> btier_stats" where
  "btier_get_stats has_migration g =
     (if \<not> eng_initialized (mg_engine g)
      then \<lparr>st_num_keys = 0, st_num_extents = 0, st_fast_extents = 0, st_slow_extents = 0, st_fast_watermark = 0,
            st_journal_bytes = 0, st_migrations_pending = 0, st_migration = no_migration_stats\<rparr>
      else
        let snaps = em_snapshot (mg_em g);
            fast = length (filter (\<lambda>s. dl_tier (se_location s) = FAST) snaps)
        in \<lparr>st_num_keys = km_size (mg_km g), st_num_extents = length snaps, st_fast_extents = fast,
            st_slow_extents = length snaps - fast, st_fast_watermark = fast_watermark (mg_tiers g),
            st_journal_bytes = (case eng_journal (mg_engine g) of None \<Rightarrow> 0 | Some j \<Rightarrow> j_used_bytes j),
            st_migrations_pending = (if has_migration then pending g else 0),
            st_migration = (if has_migration then mg_stats g else no_migration_stats)\<rparr>)"

end
