(* ===== verification/Migration_Protocol.thy ===== *)
theory Migration_Protocol
  imports Extent_Space
begin

text \<open>
  The migration handles of the extent map under interference. Between \<open>begin_migration\<close> and
  \<open>commit_migration\<close> no lock is held, so the operations of the I/O path run in between, in any order
  and number. The state bits and the generation counter of the metrics word are what makes this safe:
  appends are refused while the extent is MIGRATING, and every slot that dies bumps the generation.
\<close>

section \<open>Operations of the I/O path\<close>

datatype em_op =
    RecordIo u64 io_op u32
  | SetRandomness u64 "32 word"
  | RefInc u64
  | RefDec u64
  | AppendSlot u64 u32
  | MarkDead u64 u32
  | FreeExtent u64
  | NewExtent disk_location tiers
  | BeginMigration u64

fun em_exec :: "em_op \<Rightarrow> extent_map \<Rightarrow> extent_map" where
  "em_exec (RecordIo e op now) em = em_record_io e op now em"
| "em_exec (SetRandomness e r) em = em_set_randomness e r em"
| "em_exec (RefInc e) em = em_io_ref_inc e em"
| "em_exec (RefDec e) em = em_io_ref_dec e em"
| "em_exec (AppendSlot e sz) em = snd (em_append_slot e sz em)"
| "em_exec (MarkDead e len) em = em_mark_dead_slot e len em"
| "em_exec (FreeExtent e) em = em_free e em"
| "em_exec (NewExtent loc ts) em = fst (snd (em_insert_entry loc em ts))"
| "em_exec (BeginMigration e) em = snd (em_begin_migration e em)"

definition em_run :: "em_op list \<Rightarrow> extent_map \<Rightarrow> extent_map" where
  "em_run ops em = fold em_exec ops em"

text \<open>The slots of an extent that die in a run.\<close>

definition kills :: "u64 \<Rightarrow> em_op \<Rightarrow> bool" where
  "kills ext op \<longleftrightarrow> (case op of MarkDead e len \<Rightarrow> e = ext | _ \<Rightarrow> False)"

definition deaths :: "u64 \<Rightarrow> em_op list \<Rightarrow> nat" where
  "deaths ext ops = length (filter (kills ext) ops)"

section \<open>Fields of the metrics word\<close>

lemma field_widths:
  "access_count v AND 0xFFF = access_count v" "write_count v AND 0xFFF = write_count v"
  "randomness v AND 0x3F = randomness v" "ext_state v AND 0x3 = ext_state v"
  "generation v AND 0xFFFFFFFF = generation v"
  using pack_fields [of "access_count v" "write_count v" "randomness v" "ext_state v" "generation v"]
  by (simp_all only: pack_unpack)

lemma generation_less: "unat (generation v) < 2 ^ 32"
proof -
  have "unat (generation v) = unat v div 2 ^ 32"
    using unsigned_less [of v, where 'a = nat] by (simp only: generation_def unsigned_drop_bit_eq) (simp add: drop_bit_eq_div take_bit_nat_eq_self)
  moreover have "unat v < 2 ^ 64" using unsigned_less [of v] by simp
  ultimately show ?thesis by (simp add: div_less_iff_less_mult)
qed

lemma generation_bump: "unat ((generation v + 1) AND 0xFFFFFFFF) = (unat (generation v) + 1) mod 2 ^ 32"
proof -
  have "unat (generation v + 1) = unat (generation v) + 1"
    using generation_less [of v] by (simp add: unat_word_ariths)
  then show ?thesis
    by (simp only: masks take_bit_eq_mask [symmetric] unsigned_take_bit_eq) (simp add: take_bit_eq_mod)
qed

section \<open>A claimed extent\<close>

lemma em_lookup_frame [simp]:
  "em_lookup e (set_free_list t l em) = em_lookup e em" "em_lookup e (mark_dirty x em) = em_lookup e em"
  "em_lookup e (update_free_list x t a b em) = em_lookup e em" "em_lookup e (add_deferred_free loc em) = em_lookup e em"
  "em_lookup e (em\<lparr>em_next_id := n\<rparr>) = em_lookup e em"
  by (simp_all add: em_lookup_def set_free_list_def mark_dirty_def update_free_list_def add_deferred_free_def)

lemma em_lookup_delete [simp]:
  "em_lookup e (em\<lparr>em_entries := AList.delete x (em_entries em)\<rparr>) = (if e = x then None else em_lookup e em)"
  by (simp add: em_lookup_def delete_conv')

text \<open>An extent claimed by a handle, in which \<open>n\<close> slots have died since.\<close>

definition claimed :: "u64 \<Rightarrow> extent_entry \<Rightarrow> nat \<Rightarrow> extent_map \<Rightarrow> bool" where
  "claimed ext en0 n em \<longleftrightarrow>
     (\<exists>en. em_lookup ext em = Some en \<and> ext_state (ee_raw en) = MIGRATING \<and> ee_loc en = ee_loc en0 \<and>
        ee_used en = ee_used en0 \<and> unat (generation (ee_raw en)) = (unat (generation (ee_raw en0)) + n) mod 2 ^ 32 \<and>
        (n = 0 \<longrightarrow> ee_live en = ee_live en0))"

lemma claimedE:
  assumes "claimed ext en0 n em"
  obtains en where "em_lookup ext em = Some en" and "ext_state (ee_raw en) = MIGRATING" and "ee_loc en = ee_loc en0"
    and "ee_used en = ee_used en0" and "unat (generation (ee_raw en)) = (unat (generation (ee_raw en0)) + n) mod 2 ^ 32"
    and "n = 0 \<longrightarrow> ee_live en = ee_live en0"
  using assms unfolding claimed_def by blast

text \<open>What a thread may do to an entry without disturbing a migration.\<close>

definition harmless :: "(extent_entry \<Rightarrow> extent_entry) \<Rightarrow> bool" where
  "harmless f \<longleftrightarrow> (\<forall>en. ext_state (ee_raw (f en)) = ext_state (ee_raw en) \<and> generation (ee_raw (f en)) = generation (ee_raw en) \<and>
     ee_loc (f en) = ee_loc en \<and> ee_used (f en) = ee_used en \<and> ee_live (f en) = ee_live en)"

lemma claimed_touch:
  assumes "claimed ext en0 n em" and "harmless f"
  shows "claimed ext en0 n (case em_lookup e em of None \<Rightarrow> em | Some en \<Rightarrow> em_store e (f en) em)"
  using assms by (auto simp: claimed_def harmless_def split: option.split)

lemma claimed_same: "claimed ext en0 n em \<Longrightarrow> em_lookup ext em' = em_lookup ext em \<Longrightarrow> claimed ext en0 n em'"
  by (simp add: claimed_def)

lemma em_exec_other:
  assumes "claimed ext en0 n em" and "op \<noteq> FreeExtent ext" and "\<not> kills ext op" and "em_next_id em \<noteq> ext"
  shows "claimed ext en0 n (em_exec op em)"
proof -
  obtain en where en: "em_lookup ext em = Some en" "ext_state (ee_raw en) \<noteq> ACTIVE"
    by (rule claimedE [OF assms(1)]) (auto simp: MIGRATING_def ACTIVE_def)
  note touch = claimed_touch [OF assms(1)]
  note same = claimed_same [OF assms(1)]
  show ?thesis
  proof (cases op)
    case (RecordIo e io now)
    then show ?thesis
      unfolding RecordIo em_exec.simps em_record_io_def Let_def
      by (intro touch) (simp add: harmless_def pack_fields field_widths)
  next
    case (SetRandomness e r)
    then show ?thesis
      unfolding SetRandomness em_exec.simps em_set_randomness_def Let_def
      by (intro touch) (simp add: harmless_def pack_fields field_widths)
  next
    case (RefInc e)
    then show ?thesis
      unfolding RefInc em_exec.simps em_io_ref_inc_def by (intro touch) (simp add: harmless_def)
  next
    case (RefDec e)
    then show ?thesis
      unfolding RefDec em_exec.simps em_io_ref_dec_def by (intro touch) (simp add: harmless_def)
  next
    case (AppendSlot e sz)
    then show ?thesis using en by (intro same) (auto simp: em_append_slot_def Let_def split: option.split)
  next
    case (MarkDead e len)
    then show ?thesis
      using assms(3) by (intro same) (auto simp: em_mark_dead_slot_def kills_def Let_def split: option.split)
  next
    case (FreeExtent e)
    then show ?thesis using assms(2) by (intro same) (auto simp: em_free_def Let_def split: option.split)
  next
    case (NewExtent loc ts)
    then show ?thesis using assms(4) by (intro same) (simp add: em_insert_entry_def Let_def)
  next
    case (BeginMigration e)
    then show ?thesis using en by (intro same) (auto simp: em_begin_migration_def Let_def split: option.split)
  qed
qed

lemma em_exec_kill:
  assumes "claimed ext en0 n em"
  shows "claimed ext en0 (Suc n) (em_mark_dead_slot ext len em)"
proof -
  obtain en where en: "em_lookup ext em = Some en" "ext_state (ee_raw en) = MIGRATING" "ee_loc en = ee_loc en0"
    "ee_used en = ee_used en0" "unat (generation (ee_raw en)) = (unat (generation (ee_raw en0)) + n) mod 2 ^ 32"
    by (rule claimedE [OF assms])
  have "unat (generation (ee_raw (bump_generation en'))) = (unat (generation (ee_raw en')) + 1) mod 2 ^ 32"
    and "ext_state (ee_raw (bump_generation en')) = ext_state (ee_raw en')" for en'
    using generation_bump [of "ee_raw en'"] by (simp_all add: bump_generation_def Let_def pack_fields field_widths)
  then show ?thesis
    using en by (simp add: claimed_def em_mark_dead_slot_def Let_def mod_Suc_eq)
qed

lemma next_id_exec:
  "em_next_id (em_exec op em) = (case op of NewExtent loc ts \<Rightarrow> add64 (em_next_id em) 1 | _ \<Rightarrow> em_next_id em)"
  by (cases op)
    (auto simp: em_record_io_def em_set_randomness_def em_io_ref_inc_def em_io_ref_dec_def em_append_slot_def
      em_mark_dead_slot_def em_free_def em_insert_entry_def em_begin_migration_def em_store_def Let_def
      set_free_list_def mark_dirty_def update_free_list_def add_deferred_free_def split: option.split)

lemma em_run_claimed:
  assumes "claimed ext en0 n em" and "FreeExtent ext \<notin> set ops" and "ext < em_next_id em"
    and "em_next_id em + length ops < 2 ^ 64"
  shows "claimed ext en0 (n + deaths ext ops) (em_run ops em)"
  using assms
proof (induction ops arbitrary: n em)
  case Nil
  then show ?case by (simp add: em_run_def deaths_def)
next
  case (Cons op ops)
  have id: "ext < em_next_id (em_exec op em) \<and> em_next_id (em_exec op em) + length ops < 2 ^ 64"
    using Cons.prems(3,4) by (auto simp: next_id_exec add64_exact split: em_op.split)
  show ?case
  proof (cases "kills ext op")
    case True
    then obtain len where op: "op = MarkDead ext len" by (auto simp: kills_def split: em_op.splits)
    from Cons.IH [OF em_exec_kill [OF Cons.prems(1)], of len] id Cons.prems(2) True show ?thesis
      by (simp add: op em_run_def deaths_def)
  next
    case False
    then have "claimed ext en0 n (em_exec op em)"
      using Cons.prems by (intro em_exec_other) auto
    from Cons.IH [OF this] id Cons.prems(2) False show ?thesis by (simp add: em_run_def deaths_def)
  qed
qed

lemma em_begin_migration_claims:
  assumes "em_begin_migration ext em = (Some h, em1)"
  obtains en where "em_lookup ext em = Some en" and "ext_state (ee_raw en) = ACTIVE" and "claimed ext en 0 em1"
    and "mh_extent_id h = ext" and "mh_src_loc h = ee_loc en" and "mh_gen_before h = generation (ee_raw en)"
    and "em_next_id em1 = em_next_id em"
proof -
  obtain en where en: "em_lookup ext em = Some en" "ext_state (ee_raw en) = ACTIVE"
    and h: "h = \<lparr>mh_extent_id = ext, mh_src_loc = ee_loc en, mh_gen_before = generation (ee_raw en)\<rparr>"
    and em1: "em1 = em_store ext (en\<lparr>ee_raw := set_state MIGRATING (generation (ee_raw en)) (ee_raw en)\<rparr>) em"
    using assms by (auto simp: em_begin_migration_def Let_def split: option.splits if_splits)
  have "claimed ext en 0 em1"
    using generation_less [of "ee_raw en"]
    by (simp add: claimed_def em1 set_state_def pack_fields field_widths) (simp add: MIGRATING_def)
  with that [OF en] show ?thesis by (simp add: h em1 em_store_def)
qed

section \<open>Saturating counters\<close>

text \<open>A run of reads and writes on one extent.\<close>

definition io_run :: "u64 \<Rightarrow> (io_op \<times> u32) list \<Rightarrow> extent_map \<Rightarrow> extent_map" where
  "io_run ext ios em = fold (\<lambda>(io, now). em_record_io ext io now) ios em"

definition num_writes :: "(io_op \<times> u32) list \<Rightarrow> nat" where
  "num_writes ios = length (filter (\<lambda>(io, now). io = WRITE) ios)"

lemma min_inc: "unat (min (c + 1) 4095 AND 0xFFF) = min (unat c + 1) 4095" if "unat c \<le> 4095" for c :: "32 word"
proof -
  have "unat (c + 1) = unat c + 1" using that by (simp add: unat_word_ariths)
  then have m: "unat (min (c + 1) 4095) = min (unat c + 1) 4095"
    by (simp add: min_def word_le_nat_alt)
  have "unat (x AND 0xFFF) = unat x mod 2 ^ 12" for x :: "32 word"
    by (simp only: masks take_bit_eq_mask [symmetric] unsigned_take_bit_eq) (simp add: take_bit_eq_mod)
  then show ?thesis using m by (simp add: min_def)
qed

lemma count_le: "unat (access_count v) \<le> 4095" "unat (write_count v) \<le> 4095"
proof -
  have "unat (x AND 0xFFF) \<le> 4095" for x :: "32 word"
  proof -
    have "unat (x AND 0xFFF) = unat x mod 2 ^ 12"
      by (simp only: masks take_bit_eq_mask [symmetric] unsigned_take_bit_eq) (simp add: take_bit_eq_mod)
    then show ?thesis by simp
  qed
  then show "unat (access_count v) \<le> 4095" "unat (write_count v) \<le> 4095"
    using field_widths(1,2) [of v] by metis+
qed

section \<open>Properties\<close>

text \<open>
  C31: the migration protocol. After \<open>begin_migration\<close> has claimed an extent, the I/O path may run any
  operations on the extent map, as long as it does not free the extent and fewer than 2^32 slots of it
  die. Meanwhile no slot is appended to the extent and nobody else claims it. If no slot of it has
  died, \<open>check_migration\<close> agrees, \<open>commit_migration\<close> succeeds, moves the extent to the new location
  with its used and live bytes as they were at the beginning, makes it ACTIVE and queues the old
  location for release; if a slot has died, \<open>check_migration\<close> and \<open>commit_migration\<close> refuse and
  \<open>abort_migration\<close> makes the extent ACTIVE again where it was.
\<close>

theorem migration_protocol:
  assumes claim: "em_begin_migration ext em = (Some h, em1)" and free: "FreeExtent ext \<notin> set ops"
    and ids: "ext < em_next_id em" "em_next_id em + length ops < 2 ^ 64" and few: "deaths ext ops < 2 ^ 32"
    and em2: "em2 = em_run ops em1"
  shows "em_append_slot ext sz em2 = (UINT32_MAX, em2) \<and> em_begin_migration ext em2 = (None, em2) \<and>
    em_check_migration h em2 = (deaths ext ops = 0) \<and> fst (em_commit_migration h loc em2) = (deaths ext ops = 0) \<and>
    (\<exists>en en'. em_lookup ext em = Some en \<and>
       (if deaths ext ops = 0
        then em_lookup ext (snd (em_commit_migration h loc em2)) = Some en' \<and> ee_loc en' = loc \<and>
          ee_live en' = ee_live en \<and> em_deferred (snd (em_commit_migration h loc em2)) = em_deferred em2 @ [(ee_loc en, em_seqno em2)]
        else snd (em_commit_migration h loc em2) = em2 \<and> em_lookup ext (em_abort_migration h em2) = Some en' \<and>
          ee_loc en' = ee_loc en) \<and>
       ee_used en' = ee_used en \<and> ext_state (ee_raw en') = ACTIVE)"
proof -
  obtain en where en: "em_lookup ext em = Some en" "claimed ext en 0 em1" and h: "mh_extent_id h = ext"
    "mh_gen_before h = generation (ee_raw en)" and id: "em_next_id em1 = em_next_id em"
    by (rule em_begin_migration_claims [OF claim])
  have "claimed ext en (deaths ext ops) em2"
    using em_run_claimed [OF en(2) free] ids id em2 by simp
  then obtain en2 where en2: "em_lookup ext em2 = Some en2" "ext_state (ee_raw en2) = MIGRATING" "ee_loc en2 = ee_loc en"
    "ee_used en2 = ee_used en" "unat (generation (ee_raw en2)) = (unat (generation (ee_raw en)) + deaths ext ops) mod 2 ^ 32"
    "deaths ext ops = 0 \<longrightarrow> ee_live en2 = ee_live en" by (rule claimedE)
  have st: "MIGRATING \<noteq> ACTIVE" "ACTIVE AND 3 = ACTIVE" by (simp_all add: MIGRATING_def ACTIVE_def)
  have gen: "generation (ee_raw en2) = mh_gen_before h \<longleftrightarrow> deaths ext ops = 0"
  proof -
    have "generation (ee_raw en2) = generation (ee_raw en) \<longleftrightarrow>
        (unat (generation (ee_raw en)) + deaths ext ops) mod 2 ^ 32 = unat (generation (ee_raw en))"
      using en2(5) by (metis word_unat_eq_iff)
    then show ?thesis
      using generation_less [of "ee_raw en"] few by (auto simp: h mod_if split: if_splits)
  qed
  show ?thesis
  proof (cases "deaths ext ops = 0")
    case True
    with gen h en en2 st show ?thesis
      by (simp add: em_append_slot_def em_begin_migration_def em_check_migration_def em_commit_migration_def
          set_state_def pack_fields)
        (simp add: mark_dirty_def add_deferred_free_def em_store_def)
  next
    case False
    with gen h en en2 st show ?thesis
      by (simp add: em_append_slot_def em_begin_migration_def em_check_migration_def em_commit_migration_def
          em_abort_migration_def set_state_def pack_fields)
  qed
qed

text \<open>
  The counters of the metrics word saturate. After any sequence of reads and writes of an extent
  its access count has grown by their number and its write count by the number of writes, both up to
  4095, and no other field of the word has changed.
\<close>

theorem record_io_saturates:
  assumes "em_lookup ext em = Some en"
  shows "\<exists>en'. em_lookup ext (io_run ext ios em) = Some en' \<and>
    unat (access_count (ee_raw en')) = min (unat (access_count (ee_raw en)) + length ios) 4095 \<and>
    unat (write_count (ee_raw en')) = min (unat (write_count (ee_raw en)) + num_writes ios) 4095 \<and>
    randomness (ee_raw en') = randomness (ee_raw en) \<and> ext_state (ee_raw en') = ext_state (ee_raw en) \<and>
    generation (ee_raw en') = generation (ee_raw en)"
  using assms
proof (induction ios arbitrary: em en)
  case Nil
  then show ?case using count_le [of "ee_raw en"] by (simp add: io_run_def num_writes_def)
next
  case (Cons x ios)
  obtain io now where x: "x = (io, now)" by fastforce
  define raw where "raw = ee_raw en"
  define en1 where "en1 = en\<lparr>ee_last_access := now, ee_raw := pack (min (access_count raw + 1) 4095)
      (if io = WRITE then min (write_count raw + 1) 4095 else write_count raw) (randomness raw) (ext_state raw) (generation raw)\<rparr>"
  have "em_lookup ext (em_record_io ext io now em) = Some en1"
    using Cons.prems by (simp add: em_record_io_def en1_def raw_def Let_def)
  from Cons.IH [OF this] show ?case
    using count_le [of raw] by (auto simp: x io_run_def num_writes_def en1_def pack_fields field_widths min_inc raw_def [symmetric])
qed

section \<open>Witnesses\<close>

definition loc_sample :: disk_location where
  "loc_sample = \<lparr>dl_offset = 8192, dl_length = 8192, dl_tier = FAST\<rparr>"

definition em_sample :: extent_map where
  "em_sample = (em_store 1 (entry_new loc_sample) (em_new 4096 8192))\<lparr>em_next_id := 2\<rparr>"

lemma em_sample_lookup: "em_lookup 1 em_sample = Some (entry_new loc_sample)" "em_next_id em_sample = 2"
  by (simp_all add: em_sample_def em_store_def em_lookup_def em_new_def)

theorem migration_protocol_witness:
  "\<exists>h em1. em_begin_migration 1 em_sample = (Some h, em1) \<and>
     fst (em_commit_migration h loc_sample (em_run [RecordIo 1 READ 5, AppendSlot 1 10] em1)) \<and>
     \<not> fst (em_commit_migration h loc_sample (em_run [MarkDead 1 10] em1))"
proof -
  have "ext_state 0 = ACTIVE" by (simp add: ext_state_def ACTIVE_def)
  then obtain h em1 where b: "em_begin_migration 1 em_sample = (Some h, em1)"
    using em_sample_lookup by (simp add: em_begin_migration_def Let_def entry_new_def)
  have d: "deaths 1 [RecordIo 1 READ 5, AppendSlot 1 10] = 0" "deaths 1 [MarkDead 1 10] = 1"
    by (simp_all add: deaths_def kills_def)
  show ?thesis
    using b migration_protocol [OF b, of "[RecordIo 1 READ 5, AppendSlot 1 10]" _ 0 loc_sample]
      migration_protocol [OF b, of "[MarkDead 1 10]" _ 0 loc_sample] em_sample_lookup(2) d
    by auto
qed

theorem record_io_saturates_witness:
  "\<exists>en'. em_lookup 1 (io_run 1 [(WRITE, 7), (READ, 9)] em_sample) = Some en' \<and> unat (access_count (ee_raw en')) = 2 \<and>
     unat (write_count (ee_raw en')) = 1"
  using record_io_saturates [OF em_sample_lookup(1), of "[(WRITE, 7), (READ, 9)]"]
  by (auto simp: num_writes_def entry_new_def access_count_def write_count_def)

end
