(* ===== verification/Migration_Refinement.thy ===== *)
theory Migration_Refinement
  imports Migration_Engine Migration_Protocol
begin

text \<open>
  Moving an extent to another tier and compacting an extent change where the values are stored, and
  nothing else: the engine invariant holds afterwards and the engine denotes the same map, with failures
  of the devices at any system call. This needs that an allocation gives one piece on the tier that
  was asked for (\<open>in_one_piece\<close>), because the code writes to the device of that tier at the offset of the
  first piece in any case. \<open>room_for\<close> says in terms of the free space when that is so.
\<close>

section \<open>Parts of the state\<close>

lemma mg_engine_simps [simp]:
  "mg_engine (mg_em_update f g) = (mg_engine g)\<lparr>eng_em := f (eng_em (mg_engine g))\<rparr>"
  "mg_engine (mg_tiers_update h g) = (mg_engine g)\<lparr>eng_tiers := h (eng_tiers (mg_engine g))\<rparr>"
  "mg_engine (count_io_error g) = mg_engine g" "mg_engine (count_interruption g) = mg_engine g"
  "mg_engine (count_compaction g) = mg_engine g" "mg_engine (count_move src dst g) = mg_engine g"
  by (simp_all add: mg_em_update_def mg_tiers_update_def count_io_error_def count_interruption_def count_compaction_def
      count_move_def)

definition in_one_piece :: "tier \<Rightarrow> u64 \<Rightarrow> extent_map \<Rightarrow> tiers \<Rightarrow> bool" where
  "in_one_piece t sz em ts \<longleftrightarrow>
     (case em_allocate_raw t sz em ts of
        Some (Some loc, ts') \<Rightarrow> (dl_tier loc = FAST \<longleftrightarrow> t = FAST) \<and> sz \<le> dl_length loc
      | _ \<Rightarrow> True)"

text \<open>
  The tier has a free range as long as the extent; or, on a tier from which the allocation does not fall back to
  another one, less free space than that, so that the allocation fails.
\<close>

definition room_for :: "tier \<Rightarrow> u64 \<Rightarrow> extent_map \<Rightarrow> tiers \<Rightarrow> bool" where
  "room_for t sz em ts \<longleftrightarrow>
     (case alloc_of t ts of
        None \<Rightarrow> True
      | Some a \<Rightarrow>
          let want = aligned_size sz (em_block_size em)
          in want \<le> max_range_size a \<or> t \<noteq> FAST \<and> avl_get_free a < want)"

lemma alloc_on_run:
  assumes inv: "space_inv res em ts" and sz: "sz \<le> 2 ^ 30" and a: "alloc_of t ts = Some a"
  shows "aligned_size sz (em_block_size em) \<le> max_range_size a \<Longrightarrow>
      \<exists>off ts'. alloc_on t sz em ts = Some (Some \<lparr>dl_offset = off, dl_length = aligned_size sz (em_block_size em), dl_tier = t\<rparr>, ts')"
    and "avl_get_free a < aligned_size sz (em_block_size em) \<Longrightarrow> \<exists>ts'. alloc_on t sz em ts = Some (None, ts')"
proof -
  define blk want where "blk = em_block_size em" and "want = aligned_size sz blk"
  have blk: "block_ok blk" using inv by (simp add: space_inv_def blk_def)
  have bb: "isp2 blk" "blk < 2 ^ 32" "blk < 2 ^ 64" using blk block_ok_less by (auto simp: block_ok_def)
  have w: "0 < want" "want \<le> 2 ^ 31" "blk dvd want" using aligned_size_props [OF blk sz] by (simp_all add: want_def)
  obtain a' where "side_alloc (t = FAST) ts = Some a'" "avl_inv a'" "block_size a' = blk" "whole_units blk (avl_free a')"
    unfolding blk_def by (rule side_okE [OF inv])
  then have ok: "avl_inv a" "block_size a = blk" "whole_units blk (avl_free a)" using a by (auto simp: alloc_of_side)
  have i: "to_i64 want = int want" "want < UINT32_MAX" "want < 2 ^ 63" using w(2) by (simp_all add: to_i64_def UINT32_MAX_def)
  show "\<exists>off ts'. alloc_on t sz em ts = Some (Some \<lparr>dl_offset = off, dl_length = want, dl_tier = t\<rparr>, ts')" if "want \<le> max_range_size a"
    using avl_allocate_run [OF ok(1) bb(1,3) w(1) i(2) w(3), of] ok bb that a i(1)
    by (auto simp: alloc_on_def blk_def [symmetric] want_def [symmetric] Let_def)
  show "\<exists>ts'. alloc_on t sz em ts = Some (None, ts')" if "avl_get_free a < want"
    using avl_allocate_ok [OF ok(1) bb(1,3) w(1) i(3) w(3), of want] ok bb w(3) that a i(1)
    by (auto simp: alloc_on_def blk_def [symmetric] want_def [symmetric] Let_def avl_get_free_def)
qed

lemma room_in_one_piece:
  assumes inv: "space_inv res em ts" and sz: "sz \<le> 2 ^ 30" and room: "room_for t sz em ts"
  shows "in_one_piece t sz em ts"
proof (cases "alloc_of t ts")
  case None
  then show ?thesis by (simp add: in_one_piece_def em_allocate_raw_def alloc_on_def Let_def)
next
  case (Some a)
  have "sz \<le> aligned_size sz (em_block_size em)"
    using inv sz by (intro aligned_size_props(4)) (simp_all add: space_inv_def)
  then show ?thesis using room alloc_on_run [OF inv sz Some] Some
    by (fastforce simp: in_one_piece_def em_allocate_raw_def room_for_def Let_def)
qed

lemma alloc_on_set_dev:
  assumes "em_block_size em' = em_block_size em"
  shows "alloc_on t sz em' (set_dev s d ts) = map_option (\<lambda>(l, ts'). (l, set_dev s d ts')) (alloc_on t sz em ts)"
proof -
  have "set_alloc t a (set_dev s d ts) = set_dev s d (set_alloc t a ts)" for a
    by (simp add: set_alloc_def set_dev_def)
  moreover have "alloc_of t (set_dev s d ts) = alloc_of t ts" by (simp add: alloc_of_def set_dev_def)
  ultimately show ?thesis
    using assms by (auto simp: alloc_on_def Let_def split: option.split bind_split)
qed

lemma em_allocate_raw_set_dev:
  assumes "em_block_size em' = em_block_size em"
  shows "em_allocate_raw t sz em' (set_dev s d ts) = map_option (\<lambda>(l, ts'). (l, set_dev s d ts')) (em_allocate_raw t sz em ts)"
proof -
  have a: "alloc_of t (set_dev s d ts) = alloc_of t ts" by (simp add: alloc_of_def set_dev_def)
  show ?thesis
    unfolding em_allocate_raw_def alloc_on_set_dev [OF assms] a
    by (cases "alloc_on t sz em ts") (auto simp: alloc_on_set_dev [OF assms])
qed

section \<open>The extent map\<close>

lemma quiet_or_same:
  assumes "quiet f" and "\<And>em. h em = em \<or> h em = f em"
  shows "quiet h"
  unfolding quiet_def
proof
  fix em
  show "em_same em (h em) \<and> em_view (h em) = em_view em \<and> (\<forall>res ts. space_inv res em ts \<longrightarrow> space_inv res (h em) ts)"
    using assms(2) [of em] assms(1) [unfolded quiet_def, rule_format, of em] by (auto simp: em_same_def)
qed

lemma quiet_begin: "quiet (\<lambda>em. snd (em_begin_migration ext em))"
proof -
  define f where "f em = (case em_lookup ext em of None \<Rightarrow> em
      | Some en \<Rightarrow> em_store ext (en\<lparr>ee_raw := set_state MIGRATING (generation (ee_raw en)) (ee_raw en)\<rparr>) em)" for em
  have "quiet f" unfolding f_def by (rule quiet_update) simp
  then show ?thesis
    by (rule quiet_or_same) (auto simp: f_def em_begin_migration_def Let_def split: option.split)
qed

lemma quiet_abort: "quiet (em_abort_migration h)"
proof -
  define f where "f em = (case em_lookup (mh_extent_id h) em of None \<Rightarrow> em
      | Some en \<Rightarrow> em_store (mh_extent_id h) (en\<lparr>ee_raw := set_state ACTIVE (generation (ee_raw en)) (ee_raw en)\<rparr>) em)" for em
  have "quiet f" unfolding f_def by (rule quiet_update) simp
  then show ?thesis
    by (rule quiet_or_same) (auto simp: f_def em_abort_migration_def Let_def split: option.split)
qed

lemma release_source_ok:
  assumes inv: "space_inv res em ts" and un: "unowned res loc em ts"
  shows "space_inv res (em_release_source loc em) ts" and "em_view (em_release_source loc em) = em_view em"
proof -
  define em' where "em' = em_release_source loc em"
  have f: "em_entries em' = em_entries em" "em_deferred em' = em_deferred em @ [(loc, em_seqno em)]"
    "em_block_size em' = em_block_size em" "em_next_id em' = em_next_id em"
    by (simp_all add: em'_def em_release_source_def add_deferred_free_def)
  have "owners em' p = owners em p + of_bool (p \<in> loc_set loc)" for p by (simp add: owners_def f)
  moreover have "owners em p + of_bool (p \<in> loc_set loc) + of_bool (p \<in> free_space ts) \<le> of_bool (p \<in> usable res ts)" for p
    using space_ledger [OF inv, of p] un by (cases "p \<in> loc_set loc") (simp_all add: unowned_def)
  ultimately show "space_inv res (em_release_source loc em) ts"
    using inv un unfolding em'_def [symmetric] space_inv_def f unowned_def by auto
  show "em_view (em_release_source loc em) = em_view em"
    by (rule ext) (simp add: em_view_def em_release_source_def)
qed

lemma commit_migration_ok:
  assumes inv: "space_inv res em ts" and en: "em_lookup (mh_extent_id h) em = Some en"
    and gen: "generation (ee_raw en) = mh_gen_before h" and un: "unowned res loc em ts"
    and fit: "ee_used en + HEADER_SIZE \<le> dl_length loc"
  shows "\<exists>em'. em_commit_migration h loc em = (True, em') \<and> space_inv res em' ts \<and>
    em_view em' = (em_view em)(mh_extent_id h \<mapsto> (loc, ee_used en, ee_live en))"
proof -
  define ext en' where "ext = mh_extent_id h"
    and "en' = en\<lparr>ee_loc := loc, ee_raw := set_state ACTIVE (mh_gen_before h + 1) (ee_raw en)\<rparr>"
  define em' where "em' = mark_dirty ext (add_deferred_free (ee_loc en) (em_store ext en' em))"
  have en0: "em_lookup ext em = Some en" using en by (simp add: ext_def)
  have d: "distinct (al_keys (em_entries em))" using inv by (simp add: space_inv_def)
  note e = space_inv_entry [OF inv en0]
  have f: "em_entries em' = AList.update ext en' (em_entries em)" "em_deferred em' = em_deferred em @ [(ee_loc en, em_seqno em)]"
    "em_block_size em' = em_block_size em" "em_next_id em' = em_next_id em"
    by (simp_all add: em'_def add_deferred_free_def em_store_def mark_dirty_def)
  have loc': "ee_loc en' = loc" by (simp add: en'_def)
  have "owners em' p = owners em p + of_bool (p \<in> loc_set loc)" for p
    using filter_update_present [OF d en0 [unfolded em_lookup_def], of "\<lambda>(ext, en). p \<in> loc_set (ee_loc en)" en']
    by (cases "p \<in> loc_set (ee_loc en)"; cases "p \<in> loc_set loc") (simp_all add: owners_def f(1,2) loc')
  moreover have "owners em p + of_bool (p \<in> loc_set loc) + of_bool (p \<in> free_space ts) \<le> of_bool (p \<in> usable res ts)" for p
    using space_ledger [OF inv, of p] un by (cases "p \<in> loc_set loc") (simp_all add: unowned_def)
  moreover have "packing_ok en'" using e(2) fit by (simp add: packing_ok_def en'_def)
  moreover have "loc_ok (em_block_size em) (ee_loc en')" using un by (simp add: unowned_def en'_def)
  moreover have "set (em_entries em') \<subseteq> insert (ext, en') (set (em_entries em))" using set_al_update [OF d] by (simp add: f)
  ultimately have "space_inv res em' ts"
    using inv e distinct_al_update [OF d] unfolding space_inv_def f(3,4)
    by (auto simp: f(1,2))
  moreover have "em_view em' = (em_view em)(ext \<mapsto> (loc, ee_used en, ee_live en))"
    by (rule HOL.ext) (simp add: em_view_def em'_def, simp add: en'_def)
  ultimately show ?thesis
    using en0 gen by (intro exI [of _ em']) (simp add: em_commit_migration_def em'_def en'_def ext_def)
qed

lemma owners_store:
  assumes "distinct (al_keys (em_entries em))" and "em_lookup ext em = Some en" and "ee_loc en' = ee_loc en"
  shows "owners (em_store ext en' em) = owners em"
proof
  fix p
  show "owners (em_store ext en' em) p = owners em p"
    using filter_update_present [OF assms(1) assms(2) [unfolded em_lookup_def], of "\<lambda>(ext, en). p \<in> loc_set (ee_loc en)" en'] assms(3)
    by (simp add: owners_def em_store_def)
qed

lemma unowned_abort:
  assumes "unowned res loc em ts" and "distinct (al_keys (em_entries em))"
  shows "unowned res loc (em_abort_migration h em) ts"
proof -
  have "owners (em_abort_migration h em) = owners em"
    using owners_store [OF assms(2), of "mh_extent_id h"] by (auto simp: em_abort_migration_def split: option.split)
  moreover have "em_block_size (em_abort_migration h em) = em_block_size em"
    by (auto simp: em_abort_migration_def em_store_def split: option.split)
  ultimately show ?thesis using assms(1) by (simp add: unowned_def)
qed

lemma unowned_dev: "unowned res loc em ts \<Longrightarrow> same_allocs ts ts' \<Longrightarrow> unowned res loc em ts'"
  by (simp add: unowned_def same_allocs_def free_space_def usable_def)

lemma unowned_disjoint:
  assumes "unowned res loc em ts" and "em_view em ext = Some (l, used, live)"
  shows "loc_set l \<inter> loc_set loc = {}"
proof -
  obtain en where en: "em_lookup ext em = Some en" "ee_loc en = l" using assms(2) by (auto simp: em_view_Some)
  have "p \<notin> loc_set loc" if "p \<in> loc_set l" for p
  proof
    assume "p \<in> loc_set loc"
    then have "owners em p = 0" using assms(1) by (simp add: unowned_def)
    with owners_entry [OF en(1), of p] that en(2) show False by simp
  qed
  then show ?thesis by blast
qed

section \<open>The engine\<close>

lemma keeps_tiers:
  assumes inv: "eng_inv res e" and sp: "space_inv res (eng_em e) ts'" and ag: "dev_agree S (eng_tiers e) ts'"
    and dis: "\<And>ext loc used live. em_view (eng_em e) ext = Some (loc, used, live) \<Longrightarrow> loc_set loc \<inter> S = {}"
  shows "keeps res e (e\<lparr>eng_tiers := ts'\<rparr>)"
proof -
  have "keeps res e (e\<lparr>eng_em := eng_em e, eng_tiers := ts'\<rparr>)"
    by (rule keeps_em [OF inv sp ag]) (use inv dis in \<open>auto simp: eng_inv_def\<close>)
  then show ?thesis by simp
qed

lemma keeps_quiet:
  assumes "keeps res e0 e" and "quiet f"
  shows "keeps res e0 (e\<lparr>eng_em := f (eng_em e)\<rparr>)"
  using assms(1) quiet_engine(1) [OF _ assms(2)] keeps_trans by (auto simp: keeps_def)

text \<open>Reading a device changes nothing that matters.\<close>

lemma mg_read_ok:
  assumes inv: "eng_inv res (mg_engine g)" and d: "side_dev (t = FAST) (mg_tiers g) = Some d"
    and rd: "kd_read off len True d = (r, bs, d')"
  shows "mg_read t off len g = Some (r, bs, mg_tiers_update (set_dev t d') g)"
    and "dev_agree {} (mg_tiers g) (set_dev t d' (mg_tiers g))" and "same_allocs (mg_tiers g) (set_dev t d' (mg_tiers g))"
    and "keeps res (mg_engine g) ((mg_engine g)\<lparr>eng_tiers := set_dev t d' (mg_tiers g)\<rparr>)"
proof -
  show "mg_read t off len g = Some (r, bs, mg_tiers_update (set_dev t d') g)"
    using d rd by (simp add: mg_read_def dev_of_side)
  show ag: "dev_agree {} (mg_tiers g) (set_dev t d' (mg_tiers g))"
    using kd_read_spec [OF rd] d by (auto simp: dev_agree_def split: option.split)
  show al: "same_allocs (mg_tiers g) (set_dev t d' (mg_tiers g))" by (simp add: same_allocs_def)
  have "space_inv res (mg_em g) (set_dev t d' (mg_tiers g))"
    using inv by (intro space_inv_dev [OF _ ag al]) (simp add: eng_inv_def)
  then show "keeps res (mg_engine g) ((mg_engine g)\<lparr>eng_tiers := set_dev t d' (mg_tiers g)\<rparr>)"
    by (intro keeps_tiers [OF inv _ ag]) simp_all
qed

text \<open>What a whole extent reads as.\<close>

lemma read_extent:
  assumes sp: "space_inv res em ts" and v: "em_view em ext = Some (loc, used, live)" and len: "dl_length loc \<le> 2 ^ 30"
    and d: "side_dev (dl_tier loc = FAST) ts = Some d"
    and rd: "kd_read (dl_offset loc) (dl_length loc) True d = (r, bs, d')" and ok: "\<not> r < 0"
  shows "bs = slice (contents d) (dl_offset loc) (dl_length loc)"
proof -
  obtain a d0 where a: "side_alloc (dl_tier loc = FAST) ts = Some a" and "side_dev (dl_tier loc = FAST) ts = Some d0"
    and "device_size a \<le> file_len d0" "no_short d0"
    by (rule side_okE [OF sp, of "dl_tier loc = FAST"])
  then have fl: "device_size a \<le> file_len d" "no_short d" using d by auto
  note ve = view_entry [OF sp v]
  have "0 < dl_length loc" using ve(3) by (simp add: loc_ok_def)
  from loc_set_end [OF sp ve(2) this a] show ?thesis
    using kd_read_full [OF rd _ fl(2)] ok fl(1) len by (simp add: MAX_RW_COUNT_def)
qed

lemma slice_patch_inside:
  assumes "off \<le> off'" and "off' + len \<le> off + length bs"
  shows "slice (patch off bs f) off' len = take len (drop (off' - off) bs)"
  using assms by (intro nth_equalityI) (auto simp: patch_in)

lemma slice_slice: "k + len \<le> n \<Longrightarrow> take len (drop k (slice f off n)) = slice f (off + k) len"
  by (intro nth_equalityI) (auto simp: add.assoc)

lemma relocate_keeps:
  assumes inv: "eng_inv res e" and sp: "space_inv res em' (eng_tiers e)"
    and old: "em_view (eng_em e) ext = Some (loc, used, live)"
    and new: "em_view em' = (em_view (eng_em e))(ext \<mapsto> (loc', used, live))"
    and vals: "\<And>kl. kl_offset kl + kl_length kl \<le> used \<Longrightarrow> value_at loc' kl (eng_tiers e) = value_at loc kl (eng_tiers e)"
  shows "keeps res e (e\<lparr>eng_em := em'\<rparr>)"
proof -
  define m v where "m = km_view (eng_km e)" and "v = em_view (eng_em e)"
  have kp: "keys_placed m v" and lc: "live_counted m no_slack v" using inv by (auto simp: eng_inv_def m_def v_def)
  have old': "v ext = Some (loc, used, live)" using old by (simp add: v_def)
  have "keys_placed m (v(ext \<mapsto> (loc', used, live)))" using keys_placed_wider [OF kp old'] by simp
  moreover have "live_counted m no_slack (v(ext \<mapsto> (loc', used, live)))"
    using lc old' by (auto simp: live_counted_def)
  moreover have "stored m (v(ext \<mapsto> (loc', used, live))) (eng_tiers e) = stored m v (eng_tiers e)"
  proof
    fix k
    show "stored m (v(ext \<mapsto> (loc', used, live))) (eng_tiers e) k = stored m v (eng_tiers e) k"
    proof (cases "m k")
      case None
      then show ?thesis by (simp add: stored_def)
    next
      case (Some kl)
      from keys_placedE [OF kp Some] obtain l u i where "v (kl_extent kl) = Some (l, u, i)" "kl_offset kl + kl_length kl \<le> u" .
      with Some old' vals [of kl] show ?thesis by (auto simp: stored_def)
    qed
  qed
  ultimately show ?thesis
    using inv sp new by (simp add: keeps_def eng_inv_def eng_abs_def m_def v_def)
qed

text \<open>
  The end of \<open>migrate_tier\<close>: the data is written to the new location, which nobody owns, and the
  location of the extent is switched.
\<close>

lemma write_copy:
  assumes inv: "eng_inv res e" and v: "em_view (eng_em e) ext = Some (loc, used, live)" and len: "dl_length loc \<le> 2 ^ 30"
    and un: "unowned res loc' (eng_em e) (eng_tiers e)" and big: "dl_length loc \<le> dl_length loc'"
    and t: "(dl_tier loc' = FAST) = (t = FAST)"
    and src: "side_dev (dl_tier loc = FAST) (eng_tiers e) = Some ds" and data: "data = slice (contents ds) (dl_offset loc) (dl_length loc)"
    and d: "side_dev (t = FAST) (eng_tiers e) = Some d" and w: "kd_write (dl_offset loc') [data] True d = (r, d')"
  shows "keeps res e (e\<lparr>eng_tiers := set_dev t d' (eng_tiers e)\<rparr>)"
    and "unowned res loc' (eng_em e) (set_dev t d' (eng_tiers e))"
    and "\<not> r < 0 \<Longrightarrow> kl_offset kl + kl_length kl \<le> used \<Longrightarrow>
      value_at loc' kl (set_dev t d' (eng_tiers e)) = value_at loc kl (set_dev t d' (eng_tiers e))"
proof -
  define ts ts' where "ts = eng_tiers e" and "ts' = set_dev t d' ts"
  have sp: "space_inv res (eng_em e) ts" using inv by (simp add: eng_inv_def ts_def)
  have n: "length data = dl_length loc" by (simp add: data)
  have "0 < dl_length loc'" using un by (simp add: unowned_def loc_ok_def)
  then have "(dl_tier loc' = FAST, dl_offset loc') \<in> usable res ts" using un by (auto simp: unowned_def loc_set_def ts_def)
  then have off: "dl_offset loc' < 2 ^ 63" by (rule space_inv_bound [OF sp])
  have l31: "length data < 2 ^ 31" and l64: "dl_offset loc' + length data < 2 ^ 64" using off len n by simp_all
  have sub: "{t = FAST} \<times> arange (dl_offset loc') (length data) \<subseteq> loc_set loc'"
    using n big t by (auto simp: loc_set_def)
  note ag = dev_agree_write [OF d [folded ts_def] w l31 l64 sub, folded ts'_def]
  show "keeps res e (e\<lparr>eng_tiers := set_dev t d' (eng_tiers e)\<rparr>)"
    using keeps_tiers [OF inv space_inv_dev [OF sp ag]] ag(1) unowned_disjoint [OF un] by (simp add: ts_def ts'_def)
  show "unowned res loc' (eng_em e) (set_dev t d' (eng_tiers e))"
    using unowned_dev [OF un] ag(2) by (simp add: ts_def ts'_def)
  assume ok: "\<not> r < 0" and fit: "kl_offset kl + kl_length kl \<le> used"
  have used: "used + HEADER_SIZE \<le> dl_length loc" using view_entry(1) [OF sp v] .
  define k where "k = HEADER_SIZE + kl_offset kl"
  have kin: "k + kl_length kl \<le> dl_length loc" using used fit by (simp add: k_def)
  have "contents d' = patch (dl_offset loc') data (contents d)"
    using kd_write_spec [OF w] l31 l64 ok by simp
  then have "slice (contents d') (dl_offset loc' + k) (kl_length kl) = take (kl_length kl) (drop k data)"
    using kin n by (simp add: slice_patch_inside)
  also have "\<dots> = slice (contents ds) (dl_offset loc + k) (kl_length kl)"
    unfolding data by (rule slice_slice [OF kin])
  finally have new: "value_at loc' kl ts' = Some (slice (contents ds) (dl_offset loc + k) (kl_length kl))"
    by (simp add: value_at_def dev_of_side ts'_def t k_def add.assoc)
  have "slot_set loc (kl_offset kl) (kl_length kl) \<subseteq> loc_set loc" using used fit by (intro slot_set_sub) linarith
  then have dis: "slot_set loc (kl_offset kl) (kl_length kl) \<inter> loc_set loc' = {}" using unowned_disjoint [OF un v] by blast
  have "value_at loc kl ts' = value_at loc kl ts" by (rule value_at_agree [OF ag(1) dis])
  also have "\<dots> = Some (slice (contents ds) (dl_offset loc + k) (kl_length kl))"
    using src by (simp add: value_at_def dev_of_side ts_def k_def add.assoc)
  finally show "value_at loc' kl (set_dev t d' (eng_tiers e)) = value_at loc kl (set_dev t d' (eng_tiers e))"
    using new by (simp add: ts_def ts'_def)
qed

lemma em_view_of_claimed:
  assumes "em_begin_migration ext em = (Some h, em1)"
  obtains en where "em_lookup ext em1 = Some en" and "generation (ee_raw en) = mh_gen_before h" and "mh_extent_id h = ext"
    and "em_view em ext = Some (mh_src_loc h, ee_used en, ee_live en)" and "ee_loc en = mh_src_loc h"
proof -
  obtain en0 where en0: "em_lookup ext em = Some en0" "claimed ext en0 0 em1" "mh_extent_id h = ext"
    "mh_src_loc h = ee_loc en0" "mh_gen_before h = generation (ee_raw en0)"
    by (rule em_begin_migration_claims [OF assms])
  obtain en where en: "em_lookup ext em1 = Some en" "ee_loc en = ee_loc en0" "ee_used en = ee_used en0"
    "unat (generation (ee_raw en)) = (unat (generation (ee_raw en0)) + 0) mod 2 ^ 32" "0 = (0 :: nat) \<longrightarrow> ee_live en = ee_live en0"
    by (rule claimedE [OF en0(2)])
  have "generation (ee_raw en) = generation (ee_raw en0)"
    using en(4) generation_less [of "ee_raw en0"] by (simp add: word_unat_eq_iff)
  with that [OF en(1)] en en0 show ?thesis by (simp add: em_view_def)
qed

lemma begin_keeps:
  assumes "eng_inv res e" and "em_begin_migration ext (eng_em e) = (r, em1)"
  shows "keeps res e (e\<lparr>eng_em := em1\<rparr>)" and "em_view em1 = em_view (eng_em e)" and "em_next_id em1 = next_extent e"
    and "em_block_size em1 = em_block_size (eng_em e)"
  using quiet_engine [OF assms(1) quiet_begin, of ext] quiet_begin [of ext, unfolded quiet_def, rule_format, of "eng_em e"] assms(2)
  by (simp_all add: em_same_def)

text \<open>What a migration achieves.\<close>

definition migrated :: "nat \<Rightarrow> u64 \<Rightarrow> tier \<Rightarrow> engine \<Rightarrow> migration_result \<Rightarrow> engine \<Rightarrow> bool" where
  "migrated res ext dst e r e' \<longleftrightarrow> keeps res e e' \<and>
     (if r = COMMITTED
      then \<exists>loc loc' used live. em_view (eng_em e) ext = Some (loc, used, live) \<and> (dl_tier loc' = FAST \<longleftrightarrow> dst = FAST) \<and>
        em_view (eng_em e') = (em_view (eng_em e))(ext \<mapsto> (loc', used, live))
      else em_view (eng_em e') = em_view (eng_em e))"

lemma migrate_after_alloc:
  assumes inv: "eng_inv res (mg_engine g)" and claim: "em_lookup ext (mg_em g) = Some en" "generation (ee_raw en) = mh_gen_before h"
    "mh_extent_id h = ext" and loc: "ee_loc en = loc" and len: "dl_length loc \<le> 2 ^ 30"
    and un: "unowned res loc' (mg_em g) (mg_tiers g)" and big: "dl_length loc \<le> dl_length loc'"
    and t: "(dl_tier loc' = FAST) = (dst = FAST)"
    and src: "side_dev (dl_tier loc = FAST) (mg_tiers g) = Some ds" and data: "data = slice (contents ds) (dl_offset loc) (dl_length loc)"
  shows "\<exists>r g4. mg_write dst (dl_offset loc') data g = Some (r, g4) \<and>
    (if r < 0
     then migrated res ext dst (mg_engine g) FAILED (mg_engine (mg_em_update (em_release_source loc' \<circ> em_abort_migration h) g4))
     else \<exists>em5. em_commit_migration h loc' (mg_em g4) = (True, em5) \<and>
       migrated res ext dst (mg_engine g) COMMITTED (mg_engine (mg_em_update (\<lambda>_. em5) g4)))"
proof -
  define e where "e = mg_engine g"
  have v: "em_view (eng_em e) ext = Some (loc, ee_used en, ee_live en)" using claim(1) loc by (simp add: em_view_def e_def)
  have sp: "space_inv res (eng_em e) (eng_tiers e)" using inv by (simp add: eng_inv_def e_def)
  obtain d where d: "side_dev (dst = FAST) (eng_tiers e) = Some d" by (rule side_okE [OF sp])
  obtain r d' where w: "kd_write (dl_offset loc') [data] True d = (r, d')" by fastforce
  define e4 where "e4 = e\<lparr>eng_tiers := set_dev dst d' (eng_tiers e)\<rparr>"
  note wc = write_copy [OF inv [folded e_def] v len un [folded e_def] big t src [folded e_def] data d w]
  have k4: "keeps res e e4" and un4: "unowned res loc' (eng_em e4) (eng_tiers e4)" using wc(1,2) by (simp_all add: e4_def)
  then have inv4: "eng_inv res e4" and sp4: "space_inv res (eng_em e4) (eng_tiers e4)" by (auto simp: keeps_def eng_inv_def)
  have run: "mg_write dst (dl_offset loc') data g = Some (r, mg_tiers_update (set_dev dst d') g)"
    using d w by (simp add: mg_write_def dev_of_side e_def)
  have g4: "mg_engine (mg_tiers_update (set_dev dst d') g) = e4" by (simp add: e4_def e_def)
  show ?thesis
  proof (cases "r < 0")
    case True
    define em5 where "em5 = em_abort_migration h (eng_em e4)"
    have k5: "keeps res e (e4\<lparr>eng_em := em5\<rparr>)" unfolding em5_def by (rule keeps_quiet [OF k4 quiet_abort])
    then have inv5: "eng_inv res (e4\<lparr>eng_em := em5\<rparr>)" by (simp add: keeps_def)
    have "distinct (al_keys (em_entries (eng_em e4)))" using sp4 by (simp add: space_inv_def)
    then have "unowned res loc' em5 (eng_tiers e4)" unfolding em5_def by (rule unowned_abort [OF un4])
    with inv5 have rs: "space_inv res (em_release_source loc' em5) (eng_tiers e4)" "em_view (em_release_source loc' em5) = em_view em5"
      using release_source_ok by (auto simp: eng_inv_def)
    have view5: "em_view em5 = em_view (eng_em e)"
      using quiet_engine(2) [OF inv4 quiet_abort, of h] by (simp add: em5_def e4_def)
    have "keeps res e (e4\<lparr>eng_em := em_release_source loc' em5\<rparr>)"
      using k5 rs by (auto simp: keeps_def eng_inv_def eng_abs_def)
    then show ?thesis using True run rs(2) view5 g4 by (simp add: migrated_def e_def em5_def)
  next
    case False
    have "ee_used en + HEADER_SIZE \<le> dl_length loc" using view_entry(1) [OF sp v] .
    then have fit: "ee_used en + HEADER_SIZE \<le> dl_length loc'" using big by simp
    have cl: "em_lookup (mh_extent_id h) (eng_em e4) = Some en" using claim(1,3) by (simp add: e4_def e_def)
    obtain em5 where em5: "em_commit_migration h loc' (eng_em e4) = (True, em5)" "space_inv res em5 (eng_tiers e4)"
      "em_view em5 = (em_view (eng_em e4))(ext \<mapsto> (loc', ee_used en, ee_live en))"
      using commit_migration_ok [OF sp4 cl claim(2) un4 fit] claim(3) by auto
    have v4: "em_view (eng_em e4) ext = Some (loc, ee_used en, ee_live en)" using v by (simp add: e4_def)
    have "keeps res e4 (e4\<lparr>eng_em := em5\<rparr>)"
      by (rule relocate_keeps [OF inv4 em5(2) v4 em5(3)]) (use wc(3) False in \<open>simp add: e4_def\<close>)
    then have "migrated res ext dst e COMMITTED (e4\<lparr>eng_em := em5\<rparr>)"
      using keeps_trans [OF k4] em5(3) v t by (auto simp: migrated_def e4_def)
    then show ?thesis using False run em5(1) g4 by (simp add: e_def)
  qed
qed

lemma migrated_lift:
  assumes "keeps res e e3" and "em_view (eng_em e3) = em_view (eng_em e)" and "migrated res ext dst e3 x e'"
  shows "migrated res ext dst e x e'"
  using assms(3) keeps_trans [OF assms(1)] assms(2) by (auto simp: migrated_def split: if_splits)

lemma migrated_abort:
  assumes "keeps res e e'" and "em_view (eng_em e') = em_view (eng_em e)"
  shows "migrated res ext dst e FAILED (e'\<lparr>eng_em := em_abort_migration h (eng_em e')\<rparr>)"
  using assms keeps_quiet [OF assms(1) quiet_abort] quiet_engine(2) [OF _ quiet_abort, of res e']
  by (auto simp: migrated_def keeps_def)

lemma move_data_ok:
  assumes inv: "eng_inv res (mg_engine g)" and claim: "em_lookup ext (mg_em g) = Some en" "generation (ee_raw en) = mh_gen_before h"
    "mh_extent_id h = ext" and loc: "ee_loc en = mh_src_loc h" and len: "dl_length (mh_src_loc h) \<le> 2 ^ 30"
    and piece: "in_one_piece dst (dl_length (mh_src_loc h)) (mg_em g) (mg_tiers g)"
    and src: "side_dev (dl_tier (mh_src_loc h) = FAST) (mg_tiers g) = Some ds"
    and data: "data = slice (contents ds) (dl_offset (mh_src_loc h)) (dl_length (mh_src_loc h))"
  shows "\<exists>r g'. move_data h src dst data g = Some (r, g') \<and> migrated res ext dst (mg_engine g) r (mg_engine g')"
proof -
  define e l where "e = mg_engine g" and "l = mh_src_loc h"
  have sp: "space_inv res (eng_em e) (eng_tiers e)" using inv by (simp add: eng_inv_def e_def)
  obtain o3 ts3 where al: "em_allocate_raw dst (dl_length l) (eng_em e) (eng_tiers e) = Some (o3, ts3)" "space_inv res (eng_em e) ts3"
    "dev_agree {} (eng_tiers e) ts3" "\<And>loc. o3 = Some loc \<Longrightarrow> unowned res loc (eng_em e) ts3"
    using em_allocate_raw_ok [OF sp len [folded l_def], of dst] by blast
  define g3 e3 where "g3 = mg_tiers_update (\<lambda>_. ts3) g" and "e3 = e\<lparr>eng_tiers := ts3\<rparr>"
  have ge3: "mg_engine g3 = e3" by (simp add: g3_def e3_def e_def)
  have k3: "keeps res e e3"
    unfolding e3_def by (rule keeps_tiers [OF inv [folded e_def] al(2,3)]) simp
  have view3: "em_view (eng_em e3) = em_view (eng_em e)" by (simp add: e3_def)
  show ?thesis
  proof (cases o3)
    case None
    then show ?thesis
      using al(1) migrated_abort [OF k3 view3] ge3 by (simp add: move_data_def e_def l_def g3_def)
  next
    case (Some loc')
    have pc: "(dl_tier loc' = FAST) = (dst = FAST)" "dl_length l \<le> dl_length loc'"
      using piece al(1) Some by (auto simp: in_one_piece_def e_def l_def)
    obtain d3 where d3: "side_dev (dl_tier l = FAST) ts3 = Some d3" "\<And>x. contents d3 x = contents ds x"
      by (rule dev_agree_Some [OF al(3) src [folded e_def l_def]]) auto
    have src3: "side_dev (dl_tier l = FAST) (mg_tiers g3) = Some d3" "data = slice (contents d3) (dl_offset l) (dl_length l)"
      using data d3 by (simp_all add: ge3 e3_def slice_def l_def)
    have inv3: "eng_inv res (mg_engine g3)" using k3 ge3 by (simp add: keeps_def)
    have un3: "unowned res loc' (mg_em g3) (mg_tiers g3)" using al(4) [OF Some] by (simp add: ge3 e3_def)
    have en3: "em_lookup ext (mg_em g3) = Some en" using claim(1) by (simp add: ge3 e3_def e_def)
    obtain r4 g4 where w: "mg_write dst (dl_offset loc') data g3 = Some (r4, g4)"
      and out: "if r4 < 0
         then migrated res ext dst e3 FAILED (mg_engine (mg_em_update (em_release_source loc' \<circ> em_abort_migration h) g4))
         else \<exists>em5. em_commit_migration h loc' (mg_em g4) = (True, em5) \<and>
           migrated res ext dst e3 COMMITTED (mg_engine (mg_em_update (\<lambda>_. em5) g4))"
      using migrate_after_alloc [OF inv3 en3 claim(2,3) loc [folded l_def] len [folded l_def] un3 pc(2,1) src3] ge3 by auto
    show ?thesis
      using al(1) Some w out migrated_lift [OF k3 view3] unfolding move_data_def
      by (cases "r4 < 0") (auto simp: e_def l_def g3_def)
  qed
qed

lemma migrate_tier_ok:
  assumes inv: "eng_inv res (mg_engine g)"
    and pre: "\<And>loc used live. em_view (mg_em g) ext = Some (loc, used, live) \<Longrightarrow>
      (dl_tier loc = FAST \<longleftrightarrow> src = FAST) \<and> dl_length loc \<le> 2 ^ 30 \<and> in_one_piece dst (dl_length loc) (mg_em g) (mg_tiers g)"
  shows "\<exists>r g'. migrate_tier ext src dst g = Some (r, g') \<and> migrated res ext dst (mg_engine g) r (mg_engine g')"
proof -
  define e where "e = mg_engine g"
  obtain ho em1 where b: "em_begin_migration ext (eng_em e) = (ho, em1)" by fastforce
  show ?thesis
  proof (cases ho)
    case None
    then show ?thesis using b keeps_refl [OF inv] by (simp add: migrate_tier_def migrated_def e_def)
  next
    case (Some h)
    obtain en where en: "em_lookup ext em1 = Some en" "generation (ee_raw en) = mh_gen_before h" "mh_extent_id h = ext"
      and v: "em_view (eng_em e) ext = Some (mh_src_loc h, ee_used en, ee_live en)" and loc: "ee_loc en = mh_src_loc h"
      by (rule em_view_of_claimed [OF b [unfolded Some]])
    define l where "l = mh_src_loc h"
    have pl: "(dl_tier l = FAST) = (src = FAST)" "dl_length l \<le> 2 ^ 30" "in_one_piece dst (dl_length l) (eng_em e) (eng_tiers e)"
      using pre v by (simp_all add: e_def l_def)
    define g1 e1 where "g1 = mg_em_update (\<lambda>_. em1) g" and "e1 = e\<lparr>eng_em := em1\<rparr>"
    have ge1: "mg_engine g1 = e1" by (simp add: g1_def e1_def e_def)
    note bk = begin_keeps [OF inv [folded e_def] b, folded e1_def]
    have inv1: "eng_inv res e1" and sp1: "space_inv res em1 (eng_tiers e)" using bk(1) by (auto simp: keeps_def eng_inv_def e1_def)
    obtain d where d: "side_dev (src = FAST) (eng_tiers e) = Some d" by (rule side_okE [OF sp1])
    obtain r data d2 where rd: "kd_read (dl_offset l) (dl_length l) True d = (r, data, d2)" by (metis prod_cases3)
    define ts2 g2 where "ts2 = set_dev src d2 (eng_tiers e)" and "g2 = mg_tiers_update (set_dev src d2) g1"
    define e2 where "e2 = e1\<lparr>eng_tiers := ts2\<rparr>"
    have ge2: "mg_engine g2 = e2" by (simp add: g2_def ge1 e2_def ts2_def e1_def)
    have rk: "mg_read src (dl_offset l) (dl_length l) g1 = Some (r, data, g2)" "keeps res e1 e2"
      using mg_read_ok [of res g1 src d, OF _ _ rd] inv1 d ge1 by (simp_all add: e1_def g2_def e2_def ts2_def)
    have k2: "keeps res e e2" using keeps_trans [OF bk(1) rk(2)] .
    then have inv2: "eng_inv res (mg_engine g2)" by (simp add: keeps_def ge2)
    have view2: "em_view (eng_em e2) = em_view (eng_em e)" using bk(2) by (simp add: e2_def e1_def)
    have run: "migrate_tier ext src dst g =
        (if r < 0 then Some (FAILED, count_io_error (mg_em_update (em_abort_migration h) g2)) else move_data h src dst data g2)"
      using b rk(1) unfolding Some by (simp add: migrate_tier_def e_def [symmetric] g1_def [symmetric] l_def [symmetric])
    show ?thesis
    proof (cases "r < 0")
      case True
      then show ?thesis using run migrated_abort [OF k2 view2] ge2 by (simp add: e_def)
    next
      case False
      have em2: "mg_em g2 = em1" "mg_tiers g2 = ts2" by (simp_all add: ge2 e2_def e1_def)
      have "em_allocate_raw dst (dl_length l) em1 ts2 =
          map_option (\<lambda>(x, ts'). (x, set_dev src d2 ts')) (em_allocate_raw dst (dl_length l) (eng_em e) (eng_tiers e))"
        unfolding ts2_def by (rule em_allocate_raw_set_dev [OF bk(4)])
      then have pc: "in_one_piece dst (dl_length l) (mg_em g2) (mg_tiers g2)"
        using pl(3) em2 by (auto simp: in_one_piece_def split: option.splits)
      have "data = slice (contents d) (dl_offset l) (dl_length l)"
        using read_extent [of res em1 "eng_tiers e" ext l] sp1 v bk(2) pl(1,2) d rd False by (simp add: l_def)
      then have src2: "side_dev (dl_tier l = FAST) (mg_tiers g2) = Some d2" "data = slice (contents d2) (dl_offset l) (dl_length l)"
        using kd_read_spec [OF rd] pl(1) by (simp_all add: em2 ts2_def)
      show ?thesis
        using move_data_ok [OF inv2 _ en(2,3) loc pl(2) [unfolded l_def] pc [unfolded l_def] src2 [unfolded l_def], of src]
          en(1) em2(1) run False migrated_lift [OF k2 view2] ge2 by (fastforce simp: e_def)
    qed
  qed
qed

section \<open>Compaction\<close>

text \<open>
  The state of the copy loop: the engine still denotes the map it did when the loop began, the new
  extent is not used by any key, and it holds the values of the keys copied so far.
\<close>

definition copies :: "engine \<Rightarrow> u64 \<Rightarrow> disk_location \<Rightarrow> u32 \<Rightarrow> tiers \<Rightarrow> (key \<times> key_location) list \<Rightarrow> bool" where
  "copies e0 new_ext new_loc u ts ups \<longleftrightarrow>
     (\<forall>(k, kl) \<in> set ups. kl_extent kl = new_ext \<and> kl_offset kl + kl_length kl \<le> u \<and> 0 < kl_length kl \<and>
        value_at new_loc kl ts = eng_abs e0 k)"

definition copy_state :: "nat \<Rightarrow> engine \<Rightarrow> u64 \<Rightarrow> disk_location \<Rightarrow> (key \<times> key_location) list \<Rightarrow> engine \<Rightarrow> bool" where
  "copy_state res e0 new_ext new_loc ups e \<longleftrightarrow> keeps res e0 e \<and>
     (\<exists>u l. em_view (eng_em e) = (em_view (eng_em e0))(new_ext \<mapsto> (new_loc, u, l)) \<and>
        (\<Sum>(k, kl) \<leftarrow> ups. kl_length kl) \<le> l \<and> copies e0 new_ext new_loc u (eng_tiers e) ups)"

lemma mg_write_value:
  assumes "(t = FAST) = (dl_tier loc = FAST)" and "write_value loc off v (mg_engine g) = Some (r, e')"
  shows "\<exists>g'. mg_write t (slot_address loc off) v g = Some (r, g') \<and> mg_engine g' = e'"
proof -
  have "dev_of t ts = dev_of (dl_tier loc) ts" "set_dev t d ts = set_dev (dl_tier loc) d ts" for ts d
    using assms(1) by (simp_all add: dev_of_def set_dev_def)
  with assms(2) show ?thesis
    by (auto simp: mg_write_def write_value_def mg_tiers_update_def split: option.splits prod.splits)
qed

lemma copies_agree:
  assumes "copies e0 new_ext new_loc u ts ups" and "dev_agree S ts ts'" and "slot_set new_loc 0 u \<inter> S = {}" and "u \<le> u'"
  shows "copies e0 new_ext new_loc u' ts' ups"
  unfolding copies_def
proof clarify
  fix k kl assume "(k, kl) \<in> set ups"
  then have k: "kl_extent kl = new_ext" "kl_offset kl + kl_length kl \<le> u" "0 < kl_length kl" "value_at new_loc kl ts = eng_abs e0 k"
    using assms(1) by (auto simp: copies_def)
  have "slot_set new_loc (kl_offset kl) (kl_length kl) \<subseteq> slot_set new_loc 0 u" using k(2) by (auto simp: slot_set_def)
  then have "value_at new_loc kl ts' = value_at new_loc kl ts" using assms(3) by (intro value_at_agree [OF assms(2)]) blast
  with k assms(4) show "kl_extent kl = new_ext \<and> kl_offset kl + kl_length kl \<le> u' \<and> 0 < kl_length kl \<and> value_at new_loc kl ts' = eng_abs e0 k"
    by simp
qed

lemma copy_state_Nil: "copy_state res e0 new_ext new_loc ups e \<Longrightarrow> copy_state res e0 new_ext new_loc [] e"
  by (auto simp: copy_state_def copies_def)

text \<open>What the loop relies on: the source extent, the new one, and that no key lies in the new one.\<close>

definition copy_ready :: "nat \<Rightarrow> engine \<Rightarrow> migration_handle \<Rightarrow> u64 \<Rightarrow> disk_location \<Rightarrow> bool" where
  "copy_ready res e0 h new_ext new_loc \<longleftrightarrow> eng_inv res e0 \<and>
     (\<exists>used live. em_view (eng_em e0) (mh_extent_id h) = Some (mh_src_loc h, used, live)) \<and>
     mh_extent_id h \<noteq> new_ext \<and> dl_length (mh_src_loc h) \<le> 2 ^ 30 \<and>
     (dl_tier (mh_src_loc h) = FAST \<longleftrightarrow> dl_tier new_loc = FAST) \<and>
     (\<forall>k kl. km_view (eng_km e0) k = Some kl \<longrightarrow> kl_extent kl \<noteq> new_ext)"

lemma copy_read:
  assumes ready: "copy_ready res e0 h new_ext new_loc" and st: "copy_state res e0 new_ext new_loc ups (mg_engine g)"
    and k: "km_view (eng_km e0) k = Some kl" "kl_extent kl = mh_extent_id h"
  shows "\<exists>r bl g1. mg_read (dl_tier (mh_src_loc h)) (slot_address (mh_src_loc h) (kl_offset kl)) (kl_length kl) g = Some (r, bl, g1) \<and>
    copy_state res e0 new_ext new_loc ups (mg_engine g1) \<and> (\<not> r < 0 \<longrightarrow> eng_abs e0 k = Some bl \<and> length bl = kl_length kl) \<and>
    kl_length kl < 2 ^ 30 \<and> 0 < kl_length kl"
proof -
  define e l where "e = mg_engine g" and "l = mh_src_loc h"
  have ke: "keeps res e0 e" using st by (simp add: copy_state_def e_def)
  then have inv: "eng_inv res e" and km: "eng_km e = eng_km e0" and ab: "eng_abs e = eng_abs e0" by (auto simp: keeps_def)
  have sp: "space_inv res (eng_em e) (eng_tiers e)" and kp: "keys_placed (km_view (eng_km e)) (em_view (eng_em e))"
    using inv by (auto simp: eng_inv_def)
  have "em_view (eng_em e) (mh_extent_id h) = em_view (eng_em e0) (mh_extent_id h)"
    using st ready by (auto simp: copy_state_def copy_ready_def e_def)
  then obtain used live where v: "em_view (eng_em e) (kl_extent kl) = Some (l, used, live)"
    using ready k(2) by (auto simp: copy_ready_def l_def)
  have fit: "kl_offset kl + kl_length kl \<le> used" "0 < kl_length kl"
    by (rule keys_placedE [OF kp k(1) [folded km]]; use v in simp)+
  have small: "kl_length kl < 2 ^ 30"
    using view_entry(1) [OF sp v] fit(1) ready by (simp add: copy_ready_def l_def HEADER_SIZE_def)
  obtain d where d: "side_dev (dl_tier l = FAST) (eng_tiers e) = Some d" by (rule side_okE [OF sp])
  obtain r bl d1 where rd: "kd_read (slot_address l (kl_offset kl)) (kl_length kl) True d = (r, bl, d1)" by (metis prod_cases3)
  define g1 where "g1 = mg_tiers_update (set_dev (dl_tier l) d1) g"
  note mr = mg_read_ok [OF inv [unfolded e_def] d [unfolded e_def] rd]
  have "keeps res e0 (mg_engine g1)" using keeps_trans [OF ke [unfolded e_def] mr(4)] by (simp add: g1_def)
  moreover have "copies e0 new_ext new_loc u (mg_tiers g1) ups" if "copies e0 new_ext new_loc u (mg_tiers g) ups" for u
    using copies_agree [OF that mr(2)] by (simp add: g1_def)
  ultimately have "copy_state res e0 new_ext new_loc ups (mg_engine g1)"
    using st by (auto simp: copy_state_def g1_def)
  moreover have "eng_abs e0 k = Some bl \<and> length bl = kl_length kl" if "\<not> r < 0"
  proof -
    have "bl = slice (contents d) (dl_offset l + HEADER_SIZE + kl_offset kl) (kl_length kl)"
      by (rule read_key [OF sp v fit(1) d rd that])
    then show ?thesis
      using k(1) v d unfolding ab [symmetric] by (simp add: eng_abs_def stored_def km value_at_def dev_of_side)
  qed
  ultimately show ?thesis using mr(1) small fit(2) by (auto simp: g1_def l_def e_def)
qed

lemma copy_store:
  assumes ready: "copy_ready res e0 h new_ext new_loc" and st: "copy_state res e0 new_ext new_loc ups (mg_engine g)"
    and ap: "em_append_slot new_ext sz (mg_em g) = (off, em2)" and off: "off \<noteq> UINT32_MAX"
    and val: "eng_abs e0 k = Some bl" "length bl = sz" and sz: "sz < 2 ^ 30" "0 < sz"
  shows "\<exists>r g3. mg_write (dl_tier (mh_src_loc h)) (slot_address new_loc off) bl (mg_em_update (\<lambda>_. em2) g) = Some (r, g3) \<and>
    copy_state res e0 new_ext new_loc ups (mg_engine g3) \<and>
    (\<not> r < 0 \<longrightarrow> copy_state res e0 new_ext new_loc
       (ups @ [(k, \<lparr>kl_extent = new_ext, kl_offset = off, kl_length = sz\<rparr>)]) (mg_engine g3))"
proof -
  define e where "e = mg_engine g"
  obtain u l where ke: "keeps res e0 e" and view: "em_view (eng_em e) = (em_view (eng_em e0))(new_ext \<mapsto> (new_loc, u, l))"
    and sum: "(\<Sum>(k, kl) \<leftarrow> ups. kl_length kl) \<le> l" and cp: "copies e0 new_ext new_loc u (eng_tiers e) ups"
    using st by (auto simp: copy_state_def e_def)
  have inv: "eng_inv res e" using ke by (simp add: keeps_def)
  have sp: "space_inv res (eng_em e) (eng_tiers e)" using inv by (simp add: eng_inv_def)
  have fresh: "kl_extent kl \<noteq> new_ext" if "km_view (eng_km e) k = Some kl" for k kl
    using that ready ke by (auto simp: copy_ready_def keeps_def)
  have vn: "em_view (eng_em e) new_ext = Some (new_loc, u, l)" using view by simp
  define s where "s = \<lparr>ps_extent = new_ext, ps_offset = off, ps_size = sz, ps_loc = new_loc, ps_new = True\<rparr>"
  define e2 where "e2 = e\<lparr>eng_em := em2\<rparr>"
  have rs: "keeps res e e2" "holds_slot s e2"
    using reserve_slot [OF inv ap [folded e_def] sz(1) vn, of True] fresh off by (auto simp: e2_def s_def)
  have "slot_reserved new_ext sz off (eng_em e) em2"
    using em_append_slot_ok [OF sp ap [folded e_def]] sz(1) off by simp
  then have off_u: "off = u" and view2: "em_view em2 = (em_view (eng_em e0))(new_ext \<mapsto> (new_loc, u + sz, l + sz))"
    using view by (auto simp: slot_reserved_def)
  have inv2: "eng_inv res e2" using rs(1) by (simp add: keeps_def)
  obtain r e3 where w: "write_value new_loc off bl e2 = Some (r, e3)" and k3: "keeps res e2 e3" "eng_em e3 = eng_em e2"
    and v3: "0 \<le> r \<Longrightarrow> value_at new_loc (slot_key_location s) (eng_tiers e3) = Some bl"
    and ag: "dev_agree (ps_set s) (eng_tiers e2) (eng_tiers e3)"
    using fill_slot [OF inv2 rs(2), of bl] val(2) sz by (auto simp: s_def)
  have tt: "(dl_tier (mh_src_loc h) = FAST) = (dl_tier new_loc = FAST)" using ready by (simp add: copy_ready_def)
  have w': "write_value new_loc off bl (mg_engine (mg_em_update (\<lambda>_. em2) g)) = Some (r, e3)"
    using w by (simp add: e2_def e_def)
  obtain g3 where g3: "mg_write (dl_tier (mh_src_loc h)) (slot_address new_loc off) bl (mg_em_update (\<lambda>_. em2) g) = Some (r, g3)"
    "mg_engine g3 = e3"
    using mg_write_value [OF tt w'] by blast
  have k03: "keeps res e0 e3" using keeps_trans [OF ke keeps_trans [OF rs(1) k3(1)]] .
  have dis: "slot_set new_loc 0 u \<inter> ps_set s = {}" by (auto simp: s_def off_u slot_set_def)
  have cp3: "copies e0 new_ext new_loc (u + sz) (eng_tiers e3) ups"
    using copies_agree [OF cp _ dis, of "eng_tiers e3" "u + sz"] ag by (simp add: e2_def)
  have view3: "em_view (eng_em e3) = (em_view (eng_em e0))(new_ext \<mapsto> (new_loc, u + sz, l + sz))"
    using view2 k3(2) by (simp add: e2_def)
  have "copy_state res e0 new_ext new_loc ups e3"
    unfolding copy_state_def using k03 view3 cp3 sum by (intro conjI exI [of _ "u + sz"] exI [of _ "l + sz"]) auto
  moreover have "copy_state res e0 new_ext new_loc (ups @ [(k, \<lparr>kl_extent = new_ext, kl_offset = off, kl_length = sz\<rparr>)]) e3"
    if "\<not> r < 0"
    unfolding copy_state_def
    using k03 view3 cp3 sum v3 that val(1) sz(2) off_u
    by (intro conjI exI [of _ "u + sz"] exI [of _ "l + sz"]) (auto simp: copies_def s_def slot_key_location_def)
  ultimately show ?thesis using g3 by auto
qed

lemma copy_keys_ok:
  assumes ready: "copy_ready res e0 h new_ext new_loc" and st: "copy_state res e0 new_ext new_loc ups (mg_engine g)"
    and ks: "\<And>k. k \<in> set ks \<Longrightarrow> \<exists>kl. km_view (eng_km e0) k = Some kl \<and> kl_extent kl = mh_extent_id h"
  shows "\<exists>x g'. copy_keys h new_ext new_loc ks ups g = Some (x, g') \<and>
    (case x of
       Inl io \<Rightarrow> copy_state res e0 new_ext new_loc [] (mg_engine g')
     | Inr ups' \<Rightarrow> copy_state res e0 new_ext new_loc ups' (mg_engine g') \<and> map fst ups' = map fst ups @ ks)"
  using st ks
proof (induction ks arbitrary: ups g)
  case Nil
  then show ?case by simp
next
  case (Cons k ks)
  obtain kl where k: "km_view (eng_km e0) k = Some kl" "kl_extent kl = mh_extent_id h" using Cons.prems(2) by auto
  have lk: "lookup_or_default k (mg_km g) = kl"
    using Cons.prems(1) k(1) by (simp add: copy_state_def keeps_def lookup_or_default_def km_view_def)
  obtain r bl g1 where rd: "mg_read (dl_tier (mh_src_loc h)) (slot_address (mh_src_loc h) (kl_offset kl)) (kl_length kl) g = Some (r, bl, g1)"
    and st1: "copy_state res e0 new_ext new_loc ups (mg_engine g1)"
    and val: "\<not> r < 0 \<Longrightarrow> eng_abs e0 k = Some bl \<and> length bl = kl_length kl" and sz: "kl_length kl < 2 ^ 30" "0 < kl_length kl"
    using copy_read [OF ready Cons.prems(1) k] by blast
  obtain off em2 where ap: "em_append_slot new_ext (kl_length kl) (mg_em g1) = (off, em2)" by fastforce
  define g2 where "g2 = mg_em_update (\<lambda>_. em2) g1"
  have run: "copy_keys h new_ext new_loc (k # ks) ups g =
      (if r < 0 then Some (Inl True, g1)
       else if off = UINT32_MAX then Some (Inl False, g2)
       else do { (r, g3) \<leftarrow> mg_write (dl_tier (mh_src_loc h)) (slot_address new_loc off) bl g2;
                 if r < 0 then Some (Inl True, g3)
                 else copy_keys h new_ext new_loc ks
                        (ups @ [(k, \<lparr>kl_extent = new_ext, kl_offset = off, kl_length = kl_length kl\<rparr>)]) g3 })"
    using rd ap by (simp add: lk Let_def g2_def)
  consider "r < 0" | "\<not> r < 0" "off = UINT32_MAX" | "\<not> r < 0" "off \<noteq> UINT32_MAX" by blast
  then show ?case
  proof cases
    case 1
    then show ?thesis using run copy_state_Nil [OF st1] by simp
  next
    case 2
    have "space_inv res (mg_em g1) (mg_tiers g1)" using st1 by (simp add: copy_state_def keeps_def eng_inv_def)
    then have "em2 = mg_em g1" using em_append_slot_ok [OF _ ap] sz 2 by auto
    then have "mg_engine g2 = mg_engine g1" by (simp add: g2_def)
    then show ?thesis using run 2 copy_state_Nil [OF st1] by simp
  next
    case 3
    obtain r3 g3 where w: "mg_write (dl_tier (mh_src_loc h)) (slot_address new_loc off) bl g2 = Some (r3, g3)"
      and st3: "copy_state res e0 new_ext new_loc ups (mg_engine g3)"
      "\<not> r3 < 0 \<Longrightarrow> copy_state res e0 new_ext new_loc
         (ups @ [(k, \<lparr>kl_extent = new_ext, kl_offset = off, kl_length = kl_length kl\<rparr>)]) (mg_engine g3)"
      using copy_store [OF ready st1 ap 3(2) _ _ sz] val [OF 3(1)] unfolding g2_def by blast
    show ?thesis
    proof (cases "r3 < 0")
      case True
      then show ?thesis using run 3 w copy_state_Nil [OF st3(1)] by simp
    next
      case False
      have "copy_keys h new_ext new_loc (k # ks) ups g =
          copy_keys h new_ext new_loc ks (ups @ [(k, \<lparr>kl_extent = new_ext, kl_offset = off, kl_length = kl_length kl\<rparr>)]) g3"
        using run 3 w False by (simp del: copy_keys.simps)
      moreover have "\<exists>kl. km_view (eng_km e0) k' = Some kl \<and> kl_extent kl = mh_extent_id h" if "k' \<in> set ks" for k'
        using Cons.prems(2) that by simp
      ultimately show ?thesis using Cons.IH [OF st3(2) [OF False]] by (simp del: copy_keys.simps cong: sum.case_cong)
    qed
  qed
qed

text \<open>Redirecting the keys of an extent to their copies.\<close>

definition redirected :: "key_view \<Rightarrow> (key \<times> key_location) list \<Rightarrow> u64 \<Rightarrow> u64 \<Rightarrow> bool" where
  "redirected m ups ext new_ext \<longleftrightarrow> finite (dom m) \<and> ext \<noteq> new_ext \<and>
     (\<forall>k. k \<in> fst ` set ups \<longleftrightarrow> (\<exists>kl. m k = Some kl \<and> kl_extent kl = ext)) \<and>
     (\<forall>(k, kl) \<in> set ups. kl_extent kl = new_ext) \<and> (\<forall>k kl. m k = Some kl \<longrightarrow> kl_extent kl \<noteq> new_ext)"

lemma redirected_cases:
  assumes "redirected m ups ext new_ext" and "(m ++ map_of (rev ups)) k = Some kl"
  obtains "(k, kl) \<in> set ups" and "kl_extent kl = new_ext" and "k \<in> fst ` set ups"
    | "m k = Some kl" and "kl_extent kl \<noteq> ext" and "kl_extent kl \<noteq> new_ext" and "k \<notin> fst ` set ups"
proof (cases "map_of (rev ups) k")
  case None
  then have "k \<notin> fst ` set ups" by (simp add: map_of_eq_None_iff)
  with None assms that(2) show ?thesis by (auto simp: redirected_def map_add_def)
next
  case (Some kl')
  then have "(k, kl) \<in> set ups" using assms(2) map_of_SomeD [OF Some] by (simp add: map_add_def)
  moreover from this have "k \<in> fst ` set ups" by force
  ultimately show ?thesis using that(1) assms(1) by (auto simp: redirected_def)
qed

lemma redirected_load:
  assumes r: "redirected m ups ext new_ext"
  shows "ext_load (m ++ map_of (rev ups)) new_ext \<le> (\<Sum>(k, kl) \<leftarrow> ups. kl_length kl)"
    and "x \<noteq> new_ext \<Longrightarrow> ext_load (m ++ map_of (rev ups)) x \<le> ext_load m x"
proof -
  define m' where "m' = m ++ map_of (rev ups)"
  have "fst ` set ups \<subseteq> dom m" using r unfolding redirected_def by blast
  then have dom: "dom m' = dom m" by (auto simp: m'_def dom_map_of_conv_image_fst)
  have fin: "finite (dom m)" using r by (simp add: redirected_def)
  define K where "K = {k \<in> dom m'. kl_extent (the (m' k)) = new_ext}"
  have in_ups: "(k, the (m' k)) \<in> set ups" if kK: "k \<in> K" for k
  proof -
    obtain kl where kl: "m' k = Some kl" "kl_extent kl = new_ext" using kK by (auto simp: K_def)
    show ?thesis by (rule redirected_cases [OF r kl(1) [unfolded m'_def]]) (use kl in auto)
  qed
  have "ext_load m' new_ext = (\<Sum>k \<in> K. kl_length (the (m' k)))"
    unfolding ext_load_def K_def dom using fin by (simp add: sum.inter_filter)
  also have "\<dots> = (\<Sum>x \<in> (\<lambda>k. (k, the (m' k))) ` K. kl_length (snd x))"
    by (subst sum.reindex) (auto simp: inj_on_def)
  also have "\<dots> \<le> (\<Sum>x \<in> set ups. kl_length (snd x))"
    using in_ups by (intro sum_mono2) auto
  also have "\<dots> \<le> (\<Sum>x \<leftarrow> ups. kl_length (snd x))"
    by (induction ups) (auto simp: sum.insert_if)
  finally show "ext_load (m ++ map_of (rev ups)) new_ext \<le> (\<Sum>(k, kl) \<leftarrow> ups. kl_length kl)"
    by (simp add: m'_def case_prod_unfold)
  assume x: "x \<noteq> new_ext"
  have "(if kl_extent (the (m' k)) = x then kl_length (the (m' k)) else 0)
      \<le> (if kl_extent (the (m k)) = x then kl_length (the (m k)) else 0)" if kd: "k \<in> dom m" for k
  proof -
    obtain kl where kl: "m' k = Some kl" using kd dom by (metis domD)
    show ?thesis
      by (rule redirected_cases [OF r kl [unfolded m'_def]]) (use kl x in simp_all)
  qed
  then show "ext_load (m ++ map_of (rev ups)) x \<le> ext_load m x"
    unfolding ext_load_def m'_def [symmetric] dom by (intro sum_mono) blast
qed

lemma compact_commit:
  assumes ready: "copy_ready res e0 h new_ext new_loc" and st: "copy_state res e0 new_ext new_loc ups e"
    and keys: "map fst ups = km_keys_in_extent (mh_extent_id h) (eng_km e0)"
  defines "e' \<equiv> e\<lparr>eng_km := km_batch_update ups (eng_km e), eng_em := em_free (mh_extent_id h) (eng_em e)\<rparr>"
  shows "eng_inv res e'" and "eng_abs e' = eng_abs e0"
proof -
  define ext m v where "ext = mh_extent_id h" and "m = km_view (eng_km e)" and "v = em_view (eng_em e)"
  obtain u l where ke: "keeps res e0 e" and view: "v = (em_view (eng_em e0))(new_ext \<mapsto> (new_loc, u, l))"
    and sum: "(\<Sum>(k, kl) \<leftarrow> ups. kl_length kl) \<le> l" and cp: "copies e0 new_ext new_loc u (eng_tiers e) ups"
    using st by (auto simp: copy_state_def v_def)
  have inv: "eng_inv res e" and km: "eng_km e = eng_km e0" and ab: "eng_abs e = eng_abs e0" using ke by (auto simp: keeps_def)
  have sp: "space_inv res (eng_em e) (eng_tiers e)" and ki: "km_inv (eng_km e)" and kp: "keys_placed m v"
    and lc: "live_counted m no_slack v" using inv by (auto simp: eng_inv_def m_def v_def)
  define m' where "m' = m ++ map_of (rev ups)"
  have m': "km_inv (eng_km e')" "km_view (eng_km e') = m'"
    using km_batch_update_ok [OF ki, of ups] by (simp_all add: e'_def m_def m'_def)
  have fr: "space_inv res (eng_em e') (eng_tiers e)" "em_view (eng_em e') = v(ext := None)"
    using em_free_ok [OF sp, of ext] by (simp_all add: e'_def ext_def v_def)
  have keyset: "k \<in> fst ` set ups \<longleftrightarrow> (\<exists>kl. m k = Some kl \<and> kl_extent kl = ext)" for k
  proof -
    have "k \<in> fst ` set ups \<longleftrightarrow> k \<in> set (km_keys_in_extent ext (eng_km e))" using keys km by (metis ext_def set_map)
    then show ?thesis using km_keys_in_extent_iff [OF ki] by (simp add: m_def km_view_def)
  qed
  have red: "redirected m ups ext new_ext"
    using keyset kp cp ready km by (auto simp: redirected_def keys_placed_def copies_def copy_ready_def ext_def m_def)
  have new: "(v(ext := None)) new_ext = Some (new_loc, u, l)" using view red by (simp add: redirected_def)
  have place: "\<exists>loc used live. (v(ext := None)) (kl_extent kl) = Some (loc, used, live) \<and> kl_offset kl + kl_length kl \<le> used \<and>
      0 < kl_length kl \<and> value_at loc kl (eng_tiers e) = eng_abs e0 k" if kl: "m' k = Some kl" for k kl
  proof (rule redirected_cases [OF red kl [unfolded m'_def]])
    assume "(k, kl) \<in> set ups" "kl_extent kl = new_ext"
    with cp new show ?thesis by (auto simp: copies_def)
  next
    assume k: "m k = Some kl" "kl_extent kl \<noteq> ext"
    from keys_placedE [OF kp k(1)] obtain loc used live
      where p: "v (kl_extent kl) = Some (loc, used, live)" "kl_offset kl + kl_length kl \<le> used" "0 < kl_length kl" by metis
    moreover have "eng_abs e0 k = value_at loc kl (eng_tiers e)"
      using k p(1) unfolding ab [symmetric] by (simp add: eng_abs_def stored_def m_def [symmetric] v_def [symmetric])
    ultimately show ?thesis using k(2) by simp
  qed
  have fin: "finite (dom m')" using red by (simp add: m'_def redirected_def finite_dom_map_of)
  have "keys_placed m' (v(ext := None))" unfolding keys_placed_def using fin place by blast
  moreover have "live_counted m' no_slack (v(ext := None))"
  proof -
    have "ext_load m' x \<le> live" if "(v(ext := None)) x = Some (loc, used, live)" for x loc used live
    proof (cases "x = new_ext")
      case True
      then show ?thesis using redirected_load(1) [OF red] sum that new by (simp add: m'_def)
    next
      case False
      then have "ext_load m x \<le> live"
        using that lc by (auto simp: live_counted_def no_slack_def split: if_splits)
      then show ?thesis using redirected_load(2) [OF red False] by (simp add: m'_def)
    qed
    then show ?thesis by (simp add: live_counted_def no_slack_def)
  qed
  ultimately show "eng_inv res e'"
    using inv m' fr by (simp add: eng_inv_def) (simp add: e'_def)
  have none: "eng_abs e0 k = None" if "m' k = None" for k
    using that unfolding ab [symmetric] by (simp add: eng_abs_def stored_def m_def m'_def)
  show "eng_abs e' = eng_abs e0"
  proof
    fix k
    have "eng_abs e' k = stored m' (v(ext := None)) (eng_tiers e) k"
      using m'(2) fr(2) by (simp add: eng_abs_def) (simp add: e'_def)
    also have "\<dots> = eng_abs e0 k"
      using place [of k] none [of k] by (cases "m' k") (auto simp: stored_def)
    finally show "eng_abs e' k = eng_abs e0 k" .
  qed
qed

lemma free_new_extent:
  assumes ready: "copy_ready res e0 h new_ext new_loc" and st: "copy_state res e0 new_ext new_loc [] e"
  shows "keeps res e0 (e\<lparr>eng_em := (em_free new_ext \<circ> em_abort_migration h) (eng_em e)\<rparr>)"
proof -
  define e1 where "e1 = e\<lparr>eng_em := em_abort_migration h (eng_em e)\<rparr>"
  have k1: "keeps res e0 e1" using st unfolding e1_def copy_state_def by (intro keeps_quiet quiet_abort) simp
  then have inv1: "eng_inv res e1" by (simp add: keeps_def)
  have "km_view (eng_km e1) k = Some kl \<Longrightarrow> kl_extent kl \<noteq> new_ext" for k kl
    using ready k1 by (auto simp: copy_ready_def keeps_def)
  from keeps_trans [OF k1 free_unused_extent [OF inv1 this]] show ?thesis by (simp add: e1_def)
qed

text \<open>What a compaction achieves.\<close>

definition compacted :: "nat \<Rightarrow> u64 \<Rightarrow> engine \<Rightarrow> migration_result \<Rightarrow> engine \<Rightarrow> bool" where
  "compacted res ext e r e' \<longleftrightarrow> eng_inv res e' \<and> eng_abs e' = eng_abs e \<and> (r = COMMITTED \<longrightarrow> ext \<notin> extents e')"

lemma compacted_keeps: "keeps res e e' \<Longrightarrow> r \<noteq> COMMITTED \<Longrightarrow> compacted res ext e r e'"
  by (simp add: compacted_def keeps_def)

lemma compact_into_ok:
  assumes ready: "copy_ready res (mg_engine g) h new_ext new_loc"
    and new: "em_view (mg_em g) new_ext = Some (new_loc, 0, 0)" and ks: "ks = km_keys_in_extent (mh_extent_id h) (mg_km g)"
  shows "\<exists>r g'. compact_into h new_ext new_loc ks g = Some (r, g') \<and> compacted res (mh_extent_id h) (mg_engine g) r (mg_engine g')"
proof -
  define e0 where "e0 = mg_engine g"
  have inv: "eng_inv res e0" using ready by (simp add: copy_ready_def e0_def)
  then have ki: "km_inv (eng_km e0)" by (simp add: eng_inv_def)
  have "(em_view (eng_em e0))(new_ext \<mapsto> (new_loc, 0, 0)) = em_view (eng_em e0)" using new by (simp add: e0_def fun_upd_idem)
  then have "em_view (eng_em e0) = (em_view (eng_em e0))(new_ext \<mapsto> (new_loc, 0, 0))" ..
  then have st0: "copy_state res e0 new_ext new_loc [] (mg_engine g)"
    using keeps_refl [OF inv] unfolding copy_state_def by (intro conjI exI [of _ 0]) (simp_all add: e0_def copies_def)
  have kset: "\<exists>kl. km_view (eng_km e0) k = Some kl \<and> kl_extent kl = mh_extent_id h" if "k \<in> set ks" for k
    using that km_keys_in_extent_iff [OF ki] by (simp add: ks e0_def km_view_def)
  obtain x g3 where cp: "copy_keys h new_ext new_loc ks [] g = Some (x, g3)"
    and out: "case x of
       Inl io \<Rightarrow> copy_state res e0 new_ext new_loc [] (mg_engine g3)
     | Inr ups \<Rightarrow> copy_state res e0 new_ext new_loc ups (mg_engine g3) \<and> map fst ups = map fst ([] :: (key \<times> key_location) list) @ ks"
    using copy_keys_ok [OF ready [folded e0_def] st0 kset] by blast
  show ?thesis
  proof (cases x)
    case (Inl io)
    then have "keeps res e0 ((mg_engine g3)\<lparr>eng_em := (em_free new_ext \<circ> em_abort_migration h) (mg_em g3)\<rparr>)"
      using free_new_extent [OF ready [folded e0_def]] out by simp
    then show ?thesis
      using cp Inl compacted_keeps by (auto simp: compact_into_def e0_def Let_def)
  next
    case (Inr ups)
    then have st: "copy_state res e0 new_ext new_loc ups (mg_engine g3)" and keys: "map fst ups = ks" using out by auto
    show ?thesis
    proof (cases "em_check_migration h (mg_em g3)")
      case True
      note cc = compact_commit [OF ready [folded e0_def] st keys [unfolded ks, folded e0_def]]
      have "space_inv res (mg_em g3) (mg_tiers g3)" using st by (simp add: copy_state_def keeps_def eng_inv_def)
      then have "em_view (em_free (mh_extent_id h) (mg_em g3)) (mh_extent_id h) = None" using em_free_ok by simp
      then show ?thesis
        using cp Inr True cc by (auto simp: compact_into_def compacted_def e0_def)
    next
      case False
      have "keeps res e0 ((mg_engine g3)\<lparr>eng_em := (em_free new_ext \<circ> em_abort_migration h) (mg_em g3)\<rparr>)"
        using free_new_extent [OF ready [folded e0_def] copy_state_Nil [OF st]] by simp
      then show ?thesis
        using cp Inr False compacted_keeps by (auto simp: compact_into_def e0_def)
    qed
  qed
qed

lemma allocate_in_one_piece:
  assumes "in_one_piece t sz em ts" and "em_allocate_extent t sz em ts = Some (Some (ext, loc), em', ts')"
  shows "(dl_tier loc = FAST) = (t = FAST)"
  using assms by (auto simp: in_one_piece_def em_allocate_extent_def em_insert_entry_def Let_def bind_eq_Some_conv
      split: option.splits)

lemma in_one_piece_em:
  assumes "em_block_size em' = em_block_size em" and "in_one_piece t sz em ts"
  shows "in_one_piece t sz em' ts"
proof -
  have "alloc_on s sz em' ts' = alloc_on s sz em ts'" for s ts' unfolding alloc_on_def assms(1) ..
  then have "em_allocate_raw t sz em' ts = em_allocate_raw t sz em ts" unfolding em_allocate_raw_def by presburger
  with assms(2) show ?thesis by (simp add: in_one_piece_def)
qed

lemma compact_ok:
  assumes inv: "eng_inv res (mg_engine g)" and id: "next_extent (mg_engine g) < 2 ^ 64 - 1"
    and pre: "\<And>loc used live. em_view (mg_em g) ext = Some (loc, used, live) \<Longrightarrow>
      dl_length loc \<le> 2 ^ 30 \<and> in_one_piece (dl_tier loc) (dl_length loc) (mg_em g) (mg_tiers g)"
  shows "\<exists>r g'. compact ext g = Some (r, g') \<and> compacted res ext (mg_engine g) r (mg_engine g')"
proof -
  define e where "e = mg_engine g"
  obtain ho em1 where b: "em_begin_migration ext (eng_em e) = (ho, em1)" by fastforce
  show ?thesis
  proof (cases ho)
    case None
    then show ?thesis
      using b compacted_keeps [OF keeps_refl [OF inv]] by (simp add: compact_def e_def)
  next
    case (Some h)
    obtain en where en: "em_lookup ext em1 = Some en" "generation (ee_raw en) = mh_gen_before h" "mh_extent_id h = ext"
      and v: "em_view (eng_em e) ext = Some (mh_src_loc h, ee_used en, ee_live en)" and loc: "ee_loc en = mh_src_loc h"
      by (rule em_view_of_claimed [OF b [unfolded Some]])
    define l where "l = mh_src_loc h"
    have pl: "dl_length l \<le> 2 ^ 30" "in_one_piece (dl_tier l) (dl_length l) (eng_em e) (eng_tiers e)"
      using pre v by (simp_all add: e_def l_def)
    define g1 e1 where "g1 = mg_em_update (\<lambda>_. em1) g" and "e1 = e\<lparr>eng_em := em1\<rparr>"
    have ge1: "mg_engine g1 = e1" by (simp add: g1_def e1_def e_def)
    note bk = begin_keeps [OF inv [folded e_def] b, folded e1_def]
    have inv1: "eng_inv res e1" and ab1: "eng_abs e1 = eng_abs e" using bk(1) by (auto simp: keeps_def)
    have sp1: "space_inv res (eng_em e1) (eng_tiers e1)" and ki: "km_inv (eng_km e1)" using inv1 by (auto simp: eng_inv_def)
    define ks where "ks = km_keys_in_extent ext (eng_km e)"
    have km1: "eng_km e1 = eng_km e" by (simp add: e1_def)
    show ?thesis
    proof (cases "ks = []")
      case True
      then have un: "km_view (eng_km e1) k = Some kl \<Longrightarrow> kl_extent kl \<noteq> ext" for k kl
        using km_keys_in_extent_iff [OF ki, of k ext] by (auto simp: ks_def km_view_def km1)
      have "em_view (em_free ext em1) ext = None" using em_free_ok [OF sp1, of ext] by (simp add: e1_def)
      with free_unused_extent [OF inv1 un] ab1 have "compacted res ext e COMMITTED (e1\<lparr>eng_em := em_free ext em1\<rparr>)"
        by (auto simp: compacted_def keeps_def e1_def)
      then show ?thesis
        using b True ge1 unfolding Some by (simp add: compact_def e_def [symmetric] g1_def [symmetric] ks_def [symmetric] e1_def Let_def)
    next
      case False
      have id1: "next_extent e1 < 2 ^ 64 - 1" using id bk(3) by (simp add: e1_def e_def)
      obtain al em2 ts2 where run: "em_allocate_extent (dl_tier l) (dl_length l) (eng_em e1) (eng_tiers e1) = Some (al, em2, ts2)"
        using em_allocate_extent_ok [OF sp1 pl(1) id1, of "dl_tier l"] by blast
      define g2 e2 where "g2 = mg_tiers_update (\<lambda>_. ts2) (mg_em_update (\<lambda>_. em2) g1)" and "e2 = e1\<lparr>eng_em := em2, eng_tiers := ts2\<rparr>"
      have ge2: "mg_engine g2 = e2" by (simp add: g2_def e2_def ge1)
      note ao = allocate_ok [OF inv1 pl(1) id1 run, folded e2_def]
      then have k2: "keeps res e e2" using keeps_trans [OF bk(1)] by blast
      have step: "compact ext g = (case al of None \<Rightarrow> Some (FAILED, mg_em_update (em_abort_migration h) g2)
          | Some (new_ext, new_loc) \<Rightarrow> compact_into h new_ext new_loc ks g2)"
        using b False run [unfolded e1_def, simplified] ge1 unfolding Some
        by (cases al) (simp_all add: compact_def e_def [symmetric] g1_def [symmetric] g2_def [symmetric] l_def [symmetric] ks_def [symmetric] e1_def Let_def case_prod_unfold)
      show ?thesis
      proof (cases al)
        case None
        then show ?thesis
          using step compacted_keeps [OF keeps_quiet [OF k2 quiet_abort]] ge2 by (simp add: e_def)
      next
        case (Some x)
        obtain new_ext new_loc where x: "x = (new_ext, new_loc)" by (cases x)
        have nx: "new_ext = next_extent e1" and v2: "em_view em2 = (em_view em1)(new_ext \<mapsto> (new_loc, 0, 0))"
          using ao Some x by (auto simp: e1_def)
        have inv2: "eng_inv res e2" and km2: "eng_km e2 = eng_km e1" using ao by (auto simp: keeps_def)
        have ne: "ext \<noteq> new_ext" using view_entry(4) [of res em1 "eng_tiers e" ext] sp1 v bk(2) nx by (auto simp: e1_def)
        have "(dl_tier new_loc = FAST) = (dl_tier l = FAST)"
          using allocate_in_one_piece [OF in_one_piece_em [OF bk(4) pl(2)] run [unfolded Some x, unfolded e1_def, simplified]] .
        moreover have "kl_extent kl \<noteq> new_ext" if "km_view (eng_km e2) k = Some kl" for k kl
          using extent_has_id [OF inv1 key_extent [OF inv1], of k kl] that km2 nx by auto
        moreover have "em_view (eng_em e2) ext = Some (l, ee_used en, ee_live en)"
          using v v2 ne bk(2) by (simp add: e2_def l_def)
        ultimately have ready: "copy_ready res (mg_engine g2) h new_ext new_loc"
          using inv2 ne pl(1) en(3) by (simp add: copy_ready_def ge2 l_def)
        have "em_view (mg_em g2) new_ext = Some (new_loc, 0, 0)" using v2 by (simp add: ge2 e2_def)
        from compact_into_ok [OF ready this, of ks] km2 km1 en(3)
        obtain r g' where "compact_into h new_ext new_loc ks g2 = Some (r, g')" "compacted res ext e2 r (mg_engine g')"
          by (auto simp: ks_def ge2)
        with step Some x k2 show ?thesis by (auto simp: compacted_def keeps_def e_def)
      qed
    qed
  qed
qed

end
