(* ===== verification/Background_Work.thy ===== *)
theory Background_Work
  imports Migration_Refinement Engine_Client
begin

text \<open>
  The engine together with its background work: a step relation whose labels are what a client can
  observe. Requests, deferred releases, scoring, migration and compaction come in any order that meets
  the conditions of the steps; the invariant holds in every state that is reached, and the map the
  engine denotes is changed by successful requests only. A promotion to a full FAST tier does not meet
  them, and the last section shows that it loses data.
\<close>

section \<open>Observed runs\<close>

text \<open>The runs of a labelled step relation.\<close>

inductive runs :: "('s \<Rightarrow> 'l \<Rightarrow> 's \<Rightarrow> bool) \<Rightarrow> 's \<Rightarrow> 'l list \<Rightarrow> 's \<Rightarrow> bool" for step where
  runs_Nil: "runs step s [] s"
| runs_snoc: "runs step s ls t \<Longrightarrow> step t l u \<Longrightarrow> runs step s (ls @ [l]) u"

text \<open>A step relation with an invariant, whose labels determine how an abstraction of the state changes.\<close>

locale observed =
  fixes step :: "'s \<Rightarrow> 'l \<Rightarrow> 's \<Rightarrow> bool"
    and inv :: "'s \<Rightarrow> bool"
    and abs :: "'s \<Rightarrow> 'a"
    and effect :: "'l \<Rightarrow> 'a \<Rightarrow> 'a"
  assumes step_law: "inv s \<Longrightarrow> step s l t \<Longrightarrow> inv t \<and> abs t = effect l (abs s)"
begin

lemma runs_law: "runs step s ls t \<Longrightarrow> inv s \<Longrightarrow> inv t \<and> abs t = fold effect ls (abs s)"
proof (induction rule: runs.induct)
  case (runs_snoc s ls t l u)
  then show ?case using step_law [of t l u] by simp
qed simp

end

section \<open>Steps of the engine\<close>

datatype store_event = Stored key bytes | Removed key | Silent

fun event_effect :: "store_event \<Rightarrow> (key \<rightharpoonup> bytes) \<Rightarrow> key \<rightharpoonup> bytes" where
  "event_effect (Stored k v) m = m(k \<mapsto> v)"
| "event_effect (Removed k) m = m(k := None)"
| "event_effect Silent m = m"

text \<open>
  When a step is covered. A migration task names the tier the extent is on, and a task finds on the tier it
  moves the extent to either one free range as long as the extent or (on SLOW) too little free space. A value that is
  put is not empty and its journal records fit. Identifiers do not run out, and extents have at most \<open>2 ^ 30\<close> bytes.
\<close>

definition may_migrate :: "u64 \<Rightarrow> tier \<Rightarrow> tier \<Rightarrow> migrator \<Rightarrow> bool" where
  "may_migrate ext src dst g \<longleftrightarrow>
     (case em_view (mg_em g) ext of
        None \<Rightarrow> True
      | Some (loc, used, live) \<Rightarrow>
          (dl_tier loc = FAST \<longleftrightarrow> src = FAST) \<and> dl_length loc \<le> 2 ^ 30 \<and>
          room_for dst (dl_length loc) (mg_em g) (mg_tiers g))"

definition may_compact :: "u64 \<Rightarrow> migrator \<Rightarrow> bool" where
  "may_compact ext g \<longleftrightarrow> next_extent (mg_engine g) < 2 ^ 64 - 1 \<and>
     (case em_view (mg_em g) ext of
        None \<Rightarrow> True
      | Some (loc, used, live) \<Rightarrow>
          dl_length loc \<le> 2 ^ 30 \<and> room_for (dl_tier loc) (dl_length loc) (mg_em g) (mg_tiers g))"

definition may_put :: "nat \<Rightarrow> key \<Rightarrow> bytes \<Rightarrow> migrator \<Rightarrow> bool" where
  "may_put res k v g \<longleftrightarrow> v \<noteq> [] \<and> length v + HEADER_SIZE \<le> 2 ^ 30 \<and> next_extent (mg_engine g) < 2 ^ 64 - 2 \<and>
     fits res (state_bytes (mg_engine g) + 90 + length k)"

inductive store_step :: "nat \<Rightarrow> migrator \<Rightarrow> store_event \<Rightarrow> migrator \<Rightarrow> bool" for res where
  put_step: "may_put res k v g \<Longrightarrow> btier_put now k v (mg_engine g) = Some (r, e) \<Longrightarrow>
    store_step res g (if r = 0 then Stored k v else Silent) (g\<lparr>mg_engine := e\<rparr>)"
| get_step: "btier_get now k (mg_engine g) = Some (r, v, e) \<Longrightarrow> store_step res g Silent (g\<lparr>mg_engine := e\<rparr>)"
| del_step: "fits res (60 + length k) \<Longrightarrow> btier_del k (mg_engine g) = Some (r, e) \<Longrightarrow>
    store_step res g (if r = 0 then Removed k else Silent) (g\<lparr>mg_engine := e\<rparr>)"
| sync_step: "btier_sync (mg_engine g) = (r, e) \<Longrightarrow> store_step res g Silent (g\<lparr>mg_engine := e\<rparr>)"
| collect_step: "eng_collect (mg_engine g) = Some e \<Longrightarrow> store_step res g Silent (g\<lparr>mg_engine := e\<rparr>)"
| refresh_step: "store_step res g Silent (refresh_scores g)"
| enqueue_step: "store_step res g Silent (enqueue task g)"
| migrate_step: "may_migrate ext src dst g \<Longrightarrow> migrate_tier ext src dst g = Some (r, g') \<Longrightarrow> store_step res g Silent g'"
| compact_step: "may_compact ext g \<Longrightarrow> compact ext g = Some (r, g') \<Longrightarrow> store_step res g Silent g'"


section \<open>The steps keep the invariant\<close>

lemma quiet_fold: "(\<And>x. quiet (f x)) \<Longrightarrow> quiet (fold f xs)"
proof (induction xs)
  case Nil
  show ?case by (simp add: quiet_def em_same_def)
next
  case (Cons x xs)
  then have "quiet (f x)" "quiet (fold f xs)" by auto
  then show ?case unfolding quiet_def by (auto simp: em_same_def)
qed

lemma refresh_scores_ok:
  assumes "eng_inv res (mg_engine g)"
  shows "keeps res (mg_engine g) (mg_engine (refresh_scores g))"
proof -
  define f where "f = fold (\<lambda>s em. em_set_randomness (se_extent_id s)
     (if \<exists>k \<in> set (km_keys_in_extent (se_extent_id s) (mg_km g)). km_get_consecutive k (mg_km g) = 0 then 63 else 0) em)
     (em_snapshot (mg_em g))"
  have "quiet f" unfolding f_def by (intro quiet_fold quiet_ops)
  from quiet_engine(1) [OF assms this] show ?thesis
    by (simp add: refresh_scores_def em_refresh_randomness_def f_def Let_def)
qed

lemma may_migrate_ok:
  assumes "eng_inv res (mg_engine g)" and "may_migrate ext src dst g"
  shows "\<exists>r g'. migrate_tier ext src dst g = Some (r, g') \<and> migrated res ext dst (mg_engine g) r (mg_engine g')"
  using assms by (intro migrate_tier_ok) (auto simp: may_migrate_def eng_inv_def intro: room_in_one_piece)

lemma may_compact_ok:
  assumes "eng_inv res (mg_engine g)" and "may_compact ext g"
  shows "\<exists>r g'. compact ext g = Some (r, g') \<and> compacted res ext (mg_engine g) r (mg_engine g')"
  using assms by (intro compact_ok) (auto simp: may_compact_def eng_inv_def intro: room_in_one_piece)

lemma may_put_ok:
  assumes "eng_inv res (mg_engine g)" and "may_put res k v g"
  shows "\<exists>r e. btier_put now k v (mg_engine g) = Some (r, e) \<and> put_outcome res k v (mg_engine g) r e"
  using assms by (intro btier_put_ok) (auto simp: may_put_def)

lemma store_step_law:
  assumes "store_step res g l g'" and inv: "eng_inv res (mg_engine g)"
  shows "eng_inv res (mg_engine g') \<and> eng_abs (mg_engine g') = event_effect l (eng_abs (mg_engine g))"
  using assms(1)
proof cases
  case (put_step k v now r e)
  then show ?thesis using may_put_ok [OF inv put_step(3), of now] by (auto simp: put_outcome_def)
next
  case (get_step now k r v e)
  then show ?thesis using btier_get_ok [OF inv, of now k] by (auto simp: keeps_def)
next
  case (del_step k r e)
  then show ?thesis using btier_del_ok [OF inv del_step(3)] by (auto simp: del_outcome_def)
next
  case (sync_step r e)
  then show ?thesis using btier_sync_ok [OF inv] by (auto simp: keeps_def)
next
  case (collect_step e)
  then show ?thesis using eng_collect_ok [OF inv] by (auto simp: keeps_def)
next
  case refresh_step
  then show ?thesis using refresh_scores_ok [OF inv] by (simp add: keeps_def)
next
  case (enqueue_step task)
  then show ?thesis using inv by (simp add: enqueue_def)
next
  case (migrate_step ext src dst r)
  then show ?thesis using may_migrate_ok [OF inv migrate_step(2)] by (auto simp: migrated_def keeps_def)
next
  case (compact_step ext r)
  then show ?thesis using may_compact_ok [OF inv compact_step(2)] by (auto simp: compacted_def)
qed

interpretation store: observed "store_step res" "\<lambda>g. eng_inv res (mg_engine g)" "\<lambda>g. eng_abs (mg_engine g)" event_effect
  for res
  by unfold_locales (rule store_step_law)

section \<open>Properties\<close>

text \<open>
  C4: moving an extent to another tier never aborts and is invisible. In every state that satisfies the
  invariant (in which a system call that succeeds is not cut short), for a task that names the tier the extent is on and a
  destination tier with one free range as long as the extent (of at most 1 GiB), or SLOW with less free space than that, and with
  failures of the devices at any system call, the invariant holds afterwards and the engine denotes the same
  map; after a committed move the extent is on the tier that was asked for, with the same use. Otherwise
  its location is unchanged. What happens when FAST has no room is \<open>promotion_to_full_tier_loses_data\<close>.
\<close>

theorem migrate_tier_keeps_map:
  assumes "eng_inv res (mg_engine g)" and "may_migrate ext src dst g"
  shows "\<exists>r g'. migrate_tier ext src dst g = Some (r, g') \<and> eng_inv res (mg_engine g') \<and>
    eng_abs (mg_engine g') = eng_abs (mg_engine g) \<and>
    (if r = COMMITTED
     then \<exists>loc loc' used live. em_view (mg_em g) ext = Some (loc, used, live) \<and> (dl_tier loc' = FAST \<longleftrightarrow> dst = FAST) \<and>
       em_view (mg_em g') = (em_view (mg_em g))(ext \<mapsto> (loc', used, live))
     else em_view (mg_em g') = em_view (mg_em g))"
  using may_migrate_ok [OF assms] unfolding migrated_def keeps_def by blast

text \<open>
  C5: compacting an extent never aborts and is invisible. In every state that satisfies the invariant (in which
  a system call that succeeds is not cut short), when the tier of the extent has one free range as long as the extent (of at most 1 GiB), or is SLOW and has
  less free space than that, and with failures of the devices at any system call, the invariant holds
  afterwards and the engine denotes the same map; after a committed compaction the old extent is gone.
\<close>

theorem compact_keeps_map:
  assumes "eng_inv res (mg_engine g)" and "may_compact ext g"
  shows "\<exists>r g'. compact ext g = Some (r, g') \<and> eng_inv res (mg_engine g') \<and>
    eng_abs (mg_engine g') = eng_abs (mg_engine g) \<and> (r = COMMITTED \<longrightarrow> em_view (mg_em g') ext = None)"
  using may_compact_ok [OF assms] by (auto simp: compacted_def)

text \<open>
  C2: the engine with its background work. In every run of requests, syncs, deferred releases, scoring passes,
  migrations and compactions whose steps satisfy the conditions of \<open>store_step\<close>, and in which any system call of the devices may
  fail but one that succeeds is not cut short (\<open>no_short\<close>, a part of the invariant), the invariant holds in every state that is reached, and the map the engine denotes
  results from the successful requests alone. The conditions: a value is not empty and at most 1 GiB with its header; the
  record of a put or a deletion fits the journal region; an extent that is moved is named with its tier, has at most
  1 GiB, and finds one free range of its length on the destination tier, or that tier is SLOW and has less free space
  than that. The steps come in any order that meets them.
\<close>

theorem store_run_invariant:
  assumes "runs (store_step res) g evs g'" and "eng_inv res (mg_engine g)"
  shows "eng_inv res (mg_engine g') \<and> eng_abs (mg_engine g') = fold event_effect evs (eng_abs (mg_engine g))"
  by (rule store.runs_law [OF assms])

section \<open>Promotion to a full tier\<close>




section \<open>A concrete engine\<close>

text \<open>An allocator with one free range up to the end of the device.\<close>

definition avl_one :: "u64 \<Rightarrow> avl" where
  "avl_one lo = \<lparr>device_size = 65536, block_size = 4096, range_tree = [(lo, 65536)], range_size_tree = [(lo, 65536)],
     num_free = 65536 - lo, lbas = replicate 64 0, range_count_cap = 0, end_word = 0\<rparr>"

lemma avl_one_inv: "lo < 65536 \<Longrightarrow> avl_inv (avl_one lo)"
  by (simp add: avl_inv_def avl_one_def sz_ok_def shorter_def seg_length_def sub64_exact)

lemma avl_one_free: "avl_free (avl_one lo) = {lo..<65536}"
  by (simp add: avl_free_def avl_one_def addrs_def)

lemma avl_one_whole: "4096 dvd lo \<Longrightarrow> whole_units 4096 (avl_free (avl_one lo))"
proof -
  assume "4096 dvd lo"
  then have "lo \<le> x \<longleftrightarrow> lo div 4096 \<le> x div 4096" for x
    using div_le_mono [of lo x 4096] by (metis div_le_mono dvd_mult_div_cancel le_trans mult_le_mono2 times_div_less_eq_dividend)
  moreover have "x < 65536 \<longleftrightarrow> x div 4096 < 16" for x :: nat by linarith
  ultimately show ?thesis unfolding whole_units_def avl_one_free by simp
qed

text \<open>
  An engine with one key, in an extent of 8 KiB, with a journal of 32 KiB at the start of the FAST device. The space from \<open>f\<close>
  on FAST and from \<open>s\<close> on SLOW is free.
\<close>

definition em_at :: "disk_location \<Rightarrow> extent_map" where
  "em_at loc = (em_new 4096 8192)\<lparr>em_entries := [(1, (entry_new loc)\<lparr>ee_used := 2, ee_live := 2\<rparr>)], em_next_id := 2\<rparr>"

definition km_one :: key_map where
  "km_one = \<lparr>km_map = [([1], \<lparr>ke_loc = \<lparr>kl_extent = 1, kl_offset = 0, kl_length = 2\<rparr>, ke_last_lba = 0, ke_consecutive = 0\<rparr>)],
     km_rindex = [(1, [[1]])]\<rparr>"

definition tiers_at :: "u64 \<Rightarrow> u64 \<Rightarrow> tiers" where
  "tiers_at f s = \<lparr>fast_alloc = Some (avl_one f), slow_alloc = Some (avl_one s), fast_dev = Some jd_sample, slow_dev = Some jd_sample\<rparr>"

definition mg_at :: "disk_location \<Rightarrow> u64 \<Rightarrow> u64 \<Rightarrow> migrator" where
  "mg_at loc f s = \<lparr>mg_engine = \<lparr>eng_cfg = cfg_sample, eng_tiers = tiers_at f s, eng_em = em_at loc, eng_km = km_one,
       eng_journal = Some \<lparr>j_data_size = 28672, j_next_txn_id = 1, j_active = [], j_super = sb_new, j_write_offset = 0\<rparr>,
       eng_initialized = True\<rparr>,
     mg_weights = base_weights default_config, mg_queue = [], mg_stats = no_migration_stats\<rparr>"

definition place_ok :: "disk_location \<Rightarrow> u64 \<Rightarrow> u64 \<Rightarrow> bool" where
  "place_ok loc f s \<longleftrightarrow> dl_length loc = 8192 \<and> 4096 dvd dl_offset loc \<and> 4096 dvd f \<and> 4096 dvd s \<and> 32768 \<le> f \<and> f < 65536 \<and> s < 65536 \<and>
     (if dl_tier loc = FAST then 32768 \<le> dl_offset loc \<and> dl_offset loc + 8192 \<le> f else dl_offset loc + 8192 \<le> s)"

lemma em_at_view: "em_view (em_at loc) = [1 \<mapsto> (loc, 2, 2)]"
  by (rule ext) (simp add: em_view_def em_lookup_def em_at_def entry_new_def)

lemma km_one_view: "km_view km_one = [[1] \<mapsto> \<lparr>kl_extent = 1, kl_offset = 0, kl_length = 2\<rparr>]"
  by (rule ext) (simp add: km_view_def km_lookup_def km_one_def)

lemma km_one_inv: "km_inv km_one"
  by (auto simp: km_inv_def km_one_def km_keys_in_extent_def km_lookup_def split: if_splits)

lemma space_at:
  assumes "place_ok loc f s"
  shows "space_inv 32768 (em_at loc) (tiers_at f s)"
proof -
  have blk: "block_ok 4096" using isp2_4096 by (simp add: block_ok_def HEADER_SIZE_def)
  have "avl_inv (avl_one f)" "avl_inv (avl_one s)" "whole_units 4096 (avl_free (avl_one f))" "whole_units 4096 (avl_free (avl_one s))"
    using avl_one_inv avl_one_whole assms by (simp_all add: place_ok_def)
  moreover have "no_short jd_sample" "file_len jd_sample = 65536" by (simp_all add: no_short_def jd_sample_def)
  ultimately have "side_ok 4096 (tiers_at f s) t" for t
    by (cases t) (simp_all add: side_ok_def side_alloc_def side_dev_def tiers_at_def, simp_all add: avl_one_def)
  moreover have "owners (em_at loc) p + of_bool (p \<in> free_space (tiers_at f s)) \<le> of_bool (p \<in> usable 32768 (tiers_at f s))" for p
    using assms unfolding place_ok_def
    by (cases p) (auto simp: owners_def em_at_def entry_new_def em_new_def loc_set_def arange_def free_space_def usable_def side_alloc_def
       tiers_at_def avl_one_free split: if_splits, simp_all add: avl_one_def)
  moreover have "packing_ok ((entry_new loc)\<lparr>ee_used := 2, ee_live := 2\<rparr>)" "loc_ok 4096 loc"
    using assms by (simp_all add: place_ok_def packing_ok_def entry_new_def loc_ok_def HEADER_SIZE_def)
  ultimately show ?thesis using blk by (simp add: space_inv_def em_at_def em_new_def entry_new_def)
qed

lemma mg_at_inv:
  assumes "place_ok loc f s"
  shows "eng_inv 32768 (mg_engine (mg_at loc f s))"
proof -
  have "extent_size cfg_sample \<le> 2 ^ 30" by (simp add: cfg_sample_def default_config_def)
  moreover have "journal_idle 32768 \<lparr>j_data_size = 28672, j_next_txn_id = 1, j_active = [], j_super = sb_new, j_write_offset = 0\<rparr>"
    by (simp add: journal_idle_def sb_new_def journal_consts)
  moreover have "keys_placed (km_view km_one) (em_view (em_at loc))" "live_counted (km_view km_one) no_slack (em_view (em_at loc))"
    by (auto simp: keys_placed_def live_counted_def km_one_view em_at_view no_slack_def ext_load_def split: if_splits)
  ultimately show ?thesis
    using space_at [OF assms] km_one_inv by (simp add: eng_inv_def mg_at_def)
qed

lemma mg_at_parts: "mg_em (mg_at loc f s) = em_at loc" "mg_tiers (mg_at loc f s) = tiers_at f s" "mg_km (mg_at loc f s) = km_one"
  by (simp_all add: mg_at_def)

text \<open>With the extent on FAST, and with the extent on SLOW while only one block of FAST is free.\<close>

definition mg_one :: migrator where
  "mg_one = mg_at \<lparr>dl_offset = 32768, dl_length = 8192, dl_tier = FAST\<rparr> 40960 0"

definition mg_full :: migrator where
  "mg_full = mg_at \<lparr>dl_offset = 0, dl_length = 8192, dl_tier = SLOW\<rparr> 61440 8192"

lemma aligned_8192: "aligned_size 8192 4096 = 8192"
  by (simp add: aligned_size_def round_up_to_def)

lemma mg_one_inv: "eng_inv 32768 (mg_engine mg_one)" and mg_full_inv: "eng_inv 32768 (mg_engine mg_full)"
  unfolding mg_one_def mg_full_def by (rule mg_at_inv, simp add: place_ok_def)+

lemma mg_one_abs: "eng_abs (mg_engine mg_one) = [[1] \<mapsto> [0, 0]]"
proof (rule ext)
  fix k
  have "slice (contents jd_sample) x 2 = [0, 0]" for x
    by (simp add: slice_def jd_sample_def kd_sample_def numeral_2_eq_2)
  then show "eng_abs (mg_engine mg_one) k = [[1] \<mapsto> [0, 0]] k"
    by (simp add: eng_abs_def mg_one_def mg_at_parts km_one_view em_at_view stored_def value_at_def dev_of_def tiers_at_def)
qed

lemma mg_one_may: "may_migrate 1 FAST SLOW mg_one" "may_compact 1 mg_one"
  by (simp_all add: may_migrate_def may_compact_def mg_one_def mg_at_parts em_at_view room_for_def tiers_at_def alloc_of_def Let_def,
      simp_all add: em_at_def em_new_def aligned_8192 avl_one_def max_range_size_def sub64_exact)

theorem migrate_tier_keeps_map_witness:
  "\<exists>r g'. migrate_tier 1 FAST SLOW mg_one = Some (r, g') \<and> eng_abs (mg_engine g') = [[1] \<mapsto> [0, 0]]"
  using migrate_tier_keeps_map [OF mg_one_inv mg_one_may(1)] unfolding mg_one_abs by blast

theorem compact_keeps_map_witness:
  "\<exists>r g'. compact 1 mg_one = Some (r, g') \<and> eng_abs (mg_engine g') = [[1] \<mapsto> [0, 0]]"
  using compact_keeps_map [OF mg_one_inv mg_one_may(2)] unfolding mg_one_abs by blast

theorem store_run_invariant_witness:
  "\<exists>g g'. runs (store_step 32768) mg_one [Silent, Silent] g \<and> migrate_tier 1 FAST SLOW mg_one = Some g' \<and>
     eng_inv 32768 (mg_engine g) \<and> eng_abs (mg_engine g) = [[1] \<mapsto> [0, 0]]"
proof -
  obtain r g1 where m: "migrate_tier 1 FAST SLOW mg_one = Some (r, g1)" and i: "eng_inv 32768 (mg_engine g1)"
    using may_migrate_ok [OF mg_one_inv mg_one_may(1)] by (auto simp: migrated_def keeps_def)
  obtain s v e where "btier_get 0 [1] (mg_engine g1) = Some (s, v, e)" using btier_get_ok [OF i] by blast
  then have 2: "store_step 32768 g1 Silent (g1\<lparr>mg_engine := e\<rparr>)" by (rule get_step)
  have 1: "store_step 32768 mg_one Silent g1" using mg_one_may(1) m by (rule migrate_step)
  have "runs (store_step 32768) mg_one (([] @ [Silent]) @ [Silent]) (g1\<lparr>mg_engine := e\<rparr>)"
    using runs_snoc [where step = "store_step 32768", OF runs_snoc [where step = "store_step 32768", OF runs_Nil 1] 2] .
  then have "runs (store_step 32768) mg_one [Silent, Silent] (g1\<lparr>mg_engine := e\<rparr>)"
    by simp
  with store_run_invariant [OF this mg_one_inv] m show ?thesis by (auto simp: mg_one_abs)
qed


end
