(* ===== verification/Mem_Db.thy ===== *)
theory Mem_Db
  imports Prelude "HOL-Library.List_Lexorder"
begin

text \<open>
  The key-value store interface (\<^verbatim>\<open>kv/key_value_db.h\<close>, \<^verbatim>\<open>kv/key_value_db.cc\<close>), its in-memory
  implementation (\<^verbatim>\<open>kv/mem/mem_db.cc\<close>) and the merge operators (\<^verbatim>\<open>kv/merge_op\<close>). A string and a buffer
  list are byte strings, and strings are compared as unsigned bytes. The ordered map is the list of its
  entries. The mutex of the store makes every call atomic; performance counters are left out.
\<close>

section \<open>Keys\<close>

definition encode_key :: "bytes \<Rightarrow> bytes \<Rightarrow> bytes" where
  "encode_key prefix k = prefix @ 0 # k"

definition decode_key :: "bytes \<Rightarrow> bytes \<times> bytes" where
  "decode_key full =
     (let pos = length (takeWhile (\<lambda>c. c \<noteq> 0) full)
      in if pos = length full then (full, []) else (take pos full, drop (pos + 1) full))"

section \<open>The ordered map\<close>

type_synonym kv_items = "(bytes \<times> bytes) list"

text \<open>\<open>db_[k] = v\<close>.\<close>

fun map_put :: "bytes \<Rightarrow> bytes \<Rightarrow> kv_items \<Rightarrow> kv_items" where
  "map_put k v [] = [(k, v)]"
| "map_put k v ((k', v') # xs) =
     (if k < k' then (k, v) # (k', v') # xs else if k = k' then (k, v) # xs else (k', v') # map_put k v xs)"

text \<open>The index \<open>lower_bound\<close> and \<open>upper_bound\<close> give.\<close>

definition lower_index :: "bytes \<Rightarrow> kv_items \<Rightarrow> nat" where
  "lower_index to items = length (takeWhile (\<lambda>(k, v). k < to) items)"

definition upper_index :: "bytes \<Rightarrow> kv_items \<Rightarrow> nat" where
  "upper_index aft items = length (takeWhile (\<lambda>(k, v). \<not> aft < k) items)"

text \<open>The loop that erases from an index on while a condition holds.\<close>

definition erase_while :: "(bytes \<Rightarrow> bool) \<Rightarrow> nat \<Rightarrow> kv_items \<Rightarrow> kv_items" where
  "erase_while P i items = take i items @ dropWhile (\<lambda>(k, v). P k) (drop i items)"

section \<open>Merge operators\<close>

datatype merge_kind = XorMerge | Int64ArrayMerge

record merge_operator =
  mo_kind :: merge_kind
  mo_count :: u64
  mo_bytes :: u64

definition record_merge :: "nat \<Rightarrow> merge_operator \<Rightarrow> merge_operator" where
  "record_merge n mo = mo\<lparr>mo_count := add64 (mo_count mo) 1, mo_bytes := add64 (mo_bytes mo) n\<rparr>"

definition reset_merge_stats :: "merge_operator \<Rightarrow> merge_operator" where
  "reset_merge_stats mo = mo\<lparr>mo_count := 0, mo_bytes := 0\<rparr>"

definition merge_nonexistent :: "bytes \<Rightarrow> merge_operator \<Rightarrow> bytes \<times> merge_operator" where
  "merge_nonexistent rdata mo = (rdata, record_merge (length rdata) mo)"

definition xor_bytes :: "bytes \<Rightarrow> bytes \<Rightarrow> bytes" where
  "xor_bytes l r = map2 (XOR) l r"

fun add_words :: "bytes \<Rightarrow> bytes \<Rightarrow> bytes" where
  "add_words [] r = []"
| "add_words l r =
     le_bytes 8 (add64 (le_val (take 8 l)) (le_val (take 8 r))) @ add_words (drop 8 l) (drop 8 r)"

definition merge_existing :: "bytes \<Rightarrow> bytes \<Rightarrow> merge_operator \<Rightarrow> (bytes \<times> merge_operator) option" where
  "merge_existing ldata rdata mo =
     (let mo1 = record_merge (length ldata + length rdata) mo
      in case mo_kind mo of
           XorMerge \<Rightarrow> if length ldata = length rdata then Some (xor_bytes ldata rdata, mo1) else None
         | Int64ArrayMerge \<Rightarrow>
             if length ldata = length rdata \<and> length ldata mod 8 = 0 then Some (add_words ldata rdata, mo1) else None)"

section \<open>Transactions\<close>

datatype txn_op =
    SET bytes bytes bytes
  | RMKEY bytes bytes
  | RMKEY_BY_PREFIX bytes
  | RM_RANGE_KEYS bytes bytes bytes
  | MERGE bytes bytes bytes

type_synonym transaction = "txn_op list"

definition txn_set :: "bytes \<Rightarrow> bytes \<Rightarrow> bytes \<Rightarrow> transaction \<Rightarrow> transaction" where
  "txn_set prefix k bl t = t @ [SET prefix k bl]"

definition txn_rmkey :: "bytes \<Rightarrow> bytes \<Rightarrow> transaction \<Rightarrow> transaction" where
  "txn_rmkey prefix k t = t @ [RMKEY prefix k]"

definition txn_rm_single_key :: "bytes \<Rightarrow> bytes \<Rightarrow> transaction \<Rightarrow> transaction" where
  "txn_rm_single_key prefix k t = txn_rmkey prefix k t"

definition txn_rmkeys_by_prefix :: "bytes \<Rightarrow> transaction \<Rightarrow> transaction" where
  "txn_rmkeys_by_prefix prefix t = t @ [RMKEY_BY_PREFIX prefix]"

definition txn_rm_range_keys :: "bytes \<Rightarrow> bytes \<Rightarrow> bytes \<Rightarrow> transaction \<Rightarrow> transaction" where
  "txn_rm_range_keys prefix start en t = t @ [RM_RANGE_KEYS prefix start en]"

definition txn_merge :: "bytes \<Rightarrow> bytes \<Rightarrow> bytes \<Rightarrow> transaction \<Rightarrow> transaction" where
  "txn_merge prefix k v t = t @ [MERGE prefix k v]"

section \<open>The store\<close>

record memdb =
  md_map :: kv_items
  md_seqno :: u64
  md_merge_ops :: "(bytes \<times> merge_operator) list"

definition md_new :: memdb where
  "md_new = \<lparr>md_map = [], md_seqno = 0, md_merge_ops = []\<rparr>"

definition set_merge_operator :: "bytes \<Rightarrow> merge_operator \<Rightarrow> memdb \<Rightarrow> int \<times> memdb" where
  "set_merge_operator prefix mop db = (0, db\<lparr>md_merge_ops := md_merge_ops db @ [(prefix, mop)]\<rparr>)"

definition md_bump :: "memdb \<Rightarrow> memdb" where
  "md_bump db = db\<lparr>md_seqno := add64 (md_seqno db) 1\<rparr>"

definition md_set_key :: "bytes \<Rightarrow> bytes \<Rightarrow> memdb \<Rightarrow> memdb" where
  "md_set_key full bl db = md_bump (db\<lparr>md_map := map_put full bl (md_map db)\<rparr>)"

definition md_rmkey :: "bytes \<Rightarrow> memdb \<Rightarrow> memdb" where
  "md_rmkey full db = md_bump (db\<lparr>md_map := AList.delete full (md_map db)\<rparr>)"

definition md_rmkeys_by_prefix :: "bytes \<Rightarrow> memdb \<Rightarrow> memdb" where
  "md_rmkeys_by_prefix prefix db =
     (let start = encode_key prefix []
      in md_bump (db\<lparr>md_map :=
           erase_while (\<lambda>k. take (length start) k = start) (lower_index start (md_map db)) (md_map db)\<rparr>))"

definition md_rm_range_keys :: "bytes \<Rightarrow> bytes \<Rightarrow> bytes \<Rightarrow> memdb \<Rightarrow> memdb" where
  "md_rm_range_keys prefix start en db =
     (let s = encode_key prefix start; e = encode_key prefix en
      in md_bump (db\<lparr>md_map := erase_while (\<lambda>k. k < e) (lower_index s (md_map db)) (md_map db)\<rparr>))"

text \<open>The operator of a prefix, with the list in which its counters are updated.\<close>

fun update_first :: "bytes \<Rightarrow> merge_operator \<Rightarrow> (bytes \<times> merge_operator) list \<Rightarrow> (bytes \<times> merge_operator) list" where
  "update_first p mo [] = []"
| "update_first p mo ((q, x) # xs) = (if q = p then (q, mo) # xs else (q, x) # update_first p mo xs)"

definition md_merge :: "bytes \<Rightarrow> bytes \<Rightarrow> bytes \<Rightarrow> memdb \<Rightarrow> (int \<times> memdb) option" where
  "md_merge prefix full bl db =
     (case map_of (md_merge_ops db) prefix of
        None \<Rightarrow> Some (- EINVAL, db)
      | Some mop \<Rightarrow>
          do { (v, mop1) \<leftarrow> (case map_of (md_map db) full of
                 None \<Rightarrow> Some (merge_nonexistent bl mop)
               | Some old \<Rightarrow> merge_existing old bl mop);
               Some (0, md_bump (db\<lparr>md_map := map_put full v (md_map db),
                                    md_merge_ops := update_first prefix mop1 (md_merge_ops db)\<rparr>)) })"

fun md_apply :: "txn_op \<Rightarrow> memdb \<Rightarrow> (int \<times> memdb) option" where
  "md_apply (SET p k v) db = Some (0, md_set_key (encode_key p k) v db)"
| "md_apply (RMKEY p k) db = Some (0, md_rmkey (encode_key p k) db)"
| "md_apply (RMKEY_BY_PREFIX p) db = Some (0, md_rmkeys_by_prefix p db)"
| "md_apply (RM_RANGE_KEYS p s e) db = Some (0, md_rm_range_keys p s e db)"
| "md_apply (MERGE p k v) db = md_merge p (encode_key p k) v db"

fun submit_transaction :: "transaction \<Rightarrow> memdb \<Rightarrow> (int \<times> memdb) option" where
  "submit_transaction [] db = Some (0, db)"
| "submit_transaction (x # xs) db =
     do { (r, db1) \<leftarrow> md_apply x db; if r < 0 then Some (r, db1) else submit_transaction xs db1 }"

definition submit_transaction_sync :: "transaction \<Rightarrow> memdb \<Rightarrow> (int \<times> memdb) option" where
  "submit_transaction_sync t db = submit_transaction t db"

definition md_close :: "memdb \<Rightarrow> memdb" where
  "md_close db = db\<lparr>md_map := []\<rparr>"

text \<open>\<open>get\<close> with a set of keys adds to \<open>out\<close> what it finds; the set is the list of its elements.\<close>

definition md_get :: "bytes \<Rightarrow> bytes list \<Rightarrow> (bytes \<rightharpoonup> bytes) \<Rightarrow> memdb \<Rightarrow> int \<times> (bytes \<rightharpoonup> bytes)" where
  "md_get prefix keys out db =
     (0, fold (\<lambda>k out. case map_of (md_map db) (encode_key prefix k) of
                         None \<Rightarrow> out | Some v \<Rightarrow> out(k \<mapsto> v)) keys out)"

definition kv_get :: "bytes \<Rightarrow> bytes \<Rightarrow> memdb \<Rightarrow> int \<times> bytes" where
  "kv_get prefix k db =
     (let (r, result) = md_get prefix [k] Map.empty db
      in if r \<noteq> 0 then (r, [])
         else case result k of None \<Rightarrow> (- ENOENT, []) | Some v \<Rightarrow> (0, v))"

definition get_estimated_size :: "memdb \<Rightarrow> u64" where
  "get_estimated_size db = fold (\<lambda>(k, v) n. add64 n (length k + length v)) (md_map db) 0"

section \<open>Iterators\<close>

text \<open>The iterator over all keys. It copies the entries again when the store has changed since.\<close>

record ws_iter =
  wi_items :: kv_items
  wi_seqno :: u64
  wi_pos :: int

definition get_wholespace_iterator :: "memdb \<Rightarrow> ws_iter" where
  "get_wholespace_iterator db = \<lparr>wi_items = md_map db, wi_seqno = md_seqno db, wi_pos = - 1\<rparr>"

definition wi_refresh :: "memdb \<Rightarrow> ws_iter \<Rightarrow> ws_iter" where
  "wi_refresh db it =
     (if md_seqno db = wi_seqno it then it else it\<lparr>wi_seqno := md_seqno db, wi_items := md_map db\<rparr>)"

definition wi_goto :: "nat \<Rightarrow> ws_iter \<Rightarrow> ws_iter" where
  "wi_goto i it = it\<lparr>wi_pos := (if i \<ge> length (wi_items it) then - 1 else int i)\<rparr>"

definition wi_seek_to_first :: "memdb \<Rightarrow> ws_iter \<Rightarrow> ws_iter" where
  "wi_seek_to_first db it = wi_goto 0 (wi_refresh db it)"

definition wi_seek_to_last :: "memdb \<Rightarrow> ws_iter \<Rightarrow> ws_iter" where
  "wi_seek_to_last db it =
     (let it1 = wi_refresh db it
      in it1\<lparr>wi_pos := (if wi_items it1 = [] then - 1 else int (length (wi_items it1) - 1))\<rparr>)"

definition wi_lower_bound :: "bytes \<Rightarrow> memdb \<Rightarrow> ws_iter \<Rightarrow> ws_iter" where
  "wi_lower_bound to db it = (let it1 = wi_refresh db it in wi_goto (lower_index to (wi_items it1)) it1)"

definition wi_upper_bound :: "bytes \<Rightarrow> memdb \<Rightarrow> ws_iter \<Rightarrow> ws_iter" where
  "wi_upper_bound aft db it = (let it1 = wi_refresh db it in wi_goto (upper_index aft (wi_items it1)) it1)"

definition wi_valid :: "ws_iter \<Rightarrow> bool" where
  "wi_valid it \<longleftrightarrow> wi_pos it \<ge> 0 \<and> wi_pos it < int (length (wi_items it))"

definition wi_next :: "ws_iter \<Rightarrow> ws_iter" where
  "wi_next it =
     (if wi_pos it \<ge> 0
      then it\<lparr>wi_pos := (if wi_pos it + 1 \<ge> int (length (wi_items it)) then - 1 else wi_pos it + 1)\<rparr>
      else it)"

definition wi_prev :: "ws_iter \<Rightarrow> ws_iter" where
  "wi_prev it =
     (if wi_pos it > 0 then it\<lparr>wi_pos := wi_pos it - 1\<rparr>
      else if wi_pos it = 0 then it\<lparr>wi_pos := - 1\<rparr> else it)"

text \<open>Reading at a position that is not valid is undefined in C++; here it is \<open>None\<close>.\<close>

definition wi_entry :: "ws_iter \<Rightarrow> (bytes \<times> bytes) option" where
  "wi_entry it = (if wi_valid it then Some (wi_items it ! nat (wi_pos it)) else None)"

definition wi_key :: "ws_iter \<Rightarrow> bytes option" where
  "wi_key it = map_option fst (wi_entry it)"

definition wi_value :: "ws_iter \<Rightarrow> bytes option" where
  "wi_value it = map_option snd (wi_entry it)"

definition wi_raw_key :: "ws_iter \<Rightarrow> (bytes \<times> bytes) option" where
  "wi_raw_key it = map_option (decode_key \<circ> fst) (wi_entry it)"

definition wi_is_prefixed :: "bytes \<Rightarrow> ws_iter \<Rightarrow> bool" where
  "wi_is_prefixed prefix it = (case wi_raw_key it of None \<Rightarrow> False | Some (pre, inner) \<Rightarrow> pre = prefix)"

text \<open>
  The iterator over one prefix. The bounds it hands to the inner iterator are hints for another store
  and have no effect here.
\<close>

record prefix_iter =
  pi_iter :: ws_iter
  pi_prefix :: bytes
  pi_seek_lower :: bytes
  pi_upper :: "bytes option"

definition pi_start :: "bytes \<Rightarrow> bytes" where
  "pi_start prefix = encode_key prefix []"

definition pi_next_prefix :: "bytes \<Rightarrow> bytes" where
  "pi_next_prefix prefix = prefix @ [1]"

definition make_iterator :: "bytes \<Rightarrow> bytes option \<Rightarrow> bytes option \<Rightarrow> memdb \<Rightarrow> ws_iter \<Rightarrow> prefix_iter" where
  "make_iterator prefix lo hi db it =
     (let lower = (case lo of None \<Rightarrow> pi_start prefix | Some l \<Rightarrow> pi_start prefix @ l)
      in \<lparr>pi_iter = (if lo = None then it else wi_lower_bound lower db it), pi_prefix = prefix,
          pi_seek_lower = lower, pi_upper = hi\<rparr>)"

definition get_iterator :: "bytes \<Rightarrow> bytes option \<Rightarrow> bytes option \<Rightarrow> memdb \<Rightarrow> prefix_iter" where
  "get_iterator prefix lo hi db = make_iterator prefix lo hi db (get_wholespace_iterator db)"

abbreviation pi_update :: "(ws_iter \<Rightarrow> ws_iter) \<Rightarrow> prefix_iter \<Rightarrow> prefix_iter" where
  "pi_update f p \<equiv> p\<lparr>pi_iter := f (pi_iter p)\<rparr>"

definition pi_seek_to_first :: "memdb \<Rightarrow> prefix_iter \<Rightarrow> prefix_iter" where
  "pi_seek_to_first db p = pi_update (wi_lower_bound (pi_seek_lower p) db) p"

function (sequential) walk_back :: "bytes \<Rightarrow> ws_iter \<Rightarrow> ws_iter" where
  "walk_back prefix it =
     (if wi_valid it \<and> \<not> wi_is_prefixed prefix it then walk_back prefix (wi_prev it) else it)"
  by auto
termination
  by (relation "measure (\<lambda>(prefix, it). nat (wi_pos it + 1))") (auto simp: wi_valid_def wi_prev_def)

declare walk_back.simps [simp del]

definition pi_seek_to_last :: "memdb \<Rightarrow> prefix_iter \<Rightarrow> prefix_iter" where
  "pi_seek_to_last db p =
     (let p1 = pi_update (wi_upper_bound (pi_next_prefix (pi_prefix p)) db) p
      in if wi_valid (pi_iter p1) then pi_update wi_prev p1
         else pi_update (walk_back (pi_prefix p) \<circ> wi_seek_to_last db) p1)"

definition pi_lower_bound :: "bytes \<Rightarrow> memdb \<Rightarrow> prefix_iter \<Rightarrow> prefix_iter" where
  "pi_lower_bound to db p = pi_update (wi_lower_bound (pi_start (pi_prefix p) @ to) db) p"

definition pi_upper_bound :: "bytes \<Rightarrow> memdb \<Rightarrow> prefix_iter \<Rightarrow> prefix_iter" where
  "pi_upper_bound aft db p =
     (let p1 = pi_update (wi_lower_bound (pi_start (pi_prefix p) @ aft) db) (p\<lparr>pi_upper := Some aft\<rparr>)
      in case wi_raw_key (pi_iter p1) of
           None \<Rightarrow> p1
         | Some (pre, inner) \<Rightarrow> if inner = aft then pi_update wi_next p1 else p1)"

definition pi_valid :: "prefix_iter \<Rightarrow> bool" where
  "pi_valid p \<longleftrightarrow> wi_valid (pi_iter p) \<and> wi_is_prefixed (pi_prefix p) (pi_iter p) \<and>
     (case (pi_upper p, wi_raw_key (pi_iter p)) of
        (Some u, Some (pre, inner)) \<Rightarrow> inner < u
      | _ \<Rightarrow> True)"

definition pi_next :: "prefix_iter \<Rightarrow> int \<times> prefix_iter" where
  "pi_next p = (if \<not> wi_valid (pi_iter p) then (- EINVAL, p) else (0, pi_update wi_next p))"

definition pi_prev :: "prefix_iter \<Rightarrow> int \<times> prefix_iter" where
  "pi_prev p = (if \<not> wi_valid (pi_iter p) then (- EINVAL, p) else (0, pi_update wi_prev p))"

definition pi_key :: "prefix_iter \<Rightarrow> bytes option" where
  "pi_key p = map_option snd (wi_raw_key (pi_iter p))"

definition pi_value :: "prefix_iter \<Rightarrow> bytes option" where
  "pi_value p = wi_value (pi_iter p)"

section \<open>Order of keys\<close>

lemma append_less_append [simp]: "(p @ x < p @ y) = (x < (y :: 'a :: linorder list))"
  by (induction p) auto

lemma encode_less [simp]: "encode_key p a < encode_key p b \<longleftrightarrow> a < b"
  by (simp add: encode_key_def)

lemma encode_eq [simp]: "encode_key p a = encode_key p b \<longleftrightarrow> a = b"
  by (simp add: encode_key_def)

lemma encode_le [simp]: "encode_key p a \<le> encode_key p b \<longleftrightarrow> a \<le> b"
  by (auto simp: le_less)

lemma decode_encode [simp]: "0 \<notin> set p \<Longrightarrow> decode_key (encode_key p k) = (p, k)"
proof -
  assume "0 \<notin> set p"
  then have "takeWhile (\<lambda>c. c \<noteq> 0) p = p" by (auto intro: takeWhile_eq_all_conv [THEN iffD2])
  then show "decode_key (encode_key p k) = (p, k)" by (simp add: decode_key_def encode_key_def takeWhile_tail Let_def)
qed

lemma encode_inj: "0 \<notin> set p \<Longrightarrow> 0 \<notin> set q \<Longrightarrow> encode_key p k = encode_key q l \<Longrightarrow> p = q \<and> k = l"
  by (metis decode_encode prod.inject)

text \<open>Every key with a separator is the code of its parts.\<close>

lemma encode_decode:
  assumes "0 \<in> set f"
  obtains p k where "f = encode_key p k" and "0 \<notin> set p" and "decode_key f = (p, k)"
proof -
  obtain p k where f: "f = p @ 0 # k" and p: "0 \<notin> set p" using split_list_first [OF assms] by blast
  with decode_encode [OF p, of k] that show ?thesis by (simp add: encode_key_def)
qed

text \<open>The keys that begin with a string are consecutive.\<close>

lemma take_length_start: "take (length p) (p @ x) = p"
  by simp

lemma between_prefixed:
  fixes k :: "'a :: linorder list"
  shows "p \<le> k \<Longrightarrow> k \<le> k' \<Longrightarrow> take (length p) k' = p \<Longrightarrow> take (length p) k = p"
proof (induction p arbitrary: k k')
  case (Cons a p)
  then show ?case by (cases k; cases k') auto
qed simp

lemma prefixed_ge: "take (length p) k = p \<Longrightarrow> p \<le> (k :: 'a :: linorder list)"
proof (induction p arbitrary: k)
  case (Cons a p)
  then show ?case by (cases k) auto
qed simp

section \<open>Sorted entries\<close>

definition items_ok :: "kv_items \<Rightarrow> bool" where
  "items_ok items \<longleftrightarrow> sorted_wrt (<) (map fst items) \<and> (\<forall>k \<in> fst ` set items. 0 \<in> set k)"

lemma items_ok_simps [simp]:
  "items_ok []"
  "items_ok ((k, v) # xs) \<longleftrightarrow> 0 \<in> set k \<and> (\<forall>k' \<in> fst ` set xs. k < k') \<and> items_ok xs"
  by (auto simp: items_ok_def)

lemma items_ok_distinct: "items_ok items \<Longrightarrow> distinct (map fst items)"
  by (simp add: items_ok_def strict_sorted_iff)

lemma map_put_keys: "fst ` set (map_put k v xs) = insert k (fst ` set xs)"
  by (induction k v xs rule: map_put.induct) auto

lemma map_put_ok: "items_ok xs \<Longrightarrow> 0 \<in> set k \<Longrightarrow> items_ok (map_put k v xs)"
proof (induction k v xs rule: map_put.induct)
  case (2 k v k' v' xs)
  have "k < k' \<Longrightarrow> x \<in> fst ` set xs \<Longrightarrow> k < x" for x using 2(2) by fastforce
  with 2 show ?case by (cases k k' rule: linorder_cases) (auto simp: map_put_keys)
qed simp

lemma map_of_map_put: "map_of (map_put k v xs) = (map_of xs)(k \<mapsto> v)"
  by (induction k v xs rule: map_put.induct) auto

lemma items_ok_delete: "items_ok xs \<Longrightarrow> items_ok (AList.delete k xs)"
  by (auto simp: items_ok_def AList.delete_eq sorted_wrt_map sorted_wrt_filter)

lemma items_ok_filter: "items_ok xs \<Longrightarrow> items_ok (filter P xs)"
  by (auto simp: items_ok_def sorted_wrt_map sorted_wrt_filter)

text \<open>Erasing from a lower bound on, as a filter.\<close>

lemma takeWhile_sorted_filter:
  assumes "sorted_wrt (\<lambda>x y. P y \<longrightarrow> P x) xs"
  shows "takeWhile P xs = filter P xs" and "dropWhile P xs = filter (\<lambda>x. \<not> P x) xs"
proof -
  show "takeWhile P xs = filter P xs" using assms by (induction xs) (auto simp: filter_empty_conv)
  show "dropWhile P xs = filter (\<lambda>x. \<not> P x) xs" using assms by (induction xs) (auto simp: filter_id_conv)
qed

lemma items_ok_split:
  assumes "items_ok items"
  shows "take (lower_index to items) items = filter (\<lambda>(k, v). k < to) items"
    and "drop (lower_index to items) items = filter (\<lambda>(k, v). to \<le> k) items"
proof -
  have "sorted_wrt (\<lambda>x y. fst x < fst y) items" using assms by (simp add: items_ok_def sorted_wrt_map)
  then have s: "sorted_wrt (\<lambda>x y. (case y of (k, v) \<Rightarrow> k < to) \<longrightarrow> (case x of (k, v) \<Rightarrow> k < to)) items"
    by (rule sorted_wrt_mono_rel [rotated]) auto
  show "take (lower_index to items) items = filter (\<lambda>(k, v). k < to) items"
    unfolding lower_index_def takeWhile_eq_take [symmetric] by (rule takeWhile_sorted_filter [OF s])
  show "drop (lower_index to items) items = filter (\<lambda>(k, v). to \<le> k) items"
    unfolding lower_index_def dropWhile_eq_drop [symmetric] takeWhile_sorted_filter(2) [OF s]
    by (simp add: case_prod_unfold not_less)
qed

lemma erase_while_filter:
  assumes "items_ok items" and down: "\<And>k k'. lo \<le> k \<Longrightarrow> k \<le> k' \<Longrightarrow> P k' \<Longrightarrow> P k"
  shows "erase_while P (lower_index lo items) items = filter (\<lambda>(k, v). \<not> (lo \<le> k \<and> P k)) items"
proof -
  define hi where "hi = filter (\<lambda>(k, v). lo \<le> k) items"
  have "sorted_wrt (\<lambda>x y. fst x < fst y) hi"
    using assms(1) by (simp add: items_ok_def sorted_wrt_map sorted_wrt_filter hi_def)
  then have "sorted_wrt (\<lambda>x y. (case y of (k, v) \<Rightarrow> P k) \<longrightarrow> (case x of (k, v) \<Rightarrow> P k)) hi"
    by (rule sorted_wrt_mono_rel [rotated]) (auto simp: hi_def intro: down [OF _ less_imp_le])
  from takeWhile_sorted_filter(2) [OF this]
  have hi: "dropWhile (\<lambda>(k, v). P k) hi = filter (\<lambda>(k, v). lo \<le> k \<and> \<not> P k) items"
    by (auto simp: hi_def case_prod_unfold intro!: filter_cong)
  have "filter (\<lambda>(k, v). \<not> (lo \<le> k \<and> P k)) items =
      filter (\<lambda>(k, v). k < lo) items @ filter (\<lambda>(k, v). lo \<le> k \<and> \<not> P k) items"
    using assms(1)
  proof (induction items)
    case (Cons x items)
    obtain k v where x: "x = (k, v)" by (cases x)
    have "filter (\<lambda>(k, v). k < lo) items = []" if "lo \<le> k"
      using Cons.prems that by (auto simp: x filter_empty_conv)
    with Cons show ?case by (auto simp: x)
  qed simp
  then show ?thesis using items_ok_split [OF assms(1), of lo] hi by (simp add: erase_while_def hi_def)
qed

section \<open>Refinement of a map per prefix\<close>

type_synonym kv_map = "bytes \<times> bytes \<rightharpoonup> bytes"

definition kv_view :: "memdb \<Rightarrow> kv_map" where
  "kv_view db = (\<lambda>(p, k). if 0 \<in> set p then None else map_of (md_map db) (encode_key p k))"

definition md_kinds :: "memdb \<Rightarrow> bytes \<rightharpoonup> merge_kind" where
  "md_kinds db = map_option mo_kind \<circ> map_of (md_merge_ops db)"

definition merge_value :: "merge_kind \<Rightarrow> bytes option \<Rightarrow> bytes \<Rightarrow> bytes option" where
  "merge_value kind old new =
     (case old of
        None \<Rightarrow> Some new
      | Some l \<Rightarrow>
          if length l = length new \<and> (kind = Int64ArrayMerge \<longrightarrow> 8 dvd length l)
          then Some (if kind = XorMerge then xor_bytes l new else add_words l new) else None)"

fun op_spec :: "(bytes \<rightharpoonup> merge_kind) \<Rightarrow> txn_op \<Rightarrow> kv_map \<Rightarrow> (int \<times> kv_map) option" where
  "op_spec mops (SET p k v) m = Some (0, m((p, k) \<mapsto> v))"
| "op_spec mops (RMKEY p k) m = Some (0, m((p, k) := None))"
| "op_spec mops (RMKEY_BY_PREFIX p) m = Some (0, \<lambda>(q, k). if q = p then None else m (q, k))"
| "op_spec mops (RM_RANGE_KEYS p s e) m = Some (0, \<lambda>(q, k). if q = p \<and> s \<le> k \<and> k < e then None else m (q, k))"
| "op_spec mops (MERGE p k v) m =
     (case mops p of
        None \<Rightarrow> Some (- EINVAL, m)
      | Some kind \<Rightarrow> map_option (\<lambda>w. (0, m((p, k) \<mapsto> w))) (merge_value kind (m (p, k)) v))"

fun txn_spec :: "(bytes \<rightharpoonup> merge_kind) \<Rightarrow> transaction \<Rightarrow> kv_map \<Rightarrow> (int \<times> kv_map) option" where
  "txn_spec mops [] m = Some (0, m)"
| "txn_spec mops (x # xs) m =
     do { (r, m1) \<leftarrow> op_spec mops x m; if r < 0 then Some (r, m1) else txn_spec mops xs m1 }"

fun op_prefix :: "txn_op \<Rightarrow> bytes" where
  "op_prefix (SET p k v) = p"
| "op_prefix (RMKEY p k) = p"
| "op_prefix (RMKEY_BY_PREFIX p) = p"
| "op_prefix (RM_RANGE_KEYS p s e) = p"
| "op_prefix (MERGE p k v) = p"

definition md_ok :: "memdb \<Rightarrow> bool" where
  "md_ok db \<longleftrightarrow> items_ok (md_map db)"

lemma md_bump_simps [simp]:
  "md_map (md_bump db) = md_map db" "md_merge_ops (md_bump db) = md_merge_ops db"
  by (simp_all add: md_bump_def)

lemma encode_has_sep [simp]: "0 \<in> set (encode_key p k)"
  by (simp add: encode_key_def)

lemma encode_same: "0 \<notin> set p \<Longrightarrow> 0 \<notin> set q \<Longrightarrow> encode_key q l = encode_key p k \<longleftrightarrow> q = p \<and> l = k"
  using encode_inj by blast

lemma map_of_filter_key: "map_of (filter (\<lambda>(k, v). P k) xs) k = (if P k then map_of xs k else None)"
  by (induction xs) auto

lemma starts_with_encode:
  assumes "0 \<notin> set p" and "0 \<notin> set q"
  shows "take (length (encode_key p [])) (encode_key q k) = encode_key p [] \<longleftrightarrow> q = p"
proof
  assume a: "take (length (encode_key p [])) (encode_key q k) = encode_key p []"
  have "encode_key q k = encode_key p [] @ drop (length (encode_key p [])) (encode_key q k)"
    using append_take_drop_id [of "length (encode_key p [])" "encode_key q k"] unfolding a by simp
  then have "encode_key q k = encode_key p (drop (length (encode_key p [])) (encode_key q k))"
    by (simp add: encode_key_def)
  then show "q = p" using encode_inj [OF assms(2,1)] by blast
qed (simp add: encode_key_def)

lemma range_encode:
  assumes "0 \<notin> set p" and "0 \<notin> set q" and "encode_key p s \<le> encode_key q k" and "encode_key q k < encode_key p e"
  shows "q = p"
proof -
  have "take (length (encode_key p [])) (encode_key p e) = encode_key p []" by (simp add: encode_key_def)
  moreover have "encode_key p [] \<le> encode_key q k" using assms(3) by (rule order_trans [rotated]) simp
  moreover have "encode_key q k \<le> encode_key p e" using assms(4) by (rule less_imp_le)
  ultimately have "take (length (encode_key p [])) (encode_key q k) = encode_key p []"
    using between_prefixed by blast
  then show ?thesis using starts_with_encode [OF assms(1,2)] by blast
qed

lemma update_first_kinds:
  assumes "map_of xs p = Some mo" and "mo_kind mo' = mo_kind mo"
  shows "map_option mo_kind \<circ> map_of (update_first p mo' xs) = map_option mo_kind \<circ> map_of xs"
proof
  fix q
  show "(map_option mo_kind \<circ> map_of (update_first p mo' xs)) q = (map_option mo_kind \<circ> map_of xs) q"
    using assms by (induction p mo' xs rule: update_first.induct) (auto split: if_splits)
qed

lemma merge_kept: "merge_nonexistent r mo = (v, mo') \<Longrightarrow> mo_kind mo' = mo_kind mo"
  "merge_existing l r mo = Some (v, mo') \<Longrightarrow> mo_kind mo' = mo_kind mo"
  by (auto simp: merge_nonexistent_def merge_existing_def record_merge_def Let_def split: merge_kind.splits if_splits)

lemma merge_existing_value: "map_option fst (merge_existing l r mo) = merge_value (mo_kind mo) (Some l) r"
  by (auto simp: merge_existing_def merge_value_def Let_def dvd_eq_mod_eq_0 split: merge_kind.split)

lemma kv_view_put: "0 \<notin> set p \<Longrightarrow> md_map db' = map_put (encode_key p k) v (md_map db) \<Longrightarrow> kv_view db' = (kv_view db)((p, k) \<mapsto> v)"
  by (auto simp: kv_view_def map_of_map_put encode_same fun_eq_iff)

text \<open>One operation: the result, the entries, and the kinds of the merge operators.\<close>

lemma md_merge_ok:
  assumes ok: "md_ok db" and p: "0 \<notin> set p"
  shows "map_option (\<lambda>(r, db'). (r, kv_view db')) (md_merge p (encode_key p k) v db) = op_spec (md_kinds db) (MERGE p k v) (kv_view db)"
    and "md_merge p (encode_key p k) v db = Some (r, db') \<Longrightarrow> md_ok db' \<and> md_kinds db' = md_kinds db"
proof -
  define f where "f = encode_key p k"
  define new where "new w mo = md_bump (db\<lparr>md_map := map_put f w (md_map db), md_merge_ops := update_first p mo (md_merge_ops db)\<rparr>)"
    for w mo
  have vw: "kv_view (new w mo) = (kv_view db)((p, k) \<mapsto> w)" for w mo
    by (rule kv_view_put [OF p]) (simp add: new_def f_def)
  have cur: "kv_view db (p, k) = map_of (md_map db) f" using p by (simp add: kv_view_def f_def)
  have step: "md_merge p f v db = (case map_of (md_merge_ops db) p of None \<Rightarrow> Some (- EINVAL, db)
      | Some mop \<Rightarrow> do { (w, mo) \<leftarrow> (case map_of (md_map db) f of None \<Rightarrow> Some (merge_nonexistent v mop)
          | Some old \<Rightarrow> merge_existing old v mop); Some (0, new w mo) })"
    unfolding md_merge_def new_def ..
  show "map_option (\<lambda>(r, db'). (r, kv_view db')) (md_merge p f v db) = op_spec (md_kinds db) (MERGE p k v) (kv_view db)"
  proof (cases "map_of (md_merge_ops db) p")
    case (Some mop)
    show ?thesis
    proof (cases "map_of (md_map db) f")
      case None
      then show ?thesis using Some vw by (simp add: step md_kinds_def cur merge_value_def merge_nonexistent_def)
    next
      case old: (Some l)
      note val = merge_existing_value [of l v mop, symmetric]
      show ?thesis
        using Some old vw
        by (cases "merge_existing l v mop") (auto simp: step md_kinds_def cur val)
    qed
  qed (simp add: step md_kinds_def)
  assume run: "md_merge p f v db = Some (r, db')"
  show "md_ok db' \<and> md_kinds db' = md_kinds db"
  proof (cases "map_of (md_merge_ops db) p")
    case None
    then show ?thesis using run ok by (simp add: step)
  next
    case (Some mop)
    define res where "res = (case map_of (md_map db) f of None \<Rightarrow> Some (merge_nonexistent v mop) | Some old \<Rightarrow> merge_existing old v mop)"
    obtain w mo where res: "res = Some (w, mo)" and "db' = new w mo"
      using run Some by (auto simp: step res_def [symmetric] bind_eq_Some_conv)
    moreover have "mo_kind mo = mo_kind mop"
      using res merge_kept unfolding res_def by (cases "map_of (md_map db) f") auto
    ultimately show ?thesis
      using ok update_first_kinds [OF Some, of mo] by (simp add: new_def md_ok_def map_put_ok f_def md_kinds_def)
  qed
qed

lemma md_apply_ok:
  assumes ok: "md_ok db" and p: "0 \<notin> set (op_prefix x)"
  shows "map_option (\<lambda>(r, db'). (r, kv_view db')) (md_apply x db) = op_spec (md_kinds db) x (kv_view db) \<and>
    (\<forall>r db'. md_apply x db = Some (r, db') \<longrightarrow> md_ok db' \<and> md_kinds db' = md_kinds db)"
proof (cases x)
  case (SET q k v)
  then show ?thesis
    using ok p kv_view_put [of q "md_set_key (encode_key q k) v db" k v db]
    by (simp add: md_set_key_def md_ok_def map_put_ok md_kinds_def)
next
  case (RMKEY q k)
  then show ?thesis
    using ok p by (auto simp: md_rmkey_def md_ok_def items_ok_delete md_kinds_def kv_view_def delete_conv' encode_same fun_eq_iff)
next
  case (RMKEY_BY_PREFIX q)
  define st where "st = encode_key q []"
  have "erase_while (\<lambda>k. take (length st) k = st) (lower_index st (md_map db)) (md_map db) =
      filter (\<lambda>(k, v). \<not> (st \<le> k \<and> take (length st) k = st)) (md_map db)"
    using ok between_prefixed by (intro erase_while_filter) (auto simp: md_ok_def)
  also have "\<dots> = filter (\<lambda>(k, v). take (length st) k \<noteq> st) (md_map db)"
    using prefixed_ge by (intro filter_cong) auto
  finally have m: "md_map (md_rmkeys_by_prefix q db) = filter (\<lambda>(k, v). take (length st) k \<noteq> st) (md_map db)"
    by (simp add: md_rmkeys_by_prefix_def st_def Let_def)
  have "kv_view (md_rmkeys_by_prefix q db) = (\<lambda>(p, k). if p = q then None else kv_view db (p, k))"
    using p RMKEY_BY_PREFIX starts_with_encode [of q]
    by (auto simp: kv_view_def m map_of_filter_key fun_eq_iff st_def)
  moreover have "md_ok (md_rmkeys_by_prefix q db)" using ok by (simp add: md_ok_def m items_ok_filter)
  ultimately show ?thesis using RMKEY_BY_PREFIX by (simp add: md_kinds_def md_rmkeys_by_prefix_def Let_def)
next
  case (RM_RANGE_KEYS q s e)
  have m: "md_map (md_rm_range_keys q s e db) =
      filter (\<lambda>(k, v). \<not> (encode_key q s \<le> k \<and> k < encode_key q e)) (md_map db)"
    using ok erase_while_filter [of "md_map db" "encode_key q s" "\<lambda>k. k < encode_key q e"]
    by (simp add: md_rm_range_keys_def md_ok_def Let_def)
  have iff: "encode_key q s \<le> encode_key a b \<and> encode_key a b < encode_key q e \<longleftrightarrow> a = q \<and> s \<le> b \<and> b < e"
    if "0 \<notin> set a" for a b
    using p RM_RANGE_KEYS range_encode [of q a s b e] that by auto
  have "kv_view (md_rm_range_keys q s e db) = (\<lambda>(p, k). if p = q \<and> s \<le> k \<and> k < e then None else kv_view db (p, k))"
  proof (rule ext, clarify)
    fix a b
    have "map_of (md_map (md_rm_range_keys q s e db)) (encode_key a b) =
        (if encode_key q s \<le> encode_key a b \<and> encode_key a b < encode_key q e then None else map_of (md_map db) (encode_key a b))"
      unfolding m map_of_filter_key by simp
    then show "kv_view (md_rm_range_keys q s e db) (a, b) = (if a = q \<and> s \<le> b \<and> b < e then None else kv_view db (a, b))"
      using iff [of a b] by (cases "0 \<in> set a"; cases "a = q \<and> s \<le> b \<and> b < e") (auto simp: kv_view_def)
  qed
  moreover have "md_ok (md_rm_range_keys q s e db)" using ok by (simp add: md_ok_def m items_ok_filter)
  ultimately show ?thesis using RM_RANGE_KEYS by (simp add: md_kinds_def md_rm_range_keys_def Let_def)
next
  case (MERGE q k v)
  then show ?thesis using md_merge_ok [OF ok, of q] p by auto
qed

lemma submit_transaction_ok:
  assumes "md_ok db" and "\<forall>x \<in> set t. 0 \<notin> set (op_prefix x)"
  shows "map_option (\<lambda>(r, db'). (r, kv_view db')) (submit_transaction t db) = txn_spec (md_kinds db) t (kv_view db) \<and>
    (\<forall>r db'. submit_transaction t db = Some (r, db') \<longrightarrow> md_ok db' \<and> md_kinds db' = md_kinds db)"
  using assms
proof (induction t arbitrary: db)
  case (Cons x t)
  note a = md_apply_ok [OF Cons.prems(1), of x]
  show ?case
  proof (cases "md_apply x db")
    case None
    then show ?thesis using a Cons.prems(2) by (auto simp: map_option_case split: option.splits)
  next
    case (Some y)
    obtain r db1 where y: "y = (r, db1)" by (cases y)
    have s: "op_spec (md_kinds db) x (kv_view db) = Some (r, kv_view db1)" and o: "md_ok db1" "md_kinds db1 = md_kinds db"
      using a Some Cons.prems(2) by (auto simp: y)
    then show ?thesis using Cons.IH [OF o(1)] Cons.prems(2) Some by (auto simp: y)
  qed
qed simp

section \<open>Iteration\<close>

text \<open>What a whole-space iterator still has before it.\<close>

definition wi_rest :: "ws_iter \<Rightarrow> kv_items" where
  "wi_rest it = (if wi_valid it then drop (nat (wi_pos it)) (wi_items it) else [])"

lemma wi_rest_valid: "wi_valid it \<longleftrightarrow> wi_rest it \<noteq> []"
  by (auto simp: wi_rest_def wi_valid_def)

lemma wi_entry_rest: "wi_entry it = (case wi_rest it of [] \<Rightarrow> None | x # xs \<Rightarrow> Some x)"
proof (cases "wi_valid it")
  case True
  then have "wi_rest it = wi_items it ! nat (wi_pos it) # drop (Suc (nat (wi_pos it))) (wi_items it)"
    by (simp add: wi_rest_def wi_valid_def Cons_nth_drop_Suc nat_less_iff)
  with True show ?thesis by (simp add: wi_entry_def)
qed (simp add: wi_entry_def wi_rest_def)

lemma wi_next_rest: "wi_valid it \<Longrightarrow> wi_rest (wi_next it) = tl (wi_rest it)"
  by (auto simp: wi_rest_def wi_next_def wi_valid_def tl_drop drop_Suc [symmetric] nat_add_distrib)

lemma wi_goto_rest: "wi_rest (wi_goto i it) = drop i (wi_items it)"
  by (simp add: wi_rest_def wi_goto_def wi_valid_def)

lemma wi_next_items [simp]: "wi_items (wi_next it) = wi_items it"
  by (simp add: wi_next_def)

text \<open>The client's loop: while the iterator is valid, take the key and the value and go on.\<close>

function pi_walk :: "prefix_iter \<Rightarrow> kv_items" where
  "pi_walk p = (if pi_valid p then (the (pi_key p), the (pi_value p)) # pi_walk (snd (pi_next p)) else [])"
  by auto
termination
proof (relation "measure (\<lambda>p. length (wi_rest (pi_iter p)))")
  fix p assume "pi_valid p"
  then have "wi_valid (pi_iter p)" by (simp add: pi_valid_def)
  then show "(snd (pi_next p), p) \<in> measure (\<lambda>p. length (wi_rest (pi_iter p)))"
    using wi_rest_valid [of "pi_iter p"] by (simp add: pi_next_def wi_next_rest)
qed simp

declare pi_walk.simps [simp del]

definition in_scope :: "bytes \<Rightarrow> bytes option \<Rightarrow> bytes \<Rightarrow> bool" where
  "in_scope p hi f \<longleftrightarrow> fst (decode_key f) = p \<and> (case hi of None \<Rightarrow> True | Some u \<Rightarrow> snd (decode_key f) < u)"

lemma pi_valid_rest:
  "pi_valid p \<longleftrightarrow> (case wi_rest (pi_iter p) of [] \<Rightarrow> False | (f, v) # xs \<Rightarrow> in_scope (pi_prefix p) (pi_upper p) f)"
  by (cases "wi_rest (pi_iter p)"; cases "decode_key (fst (hd (wi_rest (pi_iter p))))")
    (auto simp: pi_valid_def wi_rest_valid wi_is_prefixed_def wi_raw_key_def wi_entry_rest in_scope_def split: option.split)

lemma pi_walk_rest:
  "pi_walk p = map (\<lambda>(f, v). (snd (decode_key f), v)) (takeWhile (\<lambda>(f, v). in_scope (pi_prefix p) (pi_upper p) f) (wi_rest (pi_iter p)))"
proof (induction p rule: pi_walk.induct)
  case (1 p)
  show ?case
  proof (cases "wi_rest (pi_iter p)")
    case Nil
    then have "\<not> pi_valid p" by (simp add: pi_valid_rest)
    with Nil show ?thesis by (simp add: pi_walk.simps [of p])
  next
    case (Cons x xs)
    obtain f v where x: "x = (f, v)" by (cases x)
    show ?thesis
    proof (cases "in_scope (pi_prefix p) (pi_upper p) f")
      case True
      then have v: "pi_valid p" using Cons by (simp add: pi_valid_rest x)
      have w: "wi_valid (pi_iter p)" using Cons by (simp add: wi_rest_valid)
      then have "wi_rest (pi_iter (snd (pi_next p))) = xs" "pi_prefix (snd (pi_next p)) = pi_prefix p"
        "pi_upper (snd (pi_next p)) = pi_upper p"
        using Cons by (simp_all add: pi_next_def wi_next_rest)
      then show ?thesis
        using 1 [OF v] v Cons True
        by (simp add: pi_walk.simps [of p] pi_key_def pi_value_def wi_raw_key_def wi_value_def wi_entry_rest x)
    next
      case False
      then have "\<not> pi_valid p" using Cons by (simp add: pi_valid_rest x)
      with Cons False show ?thesis by (simp add: pi_walk.simps [of p] x)
    qed
  qed
qed

text \<open>A new iterator sees the entries of the store.\<close>

lemma wi_refresh_new [simp]: "wi_refresh db (get_wholespace_iterator db) = get_wholespace_iterator db"
  by (simp add: wi_refresh_def get_wholespace_iterator_def)

definition wi_fresh :: "memdb \<Rightarrow> ws_iter \<Rightarrow> bool" where
  "wi_fresh db it \<longleftrightarrow> wi_seqno it = md_seqno db \<and> wi_items it = md_map db"

lemma wi_fresh_simps [simp]:
  "wi_fresh db (get_wholespace_iterator db)" "wi_fresh db it \<Longrightarrow> wi_refresh db it = it"
  "wi_fresh db it \<Longrightarrow> wi_fresh db (wi_lower_bound to db it)"
  by (simp_all add: wi_fresh_def wi_refresh_def get_wholespace_iterator_def wi_lower_bound_def wi_goto_def Let_def)

lemma wi_lower_bound_rest:
  assumes "wi_fresh db it" and "md_ok db"
  shows "wi_rest (wi_lower_bound to db it) = filter (\<lambda>(k, v). to \<le> k) (md_map db)"
  using assms items_ok_split(2) [of "md_map db" to]
  by (simp add: wi_lower_bound_def wi_goto_rest md_ok_def wi_fresh_def Let_def)

lemma pi_fresh: "wi_fresh db (pi_iter (get_iterator p lo hi db))"
  by (simp add: get_iterator_def make_iterator_def Let_def)

lemma get_iterator_simps [simp]:
  "pi_prefix (get_iterator p lo hi db) = p" "pi_upper (get_iterator p lo hi db) = hi"
  by (simp_all add: get_iterator_def make_iterator_def Let_def)

text \<open>The entries in scope are the codes of keys below the upper bound, and come first.\<close>

lemma in_scope_encode: "0 \<notin> set p \<Longrightarrow> in_scope p hi (encode_key p k) \<longleftrightarrow> (\<forall>u. hi = Some u \<longrightarrow> k < u)"
  by (simp add: in_scope_def split: option.split)

lemma in_scopeD:
  assumes "in_scope p hi f" and "0 \<in> set f"
  obtains k where "f = encode_key p k" and "0 \<notin> set p" and "\<forall>u. hi = Some u \<longrightarrow> k < u"
proof -
  obtain q k where f: "f = encode_key q k" "0 \<notin> set q" "decode_key f = (q, k)" by (rule encode_decode [OF assms(2)])
  then have "q = p" using assms(1) by (simp add: in_scope_def)
  with f have "f = encode_key p k" "0 \<notin> set p" by simp_all
  moreover from this assms(1) have "\<forall>u. hi = Some u \<longrightarrow> k < u" by (simp add: in_scope_encode)
  ultimately show ?thesis by (rule that)
qed

lemma in_scope_down:
  assumes "in_scope p hi f'" and "f \<le> f'" and "encode_key p to \<le> f" and "0 \<in> set f" and "0 \<in> set f'"
  shows "in_scope p hi f"
proof -
  obtain k' where f': "f' = encode_key p k'" "0 \<notin> set p" "\<forall>u. hi = Some u \<longrightarrow> k' < u" by (rule in_scopeD [OF assms(1,5)])
  obtain q k where f: "f = encode_key q k" "0 \<notin> set q" by (rule encode_decode [OF assms(4)])
  have "k' < k' @ [0]" using append_less_append [of k' "[]" "[0]"] by simp
  then have "f < encode_key p (k' @ [0])" using assms(2) unfolding f'(1) by (intro le_less_trans [OF assms(2)]) (simp add: f'(1))
  then have "q = p" using range_encode [OF f'(2) f(2)] assms(3) unfolding f(1) by blast
  moreover have "k \<le> k'" using assms(2) f' f \<open>q = p\<close> by simp
  ultimately show ?thesis using f f' by (auto simp: in_scope_encode)
qed

lemma walk_entries:
  assumes "md_ok db" and "0 \<notin> set p"
  shows "pi_walk (pi_lower_bound to db (get_iterator p lo hi db)) =
    map (\<lambda>(f, v). (snd (decode_key f), v)) (filter (\<lambda>(f, v). encode_key p to \<le> f \<and> in_scope p hi f) (md_map db))"
proof -
  define R where "R = filter (\<lambda>(k, v). encode_key p to \<le> k) (md_map db)"
  have "pi_start p @ to = encode_key p to" by (simp add: pi_start_def encode_key_def)
  then have r: "wi_rest (pi_iter (pi_lower_bound to db (get_iterator p lo hi db))) = R"
    using wi_lower_bound_rest [OF pi_fresh assms(1)] by (simp add: pi_lower_bound_def R_def)
  have items: "items_ok (md_map db)" using assms(1) by (simp add: md_ok_def)
  then have "sorted_wrt (\<lambda>x y. fst x < fst y) R" by (simp add: R_def items_ok_def sorted_wrt_map sorted_wrt_filter)
  then have "sorted_wrt (\<lambda>x y. (case y of (f, v) \<Rightarrow> in_scope p hi f) \<longrightarrow> (case x of (f, v) \<Rightarrow> in_scope p hi f)) R"
  proof (rule sorted_wrt_mono_rel [rotated])
    fix x y
    assume "x \<in> set R" "y \<in> set R" "fst x < fst y"
    then show "(case y of (f, v) \<Rightarrow> in_scope p hi f) \<longrightarrow> (case x of (f, v) \<Rightarrow> in_scope p hi f)"
      using items in_scope_down [of p hi "fst y" "fst x" to] by (auto simp: R_def items_ok_def)
  qed
  note t = takeWhile_sorted_filter(1) [OF this]
  have q: "pi_prefix (pi_lower_bound to db (get_iterator p lo hi db)) = p"
    "pi_upper (pi_lower_bound to db (get_iterator p lo hi db)) = hi" by (simp_all add: pi_lower_bound_def)
  show ?thesis
    unfolding pi_walk_rest r q t by (simp add: R_def case_prod_unfold conj_commute)
qed

lemma walk_sorted:
  assumes "md_ok db" and "0 \<notin> set p"
  shows "sorted_wrt (<) (map fst (pi_walk (pi_lower_bound to db (get_iterator p lo hi db))))"
proof -
  define L where "L = filter (\<lambda>(f, v). encode_key p to \<le> f \<and> in_scope p hi f) (md_map db)"
  have ok: "items_ok L" using assms(1) by (simp add: L_def md_ok_def items_ok_filter)
  then have "sorted_wrt (\<lambda>x y. fst x < fst y) L" by (simp add: items_ok_def sorted_wrt_map)
  then have "sorted_wrt (\<lambda>x y. snd (decode_key (fst x)) < snd (decode_key (fst y))) L"
  proof (rule sorted_wrt_mono_rel [rotated])
    fix x y
    assume xy: "x \<in> set L" "y \<in> set L" "fst x < fst y"
    then have "in_scope p hi (fst x)" "in_scope p hi (fst y)" "0 \<in> set (fst x)" "0 \<in> set (fst y)"
      using ok by (auto simp: L_def items_ok_def)
    then obtain k l where "fst x = encode_key p k" "fst y = encode_key p l" using in_scopeD by metis
    then show "snd (decode_key (fst x)) < snd (decode_key (fst y))" using xy(3) assms(2) by simp
  qed
  then show ?thesis
    unfolding walk_entries [OF assms] by (simp add: L_def sorted_wrt_map case_prod_unfold)
qed

lemma walk_set:
  assumes ok: "md_ok db" and p: "0 \<notin> set p"
  shows "(k, v) \<in> set (pi_walk (pi_lower_bound to db (get_iterator p lo hi db))) \<longleftrightarrow>
    kv_view db (p, k) = Some v \<and> to \<le> k \<and> (\<forall>u. hi = Some u \<longrightarrow> k < u)"
proof -
  have items: "items_ok (md_map db)" using ok by (simp add: md_ok_def)
  have mem: "(encode_key p k, v) \<in> set (md_map db) \<longleftrightarrow> kv_view db (p, k) = Some v"
    using p map_of_eq_Some_iff [OF items_ok_distinct [OF items], of "encode_key p k" v] by (simp add: kv_view_def)
  have "(k, v) \<in> (\<lambda>(f, v). (snd (decode_key f), v)) ` {(f, v) \<in> set (md_map db). encode_key p to \<le> f \<and> in_scope p hi f} \<longleftrightarrow>
      (encode_key p k, v) \<in> set (md_map db) \<and> to \<le> k \<and> (\<forall>u. hi = Some u \<longrightarrow> k < u)" (is "?L \<longleftrightarrow> ?R")
  proof
    assume ?L
    then obtain f where f: "(f, v) \<in> set (md_map db)" "encode_key p to \<le> f" "in_scope p hi f" "k = snd (decode_key f)" by auto
    have "0 \<in> set f" using items f(1) by (force simp: items_ok_def)
    from in_scopeD [OF f(3) this] f p show ?R by (metis decode_encode encode_le snd_conv)
  next
    assume ?R
    then have "(encode_key p k, v) \<in> {(f, v) \<in> set (md_map db). encode_key p to \<le> f \<and> in_scope p hi f}"
      using p by (simp add: in_scope_encode)
    from imageI [OF this, of "\<lambda>(f, v). (snd (decode_key f), v)"] show ?L using p by simp
  qed
  then show ?thesis unfolding walk_entries [OF assms] mem by (simp add: case_prod_unfold)
qed

lemma md_apply_keeps_ok:
  assumes "md_ok db" and "md_apply x db = Some (r, db')"
  shows "md_ok db'"
proof (cases x)
  case (RMKEY_BY_PREFIX q)
  then show ?thesis
    using assms erase_while_filter [of "md_map db" "encode_key q []" "\<lambda>k. take (length (encode_key q [])) k = encode_key q []"]
      between_prefixed [of "encode_key q []"]
    by (auto simp: md_ok_def md_rmkeys_by_prefix_def Let_def items_ok_filter)
next
  case (RM_RANGE_KEYS q s e)
  then show ?thesis
    using assms erase_while_filter [of "md_map db" "encode_key q s" "\<lambda>k. k < encode_key q e"]
    by (auto simp: md_ok_def md_rm_range_keys_def Let_def items_ok_filter)
next
  case (MERGE q k v)
  then show ?thesis
    using assms by (auto simp: md_merge_def md_ok_def map_put_ok bind_eq_Some_conv split: option.splits)
qed (use assms in \<open>auto simp: md_ok_def md_set_key_def md_rmkey_def map_put_ok items_ok_delete\<close>)

lemma submit_keeps_ok: "md_ok db \<Longrightarrow> submit_transaction t db = Some (r, db') \<Longrightarrow> md_ok db'"
proof (induction t arbitrary: db)
  case (Cons x t)
  then obtain r1 db1 where "md_apply x db = Some (r1, db1)" by (auto simp: bind_eq_Some_conv)
  with Cons md_apply_keeps_ok [of db x r1 db1] show ?case by (auto split: if_splits)
qed simp

section \<open>Properties\<close>

text \<open>
  C22: the in-memory store is a map from prefix and key to value. A transaction changes it operation by
  operation as the specification does, where removing by prefix or by range removes exactly the keys
  of that prefix, or of that range of it, and a merge combines the old and the new value. A merge under
  a prefix without an operator returns \<open>-EINVAL\<close> and the operations before it have had their effect.
  The prefixes contain no NUL byte.
\<close>

theorem memdb_refines_map:
  assumes "md_ok db" and "\<forall>x \<in> set t. 0 \<notin> set (op_prefix x)"
  shows "map_option (\<lambda>(r, db'). (r, kv_view db')) (submit_transaction t db) = txn_spec (md_kinds db) t (kv_view db)"
  using submit_transaction_ok [OF assms] by blast

text \<open>
  Iterating over a prefix from a lower bound on gives the entries of that prefix with a key not
  below the bound, and below the upper bound of the iterator if it has one, each once and in
  increasing order.
\<close>

theorem memdb_iteration:
  fixes to :: bytes and lo hi :: "bytes option"
  assumes "md_ok db" and "0 \<notin> set p"
  defines "L \<equiv> pi_walk (pi_lower_bound to db (get_iterator p lo hi db))"
  shows "sorted_wrt (<) (map fst L) \<and>
    (\<forall>k v. (k, v) \<in> set L \<longleftrightarrow> kv_view db (p, k) = Some v \<and> to \<le> k \<and> (\<forall>u. hi = Some u \<longrightarrow> k < u))"
  unfolding L_def using walk_sorted [OF assms(1,2)] walk_set [OF assms(1,2)] by blast

text \<open>
  \<open>upper_bound\<close> of the iterator over a prefix never finds anything. It stores its argument as the
  upper bound of the iterator, so the keys after the argument, to which it moves, are not valid.
\<close>

theorem prefix_upper_bound_never_valid:
  assumes "md_ok db" and "0 \<notin> set p"
  shows "\<not> pi_valid (pi_upper_bound aft db (get_iterator p lo hi db))"
proof -
  define it where "it = wi_lower_bound (pi_start p @ aft) db (pi_iter (get_iterator p lo hi db))"
  have st: "pi_start p @ aft = encode_key p aft" by (simp add: pi_start_def encode_key_def)
  have r: "wi_rest it = filter (\<lambda>(k, v). encode_key p aft \<le> k) (md_map db)"
    unfolding it_def st by (rule wi_lower_bound_rest [OF pi_fresh assms(1)])
  have out: "\<not> in_scope p (Some aft) f" if "(f, v) \<in> set (wi_rest it)" for f v
  proof
    assume "in_scope p (Some aft) f"
    moreover have "0 \<in> set f" using that r assms(1) by (auto simp: md_ok_def items_ok_def)
    ultimately obtain k where "f = encode_key p k" "k < aft" by (metis in_scopeD)
    then show False using that r by auto
  qed
  have "\<exists>j. pi_upper_bound aft db (get_iterator p lo hi db) = (get_iterator p lo hi db)\<lparr>pi_upper := Some aft, pi_iter := j\<rparr> \<and>
      (j = it \<or> wi_valid it \<and> j = wi_next it)"
    by (intro exI [of _ "pi_iter (pi_upper_bound aft db (get_iterator p lo hi db))"])
      (auto simp: pi_upper_bound_def it_def Let_def wi_raw_key_def wi_entry_def split: option.split prod.split)
  then obtain j where j: "pi_upper_bound aft db (get_iterator p lo hi db) = (get_iterator p lo hi db)\<lparr>pi_upper := Some aft, pi_iter := j\<rparr>"
    and "j = it \<or> wi_valid it \<and> j = wi_next it" by blast
  then have "set (wi_rest j) \<subseteq> set (wi_rest it)" using wi_next_rest list.set_sel(2) by (fastforce simp: wi_rest_valid)
  then show ?thesis using out unfolding j pi_valid_rest by (auto split: list.split)
qed

text \<open>A store with keys of two prefixes and an operator for one of them.\<close>

definition md_sample :: memdb where
  "md_sample = \<lparr>md_map = [([65, 0, 1], [1]), ([65, 0, 2], [2]), ([66, 0, 1], [3])], md_seqno = 3,
     md_merge_ops = [([66], \<lparr>mo_kind = XorMerge, mo_count = 0, mo_bytes = 0\<rparr>)]\<rparr>"

lemma md_sample_ok: "md_ok md_sample"
  by (simp add: md_ok_def md_sample_def)

theorem memdb_refines_map_witness:
  "map_option (\<lambda>(r, db'). (r, kv_view db' ([66], [1]), kv_view db' ([65], [2])))
     (submit_transaction [MERGE [66] [1] [5], RMKEY_BY_PREFIX [65]] md_sample) = Some (0, Some [6], None)"
proof -
  have "\<forall>x \<in> set [MERGE [66] [1] [5], RMKEY_BY_PREFIX [65]]. 0 \<notin> set (op_prefix x)" by simp
  note m = memdb_refines_map [OF md_sample_ok this]
  define f where "f = (\<lambda>(r :: int, m :: kv_map). (r, m ([66], [1]), m ([65], [2])))"
  have "map_option f (map_option (\<lambda>(r, db'). (r, kv_view db')) (submit_transaction [MERGE [66] [1] [5], RMKEY_BY_PREFIX [65]] md_sample)) =
      Some (0, Some [6], None)"
    unfolding m by (simp add: f_def md_kinds_def md_sample_def merge_value_def kv_view_def encode_key_def xor_bytes_def)
  then show ?thesis by (simp add: f_def option.map_comp comp_def case_prod_unfold del: submit_transaction.simps)
qed

theorem memdb_iteration_witness:
  "([2], [2]) \<in> set (pi_walk (pi_lower_bound [2] md_sample (get_iterator [65] None None md_sample))) \<and>
   ([1], [1]) \<notin> set (pi_walk (pi_lower_bound [2] md_sample (get_iterator [65] None None md_sample)))"
  using memdb_iteration [OF md_sample_ok, of "[65]" "[2]" None None]
  by (simp add: kv_view_def md_sample_def encode_key_def)

theorem prefix_upper_bound_never_valid_witness:
  "kv_view md_sample ([65], [2]) = Some [2] \<and>
   \<not> pi_valid (pi_upper_bound [1] md_sample (get_iterator [65] None None md_sample))"
  using prefix_upper_bound_never_valid [OF md_sample_ok, of "[65]" "[1]" None None]
  by (simp add: kv_view_def md_sample_def encode_key_def)

end
