(* ===== verification/Bitmap_Freelist.thy ===== *)
theory Bitmap_Freelist
  imports Mem_Db Intarith Ranges
begin

text \<open>
  The persistent free-space bitmap (\<^verbatim>\<open>bluestore/bitmap_freelist_manager.cc\<close>): one bit per block, the
  bits of \<open>blocks_per_key\<close> consecutive blocks under the key of their first address, changed by merges
  with the exclusive-or operator. The lock makes every call atomic. The store is \<open>memdb\<close>.
\<close>

section \<open>Keys and bits\<close>

primrec be_bytes :: "nat \<Rightarrow> nat \<Rightarrow> bytes" where
  "be_bytes 0 v = []"
| "be_bytes (Suc n) v = of_nat (v div 256 ^ n) # be_bytes n v"

definition key_encode_u64 :: "u64 \<Rightarrow> bytes" where
  "key_encode_u64 v = be_bytes 8 v"

text \<open>The decoder reads eight bytes; a shorter key is read past its end.\<close>

definition key_decode_u64 :: "bytes \<Rightarrow> u64 option" where
  "key_decode_u64 p = (if length p < 8 then None else Some (fold (\<lambda>b n. n * 256 + unat b) (take 8 p) 0))"

definition bl_bit :: "bytes \<Rightarrow> nat \<Rightarrow> bool" where
  "bl_bit bl i = bit (bl ! (i div 8)) (i mod 8)"

text \<open>The two scans over the bits of a buffer; \<open>- 1\<close> when there is no such bit.\<close>

function next_bit :: "bool \<Rightarrow> bytes \<Rightarrow> nat \<Rightarrow> int" where
  "next_bit b bl start =
     (if start < 8 * length bl then if bl_bit bl start = b then int start else next_bit b bl (start + 1) else - 1)"
  by auto
termination by (relation "measure (\<lambda>(b, bl, start). 8 * length bl - start)") auto

declare next_bit.simps [simp del]

definition get_next_clear_bit :: "bytes \<Rightarrow> int \<Rightarrow> int" where
  "get_next_clear_bit bl start = next_bit False bl (nat start)"

definition get_next_set_bit :: "bytes \<Rightarrow> int \<Rightarrow> int" where
  "get_next_set_bit bl start = next_bit True bl (nat start)"

definition is_power_of_2 :: "u64 \<Rightarrow> bool" where
  "is_power_of_2 v \<longleftrightarrow> v \<noteq> 0 \<and> v AND (v - 1) = 0"

definition not64 :: "u64 \<Rightarrow> u64" where
  "not64 v = 2 ^ 64 - 1 - v"

section \<open>State\<close>

record bfm =
  fm_meta_prefix :: bytes
  fm_bitmap_prefix :: bytes
  fm_size :: u64
  fm_bytes_per_block :: u64
  fm_blocks_per_key :: u64
  fm_bytes_per_key :: u64
  fm_blocks :: u64
  fm_block_mask :: u64
  fm_key_mask :: u64
  fm_all_set_bl :: bytes
  fm_enum_p :: "prefix_iter option"
  fm_enum_offset :: u64
  fm_enum_bl :: bytes
  fm_enum_pos :: int
  fm_null :: bool

definition bfm_new :: "bytes \<Rightarrow> bytes \<Rightarrow> bfm" where
  "bfm_new meta_prefix bitmap_prefix =
     \<lparr>fm_meta_prefix = meta_prefix, fm_bitmap_prefix = bitmap_prefix, fm_size = 0, fm_bytes_per_block = 0,
      fm_blocks_per_key = 128, fm_bytes_per_key = 0, fm_blocks = 0, fm_block_mask = 0, fm_key_mask = 0,
      fm_all_set_bl = [], fm_enum_p = None, fm_enum_offset = 0, fm_enum_bl = [], fm_enum_pos = 0, fm_null = False\<rparr>"

definition ascii :: "string \<Rightarrow> bytes" where
  "ascii s = map of_char s"

definition freelist_create :: "string \<Rightarrow> bytes \<Rightarrow> bytes \<Rightarrow> bfm option" where
  "freelist_create type meta_prefix bitmap_prefix =
     (if type = ''bitmap'' then Some (bfm_new meta_prefix bitmap_prefix) else None)"

definition set_null_manager :: "bfm \<Rightarrow> bfm" where
  "set_null_manager fm = fm\<lparr>fm_null := True\<rparr>"

definition get_offset :: "bfm \<Rightarrow> u64 \<Rightarrow> int \<Rightarrow> u64" where
  "get_offset fm key_off b = add64 key_off (mul64 (nat b) (fm_bytes_per_block fm))"

definition init_misc :: "bfm \<Rightarrow> bfm" where
  "init_misc fm =
     fm\<lparr>fm_all_set_bl := replicate (fm_blocks_per_key fm div 8) 0xFF,
        fm_block_mask := not64 (sub64 (fm_bytes_per_block fm) 1),
        fm_bytes_per_key := mul64 (fm_bytes_per_block fm) (fm_blocks_per_key fm),
        fm_key_mask := not64 (sub64 (mul64 (fm_bytes_per_block fm) (fm_blocks_per_key fm)) 1)\<rparr>"

text \<open>Division by zero ends the process.\<close>

definition size_2_block_count :: "bfm \<Rightarrow> u64 \<Rightarrow> u64 option" where
  "size_2_block_count fm target =
     (if fm_bytes_per_block fm = 0 \<or> fm_blocks_per_key fm = 0 then None
      else
        let n = target div fm_bytes_per_block fm; k = fm_blocks_per_key fm
        in Some (if mul64 (n div k) k \<noteq> n then mul64 (add64 (n div k) 1) k else n))"

section \<open>Marking ranges\<close>

text \<open>The loop \<open>p[i >> 3] ^= 1 << (i & 7)\<close>; an index outside the buffer fails an assertion.\<close>

fun flip_bits :: "nat list \<Rightarrow> bytes \<Rightarrow> bytes option" where
  "flip_bits [] p = Some p"
| "flip_bits (i # is) p =
     (if i div 8 < length p then flip_bits is (p[i div 8 := p ! (i div 8) XOR push_bit (i mod 8) 1]) else None)"

definition range_mask :: "bfm \<Rightarrow> nat \<Rightarrow> nat \<Rightarrow> bytes option" where
  "range_mask fm s e = flip_bits [s..<e] (replicate (fm_blocks_per_key fm div 8) 0)"

definition bit_in_key :: "bfm \<Rightarrow> u64 \<Rightarrow> u32" where
  "bit_in_key fm off = ((off AND not64 (fm_key_mask fm)) div fm_bytes_per_block fm) mod 2 ^ 32"

definition merge_key :: "bfm \<Rightarrow> u64 \<Rightarrow> bytes \<Rightarrow> transaction \<Rightarrow> transaction" where
  "merge_key fm key bl txn = txn_merge (fm_bitmap_prefix fm) (key_encode_u64 key) bl txn"

partial_function (option) xor_middle :: "bfm \<Rightarrow> u64 \<Rightarrow> u64 \<Rightarrow> transaction \<Rightarrow> (u64 \<times> transaction) option" where
  "xor_middle fm key lastk txn =
     (if key < lastk
      then xor_middle fm (add64 key (fm_bytes_per_key fm)) lastk (merge_key fm key (fm_all_set_bl fm) txn)
      else Some (key, txn))"

declare xor_middle.simps [code]

definition fm_xor :: "bfm \<Rightarrow> u64 \<Rightarrow> u64 \<Rightarrow> transaction \<Rightarrow> transaction option" where
  "fm_xor fm off len txn =
     (if off AND fm_block_mask fm \<noteq> off \<or> len AND fm_block_mask fm \<noteq> len \<or> fm_bytes_per_block fm = 0 then None
      else
        let lst = sub64 (add64 off len) 1;
            first_key = off AND fm_key_mask fm;
            last_key = lst AND fm_key_mask fm
        in if first_key = last_key
           then do { p \<leftarrow> range_mask fm (bit_in_key fm off) (Suc (bit_in_key fm lst));
                     Some (merge_key fm first_key p txn) }
           else do { p \<leftarrow> range_mask fm (bit_in_key fm off) (fm_blocks_per_key fm mod 2 ^ 32);
                     (key, txn1) \<leftarrow> xor_middle fm (add64 first_key (fm_bytes_per_key fm)) last_key (merge_key fm first_key p txn);
                     if key \<noteq> last_key then None
                     else do { q \<leftarrow> range_mask fm 0 (Suc (bit_in_key fm lst)); Some (merge_key fm key q txn1) } })"

definition fm_allocate :: "bfm \<Rightarrow> u64 \<Rightarrow> u64 \<Rightarrow> transaction \<Rightarrow> transaction option" where
  "fm_allocate fm off len txn = (if \<not> fm_null fm then fm_xor fm off len txn else Some txn)"

definition fm_release :: "bfm \<Rightarrow> u64 \<Rightarrow> u64 \<Rightarrow> transaction \<Rightarrow> transaction option" where
  "fm_release fm off len txn = (if \<not> fm_null fm then fm_xor fm off len txn else Some txn)"

section \<open>Creating and loading\<close>

definition fm_create :: "u64 \<Rightarrow> u64 \<Rightarrow> transaction \<Rightarrow> bfm \<Rightarrow> (int \<times> bfm \<times> transaction) option" where
  "fm_create new_size granularity txn fm =
     (if \<not> is_power_of_2 granularity then None
      else
        let fm1 = init_misc (fm\<lparr>fm_bytes_per_block := granularity, fm_size := new_size AND not64 (granularity - 1),
                                fm_blocks_per_key := 128\<rparr>)
        in do { blocks \<leftarrow> size_2_block_count fm1 (fm_size fm1);
                let fm2 = fm1\<lparr>fm_blocks := blocks\<rparr>;
                let whole = mul64 blocks (fm_bytes_per_block fm2);
                txn1 \<leftarrow> (if whole > fm_size fm2 then fm_xor fm2 (fm_size fm2) (sub64 whole (fm_size fm2)) txn else Some txn);
                txn2 \<leftarrow> fm_xor fm2 0 (fm_bytes_per_block fm2) txn1;
                let m = fm_meta_prefix fm2;
                Some (0, fm2,
                  txn_set m (ascii ''size'') (le_bytes 8 (fm_size fm2))
                  (txn_set m (ascii ''blocks'') (le_bytes 8 (fm_blocks fm2))
                  (txn_set m (ascii ''blocks_per_key'') (le_bytes 8 (fm_blocks_per_key fm2))
                  (txn_set m (ascii ''bytes_per_block'') (le_bytes 8 (fm_bytes_per_block fm2)) txn2)))) })"

text \<open>\<open>_load_from_db\<close>: the loop over the entries of the meta prefix.\<close>

definition load_entry :: "bytes \<times> bytes \<Rightarrow> bfm \<Rightarrow> bfm option" where
  "load_entry kv fm =
     (let (k, bl) = kv
      in if k = ascii ''bytes_per_block''
         then if length bl = 8 then Some (fm\<lparr>fm_bytes_per_block := le_val bl\<rparr>) else None
         else if k = ascii ''blocks'' then if length bl = 8 then Some (fm\<lparr>fm_blocks := le_val bl\<rparr>) else None
         else if k = ascii ''size'' then if length bl = 8 then Some (fm\<lparr>fm_size := le_val bl\<rparr>) else None
         else if k = ascii ''blocks_per_key''
         then if length bl = 8 then Some (fm\<lparr>fm_blocks_per_key := le_val bl\<rparr>) else None
         else Some fm)"

fun load_entries :: "kv_items \<Rightarrow> bfm \<Rightarrow> bfm option" where
  "load_entries [] fm = Some fm"
| "load_entries (x # xs) fm = do { fm1 \<leftarrow> load_entry x fm; load_entries xs fm1 }"

definition load_from_db :: "memdb \<Rightarrow> bfm \<Rightarrow> bfm option" where
  "load_from_db db fm = load_entries (pi_walk (pi_lower_bound [] db (get_iterator (fm_meta_prefix fm) None None db))) fm"

text \<open>
  \<open>std::stoull\<close>: white space, a sign, decimal digits; a value that does not fit and a text without
  digits throw.
\<close>

definition is_digit :: "byte \<Rightarrow> bool" where
  "is_digit c \<longleftrightarrow> 48 \<le> c \<and> c \<le> 57"

definition digits_value :: "bytes \<Rightarrow> nat" where
  "digits_value ds = fold (\<lambda>d n. n * 10 + (unat d - 48)) ds 0"

definition stoull :: "bytes \<Rightarrow> u64 option" where
  "stoull s =
     (let t = dropWhile (\<lambda>c. c = 32 \<or> 9 \<le> c \<and> c \<le> 13) s;
          minus = (t \<noteq> [] \<and> hd t = 45);
          u = (if t \<noteq> [] \<and> (hd t = 45 \<or> hd t = 43) then tl t else t);
          ds = takeWhile is_digit u
      in if ds = [] \<or> digits_value ds \<ge> 2 ^ 64 then None
         else Some (if minus then neg64 (digits_value ds) else digits_value ds))"

text \<open>The reader of the configuration gives a code and a text; without one, \<open>_read_cfg\<close> returns -1.\<close>

fun read_entries :: "(bytes \<Rightarrow> int \<times> bytes) \<Rightarrow> (bytes \<times> (u64 \<Rightarrow> bfm \<Rightarrow> bfm)) list \<Rightarrow> bfm \<Rightarrow> (int \<times> bfm) option" where
  "read_entries reader [] fm = Some (0, fm)"
| "read_entries reader ((k, put) # es) fm =
     (let (r, v) = reader k
      in if r \<noteq> 0 then Some (r, fm) else do { n \<leftarrow> stoull v; read_entries reader es (put n fm) })"

definition read_cfg :: "(bytes \<Rightarrow> int \<times> bytes) option \<Rightarrow> bfm \<Rightarrow> (int \<times> bfm) option" where
  "read_cfg cfg_reader fm =
     (case cfg_reader of
        None \<Rightarrow> Some (- 1, fm)
      | Some reader \<Rightarrow>
          read_entries reader
            [(ascii ''bfm_size'', \<lambda>n fm. fm\<lparr>fm_size := n\<rparr>), (ascii ''bfm_blocks'', \<lambda>n fm. fm\<lparr>fm_blocks := n\<rparr>),
             (ascii ''bfm_bytes_per_block'', \<lambda>n fm. fm\<lparr>fm_bytes_per_block := n\<rparr>),
             (ascii ''bfm_blocks_per_key'', \<lambda>n fm. fm\<lparr>fm_blocks_per_key := n\<rparr>)] fm)"

definition fm_init :: "memdb \<Rightarrow> (bytes \<Rightarrow> int \<times> bytes) option \<Rightarrow> bfm \<Rightarrow> (int \<times> bfm) option" where
  "fm_init db cfg_reader fm =
     do { (r, fm1) \<leftarrow> read_cfg cfg_reader fm;
          fm2 \<leftarrow> (if r \<noteq> 0 then load_from_db db fm1 else Some fm1);
          Some (0, init_misc fm2) }"

text \<open>\<open>std::to_string\<close> of an unsigned number.\<close>

fun to_string :: "nat \<Rightarrow> bytes" where
  "to_string n = (if n < 10 then [of_nat (48 + n)] else to_string (n div 10) @ [of_nat (48 + n mod 10)])"

declare to_string.simps [simp del]

definition get_meta :: "bfm \<Rightarrow> u64 \<Rightarrow> kv_items option" where
  "get_meta fm target =
     do { (blocks, size) \<leftarrow>
            (if target = 0 then Some (fm_blocks fm, fm_size fm)
             else
               let t = target AND not64 (sub64 (fm_bytes_per_block fm) 1)
               in map_option (\<lambda>b. (b, t)) (size_2_block_count fm t));
          Some [(ascii ''bfm_blocks'', to_string blocks), (ascii ''bfm_size'', to_string size),
                (ascii ''bfm_bytes_per_block'', to_string (fm_bytes_per_block fm)),
                (ascii ''bfm_blocks_per_key'', to_string (fm_blocks_per_key fm))] }"

section \<open>Enumeration\<close>

definition enumerate_reset :: "bfm \<Rightarrow> bfm" where
  "enumerate_reset fm = fm\<lparr>fm_enum_offset := 0, fm_enum_pos := 0, fm_enum_bl := [], fm_enum_p := None\<rparr>"

text \<open>
  The first loop: it looks for a clear bit and gives the offset of the free space. A key that is
  missing stands for clear bits.
\<close>

definition enum_load :: "prefix_iter \<Rightarrow> bfm \<Rightarrow> bfm option" where
  "enum_load p fm =
     do { k \<leftarrow> pi_key p; bl \<leftarrow> pi_value p; off \<leftarrow> key_decode_u64 k;
          Some (fm\<lparr>fm_enum_p := Some p, fm_enum_offset := off, fm_enum_bl := bl\<rparr>) }"

lemma pi_next_shorter: "pi_valid (snd (pi_next p)) \<Longrightarrow>
  length (wi_rest (pi_iter (snd (pi_next p)))) < length (wi_rest (pi_iter p)) \<or> \<not> wi_valid (pi_iter p)"
  by (cases "wi_rest (pi_iter p)") (auto simp: pi_next_def wi_next_rest wi_rest_valid)

lemma pi_next_decreases:
  assumes "pi_valid (snd (pi_next p))"
  shows "length (wi_rest (pi_iter (snd (pi_next p)))) < length (wi_rest (pi_iter p))"
  using pi_next_shorter [OF assms] assms by (auto simp: pi_next_def pi_valid_def split: if_splits)

function find_clear :: "prefix_iter \<Rightarrow> bfm \<Rightarrow> (u64 \<times> bfm) option" where
  "find_clear p fm =
     (let pos = get_next_clear_bit (fm_enum_bl fm) (fm_enum_pos fm)
      in if pos \<ge> 0 then Some (get_offset fm (fm_enum_offset fm) pos, fm\<lparr>fm_enum_p := Some p, fm_enum_pos := pos\<rparr>)
         else
           let p1 = snd (pi_next p)
           in if \<not> pi_valid p1
              then let off = add64 (fm_enum_offset fm) (fm_bytes_per_key fm)
                   in Some (get_offset fm off 0, fm\<lparr>fm_enum_p := Some p1, fm_enum_bl := [], fm_enum_offset := off, fm_enum_pos := 0\<rparr>)
              else
                let nxt = add64 (fm_enum_offset fm) (fm_bytes_per_key fm)
                in case enum_load p1 (fm\<lparr>fm_enum_pos := 0\<rparr>) of
                     None \<Rightarrow> None
                   | Some fm1 \<Rightarrow> if fm_enum_offset fm1 > nxt then Some (nxt, fm1) else find_clear p1 fm1)"
  by auto
termination
  by (relation "measure (\<lambda>(p, fm). length (wi_rest (pi_iter p)))") (auto intro: pi_next_decreases)

declare find_clear.simps [simp del]

text \<open>The second loop: it looks for a set bit and gives its offset, or \<open>None\<close> inside when there is none.\<close>

function find_set :: "prefix_iter \<Rightarrow> bfm \<Rightarrow> (u64 option \<times> bfm) option" where
  "find_set p fm =
     (let pos = get_next_set_bit (fm_enum_bl fm) (fm_enum_pos fm)
      in if pos \<ge> 0
         then Some (Some (get_offset fm (fm_enum_offset fm) pos), fm\<lparr>fm_enum_p := Some p, fm_enum_pos := pos\<rparr>)
         else
           let p1 = snd (pi_next p); fm0 = fm\<lparr>fm_enum_p := Some p1, fm_enum_bl := [], fm_enum_pos := 0\<rparr>
           in if \<not> pi_valid p1 then Some (None, fm0)
              else case enum_load p1 fm0 of None \<Rightarrow> None | Some fm1 \<Rightarrow> find_set p1 fm1)"
  by auto
termination
  by (relation "measure (\<lambda>(p, fm). length (wi_rest (pi_iter p)))") (auto intro: pi_next_decreases)

declare find_set.simps [simp del]

text \<open>The start of an enumeration. The flag is false when the store has no key of the bitmap.\<close>

definition enum_start :: "memdb \<Rightarrow> bfm \<Rightarrow> (bool \<times> bfm) option" where
  "enum_start db fm =
     (if fm_enum_offset fm = 0 \<and> fm_enum_pos fm = 0
      then let p = pi_lower_bound [] db (get_iterator (fm_bitmap_prefix fm) None None db)
           in if \<not> pi_valid p then Some (False, fm\<lparr>fm_enum_p := Some p\<rparr>)
              else do { fm1 \<leftarrow> enum_load p fm; if fm_enum_offset fm1 = 0 then Some (True, fm1) else None }
      else Some (True, fm))"

text \<open>The rest of \<open>enumerate_next\<close>; the result is the offset and the length of the next free range.\<close>

definition enum_range :: "bfm \<Rightarrow> ((u64 \<times> u64) option \<times> bfm) option" where
  "enum_range fm1 =
     do { p \<leftarrow> fm_enum_p fm1;
          (off, fm2) \<leftarrow> find_clear p fm1;
          q \<leftarrow> fm_enum_p fm2;
          let units = mul64 (fm_blocks fm2) (fm_bytes_per_block fm2);
          (en, fm3) \<leftarrow> (if pi_valid q then find_set q fm2 else Some (None, fm2));
          case en of
            Some x \<Rightarrow> Some (Some (off, sub64 (min units x) off), fm3)
          | None \<Rightarrow>
              if fm_enum_offset fm3 < fm_size fm3
              then Some (Some (off, sub64 units off),
                     fm3\<lparr>fm_enum_offset := fm_size fm3, fm_enum_pos := int (fm_blocks_per_key fm3)\<rparr>)
              else Some (None, fm3) }"

definition enumerate_next :: "memdb \<Rightarrow> bfm \<Rightarrow> ((u64 \<times> u64) option \<times> bfm) option" where
  "enumerate_next db fm =
     do { (found, fm1) \<leftarrow> enum_start db fm;
          if \<not> found \<or> fm_enum_offset fm1 \<ge> fm_size fm1 then Some (None, fm1) else enum_range fm1 }"

text \<open>The loop of a client over all free ranges.\<close>

partial_function (option) enumerate_all :: "memdb \<Rightarrow> bfm \<Rightarrow> (u64 \<times> u64) list option" where
  "enumerate_all db fm =
     do { (r, fm1) \<leftarrow> enumerate_next db fm;
          case r of None \<Rightarrow> Some [] | Some x \<Rightarrow> do { xs \<leftarrow> enumerate_all db fm1; Some (x # xs) } }"

declare enumerate_all.simps [code]

end
