(* ===== verification/Freelist_Refinement.thy ===== *)
theory Freelist_Refinement
  imports Bitmap_Freelist
begin

text \<open>
  The bitmap in the store represents a set of allocated blocks: marking a range flips exactly its
  blocks, and the enumeration gives the maximal ranges of the other blocks.
\<close>

section \<open>Bits\<close>

lemma bl_bit_eqI:
  assumes "length x = length y" and "\<And>j. j < 8 * length x \<Longrightarrow> bl_bit x j = bl_bit y j"
  shows "x = y"
proof (rule nth_equalityI [OF assms(1)])
  fix i assume i: "i < length x"
  show "x ! i = y ! i"
  proof (rule bit_word_eqI)
    fix n :: nat assume n: "n < LENGTH(8)"
    then have n8: "n < 8" by simp
    then have "(8 * i + n) div 8 = i" "(8 * i + n) mod 8 = n" "8 * i + n < 8 * length x" using i by auto
    then show "bit (x ! i) n \<longleftrightarrow> bit (y ! i) n" using assms(2) [of "8 * i + n"] by (simp add: bl_bit_def)
  qed
qed

lemma bl_bit_replicate: "j < 8 * n \<Longrightarrow> bl_bit (replicate n 0) j = False" "j < 8 * n \<Longrightarrow> bl_bit (replicate n 0xFF) j = True"
proof -
  assume "j < 8 * n"
  then have d: "j div 8 < n" by simp
  show "bl_bit (replicate n 0) j = False" using d by (simp add: bl_bit_def)
  have m: "(0xFF :: byte) = mask 8" by (simp add: mask_eq_exp_minus_1)
  have "bit (0xFF :: byte) (j mod 8)" unfolding m bit_mask_iff by simp
  then show "bl_bit (replicate n 0xFF) j = True" using d by (simp add: bl_bit_def)
qed

lemma bl_bit_xor:
  assumes "length x = length y" and "j < 8 * length x"
  shows "bl_bit (xor_bytes x y) j \<longleftrightarrow> bl_bit x j \<noteq> bl_bit y j"
proof -
  have "j div 8 < length x" using assms(2) by simp
  then show ?thesis using assms(1) by (simp add: bl_bit_def xor_bytes_def bit_xor_iff)
qed

lemma flip_bits_ok:
  "e \<le> 8 * length p \<Longrightarrow> \<exists>q. flip_bits [s..<e] p = Some q \<and> length q = length p \<and>
    (\<forall>j < 8 * length p. bl_bit q j \<longleftrightarrow> bl_bit p j \<noteq> (s \<le> j \<and> j < e))"
proof (induction "e - s" arbitrary: s p)
  case 0
  then show ?case by (auto intro!: exI [of _ p])
next
  case (Suc n)
  define p1 where "p1 = p[s div 8 := p ! (s div 8) XOR push_bit (s mod 8) 1]"
  have s: "s < e" "s div 8 < length p" using Suc.hyps(2) Suc.prems by auto
  have b: "bl_bit p1 j \<longleftrightarrow> bl_bit p j \<noteq> (j = s)" if "j < 8 * length p" for j
  proof (cases "j div 8 = s div 8")
    case True
    have "j = s \<longleftrightarrow> j mod 8 = s mod 8" using True by (metis div_mult_mod_eq)
    then show ?thesis using True s(2) by (auto simp: bl_bit_def p1_def bit_xor_iff bit_exp_iff)
  qed (auto simp: bl_bit_def p1_def)
  have "n = e - Suc s" "e \<le> 8 * length p1" using Suc.hyps(2) Suc.prems by (simp_all add: p1_def)
  then obtain q where "flip_bits [Suc s..<e] p1 = Some q" "length q = length p1"
    "\<forall>j < 8 * length p1. bl_bit q j \<longleftrightarrow> bl_bit p1 j \<noteq> (Suc s \<le> j \<and> j < e)"
    using Suc.hyps(1) [of "Suc s" p1] by blast
  then show ?case
    using s b by (intro exI [of _ q]) (auto simp: upt_conv_Cons p1_def)
qed

lemma range_mask_ok:
  assumes "e \<le> 8 * (fm_blocks_per_key fm div 8)"
  obtains q where "range_mask fm s e = Some q" and "length q = fm_blocks_per_key fm div 8"
    and "\<And>j. j < 8 * (fm_blocks_per_key fm div 8) \<Longrightarrow> bl_bit q j \<longleftrightarrow> s \<le> j \<and> j < e"
  using flip_bits_ok [of e "replicate (fm_blocks_per_key fm div 8) 0" s] assms that
  by (auto simp: range_mask_def bl_bit_replicate)

text \<open>The scans.\<close>

lemma next_bit_spec:
  "(\<exists>n. next_bit b bl start = int n \<and> start \<le> n \<and> n < 8 * length bl \<and> bl_bit bl n = b \<and>
      (\<forall>j. start \<le> j \<longrightarrow> j < n \<longrightarrow> bl_bit bl j \<noteq> b)) \<or>
   next_bit b bl start = - 1 \<and> (\<forall>j. start \<le> j \<longrightarrow> j < 8 * length bl \<longrightarrow> bl_bit bl j \<noteq> b)"
proof (induction b bl start rule: next_bit.induct)
  case (1 b bl start)
  show ?case
  proof (cases "start < 8 * length bl \<and> bl_bit bl start \<noteq> b")
    case True
    then have step: "next_bit b bl start = next_bit b bl (Suc start)" by (simp add: next_bit.simps [of b bl start])
    have less: "bl_bit bl j \<noteq> b" if "start \<le> j" "Suc start \<le> j \<longrightarrow> bl_bit bl j \<noteq> b" for j
      using that True by (cases "j = start") auto
    from 1 True step have "(\<exists>n. next_bit b bl start = int n \<and> Suc start \<le> n \<and> n < 8 * length bl \<and> bl_bit bl n = b \<and>
        (\<forall>j. Suc start \<le> j \<longrightarrow> j < n \<longrightarrow> bl_bit bl j \<noteq> b)) \<or>
      next_bit b bl start = - 1 \<and> (\<forall>j. Suc start \<le> j \<longrightarrow> j < 8 * length bl \<longrightarrow> bl_bit bl j \<noteq> b)" by auto
    with less show ?thesis by (meson Suc_leD)
  next
    case False
    then show ?thesis by (cases "start < 8 * length bl") (auto simp: next_bit.simps [of b bl start])
  qed
qed

lemma next_bit_cases:
  obtains (found) n where "next_bit b bl start = int n" and "start \<le> n" and "n < 8 * length bl" and "bl_bit bl n = b"
      and "\<And>j. start \<le> j \<Longrightarrow> j < n \<Longrightarrow> bl_bit bl j \<noteq> b"
  | (missing) "next_bit b bl start = - 1" and "\<And>j. start \<le> j \<Longrightarrow> j < 8 * length bl \<Longrightarrow> bl_bit bl j \<noteq> b"
  using next_bit_spec [of b bl start] by blast

section \<open>Keys\<close>

lemma length_be_bytes [simp]: "length (be_bytes n v) = n"
  by (induction n) auto

lemma fold_be_bytes: "fold (\<lambda>b n. n * 256 + unat b) (be_bytes n v) acc = acc * 256 ^ n + v mod 256 ^ n"
proof (induction n arbitrary: acc)
  case (Suc n)
  have "v mod 256 ^ Suc n = v mod (256 ^ n * 256)" by (simp add: mult.commute)
  also have "\<dots> = 256 ^ n * (v div 256 ^ n mod 256) + v mod 256 ^ n" by (rule mod_mult2_eq)
  finally have m: "v mod 256 ^ Suc n = 256 ^ n * (v div 256 ^ n mod 256) + v mod 256 ^ n" .
  show ?case unfolding m be_bytes.simps fold_simps Suc by (simp add: unat_of_nat_byte algebra_simps)
qed simp

lemma key_decode_encode [simp]: "v < 2 ^ 64 \<Longrightarrow> key_decode_u64 (key_encode_u64 v) = Some v"
  by (simp add: key_decode_u64_def key_encode_u64_def fold_be_bytes del: be_bytes.simps)

lemma key_encode_inj: "key_encode_u64 v = key_encode_u64 w \<Longrightarrow> v < 2 ^ 64 \<Longrightarrow> w < 2 ^ 64 \<Longrightarrow> v = w"
  by (metis key_decode_encode option.inject)

lemma be_bytes_less: "v < 256 ^ n \<Longrightarrow> w < 256 ^ n \<Longrightarrow> v < w \<Longrightarrow> be_bytes n v < be_bytes n w"
proof (induction n arbitrary: v w)
  case (Suc n)
  define h where "h x = x div 256 ^ n" for x :: nat
  have lt: "h v < 256" "h w < 256" using Suc.prems(1,2) by (simp_all add: h_def less_mult_imp_div_less)
  have le: "h v \<le> h w" using Suc.prems(3) by (simp add: h_def div_le_mono)
  have mods: "be_bytes n x = be_bytes n (x mod 256 ^ n)" for x
  proof -
    have "x div 256 ^ m mod 256 = (x mod 256 ^ n) div 256 ^ m mod 256" if m: "m < n" for m
    proof -
      obtain k where n: "n = Suc m + k" using less_imp_Suc_add [OF m] by auto
      have "x mod 256 ^ n = 256 ^ m * (x div 256 ^ m mod (256 * 256 ^ k)) + x mod 256 ^ m"
        unfolding n using mod_mult2_eq [of x "256 ^ m" "256 * 256 ^ k"] by (simp add: power_add mult.assoc mult.left_commute)
      then have "(x mod 256 ^ n) div 256 ^ m = x div 256 ^ m mod (256 * 256 ^ k)" by simp
      then show ?thesis by (simp add: mod_mult_eq mod_mod_cancel)
    qed
    then have "m \<le> n \<Longrightarrow> be_bytes m x = be_bytes m (x mod 256 ^ n)" for m
    proof (induction m)
      case (Suc m)
      then have "(of_nat (x div 256 ^ m) :: byte) = of_nat ((x mod 256 ^ n) div 256 ^ m)"
        by (metis Suc_le_eq unat_of_nat_byte word_unat_eq_iff)
      with Suc show ?case by simp
    qed simp
    then show ?thesis by simp
  qed
  show ?case
  proof (cases "h v = h w")
    case True
    then have "v mod 256 ^ n < w mod 256 ^ n"
      using Suc.prems(3) div_mult_mod_eq [of v "256 ^ n"] div_mult_mod_eq [of w "256 ^ n"] unfolding h_def by (metis nat_add_left_cancel_less)
    then have "be_bytes n v < be_bytes n w" using Suc.IH [of "v mod 256 ^ n" "w mod 256 ^ n"] mods by simp
    with True show ?thesis by (simp add: h_def)
  next
    case False
    then have "(of_nat (h v) :: byte) < of_nat (h w)" using lt le by (simp add: word_less_nat_alt unat_of_nat_byte)
    then show ?thesis by (simp add: h_def)
  qed
qed simp

lemma key_encode_less: "v < 2 ^ 64 \<Longrightarrow> w < 2 ^ 64 \<Longrightarrow> key_encode_u64 v < key_encode_u64 w \<longleftrightarrow> v < w"
  using be_bytes_less [of v 8 w] be_bytes_less [of w 8 v] unfolding key_encode_u64_def
  by (cases v w rule: linorder_cases) (auto simp del: be_bytes.simps)

section \<open>Geometry\<close>

text \<open>Powers of two, and the fields that \<open>_init_misc\<close> computes.\<close>

definition fm_geo :: "bfm \<Rightarrow> bool" where
  "fm_geo fm \<longleftrightarrow> isp2 (fm_bytes_per_block fm) \<and> isp2 (fm_blocks_per_key fm) \<and> 8 \<le> fm_blocks_per_key fm \<and>
     fm_blocks_per_key fm < 2 ^ 32 \<and> fm_bytes_per_block fm * fm_blocks_per_key fm < 2 ^ 64 \<and> init_misc fm = fm"

lemma mod_mult_div: "(x mod (b * k)) div b = (x div b) mod (k :: nat)" if "0 < b"
  using that mod_mult2_eq [of x b k] by simp

lemma not64_masks:
  assumes "0 < a" and "a < 2 ^ 64"
  shows "not64 (sub64 a 1) = neg64 a" and "not64 (neg64 a) = sub64 a 1"
  using assms sub64_exact [of 1 a] by (auto simp: not64_def neg64_def)

lemma fm_geoD:
  assumes "fm_geo fm"
  defines "B \<equiv> fm_bytes_per_block fm" and "K \<equiv> fm_blocks_per_key fm"
  shows "0 < B" and "8 \<le> K" and "8 * (K div 8) = K" and "K < 2 ^ 32" and "fm_bytes_per_key fm = B * K"
    and "fm_all_set_bl fm = replicate (K div 8) 0xFF" and "B * K < 2 ^ 64"
    and "\<And>x. x < 2 ^ 64 \<Longrightarrow> x AND fm_block_mask fm = x div B * B"
    and "\<And>x. x < 2 ^ 64 \<Longrightarrow> x AND fm_key_mask fm = x div (B * K) * (B * K)"
    and "\<And>x. bit_in_key fm x = x div B mod K"
proof -
  have g: "isp2 B" "isp2 K" "8 \<le> K" "K < 2 ^ 32" "B * K < 2 ^ 64" and i: "init_misc fm = fm"
    using assms by (auto simp: fm_geo_def)
  obtain k where k: "K = 2 ^ k" using isp2_imp_power [OF g(2)] by blast
  have "3 \<le> k" using g(3) power_strict_increasing_iff [of "2 :: nat" k 3] by (auto simp: k not_less [symmetric])
  then have "8 dvd K" unfolding k using le_imp_power_dvd [of 3 k "2 :: nat"] by simp
  then show "8 * (K div 8) = K" by simp
  show pos: "0 < B" using isp2_pos [OF g(1)] .
  have le: "B \<le> B * K" "0 < B * K" using g(3) pos by auto
  have bl: "B < 2 ^ 64" using le(1) g(5) by (rule le_less_trans)
  have bk: "isp2 (B * K)" by (rule isp2_mult [OF g(1,2)])
  have m: "mul64 B K = B * K" using g(5) by (rule mul64_exact)
  have f: "fm_bytes_per_key (init_misc fm) = mul64 B K" "fm_all_set_bl (init_misc fm) = replicate (K div 8) 0xFF"
    "fm_block_mask (init_misc fm) = not64 (sub64 B 1)" "fm_key_mask (init_misc fm) = not64 (sub64 (mul64 B K) 1)"
    by (simp_all add: init_misc_def B_def K_def)
  note f = f [unfolded i]
  show "fm_bytes_per_key fm = B * K" "fm_all_set_bl fm = replicate (K div 8) 0xFF" using f m by simp_all
  show "x AND fm_block_mask fm = x div B * B" if "x < 2 ^ 64" for x
    using p2align_eq [OF g(1) bl that] unfolding f not64_masks [OF pos bl] p2align_def .
  show "x AND fm_key_mask fm = x div (B * K) * (B * K)" if "x < 2 ^ 64" for x
    using p2align_eq [OF bk g(5) that] unfolding f m not64_masks [OF le(2) g(5)] p2align_def .
  show "bit_in_key fm x = x div B mod K" for x
  proof -
    have "x AND not64 (fm_key_mask fm) = x mod (B * K)"
      using p2phase_eq [OF bk g(5), of x] unfolding f m not64_masks [OF le(2) g(5)] p2phase_def .
    moreover have "x div B mod K < 2 ^ 32" using g(3,4) mod_less_divisor [of K "x div B"] by linarith
    ultimately show ?thesis using mod_mult_div [OF pos, of x K] by (simp add: bit_in_key_def B_def [symmetric])
  qed
qed (use assms in \<open>auto simp: fm_geo_def\<close>)

section \<open>The merges of a range\<close>

definition key_of :: "bfm \<Rightarrow> nat \<Rightarrow> bytes" where
  "key_of fm i = key_encode_u64 (i * (fm_bytes_per_block fm * fm_blocks_per_key fm))"

definition merges :: "bfm \<Rightarrow> (nat \<Rightarrow> bytes) \<Rightarrow> nat list \<Rightarrow> transaction" where
  "merges fm ms is = map (\<lambda>i. MERGE (fm_bitmap_prefix fm) (key_of fm i) (ms i)) is"

definition mask_ok :: "bfm \<Rightarrow> nat \<Rightarrow> nat \<Rightarrow> nat \<Rightarrow> bytes \<Rightarrow> bool" where
  "mask_ok fm a n i m \<longleftrightarrow> length m = fm_blocks_per_key fm div 8 \<and>
     (\<forall>j < fm_blocks_per_key fm. bl_bit m j \<longleftrightarrow> a \<le> i * fm_blocks_per_key fm + j \<and> i * fm_blocks_per_key fm + j < a + n)"

lemma mask_ok_unique:
  assumes "fm_geo fm" and "mask_ok fm a n i x" and "mask_ok fm a n i y"
  shows "x = y"
  using fm_geoD(3) [OF assms(1)] assms(2,3) by (intro bl_bit_eqI) (auto simp: mask_ok_def)

lemma range_mask_mask_ok:
  assumes geo: "fm_geo fm" and "a \<le> i * fm_blocks_per_key fm + s" and "e \<le> fm_blocks_per_key fm"
    and "\<And>j. j < fm_blocks_per_key fm \<Longrightarrow>
      s \<le> j \<and> j < e \<longleftrightarrow> a \<le> i * fm_blocks_per_key fm + j \<and> i * fm_blocks_per_key fm + j < a + n"
  shows "\<exists>m. range_mask fm s e = Some m \<and> mask_ok fm a n i m"
proof -
  have k: "8 * (fm_blocks_per_key fm div 8) = fm_blocks_per_key fm" using fm_geoD(3) [OF geo] .
  obtain q where "range_mask fm s e = Some q" "length q = fm_blocks_per_key fm div 8"
    "\<And>j. j < 8 * (fm_blocks_per_key fm div 8) \<Longrightarrow> bl_bit q j \<longleftrightarrow> s \<le> j \<and> j < e"
    using range_mask_ok [of e fm s] assms(3) unfolding k by blast
  then show ?thesis using assms(4) unfolding k by (auto simp: mask_ok_def)
qed

lemma all_set_mask_ok:
  assumes "fm_geo fm" and "a \<le> i * fm_blocks_per_key fm" and "Suc i * fm_blocks_per_key fm \<le> a + n"
  shows "mask_ok fm a n i (fm_all_set_bl fm)"
proof -
  have "8 * (fm_blocks_per_key fm div 8) = fm_blocks_per_key fm" using fm_geoD(3) [OF assms(1)] .
  moreover have "j < fm_blocks_per_key fm \<Longrightarrow> a \<le> i * fm_blocks_per_key fm + j \<and> i * fm_blocks_per_key fm + j < a + n" for j
    using assms(2,3) by auto
  ultimately show ?thesis
    using bl_bit_replicate(2) [of _ "fm_blocks_per_key fm div 8"]
    by (simp add: mask_ok_def fm_geoD(6) [OF assms(1)])
qed

lemma merge_key_merges:
  "merge_key fm (i * (fm_bytes_per_block fm * fm_blocks_per_key fm)) (ms i) txn = txn @ merges fm ms [i]"
  by (simp add: merge_key_def txn_merge_def merges_def key_of_def)

lemma xor_middle_ok:
  assumes geo: "fm_geo fm" and bound: "j * (fm_bytes_per_block fm * fm_blocks_per_key fm) < 2 ^ 64" and "i \<le> j"
    and ms: "\<And>l. i \<le> l \<Longrightarrow> l < j \<Longrightarrow> ms l = fm_all_set_bl fm"
  shows "xor_middle fm (i * (fm_bytes_per_block fm * fm_blocks_per_key fm)) (j * (fm_bytes_per_block fm * fm_blocks_per_key fm)) txn =
    Some (j * (fm_bytes_per_block fm * fm_blocks_per_key fm), txn @ merges fm ms [i..<j])"
  using assms(3) ms
proof (induction "j - i" arbitrary: i txn)
  case 0
  then show ?case by (simp add: xor_middle.simps merges_def)
next
  case (Suc d)
  define W where "W = fm_bytes_per_block fm * fm_blocks_per_key fm"
  have W: "0 < W" "fm_bytes_per_key fm = W" using fm_geoD(1,2,5) [OF geo] by (auto simp: W_def)
  have ij: "i < j" using Suc.hyps(2) by simp
  then have "Suc i * W \<le> j * W" by (intro mult_right_mono) auto
  then have "add64 (i * W) W = Suc i * W" using bound by (simp add: W_def [symmetric] add64_exact)
  moreover have "i * W < j * W" using ij W(1) by simp
  moreover have "[i..<j] = i # [Suc i..<j]" using ij by (simp add: upt_conv_Cons)
  moreover have "merge_key fm (i * W) (fm_all_set_bl fm) txn = txn @ merges fm ms [i]"
    using merge_key_merges [of fm i ms txn] Suc.prems(2) [of i] ij by (simp add: W_def)
  moreover have "xor_middle fm (Suc i * W) (j * W) (txn @ merges fm ms [i]) = Some (j * W, (txn @ merges fm ms [i]) @ merges fm ms [Suc i..<j])"
    using Suc.hyps(1) [of "Suc i"] Suc.hyps(2) Suc.prems ij unfolding W_def by auto
  ultimately show ?case
    unfolding W_def [symmetric] by (simp add: xor_middle.simps [of fm "i * W"] W(2) merges_def)
qed

lemma fm_xor_ok:
  assumes geo: "fm_geo fm" and n: "0 < n" and bound: "(a + n) * fm_bytes_per_block fm < 2 ^ 64"
  obtains ms where "fm_xor fm (a * fm_bytes_per_block fm) (n * fm_bytes_per_block fm) txn =
      Some (txn @ merges fm ms [a div fm_blocks_per_key fm..<Suc ((a + n - 1) div fm_blocks_per_key fm)])"
    and "\<And>i. a div fm_blocks_per_key fm \<le> i \<Longrightarrow> i \<le> (a + n - 1) div fm_blocks_per_key fm \<Longrightarrow> mask_ok fm a n i (ms i)"
proof -
  define B K where "B = fm_bytes_per_block fm" and "K = fm_blocks_per_key fm"
  define z i0 i1 where "z = a + n - 1" and "i0 = a div K" and "i1 = z div K"
  note g = fm_geoD [OF geo, folded B_def K_def]
  have K: "0 < K" using g(2) by simp
  have zb: "z * B < 2 ^ 64" "a * B < 2 ^ 64" "n * B < 2 ^ 64" "a * B + n * B < 2 ^ 64" "(a + n) * B < 2 ^ 64"
    using bound n g(1) by (auto simp: z_def B_def algebra_simps diff_mult_distrib intro: le_less_trans [rotated])
  define lst where "lst = (a + n) * B - 1"
  have "add64 (a * B) (n * B) = (a + n) * B" using zb by (simp add: add64_exact algebra_simps)
  moreover have "1 \<le> (a + n) * B" using g(1) n by (simp add: Suc_le_eq)
  ultimately have lst: "sub64 (add64 (a * B) (n * B)) 1 = lst" "lst < 2 ^ 64"
    using zb(5) sub64_exact [of 1 "(a + n) * B"] by (simp_all only: lst_def)
  have az: "a \<le> z" "z < a + n" "Suc z = a + n" using n by (auto simp: z_def)
  have "lst = z * B + (B - 1)" using g(1) by (simp add: lst_def az(3) [symmetric])
  then have ld: "lst div B = z" using g(1) by (simp only: div_mult_self3 div_less)
  have keys: "a * B AND fm_key_mask fm = i0 * (B * K)" "lst AND fm_key_mask fm = i1 * (B * K)"
    using g(9) [OF zb(2)] g(9) [OF lst(2)] g(1) ld by (simp_all add: div_mult2_eq i0_def i1_def)
  have bits: "bit_in_key fm (a * B) = a mod K" "bit_in_key fm lst = z mod K" using g(1,10) ld by simp_all
  have align: "a * B AND fm_block_mask fm = a * B" "n * B AND fm_block_mask fm = n * B" using g(1) g(8) zb by simp_all
  from az(1) have i01: "i0 \<le> i1" by (simp add: i0_def i1_def div_le_mono)
  have am: "i0 * K + a mod K = a" "i1 * K + z mod K = z" "a mod K < K" "z mod K < K"
    using K by (simp_all add: i0_def i1_def)
  have top: "i1 * (B * K) < 2 ^ 64"
  proof -
    have "i1 * (B * K) = (i1 * K) * B" by simp
    also have "\<dots> \<le> z * B" using am(2) by (intro mult_right_mono) auto
    finally show ?thesis using zb(1) by (rule le_less_trans)
  qed
  show thesis
  proof (cases "i0 = i1")
    case True
    have "\<exists>m. range_mask fm (a mod K) (Suc (z mod K)) = Some m \<and> mask_ok fm a n i0 m"
      unfolding K_def using am az True K by (intro range_mask_mask_ok [OF geo]) (auto simp: K_def Suc_le_eq)
    then obtain m where m: "range_mask fm (a mod K) (Suc (z mod K)) = Some m" "mask_ok fm a n i0 m" by blast
    have "fm_xor fm (a * B) (n * B) txn = Some (txn @ merges fm (\<lambda>_. m) [i0..<Suc i1])"
      using m(1) align keys bits lst(1) g(1) True merge_key_merges [of fm i0 "\<lambda>_. m" txn]
      by (simp add: fm_xor_def B_def [symmetric] K_def [symmetric] Let_def)
    with that [of "\<lambda>_. m"] m(2) True show thesis unfolding B_def K_def z_def i0_def i1_def by simp
  next
    case False
    then have lt: "i0 < i1" using i01 by simp
    then have "Suc i0 * K \<le> i1 * K" by (intro mult_right_mono) auto
    then have far: "i0 * K + K \<le> z" using am(2) by simp
    have "\<exists>m. range_mask fm (a mod K) K = Some m \<and> mask_ok fm a n i0 m"
      unfolding K_def using am az far K by (intro range_mask_mask_ok [OF geo]) (auto simp: K_def Suc_le_eq)
    then obtain m where m: "range_mask fm (a mod K) K = Some m" "mask_ok fm a n i0 m" by blast
    have "a < i1 * K" using am(1,3) \<open>Suc i0 * K \<le> i1 * K\<close> by simp
    then have "\<exists>q. range_mask fm 0 (Suc (z mod K)) = Some q \<and> mask_ok fm a n i1 q"
      unfolding K_def using am az K by (intro range_mask_mask_ok [OF geo]) (auto simp: K_def Suc_le_eq)
    then obtain q where q: "range_mask fm 0 (Suc (z mod K)) = Some q" "mask_ok fm a n i1 q" by blast
    define ms where "ms i = (if i = i0 then m else if i = i1 then q else fm_all_set_bl fm)" for i
    have "fm_xor fm (a * B) (n * B) txn = Some (txn @ merges fm ms [i0] @ merges fm ms [Suc i0..<i1] @ merges fm ms [i1])"
    proof -
      have "Suc i0 * (B * K) \<le> i1 * (B * K)" using lt by (intro mult_right_mono) auto
      then have "add64 (i0 * (B * K)) (B * K) = Suc i0 * (B * K)" using top by (simp add: add64_exact)
      moreover have "xor_middle fm (Suc i0 * (B * K)) (i1 * (B * K)) (txn @ merges fm ms [i0]) =
          Some (i1 * (B * K), (txn @ merges fm ms [i0]) @ merges fm ms [Suc i0..<i1])"
        unfolding B_def K_def
        by (rule xor_middle_ok [OF geo]) (use top lt in \<open>auto simp: ms_def B_def K_def\<close>)
      moreover have "merge_key fm (i0 * (B * K)) m txn = txn @ merges fm ms [i0]"
        "merge_key fm (i1 * (B * K)) q t = t @ merges fm ms [i1]" for t
        using merge_key_merges [of fm i0 ms txn] merge_key_merges [of fm i1 ms t] False by (simp_all add: B_def K_def ms_def)
      moreover have "i0 * (B * K) \<noteq> i1 * (B * K)" using False g(1) K by simp
      ultimately show ?thesis
        using m(1) q(1) align keys bits lst(1) g(1,4,5)
        by (simp add: fm_xor_def B_def [symmetric] K_def [symmetric] Let_def)
    qed
    moreover have "[i0..<Suc i1] = [i0] @ [Suc i0..<i1] @ [i1]" using lt by (simp add: upt_conv_Cons)
    ultimately have "fm_xor fm (a * B) (n * B) txn = Some (txn @ merges fm ms [i0..<Suc i1])" by (simp add: merges_def)
    moreover have "mask_ok fm a n i (ms i)" if "i0 \<le> i" "i \<le> i1" for i
    proof (cases "i = i0 \<or> i = i1")
      case True
      then show ?thesis using m(2) q(2) by (auto simp: ms_def)
    next
      case False
      then have "Suc i0 * K \<le> i * K" "Suc i * K \<le> i1 * K" using that by (auto intro!: mult_right_mono simp del: mult_Suc)
      then have "a \<le> i * K" "Suc i * K \<le> a + n" using am az unfolding mult_Suc by linarith+
      then show ?thesis using False all_set_mask_ok [OF geo] by (simp add: ms_def K_def)
    qed
    ultimately show thesis using that [of ms] unfolding B_def K_def z_def i0_def i1_def by blast
  qed
qed

section \<open>Effect on the store\<close>

definition xor_opt :: "bytes option \<Rightarrow> bytes \<Rightarrow> bytes" where
  "xor_opt old m = (case old of None \<Rightarrow> m | Some v \<Rightarrow> xor_bytes v m)"

lemma length_xor_opt: "(\<And>v. old = Some v \<Longrightarrow> length v = length m) \<Longrightarrow> length (xor_opt old m) = length m"
  by (simp add: xor_opt_def xor_bytes_def split: option.split)

lemma bl_bit_xor_opt:
  assumes "\<And>v. old = Some v \<Longrightarrow> length v = length m" and "j < 8 * length m"
  shows "bl_bit (xor_opt old m) j \<longleftrightarrow> (\<exists>v. old = Some v \<and> bl_bit v j) \<noteq> bl_bit m j"
  using assms bl_bit_xor [of "the old" m j] by (auto simp: xor_opt_def split: option.split)

lemma txn_spec_merges:
  fixes fm :: bfm
  defines "bp \<equiv> fm_bitmap_prefix fm"
  assumes "mops bp = Some XorMerge" and "inj_on (key_of fm) (set is)" and "distinct is"
    and "\<And>i v. i \<in> set is \<Longrightarrow> m (bp, key_of fm i) = Some v \<Longrightarrow> length v = length (ms i)"
  shows "\<exists>m'. txn_spec mops (merges fm ms is) m = Some (0, m') \<and>
    (\<forall>i \<in> set is. m' (bp, key_of fm i) = Some (xor_opt (m (bp, key_of fm i)) (ms i))) \<and>
    (\<forall>x. (\<forall>i \<in> set is. x \<noteq> (bp, key_of fm i)) \<longrightarrow> m' x = m x)"
  using assms(3-5)
proof (induction "is" arbitrary: m)
  case (Cons i "is")
  define m1 where "m1 = m((bp, key_of fm i) \<mapsto> xor_opt (m (bp, key_of fm i)) (ms i))"
  have ne: "key_of fm j \<noteq> key_of fm i" if "j \<in> set is" for j using Cons.prems(1,2) that by (auto simp: inj_on_def)
  have "merge_value XorMerge (m (bp, key_of fm i)) (ms i) = Some (xor_opt (m (bp, key_of fm i)) (ms i))"
    using Cons.prems(3) [of i] by (auto simp: merge_value_def xor_opt_def split: option.split)
  then have step: "txn_spec mops (merges fm ms (i # is)) m = txn_spec mops (merges fm ms is) m1"
    using assms(2) by (simp add: merges_def m1_def bp_def)
  have "\<exists>m'. txn_spec mops (merges fm ms is) m1 = Some (0, m') \<and>
      (\<forall>i \<in> set is. m' (bp, key_of fm i) = Some (xor_opt (m1 (bp, key_of fm i)) (ms i))) \<and>
      (\<forall>x. (\<forall>i \<in> set is. x \<noteq> (bp, key_of fm i)) \<longrightarrow> m' x = m1 x)"
    using Cons.prems ne by (intro Cons.IH) (auto simp: m1_def inj_on_def)
  then obtain m' where "txn_spec mops (merges fm ms is) m1 = Some (0, m')"
    and in': "\<And>j. j \<in> set is \<Longrightarrow> m' (bp, key_of fm j) = Some (xor_opt (m1 (bp, key_of fm j)) (ms j))"
    and out': "\<And>x. \<forall>j \<in> set is. x \<noteq> (bp, key_of fm j) \<Longrightarrow> m' x = m1 x" by blast
  moreover have "m' (bp, key_of fm i) = m1 (bp, key_of fm i)" using ne by (intro out') force
  moreover have "m' (bp, key_of fm j) = Some (xor_opt (m (bp, key_of fm j)) (ms j))" if "j \<in> set is" for j
    using in' [OF that] ne [OF that] by (simp add: m1_def)
  moreover have "m' x = m x" if "\<forall>j \<in> set (i # is). x \<noteq> (bp, key_of fm j)" for x
    using out' [of x] that by (simp add: m1_def)
  ultimately show ?case unfolding step by (intro exI [of _ m']) (simp add: m1_def)
qed (simp add: merges_def)

definition fl_alloc :: "bfm \<Rightarrow> memdb \<Rightarrow> nat set" where
  "fl_alloc fm db = {c. c < fm_blocks fm \<and> (\<exists>v. kv_view db (fm_bitmap_prefix fm, key_of fm (c div fm_blocks_per_key fm)) = Some v \<and>
     bl_bit v (c mod fm_blocks_per_key fm))}"

definition fl_inv :: "bfm \<Rightarrow> memdb \<Rightarrow> bool" where
  "fl_inv fm db \<longleftrightarrow> fm_geo fm \<and> 0 \<notin> set (fm_bitmap_prefix fm) \<and> md_ok db \<and>
     md_kinds db (fm_bitmap_prefix fm) = Some XorMerge \<and>
     fm_blocks_per_key fm dvd fm_blocks fm \<and> fm_blocks fm * fm_bytes_per_block fm < 2 ^ 64 \<and>
     (\<forall>k v. kv_view db (fm_bitmap_prefix fm, k) = Some v \<longrightarrow>
        length v = fm_blocks_per_key fm div 8 \<and> (\<exists>i. i * fm_blocks_per_key fm < fm_blocks fm \<and> k = key_of fm i))"

lemma key_of_bound:
  assumes "fm_blocks fm * fm_bytes_per_block fm < 2 ^ 64" and "i * fm_blocks_per_key fm \<le> fm_blocks fm"
  shows "i * (fm_bytes_per_block fm * fm_blocks_per_key fm) < 2 ^ 64"
proof -
  have "(i * fm_blocks_per_key fm) * fm_bytes_per_block fm \<le> fm_blocks fm * fm_bytes_per_block fm"
    using assms(2) by (rule mult_right_mono) simp
  then have "(i * fm_blocks_per_key fm) * fm_bytes_per_block fm < 2 ^ 64" using assms(1) by (rule le_less_trans)
  then show ?thesis by (simp only: ac_simps)
qed

lemma key_of_inj:
  assumes "fm_geo fm" and "fm_blocks fm * fm_bytes_per_block fm < 2 ^ 64"
    and "i * fm_blocks_per_key fm \<le> fm_blocks fm" and "j * fm_blocks_per_key fm \<le> fm_blocks fm"
  shows "key_of fm i = key_of fm j \<longleftrightarrow> i = j" and "key_of fm i < key_of fm j \<longleftrightarrow> i < j"
proof -
  have "0 < fm_bytes_per_block fm * fm_blocks_per_key fm" using fm_geoD(1,2) [OF assms(1)] by simp
  with key_encode_inj key_encode_less key_of_bound [OF assms(2,3)] key_of_bound [OF assms(2,4)]
  show "key_of fm i = key_of fm j \<longleftrightarrow> i = j" "key_of fm i < key_of fm j \<longleftrightarrow> i < j"
    unfolding key_of_def by (metis mult_cancel2 less_numeral_extra(3), metis mult_less_cancel2)
qed

lemma mark_range:
  assumes inv: "fl_inv fm db" and n: "0 < n" and bound: "a + n \<le> fm_blocks fm"
  obtains txn db' where "fm_xor fm (a * fm_bytes_per_block fm) (n * fm_bytes_per_block fm) [] = Some txn"
    and "submit_transaction txn db = Some (0, db')" and "fl_inv fm db'"
    and "\<And>c. c \<in> fl_alloc fm db' \<longleftrightarrow> (c \<in> fl_alloc fm db) \<noteq> (a \<le> c \<and> c < a + n)"
    and "\<And>p k. p \<noteq> fm_bitmap_prefix fm \<Longrightarrow> kv_view db' (p, k) = kv_view db (p, k)"
proof -
  define B K bp where "B = fm_bytes_per_block fm" and "K = fm_blocks_per_key fm" and "bp = fm_bitmap_prefix fm"
  have geo: "fm_geo fm" and bp: "0 \<notin> set bp" and ok: "md_ok db" and kind: "md_kinds db bp = Some XorMerge"
    and blk: "K dvd fm_blocks fm" "fm_blocks fm * B < 2 ^ 64"
    and ent: "\<And>k v. kv_view db (bp, k) = Some v \<Longrightarrow> length v = K div 8 \<and> (\<exists>i. i * K < fm_blocks fm \<and> k = key_of fm i)"
    using inv by (auto simp: fl_inv_def B_def K_def bp_def)
  note g = fm_geoD [OF geo, folded B_def K_def]
  have "(a + n) * B \<le> fm_blocks fm * B" using bound by (rule mult_right_mono) simp
  then have "(a + n) * B < 2 ^ 64" using blk(2) by (rule le_less_trans)
  then obtain ms where x: "fm_xor fm (a * B) (n * B) [] = Some ([] @ merges fm ms [a div K..<Suc ((a + n - 1) div K)])"
    and ms: "\<And>i. a div K \<le> i \<Longrightarrow> i \<le> (a + n - 1) div K \<Longrightarrow> mask_ok fm a n i (ms i)"
    using fm_xor_ok [OF geo n, of a "[]"] unfolding B_def K_def by blast
  define ks where "ks = [a div K..<Suc ((a + n - 1) div K)]"
  have iset: "i \<in> set ks \<longleftrightarrow> a div K \<le> i \<and> i \<le> (a + n - 1) div K" for i by (auto simp: ks_def)
  have small: "i * K < fm_blocks fm" if "i \<in> set ks" for i
  proof -
    have "i * K \<le> (a + n - 1) div K * K" using that iset by (intro mult_right_mono) auto
    also have "\<dots> \<le> a + n - 1" by simp
    finally show ?thesis using bound n by simp
  qed
  note inj = key_of_inj [OF geo blk(2) [unfolded B_def], folded K_def]
  have len: "length (ms i) = K div 8" if "i \<in> set ks" for i using ms iset that by (simp add: mask_ok_def K_def)
  have "\<exists>m'. txn_spec (md_kinds db) (merges fm ms ks) (kv_view db) = Some (0, m') \<and>
      (\<forall>i \<in> set ks. m' (bp, key_of fm i) = Some (xor_opt (kv_view db (bp, key_of fm i)) (ms i))) \<and>
      (\<forall>x. (\<forall>i \<in> set ks. x \<noteq> (bp, key_of fm i)) \<longrightarrow> m' x = kv_view db x)"
    unfolding bp_def using kind inj(1) small len ent
    by (intro txn_spec_merges) (auto simp: bp_def ks_def inj_on_def less_imp_le)
  then obtain m' where sp: "txn_spec (md_kinds db) (merges fm ms ks) (kv_view db) = Some (0, m')"
    and hit: "\<And>i. i \<in> set ks \<Longrightarrow> m' (bp, key_of fm i) = Some (xor_opt (kv_view db (bp, key_of fm i)) (ms i))"
    and miss: "\<And>x. \<forall>i \<in> set ks. x \<noteq> (bp, key_of fm i) \<Longrightarrow> m' x = kv_view db x" by blast
  have "\<forall>y \<in> set (merges fm ms ks). 0 \<notin> set (op_prefix y)" using bp by (auto simp: merges_def bp_def)
  from submit_transaction_ok [OF ok this] sp obtain db' where sub: "submit_transaction (merges fm ms ks) db = Some (0, db')"
    and view: "kv_view db' = m'" and ok': "md_ok db'" "md_kinds db' = md_kinds db" by (auto simp: map_option_eq_Some)
  have old: "length v = length (ms i)" if "i \<in> set ks" "kv_view db (bp, key_of fm i) = Some v" for i v
    using ent that len by simp
  have "length v = K div 8 \<and> (\<exists>i. i * K < fm_blocks fm \<and> k = key_of fm i)" if "kv_view db' (bp, k) = Some v" for k v
  proof (cases "\<exists>i \<in> set ks. k = key_of fm i")
    case True
    then obtain i where i: "i \<in> set ks" "k = key_of fm i" by blast
    then have "v = xor_opt (kv_view db (bp, k)) (ms i)" using hit that view by simp
    then show ?thesis using i len small length_xor_opt [of "kv_view db (bp, k)" "ms i"] old by auto
  next
    case False
    then show ?thesis using miss [of "(bp, k)"] that view ent by auto
  qed
  then have inv': "fl_inv fm db'" using inv ok' by (simp add: fl_inv_def B_def K_def bp_def)
  have upd: "kv_view db' (bp, key_of fm i) = (if i \<in> set ks then Some (xor_opt (kv_view db (bp, key_of fm i)) (ms i))
      else kv_view db (bp, key_of fm i))" if "i * K \<le> fm_blocks fm" for i
    using hit [of i] miss [of "(bp, key_of fm i)"] inj(1) [OF that less_imp_le [OF small]] view by auto
  have eff: "c \<in> fl_alloc fm db' \<longleftrightarrow> (c \<in> fl_alloc fm db) \<noteq> (a \<le> c \<and> c < a + n)" for c
  proof (cases "c < fm_blocks fm")
    case True
    define i j where "i = c div K" and "j = c mod K"
    have ij: "i * K + j = c" "j < K" using g(2) by (simp_all add: i_def j_def)
    have al: "c \<in> fl_alloc fm d \<longleftrightarrow> (\<exists>v. kv_view d (bp, key_of fm i) = Some v \<and> bl_bit v j)" for d
      using True by (simp add: fl_alloc_def i_def j_def K_def bp_def)
    note u = upd [of i]
    show ?thesis
    proof (cases "i \<in> set ks")
      case True
      have l8: "j < 8 * length (ms i)" using ij(2) g(3) len [OF True] by simp
      have "bl_bit (ms i) j \<longleftrightarrow> a \<le> c \<and> c < a + n" using ms iset True ij by (simp add: mask_ok_def K_def)
      then show ?thesis
        using bl_bit_xor_opt [of "kv_view db (bp, key_of fm i)" "ms i" j] old [OF True] l8 u ij True \<open>c < fm_blocks fm\<close>
        by (simp add: al)
    next
      case False
      then have "\<not> (a \<le> c \<and> c < a + n)" using div_le_mono [of a c K] div_le_mono [of c "a + n - 1" K] iset i_def by force
      then show ?thesis using u False ij \<open>c < fm_blocks fm\<close> by (simp add: al)
    qed
  next
    case False
    then show ?thesis using bound by (auto simp: fl_alloc_def)
  qed
  show thesis
  proof (rule that [of "merges fm ms ks" db'])
    show "fm_xor fm (a * fm_bytes_per_block fm) (n * fm_bytes_per_block fm) [] = Some (merges fm ms ks)"
      using x by (simp add: ks_def B_def)
    show "kv_view db' (p, k) = kv_view db (p, k)" if "p \<noteq> fm_bitmap_prefix fm" for p k
      using miss [of "(p, k)"] view that by (simp add: bp_def)
  qed (use sub inv' eff in simp_all)
qed

section \<open>Enumeration\<close>

text \<open>Iterators in terms of what they still give.\<close>

lemma pi_walk_Nil: "pi_walk p = [] \<longleftrightarrow> \<not> pi_valid p"
  by (simp add: pi_walk.simps [of p])

lemma pi_walk_Cons:
  assumes "pi_walk p = (k, v) # xs"
  shows "pi_valid p" and "pi_key p = Some k" and "pi_value p = Some v" and "pi_walk (snd (pi_next p)) = xs"
proof -
  show valid: "pi_valid p" using assms by (metis list.distinct(1) pi_walk_Nil)
  then have w: "wi_valid (pi_iter p)" by (simp add: pi_valid_def)
  from valid assms have "the (pi_key p) = k" "the (pi_value p) = v" "pi_walk (snd (pi_next p)) = xs"
    by (simp_all add: pi_walk.simps [of p])
  moreover from w have "pi_key p \<noteq> None" "pi_value p \<noteq> None"
    by (simp_all add: pi_key_def pi_value_def wi_raw_key_def wi_value_def wi_entry_def)
  ultimately show "pi_key p = Some k" "pi_value p = Some v" "pi_walk (snd (pi_next p)) = xs" by auto
qed

text \<open>The entries of the bitmap as a list of key numbers and values.\<close>

definition fl_list :: "bfm \<Rightarrow> (nat \<times> bytes) list \<Rightarrow> bool" where
  "fl_list fm L \<longleftrightarrow> fm_geo fm \<and> fm_blocks_per_key fm dvd fm_blocks fm \<and> fm_blocks fm * fm_bytes_per_block fm < 2 ^ 64 \<and>
     sorted_wrt (<) (map fst L) \<and>
     (\<forall>(i, v) \<in> set L. i * fm_blocks_per_key fm < fm_blocks fm \<and> length v = fm_blocks_per_key fm div 8)"

definition list_alloc :: "bfm \<Rightarrow> (nat \<times> bytes) list \<Rightarrow> nat set" where
  "list_alloc fm L = {c. \<exists>v. (c div fm_blocks_per_key fm, v) \<in> set L \<and> bl_bit v (c mod fm_blocks_per_key fm)}"

lemma fl_list_bounds:
  assumes "fl_list fm L" and "(i, v) \<in> set L"
  shows "Suc i * fm_blocks_per_key fm \<le> fm_blocks fm" and "length v = fm_blocks_per_key fm div 8"
    and "i * (fm_bytes_per_block fm * fm_blocks_per_key fm) < 2 ^ 64"
    and "add64 (i * (fm_bytes_per_block fm * fm_blocks_per_key fm)) (fm_bytes_per_key fm) =
      Suc i * (fm_bytes_per_block fm * fm_blocks_per_key fm)"
    and "q \<le> fm_blocks_per_key fm \<Longrightarrow> get_offset fm (i * (fm_bytes_per_block fm * fm_blocks_per_key fm)) (int q) =
      (i * fm_blocks_per_key fm + q) * fm_bytes_per_block fm"
proof -
  define B K N where "B = fm_bytes_per_block fm" and "K = fm_blocks_per_key fm" and "N = fm_blocks fm"
  have geo: "fm_geo fm" and d: "K dvd N" and nb: "N * B < 2 ^ 64" and i: "i * K < N" and "length v = K div 8"
    using assms by (auto simp: fl_list_def B_def K_def N_def)
  note g = fm_geoD [OF geo, folded B_def K_def]
  obtain t where N: "N = t * K" using d by (metis dvd_def mult.commute)
  then have "i < t" using i g(2) by simp
  then have "Suc i * K \<le> t * K" by (intro mult_right_mono) auto
  then show si: "Suc i * fm_blocks_per_key fm \<le> fm_blocks fm" using N by (simp add: K_def N_def)
  show "length v = fm_blocks_per_key fm div 8" using \<open>length v = K div 8\<close> by (simp add: K_def)
  have b1: "Suc i * (B * K) < 2 ^ 64" and b0: "i * (B * K) < 2 ^ 64"
    using key_of_bound [of fm "Suc i"] key_of_bound [of fm i] nb i si by (simp_all add: B_def K_def N_def)
  show "i * (fm_bytes_per_block fm * fm_blocks_per_key fm) < 2 ^ 64" using b0 by (simp add: B_def K_def)
  show "add64 (i * (fm_bytes_per_block fm * fm_blocks_per_key fm)) (fm_bytes_per_key fm) =
      Suc i * (fm_bytes_per_block fm * fm_blocks_per_key fm)"
    using b1 g(5) by (simp add: B_def K_def add64_exact)
  assume q: "q \<le> fm_blocks_per_key fm"
  have "i * (B * K) + q * B \<le> Suc i * (B * K)" using q by (simp add: K_def mult.commute)
  then have le: "i * (B * K) + q * B < 2 ^ 64" using b1 by (rule le_less_trans)
  then show "get_offset fm (i * (fm_bytes_per_block fm * fm_blocks_per_key fm)) (int q) =
      (i * fm_blocks_per_key fm + q) * fm_bytes_per_block fm"
    by (simp add: get_offset_def B_def K_def mul64_exact add64_exact algebra_simps)
qed

lemma list_alloc_here:
  assumes "fl_list fm L" and "(i, v) \<in> set L" and "j < fm_blocks_per_key fm"
  shows "i * fm_blocks_per_key fm + j \<in> list_alloc fm L \<longleftrightarrow> bl_bit v j"
proof -
  have "distinct (map fst L)" using assms(1) by (simp add: fl_list_def strict_sorted_iff)
  then have eq: "(i, w) \<in> set L \<longleftrightarrow> w = v" for w using assms(2) by (metis map_of_is_SomeI option.inject)
  have "(i * fm_blocks_per_key fm + j) div fm_blocks_per_key fm = i" "(i * fm_blocks_per_key fm + j) mod fm_blocks_per_key fm = j"
    using assms(3) by simp_all
  then show ?thesis unfolding list_alloc_def mem_Collect_eq by (simp only: eq) simp
qed

lemma list_alloc_gap:
  assumes ok: "fl_list fm (pre @ (i, v) # rest)" and x: "Suc i * fm_blocks_per_key fm \<le> x"
    and top: "\<And>i' v' r. rest = (i', v') # r \<Longrightarrow> x < i' * fm_blocks_per_key fm"
  shows "x \<notin> list_alloc fm (pre @ (i, v) # rest)"
proof
  define K where "K = fm_blocks_per_key fm"
  have K: "0 < K" using fm_geoD(2) [of fm] ok by (auto simp: fl_list_def K_def)
  assume "x \<in> list_alloc fm (pre @ (i, v) # rest)"
  then obtain w where "(x div K, w) \<in> set (pre @ (i, v) # rest)" by (auto simp: list_alloc_def K_def)
  moreover have "Suc i \<le> x div K" using x K by (simp add: K_def [symmetric] less_eq_div_iff_mult_less_eq del: mult_Suc)
  moreover have sorted: "sorted_wrt (<) (map fst (pre @ (i, v) # rest))" using ok by (simp add: fl_list_def)
  ultimately have mem: "(x div K, w) \<in> set rest"
    by (auto simp: sorted_wrt_append Suc_le_eq dest: less_trans)
  then obtain i' v' r where rest: "rest = (i', v') # r" by (cases rest) auto
  then have "i' \<le> x div K" using mem sorted by (fastforce simp: sorted_wrt_append)
  then have "i' * K \<le> x" using K by (simp add: less_eq_div_iff_mult_less_eq)
  with top [OF rest] show False by (simp add: K_def)
qed

lemma fl_list_next:
  assumes "fl_list fm (pre @ (i, v) # (i', v') # r)"
  shows "i < i'"
  using assms by (simp add: fl_list_def sorted_wrt_append)

text \<open>The enumeration stands at bit \<open>q\<close> of the entry \<open>(i, v)\<close>, or it has passed the last entry.\<close>

definition fm_same :: "bfm \<Rightarrow> bfm \<Rightarrow> bool" where
  "fm_same fm fm' \<longleftrightarrow> enumerate_reset fm' = enumerate_reset fm"

definition enum_at :: "(nat \<times> bytes) list \<Rightarrow> nat \<Rightarrow> bytes \<Rightarrow> (nat \<times> bytes) list \<Rightarrow> nat \<Rightarrow> prefix_iter \<Rightarrow> bfm \<Rightarrow> bool" where
  "enum_at L i v rest q p fm \<longleftrightarrow> (\<exists>pre. L = pre @ (i, v) # rest) \<and>
     pi_walk p = map (\<lambda>(i, v). (key_of fm i, v)) ((i, v) # rest) \<and>
     fm_enum_p fm = Some p \<and> fm_enum_offset fm = i * (fm_bytes_per_block fm * fm_blocks_per_key fm) \<and>
     fm_enum_bl fm = v \<and> fm_enum_pos fm = int q \<and> q \<le> fm_blocks_per_key fm"

lemma fm_sameD:
  assumes "fm_same fm fm'"
  shows "fm_bytes_per_block fm' = fm_bytes_per_block fm" "fm_blocks_per_key fm' = fm_blocks_per_key fm"
    "fm_bytes_per_key fm' = fm_bytes_per_key fm" "fm_blocks fm' = fm_blocks fm" "fm_size fm' = fm_size fm"
    "fm_bitmap_prefix fm' = fm_bitmap_prefix fm" "key_of fm' = key_of fm"
    "fl_list fm' L = fl_list fm L" "list_alloc fm' L = list_alloc fm L"
proof -
  have e: "enumerate_reset fm' = enumerate_reset fm" using assms by (simp add: fm_same_def)
  have f: "f (enumerate_reset fm') = f (enumerate_reset fm)" for f :: "bfm \<Rightarrow> 'z" by (simp add: e)
  show 1: "fm_bytes_per_block fm' = fm_bytes_per_block fm" "fm_blocks_per_key fm' = fm_blocks_per_key fm"
    "fm_bytes_per_key fm' = fm_bytes_per_key fm" "fm_blocks fm' = fm_blocks fm" "fm_size fm' = fm_size fm"
    "fm_bitmap_prefix fm' = fm_bitmap_prefix fm"
    using f [of fm_bytes_per_block] f [of fm_blocks_per_key] f [of fm_bytes_per_key] f [of fm_blocks] f [of fm_size]
      f [of fm_bitmap_prefix] by (simp_all add: enumerate_reset_def)
  then show "key_of fm' = key_of fm" "list_alloc fm' L = list_alloc fm L"
    by (simp_all add: key_of_def list_alloc_def fun_eq_iff)
  have "init_misc fm' = fm' \<longleftrightarrow> init_misc fm = fm"
  proof -
    have "init_misc x = x \<longleftrightarrow> init_misc (enumerate_reset x) = enumerate_reset x" for x
      by (cases x) (simp add: init_misc_def enumerate_reset_def)
    then show ?thesis using e by metis
  qed
  then show "fl_list fm' L = fl_list fm L" using 1 by (simp add: fl_list_def fm_geo_def)
qed

definition clear_found :: "(nat \<times> bytes) list \<Rightarrow> bfm \<Rightarrow> nat \<Rightarrow> nat \<Rightarrow> bfm \<Rightarrow> bool" where
  "clear_found L fm c0 c fm' \<longleftrightarrow> fm_same fm fm' \<and> c0 \<le> c \<and> {c0..<c} \<subseteq> list_alloc fm L \<and> c \<notin> list_alloc fm L \<and>
     ((\<exists>i v rest q p. enum_at L i v rest q p fm' \<and> q < fm_blocks_per_key fm \<and> c \<le> i * fm_blocks_per_key fm + q \<and>
         {c..<i * fm_blocks_per_key fm + q} \<inter> list_alloc fm L = {}) \<or>
      (\<exists>p. fm_enum_p fm' = Some p \<and> \<not> pi_valid p \<and> fm_enum_offset fm' = c * fm_bytes_per_block fm \<and>
         fm_blocks_per_key fm dvd c \<and> c \<le> fm_blocks fm \<and> {c..} \<inter> list_alloc fm L = {}))"

lemma fm_same_updates [simp]:
  "fm_same fm (fm\<lparr>fm_enum_p := x\<rparr>)" "fm_same fm (fm\<lparr>fm_enum_p := x, fm_enum_pos := y\<rparr>)"
  "fm_same fm (fm\<lparr>fm_enum_p := x, fm_enum_bl := z, fm_enum_offset := w, fm_enum_pos := y\<rparr>)"
  "fm_same fm (fm\<lparr>fm_enum_p := x, fm_enum_offset := w, fm_enum_bl := z, fm_enum_pos := y\<rparr>)"
  "fm_same fm (fm\<lparr>fm_enum_p := x, fm_enum_bl := z, fm_enum_pos := y\<rparr>)"
  "fm_same fm (fm\<lparr>fm_enum_offset := w, fm_enum_pos := y\<rparr>)" "fm_same fm fm" "fm_same fm (enumerate_reset fm)"
  by (cases fm; simp add: fm_same_def enumerate_reset_def)+

lemma fm_same_trans: "fm_same a b \<Longrightarrow> fm_same b c \<Longrightarrow> fm_same a c"
  by (simp add: fm_same_def)

lemma enum_load_ok:
  assumes ok: "fl_list fm L" and mem: "(i, v) \<in> set L" and w: "pi_walk p = (key_of fm i, v) # xs" and same: "fm_same fm fm'"
  shows "enum_load p fm' = Some (fm'\<lparr>fm_enum_p := Some p,
    fm_enum_offset := i * (fm_bytes_per_block fm * fm_blocks_per_key fm), fm_enum_bl := v\<rparr>)"
  using pi_walk_Cons [OF w] fl_list_bounds(3) [OF ok mem] by (simp add: enum_load_def key_of_def)

lemma enum_atD:
  assumes ok: "fl_list fm L" and at: "enum_at L i v rest q p fm"
  shows "\<exists>pre. L = pre @ (i, v) # rest" and "(i, v) \<in> set L"
    and "pi_walk p = (key_of fm i, v) # map (\<lambda>(i, v). (key_of fm i, v)) rest"
    and "fm_enum_p fm = Some p" and "fm_enum_offset fm = i * (fm_bytes_per_block fm * fm_blocks_per_key fm)"
    and "fm_enum_bl fm = v" and "nat (fm_enum_pos fm) = q" and "q \<le> fm_blocks_per_key fm"
    and "8 * length v = fm_blocks_per_key fm"
proof -
  show pre: "\<exists>pre. L = pre @ (i, v) # rest" using at by (auto simp: enum_at_def)
  then show mem: "(i, v) \<in> set L" by auto
  show "8 * length v = fm_blocks_per_key fm"
    using fl_list_bounds(2) [OF ok mem] fm_geoD(3) [of fm] ok by (simp add: fl_list_def)
qed (use at in \<open>simp_all add: enum_at_def\<close>)

lemma set_run:
  assumes ok: "fl_list fm L" and mem: "(i, v) \<in> set L"
    and all: "\<And>j. q \<le> j \<Longrightarrow> j < n \<Longrightarrow> bl_bit v j = b" and n: "n \<le> fm_blocks_per_key fm"
    and x: "i * fm_blocks_per_key fm + q \<le> x" "x < i * fm_blocks_per_key fm + n"
  shows "x \<in> list_alloc fm L \<longleftrightarrow> b"
proof -
  define j where "j = x - i * fm_blocks_per_key fm"
  have j: "q \<le> j" "j < n" "j < fm_blocks_per_key fm" "x = i * fm_blocks_per_key fm + j" using x n by (auto simp: j_def)
  then show ?thesis using list_alloc_here [OF ok mem j(3)] all by simp
qed

lemma clear_foundI:
  assumes "fm_same fm fm'" and "enum_at L i v rest q p fm'" and "q < fm_blocks_per_key fm" and "c \<le> i * fm_blocks_per_key fm + q"
    and "c0 \<le> c" and "{c0..<c} \<subseteq> list_alloc fm L" and "c \<notin> list_alloc fm L"
    and "\<And>x. c \<le> x \<Longrightarrow> x < i * fm_blocks_per_key fm + q \<Longrightarrow> x \<notin> list_alloc fm L"
  shows "clear_found L fm c0 c fm'"
proof -
  have "{c..<i * fm_blocks_per_key fm + q} \<inter> list_alloc fm L = {}" using assms(8) by auto
  then show ?thesis unfolding clear_found_def using assms(1-7) by (intro conjI disjI1 exI) assumption+
qed

lemma find_clear_here:
  assumes ok: "fl_list fm L" and at: "enum_at L i v rest q p fm"
    and n: "next_bit False v q = int n" "q \<le> n" "n < 8 * length v" "\<not> bl_bit v n" "\<And>j. q \<le> j \<Longrightarrow> j < n \<Longrightarrow> bl_bit v j"
  shows "\<exists>c fm'. find_clear p fm = Some (c * fm_bytes_per_block fm, fm') \<and> clear_found L fm (i * fm_blocks_per_key fm + q) c fm'"
proof -
  define B K where "B = fm_bytes_per_block fm" and "K = fm_blocks_per_key fm"
  note a = enum_atD [OF ok at, folded B_def K_def]
  note mem = a(2) and st = a(5-8) and len = a(9)
  have nK: "n < K" using n(3) len by simp
  define fm' where "fm' = fm\<lparr>fm_enum_p := Some p, fm_enum_pos := int n\<rparr>"
  have "find_clear p fm = Some ((i * K + n) * B, fm')"
    using n(1) nK st fl_list_bounds(5) [OF ok mem, of n]
    by (simp add: find_clear.simps [of p fm] get_next_clear_bit_def Let_def fm'_def B_def K_def)
  moreover have "clear_found L fm (i * K + q) (i * K + n) fm'"
  proof (rule clear_foundI [of _ _ _ i v rest n p])
    show "enum_at L i v rest n p fm'" using at nK by (simp add: enum_at_def K_def key_of_def fm'_def)
    show "i * K + n \<notin> list_alloc fm L" using list_alloc_here [OF ok mem, of n] n(4) nK by (simp add: K_def)
    show "{i * K + q..<i * K + n} \<subseteq> list_alloc fm L" using set_run [OF ok mem, of q n True] n(5) nK by (auto simp: K_def)
  qed (use n(2) nK in \<open>simp_all add: fm'_def K_def\<close>)
  ultimately show ?thesis unfolding B_def K_def by blast
qed

lemma find_clear_end:
  assumes ok: "fl_list fm L" and at: "enum_at L i v [] q p fm"
    and n: "next_bit False v q = - 1" "\<And>j. q \<le> j \<Longrightarrow> j < 8 * length v \<Longrightarrow> bl_bit v j"
  shows "\<exists>c fm'. find_clear p fm = Some (c * fm_bytes_per_block fm, fm') \<and> clear_found L fm (i * fm_blocks_per_key fm + q) c fm'"
proof -
  define B K where "B = fm_bytes_per_block fm" and "K = fm_blocks_per_key fm"
  note a = enum_atD [OF ok at, folded B_def K_def]
  note mem = a(2) and st = a(5-8) and len = a(9)
  obtain pre where pre: "L = pre @ [(i, v)]" using a(1) by blast
  have w: "pi_walk p = [(key_of fm i, v)]" using a(3) by simp
  note b = fl_list_bounds [OF ok mem, folded B_def K_def]
  define p1 where "p1 = snd (pi_next p)"
  have nv: "\<not> pi_valid p1" using pi_walk_Cons(4) [OF w] by (simp add: p1_def pi_walk_Nil)
  define fm' where "fm' = fm\<lparr>fm_enum_p := Some p1, fm_enum_bl := [], fm_enum_offset := Suc i * (B * K), fm_enum_pos := 0\<rparr>"
  have "Suc i * (B * K) < 2 ^ 64" using b(4) add64_less by metis
  then have "get_offset fm (Suc i * (B * K)) 0 = Suc i * K * B" by (simp add: get_offset_def add64_def mul64_def ac_simps)
  then have "find_clear p fm = Some (Suc i * K * B, fm')"
    using n(1) st b(4) nv by (simp add: find_clear.simps [of p fm] get_next_clear_bit_def Let_def p1_def [symmetric] fm'_def)
  moreover have free: "x \<notin> list_alloc fm L" if "Suc i * K \<le> x" for x
    using list_alloc_gap [of fm pre i v "[]" x] ok that unfolding pre by (simp add: K_def)
  moreover have "{i * K + q..<Suc i * K} \<subseteq> list_alloc fm L"
    using set_run [OF ok mem, of q K True] n(2) len by (auto simp: K_def)
  moreover have "fm_same fm fm'" "fm_enum_p fm' = Some p1" "fm_enum_offset fm' = Suc i * K * B"
    by (simp_all add: fm'_def ac_simps)
  ultimately have "find_clear p fm = Some (Suc i * K * B, fm')" "clear_found L fm (i * K + q) (Suc i * K) fm'"
    unfolding clear_found_def B_def [symmetric] K_def [symmetric] using st(4) nv b(1) by auto
  then show ?thesis unfolding B_def K_def by blast
qed

lemma find_clear_next:
  assumes ok: "fl_list fm L" and at: "enum_at L i v ((i', v') # r) q p fm"
    and n: "next_bit False v q = - 1" "\<And>j. q \<le> j \<Longrightarrow> j < 8 * length v \<Longrightarrow> bl_bit v j"
  defines "B \<equiv> fm_bytes_per_block fm" and "K \<equiv> fm_blocks_per_key fm"
  obtains p1 fm1 where "fm_same fm fm1" and "enum_at L i' v' r 0 p1 fm1"
    and "{i * K + q..<Suc i * K} \<subseteq> list_alloc fm L" and "i < i'" and "q \<le> K"
    and "\<forall>x. Suc i * K \<le> x \<longrightarrow> x < i' * K \<longrightarrow> x \<notin> list_alloc fm L"
    and "find_clear p fm = (if Suc i < i' then Some (Suc i * K * B, fm1) else find_clear p1 fm1)"
proof -
  note a = enum_atD [OF ok at, folded B_def K_def]
  note mem = a(2) and st = a(5-8) and len = a(9)
  obtain pre where pre: "L = pre @ (i, v) # (i', v') # r" using a(1) by blast
  have w: "pi_walk p = (key_of fm i, v) # (key_of fm i', v') # map (\<lambda>(i, v). (key_of fm i, v)) r" using a(3) by simp
  have mem': "(i', v') \<in> set L" using pre by simp
  have K: "0 < K" "0 < B" using fm_geoD(1,2) [of fm] ok by (auto simp: fl_list_def B_def K_def)
  define p1 where "p1 = snd (pi_next p)"
  have w1: "pi_walk p1 = (key_of fm i', v') # map (\<lambda>(i, v). (key_of fm i, v)) r" unfolding p1_def by (rule pi_walk_Cons(4) [OF w])
  define fm1 where "fm1 = fm\<lparr>fm_enum_p := Some p1, fm_enum_offset := i' * (B * K), fm_enum_bl := v', fm_enum_pos := 0\<rparr>"
  have ld: "enum_load p1 (fm\<lparr>fm_enum_pos := 0\<rparr>) = Some fm1"
    using enum_load_ok [OF ok mem' w1, of "fm\<lparr>fm_enum_pos := 0\<rparr>"]
    by (simp add: fm1_def B_def K_def fm_same_def enumerate_reset_def)
  have "find_clear p fm = (if i' * (B * K) > Suc i * (B * K) then Some (Suc i * (B * K), fm1) else find_clear p1 fm1)"
    using n(1) st fl_list_bounds(4) [OF ok mem] ld pi_walk_Cons(1) [OF w1] unfolding B_def K_def
    by (simp add: find_clear.simps [of p fm] get_next_clear_bit_def Let_def p1_def [symmetric], simp add: fm1_def B_def K_def)
  moreover have "i' * (B * K) > Suc i * (B * K) \<longleftrightarrow> Suc i < i'" unfolding mult_less_cancel2 using K by simp
  moreover have "Suc i * (B * K) = Suc i * K * B" by (simp only: ac_simps)
  ultimately have "find_clear p fm = (if Suc i < i' then Some (Suc i * K * B, fm1) else find_clear p1 fm1)" by (simp only:)
  moreover have "fm_same fm fm1" by (simp add: fm1_def)
  moreover have "enum_at L i' v' r 0 p1 fm1" using pre w1 by (auto simp: enum_at_def fm1_def B_def K_def key_of_def)
  moreover have "{i * K + q..<Suc i * K} \<subseteq> list_alloc fm L"
    using set_run [OF ok mem, of q K True] n(2) len by (auto simp: K_def)
  moreover have "i < i'" using fl_list_next ok unfolding pre by blast
  moreover have "\<forall>x. Suc i * K \<le> x \<longrightarrow> x < i' * K \<longrightarrow> x \<notin> list_alloc fm L"
    using list_alloc_gap [of fm pre i v "(i', v') # r"] ok unfolding pre by (simp add: K_def)
  ultimately show thesis using st(4) by (intro that)
qed

lemma find_clear_ok:
  "fl_list fm L \<Longrightarrow> enum_at L i v rest q p fm \<Longrightarrow>
   \<exists>c fm'. find_clear p fm = Some (c * fm_bytes_per_block fm, fm') \<and> clear_found L fm (i * fm_blocks_per_key fm + q) c fm'"
proof (induction rest arbitrary: i v q p fm)
  case Nil
  show ?case
    by (cases rule: next_bit_cases [of False v q])
      (use find_clear_here [OF Nil] find_clear_end [OF Nil] in auto)
next
  case (Cons e r)
  obtain i' v' where e: "e = (i', v')" by (cases e)
  define K where "K = fm_blocks_per_key fm"
  show ?case
  proof (cases rule: next_bit_cases [of False v q])
    case (found n)
    then show ?thesis using find_clear_here [OF Cons.prems] by auto
  next
    case missing
    have all: "bl_bit v j" if "q \<le> j" "j < 8 * length v" for j using missing(2) [OF that] by simp
    obtain p1 fm1 where same: "fm_same fm fm1" and at1: "enum_at L i' v' r 0 p1 fm1"
      and run: "{i * K + q..<Suc i * K} \<subseteq> list_alloc fm L" and lt: "i < i'" and q: "q \<le> K"
      and free: "\<forall>x. Suc i * K \<le> x \<longrightarrow> x < i' * K \<longrightarrow> x \<notin> list_alloc fm L"
      and step: "find_clear p fm = (if Suc i < i' then Some (Suc i * K * fm_bytes_per_block fm, fm1) else find_clear p1 fm1)"
      by (rule find_clear_next [OF Cons.prems [unfolded e] missing(1) all, folded K_def])
    note sm = fm_sameD [OF same]
    have K: "0 < K" using fm_geoD(2) [of fm] Cons.prems(1) by (auto simp: fl_list_def K_def)
    show ?thesis
    proof (cases "Suc i < i'")
      case True
      then have iK: "Suc i * K < i' * K" unfolding mult_less_cancel2 using K by simp
      have "clear_found L fm (i * K + q) (Suc i * K) fm1"
        using run free iK K q unfolding K_def by (intro clear_foundI [OF same at1]) simp_all
      with step True show ?thesis unfolding K_def by auto
    next
      case False
      then have i': "i' = Suc i" using lt by simp
      obtain c fm' where c: "find_clear p1 fm1 = Some (c * fm_bytes_per_block fm, fm')" "clear_found L fm1 (i' * K) c fm'"
        using Cons.IH [OF _ at1] Cons.prems(1) sm by (auto simp: K_def)
      have "{i * K + q..<c} \<subseteq> {i * K + q..<Suc i * K} \<union> {i' * K..<c}" using i' by auto
      then have "clear_found L fm (i * K + q) c fm'"
        using c(2) run i' fm_same_trans [OF same] q unfolding clear_found_def sm by auto
      with step False c(1) show ?thesis unfolding K_def by auto
    qed
  qed
qed

definition set_found :: "(nat \<times> bytes) list \<Rightarrow> bfm \<Rightarrow> nat \<Rightarrow> nat option \<Rightarrow> bfm \<Rightarrow> bool" where
  "set_found L fm c0 r fm' \<longleftrightarrow> fm_same fm fm' \<and>
     (case r of
        Some s \<Rightarrow> c0 \<le> s \<and> s \<in> list_alloc fm L \<and> {c0..<s} \<inter> list_alloc fm L = {} \<and>
          (\<exists>i v rest q p. enum_at L i v rest q p fm' \<and> q < fm_blocks_per_key fm \<and> s = i * fm_blocks_per_key fm + q)
      | None \<Rightarrow> {c0..} \<inter> list_alloc fm L = {} \<and>
          (\<exists>i v. (i, v) \<in> set L \<and> fm_enum_offset fm' = i * (fm_bytes_per_block fm * fm_blocks_per_key fm)))"

lemma set_foundI:
  assumes "fm_same fm fm'" and "enum_at L i v rest q p fm'" and "q < fm_blocks_per_key fm" and "s = i * fm_blocks_per_key fm + q"
    and "c0 \<le> s" and "s \<in> list_alloc fm L" and "\<And>x. c0 \<le> x \<Longrightarrow> x < s \<Longrightarrow> x \<notin> list_alloc fm L"
  shows "set_found L fm c0 (Some s) fm'"
proof -
  have "{c0..<s} \<inter> list_alloc fm L = {}" using assms(7) by auto
  then show ?thesis unfolding set_found_def option.case using assms(1-6) by (intro conjI exI) assumption+
qed

lemma set_found_back:
  assumes found: "set_found L fm1 c1 r fm'" and same: "fm_same fm fm1" and le: "c0 \<le> c1"
    and gap: "\<And>x. c0 \<le> x \<Longrightarrow> x < c1 \<Longrightarrow> x \<notin> list_alloc fm L"
  shows "set_found L fm c0 r fm'"
proof -
  note sm = fm_sameD [OF same]
  have s: "fm_same fm fm'" using found fm_same_trans [OF same] by (simp add: set_found_def)
  show ?thesis
  proof (cases r)
    case None
    have "{c1..} \<inter> list_alloc fm L = {}" using found None by (simp add: set_found_def sm)
    then have "{c0..} \<inter> list_alloc fm L = {}" using gap by (auto simp: disjoint_iff) (meson not_le)
    then show ?thesis using found None s by (simp add: set_found_def sm)
  next
    case (Some x)
    have "{c1..<x} \<inter> list_alloc fm L = {}" "c1 \<le> x" using found Some by (simp_all add: set_found_def sm)
    then have "{c0..<x} \<inter> list_alloc fm L = {}" using gap by (auto simp: disjoint_iff) (meson not_le)
    then show ?thesis using found Some s le by (simp add: set_found_def sm)
  qed
qed

lemma find_set_here:
  assumes ok: "fl_list fm L" and at: "enum_at L i v rest q p fm"
    and n: "next_bit True v q = int n" "q \<le> n" "n < 8 * length v" "bl_bit v n" "\<And>j. q \<le> j \<Longrightarrow> j < n \<Longrightarrow> \<not> bl_bit v j"
  shows "\<exists>r fm'. find_set p fm = Some (map_option (\<lambda>s. s * fm_bytes_per_block fm) r, fm') \<and>
    set_found L fm (i * fm_blocks_per_key fm + q) r fm'"
proof -
  define B K where "B = fm_bytes_per_block fm" and "K = fm_blocks_per_key fm"
  note a = enum_atD [OF ok at, folded B_def K_def]
  have nK: "n < K" using n(3) a(9) by simp
  define fm' where "fm' = fm\<lparr>fm_enum_p := Some p, fm_enum_pos := int n\<rparr>"
  have "find_set p fm = Some (Some ((i * K + n) * B), fm')"
    using n(1) nK a(5-7) fl_list_bounds(5) [OF ok a(2), of n]
    by (simp add: find_set.simps [of p fm] get_next_set_bit_def Let_def fm'_def B_def K_def)
  moreover have "enum_at L i v rest n p fm'" using at nK by (simp add: enum_at_def K_def key_of_def fm'_def)
  moreover have "set_found L fm (i * K + q) (Some (i * K + n)) fm'"
  proof (rule set_foundI [of _ _ _ i v rest n p])
    show "i * K + n \<in> list_alloc fm L" using list_alloc_here [OF ok a(2), of n] n(4) nK by (simp add: K_def)
    show "x \<notin> list_alloc fm L" if "i * K + q \<le> x" "x < i * K + n" for x
      using set_run [OF ok a(2), of q n False x] n(5) nK that by (simp add: K_def)
    show "enum_at L i v rest n p fm'" by fact
  qed (use n(2) nK in \<open>simp_all add: fm'_def K_def\<close>)
  ultimately show ?thesis unfolding B_def K_def by (intro exI [of _ "Some (i * fm_blocks_per_key fm + n)"] exI [of _ fm']) simp
qed

lemma find_set_end:
  assumes ok: "fl_list fm L" and at: "enum_at L i v [] q p fm"
    and n: "next_bit True v q = - 1" "\<And>j. q \<le> j \<Longrightarrow> j < 8 * length v \<Longrightarrow> \<not> bl_bit v j"
  shows "\<exists>r fm'. find_set p fm = Some (map_option (\<lambda>s. s * fm_bytes_per_block fm) r, fm') \<and>
    set_found L fm (i * fm_blocks_per_key fm + q) r fm'"
proof -
  define B K where "B = fm_bytes_per_block fm" and "K = fm_blocks_per_key fm"
  note a = enum_atD [OF ok at, folded B_def K_def]
  obtain pre where pre: "L = pre @ [(i, v)]" using a(1) by blast
  define p1 where "p1 = snd (pi_next p)"
  have "pi_walk p1 = []" using pi_walk_Cons(4) [of p] a(3) by (simp add: p1_def)
  then have nv: "\<not> pi_valid p1" by (simp add: pi_walk_Nil)
  define fm' where "fm' = fm\<lparr>fm_enum_p := Some p1, fm_enum_bl := [], fm_enum_pos := 0\<rparr>"
  have run: "find_set p fm = Some (None, fm')"
    using n(1) a(6,7) nv by (simp add: find_set.simps [of p fm] get_next_set_bit_def Let_def p1_def [symmetric] fm'_def)
  have "x \<notin> list_alloc fm L" if x: "i * K + q \<le> x" for x
  proof (cases "x < i * K + K")
    case True
    then show ?thesis using set_run [OF ok a(2), of q K False] n(2) a(9) x by (auto simp: K_def)
  next
    case False
    then show ?thesis using list_alloc_gap [of fm pre i v "[]" x] ok unfolding pre by (simp add: K_def)
  qed
  then have "{i * K + q..} \<inter> list_alloc fm L = {}" by auto
  moreover have "fm_same fm fm'" "fm_enum_offset fm' = i * (B * K)" using a(5) by (simp_all add: fm'_def)
  ultimately have "set_found L fm (i * K + q) None fm'"
    using a(2) unfolding set_found_def option.case K_def [symmetric] B_def [symmetric] by blast
  with run show ?thesis unfolding B_def K_def by (intro exI [of _ None] exI [of _ fm']) simp
qed

lemma find_set_ok:
  "fl_list fm L \<Longrightarrow> enum_at L i v rest q p fm \<Longrightarrow>
   \<exists>r fm'. find_set p fm = Some (map_option (\<lambda>s. s * fm_bytes_per_block fm) r, fm') \<and>
     set_found L fm (i * fm_blocks_per_key fm + q) r fm'"
proof (induction rest arbitrary: i v q p fm)
  case Nil
  show ?case
    by (cases rule: next_bit_cases [of True v q]) (use find_set_here [OF Nil] find_set_end [OF Nil] in auto)
next
  case (Cons e r)
  obtain i' v' where e: "e = (i', v')" by (cases e)
  define B K where "B = fm_bytes_per_block fm" and "K = fm_blocks_per_key fm"
  note a = enum_atD [OF Cons.prems, folded B_def K_def]
  obtain pre where pre: "L = pre @ (i, v) # (i', v') # r" using a(1) unfolding e by blast
  then have mem': "(i', v') \<in> set L" by simp
  show ?case
  proof (cases rule: next_bit_cases [of True v q])
    case (found n)
    then show ?thesis using find_set_here [OF Cons.prems] by auto
  next
    case missing
    define p1 where "p1 = snd (pi_next p)"
    have w1: "pi_walk p1 = (key_of fm i', v') # map (\<lambda>(i, v). (key_of fm i, v)) r"
      using pi_walk_Cons(4) [of p] a(3) by (simp add: p1_def e)
    define fm0 where "fm0 = fm\<lparr>fm_enum_p := Some p1, fm_enum_bl := [], fm_enum_pos := 0\<rparr>"
    define fm1 where "fm1 = fm\<lparr>fm_enum_p := Some p1, fm_enum_bl := v', fm_enum_offset := i' * (B * K), fm_enum_pos := 0\<rparr>"
    have "enum_load p1 fm0 = Some fm1"
      using enum_load_ok [OF Cons.prems(1) mem' w1, of fm0] by (simp add: fm1_def fm0_def B_def K_def)
    then have step: "find_set p fm = find_set p1 fm1"
      using missing(1) a(6,7) pi_walk_Cons(1) [OF w1]
      by (simp add: find_set.simps [of p fm] get_next_set_bit_def Let_def p1_def [symmetric] fm0_def [symmetric])
    have same: "fm_same fm fm1" by (simp add: fm1_def)
    note sm = fm_sameD [OF same]
    have at1: "enum_at L i' v' r 0 p1 fm1" using pre w1 by (auto simp: enum_at_def fm1_def B_def K_def key_of_def)
    obtain x fm' where x: "find_set p1 fm1 = Some (map_option (\<lambda>s. s * B) x, fm')" "set_found L fm1 (i' * K) x fm'"
      using Cons.IH [OF _ at1] Cons.prems(1) sm by (auto simp: B_def K_def)
    have lt: "i < i'" using fl_list_next Cons.prems(1) unfolding pre by blast
    then have "Suc i * K \<le> i' * K" by (intro mult_right_mono) auto
    then have le: "i * K + q \<le> i' * K" using a(8) by simp
    have gap: "y \<notin> list_alloc fm L" if y: "i * K + q \<le> y" "y < i' * K" for y
    proof (cases "y < i * K + K")
      case True
      then show ?thesis using set_run [OF Cons.prems(1) a(2), of q K False] missing(2) a(9) y by (auto simp: K_def)
    next
      case False
      then show ?thesis using list_alloc_gap [of fm pre i v "(i', v') # r" y] Cons.prems(1) y unfolding pre by (simp add: K_def)
    qed
    have "set_found L fm (i * K + q) x fm'" by (rule set_found_back [OF x(2) same le gap])
    with x(1) step show ?thesis unfolding B_def K_def by auto
  qed
qed

definition size_ok :: "bfm \<Rightarrow> (nat \<times> bytes) list \<Rightarrow> nat \<Rightarrow> bool" where
  "size_ok fm L sz \<longleftrightarrow> fm_size fm = sz * fm_bytes_per_block fm \<and> sz \<le> fm_blocks fm \<and> {sz..<fm_blocks fm} \<subseteq> list_alloc fm L"

definition range_found :: "(nat \<times> bytes) list \<Rightarrow> nat \<Rightarrow> nat \<Rightarrow> (nat \<times> nat) option \<Rightarrow> bfm \<Rightarrow> bfm \<Rightarrow> bool" where
  "range_found L sz c0 r fm fm' \<longleftrightarrow> fm_same fm fm' \<and>
     (case r of
        None \<Rightarrow> {c0..<fm_blocks fm} \<subseteq> list_alloc fm L
      | Some (c, s) \<Rightarrow> c0 \<le> c \<and> c < s \<and> s \<le> fm_blocks fm \<and> {c0..<c} \<subseteq> list_alloc fm L \<and> {c..<s} \<inter> list_alloc fm L = {} \<and>
          (s \<in> list_alloc fm L \<and> (\<exists>i v rest q p. enum_at L i v rest q p fm' \<and> q < fm_blocks_per_key fm \<and> s = i * fm_blocks_per_key fm + q) \<or>
           s = fm_blocks fm \<and> fm_enum_offset fm' = fm_size fm))"

definition range_bytes :: "bfm \<Rightarrow> nat \<times> nat \<Rightarrow> u64 \<times> u64" where
  "range_bytes fm = (\<lambda>(c, s). (c * fm_bytes_per_block fm, (s - c) * fm_bytes_per_block fm))"

lemma free_to_end:
  assumes "size_ok fm L sz" and "c < fm_blocks fm" and "{c..} \<inter> list_alloc fm L = {}"
  shows "sz = fm_blocks fm"
proof (rule ccontr)
  assume "sz \<noteq> fm_blocks fm"
  then have "fm_blocks fm - 1 \<in> {sz..<fm_blocks fm}" "fm_blocks fm - 1 \<in> {c..}" using assms(1,2) by (auto simp: size_ok_def)
  then show False using assms(1,3) by (auto simp: size_ok_def)
qed

lemma byte_range:
  assumes ok: "fl_list fm L" and "c \<le> s" and "s \<le> fm_blocks fm"
  shows "s * fm_bytes_per_block fm < 2 ^ 64"
    and "sub64 (s * fm_bytes_per_block fm) (c * fm_bytes_per_block fm) = (s - c) * fm_bytes_per_block fm"
    and "mul64 (fm_blocks fm) (fm_bytes_per_block fm) = fm_blocks fm * fm_bytes_per_block fm"
proof -
  have nb: "fm_blocks fm * fm_bytes_per_block fm < 2 ^ 64" using ok by (simp add: fl_list_def)
  have "s * fm_bytes_per_block fm \<le> fm_blocks fm * fm_bytes_per_block fm" using assms(3) by (rule mult_right_mono) simp
  then show sb: "s * fm_bytes_per_block fm < 2 ^ 64" using nb by (rule le_less_trans)
  have "c * fm_bytes_per_block fm \<le> s * fm_bytes_per_block fm" using assms(2) by (rule mult_right_mono) simp
  then show "sub64 (s * fm_bytes_per_block fm) (c * fm_bytes_per_block fm) = (s - c) * fm_bytes_per_block fm"
    using sb by (simp add: sub64_exact diff_mult_distrib)
  show "mul64 (fm_blocks fm) (fm_bytes_per_block fm) = fm_blocks fm * fm_bytes_per_block fm" using nb by (rule mul64_exact)
qed

lemma enum_position:
  assumes "fl_list fm L" and "enum_at L i v rest q p fm" and "q < fm_blocks_per_key fm"
  shows "i * fm_blocks_per_key fm + q < fm_blocks fm" and "pi_valid p"
  using fl_list_bounds(1) [OF assms(1) enum_atD(2) [OF assms(1,2)]] assms(3) pi_walk_Cons(1) [OF enum_atD(3) [OF assms(1,2)]]
  by simp_all

lemma enum_range_ok:
  assumes ok: "fl_list fm L" and sz: "size_ok fm L sz" and at: "enum_at L i v rest q p fm"
    and less: "fm_enum_offset fm < fm_size fm"
  shows "\<exists>r fm'. enum_range fm = Some (map_option (range_bytes fm) r, fm') \<and> range_found L sz (i * fm_blocks_per_key fm + q) r fm fm'"
proof -
  define B K N where "B = fm_bytes_per_block fm" and "K = fm_blocks_per_key fm" and "N = fm_blocks fm"
  have B: "0 < B" using fm_geoD(1) [of fm] ok by (simp add: fl_list_def B_def)
  obtain c fm2 where fc: "find_clear p fm = Some (c * B, fm2)" and cf: "clear_found L fm (i * K + q) c fm2"
    using find_clear_ok [OF ok at] by (auto simp: B_def K_def)
  have same2: "fm_same fm fm2" and low: "i * K + q \<le> c" "{i * K + q..<c} \<subseteq> list_alloc fm L" "c \<notin> list_alloc fm L"
    using cf by (auto simp: clear_found_def)
  note sm = fm_sameD [OF same2]
  note p = enum_atD(4) [OF ok at]
  consider (entry) i2 v2 r2 q2 p2 where "enum_at L i2 v2 r2 q2 p2 fm2" "q2 < K" "c \<le> i2 * K + q2" "{c..<i2 * K + q2} \<inter> list_alloc fm L = {}"
    | (past) p2 where "fm_enum_p fm2 = Some p2" "\<not> pi_valid p2" "fm_enum_offset fm2 = c * B" "c \<le> N" "{c..} \<inter> list_alloc fm L = {}"
    using cf unfolding clear_found_def K_def B_def N_def by blast
  then show ?thesis
  proof cases
    case entry
    have ok2: "fl_list fm2 L" using ok sm by simp
    have pos: "i2 * K + q2 < N" "pi_valid p2" using enum_position [OF ok2 entry(1)] entry(2) sm by (simp_all add: K_def N_def)
    have p2: "fm_enum_p fm2 = Some p2" using enum_atD(4) [OF ok2 entry(1)] .
    obtain x fm3 where fs: "find_set p2 fm2 = Some (map_option (\<lambda>s. s * B) x, fm3)" and sf: "set_found L fm2 (i2 * K + q2) x fm3"
      using find_set_ok [OF ok2 entry(1)] sm by (auto simp: B_def K_def)
    have same3: "fm_same fm fm3" using sf fm_same_trans [OF same2] by (simp add: set_found_def)
    note sm3 = fm_sameD [OF same3]
    show ?thesis
    proof (cases x)
      case (Some s)
      obtain i3 v3 r3 q3 p3 where at3: "enum_at L i3 v3 r3 q3 p3 fm3" "q3 < K" "s = i3 * K + q3"
        using sf Some sm by (auto simp: set_found_def K_def)
      have s: "i2 * K + q2 \<le> s" "s \<in> list_alloc fm L" "{i2 * K + q2..<s} \<inter> list_alloc fm L = {}"
        using sf Some sm by (auto simp: set_found_def)
      have "s < N" using enum_position(1) [OF _ at3(1)] ok at3(2,3) sm3 by (simp add: K_def N_def)
      have "c < s" using entry(3) s(1,2) low(3) by (cases "c = s") auto
      note br = byte_range [OF ok, of c s, folded B_def N_def]
      have "min (N * B) (s * B) = s * B" using \<open>s < N\<close> by (simp add: min_def)
      then have run: "enum_range fm = Some (Some (range_bytes fm (c, s)), fm3)"
        using p fc p2 pos(2) fs Some br \<open>c < s\<close> \<open>s < N\<close> sm
        by (simp add: enum_range_def range_bytes_def B_def N_def)
      have "{c..<s} \<subseteq> {c..<i2 * K + q2} \<union> {i2 * K + q2..<s}" by auto
      then have "{c..<s} \<inter> list_alloc fm L = {}" using entry(4) s(3) by blast
      moreover have "\<exists>i v rest q p. enum_at L i v rest q p fm3 \<and> q < K \<and> s = i * K + q" using at3 by blast
      ultimately have "range_found L sz (i * K + q) (Some (c, s)) fm fm3"
        unfolding range_found_def option.case prod.case K_def [symmetric] using same3 low \<open>c < s\<close> \<open>s < N\<close> s(2)
        by (simp add: N_def)
      with run show ?thesis unfolding K_def by (intro exI [of _ "Some (c, s)"] exI [of _ fm3]) simp
    next
      case None
      have up: "{i2 * K + q2..} \<inter> list_alloc fm L = {}" using sf None sm by (simp add: set_found_def)
      obtain i3 v3 where e3: "(i3, v3) \<in> set L" "fm_enum_offset fm3 = i3 * (B * K)"
        using sf None sm by (auto simp: set_found_def B_def K_def)
      have "{c..} \<subseteq> {c..<i2 * K + q2} \<union> {i2 * K + q2..}" by auto
      then have free: "{c..} \<inter> list_alloc fm L = {}" using entry(4) up by blast
      have "c < N" using entry(3) pos(1) by simp
      then have szN: "sz = N" using free_to_end [OF sz _ free] by (simp add: N_def)
      have i3N: "i3 * K < N" using ok e3(1) by (auto simp: fl_list_def K_def N_def)
      then have "i3 * (B * K) < N * B" using B by (simp add: mult.left_commute [of i3] mult.commute [of N])
      then have lt: "fm_enum_offset fm3 < fm_size fm3" using e3(2) sz szN sm3 by (simp add: size_ok_def B_def N_def)
      define fm4 where "fm4 = fm3\<lparr>fm_enum_offset := fm_size fm3, fm_enum_pos := int (fm_blocks_per_key fm3)\<rparr>"
      have "fm_same fm3 fm4" by (simp add: fm4_def)
      then have same4: "fm_same fm fm4" by (rule fm_same_trans [OF same3])
      have run: "enum_range fm = Some (Some (range_bytes fm (c, N)), fm4)"
        using p fc p2 pos(2) fs None byte_range [OF ok, of c N, folded B_def N_def] \<open>c < N\<close> lt sm
        by (simp add: enum_range_def range_bytes_def fm4_def B_def N_def)
      have "range_found L sz (i * K + q) (Some (c, N)) fm fm4"
        unfolding range_found_def option.case prod.case using same4 low \<open>c < N\<close> free sm3
        by (auto simp: N_def fm4_def)
      with run show ?thesis unfolding K_def by (intro exI [of _ "Some (c, N)"] exI [of _ fm4]) simp
    qed
  next
    case past
    show ?thesis
    proof (cases "c * B < fm_size fm")
      case True
      then have "c * B < sz * B" using sz by (simp add: size_ok_def B_def)
      then have "c < N" using sz by (simp add: size_ok_def N_def)
      have szN: "sz = N" using free_to_end [OF sz _ past(5)] \<open>c < N\<close> by (simp add: N_def)
      define fm4 where "fm4 = fm2\<lparr>fm_enum_offset := fm_size fm2, fm_enum_pos := int (fm_blocks_per_key fm2)\<rparr>"
      have "fm_same fm2 fm4" by (simp add: fm4_def)
      then have same4: "fm_same fm fm4" by (rule fm_same_trans [OF same2])
      have run: "enum_range fm = Some (Some (range_bytes fm (c, N)), fm4)"
        using p fc past(1-3) byte_range [OF ok, of c N, folded B_def N_def] \<open>c < N\<close> True sm
        by (simp add: enum_range_def range_bytes_def fm4_def B_def N_def)
      have "range_found L sz (i * K + q) (Some (c, N)) fm fm4"
        unfolding range_found_def option.case prod.case using same4 low \<open>c < N\<close> past(5) sm
        by (auto simp: N_def fm4_def)
      with run show ?thesis unfolding K_def by (intro exI [of _ "Some (c, N)"] exI [of _ fm4]) simp
    next
      case False
      then have "sz \<le> c" using sz B by (simp add: size_ok_def B_def)
      then have "c = N" using sz low(3) past(4) by (force simp: size_ok_def N_def)
      then have "range_found L sz (i * K + q) None fm fm2" using same2 low(2) by (simp add: range_found_def N_def)
      moreover have "enum_range fm = Some (None, fm2)" using p fc past(1-3) False sm by (simp add: enum_range_def)
      ultimately show ?thesis unfolding K_def by (intro exI [of _ None] exI [of _ fm2]) simp
    qed
  qed
qed

lemma enum_start_skip: "fm_enum_offset fm \<noteq> 0 \<or> fm_enum_pos fm \<noteq> 0 \<Longrightarrow> enum_start db fm = Some (True, fm)"
  by (auto simp: enum_start_def)

lemma enum_at_started:
  assumes ok: "fl_list fm L" and at: "enum_at L i v rest q p fm" and pos: "0 < i * fm_blocks_per_key fm + q"
  shows "fm_enum_offset fm \<noteq> 0 \<or> fm_enum_pos fm \<noteq> 0"
proof -
  have "0 < fm_bytes_per_block fm" "0 < fm_blocks_per_key fm" using ok fm_geoD(1,2) [of fm] by (auto simp: fl_list_def)
  then show ?thesis using pos enum_atD(5,7) [OF ok at] by (cases "q = 0") auto
qed

lemma ranges_ok_skip: "ranges_ok s rs \<Longrightarrow> s \<notin> addrs rs \<Longrightarrow> ranges_ok (Suc s) rs"
  by (cases rs) (auto simp: le_less)

lemma enumerate_all_from:
  "fl_list fm L \<Longrightarrow> size_ok fm L sz \<Longrightarrow> enum_start db fm = Some (True, fm1) \<Longrightarrow> fm_same fm fm1 \<Longrightarrow>
   enum_at L i v rest q p fm1 \<Longrightarrow>
   \<exists>rs. enumerate_all db fm = Some (map (range_bytes fm) rs) \<and> ranges_ok (i * fm_blocks_per_key fm + q) rs \<and>
     addrs rs = {i * fm_blocks_per_key fm + q..<fm_blocks fm} - list_alloc fm L"
proof (induction "fm_blocks fm - (i * fm_blocks_per_key fm + q)" arbitrary: fm fm1 i v rest q p rule: less_induct)
  case less
  define K N c0 A where "K = fm_blocks_per_key fm" and "N = fm_blocks fm" and "c0 = i * fm_blocks_per_key fm + q"
    and "A = list_alloc fm L"
  note sm = fm_sameD [OF less.prems(4)]
  have ok1: "fl_list fm1 L" and sz1: "size_ok fm1 L sz" using less.prems(1,2) sm by (simp_all add: size_ok_def)
  have stop: "\<exists>rs. enumerate_all db fm = Some (map (range_bytes fm) rs) \<and> ranges_ok c0 rs \<and> addrs rs = {c0..<N} - A"
    if "enumerate_next db fm = Some (None, fm')" "{c0..<N} \<subseteq> A" for fm'
    using that by (intro exI [of _ "[]"]) (simp add: enumerate_all.simps [of db fm])
  have "\<exists>rs. enumerate_all db fm = Some (map (range_bytes fm) rs) \<and> ranges_ok c0 rs \<and> addrs rs = {c0..<N} - A"
  proof (cases "fm_enum_offset fm1 < fm_size fm1")
    case False
    have eq: "i * (fm_bytes_per_block fm1 * fm_blocks_per_key fm1) = (i * K) * fm_bytes_per_block fm1"
      using sm by (simp add: K_def ac_simps)
    have "sz * fm_bytes_per_block fm1 \<le> (i * K) * fm_bytes_per_block fm1"
      using False sz1 enum_atD(5) [OF ok1 less.prems(5)] unfolding size_ok_def eq by linarith
    then have "sz \<le> i * K" using fm_geoD(1) [of fm1] ok1 by (simp add: fl_list_def)
    then have "{c0..<N} \<subseteq> A" using less.prems(2) by (auto simp: size_ok_def c0_def K_def N_def A_def)
    moreover have "enumerate_next db fm = Some (None, fm1)" using less.prems(3) False by (simp add: enumerate_next_def)
    ultimately show ?thesis using stop by blast
  next
    case True
    obtain r fm' where er: "enum_range fm1 = Some (map_option (range_bytes fm) r, fm')" and rf: "range_found L sz c0 r fm1 fm'"
      using enum_range_ok [OF ok1 sz1 less.prems(5) True] sm by (auto simp: c0_def range_bytes_def)
    have en: "enumerate_next db fm = Some (map_option (range_bytes fm) r, fm')"
      using less.prems(3) True er by (simp add: enumerate_next_def)
    have same': "fm_same fm fm'" using rf fm_same_trans [OF less.prems(4)] by (simp add: range_found_def)
    note sm' = fm_sameD [OF same']
    show ?thesis
    proof (cases r)
      case None
      then show ?thesis using stop en rf sm by (simp add: range_found_def A_def N_def)
    next
      case (Some x)
      obtain c s where x: "x = (c, s)" by (cases x)
      have cs: "c0 \<le> c" "c < s" "s \<le> N" "{c0..<c} \<subseteq> A" "{c..<s} \<inter> A = {}"
        and nxt: "s \<in> A \<and> (\<exists>i v rest q p. enum_at L i v rest q p fm' \<and> q < K \<and> s = i * K + q) \<or> s = N \<and> fm_enum_offset fm' = fm_size fm"
        using rf Some x sm by (auto simp: range_found_def K_def N_def A_def)
      have "\<exists>rs. enumerate_all db fm' = Some (map (range_bytes fm) rs) \<and> ranges_ok (Suc s) rs \<and> addrs rs = {s..<N} - A"
        using nxt
      proof
        assume a: "s \<in> A \<and> (\<exists>i v rest q p. enum_at L i v rest q p fm' \<and> q < K \<and> s = i * K + q)"
        then obtain i2 v2 r2 q2 p2 where at2: "enum_at L i2 v2 r2 q2 p2 fm'" "s = i2 * K + q2" by blast
        have "fm_enum_offset fm' \<noteq> 0 \<or> fm_enum_pos fm' \<noteq> 0"
        proof (rule enum_at_started [OF _ at2(1)])
          show "fl_list fm' L" using less.prems(1) sm' by simp
          show "0 < i2 * fm_blocks_per_key fm' + q2" using at2(2) cs(2) unfolding K_def sm'(2) by linarith
        qed
        then have "\<exists>rs. enumerate_all db fm' = Some (map (range_bytes fm') rs) \<and> ranges_ok (i2 * fm_blocks_per_key fm' + q2) rs \<and>
            addrs rs = {i2 * fm_blocks_per_key fm' + q2..<fm_blocks fm'} - list_alloc fm' L"
          using less.hyps [OF _ _ _ enum_start_skip _ at2(1)] less.prems(1,2) sm' at2(2) cs
          by (simp add: size_ok_def c0_def K_def N_def)
        then obtain rs where "enumerate_all db fm' = Some (map (range_bytes fm) rs)" "ranges_ok s rs" "addrs rs = {s..<N} - A"
          using sm' at2(2) by (auto simp: range_bytes_def K_def N_def A_def)
        with a ranges_ok_skip [of s rs] show ?thesis by auto
      next
        assume a: "s = N \<and> fm_enum_offset fm' = fm_size fm"
        then have "enumerate_next db fm' = Some (None, fm')"
          using True sm sm' enum_start_skip [of fm' db] by (simp add: enumerate_next_def)
        then show ?thesis using a by (intro exI [of _ "[]"]) (simp add: enumerate_all.simps [of db fm'])
      qed
      then obtain rs where rs: "enumerate_all db fm' = Some (map (range_bytes fm) rs)" "ranges_ok (Suc s) rs" "addrs rs = {s..<N} - A"
        by blast
      have "enumerate_all db fm = Some (map (range_bytes fm) ((c, s) # rs))"
        using en rs(1) Some x by (simp add: enumerate_all.simps [of db fm])
      moreover have "ranges_ok c0 ((c, s) # rs)" using cs(1,2) rs(2) by simp
      moreover have "{c0..<N} = {c0..<c} \<union> {c..<s} \<union> {s..<N}" using cs(1-3) by auto
      then have "addrs ((c, s) # rs) = {c0..<N} - A" using rs(3) cs(4,5) by auto
      ultimately show ?thesis by blast
    qed
  qed
  then show ?case by (simp only: c0_def N_def A_def)
qed

end
