(* ===== verification/Freelist_Client.thy ===== *)
theory Freelist_Client
  imports Freelist_Refinement
begin

text \<open>
  What \<open>BitmapFreelistManager\<close> promises to its clients: the bitmap in the store is a set of allocated
  blocks, \<open>allocate\<close> and \<open>release\<close> add and remove ranges, an enumeration gives the free ranges, and a
  manager that is opened again has the geometry of the one that was created.
\<close>

section \<open>The interface: a set of blocks\<close>

datatype block_op = Take nat nat | Give nat nat

text \<open>The specification: a range is taken when all of it is free, and given back when all of it is taken.\<close>

fun blocks_spec :: "nat \<Rightarrow> block_op list \<Rightarrow> nat set \<Rightarrow> nat set option" where
  "blocks_spec lim [] A = Some A"
| "blocks_spec lim (Take a n # ops) A =
     (if 0 < n \<and> a + n \<le> lim \<and> {a..<a + n} \<inter> A = {} then blocks_spec lim ops (A \<union> {a..<a + n}) else None)"
| "blocks_spec lim (Give a n # ops) A =
     (if 0 < n \<and> a + n \<le> lim \<and> {a..<a + n} \<subseteq> A then blocks_spec lim ops (A - {a..<a + n}) else None)"

fun run_ops :: "(nat \<Rightarrow> nat \<Rightarrow> 's \<Rightarrow> 's option) \<Rightarrow> (nat \<Rightarrow> nat \<Rightarrow> 's \<Rightarrow> 's option) \<Rightarrow> block_op list \<Rightarrow> 's \<Rightarrow> 's option" where
  "run_ops tk gv [] s = Some s"
| "run_ops tk gv (Take a n # ops) s = do { s1 \<leftarrow> tk a n s; run_ops tk gv ops s1 }"
| "run_ops tk gv (Give a n # ops) s = do { s1 \<leftarrow> gv a n s; run_ops tk gv ops s1 }"

locale block_marks =
  fixes inv :: "'s \<Rightarrow> bool" and alloc :: "'s \<Rightarrow> nat set" and lim :: nat
    and take_op give_op :: "nat \<Rightarrow> nat \<Rightarrow> 's \<Rightarrow> 's option"
  assumes take_toggles: "inv s \<Longrightarrow> 0 < n \<Longrightarrow> a + n \<le> lim \<Longrightarrow>
      \<exists>s'. take_op a n s = Some s' \<and> inv s' \<and> (\<forall>c. c \<in> alloc s' \<longleftrightarrow> (c \<in> alloc s) \<noteq> (a \<le> c \<and> c < a + n))"
    and give_toggles: "inv s \<Longrightarrow> 0 < n \<Longrightarrow> a + n \<le> lim \<Longrightarrow>
      \<exists>s'. give_op a n s = Some s' \<and> inv s' \<and> (\<forall>c. c \<in> alloc s' \<longleftrightarrow> (c \<in> alloc s) \<noteq> (a \<le> c \<and> c < a + n))"
begin

lemma take_free:
  assumes "inv s" and "0 < n" and "a + n \<le> lim" and "{a..<a + n} \<inter> alloc s = {}"
  shows "\<exists>s'. take_op a n s = Some s' \<and> inv s' \<and> alloc s' = alloc s \<union> {a..<a + n}"
proof -
  obtain s' where "take_op a n s = Some s'" "inv s'" "\<And>c. c \<in> alloc s' \<longleftrightarrow> (c \<in> alloc s) \<noteq> (a \<le> c \<and> c < a + n)"
    using take_toggles [OF assms(1-3)] by blast
  then show ?thesis using assms(4) by (intro exI [of _ s']) auto
qed

lemma give_taken:
  assumes "inv s" and "0 < n" and "a + n \<le> lim" and "{a..<a + n} \<subseteq> alloc s"
  shows "\<exists>s'. give_op a n s = Some s' \<and> inv s' \<and> alloc s' = alloc s - {a..<a + n}"
proof -
  obtain s' where "give_op a n s = Some s'" "inv s'" "\<And>c. c \<in> alloc s' \<longleftrightarrow> (c \<in> alloc s) \<noteq> (a \<le> c \<and> c < a + n)"
    using give_toggles [OF assms(1-3)] by blast
  then show ?thesis using assms(4) by (intro exI [of _ s']) auto
qed

lemma run_refines:
  "inv s \<Longrightarrow> blocks_spec lim ops (alloc s) = Some A \<Longrightarrow> \<exists>s'. run_ops take_op give_op ops s = Some s' \<and> inv s' \<and> alloc s' = A"
proof (induction ops arbitrary: s)
  case (Cons x ops)
  show ?case
  proof (cases x)
    case (Take a n)
    with Cons.prems obtain s1 where "take_op a n s = Some s1" "inv s1" "alloc s1 = alloc s \<union> {a..<a + n}"
      using take_free [of s n a] by (auto split: if_splits)
    with Take Cons show ?thesis by (auto split: if_splits)
  next
    case (Give a n)
    with Cons.prems obtain s1 where "give_op a n s = Some s1" "inv s1" "alloc s1 = alloc s - {a..<a + n}"
      using give_taken [of s n a] by (auto split: if_splits)
    with Give Cons show ?thesis by (auto split: if_splits)
  qed
qed simp

end

section \<open>The provider\<close>

text \<open>One call of \<open>allocate\<close> or \<open>release\<close> in a transaction of its own, in blocks.\<close>

definition fl_take :: "bfm \<Rightarrow> nat \<Rightarrow> nat \<Rightarrow> memdb \<Rightarrow> memdb option" where
  "fl_take fm a n db =
     do { txn \<leftarrow> fm_allocate fm (a * fm_bytes_per_block fm) (n * fm_bytes_per_block fm) [];
          (r, db1) \<leftarrow> submit_transaction txn db; if r = 0 then Some db1 else None }"

definition fl_give :: "bfm \<Rightarrow> nat \<Rightarrow> nat \<Rightarrow> memdb \<Rightarrow> memdb option" where
  "fl_give fm a n db =
     do { txn \<leftarrow> fm_release fm (a * fm_bytes_per_block fm) (n * fm_bytes_per_block fm) [];
          (r, db1) \<leftarrow> submit_transaction txn db; if r = 0 then Some db1 else None }"

text \<open>The entries under the meta prefix, in the order of the keys.\<close>

definition meta_entries :: "bfm \<Rightarrow> kv_items" where
  "meta_entries fm =
     [(ascii ''blocks'', le_bytes 8 (fm_blocks fm)), (ascii ''blocks_per_key'', le_bytes 8 (fm_blocks_per_key fm)),
      (ascii ''bytes_per_block'', le_bytes 8 (fm_bytes_per_block fm)), (ascii ''size'', le_bytes 8 (fm_size fm))]"

definition fl_live :: "bfm \<Rightarrow> memdb \<Rightarrow> bool" where
  "fl_live fm db \<longleftrightarrow> fl_inv fm db \<and> \<not> fm_null fm \<and> fm_size fm < 2 ^ 64 \<and> 0 \<notin> set (fm_meta_prefix fm) \<and>
     fm_meta_prefix fm \<noteq> fm_bitmap_prefix fm \<and> (\<forall>k. kv_view db (fm_meta_prefix fm, k) = map_of (meta_entries fm) k)"

lemma fl_toggles:
  assumes "fl_live fm db" and "0 < n" and "a + n \<le> fm_blocks fm"
  shows "\<exists>db'. fl_take fm a n db = Some db' \<and> fl_give fm a n db = Some db' \<and> fl_live fm db' \<and>
    (\<forall>c. c \<in> fl_alloc fm db' \<longleftrightarrow> (c \<in> fl_alloc fm db) \<noteq> (a \<le> c \<and> c < a + n))"
proof -
  have inv: "fl_inv fm db" and nn: "\<not> fm_null fm" using assms(1) by (simp_all add: fl_live_def)
  show ?thesis
  proof (rule mark_range [OF inv assms(2,3)])
    fix txn db'
    assume "fm_xor fm (a * fm_bytes_per_block fm) (n * fm_bytes_per_block fm) [] = Some txn"
      and "submit_transaction txn db = Some (0, db')" and "fl_inv fm db'"
      and "\<And>c. c \<in> fl_alloc fm db' \<longleftrightarrow> (c \<in> fl_alloc fm db) \<noteq> (a \<le> c \<and> c < a + n)"
      and "\<And>p k. p \<noteq> fm_bitmap_prefix fm \<Longrightarrow> kv_view db' (p, k) = kv_view db (p, k)"
    with nn assms(1) show ?thesis
      by (intro exI [of _ db']) (simp add: fl_take_def fl_give_def fm_allocate_def fm_release_def fl_live_def)
  qed
qed

interpretation fl: block_marks "fl_live fm" "fl_alloc fm" "fm_blocks fm" "fl_take fm" "fl_give fm" for fm
proof
  fix s n a
  assume "fl_live fm s" "0 < n" "a + n \<le> fm_blocks fm"
  then obtain s' where "fl_take fm a n s = Some s'" "fl_give fm a n s = Some s'" "fl_live fm s'"
    "\<forall>c. c \<in> fl_alloc fm s' \<longleftrightarrow> (c \<in> fl_alloc fm s) \<noteq> (a \<le> c \<and> c < a + n)" using fl_toggles by blast
  then show "\<exists>s'. fl_take fm a n s = Some s' \<and> fl_live fm s' \<and> (\<forall>c. c \<in> fl_alloc fm s' \<longleftrightarrow> (c \<in> fl_alloc fm s) \<noteq> (a \<le> c \<and> c < a + n))"
    and "\<exists>s'. fl_give fm a n s = Some s' \<and> fl_live fm s' \<and> (\<forall>c. c \<in> fl_alloc fm s' \<longleftrightarrow> (c \<in> fl_alloc fm s) \<noteq> (a \<le> c \<and> c < a + n))"
    by blast+
qed

section \<open>The start of an enumeration\<close>

text \<open>The keys of the bitmap in the order of the iterator.\<close>

lemma walk_numbers:
  assumes ok: "fm_geo fm" "fm_blocks fm * fm_bytes_per_block fm < 2 ^ 64"
    and keys: "\<And>k v. (k, v) \<in> set E \<Longrightarrow> \<exists>i. i * fm_blocks_per_key fm < fm_blocks fm \<and> k = key_of fm i"
    and sorted: "sorted_wrt (<) (map fst E)"
  shows "\<exists>L. E = map (\<lambda>(i, v). (key_of fm i, v)) L \<and> sorted_wrt (<) (map fst L) \<and>
    (\<forall>(i, v) \<in> set L. i * fm_blocks_per_key fm < fm_blocks fm)"
  using keys sorted
proof (induction E)
  case (Cons x E)
  obtain k v where x: "x = (k, v)" by (cases x)
  then obtain i where i: "i * fm_blocks_per_key fm < fm_blocks fm" "k = key_of fm i" using Cons.prems(1) [of k v] by auto
  have "\<exists>L. E = map (\<lambda>(i, v). (key_of fm i, v)) L \<and> sorted_wrt (<) (map fst L) \<and>
    (\<forall>(i, v) \<in> set L. i * fm_blocks_per_key fm < fm_blocks fm)"
    using Cons.prems by (intro Cons.IH) auto
  then obtain L where L: "E = map (\<lambda>(i, v). (key_of fm i, v)) L" "sorted_wrt (<) (map fst L)"
    "\<And>j w. (j, w) \<in> set L \<Longrightarrow> j * fm_blocks_per_key fm < fm_blocks fm" by auto
  have "i < j" if "(j, w) \<in> set L" for j w
  proof -
    have "key_of fm i < key_of fm j" using Cons.prems(2) L(1) that by (force simp: x i(2))
    then show ?thesis using key_of_inj(2) [OF ok, of i j] i(1) L(3) [OF that] by simp
  qed
  then show ?case using L i x by (intro exI [of _ "(i, v) # L"]) auto
qed simp

lemma fl_entries:
  assumes "fl_inv fm db"
  defines "p \<equiv> pi_lower_bound [] db (get_iterator (fm_bitmap_prefix fm) None None db)"
  shows "\<exists>L. pi_walk p = map (\<lambda>(i, v). (key_of fm i, v)) L \<and> fl_list fm L \<and> fl_alloc fm db = list_alloc fm L \<inter> {..<fm_blocks fm}"
proof -
  have inv: "fm_geo fm" "0 \<notin> set (fm_bitmap_prefix fm)" "md_ok db" "fm_blocks_per_key fm dvd fm_blocks fm"
    "fm_blocks fm * fm_bytes_per_block fm < 2 ^ 64"
    and ent: "\<And>k v. kv_view db (fm_bitmap_prefix fm, k) = Some v \<Longrightarrow>
        length v = fm_blocks_per_key fm div 8 \<and> (\<exists>i. i * fm_blocks_per_key fm < fm_blocks fm \<and> k = key_of fm i)"
    using assms(1) by (auto simp: fl_inv_def)
  have mem: "(k, v) \<in> set (pi_walk p) \<longleftrightarrow> kv_view db (fm_bitmap_prefix fm, k) = Some v" for k v
    unfolding p_def using walk_set [OF inv(3,2)] by simp
  have "sorted_wrt (<) (map fst (pi_walk p))" unfolding p_def by (rule walk_sorted [OF inv(3,2)])
  moreover have "\<And>k v. (k, v) \<in> set (pi_walk p) \<Longrightarrow> \<exists>i. i * fm_blocks_per_key fm < fm_blocks fm \<and> k = key_of fm i"
    using mem ent by blast
  ultimately have "\<exists>L. pi_walk p = map (\<lambda>(i, v). (key_of fm i, v)) L \<and> sorted_wrt (<) (map fst L) \<and>
      (\<forall>(i, v) \<in> set L. i * fm_blocks_per_key fm < fm_blocks fm)" by (intro walk_numbers [OF inv(1,5)])
  then obtain L where L: "pi_walk p = map (\<lambda>(i, v). (key_of fm i, v)) L"
    "sorted_wrt (<) (map fst L)" "\<And>i v. (i, v) \<in> set L \<Longrightarrow> i * fm_blocks_per_key fm < fm_blocks fm" by auto
  have view: "kv_view db (fm_bitmap_prefix fm, key_of fm i) = Some v \<longleftrightarrow> (i, v) \<in> set L"
    if "i * fm_blocks_per_key fm \<le> fm_blocks fm" for i v
  proof -
    have "(key_of fm i, v) \<in> set (pi_walk p) \<longleftrightarrow> (i, v) \<in> set L"
      using key_of_inj(1) [OF inv(1,5) that] L(1,3) by (force simp: less_imp_le)
    then show ?thesis using mem by simp
  qed
  have "length v = fm_blocks_per_key fm div 8" if "(i, v) \<in> set L" for i v
    using view [of i v] L(3) [OF that] ent that by auto
  then have "fl_list fm L" using inv L(2,3) by (auto simp: fl_list_def)
  moreover have "c div fm_blocks_per_key fm * fm_blocks_per_key fm \<le> fm_blocks fm" if "c < fm_blocks fm" for c
    using div_times_less_eq_dividend [of c "fm_blocks_per_key fm"] that by linarith
  then have "fl_alloc fm db = list_alloc fm L \<inter> {..<fm_blocks fm}" using view by (auto simp: fl_alloc_def list_alloc_def)
  ultimately show ?thesis using L(1) by blast
qed

text \<open>Block 0 and the blocks after the size are taken, as \<open>create\<close> leaves them.\<close>

definition fl_ready :: "bfm \<Rightarrow> memdb \<Rightarrow> bool" where
  "fl_ready fm db \<longleftrightarrow> fl_inv fm db \<and> fm_bytes_per_block fm dvd fm_size fm \<and>
     fm_size fm div fm_bytes_per_block fm \<le> fm_blocks fm \<and> 0 \<in> fl_alloc fm db \<and>
     {fm_size fm div fm_bytes_per_block fm..<fm_blocks fm} \<subseteq> fl_alloc fm db"

lemma enum_start_ok:
  assumes ready: "fl_ready fm db" and reset: "enumerate_reset fm = fm"
  shows "\<exists>L v rest p fm1. fl_list fm L \<and> size_ok fm L (fm_size fm div fm_bytes_per_block fm) \<and>
    fl_alloc fm db = list_alloc fm L \<inter> {..<fm_blocks fm} \<and>
    enum_start db fm = Some (True, fm1) \<and> fm_same fm fm1 \<and> enum_at L 0 v rest 0 p fm1"
proof -
  define p where "p = pi_lower_bound [] db (get_iterator (fm_bitmap_prefix fm) None None db)"
  have inv: "fl_inv fm db" and r: "fm_bytes_per_block fm dvd fm_size fm" "fm_size fm div fm_bytes_per_block fm \<le> fm_blocks fm"
      "0 \<in> fl_alloc fm db" "{fm_size fm div fm_bytes_per_block fm..<fm_blocks fm} \<subseteq> fl_alloc fm db"
    using ready by (auto simp: fl_ready_def)
  obtain L where w: "pi_walk p = map (\<lambda>(i, v). (key_of fm i, v)) L" and ok: "fl_list fm L"
    and al: "fl_alloc fm db = list_alloc fm L \<inter> {..<fm_blocks fm}"
    using fl_entries [OF inv] unfolding p_def by blast
  obtain v0 where z: "(0, v0) \<in> set L" using r(3) al by (auto simp: list_alloc_def)
  then obtain i v rest where L: "L = (i, v) # rest" by (cases L) auto
  have i: "i = 0" using z ok by (auto simp: L fl_list_def)
  define fm1 where "fm1 = fm\<lparr>fm_enum_p := Some p, fm_enum_offset := 0, fm_enum_bl := v\<rparr>"
  have w': "pi_walk p = (key_of fm 0, v) # map (\<lambda>(i, v). (key_of fm i, v)) rest" using w by (simp add: L i)
  have "enum_load p fm = Some fm1"
    using enum_load_ok [OF ok _ w', of fm] by (simp add: L i fm1_def fm_same_def)
  moreover have zero: "fm_enum_offset fm = 0" "fm_enum_pos fm = 0" using arg_cong [OF reset, of fm_enum_offset] arg_cong [OF reset, of fm_enum_pos]
    by (simp_all add: enumerate_reset_def)
  ultimately have "enum_start db fm = Some (True, fm1)"
    using pi_walk_Cons(1) [OF w'] by (simp add: enum_start_def Let_def p_def fm1_def)
  moreover have "fm_same fm fm1" by (simp add: fm1_def fm_same_def enumerate_reset_def)
  moreover have "enum_at L 0 v rest 0 p fm1" using w' zero
    by (simp add: enum_at_def L i fm1_def key_of_def)
  moreover have "size_ok fm L (fm_size fm div fm_bytes_per_block fm)" using r al by (auto simp: size_ok_def)
  ultimately show ?thesis using ok al by blast
qed

lemma enumerate_all_ok:
  assumes "fl_ready fm db"
  shows "\<exists>rs. enumerate_all db (enumerate_reset fm) = Some (map (range_bytes fm) rs) \<and> ranges_ok 0 rs \<and>
    addrs rs = {..<fm_blocks fm} - fl_alloc fm db"
proof -
  define fm0 where "fm0 = enumerate_reset fm"
  have same: "fm_same fm fm0" and re: "enumerate_reset fm0 = fm0" by (simp_all add: fm0_def fm_same_def enumerate_reset_def)
  note sm = fm_sameD [OF same]
  have geo: "fm_geo fm0 = fm_geo fm" by (simp add: fm0_def fm_geo_def enumerate_reset_def init_misc_def) (cases fm; auto)
  have "fl_ready fm0 db" "fl_alloc fm0 db = fl_alloc fm db" using assms sm geo by (simp_all add: fl_ready_def fl_inv_def fl_alloc_def)
  then obtain L v rest p fm1 where L: "fl_list fm0 L" "size_ok fm0 L (fm_size fm0 div fm_bytes_per_block fm0)"
      "fl_alloc fm db = list_alloc fm0 L \<inter> {..<fm_blocks fm0}" "enum_start db fm0 = Some (True, fm1)" "fm_same fm0 fm1"
      "enum_at L 0 v rest 0 p fm1"
    using enum_start_ok [OF _ re, of db] by auto
  from enumerate_all_from [OF L(1,2,4-6)] obtain rs where "enumerate_all db fm0 = Some (map (range_bytes fm0) rs)"
    "ranges_ok 0 rs" "addrs rs = {0..<fm_blocks fm0} - list_alloc fm0 L" by auto
  moreover have "range_bytes fm0 = range_bytes fm" using sm by (simp add: range_bytes_def)
  ultimately show ?thesis using L(3) sm by (intro exI [of _ rs]) (auto simp: fm0_def)
qed

section \<open>Creation\<close>

lemma submit_append: "submit_transaction t db = Some (0, db1) \<Longrightarrow> submit_transaction (t @ u) db = submit_transaction u db1"
proof (induction t arbitrary: db)
  case (Cons x t)
  then show ?case by (auto simp: bind_eq_Some_conv split: if_splits)
qed simp

lemma fm_xor_append:
  assumes geo: "fm_geo fm" and n: "0 < n" and bound: "(a + n) * fm_bytes_per_block fm < 2 ^ 64"
    and x: "fm_xor fm (a * fm_bytes_per_block fm) (n * fm_bytes_per_block fm) [] = Some u"
  shows "fm_xor fm (a * fm_bytes_per_block fm) (n * fm_bytes_per_block fm) t = Some (t @ u)"
proof -
  define ks where "ks = [a div fm_blocks_per_key fm..<Suc ((a + n - 1) div fm_blocks_per_key fm)]"
  obtain ms where ms: "fm_xor fm (a * fm_bytes_per_block fm) (n * fm_bytes_per_block fm) t = Some (t @ merges fm ms ks)"
    "\<And>i. i \<in> set ks \<Longrightarrow> mask_ok fm a n i (ms i)"
    using fm_xor_ok [OF geo n bound, of t] unfolding ks_def by (metis atLeastLessThan_iff less_Suc_eq_le set_upt)
  obtain ms' where ms': "fm_xor fm (a * fm_bytes_per_block fm) (n * fm_bytes_per_block fm) [] = Some ([] @ merges fm ms' ks)"
    "\<And>i. i \<in> set ks \<Longrightarrow> mask_ok fm a n i (ms' i)"
    using fm_xor_ok [OF geo n bound, of "[]"] unfolding ks_def by (metis atLeastLessThan_iff less_Suc_eq_le set_upt)
  have "merges fm ms ks = merges fm ms' ks" using mask_ok_unique [OF geo ms(2) ms'(2)] by (simp add: merges_def)
  with ms(1) ms'(1) x show ?thesis by simp
qed

lemma mark_more:
  assumes sub: "submit_transaction t db = Some (0, db1)" and inv: "fl_inv fm db1" and n: "0 < n" and bound: "a + n \<le> fm_blocks fm"
  shows "\<exists>txn db2. fm_xor fm (a * fm_bytes_per_block fm) (n * fm_bytes_per_block fm) t = Some txn \<and>
    submit_transaction txn db = Some (0, db2) \<and> fl_inv fm db2 \<and>
    (\<forall>c. c \<in> fl_alloc fm db2 \<longleftrightarrow> (c \<in> fl_alloc fm db1) \<noteq> (a \<le> c \<and> c < a + n)) \<and>
    (\<forall>p k. p \<noteq> fm_bitmap_prefix fm \<longrightarrow> kv_view db2 (p, k) = kv_view db1 (p, k))"
proof (rule mark_range [OF inv n bound])
  fix u db2
  assume u: "fm_xor fm (a * fm_bytes_per_block fm) (n * fm_bytes_per_block fm) [] = Some u"
    and db2: "submit_transaction u db1 = Some (0, db2)" "fl_inv fm db2"
      "\<And>c. c \<in> fl_alloc fm db2 \<longleftrightarrow> (c \<in> fl_alloc fm db1) \<noteq> (a \<le> c \<and> c < a + n)"
      "\<And>p k. p \<noteq> fm_bitmap_prefix fm \<Longrightarrow> kv_view db2 (p, k) = kv_view db1 (p, k)"
  have "(a + n) * fm_bytes_per_block fm \<le> fm_blocks fm * fm_bytes_per_block fm" using bound by (rule mult_right_mono) simp
  then have "(a + n) * fm_bytes_per_block fm < 2 ^ 64" "fm_geo fm" using inv unfolding fl_inv_def by linarith+
  then show ?thesis using fm_xor_append [OF _ n _ u] submit_append [OF sub, of u] db2 by (intro exI [of _ "t @ u"] exI [of _ db2]) simp
qed

lemma set_more:
  assumes sub: "submit_transaction t db = Some (0, db1)" and inv: "fl_inv fm db1" and m: "0 \<notin> set m" "m \<noteq> fm_bitmap_prefix fm"
  shows "\<exists>db2. submit_transaction (txn_set m k v t) db = Some (0, db2) \<and> fl_inv fm db2 \<and>
    fl_alloc fm db2 = fl_alloc fm db1 \<and> kv_view db2 = (kv_view db1)((m, k) \<mapsto> v)"
proof -
  have "md_ok db1" "\<forall>x \<in> set [SET m k v]. 0 \<notin> set (op_prefix x)" using inv m by (auto simp: fl_inv_def)
  from submit_transaction_ok [OF this] obtain db2 where db2: "submit_transaction [SET m k v] db1 = Some (0, db2)"
      "kv_view db2 = (kv_view db1)((m, k) \<mapsto> v)" "md_ok db2" "md_kinds db2 = md_kinds db1"
    by (force simp: map_option_eq_Some)
  have "kv_view db2 (fm_bitmap_prefix fm, x) = kv_view db1 (fm_bitmap_prefix fm, x)" for x using db2(2) m(2) by auto
  then have "fl_inv fm db2" "fl_alloc fm db2 = fl_alloc fm db1" using inv db2(3,4) by (simp_all add: fl_inv_def fl_alloc_def)
  then show ?thesis using db2(1,2) submit_append [OF sub, of "[SET m k v]"] by (simp add: txn_set_def)
qed

text \<open>What \<open>create\<close> needs: a power of two, one block at least, and addresses of 64 bits after rounding up.\<close>

definition fresh_store :: "bytes \<Rightarrow> bytes \<Rightarrow> memdb \<Rightarrow> bool" where
  "fresh_store m bp db \<longleftrightarrow> md_ok db \<and> 0 \<notin> set m \<and> 0 \<notin> set bp \<and> m \<noteq> bp \<and> md_kinds db bp = Some XorMerge \<and>
     (\<forall>k. kv_view db (m, k) = None \<and> kv_view db (bp, k) = None)"

definition create_ok :: "u64 \<Rightarrow> u64 \<Rightarrow> bool" where
  "create_ok new_size g \<longleftrightarrow> isp2 g \<and> g \<le> new_size \<and> new_size + g * 128 < 2 ^ 64"

text \<open>The manager that \<open>create\<close> leaves.\<close>

definition created :: "u64 \<Rightarrow> u64 \<Rightarrow> bfm \<Rightarrow> bfm" where
  "created new_size g fm =
     (init_misc (fm\<lparr>fm_bytes_per_block := g, fm_size := new_size div g * g, fm_blocks_per_key := 128\<rparr>))
       \<lparr>fm_blocks := (new_size div g + 127) div 128 * 128\<rparr>"

lemma created_simps [simp]:
  "fm_bytes_per_block (created s g fm) = g" "fm_blocks_per_key (created s g fm) = 128" "fm_size (created s g fm) = s div g * g"
  "fm_blocks (created s g fm) = (s div g + 127) div 128 * 128" "fm_bitmap_prefix (created s g fm) = fm_bitmap_prefix fm"
  "fm_meta_prefix (created s g fm) = fm_meta_prefix fm"
  by (simp_all add: created_def init_misc_def)

lemma round_up_128: "(if n div 128 * 128 \<noteq> n then (n div 128 + 1) * 128 else n) = (n + 127) div 128 * (128 :: nat)"
proof (cases "n mod 128 = 0")
  case True
  then obtain q where "n = 128 * q" by (auto elim: dvdE simp: mod_0_imp_dvd)
  then show ?thesis by simp
next
  case False
  define q r where "q = n div 128" and "r = n mod 128 - 1"
  have "n = 128 * q + Suc r" "r < 127" using False by (simp_all add: q_def r_def)
  then have "n div 128 = q" "n + 127 = 128 * Suc q + r" "q * 128 \<noteq> n" by simp_all
  moreover have "(128 * Suc q + r) div 128 = Suc q" using \<open>r < 127\<close> by (intro div_nat_eqI) simp_all
  ultimately have "(n + 127) div 128 = Suc q" "n div 128 = q" "q * 128 \<noteq> n" by simp_all
  then show ?thesis by (simp only: simp_thms if_True Suc_eq_plus1)
qed

lemma create_ok_bounds:
  assumes "create_ok s g"
  shows "0 < g" and "g < 2 ^ 57" and "s < 2 ^ 64" and "0 < s div g" and "(s div g + 127) div 128 * 128 * g < 2 ^ 64"
    and "(s div g div 128 + 1) * 128 < 2 ^ 64"
proof -
  have g: "isp2 g" "g \<le> s" "s + g * 128 < 2 ^ 64" using assms by (auto simp: create_ok_def)
  show pos: "0 < g" using isp2_pos [OF g(1)] .
  show "g < 2 ^ 57" "s < 2 ^ 64" using g(3) by simp_all
  show "0 < s div g" using g(2) pos by (simp add: div_greater_zero_iff)
  have "(s div g + 127) div 128 * 128 \<le> s div g + 127" by simp
  then have "(s div g + 127) div 128 * 128 * g \<le> (s div g + 127) * g" by (rule mult_right_mono) simp
  also have "\<dots> \<le> s + 127 * g" using div_times_less_eq_dividend [of s g] by (simp add: algebra_simps)
  finally show "(s div g + 127) div 128 * 128 * g < 2 ^ 64" using g(3) by linarith
  have "(s div g div 128 + 1) * 128 \<le> s div g + 128" by simp
  then show "(s div g div 128 + 1) * 128 < 2 ^ 64" using div_le_dividend [of s g] g(3) pos by linarith
qed

lemma created_geo: "create_ok s g \<Longrightarrow> fm_geo (created s g fm)"
  using create_ok_bounds(2) [of s g] isp2_power [of 7]
  by (simp add: fm_geo_def create_ok_def) (simp add: created_def init_misc_def)

lemma created_block_count:
  assumes "create_ok s g"
  shows "size_2_block_count (init_misc (fm\<lparr>fm_bytes_per_block := g, fm_size := s div g * g, fm_blocks_per_key := 128\<rparr>)) (s div g * g) =
    Some ((s div g + 127) div 128 * 128)"
proof -
  note b = create_ok_bounds [OF assms]
  define n where "n = s div g div 128"
  have b6: "(n + 1) * 128 < 2 ^ 64" using b(6) by (simp only: n_def)
  have "mul64 (n + 1) 128 = (n + 1) * 128" using b6 by (rule mul64_exact)
  moreover have "mul64 n 128 = n * 128" using b6 by (intro mul64_exact) simp
  moreover have "add64 n 1 = n + 1" using b6 by (intro add64_exact) simp
  ultimately show ?thesis using b(1) round_up_128 [of "s div g"]
    by (auto simp: size_2_block_count_def init_misc_def Let_def n_def simp del: mult_Suc split: if_splits)
qed

lemma fm_create_eq:
  fixes fm :: bfm
  assumes ok: "create_ok s g"
  defines "fm' \<equiv> created s g fm"
  shows "fm_create s g txn fm =
    do { txn1 \<leftarrow> (if fm_blocks fm' * g > fm_size fm' then fm_xor fm' (fm_size fm') (fm_blocks fm' * g - fm_size fm') txn else Some txn);
         txn2 \<leftarrow> fm_xor fm' 0 g txn1;
         Some (0, fm', txn_set (fm_meta_prefix fm) (ascii ''size'') (le_bytes 8 (fm_size fm'))
                  (txn_set (fm_meta_prefix fm) (ascii ''blocks'') (le_bytes 8 (fm_blocks fm'))
                  (txn_set (fm_meta_prefix fm) (ascii ''blocks_per_key'') (le_bytes 8 128)
                  (txn_set (fm_meta_prefix fm) (ascii ''bytes_per_block'') (le_bytes 8 g) txn2)))) }"
proof -
  note b = create_ok_bounds [OF ok]
  have p: "is_power_of_2 g" using ok by (simp add: create_ok_def isp2_def is_power_of_2_def)
  have g64: "g < 2 ^ 64" using b(2) by simp
  have "not64 (g - 1) = neg64 g" using not64_masks(1) [OF b(1) g64] sub64_exact [of 1 g] b(1) g64 by simp
  then have sz: "s AND not64 (g - 1) = s div g * g"
    using p2align_eq [of g s] ok b(3) g64 by (simp add: p2align_def create_ok_def)
  have whole: "mul64 (fm_blocks fm') g = fm_blocks fm' * g" using b(5) by (intro mul64_exact) (simp add: fm'_def)
  have sub: "sub64 (fm_blocks fm' * g) (fm_size fm') = fm_blocks fm' * g - fm_size fm'" if "fm_size fm' < fm_blocks fm' * g"
    using that b(5) by (intro sub64_exact) (simp_all add: fm'_def del: mult_less_cancel2)
  show ?thesis
    using p sz whole sub created_block_count [OF ok, of fm]
    by (simp add: fm_create_def Let_def init_misc_def created_def fm'_def cong: if_cong)
qed

lemma fresh_inv:
  assumes "create_ok s g" and "fresh_store (fm_meta_prefix fm) (fm_bitmap_prefix fm) db"
  shows "fl_inv (created s g fm) db" and "fl_alloc (created s g fm) db = {}"
  using assms create_ok_bounds(5) [OF assms(1)] created_geo [OF assms(1)]
  by (simp_all add: fl_inv_def fl_alloc_def fresh_store_def)

lemma blocks_cover: "n \<le> (n + 127) div 128 * (128 :: nat)"
  using mod_less_divisor [of 128 "n + 127"] div_mult_mod_eq [of "n + 127" 128] by linarith

lemma create_marks:
  assumes ok: "create_ok s g" and fresh: "fresh_store (fm_meta_prefix fm) (fm_bitmap_prefix fm) db"
  defines "fm' \<equiv> created s g fm"
  shows "\<exists>txn1 txn db'.
    (if fm_blocks fm' * g > fm_size fm' then fm_xor fm' (fm_size fm') (fm_blocks fm' * g - fm_size fm') [] else Some []) = Some txn1 \<and>
    fm_xor fm' 0 g txn1 = Some txn \<and> submit_transaction txn db = Some (0, db') \<and> fl_inv fm' db' \<and>
    fl_alloc fm' db' = insert 0 {s div g..<fm_blocks fm'} \<and> (\<forall>k. kv_view db' (fm_meta_prefix fm, k) = None)"
proof -
  note b = create_ok_bounds [OF ok]
  have inv: "fl_inv fm' db" and al: "fl_alloc fm' db = {}" using fresh_inv [OF ok fresh] by (simp_all add: fm'_def)
  have fields: "fm_bytes_per_block fm' = g" "fm_size fm' = s div g * g" "fm_bitmap_prefix fm' = fm_bitmap_prefix fm" by (simp_all add: fm'_def)
  have meta: "fm_meta_prefix fm \<noteq> fm_bitmap_prefix fm" "\<And>k. kv_view db (fm_meta_prefix fm, k) = None"
    using fresh by (auto simp: fresh_store_def)
  have le: "s div g \<le> fm_blocks fm'" using blocks_cover by (simp add: fm'_def)
  have "\<exists>txn1 db1. (if fm_blocks fm' * g > fm_size fm' then fm_xor fm' (fm_size fm') (fm_blocks fm' * g - fm_size fm') [] else Some []) = Some txn1 \<and>
      submit_transaction txn1 db = Some (0, db1) \<and> fl_inv fm' db1 \<and> fl_alloc fm' db1 = {s div g..<fm_blocks fm'} \<and>
      (\<forall>k. kv_view db1 (fm_meta_prefix fm, k) = None)"
  proof (cases "s div g < fm_blocks fm'")
    case True
    define n where "n = fm_blocks fm' - s div g"
    have n: "0 < n" "s div g + n \<le> fm_blocks fm'" using True by (simp_all add: n_def)
    obtain txn1 db1 where d: "fm_xor fm' (s div g * g) (n * g) [] = Some txn1" "submit_transaction txn1 db = Some (0, db1)" "fl_inv fm' db1"
      "\<And>c. c \<in> fl_alloc fm' db1 \<longleftrightarrow> (c \<in> fl_alloc fm' db) \<noteq> (s div g \<le> c \<and> c < s div g + n)"
      "\<And>p k. p \<noteq> fm_bitmap_prefix fm' \<Longrightarrow> kv_view db1 (p, k) = kv_view db (p, k)"
      using mark_more [OF _ inv n, of "[]" db, unfolded fields(1)] by auto
    have "fm_size fm' < fm_blocks fm' * g" using True b(1) by (simp add: fields)
    moreover have "fm_blocks fm' * g - fm_size fm' = n * g" by (simp add: fields n_def diff_mult_distrib)
    moreover have "s div g + n = fm_blocks fm'" using True by (simp add: n_def)
    then have "fl_alloc fm' db1 = {s div g..<fm_blocks fm'}" using d(4) unfolding al by (simp add: set_eq_iff)
    ultimately show ?thesis using d meta by (simp add: fields)
  next
    case False
    then have "fm_blocks fm' = s div g" using le by simp
    then have "fm_size fm' = fm_blocks fm' * g" using fields(2) by simp
    then show ?thesis using inv meta(2) al \<open>fm_blocks fm' = s div g\<close> by simp
  qed
  then obtain txn1 db1 where t: "(if fm_blocks fm' * g > fm_size fm' then fm_xor fm' (fm_size fm') (fm_blocks fm' * g - fm_size fm') [] else Some []) = Some txn1"
    and d1: "submit_transaction txn1 db = Some (0, db1)" "fl_inv fm' db1" "fl_alloc fm' db1 = {s div g..<fm_blocks fm'}"
      "\<And>k. kv_view db1 (fm_meta_prefix fm, k) = None" by blast
  have "0 + 1 \<le> fm_blocks fm'" using b(4) le by simp
  then have "\<exists>txn db'. fm_xor fm' 0 g txn1 = Some txn \<and> submit_transaction txn db = Some (0, db') \<and> fl_inv fm' db' \<and>
      (\<forall>c. c \<in> fl_alloc fm' db' \<longleftrightarrow> (c \<in> fl_alloc fm' db1) \<noteq> (c = 0)) \<and>
      (\<forall>p k. p \<noteq> fm_bitmap_prefix fm \<longrightarrow> kv_view db' (p, k) = kv_view db1 (p, k))"
    using mark_more [OF d1(1,2), of 1 0] by (simp add: fields)
  then obtain txn db' where d: "fm_xor fm' 0 g txn1 = Some txn" "submit_transaction txn db = Some (0, db')" "fl_inv fm' db'"
      "\<And>c. c \<in> fl_alloc fm' db' \<longleftrightarrow> (c \<in> fl_alloc fm' db1) \<noteq> (c = 0)"
      "\<And>p k. p \<noteq> fm_bitmap_prefix fm \<Longrightarrow> kv_view db' (p, k) = kv_view db1 (p, k)" by blast
  have "fl_alloc fm' db' = insert 0 {s div g..<fm_blocks fm'}" 
  proof (rule set_eqI)
    show "c \<in> fl_alloc fm' db' \<longleftrightarrow> c \<in> insert 0 {s div g..<fm_blocks fm'}" for c
      using b(4) unfolding d(4) d1(3) by (cases "c = 0") simp_all
  qed
  then show ?thesis using t d d1(4) meta(1) by (intro exI [of _ txn1] exI [of _ txn] exI [of _ db']) simp
qed

lemma create_run:
  assumes ok: "create_ok s g" and fresh: "fresh_store (fm_meta_prefix fm) (fm_bitmap_prefix fm) db"
  defines "fm' \<equiv> created s g fm"
  shows "\<exists>txn db'. fm_create s g [] fm = Some (0, fm', txn) \<and> submit_transaction txn db = Some (0, db') \<and> fl_inv fm' db' \<and>
    fl_alloc fm' db' = insert 0 {s div g..<fm_blocks fm'} \<and>
    (\<forall>k. kv_view db' (fm_meta_prefix fm, k) = map_of (meta_entries fm') k)"
proof -
  define m where "m = fm_meta_prefix fm"
  have m: "0 \<notin> set m" "m \<noteq> fm_bitmap_prefix fm'" using fresh by (auto simp: fresh_store_def m_def fm'_def)
  note mk = create_marks [OF ok fresh, folded fm'_def m_def]
  from mk obtain txn1 t0 d0 where
    c: "(if fm_blocks fm' * g > fm_size fm' then fm_xor fm' (fm_size fm') (fm_blocks fm' * g - fm_size fm') [] else Some []) = Some txn1"
    "fm_xor fm' 0 g txn1 = Some t0" and d0: "submit_transaction t0 db = Some (0, d0)" "fl_inv fm' d0"
    "fl_alloc fm' d0 = insert 0 {s div g..<fm_blocks fm'}" "\<And>k. kv_view d0 (m, k) = None" by blast
  from set_more [OF d0(1,2) m, of "ascii ''bytes_per_block''" "le_bytes 8 g"] obtain d1
    where d1: "submit_transaction (txn_set m (ascii ''bytes_per_block'') (le_bytes 8 g) t0) db = Some (0, d1)" "fl_inv fm' d1"
      "fl_alloc fm' d1 = fl_alloc fm' d0" "kv_view d1 = (kv_view d0)((m, ascii ''bytes_per_block'') \<mapsto> le_bytes 8 g)" by blast
  from set_more [OF d1(1,2) m, of "ascii ''blocks_per_key''" "le_bytes 8 128"] obtain d2
    where d2: "submit_transaction (txn_set m (ascii ''blocks_per_key'') (le_bytes 8 128)
        (txn_set m (ascii ''bytes_per_block'') (le_bytes 8 g) t0)) db = Some (0, d2)" "fl_inv fm' d2"
      "fl_alloc fm' d2 = fl_alloc fm' d1" "kv_view d2 = (kv_view d1)((m, ascii ''blocks_per_key'') \<mapsto> le_bytes 8 128)" by blast
  from set_more [OF d2(1,2) m, of "ascii ''blocks''" "le_bytes 8 (fm_blocks fm')"] obtain d3
    where d3: "submit_transaction (txn_set m (ascii ''blocks'') (le_bytes 8 (fm_blocks fm')) (txn_set m (ascii ''blocks_per_key'') (le_bytes 8 128)
        (txn_set m (ascii ''bytes_per_block'') (le_bytes 8 g) t0))) db = Some (0, d3)" "fl_inv fm' d3"
      "fl_alloc fm' d3 = fl_alloc fm' d2" "kv_view d3 = (kv_view d2)((m, ascii ''blocks'') \<mapsto> le_bytes 8 (fm_blocks fm'))" by blast
  from set_more [OF d3(1,2) m, of "ascii ''size''" "le_bytes 8 (fm_size fm')"] obtain d4
    where d4: "submit_transaction (txn_set m (ascii ''size'') (le_bytes 8 (fm_size fm')) (txn_set m (ascii ''blocks'') (le_bytes 8 (fm_blocks fm'))
        (txn_set m (ascii ''blocks_per_key'') (le_bytes 8 128) (txn_set m (ascii ''bytes_per_block'') (le_bytes 8 g) t0)))) db = Some (0, d4)"
      "fl_inv fm' d4" "fl_alloc fm' d4 = fl_alloc fm' d3" "kv_view d4 = (kv_view d3)((m, ascii ''size'') \<mapsto> le_bytes 8 (fm_size fm'))" by blast
  have "kv_view d4 (m, k) = map_of (meta_entries fm') k" for k
    using d0(4) by (auto simp: d4(4) d3(4) d2(4) d1(4) meta_entries_def fm'_def ascii_def)
  moreover have "fl_alloc fm' d4 = insert 0 {s div g..<fm_blocks fm'}" using d0(3) d1(3) d2(3) d3(3) d4(3) by simp
  moreover note fm_create_eq [OF ok, of "[]" fm, folded fm'_def m_def, unfolded c(1)]
  ultimately show ?thesis using d4(1,2) c(2) unfolding m_def by auto
qed

section \<open>Opening\<close>

lemma sorted_items_unique:
  assumes "sorted_wrt (<) (map fst xs)" and "sorted_wrt (<) (map fst ys)" and "set xs = set ys"
  shows "xs = (ys :: kv_items)"
proof (rule map_sorted_distinct_set_unique [of fst])
  show "inj_on fst (set xs \<union> set ys)" using assms by (simp add: strict_sorted_iff distinct_map)
qed (use assms in \<open>simp_all add: strict_sorted_iff distinct_map\<close>)

lemma meta_walk:
  assumes "fl_live fm db"
  shows "pi_walk (pi_lower_bound [] db (get_iterator (fm_meta_prefix fm) None None db)) = meta_entries fm"
proof (rule sorted_items_unique)
  have m: "md_ok db" "0 \<notin> set (fm_meta_prefix fm)" "\<And>k. kv_view db (fm_meta_prefix fm, k) = map_of (meta_entries fm) k"
    using assms by (simp_all add: fl_live_def fl_inv_def)
  show "sorted_wrt (<) (map fst (pi_walk (pi_lower_bound [] db (get_iterator (fm_meta_prefix fm) None None db))))"
    by (rule walk_sorted [OF m(1,2)])
  show sm: "sorted_wrt (<) (map fst (meta_entries fm))" by (simp add: meta_entries_def ascii_def)
  then have "distinct (map fst (meta_entries fm))" by (simp add: strict_sorted_iff)
  then show "set (pi_walk (pi_lower_bound [] db (get_iterator (fm_meta_prefix fm) None None db))) = set (meta_entries fm)"
    using walk_set [OF m(1,2), of _ _ "[]" None None] m(3) by (auto simp: map_of_eq_Some_iff)
qed

lemma fl_live_fields:
  assumes "fl_live fm db"
  shows "fm_bytes_per_block fm < 2 ^ 64" and "fm_blocks fm < 2 ^ 64" and "fm_blocks_per_key fm < 2 ^ 64" and "fm_size fm < 2 ^ 64"
proof -
  have inv: "fm_geo fm" "fm_blocks fm * fm_bytes_per_block fm < 2 ^ 64" using assms by (auto simp: fl_live_def fl_inv_def)
  note g = fm_geoD [OF inv(1)]
  have b: "fm_bytes_per_block fm \<le> fm_bytes_per_block fm * fm_blocks_per_key fm" "fm_blocks fm \<le> fm_blocks fm * fm_bytes_per_block fm"
    using g(1,2) by simp_all
  show "fm_bytes_per_block fm < 2 ^ 64" "fm_blocks fm < 2 ^ 64" using b g(7) inv(2) by linarith+
  show "fm_blocks_per_key fm < 2 ^ 64" using g(4) by simp
qed (use assms in \<open>simp add: fl_live_def\<close>)

text \<open>The geometry decides the derived fields.\<close>

lemma opened_eq:
  assumes "fl_live fm db"
  shows "init_misc ((bfm_new (fm_meta_prefix fm) (fm_bitmap_prefix fm))\<lparr>fm_size := fm_size fm, fm_blocks := fm_blocks fm,
    fm_bytes_per_block := fm_bytes_per_block fm, fm_blocks_per_key := fm_blocks_per_key fm\<rparr>) = enumerate_reset fm" (is "init_misc ?fm1 = _")
proof -
  have i: "init_misc fm = fm" and n: "\<not> fm_null fm" using assms by (auto simp: fl_live_def fl_inv_def fm_geo_def)
  have "init_misc ?fm1 = init_misc (enumerate_reset fm)"
    using n by (cases fm) (simp add: bfm_new_def init_misc_def enumerate_reset_def)
  also have "\<dots> = enumerate_reset (init_misc fm)" by (simp add: init_misc_def enumerate_reset_def)
  finally show ?thesis by (simp only: i)
qed

lemma reload_ok:
  assumes "fl_live fm db"
  shows "fm_init db None (bfm_new (fm_meta_prefix fm) (fm_bitmap_prefix fm)) = Some (0, enumerate_reset fm)"
  using meta_walk [OF assms] fl_live_fields [OF assms] opened_eq [OF assms]
  by (simp add: fm_init_def read_cfg_def load_from_db_def bfm_new_def meta_entries_def load_entry_def ascii_def)

text \<open>The texts of \<open>get_meta\<close> are read back by \<open>_read_cfg\<close>.\<close>

lemma digit_byte: "n < 10 \<Longrightarrow> is_digit (of_nat (48 + n)) \<and> unat (of_nat (48 + n) :: byte) = 48 + n"
proof -
  assume "n < 10"
  then have u: "unat (of_nat (48 + n) :: byte) = 48 + n" unfolding unat_of_nat_byte by simp
  then show ?thesis using \<open>n < 10\<close> by (simp add: is_digit_def word_le_nat_alt)
qed

lemma to_string_digits: "to_string n \<noteq> [] \<and> (\<forall>c \<in> set (to_string n). is_digit c) \<and> digits_value (to_string n) = n"
proof (induction n rule: to_string.induct)
  case (1 n)
  show ?case
  proof (cases "n < 10")
    case True
    then show ?thesis using digit_byte [OF True] by (simp add: to_string.simps [of n] digits_value_def)
  next
    case False
    have d: "is_digit (of_nat (48 + n mod 10))" "unat (of_nat (48 + n mod 10) :: byte) = 48 + n mod 10"
      using digit_byte [of "n mod 10"] by simp_all
    have "digits_value (to_string (n div 10)) = n div 10" "\<forall>c \<in> set (to_string (n div 10)). is_digit c" using 1 False by simp_all
    moreover have "digits_value (to_string n) = digits_value (to_string (n div 10)) * 10 + n mod 10"
      using False d(2) by (simp add: to_string.simps [of n] digits_value_def)
    ultimately show ?thesis using False d(1) by (auto simp: to_string.simps [of n])
  qed
qed

lemma stoull_to_string: "n < 2 ^ 64 \<Longrightarrow> stoull (to_string n) = Some n"
proof -
  assume n: "n < 2 ^ 64"
  obtain c cs where ts: "to_string n = c # cs" using to_string_digits [of n] by (cases "to_string n") auto
  then have dg: "is_digit c" "\<forall>c \<in> set (to_string n). is_digit c" "digits_value (c # cs) = n" using to_string_digits [of n] by auto
  have "48 \<le> unat c \<and> unat c \<le> 57" using dg(1) by (simp add: is_digit_def word_le_nat_alt)
  then have "\<not> (c = 32 \<or> 9 \<le> c \<and> c \<le> 13)" "c \<noteq> 45" "c \<noteq> 43" by (auto simp: word_le_nat_alt)
  moreover have "takeWhile is_digit (c # cs) = c # cs" using dg(2) ts by (simp only: takeWhile_eq_all_conv)
  moreover have "dropWhile (\<lambda>c. c = 32 \<or> 9 \<le> c \<and> c \<le> 13) (c # cs) = c # cs" using calculation(1) by (simp only: dropWhile.simps if_False)
  ultimately show ?thesis using n dg(3) by (simp add: stoull_def ts Let_def del: takeWhile.simps dropWhile.simps takeWhile_eq_all_conv)
qed

definition meta_reader :: "kv_items \<Rightarrow> bytes \<Rightarrow> int \<times> bytes" where
  "meta_reader items k = (case map_of items k of None \<Rightarrow> (- 2, []) | Some v \<Rightarrow> (0, v))"

lemma meta_texts:
  assumes "fl_live fm db"
  shows "\<exists>items. get_meta fm 0 = Some items \<and>
    fm_init db' (Some (meta_reader items)) (bfm_new (fm_meta_prefix fm) (fm_bitmap_prefix fm)) = Some (0, enumerate_reset fm)"
  using fl_live_fields [OF assms] opened_eq [OF assms]
  by (simp add: get_meta_def meta_reader_def fm_init_def read_cfg_def stoull_to_string ascii_def)

section \<open>Properties\<close>

lemma created_live:
  assumes ok: "create_ok s g" and fresh: "fresh_store m bp db"
  defines "fm \<equiv> created s g (bfm_new m bp)"
  shows "\<exists>txn db'. fm_create s g [] (bfm_new m bp) = Some (0, fm, txn) \<and> submit_transaction txn db = Some (0, db') \<and>
    fl_live fm db' \<and> fl_ready fm db' \<and> fl_alloc fm db' = insert 0 {s div g..<fm_blocks fm}"
proof -
  have pf: "fm_meta_prefix (bfm_new m bp) = m" "fm_bitmap_prefix (bfm_new m bp) = bp" "fm_null fm = False"
    by (simp_all add: bfm_new_def fm_def created_def init_misc_def)
  obtain txn db' where r: "fm_create s g [] (bfm_new m bp) = Some (0, fm, txn)" "submit_transaction txn db = Some (0, db')"
      "fl_inv fm db'" "fl_alloc fm db' = insert 0 {s div g..<fm_blocks fm}" "\<And>k. kv_view db' (m, k) = map_of (meta_entries fm) k"
    using create_run [OF ok, of "bfm_new m bp" db] fresh unfolding pf fm_def by blast
  have "fm_size fm < 2 ^ 64" using create_ok_bounds(3) [OF ok] div_times_less_eq_dividend [of s g] unfolding fm_def created_simps by linarith
  then have "fl_live fm db'" using r(3,5) fresh pf by (simp add: fl_live_def fresh_store_def fm_def)
  moreover have "fl_ready fm db'" using r(3,4) create_ok_bounds(1) [OF ok] blocks_cover by (simp add: fl_ready_def fm_def subset_insertI)
  ultimately show ?thesis using r by blast
qed

text \<open>
  C15: \<open>BitmapFreelistManager\<close> is a set of allocated blocks. For every sequence of \<open>allocate\<close> and
  \<open>release\<close> calls that is legal for the set (a range is taken when it is free and given back when it is
  taken), each call and its transaction succeed, and the bits of the store are the set of the
  specification.
\<close>

theorem freelist_tracks_blocks:
  assumes "fl_live fm db" and "blocks_spec (fm_blocks fm) ops (fl_alloc fm db) = Some A"
  shows "\<exists>db'. run_ops (fl_take fm) (fl_give fm) ops db = Some db' \<and> fl_live fm db' \<and> fl_alloc fm db' = A"
  using fl.run_refines [OF assms] .

text \<open>
  C16: an enumeration from the start ends and gives the free ranges: sorted, disjoint, none next to
  another, and together exactly the blocks that are not allocated.
\<close>

theorem freelist_enumerates_free:
  assumes "fl_ready fm db"
  shows "\<exists>rs. enumerate_all db (enumerate_reset fm) = Some (map (range_bytes fm) rs) \<and> ranges_ok 0 rs \<and>
    addrs rs = {..<fm_blocks fm} - fl_alloc fm db"
  using enumerate_all_ok [OF assms] .

text \<open>
  \<open>create\<close> on a fresh store succeeds; its transaction marks block 0 and the blocks after the size, and
  leaves a store that the other operations accept.
\<close>

theorem freelist_create_ready:
  assumes "create_ok s g" and "fresh_store m bp db"
  shows "\<exists>fm txn db'. fm_create s g [] (bfm_new m bp) = Some (0, fm, txn) \<and> submit_transaction txn db = Some (0, db') \<and>
    fl_live fm db' \<and> fl_ready fm db' \<and> fl_alloc fm db' = insert 0 {s div g..<fm_blocks fm} \<and>
    fm_bytes_per_block fm = g \<and> fm_size fm = s div g * g"
  using created_live [OF assms] created_simps(1,3) by metis

text \<open>
  A new manager that \<open>init\<close> opens on the store, at any moment of a sequence of \<open>allocate\<close> and
  \<open>release\<close> calls, has the geometry and the masks of the manager that made the calls; and so has one that reads
  the texts of \<open>get_meta\<close> through a configuration reader.
\<close>

theorem freelist_reload:
  assumes "fl_live fm db" and "blocks_spec (fm_blocks fm) ops (fl_alloc fm db) = Some A"
  shows "\<exists>db' items. run_ops (fl_take fm) (fl_give fm) ops db = Some db' \<and> get_meta fm 0 = Some items \<and>
    fm_init db' None (bfm_new (fm_meta_prefix fm) (fm_bitmap_prefix fm)) = Some (0, enumerate_reset fm) \<and>
    fm_init db' (Some (meta_reader items)) (bfm_new (fm_meta_prefix fm) (fm_bitmap_prefix fm)) = Some (0, enumerate_reset fm)"
proof -
  obtain db' where "run_ops (fl_take fm) (fl_give fm) ops db = Some db'" "fl_live fm db'" using fl.run_refines [OF assms] by blast
  then show ?thesis using reload_ok meta_texts [of fm db' db'] by blast
qed

section \<open>Witnesses\<close>

definition fl_store :: memdb where
  "fl_store = \<lparr>md_map = [], md_seqno = 0, md_merge_ops = [([98], \<lparr>mo_kind = XorMerge, mo_count = 0, mo_bytes = 0\<rparr>)]\<rparr>"

definition fl_sample :: bfm where
  "fl_sample = created 1000000 4096 (bfm_new [109] [98])"

lemma fl_store_fresh: "fresh_store [109] [98] fl_store"
  by (auto simp: fresh_store_def fl_store_def md_ok_def kv_view_def md_kinds_def)

lemma fl_sample_create: "create_ok 1000000 4096"
  using isp2_power [of 12] by (simp add: create_ok_def)

lemma fl_sample_blocks: "fm_blocks fl_sample = 256" "fm_bytes_per_block fl_sample = 4096"
  by (simp_all add: fl_sample_def)

lemma fl_sample_live: "\<exists>db. fl_live fl_sample db \<and> fl_ready fl_sample db \<and> fl_alloc fl_sample db = insert 0 {244..<256}"
  using created_live [OF fl_sample_create fl_store_fresh] fl_sample_blocks by (auto simp: fl_sample_def)

lemma fl_sample_ops: "blocks_spec 256 [Take 10 5, Give 11 2] (insert 0 {244..<256}) = Some ({10, 13, 14} \<union> insert 0 {244..<256})"
  by auto

theorem freelist_tracks_blocks_witness:
  "\<exists>db db'. fl_live fl_sample db \<and> run_ops (fl_take fl_sample) (fl_give fl_sample) [Take 10 5, Give 11 2] db = Some db' \<and>
     fl_alloc fl_sample db' = {10, 13, 14} \<union> insert 0 {244..<256}"
proof -
  obtain db where db: "fl_live fl_sample db" "fl_alloc fl_sample db = insert 0 {244..<256}" using fl_sample_live by blast
  then show ?thesis using freelist_tracks_blocks [OF db(1), of "[Take 10 5, Give 11 2]"] fl_sample_ops fl_sample_blocks by auto
qed

theorem freelist_enumerates_free_witness:
  "\<exists>db rs. fl_ready fl_sample db \<and> enumerate_all db (enumerate_reset fl_sample) = Some (map (range_bytes fl_sample) rs) \<and>
     addrs rs = {1..<244}"
proof -
  obtain db where db: "fl_ready fl_sample db" "fl_alloc fl_sample db = insert 0 {244..<256}" using fl_sample_live by blast
  have "{..<256} - insert 0 {244..<256 :: nat} = {1..<244}" by auto
  then show ?thesis using freelist_enumerates_free [OF db(1)] db by (auto simp: fl_sample_blocks)
qed

theorem freelist_create_ready_witness:
  "\<exists>fm txn db'. fm_create 1000000 4096 [] (bfm_new [109] [98]) = Some (0, fm, txn) \<and>
     submit_transaction txn fl_store = Some (0, db') \<and> 244 \<in> fl_alloc fm db' \<and> fm_size fm = 999424"
proof -
  obtain fm txn db' where r: "fm_create 1000000 4096 [] (bfm_new [109] [98]) = Some (0, fm, txn)"
      "submit_transaction txn fl_store = Some (0, db')" "fl_ready fm db'" "fl_alloc fm db' = insert 0 {244..<fm_blocks fm}" "fm_bytes_per_block fm = 4096" "fm_size fm = 999424"
    using freelist_create_ready [OF fl_sample_create fl_store_fresh] by auto
  have "fm_blocks fm = 256"
    using r fm_create_eq [OF fl_sample_create, of "[]" "bfm_new [109] [98]"]
    by (auto simp: bind_eq_Some_conv split: if_splits)
  then show ?thesis using r by auto
qed

theorem freelist_reload_witness:
  "\<exists>db db'. fl_live fl_sample db \<and> run_ops (fl_take fl_sample) (fl_give fl_sample) [Take 10 5, Give 11 2] db = Some db' \<and>
     fm_init db' None (bfm_new [109] [98]) = Some (0, enumerate_reset fl_sample)"
proof -
  obtain db where db: "fl_live fl_sample db" "fl_alloc fl_sample db = insert 0 {244..<256}" using fl_sample_live by blast
  have "fm_meta_prefix fl_sample = [109]" "fm_bitmap_prefix fl_sample = [98]" by (simp_all add: fl_sample_def bfm_new_def)
  then show ?thesis using freelist_reload [OF db(1), of "[Take 10 5, Give 11 2]"] db fl_sample_ops fl_sample_blocks by auto
qed

end
