(* ===== verification/Bitmap_Allocator.thy ===== *)
theory Bitmap_Allocator
  imports Intarith Interval_Set Space_Allocator Float_Rounding
begin

text \<open>
  The bitmap allocator (\<^verbatim>\<open>blk/bitmap_allocator.cc\<close>). Level 0 has a bit per block, set when the block is
  free. Level 1 has two bits per set of 512 blocks: all taken, some free, all free. Level 2 has a bit per
  256 entries of level 1, set when one of them is not all taken. A vector is a list of 64-bit words; an
  index outside it is undefined in C++ and \<open>None\<close> here. The lock makes every call atomic.

  Positions count blocks. A position within 64 of \<open>2 ^ 64\<close> has no word in a vector, so the sums of positions
  below do not wrap.
\<close>

section \<open>Words\<close>

type_synonym slot = "64 word"

definition find_next_set_bit :: "slot \<Rightarrow> nat \<Rightarrow> int" where
  "find_next_set_bit val start =
     (if start \<ge> 64 then - 1
      else let m = drop_bit start val in if m \<noteq> 0 then int (ctz (unat m)) + int start else - 1)"

definition count_1s :: "slot \<Rightarrow> int" where
  "count_1s val = int (popcount (unat val))"

text \<open>\<open>w |= 1 << i\<close> or \<open>w &= ~(1 << i)\<close>.\<close>

definition put_slot_bit :: "bool \<Rightarrow> nat \<Rightarrow> slot \<Rightarrow> slot" where
  "put_slot_bit b i w = (if b then w OR push_bit i 1 else w AND NOT (push_bit i 1))"

definition upd_slot :: "(slot \<Rightarrow> slot) \<Rightarrow> nat \<Rightarrow> slot list \<Rightarrow> slot list option" where
  "upd_slot f i v = (if i < length v then Some (v[i := f (v ! i)]) else None)"

section \<open>Levels 0 and 1\<close>

record level01 =
  bm_l0 :: "slot list"
  bm_l1 :: "slot list"
  bm_l0_gran :: u64
  bm_l1_gran :: u64
  bm_partial :: u64
  bm_unalloc :: u64

text \<open>
  The three loops of \<open>_mark_alloc_l0\<close> and of \<open>_mark_free_l0\<close>, which differ in the bit they write: single
  bits up to a word, whole words, single bits.
\<close>

function mark_head :: "bool \<Rightarrow> nat \<Rightarrow> nat \<Rightarrow> slot list \<Rightarrow> (nat \<times> slot list) option" where
  "mark_head b p e v =
     (if p < e \<and> p mod 64 \<noteq> 0
      then (case upd_slot (put_slot_bit b (p mod 64)) (p div 64) v of
              None \<Rightarrow> None | Some v1 \<Rightarrow> mark_head b (p + 1) e v1)
      else Some (p, v))"
  by auto
termination by (relation "measure (\<lambda>(b, p, e, v). e - p)") auto

function mark_words :: "bool \<Rightarrow> nat \<Rightarrow> nat \<Rightarrow> slot list \<Rightarrow> (nat \<times> slot list) option" where
  "mark_words b p e v =
     (if p + 64 \<le> e
      then (case upd_slot (\<lambda>w. if b then - 1 else 0) (p div 64) v of
              None \<Rightarrow> None | Some v1 \<Rightarrow> mark_words b (p + 64) e v1)
      else Some (p, v))"
  by auto
termination by (relation "measure (\<lambda>(b, p, e, v). e - p)") auto

function mark_tail :: "bool \<Rightarrow> nat \<Rightarrow> nat \<Rightarrow> slot list \<Rightarrow> slot list option" where
  "mark_tail b p e v =
     (if p < e
      then (case upd_slot (put_slot_bit b (p mod 64)) (p div 64) v of
              None \<Rightarrow> None | Some v1 \<Rightarrow> mark_tail b (p + 1) e v1)
      else Some v)"
  by auto
termination by (relation "measure (\<lambda>(b, p, e, v). e - p)") auto

declare mark_head.simps [simp del] mark_words.simps [simp del] mark_tail.simps [simp del]

definition mark_l0 :: "bool \<Rightarrow> nat \<Rightarrow> nat \<Rightarrow> slot list \<Rightarrow> slot list option" where
  "mark_l0 b s e v =
     do { (p, v1) \<leftarrow> mark_head b s e v; (q, v2) \<leftarrow> mark_words b p e v1; mark_tail b q e v2 }"

definition mark_alloc_l0 :: "nat \<Rightarrow> nat \<Rightarrow> level01 \<Rightarrow> level01 option" where
  "mark_alloc_l0 s e a = map_option (\<lambda>v. a\<lparr>bm_l0 := v\<rparr>) (mark_l0 False s e (bm_l0 a))"

definition mark_free_l0 :: "nat \<Rightarrow> nat \<Rightarrow> level01 \<Rightarrow> level01 option" where
  "mark_free_l0 s e a = map_option (\<lambda>v. a\<lparr>bm_l0 := v\<rparr>) (mark_l0 True s e (bm_l0 a))"

text \<open>The entries of level 1: \<open>0\<close> full, \<open>1\<close> partial, \<open>3\<close> free.\<close>

definition l1_entry :: "slot list \<Rightarrow> nat \<Rightarrow> slot option" where
  "l1_entry v e = (if e div 32 < length v then Some (drop_bit (2 * (e mod 32)) (v ! (e div 32)) AND 3) else None)"

definition put_l1_entry :: "nat \<Rightarrow> slot \<Rightarrow> slot list \<Rightarrow> slot list option" where
  "put_l1_entry e x v =
     upd_slot (\<lambda>w. (w AND NOT (push_bit (2 * (e mod 32)) 3)) OR push_bit (2 * (e mod 32)) x) (e div 32) v"

definition slotset :: "slot list \<Rightarrow> nat \<Rightarrow> slot list option" where
  "slotset v e = (if 8 * e + 8 \<le> length v then Some (take 8 (drop (8 * e) v)) else None)"

definition entry_state :: "slot list \<Rightarrow> slot" where
  "entry_state vs = (if fold (OR) vs 0 = 0 then 0 else if fold (AND) vs (- 1) = - 1 then 3 else 1)"

definition recount :: "slot \<Rightarrow> slot \<Rightarrow> level01 \<Rightarrow> level01" where
  "recount old nxt a =
     (let a1 = (if old = 1 then a\<lparr>bm_partial := sub64 (bm_partial a) 1\<rparr>
                else if old = 3 then a\<lparr>bm_unalloc := sub64 (bm_unalloc a) 1\<rparr> else a)
      in if nxt = 1 then a1\<lparr>bm_partial := add64 (bm_partial a1) 1\<rparr>
         else if nxt = 3 then a1\<lparr>bm_unalloc := add64 (bm_unalloc a1) 1\<rparr> else a1)"

definition mark_l1_entry :: "nat \<Rightarrow> level01 \<Rightarrow> level01 option" where
  "mark_l1_entry e a =
     do { vs \<leftarrow> slotset (bm_l0 a) e;
          old \<leftarrow> l1_entry (bm_l1 a) e;
          let nxt = entry_state vs;
          if old = nxt then Some a
          else map_option (\<lambda>v. (recount old nxt a)\<lparr>bm_l1 := v\<rparr>) (put_l1_entry e nxt (bm_l1 a)) }"

fun mark_l1_entries :: "nat list \<Rightarrow> level01 \<Rightarrow> level01 option" where
  "mark_l1_entries [] a = Some a"
| "mark_l1_entries (e # es) a = do { a1 \<leftarrow> mark_l1_entry e a; mark_l1_entries es a1 }"

definition mark_l1_on_l0 :: "nat \<Rightarrow> nat \<Rightarrow> level01 \<Rightarrow> level01 option" where
  "mark_l1_on_l0 s e a = mark_l1_entries [p2align s 512 div 512..<p2roundup e 512 div 512] a"

definition mark_alloc_l1_l0 :: "nat \<Rightarrow> nat \<Rightarrow> level01 \<Rightarrow> level01 option" where
  "mark_alloc_l1_l0 s e a =
     do { a1 \<leftarrow> mark_alloc_l0 s e a; mark_l1_on_l0 (p2align s 512) (p2roundup e 512) a1 }"

definition mark_free_l1_l0 :: "nat \<Rightarrow> nat \<Rightarrow> level01 \<Rightarrow> level01 option" where
  "mark_free_l1_l0 s e a =
     do { a1 \<leftarrow> mark_free_l0 s e a; mark_l1_on_l0 (p2align s 512) (p2roundup e 512) a1 }"

definition free_l1 :: "u64 \<Rightarrow> u64 \<Rightarrow> level01 \<Rightarrow> (u64 \<times> level01) option" where
  "free_l1 off len a =
     (let g = bm_l0_gran a
      in if g = 0 then None
         else map_option (Pair len) (mark_free_l1_l0 (off div g) (p2roundup (add64 off len) g div g) a))"

definition level01_init :: "u64 \<Rightarrow> u64 \<Rightarrow> bool \<Rightarrow> level01 option" where
  "level01_init cap unit mark_as_free =
     (let g1 = mul64 unit 512; aligned = p2roundup cap (mul64 (mul64 g1 8) 32);
          fill = (if mark_as_free then - 1 else 0)
      in if unit = 0 \<or> g1 = 0 then None
         else
           let a = \<lparr>bm_l0 = replicate (aligned div unit div 64) fill, bm_l1 = replicate (aligned div g1 div 32) fill,
                    bm_l0_gran = unit, bm_l1_gran = g1, bm_partial = 0, bm_unalloc = 0\<rparr>
           in do { a1 \<leftarrow> (if mark_as_free then mark_alloc_l1_l0 (p2roundup cap unit div unit) (aligned div unit) a else Some a);
                   Some (a1\<lparr>bm_partial := 0, bm_unalloc := (if mark_as_free then length (bm_l1 a1) * 32 else 0)\<rparr>) })"

text \<open>The loops that look for a nonzero word; they stop at the first.\<close>

fun all_clear :: "nat list \<Rightarrow> slot list \<Rightarrow> bool option" where
  "all_clear [] v = Some True"
| "all_clear (i # is) v = (if i < length v then if v ! i \<noteq> 0 then Some False else all_clear is v else None)"

definition is_slot_fully_allocated :: "nat \<Rightarrow> level01 \<Rightarrow> bool option" where
  "is_slot_fully_allocated idx a = all_clear [idx * 8..<idx * 8 + 8] (bm_l0 a)"

fun empty_entries :: "nat list \<Rightarrow> level01 \<Rightarrow> bool option" where
  "empty_entries [] a = Some True"
| "empty_entries (i # is) a =
     do { f \<leftarrow> is_slot_fully_allocated i a; if \<not> f then Some False else empty_entries is a }"

definition is_empty_l1 :: "nat \<Rightarrow> nat \<Rightarrow> level01 \<Rightarrow> bool option" where
  "is_empty_l1 s e a = empty_entries [s..<e] a"

function is_empty_l0 :: "nat \<Rightarrow> nat \<Rightarrow> slot list \<Rightarrow> bool option" where
  "is_empty_l0 p e v =
     (if p < e
      then if p div 64 < length v
           then if p mod 64 = 0 \<and> p + 64 \<le> e
                then if v ! (p div 64) \<noteq> 0 then Some False else is_empty_l0 (p + 64) e v
                else if bit (v ! (p div 64)) (p mod 64) then Some False else is_empty_l0 (p + 1) e v
           else None
      else Some True)"
  by auto
termination by (relation "measure (\<lambda>(p, e, v). e - p)") auto

declare is_empty_l0.simps [simp del]

section \<open>Handing out blocks\<close>

type_synonym extents = "(u64 \<times> u32) list"

text \<open>\<open>_fragment_and_emplace\<close>: the loop over the chunks, then the attempt to extend the last extent.\<close>

function emplace_chunks :: "u64 \<Rightarrow> u64 \<Rightarrow> u64 \<Rightarrow> u64 \<Rightarrow> u64 \<Rightarrow> extents \<Rightarrow> (u64 \<times> extents) option" where
  "emplace_chunks mx mn off len al res =
     (if len > 0
      then let chunk = (if mx > 0 \<and> len > mx then mx else len)
           in if mn > 0 \<and> chunk < mn then Some (al, res)
              else if chunk \<le> UINT32_MAX
                   then emplace_chunks mx mn (add64 off chunk) (len - chunk) (add64 al chunk) (res @ [(off, chunk)])
                   else None
      else Some (al, res))"
  by auto
termination by (relation "measure (\<lambda>(mx, mn, off, len, al, res). len)") (auto split: if_splits)

declare emplace_chunks.simps [simp del]

definition fragment_and_emplace :: "u64 \<Rightarrow> u64 \<Rightarrow> u64 \<Rightarrow> u64 \<Rightarrow> u64 \<Rightarrow> extents \<Rightarrow> (u64 \<times> extents) option" where
  "fragment_and_emplace mx mn off len al res =
     (if res \<noteq> [] \<and> add64 (fst (List.last res)) (snd (List.last res)) = off
      then let (lo, ll) = List.last res; merged = add64 ll len
           in if mx = 0 \<or> merged \<le> mx then Some (add64 al len, butlast res @ [(lo, merged mod 2 ^ 32)])
              else if ll < mx
              then let tk = mx - ll
                   in emplace_chunks mx mn (add64 off tk) (sub64 len tk) (add64 al tk) (butlast res @ [(lo, (ll + tk) mod 2 ^ 32)])
              else emplace_chunks mx mn off len al res
      else emplace_chunks mx mn off len al res)"

function run_end :: "nat \<Rightarrow> nat \<Rightarrow> nat \<Rightarrow> nat \<Rightarrow> slot list \<Rightarrow> nat option" where
  "run_end need rs re e v =
     (if re - rs < need \<and> re < e
      then if re div 64 < length v
           then if find_next_set_bit (v ! (re div 64)) (re mod 64) = int (re mod 64) then run_end need rs (re + 1) e v
                else Some re
           else None
      else Some re)"
  by auto
termination by (relation "measure (\<lambda>(need, rs, re, e, v). e - re)") auto

declare run_end.simps [simp del]

text \<open>The loop of \<open>_allocate_l0\<close>; the first component of the result is what is still needed.\<close>

partial_function (option) allocate_l0_loop ::
  "u64 \<Rightarrow> u64 \<Rightarrow> nat \<Rightarrow> nat \<Rightarrow> nat \<Rightarrow> u64 \<Rightarrow> extents \<Rightarrow> level01 \<Rightarrow> (nat \<times> u64 \<times> extents \<times> level01) option" where
  "allocate_l0_loop mx mn need p e al res a =
     (if p < e \<and> need > 0
      then if p div 64 < length (bm_l0 a)
           then let w = bm_l0 a ! (p div 64); b = find_next_set_bit w (p mod 64)
                in if w = 0 \<or> b < 0 then allocate_l0_loop mx mn need (p + (64 - p mod 64)) e al res a
                   else
                     let rs = p div 64 * 64 + nat b
                     in do { re \<leftarrow> run_end need rs rs e (bm_l0 a);
                             let units = min (re - rs) need;
                             (al1, res1) \<leftarrow> fragment_and_emplace mx mn (mul64 rs (bm_l0_gran a)) (mul64 units (bm_l0_gran a)) al res;
                             a1 \<leftarrow> mark_alloc_l0 rs (rs + units) a;
                             allocate_l0_loop mx mn (need - units) (rs + units) e al1 res1 a1 }
           else None
      else Some (need, al, res, a))"

declare allocate_l0_loop.simps [code]

definition allocate_l0 ::
  "u64 \<Rightarrow> u64 \<Rightarrow> u64 \<Rightarrow> nat \<Rightarrow> nat \<Rightarrow> u64 \<Rightarrow> extents \<Rightarrow> level01 \<Rightarrow> (int \<times> u64 \<times> extents \<times> level01) option" where
  "allocate_l0 len mn mx s e al res a =
     (if bm_l0_gran a = 0 then None
      else do { (need, al1, res1, a1) \<leftarrow> allocate_l0_loop mx mn (len div bm_l0_gran a) s e al res a;
                Some (if need \<noteq> 0 then - ENOSPC else 0, al1, res1, a1) })"

fun allocate_l1_loop ::
  "u64 \<Rightarrow> u64 \<Rightarrow> u64 \<Rightarrow> nat list \<Rightarrow> u64 \<Rightarrow> extents \<Rightarrow> level01 \<Rightarrow> (u64 \<times> extents \<times> level01) option" where
  "allocate_l1_loop len mn mx [] al res a = Some (al, res, a)"
| "allocate_l1_loop len mn mx (p # ps) al res a =
     (case l1_entry (bm_l1 a) p of
        None \<Rightarrow> Some (al, res, a)
      | Some ent \<Rightarrow>
          if ent = 0 then allocate_l1_loop len mn mx ps al res a
          else
            let rem = sub64 len al; whole = mul64 512 (bm_l0_gran a)
            in if rem = 0 then Some (al, res, a)
               else if ent = 3 \<and> rem \<ge> whole
               then do { (al1, res1) \<leftarrow> fragment_and_emplace mx mn (mul64 (p * 512) (bm_l0_gran a)) whole al res;
                         a1 \<leftarrow> mark_alloc_l1_l0 (p * 512) (p * 512 + 512) a;
                         allocate_l1_loop len mn mx ps al1 res1 a1 }
               else do { (r, al1, res1, a1) \<leftarrow> allocate_l0 rem mn mx (p * 512) (p * 512 + 512) al res a;
                         a2 \<leftarrow> mark_l1_on_l0 (p * 512) (p * 512 + 512) a1;
                         allocate_l1_loop len mn mx ps al1 res1 a2 })"

definition allocate_l1 ::
  "u64 \<Rightarrow> u64 \<Rightarrow> u64 \<Rightarrow> nat \<Rightarrow> nat \<Rightarrow> u64 \<Rightarrow> extents \<Rightarrow> level01 \<Rightarrow> (int \<times> u64 \<times> extents \<times> level01) option" where
  "allocate_l1 len mn mx s e al res a =
     do { (al1, res1, a1) \<leftarrow> allocate_l1_loop len mn mx [s..<e] al res a;
          Some (if al1 \<ge> len then 0 else - ENOSPC, al1, res1, a1) }"

section \<open>Level 2\<close>

record bitmap =
  bm_levels :: level01
  bm_l2_gran :: u64
  bm_available :: u64
  bm_last_pos :: nat
  bm_l2 :: "slot list"
  bm_device_size :: u64

function mark_l2 :: "bool \<Rightarrow> nat \<Rightarrow> nat \<Rightarrow> slot list \<Rightarrow> slot list option" where
  "mark_l2 b p e v =
     (if p < e
      then (case upd_slot (put_slot_bit b (p mod 64)) (p div 64) v of
              None \<Rightarrow> None | Some v1 \<Rightarrow> mark_l2 b (p + 1) e v1)
      else Some v)"
  by auto
termination by (relation "measure (\<lambda>(b, p, e, v). e - p)") auto

declare mark_l2.simps [simp del]

definition mark_l2_free :: "nat \<Rightarrow> nat \<Rightarrow> bitmap \<Rightarrow> bitmap option" where
  "mark_l2_free p e s = map_option (\<lambda>v. s\<lparr>bm_l2 := v\<rparr>) (mark_l2 True p e (bm_l2 s))"

definition mark_l2_allocated :: "nat \<Rightarrow> nat \<Rightarrow> bitmap \<Rightarrow> bitmap option" where
  "mark_l2_allocated p e s = map_option (\<lambda>v. s\<lparr>bm_l2 := v\<rparr>) (mark_l2 False p e (bm_l2 s))"

text \<open>Whether one of the entries of level 1 is not full; the loop stops at the first.\<close>

fun any_entry :: "nat list \<Rightarrow> slot list \<Rightarrow> bool option" where
  "any_entry [] v = Some False"
| "any_entry (i # is) v = do { ent \<leftarrow> l1_entry v i; if ent \<noteq> 0 then Some True else any_entry is v }"

fun mark_l2_entries :: "nat list \<Rightarrow> slot list \<Rightarrow> slot list \<Rightarrow> slot list option" where
  "mark_l2_entries [] l1 v = Some v"
| "mark_l2_entries (p # ps) l1 v =
     do { free \<leftarrow> any_entry [p * 32 * 8..<p * 32 * 8 + 256] l1;
          v1 \<leftarrow> upd_slot (put_slot_bit free (p mod 64)) (p div 64) v;
          mark_l2_entries ps l1 v1 }"

definition mark_l2_on_l1 :: "nat \<Rightarrow> nat \<Rightarrow> bitmap \<Rightarrow> bitmap option" where
  "mark_l2_on_l1 p e s =
     map_option (\<lambda>v. s\<lparr>bm_l2 := v\<rparr>) (mark_l2_entries [p..<e] (bm_l1 (bm_levels s)) (bm_l2 s))"

definition level02_init :: "u64 \<Rightarrow> u64 \<Rightarrow> bool \<Rightarrow> bitmap option" where
  "level02_init cap unit mark_as_free =
     do { a \<leftarrow> level01_init cap unit mark_as_free;
          let g2 = mul64 (mul64 (bm_l1_gran a) 32) 8;
          let aligned = p2roundup cap (mul64 g2 64);
          if g2 = 0 then None
          else
            let s = \<lparr>bm_levels = a, bm_l2_gran = g2, bm_available = (if mark_as_free then p2align cap unit else 0),
                     bm_last_pos = 0, bm_l2 = replicate (aligned div g2 div 64) (if mark_as_free then - 1 else 0),
                     bm_device_size = cap\<rparr>
            in if mark_as_free then Some s
               else mark_l2_allocated (p2roundup cap g2 div g2) (aligned div g2) s }"

definition bm_mark_free :: "u64 \<Rightarrow> u64 \<Rightarrow> bitmap \<Rightarrow> bitmap option" where
  "bm_mark_free off len s =
     do { (r, a) \<leftarrow> free_l1 off len (bm_levels s);
          let g2 = bm_l2_gran s;
          if g2 = 0 then None
          else do { s1 \<leftarrow> mark_l2_free (off div g2) (p2roundup (add64 off len) g2 div g2) (s\<lparr>bm_levels := a\<rparr>);
                    Some (s1\<lparr>bm_available := add64 (bm_available s1) len\<rparr>) } }"

definition bm_mark_allocated :: "u64 \<Rightarrow> u64 \<Rightarrow> bitmap \<Rightarrow> bitmap option" where
  "bm_mark_allocated off len s =
     (let g = bm_l0_gran (bm_levels s); g2 = bm_l2_gran s
      in if g = 0 \<or> g2 = 0 then None
         else do { a \<leftarrow> mark_alloc_l1_l0 (off div g) (p2roundup (add64 off len) g div g) (bm_levels s);
                   s1 \<leftarrow> mark_l2_on_l1 (off div g2) (p2roundup (add64 off len) g2 div g2) (s\<lparr>bm_levels := a\<rparr>);
                   if bm_available s1 \<ge> len then Some (s1\<lparr>bm_available := bm_available s1 - len\<rparr>) else None })"

fun free_l2_loop :: "(u64 \<times> u64) list \<Rightarrow> u64 \<Rightarrow> bitmap \<Rightarrow> (u64 \<times> bitmap) option" where
  "free_l2_loop [] released s = Some (released, s)"
| "free_l2_loop ((off, len) # rs) released s =
     do { (r, a) \<leftarrow> free_l1 off len (bm_levels s);
          let g2 = bm_l2_gran s;
          if g2 = 0 then None
          else do { s1 \<leftarrow> mark_l2_free (off div g2) (p2roundup (add64 off len) g2 div g2) (s\<lparr>bm_levels := a\<rparr>);
                    free_l2_loop rs (add64 released r) s1 } }"

definition free_l2 :: "interval_set \<Rightarrow> bitmap \<Rightarrow> bitmap option" where
  "free_l2 rr s =
     do { (released, s1) \<leftarrow> free_l2_loop (ivals rr) 0 s; Some (s1\<lparr>bm_available := add64 (bm_available s1) released\<rparr>) }"

text \<open>
  The loop over the bits of one word of level 2. The bound \<open>scan_end\<close> is a position, and the bit is
  compared with it; a shift by 64 or more is undefined. The flag says that the request is satisfied.
\<close>

partial_function (option) allocate_l2_bits ::
  "u64 \<Rightarrow> u64 \<Rightarrow> u64 \<Rightarrow> nat \<Rightarrow> nat \<Rightarrow> slot \<Rightarrow> int \<Rightarrow> u64 \<Rightarrow> extents \<Rightarrow> bitmap \<Rightarrow> (bool \<times> u64 \<times> extents \<times> bitmap) option" where
  "allocate_l2_bits want mn mx idx scan_end val b al res s =
     (if b \<ge> 0 \<and> nat b < scan_end
      then let pos = idx div 64 * 64 + nat b; l1s = pos * 8 * 32; l1e = l1s + 8 * 32
           in do { (r, al1, res1, a) \<leftarrow> allocate_l1 want mn mx l1s l1e al res (bm_levels s);
                   emp \<leftarrow> is_empty_l1 l1s l1e a;
                   v \<leftarrow> (if emp then if b < 64 then upd_slot (put_slot_bit False (nat b)) (idx div 64) (bm_l2 s) else None
                        else Some (bm_l2 s));
                   let s1 = s\<lparr>bm_levels := a, bm_l2 := v\<rparr>;
                   if al1 \<ge> want
                   then Some (True, al1, res1, s1\<lparr>bm_last_pos := pos, bm_available := sub64 (bm_available s1) al1\<rparr>)
                   else allocate_l2_bits want mn mx idx scan_end val
                          (if val = - 1 then if nat b + 1 < scan_end then b + 1 else - 1
                           else find_next_set_bit (v ! (idx div 64)) (nat b + 1)) al1 res1 s1 }
      else Some (False, al, res, s))"

partial_function (option) allocate_l2_scan ::
  "u64 \<Rightarrow> u64 \<Rightarrow> u64 \<Rightarrow> nat \<Rightarrow> nat \<Rightarrow> u64 \<Rightarrow> extents \<Rightarrow> bitmap \<Rightarrow> (bool \<times> u64 \<times> extents \<times> bitmap) option" where
  "allocate_l2_scan want mn mx idx en al res s =
     (if idx < en
      then if idx div 64 < length (bm_l2 s)
           then let val = bm_l2 s ! (idx div 64)
                in if val = 0 then allocate_l2_scan want mn mx (idx + 64) en al res s
                   else
                     let scan_end = min (idx div 64 * 64 + 64) en;
                         b = (if val = - 1 then 0 else find_next_set_bit val (idx mod 64))
                     in do { (found, al1, res1, s1) \<leftarrow> allocate_l2_bits want mn mx idx scan_end val b al res s;
                             if found then Some (True, al1, res1, s1)
                             else allocate_l2_scan want mn mx scan_end en al1 res1 s1 }
           else None
      else Some (False, al, res, s))"

declare allocate_l2_bits.simps [code] allocate_l2_scan.simps [code]

definition l2_max_length :: "u64 \<Rightarrow> u64 \<Rightarrow> u64" where
  "l2_max_length mn mx =
     (let m = p2align (if mx = 0 \<or> mx \<ge> 2 ^ 31 then 2 ^ 31 else mx) mn in if m < mn then mn else m)"

definition l2_start :: "int \<Rightarrow> bitmap \<Rightarrow> nat" where
  "l2_start hint s =
     (let pos = (if hint > 0 then p2align (nat hint div bm_l2_gran s) 64 else bm_last_pos s)
      in if pos \<ge> length (bm_l2 s) * 64 then 0 else pos)"

definition allocate_l2 :: "u64 \<Rightarrow> u64 \<Rightarrow> u64 \<Rightarrow> int \<Rightarrow> extents \<Rightarrow> bitmap \<Rightarrow> (int \<times> u64 \<times> extents \<times> bitmap) option" where
  "allocate_l2 want mn mx hint res s =
     (if hint > 0 \<and> bm_l2_gran s = 0 then None
      else
        let m = l2_max_length mn mx; pos = l2_start hint s
        in do { (found, al1, res1, s1) \<leftarrow> allocate_l2_scan want mn m pos (length (bm_l2 s) * 64) 0 res s;
                if found then Some (0, al1, res1, s1)
                else do { (found, al2, res2, s2) \<leftarrow> allocate_l2_scan want mn m 0 pos al1 res1 s1;
                          if found then Some (0, al2, res2, s2)
                          else if al2 > 0 then Some (0, al2, res2, s2\<lparr>bm_available := sub64 (bm_available s2) al2\<rparr>)
                          else Some (- ENOSPC, al2, res2, s2) } })"

section \<open>Enumeration\<close>

text \<open>The free runs of one word of level 0: the pairs of their first bit and the bit after their last.\<close>

function run_stop :: "slot \<Rightarrow> nat \<Rightarrow> nat" where
  "run_stop w b = (if b + 1 < 64 \<and> bit w (b + 1) then run_stop w (b + 1) else b + 1)"
  by auto
termination by (relation "measure (\<lambda>(w, b). 64 - b)") auto

declare run_stop.simps [simp del]

lemma run_stop_greater: "b < run_stop w b"
  by (induction w b rule: run_stop.induct) (subst run_stop.simps, auto)

lemma find_next_set_bit_range: "find_next_set_bit w b = - 1 \<or> (int b \<le> find_next_set_bit w b \<and> b < 64)"
  by (auto simp: find_next_set_bit_def Let_def)

function slot_runs :: "slot \<Rightarrow> nat \<Rightarrow> (nat \<times> nat) list" where
  "slot_runs w b =
     (let rs = find_next_set_bit w b
      in if rs \<ge> 0 then (nat rs, run_stop w (nat rs)) # slot_runs w (run_stop w (nat rs)) else [])"
  by auto
termination
proof (relation "measure (\<lambda>(w, b). 64 - b)")
  fix w :: slot and b rs
  assume "rs = find_next_set_bit w b" "rs \<ge> 0"
  then show "((w, run_stop w (nat rs)), w, b) \<in> measure (\<lambda>(w, b). 64 - b)"
    using find_next_set_bit_range [of w b] run_stop_greater [of "nat rs" w] by auto
qed simp

declare slot_runs.simps [simp del]

definition entry_free :: "level01 \<Rightarrow> nat \<Rightarrow> (u64 \<times> u64) list option" where
  "entry_free a eidx =
     do { ent \<leftarrow> l1_entry (bm_l1 a) eidx;
          if ent = 0 then Some []
          else if ent = 3 then Some [(mul64 eidx (bm_l1_gran a), bm_l1_gran a)]
          else do { vs \<leftarrow> slotset (bm_l0 a) eidx;
                    Some (concat (map (\<lambda>(i, w). map (\<lambda>(b, e). (mul64 (eidx * 512 + i * 64 + b) (bm_l0_gran a),
                      mul64 (e - b) (bm_l0_gran a))) (slot_runs w 0)) (enumerate 0 vs))) } }"

fun entries_free :: "level01 \<Rightarrow> nat list \<Rightarrow> (u64 \<times> u64) list option" where
  "entries_free a [] = Some []"
| "entries_free a (e # es) = do { xs \<leftarrow> entry_free a e; ys \<leftarrow> entries_free a es; Some (xs @ ys) }"

definition bm_foreach :: "bitmap \<Rightarrow> (u64 \<times> u64) list option" where
  "bm_foreach s = entries_free (bm_levels s) [0..<length (bm_l1 (bm_levels s)) * 32]"

section \<open>Claiming free neighbours\<close>

text \<open>
  The loop that clears set bits downwards in a word: the first \<open>n\<close> bits are looked at, from the top. The
  result is the number of bits below and including the first clear one.
\<close>

fun clear_down :: "nat \<Rightarrow> slot \<Rightarrow> nat \<times> slot" where
  "clear_down 0 w = (0, w)"
| "clear_down (Suc n) w = (if bit w n then clear_down n (put_slot_bit False n w) else (Suc n, w))"

fun words_down :: "nat \<Rightarrow> slot list \<Rightarrow> nat \<times> slot list" where
  "words_down 0 v = (0, v)"
| "words_down (Suc i) v = (if v ! i = - 1 then words_down i (v[i := 0]) else (Suc i, v))"

text \<open>At position 0 the code shifts by a negative number, which is undefined.\<close>

definition claim_left_l0 :: "nat \<Rightarrow> slot list \<Rightarrow> (nat \<times> slot list) option" where
  "claim_left_l0 start v =
     (if start = 0 \<or> (start - 1) div 64 \<ge> length v then None
      else
        let idx = (start - 1) div 64; (k, w) = clear_down ((start - 1) mod 64 + 1) (v ! idx); v1 = v[idx := w]
        in if k \<noteq> 0 then Some (idx * 64 + k, v1)
           else let (j, v2) = words_down idx v1
                in if j \<noteq> 0 \<and> v2 ! (j - 1) \<noteq> - 1 \<and> v2 ! (j - 1) \<noteq> 0
                   then let (k2, w2) = clear_down 64 (v2 ! (j - 1)) in Some ((j - 1) * 64 + k2, v2[j - 1 := w2])
                   else Some (j * 64, v2))"

function clear_up :: "nat \<Rightarrow> slot \<Rightarrow> nat \<times> slot" where
  "clear_up i w = (if i < 64 \<and> bit w i then clear_up (i + 1) (put_slot_bit False i w) else (i, w))"
  by auto
termination by (relation "measure (\<lambda>(i, w). 64 - i)") auto

function words_up :: "nat \<Rightarrow> slot list \<Rightarrow> nat \<times> slot list" where
  "words_up i v = (if i < length v \<and> v ! i = - 1 then words_up (i + 1) (v[i := 0]) else (i, v))"
  by auto
termination by (relation "measure (\<lambda>(i, v). length v - i)") auto

declare clear_up.simps [simp del] words_up.simps [simp del]

definition claim_right_l0 :: "nat \<Rightarrow> slot list \<Rightarrow> nat \<times> slot list" where
  "claim_right_l0 start v =
     (let idx = start div 64
      in if idx \<ge> length v then (start, v)
         else
           let (k, w) = clear_up (start mod 64) (v ! idx); v1 = v[idx := w]
           in if k < 64 then (idx * 64 + k, v1)
              else let (j, v2) = words_up (idx + 1) v1
                   in if j < length v2 \<and> v2 ! j \<noteq> - 1 \<and> v2 ! j \<noteq> 0
                      then let (k2, w2) = clear_up 0 (v2 ! j) in (j * 64 + k2, v2[j := w2])
                      else (j * 64, v2))"

definition claim_free_to_left_l1 :: "u64 \<Rightarrow> level01 \<Rightarrow> (u64 \<times> level01) option" where
  "claim_free_to_left_l1 offs a =
     (let g = bm_l0_gran a
      in if g = 0 then None
         else do { (s, v) \<leftarrow> claim_left_l0 (offs div g) (bm_l0 a);
                   let a1 = a\<lparr>bm_l0 := v\<rparr>;
                   if s < offs div g
                   then map_option (Pair (mul64 g (offs div g - s))) (mark_l1_on_l0 (p2align s 512) (p2roundup (offs div g) 512) a1)
                   else Some (0, a1) })"

definition claim_free_to_right_l1 :: "u64 \<Rightarrow> level01 \<Rightarrow> (u64 \<times> level01) option" where
  "claim_free_to_right_l1 offs a =
     (let g = bm_l0_gran a
      in if g = 0 then None
         else let (e, v) = claim_right_l0 (offs div g) (bm_l0 a); a1 = a\<lparr>bm_l0 := v\<rparr>
              in if offs div g < e
                 then map_option (Pair (mul64 g (e - offs div g))) (mark_l1_on_l0 (p2align (offs div g) 512) (p2roundup e 512) a1)
                 else Some (0, a1))"

definition claim_free_to_left :: "u64 \<Rightarrow> bitmap \<Rightarrow> (u64 \<times> bitmap) option" where
  "claim_free_to_left off s =
     do { (al, a) \<leftarrow> claim_free_to_left_l1 off (bm_levels s);
          if bm_available s < al \<or> bm_l2_gran s = 0 then None
          else
            let s1 = s\<lparr>bm_levels := a, bm_available := bm_available s - al\<rparr>
            in map_option (Pair al) (mark_l2_on_l1 (sub64 off al div bm_l2_gran s) (p2roundup off (bm_l2_gran s) div bm_l2_gran s) s1) }"

definition claim_free_to_right :: "u64 \<Rightarrow> bitmap \<Rightarrow> (u64 \<times> bitmap) option" where
  "claim_free_to_right off s =
     do { (al, a) \<leftarrow> claim_free_to_right_l1 off (bm_levels s);
          if bm_available s < al \<or> bm_l2_gran s = 0 then None
          else
            let s1 = s\<lparr>bm_levels := a, bm_available := bm_available s - al\<rparr>
            in map_option (Pair al) (mark_l2_on_l1 (off div bm_l2_gran s) (p2roundup (add64 off al) (bm_l2_gran s) div bm_l2_gran s) s1) }"

section \<open>Statistics\<close>

text \<open>\<open>collect_stats\<close>: the loop over the bits of one word, with the length of the current run and the bins.\<close>

partial_function (option) stats_slot :: "slot \<Rightarrow> nat \<Rightarrow> u64 \<Rightarrow> (nat \<Rightarrow> u64) \<Rightarrow> (u64 \<times> (nat \<Rightarrow> u64)) option" where
  "stats_slot w pos free_seq bins =
     (let pos1 = find_next_set_bit w pos
      in if pos1 = int pos
         then if pos + 1 < 64 then stats_slot w (pos + 1) (add64 free_seq 1) bins else Some (add64 free_seq 1, bins)
         else
           let bins1 = (if free_seq \<noteq> 0 then bins(cbits free_seq - 1 := add64 (bins (cbits free_seq - 1)) 1) else bins);
               free1 = (if pos1 \<ge> 0 then 1 else 0)
           in if nat (pos1 + 1) < 64 then stats_slot w (nat (pos1 + 1)) free1 bins1 else Some (free1, bins1))"

declare stats_slot.simps [code]

definition stats_word :: "slot \<Rightarrow> u64 \<times> (nat \<Rightarrow> u64) \<Rightarrow> (u64 \<times> (nat \<Rightarrow> u64)) option" where
  "stats_word w = (\<lambda>(free_seq, bins).
     if w = - 1 then Some (add64 free_seq 64, bins)
     else if w \<noteq> 0 then stats_slot w 0 free_seq bins
     else if free_seq \<noteq> 0 then Some (0, bins(cbits free_seq - 1 := add64 (bins (cbits free_seq - 1)) 1))
     else Some (free_seq, bins))"

fun stats_words :: "slot list \<Rightarrow> u64 \<times> (nat \<Rightarrow> u64) \<Rightarrow> (u64 \<times> (nat \<Rightarrow> u64)) option" where
  "stats_words [] st = Some st"
| "stats_words (w # ws) st = do { st1 \<leftarrow> stats_word w st; stats_words ws st1 }"

definition collect_stats :: "(nat \<Rightarrow> u64) \<Rightarrow> bitmap \<Rightarrow> (nat \<Rightarrow> u64) option" where
  "collect_stats bins s =
     do { (free_seq, bins1) \<leftarrow> stats_words (bm_l0 (bm_levels s)) (0, bins);
          Some (if free_seq \<noteq> 0 then bins1(cbits free_seq - 1 := add64 (bins1 (cbits free_seq - 1)) 1) else bins1) }"

section \<open>The allocator\<close>

definition bitmap_new :: "u64 \<Rightarrow> u64 \<Rightarrow> bitmap option" where
  "bitmap_new cap unit = level02_init cap unit False"

definition bm_allocate :: "u64 \<Rightarrow> u64 \<Rightarrow> u64 \<Rightarrow> int \<Rightarrow> extents \<Rightarrow> bitmap \<Rightarrow> (int \<times> extents \<times> bitmap) option" where
  "bm_allocate want unit max_alloc hint res s =
     (if isp2 unit \<and> want mod unit = 0 \<and> unit \<ge> bm_l0_gran (bm_levels s)
      then do { (r, al, res1, s1) \<leftarrow> allocate_l2 want unit max_alloc hint res s;
                Some (if r = 0 \<and> al > 0 then int al else - ENOSPC, res1, s1) }
      else None)"

definition bm_release :: "interval_set \<Rightarrow> bitmap \<Rightarrow> bitmap option" where
  "bm_release rr s =
     (if \<forall>(off, len) \<in> set (ivals rr). add64 off len \<le> bm_device_size s then free_l2 rr s else None)"

text \<open>\<open>Allocator::release(const PExtentVector &)\<close>.\<close>

definition bm_release_vec :: "extents \<Rightarrow> bitmap \<Rightarrow> bitmap option" where
  "bm_release_vec exts s = bm_release (fold (\<lambda>(off, len). iset_insert off len) exts iset_empty) s"

definition bm_get_free :: "bitmap \<Rightarrow> u64" where
  "bm_get_free s = bm_available s"

definition bm_get_fragmentation :: "bitmap \<Rightarrow> rat" where
  "bm_get_fragmentation s =
     (let all = add64 (bm_unalloc (bm_levels s)) (bm_partial (bm_levels s))
      in if all = 0 then 0 else f64 (f64 (of_nat (bm_partial (bm_levels s))) / f64 (of_nat all)))"

definition bm_init_add_free :: "u64 \<Rightarrow> u64 \<Rightarrow> bitmap \<Rightarrow> bitmap option" where
  "bm_init_add_free off len s =
     (if len = 0 then Some s
      else
        let g = bm_l0_gran (bm_levels s); off1 = p2roundup off g; len1 = p2align (sub64 (add64 off len) off1) g
        in if len1 = 0 then Some s
           else if add64 off1 len1 \<le> bm_device_size s then bm_mark_free off1 len1 s else None)"

definition bm_init_rm_free :: "u64 \<Rightarrow> u64 \<Rightarrow> bitmap \<Rightarrow> bitmap option" where
  "bm_init_rm_free off len s =
     (if len = 0 then Some s
      else
        let g = bm_l0_gran (bm_levels s); off1 = p2roundup off g; len1 = p2align (sub64 (add64 off len) off1) g
        in if len1 = 0 then Some s
           else if add64 off1 len1 \<le> bm_device_size s then bm_mark_allocated off1 len1 s else None)"

definition bm_shutdown :: "bitmap \<Rightarrow> bitmap" where
  "bm_shutdown s = s\<lparr>bm_last_pos := 0, bm_available := 0\<rparr>"

end
