(* ===== verification/Bitmap_Levels.thy ===== *)
theory Bitmap_Levels
  imports Bitmap_Allocator
begin

text \<open>
  The three levels of the bitmap allocator as sets: what the marking loops do to the set of free blocks, and
  that level 1 and its counters follow level 0.
\<close>

section \<open>Vectors as sets of positions\<close>

definition vset :: "slot list \<Rightarrow> nat set" where
  "vset v = {p. p < 64 * length v \<and> bit (v ! (p div 64)) (p mod 64)}"

definition put_set :: "bool \<Rightarrow> nat set \<Rightarrow> nat set \<Rightarrow> nat set" where
  "put_set b A S = (if b then S \<union> A else S - A)"

lemma put_set_simps [simp]: "put_set b {} S = S" "put_set b A (put_set b B S) = put_set b (A \<union> B) S"
  by (auto simp: put_set_def)

lemma bit_put_slot_bit: "i < 64 \<Longrightarrow> j < 64 \<Longrightarrow> bit (put_slot_bit b i w) j = (if j = i then b else bit w j)"
  by (auto simp: put_slot_bit_def bit_simps)

lemma finite_vset [simp]: "finite (vset v)"
  by (simp add: vset_def)

lemma vset_update:
  assumes "i < length v" and "\<And>j. j < 64 \<Longrightarrow> bit w j = (if j \<in> J then b else bit (v ! i) j)"
  shows "vset (v[i := w]) = put_set b {p. p div 64 = i \<and> p mod 64 \<in> J} (vset v)"
proof -
  have "p < 64 * length v" if "p div 64 = i" for p using that assms(1) by (simp add: less_mult_imp_div_less div_less_iff_less_mult ac_simps)
  then show ?thesis using assms by (auto simp: vset_def put_set_def nth_list_update split: if_splits)
qed

lemma upd_bit:
  assumes "p < 64 * length v"
  shows "\<exists>v'. upd_slot (put_slot_bit b (p mod 64)) (p div 64) v = Some v' \<and> length v' = length v \<and> vset v' = put_set b {p} (vset v)"
proof -
  have i: "p div 64 < length v" using assms by (simp add: div_less_iff_less_mult ac_simps)
  have "{q. q div 64 = p div 64 \<and> q mod 64 \<in> {p mod 64}} = {p}" by (auto dest: mod_div_decomp) (metis div_mult_mod_eq)
  then show ?thesis
    using vset_update [OF i, of "put_slot_bit b (p mod 64) (v ! (p div 64))" "{p mod 64}" b] i
    by (simp add: upd_slot_def bit_put_slot_bit)
qed

lemma upd_word:
  assumes "p + 64 \<le> 64 * length v" and "p mod 64 = 0"
  shows "\<exists>v'. upd_slot (\<lambda>w. if b then - 1 else 0) (p div 64) v = Some v' \<and> length v' = length v \<and>
    vset v' = put_set b {p..<p + 64} (vset v)"
proof -
  obtain k where k: "p = 64 * k" using assms(2) by (auto simp: mod_eq_0_iff_dvd elim: dvdE)
  have i: "p div 64 < length v" using assms(1) by (simp add: k)
  have "{q. q div 64 = p div 64 \<and> q mod 64 \<in> {..<64}} = {p..<p + 64}" by (auto simp: k)
  then show ?thesis
    using vset_update [OF i, of "if b then - 1 else 0" "{..<64}" b] i by (simp add: upd_slot_def)
qed

lemma mark_head_ok:
  "p \<le> e \<Longrightarrow> e \<le> 64 * length v \<Longrightarrow>
   \<exists>q v'. mark_head b p e v = Some (q, v') \<and> p \<le> q \<and> q \<le> e \<and> (q = e \<or> q mod 64 = 0) \<and> length v' = length v \<and>
     vset v' = put_set b {p..<q} (vset v)"
proof (induction b p e v rule: mark_head.induct)
  case (1 b p e v)
  show ?case
  proof (cases "p < e \<and> p mod 64 \<noteq> 0")
    case True
    then obtain v1 where v1: "upd_slot (put_slot_bit b (p mod 64)) (p div 64) v = Some v1" "length v1 = length v"
      "vset v1 = put_set b {p} (vset v)" using upd_bit [of p v b] 1 by auto
    with 1(1) [OF True v1(1)] 1(2,3) True obtain q v' where "mark_head b (p + 1) e v1 = Some (q, v')" "p + 1 \<le> q" "q \<le> e"
      "q = e \<or> q mod 64 = 0" "length v' = length v" "vset v' = put_set b {p + 1..<q} (put_set b {p} (vset v))" by auto
    moreover have "{p + 1..<q} \<union> {p} = {p..<q}" using \<open>p + 1 \<le> q\<close> by auto
    ultimately show ?thesis using True v1(1) by (subst mark_head.simps) simp
  next
    case False
    then show ?thesis using 1 by (subst mark_head.simps) auto
  qed
qed

lemma mark_words_ok:
  "p \<le> e \<Longrightarrow> e \<le> 64 * length v \<Longrightarrow> p = e \<or> p mod 64 = 0 \<Longrightarrow>
   \<exists>q v'. mark_words b p e v = Some (q, v') \<and> p \<le> q \<and> q \<le> e \<and> length v' = length v \<and>
     vset v' = put_set b {p..<q} (vset v)"
proof (induction b p e v rule: mark_words.induct)
  case (1 b p e v)
  show ?case
  proof (cases "p + 64 \<le> e")
    case True
    then obtain v1 where v1: "upd_slot (\<lambda>w. if b then - 1 else 0) (p div 64) v = Some v1" "length v1 = length v"
      "vset v1 = put_set b {p..<p + 64} (vset v)" using upd_word [of p v b] 1 by auto
    moreover have "(p + 64) mod 64 = 0" using 1(4) True by auto
    ultimately obtain q v' where "mark_words b (p + 64) e v1 = Some (q, v')" "p + 64 \<le> q" "q \<le> e"
      "length v' = length v" "vset v' = put_set b {p + 64..<q} (put_set b {p..<p + 64} (vset v))"
      using 1(1) [OF True v1(1)] 1(2,3) True by auto
    moreover have "{p + 64..<q} \<union> {p..<p + 64} = {p..<q}" using \<open>p + 64 \<le> q\<close> by auto
    ultimately show ?thesis using True v1(1) by (subst mark_words.simps) simp
  next
    case False
    then show ?thesis using 1 by (subst mark_words.simps) auto
  qed
qed

lemma mark_tail_ok:
  "p \<le> e \<Longrightarrow> e \<le> 64 * length v \<Longrightarrow>
   \<exists>v'. mark_tail b p e v = Some v' \<and> length v' = length v \<and> vset v' = put_set b {p..<e} (vset v)"
proof (induction b p e v rule: mark_tail.induct)
  case (1 b p e v)
  show ?case
  proof (cases "p < e")
    case True
    then obtain v1 where v1: "upd_slot (put_slot_bit b (p mod 64)) (p div 64) v = Some v1" "length v1 = length v"
      "vset v1 = put_set b {p} (vset v)" using upd_bit [of p v b] 1 by auto
    with 1(1) [OF True v1(1)] 1(2,3) True obtain v' where "mark_tail b (p + 1) e v1 = Some v'"
      "length v' = length v" "vset v' = put_set b {p + 1..<e} (put_set b {p} (vset v))" by auto
    moreover have "{p + 1..<e} \<union> {p} = {p..<e}" using True by auto
    ultimately show ?thesis using True v1(1) by (subst mark_tail.simps) simp
  next
    case False
    then show ?thesis using 1 by (subst mark_tail.simps) auto
  qed
qed

lemma mark_l0_ok:
  assumes "p \<le> e" and "e \<le> 64 * length v"
  shows "\<exists>v'. mark_l0 b p e v = Some v' \<and> length v' = length v \<and> vset v' = put_set b {p..<e} (vset v)"
proof -
  obtain q v1 where 1: "mark_head b p e v = Some (q, v1)" "p \<le> q" "q \<le> e" "q = e \<or> q mod 64 = 0" "length v1 = length v"
      "vset v1 = put_set b {p..<q} (vset v)" using mark_head_ok [OF assms, of b] by (elim exE conjE)
  have "e \<le> 64 * length v1" using 1(5) assms(2) by simp
  from mark_words_ok [OF 1(3) this 1(4), of b] obtain r v2 where 2: "mark_words b q e v1 = Some (r, v2)" "q \<le> r" "r \<le> e" "length v2 = length v"
      "vset v2 = put_set b {q..<r} (vset v1)" unfolding 1(5) by (elim exE conjE)
  have "e \<le> 64 * length v2" using 2(4) assms(2) by simp
  from mark_tail_ok [OF 2(3) this, of b] obtain v3 where 3: "mark_tail b r e v2 = Some v3" "length v3 = length v" "vset v3 = put_set b {r..<e} (vset v2)" unfolding 2(4) by (elim exE conjE)
  have "{r..<e} \<union> ({q..<r} \<union> {p..<q}) = {p..<e}" using 1(2) 2(2,3) by auto
  then have "vset v3 = put_set b {p..<e} (vset v)" unfolding 3(3) 2(5) 1(6) by simp
  then show ?thesis using 1(1) 2(1) 3(1,2) by (simp add: mark_l0_def)
qed

lemma mark_l2_eq: "mark_l2 = mark_tail"
proof (intro ext)
  show "mark_l2 b p e v = mark_tail b p e v" for b p e v
    by (induction b p e v rule: mark_l2.induct) (subst mark_l2.simps, subst mark_tail.simps, auto split: option.split)
qed

section \<open>Entries of level 1\<close>

definition espan :: "nat \<Rightarrow> nat set" where
  "espan e = {512 * e..<512 * e + 512}"

definition espec :: "nat set \<Rightarrow> nat \<Rightarrow> slot" where
  "espec S e = (if espan e \<inter> S = {} then 0 else if espan e \<subseteq> S then 3 else 1)"

definition entry :: "slot list \<Rightarrow> nat \<Rightarrow> slot" where
  "entry v e = drop_bit (2 * (e mod 32)) (v ! (e div 32)) AND 3"

lemma espec_cases [simp]: "espec S e \<in> {0, 1, 3}"
  by (simp add: espec_def)

lemma three_mask: "(3 :: slot) = mask 2"
  by (simp add: mask_eq_exp_minus_1)

lemma put_entry_word:
  assumes "i < 32" and "j < 32" and "x AND 3 = x"
  shows "drop_bit (2 * j) ((w AND NOT (push_bit (2 * i) 3)) OR push_bit (2 * i) x) AND 3 =
    (if i = j then x else drop_bit (2 * j) w AND (3 :: slot))"
proof (rule bit_word_eqI)
  fix n
  assume n: "n < LENGTH(64)"
  have x: "bit x m \<Longrightarrow> m < 2" for m using assms(3) unfolding three_mask by (metis bit_and_iff bit_mask_iff)
  show "bit (drop_bit (2 * j) ((w AND NOT (push_bit (2 * i) 3)) OR push_bit (2 * i) x) AND 3) n =
    bit (if i = j then x else drop_bit (2 * j) w AND (3 :: slot)) n"
  proof (cases "n < 2")
    case True
    then have "\<not> (2 * i \<le> 2 * j + n \<and> 2 * j + n - 2 * i < 2)" if "i \<noteq> j" using that by auto
    then show ?thesis using True n assms(1,2) x unfolding three_mask
      by (auto simp: bit_simps split: if_splits)
  next
    case False
    then show ?thesis using x [of n] unfolding three_mask by (auto simp: bit_simps)
  qed
qed

lemma l1_entry_eq: "e < 32 * length v \<Longrightarrow> l1_entry v e = Some (entry v e)"
  by (simp add: l1_entry_def entry_def div_less_iff_less_mult ac_simps)

lemma put_l1_entry_ok:
  assumes "e < 32 * length v" and "x \<in> {0, 1, 3}"
  shows "\<exists>v'. put_l1_entry e x v = Some v' \<and> length v' = length v \<and>
    (\<forall>i < 32 * length v. entry v' i = (if i = e then x else entry v i))"
proof -
  have e: "e div 32 < length v" using assms(1) by (simp add: div_less_iff_less_mult ac_simps)
  have x: "x AND 3 = x" using assms(2) by auto
  have "entry (v[e div 32 := (v ! (e div 32) AND NOT (push_bit (2 * (e mod 32)) 3)) OR push_bit (2 * (e mod 32)) x]) i =
      (if i = e then x else entry v i)" for i
  proof (cases "i div 32 = e div 32")
    case True
    then have "i = e \<longleftrightarrow> e mod 32 = i mod 32" by (metis div_mult_mod_eq)
    then show ?thesis using True e put_entry_word [of "e mod 32" "i mod 32" x "v ! (e div 32)"] x by (simp add: entry_def)
  next
    case False
    then show ?thesis by (auto simp: entry_def)
  qed
  then show ?thesis using e by (simp add: put_l1_entry_def upd_slot_def)
qed

lemma or_eq_0: "(a OR b :: slot) = 0 \<longleftrightarrow> a = 0 \<and> b = 0"
  by (auto simp: bit_eq_iff bit_simps)

lemma and_eq_1: "(a AND b :: slot) = - 1 \<longleftrightarrow> a = - 1 \<and> b = - 1"
  by (auto simp: bit_eq_iff bit_simps)

lemma fold_or_0: "fold (OR) vs w = 0 \<longleftrightarrow> w = 0 \<and> (\<forall>x \<in> set vs. x = (0 :: slot))"
  by (induction vs arbitrary: w) (auto simp: or_eq_0)

lemma fold_and_1: "fold (AND) vs w = - 1 \<longleftrightarrow> w = - 1 \<and> (\<forall>x \<in> set vs. x = (- 1 :: slot))"
  by (induction vs arbitrary: w) (auto simp: and_eq_1)

lemma slot_eq_fill: "(w :: slot) = (if b then - 1 else 0) \<longleftrightarrow> (\<forall>j < 64. bit w j = b)"
  by (auto simp: bit_eq_iff)

lemma word_in_vset: "i < length v \<Longrightarrow> j < 64 \<Longrightarrow> 64 * i + j \<in> vset v \<longleftrightarrow> bit (v ! i) j"
  by (auto simp: vset_def)

lemma slotset_words:
  assumes "8 * e + 8 \<le> length v"
  shows "(\<forall>w \<in> set (take 8 (drop (8 * e) v)). w = (if b then - 1 else 0)) \<longleftrightarrow> (\<forall>p \<in> espan e. (p \<in> vset v) = b)"
proof -
  have "take 8 (drop (8 * e) v) = map (\<lambda>i. v ! (8 * e + i)) [0..<8]" using assms by (intro nth_equalityI) auto
  then have "set (take 8 (drop (8 * e) v)) = (\<lambda>i. v ! (8 * e + i)) ` {..<8}" by (simp add: lessThan_atLeast0 del: upt_rec_numeral)
  then have "(\<forall>w \<in> set (take 8 (drop (8 * e) v)). w = (if b then - 1 else 0)) \<longleftrightarrow>
      (\<forall>i < 8. \<forall>j < 64. bit (v ! (8 * e + i)) j = b)" unfolding slot_eq_fill by auto
  also have "\<dots> \<longleftrightarrow> (\<forall>i < 8. \<forall>j < 64. (64 * (8 * e + i) + j \<in> vset v) = b)"
  proof -
    have "(64 * (8 * e + i) + j \<in> vset v) = bit (v ! (8 * e + i)) j" if "i < 8" "j < 64" for i j
      using assms that by (intro word_in_vset) auto
    then show ?thesis by (simp del: distrib_left_numeral)
  qed
  also have "\<dots> \<longleftrightarrow> (\<forall>p \<in> espan e. (p \<in> vset v) = b)"
  proof (rule iffI; intro ballI allI impI)
    fix p assume all: "\<forall>i < 8. \<forall>j < 64. (64 * (8 * e + i) + j \<in> vset v) = b" and p: "p \<in> espan e"
    define i j where "i = p div 64 - 8 * e" and "j = p mod 64"
    have "8 * e \<le> p div 64" "p div 64 < 8 * e + 8" using p by (auto simp: espan_def)
    then have "8 * e + i = p div 64" "i < 8" "j < 64" by (auto simp: i_def j_def)
    then have "p = 64 * (8 * e + i) + j" "i < 8" "j < 64" by (simp_all only: j_def mult_div_mod_eq)
    with all show "(p \<in> vset v) = b" by auto
  next
    fix i j :: nat assume "\<forall>p \<in> espan e. (p \<in> vset v) = b" "i < 8" "j < 64"
    then show "(64 * (8 * e + i) + j \<in> vset v) = b" by (auto simp: espan_def)
  qed
  finally show ?thesis .
qed

lemma entry_state_ok:
  assumes "8 * e + 8 \<le> length v"
  shows "\<exists>vs. slotset v e = Some vs \<and> entry_state vs = espec (vset v) e"
  using slotset_words [OF assms, of False] slotset_words [OF assms, of True] assms
  by (auto simp: slotset_def entry_state_def espec_def fold_or_0 fold_and_1)

section \<open>Level 1 follows level 0\<close>

definition ecount :: "slot \<Rightarrow> slot list \<Rightarrow> nat" where
  "ecount k v = card {e. e < 32 * length v \<and> entry v e = k}"

definition l01_geo :: "level01 \<Rightarrow> bool" where
  "l01_geo a \<longleftrightarrow> length (bm_l0 a) = 256 * length (bm_l1 a) \<and> 8 dvd length (bm_l1 a) \<and> isp2 (bm_l0_gran a) \<and>
     bm_l1_gran a = 512 * bm_l0_gran a \<and> 64 * length (bm_l0 a) * bm_l0_gran a < 2 ^ 63"

definition l01_counts :: "level01 \<Rightarrow> bool" where
  "l01_counts a \<longleftrightarrow> bm_partial a = ecount 1 (bm_l1 a) \<and> bm_unalloc a = ecount 3 (bm_l1 a)"

definition l01_frame :: "level01 \<Rightarrow> level01 \<Rightarrow> bool" where
  "l01_frame a b \<longleftrightarrow> length (bm_l0 b) = length (bm_l0 a) \<and> length (bm_l1 b) = length (bm_l1 a) \<and>
     bm_l0_gran b = bm_l0_gran a \<and> bm_l1_gran b = bm_l1_gran a"

definition l1_agrees :: "nat set \<Rightarrow> level01 \<Rightarrow> bool" where
  "l1_agrees X a \<longleftrightarrow> (\<forall>e < 32 * length (bm_l1 a). e \<notin> X \<longrightarrow> entry (bm_l1 a) e = espec (vset (bm_l0 a)) e)"

definition l01_inv :: "level01 \<Rightarrow> bool" where
  "l01_inv a \<longleftrightarrow> l01_geo a \<and> l01_counts a \<and> l1_agrees {} a"

lemma l01_frame_refl [simp]: "l01_frame a a" and l01_frame_trans: "l01_frame a b \<Longrightarrow> l01_frame b c \<Longrightarrow> l01_frame a c"
  by (simp_all add: l01_frame_def)

lemma l01_frame_geo: "l01_frame a b \<Longrightarrow> l01_geo b = l01_geo a"
  by (simp add: l01_frame_def l01_geo_def)

lemma l01_geoD:
  assumes "l01_geo a"
  shows "0 < bm_l0_gran a" and "32 * length (bm_l1 a) < 2 ^ 63" and "64 * length (bm_l0 a) = 512 * (32 * length (bm_l1 a))"
    and "64 * length (bm_l0 a) < 2 ^ 63"
proof -
  show pos: "0 < bm_l0_gran a" using assms by (auto simp: l01_geo_def isp2_pos)
  show e: "64 * length (bm_l0 a) = 512 * (32 * length (bm_l1 a))" using assms by (simp add: l01_geo_def)
  have "64 * length (bm_l0 a) * 1 \<le> 64 * length (bm_l0 a) * bm_l0_gran a" using pos by (intro mult_left_mono) auto
  then show "64 * length (bm_l0 a) < 2 ^ 63" using assms unfolding l01_geo_def by linarith
  then show "32 * length (bm_l1 a) < 2 ^ 63" using e by linarith
qed

lemma ecount_split:
  assumes "e < 32 * length v"
  shows "ecount k v = card {i. i < 32 * length v \<and> i \<noteq> e \<and> entry v i = k} + (if entry v e = k then 1 else 0)"
proof -
  have "{i. i < 32 * length v \<and> entry v i = k} =
      (if entry v e = k then insert e else (\<lambda>A. A)) {i. i < 32 * length v \<and> i \<noteq> e \<and> entry v i = k}"
    using assms by auto
  then show ?thesis by (simp add: ecount_def)
qed

lemma ecount_put:
  assumes "e < 32 * length v" and "length v' = length v" and "\<forall>i < 32 * length v. entry v' i = (if i = e then x else entry v i)"
  shows "ecount k v' + (if entry v e = k then 1 else 0) = ecount k v + (if x = k then 1 else 0)"
proof -
  have "{i. i < 32 * length v' \<and> i \<noteq> e \<and> entry v' i = k} = {i. i < 32 * length v \<and> i \<noteq> e \<and> entry v i = k}"
    using assms by auto
  then show ?thesis using ecount_split [OF assms(1), of k] ecount_split [of e v' k] assms by simp
qed

lemma ecount_le: "ecount k v \<le> 32 * length v"
  using card_mono [of "{..<32 * length v}" "{e. e < 32 * length v \<and> entry v e = k}"] by (auto simp: ecount_def)

lemma recount_ok:
  assumes "l01_counts a" and ne: "entry (bm_l1 a) e \<noteq> x" and old: "entry (bm_l1 a) e \<in> {0, 1, 3}" and "x \<in> {0, 1, 3}"
    and len: "32 * length (bm_l1 a) < 2 ^ 63"
    and put: "e < 32 * length (bm_l1 a)" "length v' = length (bm_l1 a)"
      "\<forall>i < 32 * length (bm_l1 a). entry v' i = (if i = e then x else entry (bm_l1 a) i)"
  shows "l01_counts ((recount (entry (bm_l1 a) e) x a)\<lparr>bm_l1 := v'\<rparr>)"
proof -
  have c: "bm_partial a = ecount 1 (bm_l1 a)" "bm_unalloc a = ecount 3 (bm_l1 a)" using assms(1) by (auto simp: l01_counts_def)
  have le: "ecount k (bm_l1 a) < 2 ^ 63" for k using ecount_le [of k "bm_l1 a"] len by linarith
  note p = ecount_put [OF put]
  have up: "add64 (ecount k (bm_l1 a)) 1 = ecount k v'" if "x = k" "entry (bm_l1 a) e \<noteq> k" for k
    using p [of k] le [of k] that by (subst add64_exact) auto
  have down: "sub64 (ecount k (bm_l1 a)) 1 = ecount k v'" if "x \<noteq> k" "entry (bm_l1 a) e = k" for k
    using p [of k] le [of k] that by (subst sub64_exact) auto
  have stay: "ecount k (bm_l1 a) = ecount k v'" if "x \<noteq> k" "entry (bm_l1 a) e \<noteq> k" for k using p [of k] that by simp
  show ?thesis
    using old \<open>x \<in> {0, 1, 3}\<close> ne up down stay by (auto simp: recount_def l01_counts_def c Let_def)
qed

lemma mark_l1_entry_ok:
  assumes geo: "l01_geo a" and cnt: "l01_counts a" and e: "e < 32 * length (bm_l1 a)" and old: "entry (bm_l1 a) e \<in> {0, 1, 3}"
  shows "\<exists>b. mark_l1_entry e a = Some b \<and> l01_frame a b \<and> bm_l0 b = bm_l0 a \<and> l01_counts b \<and>
    (\<forall>i < 32 * length (bm_l1 a). entry (bm_l1 b) i = (if i = e then espec (vset (bm_l0 a)) e else entry (bm_l1 a) i))"
proof -
  have "8 * e + 8 \<le> length (bm_l0 a)" using e geo by (simp add: l01_geo_def)
  then obtain vs where vs: "slotset (bm_l0 a) e = Some vs" "entry_state vs = espec (vset (bm_l0 a)) e"
    using entry_state_ok by blast
  define x where "x = espec (vset (bm_l0 a)) e"
  have x: "x \<in> {0, 1, 3}" unfolding x_def by (rule espec_cases)
  obtain v' where v': "put_l1_entry e x (bm_l1 a) = Some v'" "length v' = length (bm_l1 a)"
    "\<forall>i < 32 * length (bm_l1 a). entry v' i = (if i = e then x else entry (bm_l1 a) i)" using put_l1_entry_ok [OF e x] by blast
  show ?thesis
  proof (cases "entry (bm_l1 a) e = x")
    case True
    then have "mark_l1_entry e a = Some a" using vs l1_entry_eq [OF e] by (simp add: mark_l1_entry_def x_def)
    then show ?thesis using cnt True by (auto simp: x_def)
  next
    case False
    define b where "b = (recount (entry (bm_l1 a) e) x a)\<lparr>bm_l1 := v'\<rparr>"
    have "mark_l1_entry e a = Some b" using vs l1_entry_eq [OF e] False v'(1) by (simp add: mark_l1_entry_def x_def b_def)
    moreover have "l01_counts b" unfolding b_def by (rule recount_ok [OF cnt False old x l01_geoD(2) [OF geo] e v'(2,3)])
    moreover have "l01_frame a b" "bm_l0 b = bm_l0 a" "bm_l1 b = v'" using v'(2) by (simp_all add: b_def recount_def l01_frame_def Let_def)
    ultimately show ?thesis using v'(3) by (auto simp: x_def)
  qed
qed

definition entries_ok :: "slot list \<Rightarrow> bool" where
  "entries_ok v \<longleftrightarrow> (\<forall>e < 32 * length v. entry v e \<in> {0, 1, 3})"

lemma l1_agrees_entries: "l1_agrees {} a \<Longrightarrow> entries_ok (bm_l1 a)"
  unfolding l1_agrees_def entries_ok_def using espec_cases by auto

lemma mark_l1_entries_ok:
  "l01_geo a \<Longrightarrow> l01_counts a \<Longrightarrow> entries_ok (bm_l1 a) \<Longrightarrow> \<forall>e \<in> set es. e < 32 * length (bm_l1 a) \<Longrightarrow>
   \<exists>b. mark_l1_entries es a = Some b \<and> l01_frame a b \<and> bm_l0 b = bm_l0 a \<and> l01_counts b \<and>
     (\<forall>i < 32 * length (bm_l1 a). entry (bm_l1 b) i = (if i \<in> set es then espec (vset (bm_l0 a)) i else entry (bm_l1 a) i))"
proof (induction es arbitrary: a)
  case (Cons e es)
  have "e < 32 * length (bm_l1 a)" "entry (bm_l1 a) e \<in> {0, 1, 3}" using Cons.prems(3,4) by (simp_all add: entries_ok_def)
  from mark_l1_entry_ok [OF Cons.prems(1,2) this] obtain b where b: "mark_l1_entry e a = Some b" "l01_frame a b"
    "bm_l0 b = bm_l0 a" "l01_counts b"
    "\<forall>i < 32 * length (bm_l1 a). entry (bm_l1 b) i = (if i = e then espec (vset (bm_l0 a)) e else entry (bm_l1 a) i)" by blast
  have len: "length (bm_l1 b) = length (bm_l1 a)" using b(2) by (simp add: l01_frame_def)
  have "entries_ok (bm_l1 b)" using Cons.prems(3) b(5) espec_cases unfolding entries_ok_def len by metis
  moreover have "l01_geo b" using Cons.prems(1) l01_frame_geo [OF b(2)] by simp
  ultimately obtain c where c: "mark_l1_entries es b = Some c" "l01_frame b c" "bm_l0 c = bm_l0 b" "l01_counts c"
    "\<forall>i < 32 * length (bm_l1 b). entry (bm_l1 c) i = (if i \<in> set es then espec (vset (bm_l0 b)) i else entry (bm_l1 b) i)"
    using Cons.IH [of b] b(4) Cons.prems(4) len by auto
  have "\<forall>i < 32 * length (bm_l1 a). entry (bm_l1 c) i = (if i \<in> set (e # es) then espec (vset (bm_l0 a)) i else entry (bm_l1 a) i)"
    using c(5) b(5) unfolding len b(3) by simp
  then show ?case using b(1,3) c(1,3,4) l01_frame_trans [OF b(2) c(2)] by (intro exI [of _ c]) simp
qed simp

lemma span_entries:
  assumes "s \<le> e" and "e \<le> 2 ^ 63"
  shows "p2align s 512 div 512 = s div 512" and "p2roundup e 512 div 512 = (e + 511) div 512"
    and "p2align (p2align s 512) 512 = p2align s 512" and "p2roundup (p2roundup e 512) 512 = p2roundup e 512"
proof -
  have i: "isp2 512" using isp2_power [of 9] by simp
  have s: "p2align s 512 = s div 512 * 512" using assms by (intro p2align_eq [OF i]) auto
  have e: "p2roundup e 512 = (e + 511) div 512 * 512" using p2roundup_eq [OF i, of e] assms by simp
  show "p2align s 512 div 512 = s div 512" "p2roundup e 512 div 512 = (e + 511) div 512" using s e by simp_all
  have "s div 512 * 512 \<le> 2 ^ 63" using div_times_less_eq_dividend [of s 512] assms by linarith
  then show "p2align (p2align s 512) 512 = p2align s 512" using p2align_eq [OF i, of "s div 512 * 512"] s by simp
  have "(e + 511) div 512 * 512 \<le> 2 ^ 63 + 511" using div_times_less_eq_dividend [of "e + 511" 512] assms by linarith
  moreover have "((e + 511) div 512 * 512 + 511) div 512 = (e + 511) div 512" by (intro div_nat_eqI) auto
  ultimately show "p2roundup (p2roundup e 512) 512 = p2roundup e 512"
    using p2roundup_eq [OF i, of "(e + 511) div 512 * 512"] e by simp
qed

lemma span_outside:
  assumes "i \<notin> {s div 512..<(e + 511) div 512}"
  shows "espan i \<inter> {s..<e} = {}"
proof -
  have False if "p \<in> espan i" "s \<le> p" "p < e" for p
  proof -
    have "p div 512 = i" using that(1) by (intro div_nat_eqI) (auto simp: espan_def)
    moreover have "s div 512 \<le> p div 512" using that(2) by (rule div_le_mono)
    moreover have "(p + 512) div 512 \<le> (e + 511) div 512" using that(3) by (intro div_le_mono) simp
    ultimately show False using assms by simp
  qed
  then show ?thesis by auto
qed

lemma espec_put_outside: "espan i \<inter> A = {} \<Longrightarrow> espec (put_set b A S) i = espec S i"
proof -
  assume "espan i \<inter> A = {}"
  then have "espan i \<inter> put_set b A S = {} \<longleftrightarrow> espan i \<inter> S = {}" "espan i \<subseteq> put_set b A S \<longleftrightarrow> espan i \<subseteq> S"
    by (auto simp: put_set_def)
  then show ?thesis by (simp add: espec_def)
qed

text \<open>Refreshing the entries of a range after its bits have changed.\<close>

lemma mark_l1_on_l0_ok:
  assumes geo: "l01_geo a" and cnt: "l01_counts a" and ent: "entries_ok (bm_l1 a)" and se: "s \<le> e" "e \<le> 64 * length (bm_l0 a)"
    and agree: "l1_agrees {s div 512..<(e + 511) div 512} a"
  shows "\<exists>b. mark_l1_on_l0 s e a = Some b \<and> l01_inv b \<and> l01_frame a b \<and> bm_l0 b = bm_l0 a"
proof -
  have e63: "e \<le> 2 ^ 63" using se(2) l01_geoD(4) [OF geo] by linarith
  have "(e + 511) div 512 \<le> 32 * length (bm_l1 a)"
  proof -
    have "e \<le> 512 * (32 * length (bm_l1 a))" using se(2) l01_geoD(3) [OF geo] by simp
    then have "e + 511 < 512 * Suc (32 * length (bm_l1 a))" by simp
    then show ?thesis by (metis less_Suc_eq_le less_mult_imp_div_less mult.commute)
  qed
  then have "\<forall>i \<in> set [s div 512..<(e + 511) div 512]. i < 32 * length (bm_l1 a)" by auto
  from mark_l1_entries_ok [OF geo cnt ent this] obtain b where b: "mark_l1_entries [s div 512..<(e + 511) div 512] a = Some b"
    "l01_frame a b" "bm_l0 b = bm_l0 a" "l01_counts b"
    "\<forall>i < 32 * length (bm_l1 a). entry (bm_l1 b) i =
       (if i \<in> set [s div 512..<(e + 511) div 512] then espec (vset (bm_l0 a)) i else entry (bm_l1 a) i)" by blast
  have "l1_agrees {} b" using agree b(2,3,5) by (auto simp: l1_agrees_def l01_frame_def)
  then have "l01_inv b" using b(4) l01_frame_geo [OF b(2)] geo by (simp add: l01_inv_def)
  then show ?thesis using b(1-3) span_entries(1,2) [OF se(1) e63] by (simp add: mark_l1_on_l0_def)
qed

lemma agrees_after_mark:
  assumes "l1_agrees {} a" and "vset v = put_set b {s..<e} (vset (bm_l0 a))"
  shows "l1_agrees {s div 512..<(e + 511) div 512} (a\<lparr>bm_l0 := v\<rparr>)"
  using assms espec_put_outside [OF span_outside] by (auto simp: l1_agrees_def)

lemma mark_l1_l0_ok:
  assumes inv: "l01_inv a" and se: "s \<le> e" "e \<le> 64 * length (bm_l0 a)"
  shows "\<exists>c. (if b then mark_free_l1_l0 s e a else mark_alloc_l1_l0 s e a) = Some c \<and> l01_inv c \<and> l01_frame a c \<and>
    vset (bm_l0 c) = put_set b {s..<e} (vset (bm_l0 a))"
proof -
  obtain v where v: "mark_l0 b s e (bm_l0 a) = Some v" "length v = length (bm_l0 a)" "vset v = put_set b {s..<e} (vset (bm_l0 a))"
    using mark_l0_ok [OF se, of b] by blast
  define a1 where "a1 = a\<lparr>bm_l0 := v\<rparr>"
  have i: "l01_geo a" "l01_counts a" "l1_agrees {} a" using inv by (auto simp: l01_inv_def)
  have fr: "l01_frame a a1" using v(2) by (simp add: a1_def l01_frame_def)
  have a1: "l01_geo a1" "l01_counts a1" "entries_ok (bm_l1 a1)" "e \<le> 64 * length (bm_l0 a1)"
    using i l01_frame_geo [OF fr] l1_agrees_entries [OF i(3)] se v(2) by (simp_all add: a1_def l01_counts_def)
  have "l1_agrees {s div 512..<(e + 511) div 512} a1" unfolding a1_def by (rule agrees_after_mark [OF i(3) v(3)])
  from mark_l1_on_l0_ok [OF a1(1-3) se(1) a1(4) this] obtain c where
    c: "mark_l1_on_l0 s e a1 = Some c" "l01_inv c" "l01_frame a1 c" "bm_l0 c = bm_l0 a1" by blast
  have e63: "e \<le> 2 ^ 63" using se(2) l01_geoD(4) [OF i(1)] by linarith
  have "mark_l1_on_l0 (p2align s 512) (p2roundup e 512) a1 = Some c"
    using c(1) span_entries [OF se(1) e63] by (simp add: mark_l1_on_l0_def)
  then show ?thesis using v(1,3) c(2-4) l01_frame_trans [OF fr c(3)] by (cases b)
    (simp_all add: mark_free_l1_l0_def mark_alloc_l1_l0_def mark_free_l0_def mark_alloc_l0_def a1_def)
qed

end
