(* ===== verification/Bitmap_Space.thy ===== *)
theory Bitmap_Space
  imports Bitmap_Levels
begin

text \<open>
  The bitmap allocator hands out free blocks: what each level of an allocation takes, and that levels 1 and 2
  follow. The unit of a request is the block size here, as all users of the allocator choose it.
\<close>

section \<open>Blocks and bytes\<close>

definition blk :: "nat \<Rightarrow> nat set \<Rightarrow> nat set" where
  "blk g T = {x. x div g \<in> T}"

lemma blk_simps [simp]:
  "blk g {} = {}" "blk g (A \<union> B) = blk g A \<union> blk g B" "blk g (A - B) = blk g A - blk g B" "blk g (A \<inter> B) = blk g A \<inter> blk g B"
  by (auto simp: blk_def)

lemma blk_mono: "A \<subseteq> B \<Longrightarrow> blk g A \<subseteq> blk g B"
  by (auto simp: blk_def)

lemma blk_range: "0 < g \<Longrightarrow> blk g {a..<b} = {a * g..<b * g}"
  by (auto simp: blk_def less_eq_div_iff_mult_less_eq div_less_iff_less_mult)

lemma blk_arange: "0 < g \<Longrightarrow> blk g {a..<a + n} = arange (a * g) (n * g)"
  by (simp add: blk_range arange_def distrib_right)

lemma blk_disjoint: "0 < g \<Longrightarrow> blk g A \<inter> blk g B = {} \<longleftrightarrow> A \<inter> B = {}"
proof
  assume g: "0 < g" and d: "blk g A \<inter> blk g B = {}"
  have "x * g \<in> blk g A \<inter> blk g B" if "x \<in> A \<inter> B" for x using g that by (simp add: blk_def)
  then show "A \<inter> B = {}" using d by blast
qed (auto simp: blk_def)

lemma card_blk: "finite T \<Longrightarrow> 0 < g \<Longrightarrow> card (blk g T) = g * card T"
proof (induction T rule: finite_induct)
  case (insert x T)
  have "blk g (insert x T) = blk g {x} \<union> blk g T" using blk_simps(2) [of g "{x}" T] by simp
  moreover have "blk g {x} = {x * g..<Suc x * g}" using blk_range [of g x "Suc x"] insert.prems by simp
  moreover have "blk g {x} \<inter> blk g T = {}" using insert by (simp add: blk_disjoint)
  moreover have "finite (blk g T)"
  proof (rule finite_subset)
    show "blk g T \<subseteq> {..<Suc (Max T) * g}"
    proof
      fix y assume "y \<in> blk g T"
      then have "y div g \<le> Max T" using insert by (simp add: blk_def)
      then show "y \<in> {..<Suc (Max T) * g}" using insert.prems by (simp add: div_less_iff_less_mult [symmetric] less_Suc_eq_le del: mult_Suc)
    qed
  qed simp
  ultimately show ?case using insert by (simp add: card_Un_disjoint)
qed simp

section \<open>Extents\<close>

definition gran_exts :: "nat \<Rightarrow> extents \<Rightarrow> bool" where
  "gran_exts g xs \<longleftrightarrow> (\<forall>(off, len) \<in> set xs. 0 < len \<and> len < 2 ^ 32 \<and> g dvd off \<and> g dvd len \<and> off + len < 2 ^ 63)"

text \<open>The bytes \<open>A\<close>, \<open>n\<close> of them, are added to the extents.\<close>

definition handed :: "nat \<Rightarrow> extents \<Rightarrow> extents \<Rightarrow> nat set \<Rightarrow> nat \<Rightarrow> bool" where
  "handed g res res' A n \<longleftrightarrow> ext_set res' = ext_set res \<union> A \<and> ext_len res' = ext_len res + n \<and> ext_disjoint res' \<and> gran_exts g res'"

lemma handed_trans: "handed g r1 r2 A m \<Longrightarrow> handed g r2 r3 B n \<Longrightarrow> handed g r1 r3 (A \<union> B) (m + n)"
  by (auto simp: handed_def)

lemma handed_refl: "gran_exts g res \<Longrightarrow> ext_disjoint res \<Longrightarrow> handed g res res {} 0"
  by (simp add: handed_def)

lemma ext_len_append [simp]: "ext_len (xs @ ys) = ext_len xs + ext_len ys"
  by (simp add: ext_len_def)

lemma gran_exts_append [simp]: "gran_exts g (xs @ ys) \<longleftrightarrow> gran_exts g xs \<and> gran_exts g ys"
  by (auto simp: gran_exts_def)

lemma emplace_chunks_ok:
  assumes "0 < g" "g dvd mx" "0 < mx" "mx \<le> 2 ^ 31"
  shows "g dvd len \<Longrightarrow> g dvd off \<Longrightarrow> off + len < 2 ^ 63 \<Longrightarrow> al + len < 2 ^ 64 \<Longrightarrow> gran_exts g res \<Longrightarrow> ext_disjoint res \<Longrightarrow>
    ext_set res \<inter> arange off len = {} \<Longrightarrow>
    \<exists>res'. emplace_chunks mx g off len al res = Some (al + len, res') \<and> handed g res res' (arange off len) len"
proof (induction len arbitrary: off al res rule: less_induct)
  case (less len)
  show ?case
  proof (cases "len = 0")
    case True
    then show ?thesis using less.prems by (subst emplace_chunks.simps) (simp add: handed_refl)
  next
    case False
    define chunk where "chunk = (if mx > 0 \<and> len > mx then mx else len)"
    have c: "0 < chunk" "chunk \<le> len" "chunk \<le> 2 ^ 31" "g dvd chunk" using False assms less.prems(1) by (auto simp: chunk_def)
    have gc: "\<not> chunk < g" using c(1,4) by (auto dest: dvd_imp_le)
    have eq: "emplace_chunks mx g off len al res = emplace_chunks mx g (off + chunk) (len - chunk) (al + chunk) (res @ [(off, chunk)])"
      using False gc c less.prems(3,4) by (subst emplace_chunks.simps) (simp add: chunk_def [symmetric] Let_def UINT32_MAX_def add64_exact)
    define r1 where "r1 = res @ [(off, chunk)]"
    have sp: "arange off len = arange off chunk \<union> arange (off + chunk) (len - chunk)" using c(2) by (rule arange_split)
    have h1: "handed g res r1 (arange off chunk) chunk"
      using less.prems c sp by (auto simp: handed_def r1_def gran_exts_def)
    have dis: "ext_set r1 \<inter> arange (off + chunk) (len - chunk) = {}"
      using less.prems(7) sp by (auto simp: r1_def arange_def)
    have "\<exists>res'. emplace_chunks mx g (off + chunk) (len - chunk) (al + chunk) r1 = Some (al + chunk + (len - chunk), res') \<and>
        handed g r1 res' (arange (off + chunk) (len - chunk)) (len - chunk)"
      using less.prems c h1 dis False by (intro less.IH) (auto simp: handed_def)
    then obtain res' where r: "emplace_chunks mx g (off + chunk) (len - chunk) (al + chunk) r1 = Some (al + len, res')"
      "handed g r1 res' (arange (off + chunk) (len - chunk)) (len - chunk)" using c(2) by auto
    have "handed g res res' (arange off len) len" using handed_trans [OF h1 r(2)] c(2) sp by simp
    then show ?thesis using eq r(1) by (simp add: r1_def)
  qed
qed

lemma fragment_ok:
  assumes "0 < g" "g dvd mx" "0 < mx" "mx \<le> 2 ^ 31"
    and len: "g dvd len" "0 < len" and off: "g dvd off" "off + len < 2 ^ 63" and al: "al + len < 2 ^ 64"
    and res: "gran_exts g res" "ext_disjoint res" "ext_set res \<inter> arange off len = {}"
  shows "\<exists>res'. fragment_and_emplace mx g off len al res = Some (al + len, res') \<and> handed g res res' (arange off len) len"
proof (cases "res \<noteq> [] \<and> add64 (fst (List.last res)) (snd (List.last res)) = off")
  case False
  then show ?thesis using emplace_chunks_ok [OF assms(1-4) len(1) off al res] by (simp add: fragment_and_emplace_def if_not_P)
next
  case True
  then obtain ys lo ll where r: "res = ys @ [(lo, ll)]" by (metis append_butlast_last_id prod.collapse)
  have e: "0 < ll" "ll < 2 ^ 32" "g dvd lo" "g dvd ll" "lo + ll < 2 ^ 63" using res(1) by (auto simp: r gran_exts_def)
  then have lo: "lo + ll = off" using True by (simp add: r add64_exact)
  have m: "add64 ll len = ll + len" using e off(2) lo by (intro add64_exact) simp
  have dj: "ext_disjoint ys" "ext_set ys \<inter> arange lo ll = {}" using res(2) by (auto simp: r)
  consider "ll + len \<le> mx" | "mx < ll + len" "ll < mx" | "mx \<le> ll" by linarith
  then show ?thesis
  proof cases
    case 1
    define r' where "r' = ys @ [(lo, ll + len)]"
    have "arange lo (ll + len) = arange lo ll \<union> arange off len" using arange_split [of ll "ll + len" lo] lo by simp
    then have "handed g res r' (arange off len) len"
      using res dj e len off(2) lo 1 assms(4) by (auto simp: handed_def r'_def r gran_exts_def)
    moreover have "fragment_and_emplace mx g off len al res = Some (al + len, r')"
      using True 1 m assms(3,4) al by (simp add: fragment_and_emplace_def r r'_def Let_def add64_exact)
    ultimately show ?thesis by blast
  next
    case 2
    define tk r1 where "tk = mx - ll" and "r1 = ys @ [(lo, mx)]"
    have tk: "0 < tk" "tk < len" "ll + tk = mx" "g dvd tk" using 2 assms(2) e(4) by (auto simp: tk_def)
    have sp: "arange off len = arange off tk \<union> arange (off + tk) (len - tk)" using tk(2) by (intro arange_split) simp
    have "arange lo mx = arange lo ll \<union> arange off tk" using arange_split [of ll mx lo] tk lo by (simp add: tk_def)
    then have h1: "handed g res r1 (arange off tk) tk"
      using res dj e tk off(2) lo assms(2,4) sp by (auto simp: handed_def r1_def r gran_exts_def)
    have "ext_set r1 \<inter> arange (off + tk) (len - tk) = {}" using h1 res(3) sp unfolding handed_def by (auto simp: arange_def)
    then obtain res' where res': "emplace_chunks mx g (off + tk) (len - tk) (al + tk) r1 = Some (al + tk + (len - tk), res')"
      "handed g r1 res' (arange (off + tk) (len - tk)) (len - tk)"
      using emplace_chunks_ok [OF assms(1-4), of "len - tk" "off + tk" "al + tk" r1] h1 tk len off al unfolding handed_def by auto
    have "fragment_and_emplace mx g off len al res = emplace_chunks mx g (off + tk) (len - tk) (al + tk) r1"
      using True 2 m assms(3,4) al off tk
      by (simp add: fragment_and_emplace_def r r1_def Let_def add64_exact sub64_exact tk_def [symmetric])
    moreover have "handed g res res' (arange off len) len" using handed_trans [OF h1 res'(2)] tk sp by simp
    ultimately show ?thesis using res'(1) tk by simp
  next
    case 3
    then have "fragment_and_emplace mx g off len al res = emplace_chunks mx g off len al res"
      using True m assms(3) len(2) by (simp add: fragment_and_emplace_def r Let_def)
    then show ?thesis using emplace_chunks_ok [OF assms(1-4) len(1) off al res] by simp
  qed
qed

section \<open>Searching a word\<close>

lemma ctz_from_ok: "v \<noteq> 0 \<Longrightarrow> v < 2 ^ n \<Longrightarrow> ctz_from n v < n \<and> bit v (ctz_from n v) \<and> (\<forall>j < ctz_from n v. \<not> bit v j)"
proof (induction n v rule: ctz_from.induct)
  case (2 n v)
  show ?case
  proof (cases "odd v")
    case True
    then show ?thesis by (simp add: bit_0)
  next
    case False
    with 2 have ih: "ctz_from n (v div 2) < n" "bit (v div 2) (ctz_from n (v div 2))" "\<forall>j < ctz_from n (v div 2). \<not> bit (v div 2) j"
      by (auto elim: evenE)
    have "\<not> bit v j" if "j < Suc (ctz_from n (v div 2))" for j using that False ih(3) by (cases j) (auto simp: bit_0 bit_Suc)
    then show ?thesis using False ih(1,2) by (simp add: bit_Suc)
  qed
qed simp

lemma find_next_set_bit_ok:
  assumes "b < 64"
  shows "find_next_set_bit w b = - 1 \<and> (\<forall>j. b \<le> j \<longrightarrow> j < 64 \<longrightarrow> \<not> bit w j) \<or>
    (\<exists>n. find_next_set_bit w b = int n \<and> b \<le> n \<and> n < 64 \<and> bit w n \<and> (\<forall>j. b \<le> j \<longrightarrow> j < n \<longrightarrow> \<not> bit w j))"
proof -
  define m where "m = drop_bit b w"
  have bm: "bit m j \<longleftrightarrow> bit w (b + j)" for j by (simp add: m_def bit_simps)
  show ?thesis
  proof (cases "m = 0")
    case True
    then have "\<not> bit w j" if "b \<le> j" for j using bm [of "j - b"] that by simp
    then show ?thesis using True assms by (simp add: find_next_set_bit_def m_def Let_def)
  next
    case False
    define c where "c = ctz (unat m)"
    have "unat m \<noteq> 0" "unat m < 2 ^ 64" using False unsigned_less [of m, where ?'a = nat] by (simp_all add: unat_eq_0)
    from ctz_from_ok [OF this] have c: "c < 64" "bit m c" "\<forall>j < c. \<not> bit m j" by (simp_all add: c_def ctz_def bit_unsigned_iff)
    have wc: "bit w (b + c)" using c(2) bm by simp
    then have "b + c < 64" using bit_imp_le_length by fastforce
    moreover have "\<not> bit w j" if "b \<le> j" "j < b + c" for j using c(3) bm [of "j - b"] that by auto
    moreover have "find_next_set_bit w b = int (b + c)" using False assms by (simp add: find_next_set_bit_def m_def Let_def c_def)
    ultimately show ?thesis using wc by (intro disjI2 exI [of _ "b + c"]) auto
  qed
qed

lemma find_next_here: "find_next_set_bit w b = int b \<longleftrightarrow> bit w b" if "b < 64"
  using find_next_set_bit_ok [OF that, of w] that by force

section \<open>Level 0\<close>

lemma run_end_ok:
  "e \<le> 64 * length v \<Longrightarrow> rs \<le> re \<Longrightarrow> re \<le> e \<Longrightarrow> re - rs \<le> need \<Longrightarrow> {rs..<re} \<subseteq> vset v \<Longrightarrow>
   \<exists>x. run_end need rs re e v = Some x \<and> re \<le> x \<and> x \<le> e \<and> x - rs \<le> need \<and> {rs..<x} \<subseteq> vset v \<and>
     (re < e \<and> re - rs < need \<and> re \<in> vset v \<longrightarrow> re < x)"
proof (induction need rs re e v rule: run_end.induct)
  case (1 need rs re e v)
  show ?case
  proof (cases "re - rs < need \<and> re < e")
    case True
    then have i: "re div 64 < length v" using 1(2) by (simp add: div_less_iff_less_mult ac_simps)
    have here: "find_next_set_bit (v ! (re div 64)) (re mod 64) = int (re mod 64) \<longleftrightarrow> re \<in> vset v"
      using True 1(2) find_next_here [of "re mod 64"] by (simp add: vset_def)
    show ?thesis
    proof (cases "re \<in> vset v")
      case set: True
      have "{rs..<re + 1} \<subseteq> vset v" using 1(6) set 1(3) by (auto simp: less_Suc_eq)
      moreover have "re + 1 - rs \<le> need" using True 1(3) by linarith
      ultimately obtain x where "run_end need rs (re + 1) e v = Some x" "re + 1 \<le> x" "x \<le> e"
        "x - rs \<le> need" "{rs..<x} \<subseteq> vset v" using 1(1) [OF True i] here set 1(2-5) True by auto
      then show ?thesis using True i here set by (subst run_end.simps) auto
    next
      case False
      then show ?thesis using True i here 1 by (subst run_end.simps) auto
    qed
  next
    case False
    then show ?thesis using 1 by (subst run_end.simps) auto
  qed
qed

text \<open>What an allocation takes: the blocks \<open>T\<close> leave level 0 and become extents.\<close>

definition took :: "nat set \<Rightarrow> u64 \<Rightarrow> extents \<Rightarrow> level01 \<Rightarrow> u64 \<Rightarrow> extents \<Rightarrow> level01 \<Rightarrow> bool" where
  "took T al res a al' res' b \<longleftrightarrow> T \<subseteq> vset (bm_l0 a) \<and> vset (bm_l0 b) = vset (bm_l0 a) - T \<and> l01_frame a b \<and>
     al' = al + bm_l0_gran a * card T \<and> handed (bm_l0_gran a) res res' (blk (bm_l0_gran a) T) (bm_l0_gran a * card T)"

definition res_ok :: "extents \<Rightarrow> level01 \<Rightarrow> bool" where
  "res_ok res a \<longleftrightarrow> gran_exts (bm_l0_gran a) res \<and> ext_disjoint res \<and> ext_set res \<inter> blk (bm_l0_gran a) (vset (bm_l0 a)) = {}"

lemma took_refl: "res_ok res a \<Longrightarrow> took {} al res a al res a"
  by (simp add: took_def res_ok_def handed_refl)

lemma took_trans:
  assumes "took T al res a al1 res1 b" and "took U al1 res1 b al2 res2 c"
  shows "took (T \<union> U) al res a al2 res2 c"
proof -
  have d: "T \<inter> U = {}" "finite T" "finite U"
    using assms finite_vset [of "bm_l0 a"] by (auto simp: took_def intro: finite_subset)
  have g: "bm_l0_gran b = bm_l0_gran a" using assms(1) by (simp add: took_def l01_frame_def)
  have "card (T \<union> U) = card T + card U" using d by (simp add: card_Un_disjoint)
  then show ?thesis using assms handed_trans l01_frame_trans unfolding took_def g by (auto simp: distrib_left Un_assoc)
qed

lemma took_res_ok:
  assumes "took T al res a al1 res1 b" and "res_ok res a"
  shows "res_ok res1 b"
proof -
  have g: "bm_l0_gran b = bm_l0_gran a" using assms(1) by (simp add: took_def l01_frame_def)
  show ?thesis using assms unfolding took_def res_ok_def handed_def g by auto
qed

lemma pos_bytes:
  assumes "l01_geo a" and "p \<le> 64 * length (bm_l0 a)"
  shows "p * bm_l0_gran a < 2 ^ 63" and "mul64 p (bm_l0_gran a) = p * bm_l0_gran a"
proof -
  have "p * bm_l0_gran a \<le> 64 * length (bm_l0 a) * bm_l0_gran a" using assms(2) by (rule mult_right_mono) simp
  then show *: "p * bm_l0_gran a < 2 ^ 63" using assms(1) unfolding l01_geo_def by linarith
  then show "mul64 p (bm_l0_gran a) = p * bm_l0_gran a" by (intro mul64_exact) simp
qed

lemma take_run:
  assumes geo: "l01_geo a" and mx: "bm_l0_gran a dvd mx" "0 < mx" "mx \<le> 2 ^ 31" and ok: "res_ok res a"
    and run: "{rs..<rs + units} \<subseteq> vset (bm_l0 a)" "0 < units" and al: "al + bm_l0_gran a * units < 2 ^ 64"
  shows "\<exists>res' v. fragment_and_emplace mx (bm_l0_gran a) (mul64 rs (bm_l0_gran a)) (mul64 units (bm_l0_gran a)) al res =
      Some (al + bm_l0_gran a * units, res') \<and> mark_l0 False rs (rs + units) (bm_l0 a) = Some v \<and>
    took {rs..<rs + units} al res a (al + bm_l0_gran a * units) res' (a\<lparr>bm_l0 := v\<rparr>)"
proof -
  define g where "g = bm_l0_gran a"
  have g: "0 < g" using l01_geoD(1) [OF geo] by (simp add: g_def)
  have "rs + units - 1 \<in> vset (bm_l0 a)" using run by auto
  then have le: "rs + units \<le> 64 * length (bm_l0 a)" using run(2) by (simp add: vset_def) linarith
  obtain v where v: "mark_l0 False rs (rs + units) (bm_l0 a) = Some v" "length v = length (bm_l0 a)"
    "vset v = put_set False {rs..<rs + units} (vset (bm_l0 a))" using mark_l0_ok [of rs "rs + units" "bm_l0 a" False] le by auto
  have off: "rs * g + units * g < 2 ^ 63" using pos_bytes(1) [OF geo le] by (simp add: g_def distrib_right)
  have ar: "arange (rs * g) (units * g) = blk g {rs..<rs + units}" using blk_arange [OF g] by simp
  have "ext_set res \<inter> arange (rs * g) (units * g) = {}" unfolding ar using ok blk_mono [OF run(1), of g] by (auto simp: res_ok_def g_def)
  then obtain res' where r: "fragment_and_emplace mx g (rs * g) (units * g) al res = Some (al + units * g, res')"
    "handed g res res' (arange (rs * g) (units * g)) (units * g)"
    using fragment_ok [OF g mx [folded g_def], of "units * g" "rs * g" al res] ok off al run(2) g by (auto simp: res_ok_def g_def ac_simps)
  have m: "mul64 rs g = rs * g" "mul64 units g = units * g"
    using pos_bytes(2) [OF geo, of rs] pos_bytes(2) [OF geo, of units] le by (simp_all add: g_def)
  have "took {rs..<rs + units} al res a (al + g * units) res' (a\<lparr>bm_l0 := v\<rparr>)"
    using r(2) v run(1) ar by (simp add: took_def g_def [symmetric] put_set_def l01_frame_def ac_simps)
  then show ?thesis using r(1) v(1) m by (auto simp: g_def ac_simps)
qed

lemma word_gap:
  assumes "p div 64 < length v" and "\<forall>j. p mod 64 \<le> j \<longrightarrow> j < n \<longrightarrow> \<not> bit (v ! (p div 64)) j" and "n \<le> 64"
  shows "vset v \<inter> {p..<p div 64 * 64 + n} = {}"
proof -
  have "q \<notin> vset v" if "p \<le> q" "q < p div 64 * 64 + n" for q
  proof -
    have "q div 64 = p div 64" using that assms(3) div_le_mono [OF that(1), of 64] by (intro div_nat_eqI) auto
    moreover have "p mod 64 \<le> q mod 64" "q mod 64 < n" using that calculation div_mult_mod_eq [of q 64] div_mult_mod_eq [of p 64] by linarith+
    ultimately show ?thesis using assms(2) by (simp add: vset_def)
  qed
  then show ?thesis by auto
qed

lemma allocate_l0_loop_ok:
  assumes mx: "g dvd mx" "0 < mx" "mx \<le> 2 ^ 31" and e64: "64 dvd e"
  shows "l01_geo a \<Longrightarrow> bm_l0_gran a = g \<Longrightarrow> res_ok res a \<Longrightarrow> e \<le> 64 * length (bm_l0 a) \<Longrightarrow> al + g * need < 2 ^ 64 \<Longrightarrow>
    \<exists>T need' al' res' v. allocate_l0_loop mx g need p e al res a = Some (need', al', res', a\<lparr>bm_l0 := v\<rparr>) \<and>
      T \<subseteq> {p..<e} \<and> need' + card T = need \<and> took T al res a al' res' (a\<lparr>bm_l0 := v\<rparr>) \<and>
      (need' = 0 \<or> vset (bm_l0 a) \<inter> {p..<e} \<subseteq> T)"
proof (induction "e - p" arbitrary: p need al res a rule: less_induct)
  case less
  define v0 where "v0 = bm_l0 a"
  have a0: "a\<lparr>bm_l0 := v0\<rparr> = a" by (simp add: v0_def)
  show ?case
  proof (cases "p < e \<and> need > 0")
    case False
    then have "allocate_l0_loop mx g need p e al res a = Some (need, al, res, a\<lparr>bm_l0 := v0\<rparr>)" by (subst allocate_l0_loop.simps) (auto simp: a0)
    moreover have "need = 0 \<or> vset (bm_l0 a) \<inter> {p..<e} \<subseteq> {}" using False by auto
    ultimately show ?thesis using took_refl [OF less.prems(3), of al]
      by (intro exI [of _ "{}"] exI [of _ need] exI [of _ al] exI [of _ res] exI [of _ v0]) (simp add: a0)
  next
    case True
    define i w where "i = p div 64" and "w = v0 ! i"
    have i: "i < length v0" using True less.prems(4) by (simp add: i_def v0_def div_less_iff_less_mult ac_simps)
    have pm: "p mod 64 < 64" by simp
    have next_p: "p + (64 - p mod 64) = i * 64 + 64" using div_mult_mod_eq [of p 64] pm unfolding i_def by linarith
    consider (none) "find_next_set_bit w (p mod 64) = - 1" "\<forall>j. p mod 64 \<le> j \<longrightarrow> j < 64 \<longrightarrow> \<not> bit w j"
      | (some) n where "find_next_set_bit w (p mod 64) = int n" "p mod 64 \<le> n" "n < 64" "bit w n" "\<forall>j. p mod 64 \<le> j \<longrightarrow> j < n \<longrightarrow> \<not> bit w j"
      using find_next_set_bit_ok [OF pm, of w] by blast
    then show ?thesis
    proof cases
      case none
      have gap: "vset v0 \<inter> {p..<i * 64 + 64} = {}" using word_gap [of p v0 64] i none(2) by (simp add: i_def w_def)
      have eq: "allocate_l0_loop mx g need p e al res a = allocate_l0_loop mx g need (p + (64 - p mod 64)) e al res a"
        using True i none by (subst allocate_l0_loop.simps) (simp add: Let_def v0_def i_def w_def)
      have "\<exists>T need' al' res' v. allocate_l0_loop mx g need (p + (64 - p mod 64)) e al res a = Some (need', al', res', a\<lparr>bm_l0 := v\<rparr>) \<and>
          T \<subseteq> {p + (64 - p mod 64)..<e} \<and> need' + card T = need \<and> took T al res a al' res' (a\<lparr>bm_l0 := v\<rparr>) \<and>
          (need' = 0 \<or> vset (bm_l0 a) \<inter> {p + (64 - p mod 64)..<e} \<subseteq> T)"
        using True pm less.prems by (intro less.hyps) auto
      then obtain T need' al' res' v where r: "allocate_l0_loop mx g need (i * 64 + 64) e al res a = Some (need', al', res', a\<lparr>bm_l0 := v\<rparr>)"
        "T \<subseteq> {i * 64 + 64..<e}" "need' + card T = need" "took T al res a al' res' (a\<lparr>bm_l0 := v\<rparr>)"
        "need' = 0 \<or> vset v0 \<inter> {i * 64 + 64..<e} \<subseteq> T" unfolding next_p v0_def by blast
      have pi: "p \<le> i * 64 + 64" using next_p by linarith
      have "vset v0 \<inter> {p..<e} \<subseteq> vset v0 \<inter> {i * 64 + 64..<e}" using gap by auto
      then have "need' = 0 \<or> vset v0 \<inter> {p..<e} \<subseteq> T" using r(5) by blast
      moreover have "T \<subseteq> {p..<e}" using r(2) pi by auto
      ultimately show ?thesis using eq r(1,3,4) unfolding next_p v0_def
        by (intro exI [of _ T] exI [of _ need'] exI [of _ al'] exI [of _ res'] exI [of _ v]) simp
    next
      case some
      define rs where "rs = i * 64 + n"
      have gap: "vset v0 \<inter> {p..<rs} = {}" using word_gap [of p v0 n] i some by (simp add: i_def w_def rs_def)
      have mem: "rs \<in> vset v0" using word_in_vset [of i v0 n] i some by (simp add: w_def rs_def ac_simps)
      have prs: "p \<le> rs" using some(2) div_mult_mod_eq [of p 64] unfolding rs_def i_def by linarith
      obtain k where k: "e = 64 * k" using e64 by (elim dvdE)
      have "i < k" using True by (simp add: k i_def div_less_iff_less_mult ac_simps)
      then have rse: "rs < e" using some(3) by (simp add: rs_def k)
      obtain re where re: "run_end need rs rs e v0 = Some re" "rs < re" "re \<le> e" "re - rs \<le> need" "{rs..<re} \<subseteq> vset v0"
        using run_end_ok [of e v0 rs rs need] less.prems(4) rse mem True by (auto simp: v0_def)
      define units where "units = re - rs"
      have u: "0 < units" "units \<le> need" "rs + units = re" "min (re - rs) need = units" using re by (auto simp: units_def)
      have "g * units \<le> g * need" using u(2) by simp
      then have al: "al + bm_l0_gran a * units < 2 ^ 64" using less.prems(5) unfolding less.prems(2) by linarith
      have mx': "bm_l0_gran a dvd mx" using mx(1) less.prems(2) by simp
      obtain res1 v1 where t: "fragment_and_emplace mx g (mul64 rs g) (mul64 units g) al res = Some (al + g * units, res1)"
        "mark_l0 False rs (rs + units) v0 = Some v1" "took {rs..<rs + units} al res a (al + g * units) res1 (a\<lparr>bm_l0 := v1\<rparr>)"
        using take_run [OF less.prems(1) mx' mx(2,3) less.prems(3) _ u(1) al, of rs] re(5) u(3) less.prems(2) by (auto simp: v0_def)
      define a1 where "a1 = a\<lparr>bm_l0 := v1\<rparr>"
      have fr: "l01_frame a a1" using t(3) by (simp add: took_def a1_def)
      have a1: "l01_geo a1" "bm_l0_gran a1 = g" "res_ok res1 a1" "e \<le> 64 * length (bm_l0 a1)"
        using less.prems l01_frame_geo [OF fr] took_res_ok [OF t(3)] fr by (simp_all add: a1_def l01_frame_def)
      have "al + g * units + g * (need - units) < 2 ^ 64" using less.prems(5) u(2) by (simp add: diff_mult_distrib2)
      moreover have "e - (rs + units) < e - p" using prs u(1) True by linarith
      ultimately obtain T need' al' res' v where r: "allocate_l0_loop mx g (need - units) (rs + units) e (al + g * units) res1 a1 = Some (need', al', res', a1\<lparr>bm_l0 := v\<rparr>)"
        "T \<subseteq> {rs + units..<e}" "need' + card T = need - units" "took T (al + g * units) res1 a1 al' res' (a1\<lparr>bm_l0 := v\<rparr>)"
        "need' = 0 \<or> vset (bm_l0 a1) \<inter> {rs + units..<e} \<subseteq> T"
        using less.hyps [of "rs + units" a1 res1 "al + g * units" "need - units"] a1 by auto
      have eq: "allocate_l0_loop mx g need p e al res a = Some (need', al', res', a\<lparr>bm_l0 := v\<rparr>)"
        using True i some t(1,2) re(1) u r(1) less.prems(2) mem
        by (subst allocate_l0_loop.simps)
          (auto simp: Let_def v0_def [symmetric] i_def [symmetric] w_def [symmetric] rs_def [symmetric] mark_alloc_l0_def a1_def)
      have tk: "took ({rs..<rs + units} \<union> T) al res a al' res' (a\<lparr>bm_l0 := v\<rparr>)"
        using took_trans [OF t(3), folded a1_def, OF r(4)] by (simp add: a1_def)
      have "{rs..<rs + units} \<inter> T = {}" using r(2) by auto
      then have cd: "need' + card ({rs..<rs + units} \<union> T) = need"
        using r(2,3) u(2) by (subst card_Un_disjoint) (auto intro: finite_subset)
      have "vset (bm_l0 a1) = vset v0 - {rs..<rs + units}" using t(3) by (simp add: took_def a1_def v0_def)
      moreover have "vset v0 \<inter> {p..<e} \<subseteq> vset v0 \<inter> {p..<rs} \<union> {rs..<rs + units} \<union> (vset v0 - {rs..<rs + units}) \<inter> {rs + units..<e}" by auto
      ultimately have "need' = 0 \<or> vset v0 \<inter> {p..<e} \<subseteq> {rs..<rs + units} \<union> T" using r(5) gap by blast
      moreover have "{rs..<rs + units} \<union> T \<subseteq> {p..<e}" using r(2) prs u(3) re(3) by auto
      ultimately show ?thesis using eq tk cd unfolding v0_def
        by (intro exI [of _ "{rs..<rs + units} \<union> T"] exI [of _ need'] exI [of _ al'] exI [of _ res'] exI [of _ v]) simp
    qed
  qed
qed

section \<open>Level 1\<close>

lemma took_level: "took T al res a al' res' b \<Longrightarrow> vset (bm_l0 c) = vset (bm_l0 b) \<Longrightarrow> l01_frame a c \<Longrightarrow> took T al res a al' res' c"
  by (simp add: took_def)

lemma took_agrees:
  assumes "l1_agrees {} a" and "T \<subseteq> espan p" and "vset v = vset (bm_l0 a) - T"
  shows "l1_agrees {p} (a\<lparr>bm_l0 := v\<rparr>)"
proof -
  have "espan i \<inter> T = {}" if "i \<noteq> p" for i
  proof -
    have "x div 512 = j" if "x \<in> espan j" for x j using that by (intro div_nat_eqI) (auto simp: espan_def)
    then show ?thesis using assms(2) that by blast
  qed
  then show ?thesis using assms(1) espec_put_outside [of _ T False "vset (bm_l0 a)"] assms(3) by (simp add: l1_agrees_def put_set_def)
qed

text \<open>The request is a number of blocks; \<open>al\<close> has been given.\<close>

definition request :: "nat \<Rightarrow> u64 \<Rightarrow> u64 \<Rightarrow> bool" where
  "request g len al \<longleftrightarrow> g dvd len \<and> g dvd al \<and> al \<le> len \<and> len < 2 ^ 63"

lemma request_rem:
  assumes "request g len al"
  shows "sub64 len al = len - al" and "g * ((len - al) div g) = len - al" and "al + g * ((len - al) div g) = len"
proof -
  show "sub64 len al = len - al" using assms by (intro sub64_exact) (auto simp: request_def)
  have "g dvd len - al" using assms by (simp add: request_def)
  then show "g * ((len - al) div g) = len - al" by simp
  then show "al + g * ((len - al) div g) = len" using assms by (simp add: request_def)
qed

lemma take_entry:
  assumes inv: "l01_inv a" and mx: "bm_l0_gran a dvd mx" "0 < mx" "mx \<le> 2 ^ 31" and ok: "res_ok res a"
    and p: "p < 32 * length (bm_l1 a)" and full: "espan p \<subseteq> vset (bm_l0 a)" and al: "al + 512 * bm_l0_gran a < 2 ^ 64"
  shows "\<exists>res' b. fragment_and_emplace mx (bm_l0_gran a) (mul64 (p * 512) (bm_l0_gran a)) (mul64 512 (bm_l0_gran a)) al res =
      Some (al + 512 * bm_l0_gran a, res') \<and> mark_alloc_l1_l0 (p * 512) (p * 512 + 512) a = Some b \<and> l01_inv b \<and>
    took (espan p) al res a (al + 512 * bm_l0_gran a) res' b"
proof -
  have geo: "l01_geo a" using inv by (simp add: l01_inv_def)
  have sp: "espan p = {p * 512..<p * 512 + 512}" by (simp add: espan_def ac_simps)
  have "p * 512 + 512 \<le> 64 * length (bm_l0 a)" using p l01_geoD(3) [OF geo] by linarith
  with mark_l1_l0_ok [OF inv, of "p * 512" "p * 512 + 512" False] obtain b where b: "mark_alloc_l1_l0 (p * 512) (p * 512 + 512) a = Some b"
    "l01_inv b" "l01_frame a b" "vset (bm_l0 b) = put_set False {p * 512..<p * 512 + 512} (vset (bm_l0 a))" by auto
  obtain res' v where r: "fragment_and_emplace mx (bm_l0_gran a) (mul64 (p * 512) (bm_l0_gran a)) (mul64 512 (bm_l0_gran a)) al res =
      Some (al + bm_l0_gran a * 512, res')" "took {p * 512..<p * 512 + 512} al res a (al + bm_l0_gran a * 512) res' (a\<lparr>bm_l0 := v\<rparr>)"
  proof -
    have "al + bm_l0_gran a * 512 < 2 ^ 64" using al by (simp only: ac_simps)
    from take_run [OF geo mx ok full [unfolded sp] _ this] that show thesis by (simp only: zero_less_numeral simp_thms) blast
  qed
  have "vset (bm_l0 b) = vset (bm_l0 (a\<lparr>bm_l0 := v\<rparr>))" using r(2) b(4) by (simp add: took_def put_set_def)
  then have "took {p * 512..<p * 512 + 512} al res a (al + bm_l0_gran a * 512) res' b" using took_level [OF r(2) _ b(3)] by simp
  then show ?thesis using r(1) b(1,2) unfolding sp mult.commute [of "bm_l0_gran a" 512] by blast
qed

lemma take_from_entry:
  assumes inv: "l01_inv a" and mx: "bm_l0_gran a dvd mx" "0 < mx" "mx \<le> 2 ^ 31" and ok: "res_ok res a"
    and p: "p < 32 * length (bm_l1 a)" and rq: "request (bm_l0_gran a) len al"
  shows "\<exists>T r al' res' a1 b. allocate_l0 (len - al) (bm_l0_gran a) mx (p * 512) (p * 512 + 512) al res a = Some (r, al', res', a1) \<and>
    mark_l1_on_l0 (p * 512) (p * 512 + 512) a1 = Some b \<and> l01_inv b \<and> T \<subseteq> espan p \<and> took T al res a al' res' b \<and>
    request (bm_l0_gran a) len al' \<and> (al' = len \<or> vset (bm_l0 b) \<inter> espan p = {})"
proof -
  define g where "g = bm_l0_gran a"
  have i: "l01_geo a" "l01_counts a" "l1_agrees {} a" using inv by (auto simp: l01_inv_def)
  have g: "0 < g" using l01_geoD(1) [OF i(1)] by (simp add: g_def)
  note rr = request_rem [OF rq, folded g_def]
  have sp: "espan p = {p * 512..<p * 512 + 512}" by (simp add: espan_def ac_simps)
  have le: "p * 512 + 512 \<le> 64 * length (bm_l0 a)" using p l01_geoD(3) [OF i(1)] by linarith
  have d: "64 dvd p * 512 + 512" by (simp add: dvd_add)
  have "al + g * ((len - al) div g) < 2 ^ 64" using rr(3) rq by (simp add: request_def)
  from allocate_l0_loop_ok [OF mx d i(1) _ ok le this [unfolded g_def], of "p * 512"] obtain T need' al' res' v
    where r: "allocate_l0_loop mx g ((len - al) div g) (p * 512) (p * 512 + 512) al res a = Some (need', al', res', a\<lparr>bm_l0 := v\<rparr>)"
    "T \<subseteq> espan p" "need' + card T = (len - al) div g" "took T al res a al' res' (a\<lparr>bm_l0 := v\<rparr>)"
    "need' = 0 \<or> vset (bm_l0 a) \<inter> espan p \<subseteq> T" unfolding sp g_def by auto
  define a1 where "a1 = a\<lparr>bm_l0 := v\<rparr>"
  have vs: "vset v = vset (bm_l0 a) - T" and fr: "l01_frame a a1" using r(4) by (simp_all add: took_def a1_def)
  have a1: "l01_geo a1" "l01_counts a1" "entries_ok (bm_l1 a1)" "p * 512 + 512 \<le> 64 * length (bm_l0 a1)"
    using i l01_frame_geo [OF fr] l1_agrees_entries [OF i(3)] le fr by (simp_all add: a1_def l01_counts_def l01_frame_def)
  have "{p * 512 div 512..<(p * 512 + 512 + 511) div 512} = {p}" by auto
  then have "l1_agrees {p * 512 div 512..<(p * 512 + 512 + 511) div 512} a1" using took_agrees [OF i(3) r(2) vs] by (simp add: a1_def)
  from mark_l1_on_l0_ok [OF a1(1-3) _ a1(4) this] obtain b where b: "mark_l1_on_l0 (p * 512) (p * 512 + 512) a1 = Some b" "l01_inv b"
    "l01_frame a1 b" "bm_l0 b = bm_l0 a1" by auto
  have tk: "took T al res a al' res' b" using took_level [OF r(4) _ l01_frame_trans [OF fr b(3)]] b(4) by (simp add: a1_def)
  have al': "al' + g * need' = len"
  proof -
    have "al' = al + g * card T" using r(4) by (simp add: took_def g_def)
    moreover have "g * need' + g * card T = g * ((len - al) div g)" using r(3) by (metis distrib_left)
    ultimately show ?thesis using rr(3) by linarith
  qed
  have "g dvd al'" using r(4) rq by (simp add: took_def g_def request_def)
  then have "request g len al'" using rq al' by (simp add: request_def g_def)
  moreover have "al' = len \<or> vset (bm_l0 b) \<inter> espan p = {}" using r(5) al' b(4) vs by (auto simp: a1_def)
  moreover have "allocate_l0 (len - al) g mx (p * 512) (p * 512 + 512) al res a = Some (if need' \<noteq> 0 then - ENOSPC else 0, al', res', a1)"
    using r(1) g by (simp add: allocate_l0_def g_def a1_def)
  ultimately show ?thesis using b(1,2) r(2) tk unfolding g_def by blast
qed

definition spans :: "nat set \<Rightarrow> nat set" where
  "spans E = (\<Union>e \<in> E. espan e)"

lemma spans_simps [simp]: "spans {} = {}" "spans (insert e E) = espan e \<union> spans E"
  by (auto simp: spans_def)

lemma allocate_l1_loop_ok:
  assumes mx: "g dvd mx" "0 < mx" "mx \<le> 2 ^ 31"
  shows "l01_inv a \<Longrightarrow> bm_l0_gran a = g \<Longrightarrow> res_ok res a \<Longrightarrow> request g len al \<Longrightarrow> \<forall>p \<in> set ps. p < 32 * length (bm_l1 a) \<Longrightarrow>
    \<exists>T al' res' b. allocate_l1_loop len g mx ps al res a = Some (al', res', b) \<and> took T al res a al' res' b \<and> l01_inv b \<and>
      T \<subseteq> spans (set ps) \<and> request g len al' \<and> (al' = len \<or> vset (bm_l0 b) \<inter> spans (set ps) = {})"
proof (induction ps arbitrary: al res a)
  case Nil
  then show ?case using took_refl by fastforce
next
  case (Cons p ps)
  have i: "l01_geo a" "l1_agrees {} a" using Cons.prems(1) by (auto simp: l01_inv_def)
  have p: "p < 32 * length (bm_l1 a)" using Cons.prems(5) by simp
  have ent: "l1_entry (bm_l1 a) p = Some (espec (vset (bm_l0 a)) p)" using l1_entry_eq [OF p] i(2) p by (simp add: l1_agrees_def)
  note rr = request_rem [OF Cons.prems(4)]
  have whole: "mul64 512 g = 512 * g"
  proof -
    have "512 \<le> 64 * length (bm_l0 a)" using p l01_geoD(3) [OF i(1)] by linarith
    then show ?thesis using pos_bytes(2) [OF i(1), of 512] Cons.prems(2) by simp
  qed
  have step: "\<exists>T al' res' b. allocate_l1_loop len g mx ps al1 res1 a1 = Some (al', res', b) \<and> took T al res a al' res' b \<and> l01_inv b \<and>
      T \<subseteq> spans (set (p # ps)) \<and> request g len al' \<and> (al' = len \<or> vset (bm_l0 b) \<inter> spans (set (p # ps)) = {})"
    if tk: "took T1 al res a al1 res1 a1" and inv1: "l01_inv a1" and T1: "T1 \<subseteq> espan p" and rq1: "request g len al1"
      and dn: "al1 = len \<or> vset (bm_l0 a1) \<inter> espan p = {}" for T1 al1 res1 a1
  proof -
    have fr: "bm_l0_gran a1 = g" "length (bm_l1 a1) = length (bm_l1 a)" using tk Cons.prems(2) by (auto simp: took_def l01_frame_def)
    obtain T al' res' b where r: "allocate_l1_loop len g mx ps al1 res1 a1 = Some (al', res', b)" "took T al1 res1 a1 al' res' b" "l01_inv b"
      "T \<subseteq> spans (set ps)" "request g len al'" "al' = len \<or> vset (bm_l0 b) \<inter> spans (set ps) = {}"
      using Cons.IH [OF inv1 fr(1) took_res_ok [OF tk Cons.prems(3)] rq1] fr(2) Cons.prems(5) by auto
    have "al' = len" if "al1 = len" using r(2,5) that by (simp add: took_def request_def)
    moreover have "vset (bm_l0 b) \<subseteq> vset (bm_l0 a1)" using r(2) by (auto simp: took_def)
    ultimately have "al' = len \<or> vset (bm_l0 b) \<inter> spans (set (p # ps)) = {}" using dn r(6) by auto
    then show ?thesis using r took_trans [OF tk r(2)] T1
      by (intro exI [of _ "T1 \<union> T"] exI [of _ al'] exI [of _ res'] exI [of _ b]) auto
  qed
  consider (full) "espan p \<inter> vset (bm_l0 a) = {}" | (sat) "espan p \<inter> vset (bm_l0 a) \<noteq> {}" "al = len"
    | (whole) "espan p \<subseteq> vset (bm_l0 a)" "espan p \<inter> vset (bm_l0 a) \<noteq> {}" "al \<noteq> len" "512 * g \<le> len - al"
    | (part) "espan p \<inter> vset (bm_l0 a) \<noteq> {}" "al \<noteq> len" "\<not> (espan p \<subseteq> vset (bm_l0 a) \<and> 512 * g \<le> len - al)" by blast
  then show ?case
  proof cases
    case full
    then have "allocate_l1_loop len g mx (p # ps) al res a = allocate_l1_loop len g mx ps al res a" using ent by (simp add: espec_def)
    moreover have "vset (bm_l0 a) \<inter> espan p = {}" using full by blast
    ultimately show ?thesis
      using step [OF took_refl [OF Cons.prems(3)] Cons.prems(1) _ Cons.prems(4)] by (simp only: empty_subsetI simp_thms)
  next
    case sat
    then have "allocate_l1_loop len g mx (p # ps) al res a = Some (al, res, a)" using ent rr(1) by (simp add: espec_def Let_def)
    then show ?thesis using took_refl [OF Cons.prems(3), of al] Cons.prems(1,4) sat(2) by auto
  next
    case whole
    have le: "al + 512 * g \<le> len" "len < 2 ^ 63" using whole(4) Cons.prems(4) unfolding request_def by linarith+
    then have "al + 512 * bm_l0_gran a < 2 ^ 64" using Cons.prems(2) by simp
    from take_entry [OF Cons.prems(1) _ mx(2,3) Cons.prems(3) p whole(1) this] mx(1) Cons.prems(2) obtain res1 a1
      where f: "fragment_and_emplace mx g (mul64 (p * 512) g) (mul64 512 g) al res = Some (al + 512 * g, res1)"
        "mark_alloc_l1_l0 (p * 512) (p * 512 + 512) a = Some a1" "l01_inv a1" "took (espan p) al res a (al + 512 * g) res1 a1" by auto
    have "request g len (al + 512 * g)" using Cons.prems(4) le(1) by (simp add: request_def)
    moreover have "vset (bm_l0 a1) \<inter> espan p = {}" using f(4) by (auto simp: took_def)
    ultimately have "\<exists>T al' res' b. allocate_l1_loop len g mx ps (al + 512 * g) res1 a1 = Some (al', res', b) \<and> took T al res a al' res' b \<and>
        l01_inv b \<and> T \<subseteq> spans (set (p # ps)) \<and> request g len al' \<and> (al' = len \<or> vset (bm_l0 b) \<inter> spans (set (p # ps)) = {})"
      using step [OF f(4,3)] by simp
    moreover have "allocate_l1_loop len g mx (p # ps) al res a = allocate_l1_loop len g mx ps (al + 512 * g) res1 a1"
      using ent whole rr(1) f(1,2) Cons.prems(2,4) \<open>mul64 512 g = 512 * g\<close> by (simp add: espec_def Let_def request_def)
    ultimately show ?thesis by (simp only:)
  next
    case part
    obtain T1 r al1 res1 a1 a2 where f: "allocate_l0 (len - al) g mx (p * 512) (p * 512 + 512) al res a = Some (r, al1, res1, a1)"
      "mark_l1_on_l0 (p * 512) (p * 512 + 512) a1 = Some a2" "l01_inv a2" "T1 \<subseteq> espan p" "took T1 al res a al1 res1 a2"
      "request g len al1" "al1 = len \<or> vset (bm_l0 a2) \<inter> espan p = {}"
      using take_from_entry [OF Cons.prems(1) _ mx(2,3) Cons.prems(3) p, of len al] mx(1) Cons.prems(2,4) by auto
    have "\<exists>T al' res' b. allocate_l1_loop len g mx ps al1 res1 a2 = Some (al', res', b) \<and> took T al res a al' res' b \<and>
        l01_inv b \<and> T \<subseteq> spans (set (p # ps)) \<and> request g len al' \<and> (al' = len \<or> vset (bm_l0 b) \<inter> spans (set (p # ps)) = {})"
      by (rule step [OF f(5,3,4,6,7)])
    moreover have "allocate_l1_loop len g mx (p # ps) al res a = allocate_l1_loop len g mx ps al1 res1 a2"
      using ent part rr(1) f(1,2) Cons.prems(2,4) \<open>mul64 512 g = 512 * g\<close> by (auto simp: espec_def Let_def request_def)
    ultimately show ?thesis by (simp only:)
  qed
qed

end
