(* ===== verification/Bitmap_Client.thy ===== *)
theory Bitmap_Client
  imports Bitmap_Space
begin

text \<open>
  Level 2 and the interface of the bitmap allocator. The state has one word of level 2, that is at most
  \<open>64 * 2 ^ 17\<close> blocks: with more, the scan over level 2 compares the number of a bit in its word with a
  position and can leave the vectors.
\<close>

section \<open>Level 2\<close>

definition l2span :: "nat \<Rightarrow> nat set" where
  "l2span p = {131072 * p..<131072 * p + 131072}"

abbreviation bm_set :: "bitmap \<Rightarrow> nat set" where
  "bm_set s \<equiv> vset (bm_l0 (bm_levels s))"

abbreviation bm_gran :: "bitmap \<Rightarrow> nat" where
  "bm_gran s \<equiv> bm_l0_gran (bm_levels s)"

definition l2_agrees :: "bitmap \<Rightarrow> bool" where
  "l2_agrees s \<longleftrightarrow> length (bm_l2 s) = 1 \<and> (\<forall>p < 64. p \<in> vset (bm_l2 s) \<longleftrightarrow> bm_set s \<inter> l2span p \<noteq> {})"

text \<open>The invariant without the counter of free bytes.\<close>

definition bm_core :: "bitmap \<Rightarrow> bool" where
  "bm_core s \<longleftrightarrow> l01_inv (bm_levels s) \<and> l2_agrees s \<and> bm_l2_gran s = 131072 * bm_gran s \<and>
     length (bm_l1 (bm_levels s)) \<le> 512 \<and> bm_gran s * 2 ^ 23 < 2 ^ 63 \<and> bm_gran s dvd bm_device_size s \<and>
     bm_device_size s \<le> 64 * length (bm_l0 (bm_levels s)) * bm_gran s \<and> bm_set s \<subseteq> {..<bm_device_size s div bm_gran s}"

definition bm_inv :: "bitmap \<Rightarrow> bool" where
  "bm_inv s \<longleftrightarrow> bm_core s \<and> bm_available s = bm_gran s * card (bm_set s)"

lemma l2span_spans: "l2span p = spans {p * 256..<p * 256 + 256}"
proof -
  have "x \<in> spans {p * 256..<p * 256 + 256}" if "x \<in> l2span p" for x
  proof -
    have "p * 256 \<le> x div 512" "x div 512 < p * 256 + 256" using that by (auto simp: l2span_def)
    moreover have "x \<in> espan (x div 512)" using div_mult_mod_eq [of x 512] mod_less_divisor [of 512 x] unfolding espan_def by simp
    ultimately show ?thesis unfolding spans_def by (intro UN_I [of "x div 512"]) auto
  qed
  moreover have "spans {p * 256..<p * 256 + 256} \<subseteq> l2span p" by (auto simp: spans_def espan_def l2span_def)
  ultimately show ?thesis by blast
qed

lemma l2span_disjoint: "p \<noteq> q \<Longrightarrow> l2span p \<inter> l2span q = {}"
  by (auto simp: l2span_def)

lemma all_clear_ok: "\<forall>i \<in> set ns. i < length v \<Longrightarrow> all_clear ns v = Some (\<forall>i \<in> set ns. v ! i = 0)"
  by (induction ns) auto

lemma fully_allocated_ok:
  assumes "l01_geo a" and "e < 32 * length (bm_l1 a)"
  shows "is_slot_fully_allocated e a = Some (vset (bm_l0 a) \<inter> espan e = {})"
proof -
  have le: "8 * e + 8 \<le> length (bm_l0 a)" using assms by (simp add: l01_geo_def)
  have "take 8 (drop (8 * e) (bm_l0 a)) = map (\<lambda>i. bm_l0 a ! i) [e * 8..<e * 8 + 8]"
    using le by (intro nth_equalityI) (auto simp: ac_simps)
  then have "(\<forall>i \<in> set [e * 8..<e * 8 + 8]. bm_l0 a ! i = 0) \<longleftrightarrow> (\<forall>w \<in> set (take 8 (drop (8 * e) (bm_l0 a))). w = 0)" by simp
  also have "\<dots> \<longleftrightarrow> (\<forall>p \<in> espan e. p \<notin> vset (bm_l0 a))" using slotset_words [OF le, of False] by simp
  finally show ?thesis using all_clear_ok [of "[e * 8..<e * 8 + 8]" "bm_l0 a"] le by (auto simp: is_slot_fully_allocated_def)
qed

lemma is_empty_l1_ok:
  assumes "l01_geo a" and "e \<le> 32 * length (bm_l1 a)"
  shows "is_empty_l1 s e a = Some (vset (bm_l0 a) \<inter> spans {s..<e} = {})"
proof -
  have "\<forall>i \<in> set es. i < 32 * length (bm_l1 a) \<Longrightarrow> empty_entries es a = Some (vset (bm_l0 a) \<inter> spans (set es) = {})" for es
    by (induction es) (auto simp: fully_allocated_ok [OF assms(1)])
  from this [of "[s..<e]"] assms(2) show ?thesis by (simp add: is_empty_l1_def)
qed

lemma any_entry_ok: "\<forall>i \<in> set ns. i < 32 * length v \<Longrightarrow> any_entry ns v = Some (\<exists>i \<in> set ns. entry v i \<noteq> 0)"
  by (induction ns) (auto simp: l1_entry_eq)

lemma any_free_ok:
  assumes "l01_inv a" and "p * 256 + 256 \<le> 32 * length (bm_l1 a)"
  shows "any_entry [p * 32 * 8..<p * 32 * 8 + 256] (bm_l1 a) = Some (vset (bm_l0 a) \<inter> l2span p \<noteq> {})"
proof -
  have "any_entry [p * 256..<p * 256 + 256] (bm_l1 a) = Some (\<exists>i \<in> {p * 256..<p * 256 + 256}. entry (bm_l1 a) i \<noteq> 0)"
    using any_entry_ok [of "[p * 256..<p * 256 + 256]" "bm_l1 a"] assms(2) by simp
  also have "(\<exists>i \<in> {p * 256..<p * 256 + 256}. entry (bm_l1 a) i \<noteq> 0) \<longleftrightarrow> (\<exists>i \<in> {p * 256..<p * 256 + 256}. espan i \<inter> vset (bm_l0 a) \<noteq> {})"
    using assms by (auto simp: l01_inv_def l1_agrees_def espec_def)
  also have "\<dots> \<longleftrightarrow> vset (bm_l0 a) \<inter> l2span p \<noteq> {}" unfolding l2span_spans spans_def by auto
  finally show ?thesis by (simp add: ac_simps)
qed

lemma bm_coreD:
  assumes "bm_core s"
  shows "l01_inv (bm_levels s)" and "l01_geo (bm_levels s)" and "0 < bm_gran s" and "l2_agrees s" and "length (bm_l1 (bm_levels s)) \<le> 512"
    and "bm_l2_gran s = 131072 * bm_gran s" and "p < 64 \<Longrightarrow> bm_set s \<inter> l2span p \<noteq> {} \<Longrightarrow> p * 256 + 256 \<le> 32 * length (bm_l1 (bm_levels s))"
    and "bm_set s \<subseteq> (\<Union>p < 64. l2span p)"
proof -
  show i: "l01_inv (bm_levels s)" "l2_agrees s" "length (bm_l1 (bm_levels s)) \<le> 512" "bm_l2_gran s = 131072 * bm_gran s"
    using assms by (auto simp: bm_core_def)
  then show geo: "l01_geo (bm_levels s)" by (simp add: l01_inv_def)
  then show "0 < bm_gran s" by (rule l01_geoD)
  obtain m where m: "length (bm_l1 (bm_levels s)) = 8 * m" using geo by (auto simp: l01_geo_def elim: dvdE)
  have len: "64 * length (bm_l0 (bm_levels s)) = 131072 * m" using l01_geoD(3) [OF geo] m by simp
  show "p * 256 + 256 \<le> 32 * length (bm_l1 (bm_levels s))" if "p < 64" and ne: "bm_set s \<inter> l2span p \<noteq> {}"
  proof -
    obtain x where "x \<in> bm_set s" "x \<in> l2span p" using ne by blast
    then have "131072 * p < 131072 * m" using len by (auto simp: vset_def l2span_def)
    then show ?thesis using m by simp
  qed
  show "bm_set s \<subseteq> (\<Union>p < 64. l2span p)"
  proof
    fix x assume "x \<in> bm_set s"
    then have "x < 131072 * m" using len by (simp add: vset_def)
    moreover have "m \<le> 64" using i(3) m by simp
    ultimately have "x div 131072 < 64" by (simp add: div_less_iff_less_mult)
    moreover have "x \<in> l2span (x div 131072)" using div_mult_mod_eq [of x 131072] mod_less_divisor [of 131072 x] unfolding l2span_def by simp
    ultimately show "x \<in> (\<Union>p < 64. l2span p)" by blast
  qed
qed

section \<open>The scan of level 2\<close>

text \<open>What an allocation does to the whole state: the blocks \<open>T\<close> leave it and the frame stays.\<close>

definition bm_frame :: "bitmap \<Rightarrow> bitmap \<Rightarrow> bool" where
  "bm_frame s t \<longleftrightarrow> l01_frame (bm_levels s) (bm_levels t) \<and> bm_l2_gran t = bm_l2_gran s \<and> bm_device_size t = bm_device_size s"

lemma bm_frame_refl [simp]: "bm_frame s s" and bm_frame_trans: "bm_frame s t \<Longrightarrow> bm_frame t u \<Longrightarrow> bm_frame s u"
  by (auto simp: bm_frame_def intro: l01_frame_trans)

definition bm_took :: "nat set \<Rightarrow> u64 \<Rightarrow> extents \<Rightarrow> bitmap \<Rightarrow> u64 \<Rightarrow> extents \<Rightarrow> bitmap \<Rightarrow> bool" where
  "bm_took T al res s al' res' t \<longleftrightarrow> took T al res (bm_levels s) al' res' (bm_levels t) \<and> bm_frame s t \<and> bm_core t"

lemma bm_took_refl: "bm_core s \<Longrightarrow> res_ok res (bm_levels s) \<Longrightarrow> bm_took {} al res s al res s"
  by (simp add: bm_took_def took_refl)

lemma bm_took_trans: "bm_took T al res s al1 res1 t \<Longrightarrow> bm_took U al1 res1 t al2 res2 u \<Longrightarrow> bm_took (T \<union> U) al res s al2 res2 u"
  by (auto simp: bm_took_def intro: took_trans bm_frame_trans)

lemma bm_took_avail: "bm_took T al res s al' res' t \<Longrightarrow> bm_took T al res s al' res' (t\<lparr>bm_last_pos := x, bm_available := y\<rparr>)"
  "bm_took T al res s al' res' t \<Longrightarrow> bm_took T al res s al' res' (t\<lparr>bm_available := y\<rparr>)"
  by (auto simp: bm_took_def bm_frame_def bm_core_def l2_agrees_def)

lemma core_after_take:
  assumes core: "bm_core s" and n: "n < 64" and tk: "took T al res (bm_levels s) al' res' b" and b: "l01_inv b" and T: "T \<subseteq> l2span n"
    and v: "length v = 1" "vset v = (if vset (bm_l0 b) \<inter> l2span n = {} then vset (bm_l2 s) - {n} else vset (bm_l2 s))"
  shows "bm_took T al res s al' res' (s\<lparr>bm_levels := b, bm_l2 := v\<rparr>)"
proof -
  have S: "vset (bm_l0 b) = bm_set s - T" and fr: "l01_frame (bm_levels s) b" using tk by (auto simp: took_def)
  note l2 = bm_coreD(4) [OF core, unfolded l2_agrees_def]
  have "p \<in> vset v \<longleftrightarrow> vset (bm_l0 b) \<inter> l2span p \<noteq> {}" if "p < 64" for p
  proof (cases "p = n")
    case True
    have "vset (bm_l0 b) \<inter> l2span n \<noteq> {} \<Longrightarrow> n \<in> vset (bm_l2 s)" using l2 n S by auto
    then show ?thesis using True v(2) by auto
  next
    case False
    then have "vset (bm_l0 b) \<inter> l2span p = bm_set s \<inter> l2span p" using S T l2span_disjoint [OF False] by auto
    moreover have "p \<in> vset v \<longleftrightarrow> p \<in> vset (bm_l2 s)" using v(2) False by auto
    ultimately show ?thesis using l2 that by auto
  qed
  then have "l2_agrees (s\<lparr>bm_levels := b, bm_l2 := v\<rparr>)" using v(1) by (simp add: l2_agrees_def)
  then show ?thesis using core tk b fr S by (auto simp: bm_took_def bm_frame_def bm_core_def l01_frame_def)
qed

lemma mul256: "n * 8 * 32 = n * 256" "n * 256 + 8 * 32 = n * 256 + (256 :: nat)"
  by simp_all

lemma allocate_l2_step:
  assumes core: "bm_core s" and mx: "bm_gran s dvd mx" "0 < mx" "mx \<le> 2 ^ 31" and ok: "res_ok res (bm_levels s)"
    and rq: "request (bm_gran s) want al" and n: "n < 64" "n * 256 + 256 \<le> 32 * length (bm_l1 (bm_levels s))"
  shows "\<exists>T r al' res' a emp v. allocate_l1 want (bm_gran s) mx (n * 8 * 32) (n * 8 * 32 + 8 * 32) al res (bm_levels s) = Some (r, al', res', a) \<and>
    is_empty_l1 (n * 8 * 32) (n * 8 * 32 + 8 * 32) a = Some emp \<and>
    (if emp then upd_slot (put_slot_bit False n) 0 (bm_l2 s) else Some (bm_l2 s)) = Some v \<and>
    bm_took T al res s al' res' (s\<lparr>bm_levels := a, bm_l2 := v\<rparr>) \<and> request (bm_gran s) want al' \<and>
    (al' = want \<or> vset (bm_l0 a) \<inter> l2span n = {})"
proof -
  have "\<forall>p \<in> set [n * 256..<n * 256 + 256]. p < 32 * length (bm_l1 (bm_levels s))" using n(2) by auto
  from allocate_l1_loop_ok [OF mx bm_coreD(1) [OF core] refl ok rq this] obtain T al' res' a
    where r: "allocate_l1_loop want (bm_gran s) mx [n * 256..<n * 256 + 256] al res (bm_levels s) = Some (al', res', a)"
      "took T al res (bm_levels s) al' res' a" "l01_inv a" "T \<subseteq> l2span n" "request (bm_gran s) want al'"
      "al' = want \<or> vset (bm_l0 a) \<inter> l2span n = {}" unfolding l2span_spans by auto
  have len: "length (bm_l1 a) = length (bm_l1 (bm_levels s))" using r(2) by (simp add: took_def l01_frame_def)
  define emp where "emp = (vset (bm_l0 a) \<inter> l2span n = {})"
  have e: "is_empty_l1 (n * 256) (n * 256 + 256) a = Some emp"
    using is_empty_l1_ok [of a "n * 256 + 256" "n * 256"] r(3) n(2) len by (simp add: emp_def l2span_spans l01_inv_def)
  have l2: "length (bm_l2 s) = 1" using bm_coreD(4) [OF core] by (simp add: l2_agrees_def)
  obtain v where v: "(if emp then upd_slot (put_slot_bit False n) 0 (bm_l2 s) else Some (bm_l2 s)) = Some v" "length v = 1"
    "vset v = (if emp then vset (bm_l2 s) - {n} else vset (bm_l2 s))"
    using upd_bit [of n "bm_l2 s" False] n(1) l2 by (cases emp) (auto simp: put_set_def)
  have "bm_took T al res s al' res' (s\<lparr>bm_levels := a, bm_l2 := v\<rparr>)"
    using core_after_take [OF core n(1) r(2,3,4) v(2)] v(3) by (simp add: emp_def)
  moreover have "allocate_l1 want (bm_gran s) mx (n * 8 * 32) (n * 8 * 32 + 8 * 32) al res (bm_levels s) =
      Some (if al' \<ge> want then 0 else - ENOSPC, al', res', a)" unfolding mul256 allocate_l1_def r(1) by simp
  ultimately show ?thesis using e v(1) r(5,6) unfolding mul256 by blast
qed

lemma l2_bit: "l2_agrees s \<Longrightarrow> p < 64 \<Longrightarrow> bit (bm_l2 s ! 0) p \<longleftrightarrow> bm_set s \<inter> l2span p \<noteq> {}"
  using word_in_vset [of 0 "bm_l2 s" p] by (simp add: l2_agrees_def)

text \<open>The next bit the loop looks at: the blocks of the bits it skips are all taken.\<close>

lemma next_l2_bit:
  assumes core: "bm_core s" and se: "scan_end \<le> 64" and val: "val = - 1 \<longrightarrow> length (bm_l1 (bm_levels s)) = 512"
    and gone: "\<forall>p. lo \<le> p \<and> p < scan_end \<and> p \<le> n \<longrightarrow> bm_set s \<inter> l2span p = {}"
  defines "b \<equiv> if val = - 1 then if n + 1 < scan_end then int n + 1 else - 1 else find_next_set_bit (bm_l2 s ! 0) (n + 1)"
  shows "- 1 \<le> b" and "b \<ge> 0 \<longrightarrow> n < nat b" and "b \<ge> 0 \<and> nat b < scan_end \<longrightarrow> nat b * 256 + 256 \<le> 32 * length (bm_l1 (bm_levels s))"
    and "\<forall>p. lo \<le> p \<and> p < scan_end \<and> (b < 0 \<or> p < nat b) \<longrightarrow> bm_set s \<inter> l2span p = {}"
proof -
  note l2 = l2_bit [OF bm_coreD(4) [OF core]]
  have all: "- 1 \<le> b \<and> (b \<ge> 0 \<longrightarrow> n < nat b) \<and> (b \<ge> 0 \<and> nat b < scan_end \<longrightarrow> nat b * 256 + 256 \<le> 32 * length (bm_l1 (bm_levels s))) \<and>
      (\<forall>p. lo \<le> p \<and> p < scan_end \<and> (b < 0 \<or> p < nat b) \<longrightarrow> bm_set s \<inter> l2span p = {})"
  proof (cases "val = - 1")
    case True
    then show ?thesis using val gone se by (auto simp: b_def)
  next
    case False
    show ?thesis
    proof (cases "n + 1 < 64")
      case big: False
      then have "b = - 1" using False by (simp add: b_def find_next_set_bit_def)
      then show ?thesis using big se gone by auto
    next
      case True
      consider "b = - 1" "\<forall>j. n + 1 \<le> j \<longrightarrow> j < 64 \<longrightarrow> \<not> bit (bm_l2 s ! 0) j"
        | m where "b = int m" "n + 1 \<le> m" "m < 64" "bit (bm_l2 s ! 0) m" "\<forall>j. n + 1 \<le> j \<longrightarrow> j < m \<longrightarrow> \<not> bit (bm_l2 s ! 0) j"
        using find_next_set_bit_ok [OF True, of "bm_l2 s ! 0"] False by (auto simp: b_def)
      then show ?thesis
      proof cases
        case 1
        have "bm_set s \<inter> l2span p = {}" if "lo \<le> p" "p < scan_end" for p
          using that gone 1(2) l2 [of p] se by (cases "p \<le> n") auto
        then show ?thesis using 1(1) by simp
      next
        case 2
        have "bm_set s \<inter> l2span p = {}" if "lo \<le> p" "p < scan_end" "p < m" for p
          using that gone 2(5) l2 [of p] se by (cases "p \<le> n") auto
        moreover have "m * 256 + 256 \<le> 32 * length (bm_l1 (bm_levels s))" using bm_coreD(7) [OF core 2(3)] l2 [OF 2(3)] 2(4) by simp
        ultimately show ?thesis using 2(1,2) by auto
      qed
    qed
  qed
  then show "- 1 \<le> b" "b \<ge> 0 \<longrightarrow> n < nat b" "b \<ge> 0 \<and> nat b < scan_end \<longrightarrow> nat b * 256 + 256 \<le> 32 * length (bm_l1 (bm_levels s))"
    "\<forall>p. lo \<le> p \<and> p < scan_end \<and> (b < 0 \<or> p < nat b) \<longrightarrow> bm_set s \<inter> l2span p = {}" by blast+
qed

definition scanned :: "nat \<Rightarrow> u64 \<Rightarrow> nat \<Rightarrow> nat \<Rightarrow> bitmap \<Rightarrow> bool \<Rightarrow> u64 \<Rightarrow> bitmap \<Rightarrow> bool" where
  "scanned g want lo hi s found al t \<longleftrightarrow> request g want al \<and>
     (if found then al = want \<and> bm_available t = sub64 (bm_available s) al
      else al \<noteq> want \<and> bm_available t = bm_available s \<and> (\<forall>p. lo \<le> p \<and> p < hi \<longrightarrow> bm_set t \<inter> l2span p = {}))"

lemma allocate_l2_bits_ok:
  assumes mx: "g dvd mx" "0 < mx" "mx \<le> 2 ^ 31" and se: "scan_end \<le> 64" and idx: "idx < 64"
  shows "bm_core s \<Longrightarrow> bm_gran s = g \<Longrightarrow> res_ok res (bm_levels s) \<Longrightarrow> request g want al \<Longrightarrow> al \<noteq> want \<Longrightarrow> - 1 \<le> b \<Longrightarrow>
    val = - 1 \<longrightarrow> length (bm_l1 (bm_levels s)) = 512 \<Longrightarrow>
    b \<ge> 0 \<and> nat b < scan_end \<longrightarrow> nat b * 256 + 256 \<le> 32 * length (bm_l1 (bm_levels s)) \<Longrightarrow>
    \<forall>p. lo \<le> p \<and> p < scan_end \<and> (b < 0 \<or> p < nat b) \<longrightarrow> bm_set s \<inter> l2span p = {} \<Longrightarrow>
    \<exists>T found al' res' t. allocate_l2_bits want g mx idx scan_end val b al res s = Some (found, al', res', t) \<and>
      bm_took T al res s al' res' t \<and> scanned g want lo scan_end s found al' t"
proof (induction "if b < 0 then 0 else 65 - nat b" arbitrary: b al res s rule: less_induct)
  case less
  show ?case
  proof (cases "b \<ge> 0 \<and> nat b < scan_end")
    case False
    then have "allocate_l2_bits want g mx idx scan_end val b al res s = Some (False, al, res, s)"
      by (subst allocate_l2_bits.simps) auto
    moreover have "scanned g want lo scan_end s False al s" using False less.prems(4,5,9) by (auto simp: scanned_def)
    ultimately show ?thesis using bm_took_refl [OF less.prems(1,3)] by blast
  next
    case True
    define n where "n = nat b"
    have n: "b = int n" "n < scan_end" "n < 64" "n * 256 + 256 \<le> 32 * length (bm_l1 (bm_levels s))" using True less.prems(8) se by (auto simp: n_def)
    obtain T r al1 res1 a emp v where st: "allocate_l1 want g mx (n * 8 * 32) (n * 8 * 32 + 8 * 32) al res (bm_levels s) = Some (r, al1, res1, a)"
      "is_empty_l1 (n * 8 * 32) (n * 8 * 32 + 8 * 32) a = Some emp"
      "(if emp then upd_slot (put_slot_bit False n) 0 (bm_l2 s) else Some (bm_l2 s)) = Some v"
      "bm_took T al res s al1 res1 (s\<lparr>bm_levels := a, bm_l2 := v\<rparr>)" "request g want al1" "al1 = want \<or> vset (bm_l0 a) \<inter> l2span n = {}"
      using allocate_l2_step [OF less.prems(1) _ mx(2,3) less.prems(3) _ n(3,4), of want al] mx(1) less.prems(2,4) by auto
    define s1 where "s1 = s\<lparr>bm_levels := a, bm_l2 := v\<rparr>"
    define b' where "b' = (if val = - 1 then if n + 1 < scan_end then int n + 1 else - 1 else find_next_set_bit (v ! 0) (n + 1))"
    have eq: "allocate_l2_bits want g mx idx scan_end val b al res s =
        (if al1 \<ge> want then Some (True, al1, res1, s1\<lparr>bm_last_pos := n, bm_available := sub64 (bm_available s1) al1\<rparr>)
         else allocate_l2_bits want g mx idx scan_end val b' al1 res1 s1)"
    proof -
      have pos: "idx div 64 * 64 + nat b = n" "idx div 64 = 0" "nat b = n" using idx by (simp_all add: n_def)
      have mid: "(if emp then if b < 64 then upd_slot (put_slot_bit False n) 0 (bm_l2 s) else None else Some (bm_l2 s)) = Some v"
        using st(3) n(1,3) by (cases emp) simp_all
      have bb: "(if val = - 1 then if n + 1 < scan_end then b + 1 else - 1 else find_next_set_bit (v ! 0) (n + 1)) = b'"
        by (simp add: b'_def n(1))
      show ?thesis
        unfolding allocate_l2_bits.simps [of want g mx idx scan_end val b al res s] if_P [OF True] Let_def pos(1)
        unfolding pos(2,3) st(1,2) Option.bind.simps prod.case mid s1_def [symmetric] bb ..
    qed
    show ?thesis
    proof (cases "al1 = want")
      case found: True
      have "bm_took T al res s al1 res1 (s1\<lparr>bm_last_pos := n, bm_available := sub64 (bm_available s1) al1\<rparr>)"
        using st(4) bm_took_avail(1) unfolding s1_def by blast
      moreover have "scanned g want lo scan_end s True al1 (s1\<lparr>bm_last_pos := n, bm_available := sub64 (bm_available s1) al1\<rparr>)"
        using st(5) found by (simp add: scanned_def s1_def)
      ultimately show ?thesis using eq found by auto
    next
      case more: False
      then have lt: "\<not> al1 \<ge> want" using st(5) by (simp add: request_def)
      have tk: "bm_took T al res s al1 res1 s1" using st(4) by (simp add: s1_def)
      have core1: "bm_core s1" and fr: "bm_gran s1 = g" "length (bm_l1 (bm_levels s1)) = length (bm_l1 (bm_levels s))"
        and sub: "bm_set s1 \<subseteq> bm_set s" and ok1: "res_ok res1 (bm_levels s1)"
        using tk less.prems(2) took_res_ok [OF _ less.prems(3)] by (auto simp: bm_took_def took_def l01_frame_def)
      have gone: "\<forall>p. lo \<le> p \<and> p < scan_end \<and> p \<le> n \<longrightarrow> bm_set s1 \<inter> l2span p = {}"
      proof (intro allI impI)
        fix p assume p: "lo \<le> p \<and> p < scan_end \<and> p \<le> n"
        show "bm_set s1 \<inter> l2span p = {}"
        proof (cases "p = n")
          case True
          then show ?thesis using st(6) more by (simp add: s1_def)
        next
          case False
          then have "bm_set s \<inter> l2span p = {}" using less.prems(9) p n(1) by auto
          then show ?thesis using sub by blast
        qed
      qed
      have val1: "val = - 1 \<longrightarrow> length (bm_l1 (bm_levels s1)) = 512" using less.prems(7) fr(2) by simp
      have v0: "bm_l2 s1 = v" by (simp add: s1_def)
      note nb = next_l2_bit [OF core1 se val1 gone, unfolded v0, folded b'_def]
      have dec: "(if b' < 0 then 0 else 65 - nat b') < (if b < 0 then 0 else 65 - nat b)" using nb(2) n(1,3) by auto
      from less.hyps [OF dec core1 fr(1) ok1 st(5) more nb(1) val1 nb(3,4)] obtain U found al' res' t
        where r: "allocate_l2_bits want g mx idx scan_end val b' al1 res1 s1 = Some (found, al', res', t)"
          "bm_took U al1 res1 s1 al' res' t" "scanned g want lo scan_end s1 found al' t" by blast
      have "scanned g want lo scan_end s found al' t" using r(3) by (simp add: scanned_def s1_def)
      then show ?thesis using eq lt r(1) bm_took_trans [OF tk r(2)] by auto
    qed
  qed
qed

lemma allocate_l2_scan_end: "en \<le> idx \<Longrightarrow> allocate_l2_scan want g mx idx en al res s = Some (False, al, res, s)"
  by (subst allocate_l2_scan.simps) auto

lemma first_l2_bit:
  assumes core: "bm_core s" and idx: "idx < en" "en \<le> 64" and val: "val = bm_l2 s ! 0"
  defines "b \<equiv> if val = - 1 then 0 else find_next_set_bit val idx"
  shows "- 1 \<le> b" and "val = - 1 \<longrightarrow> length (bm_l1 (bm_levels s)) = 512"
    and "b \<ge> 0 \<and> nat b < en \<longrightarrow> nat b * 256 + 256 \<le> 32 * length (bm_l1 (bm_levels s))"
    and "\<forall>p. idx \<le> p \<and> p < en \<and> (b < 0 \<or> p < nat b) \<longrightarrow> bm_set s \<inter> l2span p = {}"
proof -
  note l2 = l2_bit [OF bm_coreD(4) [OF core]]
  have i64: "idx < 64" using idx by simp
  show full: "val = - 1 \<longrightarrow> length (bm_l1 (bm_levels s)) = 512"
  proof
    assume "val = - 1"
    then have "bm_set s \<inter> l2span 63 \<noteq> {}" using l2 [of 63] val by simp
    from bm_coreD(7) [OF core _ this] show "length (bm_l1 (bm_levels s)) = 512" using bm_coreD(5) [OF core] by simp
  qed
  have all: "- 1 \<le> b \<and> (b \<ge> 0 \<and> nat b < en \<longrightarrow> nat b * 256 + 256 \<le> 32 * length (bm_l1 (bm_levels s))) \<and>
      (\<forall>p. idx \<le> p \<and> p < en \<and> (b < 0 \<or> p < nat b) \<longrightarrow> bm_set s \<inter> l2span p = {})"
  proof (cases "val = - 1")
    case True
    then show ?thesis using full by (simp add: b_def)
  next
    case False
    consider "b = - 1" "\<forall>j. idx \<le> j \<longrightarrow> j < 64 \<longrightarrow> \<not> bit val j"
      | m where "b = int m" "m < 64" "bit val m" "\<forall>j. idx \<le> j \<longrightarrow> j < m \<longrightarrow> \<not> bit val j"
      using find_next_set_bit_ok [OF i64, of val] False by (auto simp: b_def)
    then show ?thesis
    proof cases
      case 1
      then show ?thesis using l2 val idx(2) by auto
    next
      case 2
      then have "m * 256 + 256 \<le> 32 * length (bm_l1 (bm_levels s))" using bm_coreD(7) [OF core 2(2)] l2 [OF 2(2)] val by simp
      moreover have "bm_set s \<inter> l2span p = {}" if "idx \<le> p" "p < m" for p using l2 [of p] 2(2,4) that val by auto
      ultimately show ?thesis using 2(1) by auto
    qed
  qed
  then show "- 1 \<le> b" "b \<ge> 0 \<and> nat b < en \<longrightarrow> nat b * 256 + 256 \<le> 32 * length (bm_l1 (bm_levels s))"
    "\<forall>p. idx \<le> p \<and> p < en \<and> (b < 0 \<or> p < nat b) \<longrightarrow> bm_set s \<inter> l2span p = {}" by blast+
qed

lemma allocate_l2_scan_ok:
  assumes mx: "g dvd mx" "0 < mx" "mx \<le> 2 ^ 31" and core: "bm_core s" and g: "bm_gran s = g" and ok: "res_ok res (bm_levels s)"
    and rq: "request g want al" "al \<noteq> want" and en: "en \<le> 64"
  shows "\<exists>T found al' res' t. allocate_l2_scan want g mx idx en al res s = Some (found, al', res', t) \<and>
    bm_took T al res s al' res' t \<and> scanned g want idx en s found al' t"
proof (cases "idx < en")
  case False
  then show ?thesis using allocate_l2_scan_end [of en idx] bm_took_refl [OF core ok] rq by (fastforce simp: scanned_def)
next
  case True
  have i64: "idx < 64" "idx div 64 = 0" using True en by simp_all
  define val where "val = bm_l2 s ! 0"
  have len: "length (bm_l2 s) = 1" using bm_coreD(4) [OF core] by (simp add: l2_agrees_def)
  show ?thesis
  proof (cases "val = 0")
    case zero: True
    have "allocate_l2_scan want g mx idx en al res s = Some (False, al, res, s)"
      using True zero i64 len en allocate_l2_scan_end [of en "idx + 64"] by (subst allocate_l2_scan.simps) (simp add: val_def)
    moreover have "bm_set s \<inter> l2span p = {}" if "p < en" for p using l2_bit [OF bm_coreD(4) [OF core], of p] that en zero by (simp add: val_def)
    ultimately show ?thesis using bm_took_refl [OF core ok] rq by (fastforce simp: scanned_def)
  next
    case nz: False
    define b where "b = (if val = - 1 then 0 else find_next_set_bit val idx)"
    have mn: "min 64 en = en" using en by simp
    note fb = first_l2_bit [OF core True en val_def, folded b_def]
    from allocate_l2_bits_ok [OF mx en i64(1) core g ok rq fb(1-4)] obtain T found al' res' t
      where r: "allocate_l2_bits want g mx idx en val b al res s = Some (found, al', res', t)"
        "bm_took T al res s al' res' t" "scanned g want idx en s found al' t" by blast
    have "allocate_l2_scan want g mx idx en al res s = Some (found, al', res', t)"
      using True nz i64 len r(1) allocate_l2_scan_end [of en en] mn
      by (subst allocate_l2_scan.simps) (cases "val = - 1"; cases found; simp add: val_def [symmetric] b_def Let_def)
    then show ?thesis using r by blast
  qed
qed

section \<open>Allocation\<close>

definition bm_free :: "bitmap \<Rightarrow> nat set" where
  "bm_free s = blk (bm_gran s) (bm_set s)"

lemma l2_max_length_ok:
  assumes "isp2 g" and "g \<le> 2 ^ 31" and "mx < 2 ^ 64"
  shows "g dvd l2_max_length g mx" and "0 < l2_max_length g mx" and "l2_max_length g mx \<le> 2 ^ 31"
proof -
  define x where "x = (if mx = 0 \<or> mx \<ge> 2 ^ 31 then 2 ^ 31 else mx :: nat)"
  have x: "x \<le> 2 ^ 31" "x < 2 ^ 64" by (simp_all add: x_def)
  have al: "p2align x g = x div g * g" using assms(1,2) x(2) by (intro p2align_eq) auto
  have g: "0 < g" using isp2_pos [OF assms(1)] .
  have "x div g * g \<le> x" by simp
  then have "x div g * g \<le> 2 ^ 31" using x(1) by linarith
  moreover have "l2_max_length g mx = (if x div g * g < g then g else x div g * g)"
    unfolding l2_max_length_def x_def [symmetric] Let_def al ..
  ultimately show "g dvd l2_max_length g mx" "0 < l2_max_length g mx" "l2_max_length g mx \<le> 2 ^ 31"
    using g assms(2) by auto
qed

lemma available_bound: "bm_inv s \<Longrightarrow> bm_available s < 2 ^ 63"
proof -
  assume inv: "bm_inv s"
  then have core: "bm_core s" by (simp add: bm_inv_def)
  have "card (bm_set s) \<le> 64 * length (bm_l0 (bm_levels s))"
    using card_mono [of "{..<64 * length (bm_l0 (bm_levels s))}" "bm_set s"] by (auto simp: vset_def)
  from pos_bytes(1) [OF bm_coreD(2) [OF core] this] show ?thesis using inv by (simp add: bm_inv_def mult.commute)
qed

lemma bm_took_available:
  assumes "bm_inv s" and "bm_took T 0 res s al' res' t" and "bm_available t = sub64 (bm_available s) al'"
  shows "bm_inv t" and "al' \<le> bm_available s"
proof -
  define g where "g = bm_gran s"
  have t: "T \<subseteq> bm_set s" "bm_set t = bm_set s - T" "bm_gran t = g" "al' = g * card T" "bm_core t"
    using assms(2) by (auto simp: bm_took_def took_def l01_frame_def g_def)
  have i: "bm_core s" "bm_available s = g * card (bm_set s)" using assms(1) by (auto simp: bm_inv_def g_def)
  have fin: "finite T" using t(1) by (rule finite_subset) simp
  then have c: "card T \<le> card (bm_set s)" "card (bm_set s - T) = card (bm_set s) - card T"
    using t(1) by (simp_all add: card_mono card_Diff_subset)
  show le: "al' \<le> bm_available s" using c(1) t(4) i(2) by simp
  have "bm_available s < 2 ^ 63" using available_bound [OF assms(1)] .
  then have "bm_available t = bm_available s - al'" using assms(3) le by (simp add: sub64_exact)
  then show "bm_inv t" using t c i(2) by (simp add: bm_inv_def diff_mult_distrib2)
qed

lemma allocate_l2_ok:
  assumes inv: "bm_inv s" and g: "bm_gran s = g" "isp2 g" "g \<le> 2 ^ 31" and mx: "mx < 2 ^ 64"
    and ok: "res_ok res (bm_levels s)" and want: "0 < want" "want < 2 ^ 63" "g dvd want"
  shows "\<exists>T al' res' t. allocate_l2 want g mx hint res s = Some (if al' > 0 then 0 else - ENOSPC, al', res', t) \<and>
    bm_took T 0 res s al' res' t \<and> bm_inv t \<and> request g want al' \<and> (al' = want \<or> bm_set t = {})"
proof -
  have core: "bm_core s" using inv by (simp add: bm_inv_def)
  have len: "length (bm_l2 s) * 64 = 64" using bm_coreD(4) [OF core] by (simp add: l2_agrees_def)
  define m pos where "m = l2_max_length g mx" and "pos = l2_start hint s"
  have pos: "pos < 64" using len by (auto simp: pos_def l2_start_def Let_def)
  note m = l2_max_length_ok [OF g(2,3) mx, folded m_def]
  have rq: "request g want 0" "0 \<noteq> want" using want by (simp_all add: request_def)
  have gran: "\<not> (hint > 0 \<and> bm_l2_gran s = 0)" using bm_coreD(3,6) [OF core] by simp
  obtain T f1 al1 res1 s1 where 1: "allocate_l2_scan want g m pos 64 0 res s = Some (f1, al1, res1, s1)"
    "bm_took T 0 res s al1 res1 s1" "scanned g want pos 64 s f1 al1 s1"
    using allocate_l2_scan_ok [OF m core g(1) ok rq, of 64 pos] by auto
  show ?thesis
  proof (cases f1)
    case True
    then have "allocate_l2 want g mx hint res s = Some (0, al1, res1, s1)"
      unfolding allocate_l2_def if_not_P [OF gran] Let_def m_def [symmetric] pos_def [symmetric] len 1(1) by simp
    moreover have "al1 = want" "bm_available s1 = sub64 (bm_available s) al1" "request g want al1" using 1(3) True by (auto simp: scanned_def)
    ultimately show ?thesis using 1(2) bm_took_available(1) [OF inv 1(2)] want(1) by auto
  next
    case False
    have core1: "bm_core s1" and g1: "bm_gran s1 = g" and ok1: "res_ok res1 (bm_levels s1)"
      using 1(2) g(1) took_res_ok [OF _ ok] by (auto simp: bm_took_def took_def l01_frame_def)
    have rq1: "request g want al1" "al1 \<noteq> want" and av1: "bm_available s1 = bm_available s"
      and e1: "\<And>p. pos \<le> p \<Longrightarrow> p < 64 \<Longrightarrow> bm_set s1 \<inter> l2span p = {}" using 1(3) False by (auto simp: scanned_def)
    obtain U f2 al2 res2 s2 where 2: "allocate_l2_scan want g m 0 pos al1 res1 s1 = Some (f2, al2, res2, s2)"
      "bm_took U al1 res1 s1 al2 res2 s2" "scanned g want 0 pos s1 f2 al2 s2"
      using allocate_l2_scan_ok [OF m core1 g1 ok1 rq1, of pos 0] pos by auto
    note tk = bm_took_trans [OF 1(2) 2(2)]
    define t where "t = (if f2 \<or> al2 = 0 then s2 else s2\<lparr>bm_available := sub64 (bm_available s2) al2\<rparr>)"
    have tk': "bm_took (T \<union> U) 0 res s al2 res2 t" unfolding t_def using tk bm_took_avail(2) [OF tk] by simp
    have core2: "bm_core s2" and sub: "bm_set s2 \<subseteq> bm_set s1" using 2(2) by (auto simp: bm_took_def took_def)
    have "bm_available s < 2 ^ 64" using available_bound [OF inv] by simp
    then have "sub64 (bm_available s) 0 = bm_available s" by (simp add: sub64_exact)
    then have "bm_available t = sub64 (bm_available s) al2" using 2(3) av1 by (auto simp: t_def scanned_def split: if_splits)
    note inv' = bm_took_available(1) [OF inv tk' this]
    have res: "allocate_l2 want g mx hint res s = Some (if al2 > 0 then 0 else - ENOSPC, al2, res2, t)"
      unfolding allocate_l2_def if_not_P [OF gran] Let_def m_def [symmetric] pos_def [symmetric] len 1(1)
      using False 2(1,3) want(1) by (auto simp: t_def scanned_def)
    have "bm_set s2 = {}" if "\<not> f2"
    proof -
      have "bm_set s2 \<inter> l2span p = {}" if "p < 64" for p
        using e1 [of p] sub 2(3) \<open>\<not> f2\<close> that by (cases "p < pos") (auto simp: scanned_def)
      then show ?thesis using bm_coreD(8) [OF core2] by fastforce
    qed
    then have "al2 = want \<or> bm_set t = {}" using 2(3) by (cases f2) (auto simp: scanned_def t_def)
    moreover have "request g want al2" using 2(3) by (simp add: scanned_def)
    ultimately show ?thesis using res tk' inv' by blast
  qed
qed

lemma bm_allocate_ok:
  assumes inv: "bm_inv s" and g: "bm_gran s = g" "g \<le> 2 ^ 31" and mx: "mx < 2 ^ 64"
    and want: "0 < want" "want < 2 ^ 63" "g dvd want"
  shows "\<exists>xs t. bm_allocate want g mx hint [] s = Some (if xs = [] then - ENOSPC else int (ext_len xs), xs, t) \<and> bm_inv t \<and> bm_frame s t \<and>
    ext_len xs = min want (bm_available s) \<and> ext_disjoint xs \<and> gran_exts g xs \<and> ext_set xs \<subseteq> bm_free s \<and> bm_free t = bm_free s - ext_set xs"
proof -
  have core: "bm_core s" using inv by (simp add: bm_inv_def)
  have gi: "isp2 g" using bm_coreD(2) [OF core] g(1) by (simp add: l01_geo_def)
  have ok: "res_ok [] (bm_levels s)" by (simp add: res_ok_def gran_exts_def)
  obtain T al xs t where r: "allocate_l2 want g mx hint [] s = Some (if al > 0 then 0 else - ENOSPC, al, xs, t)"
    "bm_took T 0 [] s al xs t" "bm_inv t" "request g want al" "al = want \<or> bm_set t = {}"
    using allocate_l2_ok [OF inv g(1) gi g(2) mx ok want] by blast
  have t: "T \<subseteq> bm_set s" "bm_set t = bm_set s - T" "bm_gran t = g" "al = g * card T" "handed g [] xs (blk g T) (g * card T)"
    "bm_frame s t" using r(2) g(1) by (auto simp: bm_took_def took_def l01_frame_def)
  have x: "ext_set xs = blk g T" "ext_len xs = al" "ext_disjoint xs" "gran_exts g xs" using t(4,5) by (auto simp: handed_def)
  have nil: "xs = [] \<longleftrightarrow> al = 0" using x(2,4) ext_len_0_iff [of xs] by (force simp: gran_exts_def)
  have av: "bm_available s = g * card (bm_set s)" using inv g(1) by (simp add: bm_inv_def)
  have "al \<le> bm_available s" using t(1,4) card_mono [of "bm_set s" T] av by simp
  moreover have "al = bm_available s" if "bm_set t = {}" using that t(1,2,4) av by (metis Diff_eq_empty_iff subset_antisym)
  ultimately have "ext_len xs = min want (bm_available s)" using r(4,5) x(2) by (auto simp: request_def)
  moreover have "bm_allocate want g mx hint [] s = Some (if xs = [] then - ENOSPC else int (ext_len xs), xs, t)"
    using r(1) gi want(3) g(1) nil x(2) by (simp add: bm_allocate_def)
  moreover have "ext_set xs \<subseteq> bm_free s" "bm_free t = bm_free s - ext_set xs"
    using x(1) t(1-3) g(1) blk_mono by (auto simp: bm_free_def)
  ultimately show ?thesis using r(3) t(6) x by blast
qed

end
