(* ===== verification/Bitmap_Interface.thy ===== *)
theory Bitmap_Interface
  imports Bitmap_Client
begin

text \<open>
  The rest of the interface of the bitmap allocator: construction, the initial marking of free and used
  space, and release. The allocator implements \<open>space_allocator\<close>.
\<close>

section \<open>Positions of a range of blocks\<close>

lemma round_up_blocks:
  assumes "isp2 g" and "isp2 m" and "x * g < 2 ^ 63" and "m * g < 2 ^ 63"
  shows "p2roundup (x * g) (m * g) div (m * g) = (x + (m - 1)) div m"
proof -
  have g: "0 < g" and m: "0 < m" using assms(1,2) by (simp_all add: isp2_pos)
  have "isp2 (m * g)" using assms(1,2) by (rule isp2_mult [rotated])
  then have "p2roundup (x * g) (m * g) = (x * g + (m * g - 1)) div (m * g) * (m * g)"
    using assms(3,4) by (intro p2roundup_eq) auto
  then have "p2roundup (x * g) (m * g) div (m * g) = (x * g + (m * g - 1)) div g div m"
    using g m by (simp add: div_mult2_eq mult.commute)
  also have "x * g + (m * g - 1) = (g - 1) + (x + (m - 1)) * g"
    using g m by (cases m; cases g) (simp_all add: algebra_simps)
  also have "\<dots> div g = x + (m - 1)" using g by (subst div_mult_self1) auto
  finally show ?thesis .
qed

lemma block_positions:
  assumes core: "bm_core s" and g: "bm_gran s = g" and le: "j + k \<le> bm_device_size s div g"
  shows "add64 (j * g) (k * g) = (j + k) * g" and "j * g div g = j" and "p2roundup ((j + k) * g) g div g = j + k"
    and "j * g div bm_l2_gran s = j div 131072"
    and "p2roundup ((j + k) * g) (bm_l2_gran s) div bm_l2_gran s = (j + k + 131071) div 131072"
    and "j + k \<le> 64 * length (bm_l0 (bm_levels s))" and "bm_l2_gran s \<noteq> 0" and "(j + k + 131071) div 131072 \<le> 64"
    and "j div 131072 \<le> (j + k + 131071) div 131072"
proof -
  have geo: "l01_geo (bm_levels s)" and gp: "0 < g" and g2: "bm_l2_gran s = 131072 * g" using bm_coreD [OF core] g by auto
  have gi: "isp2 g" using geo g by (simp add: l01_geo_def)
  have "bm_device_size s div g \<le> 64 * length (bm_l0 (bm_levels s))"
    using core gp g div_le_mono [of "bm_device_size s" "64 * length (bm_l0 (bm_levels s)) * g" g] by (simp add: bm_core_def)
  then show len: "j + k \<le> 64 * length (bm_l0 (bm_levels s))" using le by linarith
  have lt: "(j + k) * g < 2 ^ 63" using pos_bytes(1) [OF geo len] g by simp
  then show "add64 (j * g) (k * g) = (j + k) * g" by (subst add64_exact) (simp_all add: distrib_right)
  show "j * g div g = j" "j * g div bm_l2_gran s = j div 131072" "bm_l2_gran s \<noteq> 0"
    using gp g2 by (simp_all add: mult.commute [of _ g] div_mult_mult1)
  have one: "isp2 1" and big: "isp2 131072" using isp2_power [of 0] isp2_power [of 17] by simp_all
  have gb: "g * 2 ^ 23 < 2 ^ 63" using core g by (simp add: bm_core_def)
  show "p2roundup ((j + k) * g) g div g = j + k" using round_up_blocks [OF gi one lt] gb by simp
  show "p2roundup ((j + k) * g) (bm_l2_gran s) div bm_l2_gran s = (j + k + 131071) div 131072"
    using round_up_blocks [OF gi big lt] gb g2 by simp
  have "64 * length (bm_l0 (bm_levels s)) \<le> 131072 * 64" using l01_geoD(3) [OF geo] bm_coreD(5) [OF core] by simp
  then have "j + k + 131071 < 131072 * Suc 64" using len by simp
  then show "(j + k + 131071) div 131072 \<le> 64" by (metis less_Suc_eq_le less_mult_imp_div_less mult.commute)
  show "j div 131072 \<le> (j + k + 131071) div 131072" by (intro div_le_mono) simp
qed

lemma l2_range_meets: "0 < k \<Longrightarrow> {j..<j + k} \<inter> l2span p \<noteq> {} \<longleftrightarrow> p \<in> {j div 131072..<(j + k + 131071) div 131072}"
proof -
  assume k: "0 < k"
  have "x \<in> l2span p \<longleftrightarrow> x div 131072 = p" for x unfolding l2span_def by (auto intro: div_nat_eqI)
  then have "{j..<j + k} \<inter> l2span p \<noteq> {} \<longleftrightarrow> (\<exists>x. j \<le> x \<and> x < j + k \<and> x div 131072 = p)" by auto
  also have "\<dots> \<longleftrightarrow> j div 131072 \<le> p \<and> p < (j + k + 131071) div 131072"
  proof
    assume "\<exists>x. j \<le> x \<and> x < j + k \<and> x div 131072 = p"
    then obtain x where x: "j \<le> x" "x < j + k" "x div 131072 = p" by blast
    have "(x + 131072) div 131072 \<le> (j + k + 131071) div 131072" using x(2) by (intro div_le_mono) simp
    then show "j div 131072 \<le> p \<and> p < (j + k + 131071) div 131072" using x div_le_mono [OF x(1), of 131072] by simp
  next
    assume p: "j div 131072 \<le> p \<and> p < (j + k + 131071) div 131072"
    then have lt: "p * 131072 < j + k"
    proof -
      have "Suc p \<le> (j + k + 131071) div 131072" using p by (simp only: Suc_le_eq)
      then have "Suc p * 131072 \<le> j + k + 131071" by (simp only: less_eq_div_iff_mult_less_eq)
      then show ?thesis unfolding mult_Suc by linarith
    qed
    show "\<exists>x. j \<le> x \<and> x < j + k \<and> x div 131072 = p"
    proof (cases "j div 131072 = p")
      case True
      then show ?thesis using k by (intro exI [of _ j]) simp
    next
      case False
      then have "j < p * 131072" using p by (simp add: div_less_iff_less_mult [symmetric])
      then show ?thesis using lt by (intro exI [of _ "p * 131072"]) simp
    qed
  qed
  finally show ?thesis by simp
qed

section \<open>Marking ranges\<close>

text \<open>Marking a range free: the blocks join the free set and levels 1 and 2 follow.\<close>

lemma free_range_ok:
  assumes core: "bm_core s" and g: "bm_gran s = g" and k: "0 < k" "j + k \<le> bm_device_size s div g"
  shows "\<exists>a s1. free_l1 (j * g) (k * g) (bm_levels s) = Some (k * g, a) \<and>
    mark_l2_free (j * g div bm_l2_gran s) (p2roundup ((j + k) * g) (bm_l2_gran s) div bm_l2_gran s) (s\<lparr>bm_levels := a\<rparr>) = Some s1 \<and>
    bm_core s1 \<and> bm_frame s s1 \<and> bm_available s1 = bm_available s \<and> bm_set s1 = bm_set s \<union> {j..<j + k}"
proof -
  note p = block_positions [OF core g k(2)]
  have gp: "bm_gran s \<noteq> 0" using bm_coreD(3) [OF core] by simp
  obtain a where a: "mark_free_l1_l0 j (j + k) (bm_levels s) = Some a" "l01_inv a" "l01_frame (bm_levels s) a"
    "vset (bm_l0 a) = bm_set s \<union> {j..<j + k}"
    using mark_l1_l0_ok [OF bm_coreD(1) [OF core] _ p(6), of j True] by (auto simp: put_set_def)
  note l2 = bm_coreD(4) [OF core, unfolded l2_agrees_def]
  obtain v where v: "mark_l2 True (j div 131072) ((j + k + 131071) div 131072) (bm_l2 s) = Some v" "length v = 1"
    "vset v = vset (bm_l2 s) \<union> {j div 131072..<(j + k + 131071) div 131072}"
    using mark_tail_ok [OF p(9), of "bm_l2 s" True] p(8) l2 by (auto simp: mark_l2_eq put_set_def)
  define s1 where "s1 = s\<lparr>bm_levels := a, bm_l2 := v\<rparr>"
  have "free_l1 (j * g) (k * g) (bm_levels s) = Some (k * g, a)" using a(1) p(1-3) g gp by (simp add: free_l1_def Let_def)
  moreover have "mark_l2_free (j * g div bm_l2_gran s) (p2roundup ((j + k) * g) (bm_l2_gran s) div bm_l2_gran s) (s\<lparr>bm_levels := a\<rparr>) = Some s1"
    unfolding p(4,5) using v(1) by (simp add: mark_l2_free_def s1_def)
  moreover have "q \<in> vset v \<longleftrightarrow> vset (bm_l0 a) \<inter> l2span q \<noteq> {}" if "q < 64" for q
    using l2 that l2_range_meets [OF k(1), of j q] unfolding v(3) a(4) by auto
  then have "l2_agrees s1" using v(2) by (simp add: l2_agrees_def s1_def)
  then have "bm_core s1" using core a(2-4) g k(2) by (auto simp: bm_core_def s1_def l01_frame_def)
  moreover have "bm_frame s s1" using a(3) by (simp add: bm_frame_def s1_def)
  ultimately show ?thesis using a(4) by (auto simp: s1_def)
qed

text \<open>Marking a range used: level 2 is recomputed from level 1.\<close>

lemma mark_l2_entries_ok:
  assumes inv: "l01_inv a"
  shows "\<forall>p \<in> set ps. p < 64 * length v \<and> p * 256 + 256 \<le> 32 * length (bm_l1 a) \<Longrightarrow>
    \<exists>v'. mark_l2_entries ps (bm_l1 a) v = Some v' \<and> length v' = length v \<and>
      (\<forall>q. q \<in> vset v' \<longleftrightarrow> (if q \<in> set ps then vset (bm_l0 a) \<inter> l2span q \<noteq> {} else q \<in> vset v))"
proof (induction ps arbitrary: v)
  case (Cons p ps)
  define b where "b \<longleftrightarrow> vset (bm_l0 a) \<inter> l2span p \<noteq> {}"
  have any: "any_entry [p * 32 * 8..<p * 32 * 8 + 256] (bm_l1 a) = Some b" unfolding b_def using any_free_ok [OF inv] Cons.prems by simp
  obtain v1 where v1: "upd_slot (put_slot_bit b (p mod 64)) (p div 64) v = Some v1" "length v1 = length v" "vset v1 = put_set b {p} (vset v)"
    using upd_bit [of p v b] Cons.prems by auto
  obtain v' where v': "mark_l2_entries ps (bm_l1 a) v1 = Some v'" "length v' = length v1"
    "\<forall>q. q \<in> vset v' \<longleftrightarrow> (if q \<in> set ps then vset (bm_l0 a) \<inter> l2span q \<noteq> {} else q \<in> vset v1)"
    using Cons.IH [of v1] Cons.prems v1(2) by auto
  have "q \<in> vset v' \<longleftrightarrow> (if q \<in> set (p # ps) then vset (bm_l0 a) \<inter> l2span q \<noteq> {} else q \<in> vset v)" for q
    using v'(3) v1(3) by (cases b; cases "q = p") (auto simp: put_set_def b_def)
  moreover have "mark_l2_entries (p # ps) (bm_l1 a) v = Some v'" using v1(1) v'(1) unfolding mark_l2_entries.simps any by simp
  ultimately show ?case using v1(2) v'(2) by simp
qed simp

lemma l2_entries_inside:
  assumes core: "bm_core s" and k: "0 < k" "j + k \<le> 64 * length (bm_l0 (bm_levels s))" and q: "q \<in> {j div 131072..<(j + k + 131071) div 131072}"
  shows "q * 256 + 256 \<le> 32 * length (bm_l1 (bm_levels s))"
proof -
  have geo: "l01_geo (bm_levels s)" using bm_coreD(2) [OF core] .
  obtain m where m: "length (bm_l1 (bm_levels s)) = 8 * m" using geo by (auto simp: l01_geo_def elim: dvdE)
  have "{j..<j + k} \<inter> l2span q \<noteq> {}" using q by (simp only: l2_range_meets [OF k(1)])
  then obtain x where "x < j + k" "x \<in> l2span q" by auto
  then have "131072 * q < 131072 * m" using l01_geoD(3) [OF geo] k(2) m by (auto simp: l2span_def)
  then show ?thesis using m by simp
qed

lemma bm_mark_allocated_ok:
  assumes core: "bm_core s" and g: "bm_gran s = g" and k: "0 < k" "j + k \<le> bm_device_size s div g" and av: "k * g \<le> bm_available s"
  shows "\<exists>t. bm_mark_allocated (j * g) (k * g) s = Some t \<and> bm_core t \<and> bm_frame s t \<and>
    bm_available t = bm_available s - k * g \<and> bm_set t = bm_set s - {j..<j + k}"
proof -
  note p = block_positions [OF core g k(2)]
  have gp: "g \<noteq> 0" using bm_coreD(3) [OF core] g by simp
  obtain a where a: "mark_alloc_l1_l0 j (j + k) (bm_levels s) = Some a" "l01_inv a" "l01_frame (bm_levels s) a"
    "vset (bm_l0 a) = bm_set s - {j..<j + k}"
    using mark_l1_l0_ok [OF bm_coreD(1) [OF core] _ p(6), of j False] by (auto simp: put_set_def)
  note l2 = bm_coreD(4) [OF core, unfolded l2_agrees_def]
  define ps where "ps = [j div 131072..<(j + k + 131071) div 131072]"
  have "\<forall>q \<in> set ps. q < 64 * length (bm_l2 s) \<and> q * 256 + 256 \<le> 32 * length (bm_l1 a)"
    using p(8) l2 l2_entries_inside [OF core k(1) p(6)] a(3) by (auto simp: ps_def l01_frame_def)
  from mark_l2_entries_ok [OF a(2) this] obtain v where v: "mark_l2_entries ps (bm_l1 a) (bm_l2 s) = Some v" "length v = 1"
    "\<forall>q. q \<in> vset v \<longleftrightarrow> (if q \<in> set ps then vset (bm_l0 a) \<inter> l2span q \<noteq> {} else q \<in> vset (bm_l2 s))" using l2 by auto
  define t where "t = s\<lparr>bm_levels := a, bm_l2 := v, bm_available := bm_available s - k * g\<rparr>"
  have "bm_mark_allocated (j * g) (k * g) s = Some t"
    unfolding bm_mark_allocated_def g p Let_def using gp a(1) v(1) av p(7)
    by (simp add: mark_l2_on_l1_def ps_def [symmetric] t_def)
  moreover have "q \<in> vset v \<longleftrightarrow> vset (bm_l0 a) \<inter> l2span q \<noteq> {}" if q: "q < 64" for q
  proof (cases "q \<in> set ps")
    case False
    then have "{j..<j + k} \<inter> l2span q = {}" using l2_range_meets [OF k(1), of j q] unfolding ps_def set_upt by blast
    then have "vset (bm_l0 a) \<inter> l2span q = bm_set s \<inter> l2span q" unfolding a(4) by blast
    then show ?thesis using False v(3) l2 q by simp
  qed (use v(3) in simp)
  then have "l2_agrees t" using v(2) by (simp add: l2_agrees_def t_def)
  then have "bm_core t" using core a(2-4) g by (auto simp: bm_core_def t_def l01_frame_def)
  moreover have "bm_frame s t" using a(3) by (simp add: bm_frame_def t_def)
  ultimately show ?thesis using a(4) by (auto simp: t_def)
qed

lemma bm_mark_free_ok:
  assumes core: "bm_core s" and g: "bm_gran s = g" and k: "0 < k" "j + k \<le> bm_device_size s div g" and av: "bm_available s + k * g < 2 ^ 64"
  shows "\<exists>t. bm_mark_free (j * g) (k * g) s = Some t \<and> bm_core t \<and> bm_frame s t \<and>
    bm_available t = bm_available s + k * g \<and> bm_set t = bm_set s \<union> {j..<j + k}"
proof -
  obtain a s1 where s1: "free_l1 (j * g) (k * g) (bm_levels s) = Some (k * g, a)"
    "mark_l2_free (j * g div bm_l2_gran s) (p2roundup ((j + k) * g) (bm_l2_gran s) div bm_l2_gran s) (s\<lparr>bm_levels := a\<rparr>) = Some s1"
    "bm_core s1" "bm_frame s s1" "bm_available s1 = bm_available s" "bm_set s1 = bm_set s \<union> {j..<j + k}"
    using free_range_ok [OF core g k] by blast
  define t where "t = s1\<lparr>bm_available := bm_available s + k * g\<rparr>"
  note p = block_positions [OF core g k(2)]
  have "bm_mark_free (j * g) (k * g) s = Some t"
    unfolding bm_mark_free_def Let_def p(1) using s1(1,2,5) p(7) av by (simp add: t_def add64_exact)
  then show ?thesis using s1 by (auto simp: t_def bm_core_def bm_frame_def l2_agrees_def)
qed

section \<open>Release\<close>

lemma bm_inv_card: "bm_core s \<Longrightarrow> bm_inv s \<longleftrightarrow> bm_available s = card (bm_free s)"
  using bm_coreD(3) [of s] by (simp add: bm_inv_def bm_free_def card_blk)

lemma finite_bm_free: "bm_core s \<Longrightarrow> finite (bm_free s)"
  and bm_free_less: "bm_core s \<Longrightarrow> x \<in> bm_free s \<Longrightarrow> x < bm_device_size s"
proof -
  assume core: "bm_core s"
  have lt: "x < bm_device_size s" if "x \<in> bm_free s" for x
  proof -
    have "x div bm_gran s < bm_device_size s div bm_gran s" using that core by (auto simp: bm_free_def blk_def bm_core_def)
    then show ?thesis by (meson div_le_mono linorder_not_less)
  qed
  then show "x \<in> bm_free s \<Longrightarrow> x < bm_device_size s" by blast
  have "bm_free s \<subseteq> {..<bm_device_size s}" using lt by auto
  then show "finite (bm_free s)" by (rule finite_subset) simp
qed

lemma device_bound: "bm_core s \<Longrightarrow> bm_device_size s < 2 ^ 63"
  using bm_coreD(2) [of s] unfolding bm_core_def l01_geo_def by linarith

lemma aligned_blocks:
  assumes "bm_core s" and "bm_gran s dvd off" and "bm_gran s dvd len" and "0 < len" and "off + len \<le> bm_device_size s"
  obtains j k where "off = j * bm_gran s" "len = k * bm_gran s" "0 < k" "j + k \<le> bm_device_size s div bm_gran s"
proof -
  define j k where "j = off div bm_gran s" and "k = len div bm_gran s"
  have jk: "off = j * bm_gran s" "len = k * bm_gran s" using assms(2,3) by (simp_all add: j_def k_def)
  then have "(j + k) * bm_gran s \<le> bm_device_size s" using assms(5) by (simp add: distrib_right)
  then have "j + k \<le> bm_device_size s div bm_gran s" using bm_coreD(3) [OF assms(1)] by (simp add: less_eq_div_iff_mult_less_eq)
  then show thesis using that [OF jk] jk(2) assms(4) by simp
qed

lemma bm_free_insert: "0 < bm_gran s \<Longrightarrow> bm_gran t = bm_gran s \<Longrightarrow> bm_set t = bm_set s \<union> {j..<j + k} \<Longrightarrow>
    bm_free t = bm_free s \<union> arange (j * bm_gran s) (k * bm_gran s)"
  and bm_free_remove: "0 < bm_gran s \<Longrightarrow> bm_gran t = bm_gran s \<Longrightarrow> bm_set t = bm_set s - {j..<j + k} \<Longrightarrow>
    bm_free t = bm_free s - arange (j * bm_gran s) (k * bm_gran s)"
  by (simp_all add: bm_free_def blk_arange)

definition ok_ext :: "bitmap \<Rightarrow> nat \<times> nat \<Rightarrow> bool" where
  "ok_ext s = (\<lambda>(off, len). bm_gran s dvd off \<and> bm_gran s dvd len \<and> off + len \<le> bm_device_size s)"

lemma bm_frame_ok_ext: "bm_frame s t \<Longrightarrow> ok_ext t = ok_ext s"
  by (simp add: ok_ext_def bm_frame_def l01_frame_def)

lemma free_l2_loop_ok:
  "bm_core s \<Longrightarrow> ranges_ok lb (to_ranges ps) \<Longrightarrow> \<forall>p \<in> set ps. ok_ext s p \<Longrightarrow> released + card (addrs (to_ranges ps)) < 2 ^ 64 \<Longrightarrow>
   \<exists>t. free_l2_loop ps released s = Some (released + card (addrs (to_ranges ps)), t) \<and> bm_core t \<and> bm_frame s t \<and>
     bm_available t = bm_available s \<and> bm_free t = bm_free s \<union> addrs (to_ranges ps)"
proof (induction ps arbitrary: s lb released)
  case (Cons p ps)
  obtain off len where p: "p = (off, len)" by (cases p)
  define g where "g = bm_gran s"
  have l: "0 < len" "ranges_ok (Suc (off + len)) (to_ranges ps)" "ok_ext s (off, len)" using Cons.prems(2,3) p by auto
  have gp: "0 < g" using bm_coreD(3) [OF Cons.prems(1)] by (simp add: g_def)
  obtain j k where jk: "off = j * g" "len = k * g" "0 < k" "j + k \<le> bm_device_size s div g"
    using aligned_blocks [OF Cons.prems(1), of off len] l by (auto simp: ok_ext_def g_def)
  obtain a s1 where s1: "free_l1 off len (bm_levels s) = Some (len, a)"
    "mark_l2_free (off div bm_l2_gran s) (p2roundup ((j + k) * g) (bm_l2_gran s) div bm_l2_gran s) (s\<lparr>bm_levels := a\<rparr>) = Some s1"
    "bm_core s1" "bm_frame s s1" "bm_available s1 = bm_available s" "bm_set s1 = bm_set s \<union> {j..<j + k}"
    using free_range_ok [OF Cons.prems(1) g_def [symmetric] jk(3,4)] unfolding jk(1,2) by blast
  note pos = block_positions [OF Cons.prems(1) g_def [symmetric] jk(4), folded jk(1,2)]
  have "arange off len \<inter> addrs (to_ranges ps) = {}" using ranges_ok_addrs_ge [OF l(2)] by (fastforce simp: arange_def)
  then have c: "card (addrs (to_ranges (p # ps))) = len + card (addrs (to_ranges ps))"
    using p by (simp add: card_Un_disjoint arange_def)
  then have al: "add64 released len = released + len" "released + len + card (addrs (to_ranges ps)) < 2 ^ 64"
    using Cons.prems(4) by (simp_all add: add64_exact)
  have "\<forall>p \<in> set ps. ok_ext s1 p" using Cons.prems(3) bm_frame_ok_ext [OF s1(4)] by simp
  from Cons.IH [OF s1(3) l(2) this al(2)] obtain t where t:
    "free_l2_loop ps (released + len) s1 = Some (released + len + card (addrs (to_ranges ps)), t)" "bm_core t" "bm_frame s1 t"
    "bm_available t = bm_available s1" "bm_free t = bm_free s1 \<union> addrs (to_ranges ps)" by blast
  have "free_l2_loop (p # ps) released s = Some (released + card (addrs (to_ranges (p # ps))), t)"
    using s1(1,2) t(1) al(1) c pos(1,7) unfolding p free_l2_loop.simps by simp
  moreover have "bm_free s1 = bm_free s \<union> arange off len"
    using bm_free_insert [of s s1 j k] s1(4,6) gp by (simp add: jk(1,2) g_def bm_frame_def l01_frame_def)
  ultimately show ?case
    using t(2-5) s1(5) bm_frame_trans [OF s1(4) t(3)] p by (auto simp: arange_def)
qed simp

lemma whole_units_ext_set:
  assumes "0 < g" and "\<forall>(off, len) \<in> set xs. g dvd off \<and> g dvd len"
  shows "whole_units g (ext_set xs)"
proof -
  have "x \<in> arange off len \<longleftrightarrow> y \<in> arange off len" if "(off, len) \<in> set xs" "x div g = y div g" for off len x y
  proof -
    have "off = off div g * g" "len = len div g * g" using assms(2) that(1) by auto
    then have "arange off len = blk g {off div g..<off div g + len div g}" using blk_arange [OF assms(1), of "off div g" "len div g"] by simp
    then show ?thesis using that(2) by (simp add: blk_def)
  qed
  then show ?thesis unfolding whole_units_def ext_set_def by blast
qed

lemma bm_release_vec_ok:
  assumes inv: "bm_inv s" and ok: "\<forall>x \<in> set xs. ok_ext s x" and dis: "ext_set xs \<inter> bm_free s = {}"
  shows "\<exists>t. bm_release_vec xs s = Some t \<and> bm_inv t \<and> bm_frame s t \<and> bm_free t = bm_free s \<union> ext_set xs"
proof -
  have core: "bm_core s" using inv by (simp add: bm_inv_def)
  have gp: "0 < bm_gran s" using bm_coreD(3) [OF core] .
  define iv where "iv = fold (\<lambda>(off, len). iset_insert off len) xs iset_empty"
  have dev: "bm_device_size s < 2 ^ 63" using device_bound [OF core] .
  then have "\<forall>(off, len) \<in> set xs. off + len < 2 ^ 64" using ok by (fastforce simp: ok_ext_def)
  then have iv: "iset_inv iv" "iset_addrs iv = ext_set xs"
    using iset.insert_all [of iset_empty xs] iset_empty_correct by (auto simp: iv_def ext_set_def)
  have rs: "ranges_ok 0 (to_ranges (ivals iv))" and ads: "addrs (to_ranges (ivals iv)) = ext_set xs"
    using iv by (simp_all add: iset_inv_def iset_addrs_def)
  have sub: "ext_set xs \<subseteq> {..<bm_device_size s}" using ok by (fastforce simp: ext_set_def ok_ext_def)
  have wu: "whole_units (bm_gran s) (addrs (to_ranges (ivals iv)))" unfolding ads
    using ok by (intro whole_units_ext_set [OF gp]) (auto simp: ok_ext_def)
  have oki: "ok_ext s (off, len) \<and> off + len < 2 ^ 64" if "(off, len) \<in> set (ivals iv)" for off len
  proof -
    have m: "(off, off + len) \<in> set (to_ranges (ivals iv))" using that by (force simp: to_ranges_def)
    have "off + len - 1 \<in> ext_set xs" "off < off + len" using addrs_subset [OF m] ranges_ok_memD [OF rs m] ads by auto
    then have "off + len \<le> bm_device_size s" using sub by auto
    then show ?thesis using whole_units_range [OF wu rs m gp] dev by (auto simp: ok_ext_def dvd_add_right_iff)
  qed
  then have chk: "\<forall>(off, len) \<in> set (ivals iv). add64 off len \<le> bm_device_size s"
    by (auto simp: ok_ext_def add64_exact)
  have "card (ext_set xs) \<le> bm_device_size s" using card_mono [OF _ sub] by simp
  then have "0 + card (addrs (to_ranges (ivals iv))) < 2 ^ 64" using dev ads by simp
  moreover have "\<forall>p \<in> set (ivals iv). ok_ext s p" using oki by auto
  ultimately obtain t where t: "free_l2_loop (ivals iv) 0 s = Some (0 + card (ext_set xs), t)" "bm_core t" "bm_frame s t"
    "bm_available t = bm_available s" "bm_free t = bm_free s \<union> ext_set xs" using free_l2_loop_ok [OF core rs] unfolding ads by blast
  define u where "u = t\<lparr>bm_available := bm_available s + card (ext_set xs)\<rparr>"
  have "card (bm_free t) = card (bm_free s) + card (ext_set xs)"
    unfolding t(5) using dis finite_bm_free [OF core] by (intro card_Un_disjoint) auto
  then have "bm_available u = card (bm_free t)" using inv by (simp add: u_def bm_inv_card [OF core])
  then have "bm_inv u" using bm_inv_card [of u] t(2) by (simp add: u_def bm_core_def l2_agrees_def bm_free_def)
  moreover have "bm_available s < 2 ^ 63" using available_bound [OF inv] .
  then have "bm_release_vec xs s = Some u"
    using chk t(1,4) \<open>card (ext_set xs) \<le> bm_device_size s\<close> dev
    by (simp add: bm_release_vec_def iv_def [symmetric] bm_release_def free_l2_def u_def add64_exact)
  ultimately show ?thesis using t(3,5) by (auto simp: u_def bm_frame_def bm_free_def)
qed

section \<open>Construction and initial marking\<close>

lemma vset_replicate_0: "vset (replicate n 0) = {}"
  by (auto simp: vset_def div_less_iff_less_mult ac_simps)

lemma entry_replicate_0: "e < 32 * n \<Longrightarrow> entry (replicate n 0) e = 0"
  by (simp add: entry_def div_less_iff_less_mult ac_simps)

text \<open>The capacity, at most 64 groups of 131072 blocks, rounded up to whole groups.\<close>

lemma capacity_groups:
  assumes g: "isp2 g" "g * 2 ^ 23 < 2 ^ 63" and cap: "0 < cap" "cap \<le> 2 ^ 23 * g" "g dvd cap"
  obtains m where "m \<le> 64" "cap \<le> 131072 * m * g" "p2roundup cap (131072 * g) = m * (131072 * g)"
    "p2roundup cap (8388608 * g) = 8388608 * g"
proof -
  define n where "n = cap div g"
  have n: "cap = n * g" using cap(3) by (simp add: n_def)
  have n0: "0 < n" "n \<le> 2 ^ 23" using cap(1,2) n isp2_pos [OF g(1)] by auto
  define m where "m = (n + 131071) div 131072"
  have "m \<le> (2 ^ 23 + 131071) div 131072" unfolding m_def using n0(2) by (intro div_le_mono) simp
  then have m: "m \<le> 64" by simp
  have "n \<le> 131072 * m" using div_mult_mod_eq [of "n + 131071" 131072] mod_less_divisor [of 131072 "n + 131071"] unfolding m_def by linarith
  then have le: "cap \<le> 131072 * m * g" unfolding n by (rule mult_right_mono) simp
  have big: "isp2 131072" "isp2 8388608" using isp2_power [of 17] isp2_power [of 23] by simp_all
  have lt3: "8388608 * g < 2 ^ 63" and nle: "n * g \<le> 8388608 * g" and lt2: "131072 * g < 2 ^ 63" using g(2) n0(2) by simp_all
  note lt1 = le_less_trans [OF nle lt3]
  have "(n + 8388607) div 8388608 = 1" using n0 by (intro div_nat_eqI) auto
  then have up: "p2roundup cap (131072 * g) div (131072 * g) = m" "p2roundup cap (8388608 * g) div (8388608 * g) = 1"
    using round_up_blocks [OF g(1) big(1) lt1 lt2] round_up_blocks [OF g(1) big(2) lt1 lt3] by (simp_all add: n m_def)
  have "isp2 (131072 * g)" "isp2 (8388608 * g)" using big g(1) by (auto intro: isp2_mult)
  then have "131072 * g dvd p2roundup cap (131072 * g)" "8388608 * g dvd p2roundup cap (8388608 * g)"
    using lt1 lt2 lt3 n by (auto intro!: p2roundup_dvd)
  then have "p2roundup cap (131072 * g) = m * (131072 * g)" "p2roundup cap (8388608 * g) = 8388608 * g"
    using up by (metis dvd_div_mult_self, metis dvd_div_mult_self mult_1)
  with that m le show thesis by blast
qed

lemma level01_init_ok:
  assumes g: "isp2 g" "g * 2 ^ 23 < 2 ^ 63" and m: "m \<le> 64" "p2roundup cap (131072 * g) = m * (131072 * g)"
  shows "\<exists>a. level01_init cap g False = Some a \<and> l01_inv a \<and> vset (bm_l0 a) = {} \<and> length (bm_l1 a) = m * 8 \<and>
    length (bm_l0 a) = m * 2048 \<and> bm_l0_gran a = g \<and> bm_l1_gran a = 512 * g"
proof -
  define a where "a = \<lparr>bm_l0 = replicate (m * 2048) 0, bm_l1 = replicate (m * 8) 0, bm_l0_gran = g, bm_l1_gran = 512 * g, bm_partial = 0, bm_unalloc = 0\<rparr>"
  have mul: "mul64 g 512 = 512 * g" "mul64 (mul64 (512 * g) 8) 32 = 131072 * g" using g(2) by (simp_all add: mul64_exact)
  have "level01_init cap g False = Some a"
    using isp2_pos [OF g(1)] m(2) by (simp add: level01_init_def mul a_def Let_def)
  moreover have "64 * (m * 2048) * g \<le> 8388608 * g" using m(1) by (intro mult_right_mono) auto
  then have "64 * (m * 2048) * g < 2 ^ 63" by (rule le_less_trans) (use g(2) in simp)
  then have "l01_geo a" using g(1) by (simp add: l01_geo_def a_def)
  then have "l01_inv a"
    by (auto simp: l01_inv_def l01_counts_def l1_agrees_def a_def ecount_def entry_replicate_0 vset_replicate_0 espec_def)
  ultimately show ?thesis by (simp add: a_def vset_replicate_0)
qed

lemma bitmap_new_inv:
  assumes g: "isp2 g" "g * 2 ^ 23 < 2 ^ 63" and cap: "0 < cap" "cap \<le> 2 ^ 23 * g" "g dvd cap"
  shows "\<exists>s. bitmap_new cap g = Some s \<and> bm_inv s \<and> bm_gran s = g \<and> bm_device_size s = cap \<and> bm_free s = {}"
proof -
  obtain m where m: "m \<le> 64" "cap \<le> 131072 * m * g" "p2roundup cap (131072 * g) = m * (131072 * g)"
    "p2roundup cap (8388608 * g) = 8388608 * g" by (rule capacity_groups [OF assms])
  obtain a where a: "level01_init cap g False = Some a" "l01_inv a" "vset (bm_l0 a) = {}" "length (bm_l1 a) = m * 8"
    "length (bm_l0 a) = m * 2048" "bm_l0_gran a = g" "bm_l1_gran a = 512 * g" using level01_init_ok [OF g m(1,3)] by blast
  obtain v where v: "mark_l2 False m 64 [0] = Some v" "length v = 1" "vset v = {}"
    using mark_tail_ok [OF m(1), of "[0]" False] vset_replicate_0 [of 1] by (auto simp: mark_l2_eq put_set_def)
  define s where "s = \<lparr>bm_levels = a, bm_l2_gran = 131072 * g, bm_available = 0, bm_last_pos = 0, bm_l2 = v, bm_device_size = cap\<rparr>"
  have mul: "mul64 (mul64 (512 * g) 32) 8 = 131072 * g" "mul64 (131072 * g) 64 = 8388608 * g" using g(2) by (simp_all add: mul64_exact)
  have "bitmap_new cap g = Some s"
    using isp2_pos [OF g(1)] v(1) m(3,4) a(1,7) by (simp add: bitmap_new_def level02_init_def mul mark_l2_allocated_def s_def Let_def)
  moreover have "bm_inv s"
    using a v(2,3) m(1,2) g(2) cap(3) by (simp add: bm_inv_def bm_core_def s_def l2_agrees_def ac_simps)
  ultimately show ?thesis using a(3,6) by (auto simp: bm_free_def s_def)
qed

text \<open>The whole blocks inside a range of bytes.\<close>

definition whole_blocks :: "nat \<Rightarrow> nat \<Rightarrow> nat \<Rightarrow> nat set" where
  "whole_blocks g off len = {b. off \<le> b * g \<and> b * g + g \<le> off + len}"

lemma whole_blocks_0: "0 < g \<Longrightarrow> whole_blocks g off 0 = {}"
  by (auto simp: whole_blocks_def)

lemma init_range:
  assumes core: "bm_core s" and g: "bm_gran s = g" and le: "off + len \<le> bm_device_size s" and up: "p2roundup off g \<le> off + len"
  obtains j k where "p2roundup off g = j * g" and "p2align (sub64 (add64 off len) (p2roundup off g)) g = k * g"
    and "j + k \<le> bm_device_size s div g" and "add64 (j * g) (k * g) \<le> bm_device_size s" and "whole_blocks g off len = {j..<j + k}"
proof -
  have gi: "isp2 g" using bm_coreD(2) [OF core] g by (simp add: l01_geo_def)
  have gp: "0 < g" using isp2_pos [OF gi] .
  have b: "g * 2 ^ 23 < 2 ^ 63" "bm_device_size s < 2 ^ 63" using core g device_bound [OF core] by (simp_all add: bm_core_def)
  define j e where "j = (off + (g - 1)) div g" and "e = (off + len) div g"
  have off1: "p2roundup off g = j * g" unfolding j_def using gi b le by (intro p2roundup_eq) auto
  have je: "j \<le> e" using up gp unfolding off1 e_def by (simp add: less_eq_div_iff_mult_less_eq)
  have "p2align (sub64 (add64 off len) (j * g)) g = (off + len - j * g) div g * g"
    using b le up gi off1 by (subst p2align_eq) (auto simp: add64_exact sub64_exact)
  also have "off + len - j * g = (off + len) mod g + (e - j) * g"
    using je div_mult_mod_eq [of "off + len" g] by (simp add: e_def diff_mult_distrib)
  also have "\<dots> div g = e - j" using gp by simp
  finally have len1: "p2align (sub64 (add64 off len) (p2roundup off g)) g = (e - j) * g" unfolding off1 .
  have ed: "e \<le> bm_device_size s div g" unfolding e_def using le by (rule div_le_mono)
  then have "e * g \<le> bm_device_size s" using gp by (simp add: less_eq_div_iff_mult_less_eq)
  then have "add64 (j * g) ((e - j) * g) \<le> bm_device_size s" using je b by (subst add64_exact) (simp_all flip: distrib_right)
  moreover have "whole_blocks g off len = {j..<e}"
  proof -
    have "off \<le> x * g \<longleftrightarrow> j \<le> x" for x
    proof -
      have "j \<le> x \<longleftrightarrow> off + (g - 1) < Suc x * g" unfolding j_def less_Suc_eq_le [symmetric] using gp by (rule div_less_iff_less_mult)
      then show ?thesis using gp by auto
    qed
    moreover have "x * g + g \<le> off + len \<longleftrightarrow> x < e" for x
      using gp less_eq_div_iff_mult_less_eq [of g "Suc x" "off + len"] by (simp add: e_def Suc_le_eq add.commute)
    ultimately show ?thesis by (auto simp: whole_blocks_def)
  qed
  ultimately show thesis using that [OF off1 len1] je ed by simp
qed

lemma bm_init_add_free_ok:
  assumes inv: "bm_inv s" and g: "bm_gran s = g" and le: "off + len \<le> bm_device_size s" and up: "p2roundup off g \<le> off + len"
    and dis: "whole_blocks g off len \<inter> bm_set s = {}"
  shows "\<exists>t. bm_init_add_free off len s = Some t \<and> bm_inv t \<and> bm_frame s t \<and> bm_set t = bm_set s \<union> whole_blocks g off len"
proof -
  have core: "bm_core s" and gp: "0 < g" using inv bm_coreD(3) g by (auto simp: bm_inv_def)
  obtain j k where r: "p2roundup off g = j * g" "p2align (sub64 (add64 off len) (p2roundup off g)) g = k * g"
    "j + k \<le> bm_device_size s div g" "add64 (j * g) (k * g) \<le> bm_device_size s" "whole_blocks g off len = {j..<j + k}"
    by (rule init_range [OF core g le up])
  show ?thesis
  proof (cases "len = 0 \<or> k = 0")
    case True
    then have "whole_blocks g off len = {}" using r(5) whole_blocks_0 [OF gp, of off] by auto
    moreover have "bm_init_add_free off len s = Some s" using True r(1,2) g by (auto simp: bm_init_add_free_def Let_def)
    ultimately show ?thesis using inv by simp
  next
    case False
    have c: "card (bm_set s \<union> {j..<j + k}) = card (bm_set s) + k" using dis r(5) by (subst card_Un_disjoint) auto
    have "bm_available s < 2 ^ 63" "k * g < 2 ^ 63"
      using available_bound [OF inv] pos_bytes(1) [OF bm_coreD(2) [OF core], of k] block_positions(6) [OF core g r(3)] g by auto
    then have "bm_available s + k * g < 2 ^ 64" by simp
    from bm_mark_free_ok [OF core g _ r(3) this] False obtain t where t: "bm_mark_free (j * g) (k * g) s = Some t" "bm_core t" "bm_frame s t"
      "bm_available t = bm_available s + k * g" "bm_set t = bm_set s \<union> {j..<j + k}" by auto
    have "bm_init_add_free off len s = Some t" using t(1) False r(1,2,4) g gp by (simp add: bm_init_add_free_def Let_def)
    moreover have "bm_inv t" using t(2-5) inv c g by (simp add: bm_inv_def bm_frame_def l01_frame_def algebra_simps)
    ultimately show ?thesis using t(3,5) r(5) by auto
  qed
qed

lemma bm_init_rm_free_ok:
  assumes inv: "bm_inv s" and g: "bm_gran s = g" and le: "off + len \<le> bm_device_size s" and up: "p2roundup off g \<le> off + len"
    and sub: "whole_blocks g off len \<subseteq> bm_set s"
  shows "\<exists>t. bm_init_rm_free off len s = Some t \<and> bm_inv t \<and> bm_frame s t \<and> bm_set t = bm_set s - whole_blocks g off len"
proof -
  have core: "bm_core s" and gp: "0 < g" using inv bm_coreD(3) g by (auto simp: bm_inv_def)
  obtain j k where r: "p2roundup off g = j * g" "p2align (sub64 (add64 off len) (p2roundup off g)) g = k * g"
    "j + k \<le> bm_device_size s div g" "add64 (j * g) (k * g) \<le> bm_device_size s" "whole_blocks g off len = {j..<j + k}"
    by (rule init_range [OF core g le up])
  show ?thesis
  proof (cases "len = 0 \<or> k = 0")
    case True
    then have "whole_blocks g off len = {}" using r(5) whole_blocks_0 [OF gp, of off] by auto
    moreover have "bm_init_rm_free off len s = Some s" using True r(1,2) g by (auto simp: bm_init_rm_free_def Let_def)
    ultimately show ?thesis using inv by simp
  next
    case False
    have c: "card (bm_set s - {j..<j + k}) = card (bm_set s) - k" "k \<le> card (bm_set s)"
      using sub r(5) card_Diff_subset [of "{j..<j + k}" "bm_set s"] card_mono [of "bm_set s" "{j..<j + k}"] by auto
    then have av: "k * g \<le> bm_available s" using inv g by (simp add: bm_inv_def)
    from bm_mark_allocated_ok [OF core g _ r(3) av] False obtain t where t: "bm_mark_allocated (j * g) (k * g) s = Some t" "bm_core t" "bm_frame s t"
      "bm_available t = bm_available s - k * g" "bm_set t = bm_set s - {j..<j + k}" by auto
    have "bm_init_rm_free off len s = Some t" using t(1) False r(1,2,4) g gp by (simp add: bm_init_rm_free_def Let_def)
    moreover have "bm_inv t" using t(2-5) inv c g by (simp add: bm_inv_def bm_frame_def l01_frame_def algebra_simps)
    ultimately show ?thesis using t(3,5) r(5) by auto
  qed
qed

section \<open>The allocator implements the interface\<close>

definition bm_ready :: "u64 \<Rightarrow> bitmap \<Rightarrow> bool" where
  "bm_ready g s \<longleftrightarrow> bm_inv s \<and> bm_gran s = g \<and> g \<le> 2 ^ 31"

lemma bm_frame_gran: "bm_frame s t \<Longrightarrow> bm_gran t = bm_gran s"
  by (simp add: bm_frame_def l01_frame_def)

lemma bm_alloc_law:
  assumes "bm_ready g s" and "ok_request g want" and mx: "mx < 2 ^ 64"
  shows "\<exists>r xs t. bm_allocate want g mx hint [] s = Some (r, xs, t) \<and> bm_ready g t \<and> ok_ext t = ok_ext s \<and>
    ext_disjoint xs \<and> ext_set xs \<subseteq> bm_free s \<and> bm_free t = bm_free s - ext_set xs \<and> (\<forall>x \<in> set xs. ok_ext s x)"
proof -
  have s: "bm_inv s" "bm_gran s = g" "g \<le> 2 ^ 31" and w: "0 < want" "want < 2 ^ 63" "g dvd want"
    using assms by (auto simp: bm_ready_def ok_request_def)
  obtain xs t where r: "bm_allocate want g mx hint [] s = Some (if xs = [] then - ENOSPC else int (ext_len xs), xs, t)" "bm_inv t"
    "bm_frame s t" "ext_disjoint xs" "gran_exts g xs" "ext_set xs \<subseteq> bm_free s" "bm_free t = bm_free s - ext_set xs"
    using bm_allocate_ok [OF s mx w] by blast
  have core: "bm_core s" using s(1) by (simp add: bm_inv_def)
  have "ok_ext s x" if x: "x \<in> set xs" for x
  proof -
    obtain off len where o: "x = (off, len)" by (cases x)
    have l: "0 < len" "g dvd off" "g dvd len" using r(5) x o by (auto simp: gran_exts_def)
    have "arange off len \<subseteq> ext_set xs" using x o by (auto simp: ext_set_def)
    moreover have "off + len - 1 \<in> arange off len" using l(1) by (auto simp: arange_def)
    ultimately have "off + len - 1 \<in> bm_free s" using r(6) by blast
    then have "off + len - 1 < bm_device_size s" by (rule bm_free_less [OF core])
    with l show ?thesis using s(2) o by (simp add: ok_ext_def)
  qed
  moreover have "bm_ready g t" using r(2) s bm_frame_gran [OF r(3)] by (simp add: bm_ready_def)
  ultimately show ?thesis using r(1,4,6,7) bm_frame_ok_ext [OF r(3)] by blast
qed

lemma bm_release_law:
  assumes "bm_ready g s" and "\<forall>x \<in> set xs. ok_ext s x" and "ext_set xs \<inter> bm_free s = {}"
  shows "\<exists>t. bm_release_vec xs s = Some t \<and> bm_ready g t \<and> ok_ext t = ok_ext s \<and> bm_free t = bm_free s \<union> ext_set xs"
  using bm_release_vec_ok [of s xs] assms bm_frame_ok_ext bm_frame_gran by (auto simp: bm_ready_def)

interpretation bm_space: space_allocator
  "\<lambda>want. bm_allocate want g 0 hint []" bm_release_vec bm_free "bm_ready g" ok_ext "ok_request g"
  for g hint
  by unfold_locales (rule bm_alloc_law bm_release_law; simp)+

section \<open>Statistics\<close>

lemma last_bit_found:
  assumes "find_next_set_bit w pos = int n" and "63 \<le> n"
  shows "bit w 63"
proof -
  have "pos < 64" using assms by (auto simp: find_next_set_bit_def split: if_splits)
  from find_next_set_bit_ok [OF this, of w] assms have "n < 64" "bit w n" by auto
  moreover from this have "n = 63" using assms(2) by simp
  ultimately show ?thesis by simp
qed

lemma stats_slot_hangs: "stats_slot w pos free_seq bins = Some r \<Longrightarrow> bit w 63"
proof (rule stats_slot.raw_induct [where P = "\<lambda>w pos free_seq bins r. bit w 63"], goal_cases)
  case (1 f w pos free_seq bins r)
  have "bit w 63" if "find_next_set_bit w pos = int pos" "\<not> pos + 1 < 64"
    using that by (intro last_bit_found [of w pos pos]) auto
  moreover have "bit w 63" if "\<not> nat (find_next_set_bit w pos + 1) < 64"
    using that by (intro last_bit_found [of w pos "nat (find_next_set_bit w pos)"]) auto
  ultimately show ?case
    using 1(2) [where y = r] 1(3) by (auto simp: Let_def split: if_splits)
qed simp

lemma stats_slot_returns: "bit w 63 \<Longrightarrow> pos < 64 \<Longrightarrow> \<exists>r. stats_slot w pos free_seq bins = Some r"
proof (induction "64 - pos" arbitrary: pos free_seq bins rule: less_induct)
  case less
  obtain n where n: "find_next_set_bit w pos = int n" "pos \<le> n" "n < 64"
    using find_next_set_bit_ok [OF less.prems(2), of w] less.prems by (auto dest!: spec [of _ "63 :: nat"])
  have "\<exists>r. stats_slot w (n + 1) fs b = Some r" if "n + 1 < 64" for fs b
    using less.hyps [of "n + 1"] n(2) that less.prems by simp
  then show ?case using n by (subst stats_slot.simps) (auto simp: Let_def nat_add_distrib)
qed

lemma stats_words_returns: "(\<exists>r. stats_words ws st = Some r) \<longleftrightarrow> (\<forall>w \<in> set ws. w = 0 \<or> bit w 63)"
proof (induction ws arbitrary: st)
  case (Cons w ws)
  obtain fs bins where st: "st = (fs, bins)" by (cases st)
  have "(\<exists>r. stats_word w st = Some r) \<longleftrightarrow> w = 0 \<or> bit w 63"
    using stats_slot_hangs [of w 0 fs bins] stats_slot_returns [of w 0 fs bins] by (auto simp: stats_word_def st)
  then show ?case using Cons.IH by (cases "stats_word w st") auto
qed simp

section \<open>Properties\<close>

text \<open>
  C8: the bitmap allocator hands out all it can, for requests in whole blocks with the block size as the unit, on a
  bitmap of one word of level 2 (at most 2^23 blocks). \<open>allocate\<close> runs without
  failing an assertion or leaving a vector, from any hint. The extents are nonempty, made of whole blocks,
  disjoint and were free; together they are as long as the request, or all of the free space if that is less.
  Exactly they leave the free space. The three levels and the counters stay consistent.
\<close>

theorem bitmap_allocate_complete:
  assumes "bm_inv s" and "bm_l0_gran (bm_levels s) = g" and "g \<le> 2 ^ 31" and "mx < 2 ^ 64"
    and "0 < want" and "want < 2 ^ 63" and "want mod g = 0"
  shows "\<exists>r xs t. bm_allocate want g mx hint [] s = Some (r, xs, t) \<and> bm_inv t \<and>
    r = (if xs = [] then - ENOSPC else int (ext_len xs)) \<and> ext_len xs = min want (bm_get_free s) \<and>
    bm_get_free t = bm_get_free s - ext_len xs \<and>
    (\<forall>(off, len) \<in> set xs. 0 < len \<and> len < 2 ^ 32 \<and> off mod g = 0 \<and> len mod g = 0) \<and>
    ext_disjoint xs \<and> ext_set xs \<subseteq> bm_free s \<and> bm_free t = bm_free s - ext_set xs"
proof -
  obtain xs t where r: "bm_allocate want g mx hint [] s = Some (if xs = [] then - ENOSPC else int (ext_len xs), xs, t)" "bm_inv t"
    "ext_len xs = min want (bm_available s)" "ext_disjoint xs" "gran_exts g xs" "ext_set xs \<subseteq> bm_free s" "bm_free t = bm_free s - ext_set xs"
    using bm_allocate_ok [OF assms(1-6), of hint] assms(7) by auto
  have core: "bm_core s" "bm_core t" using assms(1) r(2) by (simp_all add: bm_inv_def)
  have "card (bm_free t) = card (bm_free s) - ext_len xs"
    unfolding r(7) card_ext_set [OF r(4), symmetric] using finite_ext_set r(6) by (rule card_Diff_subset)
  then have "bm_available t = bm_available s - ext_len xs" using bm_inv_card core assms(1) r(2) by simp
  moreover have "\<forall>(off, len) \<in> set xs. 0 < len \<and> len < 2 ^ 32 \<and> off mod g = 0 \<and> len mod g = 0"
    using r(5) by (auto simp: gran_exts_def)
  ultimately show ?thesis using r by (simp add: bm_get_free_def)
qed

text \<open>
  C7: no double allocation by the bitmap allocator, for requests and releases in units of its block size and a
  bitmap of one word of level 2 (at most 2^23 blocks). The client programs of the interface run on it without
  failing an assertion or leaving a vector; outstanding extents never overlap, and free and outstanding
  space together are the space that was free at the start. Other units and larger bitmaps are not covered; the code
  misbehaves there.
\<close>

theorem bitmap_client_safe:
  assumes "bm_ready g s" and "\<forall>op \<in> set ops. op_wants (ok_request g) op"
  shows "\<exists>t h. client_run (\<lambda>want. bm_allocate want g 0 hint []) bm_release_vec ops (s, []) = Some (t, h) \<and>
    bm_ready g t \<and> ledger_ok (bm_free s) (bm_free t) h"
  by (rule bm_space.client_safe [OF assms])

text \<open>
  When the statistics return. \<open>collect_stats\<close>, which \<open>dump\<close> calls, returns exactly if the top bit of
  every nonzero word of level 0 is set. Otherwise the search for the next set bit yields \<open>-1\<close>, the position
  starts again at 0, and the loop runs forever.
\<close>

theorem collect_stats_returns:
  "(\<exists>b. collect_stats bins s = Some b) \<longleftrightarrow> (\<forall>w \<in> set (bm_l0 (bm_levels s)). w = 0 \<or> bit w 63)"
  using stats_words_returns [of "bm_l0 (bm_levels s)" "(0, bins)"]
  by (cases "stats_words (bm_l0 (bm_levels s)) (0, bins)") (auto simp: collect_stats_def)

subsection \<open>Witnesses\<close>

text \<open>A device of 16 blocks of which the last 12 are free.\<close>

definition bm_sample :: bitmap where
  "bm_sample = the (Option.bind (bitmap_new 65536 4096) (bm_init_add_free 16384 49152))"

lemma bm_sample_ok: "bm_inv bm_sample" "bm_gran bm_sample = 4096" "bm_set bm_sample = {4..<16}"
proof -
  have g: "isp2 4096" using isp2_power [of 12] by simp
  then obtain s where s: "bitmap_new 65536 4096 = Some s" "bm_inv s" "bm_gran s = 4096" "bm_device_size s = 65536" "bm_free s = {}"
    using bitmap_new_inv [OF g, of 65536] by auto
  have "bm_set s = {}" using s(3,5) blk_disjoint [of 4096 "bm_set s" "bm_set s"] by (simp add: bm_free_def)
  moreover have "whole_blocks 4096 16384 49152 = {4..<16}" by (auto simp: whole_blocks_def)
  moreover have "p2roundup 16384 4096 = 16384" using p2roundup_eq [OF g, of 16384] by simp
  ultimately obtain t where "bm_init_add_free 16384 49152 s = Some t" "bm_inv t" "bm_frame s t" "bm_set t = {4..<16}"
    using bm_init_add_free_ok [OF s(2,3), of 16384 49152] s(4) by auto
  then show "bm_inv bm_sample" "bm_gran bm_sample = 4096" "bm_set bm_sample = {4..<16}"
    using s(1,3) bm_frame_gran [of s t] by (simp_all add: bm_sample_def)
qed

lemma bm_sample_free: "bm_free bm_sample = {16384..<65536}"
  using blk_range [of 4096 4 16] by (simp add: bm_free_def bm_sample_ok)

lemma bm_sample_available: "bm_get_free bm_sample = 49152"
  using bm_sample_ok by (simp add: bm_inv_def bm_get_free_def)

theorem bitmap_allocate_complete_witness:
  "\<exists>r xs t. bm_allocate 61440 4096 8192 20480 [] bm_sample = Some (r, xs, t) \<and> ext_len xs = 49152 \<and> ext_disjoint xs \<and>
     bm_free t = {16384..<65536} - ext_set xs"
  using bitmap_allocate_complete [OF bm_sample_ok(1,2), of 8192 61440 20480] bm_sample_free bm_sample_available by force

theorem bitmap_client_safe_witness:
  "\<exists>t h. client_run (\<lambda>want. bm_allocate want 4096 0 0 []) bm_release_vec
       [Alloc 8192, Alloc 32768, Release 0, Alloc 12288] (bm_sample, []) = Some (t, h) \<and>
     ledger_ok {16384..<65536} (bm_free t) h"
  using bitmap_client_safe [of 4096 bm_sample "[Alloc 8192, Alloc 32768, Release 0, Alloc 12288]" 0] bm_sample_ok bm_sample_free
  by (auto simp: bm_ready_def ok_request_def)

theorem collect_stats_returns_witness: "\<not> (\<exists>b. collect_stats (\<lambda>n. 0) bm_sample = Some b)"
proof -
  define v where "v = bm_l0 (bm_levels bm_sample)"
  have v: "vset v = {4..<16}" using bm_sample_ok(3) by (simp add: v_def)
  have "4 \<in> vset v" "63 \<notin> vset v" by (simp_all add: v)
  then have l: "0 < length v" "bit (v ! 0) 4" by (auto simp: vset_def)
  then have "63 < 64 * length v" by (cases v) auto
  with \<open>63 \<notin> vset v\<close> have "\<not> bit (v ! 0) 63" by (auto simp: vset_def)
  with l have "\<not> (\<forall>w \<in> set v. w = 0 \<or> bit w 63)" by (metis nth_mem bit_0_eq bot_apply bot_bool_def)
  then show ?thesis unfolding collect_stats_returns v_def by simp
qed

end
