(* ===== verification/Denc.thy ===== *)
theory Denc
  imports Intarith
begin

unbundle bit_operations_syntax

text \<open>
  The encoding layer (\<^verbatim>\<open>common/denc.h\<close>) as far as the on-disk structures use it: fixed-width and variable-length
  integers, logical block addresses, strings, buffers, vectors and the versioned envelope of a struct, with the
  structures of \<^verbatim>\<open>common/uuid.h\<close> and \<^verbatim>\<open>blk/extent_types.h\<close>. An encoder gives the bytes it appends. A decoder
  takes the rest of the buffer and gives the value and what is left, or the exception it throws; a shift by 64 or
  more is undefined.

  An encoder writes without a check into memory of the size that \<open>bound_encode\<close> computes. Each structure
  therefore has its bound beside it.
\<close>

section \<open>Decoders\<close>

datatype dec_error = End_of_buffer | Malformed_input | Undefined

type_synonym 'a decoder = "bytes \<Rightarrow> dec_error + ('a \<times> bytes)"

definition dec_then :: "'a decoder \<Rightarrow> ('a \<Rightarrow> 'b decoder) \<Rightarrow> 'b decoder" where
  "dec_then d f p = (case d p of Inl e \<Rightarrow> Inl e | Inr (x, q) \<Rightarrow> f x q)"

definition dec_return :: "'a \<Rightarrow> 'a decoder" where
  "dec_return x p = Inr (x, p)"

lemma dec_then_simps [simp]:
  "d p = Inr (x, q) \<Longrightarrow> dec_then d f p = f x q" "d p = Inl e \<Longrightarrow> dec_then d f p = Inl e"
  by (simp_all add: dec_then_def)

lemma dec_return_simp [simp]: "dec_return x p = Inr (x, p)"
  by (simp add: dec_return_def)

text \<open>\<open>get_pos_add(n)\<close> on the rest of the buffer.\<close>

definition dec_bytes :: "nat \<Rightarrow> bytes decoder" where
  "dec_bytes n p = (if n \<le> length p then Inr (take n p, drop n p) else Inl End_of_buffer)"

section \<open>Integers\<close>

definition enc_u8 :: "nat \<Rightarrow> bytes" where
  "enc_u8 v = le_bytes 1 v"

definition enc_u32 :: "u32 \<Rightarrow> bytes" where
  "enc_u32 v = le_bytes 4 v"

definition enc_u64 :: "u64 \<Rightarrow> bytes" where
  "enc_u64 v = le_bytes 8 v"

definition dec_u8 :: "nat decoder" where
  "dec_u8 = dec_then (dec_bytes 1) (\<lambda>b. dec_return (le_val b))"

definition dec_u32 :: "u32 decoder" where
  "dec_u32 = dec_then (dec_bytes 4) (\<lambda>b. dec_return (le_val b))"

definition dec_u64 :: "u64 decoder" where
  "dec_u64 = dec_then (dec_bytes 8) (\<lambda>b. dec_return (le_val b))"

text \<open>\<open>denc_varint\<close>: seven bits per byte, the high bit of a byte says that another follows.\<close>

fun enc_varint :: "nat \<Rightarrow> bytes" where
  "enc_varint v =
     (if v div 128 = 0 then [of_nat (v mod 128)] else of_nat (v mod 128 OR 128) # enc_varint (v div 128))"

declare enc_varint.simps [simp del]

text \<open>The loop over the bytes that follow, into a variable of \<open>w\<close> bits.\<close>

fun varint_more :: "nat \<Rightarrow> nat \<Rightarrow> nat \<Rightarrow> bool \<Rightarrow> nat decoder" where
  "varint_more w v shift False p = Inr (v, p)"
| "varint_more w v shift True [] = Inl End_of_buffer"
| "varint_more w v shift True (b # p) =
     (if shift \<ge> w then Inl Undefined
      else varint_more w (v OR take_bit w (push_bit shift (unat b AND 127))) (shift + 7) (bit b 7) p)"

definition dec_varint :: "nat \<Rightarrow> nat decoder" where
  "dec_varint w p = (case p of [] \<Rightarrow> Inl End_of_buffer | b # q \<Rightarrow> varint_more w (unat b AND 127) 7 (bit b 7) q)"

text \<open>\<open>denc_varint_lowz\<close>: the two low bits hold the number of low zero nibbles, at most three.\<close>

definition low_zero_nibbles :: "u64 \<Rightarrow> nat" where
  "low_zero_nibbles v = (if v \<noteq> 0 then ctz v div 4 else 0)"

definition enc_varint_lowz :: "u64 \<Rightarrow> bytes" where
  "enc_varint_lowz v =
     (let n = min (low_zero_nibbles v) 3 in enc_varint (take_bit 64 (push_bit 2 (drop_bit (4 * n) v)) OR n))"

definition dec_varint_lowz :: "u64 decoder" where
  "dec_varint_lowz = dec_then (dec_varint 64) (\<lambda>i. dec_return (take_bit 64 (push_bit (4 * (i AND 3)) (drop_bit 2 i))))"

text \<open>\<open>denc_lba\<close>: a word of 32 bits whose low bits hold the alignment, then bytes as above.\<close>

definition enc_lba :: "u64 \<Rightarrow> bytes" where
  "enc_lba v =
     (let n = low_zero_nibbles v;
          (pos, word, v1) = (if n < 3 then (3, 7, v)
                             else if n < 6 then (n - 2, 2 ^ (n - 3) - 1, drop_bit (4 * n) v)
                             else (3, 3, drop_bit 20 v));
          word1 = word OR take_bit 31 (push_bit pos v1);
          v2 = drop_bit (31 - pos) v1
      in if v2 = 0 then le_bytes 4 word1 else le_bytes 4 (word1 OR 2 ^ 31) @ enc_varint v2)"

definition lba_word :: "u32 \<Rightarrow> u64 \<times> nat" where
  "lba_word word =
     (if word AND 7 \<in> {0, 2, 4, 6} then (push_bit 11 (word AND 0x7ffffffe), 42)
      else if word AND 7 \<in> {1, 5} then (push_bit 14 (word AND 0x7ffffffc), 45)
      else if word AND 7 = 3 then (push_bit 17 (word AND 0x7ffffff8), 48)
      else (drop_bit 3 (word AND 0x7ffffff8), 28))"

definition dec_lba :: "u64 decoder" where
  "dec_lba = dec_then dec_u32 (\<lambda>word. case lba_word word of (v, shift) \<Rightarrow> varint_more 64 v shift (bit word 31))"

section \<open>Strings, vectors and envelopes\<close>

definition enc_string :: "bytes \<Rightarrow> bytes" where
  "enc_string s = enc_u32 (length s mod 2 ^ 32) @ s"

definition dec_string :: "bytes decoder" where
  "dec_string = dec_then dec_u32 dec_bytes"

definition enc_vec :: "('a \<Rightarrow> bytes) \<Rightarrow> 'a list \<Rightarrow> bytes" where
  "enc_vec enc xs = enc_u32 (length xs mod 2 ^ 32) @ concat (map enc xs)"

fun dec_items :: "'a decoder \<Rightarrow> nat \<Rightarrow> 'a list decoder" where
  "dec_items dec 0 = dec_return []"
| "dec_items dec (Suc n) = dec_then dec (\<lambda>x. dec_then (dec_items dec n) (\<lambda>xs. dec_return (x # xs)))"

definition dec_vec :: "'a decoder \<Rightarrow> 'a list decoder" where
  "dec_vec dec = dec_then dec_u32 (dec_items dec)"

text \<open>\<open>DENC_START\<close> and \<open>DENC_FINISH\<close>: version, compatible version, length of the body.\<close>

definition enc_struct :: "nat \<Rightarrow> nat \<Rightarrow> bytes \<Rightarrow> bytes" where
  "enc_struct v cv body = enc_u8 v @ enc_u8 cv @ enc_u32 (length body mod 2 ^ 32) @ body"

definition dec_struct :: "'a decoder \<Rightarrow> 'a decoder" where
  "dec_struct dec =
     dec_then dec_u8 (\<lambda>v. dec_then dec_u8 (\<lambda>cv. dec_then dec_u32 (\<lambda>len p.
       case dec p of
         Inl e \<Rightarrow> Inl e
       | Inr (x, q) \<Rightarrow>
           if length p - length q > len then Inl Malformed_input
           else dec_then (dec_bytes (len - (length p - length q))) (\<lambda>u. dec_return x) q)))"

section \<open>Structures\<close>

type_synonym uuid = bytes

definition enc_uuid :: "uuid \<Rightarrow> bytes" where
  "enc_uuid u = enc_struct 1 1 u"

definition dec_uuid :: "uuid decoder" where
  "dec_uuid = dec_struct (dec_bytes 16)"

text \<open>\<open>pextent_t\<close>, an offset and a length of 32 bits, and vectors of them with a variable-length count.\<close>

definition enc_pextent :: "u64 \<times> u32 \<Rightarrow> bytes" where
  "enc_pextent e = enc_lba (fst e) @ enc_varint_lowz (snd e)"

definition dec_pextent :: "(u64 \<times> u32) decoder" where
  "dec_pextent = dec_then dec_lba (\<lambda>off. dec_then dec_varint_lowz (\<lambda>len. dec_return (off, take_bit 32 len)))"

definition enc_pextents :: "(u64 \<times> u32) list \<Rightarrow> bytes" where
  "enc_pextents v = enc_varint (length v mod 2 ^ 32) @ concat (map enc_pextent v)"

definition dec_pextents :: "(u64 \<times> u32) list decoder" where
  "dec_pextents = dec_then (dec_varint 32) (dec_items dec_pextent)"

section \<open>Bounds\<close>

text \<open>What \<open>bound_encode\<close> adds for a variable-length integer of \<open>n\<close> bytes, and for the others.\<close>

definition bound_varint :: "nat \<Rightarrow> nat" where
  "bound_varint n = n + 1"

definition bound_varint_lowz :: nat where
  "bound_varint_lowz = 10"

definition bound_lba :: nat where
  "bound_lba = 10"

definition bound_string :: "bytes \<Rightarrow> nat" where
  "bound_string s = 4 + length s"

definition bound_vec :: "('a \<Rightarrow> nat) \<Rightarrow> 'a list \<Rightarrow> nat" where
  "bound_vec bound xs = 4 + sum_list (map bound xs)"

definition bound_struct :: "nat \<Rightarrow> nat" where
  "bound_struct body = 6 + body"

definition bound_pextent :: "u64 \<times> u32 \<Rightarrow> nat" where
  "bound_pextent e = bound_lba + bound_varint_lowz"

definition bound_pextents :: "(u64 \<times> u32) list \<Rightarrow> nat" where
  "bound_pextents v = bound_varint 4 + (if v \<noteq> [] then bound_pextent (hd v) * length v else 0)"

section \<open>Round trips\<close>

text \<open>A codec: decoding what was encoded gives the value and leaves the rest, and the encoding fits its bound.\<close>

locale codec =
  fixes enc :: "'a \<Rightarrow> bytes" and dec :: "'a decoder" and ok :: "'a \<Rightarrow> bool" and bound :: "'a \<Rightarrow> nat"
  assumes round_trip: "ok x \<Longrightarrow> dec (enc x @ q) = Inr (x, q)"
    and fits: "ok x \<Longrightarrow> length (enc x) \<le> bound x"
begin

lemma enc_inj: "ok x \<Longrightarrow> ok y \<Longrightarrow> enc x @ p = enc y @ q \<Longrightarrow> x = y \<and> p = q"
  using round_trip [of x p] round_trip [of y q] by (metis prod.inject sum.inject(2))

lemma items_round_trip: "\<forall>x \<in> set xs. ok x \<Longrightarrow> dec_items dec (length xs) (concat (map enc xs) @ q) = Inr (xs, q)"
  by (induction xs) (simp_all add: round_trip)

lemma items_fit: "\<forall>x \<in> set xs. ok x \<Longrightarrow> length (concat (map enc xs)) \<le> sum_list (map bound xs)"
  by (induction xs) (auto intro: add_mono fits)

end

lemma dec_bytes_append: "length xs = n \<Longrightarrow> dec_bytes n (xs @ q) = Inr (xs, q)"
  by (simp add: dec_bytes_def)

interpretation u8: codec enc_u8 dec_u8 "\<lambda>v. v < 2 ^ 8" "\<lambda>v. 1"
  by unfold_locales (simp_all add: enc_u8_def dec_u8_def dec_then_def dec_bytes_def unat_of_nat_byte)

interpretation u32: codec enc_u32 dec_u32 "\<lambda>v. v < 2 ^ 32" "\<lambda>v. 4"
  by unfold_locales (simp_all add: enc_u32_def dec_u32_def dec_bytes_append)

interpretation u64: codec enc_u64 dec_u64 "\<lambda>v. v < 2 ^ 64" "\<lambda>v. 8"
  by unfold_locales (simp_all add: enc_u64_def dec_u64_def dec_bytes_append)

interpretation str: codec enc_string dec_string "\<lambda>s. length s < 2 ^ 32" bound_string
proof
  show "dec_string (enc_string s @ q) = Inr (s, q)" if "length s < 2 ^ 32" for s q
    using that by (simp add: enc_string_def dec_string_def u32.round_trip dec_bytes_append)
qed (simp add: enc_string_def bound_string_def enc_u32_def)

context codec
begin

lemma vec_round_trip: "length xs < 2 ^ 32 \<Longrightarrow> \<forall>x \<in> set xs. ok x \<Longrightarrow> dec_vec dec (enc_vec enc xs @ q) = Inr (xs, q)"
  by (simp add: dec_vec_def enc_vec_def u32.round_trip items_round_trip)

lemma vec_fits: "\<forall>x \<in> set xs. ok x \<Longrightarrow> length (enc_vec enc xs) \<le> bound_vec bound xs"
  using items_fit by (simp add: enc_vec_def bound_vec_def enc_u32_def)

lemma struct_round_trip:
  assumes "ok x" and "length (enc x) < 2 ^ 32" and "v < 2 ^ 8" and "cv < 2 ^ 8"
  shows "dec_struct dec (enc_struct v cv (enc x) @ q) = Inr (x, q)"
  using assms by (simp add: dec_struct_def enc_struct_def u8.round_trip u32.round_trip round_trip dec_bytes_def)

lemma struct_fits: "ok x \<Longrightarrow> length (enc_struct v cv (enc x)) \<le> bound_struct (bound x)"
  using fits by (simp add: enc_struct_def bound_struct_def enc_u8_def enc_u32_def)

end

subsection \<open>Variable-length integers\<close>

lemma or_low_high: "a < 2 ^ s \<Longrightarrow> a OR push_bit s b = a + b * 2 ^ s" for a b :: nat
proof -
  assume "a < 2 ^ s"
  then have "take_bit s a = a" by (simp add: take_bit_nat_eq_self)
  then have "n < s" if "bit a n" for n using that by (metis bit_take_bit_iff)
  then have "a AND push_bit s b = 0" by (intro bit_eqI) (fastforce simp: bit_simps)
  then show ?thesis by (simp flip: disjunctive_add_eq_or add: push_bit_eq_mult)
qed

lemma and_127: "x AND 127 = x mod 128" for x :: nat
  using take_bit_eq_mask [of 7 x] by (simp add: take_bit_eq_mod mask_eq_exp_minus_1)

lemma bit_byte_unat: "bit b n \<longleftrightarrow> bit (unat b) n" for b :: byte
  by (simp add: bit_unsigned_iff)

lemma varint_last: "x < 128 \<Longrightarrow> unat (of_nat x :: byte) AND 127 = x" "x < 128 \<Longrightarrow> \<not> bit (of_nat x :: byte) 7"
proof -
  assume x: "x < 128"
  then have u: "unat (of_nat x :: byte) = x" by (simp add: unat_of_nat_byte)
  then show "unat (of_nat x :: byte) AND 127 = x" using x by (simp add: and_127)
  show "\<not> bit (of_nat x :: byte) 7" unfolding bit_byte_unat u using x by (simp add: bit_iff_odd)
qed

lemma varint_continued:
  assumes "x < 128"
  shows "unat (of_nat (x OR 128) :: byte) AND 127 = x" "bit (of_nat (x OR 128) :: byte) 7"
proof -
  have o: "x OR 128 = x + 128" using or_low_high [of x 7 1] assms by simp
  then have u: "unat (of_nat (x OR 128) :: byte) = x + 128" unfolding unat_of_nat_byte o using assms by simp
  then show "unat (of_nat (x OR 128) :: byte) AND 127 = x" using assms by (simp add: and_127)
  have "(x + 128) div 128 = 1" using assms by (intro div_nat_eqI) auto
  then show "bit (of_nat (x OR 128) :: byte) 7" unfolding bit_byte_unat u by (simp add: bit_iff_odd)
qed

lemma varint_more_enc:
  "0 < v \<Longrightarrow> a < 2 ^ s \<Longrightarrow> a + v * 2 ^ s < 2 ^ w \<Longrightarrow> varint_more w a s True (enc_varint v @ q) = Inr (a + v * 2 ^ s, q)"
proof (induction v arbitrary: a s rule: enc_varint.induct)
  case (1 v)
  have "1 * 2 ^ s \<le> v * 2 ^ s" using 1(2) by (intro mult_right_mono) auto
  then have "(2 :: nat) ^ s < 2 ^ w" using 1(4) by linarith
  then have sw: "s < w" by simp
  define r where "r = v mod 128"
  have r: "r < 128" "v = r + 128 * (v div 128)" by (simp_all add: r_def)
  have split: "a + v * 2 ^ s = a + r * 2 ^ s + (v div 128) * 2 ^ (s + 7)"
    by (subst r(2)) (simp add: power_add algebra_simps)
  have "r * 2 ^ s < 2 ^ w" using 1(4) split by linarith
  then have add: "a OR take_bit w (push_bit s r) = a + r * 2 ^ s"
    using or_low_high [OF 1(3), of r] by (simp add: take_bit_nat_eq_self push_bit_eq_mult)
  show ?case
  proof (cases "v div 128 = 0")
    case True
    then have "enc_varint v = [of_nat r]" by (simp add: enc_varint.simps [of v] r_def)
    then show ?thesis using sw add split True varint_last [OF r(1)] by simp
  next
    case False
    have "a + r * 2 ^ s < 2 ^ (s + 7)"
    proof -
      have "r * 2 ^ s \<le> 127 * 2 ^ s" using r(1) by (intro mult_right_mono) auto
      then have "a + r * 2 ^ s < 128 * 2 ^ s" using 1(3) by linarith
      then show ?thesis by (simp add: power_add mult.commute)
    qed
    moreover have "enc_varint v = of_nat (r OR 128) # enc_varint (v div 128)" using False by (simp add: enc_varint.simps [of v] r_def)
    ultimately show ?thesis using 1(1) [OF False, of "a + r * 2 ^ s" "s + 7"] 1(4) split sw add varint_continued [OF r(1)] False by simp
  qed
qed

lemma dec_varint_enc:
  assumes "v < 2 ^ w" and "7 \<le> w"
  shows "dec_varint w (enc_varint v @ q) = Inr (v, q)"
proof (cases "v div 128 = 0")
  case True
  then have "v < 128" by (simp add: div_eq_0_iff)
  then show ?thesis using True varint_last by (simp add: enc_varint.simps [of v] dec_varint_def)
next
  case False
  define r where "r = v mod 128"
  have r: "r < 128" "r + (v div 128) * 2 ^ 7 = v" by (simp_all add: r_def)
  have "varint_more w r 7 True (enc_varint (v div 128) @ q) = Inr (v, q)"
    using varint_more_enc [of "v div 128" r 7 w q] r assms(1) False by simp
  then show ?thesis using False varint_continued [OF r(1)] by (simp add: enc_varint.simps [of v] dec_varint_def r_def)
qed

lemma length_enc_varint: "v < 128 ^ Suc k \<Longrightarrow> length (enc_varint v) \<le> Suc k"
proof (induction k arbitrary: v)
  case (Suc k)
  have "v div 128 < 128 ^ Suc k" using Suc.prems by (simp add: div_less_iff_less_mult mult.commute)
  then show ?case using Suc.IH [of "v div 128"] by (simp add: enc_varint.simps [of v])
qed (simp add: enc_varint.simps)

lemma length_enc_varint_ge: "128 ^ k \<le> v \<Longrightarrow> Suc k \<le> length (enc_varint v)"
proof (induction k arbitrary: v)
  case (Suc k)
  have "128 ^ k \<le> v div 128" using Suc.prems by (simp add: less_eq_div_iff_mult_less_eq mult.commute)
  moreover have "v div 128 \<noteq> 0" using calculation by (metis le_zero_eq power_eq_0_iff zero_neq_numeral)
  ultimately show ?case using Suc.IH [of "v div 128"] by (simp add: enc_varint.simps [of v])
qed (simp add: enc_varint.simps)

interpretation varint32: codec enc_varint "dec_varint 32" "\<lambda>v. v < 2 ^ 32" "\<lambda>v. bound_varint 4"
proof
  show "length (enc_varint v) \<le> bound_varint 4" if "v < 2 ^ 32" for v
    using length_enc_varint [of v 4] that by (simp add: bound_varint_def)
qed (simp add: dec_varint_enc)

interpretation varint64: codec enc_varint "dec_varint 64" "\<lambda>v. v < 2 ^ 63" "\<lambda>v. bound_varint 8"
proof
  show "length (enc_varint v) \<le> bound_varint 8" if "v < 2 ^ 63" for v
    using length_enc_varint [of v 8] that by (simp add: bound_varint_def)
qed (simp add: dec_varint_enc)

subsection \<open>Aligned integers\<close>

lemma ctz_from_dvd: "2 ^ ctz_from n v dvd v"
  by (induction n v rule: ctz_from.induct) (auto elim!: evenE)

lemma low_nibbles:
  assumes "n \<le> low_zero_nibbles v"
  shows "drop_bit (4 * n) v * 2 ^ (4 * n) = v"
proof -
  have "4 * n \<le> ctz v" if "v \<noteq> 0" using assms that by (auto simp: low_zero_nibbles_def)
  then have "2 ^ (4 * n) dvd v" by (metis ctz_def ctz_from_dvd dvd_0_right dvd_trans le_imp_power_dvd)
  then show ?thesis by (simp add: drop_bit_eq_div)
qed

interpretation varint_lowz: codec enc_varint_lowz dec_varint_lowz "\<lambda>v. v < 2 ^ 62" "\<lambda>v. bound_varint_lowz"
proof
  fix v :: nat
  assume v: "v < 2 ^ 62"
  define n x where "n = min (low_zero_nibbles v) 3" and "x = drop_bit (4 * n) v"
  have x: "x * 2 ^ (4 * n) = v" "x \<le> v" unfolding x_def using low_nibbles [of n v] by (simp_all add: n_def drop_bit_eq_div)
  have n: "n < 4" by (simp add: n_def)
  have "take_bit 64 (push_bit 2 x) = push_bit 2 x" using x(2) v by (intro take_bit_nat_eq_self) (simp add: push_bit_eq_mult)
  then have e: "take_bit 64 (push_bit 2 x) OR n = n + x * 4" using or_low_high [of n 2 x] n by (simp add: or.commute)
  have i: "n + x * 4 < 2 ^ 64" using x(2) v n by simp
  have and3: "(n + x * 4) AND 3 = n"
    using take_bit_eq_mask [of 2 "n + x * 4"] n by (simp add: take_bit_eq_mod mask_eq_exp_minus_1)
  have d: "drop_bit 2 (n + x * 4) = x" using n by (simp add: drop_bit_eq_div)
  have "take_bit 64 (push_bit (4 * n) x) = v" using x(1) v by (simp add: push_bit_eq_mult take_bit_nat_eq_self)
  then show "dec_varint_lowz (enc_varint_lowz v @ q) = Inr (v, q)" for q
    using dec_varint_enc [OF i, of q] e and3 d by (simp add: enc_varint_lowz_def dec_varint_lowz_def n_def [symmetric] x_def [symmetric] Let_def)
  show "length (enc_varint_lowz v) \<le> bound_varint_lowz"
    using length_enc_varint [of "n + x * 4" 9] i e by (simp add: enc_varint_lowz_def n_def [symmetric] x_def [symmetric] bound_varint_lowz_def Let_def)
qed

text \<open>The word of a block address: a tag in the low \<open>pos\<close> bits, then data, then the continuation bit.\<close>

lemma and_field: "w AND push_bit k (mask m) = (w div 2 ^ k mod 2 ^ m) * 2 ^ k" for w :: nat
proof -
  have "w AND push_bit k (mask m) = push_bit k (take_bit m (drop_bit k w))" by (rule bit_eqI) (auto simp: bit_simps)
  then show ?thesis by (simp add: push_bit_eq_mult take_bit_eq_mod drop_bit_eq_div)
qed

lemma lba_masks: "(0x7ffffffe :: nat) = push_bit 1 (mask 30)" "(0x7ffffffc :: nat) = push_bit 2 (mask 29)" "(0x7ffffff8 :: nat) = push_bit 3 (mask 28)"
  by (simp_all add: mask_eq_exp_minus_1 push_bit_eq_mult)

lemma lba_field:
  fixes lo tag :: nat
  assumes "lo < 2 ^ (31 - pos)" and "tag < 2 ^ pos" and "pos \<in> {1, 2, 3}"
  shows "(tag + lo * 2 ^ pos + (if c then 2 ^ 31 else 0)) AND push_bit pos (mask (31 - pos)) = lo * 2 ^ pos"
proof -
  define hi where "hi = (if c then 2 ^ (31 - pos) else 0 :: nat)"
  have eq: "tag + lo * 2 ^ pos + (if c then 2 ^ 31 else 0) = tag + (lo + hi) * 2 ^ pos"
    using assms(3) by (auto simp: hi_def algebra_simps)
  have "(tag + lo * 2 ^ pos + (if c then 2 ^ 31 else 0)) div 2 ^ pos = lo + hi" unfolding eq using assms(2) by simp
  then show ?thesis using assms(1) by (simp add: and_field hi_def)
qed

definition lba_image :: "nat \<Rightarrow> nat \<Rightarrow> nat \<Rightarrow> bytes" where
  "lba_image tag pos x =
     (let word1 = tag OR take_bit 31 (push_bit pos x); v2 = drop_bit (31 - pos) x
      in if v2 = 0 then le_bytes 4 word1 else le_bytes 4 (word1 OR 2 ^ 31) @ enc_varint v2)"

lemma lba_image_ok:
  assumes pos: "pos \<in> {1, 2, 3}" and tag: "tag < 2 ^ pos" and v: "x * 2 ^ al < 2 ^ 64" and sh: "31 - pos + al \<ge> 28"
    and w: "\<And>lo c. lo < 2 ^ (31 - pos) \<Longrightarrow> lba_word (tag + lo * 2 ^ pos + (if c then 2 ^ 31 else 0)) = (lo * 2 ^ al, al + (31 - pos))"
  shows "dec_lba (lba_image tag pos x @ q) = Inr (x * 2 ^ al, q)" and "length (lba_image tag pos x) \<le> bound_lba"
proof -
  define lo hi where "lo = x mod 2 ^ (31 - pos)" and "hi = x div 2 ^ (31 - pos)"
  have lo: "lo < 2 ^ (31 - pos)" by (simp add: lo_def)
  have x: "x = lo + hi * 2 ^ (31 - pos)" unfolding lo_def hi_def by (rule mod_div_mult_eq [symmetric])
  have "take_bit 31 (push_bit pos x) = push_bit pos lo"
    by (simp only: take_bit_push_bit lo_def flip: take_bit_eq_mod)
  then have word: "tag OR take_bit 31 (push_bit pos x) = tag + lo * 2 ^ pos" using or_low_high [OF tag] by simp
  have "lo * 2 ^ pos \<le> (2 ^ (31 - pos) - 1) * 2 ^ pos" using lo by (intro mult_right_mono) auto
  then have lt: "tag + lo * 2 ^ pos < 2 ^ 31" using tag pos by auto
  have top: "(tag + lo * 2 ^ pos) OR 2 ^ 31 = tag + lo * 2 ^ pos + 2 ^ 31" using or_low_high [OF lt, of 1] by simp
  have hi2: "drop_bit (31 - pos) x = hi" by (simp add: hi_def drop_bit_eq_div)
  have img: "lba_image tag pos x = (if hi = 0 then le_bytes 4 (tag + lo * 2 ^ pos) else le_bytes 4 (tag + lo * 2 ^ pos + 2 ^ 31) @ enc_varint hi)"
    unfolding lba_image_def Let_def word hi2 top ..
  have sum: "x * 2 ^ al = lo * 2 ^ al + hi * 2 ^ (al + (31 - pos))" by (subst x) (simp add: power_add algebra_simps)
  have "(tag + lo * 2 ^ pos + 2 ^ 31) div 2 ^ 31 = 1" using lt by (intro div_nat_eqI) auto
  then have bit31: "\<not> bit (tag + lo * 2 ^ pos) 31" "bit (tag + lo * 2 ^ pos + 2 ^ 31) 31"
    using lt by (simp_all add: bit_iff_odd)
  have dec: "dec_u32 (le_bytes 4 u @ r) = Inr (u, r)" if "u < 2 ^ 32" for u r using u32.round_trip [OF that] by (simp add: enc_u32_def)
  show "dec_lba (lba_image tag pos x @ q) = Inr (x * 2 ^ al, q)"
  proof (cases "hi = 0")
    case True
    then show ?thesis using w [OF lo, of False] lt dec [of "tag + lo * 2 ^ pos"] bit31(1) unfolding img sum dec_lba_def by simp
  next
    case False
    have "lo * 2 ^ al < 2 ^ (al + (31 - pos))" using lo by (simp add: power_add mult.commute)
    then have "varint_more 64 (lo * 2 ^ al) (al + (31 - pos)) True (enc_varint hi @ q) = Inr (x * 2 ^ al, q)"
      using varint_more_enc [of hi "lo * 2 ^ al" "al + (31 - pos)" 64 q] False v unfolding sum by simp
    then show ?thesis using False w [OF lo, of True] lt dec [of "tag + lo * 2 ^ pos + 2 ^ 31"] bit31(2)
      unfolding img dec_lba_def by simp
  qed
  have "hi * 2 ^ 28 \<le> hi * 2 ^ (al + (31 - pos))" using sh by (intro mult_left_mono power_increasing) auto
  then have "hi * 2 ^ 28 < 2 ^ 64" using v unfolding sum by linarith
  then have "length (enc_varint hi) \<le> 6" using length_enc_varint [of hi 5] by simp
  then show "length (lba_image tag pos x) \<le> bound_lba" by (simp add: img bound_lba_def)
qed

lemma and_7: "w AND 7 = w mod 8" for w :: nat
  using take_bit_eq_mask [of 3 w] by (simp add: take_bit_eq_mod mask_eq_exp_minus_1)

lemma lba_words:
  fixes lo :: nat
  shows "lo < 2 ^ 30 \<Longrightarrow> lba_word (lo * 2 + (if c then 2 ^ 31 else 0)) = (lo * 2 ^ 12, 42)"
    and "lo < 2 ^ 29 \<Longrightarrow> lba_word (1 + lo * 4 + (if c then 2 ^ 31 else 0)) = (lo * 2 ^ 16, 45)"
    and "lo < 2 ^ 28 \<Longrightarrow> lba_word (3 + lo * 8 + (if c then 2 ^ 31 else 0)) = (lo * 2 ^ 20, 48)"
    and "lo < 2 ^ 28 \<Longrightarrow> lba_word (7 + lo * 8 + (if c then 2 ^ 31 else 0)) = (lo, 28)"
proof -
  show "lba_word (lo * 2 + (if c then 2 ^ 31 else 0)) = (lo * 2 ^ 12, 42)" if "lo < 2 ^ 30"
  proof -
    have "(lo * 2 + (if c then 2 ^ 31 else 0)) mod 8 \<in> {0, 2, 4, 6}" by (cases c) (simp, presburger)+
    then show ?thesis using lba_field [of lo 1 0 c] that unfolding lba_word_def and_7 lba_masks by (simp add: push_bit_eq_mult)
  qed
  show "lba_word (1 + lo * 4 + (if c then 2 ^ 31 else 0)) = (lo * 2 ^ 16, 45)" if "lo < 2 ^ 29"
  proof -
    have "(1 + lo * 4 + (if c then 2 ^ 31 else 0)) mod 8 \<in> {1, 5}" by (cases c) (simp, presburger)+
    then show ?thesis using lba_field [of lo 2 1 c] that unfolding lba_word_def and_7 lba_masks by (auto simp: push_bit_eq_mult)
  qed
  show "lba_word (3 + lo * 8 + (if c then 2 ^ 31 else 0)) = (lo * 2 ^ 20, 48)" if "lo < 2 ^ 28"
  proof -
    have "(3 + lo * 8 + (if c then 2 ^ 31 else 0)) mod 8 = 3" by (cases c) (simp, presburger)+
    then show ?thesis using lba_field [of lo 3 3 c] that unfolding lba_word_def and_7 lba_masks by (simp add: push_bit_eq_mult)
  qed
  show "lba_word (7 + lo * 8 + (if c then 2 ^ 31 else 0)) = (lo, 28)" if "lo < 2 ^ 28"
  proof -
    have "(7 + lo * 8 + (if c then 2 ^ 31 else 0)) mod 8 = 7" by (cases c) (simp, presburger)+
    then show ?thesis using lba_field [of lo 3 7 c] that unfolding lba_word_def and_7 lba_masks by (simp add: drop_bit_eq_div)
  qed
qed

interpretation lba: codec enc_lba dec_lba "\<lambda>v. v < 2 ^ 64" "\<lambda>v. bound_lba"
proof -
  have "dec_lba (enc_lba v @ q) = Inr (v, q) \<and> length (enc_lba v) \<le> bound_lba" if v: "v < 2 ^ 64" for v q
  proof -
    define n where "n = low_zero_nibbles v"
    have al: "drop_bit (4 * k) v * 2 ^ (4 * k) = v" if "k \<le> n" for k using low_nibbles [of k v] that by (simp add: n_def)
    consider "n < 3" | "n = 3" | "n = 4" | "n = 5" | "6 \<le> n" by linarith
    then show ?thesis
    proof cases
      case 1
      then have "enc_lba v = lba_image 7 3 v" by (simp add: enc_lba_def n_def [symmetric] lba_image_def Let_def)
      then show ?thesis using lba_image_ok [of 3 7 v 0] lba_words(4) v by simp
    next
      case 2
      then have "enc_lba v = lba_image 0 1 (drop_bit 12 v)" by (simp add: enc_lba_def n_def [symmetric] lba_image_def Let_def)
      then show ?thesis using lba_image_ok [of 1 0 "drop_bit 12 v" 12] lba_words(1) al [of 3] 2 v by simp
    next
      case 3
      then have "enc_lba v = lba_image 1 2 (drop_bit 16 v)" by (simp add: enc_lba_def n_def [symmetric] lba_image_def Let_def)
      then show ?thesis using lba_image_ok [of 2 1 "drop_bit 16 v" 16] lba_words(2) al [of 4] 3 v by simp
    next
      case 4
      then have "enc_lba v = lba_image 3 3 (drop_bit 20 v)" by (simp add: enc_lba_def n_def [symmetric] lba_image_def Let_def)
      then show ?thesis using lba_image_ok [of 3 3 "drop_bit 20 v" 20] lba_words(3) al [of 5] 4 v by simp
    next
      case 5
      then have "enc_lba v = lba_image 3 3 (drop_bit 20 v)" by (simp add: enc_lba_def n_def [symmetric] lba_image_def Let_def)
      then show ?thesis using lba_image_ok [of 3 3 "drop_bit 20 v" 20] lba_words(3) al [of 5] 5 v by simp
    qed
  qed
  then show "codec enc_lba dec_lba (\<lambda>v. v < 2 ^ 64) (\<lambda>v. bound_lba)" by unfold_locales auto
qed

subsection \<open>Structures\<close>

lemma uuid_body: "codec (\<lambda>u. u) (dec_bytes 16) (\<lambda>u. length u = 16) (\<lambda>u. 16)"
  by unfold_locales (simp_all add: dec_bytes_append)

interpretation uuid: codec enc_uuid dec_uuid "\<lambda>u. length u = 16" "\<lambda>u. bound_struct 16"
  using codec.struct_round_trip [OF uuid_body, of _ 1 1] codec.struct_fits [OF uuid_body, of _ 1 1]
  by unfold_locales (simp_all add: enc_uuid_def dec_uuid_def)

interpretation pextent: codec enc_pextent dec_pextent "\<lambda>e. fst e < 2 ^ 64 \<and> snd e < 2 ^ 32" bound_pextent
proof
  fix e :: "nat \<times> nat"
  assume e: "fst e < 2 ^ 64 \<and> snd e < 2 ^ 32"
  then have len: "snd e < 2 ^ 62" by simp
  show "dec_pextent (enc_pextent e @ q) = Inr (e, q)" for q
    using e lba.round_trip [of "fst e"] varint_lowz.round_trip [OF len] by (simp add: dec_pextent_def enc_pextent_def take_bit_nat_eq_self)
  show "length (enc_pextent e) \<le> bound_pextent e"
    using e lba.fits [of "fst e"] varint_lowz.fits [OF len] by (simp add: enc_pextent_def bound_pextent_def)
qed

interpretation pextents: codec enc_pextents dec_pextents
  "\<lambda>v. length v < 2 ^ 32 \<and> (\<forall>e \<in> set v. fst e < 2 ^ 64 \<and> snd e < 2 ^ 32)" bound_pextents
proof
  fix v :: "(nat \<times> nat) list"
  assume v: "length v < 2 ^ 32 \<and> (\<forall>e \<in> set v. fst e < 2 ^ 64 \<and> snd e < 2 ^ 32)"
  show "dec_pextents (enc_pextents v @ q) = Inr (v, q)" for q
    using v varint32.round_trip [of "length v"] pextent.items_round_trip [of v] by (simp add: dec_pextents_def enc_pextents_def)
  have "sum_list (map bound_pextent v) = 20 * length v" by (induction v) (simp_all add: bound_pextent_def bound_lba_def bound_varint_lowz_def)
  then show "length (enc_pextents v) \<le> bound_pextents v"
    using v varint32.fits [of "length v"] pextent.items_fit [of v]
    by (cases "v = []") (simp_all add: enc_pextents_def bound_pextents_def bound_pextent_def bound_lba_def bound_varint_lowz_def)
qed

section \<open>Properties of the encodings\<close>

text \<open>
  The space that \<open>denc_varint\<close> reserves for a 64-bit integer, one byte more than its size, is enough for exactly
  the values below \<open>2 ^ 63\<close>; a value above needs ten bytes and \<open>get_contiguous_appender\<close> was told nine.
\<close>

theorem varint_bound_exact:
  assumes "v < 2 ^ 64"
  shows "length (enc_varint v) \<le> bound_varint 8 \<longleftrightarrow> v < 2 ^ 63"
proof -
  have "v < 2 ^ 63 \<Longrightarrow> length (enc_varint v) \<le> 9" using length_enc_varint [of v 8] by simp
  moreover have "\<not> v < 2 ^ 63 \<Longrightarrow> 10 \<le> length (enc_varint v)" using length_enc_varint_ge [of 9 v] by simp
  ultimately show ?thesis unfolding bound_varint_def by force
qed

theorem varint_bound_exact_witness: "length (enc_varint 300) \<le> bound_varint 8 \<and> \<not> length (enc_varint (2 ^ 63)) \<le> bound_varint 8"
  using varint_bound_exact [of 300] varint_bound_exact [of "2 ^ 63"] by simp

text \<open>
  A vector of physical extents, as it is stored in the metadata, decodes to itself whatever bytes follow it, for
  all offsets of 64 and lengths of 32 bits.
\<close>

theorem pextents_decode:
  assumes "length v < 2 ^ 32" and "\<forall>e \<in> set v. fst e < 2 ^ 64 \<and> snd e < 2 ^ 32"
  shows "dec_pextents (enc_pextents v @ q) = Inr (v, q)"
  by (rule pextents.round_trip) (use assms in simp)

theorem pextents_decode_witness:
  "dec_pextents (enc_pextents [(0x10000, 0x3000), (0xabcdef012345, 7)] @ [1, 2]) = Inr ([(0x10000, 0x3000), (0xabcdef012345, 7)], [1, 2])"
  by (rule pextents_decode) simp_all

end
