(* ===== verification/Bluefs_Types.thy ===== *)
theory Bluefs_Types
  imports Denc Crc32
begin

unbundle bit_operations_syntax

text \<open>
  The structures of BlueFS (\<^verbatim>\<open>bluefs/bluefs_types.h\<close>, \<^verbatim>\<open>bluefs/bluefs_types.cc\<close>): extents, file nodes with
  the index that \<open>seek\<close> searches, incremental updates of file nodes, the superblock and the transactions of the
  log, with their encodings.
\<close>

section \<open>Extents and file nodes\<close>

record bextent =
  bx_offset :: u64
  bx_length :: u32
  bx_bdev :: nat

definition bx_end :: "bextent \<Rightarrow> u64" where
  "bx_end e = add64 (bx_offset e) (bx_length e)"

record fnode =
  fn_ino :: u64
  fn_size :: u64
  fn_mtime :: u64
  fn_unused :: nat
  fn_extents :: "bextent list"
  fn_index :: "u64 list"
  fn_allocated :: u64
  fn_committed :: u64

definition fnode_new :: "u64 \<Rightarrow> u64 \<Rightarrow> u64 \<Rightarrow> fnode" where
  "fnode_new ino sz mtime =
     \<lparr>fn_ino = ino, fn_size = sz, fn_mtime = mtime, fn_unused = 0, fn_extents = [], fn_index = [], fn_allocated = 0, fn_committed = 0\<rparr>"

fun recalc_loop :: "bextent list \<Rightarrow> fnode \<Rightarrow> fnode" where
  "recalc_loop [] f = f"
| "recalc_loop (e # es) f =
     recalc_loop es (f\<lparr>fn_index := fn_index f @ [fn_allocated f], fn_allocated := add64 (fn_allocated f) (bx_length e)\<rparr>)"

definition recalc_allocated :: "fnode \<Rightarrow> fnode" where
  "recalc_allocated f =
     (let f1 = recalc_loop (fn_extents f) (f\<lparr>fn_allocated := 0, fn_index := []\<rparr>) in f1\<lparr>fn_committed := fn_allocated f1\<rparr>)"

definition reset_delta :: "fnode \<Rightarrow> fnode" where
  "reset_delta f = f\<lparr>fn_committed := fn_allocated f\<rparr>"

definition mergeable :: "bextent \<Rightarrow> bextent \<Rightarrow> bool" where
  "mergeable l e \<longleftrightarrow> bx_end l = bx_offset e \<and> bx_bdev l = bx_bdev e \<and> bx_length l + bx_length e < 0xffffffff"

definition append_extent :: "bextent \<Rightarrow> fnode \<Rightarrow> fnode" where
  "append_extent e f =
     (if fn_extents f \<noteq> [] \<and> mergeable (List.last (fn_extents f)) e
      then let l = List.last (fn_extents f)
           in f\<lparr>fn_extents := butlast (fn_extents f) @ [l\<lparr>bx_length := bx_length l + bx_length e\<rparr>],
                fn_allocated := add64 (fn_allocated f) (bx_length e)\<rparr>
      else f\<lparr>fn_extents := fn_extents f @ [e], fn_index := fn_index f @ [fn_allocated f],
             fn_allocated := add64 (fn_allocated f) (bx_length e)\<rparr>)"

definition claim_extents :: "bextent list \<Rightarrow> fnode \<Rightarrow> fnode" where
  "claim_extents es f = fold append_extent es f"

text \<open>The copy constructor.\<close>

definition fnode_copy :: "fnode \<Rightarrow> fnode" where
  "fnode_copy f =
     claim_extents (fn_extents f)
       ((fnode_new (fn_ino f) (fn_size f) (fn_mtime f))\<lparr>fn_allocated := fn_allocated f, fn_committed := fn_committed f\<rparr>)"

text \<open>On an empty vector \<open>pop_front_extent\<close> dereferences its end.\<close>

definition pop_front_extent :: "fnode \<Rightarrow> fnode option" where
  "pop_front_extent f =
     (case fn_extents f of
        [] \<Rightarrow> None
      | e # es \<Rightarrow> Some (f\<lparr>fn_allocated := sub64 (fn_allocated f) (bx_length e),
                         fn_index := map (\<lambda>i. sub64 i (bx_length e)) (tl (fn_index f)), fn_extents := es\<rparr>))"

definition clear_extents :: "fnode \<Rightarrow> fnode" where
  "clear_extents f = f\<lparr>fn_index := [], fn_extents := [], fn_allocated := 0, fn_committed := 0\<rparr>"

text \<open>
  \<open>std::upper_bound\<close> on the index, which is sorted: the number of entries up to the first one above \<open>off\<close>. The
  result of \<open>seek\<close> is the number of the extent and the offset in it, \<open>None\<close> is the end iterator.
\<close>

definition upper_bound :: "u64 list \<Rightarrow> u64 \<Rightarrow> nat" where
  "upper_bound xs x = length (takeWhile (\<lambda>y. y \<le> x) xs)"

definition seek :: "u64 \<Rightarrow> fnode \<Rightarrow> (nat \<times> u64) option" where
  "seek off f =
     (if fn_extents f = [] \<or> off \<ge> fn_allocated f then None
      else
        let i = upper_bound (fn_index f) off
        in if i = 0 then None else Some (i - 1, sub64 off (fn_index f ! (i - 1))))"

record fnode_delta =
  fd_ino :: u64
  fd_size :: u64
  fd_mtime :: u64
  fd_offset :: u64
  fd_extents :: "bextent list"

fun delta_loop :: "u64 \<Rightarrow> u64 \<Rightarrow> bextent list \<Rightarrow> bextent list" where
  "delta_loop done_to pos [] = []"
| "delta_loop done_to pos (e # es) =
     (if add64 pos (bx_length e) \<le> done_to then delta_loop done_to (add64 pos (bx_length e)) es
      else
        let skip = (if pos < done_to then done_to - pos else 0)
        in (if skip = 0 then e else e\<lparr>bx_offset := add64 (bx_offset e) skip, bx_length := sub64 (bx_length e) skip mod 2 ^ 32\<rparr>) #
           delta_loop done_to (add64 pos (bx_length e)) es)"

definition make_delta :: "fnode \<Rightarrow> fnode_delta" where
  "make_delta f =
     \<lparr>fd_ino = fn_ino f, fd_size = fn_size f, fd_mtime = fn_mtime f, fd_offset = fn_committed f,
      fd_extents = delta_loop (fn_committed f) 0 (fn_extents f)\<rparr>"

record bsuper =
  sp_uuid :: uuid
  sp_osd_uuid :: uuid
  sp_version :: u64
  sp_block_size :: u32
  sp_log_fnode :: fnode

section \<open>Encodings\<close>

definition enc_bextent :: "bextent \<Rightarrow> bytes" where
  "enc_bextent e = enc_lba (bx_offset e) @ enc_varint_lowz (bx_length e) @ enc_u8 (bx_bdev e)"

definition dec_bextent :: "bextent decoder" where
  "dec_bextent =
     dec_then dec_lba (\<lambda>off. dec_then dec_varint_lowz (\<lambda>len. dec_then dec_u8 (\<lambda>dev.
       dec_return \<lparr>bx_offset = off, bx_length = take_bit 32 len, bx_bdev = dev\<rparr>)))"

text \<open>The time is stored as seconds and nanoseconds of 32 bits each.\<close>

definition enc_time :: "u64 \<Rightarrow> bytes" where
  "enc_time t = enc_u32 (t div 1000000000 mod 2 ^ 32) @ enc_u32 (t mod 1000000000)"

definition dec_time :: "u64 decoder" where
  "dec_time = dec_then dec_u32 (\<lambda>sec. dec_then dec_u32 (\<lambda>nsec. dec_return (add64 (mul64 sec 1000000000) nsec)))"

definition enc_fnode :: "fnode \<Rightarrow> bytes" where
  "enc_fnode f =
     enc_varint (fn_ino f) @ enc_varint (fn_size f) @ enc_time (fn_mtime f) @ enc_u8 (fn_unused f) @ enc_vec enc_bextent (fn_extents f)"

definition dec_fnode :: "fnode decoder" where
  "dec_fnode =
     dec_then (dec_varint 64) (\<lambda>ino. dec_then (dec_varint 64) (\<lambda>sz. dec_then dec_time (\<lambda>t. dec_then dec_u8 (\<lambda>u.
       dec_then (dec_vec dec_bextent) (\<lambda>es. dec_return (recalc_allocated ((fnode_new ino sz t)\<lparr>fn_unused := u, fn_extents := es\<rparr>)))))))"

definition enc_delta :: "fnode_delta \<Rightarrow> bytes" where
  "enc_delta d =
     enc_varint (fd_ino d) @ enc_varint (fd_size d) @ enc_time (fd_mtime d) @ enc_lba (fd_offset d) @ enc_vec enc_bextent (fd_extents d)"

definition dec_delta :: "fnode_delta decoder" where
  "dec_delta =
     dec_then (dec_varint 64) (\<lambda>ino. dec_then (dec_varint 64) (\<lambda>sz. dec_then dec_time (\<lambda>t. dec_then dec_lba (\<lambda>off.
       dec_then (dec_vec dec_bextent) (\<lambda>es.
         dec_return \<lparr>fd_ino = ino, fd_size = sz, fd_mtime = t, fd_offset = off, fd_extents = es\<rparr>)))))"

definition super_body :: "bsuper \<Rightarrow> bytes" where
  "super_body s =
     enc_uuid (sp_uuid s) @ enc_uuid (sp_osd_uuid s) @ enc_u64 (sp_version s) @ enc_u32 (sp_block_size s) @ enc_fnode (sp_log_fnode s)"

definition enc_super :: "bsuper \<Rightarrow> bytes" where
  "enc_super s = enc_struct 1 1 (super_body s)"

definition super_fields :: "bsuper decoder" where
  "super_fields =
     dec_then dec_uuid (\<lambda>u. dec_then dec_uuid (\<lambda>w. dec_then dec_u64 (\<lambda>v. dec_then dec_u32 (\<lambda>b. dec_then dec_fnode (\<lambda>f.
       dec_return \<lparr>sp_uuid = u, sp_osd_uuid = w, sp_version = v, sp_block_size = b, sp_log_fnode = f\<rparr>)))))"

definition dec_super :: "bsuper decoder" where
  "dec_super = dec_struct super_fields"

section \<open>Transactions\<close>

record btxn =
  tx_uuid :: uuid
  tx_seq :: u64
  tx_ops :: bytes

definition txn_new :: btxn where
  "txn_new = \<lparr>tx_uuid = replicate 16 0, tx_seq = 0, tx_ops = []\<rparr>"

text \<open>\<open>bufferlist::crc32c(-1)\<close>.\<close>

definition bl_crc :: "bytes \<Rightarrow> u32" where
  "bl_crc bs = unat (calc_crc32 (Some bs) (length bs) (- 1))"

definition txn_body :: "btxn \<Rightarrow> bytes" where
  "txn_body t = enc_uuid (tx_uuid t) @ enc_u64 (tx_seq t) @ enc_string (tx_ops t) @ enc_u32 (bl_crc (tx_ops t))"

definition enc_txn :: "btxn \<Rightarrow> bytes" where
  "enc_txn t = enc_struct 1 1 (txn_body t)"

definition txn_fields :: "btxn decoder" where
  "txn_fields =
     dec_then dec_uuid (\<lambda>u. dec_then dec_u64 (\<lambda>s. dec_then dec_string (\<lambda>ops. dec_then dec_u32 (\<lambda>crc q.
       if bl_crc ops = crc then Inr (\<lparr>tx_uuid = u, tx_seq = s, tx_ops = ops\<rparr>, q) else Inl Malformed_input))))"

definition dec_txn :: "btxn decoder" where
  "dec_txn = dec_struct txn_fields"

text \<open>The operations of a transaction. Each \<open>op_\<close> method appends one to \<open>op_bl\<close>.\<close>

datatype bop =
    Op_init
  | Op_dir_link bytes bytes u64
  | Op_dir_unlink bytes bytes
  | Op_dir_create bytes
  | Op_dir_remove bytes
  | Op_file_update fnode
  | Op_file_remove u64
  | Op_jump u64 u64
  | Op_jump_seq u64
  | Op_file_update_inc fnode_delta

fun enc_op :: "bop \<Rightarrow> bytes" where
  "enc_op Op_init = enc_u8 1"
| "enc_op (Op_dir_link d f ino) = enc_u8 4 @ enc_string d @ enc_string f @ enc_u64 ino"
| "enc_op (Op_dir_unlink d f) = enc_u8 5 @ enc_string d @ enc_string f"
| "enc_op (Op_dir_create d) = enc_u8 6 @ enc_string d"
| "enc_op (Op_dir_remove d) = enc_u8 7 @ enc_string d"
| "enc_op (Op_file_update f) = enc_u8 8 @ enc_fnode f"
| "enc_op (Op_file_remove ino) = enc_u8 9 @ enc_u64 ino"
| "enc_op (Op_jump s off) = enc_u8 10 @ enc_u64 s @ enc_u64 off"
| "enc_op (Op_jump_seq s) = enc_u8 11 @ enc_u64 s"
| "enc_op (Op_file_update_inc d) = enc_u8 12 @ enc_delta d"

text \<open>Reading one operation; \<open>None\<close> is an unknown code, for which the replay returns \<open>-EIO\<close>.\<close>

definition dec_op_body :: "nat \<Rightarrow> bop option decoder" where
  "dec_op_body c =
     (if c = 1 then dec_return (Some Op_init)
      else if c = 4 then dec_then dec_string (\<lambda>d. dec_then dec_string (\<lambda>f. dec_then dec_u64 (\<lambda>ino. dec_return (Some (Op_dir_link d f ino)))))
      else if c = 5 then dec_then dec_string (\<lambda>d. dec_then dec_string (\<lambda>f. dec_return (Some (Op_dir_unlink d f))))
      else if c = 6 then dec_then dec_string (\<lambda>d. dec_return (Some (Op_dir_create d)))
      else if c = 7 then dec_then dec_string (\<lambda>d. dec_return (Some (Op_dir_remove d)))
      else if c = 8 then dec_then dec_fnode (\<lambda>f. dec_return (Some (Op_file_update f)))
      else if c = 9 then dec_then dec_u64 (\<lambda>ino. dec_return (Some (Op_file_remove ino)))
      else if c = 10 then dec_then dec_u64 (\<lambda>s. dec_then dec_u64 (\<lambda>off. dec_return (Some (Op_jump s off))))
      else if c = 11 then dec_then dec_u64 (\<lambda>s. dec_return (Some (Op_jump_seq s)))
      else if c = 12 then dec_then dec_delta (\<lambda>d. dec_return (Some (Op_file_update_inc d)))
      else dec_return None)"

definition dec_op :: "bop option decoder" where
  "dec_op = dec_then dec_u8 dec_op_body"

section \<open>Round trips\<close>

definition bextent_ok :: "bextent \<Rightarrow> bool" where
  "bextent_ok e \<longleftrightarrow> bx_offset e < 2 ^ 64 \<and> bx_length e < 2 ^ 32 \<and> bx_bdev e < 2 ^ 8"

interpretation bextent: codec enc_bextent dec_bextent bextent_ok "\<lambda>e. 21"
proof
  fix e :: bextent
  assume e: "bextent_ok e"
  then have len: "bx_length e < 2 ^ 62" and u: "bx_offset e < 2 ^ 64" "bx_bdev e < 2 ^ 8" by (auto simp: bextent_ok_def)
  show "dec_bextent (enc_bextent e @ q) = Inr (e, q)" for q
    using e u lba.round_trip [OF u(1)] varint_lowz.round_trip [OF len] u8.round_trip [OF u(2)]
    by (simp add: dec_bextent_def enc_bextent_def take_bit_nat_eq_self bextent_ok_def)
  show "length (enc_bextent e) \<le> 21"
    using lba.fits [OF u(1)] varint_lowz.fits [OF len] by (simp add: enc_bextent_def enc_u8_def bound_lba_def bound_varint_lowz_def)
qed

interpretation time: codec enc_time dec_time "\<lambda>t. t < 2 ^ 32 * 1000000000" "\<lambda>t. 8"
proof
  fix t :: nat
  assume t: "t < 2 ^ 32 * 1000000000"
  have s: "t div 1000000000 < 2 ^ 32" "t mod 1000000000 < 2 ^ 32" using t by (simp_all add: div_less_iff_less_mult less_trans [OF mod_less_divisor])
  have "t div 1000000000 * 1000000000 \<le> t" by simp
  then have m: "mul64 (t div 1000000000) 1000000000 = t div 1000000000 * 1000000000" using t by (intro mul64_exact) simp
  have a: "add64 (t div 1000000000 * 1000000000) (t mod 1000000000) = t" using t by (subst add64_exact) simp_all
  show "dec_time (enc_time t @ q) = Inr (t, q)" for q
    using s u32.round_trip [OF s(1)] u32.round_trip [OF s(2)] m a by (simp add: dec_time_def enc_time_def)
qed (simp add: enc_time_def enc_u32_def)

text \<open>The index holds the start of every extent, and the node knows its allocated length.\<close>

fun starts :: "nat \<Rightarrow> bextent list \<Rightarrow> nat list" where
  "starts pos [] = []"
| "starts pos (e # es) = pos # starts (pos + bx_length e) es"

definition total_length :: "bextent list \<Rightarrow> nat" where
  "total_length es = sum_list (map bx_length es)"

definition fnode_wf :: "fnode \<Rightarrow> bool" where
  "fnode_wf f \<longleftrightarrow> total_length (fn_extents f) < 2 ^ 64 \<and> fn_allocated f = total_length (fn_extents f) \<and>
     fn_index f = starts 0 (fn_extents f)"

lemma total_length_simps [simp]: "total_length [] = 0" "total_length (e # es) = bx_length e + total_length es"
  "total_length (es @ fs) = total_length es + total_length fs"
  by (simp_all add: total_length_def)

lemma starts_append [simp]: "starts pos (es @ fs) = starts pos es @ starts (pos + total_length es) fs"
  by (induction es arbitrary: pos) (simp_all add: ac_simps)

lemma length_starts [simp]: "length (starts pos es) = length es"
  by (induction es arbitrary: pos) simp_all

lemma recalc_loop_ok:
  "fn_allocated f + total_length es < 2 ^ 64 \<Longrightarrow>
   recalc_loop es f = f\<lparr>fn_index := fn_index f @ starts (fn_allocated f) es, fn_allocated := fn_allocated f + total_length es\<rparr>"
  by (induction es arbitrary: f) (simp_all add: add64_exact)

lemma recalc_allocated_ok:
  assumes "total_length (fn_extents f) < 2 ^ 64"
  shows "recalc_allocated f = f\<lparr>fn_index := starts 0 (fn_extents f), fn_allocated := total_length (fn_extents f), fn_committed := total_length (fn_extents f)\<rparr>"
  using assms by (simp add: recalc_allocated_def recalc_loop_ok Let_def)

lemma recalc_wf: "total_length (fn_extents f) < 2 ^ 64 \<Longrightarrow> fnode_wf (recalc_allocated f)"
  by (simp add: recalc_allocated_ok fnode_wf_def)

definition fnode_ok :: "fnode \<Rightarrow> bool" where
  "fnode_ok f \<longleftrightarrow> fnode_wf f \<and> fn_ino f < 2 ^ 63 \<and> fn_size f < 2 ^ 63 \<and> fn_mtime f < 2 ^ 32 * 1000000000 \<and> fn_unused f < 2 ^ 8 \<and>
     length (fn_extents f) < 2 ^ 32 \<and> (\<forall>e \<in> set (fn_extents f). bextent_ok e)"

definition bound_fnode :: "fnode \<Rightarrow> nat" where
  "bound_fnode f = 2 * bound_varint 8 + 9 + bound_vec (\<lambda>e. 21) (fn_extents f)"

lemma fnode_committed: "fnode_wf f \<Longrightarrow> fn_committed f = fn_allocated f \<Longrightarrow>
    recalc_allocated (fnode_new (fn_ino f) (fn_size f) (fn_mtime f)\<lparr>fn_unused := fn_unused f, fn_extents := fn_extents f\<rparr>) = f"
  by (simp add: fnode_wf_def recalc_allocated_ok fnode_new_def)

lemma dec_enc_fnode:
  assumes "fnode_ok f"
  shows "dec_fnode (enc_fnode f @ q) = Inr (reset_delta f, q)"
proof -
  have f: "fn_ino f < 2 ^ 63" "fn_size f < 2 ^ 63" "fn_mtime f < 2 ^ 32 * 1000000000" "fn_unused f < 2 ^ 8"
    "length (fn_extents f) < 2 ^ 32" "\<forall>e \<in> set (fn_extents f). bextent_ok e" "fnode_wf f" using assms by (auto simp: fnode_ok_def)
  have "recalc_allocated (fnode_new (fn_ino f) (fn_size f) (fn_mtime f)\<lparr>fn_unused := fn_unused f, fn_extents := fn_extents f\<rparr>) = reset_delta f"
    using f(7) by (simp add: fnode_wf_def recalc_allocated_ok fnode_new_def reset_delta_def)
  then show ?thesis
    using varint64.round_trip [OF f(1)] varint64.round_trip [OF f(2)] time.round_trip [OF f(3)] u8.round_trip [OF f(4)]
      bextent.vec_round_trip [OF f(5,6)] by (simp add: dec_fnode_def enc_fnode_def)
qed

lemma enc_fnode_fits: "fnode_ok f \<Longrightarrow> length (enc_fnode f) \<le> bound_fnode f"
  using varint64.fits [of "fn_ino f"] varint64.fits [of "fn_size f"] bextent.vec_fits [of "fn_extents f"]
  by (simp add: fnode_ok_def enc_fnode_def bound_fnode_def enc_time_def enc_u32_def enc_u8_def)

interpretation fnode: codec enc_fnode dec_fnode "\<lambda>f. fnode_ok f \<and> fn_committed f = fn_allocated f" bound_fnode
  by unfold_locales (simp_all add: dec_enc_fnode enc_fnode_fits reset_delta_def)

definition delta_ok :: "fnode_delta \<Rightarrow> bool" where
  "delta_ok d \<longleftrightarrow> fd_ino d < 2 ^ 63 \<and> fd_size d < 2 ^ 63 \<and> fd_mtime d < 2 ^ 32 * 1000000000 \<and> fd_offset d < 2 ^ 64 \<and>
     length (fd_extents d) < 2 ^ 32 \<and> (\<forall>e \<in> set (fd_extents d). bextent_ok e)"

definition bound_delta :: "fnode_delta \<Rightarrow> nat" where
  "bound_delta d = 2 * bound_varint 8 + 8 + bound_lba + bound_vec (\<lambda>e. 21) (fd_extents d)"

interpretation delta: codec enc_delta dec_delta delta_ok bound_delta
proof
  fix d :: fnode_delta
  assume "delta_ok d"
  then have d: "fd_ino d < 2 ^ 63" "fd_size d < 2 ^ 63" "fd_mtime d < 2 ^ 32 * 1000000000" "fd_offset d < 2 ^ 64"
    "length (fd_extents d) < 2 ^ 32" "\<forall>e \<in> set (fd_extents d). bextent_ok e" by (auto simp: delta_ok_def)
  show "dec_delta (enc_delta d @ q) = Inr (d, q)" for q
    using varint64.round_trip [OF d(1)] varint64.round_trip [OF d(2)] time.round_trip [OF d(3)] lba.round_trip [OF d(4)]
      bextent.vec_round_trip [OF d(5,6)] by (simp add: dec_delta_def enc_delta_def)
  show "length (enc_delta d) \<le> bound_delta d"
    using varint64.fits [OF d(1)] varint64.fits [OF d(2)] lba.fits [OF d(4)] bextent.vec_fits [OF d(6)]
    by (simp add: enc_delta_def bound_delta_def enc_time_def enc_u32_def)
qed

definition super_ok :: "bsuper \<Rightarrow> bool" where
  "super_ok s \<longleftrightarrow> length (sp_uuid s) = 16 \<and> length (sp_osd_uuid s) = 16 \<and> sp_version s < 2 ^ 64 \<and> sp_block_size s < 2 ^ 32 \<and>
     fnode_ok (sp_log_fnode s) \<and> fn_committed (sp_log_fnode s) = fn_allocated (sp_log_fnode s)"

interpretation super_fields: codec super_body super_fields super_ok "\<lambda>s. 56 + bound_fnode (sp_log_fnode s)"
proof
  fix s :: bsuper
  assume "super_ok s"
  then have s: "length (sp_uuid s) = 16" "length (sp_osd_uuid s) = 16" "sp_version s < 2 ^ 64" "sp_block_size s < 2 ^ 32"
    "fnode_ok (sp_log_fnode s) \<and> fn_committed (sp_log_fnode s) = fn_allocated (sp_log_fnode s)" by (auto simp: super_ok_def)
  show "super_fields (super_body s @ q) = Inr (s, q)" for q
    using uuid.round_trip [OF s(1)] uuid.round_trip [OF s(2)] u64.round_trip [OF s(3)] u32.round_trip [OF s(4)] fnode.round_trip [OF s(5)]
    by (simp add: super_fields_def super_body_def)
  show "length (super_body s) \<le> 56 + bound_fnode (sp_log_fnode s)"
    using s uuid.fits [OF s(1)] uuid.fits [OF s(2)] fnode.fits [OF s(5)]
    by (simp add: super_body_def enc_u64_def enc_u32_def bound_struct_def)
qed

definition txn_ok :: "btxn \<Rightarrow> bool" where
  "txn_ok t \<longleftrightarrow> length (tx_uuid t) = 16 \<and> tx_seq t < 2 ^ 64 \<and> length (tx_ops t) < 2 ^ 32 - 64"

interpretation txn_fields: codec txn_body txn_fields txn_ok "\<lambda>t. 38 + length (tx_ops t)"
proof
  fix t :: btxn
  assume "txn_ok t"
  then have t: "length (tx_uuid t) = 16" "tx_seq t < 2 ^ 64" "length (tx_ops t) < 2 ^ 32" by (auto simp: txn_ok_def)
  have crc: "bl_crc bs < 2 ^ 32" for bs using unsigned_less [of "calc_crc32 (Some bs) (length bs) (- 1)"] by (simp add: bl_crc_def)
  show "txn_fields (txn_body t @ q) = Inr (t, q)" for q
    using uuid.round_trip [OF t(1)] u64.round_trip [OF t(2)] str.round_trip [OF t(3)] u32.round_trip [OF crc [of "tx_ops t"]]
    by (simp add: txn_fields_def txn_body_def)
  show "length (txn_body t) \<le> 38 + length (tx_ops t)"
    using t uuid.fits [OF t(1)] by (simp add: txn_body_def enc_u64_def enc_u32_def enc_string_def bound_struct_def)
qed

lemma dec_enc_super: "super_ok s \<Longrightarrow> length (super_body s) < 2 ^ 32 \<Longrightarrow> dec_super (enc_super s @ q) = Inr (s, q)"
  unfolding dec_super_def enc_super_def by (rule super_fields.struct_round_trip) simp_all

lemma txn_body_short: "txn_ok t \<Longrightarrow> length (txn_body t) < 2 ^ 32"
  by (frule txn_fields.fits) (simp add: txn_ok_def)

lemma dec_enc_txn: "txn_ok t \<Longrightarrow> dec_txn (enc_txn t @ q) = Inr (t, q)"
  unfolding dec_txn_def enc_txn_def by (rule txn_fields.struct_round_trip [OF _ txn_body_short]) simp_all

fun op_ok :: "bop \<Rightarrow> bool" where
  "op_ok Op_init \<longleftrightarrow> True"
| "op_ok (Op_dir_link d f ino) \<longleftrightarrow> length d < 2 ^ 32 \<and> length f < 2 ^ 32 \<and> ino < 2 ^ 64"
| "op_ok (Op_dir_unlink d f) \<longleftrightarrow> length d < 2 ^ 32 \<and> length f < 2 ^ 32"
| "op_ok (Op_dir_create d) \<longleftrightarrow> length d < 2 ^ 32"
| "op_ok (Op_dir_remove d) \<longleftrightarrow> length d < 2 ^ 32"
| "op_ok (Op_file_update f) \<longleftrightarrow> fnode_ok f"
| "op_ok (Op_file_remove ino) \<longleftrightarrow> ino < 2 ^ 64"
| "op_ok (Op_jump s off) \<longleftrightarrow> s < 2 ^ 64 \<and> off < 2 ^ 64"
| "op_ok (Op_jump_seq s) \<longleftrightarrow> s < 2 ^ 64"
| "op_ok (Op_file_update_inc d) \<longleftrightarrow> delta_ok d"

text \<open>What an operation is after it is read: the update of a node says that all of it is logged.\<close>

fun op_read :: "bop \<Rightarrow> bop" where
  "op_read (Op_file_update f) = Op_file_update (reset_delta f)"
| "op_read op = op"

lemma dec_enc_op: "op_ok op \<Longrightarrow> dec_op (enc_op op @ q) = Inr (Some (op_read op), q)"
  by (cases op) (simp_all add: dec_op_def dec_op_body_def u8.round_trip str.round_trip u64.round_trip dec_enc_fnode delta.round_trip)

lemma enc_op_nonempty: "enc_op op \<noteq> []"
  by (cases op) (simp_all add: enc_u8_def)

section \<open>Seeking\<close>

lemma starts_ge: "p \<in> set (starts pos es) \<Longrightarrow> pos \<le> p"
  by (induction es arbitrary: pos) (fastforce)+

lemma takeWhile_starts:
  "off < pos + total_length es \<Longrightarrow> pos \<le> off \<Longrightarrow>
   \<exists>i. upper_bound (starts pos es) off = Suc i \<and> i < length es \<and> starts pos es ! i \<le> off \<and> off < starts pos es ! i + bx_length (es ! i)"
proof (induction es arbitrary: pos)
  case (Cons e es)
  show ?case
  proof (cases "off < pos + bx_length e")
    case True
    have "takeWhile (\<lambda>y. y \<le> off) (starts (pos + bx_length e) es) = []"
      using True by (cases es) auto
    then show ?thesis using True Cons.prems(2) by (intro exI [of _ 0]) (simp add: upper_bound_def)
  next
    case False
    then obtain i where "upper_bound (starts (pos + bx_length e) es) off = Suc i" "i < length es"
      "starts (pos + bx_length e) es ! i \<le> off" "off < starts (pos + bx_length e) es ! i + bx_length (es ! i)"
      using Cons.IH [of "pos + bx_length e"] Cons.prems(1) by (auto simp: add.assoc)
    then show ?thesis using Cons.prems(2) by (intro exI [of _ "Suc i"]) (simp add: upper_bound_def)
  qed
qed simp

lemma starts_nth: "i < length es \<Longrightarrow> starts pos es ! i = pos + total_length (take i es)"
proof (induction es arbitrary: pos i)
  case (Cons e es)
  then show ?case by (cases i) simp_all
qed simp

lemma seek_ok:
  assumes "fnode_wf f" and "off < fn_allocated f"
  shows "\<exists>i x. seek off f = Some (i, x) \<and> i < length (fn_extents f) \<and> x < bx_length (fn_extents f ! i) \<and>
    off = total_length (take i (fn_extents f)) + x"
proof -
  have wf: "fn_allocated f = total_length (fn_extents f)" "fn_index f = starts 0 (fn_extents f)" "fn_allocated f < 2 ^ 64"
    using assms(1) by (auto simp: fnode_wf_def)
  obtain i where i: "upper_bound (fn_index f) off = Suc i" "i < length (fn_extents f)" "fn_index f ! i \<le> off"
    "off < fn_index f ! i + bx_length (fn_extents f ! i)" using takeWhile_starts [of off 0 "fn_extents f"] assms(2) wf by auto
  have st: "fn_index f ! i = total_length (take i (fn_extents f))" using starts_nth [OF i(2), of 0] wf(2) by simp
  have "fn_extents f \<noteq> []" using i(2) by auto
  then have "seek off f = Some (i, off - fn_index f ! i)"
    using assms(2) i(1,3) wf(3) by (simp add: seek_def sub64_exact)
  then show ?thesis using i st by auto
qed

lemma seek_None: "fn_allocated f \<le> off \<Longrightarrow> seek off f = None"
  by (simp add: seek_def)

section \<open>Appending extents\<close>

definition push_ext :: "bextent \<Rightarrow> bextent list \<Rightarrow> bextent list" where
  "push_ext e es =
     (if es \<noteq> [] \<and> mergeable (List.last es) e
      then butlast es @ [(List.last es)\<lparr>bx_length := bx_length (List.last es) + bx_length e\<rparr>] else es @ [e])"

lemma total_push [simp]: "total_length (push_ext e es) = total_length es + bx_length e"
proof (cases "es = []")
  case False
  then obtain fs l where "es = fs @ [l]" by (metis append_butlast_last_id)
  then show ?thesis by (simp add: push_ext_def)
qed (simp add: push_ext_def)

lemma append_extent_ok:
  assumes "fnode_wf f" and "fn_allocated f + bx_length e < 2 ^ 64"
  shows "fnode_wf (append_extent e f)" and "fn_extents (append_extent e f) = push_ext e (fn_extents f)"
    and "fn_allocated (append_extent e f) = fn_allocated f + bx_length e" and "fn_committed (append_extent e f) = fn_committed f"
proof -
  show x: "fn_extents (append_extent e f) = push_ext e (fn_extents f)" "fn_allocated (append_extent e f) = fn_allocated f + bx_length e"
    "fn_committed (append_extent e f) = fn_committed f"
    using assms(2) by (simp_all add: append_extent_def push_ext_def Let_def add64_exact)
  have wf: "fn_allocated f = total_length (fn_extents f)" "fn_index f = starts 0 (fn_extents f)" using assms(1) by (auto simp: fnode_wf_def)
  have "fn_index (append_extent e f) = starts 0 (push_ext e (fn_extents f))"
  proof (cases "fn_extents f = []")
    case False
    then obtain fs l where "fn_extents f = fs @ [l]" by (metis append_butlast_last_id)
    then show ?thesis using wf by (simp add: append_extent_def push_ext_def Let_def)
  qed (use wf in \<open>simp add: append_extent_def push_ext_def\<close>)
  then show "fnode_wf (append_extent e f)" using x assms(2) wf by (simp add: fnode_wf_def)
qed

lemma append_extent_frame: "fn_ino (append_extent e f) = fn_ino f" "fn_size (append_extent e f) = fn_size f"
  "fn_mtime (append_extent e f) = fn_mtime f" "fn_unused (append_extent e f) = fn_unused f"
  by (simp_all add: append_extent_def Let_def)

lemma claim_extents_ok:
  "fnode_wf f \<Longrightarrow> fn_allocated f + total_length es < 2 ^ 64 \<Longrightarrow>
   fnode_wf (claim_extents es f) \<and> fn_extents (claim_extents es f) = fold push_ext es (fn_extents f) \<and>
   fn_allocated (claim_extents es f) = fn_allocated f + total_length es \<and> fn_committed (claim_extents es f) = fn_committed f \<and>
   fn_ino (claim_extents es f) = fn_ino f \<and> fn_size (claim_extents es f) = fn_size f \<and>
   fn_mtime (claim_extents es f) = fn_mtime f \<and> fn_unused (claim_extents es f) = fn_unused f"
proof (induction es arbitrary: f)
  case (Cons e es)
  have lt: "fn_allocated f + bx_length e < 2 ^ 64" using Cons.prems(2) by simp
  note a = append_extent_ok [OF Cons.prems(1) lt]
  show ?case using Cons.IH [OF a(1)] Cons.prems(2) a(2-4) append_extent_frame by (simp add: claim_extents_def add.assoc)
qed (simp add: claim_extents_def)

text \<open>Adjacent extents that cannot be merged.\<close>

fun canon :: "bextent list \<Rightarrow> bool" where
  "canon (a # b # es) \<longleftrightarrow> \<not> mergeable a b \<and> canon (b # es)"
| "canon es \<longleftrightarrow> True"

lemma canon_snoc: "canon (es @ [a, b]) \<longleftrightarrow> canon (es @ [a]) \<and> \<not> mergeable a b"
  by (induction es rule: canon.induct) auto

lemma canon_push: "canon es \<Longrightarrow> canon (push_ext e es)"
proof (cases "es = []")
  case False
  assume c: "canon es"
  obtain fs l where l: "es = fs @ [l]" using False by (metis append_butlast_last_id)
  show ?thesis
  proof (cases "mergeable l e")
    case True
    define m where "m = l\<lparr>bx_length := bx_length l + bx_length e\<rparr>"
    have "canon (fs @ [m])"
    proof (cases "fs = []")
      case False
      then obtain gs k where "fs = gs @ [k]" by (metis append_butlast_last_id)
      then show ?thesis using c l canon_snoc [of gs k] by (auto simp: mergeable_def m_def)
    qed simp
    then show ?thesis using True l by (simp add: push_ext_def m_def)
  next
    case False
    then show ?thesis using c l canon_snoc [of fs l e] by (simp add: push_ext_def)
  qed
qed (simp add: push_ext_def)

lemma push_canon: "canon (es @ [e]) \<Longrightarrow> push_ext e es = es @ [e]"
proof (cases "es = []")
  case False
  then obtain fs l where "es = fs @ [l]" by (metis append_butlast_last_id)
  then show "canon (es @ [e]) \<Longrightarrow> push_ext e es = es @ [e]" using canon_snoc [of fs l e] by (simp add: push_ext_def)
qed (simp add: push_ext_def)

lemma canon_prefix: "canon (es @ fs) \<Longrightarrow> canon es"
  by (induction es rule: canon.induct) simp_all

lemma fold_push_canon: "canon (es @ fs) \<Longrightarrow> fold push_ext fs es = es @ fs"
proof (induction fs arbitrary: es)
  case (Cons e fs)
  then show ?case using push_canon [of es e] canon_prefix [of "es @ [e]" fs] by simp
qed simp

section \<open>Incremental updates\<close>

text \<open>The first \<open>n\<close> bytes of a list of extents, and the rest.\<close>

fun cut :: "nat \<Rightarrow> bextent list \<Rightarrow> bextent list" where
  "cut n [] = []"
| "cut n (e # es) = (if n = 0 then [] else if n < bx_length e then [e\<lparr>bx_length := n\<rparr>] else e # cut (n - bx_length e) es)"

fun rest :: "nat \<Rightarrow> bextent list \<Rightarrow> bextent list" where
  "rest n [] = []"
| "rest n (e # es) =
     (if bx_length e \<le> n then rest (n - bx_length e) es
      else (if n = 0 then e else e\<lparr>bx_offset := bx_offset e + n, bx_length := bx_length e - n\<rparr>) # es)"

definition exts_ok :: "bextent list \<Rightarrow> bool" where
  "exts_ok es \<longleftrightarrow> canon es \<and> total_length es < 2 ^ 64 \<and>
     (\<forall>e \<in> set es. 0 < bx_length e \<and> bx_length e < 0xffffffff \<and> bx_offset e + bx_length e < 2 ^ 64 \<and> bx_bdev e < 2 ^ 8)"

lemma delta_loop_all: "d \<le> pos \<Longrightarrow> pos + total_length es < 2 ^ 64 \<Longrightarrow> \<forall>e \<in> set es. 0 < bx_length e \<Longrightarrow> delta_loop d pos es = es"
  by (induction es arbitrary: pos) (auto simp: add64_exact)

lemma delta_loop_rest:
  "pos \<le> d \<Longrightarrow> pos + total_length es < 2 ^ 64 \<Longrightarrow> \<forall>e \<in> set es. 0 < bx_length e \<and> bx_length e < 2 ^ 32 \<and> bx_offset e + bx_length e < 2 ^ 64 \<Longrightarrow>
   delta_loop d pos es = rest (d - pos) es"
proof (induction es arbitrary: pos)
  case (Cons e es)
  have a: "add64 pos (bx_length e) = pos + bx_length e" using Cons.prems(2) by (intro add64_exact) simp
  have e: "0 < bx_length e" "bx_length e < 2 ^ 32" "bx_offset e + bx_length e < 2 ^ 64" using Cons.prems(3) by auto
  show ?case
  proof (cases "pos + bx_length e \<le> d")
    case True
    then have "bx_length e \<le> d - pos" by simp
    moreover have "delta_loop d (pos + bx_length e) es = rest (d - (pos + bx_length e)) es"
      using Cons.IH [OF True] Cons.prems(2,3) by (simp add: add.assoc)
    ultimately show ?thesis using True a by simp
  next
    case False
    have "sub64 (bx_length e) (d - pos) = bx_length e - (d - pos)" using False e by (intro sub64_exact) auto
    moreover have "add64 (bx_offset e) (d - pos) = bx_offset e + (d - pos)" using False e by (intro add64_exact) auto
    moreover have "delta_loop d (pos + bx_length e) es = es" using False Cons.prems by (intro delta_loop_all) auto
    ultimately show ?thesis using False a e(2) Cons.prems(1) by (auto simp: Let_def)
  qed
qed simp

lemma cut_rest:
  assumes "\<forall>e \<in> set es. 0 < bx_length e \<and> bx_length e < 0xffffffff \<and> bx_offset e + bx_length e < 2 ^ 64"
  shows "canon (pre @ es) \<Longrightarrow> fold push_ext (rest n es) (pre @ cut n es) = pre @ es"
  using assms
proof (induction es arbitrary: pre n)
  case (Cons e es)
  have e: "0 < bx_length e" "bx_length e < 0xffffffff" "bx_offset e + bx_length e < 2 ^ 64" using Cons.prems(2) by auto
  consider "n = 0" | "0 < n" "n < bx_length e" | "0 < n" "bx_length e \<le> n" by linarith
  then show ?case
  proof cases
    case 1
    then show ?thesis using e(1) fold_push_canon [OF Cons.prems(1)] by simp
  next
    case 2
    define a b where "a = e\<lparr>bx_length := n\<rparr>" and "b = e\<lparr>bx_offset := bx_offset e + n, bx_length := bx_length e - n\<rparr>"
    have "add64 (bx_offset e) n = bx_offset e + n" using 2 e(3) by (intro add64_exact) simp
    then have "push_ext b (pre @ [a]) = pre @ [e]" using 2 e(2) by (simp add: push_ext_def mergeable_def bx_end_def a_def b_def)
    then show ?thesis using 2 fold_push_canon [of "pre @ [e]" es] Cons.prems(1) by (simp add: a_def [symmetric] b_def [symmetric])
  next
    case 3
    then show ?thesis using Cons.IH [of "pre @ [e]" "n - bx_length e"] Cons.prems by simp
  qed
qed simp

lemma cut_push: "n \<le> total_length es \<Longrightarrow> \<forall>e \<in> set es. 0 < bx_length e \<Longrightarrow> cut n (push_ext x es) = cut n es"
proof -
  assume n: "n \<le> total_length es" and p: "\<forall>e \<in> set es. 0 < bx_length e"
  have snoc: "n \<le> total_length (fs @ [l]) \<Longrightarrow> \<forall>e \<in> set (fs @ [l]). 0 < bx_length e \<Longrightarrow>
      cut n (fs @ [l\<lparr>bx_length := bx_length l + k\<rparr>]) = cut n (fs @ [l])" for fs l k n
  proof (induction fs arbitrary: n)
    case (Cons f fs)
    then show ?case by auto
  qed auto
  have new: "n \<le> total_length fs \<Longrightarrow> cut n (fs @ [x]) = cut n fs" for fs n
    by (induction fs arbitrary: n) auto
  show ?thesis
  proof (cases "es \<noteq> [] \<and> mergeable (List.last es) x")
    case True
    then obtain fs l where l: "es = fs @ [l]" by (metis append_butlast_last_id)
    then show ?thesis using True snoc [of n fs l "bx_length x"] n p by (simp add: push_ext_def)
  qed (use new n in \<open>auto simp: push_ext_def\<close>)
qed

lemma cut_all: "\<forall>e \<in> set es. 0 < bx_length e \<Longrightarrow> cut (total_length es) es = es"
  by (induction es) auto

text \<open>What \<open>push_ext\<close> keeps of the extents of a node, and the extents an allocation may bring.\<close>

definition ext_ok :: "bextent \<Rightarrow> bool" where
  "ext_ok e \<longleftrightarrow> 0 < bx_length e \<and> bx_length e < 0xffffffff \<and> bx_offset e + bx_length e < 2 ^ 64 \<and> bx_bdev e < 2 ^ 8"

lemma exts_ok_iff: "exts_ok es \<longleftrightarrow> canon es \<and> total_length es < 2 ^ 64 \<and> (\<forall>e \<in> set es. ext_ok e)"
  by (simp add: exts_ok_def ext_ok_def)

lemma merged_ok: "ext_ok l \<Longrightarrow> ext_ok e \<Longrightarrow> mergeable l e \<Longrightarrow> ext_ok (l\<lparr>bx_length := bx_length l + bx_length e\<rparr>)"
  by (simp add: ext_ok_def mergeable_def bx_end_def add64_exact)

lemma push_ext_members: "\<forall>e \<in> set es. ext_ok e \<Longrightarrow> ext_ok x \<Longrightarrow> \<forall>e \<in> set (push_ext x es). ext_ok e"
  by (auto simp: push_ext_def dest: in_set_butlastD intro: merged_ok)

lemma push_exts_ok: "exts_ok es \<Longrightarrow> ext_ok e \<Longrightarrow> total_length es + bx_length e < 2 ^ 64 \<Longrightarrow> exts_ok (push_ext e es)"
  using push_ext_members [of es e] canon_push [of es e] by (simp add: exts_ok_iff)

lemma fold_push_ok:
  "exts_ok es \<Longrightarrow> \<forall>e \<in> set fs. ext_ok e \<Longrightarrow> total_length es + total_length fs < 2 ^ 64 \<Longrightarrow>
   exts_ok (fold push_ext fs es) \<and> total_length (fold push_ext fs es) = total_length es + total_length fs \<and>
   (\<forall>n \<le> total_length es. cut n (fold push_ext fs es) = cut n es)"
proof (induction fs arbitrary: es)
  case (Cons f fs)
  have "cut n (push_ext f es) = cut n es" if "n \<le> total_length es" for n
    using Cons.prems(1) that by (intro cut_push) (auto simp: exts_ok_iff ext_ok_def)
  then show ?case using Cons.IH [of "push_ext f es"] Cons.prems push_exts_ok [of es f] by (simp add: add.assoc)
qed simp

text \<open>A node and the state of it that the log has: the log knows the first \<open>fn_committed\<close> bytes.\<close>

definition node_ok :: "fnode \<Rightarrow> bool" where
  "node_ok f \<longleftrightarrow> fnode_wf f \<and> exts_ok (fn_extents f) \<and> fn_committed f \<le> fn_allocated f"

lemma make_delta_rest:
  assumes "node_ok f"
  shows "fd_extents (make_delta f) = rest (fn_committed f) (fn_extents f)"
proof -
  have "\<forall>e \<in> set (fn_extents f). 0 < bx_length e \<and> bx_length e < 2 ^ 32 \<and> bx_offset e + bx_length e < 2 ^ 64"
    using assms by (auto simp: node_ok_def exts_ok_iff ext_ok_def)
  then show ?thesis
    using delta_loop_rest [of 0 "fn_committed f" "fn_extents f"] assms by (simp add: make_delta_def node_ok_def exts_ok_iff)
qed

lemma total_rest: "\<forall>e \<in> set es. 0 < bx_length e \<Longrightarrow> total_length (rest n es) = total_length es - n"
  by (induction es arbitrary: n) auto

lemma total_cut: "total_length (cut n es) = min n (total_length es)"
  by (induction es arbitrary: n) auto

lemma claim_delta:
  assumes "node_ok f" and "fnode_wf r" and "fn_extents r = cut (fn_committed f) (fn_extents f)"
  shows "fn_extents (claim_extents (fd_extents (make_delta f)) r) = fn_extents f"
    and "fn_index (claim_extents (fd_extents (make_delta f)) r) = fn_index f"
    and "fn_allocated (claim_extents (fd_extents (make_delta f)) r) = fn_allocated f"
    and "fn_allocated r = fn_committed f"
proof -
  have f: "canon (fn_extents f)" "total_length (fn_extents f) < 2 ^ 64" "\<forall>e \<in> set (fn_extents f). ext_ok e" "fn_committed f \<le> total_length (fn_extents f)"
    "fn_allocated f = total_length (fn_extents f)" "fn_index f = starts 0 (fn_extents f)"
    using assms(1) by (auto simp: node_ok_def exts_ok_iff fnode_wf_def)
  have pos: "\<forall>e \<in> set (fn_extents f). 0 < bx_length e" using f(3) by (auto simp: ext_ok_def)
  note d = make_delta_rest [OF assms(1)] and t = total_rest [OF pos, of "fn_committed f"]
  have ra: "fn_allocated r = fn_committed f" using assms(2,3) f(4) by (simp add: fnode_wf_def total_cut)
  have e: "fold push_ext (rest (fn_committed f) (fn_extents f)) (cut (fn_committed f) (fn_extents f)) = fn_extents f"
    using cut_rest [of "fn_extents f" "[]" "fn_committed f"] f(1,3) by (simp add: ext_ok_def)
  note c = claim_extents_ok [OF assms(2), of "rest (fn_committed f) (fn_extents f)"]
  show "fn_allocated r = fn_committed f" by (rule ra)
  show "fn_extents (claim_extents (fd_extents (make_delta f)) r) = fn_extents f"
    "fn_index (claim_extents (fd_extents (make_delta f)) r) = fn_index f"
    "fn_allocated (claim_extents (fd_extents (make_delta f)) r) = fn_allocated f"
    using c d t ra f e assms(3) by (simp_all add: fnode_wf_def)
qed

lemma node_ok_claim:
  assumes "node_ok f" and "\<forall>e \<in> set es. ext_ok e" and "fn_allocated f + total_length es < 2 ^ 64"
  shows "node_ok (claim_extents es f)"
    and "cut (fn_committed f) (fn_extents (claim_extents es f)) = cut (fn_committed f) (fn_extents f)"
    and "fn_allocated (claim_extents es f) = fn_allocated f + total_length es"
    and "fn_committed (claim_extents es f) = fn_committed f"
proof -
  have f: "fnode_wf f" "exts_ok (fn_extents f)" "fn_committed f \<le> total_length (fn_extents f)" "fn_allocated f = total_length (fn_extents f)"
    using assms(1) by (auto simp: node_ok_def fnode_wf_def)
  note c = claim_extents_ok [OF f(1) assms(3)]
  note p = fold_push_ok [OF f(2) assms(2)]
  show "node_ok (claim_extents es f)" "cut (fn_committed f) (fn_extents (claim_extents es f)) = cut (fn_committed f) (fn_extents f)"
    "fn_allocated (claim_extents es f) = fn_allocated f + total_length es" "fn_committed (claim_extents es f) = fn_committed f"
    using c p f assms(3) by (simp_all add: node_ok_def)
qed

lemma cut_everything: "node_ok f \<Longrightarrow> cut (fn_allocated f) (fn_extents f) = fn_extents f"
  using cut_all [of "fn_extents f"] by (auto simp: node_ok_def fnode_wf_def exts_ok_iff ext_ok_def)

text \<open>
  Take a node of which everything is logged and append extents to it. The incremental update made of the result
  starts where the logged node ends, so the assertion of the replay holds, and claiming its extents on the logged node
  rebuilds the live node exactly, also where the new extents were merged into the last logged one.
\<close>

theorem delta_rebuilds_node:
  assumes "node_ok f" and "fn_committed f = fn_allocated f"
    and "\<forall>e \<in> set es. ext_ok e" and "fn_allocated f + total_length es < 2 ^ 64"
  shows "fd_offset (make_delta (claim_extents es f)) = fn_allocated f \<and>
    claim_extents (fd_extents (make_delta (claim_extents es f))) f = claim_extents es f"
proof -
  define g where "g = claim_extents es f"
  note k = node_ok_claim [OF assms(1,3,4)]
  have wf: "fnode_wf f" using assms(1) by (simp add: node_ok_def)
  have g: "node_ok g" "fn_committed g = fn_committed f" "fn_extents f = cut (fn_committed g) (fn_extents g)"
    using k cut_everything [OF assms(1)] assms(2) by (simp_all add: g_def)
  note c = claim_delta [OF g(1) wf g(3)]
  have t: "fn_allocated f + total_length (fd_extents (make_delta g)) < 2 ^ 64"
    using make_delta_rest [OF g(1)] total_rest [of "fn_extents g" "fn_committed g"] g(1) c(4)
    by (auto simp: node_ok_def fnode_wf_def exts_ok_iff ext_ok_def)
  have "claim_extents (fd_extents (make_delta g)) f = g"
    using c(1-3) claim_extents_ok [OF wf t] claim_extents_ok [OF wf assms(4)] by (intro fnode.equality) (simp_all add: g_def)
  then show ?thesis using g(2) assms(2) by (simp add: g_def [symmetric] make_delta_def)
qed

definition delta_node :: fnode where
  "delta_node = recalc_allocated ((fnode_new 5 100 7)\<lparr>fn_extents := [\<lparr>bx_offset = 4096, bx_length = 4096, bx_bdev = 1\<rparr>]\<rparr>)"

definition delta_more :: "bextent list" where
  "delta_more = [\<lparr>bx_offset = 8192, bx_length = 4096, bx_bdev = 1\<rparr>, \<lparr>bx_offset = 65536, bx_length = 8192, bx_bdev = 2\<rparr>]"

lemma delta_node_ok: "node_ok delta_node" "fn_committed delta_node = fn_allocated delta_node" "\<forall>e \<in> set delta_more. ext_ok e"
  "fn_allocated delta_node + total_length delta_more < 2 ^ 64"
  by (simp_all add: delta_node_def delta_more_def node_ok_def fnode_wf_def exts_ok_iff ext_ok_def recalc_allocated_def fnode_new_def Let_def add64_exact)

theorem delta_rebuilds_node_witness:
  "claim_extents (fd_extents (make_delta (claim_extents delta_more delta_node))) delta_node = claim_extents delta_more delta_node \<and>
   length (fn_extents (claim_extents delta_more delta_node)) = 2"
  using delta_rebuilds_node [OF delta_node_ok]
  by (simp add: delta_node_def delta_more_def claim_extents_def append_extent_def mergeable_def bx_end_def recalc_allocated_def
      fnode_new_def Let_def add64_exact)

section \<open>The copy constructor\<close>

lemma append_unmerged:
  "canon (fn_extents f @ [e]) \<Longrightarrow> fn_allocated f + bx_length e < 2 ^ 64 \<Longrightarrow>
   append_extent e f = f\<lparr>fn_extents := fn_extents f @ [e], fn_index := fn_index f @ [fn_allocated f], fn_allocated := fn_allocated f + bx_length e\<rparr>"
proof (cases "fn_extents f = []")
  case False
  then obtain fs l where "fn_extents f = fs @ [l]" by (metis append_butlast_last_id)
  then show "canon (fn_extents f @ [e]) \<Longrightarrow> fn_allocated f + bx_length e < 2 ^ 64 \<Longrightarrow> ?thesis"
    using canon_snoc [of fs l e] by (simp add: append_extent_def add64_exact)
qed (simp add: append_extent_def add64_exact)

lemma claim_unmerged:
  "canon (fn_extents f @ es) \<Longrightarrow> fn_allocated f + total_length es < 2 ^ 64 \<Longrightarrow>
   claim_extents es f = f\<lparr>fn_extents := fn_extents f @ es, fn_index := fn_index f @ starts (fn_allocated f) es, fn_allocated := fn_allocated f + total_length es\<rparr>"
proof (induction es arbitrary: f)
  case (Cons e es)
  have "append_extent e f = f\<lparr>fn_extents := fn_extents f @ [e], fn_index := fn_index f @ [fn_allocated f], fn_allocated := fn_allocated f + bx_length e\<rparr>"
    using Cons.prems canon_prefix [of "fn_extents f @ [e]" es] by (intro append_unmerged) simp_all
  then show ?case using Cons.IH [of "append_extent e f"] Cons.prems by (simp add: claim_extents_def add.assoc)
qed (simp add: claim_extents_def)

lemma upper_bound_shift: "upper_bound (starts (p + q) es) (p + off) = upper_bound (starts q es) off"
  unfolding upper_bound_def
proof (induction es arbitrary: q)
  case (Cons e es)
  then show ?case using Cons.IH [of "q + bx_length e"] by (simp add: add.assoc)
qed simp

lemma upper_bound_none: "off < p \<Longrightarrow> upper_bound (starts p es) off = 0"
  by (cases es) (simp_all add: upper_bound_def)

lemma fnode_copy_ok:
  assumes "fnode_wf f" and "canon (fn_extents f)" and "2 * fn_allocated f < 2 ^ 64"
  shows "fnode_copy f = f\<lparr>fn_unused := 0, fn_index := starts (fn_allocated f) (fn_extents f), fn_allocated := 2 * fn_allocated f\<rparr>"
proof -
  define b where "b = (fnode_new (fn_ino f) (fn_size f) (fn_mtime f))\<lparr>fn_allocated := fn_allocated f, fn_committed := fn_committed f\<rparr>"
  have "claim_extents (fn_extents f) b =
      b\<lparr>fn_extents := fn_extents b @ fn_extents f, fn_index := fn_index b @ starts (fn_allocated b) (fn_extents f),
        fn_allocated := fn_allocated b + total_length (fn_extents f)\<rparr>"
    using assms by (intro claim_unmerged) (simp_all add: b_def fnode_new_def fnode_wf_def)
  then show ?thesis
    using assms(1) unfolding fnode_copy_def b_def [symmetric] by (simp add: b_def fnode_new_def fnode_wf_def)
qed

text \<open>
  The copy constructor of a file node initialises the allocated length from the original and then appends the
  extents, which adds it again. The copy reports twice the space, it finds none of the bytes of the file, and it finds
  the byte at offset \<open>x\<close> of the original at \<open>x\<close> plus the length of the file.
\<close>

theorem fnode_copy_misplaces:
  assumes "fnode_wf f" and "canon (fn_extents f)" and "2 * fn_allocated f < 2 ^ 64"
  shows "fn_allocated (fnode_copy f) = 2 * fn_allocated f \<and>
    (\<forall>off. seek off (fnode_copy f) = (if off < fn_allocated f then None else seek (off - fn_allocated f) f))"
proof -
  note c = fnode_copy_ok [OF assms]
  have i: "fn_index f = starts 0 (fn_extents f)" using assms(1) by (simp add: fnode_wf_def)
  have "seek off (fnode_copy f) = None" if "off < fn_allocated f" for off
    using that upper_bound_none [of off "fn_allocated f" "fn_extents f"] by (simp add: c seek_def)
  moreover have "seek off (fnode_copy f) = seek (off - fn_allocated f) f" if "fn_allocated f \<le> off" for off
  proof -
    define x where "x = off - fn_allocated f"
    have off: "off = fn_allocated f + x" using that by (simp add: x_def)
    have sub: "sub64 (fn_allocated f + x) (fn_allocated f + p) = sub64 x p" if "p \<le> x" "x < fn_allocated f" for p
      using that assms(3) by (simp add: sub64_exact)
    show ?thesis
    proof (cases "x < fn_allocated f")
      case True
      then obtain i where ub: "upper_bound (starts 0 (fn_extents f)) x = Suc i" "i < length (fn_extents f)" "starts 0 (fn_extents f) ! i \<le> x"
        using takeWhile_starts [of x 0 "fn_extents f"] assms(1) by (auto simp: fnode_wf_def)
      have "starts (fn_allocated f) (fn_extents f) ! i = fn_allocated f + starts 0 (fn_extents f) ! i" using ub(2) by (simp add: starts_nth)
      then show ?thesis
        using True ub upper_bound_shift [of "fn_allocated f" 0 "fn_extents f" x] sub [of "starts 0 (fn_extents f) ! i"]
        by (simp add: c seek_def i x_def [symmetric] off)
    qed (simp add: c seek_def off)
  qed
  ultimately show ?thesis by (simp add: c)
qed

theorem fnode_copy_misplaces_witness:
  "fn_allocated (fnode_copy delta_node) = 8192 \<and> seek 10 (fnode_copy delta_node) = None \<and> seek 10 delta_node = Some (0, 10)"
proof -
  have n: "fn_allocated delta_node = 4096" "seek 10 delta_node = Some (0, 10)"
    by (simp_all add: delta_node_def recalc_allocated_def fnode_new_def Let_def add64_exact seek_def upper_bound_def sub64_exact)
  have k: "fnode_wf delta_node" "canon (fn_extents delta_node)" using delta_node_ok(1) by (simp_all add: node_ok_def exts_ok_iff)
  have "2 * fn_allocated delta_node < 2 ^ 64" by (simp add: n)
  from fnode_copy_misplaces [OF k this] show ?thesis using n by simp
qed

end
