(* ===== verification/Volume_Selector.thy ===== *)
theory Volume_Selector
  imports Bluefs_Types Float_Rounding "HOL-Library.Multiset"
begin

text \<open>
  \<^verbatim>\<open>bluefs/bluefs_volume_selector.cc\<close>: the classes that choose the device of a file. A hint is the value of the opaque
  pointer, 0 the null pointer. The two-dimensional arrays of the RocksDB selector are functions of the device and the
  level; an index outside them is undefined and gives \<open>None\<close>, as a failed assertion does.
\<close>

section \<open>Devices, levels, hints\<close>

abbreviation (input) BDEV_WAL :: nat where "BDEV_WAL \<equiv> 0"
abbreviation (input) BDEV_DB :: nat where "BDEV_DB \<equiv> 1"
abbreviation (input) BDEV_SLOW :: nat where "BDEV_SLOW \<equiv> 2"
abbreviation (input) MAX_BDEV :: nat where "MAX_BDEV \<equiv> 3"

abbreviation (input) RDB_LEVEL_LOG :: nat where "RDB_LEVEL_LOG \<equiv> 1"
abbreviation (input) RDB_LEVEL_WAL :: nat where "RDB_LEVEL_WAL \<equiv> 2"
abbreviation (input) RDB_LEVEL_DB :: nat where "RDB_LEVEL_DB \<equiv> 3"
abbreviation (input) RDB_LEVEL_SLOW :: nat where "RDB_LEVEL_SLOW \<equiv> 4"

text \<open>\<open>LEVELS\<close>, with the column of the totals, and \<open>BDEVS\<close>, with the row of the file sizes.\<close>

abbreviation (input) LEVELS :: nat where "LEVELS \<equiv> 5"
abbreviation (input) BDEVS :: nat where "BDEVS \<equiv> 4"

type_synonym hint = nat

record rdb_selector =
  vs_usage :: "nat \<Rightarrow> nat \<Rightarrow> u64"
  vs_max :: "nat \<Rightarrow> nat \<Rightarrow> u64"
  vs_files :: "nat \<Rightarrow> u64"
  vs_wal_total :: u64
  vs_db_total :: u64
  vs_slow_total :: u64
  vs_avail4slow :: u64

datatype selector =
    Original u64 u64 u64
  | FitToFast u64 u64 u64
  | RocksDB rdb_selector

definition suffix_of :: "bytes \<Rightarrow> bytes \<Rightarrow> bool" where
  "suffix_of s x \<longleftrightarrow> length s \<le> length x \<and> drop (length x - length s) x = s"

definition dot_slow :: bytes where
  "dot_slow = [46, 115, 108, 111, 119]"

definition dot_wal :: bytes where
  "dot_wal = [46, 119, 97, 108]"

definition orig_hint_by_dir :: "u64 \<Rightarrow> u64 \<Rightarrow> bytes \<Rightarrow> hint" where
  "orig_hint_by_dir wal slow d =
     (if length d > 5 then
        if suffix_of dot_slow d \<and> slow > 0 then BDEV_SLOW
        else if suffix_of dot_wal d \<and> wal > 0 then BDEV_WAL
        else BDEV_DB
      else BDEV_DB)"

definition rdb_hint_by_dir :: "bytes \<Rightarrow> hint" where
  "rdb_hint_by_dir d =
     (if length d > 5 then
        if suffix_of dot_slow d then RDB_LEVEL_SLOW
        else if suffix_of dot_wal d then RDB_LEVEL_WAL
        else RDB_LEVEL_DB
      else RDB_LEVEL_DB)"

fun get_hint_for_log :: "selector \<Rightarrow> hint" where
  "get_hint_for_log (Original w d s) = BDEV_WAL"
| "get_hint_for_log (FitToFast w d s) = BDEV_WAL"
| "get_hint_for_log (RocksDB v) = RDB_LEVEL_LOG"

fun get_hint_by_dir :: "bytes \<Rightarrow> selector \<Rightarrow> hint" where
  "get_hint_by_dir d (Original w b s) = orig_hint_by_dir w s d"
| "get_hint_by_dir d (FitToFast w b s) = orig_hint_by_dir w s d"
| "get_hint_by_dir d (RocksDB v) = rdb_hint_by_dir d"

section \<open>The RocksDB selector\<close>

text \<open>
  The constructor simulates the growth of the levels. The loop does not end for every argument, so that it is a
  partial function; the product with \<open>reserved_factor\<close> is computed in double precision, and its conversion to an
  integer is undefined from \<open>2 ^ 64\<close> on.
\<close>

definition scale_threshold :: "rat \<Rightarrow> u64 \<Rightarrow> u64 option" where
  "scale_threshold factor cur =
     (let x = f64 (f64 (of_nat cur) * factor) in if - 1 < x \<and> x < 2 ^ 64 then Some (nat \<lfloor>x\<rfloor>) else None)"

partial_function (option) level_loop :: "rat \<Rightarrow> u64 \<Rightarrow> u64 \<Rightarrow> u64 \<Rightarrow> u64 \<Rightarrow> u64 \<Rightarrow> u64 option" where
  "level_loop factor multiplier db prev cur threshold =
     (let nxt = mul64 cur multiplier; next_threshold = add64 (add64 prev cur) nxt
      in if db \<le> next_threshold
         then do { t \<leftarrow> scale_threshold factor threshold; Some (if t < db then db - t else 0) }
         else level_loop factor multiplier db (add64 prev cur) nxt next_threshold)"

definition rdb_base :: "u64 \<Rightarrow> u64 \<Rightarrow> u64 \<Rightarrow> rdb_selector" where
  "rdb_base wal db slow =
     \<lparr>vs_usage = (\<lambda>b l. 0), vs_max = (\<lambda>b l. 0), vs_files = (\<lambda>l. 0), vs_wal_total = wal, vs_db_total = db,
      vs_slow_total = slow, vs_avail4slow = 0\<rparr>"

definition rdb_new ::
  "u64 \<Rightarrow> u64 \<Rightarrow> u64 \<Rightarrow> u64 \<Rightarrow> u64 \<Rightarrow> u64 \<Rightarrow> rat \<Rightarrow> u64 \<Rightarrow> bool \<Rightarrow> rdb_selector option" where
  "rdb_new wal db slow level0 base multiplier factor reserved use_extra =
     (let v = rdb_base wal db slow
      in if \<not> use_extra then Some v
         else if reserved = 0
         then do { n \<leftarrow> level_loop factor multiplier db level0 base (add64 level0 base); Some (v\<lparr>vs_avail4slow := n\<rparr>) }
         else Some (v\<lparr>vs_avail4slow := if reserved < db then db - reserved else 0\<rparr>))"

definition set2 :: "nat \<Rightarrow> nat \<Rightarrow> u64 \<Rightarrow> (nat \<Rightarrow> nat \<Rightarrow> u64) \<Rightarrow> nat \<Rightarrow> nat \<Rightarrow> u64" where
  "set2 b l x f = f(b := (f b)(l := x))"

definition update_max :: "nat \<Rightarrow> nat \<Rightarrow> rdb_selector \<Rightarrow> rdb_selector" where
  "update_max b l v =
     (if vs_usage v b l > vs_max v b l then v\<lparr>vs_max := set2 b l (vs_usage v b l) (vs_max v)\<rparr> else v)"

definition rdb_add_ext :: "hint \<Rightarrow> bextent \<Rightarrow> rdb_selector \<Rightarrow> rdb_selector option" where
  "rdb_add_ext h e v =
     (if h = 0 then Some v
      else if \<not> bx_bdev e < BDEVS then None
      else
        let b = bx_bdev e; pos = h - 1
        in if pos \<ge> LEVELS then None
           else
             let v1 = update_max b pos (v\<lparr>vs_usage := set2 b pos (add64 (vs_usage v b pos) (bx_length e)) (vs_usage v)\<rparr>)
             in Some (update_max b (LEVELS - 1)
                  (v1\<lparr>vs_usage := set2 b (LEVELS - 1) (add64 (vs_usage v1 b (LEVELS - 1)) (bx_length e)) (vs_usage v1)\<rparr>)))"

definition rdb_sub_ext :: "hint \<Rightarrow> bextent \<Rightarrow> rdb_selector \<Rightarrow> rdb_selector option" where
  "rdb_sub_ext h e v =
     (if h = 0 then Some v
      else if \<not> bx_bdev e < BDEVS then None
      else
        let b = bx_bdev e; pos = h - 1
        in if pos \<ge> LEVELS \<or> \<not> vs_usage v b pos \<ge> bx_length e then None
           else
             let v1 = v\<lparr>vs_usage := set2 b pos (vs_usage v b pos - bx_length e) (vs_usage v)\<rparr>
             in if \<not> vs_usage v1 b (LEVELS - 1) \<ge> bx_length e then None
                else Some (v1\<lparr>vs_usage := set2 b (LEVELS - 1) (vs_usage v1 b (LEVELS - 1) - bx_length e) (vs_usage v1)\<rparr>))"

definition rdb_add_size :: "hint \<Rightarrow> u64 \<Rightarrow> bool \<Rightarrow> rdb_selector \<Rightarrow> rdb_selector option" where
  "rdb_add_size h fsize upd v =
     (if h = 0 then Some v
      else
        let pos = h - 1
        in if pos \<ge> LEVELS then None
           else
             let v1 = update_max MAX_BDEV pos (v\<lparr>vs_usage := set2 MAX_BDEV pos (add64 (vs_usage v MAX_BDEV pos) fsize) (vs_usage v)\<rparr>);
                 f1 = (vs_files v1)(pos := add64 (vs_files v1 pos) 1)
             in Some (if upd then v1\<lparr>vs_files := f1(LEVELS - 1 := add64 (f1 (LEVELS - 1)) 1)\<rparr> else v1))"

definition rdb_sub_size :: "hint \<Rightarrow> u64 \<Rightarrow> bool \<Rightarrow> rdb_selector \<Rightarrow> rdb_selector option" where
  "rdb_sub_size h fsize upd v =
     (if h = 0 then Some v
      else
        let pos = h - 1
        in if pos \<ge> LEVELS \<or> \<not> vs_usage v MAX_BDEV pos \<ge> fsize then None
           else
             let v1 = v\<lparr>vs_usage := set2 MAX_BDEV pos (vs_usage v MAX_BDEV pos - fsize) (vs_usage v)\<rparr>
             in if upd then
                  if \<not> vs_files v1 pos > 0 then None
                  else
                    let f1 = (vs_files v1)(pos := vs_files v1 pos - 1)
                    in if \<not> f1 (LEVELS - 1) > 0 then None else Some (v1\<lparr>vs_files := f1(LEVELS - 1 := f1 (LEVELS - 1) - 1)\<rparr>)
                else Some v1)"

definition rdb_prefer_bdev :: "hint \<Rightarrow> rdb_selector \<Rightarrow> nat option" where
  "rdb_prefer_bdev h v =
     (if h = 0 then None
      else
        let level = h mod 256
        in if level = RDB_LEVEL_SLOW then
             if vs_avail4slow v > 0 then
               let m = add64 (add64 (add64 (vs_max v BDEV_DB 0) (vs_max v BDEV_DB 1)) (vs_max v BDEV_DB 2)) (vs_max v BDEV_SLOW 2);
                   avail = min (vs_avail4slow v) (if m < vs_db_total v then vs_db_total v - m else 0)
               in Some (if avail > vs_usage v BDEV_DB 3 then BDEV_DB else BDEV_SLOW)
             else Some BDEV_SLOW
           else if level = RDB_LEVEL_LOG \<or> level = RDB_LEVEL_WAL then Some BDEV_WAL
           else Some BDEV_DB)"

definition rdb_avail_by_bdev :: "nat \<Rightarrow> rdb_selector \<Rightarrow> u64" where
  "rdb_avail_by_bdev b v =
     (if b > 2 then 0
      else
        let tot = (if b = BDEV_WAL then vs_wal_total v else if b = BDEV_DB then vs_db_total v else vs_slow_total v);
            used = vs_usage v b (LEVELS - 1)
        in if tot > used then tot - used else 0)"

definition get_level_usage :: "nat \<Rightarrow> nat \<Rightarrow> rdb_selector \<Rightarrow> u64" where
  "get_level_usage level b v = vs_usage v b (level - 1)"

section \<open>The interface\<close>

fun on_rdb :: "(rdb_selector \<Rightarrow> rdb_selector option) \<Rightarrow> selector \<Rightarrow> selector option" where
  "on_rdb f (RocksDB v) = map_option RocksDB (f v)"
| "on_rdb f s = Some s"

definition add_usage_ext :: "hint \<Rightarrow> bextent \<Rightarrow> selector \<Rightarrow> selector option" where
  "add_usage_ext h e = on_rdb (rdb_add_ext h e)"

definition sub_usage_ext :: "hint \<Rightarrow> bextent \<Rightarrow> selector \<Rightarrow> selector option" where
  "sub_usage_ext h e = on_rdb (rdb_sub_ext h e)"

definition add_usage_size :: "hint \<Rightarrow> u64 \<Rightarrow> bool \<Rightarrow> selector \<Rightarrow> selector option" where
  "add_usage_size h n upd = on_rdb (rdb_add_size h n upd)"

definition sub_usage_size :: "hint \<Rightarrow> u64 \<Rightarrow> bool \<Rightarrow> selector \<Rightarrow> selector option" where
  "sub_usage_size h n upd = on_rdb (rdb_sub_size h n upd)"

fun each :: "('a \<Rightarrow> 's \<Rightarrow> 's option) \<Rightarrow> 'a list \<Rightarrow> 's \<Rightarrow> 's option" where
  "each f [] s = Some s"
| "each f (x # xs) s = do { s1 \<leftarrow> f x s; each f xs s1 }"

definition add_usage :: "hint \<Rightarrow> fnode \<Rightarrow> selector \<Rightarrow> selector option" where
  "add_usage h f s = do { s1 \<leftarrow> each (add_usage_ext h) (fn_extents f) s; add_usage_size h (fn_size f) True s1 }"

definition sub_usage :: "hint \<Rightarrow> fnode \<Rightarrow> selector \<Rightarrow> selector option" where
  "sub_usage h f s = do { s1 \<leftarrow> each (sub_usage_ext h) (fn_extents f) s; sub_usage_size h (fn_size f) True s1 }"

fun select_prefer_bdev :: "hint \<Rightarrow> selector \<Rightarrow> nat option" where
  "select_prefer_bdev h (Original w d s) = Some (h mod 256)"
| "select_prefer_bdev h (FitToFast w d s) = Some (h mod 256)"
| "select_prefer_bdev h (RocksDB v) = rdb_prefer_bdev h v"

fun get_paths :: "bytes \<Rightarrow> selector \<Rightarrow> (bytes \<times> u64) list" where
  "get_paths base (Original w d s) = [(base, d), (base @ dot_slow, if s \<noteq> 0 then s else d)]"
| "get_paths base (FitToFast w d s) = [(base, 1)]"
| "get_paths base (RocksDB v) = [(base, vs_db_total v), (base @ dot_slow, if vs_slow_total v = 0 then vs_db_total v else vs_slow_total v)]"

fun get_avail_by_bdev :: "nat \<Rightarrow> selector \<Rightarrow> u64" where
  "get_avail_by_bdev b (Original w d s) = (if b = BDEV_WAL then w else if b = BDEV_DB then d else if b = BDEV_SLOW then s else 0)"
| "get_avail_by_bdev b (FitToFast w d s) = (if b = BDEV_WAL then w else if b = BDEV_DB then d else if b = BDEV_SLOW then s else 0)"
| "get_avail_by_bdev b (RocksDB v) = rdb_avail_by_bdev b v"

section \<open>Accounting\<close>

text \<open>
  What a client has recorded: extents and file sizes, each with its hint. The usage of a device and a level is the
  length of the extents recorded for it.
\<close>

definition ext_use :: "nat \<Rightarrow> hint \<Rightarrow> (hint \<times> bextent) multiset \<Rightarrow> nat" where
  "ext_use b h E = (\<Sum>(k, e) \<in># E. if k = h \<and> bx_bdev e = b then bx_length e else 0)"

definition dev_use :: "nat \<Rightarrow> (hint \<times> bextent) multiset \<Rightarrow> nat" where
  "dev_use b E = (\<Sum>(k, e) \<in># E. if bx_bdev e = b then bx_length e else 0)"

definition size_use :: "hint \<Rightarrow> (hint \<times> u64) multiset \<Rightarrow> nat" where
  "size_use h S = (\<Sum>(k, n) \<in># S. if k = h then n else 0)"

definition files_use :: "hint \<Rightarrow> (hint \<times> u64) multiset \<Rightarrow> nat" where
  "files_use h S = (\<Sum>(k, n) \<in># S. if k = h then 1 else 0)"

definition books_ok :: "(hint \<times> bextent) multiset \<Rightarrow> (hint \<times> u64) multiset \<Rightarrow> bool" where
  "books_ok E S \<longleftrightarrow> (\<forall>(h, e) \<in># E. h \<in> {1..4} \<and> bx_bdev e < MAX_BDEV) \<and> (\<forall>(h, n) \<in># S. h \<in> {1..4}) \<and>
     (\<forall>b < MAX_BDEV. dev_use b E < 2 ^ 64) \<and> (\<forall>h. size_use h S < 2 ^ 64) \<and> size S < 2 ^ 64"

definition accounts :: "(hint \<times> bextent) multiset \<Rightarrow> (hint \<times> u64) multiset \<Rightarrow> rdb_selector \<Rightarrow> bool" where
  "accounts E S v \<longleftrightarrow>
     (\<forall>b < MAX_BDEV. (\<forall>l < 4. vs_usage v b l = ext_use b (Suc l) E \<and> ext_use b (Suc l) E \<le> vs_max v b l) \<and> vs_usage v b 4 = dev_use b E) \<and>
     (\<forall>l < 4. vs_usage v MAX_BDEV l = size_use (Suc l) S \<and> vs_files v l = files_use (Suc l) S) \<and> vs_files v 4 = size S"

lemma use_simps [simp]:
  "ext_use b h {#} = 0" "dev_use b {#} = 0" "size_use h {#} = 0" "files_use h {#} = 0"
  "ext_use b h (add_mset (k, e) E) = (if k = h \<and> bx_bdev e = b then bx_length e else 0) + ext_use b h E"
  "dev_use b (add_mset (k, e) E) = (if bx_bdev e = b then bx_length e else 0) + dev_use b E"
  "size_use h (add_mset (k, n) S) = (if k = h then n else 0) + size_use h S"
  "files_use h (add_mset (k, n) S) = (if k = h then 1 else 0) + files_use h S"
  by (simp_all add: ext_use_def dev_use_def size_use_def files_use_def)

lemma ext_use_le_dev: "ext_use b h E \<le> dev_use b E"
  by (induction E) auto

lemma files_use_le: "files_use h S \<le> size S"
  by (induction S) auto

lemma books_add_ext:
  assumes "books_ok (add_mset (h, e) E) S"
  shows "books_ok E S" and "h \<in> {1..4}" and "bx_bdev e < MAX_BDEV" and "dev_use (bx_bdev e) E + bx_length e < 2 ^ 64"
proof -
  have b: "dev_use b (add_mset (h, e) E) < 2 ^ 64" if "b < MAX_BDEV" for b using assms that by (simp add: books_ok_def)
  show e: "bx_bdev e < MAX_BDEV" and "h \<in> {1..4}" using assms by (simp_all add: books_ok_def)
  show "dev_use (bx_bdev e) E + bx_length e < 2 ^ 64" using b [OF e] by simp
  have "dev_use b E < 2 ^ 64" if "b < MAX_BDEV" for b using b [OF that] by (simp split: if_splits)
  then show "books_ok E S" using assms by (simp add: books_ok_def)
qed

lemma books_add_size:
  assumes "books_ok E (add_mset (h, n) S)"
  shows "books_ok E S" and "h \<in> {1..4}" and "size_use h S + n < 2 ^ 64" and "size S + 1 < 2 ^ 64"
proof -
  have b: "size_use k (add_mset (h, n) S) < 2 ^ 64" for k using assms by (simp add: books_ok_def)
  show "h \<in> {1..4}" "size S + 1 < 2 ^ 64" using assms by (simp_all add: books_ok_def)
  show "size_use h S + n < 2 ^ 64" using b [of h] by simp
  have "size_use k S < 2 ^ 64" for k using b [of k] by (simp split: if_splits)
  then show "books_ok E S" using assms by (simp add: books_ok_def)
qed

lemma rdb_add_ext_ok:
  assumes "accounts E S v" and "books_ok (add_mset (h, e) E) S"
  shows "\<exists>w. rdb_add_ext h e v = Some w \<and> accounts (add_mset (h, e) E) S w"
proof -
  define b where "b = bx_bdev e"
  have h: "h \<in> {1..4}" "b < MAX_BDEV" and lt: "dev_use b E + bx_length e < 2 ^ 64" using books_add_ext [OF assms(2)] by (auto simp: b_def)
  have "ext_use b h E + bx_length e < 2 ^ 64" using ext_use_le_dev [of b h E] lt by simp
  moreover have "vs_usage v b (h - 1) = ext_use b h E" "vs_usage v b 4 = dev_use b E" using assms(1) h by (auto simp: accounts_def)
  ultimately have a: "add64 (vs_usage v b (h - 1)) (bx_length e) = ext_use b h E + bx_length e" "add64 (vs_usage v b 4) (bx_length e) = dev_use b E + bx_length e"
    using lt by (simp_all add: add64_exact)
  have ne: "h - 1 \<noteq> 4" "\<not> 5 \<le> h - 1" using h by auto
  define w where "w = update_max b 4 ((update_max b (h - 1) (v\<lparr>vs_usage := set2 b (h - 1) (ext_use b h E + bx_length e) (vs_usage v)\<rparr>))
    \<lparr>vs_usage := set2 b 4 (dev_use b E + bx_length e) (set2 b (h - 1) (ext_use b h E + bx_length e) (vs_usage v))\<rparr>)"
  have run: "rdb_add_ext h e v = Some w"
    using h a ne unfolding rdb_add_ext_def w_def Let_def b_def [symmetric] by (auto simp: update_max_def set2_def)
  have "accounts (add_mset (h, e) E) S w"
    using assms(1) h ne unfolding w_def accounts_def update_max_def set2_def b_def by (auto simp: fun_upd_def le_diff_conv)
  with run show ?thesis by blast
qed

lemma rdb_sub_ext_ok:
  assumes "accounts (add_mset (h, e) E) S v" and "books_ok (add_mset (h, e) E) S"
  shows "\<exists>w. rdb_sub_ext h e v = Some w \<and> accounts E S w"
proof -
  define b where "b = bx_bdev e"
  have h: "h \<in> {1..4}" "b < MAX_BDEV" using books_add_ext [OF assms(2)] by (auto simp: b_def)
  have u: "vs_usage v b (h - 1) = ext_use b h E + bx_length e" "vs_usage v b 4 = dev_use b E + bx_length e"
    using assms(1) h by (auto simp: accounts_def b_def)
  have ne: "h - 1 \<noteq> 4" "\<not> 5 \<le> h - 1" using h by auto
  define w where "w = v\<lparr>vs_usage := set2 b 4 (dev_use b E) (set2 b (h - 1) (ext_use b h E) (vs_usage v))\<rparr>"
  have run: "rdb_sub_ext h e v = Some w"
    using h u ne unfolding rdb_sub_ext_def w_def Let_def b_def [symmetric] by (auto simp: set2_def)
  have "ext_use c (Suc l) E \<le> vs_max v c l" if "c < MAX_BDEV" "l < 4" for c l
  proof -
    have "ext_use c (Suc l) (add_mset (h, e) E) \<le> vs_max v c l" using assms(1) that by (auto simp: accounts_def)
    then show ?thesis by simp
  qed
  then have "accounts E S w"
    using assms(1) h ne unfolding w_def accounts_def set2_def b_def by (auto simp: fun_upd_def split: if_splits)
  with run show ?thesis by blast
qed

lemma rdb_add_size_ok:
  assumes "accounts E S v" and "books_ok E (add_mset (h, n) S)"
  shows "\<exists>w. rdb_add_size h n True v = Some w \<and> accounts E (add_mset (h, n) S) w"
proof -
  have h: "h \<in> {1..4}" and lt: "size_use h S + n < 2 ^ 64" "size S + 1 < 2 ^ 64" using books_add_size [OF assms(2)] by auto
  have v: "vs_usage v MAX_BDEV (h - 1) = size_use h S" "vs_files v (h - 1) = files_use h S" "vs_files v 4 = size S"
    using assms(1) h by (auto simp: accounts_def)
  have ne: "h - 1 \<noteq> 4" "\<not> 5 \<le> h - 1" using h by auto
  have f: "add64 (files_use h S) 1 = files_use h S + 1" "add64 (size S) 1 = size S + 1" "add64 (size_use h S) n = size_use h S + n"
    using files_use_le [of h S] lt by (simp_all add: add64_exact)
  define w where "w = (update_max MAX_BDEV (h - 1) (v\<lparr>vs_usage := set2 MAX_BDEV (h - 1) (size_use h S + n) (vs_usage v)\<rparr>))
    \<lparr>vs_files := (vs_files v)(h - 1 := files_use h S + 1, 4 := size S + 1)\<rparr>"
  have run: "rdb_add_size h n True v = Some w"
    using h v ne f unfolding rdb_add_size_def w_def Let_def by (auto simp: update_max_def)
  have "accounts E (add_mset (h, n) S) w"
    using assms(1) h ne unfolding w_def accounts_def update_max_def set2_def by (auto simp: fun_upd_def)
  with run show ?thesis by blast
qed

lemma rdb_sub_size_ok:
  assumes "accounts E (add_mset (h, n) S) v" and "books_ok E (add_mset (h, n) S)"
  shows "\<exists>w. rdb_sub_size h n True v = Some w \<and> accounts E S w"
proof -
  have h: "h \<in> {1..4}" using books_add_size [OF assms(2)] by auto
  have v: "vs_usage v MAX_BDEV (h - 1) = size_use h S + n" "vs_files v (h - 1) = files_use h S + 1" "vs_files v 4 = size S + 1"
    using assms(1) h by (auto simp: accounts_def)
  have ne: "h - 1 \<noteq> 4" "\<not> 5 \<le> h - 1" using h by auto
  define w where "w = v\<lparr>vs_usage := set2 MAX_BDEV (h - 1) (size_use h S) (vs_usage v), vs_files := (vs_files v)(h - 1 := files_use h S, 4 := size S)\<rparr>"
  have run: "rdb_sub_size h n True v = Some w"
    using h v ne unfolding rdb_sub_size_def w_def Let_def by auto
  have "accounts E S w"
    using assms(1) h ne unfolding w_def accounts_def set2_def by (auto simp: fun_upd_def split: if_splits)
  with run show ?thesis by blast
qed

definition node_exts :: "hint \<Rightarrow> fnode \<Rightarrow> (hint \<times> bextent) multiset" where
  "node_exts h f = mset (map (Pair h) (fn_extents f))"

lemma books_drop: "books_ok (mset (map (Pair h) es) + E) S \<Longrightarrow> books_ok E S"
  by (induction es) (auto dest: books_add_ext(1))

lemma each_add:
  "accounts E S v \<Longrightarrow> books_ok (mset (map (Pair h) es) + E) S \<Longrightarrow>
   \<exists>w. each (add_usage_ext h) es (RocksDB v) = Some (RocksDB w) \<and> accounts (mset (map (Pair h) es) + E) S w"
proof (induction es arbitrary: E v)
  case (Cons e es)
  have split: "mset (map (Pair h) (e # es)) + E = mset (map (Pair h) es) + add_mset (h, e) E" by simp
  have "books_ok (add_mset (h, e) E) S"
    using Cons.prems(2) unfolding split by (rule books_drop)
  from rdb_add_ext_ok [OF Cons.prems(1) this] obtain u
    where u: "rdb_add_ext h e v = Some u" "accounts (add_mset (h, e) E) S u" by blast
  show ?case using Cons.IH [OF u(2)] Cons.prems(2) u(1) unfolding split by (simp add: add_usage_ext_def)
qed simp

lemma each_sub:
  "accounts (mset (map (Pair h) es) + E) S v \<Longrightarrow> books_ok (mset (map (Pair h) es) + E) S \<Longrightarrow>
   \<exists>w. each (sub_usage_ext h) es (RocksDB v) = Some (RocksDB w) \<and> accounts E S w"
proof (induction es arbitrary: v)
  case (Cons e es)
  from rdb_sub_ext_ok [of h e "mset (map (Pair h) es) + E" S v] Cons.prems
  obtain u where u: "rdb_sub_ext h e v = Some u" "accounts (mset (map (Pair h) es) + E) S u" by auto
  have "books_ok (mset (map (Pair h) es) + E) S" using Cons.prems(2) books_add_ext(1) by simp
  from Cons.IH [OF u(2) this] show ?case using u(1) by (simp add: sub_usage_ext_def)
qed simp

text \<open>Whole files.\<close>

lemma add_usage_ok:
  assumes "accounts E S v" and "books_ok (node_exts h f + E) (add_mset (h, fn_size f) S)"
  shows "\<exists>w. add_usage h f (RocksDB v) = Some (RocksDB w) \<and> accounts (node_exts h f + E) (add_mset (h, fn_size f) S) w"
proof -
  note ok = assms(2) [unfolded node_exts_def]
  obtain v1 where v1: "each (add_usage_ext h) (fn_extents f) (RocksDB v) = Some (RocksDB v1)" "accounts (mset (map (Pair h) (fn_extents f)) + E) S v1"
    using each_add [OF assms(1) books_add_size(1) [OF ok]] by blast
  from rdb_add_size_ok [OF v1(2) ok] v1(1) show ?thesis by (auto simp: add_usage_def add_usage_size_def node_exts_def)
qed

lemma sub_usage_ok:
  assumes "accounts (node_exts h f + E) (add_mset (h, fn_size f) S) v" and "books_ok (node_exts h f + E) (add_mset (h, fn_size f) S)"
  shows "\<exists>w. sub_usage h f (RocksDB v) = Some (RocksDB w) \<and> accounts E S w"
proof -
  note ok = assms(2) [unfolded node_exts_def]
  obtain v1 where v1: "each (sub_usage_ext h) (fn_extents f) (RocksDB v) = Some (RocksDB v1)" "accounts E (add_mset (h, fn_size f) S) v1"
    using each_sub [OF assms(1) [unfolded node_exts_def] ok] by blast
  from rdb_sub_size_ok [OF v1(2) books_drop [OF ok]] v1(1) show ?thesis by (auto simp: sub_usage_def sub_usage_size_def)
qed

text \<open>
  Sequences of calls, with the books of their client: the extents and the file sizes that are recorded. What is
  withdrawn must be recorded, in whatever order it was recorded, and no total may exceed 64 bits.
\<close>

datatype sel_call = Add_file hint fnode | Sub_file hint fnode | Add_ext hint bextent | Sub_ext hint bextent

type_synonym sel_books = "(hint \<times> bextent) multiset \<times> (hint \<times> u64) multiset"

fun sel_exec :: "sel_call \<Rightarrow> selector \<Rightarrow> selector option" where
  "sel_exec (Add_file h f) s = add_usage h f s"
| "sel_exec (Sub_file h f) s = sub_usage h f s"
| "sel_exec (Add_ext h e) s = add_usage_ext h e s"
| "sel_exec (Sub_ext h e) s = sub_usage_ext h e s"

fun sel_book :: "sel_call \<Rightarrow> sel_books \<Rightarrow> sel_books" where
  "sel_book (Add_file h f) (E, S) = (node_exts h f + E, add_mset (h, fn_size f) S)"
| "sel_book (Sub_file h f) (E, S) = (E - node_exts h f, S - {#(h, fn_size f)#})"
| "sel_book (Add_ext h e) (E, S) = (add_mset (h, e) E, S)"
| "sel_book (Sub_ext h e) (E, S) = (E - {#(h, e)#}, S)"

fun sel_recorded :: "sel_call \<Rightarrow> sel_books \<Rightarrow> bool" where
  "sel_recorded (Sub_file h f) (E, S) \<longleftrightarrow> node_exts h f \<subseteq># E \<and> (h, fn_size f) \<in># S"
| "sel_recorded (Sub_ext h e) (E, S) \<longleftrightarrow> (h, e) \<in># E"
| "sel_recorded c B \<longleftrightarrow> True"

fun sel_calls :: "sel_call list \<Rightarrow> selector \<Rightarrow> selector option" where
  "sel_calls [] s = Some s"
| "sel_calls (c # cs) s = Option.bind (sel_exec c s) (sel_calls cs)"

fun sel_calls_ok :: "sel_call list \<Rightarrow> sel_books \<Rightarrow> bool" where
  "sel_calls_ok [] B \<longleftrightarrow> True"
| "sel_calls_ok (c # cs) B \<longleftrightarrow> sel_recorded c B \<and> books_ok (fst (sel_book c B)) (snd (sel_book c B)) \<and> sel_calls_ok cs (sel_book c B)"

lemma sel_exec_ok:
  assumes "accounts E S v" and "books_ok E S" and "sel_recorded c (E, S)" and "sel_book c (E, S) = (E', S')" and "books_ok E' S'"
  shows "\<exists>w. sel_exec c (RocksDB v) = Some (RocksDB w) \<and> accounts E' S' w"
proof (cases c)
  case (Add_file h f)
  then show ?thesis using add_usage_ok [of E S v h f] assms by auto
next
  case (Sub_file h f)
  then obtain E0 S0 where "E = node_exts h f + E0" "S = add_mset (h, fn_size f) S0"
    using assms(3) by (auto simp: subset_mset.le_iff_add dest: multi_member_split)
  then show ?thesis using sub_usage_ok [of h f E0 S0 v] assms Sub_file by auto
next
  case (Add_ext h e)
  then show ?thesis using rdb_add_ext_ok [of E S v h e] assms by (auto simp: add_usage_ext_def)
next
  case (Sub_ext h e)
  then obtain E0 where "E = add_mset (h, e) E0" using assms(3) by (auto dest: multi_member_split)
  then show ?thesis using rdb_sub_ext_ok [of h e E0 S v] assms Sub_ext by (auto simp: sub_usage_ext_def)
qed

text \<open>
  C34: The accounts of the RocksDB selector. From a state whose counters agree with the books, every sequence of calls
  that record and withdraw files and single extents, in any order, passes all assertions as long as only what is
  recorded is withdrawn and no total exceeds 64 bits; afterwards the usage of every device and level, the totals and the
  numbers of files are exactly the sums over what is still recorded.
\<close>

theorem selector_accounts:
  assumes "accounts (fst B) (snd B) v" and "books_ok (fst B) (snd B)" and "sel_calls_ok cs B"
  shows "\<exists>w. sel_calls cs (RocksDB v) = Some (RocksDB w) \<and> accounts (fst (fold sel_book cs B)) (snd (fold sel_book cs B)) w"
  using assms
proof (induction cs arbitrary: v B)
  case (Cons c cs)
  obtain E S E' S' where B: "B = (E, S)" "sel_book c B = (E', S')" by (metis surj_pair)
  then obtain w where w: "sel_exec c (RocksDB v) = Some (RocksDB w)" "accounts E' S' w"
    using sel_exec_ok [of E S v c E' S'] Cons.prems by auto
  show ?case using Cons.IH [of "(E', S')" w] Cons.prems(3) w B(2) by auto
qed auto

text \<open>Two files on different levels; the one recorded first is withdrawn first.\<close>

theorem selector_accounts_witness:
  "\<exists>w. sel_calls [Add_file RDB_LEVEL_DB delta_node, Add_file RDB_LEVEL_WAL delta_node, Sub_file RDB_LEVEL_DB delta_node]
       (RocksDB (rdb_base 0 65536 0)) = Some (RocksDB w) \<and> vs_usage w BDEV_DB 2 = 0 \<and> vs_files w 4 = 1"
proof -
  let ?cs = "[Add_file RDB_LEVEL_DB delta_node, Add_file RDB_LEVEL_WAL delta_node, Sub_file RDB_LEVEL_DB delta_node]"
  have n: "fn_extents delta_node = [\<lparr>bx_offset = 4096, bx_length = 4096, bx_bdev = 1\<rparr>]" "fn_size delta_node = 100"
    by (simp_all add: delta_node_def recalc_allocated_def fnode_new_def Let_def)
  have "accounts (fst ({#}, {#})) (snd ({#}, {#})) (rdb_base 0 65536 0)" by (simp add: accounts_def rdb_base_def)
  moreover have "books_ok (fst ({#}, {#})) (snd ({#}, {#}))" by (simp add: books_ok_def)
  moreover have "sel_calls_ok ?cs ({#}, {#})" by (simp add: n node_exts_def books_ok_def)
  ultimately obtain w where w: "sel_calls ?cs (RocksDB (rdb_base 0 65536 0)) = Some (RocksDB w)"
    "accounts (fst (fold sel_book ?cs ({#}, {#}))) (snd (fold sel_book ?cs ({#}, {#}))) w"
    using selector_accounts [of "({#}, {#})" "rdb_base 0 65536 0" ?cs] by blast
  have "vs_usage w 1 2 = 0" "vs_files w 4 = 1" using w(2) by (simp_all add: accounts_def n node_exts_def numeral_eq_Suc)
  then show ?thesis using w(1) by blast
qed

section \<open>The constructor\<close>

lemma scale_threshold_ok:
  assumes "0 \<le> factor" and "factor \<le> 1" and "cur < 2 ^ 63"
  shows "\<exists>t. scale_threshold factor cur = Some t"
proof -
  have "f64 (of_nat (2 ^ 63)) = of_nat (2 ^ 63)"
    unfolding f64_def by (rule round_sig_exact [of _ 1 63]) (simp_all add: power_int_def)
  moreover have "(of_nat cur :: rat) \<le> of_nat (2 ^ 63)" using assms(3) by (intro of_nat_mono) simp
  ultimately have c: "f64 (of_nat cur) \<le> 2 ^ 63" using f64_mono [of "of_nat cur" "of_nat (2 ^ 63)"] by simp
  have nn: "0 \<le> f64 (of_nat cur)" by (rule f64_nonneg) simp
  have "f64 (of_nat cur) * factor \<le> f64 (of_nat cur) * 1" using assms(2) nn by (intro mult_left_mono) simp_all
  then have "f64 (of_nat cur) * factor \<le> of_nat (2 ^ 63)" using c by simp
  then have "f64 (f64 (of_nat cur) * factor) \<le> 2 ^ 63"
    using f64_mono [of "f64 (of_nat cur) * factor" "of_nat (2 ^ 63)"] \<open>f64 (of_nat (2 ^ 63)) = of_nat (2 ^ 63)\<close> by simp
  moreover have "0 \<le> f64 (f64 (of_nat cur) * factor)" using assms(1) nn by (intro f64_nonneg) simp
  ultimately show ?thesis by (simp add: scale_threshold_def Let_def)
qed

lemma level_loop_ends:
  "0 \<le> factor \<Longrightarrow> factor \<le> 1 \<Longrightarrow> 0 < multiplier \<Longrightarrow> db * (multiplier + 1) < 2 ^ 63 \<Longrightarrow> 0 < cur \<Longrightarrow> threshold < 2 ^ 63 \<Longrightarrow>
   prev + cur + cur * multiplier < 2 ^ 63 \<Longrightarrow> \<exists>n. level_loop factor multiplier db prev cur threshold = Some n"
proof (induction "db - (prev + cur)" arbitrary: prev cur threshold rule: less_induct)
  case less
  have e: "mul64 cur multiplier = cur * multiplier" "add64 (add64 prev cur) (cur * multiplier) = prev + cur + cur * multiplier" "add64 prev cur = prev + cur"
    using less.prems(7) by (simp_all add: mul64_exact add64_exact)
  show ?case
  proof (cases "db \<le> prev + cur + cur * multiplier")
    case True
    obtain t where "scale_threshold factor threshold = Some t" using scale_threshold_ok [OF less.prems(1,2,6)] by blast
    then show ?thesis using True e by (subst level_loop.simps) (simp add: Let_def)
  next
    case False
    have pos: "0 < cur * multiplier" using less.prems(3,5) by simp
    have "cur * multiplier * (multiplier + 1) + (prev + cur) * 1 \<le> (prev + cur + cur * multiplier) * (multiplier + 1)" by (simp add: algebra_simps)
    also have "\<dots> \<le> db * (multiplier + 1)" using False by (intro mult_right_mono) simp_all
    finally have lt: "(prev + cur) + cur * multiplier + cur * multiplier * multiplier < 2 ^ 63" using less.prems(4) by (simp add: algebra_simps)
    have "\<exists>n. level_loop factor multiplier db (prev + cur) (cur * multiplier) (prev + cur + cur * multiplier) = Some n"
    proof (intro less.hyps less.prems(1-4) pos)
      show "db - (prev + cur + cur * multiplier) < db - (prev + cur)" using False pos by linarith
      show "prev + cur + cur * multiplier < 2 ^ 63" by (rule less.prems(7))
      show "prev + cur + cur * multiplier + cur * multiplier * multiplier < 2 ^ 63" by (rule lt)
    qed
    then show ?thesis using False e by (subst level_loop.simps) (simp add: Let_def)
  qed
qed

lemma level_loop_stuck: "prev + cur < 2 ^ 64 \<Longrightarrow> prev + cur < db \<Longrightarrow> level_loop factor 0 db prev cur threshold = None"
proof -
  have "m = 0 \<longrightarrow> prev + cur < 2 ^ 64 \<longrightarrow> db \<le> prev + cur" if "level_loop factor m db prev cur threshold = Some n" for m prev cur threshold n
  proof (rule level_loop.raw_induct [where P = "\<lambda>f m db prev cur t n. m = 0 \<longrightarrow> prev + cur < 2 ^ 64 \<longrightarrow> db \<le> prev + cur", OF _ that], goal_cases)
    case (1 loop f m db prev cur t n)
    show ?case using 1(2) 1(1) [of f m db "add64 prev cur" "mul64 cur m"] by (auto simp: Let_def mul64_def add64_exact split: if_splits)
  qed
  then show "prev + cur < 2 ^ 64 \<Longrightarrow> prev + cur < db \<Longrightarrow> ?thesis" by (metis leD not_None_eq)
qed

text \<open>
  The constructor with the space of the levels to be computed. It returns when the multiplier and the base level
  are positive and nothing overflows. With the multiplier left at its default 0, and a database device larger than the
  first two levels, its loop never ends.
\<close>

theorem rdb_new_returns:
  "(\<forall>factor \<in> {0..1}. 0 < multiplier \<and> 0 < base \<and> db * (multiplier + 1) < 2 ^ 63 \<and> level0 + base + base * multiplier < 2 ^ 63 \<longrightarrow>
      (\<exists>v. rdb_new wal db slow level0 base multiplier factor 0 True = Some v)) \<and>
   (\<forall>factor. level0 + base < 2 ^ 64 \<and> level0 + base < db \<longrightarrow> rdb_new wal db slow level0 base 0 factor 0 True = None)"
proof (intro conjI ballI allI impI; elim conjE)
  fix factor :: rat
  assume a: "factor \<in> {0..1}" "0 < multiplier" "0 < base" "db * (multiplier + 1) < 2 ^ 63" "level0 + base + base * multiplier < 2 ^ 63"
  have "add64 level0 base < 2 ^ 63" using a(5) by (simp add: add64_exact)
  with level_loop_ends [of factor multiplier db base "add64 level0 base" level0] a
  show "\<exists>v. rdb_new wal db slow level0 base multiplier factor 0 True = Some v" by (auto simp: rdb_new_def Let_def)
next
  fix factor :: rat
  assume "level0 + base < 2 ^ 64" "level0 + base < db"
  then show "rdb_new wal db slow level0 base 0 factor 0 True = None" by (simp add: rdb_new_def level_loop_stuck)
qed

theorem rdb_new_returns_witness:
  "(\<exists>v. rdb_new 0 1000000 0 256 256 10 (1 / 2) 0 True = Some v) \<and> rdb_new 0 1000000 0 0 0 0 0 0 True = None"
  using rdb_new_returns [of 10 256 1000000 256 0 0] rdb_new_returns [of 1 0 1000000 0 0 0] by simp

end
