(* ===== verification/Bluefs.thy ===== *)
theory Bluefs
  imports Volume_Selector Avl_Allocator Block_Device "HOL-Library.List_Lexorder"
begin

unbundle bit_operations_syntax

text \<open>
  \<^verbatim>\<open>bluefs/bluefs.cc\<close>: a log-structured metadata layer over up to three devices. The directories and file nodes are
  in memory; every change of them is appended to a transaction, and the transactions are written to a log that is a
  file itself. Mounting reads the log node from the superblock and replays the log.

  A \<open>FileRef\<close> is a position in \<open>fs_heap\<close>: directories, the file map, writers and the lists of dirty files share the
  file objects. A \<open>std::map\<close> is a list kept in the order of its keys, a hash map an association list. Every operation
  runs as a whole, as it does under the locks it takes. The clock and the random \<open>uuid\<close> are arguments. \<open>None\<close> is an
  abort of the process (a failed assertion, an exception nobody catches, an access through a null pointer or out of
  range) or, for the loops that are partial functions, a loop that does not end. The performance counters are left out.
\<close>

section \<open>State\<close>

abbreviation (input) ENOMEM :: int where "ENOMEM \<equiv> 12"
abbreviation (input) EBUSY :: int where "EBUSY \<equiv> 16"
abbreviation (input) EEXIST :: int where "EEXIST \<equiv> 17"
abbreviation (input) ENODEV :: int where "ENODEV \<equiv> 19"
abbreviation (input) ENOLCK :: int where "ENOLCK \<equiv> 37"
abbreviation (input) ENOTEMPTY :: int where "ENOTEMPTY \<equiv> 39"

type_synonym fileref = nat

record bluefs_config =
  cfg_alloc_size :: u64
  cfg_max_log_runway :: u64
  cfg_min_log_runway :: u64
  cfg_min_flush_size :: u64
  cfg_buffered_io :: bool
  cfg_compact_min_size :: u64
  cfg_compact_min_ratio :: rat
  cfg_max_prefetch :: u64

definition default_config :: bluefs_config where
  "default_config =
     \<lparr>cfg_alloc_size = 1048576, cfg_max_log_runway = 4194304, cfg_min_log_runway = 1048576, cfg_min_flush_size = 524288,
      cfg_buffered_io = False, cfg_compact_min_size = 16777216, cfg_compact_min_ratio = 2, cfg_max_prefetch = 1048576\<rparr>"

record bfile =
  bf_fnode :: fnode
  bf_dirty_seq :: u64
  bf_refs :: int
  bf_locked :: bool
  bf_deleted :: bool
  bf_is_dirty :: bool
  bf_hint :: hint
  bf_readers :: int
  bf_writers :: int

definition file_new :: "u64 \<Rightarrow> bfile" where
  "file_new ino =
     \<lparr>bf_fnode = fnode_new ino 0 0, bf_dirty_seq = 0, bf_refs = 0, bf_locked = False, bf_deleted = False, bf_is_dirty = False,
      bf_hint = 0, bf_readers = 0, bf_writers = 0\<rparr>"

record bwriter =
  bw_file :: fileref
  bw_pos :: u64
  bw_buffer :: bytes
  bw_tail :: bytes
  bw_iocv :: "bool list"
  bw_dirty :: "bool list"

record breader =
  br_file :: fileref
  br_bl_off :: u64
  br_bl :: bytes
  br_pos :: u64
  br_max_prefetch :: u64
  br_random :: bool
  br_ignore_eof :: bool

type_synonym dir = "(bytes \<times> fileref) list"

record bluefs =
  fs_cfg :: bluefs_config
  fs_bdev :: "kdev option list"
  fs_reserved :: "u64 list"
  fs_alloc :: "avl option list"
  fs_alloc_size :: "u64 list"
  fs_shared :: "nat option"
    \<comment> \<open>the device whose allocator belongs to somebody else\<close>
  fs_shared_used :: u64
  fs_end_word :: u64
    \<comment> \<open>the unspecified word a fresh allocator reads, see \<open>avl\<close>\<close>
  fs_super :: bsuper
  fs_vsel :: "selector option"
  fs_heap :: "bfile list"
  fs_dirs :: "(bytes \<times> dir) list"
  fs_files :: "(u64 \<times> fileref) list"
  fs_ino_last :: u64
  fs_seq_live :: u64
  fs_writer :: "bwriter option"
  fs_txn :: btxn
  fs_stable :: u64
  fs_dirty_live :: u64
  fs_dirty :: "(u64 \<times> fileref list) list"
  fs_pending :: "(u64 \<times> u64) list list"
  fs_compacting :: bool

definition SUPER_OFFSET :: u64 where "SUPER_OFFSET = 4096"
definition SUPER_LENGTH :: u64 where "SUPER_LENGTH = 4096"
definition BLUEFS_LOG_INITIAL :: u64 where "BLUEFS_LOG_INITIAL = 4 * 2 ^ 20"

definition super_new :: bsuper where
  "super_new = \<lparr>sp_uuid = replicate 16 0, sp_osd_uuid = replicate 16 0, sp_version = 0, sp_block_size = 4096, sp_log_fnode = fnode_new 0 0 0\<rparr>"

definition bluefs_new :: "bluefs_config \<Rightarrow> u64 \<Rightarrow> bluefs" where
  "bluefs_new cfg ew =
     \<lparr>fs_cfg = cfg, fs_bdev = replicate 3 None, fs_reserved = replicate 3 0, fs_alloc = replicate 3 None,
      fs_alloc_size = replicate 3 0, fs_shared = None, fs_shared_used = 0, fs_end_word = ew, fs_super = super_new,
      fs_vsel = None, fs_heap = [], fs_dirs = [], fs_files = [], fs_ino_last = 0, fs_seq_live = 1, fs_writer = None,
      fs_txn = txn_new, fs_stable = 0, fs_dirty_live = 1, fs_dirty = [], fs_pending = replicate 3 [], fs_compacting = False\<rparr>"

text \<open>Ordered maps.\<close>

fun om_put :: "bytes \<Rightarrow> 'v \<Rightarrow> (bytes \<times> 'v) list \<Rightarrow> (bytes \<times> 'v) list" where
  "om_put k v [] = [(k, v)]"
| "om_put k v ((a, b) # m) = (if a = k then (k, v) # m else if k < a then (k, v) # (a, b) # m else (a, b) # om_put k v m)"

text \<open>\<open>insert\<close> on a map keeps an entry that is there.\<close>

fun om_insert :: "u64 \<Rightarrow> u64 \<Rightarrow> (u64 \<times> u64) list \<Rightarrow> (u64 \<times> u64) list" where
  "om_insert k v [] = [(k, v)]"
| "om_insert k v ((a, b) # m) = (if a = k then (a, b) # m else if k < a then (k, v) # (a, b) # m else (a, b) # om_insert k v m)"

text \<open>Access to the file objects, the devices and the allocators.\<close>

definition file_at :: "bluefs \<Rightarrow> fileref \<Rightarrow> bfile" where
  "file_at fs r = fs_heap fs ! r"

definition upd_file :: "fileref \<Rightarrow> (bfile \<Rightarrow> bfile) \<Rightarrow> bluefs \<Rightarrow> bluefs" where
  "upd_file r f fs = fs\<lparr>fs_heap := (fs_heap fs)[r := f (fs_heap fs ! r)]\<rparr>"

definition node_at :: "bluefs \<Rightarrow> fileref \<Rightarrow> fnode" where
  "node_at fs r = bf_fnode (file_at fs r)"

definition upd_node :: "fileref \<Rightarrow> (fnode \<Rightarrow> fnode) \<Rightarrow> bluefs \<Rightarrow> bluefs" where
  "upd_node r f = upd_file r (\<lambda>x. x\<lparr>bf_fnode := f (bf_fnode x)\<rparr>)"

definition new_file :: "bfile \<Rightarrow> bluefs \<Rightarrow> fileref \<times> bluefs" where
  "new_file f fs = (length (fs_heap fs), fs\<lparr>fs_heap := fs_heap fs @ [f]\<rparr>)"

definition dev_at :: "bluefs \<Rightarrow> nat \<Rightarrow> kdev option" where
  "dev_at fs b = (if b < length (fs_bdev fs) then fs_bdev fs ! b else None)"

definition set_dev :: "nat \<Rightarrow> kdev \<Rightarrow> bluefs \<Rightarrow> bluefs" where
  "set_dev b d fs = fs\<lparr>fs_bdev := (fs_bdev fs)[b := Some d]\<rparr>"

definition alloc_at :: "bluefs \<Rightarrow> nat \<Rightarrow> avl option" where
  "alloc_at fs b = (if b < length (fs_alloc fs) then fs_alloc fs ! b else None)"

definition set_alloc :: "nat \<Rightarrow> avl \<Rightarrow> bluefs \<Rightarrow> bluefs" where
  "set_alloc b a fs = fs\<lparr>fs_alloc := (fs_alloc fs)[b := Some a]\<rparr>"

definition is_shared_alloc :: "nat \<Rightarrow> bluefs \<Rightarrow> bool" where
  "is_shared_alloc b fs \<longleftrightarrow> fs_shared fs = Some b"

definition log_op :: "bop \<Rightarrow> bluefs \<Rightarrow> bluefs" where
  "log_op x fs = fs\<lparr>fs_txn := (fs_txn fs)\<lparr>tx_ops := tx_ops (fs_txn fs) @ enc_op x\<rparr>\<rparr>"

definition on_vsel :: "(selector \<Rightarrow> selector option) \<Rightarrow> bluefs \<Rightarrow> bluefs option" where
  "on_vsel f fs =
     (case fs_vsel fs of None \<Rightarrow> Some fs | Some v \<Rightarrow> map_option (\<lambda>w. fs\<lparr>fs_vsel := Some w\<rparr>) (f v))"

text \<open>A call through \<open>vselector_\<close> that is not guarded against the null pointer.\<close>

definition with_vsel :: "(selector \<Rightarrow> 'a option) \<Rightarrow> bluefs \<Rightarrow> 'a option" where
  "with_vsel f fs = (case fs_vsel fs of None \<Rightarrow> None | Some v \<Rightarrow> f v)"

definition add_pending :: "bextent list \<Rightarrow> bluefs \<Rightarrow> bluefs option" where
  "add_pending es fs =
     each (\<lambda>e fs. if bx_bdev e < length (fs_pending fs)
                  then Some (fs\<lparr>fs_pending := (fs_pending fs)[bx_bdev e := om_insert (bx_offset e) (bx_length e) (fs_pending fs ! bx_bdev e)]\<rparr>)
                  else None) es fs"

section \<open>Devices\<close>

text \<open>
  \<open>add_block_device\<close>, after \<open>create\<close> and \<open>open\<close> gave \<open>opened\<close>: the device, or an error code. \<open>trim\<close> discards, which
  does not change the bytes the model tracks. A shared allocator may be absent.
\<close>

definition add_block_device :: "nat \<Rightarrow> int + kdev \<Rightarrow> u64 \<Rightarrow> avl option option \<Rightarrow> bluefs \<Rightarrow> int \<times> bluefs" where
  "add_block_device i opened reserved shared fs =
     (if i \<ge> length (fs_bdev fs) \<or> dev_at fs i \<noteq> None then (- EBUSY, fs)
      else if shared \<noteq> None \<and> fs_shared fs \<noteq> None then (- EBUSY, fs)
      else
        case opened of
          Inl r \<Rightarrow> (r, fs)
        | Inr d \<Rightarrow>
            if reserved > dev_size d then (- EINVAL, fs)
            else
              let fs1 = fs\<lparr>fs_reserved := (fs_reserved fs)[i := reserved], fs_bdev := (fs_bdev fs)[i := Some d]\<rparr>
              in (0, case shared of
                       None \<Rightarrow> fs1
                     | Some a \<Rightarrow> fs1\<lparr>fs_alloc := (fs_alloc fs1)[i := a], fs_shared := Some i, fs_shared_used := 0\<rparr>))"

definition get_block_device_size :: "nat \<Rightarrow> bluefs \<Rightarrow> u64" where
  "get_block_device_size i fs = (case dev_at fs i of None \<Rightarrow> 0 | Some d \<Rightarrow> dev_size d)"

definition get_total :: "nat \<Rightarrow> bluefs \<Rightarrow> u64" where
  "get_total i fs =
     (case dev_at fs i of
        None \<Rightarrow> 0
      | Some d \<Rightarrow> if fs_reserved fs ! i \<ge> dev_size d then 0 else dev_size d - fs_reserved fs ! i)"

definition get_free :: "nat \<Rightarrow> bluefs \<Rightarrow> u64" where
  "get_free i fs =
     (if dev_at fs i = None then 0
      else if is_shared_alloc i fs then
        (if get_total i fs > fs_shared_used fs then get_total i fs - fs_shared_used fs else 0)
      else case alloc_at fs i of None \<Rightarrow> 0 | Some a \<Rightarrow> avl_get_free a)"

definition get_used_dev :: "nat \<Rightarrow> bluefs \<Rightarrow> u64" where
  "get_used_dev i fs =
     (if dev_at fs i = None then 0
      else if is_shared_alloc i fs then fs_shared_used fs
      else case alloc_at fs i of None \<Rightarrow> 0 | Some a \<Rightarrow> sub64 (get_total i fs) (avl_get_free a))"

definition get_used :: "bluefs \<Rightarrow> u64" where
  "get_used fs = fold (\<lambda>i n. if dev_at fs i = None then n else add64 n (get_used_dev i fs)) [0, 1, 2] 0"

definition init_alloc_dev :: "nat \<Rightarrow> bluefs \<Rightarrow> bluefs option" where
  "init_alloc_dev i fs =
     (case dev_at fs i of
        None \<Rightarrow> Some fs
      | Some d \<Rightarrow>
          if is_shared_alloc i fs then Some fs
          else
            let a = avl_new (dev_size d) (cfg_alloc_size (fs_cfg fs)) 0 (fs_end_word fs);
                tot = get_total i fs;
                skip = (if i = BDEV_DB then max (fs_reserved fs ! i) (SUPER_OFFSET + SUPER_LENGTH) else fs_reserved fs ! i)
            in if tot > skip then map_option (\<lambda>a1. set_alloc i a1 fs) (avl_init_add_free skip (tot - skip) a)
               else Some (set_alloc i a fs))"

definition init_alloc :: "bluefs \<Rightarrow> bluefs option" where
  "init_alloc fs = each init_alloc_dev [0, 1, 2] fs"

definition stop_alloc :: "bluefs \<Rightarrow> bluefs" where
  "stop_alloc fs = fs\<lparr>fs_alloc := map (\<lambda>i. if is_shared_alloc i fs then fs_alloc fs ! i else None) [0..<length (fs_alloc fs)]\<rparr>"

section \<open>The superblock\<close>

text \<open>The superblock that is encoded is a copy, made with the copy constructor of the node.\<close>

definition write_super :: "nat \<Rightarrow> bluefs \<Rightarrow> int \<times> bluefs" where
  "write_super dev fs =
     (case dev_at fs dev of
        None \<Rightarrow> (- ENODEV, fs)
      | Some d \<Rightarrow>
          let v = add64 (sp_version (fs_super fs)) 1;
              b0 = enc_super ((fs_super fs)\<lparr>sp_version := v, sp_log_fnode := fnode_copy (sp_log_fnode (fs_super fs))\<rparr>);
              b1 = b0 @ enc_u32 (bl_crc b0)
          in if length b1 > SUPER_LENGTH then (- EIO, fs)
             else
               let (r, d1) = kd_write SUPER_OFFSET [b1 @ replicate (SUPER_LENGTH - length b1) 0] False d;
                   fs1 = set_dev dev d1 fs
               in if r < 0 then (r, fs1) else (0, fs1\<lparr>fs_super := (fs_super fs)\<lparr>sp_version := v\<rparr>\<rparr>))"

text \<open>
  When the block does not decode, the fields read before the error have been assigned in the program; here the
  superblock stays as it was. Both calls return \<open>-EIO\<close>.
\<close>

definition open_super :: "bluefs \<Rightarrow> (int \<times> bluefs) option" where
  "open_super fs =
     (case dev_at fs BDEV_DB of
        None \<Rightarrow> Some (- ENODEV, fs)
      | Some d \<Rightarrow>
          let (r, bl, d1) = kd_read SUPER_OFFSET SUPER_LENGTH False d; fs1 = set_dev BDEV_DB d1 fs
          in if r < 0 then Some (r, fs1)
             else
               case dec_super bl of
                 Inl e \<Rightarrow> if e = Malformed_input then Some (- EIO, fs1) else None
               | Inr (s, q) \<Rightarrow>
                   case dec_u32 q of
                     Inl e \<Rightarrow> if e = Malformed_input then Some (- EIO, fs1\<lparr>fs_super := s\<rparr>) else None
                   | Inr (crc, q1) \<Rightarrow>
                       Some (if bl_crc (take (length bl - length q) bl) \<noteq> crc then - EIO else 0, fs1\<lparr>fs_super := s\<rparr>))"

section \<open>Files and space\<close>

definition get_file :: "u64 \<Rightarrow> bluefs \<Rightarrow> fileref \<times> bluefs" where
  "get_file ino fs =
     (case map_of (fs_files fs) ino of
        Some r \<Rightarrow> (r, fs)
      | None \<Rightarrow> let (r, fs1) = new_file (file_new ino) fs in (r, fs1\<lparr>fs_files := AList.update ino r (fs_files fs1)\<rparr>))"

definition file_exists :: "u64 \<Rightarrow> bluefs \<Rightarrow> bool" where
  "file_exists ino fs \<longleftrightarrow> map_of (fs_files fs) ino \<noteq> None"

text \<open>The loop of \<open>_allocate\<close> over the devices. The result has the code, the node and the hint.\<close>

fun allocate_from :: "nat list \<Rightarrow> u64 \<Rightarrow> u64 \<Rightarrow> fnode \<Rightarrow> u64 option \<Rightarrow> bluefs \<Rightarrow> (int \<times> fnode \<times> u64 option \<times> bluefs) option" where
  "allocate_from [] need unit node ht fs = Some (- ENOSPC, node, ht, fs)"
| "allocate_from (i # js) need unit node ht fs =
     (if dev_at fs i = None then allocate_from js need unit node ht fs
      else
        case alloc_at fs i of
          None \<Rightarrow> if is_shared_alloc i fs then allocate_from js need unit node ht fs else None
        | Some a \<Rightarrow> do {
            (r, xs, a1) \<leftarrow> avl_allocate need unit 0 a;
            let fs1 = set_alloc i a1 fs;
            if r < 0 \<or> nat r < need then
              if r > 0 then do {
                a2 \<leftarrow> avl_release_vec xs a1;
                let fs2 = set_alloc i a2 fs1;
                allocate_from js need unit node ht
                  (if is_shared_alloc i fs then fs2\<lparr>fs_shared_used := sub64 (fs_shared_used fs2) (nat r)\<rparr> else fs2) }
              else allocate_from js need unit node ht fs1
            else
              let fs2 = (if is_shared_alloc i fs then fs1\<lparr>fs_shared_used := add64 (fs_shared_used fs1) (nat r)\<rparr> else fs1);
                  node1 = claim_extents (map (\<lambda>(off, len). \<lparr>bx_offset = off, bx_length = len, bx_bdev = i\<rparr>) xs) node
              in case ht of
                   None \<Rightarrow> Some (0, node1, None, fs2)
                 | Some h \<Rightarrow>
                     if xs = [] then None
                     else Some (0, node1, Some (add64 (fst (List.last xs)) (snd (List.last xs))), fs2) })"

definition bfs_allocate :: "nat \<Rightarrow> u64 \<Rightarrow> u64 \<Rightarrow> fnode \<Rightarrow> u64 option \<Rightarrow> bluefs \<Rightarrow> (int \<times> fnode \<times> u64 option \<times> bluefs) option" where
  "bfs_allocate prefer len unit node ht fs =
     (if unit = 0 \<and> prefer \<ge> length (fs_alloc_size fs) then None
      else
        let u = (if unit = 0 then if fs_alloc_size fs ! prefer = 0 then cfg_alloc_size (fs_cfg fs) else fs_alloc_size fs ! prefer
                 else unit)
        in allocate_from [prefer..<length (fs_bdev fs)] (p2roundup len u) u node ht fs)"

section \<open>Writers\<close>

definition create_writer :: "fileref \<Rightarrow> bluefs \<Rightarrow> bwriter \<times> bluefs" where
  "create_writer r fs =
     (\<lparr>bw_file = r, bw_pos = fn_size (node_at fs r), bw_buffer = [], bw_tail = [],
       bw_iocv = map (\<lambda>d. d \<noteq> None) (fs_bdev fs), bw_dirty = replicate 3 False\<rparr>,
      upd_file r (\<lambda>f. f\<lparr>bf_writers := bf_writers f + 1\<rparr>) fs)"

text \<open>\<open>_close_writer\<close>: every write was synchronous, so that there is nothing to wait for.\<close>

definition drop_writer :: "bwriter \<Rightarrow> bluefs \<Rightarrow> bluefs" where
  "drop_writer w = upd_file (bw_file w) (\<lambda>f. f\<lparr>bf_writers := bf_writers f - 1\<rparr>)"

definition flush_bdev_step :: "nat \<Rightarrow> bwriter \<times> bluefs \<Rightarrow> bwriter \<times> bluefs" where
  "flush_bdev_step i c =
     (case c of (w, fs) \<Rightarrow>
        if bw_dirty w ! i \<and> bw_iocv w ! i
        then (w\<lparr>bw_dirty := (bw_dirty w)[i := False]\<rparr>,
              case dev_at fs i of None \<Rightarrow> fs | Some d \<Rightarrow> set_dev i (snd (kd_flush d)) fs)
        else (w, fs))"

definition flush_bdev :: "bwriter \<Rightarrow> bluefs \<Rightarrow> bwriter \<times> bluefs" where
  "flush_bdev w fs = fold flush_bdev_step [0, 1, 2] (w, fs)"

definition flush_special :: "bwriter \<Rightarrow> bwriter" where
  "flush_special w = fold (\<lambda>i w. if bw_dirty w ! i \<and> bw_iocv w ! i then w\<lparr>bw_dirty := (bw_dirty w)[i := False]\<rparr> else w) [0, 1, 2] w"

definition get_buffer_length :: "bwriter \<Rightarrow> u32" where
  "get_buffer_length w = length (bw_buffer w) mod 2 ^ 32"

definition flush_buffer :: "u64 \<Rightarrow> u64 \<Rightarrow> bwriter \<Rightarrow> bytes \<times> bwriter" where
  "flush_buffer bs msk w =
     (let bl = bw_tail w @ bw_buffer w;
          tl = length bl AND msk
      in (if bs > 1 \<and> tl \<noteq> 0 then bl @ replicate (bs - tl) 0 else bl, w\<lparr>bw_buffer := [], bw_tail := []\<rparr>))"

text \<open>The loop over the extents that writes \<open>bl\<close>. The second result is what was not written.\<close>

fun write_extents :: "bextent list \<Rightarrow> u64 \<Rightarrow> bytes \<Rightarrow> bool \<Rightarrow> bwriter \<Rightarrow> bluefs \<Rightarrow> (int \<times> bytes \<times> bwriter \<times> bluefs) option" where
  "write_extents [] x_off bl buffered w fs = Some (0, bl, w, fs)"
| "write_extents (e # es) x_off bl buffered w fs =
     (if bl = [] then Some (0, bl, w, fs)
      else
        let n = min (sub64 (bx_length e) x_off) (length bl)
        in case dev_at fs (bx_bdev e) of
             None \<Rightarrow> None
           | Some d \<Rightarrow>
               let (r, d1) = kd_write (add64 (bx_offset e) x_off) [take n bl] buffered d; fs1 = set_dev (bx_bdev e) d1 fs
               in if r < 0 then Some (r, bl, w, fs1)
                  else write_extents es 0 (drop n bl) buffered (w\<lparr>bw_dirty := (bw_dirty w)[bx_bdev e := True]\<rparr>) fs1)"

definition flush_data :: "bwriter \<Rightarrow> u64 \<Rightarrow> u64 \<Rightarrow> bytes \<Rightarrow> bool \<Rightarrow> bluefs \<Rightarrow> (int \<times> bwriter \<times> bluefs) option" where
  "flush_data w off len bl buffered fs =
     (if len = 0 then Some (0, w, fs)
      else
        let node = node_at fs (bw_file w)
        in case seek off node of
             None \<Rightarrow> Some (- ENOENT, w, fs)
           | Some (i, x_off) \<Rightarrow> do {
               (r, rest, w1, fs1) \<leftarrow> write_extents (drop i (fn_extents node)) x_off bl buffered w fs;
               Some (r, w1, fs1) })"

definition flush_range_F :: "bwriter \<Rightarrow> u64 \<Rightarrow> u64 \<Rightarrow> bytes option \<Rightarrow> bluefs \<Rightarrow> (int \<times> bwriter \<times> bluefs) option" where
  "flush_range_F w offset0 length0 blp fs =
     (let r = bw_file w
      in if bf_deleted (file_at fs r) then Some (0, w, fs)
         else if add64 offset0 length0 \<le> bw_pos w then Some (0, w, fs)
         else
           let (offset, len) = (if offset0 < bw_pos w then (bw_pos w, sub64 length0 (bw_pos w - offset0)) else (offset0, length0));
               write_len = (case blp of Some bl \<Rightarrow> if length bl > len then length bl else len | None \<Rightarrow> len);
               node = node_at fs r
           in do {
             (rc, fs1) \<leftarrow>
               (if fn_allocated node < add64 offset write_len then do {
                  prefer \<leftarrow> with_vsel (select_prefer_bdev (bf_hint (file_at fs r))) fs;
                  (rc, node1, ht, fs1) \<leftarrow> bfs_allocate prefer (sub64 (add64 offset write_len) (fn_allocated node)) 0 node None fs;
                  Some (rc, if rc < 0 then fs1 else upd_file r (\<lambda>f. f\<lparr>bf_fnode := node1, bf_is_dirty := True\<rparr>) fs1) }
                else Some (0, fs));
             if rc < 0 then Some (rc, w, fs1)
             else do {
               fs2 \<leftarrow>
                 (let node1 = node_at fs1 r; new_end = add64 offset len
                  in if fn_size node1 < new_end then do {
                       fs2 \<leftarrow> (if bf_hint (file_at fs1 r) \<noteq> 0
                               then on_vsel (add_usage_size (bf_hint (file_at fs1 r)) (sub64 new_end (fn_size node1)) False) fs1 else Some fs1);
                       Some (upd_file r (\<lambda>f. f\<lparr>bf_fnode := (bf_fnode f)\<lparr>fn_size := new_end\<rparr>, bf_is_dirty := True\<rparr>) fs2) }
                     else Some fs1);
               (rc2, w2, fs3) \<leftarrow>
                 (case blp of
                    Some bl \<Rightarrow> if bl \<noteq> [] then flush_data w offset (length bl) bl (cfg_buffered_io (fs_cfg fs)) fs2 else Some (0, w, fs2)
                  | None \<Rightarrow> Some (0, w, fs2));
               Some (if rc2 < 0 then (rc2, w2, fs3) else (0, w2\<lparr>bw_pos := add64 (bw_pos w2) len\<rparr>, fs3)) } })"

definition io_block_size :: "bluefs \<Rightarrow> u64" where
  "io_block_size fs = (if cfg_buffered_io (fs_cfg fs) then 1 else case dev_at fs 0 of None \<Rightarrow> 4096 | Some d \<Rightarrow> dev_block d)"

definition flush_F :: "bwriter \<Rightarrow> bool \<Rightarrow> bluefs \<Rightarrow> (int \<times> bwriter \<times> bluefs) option" where
  "flush_F w force fs =
     (let len = get_buffer_length w
      in if len = 0 then Some (0, w, fs)
         else if \<not> force \<and> len < cfg_min_flush_size (fs_cfg fs) then Some (0, w, fs)
         else
           let bs = io_block_size fs; (bl, w1) = flush_buffer bs (sub64 bs 1) w
           in if bl = [] then Some (0, w1, fs) else flush_range_F w1 (bw_pos w1) len (Some bl) fs)"

definition close_writer :: "bwriter \<Rightarrow> bluefs \<Rightarrow> (int \<times> bwriter option \<times> bluefs) option" where
  "close_writer w fs = do {
     (r, w1, fs1) \<leftarrow> flush_F w True fs;
     Some (if r < 0 then (r, Some w1, fs1)
           else let (w2, fs2) = flush_bdev w1 fs1 in (0, None, drop_writer w2 fs2)) }"

definition append_try_flush :: "bwriter \<Rightarrow> bytes \<Rightarrow> bluefs \<Rightarrow> (int \<times> bwriter \<times> bluefs) option" where
  "append_try_flush w bs fs =
     (let w1 = w\<lparr>bw_buffer := bw_buffer w @ bs\<rparr>
      in if get_buffer_length w1 \<ge> cfg_min_flush_size (fs_cfg fs) then flush_F w1 False fs else Some (0, w1, fs))"

definition flush_range :: "bwriter \<Rightarrow> u64 \<Rightarrow> u64 \<Rightarrow> bluefs \<Rightarrow> (bwriter \<times> bluefs) option" where
  "flush_range w off len fs = do { (r, w1, fs1) \<leftarrow> flush_range_F w off len None fs; Some (w1, fs1) }"

section \<open>The log\<close>

definition flush_log_data :: "bytes \<Rightarrow> bluefs \<Rightarrow> (int \<times> bluefs) option" where
  "flush_log_data bl fs =
     (case fs_writer fs of
        None \<Rightarrow> None
      | Some w \<Rightarrow>
          let node = node_at fs (bw_file w)
          in do {
            (r, rem, w1, fs1) \<leftarrow>
              (case seek (bw_pos w) node of
                 None \<Rightarrow> Some (0, bl, w, fs)
               | Some (i, x_off) \<Rightarrow> write_extents (drop i (fn_extents node)) x_off bl False w fs);
            if r < 0 then Some (r, fs1\<lparr>fs_writer := Some w1\<rparr>)
            else
              let pos = add64 (bw_pos w) (length bl - length rem);
                  fs2 = fs1\<lparr>fs_writer := Some (w1\<lparr>bw_pos := pos\<rparr>)\<rparr>;
                  fs3 = (if pos > fn_size (node_at fs2 (bw_file w)) then upd_node (bw_file w) (\<lambda>n. n\<lparr>fn_size := pos\<rparr>) fs2 else fs2)
              in Some (if rem \<noteq> [] then - ENOSPC else 0, fs3) })"

definition op_file_update :: "fileref \<Rightarrow> bluefs \<Rightarrow> bluefs" where
  "op_file_update r fs = upd_node r reset_delta (log_op (Op_file_update (node_at fs r)) fs)"

definition op_file_update_inc :: "fileref \<Rightarrow> bluefs \<Rightarrow> bluefs" where
  "op_file_update_inc r fs = upd_node r reset_delta (log_op (Op_file_update_inc (make_delta (node_at fs r))) fs)"

definition remove_dirty :: "u64 \<Rightarrow> fileref \<Rightarrow> (u64 \<times> fileref list) list \<Rightarrow> (u64 \<times> fileref list) list" where
  "remove_dirty seq r m =
     (case map_of m seq of
        None \<Rightarrow> m
      | Some v \<Rightarrow> let v1 = filter (\<lambda>x. x \<noteq> r) v in if v1 = [] then AList.delete seq m else AList.update seq v1 m)"

definition push_dirty :: "u64 \<Rightarrow> fileref \<Rightarrow> (u64 \<times> fileref list) list \<Rightarrow> (u64 \<times> fileref list) list" where
  "push_dirty seq r m = AList.update seq ((case map_of m seq of None \<Rightarrow> [] | Some v \<Rightarrow> v) @ [r]) m"

definition signal_dirty_to_log :: "bwriter \<Rightarrow> bluefs \<Rightarrow> bluefs" where
  "signal_dirty_to_log w fs =
     (let r = bw_file w; f = file_at fs r; live = fs_dirty_live fs
      in if bf_deleted f then fs
         else
           let fs1 = (if bf_dirty_seq f > fs_stable fs \<and> bf_dirty_seq f \<noteq> live
                      then upd_file r (\<lambda>f. f\<lparr>bf_dirty_seq := live\<rparr>)
                             (fs\<lparr>fs_dirty := push_dirty live r (remove_dirty (bf_dirty_seq f) r (fs_dirty fs))\<rparr>)
                      else if bf_dirty_seq f \<le> fs_stable fs \<or> bf_dirty_seq f = 0
                      then upd_file r (\<lambda>f. f\<lparr>bf_dirty_seq := live\<rparr>) (fs\<lparr>fs_dirty := push_dirty live r (fs_dirty fs)\<rparr>)
                      else fs)
           in upd_file r (\<lambda>f. f\<lparr>bf_is_dirty := False\<rparr>) fs1)"

definition consume_dirty :: "u64 \<Rightarrow> bluefs \<Rightarrow> bluefs" where
  "consume_dirty seq fs = (case map_of (fs_dirty fs) seq of None \<Rightarrow> fs | Some v \<Rightarrow> fold op_file_update_inc v fs)"

definition bound_txn :: "btxn \<Rightarrow> u64" where
  "bound_txn t = 44 + length (tx_ops t)"

definition maybe_extend_log :: "bluefs \<Rightarrow> (int \<times> bluefs) option" where
  "maybe_extend_log fs =
     (case fs_writer fs of
        None \<Rightarrow> None
      | Some w \<Rightarrow>
          let node = node_at fs (bw_file w); c = fs_cfg fs; expected = bound_txn (fs_txn fs)
          in if add64 (add64 (bw_pos w) expected) (cfg_min_log_runway c) < fn_allocated node then Some (0, fs)
             else
               let len = p2roundup (max (cfg_min_log_runway c) (add64 expected (cfg_max_log_runway c))) (cfg_alloc_size c)
               in do {
                 prefer \<leftarrow> with_vsel (\<lambda>v. select_prefer_bdev (get_hint_for_log v) v) fs;
                 (r, node1, ht, fs1) \<leftarrow> bfs_allocate prefer len (cfg_alloc_size c) node (Some 0) fs;
                 Some (if r < 0 then (r, fs1) else (0, op_file_update_inc (bw_file w) (upd_node (bw_file w) (\<lambda>n. node1) fs1))) })"

definition pad_block :: "u64 \<Rightarrow> bytes \<Rightarrow> bytes" where
  "pad_block bs bl = bl @ replicate (sub64 (p2roundup (length bl) bs) (length bl)) 0"

text \<open>The extents whose release waited for the log, for one device.\<close>

definition release_pending_dev :: "nat \<Rightarrow> bluefs \<Rightarrow> bluefs option" where
  "release_pending_dev i fs =
     (let m = fs_pending fs ! i; fs1 = fs\<lparr>fs_pending := (fs_pending fs)[i := []]\<rparr>
      in if m = [] then Some fs
         else if is_shared_alloc i fs then Some (fs1\<lparr>fs_shared_used := sub64 (fs_shared_used fs) (fold add64 (map snd m) 0)\<rparr>)
         else
           case alloc_at fs i of
             None \<Rightarrow> Some fs1
           | Some a \<Rightarrow> map_option (\<lambda>a1. set_alloc i a1 fs1) (avl_release_vec (map (\<lambda>(off, len). (off, len mod 2 ^ 32)) m) a))"

definition settle_dirty :: "u64 \<Rightarrow> bluefs \<Rightarrow> bluefs" where
  "settle_dirty seq fs =
     (let fs1 = fs\<lparr>fs_stable := seq\<rparr>
      in case map_of (fs_dirty fs1) seq of
           None \<Rightarrow> fs1
         | Some v \<Rightarrow> (fold (\<lambda>r. upd_file r (\<lambda>f. f\<lparr>bf_dirty_seq := 0\<rparr>)) v fs1)\<lparr>fs_dirty := AList.delete seq (fs_dirty fs1)\<rparr>)"

definition flush_and_sync_log :: "u64 \<Rightarrow> bluefs \<Rightarrow> (int \<times> bluefs) option" where
  "flush_and_sync_log want fs =
     (if want \<noteq> 0 \<and> want \<le> fs_stable fs then Some (0, fs)
      else if want \<noteq> 0 \<and> \<not> want \<le> fs_dirty_live fs then None
      else
        let seq = fs_seq_live fs; live = add64 seq 1;
            fs1 = consume_dirty seq (fs\<lparr>fs_seq_live := live, fs_dirty_live := live\<rparr>)
        in do {
          (r, fs2) \<leftarrow> maybe_extend_log fs1;
          if r < 0 then Some (r, fs2)
          else
            let t = \<lparr>tx_uuid = sp_uuid (fs_super fs2), tx_seq = seq, tx_ops = tx_ops (fs_txn fs2)\<rparr>;
                fs3 = fs2\<lparr>fs_txn := (fs_txn fs2)\<lparr>tx_ops := [], tx_seq := live\<rparr>\<rparr>
            in do {
              (r, fs4) \<leftarrow> flush_log_data (pad_block (sp_block_size (fs_super fs2)) (enc_txn t)) fs3;
              if r < 0 then Some (r, fs4)
              else
                case fs_writer fs4 of
                  None \<Rightarrow> None
                | Some w \<Rightarrow>
                    let (w1, fs5) = flush_bdev w fs4;
                        fs6 = settle_dirty seq (fs5\<lparr>fs_writer := Some (w1\<lparr>bw_buffer := []\<rparr>)\<rparr>)
                    in map_option (Pair 0) (each release_pending_dev [0..<length (fs_pending fs6)] fs6) } })"

definition bfs_fsync :: "bwriter \<Rightarrow> bluefs \<Rightarrow> (int \<times> bwriter \<times> bluefs) option" where
  "bfs_fsync w fs = do {
     (r, w1, fs1) \<leftarrow> flush_F w True fs;
     if r < 0 then Some (r, w1, fs1)
     else
       let (w2, fs2) = flush_bdev w1 fs1;
           fs3 = (if bf_is_dirty (file_at fs2 (bw_file w2))
                  then upd_file (bw_file w2) (\<lambda>f. f\<lparr>bf_is_dirty := False\<rparr>) (signal_dirty_to_log w2 fs2) else fs2);
           old = bf_dirty_seq (file_at fs3 (bw_file w2))
       in if fs_stable fs3 < old
          then do { (r, fs4) \<leftarrow> flush_and_sync_log old fs3; Some (if r < 0 then r else 0, w2, fs4) }
          else Some (0, w2, fs3) }"

section \<open>Replay\<close>

text \<open>How the processing of the operations of a transaction ends: normally, with a jump, or with an error code.\<close>

datatype replayed =
    Ops_done u64 bluefs
  | Ops_jump u64 u64 bluefs
  | Ops_fail int bluefs

definition raise_ino :: "u64 \<Rightarrow> bluefs \<Rightarrow> bluefs" where
  "raise_ino ino fs = (if ino > fs_ino_last fs then fs\<lparr>fs_ino_last := ino\<rparr> else fs)"

definition replay_link :: "bytes \<Rightarrow> bytes \<Rightarrow> u64 \<Rightarrow> bluefs \<Rightarrow> bluefs option" where
  "replay_link d n ino fs =
     (let (r, fs1) = get_file ino fs
      in do {
        fs2 \<leftarrow> on_vsel (sub_usage (bf_hint (file_at fs1 r)) (node_at fs1 r)) fs1;
        let fs3 = (case fs_vsel fs2 of None \<Rightarrow> fs2 | Some v \<Rightarrow> upd_file r (\<lambda>f. f\<lparr>bf_hint := get_hint_by_dir d v\<rparr>) fs2);
        fs4 \<leftarrow> on_vsel (add_usage (bf_hint (file_at fs3 r)) (node_at fs3 r)) fs3;
        let fs5 = (case map_of (fs_dirs fs4) d of
                     None \<Rightarrow> fs4
                   | Some m \<Rightarrow> fs4\<lparr>fs_dirs := om_put d (om_put n r m) (fs_dirs fs4)\<rparr>);
        Some (raise_ino ino (upd_file r (\<lambda>f. f\<lparr>bf_refs := bf_refs f + 1\<rparr>) fs5)) })"

definition replay_unlink :: "bytes \<Rightarrow> bytes \<Rightarrow> bluefs \<Rightarrow> bluefs option" where
  "replay_unlink d n fs =
     (case map_of (fs_dirs fs) d of
        None \<Rightarrow> Some fs
      | Some m \<Rightarrow>
          case map_of m n of
            None \<Rightarrow> Some fs
          | Some r \<Rightarrow>
              if \<not> bf_refs (file_at fs r) > 0 then None
              else Some (upd_file r (\<lambda>f. f\<lparr>bf_refs := bf_refs f - 1\<rparr>) (fs\<lparr>fs_dirs := om_put d (AList.delete n m) (fs_dirs fs)\<rparr>)))"

text \<open>The update of a node, \<open>f\<close>, with the accounts of the volume selector around it.\<close>

definition replay_node :: "u64 \<Rightarrow> fileref \<Rightarrow> (fnode \<Rightarrow> fnode) \<Rightarrow> bluefs \<Rightarrow> bluefs option" where
  "replay_node ino r f fs =
     (let tracked = (\<lambda>g fs. if bf_hint (file_at fs r) \<noteq> 0 \<and> ino \<noteq> 1 then on_vsel (g (bf_hint (file_at fs r)) (node_at fs r)) fs else Some fs)
      in do { fs1 \<leftarrow> tracked sub_usage fs; fs2 \<leftarrow> tracked add_usage (upd_node r f fs1); Some (raise_ino ino fs2) })"

definition replay_update :: "fnode \<Rightarrow> bluefs \<Rightarrow> bluefs option" where
  "replay_update n fs = (let (r, fs1) = get_file (fn_ino n) fs in replay_node (fn_ino n) r (\<lambda>x. n) fs1)"

definition replay_update_inc :: "fnode_delta \<Rightarrow> bluefs \<Rightarrow> bluefs option" where
  "replay_update_inc d fs =
     (let (r, fs1) = get_file (fd_ino d) fs
      in if fd_offset d \<noteq> fn_allocated (node_at fs1 r) then None
         else replay_node (fd_ino d) r (\<lambda>x. claim_extents (fd_extents d) (x\<lparr>fn_mtime := fd_mtime d, fn_size := fd_size d\<rparr>)) fs1)"

definition replay_remove :: "u64 \<Rightarrow> bluefs \<Rightarrow> bluefs option" where
  "replay_remove ino fs =
     (case map_of (fs_files fs) ino of
        None \<Rightarrow> Some fs
      | Some r \<Rightarrow> do {
          fs1 \<leftarrow> (if bf_hint (file_at fs r) \<noteq> 0 then on_vsel (sub_usage (bf_hint (file_at fs r)) (node_at fs r)) fs else Some fs);
          Some (fs1\<lparr>fs_files := AList.delete ino (fs_files fs1)\<rparr>) })"

text \<open>One operation; \<open>sz\<close> is the size of the log, of which a jump may not leave.\<close>

fun replay_op :: "u64 \<Rightarrow> bop \<Rightarrow> u64 \<Rightarrow> bluefs \<Rightarrow> replayed option" where
  "replay_op sz Op_init seq fs = Some (Ops_done seq fs)"
| "replay_op sz (Op_jump nxt off) seq fs =
     Some (if nxt \<le> seq then Ops_fail (- EIO) fs else if off \<ge> sz then Ops_fail (- EIO) fs else Ops_jump (nxt - 1) off fs)"
| "replay_op sz (Op_jump_seq nxt) seq fs = Some (if nxt \<le> seq then Ops_fail (- EIO) fs else Ops_done (nxt - 1) fs)"
| "replay_op sz (Op_dir_create d) seq fs = Some (Ops_done seq (fs\<lparr>fs_dirs := om_put d [] (fs_dirs fs)\<rparr>))"
| "replay_op sz (Op_dir_remove d) seq fs = Some (Ops_done seq (fs\<lparr>fs_dirs := AList.delete d (fs_dirs fs)\<rparr>))"
| "replay_op sz (Op_dir_link d n ino) seq fs = map_option (Ops_done seq) (replay_link d n ino fs)"
| "replay_op sz (Op_dir_unlink d n) seq fs = map_option (Ops_done seq) (replay_unlink d n fs)"
| "replay_op sz (Op_file_update n) seq fs = map_option (Ops_done seq) (replay_update n fs)"
| "replay_op sz (Op_file_update_inc d) seq fs = map_option (Ops_done seq) (replay_update_inc d fs)"
| "replay_op sz (Op_file_remove ino) seq fs = map_option (Ops_done seq) (replay_remove ino fs)"

text \<open>
  The operations of a transaction, decoded one by one. The size of the log is read again for every jump, since an
  update of node 1 replaces it.
\<close>

definition log_size :: "fileref \<Rightarrow> bluefs \<Rightarrow> u64" where
  "log_size l fs = fn_size (node_at fs l)"

partial_function (option) replay_ops :: "fileref \<Rightarrow> bytes \<Rightarrow> u64 \<Rightarrow> bluefs \<Rightarrow> replayed option" where
  "replay_ops l ops seq fs =
     (if ops = [] then Some (Ops_done seq fs)
      else
        case dec_op ops of
          Inl e \<Rightarrow> None
        | Inr (None, q) \<Rightarrow> Some (Ops_fail (- EIO) fs)
        | Inr (Some x, q) \<Rightarrow> do {
            res \<leftarrow> replay_op (log_size l fs) x seq fs;
            case res of Ops_done seq1 fs1 \<Rightarrow> replay_ops l q seq1 fs1 | other \<Rightarrow> Some other })"

text \<open>The loop that reads the further blocks of a transaction. The result is a code and the bytes read so far.\<close>

partial_function (option) read_more :: "fileref \<Rightarrow> u64 \<Rightarrow> u64 \<Rightarrow> u64 \<Rightarrow> bytes \<Rightarrow> bluefs \<Rightarrow> (int \<times> bytes \<times> bluefs) option" where
  "read_more l bs pos left bl fs =
     (if left = 0 then Some (0, bl, fs)
      else
        let node = node_at fs l; r_off = add64 pos (length bl); r_len = min bs (sub64 (fn_size node) r_off)
        in case seek r_off node of
             None \<Rightarrow> Some (0, bl, fs)
           | Some (i, x_off) \<Rightarrow>
               let e = fn_extents node ! i
               in case dev_at fs (bx_bdev e) of
                    None \<Rightarrow> None
                  | Some d \<Rightarrow>
                      let (r, b, d1) = kd_read (add64 (bx_offset e) x_off) (min (sub64 (bx_length e) x_off) r_len) False d;
                          fs1 = set_dev (bx_bdev e) d1 fs
                      in if r < 0 then Some (r, bl, fs1)
                         else read_more l bs pos (sub64 left (p2roundup r_len bs)) (bl @ b) fs1)"

definition peek_size :: "bytes \<Rightarrow> (dec_error + u64)" where
  "peek_size bl =
     (case dec_then dec_u8 (\<lambda>v. dec_then dec_u8 (\<lambda>c. dec_u32)) bl of Inl e \<Rightarrow> Inl e | Inr (sl, q) \<Rightarrow> Inr (sl + 6))"

text \<open>
  The main loop. Its result is an error code, or the position and the sequence number it reached. \<open>Malformed_input\<close>
  is caught, every other exception ends the process.
\<close>

definition stop_replay :: "bool \<Rightarrow> u64 \<Rightarrow> u64 \<Rightarrow> bluefs \<Rightarrow> (int + u64 \<times> u64) \<times> bluefs" where
  "stop_replay seen seq pos fs = (if seen then Inr (seq, pos) else Inl (- EIO), fs)"

partial_function (option) replay_loop :: "fileref \<Rightarrow> u64 \<Rightarrow> u64 \<Rightarrow> bool \<Rightarrow> bluefs \<Rightarrow> ((int + u64 \<times> u64) \<times> bluefs) option" where
  "replay_loop l seq pos seen fs =
     (let node = node_at fs l; bs = sp_block_size (fs_super fs)
      in if \<not> pos < fn_size node then Some (Inr (seq, pos), fs)
         else
           case seek pos node of
             None \<Rightarrow> Some (Inr (seq, pos), fs)
           | Some (i, x_off) \<Rightarrow>
               let e = fn_extents node ! i
               in case dev_at fs (bx_bdev e) of
                    None \<Rightarrow> None
                  | Some d \<Rightarrow>
                      let (r, bl, d1) = kd_read (add64 (bx_offset e) x_off) (min (sub64 (bx_length e) x_off) (min bs (fn_size node - pos))) False d;
                          fs1 = set_dev (bx_bdev e) d1 fs
                      in if r < 0 then Some (Inl r, fs1)
                         else if bl = [] then Some (Inr (seq, pos), fs1)
                         else
                           case peek_size bl of
                             Inl e \<Rightarrow> if e = Malformed_input then Some (stop_replay seen seq pos fs1) else None
                           | Inr raw \<Rightarrow> do {
                               let need = p2roundup raw bs;
                               (r, bl1, fs2) \<leftarrow> (if need > length bl then read_more l bs pos (need - length bl) bl fs1 else Some (0, bl, fs1));
                               if r < 0 then Some (Inl r, fs2)
                               else
                                 case dec_txn bl1 of
                                   Inl e \<Rightarrow> if e = Malformed_input then Some (stop_replay seen seq pos fs2) else None
                                 | Inr (t, q) \<Rightarrow>
                                     if tx_uuid t \<noteq> sp_uuid (fs_super fs2) then Some (stop_replay seen seq pos fs2)
                                     else if tx_seq t \<noteq> add64 seq 1
                                     then Some (if tx_seq t = seq then Inr (seq, pos) else Inl (- EIO), fs2)
                                     else do {
                                       res \<leftarrow> replay_ops l (tx_ops t) seq fs2;
                                       case res of
                                         Ops_fail r fs3 \<Rightarrow> Some (Inl r, fs3)
                                       | Ops_jump seq1 pos1 fs3 \<Rightarrow> replay_loop l seq1 pos1 True fs3
                                       | Ops_done seq1 fs3 \<Rightarrow> replay_loop l (add64 seq1 1) (add64 pos need) True fs3 } })"

definition bfs_replay :: "bluefs \<Rightarrow> (int \<times> bluefs) option" where
  "bfs_replay fs =
     (let (l, fs0) = get_file 1 fs
      in if fn_extents (node_at fs0 l) = [] then Some (0, fs0)
         else do {
           (res, fs1) \<leftarrow> replay_loop l 0 0 False fs0;
           case res of
             Inl r \<Rightarrow> Some (r, fs1)
           | Inr (seq, pos) \<Rightarrow>
               let fs2 = upd_node l (\<lambda>n. n\<lparr>fn_size := pos\<rparr>) (fs1\<lparr>fs_seq_live := add64 seq 1, fs_dirty_live := add64 seq 1, fs_stable := seq\<rparr>)
               in Some (0, fs2\<lparr>fs_files := filter (\<lambda>(ino, r). \<not> (ino > 1 \<and> bf_refs (file_at fs2 r) \<le> 0)) (fs_files fs2)\<rparr>) })"

section \<open>Creating, mounting, unmounting\<close>

definition ensure_vsel :: "bluefs \<Rightarrow> bluefs" where
  "ensure_vsel fs =
     (case fs_vsel fs of
        Some v \<Rightarrow> fs
      | None \<Rightarrow> fs\<lparr>fs_vsel := Some (Original (get_total BDEV_WAL fs) (get_total BDEV_DB fs) (get_total BDEV_SLOW fs))\<rparr>)"

definition flush_db :: "bluefs \<Rightarrow> bluefs" where
  "flush_db fs = (case dev_at fs BDEV_DB of None \<Rightarrow> fs | Some d \<Rightarrow> set_dev BDEV_DB (snd (kd_flush d)) fs)"

definition mkfs :: "uuid \<Rightarrow> u64 \<Rightarrow> bluefs \<Rightarrow> (int \<times> bluefs) option" where
  "mkfs uuid alloc_size fs0 = do {
     fs1 \<leftarrow> init_alloc (ensure_vsel fs0);
     let fs2 = fs1\<lparr>fs_super := (fs_super fs1)\<lparr>sp_uuid := uuid, sp_block_size := 4096, sp_osd_uuid := replicate 16 0\<rparr>\<rparr>;
     ht \<leftarrow> with_vsel (\<lambda>v. Some (get_hint_for_log v)) fs2;
     prefer \<leftarrow> with_vsel (select_prefer_bdev ht) fs2;
     let (l, fs3) = new_file ((file_new 1)\<lparr>bf_hint := ht\<rparr>) fs2;
     (r, node, h, fs4) \<leftarrow> bfs_allocate prefer BLUEFS_LOG_INITIAL alloc_size (node_at fs3 l) (Some 0) fs3;
     if r < 0 then Some (r, fs4)
     else do {
       let fs5 = upd_node l (\<lambda>n. node) fs4;
       fs6 \<leftarrow> on_vsel (add_usage ht node) fs5;
       let (w, fs7) = create_writer l fs6;
       let fs8 = (log_op Op_init (fs7\<lparr>fs_writer := Some w, fs_txn := (fs_txn fs7)\<lparr>tx_uuid := uuid\<rparr>\<rparr>));
       let fs9 = fs8\<lparr>fs_txn := (fs_txn fs8)\<lparr>tx_seq := 1\<rparr>\<rparr>;
       (r, fs10) \<leftarrow> flush_log_data (pad_block 4096 (enc_txn (fs_txn fs9))) fs9;
       case fs_writer fs10 of
         None \<Rightarrow> None
       | Some w1 \<Rightarrow>
           let (w2, fs11) = flush_bdev w1 fs10;
               fs12 = fs11\<lparr>fs_writer := Some (w2\<lparr>bw_buffer := []\<rparr>), fs_super := (fs_super fs11)\<lparr>sp_log_fnode := node_at fs11 l\<rparr>\<rparr>;
               (r, fs13) = write_super BDEV_DB fs12
           in if r < 0 then Some (r, fs13)
              else Some (0, drop_writer w2 ((flush_db fs13)\<lparr>fs_writer := None\<rparr>)) } }"

definition claim_extent :: "bextent \<Rightarrow> bluefs \<Rightarrow> bluefs option" where
  "claim_extent e fs =
     (if is_shared_alloc (bx_bdev e) fs then Some (fs\<lparr>fs_shared_used := add64 (fs_shared_used fs) (bx_length e)\<rparr>)
      else if bx_bdev e \<ge> length (fs_alloc fs) then None
      else
        case alloc_at fs (bx_bdev e) of
          None \<Rightarrow> Some fs
        | Some a \<Rightarrow> map_option (\<lambda>a1. set_alloc (bx_bdev e) a1 fs) (avl_init_rm_free (bx_offset e) (bx_length e) a))"

definition claim_file :: "u64 \<times> fileref \<Rightarrow> bluefs \<Rightarrow> bluefs option" where
  "claim_file p fs =
     (case p of (ino, r) \<Rightarrow> do {
        fs1 \<leftarrow> each claim_extent (fn_extents (node_at fs r)) fs;
        on_vsel (add_usage (bf_hint (file_at fs1 r)) (node_at fs1 r)) fs1 })"

definition mount :: "bluefs \<Rightarrow> (int \<times> bluefs) option" where
  "mount fs0 = do {
     (r, fs1) \<leftarrow> open_super fs0;
     if r < 0 then Some (r, fs1)
     else do {
       fs2 \<leftarrow> init_alloc (ensure_vsel fs1);
       ht \<leftarrow> with_vsel (\<lambda>v. Some (get_hint_for_log v)) fs2;
       let (l, fs3) = new_file ((file_new 1)\<lparr>bf_fnode := sp_log_fnode (fs_super fs2), bf_hint := ht\<rparr>) fs2;
       (r, fs4) \<leftarrow> bfs_replay (fs3\<lparr>fs_files := AList.update 1 l (fs_files fs3), fs_ino_last := 1\<rparr>);
       if r < 0 then Some (r, fs4)
       else do {
         fs5 \<leftarrow> each claim_file (fs_files fs4) fs4;
         let (l1, fs6) = get_file 1 fs5;
         let (w, fs7) = create_writer l1 fs6;
         Some (0, upd_node l reset_delta (fs7\<lparr>fs_writer := Some (w\<lparr>bw_pos := fn_size (node_at fs7 l)\<rparr>)\<rparr>)) } } }"

section \<open>Directories and files\<close>

definition lookup :: "bytes \<Rightarrow> bytes \<Rightarrow> bluefs \<Rightarrow> fileref option" where
  "lookup d n fs = do { m \<leftarrow> map_of (fs_dirs fs) d; map_of m n }"

definition bfs_stat :: "bytes \<Rightarrow> bytes \<Rightarrow> bluefs \<Rightarrow> int \<times> (u64 \<times> u64) option" where
  "bfs_stat d n fs =
     (case lookup d n fs of None \<Rightarrow> (- ENOENT, None) | Some r \<Rightarrow> (0, Some (fn_size (node_at fs r), fn_mtime (node_at fs r))))"

definition drop_link :: "fileref \<Rightarrow> bluefs \<Rightarrow> bluefs option" where
  "drop_link r fs =
     (if \<not> bf_refs (file_at fs r) > 0 then None
      else
        let fs1 = upd_file r (\<lambda>f. f\<lparr>bf_refs := bf_refs f - 1\<rparr>) fs
        in if bf_refs (file_at fs1 r) \<noteq> 0 then Some fs1
           else do {
             fs2 \<leftarrow> on_vsel (sub_usage (bf_hint (file_at fs1 r)) (node_at fs1 r)) fs1;
             let ino = fn_ino (node_at fs2 r);
             let fs3 = log_op (Op_file_remove ino) fs2;
             let fs4 = upd_file r (\<lambda>f. f\<lparr>bf_deleted := True\<rparr>) (fs3\<lparr>fs_files := AList.delete ino (fs_files fs3)\<rparr>);
             fs5 \<leftarrow> add_pending (fn_extents (node_at fs4 r)) fs4;
             Some (if bf_dirty_seq (file_at fs5 r) > fs_stable fs5
                   then upd_file r (\<lambda>f. f\<lparr>bf_dirty_seq := fs_stable fs5\<rparr>)
                          (fs5\<lparr>fs_dirty := remove_dirty (bf_dirty_seq (file_at fs5 r)) r (fs_dirty fs5)\<rparr>)
                   else fs5) })"

definition unlink :: "bytes \<Rightarrow> bytes \<Rightarrow> bluefs \<Rightarrow> (int \<times> bluefs) option" where
  "unlink d n fs =
     (case map_of (fs_dirs fs) d of
        None \<Rightarrow> Some (- ENOENT, fs)
      | Some m \<Rightarrow>
          case map_of m n of
            None \<Rightarrow> Some (- ENOENT, fs)
          | Some r \<Rightarrow>
              map_option (Pair 0) (drop_link r (log_op (Op_dir_unlink d n) (fs\<lparr>fs_dirs := om_put d (AList.delete n m) (fs_dirs fs)\<rparr>))))"

text \<open>The loop of \<open>truncate\<close>: the node with the extents it keeps, and the extents to free.\<close>

fun truncate_loop :: "bextent list \<Rightarrow> u64 \<Rightarrow> u64 \<Rightarrow> fnode \<Rightarrow> bextent list \<Rightarrow> fnode \<times> bextent list" where
  "truncate_loop [] off pos node free = (node, free)"
| "truncate_loop (e # es) off pos node free =
     (if pos < off then
        let keep = min (bx_length e) (off - pos)
        in truncate_loop es off (add64 pos (bx_length e)) (append_extent (e\<lparr>bx_length := keep\<rparr>) node)
             (if keep < bx_length e then free @ [e\<lparr>bx_offset := add64 (bx_offset e) keep, bx_length := bx_length e - keep\<rparr>] else free)
      else truncate_loop es off (add64 pos (bx_length e)) node (free @ [e]))"

definition bfs_truncate :: "bwriter \<Rightarrow> u64 \<Rightarrow> bluefs \<Rightarrow> (int \<times> bwriter \<times> bluefs) option" where
  "bfs_truncate w off fs =
     (let r = bw_file w
      in if bf_deleted (file_at fs r) then Some (0, w, fs)
         else if fn_ino (node_at fs r) \<le> 1 then Some (- EINVAL, w, fs)
         else if off > fn_size (node_at fs r) then Some (- EINVAL, w, fs)
         else if off = fn_size (node_at fs r) then Some (0, w, fs)
         else do {
           (rc, w1, fs1) \<leftarrow> (if get_buffer_length w \<noteq> 0 then flush_F w True fs else Some (0, w, fs));
           if rc < 0 then Some (rc, w1, fs1)
           else do {
             let (w2, fs2) = flush_bdev w1 fs1;
             fs3 \<leftarrow> on_vsel (sub_usage (bf_hint (file_at fs2 r)) (node_at fs2 r)) fs2;
             let node = node_at fs3 r;
             let (node1, free) = truncate_loop (fn_extents node) off 0 (node\<lparr>fn_extents := [], fn_index := [], fn_allocated := 0\<rparr>) [];
             let fs4 = upd_file r (\<lambda>f. f\<lparr>bf_fnode := node1\<lparr>fn_size := off\<rparr>, bf_is_dirty := True\<rparr>) fs3;
             fs5 \<leftarrow> on_vsel (add_usage (bf_hint (file_at fs4 r)) (node_at fs4 r)) fs4;
             fs6 \<leftarrow> add_pending free fs5;
             Some (0, w2, op_file_update r fs6) } })"

definition rename :: "bytes \<Rightarrow> bytes \<Rightarrow> bytes \<Rightarrow> bytes \<Rightarrow> bluefs \<Rightarrow> int \<times> bluefs" where
  "rename od on nd nn fs =
     (case lookup od on fs of
        None \<Rightarrow> (- ENOENT, fs)
      | Some r \<Rightarrow>
          case map_of (fs_dirs fs) nd of
            None \<Rightarrow> (- ENOENT, fs)
          | Some m \<Rightarrow>
              let fs1 = (case map_of m nn of None \<Rightarrow> fs | Some x \<Rightarrow> if x \<noteq> r then log_op (Op_dir_unlink nd nn) fs else fs);
                  fs2 = fs1\<lparr>fs_dirs := om_put nd (om_put nn r m) (fs_dirs fs1)\<rparr>;
                  fs3 = fs2\<lparr>fs_dirs := om_put od (AList.delete on (the (map_of (fs_dirs fs2) od))) (fs_dirs fs2)\<rparr>
              in (0, log_op (Op_dir_unlink od on) (log_op (Op_dir_link nd nn (fn_ino (node_at fs3 r))) fs3)))"

definition open_for_write :: "u64 \<Rightarrow> bytes \<Rightarrow> bytes \<Rightarrow> bool \<Rightarrow> bluefs \<Rightarrow> (int \<times> bwriter option \<times> bluefs) option" where
  "open_for_write now d n overwrite fs =
     (case map_of (fs_dirs fs) d of
        None \<Rightarrow> Some (- ENOENT, None, fs)
      | Some m \<Rightarrow> do {
          (rc, r, created, old, fs1) \<leftarrow>
            (case map_of m n of
               None \<Rightarrow>
                 if overwrite then Some (- ENOENT, 0, False, [], fs)
                 else do {
                   ht \<leftarrow> with_vsel (\<lambda>v. Some (get_hint_by_dir d v)) fs;
                   let ino = add64 (fs_ino_last fs) 1;
                   let (r, fs1) = new_file ((file_new ino)\<lparr>bf_hint := ht, bf_refs := 1\<rparr>) fs;
                   Some (0, r, True, [],
                     fs1\<lparr>fs_ino_last := ino, fs_files := AList.update ino r (fs_files fs1), fs_dirs := om_put d (om_put n r m) (fs_dirs fs1)\<rparr>) }
             | Some r \<Rightarrow>
                 if overwrite then Some (0, r, False, [], fs)
                 else do {
                   v \<leftarrow> with_vsel (sub_usage (bf_hint (file_at fs r)) (node_at fs r)) fs;
                   Some (0, r, False, fn_extents (node_at fs r),
                     upd_node r (\<lambda>x. clear_extents (x\<lparr>fn_size := 0\<rparr>)) (fs\<lparr>fs_vsel := Some v\<rparr>)) });
          if rc < 0 then Some (rc, None, fs1)
          else do {
            let fs2 = op_file_update r (upd_node r (\<lambda>x. x\<lparr>fn_mtime := now\<rparr>) fs1);
            fs3 \<leftarrow> add_pending old (if created then log_op (Op_dir_link d n (fn_ino (node_at fs2 r))) fs2 else fs2);
            let (w, fs4) = create_writer r fs3;
            Some (0, Some w, fs4) } })"

definition open_for_read :: "bytes \<Rightarrow> bytes \<Rightarrow> bool \<Rightarrow> bluefs \<Rightarrow> int \<times> breader option \<times> bluefs" where
  "open_for_read d n rnd fs =
     (case lookup d n fs of
        None \<Rightarrow> (- ENOENT, None, fs)
      | Some r \<Rightarrow>
          (0, Some \<lparr>br_file = r, br_bl_off = 0, br_bl = [], br_pos = 0, br_max_prefetch = (if rnd then 4096 else cfg_max_prefetch (fs_cfg fs)),
                    br_random = rnd, br_ignore_eof = False\<rparr>,
           upd_file r (\<lambda>f. f\<lparr>bf_readers := bf_readers f + 1\<rparr>) fs))"

definition close_reader :: "breader \<Rightarrow> bluefs \<Rightarrow> bluefs" where
  "close_reader h = upd_file (br_file h) (\<lambda>f. f\<lparr>bf_readers := bf_readers f - 1\<rparr>)"

definition mkdir :: "bytes \<Rightarrow> bluefs \<Rightarrow> int \<times> bluefs" where
  "mkdir d fs =
     (if map_of (fs_dirs fs) d \<noteq> None then (- EEXIST, fs)
      else (0, log_op (Op_dir_create d) (fs\<lparr>fs_dirs := om_put d [] (fs_dirs fs)\<rparr>)))"

definition rmdir :: "bytes \<Rightarrow> bluefs \<Rightarrow> int \<times> bluefs" where
  "rmdir d fs =
     (case map_of (fs_dirs fs) d of
        None \<Rightarrow> (- ENOENT, fs)
      | Some m \<Rightarrow>
          if m \<noteq> [] then (- ENOTEMPTY, fs)
          else (0, log_op (Op_dir_remove d) (fs\<lparr>fs_dirs := AList.delete d (fs_dirs fs)\<rparr>)))"

definition dir_exists :: "bytes \<Rightarrow> bluefs \<Rightarrow> bool" where
  "dir_exists d fs \<longleftrightarrow> map_of (fs_dirs fs) d \<noteq> None"

definition strip_slashes :: "bytes \<Rightarrow> bytes" where
  "strip_slashes d = rev (dropWhile (\<lambda>c. c = 47) (rev d))"

definition readdir :: "bytes \<Rightarrow> bluefs \<Rightarrow> int \<times> bytes list" where
  "readdir d0 fs =
     (let d = strip_slashes d0
      in if d = [] then (0, map fst (fs_dirs fs))
         else case map_of (fs_dirs fs) d of None \<Rightarrow> (- ENOENT, []) | Some m \<Rightarrow> (0, map fst m))"

definition lock_file :: "bytes \<Rightarrow> bytes \<Rightarrow> bluefs \<Rightarrow> int \<times> fileref option \<times> bluefs" where
  "lock_file d n fs =
     (case map_of (fs_dirs fs) d of
        None \<Rightarrow> (- ENOENT, None, fs)
      | Some m \<Rightarrow>
          case map_of m n of
            None \<Rightarrow>
              let ino = add64 (fs_ino_last fs) 1; (r, fs1) = new_file ((file_new ino)\<lparr>bf_refs := 1, bf_locked := True\<rparr>) fs
              in (0, Some r, fs1\<lparr>fs_ino_last := ino, fs_files := AList.update ino r (fs_files fs1), fs_dirs := om_put d (om_put n r m) (fs_dirs fs1)\<rparr>)
          | Some r \<Rightarrow>
              if bf_locked (file_at fs r) then (- ENOLCK, None, fs)
              else (0, Some r, upd_file r (\<lambda>f. f\<lparr>bf_locked := True\<rparr>) fs))"

definition unlock_file :: "fileref \<Rightarrow> bluefs \<Rightarrow> (int \<times> bluefs) option" where
  "unlock_file r fs =
     (if \<not> bf_locked (file_at fs r) then None else Some (0, upd_file r (\<lambda>f. f\<lparr>bf_locked := False\<rparr>) fs))"

definition preallocate :: "fileref \<Rightarrow> u64 \<Rightarrow> u64 \<Rightarrow> bluefs \<Rightarrow> (int \<times> bluefs) option" where
  "preallocate r off len fs =
     (if bf_deleted (file_at fs r) then Some (0, fs)
      else if \<not> fn_ino (node_at fs r) > 1 then None
      else
        let node = node_at fs r
        in if add64 off len > fn_allocated node then do {
             prefer \<leftarrow> with_vsel (select_prefer_bdev (bf_hint (file_at fs r))) fs;
             (rc, node1, ht, fs1) \<leftarrow> bfs_allocate prefer (sub64 (add64 off len) (fn_allocated node)) 0 node None fs;
             Some (if rc < 0 then (rc, fs1) else (0, op_file_update_inc r (upd_node r (\<lambda>n. node1) fs1))) }
           else Some (0, fs))"

section \<open>Compaction\<close>

text \<open>\<open>sizeof\<close> of the node and of its delta on the 64-bit targets: 96 and 56 bytes.\<close>

definition estimate_log_size :: "bluefs \<Rightarrow> u64" where
  "estimate_log_size fs =
     (let files = length (fs_files fs); dirs = length (fs_dirs fs)
      in p2roundup (4096 * 2 + files * (1 + 96 + 56) + dirs * (1 + 40) + files * (1 + 40 + 12) + 24) (sp_block_size (fs_super fs)))"

definition should_compact :: "bluefs \<Rightarrow> bool \<times> bluefs" where
  "should_compact fs =
     (if fs_compacting fs then (False, fs)
      else
        let (l, fs1) = get_file 1 fs; current = fn_size (node_at fs1 l); expected = estimate_log_size fs1; c = fs_cfg fs1
        in if current < cfg_compact_min_size c then (False, fs1)
           else if f64 (f64 (of_nat current) / f64 (of_nat expected)) < cfg_compact_min_ratio c then (False, fs1)
           else (True, fs1))"

definition dump_dir :: "bluefs \<Rightarrow> bytes \<times> dir \<Rightarrow> bop list" where
  "dump_dir fs p =
     Op_dir_create (fst p) #
     map (\<lambda>(n, r). Op_dir_link (fst p) n (fn_ino (node_at fs r))) (filter (\<lambda>(n, r). fn_ino (node_at fs r) \<noteq> 1) (snd p))"

text \<open>\<open>_compact_log_dump_metadata\<close>; like every \<open>op_file_update\<close> it marks the nodes as logged.\<close>

definition dump_metadata :: "bluefs \<Rightarrow> bop list \<times> bluefs" where
  "dump_metadata fs =
     (let rs = map snd (filter (\<lambda>(ino, r). ino \<noteq> 1) (fs_files fs))
      in (concat (map (dump_dir fs) (fs_dirs fs)) @ map (\<lambda>r. Op_file_update (node_at fs r)) rs,
          fold (\<lambda>r. upd_node r reset_delta) rs fs))"

definition compact_log :: "bluefs \<Rightarrow> (int \<times> bluefs) option" where
  "compact_log fs0 =
     (if fs_compacting fs0 then Some (0, fs0)
      else
        let cur_seq = fs_seq_live fs0; (go, fs1) = should_compact (fs0\<lparr>fs_compacting := True\<rparr>)
        in if \<not> go then Some (0, fs1\<lparr>fs_compacting := False\<rparr>)
           else do {
             let (l, fs2) = get_file 1 fs1;
             prefer \<leftarrow> with_vsel (\<lambda>v. select_prefer_bdev (get_hint_for_log v) v) fs2;
             let ht = bf_hint (file_at fs2 l);
             let old = fnode_copy (node_at fs2 l);
             let (ops, fs3) = dump_metadata fs2;
             let t = \<lparr>tx_uuid = sp_uuid (fs_super fs3), tx_seq = 1, tx_ops = concat (map enc_op (ops @ [Op_jump_seq cur_seq]))\<rparr>;
             let bl = pad_block (sp_block_size (fs_super fs3)) (enc_txn t);
             fs4 \<leftarrow> (if ht \<noteq> 0 then do { x \<leftarrow> on_vsel (sub_usage ht old) fs3; on_vsel (sub_usage_size ht (fn_size old) True) x } else Some fs3);
             (r, node, h, fs5) \<leftarrow> bfs_allocate prefer (length bl) (cfg_alloc_size (fs_cfg fs4)) (clear_extents (node_at fs4 l)) (Some 0) fs4;
             if r < 0 then Some (r, (upd_node l (\<lambda>n. old) fs5)\<lparr>fs_compacting := False\<rparr>)
             else do {
               let fs6 = upd_node l (\<lambda>n. node) fs5;
               fs7 \<leftarrow> (if ht \<noteq> 0 then do { x \<leftarrow> on_vsel (add_usage ht node) fs6; on_vsel (add_usage_size ht (fn_size node) True) x } else Some fs6);
               let fs8 = (case fs_writer fs7 of None \<Rightarrow> fs7 | Some w \<Rightarrow> drop_writer w fs7);
               let (w, fs9) = create_writer l fs8;
               let fs10 = upd_node l (\<lambda>n. n\<lparr>fn_size := 0\<rparr>) fs9;
               (r, w1, fs11) \<leftarrow> flush_data (w\<lparr>bw_pos := 0\<rparr>) 0 (length bl) bl False fs10;
               if r < 0 then Some (r, fs11\<lparr>fs_writer := Some w1, fs_compacting := False\<rparr>)
               else do {
                 let (w2, fs12) = flush_bdev (w1\<lparr>bw_pos := length bl\<rparr>) fs11;
                 let fs13 = fs12\<lparr>fs_writer := Some w2, fs_super := (fs_super fs12)\<lparr>sp_log_fnode := node_at fs12 l\<rparr>\<rparr>;
                 let (r, fs14) = write_super BDEV_DB fs13;
                 if r < 0 then Some (r, fs14\<lparr>fs_compacting := False\<rparr>)
                 else do {
                   fs15 \<leftarrow> add_pending (fn_extents old) (flush_db fs14);
                   Some (0, fs15\<lparr>fs_txn := txn_new\<lparr>tx_uuid := sp_uuid (fs_super fs15), tx_seq := fs_seq_live fs15\<rparr>, fs_compacting := False\<rparr>) } } } })"

definition maybe_compact_log :: "bluefs \<Rightarrow> bluefs option" where
  "maybe_compact_log fs =
     (let (go, fs1) = should_compact fs in if \<not> go then Some fs1 else map_option snd (compact_log fs1))"

definition sync_metadata :: "bool \<Rightarrow> bluefs \<Rightarrow> (int \<times> bluefs) option" where
  "sync_metadata avoid_compact fs = do {
     (r, fs1) \<leftarrow> flush_and_sync_log 0 fs;
     if r < 0 then Some (r, fs1)
     else
       let (l, fs2) = get_file 1 fs1;
           (r, fs3) = write_super BDEV_DB (fs2\<lparr>fs_super := (fs_super fs2)\<lparr>sp_log_fnode := node_at fs2 l\<rparr>\<rparr>)
       in if r < 0 then Some (r, fs3)
          else if avoid_compact then Some (0, flush_db fs3)
          else map_option (Pair 0) (maybe_compact_log (flush_db fs3)) }"

definition umount :: "bool \<Rightarrow> bluefs \<Rightarrow> bluefs option" where
  "umount avoid_compact fs0 = do {
     fs1 \<leftarrow>
       (if fs_writer fs0 = None then Some fs0
        else do {
          (r, a) \<leftarrow> flush_and_sync_log 0 fs0;
          let b = (case fs_writer a of None \<Rightarrow> a | Some w \<Rightarrow> let (w1, x) = flush_bdev w a in x\<lparr>fs_writer := Some w1\<rparr>);
          c \<leftarrow> (if avoid_compact then Some b else maybe_compact_log b);
          let (l, d) = get_file 1 c;
          let (r, e) = write_super BDEV_DB (d\<lparr>fs_super := (fs_super d)\<lparr>sp_log_fnode := node_at d l\<rparr>\<rparr>);
          Some (case fs_writer e of None \<Rightarrow> e | Some w \<Rightarrow> (drop_writer w e)\<lparr>fs_writer := None\<rparr>) });
     let fs2 = stop_alloc (fs1\<lparr>fs_vsel := None\<rparr>);
     Some (fs2\<lparr>fs_files := [], fs_dirs := [], fs_dirty := [], fs_stable := 0, fs_dirty_live := 1, fs_txn := txn_new,
               fs_super := super_new, fs_seq_live := 1\<rparr>) }"

section \<open>Reading\<close>

definition clip_len :: "bool \<Rightarrow> u64 \<Rightarrow> u64 \<Rightarrow> u64 \<Rightarrow> u64" where
  "clip_len ignore_eof off len sz =
     (if \<not> ignore_eof \<and> add64 off len > sz then if off > sz then 0 else sz - off else len)"

definition read_buffered :: "fileref \<Rightarrow> bluefs \<Rightarrow> bool" where
  "read_buffered r fs = (if fn_ino (node_at fs r) = 1 then False else cfg_buffered_io (fs_cfg fs))"

definition block_floor :: "u64 \<Rightarrow> bluefs \<Rightarrow> u64" where
  "block_floor off fs = off AND (UINT64_MAX XOR sub64 (sp_block_size (fs_super fs)) 1)"

text \<open>The loop of \<open>_read\<close>: the code (the number of bytes, or an error) and the bytes copied out.\<close>

partial_function (option) read_loop :: "breader \<Rightarrow> u64 \<Rightarrow> u64 \<Rightarrow> bytes \<Rightarrow> bluefs \<Rightarrow> (int \<times> bytes \<times> breader \<times> bluefs) option" where
  "read_loop h off len out fs =
     (if len = 0 then Some (int (length out), out, h, fs)
      else if off < br_bl_off h \<or> off \<ge> add64 (br_bl_off h) (length (br_bl h)) then
        let bl_off = block_floor off fs; h1 = h\<lparr>br_bl := [], br_bl_off := bl_off\<rparr>; node = node_at fs (br_file h)
        in case seek bl_off node of
             None \<Rightarrow> Some (int (length out), out, h1, fs)
           | Some (i, x_off) \<Rightarrow>
               let e = fn_extents node ! i; bs = sp_block_size (fs_super fs);
                   want = max (p2roundup (add64 len (sub64 off bl_off)) bs) (br_max_prefetch h);
                   l0 = min (min (sub64 (bx_length e) x_off) want) (2 ^ 30);
                   eof = p2roundup (fn_size node) bs;
                   l = (if \<not> br_ignore_eof h \<and> add64 bl_off l0 > eof then sub64 eof bl_off else l0)
               in case dev_at fs (bx_bdev e) of
                    None \<Rightarrow> None
                  | Some d \<Rightarrow>
                      let (r, b, d1) = kd_read (add64 (bx_offset e) x_off) l (read_buffered (br_file h) fs) d;
                          fs1 = set_dev (bx_bdev e) d1 fs
                      in if r < 0 then Some (r, out, h1, fs1) else read_loop (h1\<lparr>br_bl := b\<rparr>) off len out fs1
      else
        let left = add64 (br_bl_off h) (length (br_bl h)) - off; n = min len left
        in read_loop (h\<lparr>br_pos := add64 (br_pos h) n\<rparr>) (add64 off n) (len - n)
             (out @ take n (drop (off - br_bl_off h) (br_bl h))) fs)"

definition bfs_read :: "breader \<Rightarrow> u64 \<Rightarrow> u64 \<Rightarrow> bluefs \<Rightarrow> (int \<times> bytes \<times> breader \<times> bluefs) option" where
  "bfs_read h off len fs = read_loop h off (clip_len (br_ignore_eof h) off len (fn_size (node_at fs (br_file h)))) [] fs"

text \<open>
  The loop of \<open>_read_random\<close>. \<open>buf\<close> is the rest of the caller's buffer, in which a read that is cut short leaves the bytes
  it did not reach.
\<close>

partial_function (option) read_random_loop :: "breader \<Rightarrow> u64 \<Rightarrow> u64 \<Rightarrow> u64 \<Rightarrow> bytes \<Rightarrow> bytes \<Rightarrow> bluefs \<Rightarrow> (int \<times> bytes \<times> bluefs) option" where
  "read_random_loop h off len ret out buf fs =
     (if len = 0 then Some (to_i64 ret, out, fs)
      else
        let node = node_at fs (br_file h)
        in case seek off node of
             None \<Rightarrow> Some (to_i64 ret, out, fs)
           | Some (i, x_off) \<Rightarrow>
               let e = fn_extents node ! i; l = min (min (sub64 (bx_length e) x_off) len) (2 ^ 30)
               in case dev_at fs (bx_bdev e) of
                    None \<Rightarrow> None
                  | Some d \<Rightarrow>
                      let (r, b, d1) = kd_read_random (add64 (bx_offset e) x_off) l (read_buffered (br_file h) fs) d;
                          fs1 = set_dev (bx_bdev e) d1 fs
                      in if r < 0 then Some (r, out, fs1)
                         else read_random_loop h (add64 off l) (len - l) (add64 ret l) (out @ b @ take (l - length b) (drop (length b) buf)) (drop l buf) fs1)"

definition bfs_read_random :: "breader \<Rightarrow> u64 \<Rightarrow> u64 \<Rightarrow> bytes \<Rightarrow> bluefs \<Rightarrow> (int \<times> bytes \<times> bluefs) option" where
  "bfs_read_random h off len buf fs =
     read_random_loop h off (clip_len (br_ignore_eof h) off len (fn_size (node_at fs (br_file h)))) 0 [] buf fs"

end
