(* ===== verification/Bluefs_Log.thy ===== *)
theory Bluefs_Log
  imports Bluefs
begin

text \<open>
  What the log of BlueFS means: replaying the operations that the metadata calls append to the transaction takes a file
  system with the logged state to one with the new state. The state is seen through the directories, as maps from names
  to inode numbers, and through the file nodes, as far as they are logged.
\<close>

section \<open>Replaying lists of operations\<close>

fun run_ops :: "fileref \<Rightarrow> bop list \<Rightarrow> u64 \<Rightarrow> bluefs \<Rightarrow> replayed option" where
  "run_ops l [] seq fs = Some (Ops_done seq fs)"
| "run_ops l (x # xs) seq fs = do {
     res \<leftarrow> replay_op (log_size l fs) x seq fs;
     case res of Ops_done seq1 fs1 \<Rightarrow> run_ops l xs seq1 fs1 | other \<Rightarrow> Some other }"

lemma replay_ops_enc:
  "\<forall>x \<in> set xs. op_ok x \<Longrightarrow> replay_ops l (concat (map enc_op xs)) seq fs = run_ops l (map op_read xs) seq fs"
proof (induction xs arbitrary: seq fs)
  case (Cons x xs)
  have "enc_op x @ concat (map enc_op xs) \<noteq> []" using enc_op_nonempty by simp
  then show ?case
    using Cons dec_enc_op [of x "concat (map enc_op xs)"]
    by (subst replay_ops.simps) (auto split: replayed.splits intro!: Option.bind_cong)
qed (simp add: replay_ops.simps)

lemma run_ops_append:
  "run_ops l xs seq fs = Some (Ops_done seq1 fs1) \<Longrightarrow> run_ops l (xs @ ys) seq fs = run_ops l ys seq1 fs1"
proof (induction xs arbitrary: seq fs)
  case (Cons x xs)
  obtain seq0 fs0 where "replay_op (log_size l fs) x seq fs = Some (Ops_done seq0 fs0)" "run_ops l xs seq0 fs0 = Some (Ops_done seq1 fs1)"
    using Cons.prems by (cases "replay_op (log_size l fs) x seq fs") (auto split: replayed.split_asm)
  then show ?case using Cons.IH [of seq0 fs0] by simp
qed simp

section \<open>Views\<close>

lemma map_of_om_put [simp]: "map_of (om_put k v m) = (map_of m)(k \<mapsto> v)"
  by (induction k v m rule: om_put.induct) (auto simp: fun_upd_twist)

lemma file_at_upd [simp]:
  "file_at (upd_file r g fs) x = (if x = r \<and> r < length (fs_heap fs) then g (file_at fs r) else file_at fs x)"
  by (auto simp: file_at_def upd_file_def list_update_beyond)

lemma node_at_upd [simp]:
  "node_at (upd_node r g fs) x = (if x = r \<and> r < length (fs_heap fs) then g (node_at fs r) else node_at fs x)"
  by (simp add: node_at_def upd_node_def)

lemma node_at_upd_file: "node_at (upd_file r g fs) x = (if x = r \<and> r < length (fs_heap fs) then bf_fnode (g (file_at fs r)) else node_at fs x)"
  by (simp add: node_at_def)

lemma refs_upd_node [simp]: "bf_refs (file_at (upd_node r g fs) x) = bf_refs (file_at fs x)"
  by (simp add: upd_node_def)

lemma upd_frame [simp]:
  "fs_dirs (upd_file r g fs) = fs_dirs fs" "fs_files (upd_file r g fs) = fs_files fs" "fs_vsel (upd_file r g fs) = fs_vsel fs"
  "fs_txn (upd_file r g fs) = fs_txn fs" "fs_ino_last (upd_file r g fs) = fs_ino_last fs" "length (fs_heap (upd_file r g fs)) = length (fs_heap fs)"
  "fs_dirs (upd_node r h fs) = fs_dirs fs" "fs_files (upd_node r h fs) = fs_files fs" "fs_vsel (upd_node r h fs) = fs_vsel fs"
  "fs_txn (upd_node r h fs) = fs_txn fs" "fs_ino_last (upd_node r h fs) = fs_ino_last fs" "length (fs_heap (upd_node r h fs)) = length (fs_heap fs)"
  by (simp_all add: upd_file_def upd_node_def)

definition plain :: "bluefs \<Rightarrow> bool" where
  "plain fs \<longleftrightarrow> (\<exists>a b c. fs_vsel fs = Some (Original a b c))"

lemma each_same: "(\<And>x. x \<in> set xs \<Longrightarrow> f x s = Some s) \<Longrightarrow> each f xs s = Some s"
  by (induction xs) auto

lemma usage_original: "add_usage h n (Original a b c) = Some (Original a b c)" "sub_usage h n (Original a b c) = Some (Original a b c)"
  by (simp_all add: add_usage_def sub_usage_def add_usage_size_def sub_usage_size_def each_same add_usage_ext_def sub_usage_ext_def)

lemma vsel_original [simp]: "plain fs \<Longrightarrow> on_vsel (add_usage h n) fs = Some fs" "plain fs \<Longrightarrow> on_vsel (sub_usage h n) fs = Some fs"
  by (auto simp: plain_def on_vsel_def usage_original)

text \<open>Directories and names, as far as they can be seen from outside: which there are, and what a name means.\<close>

definition dirset :: "bluefs \<Rightarrow> bytes set" where
  "dirset fs = dom (map_of (fs_dirs fs))"

definition lview :: "bluefs \<Rightarrow> bytes \<Rightarrow> bytes \<Rightarrow> u64 option" where
  "lview fs d n = map_option (\<lambda>f. fn_ino (node_at fs f)) (lookup d n fs)"

definition fs_ok :: "bluefs \<Rightarrow> bool" where
  "fs_ok fs \<longleftrightarrow>
     (\<forall>i f. map_of (fs_files fs) i = Some f \<longrightarrow> f < length (fs_heap fs) \<and> fn_ino (node_at fs f) = i) \<and>
     (\<forall>d n f. lookup d n fs = Some f \<longrightarrow> map_of (fs_files fs) (fn_ino (node_at fs f)) = Some f \<and> bf_refs (file_at fs f) = 1) \<and>
     (\<forall>d n d' n' f. lookup d n fs = Some f \<longrightarrow> lookup d' n' fs = Some f \<longrightarrow> d = d' \<and> n = n') \<and> plain fs"

lemma fs_okD:
  assumes "fs_ok fs"
  shows "map_of (fs_files fs) i = Some f \<Longrightarrow> f < length (fs_heap fs)" and "map_of (fs_files fs) i = Some f \<Longrightarrow> fn_ino (node_at fs f) = i"
    and "lookup d n fs = Some f \<Longrightarrow> map_of (fs_files fs) (fn_ino (node_at fs f)) = Some f" and "lookup d n fs = Some f \<Longrightarrow> bf_refs (file_at fs f) = 1"
    and "lookup d n fs = Some f \<Longrightarrow> lookup d' n' fs = Some f \<Longrightarrow> d = d' \<and> n = n'" and "plain fs"
  using assms by (auto simp: fs_ok_def)

lemma lview_Some:
  assumes "fs_ok fs" and "lview fs d n = Some i"
  obtains f where "lookup d n fs = Some f" "map_of (fs_files fs) i = Some f" "f < length (fs_heap fs)" "fn_ino (node_at fs f) = i" "bf_refs (file_at fs f) = 1"
proof -
  obtain f where f: "lookup d n fs = Some f" "fn_ino (node_at fs f) = i" using assms(2) by (auto simp: lview_def)
  then show thesis using that [of f] fs_okD [OF assms(1)] by metis
qed

text \<open>A change of one node that keeps its number changes no view of the directories.\<close>

lemma upd_node_ok:
  assumes "fs_ok fs" and "\<And>n. fn_ino (g n) = fn_ino n"
  shows "fs_ok (upd_node r g fs)" and "dirset (upd_node r g fs) = dirset fs" and "lview (upd_node r g fs) = lview fs"
proof -
  have n: "fn_ino (node_at (upd_node r g fs) x) = fn_ino (node_at fs x)" for x by (simp add: assms(2))
  have l: "lookup d m (upd_node r g fs) = lookup d m fs" for d m by (simp add: lookup_def)
  show "fs_ok (upd_node r g fs)" using assms(1) by (simp add: fs_ok_def n l plain_def del: node_at_upd)
  show "dirset (upd_node r g fs) = dirset fs" by (simp add: dirset_def)
  show "lview (upd_node r g fs) = lview fs" by (intro ext) (simp add: lview_def n l del: node_at_upd)
qed

section \<open>What the replay of an operation does\<close>

definition nview :: "bluefs \<Rightarrow> u64 \<Rightarrow> fnode option" where
  "nview fs i = map_option (node_at fs) (map_of (fs_files fs) i)"

lemma lookup_put [simp]: "lookup x y (fs\<lparr>fs_dirs := om_put d m (fs_dirs fs)\<rparr>) = (if x = d then map_of m y else lookup x y fs)"
  by (simp add: lookup_def)

lemma lookup_delete [simp]: "lookup x y (fs\<lparr>fs_dirs := AList.delete d (fs_dirs fs)\<rparr>) = (if x = d then None else lookup x y fs)"
  by (simp add: lookup_def map_of_delete)

lemma lookup_upd [simp]: "lookup x y (upd_file r g fs) = lookup x y fs" "lookup x y (upd_node r h fs) = lookup x y fs"
  by (simp_all add: lookup_def)

lemma lookup_dirs: "fs_dirs fs = fs_dirs fs' \<Longrightarrow> lookup x y fs = lookup x y fs'"
  by (simp add: lookup_def)

lemma raise_ino_frame [simp]:
  "fs_dirs (raise_ino i fs) = fs_dirs fs" "fs_files (raise_ino i fs) = fs_files fs" "fs_heap (raise_ino i fs) = fs_heap fs"
  "fs_vsel (raise_ino i fs) = fs_vsel fs"
  by (simp_all add: raise_ino_def)

lemma at_heap: "fs_heap fs = fs_heap fs' \<Longrightarrow> file_at fs = file_at fs' \<and> node_at fs = node_at fs'"
  by (simp add: file_at_def node_at_def fun_eq_iff)

lemma raise_ino_views [simp]: "file_at (raise_ino i fs) = file_at fs" "node_at (raise_ino i fs) = node_at fs" "lookup x y (raise_ino i fs) = lookup x y fs"
  using at_heap [of "raise_ino i fs" fs] lookup_dirs [of "raise_ino i fs" fs] by simp_all

text \<open>All that \<open>fs_ok\<close> and the views depend on.\<close>

lemma same_views:
  assumes "fs_dirs fs' = fs_dirs fs" and "fs_files fs' = fs_files fs" and "fs_heap fs' = fs_heap fs" and "fs_vsel fs' = fs_vsel fs"
  shows "fs_ok fs' = fs_ok fs" and "dirset fs' = dirset fs" and "lview fs' = lview fs" and "nview fs' = nview fs"
proof -
  have h: "file_at fs' = file_at fs" "node_at fs' = node_at fs" using at_heap [OF assms(3)] by simp_all
  have l: "lookup x y fs' = lookup x y fs" for x y by (rule lookup_dirs) (rule assms(1))
  show "fs_ok fs' = fs_ok fs" "dirset fs' = dirset fs" "lview fs' = lview fs" "nview fs' = nview fs"
    using assms by (simp_all add: fs_ok_def plain_def dirset_def lview_def [abs_def] nview_def [abs_def] h l)
qed

lemma plain_upd [simp]: "plain (upd_file r g fs) = plain fs" "plain (upd_node r h fs) = plain fs" "plain (raise_ino i fs) = plain fs"
  by (simp_all add: plain_def)

lemma replay_node_plain: "plain fs \<Longrightarrow> replay_node i f g fs = Some (raise_ino i (upd_node f g fs))"
  by (simp add: replay_node_def Let_def)

lemma replay_known:
  assumes "fs_ok r" and "nview r i = Some x" and "fn_ino (g x) = i"
  shows "\<exists>f r'. get_file i r = (f, r) \<and> node_at r f = x \<and> replay_node i f g r = Some r' \<and> fs_ok r' \<and> dirset r' = dirset r \<and>
    lview r' = lview r \<and> nview r' = (nview r)(i \<mapsto> g x)"
proof -
  obtain f where f: "map_of (fs_files r) i = Some f" "node_at r f = x" using assms(2) by (auto simp: nview_def)
  note ok = fs_okD [OF assms(1)]
  have ino: "fn_ino x = i" "f < length (fs_heap r)" using ok(1,2) [OF f(1)] f(2) by auto
  define r' where "r' = raise_ino i (upd_node f g r)"
  have n: "fn_ino (node_at r' y) = fn_ino (node_at r y)" for y using ino f(2) assms(3) by (simp add: r'_def)
  have l: "lookup x y r' = lookup x y r" for x y by (simp add: r'_def)
  have "fs_ok r'" using assms(1) unfolding fs_ok_def n l by (simp add: r'_def)
  moreover have "lview r' = lview r" by (simp add: lview_def [abs_def] n l)
  moreover have "nview r' = (nview r)(i \<mapsto> g x)"
  proof
    fix j
    show "nview r' j = ((nview r)(i \<mapsto> g x)) j"
    proof (cases "j = i")
      case False
      then have "map_of (fs_files r) j \<noteq> Some f" using ok(2) [of j f] f ino by auto
      then show ?thesis using False by (cases "map_of (fs_files r) j") (auto simp: nview_def r'_def)
    qed (use f ino in \<open>simp add: nview_def r'_def\<close>)
  qed
  moreover have "dirset r' = dirset r" by (simp add: dirset_def r'_def)
  moreover have "get_file i r = (f, r)" using f by (simp add: get_file_def)
  ultimately show ?thesis using f replay_node_plain [OF ok(6), of i f g] unfolding r'_def [symmetric] by blast
qed

lemma replay_update_known:
  assumes "fs_ok r" and "nview r (fn_ino n) = Some x"
  shows "\<exists>r'. replay_update n r = Some r' \<and> fs_ok r' \<and> dirset r' = dirset r \<and> lview r' = lview r \<and> nview r' = (nview r)(fn_ino n \<mapsto> n)"
  using replay_known [OF assms, of "\<lambda>x. n"] by (auto simp: replay_update_def)

lemma claim_extents_ino: "fn_ino (claim_extents es f) = fn_ino f"
  unfolding claim_extents_def by (induction es arbitrary: f) (simp_all add: append_extent_frame)

lemma replay_inc_known:
  assumes "fs_ok r" and "nview r (fd_ino d) = Some x" and "fd_offset d = fn_allocated x"
  shows "\<exists>r'. replay_update_inc d r = Some r' \<and> fs_ok r' \<and> dirset r' = dirset r \<and> lview r' = lview r \<and>
    nview r' = (nview r)(fd_ino d \<mapsto> claim_extents (fd_extents d) (x\<lparr>fn_mtime := fd_mtime d, fn_size := fd_size d\<rparr>))"
proof -
  have "fn_ino x = fd_ino d" using assms(1,2) fs_okD(2) [OF assms(1)] by (auto simp: nview_def)
  then show ?thesis
    using replay_known [OF assms(1,2), of "\<lambda>x. claim_extents (fd_extents d) (x\<lparr>fn_mtime := fd_mtime d, fn_size := fd_size d\<rparr>)"]
    by (auto simp: replay_update_inc_def assms(3) claim_extents_ino)
qed

lemma replay_mkdir:
  assumes "fs_ok r" and "d \<notin> dirset r"
  shows "\<exists>r'. replay_op sz (Op_dir_create d) seq r = Some (Ops_done seq r') \<and> fs_ok r' \<and> dirset r' = insert d (dirset r) \<and>
    lview r' = lview r \<and> nview r' = nview r"
proof -
  define r' where "r' = r\<lparr>fs_dirs := om_put d [] (fs_dirs r)\<rparr>"
  have h: "file_at r' = file_at r" "node_at r' = node_at r" using at_heap [of r' r] by (simp_all add: r'_def)
  have no: "lookup d y r = None" for y using assms(2) by (auto simp: lookup_def dirset_def domIff)
  have l: "lookup x y r' = lookup x y r" for x y unfolding r'_def using no by simp
  have "fs_ok r'" using assms(1) unfolding fs_ok_def l h by (simp add: r'_def plain_def)
  moreover have "dirset r' = insert d (dirset r)" by (simp add: dirset_def r'_def)
  moreover have "lview r' = lview r" "nview r' = nview r" by (simp_all add: lview_def [abs_def] l h nview_def [abs_def]) (simp add: r'_def)
  ultimately show ?thesis unfolding r'_def by simp
qed

lemma replay_rmdir:
  assumes "fs_ok r" and "\<And>n. lview r d n = None"
  shows "\<exists>r'. replay_op sz (Op_dir_remove d) seq r = Some (Ops_done seq r') \<and> fs_ok r' \<and> dirset r' = dirset r - {d} \<and>
    lview r' = lview r \<and> nview r' = nview r"
proof -
  define r' where "r' = r\<lparr>fs_dirs := AList.delete d (fs_dirs r)\<rparr>"
  have h: "file_at r' = file_at r" "node_at r' = node_at r" using at_heap [of r' r] by (simp_all add: r'_def)
  have no: "lookup d y r = None" for y using assms(2) [of y] by (simp add: lview_def)
  have l: "lookup x y r' = lookup x y r" for x y unfolding r'_def using no by simp
  have "fs_ok r'" using assms(1) unfolding fs_ok_def l h by (simp add: r'_def plain_def)
  moreover have "dirset r' = dirset r - {d}" by (auto simp: dirset_def r'_def map_of_delete)
  moreover have "lview r' = lview r" "nview r' = nview r" by (simp_all add: lview_def [abs_def] l h nview_def [abs_def]) (simp add: r'_def)
  ultimately show ?thesis unfolding r'_def by simp
qed

text \<open>A change of the links alone: the new meaning of the names, and the new reference counts.\<close>

definition relinked :: "bluefs \<Rightarrow> bluefs \<Rightarrow> (bytes \<Rightarrow> bytes \<Rightarrow> fileref option) \<Rightarrow> (fileref \<Rightarrow> int) \<Rightarrow> bool" where
  "relinked r r' lk rf \<longleftrightarrow> fs_files r' = fs_files r \<and> node_at r' = node_at r \<and> length (fs_heap r') = length (fs_heap r) \<and> dirset r' = dirset r \<and>
     plain r' \<and> (\<forall>x y. lookup x y r' = lk x y) \<and> (\<forall>f. bf_refs (file_at r' f) = rf f)"

definition put2 :: "bytes \<Rightarrow> bytes \<Rightarrow> 'a option \<Rightarrow> (bytes \<Rightarrow> bytes \<Rightarrow> 'a option) \<Rightarrow> bytes \<Rightarrow> bytes \<Rightarrow> 'a option" where
  "put2 d n v lk = lk(d := (lk d)(n := v))"

lemma put2_apply: "put2 d n v lk x y = (if x = d \<and> y = n then v else lk x y)"
  by (simp add: put2_def)

definition lk_of :: "bluefs \<Rightarrow> bytes \<Rightarrow> bytes \<Rightarrow> fileref option" where
  "lk_of r x y = lookup x y r"

definition refs_of :: "bluefs \<Rightarrow> fileref \<Rightarrow> int" where
  "refs_of r f = bf_refs (file_at r f)"

lemma node_at_refs [simp]: "node_at (upd_file f (\<lambda>x. x\<lparr>bf_refs := h x\<rparr>) fs) = node_at fs" "node_at (upd_file f (\<lambda>x. x\<lparr>bf_hint := k x\<rparr>) fs) = node_at fs"
  by (simp_all add: node_at_def fun_eq_iff)

lemma dirs_frame [simp]: "file_at (fs\<lparr>fs_dirs := x\<rparr>) = file_at fs" "node_at (fs\<lparr>fs_dirs := x\<rparr>) = node_at fs" "plain (fs\<lparr>fs_dirs := x\<rparr>) = plain fs"
  by (simp_all add: file_at_def node_at_def fun_eq_iff plain_def)

lemma replay_link_known:
  assumes "plain r" and "map_of (fs_files r) i = Some f" and "f < length (fs_heap r)" and "d \<in> dirset r"
  shows "\<exists>r'. replay_link d n i r = Some r' \<and> relinked r r' (put2 d n (Some f) (lk_of r)) ((refs_of r)(f := refs_of r f + 1))"
proof -
  obtain m where m: "map_of (fs_dirs r) d = Some m" using assms(4) by (auto simp: dirset_def)
  obtain v where v: "fs_vsel r = Some v" using assms(1) by (auto simp: plain_def)
  define r1 where "r1 = upd_file f (\<lambda>x. x\<lparr>bf_hint := get_hint_by_dir d v\<rparr>) r"
  define r' where "r' = raise_ino i (upd_file f (\<lambda>x. x\<lparr>bf_refs := bf_refs x + 1\<rparr>) (r1\<lparr>fs_dirs := om_put d (om_put n f m) (fs_dirs r1)\<rparr>))"
  have "plain r1" using assms(1) by (simp add: r1_def)
  then have run: "replay_link d n i r = Some r'"
    using assms m v by (simp add: replay_link_def get_file_def Let_def r1_def [symmetric]) (simp add: r1_def r'_def)
  have "lookup x y r' = put2 d n (Some f) (lk_of r) x y" for x y
    using m by (auto simp: r'_def r1_def put2_apply lk_of_def) (simp_all add: lookup_def)
  moreover have "bf_refs (file_at r' x) = ((refs_of r)(f := refs_of r f + 1)) x" for x
    using assms(3) by (simp add: r'_def r1_def refs_of_def upd_file_def [of f _ r]) (auto simp: file_at_def)
  moreover have "dirset r' = dirset r" using assms(4) by (auto simp: r'_def r1_def dirset_def)
  ultimately have "relinked r r' (put2 d n (Some f) (lk_of r)) ((refs_of r)(f := refs_of r f + 1))"
    using assms(1) by (simp add: relinked_def) (simp add: r'_def r1_def)
  with run show ?thesis by blast
qed

lemma replay_unlink_known:
  assumes "plain r" and "lookup d n r = Some f" and "f < length (fs_heap r)" and "refs_of r f > 0"
  shows "\<exists>r'. replay_unlink d n r = Some r' \<and> relinked r r' (put2 d n None (lk_of r)) ((refs_of r)(f := refs_of r f - 1))"
proof -
  obtain m where m: "map_of (fs_dirs r) d = Some m" "map_of m n = Some f" using assms(2) by (auto simp: lookup_def Option.bind_eq_Some_conv)
  define r' where "r' = upd_file f (\<lambda>x. x\<lparr>bf_refs := bf_refs x - 1\<rparr>) (r\<lparr>fs_dirs := om_put d (AList.delete n m) (fs_dirs r)\<rparr>)"
  have run: "replay_unlink d n r = Some r'" using m assms(4) by (simp add: replay_unlink_def r'_def refs_of_def)
  have "lookup x y r' = put2 d n None (lk_of r) x y" for x y
    using m by (auto simp: r'_def put2_apply lk_of_def map_of_delete) (simp_all add: lookup_def)
  moreover have "bf_refs (file_at r' x) = ((refs_of r)(f := refs_of r f - 1)) x" for x
    using assms(3) by (simp add: r'_def refs_of_def)
  moreover have "dirset r' = dirset r" using m by (auto simp: r'_def dirset_def)
  ultimately have "relinked r r' (put2 d n None (lk_of r)) ((refs_of r)(f := refs_of r f - 1))"
    using assms(1) by (simp add: relinked_def) (simp add: r'_def)
  with run show ?thesis by blast
qed

lemma relinked_lk: "relinked r r' lk rf \<Longrightarrow> lk_of r' = lk \<and> refs_of r' = rf"
  by (simp add: relinked_def lk_of_def refs_of_def fun_eq_iff)

lemma relinked_trans: "relinked r r1 lk1 rf1 \<Longrightarrow> relinked r1 r2 lk2 rf2 \<Longrightarrow> relinked r r2 lk2 rf2"
  by (simp add: relinked_def)

lemma relinked_ok:
  assumes "fs_ok r" and "relinked r r' lk rf"
    and "\<forall>x y f. lk x y = Some f \<longrightarrow> map_of (fs_files r) (fn_ino (node_at r f)) = Some f \<and> rf f = 1"
    and "\<forall>x y x' y' f. lk x y = Some f \<longrightarrow> lk x' y' = Some f \<longrightarrow> x = x' \<and> y = y'"
  shows "fs_ok r'" and "nview r' = nview r" and "lview r' = (\<lambda>x y. map_option (\<lambda>f. fn_ino (node_at r f)) (lk x y))"
proof -
  note d = assms(2)[unfolded relinked_def]
  show "fs_ok r'" using d fs_okD [OF assms(1)] assms(3,4) unfolding fs_ok_def by metis
  show "nview r' = nview r" "lview r' = (\<lambda>x y. map_option (\<lambda>f. fn_ino (node_at r f)) (lk x y))"
    using d by (simp_all add: nview_def [abs_def] lview_def [abs_def])
qed

text \<open>The three operations of a rename. The unlinking of the target comes first.\<close>

lemma replay_rename:
  assumes ok: "fs_ok r" and src: "lview r od on = Some i" and dst: "nd \<in> dirset r" and ne: "(od, on) \<noteq> (nd, nn)"
  shows "\<exists>r'. run_ops l ((if lview r nd nn = None then [] else [Op_dir_unlink nd nn]) @ [Op_dir_link nd nn i, Op_dir_unlink od on]) seq r = Some (Ops_done seq r') \<and>
    fs_ok r' \<and> dirset r' = dirset r \<and> lview r' = put2 od on None (put2 nd nn (Some i) (lview r)) \<and> nview r' = nview r"
proof -
  obtain f where f: "lookup od on r = Some f" "map_of (fs_files r) i = Some f" "f < length (fs_heap r)" "fn_ino (node_at r f) = i" "bf_refs (file_at r f) = 1"
    using lview_Some [OF ok src] by blast
  note okd = fs_okD [OF ok]
  define lk where "lk = put2 od on None (put2 nd nn (Some f) (lk_of r))"
  have step: "\<exists>r1 rf1. run_ops l (if lview r nd nn = None then [] else [Op_dir_unlink nd nn]) seq r = Some (Ops_done seq r1) \<and>
      relinked r r1 (put2 nd nn None (lk_of r)) rf1 \<and> rf1 f = 1 \<and> (\<forall>x y g. put2 nd nn None (lk_of r) x y = Some g \<longrightarrow> rf1 g = 1)"
  proof (cases "lookup nd nn r")
    case None
    then have "put2 nd nn None (lk_of r) = lk_of r" by (simp add: put2_def lk_of_def fun_eq_iff)
    then show ?thesis using None okd f(5) by (intro exI [of _ r] exI [of _ "refs_of r"]) (simp add: lview_def relinked_def lk_of_def refs_of_def)
  next
    case (Some g)
    have g: "g < length (fs_heap r)" "refs_of r g = 1" using okd(1) [OF okd(3) [OF Some]] okd(4) [OF Some] by (simp_all add: refs_of_def)
    have gf: "g \<noteq> f" using okd(5) [OF f(1)] Some ne by auto
    obtain r1 where r1: "replay_unlink nd nn r = Some r1" "relinked r r1 (put2 nd nn None (lk_of r)) ((refs_of r)(g := refs_of r g - 1))"
      using replay_unlink_known [OF okd(6) Some g(1)] g(2) by auto
    have "h \<noteq> g" if "put2 nd nn None (lk_of r) x y = Some h" for x y h
      using that okd(5) [OF Some] by (auto simp: put2_apply lk_of_def split: if_splits)
    moreover have "refs_of r h = 1" if "put2 nd nn None (lk_of r) x y = Some h" for x y h
      using that okd(4) by (auto simp: put2_apply lk_of_def refs_of_def split: if_splits)
    ultimately show ?thesis using r1 Some gf f(5)
      by (intro exI [of _ r1] exI [of _ "(refs_of r)(g := refs_of r g - 1)"]) (auto simp: lview_def refs_of_def)
  qed
  then obtain r1 rf1 where r1: "run_ops l (if lview r nd nn = None then [] else [Op_dir_unlink nd nn]) seq r = Some (Ops_done seq r1)"
    "relinked r r1 (put2 nd nn None (lk_of r)) rf1" "rf1 f = 1" "\<And>x y g. put2 nd nn None (lk_of r) x y = Some g \<Longrightarrow> rf1 g = 1" by blast
  note d1 = r1(2)[unfolded relinked_def] and k1 = relinked_lk [OF r1(2)]
  have p1: "plain r1" "map_of (fs_files r1) i = Some f" "f < length (fs_heap r1)" "nd \<in> dirset r1" using d1 f dst by auto
  obtain r2 where r2: "replay_link nd nn i r1 = Some r2" "relinked r1 r2 (put2 nd nn (Some f) (lk_of r1)) ((refs_of r1)(f := refs_of r1 f + 1))"
    using replay_link_known [OF p1, of nn] by blast
  note d2 = r2(2)[unfolded relinked_def] and k2 = relinked_lk [OF r2(2)]
  have l2: "put2 nd nn (Some f) (lk_of r1) = put2 nd nn (Some f) (lk_of r)" using k1 by (simp add: put2_def fun_eq_iff)
  have p2: "plain r2" "lookup od on r2 = Some f" "f < length (fs_heap r2)" "refs_of r2 f > 0"
    using d2 k2 l2 f(1,3) ne r1(3) d1 k1 by (auto simp: put2_apply lk_of_def)
  obtain r3 where r3: "replay_unlink od on r2 = Some r3" "relinked r2 r3 (put2 od on None (lk_of r2)) ((refs_of r2)(f := refs_of r2 f - 1))"
    using replay_unlink_known [OF p2] by blast
  have rel: "relinked r r3 lk rf1"
    using relinked_trans [OF relinked_trans [OF r1(2) r2(2)] r3(2)] k1 k2 l2 by (simp add: lk_def)
  have lkD: "h = f \<or> put2 nd nn None (lk_of r) x y = Some h \<and> lookup x y r = Some h" if "lk x y = Some h" for x y h
    using that by (auto simp: lk_def put2_apply lk_of_def split: if_splits)
  have ok3: "\<forall>x y h. lk x y = Some h \<longrightarrow> map_of (fs_files r) (fn_ino (node_at r h)) = Some h \<and> rf1 h = 1"
    using lkD r1(3,4) okd(3) f(1) by blast
  have inj: "\<forall>x y x' y' h. lk x y = Some h \<longrightarrow> lk x' y' = Some h \<longrightarrow> x = x' \<and> y = y'"
    using okd(5) [OF f(1)] okd(5) by (auto simp: lk_def put2_apply lk_of_def split: if_splits)
  note R = relinked_ok [OF ok rel ok3 inj]
  have "lview r3 x y = put2 od on None (put2 nd nn (Some i) (lview r)) x y" for x y
    using fun_cong [OF fun_cong [OF R(3), of x], of y] f(4) by (simp add: lk_def put2_apply lk_of_def lview_def)
  then have "lview r3 = put2 od on None (put2 nd nn (Some i) (lview r))" by (intro ext) simp
  moreover have "dirset r3 = dirset r" using rel by (simp add: relinked_def)
  ultimately show ?thesis using R(1,2) run_ops_append [OF r1(1)] r2(1) r3(1) by simp
qed

text \<open>A file that no name leads to comes and goes.\<close>

lemma add_file_ok:
  assumes "fs_ok fs" and "nview fs i = None" and "fn_ino (bf_fnode file) = i"
    and "fs' = fs\<lparr>fs_heap := fs_heap fs @ [file], fs_files := AList.update i (length (fs_heap fs)) (fs_files fs)\<rparr>"
  shows "fs_ok fs'" and "dirset fs' = dirset fs" and "lview fs' = lview fs" and "nview fs' = (nview fs)(i \<mapsto> bf_fnode file)"
    and "\<And>x y. lookup x y fs' = lookup x y fs" and "lookup x y fs = Some f \<Longrightarrow> f < length (fs_heap fs)"
proof -
  note ok = fs_okD [OF assms(1)]
  have new: "file_at fs' (length (fs_heap fs)) = file" by (simp add: assms(4) file_at_def)
  have old: "file_at fs' f = file_at fs f" if "f < length (fs_heap fs)" for f using that by (simp add: assms(4) file_at_def nth_append)
  have lk: "f < length (fs_heap fs)" if "lookup x y fs = Some f" for x y f using ok(1) [OF ok(3) [OF that]] .
  then show "lookup x y fs = Some f \<Longrightarrow> f < length (fs_heap fs)" by blast
  show l: "lookup x y fs' = lookup x y fs" for x y by (simp add: assms(4) lookup_def)
  have files: "map_of (fs_files fs') = (map_of (fs_files fs))(i \<mapsto> length (fs_heap fs))" by (simp add: assms(4) map_of_update)
  have no: "map_of (fs_files fs) i = None" using assms(2) by (simp add: nview_def)
  have nold: "node_at fs' f = node_at fs f" if "f < length (fs_heap fs)" for f using old [OF that] by (simp add: node_at_def)
  have A: "f < length (fs_heap fs') \<and> fn_ino (node_at fs' f) = j" if "map_of (fs_files fs') j = Some f" for j f
  proof (cases "j = i")
    case True
    then show ?thesis using that new assms(3) by (simp add: files node_at_def) (simp add: assms(4))
  next
    case False
    then have "map_of (fs_files fs) j = Some f" using that by (simp add: files)
    then show ?thesis using ok(1,2) nold by (auto simp: assms(4) less_SucI)
  qed
  have B: "map_of (fs_files fs') (fn_ino (node_at fs' f)) = Some f \<and> bf_refs (file_at fs' f) = 1" if "lookup x y fs' = Some f" for x y f
  proof -
    have f: "lookup x y fs = Some f" "f < length (fs_heap fs)" using that l lk by auto
    have "fn_ino (node_at fs f) \<noteq> i" using ok(3) [OF f(1)] no by auto
    then show ?thesis using ok(3,4) [OF f(1)] nold [OF f(2)] old [OF f(2)] by (simp add: files)
  qed
  have "plain fs'" using ok(6) by (simp add: assms(4) plain_def)
  then show "fs_ok fs'" using A B ok(5) l unfolding fs_ok_def by metis
  show "dirset fs' = dirset fs" by (simp add: assms(4) dirset_def)
  show "lview fs' = lview fs"
  proof (intro ext)
    fix x y
    show "lview fs' x y = lview fs x y" using lk [of x y] nold by (cases "lookup x y fs") (auto simp: lview_def l)
  qed
  show "nview fs' = (nview fs)(i \<mapsto> bf_fnode file)"
  proof
    fix j
    show "nview fs' j = ((nview fs)(i \<mapsto> bf_fnode file)) j"
    proof (cases "map_of (fs_files fs) j")
      case (Some f)
      then show ?thesis using no nold [OF ok(1) [OF Some]] by (auto simp: nview_def files)
    qed (use new in \<open>auto simp: nview_def files node_at_def\<close>)
  qed
qed

lemma drop_file_ok:
  assumes "fs_ok fs" and "\<And>x y. lview fs x y \<noteq> Some i" and "fs' = fs\<lparr>fs_files := AList.delete i (fs_files fs)\<rparr>"
  shows "fs_ok fs'" and "dirset fs' = dirset fs" and "lview fs' = lview fs" and "nview fs' = (nview fs)(i := None)"
proof -
  note ok = fs_okD [OF assms(1)]
  have h: "file_at fs' = file_at fs" "node_at fs' = node_at fs" using at_heap [of fs' fs] by (simp_all add: assms(3))
  have l: "lookup x y fs' = lookup x y fs" for x y by (rule lookup_dirs) (simp add: assms(3))
  have ne: "fn_ino (node_at fs f) \<noteq> i" if "lookup x y fs = Some f" for x y f using assms(2) [of x y] that by (auto simp: lview_def)
  have files: "map_of (fs_files fs') = (map_of (fs_files fs))(i := None)" by (simp add: assms(3) map_of_delete)
  have A: "f < length (fs_heap fs') \<and> fn_ino (node_at fs' f) = j" if "map_of (fs_files fs') j = Some f" for j f
  proof -
    have "map_of (fs_files fs) j = Some f" using that by (simp add: files split: if_splits)
    then show ?thesis using ok(1,2) by (simp add: h) (simp add: assms(3))
  qed
  have B: "map_of (fs_files fs') (fn_ino (node_at fs' f)) = Some f \<and> bf_refs (file_at fs' f) = 1" if "lookup x y fs' = Some f" for x y f
    using that ok(3,4) [of x y f] ne [of x y f] by (simp add: files h l)
  have "plain fs'" using ok(6) by (simp add: assms(3) plain_def)
  then show "fs_ok fs'" using A B ok(5) l unfolding fs_ok_def by metis
  show "dirset fs' = dirset fs" by (simp add: assms(3) dirset_def)
  show "lview fs' = lview fs" by (simp add: lview_def [abs_def] l h)
  show "nview fs' = (nview fs)(i := None)" by (simp add: nview_def fun_eq_iff files h)
qed

lemma replay_create:
  assumes ok: "fs_ok r" and fresh: "nview r i = None" and "fn_ino nd = i" and d: "d \<in> dirset r" and n: "lview r d n = None"
  shows "\<exists>r'. run_ops l [Op_file_update nd, Op_dir_link d n i] seq r = Some (Ops_done seq r') \<and>
    fs_ok r' \<and> dirset r' = dirset r \<and> lview r' = put2 d n (Some i) (lview r) \<and> nview r' = (nview r)(i \<mapsto> nd)"
proof -
  define f where "f = length (fs_heap r)"
  define r0 where "r0 = r\<lparr>fs_heap := fs_heap r @ [file_new i], fs_files := AList.update i f (fs_files r)\<rparr>"
  define r1 where "r1 = r\<lparr>fs_heap := fs_heap r @ [(file_new i)\<lparr>bf_fnode := nd\<rparr>], fs_files := AList.update i f (fs_files r)\<rparr>"
  have "nview r i = None \<Longrightarrow> map_of (fs_files r) i = None" by (simp add: nview_def)
  then have g: "get_file i r = (f, r0)" using fresh by (simp add: get_file_def new_file_def f_def r0_def)
  have "plain r0" using fs_okD(6) [OF ok] by (simp add: r0_def plain_def)
  moreover have "upd_node f (\<lambda>x. nd) r0 = r1" by (simp add: r0_def r1_def f_def upd_node_def upd_file_def)
  ultimately have upd: "replay_update nd r = Some (raise_ino i r1)" using g assms(3) by (simp add: replay_update_def replay_node_plain)
  note a = add_file_ok [OF ok fresh, of "(file_new i)\<lparr>bf_fnode := nd\<rparr>" r1, folded f_def] 
  have a1: "fs_ok r1" "dirset r1 = dirset r" "lview r1 = lview r" "nview r1 = (nview r)(i \<mapsto> nd)" "\<And>x y. lookup x y r1 = lookup x y r"
    using a assms(3) by (simp_all add: r1_def)
  define r2 where "r2 = raise_ino i r1"
  have v: "fs_ok r2" "dirset r2 = dirset r" "lview r2 = lview r" "nview r2 = (nview r)(i \<mapsto> nd)" "\<And>x y. lookup x y r2 = lookup x y r"
    using a1 same_views [of r2 r1] by (simp_all add: r2_def)
  have lt: "lookup x y r \<noteq> Some f" for x y using fs_okD(1) [OF ok fs_okD(3) [OF ok, of x y f]] by (auto simp: f_def)
  have k: "map_of (fs_files r2) i = Some f" "f < length (fs_heap r2)" "refs_of r2 f = 0" "fn_ino (node_at r2 f) = i"
    using assms(3) by (simp_all add: r2_def r1_def f_def refs_of_def file_at_def node_at_def file_new_def map_of_update)
  obtain r3 where r3: "replay_link d n i r2 = Some r3" "relinked r2 r3 (put2 d n (Some f) (lk_of r2)) ((refs_of r2)(f := refs_of r2 f + 1))"
    using replay_link_known [OF fs_okD(6) [OF v(1)] k(1,2), of d n] d v(2) by auto
  have c1: "\<forall>x y h. put2 d n (Some f) (lk_of r2) x y = Some h \<longrightarrow>
      map_of (fs_files r2) (fn_ino (node_at r2 h)) = Some h \<and> ((refs_of r2)(f := refs_of r2 f + 1)) h = 1"
    using k fs_okD(3,4) [OF v(1)] by (auto simp: put2_apply lk_of_def refs_of_def split: if_splits)
  have c2: "\<forall>x y x' y' h. put2 d n (Some f) (lk_of r2) x y = Some h \<longrightarrow> put2 d n (Some f) (lk_of r2) x' y' = Some h \<longrightarrow> x = x' \<and> y = y'"
    using fs_okD(5) [OF v(1)] lt v(5) by (auto simp: put2_apply lk_of_def split: if_splits)
  note R = relinked_ok [OF v(1) r3(2) c1 c2]
  have "lview r3 x y = put2 d n (Some i) (lview r) x y" for x y
    using fun_cong [OF fun_cong [OF R(3), of x], of y] k(4) fun_cong [OF fun_cong [OF v(3), of x], of y] by (simp add: put2_apply lk_of_def lview_def)
  then have "lview r3 = put2 d n (Some i) (lview r)" by (intro ext) simp
  moreover have "dirset r3 = dirset r" using r3(2) v(2) by (simp add: relinked_def)
  ultimately show ?thesis using R(1,2) v(4) upd r3(1) by (simp add: r2_def)
qed

lemma replay_unlink_remove:
  assumes ok: "fs_ok r" and i: "lview r d n = Some i"
  shows "\<exists>r'. run_ops l [Op_dir_unlink d n, Op_file_remove i] seq r = Some (Ops_done seq r') \<and>
    fs_ok r' \<and> dirset r' = dirset r \<and> lview r' = put2 d n None (lview r) \<and> nview r' = (nview r)(i := None)"
proof -
  obtain f where f: "lookup d n r = Some f" "map_of (fs_files r) i = Some f" "f < length (fs_heap r)" "fn_ino (node_at r f) = i" "bf_refs (file_at r f) = 1"
    using lview_Some [OF ok i] by blast
  note okd = fs_okD [OF ok]
  have "refs_of r f > 0" using f(5) by (simp add: refs_of_def)
  from replay_unlink_known [OF okd(6) f(1,3) this] obtain r1
    where r1: "replay_unlink d n r = Some r1" "relinked r r1 (put2 d n None (lk_of r)) ((refs_of r)(f := refs_of r f - 1))" by blast
  have ne: "h \<noteq> f" if "put2 d n None (lk_of r) x y = Some h" for x y h using that okd(5) [OF f(1)] by (auto simp: put2_apply lk_of_def split: if_splits)
  have c1: "\<forall>x y h. put2 d n None (lk_of r) x y = Some h \<longrightarrow>
      map_of (fs_files r) (fn_ino (node_at r h)) = Some h \<and> ((refs_of r)(f := refs_of r f - 1)) h = 1"
    using ne okd(3,4) by (auto simp: put2_apply lk_of_def refs_of_def split: if_splits)
  have c2: "\<forall>x y x' y' h. put2 d n None (lk_of r) x y = Some h \<longrightarrow> put2 d n None (lk_of r) x' y' = Some h \<longrightarrow> x = x' \<and> y = y'"
    using okd(5) by (auto simp: put2_apply lk_of_def split: if_splits)
  note R = relinked_ok [OF ok r1(2) c1 c2]
  have lv: "lview r1 x y = put2 d n None (lview r) x y" for x y
    using fun_cong [OF fun_cong [OF R(3), of x], of y] by (simp add: put2_apply lk_of_def lview_def)
  have gone: "lview r1 x y \<noteq> Some i" for x y
  proof
    assume "lview r1 x y = Some i"
    then obtain h where h: "put2 d n None (lk_of r) x y = Some h" "fn_ino (node_at r h) = i" using fun_cong [OF fun_cong [OF R(3), of x], of y] by auto
    then show False using c1 f(2) ne [OF h(1)] by auto
  qed
  define r2 where "r2 = r1\<lparr>fs_files := AList.delete i (fs_files r1)\<rparr>"
  note D = drop_file_ok [OF R(1) gone, of r2]
  have "map_of (fs_files r1) i = Some f" "plain r1" using r1(2) f(2) by (simp_all add: relinked_def)
  then have "replay_remove i r1 = Some r2" by (simp add: replay_remove_def r2_def)
  moreover have "lview r1 = put2 d n None (lview r)" by (intro ext) (rule lv)
  moreover have "dirset r1 = dirset r" using r1(2) by (simp add: relinked_def)
  ultimately show ?thesis using r1(1) D R(2) by (simp add: r2_def)
qed

end
