(* ===== verification/Bluefs_Live.thy ===== *)
theory Bluefs_Live
  imports Bluefs_Log
begin

text \<open>
  The calls that change the metadata of a mounted BlueFS, and the log they leave: after every call, the operations
  appended to the transaction take the logged state to the new one.
\<close>

section \<open>Space\<close>

definition allocs_ok :: "bluefs \<Rightarrow> bool" where
  "allocs_ok fs \<longleftrightarrow>
     (\<forall>i a. alloc_at fs i = Some a \<longrightarrow> avl_inv a \<and> isp2 (block_size a) \<and> block_size a < 2 ^ 32) \<and>
     (\<forall>i. dev_at fs i \<noteq> None \<longrightarrow> alloc_at fs i \<noteq> None) \<and>
     length (fs_bdev fs) = 3 \<and> length (fs_alloc fs) = 3 \<and> length (fs_pending fs) = 3 \<and> fs_alloc_size fs = replicate 3 0 \<and>
     isp2 (cfg_alloc_size (fs_cfg fs)) \<and> cfg_alloc_size (fs_cfg fs) < 2 ^ 32"

text \<open>Extents as an allocator gives them.\<close>

definition raw_ext :: "bextent \<Rightarrow> bool" where
  "raw_ext e \<longleftrightarrow> 0 < bx_length e \<and> bx_length e < 2 ^ 32 \<and> bx_offset e + bx_length e < 2 ^ 64 \<and> bx_bdev e < 3"

lemma set_alloc_eq: "set_alloc i a fs = fs\<lparr>fs_alloc := (fs_alloc fs)[i := Some a]\<rparr>"
  by (simp add: set_alloc_def)

lemma allocs_ok_set:
  assumes "allocs_ok fs" and "avl_inv a" and "isp2 (block_size a)" and "block_size a < 2 ^ 32" and "i < 3"
  shows "allocs_ok (fs\<lparr>fs_alloc := (fs_alloc fs)[i := Some a], fs_shared_used := y\<rparr>)"
proof -
  let ?g = "fs\<lparr>fs_alloc := (fs_alloc fs)[i := Some a], fs_shared_used := y\<rparr>"
  have "alloc_at ?g j = (if j = i then Some a else alloc_at fs j)" for j
    using assms(1,5) by (auto simp: alloc_at_def allocs_ok_def)
  then show ?thesis using assms by (auto simp: allocs_ok_def dev_at_def)
qed

lemma allocate_from_ok:
  assumes "isp2 u" and "u < 2 ^ 32" and "0 < need" and "need < 2 ^ 63" and "u dvd need"
  shows "allocs_ok fs \<Longrightarrow> set js \<subseteq> {..<3} \<Longrightarrow>
    \<exists>rc node' x y. allocate_from js need u node None fs = Some (rc, node', None, fs\<lparr>fs_alloc := x, fs_shared_used := y\<rparr>) \<and>
      allocs_ok (fs\<lparr>fs_alloc := x, fs_shared_used := y\<rparr>) \<and>
      (rc < 0 \<and> node' = node \<or>
       rc = 0 \<and> (\<exists>es. node' = claim_extents es node \<and> (\<forall>e \<in> set es. raw_ext e) \<and> total_length es = need))"
proof (induction js arbitrary: fs)
  case Nil
  then show ?case by (intro exI [of _ "- ENOSPC"] exI [of _ node] exI [of _ "fs_alloc fs"] exI [of _ "fs_shared_used fs"]) simp
next
  case (Cons i js)
  have i: "i < 3" and js: "set js \<subseteq> {..<3}" using Cons.prems(2) by auto
  show ?case
  proof (cases "dev_at fs i")
    case None
    then show ?thesis using Cons.IH [OF Cons.prems(1) js] by simp
  next
    case (Some dv)
    then obtain a where a: "alloc_at fs i = Some a" using Cons.prems(1) by (auto simp: allocs_ok_def)
    then have inv: "avl_inv a" "isp2 (block_size a)" "block_size a < 2 ^ 32" using Cons.prems(1) by (auto simp: allocs_ok_def)
    have u64: "u < 2 ^ 64" using assms(2) by simp
    obtain xs b where run: "avl_allocate need u 0 a = Some (if xs = [] then - ENOSPC else int (ext_len xs), xs, b)" and al: "allocated_from u xs a b"
      using avl_allocate_ok [OF inv(1) assms(1) u64 assms(3-5) inv(2,3), of 0] by blast
    have b: "avl_inv b" "isp2 (block_size b)" "block_size b < 2 ^ 32" "device_size b = device_size a"
      using al inv by (auto simp: allocated_from_def avl_same_def)
    have bd: "\<forall>(off, len) \<in> set xs. off + len \<le> device_size a" using allocated_from_bounded [OF inv(1) al] by auto
    define r where "r = (if xs = [] then - ENOSPC else int (ext_len xs))"
    show ?thesis
    proof (cases "r < 0 \<or> nat r < need")
      case True
      have "\<exists>x y. allocate_from (i # js) need u node None fs = allocate_from js need u node None (fs\<lparr>fs_alloc := x, fs_shared_used := y\<rparr>) \<and>
          allocs_ok (fs\<lparr>fs_alloc := x, fs_shared_used := y\<rparr>)"
      proof (cases "0 < r")
        case pos: True
        have "ext_set xs \<inter> avl_free b = {}" using al by (auto simp: allocated_from_def)
        then obtain c where c: "avl_release_vec xs b = Some c" "avl_inv c" "avl_same b c" using avl_release_vec_ok [OF b(1)] bd b(4) by metis
        define y where "y = (if is_shared_alloc i fs then sub64 (fs_shared_used fs) (nat r) else fs_shared_used fs)"
        have "allocate_from (i # js) need u node None fs =
            allocate_from js need u node None (fs\<lparr>fs_alloc := (fs_alloc fs)[i := Some c], fs_shared_used := y\<rparr>)"
          using Some a run True pos c(1) by (simp add: r_def [symmetric] set_alloc_eq y_def Let_def)
        moreover have "allocs_ok (fs\<lparr>fs_alloc := (fs_alloc fs)[i := Some c], fs_shared_used := y\<rparr>)"
          using c b by (intro allocs_ok_set [OF Cons.prems(1) _ _ _ i]) (auto simp: avl_same_def)
        ultimately show ?thesis by blast
      next
        case neg: False
        have "allocate_from (i # js) need u node None fs =
            allocate_from js need u node None (fs\<lparr>fs_alloc := (fs_alloc fs)[i := Some b], fs_shared_used := fs_shared_used fs\<rparr>)"
          using Some a run True neg by (simp add: r_def [symmetric] set_alloc_eq Let_def)
        then show ?thesis using allocs_ok_set [OF Cons.prems(1) b(1-3) i] by blast
      qed
      then obtain x y where xy: "allocate_from (i # js) need u node None fs = allocate_from js need u node None (fs\<lparr>fs_alloc := x, fs_shared_used := y\<rparr>)"
        "allocs_ok (fs\<lparr>fs_alloc := x, fs_shared_used := y\<rparr>)" by blast
      from Cons.IH [OF xy(2) js] show ?thesis unfolding xy(1) by simp
    next
      case False
      have xs: "xs \<noteq> []" "r = int (ext_len xs)" using False assms(3) by (auto simp: r_def)
      have len: "ext_len xs = need"
        using False xs avl_allocate_ok [OF inv(1) assms(1) u64 assms(3-5) inv(2,3), of 0] run by auto
      define es where "es = map (\<lambda>(off, len). \<lparr>bx_offset = off, bx_length = len, bx_bdev = i\<rparr>) xs"
      define y where "y = (if is_shared_alloc i fs then add64 (fs_shared_used fs) (nat r) else fs_shared_used fs)"
      have run2: "allocate_from (i # js) need u node None fs =
          Some (0, claim_extents es node, None, fs\<lparr>fs_alloc := (fs_alloc fs)[i := Some b], fs_shared_used := y\<rparr>)"
        using Some a run False by (simp add: r_def [symmetric] set_alloc_eq es_def y_def Let_def)
      have dv: "device_size a < 2 ^ 63" using inv(1) by (simp add: avl_inv_def)
      have "raw_ext e" if "e \<in> set es" for e
        using that al bd dv i by (force simp: es_def raw_ext_def allocated_from_def)
      moreover have "total_length es = need"
        unfolding len [symmetric] by (simp add: es_def total_length_def ext_len_def comp_def case_prod_unfold)
      ultimately show ?thesis
        using run2 allocs_ok_set [OF Cons.prems(1) b(1-3) i] by blast
    qed
  qed
qed

section \<open>What is logged of a file\<close>

text \<open>A node the log can hold, and the node a replay has of a file, with all extents up to the committed length.\<close>

definition encodable :: "fnode \<Rightarrow> bool" where
  "encodable n \<longleftrightarrow> fn_size n < 2 ^ 63 \<and> fn_mtime n < 2 ^ 32 * 1000000000 \<and> fn_unused n < 2 ^ 8 \<and> length (fn_extents n) < 2 ^ 32 \<and>
     (\<forall>e \<in> set (fn_extents n). bx_length e < 0xffffffff)"

definition logged :: "fnode \<Rightarrow> bfile \<Rightarrow> bool" where
  "logged n f \<longleftrightarrow> fnode_wf n \<and> fn_ino n = fn_ino (bf_fnode f) \<and> fn_mtime n = fn_mtime (bf_fnode f) \<and>
     fn_extents n = cut (fn_committed (bf_fnode f)) (fn_extents (bf_fnode f)) \<and>
     (\<not> bf_is_dirty f \<and> bf_dirty_seq f = 0 \<longrightarrow> fn_size n = fn_size (bf_fnode f))"

lemma logged_same:
  "logged n f \<Longrightarrow> bf_fnode g = bf_fnode f \<Longrightarrow> (\<not> bf_is_dirty g \<and> bf_dirty_seq g = 0 \<Longrightarrow> \<not> bf_is_dirty f \<and> bf_dirty_seq f = 0) \<Longrightarrow> logged n g"
  by (auto simp: logged_def)

lemma reset_delta_simps [simp]: "fn_ino (reset_delta n) = fn_ino n" "fn_extents (reset_delta n) = fn_extents n" "fn_allocated (reset_delta n) = fn_allocated n"
  "fn_committed (reset_delta n) = fn_allocated n" "fn_mtime (reset_delta n) = fn_mtime n" "fn_size (reset_delta n) = fn_size n" "fn_index (reset_delta n) = fn_index n"
  "fnode_wf (reset_delta n) = fnode_wf n" "fn_unused (reset_delta n) = fn_unused n" "encodable (reset_delta n) = encodable n"
  by (simp_all add: reset_delta_def fnode_wf_def encodable_def)

lemma node_ok_reset: "node_ok n \<Longrightarrow> node_ok (reset_delta n)"
  by (simp add: node_ok_def)

lemma logged_update: "node_ok (reset_delta n) \<Longrightarrow> bf_fnode f = reset_delta n \<Longrightarrow> logged (reset_delta n) f"
  using cut_everything [of "reset_delta n"] by (simp add: logged_def node_ok_def)

lemma logged_inc:
  assumes "logged n f" and "node_ok (bf_fnode f)" and "bf_fnode g = reset_delta (bf_fnode f)"
  shows "fd_offset (make_delta (bf_fnode f)) = fn_allocated n"
    and "logged (claim_extents (fd_extents (make_delta (bf_fnode f))) (n\<lparr>fn_mtime := fd_mtime (make_delta (bf_fnode f)), fn_size := fd_size (make_delta (bf_fnode f))\<rparr>)) g"
proof -
  define l where "l = bf_fnode f"
  define m where "m = n\<lparr>fn_mtime := fd_mtime (make_delta l), fn_size := fd_size (make_delta l)\<rparr>"
  have "fnode_wf n" using assms(1) by (simp add: logged_def)
  then have wf: "fnode_wf m" by (simp add: m_def fnode_wf_def)
  have ex: "fn_extents m = cut (fn_committed l) (fn_extents l)" using assms(1) by (simp add: logged_def m_def l_def)
  have ok: "node_ok l" using assms(2) by (simp add: l_def)
  note c = claim_delta [OF ok wf ex]
  show "fd_offset (make_delta (bf_fnode f)) = fn_allocated n" using c(4) by (simp add: m_def l_def [symmetric] make_delta_def)
  have "fn_allocated m + total_length (fd_extents (make_delta l)) < 2 ^ 64"
    using make_delta_rest [OF ok] total_rest [of "fn_extents l" "fn_committed l"] ok c(4)
    by (auto simp: node_ok_def fnode_wf_def exts_ok_iff ext_ok_def)
  note k = claim_extents_ok [OF wf this]
  have "cut (fn_allocated l) (fn_extents l) = fn_extents l" by (rule cut_everything [OF ok])
  then show "logged (claim_extents (fd_extents (make_delta (bf_fnode f))) (n\<lparr>fn_mtime := fd_mtime (make_delta (bf_fnode f)), fn_size := fd_size (make_delta (bf_fnode f))\<rparr>)) g"
    using c(1) k assms(1,3) unfolding l_def [symmetric] m_def [symmetric] by (simp add: logged_def l_def [symmetric]) (simp add: m_def make_delta_def)
qed

lemma push_dominates: "e \<in> set es \<or> e = x \<Longrightarrow> \<exists>y \<in> set (push_ext x es). bx_length e \<le> bx_length y"
proof (cases "es \<noteq> [] \<and> mergeable (List.last es) x")
  case True
  then obtain fs l where l: "es = fs @ [l]" by (metis append_butlast_last_id)
  assume "e \<in> set es \<or> e = x"
  then show ?thesis using True l by (auto simp: push_ext_def)
qed (auto simp: push_ext_def)

lemma fold_push_dominates: "e \<in> set es \<or> e \<in> set fs \<Longrightarrow> \<exists>y \<in> set (fold push_ext fs es). bx_length e \<le> bx_length y"
proof (induction fs arbitrary: es e)
  case (Cons x fs)
  show ?case
  proof (cases "e \<in> set fs")
    case True
    then show ?thesis using Cons.IH [of e "push_ext x es"] by simp
  next
    case False
    then obtain y where y: "y \<in> set (push_ext x es)" "bx_length e \<le> bx_length y" using Cons.prems push_dominates [of e es x] by auto
    then obtain z where "z \<in> set (fold push_ext fs (push_ext x es))" "bx_length y \<le> bx_length z" using Cons.IH [of y "push_ext x es"] by auto
    then show ?thesis using y(2) by (intro bexI [of _ z]) simp_all
  qed
qed auto

lemma push_bdev: "\<forall>e \<in> set es. bx_bdev e < k \<Longrightarrow> bx_bdev x < k \<Longrightarrow> \<forall>e \<in> set (push_ext x es). bx_bdev e < k"
  by (auto simp: push_ext_def dest: in_set_butlastD)

lemma fold_push_bdev: "\<forall>e \<in> set es. bx_bdev e < k \<Longrightarrow> \<forall>e \<in> set fs. bx_bdev e < k \<Longrightarrow> \<forall>e \<in> set (fold push_ext fs es). bx_bdev e < k"
proof (induction fs arbitrary: es)
  case (Cons x fs)
  have "\<forall>e \<in> set (push_ext x es). bx_bdev e < k" using Cons.prems by (intro push_bdev) simp_all
  then show ?case using Cons.IH Cons.prems(2) by simp
qed simp

lemma claim_raw:
  assumes "node_ok n" and "\<forall>e \<in> set es. raw_ext e" and "fn_allocated n + total_length es < 2 ^ 64" and "encodable (claim_extents es n)"
    and "\<forall>e \<in> set (fn_extents n). bx_bdev e < 3"
  shows "node_ok (claim_extents es n)" and "cut (fn_committed n) (fn_extents (claim_extents es n)) = cut (fn_committed n) (fn_extents n)"
    and "fn_committed (claim_extents es n) = fn_committed n" and "fn_mtime (claim_extents es n) = fn_mtime n" and "fn_size (claim_extents es n) = fn_size n"
    and "\<forall>e \<in> set (fn_extents (claim_extents es n)). bx_bdev e < 3"
proof -
  have wf: "fnode_wf n" using assms(1) by (simp add: node_ok_def)
  note c = claim_extents_ok [OF wf assms(3)]
  have "ext_ok e" if e: "e \<in> set es" for e
  proof -
    obtain y where "y \<in> set (fn_extents (claim_extents es n))" "bx_length e \<le> bx_length y" using fold_push_dominates [of e "fn_extents n" es] e c by auto
    then have "bx_length e < 0xffffffff" using assms(4) by (force simp: encodable_def)
    then show ?thesis using assms(2) e by (auto simp: ext_ok_def raw_ext_def)
  qed
  then have x: "\<forall>e \<in> set es. ext_ok e" by blast
  note k = node_ok_claim [OF assms(1) x assms(3)]
  show "node_ok (claim_extents es n)" "cut (fn_committed n) (fn_extents (claim_extents es n)) = cut (fn_committed n) (fn_extents n)"
    "fn_committed (claim_extents es n) = fn_committed n" "fn_mtime (claim_extents es n) = fn_mtime n" "fn_size (claim_extents es n) = fn_size n"
    using k c by simp_all
  show "\<forall>e \<in> set (fn_extents (claim_extents es n)). bx_bdev e < 3"
    using c fold_push_bdev [OF assms(5), of es] assms(2) by (auto simp: raw_ext_def)
qed

lemma op_ok_update: "node_ok (reset_delta n) \<Longrightarrow> encodable n \<Longrightarrow> fn_ino n < 2 ^ 63 \<Longrightarrow> \<forall>e \<in> set (fn_extents n). bx_bdev e < 3 \<Longrightarrow> op_ok (Op_file_update n)"
  by (auto simp: fnode_ok_def node_ok_def encodable_def exts_ok_iff ext_ok_def bextent_ok_def)

lemma rest_members: "y \<in> set (rest k es) \<Longrightarrow> \<exists>e \<in> set es. bx_bdev y = bx_bdev e \<and> bx_length y \<le> bx_length e \<and> bx_offset y + bx_length y = bx_offset e + bx_length e"
proof (induction es arbitrary: k)
  case (Cons e es)
  then show ?case
  proof (cases "bx_length e \<le> k")
    case True
    then show ?thesis using Cons by auto
  next
    case False
    then consider "y = (if k = 0 then e else e\<lparr>bx_offset := bx_offset e + k, bx_length := bx_length e - k\<rparr>)" | "y \<in> set es" using Cons.prems by auto
    then show ?thesis using False by cases auto
  qed
qed simp

lemma rest_length: "length (rest k es) \<le> length es"
  by (induction es arbitrary: k) (auto intro: le_SucI)

lemma op_ok_inc:
  assumes "node_ok n" and "encodable n" and "fn_ino n < 2 ^ 63"
  shows "op_ok (Op_file_update_inc (make_delta n))"
proof -
  have "bextent_ok y" if y: "y \<in> set (rest (fn_committed n) (fn_extents n))" for y
  proof -
    obtain e where "e \<in> set (fn_extents n)" "bx_bdev y = bx_bdev e" "bx_length y \<le> bx_length e" "bx_offset y + bx_length y = bx_offset e + bx_length e"
      using rest_members [OF y] by blast
    moreover have "ext_ok e" using calculation(1) assms(1) by (auto simp: node_ok_def exts_ok_iff)
    ultimately show ?thesis by (auto simp: ext_ok_def bextent_ok_def)
  qed
  moreover have "fn_committed n < 2 ^ 64" using assms(1) by (auto simp: node_ok_def fnode_wf_def)
  moreover have "length (rest (fn_committed n) (fn_extents n)) < 2 ^ 32" using assms(2) rest_length le_less_trans unfolding encodable_def by blast
  ultimately have "delta_ok (make_delta n)"
    using make_delta_rest [OF assms(1)] assms(2,3) unfolding delta_ok_def by (simp add: make_delta_def encodable_def)
  then show ?thesis by simp
qed

section \<open>The live state and its image in the log\<close>

definition fview :: "bluefs \<Rightarrow> u64 \<Rightarrow> bfile option" where
  "fview fs i = map_option (file_at fs) (map_of (fs_files fs) i)"

text \<open>Node 1 is the log itself, which is not part of the image.\<close>

definition file_ok :: "u64 \<Rightarrow> bfile \<Rightarrow> bool" where
  "file_ok i f \<longleftrightarrow> i \<noteq> 1 \<longrightarrow> node_ok (bf_fnode f) \<and> (\<forall>e \<in> set (fn_extents (bf_fnode f)). bx_bdev e < 3) \<and> bf_hint f < 3"

definition live_ok :: "bluefs \<Rightarrow> bool" where
  "live_ok fs \<longleftrightarrow> fs_ok fs \<and> allocs_ok fs \<and> 1 \<le> fs_ino_last fs \<and>
     (\<forall>i f. fview fs i = Some f \<longrightarrow> i \<le> fs_ino_last fs \<and> file_ok i f) \<and> (\<forall>d n i. lview fs d n = Some i \<longrightarrow> 1 < i)"

definition fits :: "bluefs \<Rightarrow> bool" where
  "fits fs \<longleftrightarrow> fs_ino_last fs < 2 ^ 63 - 1 \<and> (\<forall>i f. fview fs i = Some f \<longrightarrow> i \<noteq> 1 \<longrightarrow> encodable (bf_fnode f))"

definition mirrors :: "bluefs \<Rightarrow> bluefs \<Rightarrow> bool" where
  "mirrors r fs \<longleftrightarrow> fs_ok r \<and> dirset r = dirset fs \<and> lview r = lview fs \<and> (\<forall>i. i \<noteq> 1 \<longrightarrow> rel_option logged (nview r i) (fview fs i))"

text \<open>The step from \<open>fs\<close> to \<open>fs'\<close> is in the log: the operations appended take every image of \<open>fs\<close> to an image of \<open>fs'\<close>.\<close>

definition log_step :: "bop list \<Rightarrow> bluefs \<Rightarrow> bluefs \<Rightarrow> bool" where
  "log_step ops fs fs' \<longleftrightarrow>
     tx_ops (fs_txn fs') = tx_ops (fs_txn fs) @ concat (map enc_op ops) \<and> (\<forall>x \<in> set ops. op_ok x) \<and>
     (\<forall>r l seq. mirrors r fs \<longrightarrow> (\<exists>r'. run_ops l (map op_read ops) seq r = Some (Ops_done seq r') \<and> mirrors r' fs'))"

lemma log_step_refl: "log_step [] fs fs"
  by (simp add: log_step_def)

lemma log_step_trans:
  assumes "log_step xs a b" and "log_step ys b c"
  shows "log_step (xs @ ys) a c"
proof -
  have "\<exists>r'. run_ops l (map op_read (xs @ ys)) seq r = Some (Ops_done seq r') \<and> mirrors r' c" if r: "mirrors r a" for r l seq
  proof -
    obtain r1 where r1: "run_ops l (map op_read xs) seq r = Some (Ops_done seq r1)" "mirrors r1 b" using assms(1) r unfolding log_step_def by blast
    obtain r2 where "run_ops l (map op_read ys) seq r1 = Some (Ops_done seq r2)" "mirrors r2 c" using assms(2) r1(2) unfolding log_step_def by blast
    then show ?thesis using run_ops_append [OF r1(1)] by auto
  qed
  then show ?thesis using assms by (auto simp: log_step_def)
qed

text \<open>What a change outside the views leaves alone.\<close>

lemma log_op_frame [simp]:
  "fs_dirs (log_op x fs) = fs_dirs fs" "fs_files (log_op x fs) = fs_files fs" "fs_heap (log_op x fs) = fs_heap fs" "fs_vsel (log_op x fs) = fs_vsel fs"
  "fs_alloc (log_op x fs) = fs_alloc fs" "fs_bdev (log_op x fs) = fs_bdev fs" "fs_pending (log_op x fs) = fs_pending fs" "fs_cfg (log_op x fs) = fs_cfg fs"
  "fs_alloc_size (log_op x fs) = fs_alloc_size fs" "fs_ino_last (log_op x fs) = fs_ino_last fs" "tx_ops (fs_txn (log_op x fs)) = tx_ops (fs_txn fs) @ enc_op x"
  "file_at (log_op x fs) = file_at fs" "node_at (log_op x fs) = node_at fs" "lookup d n (log_op x fs) = lookup d n fs"
  using at_heap [of "log_op x fs" fs] by (simp_all add: log_op_def lookup_def)

lemma same_fview: "fs_files fs' = fs_files fs \<Longrightarrow> fs_heap fs' = fs_heap fs \<Longrightarrow> fview fs' = fview fs"
  using at_heap [of fs' fs] by (simp add: fview_def [abs_def])

lemma allocs_ok_frame:
  "fs_alloc fs' = fs_alloc fs \<Longrightarrow> fs_bdev fs' = fs_bdev fs \<Longrightarrow> length (fs_pending fs') = length (fs_pending fs) \<Longrightarrow> fs_cfg fs' = fs_cfg fs \<Longrightarrow>
   fs_alloc_size fs' = fs_alloc_size fs \<Longrightarrow> allocs_ok fs' = allocs_ok fs"
  by (simp add: allocs_ok_def alloc_at_def dev_at_def)

lemma upd_frame_more [simp]:
  "fs_alloc (upd_file r g fs) = fs_alloc fs" "fs_bdev (upd_file r g fs) = fs_bdev fs" "fs_pending (upd_file r g fs) = fs_pending fs"
  "fs_cfg (upd_file r g fs) = fs_cfg fs" "fs_alloc_size (upd_file r g fs) = fs_alloc_size fs" "allocs_ok (upd_file r g fs) = allocs_ok fs"
  by (simp_all add: upd_file_def allocs_ok_def alloc_at_def dev_at_def)

text \<open>The change of one file object.\<close>

lemma upd_file_ok:
  assumes "fs_ok fs" and "\<And>x. bf_refs (g x) = bf_refs x" and "\<And>x. fn_ino (bf_fnode (g x)) = fn_ino (bf_fnode x)"
  shows "fs_ok (upd_file f g fs)" and "dirset (upd_file f g fs) = dirset fs" and "lview (upd_file f g fs) = lview fs"
proof -
  have n: "fn_ino (node_at (upd_file f g fs) x) = fn_ino (node_at fs x)" "bf_refs (file_at (upd_file f g fs) x) = bf_refs (file_at fs x)" for x
    by (simp_all add: assms(2,3) node_at_def)
  show "fs_ok (upd_file f g fs)" using assms(1) unfolding fs_ok_def n by simp
  show "dirset (upd_file f g fs) = dirset fs" by (simp add: dirset_def)
  show "lview (upd_file f g fs) = lview fs" by (simp add: lview_def [abs_def] n)
qed

lemma fview_upd:
  assumes "fs_ok fs" and "map_of (fs_files fs) i = Some f"
  shows "fview (upd_file f g fs) = (fview fs)(i \<mapsto> g (file_at fs f))"
proof
  fix j
  note ok = fs_okD [OF assms(1)]
  show "fview (upd_file f g fs) j = ((fview fs)(i \<mapsto> g (file_at fs f))) j"
  proof (cases "j = i")
    case False
    have "h \<noteq> f" if "map_of (fs_files fs) j = Some h" for h
      using ok(2) [OF that] ok(2) [OF assms(2)] False by auto
    then show ?thesis using False by (cases "map_of (fs_files fs) j") (auto simp: fview_def)
  qed (use assms(2) ok(1) [OF assms(2)] in \<open>simp add: fview_def\<close>)
qed

lemma nview_fview: "nview fs i = map_option bf_fnode (fview fs i)"
  by (cases "map_of (fs_files fs) i") (simp_all add: nview_def fview_def node_at_def)

lemma live_okD:
  assumes "live_ok fs"
  shows "fs_ok fs" and "allocs_ok fs" and "1 \<le> fs_ino_last fs" and "fview fs i = Some f \<Longrightarrow> i \<le> fs_ino_last fs"
    and "fview fs i = Some f \<Longrightarrow> i \<noteq> 1 \<Longrightarrow> node_ok (bf_fnode f)" and "fview fs i = Some f \<Longrightarrow> i \<noteq> 1 \<Longrightarrow> e \<in> set (fn_extents (bf_fnode f)) \<Longrightarrow> bx_bdev e < 3"
    and "lview fs d n = Some j \<Longrightarrow> 1 < j" and "fview fs i = Some f \<Longrightarrow> i \<noteq> 1 \<Longrightarrow> bf_hint f < 3"
  using assms by (auto simp: live_ok_def file_ok_def)

lemma live_okI:
  assumes "live_ok fs" and "fs_ok fs'" and "allocs_ok fs'" and "fs_ino_last fs' = fs_ino_last fs"
    and "\<And>i f. fview fs' i = Some f \<Longrightarrow> fview fs i = Some f \<or> i \<le> fs_ino_last fs \<and> file_ok i f"
    and "\<And>d n j. lview fs' d n = Some j \<Longrightarrow> 1 < j"
  shows "live_ok fs'"
  using assms unfolding live_ok_def by metis

section \<open>Directories\<close>

lemma mkdir_logged:
  assumes "live_ok fs" and "length d < 2 ^ 32"
  shows "\<exists>rc fs' ops. mkdir d fs = (rc, fs') \<and> live_ok fs' \<and> log_step ops fs fs'"
proof (cases "d \<in> dirset fs")
  case True
  then have "mkdir d fs = (- EEXIST, fs)" by (auto simp: mkdir_def dirset_def)
  then show ?thesis using assms(1) log_step_refl by blast
next
  case False
  note ok = live_okD [OF assms(1)]
  define fs1 where "fs1 = fs\<lparr>fs_dirs := om_put d [] (fs_dirs fs)\<rparr>"
  define fs' where "fs' = log_op (Op_dir_create d) fs1"
  have run: "mkdir d fs = (0, fs')" using False by (simp add: mkdir_def dirset_def fs1_def fs'_def domIff)
  have v1: "fs_ok fs1" "dirset fs1 = insert d (dirset fs)" "lview fs1 = lview fs"
    using replay_mkdir [OF ok(1) False, of 0 0] by (simp_all add: fs1_def)
  have v: "fs_ok fs'" "dirset fs' = insert d (dirset fs)" "lview fs' = lview fs" "fview fs' = fview fs"
    using v1 same_views [of fs' fs1] same_fview [of fs' fs] by (simp_all add: fs'_def fs1_def)
  have a: "allocs_ok fs'" using ok(2) allocs_ok_frame [of fs' fs] by (simp add: fs'_def fs1_def)
  have "fs_ino_last fs' = fs_ino_last fs" by (simp add: fs'_def fs1_def)
  then have "live_ok fs'" by (rule live_okI [OF assms(1) v(1) a]) (use ok(7) in \<open>simp_all add: v(3,4)\<close>)
  moreover have "log_step [Op_dir_create d] fs fs'"
    unfolding log_step_def
  proof (intro conjI allI impI)
    fix r l seq
    assume m: "mirrors r fs"
    then have "fs_ok r" "d \<notin> dirset r" using False by (auto simp: mirrors_def)
    from replay_mkdir [OF this] obtain r' where r': "replay_op (log_size l r) (Op_dir_create d) seq r = Some (Ops_done seq r')" "fs_ok r'"
      "dirset r' = insert d (dirset r)" "lview r' = lview r" "nview r' = nview r" by blast
    have "mirrors r' fs'" using m r'(2-5) v unfolding mirrors_def by metis
    then show "\<exists>r'. run_ops l (map op_read [Op_dir_create d]) seq r = Some (Ops_done seq r') \<and> mirrors r' fs'" using r'(1) by simp
  qed (use assms(2) in \<open>simp_all add: fs'_def fs1_def\<close>)
  ultimately show ?thesis using run by blast
qed

lemma rmdir_logged:
  assumes "live_ok fs" and "length d < 2 ^ 32"
  shows "\<exists>rc fs' ops. rmdir d fs = (rc, fs') \<and> live_ok fs' \<and> log_step ops fs fs'"
proof (cases "map_of (fs_dirs fs) d = Some []")
  case False
  then have "\<exists>rc. rmdir d fs = (rc, fs)" by (auto simp: rmdir_def split: option.splits)
  then show ?thesis using assms(1) log_step_refl by blast
next
  case True
  note ok = live_okD [OF assms(1)]
  define fs1 where "fs1 = fs\<lparr>fs_dirs := AList.delete d (fs_dirs fs)\<rparr>"
  define fs' where "fs' = log_op (Op_dir_remove d) fs1"
  have run: "rmdir d fs = (0, fs')" using True by (simp add: rmdir_def fs1_def fs'_def)
  have none: "lview fs d n = None" for n using True by (simp add: lview_def lookup_def)
  have v1: "fs_ok fs1" "dirset fs1 = dirset fs - {d}" "lview fs1 = lview fs"
    using replay_rmdir [OF ok(1) none, of 0 0] by (simp_all add: fs1_def)
  have v: "fs_ok fs'" "dirset fs' = dirset fs - {d}" "lview fs' = lview fs" "fview fs' = fview fs"
    using v1 same_views [of fs' fs1] same_fview [of fs' fs] by (simp_all add: fs'_def fs1_def)
  have a: "allocs_ok fs'" using ok(2) allocs_ok_frame [of fs' fs] by (simp add: fs'_def fs1_def)
  have "fs_ino_last fs' = fs_ino_last fs" by (simp add: fs'_def fs1_def)
  then have "live_ok fs'" by (rule live_okI [OF assms(1) v(1) a]) (use ok(7) in \<open>simp_all add: v(3,4)\<close>)
  moreover have "log_step [Op_dir_remove d] fs fs'"
    unfolding log_step_def
  proof (intro conjI allI impI)
    fix r l seq
    assume m: "mirrors r fs"
    then have ok_r: "fs_ok r" and none_r: "lview r d n = None" for n using none by (auto simp: mirrors_def)
    from replay_rmdir [OF this] obtain r' where r': "replay_op (log_size l r) (Op_dir_remove d) seq r = Some (Ops_done seq r')" "fs_ok r'"
      "dirset r' = dirset r - {d}" "lview r' = lview r" "nview r' = nview r" by blast
    have "mirrors r' fs'" using m r'(2-5) v unfolding mirrors_def by metis
    then show "\<exists>r'. run_ops l (map op_read [Op_dir_remove d]) seq r = Some (Ops_done seq r') \<and> mirrors r' fs'" using r'(1) by simp
  qed (use assms(2) in \<open>simp_all add: fs'_def fs1_def\<close>)
  ultimately show ?thesis using run by blast
qed

end
