(* ===== verification/Bluefs_Files.thy ===== *)
theory Bluefs_Files
  imports Bluefs_Live
begin

text \<open>
  The calls on files: renaming, removing, opening for writing, preallocation. Together with the directories they make
  up the client of the log, whose runs are replayed exactly.
\<close>

section \<open>Renaming\<close>

text \<open>Only the links change in a rename; the reference counts and the file objects stay.\<close>

lemma rename_links:
  assumes ok: "fs_ok fs" and f: "lookup od on fs = Some f" and m: "map_of (fs_dirs fs) nd = Some m" and ne: "(od, on) \<noteq> (nd, nn)"
    and fs3: "fs2 = fs\<lparr>fs_dirs := om_put nd (om_put nn f m) (fs_dirs fs)\<rparr>"
      "fs3 = fs2\<lparr>fs_dirs := om_put od (AList.delete on (the (map_of (fs_dirs fs2) od))) (fs_dirs fs2)\<rparr>"
  shows "fs_ok fs3" and "dirset fs3 = dirset fs" and "lview fs3 = put2 od on None (put2 nd nn (Some (fn_ino (node_at fs f))) (lview fs))"
proof -
  note okd = fs_okD [OF ok]
  define lk where "lk = put2 od on None (put2 nd nn (Some f) (lk_of fs))"
  obtain k where k: "map_of (fs_dirs fs) od = Some k" using f by (auto simp: lookup_def Option.bind_eq_Some_conv)
  have m2: "map_of (fs_dirs fs2) = (map_of (fs_dirs fs))(nd \<mapsto> om_put nn f m)" by (simp add: fs3)
  have m3: "map_of (fs_dirs fs3) = (map_of (fs_dirs fs2))(od \<mapsto> AList.delete on (the (map_of (fs_dirs fs2) od)))" by (simp add: fs3(2))
  have lk3: "lookup x y fs3 = lk x y" for x y
    using k m by (auto simp: lookup_def m3 m2 lk_def put2_apply lk_of_def map_of_delete)
  have d: "dirset fs3 = dirset fs" using k m by (auto simp: dirset_def m3 m2)
  have h: "fs_heap fs3 = fs_heap fs" "fs_files fs3 = fs_files fs" "fs_vsel fs3 = fs_vsel fs" by (simp_all add: fs3)
  have rel: "relinked fs fs3 lk (refs_of fs)"
    using okd(6) d lk3 at_heap [OF h(1)] h by (simp add: relinked_def refs_of_def plain_def)
  have lkD: "lookup x y fs = Some g \<or> g = f" if "lk x y = Some g" for x y g
    using that by (auto simp: lk_def put2_apply lk_of_def split: if_splits)
  have c1: "\<forall>x y g. lk x y = Some g \<longrightarrow> map_of (fs_files fs) (fn_ino (node_at fs g)) = Some g \<and> refs_of fs g = 1"
    using lkD okd(3,4) f unfolding refs_of_def by blast
  have c2: "\<forall>x y x' y' g. lk x y = Some g \<longrightarrow> lk x' y' = Some g \<longrightarrow> x = x' \<and> y = y'"
    using okd(5) [OF f] okd(5) by (auto simp: lk_def put2_apply lk_of_def split: if_splits)
  note R = relinked_ok [OF ok rel c1 c2]
  show "fs_ok fs3" "dirset fs3 = dirset fs" using R(1) d by simp_all
  show "lview fs3 = put2 od on None (put2 nd nn (Some (fn_ino (node_at fs f))) (lview fs))"
  proof (intro ext)
    fix x y
    show "lview fs3 x y = put2 od on None (put2 nd nn (Some (fn_ino (node_at fs f))) (lview fs)) x y"
      using fun_cong [OF fun_cong [OF R(3), of x], of y] by (simp add: lk_def put2_apply lk_of_def lview_def)
  qed
qed

lemma rename_logged:
  assumes live: "live_ok fs" and len: "length od < 2 ^ 32" "length on < 2 ^ 32" "length nd < 2 ^ 32" "length nn < 2 ^ 32" and ne: "(od, on) \<noteq> (nd, nn)"
    and "fs_ino_last fs < 2 ^ 63"
  shows "\<exists>rc fs' ops. rename od on nd nn fs = (rc, fs') \<and> live_ok fs' \<and> log_step ops fs fs'"
proof (cases "lookup od on fs = None \<or> map_of (fs_dirs fs) nd = None")
  case True
  then have "rename od on nd nn fs = (- ENOENT, fs)" by (auto simp: rename_def split: option.splits)
  then show ?thesis using live log_step_refl by blast
next
  case False
  then obtain f m where f: "lookup od on fs = Some f" and m: "map_of (fs_dirs fs) nd = Some m" by auto
  note ok = live_okD [OF live] and okd = fs_okD [OF live_okD(1) [OF live]]
  define i where "i = fn_ino (node_at fs f)"
  define pre where "pre = (if lview fs nd nn = None then [] else [Op_dir_unlink nd nn])"
  define ops where "ops = pre @ [Op_dir_link nd nn i, Op_dir_unlink od on]"
  define fs1 where "fs1 = (case map_of m nn of None \<Rightarrow> fs | Some x \<Rightarrow> if x \<noteq> f then log_op (Op_dir_unlink nd nn) fs else fs)"
  define fs2 where "fs2 = fs1\<lparr>fs_dirs := om_put nd (om_put nn f m) (fs_dirs fs1)\<rparr>"
  define fs3 where "fs3 = fs2\<lparr>fs_dirs := om_put od (AList.delete on (the (map_of (fs_dirs fs2) od))) (fs_dirs fs2)\<rparr>"
  define fs' where "fs' = log_op (Op_dir_unlink od on) (log_op (Op_dir_link nd nn (fn_ino (node_at fs3 f))) fs3)"
  have run: "rename od on nd nn fs = (0, fs')" unfolding rename_def fs'_def fs3_def fs2_def fs1_def f m by (simp only: option.case Let_def)
  have tgt: "x \<noteq> f" if "map_of m nn = Some x" for x
    using okd(5) [OF f, of nd nn] that m ne by (auto simp: lookup_def)
  have fs1: "tx_ops (fs_txn fs1) = tx_ops (fs_txn fs) @ concat (map enc_op pre)" "fs_dirs fs1 = fs_dirs fs" "fs_heap fs1 = fs_heap fs"
    "fs_files fs1 = fs_files fs" "fs_vsel fs1 = fs_vsel fs" "fs_ino_last fs1 = fs_ino_last fs" "allocs_ok fs1 = allocs_ok fs"
  proof -
    have "fs1 = (if pre = [] then fs else log_op (Op_dir_unlink nd nn) fs) \<and> (pre = [] \<or> pre = [Op_dir_unlink nd nn])"
      using tgt m by (cases "map_of m nn") (simp_all add: fs1_def pre_def lview_def lookup_def)
    then show "tx_ops (fs_txn fs1) = tx_ops (fs_txn fs) @ concat (map enc_op pre)" "fs_dirs fs1 = fs_dirs fs" "fs_heap fs1 = fs_heap fs"
      "fs_files fs1 = fs_files fs" "fs_vsel fs1 = fs_vsel fs" "fs_ino_last fs1 = fs_ino_last fs" "allocs_ok fs1 = allocs_ok fs"
      using allocs_ok_frame [of "log_op (Op_dir_unlink nd nn) fs" fs] by force+
  qed
  have f1: "lookup od on fs1 = Some f" "map_of (fs_dirs fs1) nd = Some m" "fs_ok fs1" "node_at fs1 = node_at fs" "dirset fs1 = dirset fs" "lview fs1 = lview fs"
    using f m ok(1) same_views [of fs1 fs] fs1 at_heap [of fs1 fs] by (simp_all add: lookup_def)
  note L = rename_links [OF f1(3,1,2) ne fs2_def fs3_def]
  have h3: "fs_heap fs3 = fs_heap fs" "fs_files fs3 = fs_files fs" "fs_vsel fs3 = fs_vsel fs1" using fs1 by (simp_all add: fs2_def fs3_def)
  have i: "fn_ino (node_at fs3 f) = i" using at_heap [OF h3(1)] by (simp add: i_def)
  have v: "fs_ok fs'" "dirset fs' = dirset fs" "lview fs' = put2 od on None (put2 nd nn (Some i) (lview fs))" "fview fs' = fview fs"
    using L same_views [of fs' fs3] same_fview [of fs' fs] h3 f1(4-6) by (simp_all add: fs'_def i_def)
  have a: "allocs_ok fs'" using ok(2) fs1(7) allocs_ok_frame [of fs' fs1] by (simp add: fs'_def fs3_def fs2_def)
  have "1 < i" using ok(7) [of od on i] f by (simp add: lview_def i_def)
  then have "1 < j" if "lview fs' x y = Some j" for x y j using that ok(7) [of x y j] by (auto simp: v(3) put2_apply split: if_splits)
  moreover have "fs_ino_last fs' = fs_ino_last fs" by (simp add: fs'_def fs3_def fs2_def fs1)
  ultimately have "live_ok fs'" by (intro live_okI [OF live v(1) a]) (auto simp: v(4))
  moreover have "log_step ops fs fs'"
    unfolding log_step_def
  proof (intro conjI allI impI)
    show "tx_ops (fs_txn fs') = tx_ops (fs_txn fs) @ concat (map enc_op ops)"
      using fs1(1) i by (simp add: fs'_def ops_def) (simp add: fs3_def fs2_def)
    have "fview fs i = Some (file_at fs f)" using okd(3) [OF f] by (simp add: fview_def i_def)
    then have "i < 2 ^ 64" using ok(4) [of i] assms(7) by fastforce
    then show "\<forall>x \<in> set ops. op_ok x" using len by (auto simp: ops_def pre_def)
    fix r l seq
    assume mi: "mirrors r fs"
    then have r: "fs_ok r" "lview r od on = Some i" "nd \<in> dirset r" using f m by (auto simp: mirrors_def lview_def i_def dirset_def)
    have "map op_read ops = (if lview r nd nn = None then [] else [Op_dir_unlink nd nn]) @ [Op_dir_link nd nn i, Op_dir_unlink od on]"
      using mi by (simp add: ops_def pre_def mirrors_def)
    with replay_rename [OF r ne, of l seq] obtain r' where r': "run_ops l (map op_read ops) seq r = Some (Ops_done seq r')" "fs_ok r'" "dirset r' = dirset r"
      "lview r' = put2 od on None (put2 nd nn (Some i) (lview r))" "nview r' = nview r" by auto
    have "mirrors r' fs'" using mi r'(2-5) v unfolding mirrors_def by metis
    then show "\<exists>r'. run_ops l (map op_read ops) seq r = Some (Ops_done seq r') \<and> mirrors r' fs'" using r'(1) by blast
  qed
  ultimately show ?thesis using run by blast
qed

section \<open>Removing\<close>

lemma add_pending_ok:
  "\<forall>e \<in> set es. bx_bdev e < length (fs_pending fs) \<Longrightarrow> \<exists>p. add_pending es fs = Some (fs\<lparr>fs_pending := p\<rparr>) \<and> length p = length (fs_pending fs)"
proof (induction es arbitrary: fs)
  case Nil
  show ?case by (rule exI [of _ "fs_pending fs"]) (simp add: add_pending_def)
next
  case (Cons e es)
  define fs1 where "fs1 = fs\<lparr>fs_pending := (fs_pending fs)[bx_bdev e := om_insert (bx_offset e) (bx_length e) (fs_pending fs ! bx_bdev e)]\<rparr>"
  have "\<forall>e \<in> set es. bx_bdev e < length (fs_pending fs1)" using Cons.prems by (simp add: fs1_def)
  from Cons.IH [OF this] obtain p where "add_pending es fs1 = Some (fs1\<lparr>fs_pending := p\<rparr>)" "length p = length (fs_pending fs1)" by blast
  then show ?case using Cons.prems by (intro exI [of _ p]) (simp add: add_pending_def fs1_def)
qed

lemma fview_upd_out: "(\<And>j. map_of (fs_files fs) j \<noteq> Some f) \<Longrightarrow> fview (upd_file f g fs) = fview fs"
proof (rule ext)
  fix i
  assume "\<And>j. map_of (fs_files fs) j \<noteq> Some f"
  then show "fview (upd_file f g fs) i = fview fs i" by (cases "map_of (fs_files fs) i") (auto simp: fview_def)
qed

text \<open>The state after \<open>unlink\<close>, up to the fields that no view depends on.\<close>

lemma unlink_shape:
  assumes live: "live_ok fs" and f: "lookup d n fs = Some f" and i: "i = fn_ino (node_at fs f)"
  shows "\<exists>fs' m g. unlink d n fs = Some (0, fs') \<and> map_of (fs_dirs fs) d = Some m \<and> fs_dirs fs' = om_put d (AList.delete n m) (fs_dirs fs) \<and>
    fs_files fs' = AList.delete i (fs_files fs) \<and> fs_heap fs' = (fs_heap fs)[f := g] \<and> bf_refs g = 0 \<and> bf_fnode g = node_at fs f \<and> fs_vsel fs' = fs_vsel fs \<and>
    fs_ino_last fs' = fs_ino_last fs \<and> allocs_ok fs' \<and>
    tx_ops (fs_txn fs') = tx_ops (fs_txn fs) @ concat (map enc_op [Op_dir_unlink d n, Op_file_remove i])"
proof -
  note ok = live_okD [OF live] and okd = fs_okD [OF live_okD(1) [OF live]]
  obtain m where m: "map_of (fs_dirs fs) d = Some m" "map_of m n = Some f" using f by (auto simp: lookup_def Option.bind_eq_Some_conv)
  have files: "map_of (fs_files fs) i = Some f" "f < length (fs_heap fs)" "bf_refs (file_at fs f) = 1"
    using okd(3,4) [OF f] okd(1) by (auto simp: i)
  have i1: "i \<noteq> 1" using ok(7) [of d n i] f by (simp add: lview_def i)
  define fs0 where "fs0 = log_op (Op_dir_unlink d n) (fs\<lparr>fs_dirs := om_put d (AList.delete n m) (fs_dirs fs)\<rparr>)"
  define fs1 where "fs1 = upd_file f (\<lambda>x. x\<lparr>bf_refs := bf_refs x - 1\<rparr>) fs0"
  define fs3 where "fs3 = log_op (Op_file_remove i) fs1"
  define fs4 where "fs4 = upd_file f (\<lambda>x. x\<lparr>bf_deleted := True\<rparr>) (fs3\<lparr>fs_files := AList.delete i (fs_files fs3)\<rparr>)"
  have h0: "fs_heap fs0 = fs_heap fs" "file_at fs0 = file_at fs" "node_at fs0 = node_at fs" by (simp_all add: fs0_def)
  have h1: "fs_heap fs1 = (fs_heap fs)[f := (file_at fs f)\<lparr>bf_refs := 0\<rparr>]" using files(3) h0 by (simp add: fs1_def upd_file_def file_at_def)
  have f1: "file_at fs1 f = (file_at fs f)\<lparr>bf_refs := 0\<rparr>" "node_at fs1 f = node_at fs f" using files(2) h1 by (simp_all add: file_at_def node_at_def)
  have pl: "plain fs1" using okd(6) by (simp add: plain_def fs1_def fs0_def)
  have h4: "fs_heap fs4 = (fs_heap fs)[f := (file_at fs f)\<lparr>bf_refs := 0, bf_deleted := True\<rparr>]"
    using files(2) h1 by (simp add: fs4_def fs3_def upd_file_def)
  have n4: "node_at fs4 f = node_at fs f" "file_at fs4 f = (file_at fs f)\<lparr>bf_refs := 0, bf_deleted := True\<rparr>" using files(2) h4 by (simp_all add: node_at_def file_at_def)
  have "fview fs i = Some (file_at fs f)" using files by (simp add: fview_def)
  then have "\<forall>e \<in> set (fn_extents (node_at fs4 f)). bx_bdev e < length (fs_pending fs4)"
    using ok(2) ok(6) [of i] i1 n4 by (auto simp: node_at_def allocs_ok_def fs4_def fs3_def fs1_def fs0_def)
  from add_pending_ok [OF this] obtain p where p: "add_pending (fn_extents (node_at fs4 f)) fs4 = Some (fs4\<lparr>fs_pending := p\<rparr>)" "length p = length (fs_pending fs4)" by blast
  define fs5 where "fs5 = fs4\<lparr>fs_pending := p\<rparr>"
  define fs' where "fs' = (if bf_dirty_seq (file_at fs5 f) > fs_stable fs5
     then upd_file f (\<lambda>x. x\<lparr>bf_dirty_seq := fs_stable fs5\<rparr>) (fs5\<lparr>fs_dirty := remove_dirty (bf_dirty_seq (file_at fs5 f)) f (fs_dirty fs5)\<rparr>) else fs5)"
  have run: "unlink d n fs = Some (0, fs')"
  proof -
    have "upd_file f (bf_deleted_update (\<lambda>_. True)) (log_op (Op_file_remove (fn_ino (node_at fs f))) fs1
        \<lparr>fs_files := AList.delete (fn_ino (node_at fs f)) (fs_files fs1)\<rparr>) = fs4" by (simp add: fs4_def fs3_def i)
    then have "drop_link f fs0 = Some fs'"
      using p(1) files(3) f1 pl h0 unfolding drop_link_def Let_def fs1_def [symmetric] by (simp add: fs5_def [symmetric] fs'_def)
    then show ?thesis using m by (simp add: unlink_def fs0_def)
  qed
  have "\<exists>g. fs_heap fs' = (fs_heap fs)[f := g] \<and> bf_refs g = 0 \<and> bf_fnode g = node_at fs f"
    using files(2) h4 by (auto simp: fs'_def fs5_def upd_file_def node_at_def file_at_def)
  then obtain g where g: "fs_heap fs' = (fs_heap fs)[f := g]" "bf_refs g = 0" "bf_fnode g = node_at fs f" by blast
  have fr: "fs_dirs fs' = om_put d (AList.delete n m) (fs_dirs fs)" "fs_files fs' = AList.delete i (fs_files fs)" "fs_vsel fs' = fs_vsel fs" "fs_ino_last fs' = fs_ino_last fs"
    "tx_ops (fs_txn fs') = tx_ops (fs_txn fs) @ concat (map enc_op [Op_dir_unlink d n, Op_file_remove i])"
    by (simp_all add: fs'_def fs5_def fs4_def fs3_def fs1_def fs0_def)
  have "allocs_ok fs'" using ok(2) p(2) allocs_ok_frame [of fs' fs] by (simp add: fs'_def fs5_def fs4_def fs3_def fs1_def fs0_def)
  with run g fr m(1) show ?thesis by blast
qed

lemma unlink_logged:
  assumes live: "live_ok fs" and len: "length d < 2 ^ 32" "length n < 2 ^ 32" and "fs_ino_last fs < 2 ^ 63"
  shows "\<exists>rc fs' ops. unlink d n fs = Some (rc, fs') \<and> live_ok fs' \<and> log_step ops fs fs'"
proof (cases "lookup d n fs")
  case None
  then have "unlink d n fs = Some (- ENOENT, fs)" by (auto simp: unlink_def lookup_def split: option.splits)
  then show ?thesis using live log_step_refl by blast
next
  case (Some f)
  note ok = live_okD [OF live] and okd = fs_okD [OF live_okD(1) [OF live]]
  define i where "i = fn_ino (node_at fs f)"
  define ops where "ops = [Op_dir_unlink d n, Op_file_remove i]"
  have lv: "lview fs d n = Some i" using Some by (simp add: lview_def i_def)
  obtain fs' m g where U: "unlink d n fs = Some (0, fs')" "map_of (fs_dirs fs) d = Some m" "fs_dirs fs' = om_put d (AList.delete n m) (fs_dirs fs)"
    "fs_files fs' = AList.delete i (fs_files fs)" "fs_heap fs' = (fs_heap fs)[f := g]" "bf_refs g = 0" "bf_fnode g = node_at fs f" "fs_vsel fs' = fs_vsel fs"
    "fs_ino_last fs' = fs_ino_last fs" "allocs_ok fs'" "tx_ops (fs_txn fs') = tx_ops (fs_txn fs) @ concat (map enc_op ops)"
    using unlink_shape [OF live Some i_def] unfolding ops_def by blast
  have files: "map_of (fs_files fs) i = Some f" "f < length (fs_heap fs)" "bf_refs (file_at fs f) = 1" "map_of m n = Some f"
    using okd(3,4) [OF Some] okd(1) Some U(2) by (auto simp: i_def lookup_def)
  obtain r' where r': "run_ops 0 ops 0 fs = Some (Ops_done 0 r')" "fs_ok r'" "dirset r' = dirset fs" "lview r' = put2 d n None (lview fs)"
    using replay_unlink_remove [OF ok(1) lv, of 0 0] unfolding ops_def by blast
  have rep: "r' = (upd_file f (\<lambda>x. x\<lparr>bf_refs := bf_refs x - 1\<rparr>) (fs\<lparr>fs_dirs := om_put d (AList.delete n m) (fs_dirs fs)\<rparr>))\<lparr>fs_files := AList.delete i (fs_files fs)\<rparr>"
  proof -
    define A where "A = upd_file f (\<lambda>x. x\<lparr>bf_refs := bf_refs x - 1\<rparr>) (fs\<lparr>fs_dirs := om_put d (AList.delete n m) (fs_dirs fs)\<rparr>)"
    have "replay_unlink d n fs = Some A" using files U(2) by (simp add: replay_unlink_def A_def)
    moreover have "plain A" "fs_files A = fs_files fs" using okd(6) by (simp_all add: A_def)
    then have "replay_remove i A = Some (A\<lparr>fs_files := AList.delete i (fs_files fs)\<rparr>)" using files(1) by (simp add: replay_remove_def)
    ultimately show ?thesis using r'(1) by (simp add: ops_def A_def)
  qed
  have eq: "fs_dirs fs' = fs_dirs r'" "fs_files fs' = fs_files r'" "fs_vsel fs' = fs_vsel r'" "fs_heap fs' = (fs_heap r')[f := g]" "length (fs_heap r') = length (fs_heap fs)"
    using U(3,4,5,8) files(2) by (simp_all add: rep upd_file_def)
  have fr': "file_at r' f = (file_at fs f)\<lparr>bf_refs := 0\<rparr>" using files by (simp add: rep file_at_def upd_file_def)
  define u where "u = upd_file f (\<lambda>x. if x = file_at r' f then g else x) r'"
  have hu: "fs_heap u = fs_heap fs'" using eq(4) by (simp add: u_def upd_file_def file_at_def)
  have "fs_ok u" "dirset u = dirset r'" "lview u = lview r'"
    using upd_file_ok [OF r'(2), of "\<lambda>x. if x = file_at r' f then g else x" f] fr' U(6,7) by (simp_all add: u_def node_at_def)
  then have v: "fs_ok fs'" "dirset fs' = dirset fs" "lview fs' = put2 d n None (lview fs)"
    using same_views [of fs' u] eq(1-3) hu r'(3,4) by (simp_all add: u_def)
  have fv: "fview fs' = (fview fs)(i := None)"
  proof
    fix j
    have "h \<noteq> f" if "map_of (fs_files fs) j = Some h" "j \<noteq> i" for h using okd(2) [OF that(1)] okd(2) [OF files(1)] that(2) by auto
    then show "fview fs' j = ((fview fs)(i := None)) j"
      by (cases "map_of (fs_files fs) j") (auto simp: fview_def U(4,5) map_of_delete file_at_def)
  qed
  have "1 < j" if "lview fs' x y = Some j" for x y j using that ok(7) [of x y j] by (auto simp: v(3) put2_apply split: if_splits)
  then have "live_ok fs'" by (intro live_okI [OF live v(1) U(10) U(9)]) (auto simp: fv split: if_splits)
  moreover have "log_step ops fs fs'"
    unfolding log_step_def
  proof (intro conjI allI impI)
    show "tx_ops (fs_txn fs') = tx_ops (fs_txn fs) @ concat (map enc_op ops)" by (rule U(11))
    have "fview fs i = Some (file_at fs f)" using files(1) by (simp add: fview_def)
    then have "i < 2 ^ 64" using ok(4) [of i] assms(4) by fastforce
    then show "\<forall>x \<in> set ops. op_ok x" using len by (simp add: ops_def)
    fix r l seq
    assume mi: "mirrors r fs"
    then have r: "fs_ok r" "lview r d n = Some i" using lv by (auto simp: mirrors_def)
    obtain q where q: "run_ops l ops seq r = Some (Ops_done seq q)" "fs_ok q" "dirset q = dirset r" "lview q = put2 d n None (lview r)" "nview q = (nview r)(i := None)"
      using replay_unlink_remove [OF r, of l seq] unfolding ops_def by blast
    have "mirrors q fs'" using mi q(2-5) v fv by (auto simp: mirrors_def)
    moreover have "map op_read ops = ops" by (simp add: ops_def)
    ultimately show "\<exists>r'. run_ops l (map op_read ops) seq r = Some (Ops_done seq r') \<and> mirrors r' fs'" using q(1) by auto
  qed
  ultimately show ?thesis using U(1) by blast
qed

end
