(* ===== verification/Bluefs_Open.thy ===== *)
theory Bluefs_Open
  imports Bluefs_Files
begin

text \<open>
  Opening files for writing, preallocation and the incremental updates, and the runs of all metadata calls.
\<close>

section \<open>Frames\<close>

text \<open>Changes that neither the log nor its image see: writers, pending releases, the accounts of the allocators.\<close>

definition same_file :: "bfile \<Rightarrow> bfile \<Rightarrow> bool" where
  "same_file x y \<longleftrightarrow> bf_fnode y = bf_fnode x \<and> bf_is_dirty y = bf_is_dirty x \<and> bf_dirty_seq y = bf_dirty_seq x \<and> bf_hint y = bf_hint x"

definition unseen :: "bluefs \<Rightarrow> bluefs \<Rightarrow> bool" where
  "unseen a b \<longleftrightarrow> fs_ok b \<and> dirset b = dirset a \<and> lview b = lview a \<and> (\<forall>i. rel_option same_file (fview a i) (fview b i)) \<and>
     tx_ops (fs_txn b) = tx_ops (fs_txn a) \<and> fs_ino_last b = fs_ino_last a \<and> allocs_ok b"

lemma same_file_refl: "same_file x x"
  by (simp add: same_file_def)

lemma unseen_mirrors:
  assumes "mirrors r a" and "unseen a b"
  shows "mirrors r b"
proof -
  have "rel_option logged (nview r i) (fview b i)" if "i \<noteq> 1" for i
  proof -
    have "rel_option logged (nview r i) (fview a i)" "rel_option same_file (fview a i) (fview b i)" using assms that by (auto simp: mirrors_def unseen_def)
    then show ?thesis by (cases "nview r i"; cases "fview a i"; cases "fview b i") (auto simp: same_file_def logged_def)
  qed
  then show ?thesis using assms by (auto simp: mirrors_def unseen_def)
qed

lemma log_step_unseen: "log_step ops fs a \<Longrightarrow> unseen a b \<Longrightarrow> log_step ops fs b"
  using unseen_mirrors unfolding log_step_def unseen_def by metis

lemma live_ok_unseen:
  assumes "live_ok a" and "unseen a b"
  shows "live_ok b"
proof (rule live_okI [OF assms(1)])
  fix i f
  assume "fview b i = Some f"
  moreover have "rel_option same_file (fview a i) (fview b i)" using assms(2) by (simp add: unseen_def)
  ultimately obtain x where "fview a i = Some x" "bf_fnode f = bf_fnode x" "bf_hint f = bf_hint x" by (cases "fview a i") (auto simp: same_file_def)
  then show "fview a i = Some f \<or> i \<le> fs_ino_last a \<and> file_ok i f" using assms(1) by (auto simp: live_ok_def file_ok_def)
qed (use assms live_okD(7) [OF assms(1)] in \<open>simp_all add: unseen_def\<close>)

lemma unseen_upd_file:
  assumes "fs_ok a" and "allocs_ok a" and "\<And>x. bf_refs (g x) = bf_refs x" and "\<And>x. same_file x (g x)"
  shows "unseen a (upd_file f g a)"
proof -
  have "rel_option same_file (fview a i) (fview (upd_file f g a) i)" for i
    using assms(4) by (cases "map_of (fs_files a) i") (auto simp: fview_def same_file_refl)
  moreover have "fn_ino (bf_fnode (g x)) = fn_ino (bf_fnode x)" for x using assms(4) [of x] by (simp add: same_file_def)
  ultimately show ?thesis using upd_file_ok [OF assms(1,3)] assms(2) by (simp add: unseen_def)
qed

lemma unseen_fields:
  assumes "fs_ok a" and "fs_dirs b = fs_dirs a" and "fs_files b = fs_files a" and "fs_heap b = fs_heap a" and "fs_vsel b = fs_vsel a"
    and "fs_txn b = fs_txn a" and "fs_ino_last b = fs_ino_last a" and "allocs_ok b"
  shows "unseen a b"
proof -
  have "fview b = fview a" using assms by (intro same_fview) simp_all
  then show ?thesis using assms same_views [of b a] by (simp add: unseen_def) (simp add: option.rel_refl same_file_refl)
qed

lemma unseen_trans: "unseen a b \<Longrightarrow> unseen b c \<Longrightarrow> unseen a c"
proof -
  assume a: "unseen a b" "unseen b c"
  have "rel_option same_file (fview a i) (fview c i)" for i
  proof -
    have "rel_option same_file (fview a i) (fview b i)" "rel_option same_file (fview b i) (fview c i)" using a by (auto simp: unseen_def)
    then show ?thesis by (cases "fview a i"; cases "fview b i"; cases "fview c i") (auto simp: same_file_def)
  qed
  then show ?thesis using a by (simp add: unseen_def)
qed

section \<open>Updates of nodes\<close>

lemma update_logged:
  assumes live: "live_ok fs" and f: "map_of (fs_files fs) i = Some f" "i \<noteq> 1" and g: "\<And>x. bf_refs (g x) = bf_refs x" "\<And>x. fn_ino (bf_fnode (g x)) = fn_ino (bf_fnode x)"
      "\<And>x. bf_hint (g x) = bf_hint x"
    and N: "N = bf_fnode (g (file_at fs f))" "node_ok (reset_delta N)" "\<forall>e \<in> set (fn_extents N). bx_bdev e < 3" "encodable N" and last: "fs_ino_last fs < 2 ^ 63"
    and fs': "fs' = op_file_update f (upd_file f g fs)"
  shows "live_ok fs'" and "log_step [Op_file_update N] fs fs'" and "fview fs' = (fview fs)(i \<mapsto> (g (file_at fs f))\<lparr>bf_fnode := reset_delta N\<rparr>)"
    and "fs_vsel fs' = fs_vsel fs" and "fs_ino_last fs' = fs_ino_last fs" and "length (fs_pending fs') = length (fs_pending fs)" and "map_of (fs_files fs') i = Some f"
    and "fs_pending fs' = fs_pending fs"
proof -
  note ok = live_okD [OF live] and okd = fs_okD [OF live_okD(1) [OF live]]
  have fl: "f < length (fs_heap fs)" "fn_ino (node_at fs f) = i" using okd(1,2) [OF f(1)] by auto
  define h where "h = (\<lambda>x. (g x)\<lparr>bf_fnode := reset_delta (bf_fnode (g x))\<rparr>)"
  have Nf: "node_at (upd_file f g fs) f = N" using fl by (simp add: node_at_def N)
  have eq: "fs' = log_op (Op_file_update N) (upd_file f h fs)"
    using Nf unfolding fs' op_file_update_def by (simp add: upd_node_def upd_file_def log_op_def h_def)
      (cases "f < length (fs_heap fs)"; simp add: list_update_beyond)
  have hh: "\<And>x. bf_refs (h x) = bf_refs x" "\<And>x. fn_ino (bf_fnode (h x)) = fn_ino (bf_fnode x)" by (simp_all add: h_def g)
  note U = upd_file_ok [OF ok(1) hh, of f]
  have v: "fs_ok fs'" "dirset fs' = dirset fs" "lview fs' = lview fs" using U same_views [of fs' "upd_file f h fs"] by (simp_all add: eq)
  have hf: "h (file_at fs f) = (g (file_at fs f))\<lparr>bf_fnode := reset_delta N\<rparr>" by (simp add: h_def N)
  show fv: "fview fs' = (fview fs)(i \<mapsto> (g (file_at fs f))\<lparr>bf_fnode := reset_delta N\<rparr>)"
    using fview_upd [OF ok(1) f(1), of h] same_fview [of fs' "upd_file f h fs"] hf by (simp add: eq)
  have a: "allocs_ok fs'" using ok(2) allocs_ok_frame [of fs' "upd_file f h fs"] by (simp add: eq)
  show fr: "fs_vsel fs' = fs_vsel fs" "fs_ino_last fs' = fs_ino_last fs" "length (fs_pending fs') = length (fs_pending fs)" "map_of (fs_files fs') i = Some f"
    "fs_pending fs' = fs_pending fs" using f by (simp_all add: eq)
  have ifs: "fview fs i = Some (file_at fs f)" using f(1) by (simp add: fview_def)
  show "live_ok fs'"
  proof (rule live_okI [OF live v(1) a fr(2)])
    fix j x
    assume "fview fs' j = Some x"
    then show "fview fs j = Some x \<or> j \<le> fs_ino_last fs \<and> file_ok j x"
      using N(2,3) ok(4) [OF ifs] ok(8) [OF ifs] g(3) by (auto simp: fv file_ok_def split: if_splits)
  qed (use v(3) ok(7) in simp)
  show "log_step [Op_file_update N] fs fs'"
    unfolding log_step_def
  proof (intro conjI allI impI)
    have ino: "fn_ino N = i" using g(2) fl by (simp add: N node_at_def)
    show "tx_ops (fs_txn fs') = tx_ops (fs_txn fs) @ concat (map enc_op [Op_file_update N])" by (simp add: eq)
    have "fn_ino N < 2 ^ 63" using ok(4) [OF ifs] last ino by linarith
    from op_ok_update [OF N(2,4) this N(3)] show "\<forall>x \<in> set [Op_file_update N]. op_ok x" by (simp del: op_ok.simps)
    fix r l seq
    assume m: "mirrors r fs"
    then obtain x where x: "nview r i = Some x" using ifs f(2) by (auto simp: mirrors_def elim!: allE [of _ i] elim: option.rel_cases)
    have "fs_ok r" "nview r (fn_ino (reset_delta N)) = Some x" using m x ino by (simp_all add: mirrors_def)
    from replay_update_known [OF this] obtain r' where r': "replay_update (reset_delta N) r = Some r'" "fs_ok r'" "dirset r' = dirset r" "lview r' = lview r"
      "nview r' = (nview r)(i \<mapsto> reset_delta N)" using ino by auto
    have "logged (reset_delta N) ((g (file_at fs f))\<lparr>bf_fnode := reset_delta N\<rparr>)" by (rule logged_update [OF N(2)]) simp
    then have "mirrors r' fs'" using m r'(2-5) v fv by (auto simp: mirrors_def)
    then show "\<exists>r'. run_ops l (map op_read [Op_file_update N]) seq r = Some (Ops_done seq r') \<and> mirrors r' fs'" using r'(1) by simp
  qed
qed

text \<open>The same for an incremental update: the extents the log does not know yet.\<close>

lemma update_inc_logged:
  assumes live: "live_ok fs" and f: "map_of (fs_files fs) i = Some f" "i \<noteq> 1" and e: "encodable (node_at fs f)" and last: "fs_ino_last fs < 2 ^ 63"
    and fs': "fs' = op_file_update_inc f fs"
  shows "live_ok fs'" and "log_step [Op_file_update_inc (make_delta (node_at fs f))] fs fs'"
    and "fview fs' = (fview fs)(i \<mapsto> (file_at fs f)\<lparr>bf_fnode := reset_delta (node_at fs f)\<rparr>)" and "fs_ino_last fs' = fs_ino_last fs"
proof -
  note ok = live_okD [OF live] and okd = fs_okD [OF live_okD(1) [OF live]]
  define N where "N = node_at fs f"
  define D where "D = make_delta N"
  have fl: "f < length (fs_heap fs)" "fn_ino N = i" using okd(1,2) [OF f(1)] by (auto simp: N_def)
  have ifs: "fview fs i = Some (file_at fs f)" using f(1) by (simp add: fview_def)
  have nok: "node_ok N" "\<forall>e \<in> set (fn_extents N). bx_bdev e < 3" using ok(5,6) [OF ifs f(2)] by (auto simp: N_def node_at_def)
  have eq: "fs' = log_op (Op_file_update_inc D) (upd_node f reset_delta fs)"
    unfolding fs' op_file_update_inc_def D_def N_def by (simp add: upd_node_def upd_file_def log_op_def)
  have v: "fs_ok fs'" "dirset fs' = dirset fs" "lview fs' = lview fs"
    using upd_node_ok [OF ok(1), of reset_delta f] same_views [of fs' "upd_node f reset_delta fs"] by (simp_all add: eq)
  show fv: "fview fs' = (fview fs)(i \<mapsto> (file_at fs f)\<lparr>bf_fnode := reset_delta (node_at fs f)\<rparr>)"
    using fview_upd [OF ok(1) f(1)] same_fview [of fs' "upd_node f reset_delta fs"] by (simp add: eq upd_node_def node_at_def)
  have a: "allocs_ok fs'" using ok(2) allocs_ok_frame [of fs' "upd_node f reset_delta fs"] by (simp add: eq upd_node_def)
  show il: "fs_ino_last fs' = fs_ino_last fs" by (simp add: eq)
  show "live_ok fs'"
  proof (rule live_okI [OF live v(1) a il])
    fix j x
    assume "fview fs' j = Some x"
    then show "fview fs j = Some x \<or> j \<le> fs_ino_last fs \<and> file_ok j x"
      using nok node_ok_reset [OF nok(1)] ok(4) [OF ifs] ok(8) [OF ifs] by (auto simp: fv file_ok_def N_def split: if_splits)
  qed (use v(3) ok(7) in simp)
  show "log_step [Op_file_update_inc (make_delta (node_at fs f))] fs fs'"
    unfolding log_step_def N_def [symmetric] D_def [symmetric]
  proof (intro conjI allI impI)
    show "tx_ops (fs_txn fs') = tx_ops (fs_txn fs) @ concat (map enc_op [Op_file_update_inc D])" by (simp add: eq)
    have "fn_ino N < 2 ^ 63" using ok(4) [OF ifs] last fl(2) by linarith
    with op_ok_inc [OF nok(1)] e show "\<forall>x \<in> set [Op_file_update_inc D]. op_ok x" by (simp add: D_def N_def del: op_ok.simps)
    fix r l seq
    assume m: "mirrors r fs"
    then obtain n where n: "nview r i = Some n" "logged n (file_at fs f)" using ifs f(2) by (auto simp: mirrors_def elim!: allE [of _ i] elim: option.rel_cases)
    have Nf: "bf_fnode (file_at fs f) = N" by (simp add: N_def node_at_def)
    note L = logged_inc [OF n(2), unfolded Nf, OF nok(1), of "(file_at fs f)\<lparr>bf_fnode := reset_delta N\<rparr>", folded D_def]
    have D: "fd_ino D = i" using fl(2) by (simp add: D_def make_delta_def)
    have "fs_ok r" "nview r (fd_ino D) = Some n" "fd_offset D = fn_allocated n" using m n(1) D L(1) by (simp_all add: mirrors_def)
    from replay_inc_known [OF this] obtain r' where r': "replay_update_inc D r = Some r'" "fs_ok r'" "dirset r' = dirset r" "lview r' = lview r"
      "nview r' = (nview r)(i \<mapsto> claim_extents (fd_extents D) (n\<lparr>fn_mtime := fd_mtime D, fn_size := fd_size D\<rparr>))" using D by auto
    have "mirrors r' fs'" using m r'(2-5) v fv L(2) by (auto simp: mirrors_def N_def)
    then show "\<exists>r'. run_ops l (map op_read [Op_file_update_inc D]) seq r = Some (Ops_done seq r') \<and> mirrors r' fs'" using r'(1) by simp
  qed
qed

section \<open>Opening for writing\<close>

lemma with_vsel_plain: "plain fs \<Longrightarrow> \<exists>v. fs_vsel fs = Some v \<and> with_vsel (sub_usage h n) fs = Some v"
  by (auto simp: plain_def with_vsel_def usage_original)

lemma node_ok_empty: "node_ok (reset_delta (clear_extents n))" "fn_extents (clear_extents n) = []"
  by (simp_all add: node_ok_def fnode_wf_def exts_ok_iff clear_extents_def reset_delta_def)

text \<open>The end of \<open>open_for_write\<close>: pending releases and a writer.\<close>

lemma open_tail:
  assumes "live_ok a" and "\<forall>e \<in> set old. bx_bdev e < 3"
  shows "\<exists>b w c. add_pending old a = Some b \<and> create_writer f b = (w, c) \<and> unseen a c"
proof -
  note ok = live_okD [OF assms(1)]
  obtain p where p: "add_pending old a = Some (a\<lparr>fs_pending := p\<rparr>)" "length p = length (fs_pending a)"
    using add_pending_ok [of old a] assms(2) ok(2) by (auto simp: allocs_ok_def)
  define b where "b = a\<lparr>fs_pending := p\<rparr>"
  have al: "allocs_ok b" using ok(2) p(2) allocs_ok_frame [of b a] by (simp add: b_def)
  have ub: "unseen a b" using ok(1) al by (intro unseen_fields) (simp_all add: b_def)
  then have "fs_ok b" by (simp add: unseen_def)
  then have "unseen b (upd_file f (\<lambda>x. x\<lparr>bf_writers := bf_writers x + 1\<rparr>) b)" using al by (intro unseen_upd_file) (simp_all add: same_file_def)
  then show ?thesis using p(1) unseen_trans [OF ub] by (auto simp: create_writer_def b_def)
qed

lemma open_existing_logged:
  assumes live: "live_ok fs" and f: "lookup d n fs = Some f" and now: "now < 2 ^ 32 * 1000000000" and last: "fs_ino_last fs < 2 ^ 63"
    and fit: "fits fs"
  shows "\<exists>w fs' ops. open_for_write now d n ow fs = Some (0, Some w, fs') \<and> live_ok fs' \<and> log_step ops fs fs'"
proof -
  note ok = live_okD [OF live] and okd = fs_okD [OF live_okD(1) [OF live]]
  define i where "i = fn_ino (node_at fs f)"
  have fm: "map_of (fs_files fs) i = Some f" using okd(3) [OF f] by (simp add: i_def)
  have i1: "i \<noteq> 1" using ok(7) [of d n i] f by (simp add: lview_def i_def)
  have ifs: "fview fs i = Some (file_at fs f)" using fm by (simp add: fview_def)
  have fl: "f < length (fs_heap fs)" using okd(1) [OF fm] .
  have nok: "node_ok (node_at fs f)" "\<forall>e \<in> set (fn_extents (node_at fs f)). bx_bdev e < 3" using ok(5,6) [OF ifs i1] by (auto simp: node_at_def)
  have enc: "encodable (node_at fs f)" using fit ifs i1 by (auto simp: fits_def node_at_def)
  obtain m where m: "map_of (fs_dirs fs) d = Some m" "map_of m n = Some f" using f by (auto simp: lookup_def Option.bind_eq_Some_conv)
  obtain v where v: "fs_vsel fs = Some v" "with_vsel (sub_usage (bf_hint (file_at fs f)) (node_at fs f)) fs = Some v" using with_vsel_plain [OF okd(6)] by blast
  define k where "k = (\<lambda>x :: fnode. if ow then x\<lparr>fn_mtime := now\<rparr> else (clear_extents (x\<lparr>fn_size := 0\<rparr>))\<lparr>fn_mtime := now\<rparr>)"
  define g where "g = (\<lambda>x :: bfile. x\<lparr>bf_fnode := k (bf_fnode x)\<rparr>)"
  define old where "old = (if ow then [] else fn_extents (node_at fs f))"
  define fs2 where "fs2 = op_file_update f (upd_file f g fs)"
  define N where "N = k (node_at fs f)"
  have "node_ok (reset_delta N)"
  proof (cases ow)
    case True
    then show ?thesis using nok(1) by (simp add: N_def k_def node_ok_def fnode_wf_def reset_delta_def)
  next
    case False
    then show ?thesis by (simp add: N_def k_def node_ok_def fnode_wf_def exts_ok_iff clear_extents_def reset_delta_def)
  qed
  moreover have "\<forall>e \<in> set (fn_extents N). bx_bdev e < 3" using nok(2) by (simp add: N_def k_def clear_extents_def)
  moreover have "encodable N" using enc now by (simp add: N_def k_def clear_extents_def encodable_def)
  moreover have "N = bf_fnode (g (file_at fs f))" by (simp add: N_def g_def node_at_def)
  moreover have "fn_ino (bf_fnode (g x)) = fn_ino (bf_fnode x)" "bf_refs (g x) = bf_refs x" "bf_hint (g x) = bf_hint x" for x by (simp_all add: g_def k_def clear_extents_def)
  ultimately have U: "live_ok fs2" "log_step [Op_file_update N] fs fs2"
    using update_logged [OF live fm i1, of g N fs2] last by (simp_all add: fs2_def)
  have "\<forall>e \<in> set old. bx_bdev e < 3" using nok(2) by (simp add: old_def)
  from open_tail [OF U(1) this, of f] obtain b w c where T: "add_pending old fs2 = Some b" "create_writer f b = (w, c)" "unseen fs2 c" by blast
  have "fs\<lparr>fs_vsel := Some v\<rparr> = fs" using v(1) by simp
  moreover have "upd_node f (\<lambda>x. x\<lparr>fn_mtime := now\<rparr>) (upd_node f (\<lambda>x. clear_extents (x\<lparr>fn_size := 0\<rparr>)) fs) = upd_file f g fs" if "\<not> ow"
    using that fl by (simp add: upd_node_def upd_file_def g_def k_def)
  moreover have "upd_node f (\<lambda>x. x\<lparr>fn_mtime := now\<rparr>) fs = upd_file f g fs" if ow
    using that by (simp add: upd_node_def upd_file_def g_def k_def)
  ultimately have "open_for_write now d n ow fs = Some (0, Some w, c)"
    using m v(2) T(1,2) by (cases ow) (simp_all add: open_for_write_def fs2_def [symmetric] old_def)
  then show ?thesis using live_ok_unseen [OF U(1) T(3)] log_step_unseen [OF U(2) T(3)] by blast
qed

lemma link_new_ok:
  assumes ok: "fs_ok fs" and fresh: "nview fs i = None" and F: "fn_ino (bf_fnode F) = i" "bf_refs F = 1" and m: "map_of (fs_dirs fs) d = Some m" "map_of m n = None"
    and b: "b = fs\<lparr>fs_heap := fs_heap fs @ [F], fs_files := AList.update i (length (fs_heap fs)) (fs_files fs), fs_dirs := om_put d (om_put n (length (fs_heap fs)) m) (fs_dirs fs)\<rparr>"
  shows "fs_ok b" and "dirset b = dirset fs" and "lview b = put2 d n (Some i) (lview fs)" and "fview b = (fview fs)(i \<mapsto> F)"
proof -
  define f where "f = length (fs_heap fs)"
  define a where "a = fs\<lparr>fs_heap := fs_heap fs @ [F], fs_files := AList.update i f (fs_files fs)\<rparr>"
  have beq: "b = a\<lparr>fs_dirs := om_put d (om_put n f m) (fs_dirs fs)\<rparr>" by (simp add: b a_def f_def)
  note A = add_file_ok [OF ok fresh F(1), of a, folded f_def, OF a_def]
  have at: "file_at a f = F" "map_of (fs_files a) i = Some f" by (simp_all add: a_def f_def file_at_def map_of_update)
  have lk: "lookup x y b = put2 d n (Some f) (lk_of a) x y" for x y
    using m by (auto simp: beq lookup_def put2_apply lk_of_def a_def)
  have lt: "lookup x y fs \<noteq> Some f" for x y using A(6) [of x y f] by auto
  have rel: "relinked a b (put2 d n (Some f) (lk_of a)) (refs_of a)"
    using lk fs_okD(6) [OF A(1)] m(1) unfolding relinked_def refs_of_def beq by (auto simp: dirset_def a_def)
  have c1: "\<forall>x y h. put2 d n (Some f) (lk_of a) x y = Some h \<longrightarrow> map_of (fs_files a) (fn_ino (node_at a h)) = Some h \<and> refs_of a h = 1"
    using at F fs_okD(3,4) [OF A(1)] by (auto simp: put2_apply lk_of_def refs_of_def node_at_def split: if_splits)
  have c2: "\<forall>x y x' y' h. put2 d n (Some f) (lk_of a) x y = Some h \<longrightarrow> put2 d n (Some f) (lk_of a) x' y' = Some h \<longrightarrow> x = x' \<and> y = y'"
    using fs_okD(5) [OF A(1)] lt A(5) by (auto simp: put2_apply lk_of_def split: if_splits)
  note R = relinked_ok [OF A(1) rel c1 c2]
  show "fs_ok b" by (rule R(1))
  show "dirset b = dirset fs" using rel A(2) by (simp add: relinked_def)
  show "lview b = put2 d n (Some i) (lview fs)"
  proof (intro ext)
    fix x y
    show "lview b x y = put2 d n (Some i) (lview fs) x y"
      using fun_cong [OF fun_cong [OF R(3), of x], of y] at F(1) fun_cong [OF fun_cong [OF A(3), of x], of y] by (simp add: put2_apply lk_of_def lview_def node_at_def)
  qed
  show "fview b = (fview fs)(i \<mapsto> F)"
  proof
    fix j
    show "fview b j = ((fview fs)(i \<mapsto> F)) j"
      using at fs_okD(1) [OF ok, of j] by (cases "map_of (fs_files fs) j") (auto simp: fview_def b f_def map_of_update file_at_def nth_append)
  qed
qed

lemma open_create_logged:
  assumes live: "live_ok fs" and m: "map_of (fs_dirs fs) d = Some m" "map_of m n = None" and len: "length d < 2 ^ 32" "length n < 2 ^ 32"
    and now: "now < 2 ^ 32 * 1000000000" and last: "fs_ino_last fs < 2 ^ 63 - 1"
  shows "\<exists>w fs' ops. open_for_write now d n False fs = Some (0, Some w, fs') \<and> live_ok fs' \<and> log_step ops fs fs'"
proof -
  note ok = live_okD [OF live] and okd = fs_okD [OF live_okD(1) [OF live]]
  define i where "i = Suc (fs_ino_last fs)"
  define f where "f = length (fs_heap fs)"
  have i: "add64 (fs_ino_last fs) 1 = i" using last by (simp add: i_def add64_exact)
  have i1: "i \<noteq> 1" "i < 2 ^ 63" using ok(3) last by (auto simp: i_def)
  have "fview fs i = None" using ok(4) [of i] by (cases "fview fs i") (auto simp: i_def)
  then have fresh: "nview fs i = None" by (simp add: nview_fview)
  obtain v where v: "fs_vsel fs = Some v" using okd(6) by (auto simp: plain_def)
  have hv: "with_vsel (\<lambda>v. Some (get_hint_by_dir d v)) fs = Some (get_hint_by_dir d v)" using v by (simp add: with_vsel_def)
  have hint: "get_hint_by_dir d v < 3" using okd(6) v by (auto simp: plain_def orig_hint_by_dir_def)
  define N where "N = (fnode_new i 0 0)\<lparr>fn_mtime := now\<rparr>"
  define F where "F = (file_new i)\<lparr>bf_hint := get_hint_by_dir d v, bf_refs := 1, bf_fnode := N\<rparr>"
  define F0 where "F0 = (file_new i)\<lparr>bf_hint := get_hint_by_dir d v, bf_refs := 1\<rparr>"
  define fs1 where "fs1 = fs\<lparr>fs_heap := fs_heap fs @ [F0], fs_ino_last := i, fs_files := AList.update i f (fs_files fs), fs_dirs := om_put d (om_put n f m) (fs_dirs fs)\<rparr>"
  define b where "b = fs\<lparr>fs_heap := fs_heap fs @ [F], fs_files := AList.update i f (fs_files fs), fs_dirs := om_put d (om_put n f m) (fs_dirs fs)\<rparr>"
  define fs2 where "fs2 = op_file_update f (upd_node f (\<lambda>x. x\<lparr>fn_mtime := now\<rparr>) fs1)"
  define c where "c = log_op (Op_dir_link d n i) fs2"
  define ops where "ops = [Op_file_update N, Op_dir_link d n i]"
  have rN: "reset_delta N = N" "bf_fnode F = N" "fn_ino N = i" "bf_refs F = 1" by (simp_all add: N_def F_def reset_delta_def fnode_new_def)
  have fs2: "fs2 = log_op (Op_file_update N) (b\<lparr>fs_ino_last := i\<rparr>)"
    using rN(1) by (simp add: fs2_def op_file_update_def upd_node_def upd_file_def fs1_def b_def f_def node_at_def file_at_def log_op_def F0_def F_def file_new_def N_def)
  have n2: "fn_ino (node_at fs2 f) = i" using rN by (simp add: fs2 node_at_def file_at_def b_def f_def)
  note B = link_new_ok [OF ok(1) fresh, of F, OF _ rN(4) m, unfolded rN(2), OF rN(3), of b, folded f_def, OF b_def]
  have vc: "fs_ok c" "dirset c = dirset fs" "lview c = put2 d n (Some i) (lview fs)" "fview c = (fview fs)(i \<mapsto> F)"
    using B same_views [of c b] same_fview [of c b] by (simp_all add: c_def fs2)
  have ac: "allocs_ok c" using ok(2) allocs_ok_frame [of c fs] by (simp add: c_def fs2 b_def)
  have live_c: "live_ok c"
    unfolding live_ok_def
  proof (intro conjI allI impI)
    show "fs_ok c" "allocs_ok c" by fact+
    show "1 \<le> fs_ino_last c" by (simp add: c_def fs2 i_def)
    have F: "file_ok i F" using hint unfolding file_ok_def rN(2) by (simp add: F_def N_def fnode_new_def node_ok_def fnode_wf_def exts_ok_iff)
    have il: "fs_ino_last c = i" by (simp add: c_def fs2)
    fix j x
    assume "fview c j = Some x"
    then have "(if j = i then Some F else fview fs j) = Some x" by (simp add: vc(4))
    then consider "j = i" "x = F" | "fview fs j = Some x" by (cases "j = i") simp_all
    then have "j \<le> i \<and> file_ok j x"
    proof cases
      case 2
      then show ?thesis using live unfolding live_ok_def i_def by (metis le_SucI)
    qed (use F in simp)
    then show "j \<le> fs_ino_last c" "file_ok j x" by (simp_all add: il)
  next
    show "1 < j" if "lview c x y = Some j" for x y j using that ok(3) ok(7) [of x y j] by (auto simp: vc(3) put2_apply i_def split: if_splits)
  qed
  have "encodable N" using now by (simp add: N_def encodable_def fnode_new_def)
  have step: "log_step ops fs c"
    unfolding log_step_def
  proof (intro conjI allI impI)
    show "tx_ops (fs_txn c) = tx_ops (fs_txn fs) @ concat (map enc_op ops)" by (simp add: c_def fs2 b_def ops_def)
    have "node_ok (reset_delta N)" unfolding rN(1) by (simp add: N_def fnode_new_def node_ok_def fnode_wf_def exts_ok_iff)
    then have "op_ok (Op_file_update N)" using \<open>encodable N\<close> rN(3) i1 by (intro op_ok_update) (simp_all add: N_def fnode_new_def)
    then show "\<forall>x \<in> set ops. op_ok x" using len i1(2) by (simp add: ops_def del: op_ok.simps(6))
    fix r l seq
    assume mi: "mirrors r fs"
    have "rel_option logged (nview r i) (fview fs i)" using mi i1(1) by (auto simp: mirrors_def)
    then have "nview r i = None" using \<open>fview fs i = None\<close> by simp
    moreover have "fs_ok r" "d \<in> dirset r" "lview r d n = None" using mi m by (auto simp: mirrors_def dirset_def lview_def lookup_def)
    ultimately obtain q where q: "run_ops l [Op_file_update N, Op_dir_link d n i] seq r = Some (Ops_done seq q)" "fs_ok q" "dirset q = dirset r"
      "lview q = put2 d n (Some i) (lview r)" "nview q = (nview r)(i \<mapsto> N)" using replay_create [of r i N d n l seq] rN(3) by blast
    have "logged N F" using rN by (simp add: logged_def N_def fnode_new_def fnode_wf_def)
    then have "mirrors q c" using mi q(2-5) vc by (auto simp: mirrors_def)
    then show "\<exists>r'. run_ops l (map op_read ops) seq r = Some (Ops_done seq r') \<and> mirrors r' c" using q(1) rN(1) by (auto simp: ops_def)
  qed
  obtain b' w c' where T: "add_pending [] c = Some b'" "create_writer f b' = (w, c')" "unseen c c'" using open_tail [OF live_c, of "[]" f] by auto
  have "open_for_write now d n False fs = Some (0, Some w, c')"
    using m hv T(1,2) n2 unfolding open_for_write_def i new_file_def Let_def f_def [symmetric]
    by (simp add: F0_def [symmetric]) (simp add: fs1_def [symmetric] fs2_def [symmetric] c_def [symmetric])
  then show ?thesis using live_ok_unseen [OF live_c T(3)] log_step_unseen [OF step T(3)] by blast
qed

end
