(* ===== verification/Bluefs_Client.thy ===== *)
theory Bluefs_Client
  imports Bluefs_Open
begin

text \<open>
  Preallocation, and the programs of metadata calls: their log rebuilds the directories and the file nodes.
\<close>

section \<open>Preallocation\<close>

lemma alloc_fields_unseen:
  "fs_ok fs \<Longrightarrow> allocs_ok (fs\<lparr>fs_alloc := x, fs_shared_used := y\<rparr>) \<Longrightarrow> unseen fs (fs\<lparr>fs_alloc := x, fs_shared_used := y\<rparr>)"
  by (rule unseen_fields) simp_all

text \<open>A node that grew, before anything is logged: its image in the log is what it was.\<close>

lemma grow_unlogged:
  assumes live: "live_ok fs" and f: "map_of (fs_files fs) i = Some f" "i \<noteq> 1"
    and N: "N = claim_extents es (node_at fs f)" "\<forall>e \<in> set es. raw_ext e" "fn_allocated (node_at fs f) + total_length es < 2 ^ 64" "encodable N"
    and fs': "fs' = upd_node f (\<lambda>n. N) fs"
  shows "live_ok fs'" and "log_step [] fs fs'" and "fview fs' = (fview fs)(i \<mapsto> (file_at fs f)\<lparr>bf_fnode := N\<rparr>)"
proof -
  note ok = live_okD [OF live] and okd = fs_okD [OF live_okD(1) [OF live]]
  have ifs: "fview fs i = Some (file_at fs f)" using f(1) by (simp add: fview_def)
  have fl: "f < length (fs_heap fs)" using okd(1) [OF f(1)] .
  have nok: "node_ok (node_at fs f)" "\<forall>e \<in> set (fn_extents (node_at fs f)). bx_bdev e < 3" using ok(5,6) [OF ifs f(2)] by (auto simp: node_at_def)
  note C = claim_raw [OF nok(1) N(2,3) N(4) [unfolded N(1)] nok(2), folded N(1)]
  define g where "g = (\<lambda>x :: bfile. if bf_fnode x = node_at fs f then x\<lparr>bf_fnode := N\<rparr> else x)"
  have eq: "fs' = upd_file f g fs" by (simp add: fs' upd_node_def upd_file_def g_def node_at_def file_at_def)
  have ino: "fn_ino N = fn_ino (node_at fs f)" by (simp add: N(1) claim_extents_ino)
  have G: "bf_refs (g x) = bf_refs x" "fn_ino (bf_fnode (g x)) = fn_ino (bf_fnode x)" for x using ino by (simp_all add: g_def)
  note U = upd_file_ok [OF ok(1) G, of f, folded eq]
  show fv: "fview fs' = (fview fs)(i \<mapsto> (file_at fs f)\<lparr>bf_fnode := N\<rparr>)"
    using fview_upd [OF ok(1) f(1), of g] by (simp add: eq g_def node_at_def)
  have al: "allocs_ok fs'" using ok(2) by (simp add: eq)
  have il: "fs_ino_last fs' = fs_ino_last fs" by (simp add: eq)
  show "live_ok fs'"
  proof (rule live_okI [OF live U(1) al il])
    fix j x
    assume "fview fs' j = Some x"
    then show "fview fs j = Some x \<or> j \<le> fs_ino_last fs \<and> file_ok j x"
      using C(1,6) ok(4) [OF ifs] ok(8) [OF ifs] by (auto simp: fv file_ok_def split: if_splits)
  qed (use U(3) ok(7) in simp)
  have "logged n ((file_at fs f)\<lparr>bf_fnode := N\<rparr>)" if "logged n (file_at fs f)" for n
    using that C(2-5) ino by (auto simp: logged_def node_at_def)
  then have "mirrors r fs'" if m: "mirrors r fs" for r
  proof -
    have "rel_option logged (nview r j) (fview fs' j)" if "j \<noteq> 1" for j
    proof -
      have "rel_option logged (nview r j) (fview fs j)" using m that by (auto simp: mirrors_def)
      then show ?thesis using \<open>\<And>n. logged n (file_at fs f) \<Longrightarrow> _\<close> ifs by (cases "j = i"; cases "nview r j") (auto simp: fv)
    qed
    then show ?thesis using m U by (simp add: mirrors_def)
  qed
  then show "log_step [] fs fs'" by (simp add: log_step_def eq)
qed

lemma preallocate_logged:
  assumes live: "live_ok fs" and f: "lookup d n fs = Some f" and bound: "off + len < 2 ^ 62" and last: "fs_ino_last fs < 2 ^ 63"
  shows "\<exists>rc fs'. preallocate f off len fs = Some (rc, fs') \<and> (fits fs' \<longrightarrow> live_ok fs' \<and> (\<exists>ops. log_step ops fs fs'))"
proof -
  note ok = live_okD [OF live] and okd = fs_okD [OF live_okD(1) [OF live]]
  define i where "i = fn_ino (node_at fs f)"
  define node where "node = node_at fs f"
  have fm: "map_of (fs_files fs) i = Some f" using okd(3) [OF f] by (simp add: i_def)
  have i1: "1 < i" using ok(7) [of d n i] f by (simp add: lview_def i_def)
  have ifs: "fview fs i = Some (file_at fs f)" using fm by (simp add: fview_def)
  have a64: "add64 off len = off + len" using bound by (intro add64_exact) simp
  show ?thesis
  proof (cases "bf_deleted (file_at fs f) \<or> off + len \<le> fn_allocated node")
    case True
    then have "preallocate f off len fs = Some (0, fs)" using i1 a64 by (auto simp: preallocate_def i_def node_def)
    then show ?thesis using live log_step_refl by blast
  next
    case False
    have lta: "fn_allocated node < off + len" using False by simp
    define want where "want = off + len - fn_allocated node"
    define u where "u = cfg_alloc_size (fs_cfg fs)"
    have u: "isp2 u" "u < 2 ^ 32" and sz: "length (fs_bdev fs) = 3" "fs_alloc_size fs = replicate 3 0" using ok(2) by (auto simp: allocs_ok_def u_def)
    have s64: "sub64 (off + len) (fn_allocated node) = want" using False bound by (simp add: want_def sub64_exact)
    have w: "0 < want" "want < 2 ^ 62" using False bound by (auto simp: want_def)
    have up: "0 < u" using u(1) isp2_pos by simp
    have u64: "u < 2 ^ 64" and w64: "want \<le> 2 ^ 64 - u" using u(2) w(2) by simp_all
    define need where "need = p2roundup want u"
    have dv: "u dvd need" unfolding need_def by (rule p2roundup_dvd [OF u(1) u64 w64])
    have ge: "want \<le> need" unfolding need_def by (rule p2roundup_ge [OF u(1) u64 w64])
    have "need \<le> want + (u - 1)" unfolding need_def p2roundup_eq [OF u(1) u64 w64] by (rule div_times_less_eq_dividend)
    then have lt: "0 < need" "need < 2 ^ 63" and le: "need < want + 2 ^ 32" using w ge u(2) up by auto
    obtain a b c where vs: "fs_vsel fs = Some (Original a b c)" using okd(6) by (auto simp: plain_def)
    have h3: "bf_hint (file_at fs f) < 3" using ok(8) [OF ifs] i1 by simp
    define p where "p = bf_hint (file_at fs f)"
    have pr: "with_vsel (select_prefer_bdev (bf_hint (file_at fs f))) fs = Some p" using vs h3 by (simp add: with_vsel_def p_def)
    obtain rc node1 x y where A: "allocate_from [p..<3] need u node None fs = Some (rc, node1, None, fs\<lparr>fs_alloc := x, fs_shared_used := y\<rparr>)"
      "allocs_ok (fs\<lparr>fs_alloc := x, fs_shared_used := y\<rparr>)"
      "rc < 0 \<and> node1 = node \<or> rc = 0 \<and> (\<exists>es. node1 = claim_extents es node \<and> (\<forall>e \<in> set es. raw_ext e) \<and> total_length es = need)"
    proof -
      have sub: "set [p..<3] \<subseteq> {..<3}" by auto
      show thesis using allocate_from_ok [OF u lt dv ok(2) sub, of node] that by blast
    qed
    define fs1 where "fs1 = fs\<lparr>fs_alloc := x, fs_shared_used := y\<rparr>"
    have al: "bfs_allocate p want 0 node None fs = Some (rc, node1, None, fs1)"
      using A(1) h3 sz by (simp add: bfs_allocate_def p_def u_def [symmetric] need_def fs1_def)
    have un: "unseen fs fs1" using alloc_fields_unseen [OF ok(1) A(2)] by (simp add: fs1_def)
    note L1 = live_ok_unseen [OF live un] and S1 = log_step_unseen [OF log_step_refl un]
    define fs2 where "fs2 = op_file_update_inc f (upd_node f (\<lambda>n. node1) fs1)"
    have run: "preallocate f off len fs = Some (if rc < 0 then (rc, fs1) else (0, fs2))"
      using False i1 a64 s64 pr al by (simp add: preallocate_def i_def node_def [symmetric] fs2_def)
    show ?thesis
    proof (cases "rc < 0")
      case True
      then show ?thesis using run L1 S1 by auto
    next
      case False
      then obtain es where es: "node1 = claim_extents es node" "\<forall>e \<in> set es. raw_ext e" "total_length es = need" using A(3) by auto
      have nat1: "node_at fs1 f = node" "map_of (fs_files fs1) i = Some f" "fs_ino_last fs1 = fs_ino_last fs"
        using fm by (simp_all add: fs1_def node_def node_at_def file_at_def)
      have tot: "fn_allocated (node_at fs1 f) + total_length es < 2 ^ 64" using nat1(1) es(3) le bound lta by (simp add: want_def)
      define fsA where "fsA = upd_node f (\<lambda>n. node1) fs1"
      have fl: "f < length (fs_heap fs1)" using fs_okD(1) [OF live_okD(1) [OF L1] nat1(2)] .
      have nA: "node_at fsA f = node1" using fl by (simp add: fsA_def)
      have ex: "live_ok fs2 \<and> (\<exists>ops. log_step ops fs fs2)" if fit: "fits fs2"
      proof -
        have "fview fs2 i = Some ((file_at fsA f)\<lparr>bf_fnode := reset_delta node1\<rparr>)"
          using nat1(2) fl nA unfolding fs2_def fsA_def [symmetric] op_file_update_inc_def
          by (simp add: fview_def upd_node_def node_at_def) (simp add: fsA_def)
        then have enc: "encodable node1" using fit i1 by (force simp: fits_def)
        have i1': "i \<noteq> 1" using i1 by simp
        note G = grow_unlogged [OF L1 nat1(2) i1' _ es(2) tot enc, unfolded nat1(1), OF es(1) fsA_def]
        have fA: "map_of (fs_files fsA) i = Some f" "fs_ino_last fsA < 2 ^ 63" using nat1 last by (simp_all add: fsA_def)
        note I = update_inc_logged [OF G(1) fA(1) i1' _ fA(2), unfolded nA, OF enc, of fs2]
        have "fs2 = op_file_update_inc f fsA" by (simp add: fs2_def fsA_def)
        then show ?thesis using I log_step_trans [OF log_step_trans [OF S1 G(2)]] by blast
      qed
      then show ?thesis using run False by auto
    qed
  qed
qed

section \<open>Programs of metadata calls\<close>

datatype call =
    Mkdir bytes
  | Rmdir bytes
  | Open u64 bytes bytes bool
  | Unlink bytes bytes
  | Rename bytes bytes bytes bytes
  | Preallocate bytes bytes u64 u64

fun call_step :: "call \<Rightarrow> bluefs \<Rightarrow> (int \<times> bluefs) option" where
  "call_step (Mkdir d) fs = Some (mkdir d fs)"
| "call_step (Rmdir d) fs = Some (rmdir d fs)"
| "call_step (Open now d n ow) fs = map_option (\<lambda>(rc, w, fs'). (rc, fs')) (open_for_write now d n ow fs)"
| "call_step (Unlink d n) fs = unlink d n fs"
| "call_step (Rename od on nd nn) fs = Some (rename od on nd nn fs)"
| "call_step (Preallocate d n off len) fs =
     (case lookup d n fs of None \<Rightarrow> Some (- ENOENT, fs) | Some f \<Rightarrow> preallocate f off len fs)"

text \<open>What the callers must respect: names below 4 GiB, times and offsets the log can hold, no renaming of a file to itself.\<close>

fun call_ok :: "call \<Rightarrow> bool" where
  "call_ok (Mkdir d) \<longleftrightarrow> length d < 2 ^ 32"
| "call_ok (Rmdir d) \<longleftrightarrow> length d < 2 ^ 32"
| "call_ok (Open now d n ow) \<longleftrightarrow> length d < 2 ^ 32 \<and> length n < 2 ^ 32 \<and> now < 2 ^ 32 * 1000000000"
| "call_ok (Unlink d n) \<longleftrightarrow> length d < 2 ^ 32 \<and> length n < 2 ^ 32"
| "call_ok (Rename od on nd nn) \<longleftrightarrow> length od < 2 ^ 32 \<and> length on < 2 ^ 32 \<and> length nd < 2 ^ 32 \<and> length nn < 2 ^ 32 \<and> (od, on) \<noteq> (nd, nn)"
| "call_ok (Preallocate d n off len) \<longleftrightarrow> off + len < 2 ^ 62"

lemma open_logged:
  assumes live: "live_ok fs" and "fits fs" and "length d < 2 ^ 32" "length n < 2 ^ 32" and "now < 2 ^ 32 * 1000000000"
  shows "\<exists>rc w fs' ops. open_for_write now d n ow fs = Some (rc, w, fs') \<and> live_ok fs' \<and> log_step ops fs fs'"
proof -
  have last: "fs_ino_last fs < 2 ^ 63 - 1" using assms(2) by (simp add: fits_def)
  then have last': "fs_ino_last fs < 2 ^ 63" by simp
  show ?thesis
  proof (cases "map_of (fs_dirs fs) d")
    case None
    then have "open_for_write now d n ow fs = Some (- ENOENT, None, fs)" by (simp add: open_for_write_def)
    then show ?thesis using live log_step_refl by blast
  next
    case (Some m)
    show ?thesis
    proof (cases "map_of m n")
      case None
      show ?thesis
      proof (cases ow)
        case True
        then have "open_for_write now d n ow fs = Some (- ENOENT, None, fs)" using Some None by (simp add: open_for_write_def)
        then show ?thesis using live log_step_refl by blast
      next
        case False
        then show ?thesis using open_create_logged [OF live Some None assms(3-5) last] by auto
      qed
    next
      case f: (Some f)
      have "lookup d n fs = Some f" using Some f by (simp add: lookup_def)
      from open_existing_logged [OF live this assms(5) last' assms(2)] show ?thesis by blast
    qed
  qed
qed

lemma call_logged:
  assumes live: "live_ok fs" and fit: "fits fs" and c: "call_ok c"
  shows "\<exists>rc fs'. call_step c fs = Some (rc, fs') \<and> (fits fs' \<longrightarrow> live_ok fs' \<and> (\<exists>ops. log_step ops fs fs'))"
proof -
  have last: "fs_ino_last fs < 2 ^ 63" using fit by (simp add: fits_def)
  show ?thesis
  proof (cases c)
    case (Mkdir d)
    then show ?thesis using mkdir_logged [OF live, of d] c by auto
  next
    case (Rmdir d)
    then show ?thesis using rmdir_logged [OF live, of d] c by auto
  next
    case (Open now d n ow)
    have o: "length d < 2 ^ 32" "length n < 2 ^ 32" "now < 2 ^ 32 * 1000000000" using c Open by simp_all
    obtain rc w fs' ops where "open_for_write now d n ow fs = Some (rc, w, fs')" "live_ok fs'" "log_step ops fs fs'" using open_logged [OF live fit o, of ow] by blast
    then show ?thesis using Open by auto
  next
    case (Unlink d n)
    have o: "length d < 2 ^ 32" "length n < 2 ^ 32" using c Unlink by simp_all
    from unlink_logged [OF live o last] show ?thesis using Unlink by auto
  next
    case (Rename od on nd nn)
    have o: "length od < 2 ^ 32" "length on < 2 ^ 32" "length nd < 2 ^ 32" "length nn < 2 ^ 32" "(od, on) \<noteq> (nd, nn)" using c Rename by simp_all
    from rename_logged [OF live o last] show ?thesis using Rename by auto
  next
    case (Preallocate d n off len)
    have o: "off + len < 2 ^ 62" using c Preallocate by simp
    show ?thesis
    proof (cases "lookup d n fs")
      case None
      then show ?thesis using Preallocate live log_step_refl by auto
    next
      case (Some f)
      from preallocate_logged [OF live Some o last] show ?thesis using Preallocate Some by simp
    qed
  qed
qed

text \<open>A program, with the capacity of the log format as the only condition on the states it passes.\<close>

fun run_calls :: "call list \<Rightarrow> bluefs \<Rightarrow> bluefs option" where
  "run_calls [] fs = Some fs"
| "run_calls (c # cs) fs = do { (rc, fs') \<leftarrow> call_step c fs; run_calls cs fs' }"

fun calls_fit :: "call list \<Rightarrow> bluefs \<Rightarrow> bool" where
  "calls_fit [] fs \<longleftrightarrow> fits fs"
| "calls_fit (c # cs) fs \<longleftrightarrow> fits fs \<and> (case call_step c fs of None \<Rightarrow> True | Some (rc, fs') \<Rightarrow> calls_fit cs fs')"

lemma calls_fit_fits: "calls_fit cs fs \<Longrightarrow> fits fs"
  by (cases cs) simp_all

lemma run_calls_logged:
  "live_ok fs \<Longrightarrow> \<forall>c \<in> set cs. call_ok c \<Longrightarrow> calls_fit cs fs \<Longrightarrow> \<exists>fs' ops. run_calls cs fs = Some fs' \<and> live_ok fs' \<and> log_step ops fs fs'"
proof (induction cs arbitrary: fs)
  case Nil
  then show ?case using log_step_refl by auto
next
  case (Cons c cs)
  have fit: "fits fs" and c: "call_ok c" using Cons.prems by auto
  obtain rc fs1 where s: "call_step c fs = Some (rc, fs1)" "fits fs1 \<longrightarrow> live_ok fs1 \<and> (\<exists>ops. log_step ops fs fs1)"
    using call_logged [OF Cons.prems(1) fit c] by blast
  have f1: "calls_fit cs fs1" using Cons.prems(3) s(1) by simp
  obtain xs where xs: "live_ok fs1" "log_step xs fs fs1" using s(2) calls_fit_fits [OF f1] by blast
  obtain fs' ys where "run_calls cs fs1 = Some fs'" "live_ok fs'" "log_step ys fs1 fs'" using Cons.IH [OF xs(1) _ f1] Cons.prems(2) by auto
  then show ?case using s(1) log_step_trans [OF xs(2)] by auto
qed

text \<open>
  C9: The log of BlueFS describes its metadata, with the original volume selector. Any sequence of the calls that create and remove directories, open, remove
  and rename files and preallocate space, started with an empty transaction on a consistent file system, succeeds or
  returns an error code; no assertion fails. Replaying the bytes of the transaction it leaves, on any file system with
  the same logged metadata, ends normally and gives the same directories, the same names with the same inode numbers and
  the same nodes: number, time, extents as far as they are committed, and the size if the file is clean.
\<close>

theorem log_replays_calls:
  assumes "live_ok fs" and "tx_ops (fs_txn fs) = []" and "mirrors r fs" and "\<forall>c \<in> set cs. call_ok c" and "calls_fit cs fs"
  shows "\<exists>fs' r'. run_calls cs fs = Some fs' \<and> replay_ops l (tx_ops (fs_txn fs')) seq r = Some (Ops_done seq r') \<and> mirrors r' fs'"
proof -
  obtain fs' ops where s: "run_calls cs fs = Some fs'" "log_step ops fs fs'" using run_calls_logged [OF assms(1,4,5)] by blast
  obtain r' where r': "run_ops l (map op_read ops) seq r = Some (Ops_done seq r')" "mirrors r' fs'" using s(2) assms(3) unfolding log_step_def by blast
  have "tx_ops (fs_txn fs') = concat (map enc_op ops)" "\<forall>x \<in> set ops. op_ok x" using s(2) assms(2) by (simp_all add: log_step_def)
  then show ?thesis using s(1) r' replay_ops_enc [of ops l seq r] by auto
qed

text \<open>A file system with one device, as it is after it was created and mounted.\<close>

definition bfs_sample :: bluefs where
  "bfs_sample = (bluefs_new (default_config\<lparr>cfg_alloc_size := 4096\<rparr>) 0)
     \<lparr>fs_vsel := Some (Original 0 65536 0), fs_heap := [file_new 1], fs_files := [(1, 0)], fs_ino_last := 1,
      fs_bdev := [None, Some kd_sample, None], fs_alloc := [None, Some avl_sample, None]\<rparr>"

definition sample_calls :: "call list" where
  "sample_calls = [Mkdir [100], Open 7 [100] [97] False, Rename [100] [97] [100] [98], Mkdir [100]]"

lemma nth_3: "i < 3 \<Longrightarrow> [x, y, z] ! i = (if i = 0 then x else if i = 1 then y else z)"
  by (cases i; cases "i - 1") auto

lemma bfs_sample_ok: "live_ok bfs_sample" "mirrors bfs_sample bfs_sample" "tx_ops (fs_txn bfs_sample) = []"
proof -
  have al: "allocs_ok bfs_sample"
    using avl_sample_inv isp2_4096
    by (auto simp: avl_sample_def allocs_ok_def alloc_at_def dev_at_def bfs_sample_def bluefs_new_def default_config_def nth_3 split: if_splits)
  have fs: "fs_ok bfs_sample"
    by (simp add: fs_ok_def bfs_sample_def bluefs_new_def lookup_def plain_def node_at_def file_at_def file_new_def fnode_new_def)
  have fv: "fview bfs_sample i = (if i = 1 then Some (file_new 1) else None)" for i
    by (simp add: fview_def bfs_sample_def bluefs_new_def file_at_def)
  have lv: "lview bfs_sample d n = None" for d n by (simp add: lview_def lookup_def bfs_sample_def bluefs_new_def)
  show "live_ok bfs_sample" using al fs fv lv by (simp add: live_ok_def file_ok_def) (simp add: bfs_sample_def bluefs_new_def)
  show "mirrors bfs_sample bfs_sample" using fs fv by (simp add: mirrors_def nview_fview)
  show "tx_ops (fs_txn bfs_sample) = []" by (simp add: bfs_sample_def bluefs_new_def txn_new_def)
qed

lemmas sample_unfold = bfs_sample_def bluefs_new_def mkdir_def open_for_write_def rename_def lookup_def log_op_def with_vsel_def new_file_def
  op_file_update_def upd_node_def upd_file_def create_writer_def add_pending_def node_at_def file_at_def

theorem log_replays_calls_witness:
  "\<exists>fs' r'. run_calls sample_calls bfs_sample = Some fs' \<and> replay_ops 0 (tx_ops (fs_txn fs')) 1 bfs_sample = Some (Ops_done 1 r') \<and> mirrors r' fs'"
proof -
  have "calls_fit sample_calls bfs_sample"
    by (auto simp: sample_calls_def sample_unfold fits_def fview_def encodable_def file_new_def fnode_new_def reset_delta_def add64_def
        orig_hint_by_dir_def split: if_splits simp del: enc_op.simps)
  moreover have "\<forall>c \<in> set sample_calls. call_ok c" by (simp add: sample_calls_def)
  ultimately show ?thesis using log_replays_calls [OF bfs_sample_ok(1,3,2), of sample_calls 0 1] by blast
qed

end
