(* ===== verification/Bluefs_Faults.thy ===== *)
theory Bluefs_Faults
  imports Bluefs_Client
begin

text \<open>
  Behaviour of BlueFS that its callers will not expect: compaction that never runs, appended data that is dropped when a
  flush fails, a log that cannot be replayed once it has grown, a rename that loses its file, a read that does not end.
\<close>

section \<open>Compaction\<close>

lemma should_compact_same: "map_of (fs_files fs) 1 = Some l \<Longrightarrow> snd (should_compact fs) = fs"
  by (simp add: should_compact_def get_file_def Let_def)

lemma should_compact_file:
  assumes "should_compact fs = (go, fs1)"
  shows "get_file 1 fs1 = get_file 1 fs"
proof -
  obtain l fs2 where g: "get_file 1 fs = (l, fs2)" by fastforce
  have "fs1 = fs \<or> fs1 = fs2" using assms g by (auto simp: should_compact_def Let_def split: if_splits)
  moreover have "get_file 1 fs2 = (l, fs2)" using g by (auto simp: get_file_def new_file_def Let_def map_of_update split: option.splits)
  ultimately show ?thesis using g by auto
qed

lemma compact_log_idle: "compact_log fs = Some (0, fs)"
proof (cases "fs_compacting fs")
  case False
  then have "fs\<lparr>fs_compacting := True\<rparr>\<lparr>fs_compacting := False\<rparr> = fs" by simp
  then show ?thesis using False by (simp add: compact_log_def should_compact_def)
qed (simp add: compact_log_def)

lemma maybe_compact_idle: "maybe_compact_log fs = Some (snd (should_compact fs))"
  by (simp add: maybe_compact_log_def compact_log_idle split: prod.splits)

lemma get_file_there: "get_file i fs = (l, fs1) \<Longrightarrow> map_of (fs_files fs1) i = Some l"
  by (auto simp: get_file_def new_file_def Let_def map_of_update split: option.splits)

lemma write_super_files: "write_super b fs = (r, fs1) \<Longrightarrow> fs_files fs1 = fs_files fs"
  by (auto simp: write_super_def set_dev_def Let_def split: option.splits prod.splits if_splits)

lemma flush_db_files: "fs_files (flush_db fs) = fs_files fs"
  by (simp add: flush_db_def set_dev_def split: option.split)

text \<open>
  The metadata log is never compacted. \<open>_compact_log_async\<close> sets the flag \<open>log_is_compacting_\<close> and then asks
  \<open>_should_compact\<close>, which answers no while the flag is set. So \<open>compact_log\<close> does nothing in every state, and
  \<open>sync_metadata\<close> and \<open>umount\<close> do the same with and without \<open>avoid_compact\<close>.
\<close>

theorem compaction_never_runs:
  "compact_log fs = Some (0, fs) \<and> sync_metadata False fs = sync_metadata True fs \<and> umount False fs = umount True fs"
proof (intro conjI)
  show "compact_log fs = Some (0, fs)" by (rule compact_log_idle)
  have idle: "maybe_compact_log (flush_db fs3) = Some (flush_db fs3)"
    if "get_file 1 fs1 = (l, fs2)" "write_super BDEV_DB (fs2\<lparr>fs_super := s\<rparr>) = (r, fs3)" for fs1 l fs2 s r fs3
    using should_compact_same [of "flush_db fs3" l] get_file_there [OF that(1)] write_super_files [OF that(2)] flush_db_files by (simp add: maybe_compact_idle)
  show "sync_metadata False fs = sync_metadata True fs"
    unfolding sync_metadata_def Let_def by (auto simp: idle split: prod.splits intro!: Option.bind_cong)
  have gf: "get_file (Suc 0) (snd (should_compact b)) = get_file (Suc 0) b" for b
    using should_compact_file [of b "fst (should_compact b)" "snd (should_compact b)"] by simp
  show "umount False fs = umount True fs"
    unfolding umount_def maybe_compact_idle Let_def by (auto simp: gf split: prod.splits intro!: Option.bind_cong)
qed

section \<open>Failed flushes\<close>

lemma write_extents_buffer:
  "write_extents es x bl bf w fs = Some (r, rem, w1, fs1) \<Longrightarrow>
   bw_buffer w1 = bw_buffer w \<and> bw_pos w1 = bw_pos w \<and> bw_file w1 = bw_file w"
proof (induction es arbitrary: x bl w fs)
  case (Cons e es)
  show ?case
  proof (cases "bl = []")
    case False
    define n where "n = min (sub64 (bx_length e) x) (length bl)"
    from Cons.prems False obtain d where d: "dev_at fs (bx_bdev e) = Some d" by (cases "dev_at fs (bx_bdev e)") simp_all
    obtain rc d1 where k: "kd_write (add64 (bx_offset e) x) [take n bl] bf d = (rc, d1)" by fastforce
    show ?thesis
    proof (cases "rc < 0")
      case True
      then show ?thesis using Cons.prems False d k by (simp add: n_def [symmetric])
    next
      case ok: False
      then have "write_extents es 0 (drop n bl) bf (w\<lparr>bw_dirty := (bw_dirty w)[bx_bdev e := True]\<rparr>) (set_dev (bx_bdev e) d1 fs) = Some (r, rem, w1, fs1)"
        using Cons.prems False d k by (simp add: n_def [symmetric])
      from Cons.IH [OF this] show ?thesis by simp
    qed
  qed (use Cons.prems in simp)
qed simp

lemma flush_data_buffer:
  "flush_data w off len bl bf fs = Some (r, w1, fs1) \<Longrightarrow> bw_buffer w1 = bw_buffer w \<and> bw_pos w1 = bw_pos w \<and> bw_file w1 = bw_file w"
  by (auto simp: flush_data_def Let_def Option.bind_eq_Some_conv split: if_splits option.splits dest: write_extents_buffer)

lemma bind_all: "Option.bind m f = Some y \<Longrightarrow> (\<And>x. m = Some x \<Longrightarrow> f x = Some y \<Longrightarrow> P) \<Longrightarrow> P"
  by (cases m) simp_all

lemma bind_then: "Option.bind m f = Some y \<Longrightarrow> (\<And>x. f x = Some y \<Longrightarrow> P) \<Longrightarrow> P"
  by (cases m) simp_all

lemma flush_range_F_buffer:
  assumes "flush_range_F w off len bl fs = Some (r, w1, fs1)"
  shows "bw_buffer w1 = bw_buffer w \<and> (r < 0 \<longrightarrow> bw_pos w1 = bw_pos w)"
proof (cases "bf_deleted (file_at fs (bw_file w)) \<or> add64 off len \<le> bw_pos w")
  case True
  then show ?thesis using assms by (auto simp: flush_range_F_def Let_def split: if_splits)
next
  case False
  have data: "bw_buffer w2 = bw_buffer w \<and> bw_pos w2 = bw_pos w"
    if "(case bl of None \<Rightarrow> Some (0, w, fs2)
         | Some bl \<Rightarrow> if bl \<noteq> [] then flush_data w o1 (length bl) bl c fs2 else Some (0, w, fs2)) = Some (rc, w2, fs3)"
    for o1 c fs2 rc w2 fs3
    using that by (auto split: option.splits if_splits dest: flush_data_buffer)
  obtain o2 l2 where ol: "(if off < bw_pos w then (bw_pos w, sub64 len (bw_pos w - off)) else (off, len)) = (o2, l2)" by fastforce
  from False assms show ?thesis
    unfolding flush_range_F_def Let_def de_Morgan_disj
    apply (simp only: if_False ol prod.case simp_thms)
    apply (erule bind_then)
    apply (simp only: split_paired_all prod.case)
    apply (split if_split_asm)
     apply simp
    apply (erule bind_then)
    apply (erule bind_all)
    apply (simp only: split_paired_all prod.case)
    apply (drule data)
    apply (auto split: if_splits)
    done
qed

text \<open>
  C33: A flush that fails drops the data. \<open>_flush_F\<close> takes the bytes out of the writer before it allocates space and
  writes them. After an error, whatever its cause, the buffer is empty and the position is where it was, so that the next
  \<open>flush\<close> or \<open>fsync\<close> has nothing to do and reports success.
\<close>

theorem failed_flush_drops_data:
  assumes "flush_F w force fs = Some (r, w1, fs1)" and "r < 0"
  shows "bw_buffer w1 = [] \<and> bw_pos w1 = bw_pos w \<and> flush_F w1 force1 fs2 = Some (0, w1, fs2)"
proof -
  obtain bl w0 where b: "flush_buffer (io_block_size fs) (sub64 (io_block_size fs) 1) w = (bl, w0)" by fastforce
  then have w0: "bw_buffer w0 = []" "bw_pos w0 = bw_pos w" by (auto simp: flush_buffer_def Let_def)
  have "flush_range_F w0 (bw_pos w0) (get_buffer_length w) (Some bl) fs = Some (r, w1, fs1)"
    using assms b by (auto simp: flush_F_def Let_def split: if_splits)
  from flush_range_F_buffer [OF this] assms(2) w0 have "bw_buffer w1 = []" "bw_pos w1 = bw_pos w" by auto
  then show ?thesis by (simp add: flush_F_def get_buffer_length_def)
qed

text \<open>A file system with one open file, a byte to write and no device to put it on.\<close>

definition full_sample :: bluefs where
  "full_sample = (bluefs_new (default_config\<lparr>cfg_buffered_io := True\<rparr>) 0)\<lparr>fs_vsel := Some (Original 0 0 0), fs_heap := [file_new 2]\<rparr>"

definition full_writer :: bwriter where
  "full_writer = \<lparr>bw_file = 0, bw_pos = 0, bw_buffer = [65], bw_tail = [], bw_iocv = [False, False, False], bw_dirty = [False, False, False]\<rparr>"

lemma full_flush: "flush_F full_writer True full_sample = Some (- ENOSPC, full_writer\<lparr>bw_buffer := []\<rparr>, full_sample)"
  by (simp add: flush_F_def full_sample_def full_writer_def get_buffer_length_def io_block_size_def flush_buffer_def flush_range_F_def file_at_def
      node_at_def bluefs_new_def default_config_def file_new_def fnode_new_def with_vsel_def bfs_allocate_def dev_at_def add64_def sub64_def upt_rec)

theorem failed_flush_drops_data_witness:
  "flush_F full_writer True full_sample = Some (- ENOSPC, full_writer\<lparr>bw_buffer := []\<rparr>, full_sample) \<and>
   flush_F (full_writer\<lparr>bw_buffer := []\<rparr>) True full_sample = Some (0, full_writer\<lparr>bw_buffer := []\<rparr>, full_sample)"
  using failed_flush_drops_data [OF full_flush] full_flush by simp

section \<open>Renaming\<close>

text \<open>
  A rename of a file to its own name answers 0 and loses the file. \<open>rename\<close> stores the file under the new name and
  then erases the old one, and does not notice that the two are the same.
\<close>

theorem rename_to_itself_loses:
  assumes "lookup d n fs = Some r"
  shows "\<exists>fs1. rename d n d n fs = (0, fs1) \<and> lookup d n fs1 = None"
proof -
  obtain m where m: "map_of (fs_dirs fs) d = Some m" "map_of m n = Some r"
    using assms by (auto simp: lookup_def bind_eq_Some_conv)
  then show ?thesis using assms by (simp add: lookup_def rename_def log_op_def map_of_delete)
qed

theorem rename_to_itself_loses_witness:
  "\<exists>fs1. rename [100] [97] [100] [97] (bfs_sample\<lparr>fs_dirs := [([100], [([97], 0)])]\<rparr>) = (0, fs1) \<and> lookup [100] [97] fs1 = None"
  by (rule rename_to_itself_loses [of _ _ _ 0]) (simp add: lookup_def)

section \<open>A log that has grown\<close>

lemma allocate_from_frame:
  "allocate_from js need u node ht fs = Some (r, node1, ht1, fs1) \<Longrightarrow>
   (\<exists>es. node1 = claim_extents es node) \<and> fs_heap fs1 = fs_heap fs \<and> fs_txn fs1 = fs_txn fs"
proof (induction js arbitrary: fs)
  case Nil
  then show ?case by (auto simp: claim_extents_def intro: exI [of _ "[]"])
next
  case (Cons i js)
  show ?case
  proof (cases "dev_at fs i = None \<or> alloc_at fs i = None")
    case True
    then show ?thesis using Cons by (auto split: if_splits)
  next
    case False
    then obtain dv a where a: "dev_at fs i = Some dv" "alloc_at fs i = Some a" by auto
    with Cons.prems obtain rc xs a1 where al: "avl_allocate need u 0 a = Some (rc, xs, a1)" by (auto simp: bind_eq_Some_conv)
    show ?thesis
    proof (cases "rc < 0 \<or> nat rc < need")
      case short: True
      show ?thesis
      proof (cases "rc > 0")
        case True
        with short a al Cons.prems obtain a2 fs2 where "allocate_from js need u node ht fs2 = Some (r, node1, ht1, fs1)"
          and "fs2 = (let f = set_alloc i a2 (set_alloc i a1 fs) in if is_shared_alloc i fs then f\<lparr>fs_shared_used := sub64 (fs_shared_used f) (nat rc)\<rparr> else f)"
          by (auto simp: bind_eq_Some_conv Let_def)
        then show ?thesis using Cons.IH [of fs2] by (simp add: set_alloc_def Let_def split: if_splits)
      next
        case False
        with short a al Cons.prems have "allocate_from js need u node ht (set_alloc i a1 fs) = Some (r, node1, ht1, fs1)" by simp
        from Cons.IH [OF this] show ?thesis by (simp add: set_alloc_def)
      qed
    next
      case False
      then show ?thesis using a al Cons.prems by (auto simp: set_alloc_def Let_def split: option.splits if_splits)
    qed
  qed
qed

lemma claim_extents_committed: "fn_committed (claim_extents es f) = fn_committed f" "fn_ino (claim_extents es f) = fn_ino f"
  by (induction es arbitrary: f) (simp_all add: claim_extents_def append_extent_def Let_def)

text \<open>
  C32: A log that has grown cannot be replayed. \<open>_maybe_extend_log\<close> records the growth of the log in the log itself, as an
  increment over the old length. The superblock is written with the node of the grown log, and \<open>mount\<close> starts from that
  node: when the replay comes to the increment, the length is not the one the increment starts from, and the assertion
  fails.
\<close>

theorem grown_log_unreplayable:
  assumes "fs_writer fs = Some w" and "bw_file w < length (fs_heap fs)"
    and "fn_committed (node_at fs (bw_file w)) = fn_allocated (node_at fs (bw_file w))"
    and "maybe_extend_log fs = Some (0, fs1)"
    and "fn_allocated (node_at fs1 (bw_file w)) \<noteq> fn_allocated (node_at fs (bw_file w))"
  shows "\<exists>d. tx_ops (fs_txn fs1) = tx_ops (fs_txn fs) @ enc_op (Op_file_update_inc d) \<and> fd_ino d = fn_ino (node_at fs (bw_file w)) \<and>
    (\<forall>sz seq rs r. map_of (fs_files rs) (fd_ino d) = Some r \<and> node_at rs r = node_at fs1 (bw_file w) \<longrightarrow>
       replay_op sz (Op_file_update_inc d) seq rs = None)"
proof -
  define l where "l = bw_file w"
  obtain p len rc node1 ht fs2 where al: "bfs_allocate p len (cfg_alloc_size (fs_cfg fs)) (node_at fs l) (Some 0) fs = Some (rc, node1, ht, fs2)"
    and fs1: "fs1 = op_file_update_inc l (upd_node l (\<lambda>n. node1) fs2)"
    using assms(1,4,5) by (auto simp: maybe_extend_log_def l_def [symmetric] Let_def bind_eq_Some_conv split: if_splits)
  obtain js need u where "allocate_from js need u (node_at fs l) (Some 0) fs = Some (rc, node1, ht, fs2)"
    using al by (auto simp: bfs_allocate_def Let_def split: if_splits)
  then have n: "fn_committed node1 = fn_committed (node_at fs l)" "fn_ino node1 = fn_ino (node_at fs l)"
    and h: "fs_heap fs2 = fs_heap fs" "fs_txn fs2 = fs_txn fs"
    using allocate_from_frame [of js need u "node_at fs l" "Some 0" fs rc node1 ht fs2] by (auto simp: claim_extents_committed)
  have "node_at fs1 l = reset_delta node1" "tx_ops (fs_txn fs1) = tx_ops (fs_txn fs) @ enc_op (Op_file_update_inc (make_delta node1))"
    using assms(2) h by (simp_all add: fs1 op_file_update_inc_def upd_node_def upd_file_def node_at_def file_at_def log_op_def l_def)
  moreover have "fd_offset (make_delta node1) \<noteq> fn_allocated (reset_delta node1)" "fd_ino (make_delta node1) = fn_ino (node_at fs l)"
    using calculation(1) assms(3,5) n by (simp_all add: make_delta_def l_def)
  ultimately show ?thesis
    by (intro exI [of _ "make_delta node1"]) (auto simp: replay_update_inc_def get_file_def l_def [symmetric])
qed

definition log_sample :: bluefs where
  "log_sample = bfs_sample
     \<lparr>fs_cfg := default_config\<lparr>cfg_alloc_size := 4096, cfg_min_log_runway := 4096, cfg_max_log_runway := 4096\<rparr>,
      fs_writer := Some (full_writer\<lparr>bw_buffer := []\<rparr>)\<rparr>"

lemma log_sample_grows:
  "\<exists>fs1. maybe_extend_log log_sample = Some (0, fs1) \<and> fn_allocated (node_at fs1 0) = 8192"
proof -
  obtain xs b where al: "avl_allocate 8192 4096 0 avl_sample = Some (if xs = [] then - ENOSPC else int (ext_len xs), xs, b)"
    and xs: "ext_len xs = 8192"
    using avl_allocate_ok [OF avl_sample_inv isp2_4096, of 8192 0] avl_sample_whole isp2_4096 by (auto simp: avl_sample_def)
  define es where "es = map (\<lambda>(off, len). \<lparr>bx_offset = off, bx_length = len, bx_bdev = 1\<rparr>) xs"
  have t: "total_length es = 8192" using xs by (simp add: es_def total_length_def ext_len_def split_def comp_def)
  have ne: "xs \<noteq> []" using xs by (auto simp: ext_len_def)
  have "fnode_wf (fnode_new 1 0 0)" by (simp add: fnode_wf_def fnode_new_def)
  then have a: "fn_allocated (claim_extents es (fnode_new 1 0 0)) = 8192"
    using claim_extents_ok [of "fnode_new 1 0 0" es] t by (simp add: fnode_new_def)
  have p: "p2roundup 4140 4096 = 8192" "p2roundup 8192 4096 = 8192" using p2roundup_eq [OF isp2_4096] by simp_all
  have fresh: "fn_allocated (fnode_new 1 0 0) = 0" by (simp add: fnode_new_def)
  have at: "dev_at log_sample 0 = None" "dev_at log_sample 1 = Some kd_sample" "alloc_at log_sample 1 = Some avl_sample" "is_shared_alloc 1 log_sample = False"
    by (simp_all add: dev_at_def alloc_at_def is_shared_alloc_def log_sample_def bfs_sample_def bluefs_new_def)
  have "allocate_from [0, 1, 2] 8192 4096 (fnode_new 1 0 0) (Some 0) log_sample =
      Some (0, claim_extents es (fnode_new 1 0 0), Some (add64 (fst (List.last xs)) (snd (List.last xs))), set_alloc 1 b log_sample)"
    using al ne xs at by (simp add: es_def)
  moreover have "[0..<length (fs_bdev log_sample)] = [0, 1, 2]" "fs_writer log_sample = Some (full_writer\<lparr>bw_buffer := []\<rparr>)"
    "node_at log_sample 0 = fnode_new 1 0 0" "bound_txn (fs_txn log_sample) = 44" "with_vsel (\<lambda>v. select_prefer_bdev (get_hint_for_log v) v) log_sample = Some 0"
    by (simp_all add: log_sample_def bfs_sample_def bluefs_new_def upt_rec node_at_def file_at_def file_new_def bound_txn_def txn_new_def with_vsel_def)
  moreover have "cfg_alloc_size (fs_cfg log_sample) = 4096" "cfg_min_log_runway (fs_cfg log_sample) = 4096" "cfg_max_log_runway (fs_cfg log_sample) = 4096"
    by (simp_all add: log_sample_def default_config_def)
  ultimately have "maybe_extend_log log_sample =
      Some (0, op_file_update_inc 0 (upd_node 0 (\<lambda>n. claim_extents es (fnode_new 1 0 0)) (set_alloc 1 b log_sample)))"
    using p fresh by (simp add: maybe_extend_log_def bfs_allocate_def add64_def full_writer_def del: allocate_from.simps)
  then show ?thesis
    using a by (simp add: op_file_update_inc_def upd_node_def upd_file_def node_at_def file_at_def log_op_def log_sample_def bfs_sample_def set_alloc_def)
qed

theorem grown_log_unreplayable_witness:
  "\<exists>fs1 d. maybe_extend_log log_sample = Some (0, fs1) \<and> tx_ops (fs_txn fs1) = enc_op (Op_file_update_inc d) \<and>
     replay_op 0 (Op_file_update_inc d) 1 (log_sample\<lparr>fs_heap := fs_heap fs1\<rparr>) = None"
proof -
  obtain fs1 where g: "maybe_extend_log log_sample = Some (0, fs1)" "fn_allocated (node_at fs1 0) = 8192" using log_sample_grows by blast
  have l: "fs_writer log_sample = Some (full_writer\<lparr>bw_buffer := []\<rparr>)" "node_at log_sample 0 = fnode_new 1 0 0" "0 < length (fs_heap log_sample)"
    "tx_ops (fs_txn log_sample) = []" "bw_file (full_writer\<lparr>bw_buffer := []\<rparr>) = 0"
    by (simp_all add: log_sample_def bfs_sample_def node_at_def file_at_def file_new_def full_writer_def bluefs_new_def txn_new_def)
  have n: "fn_committed (fnode_new 1 0 0) = fn_allocated (fnode_new 1 0 0)" "fn_allocated (fnode_new 1 0 0) = 0" "fn_ino (fnode_new 1 0 0) = 1"
    by (simp_all add: fnode_new_def)
  obtain d where d: "tx_ops (fs_txn fs1) = enc_op (Op_file_update_inc d)" "fd_ino d = 1"
    "\<forall>sz seq rs r. map_of (fs_files rs) 1 = Some r \<and> node_at rs r = node_at fs1 0 \<longrightarrow> replay_op sz (Op_file_update_inc d) seq rs = None"
    using grown_log_unreplayable [OF l(1) _ _ g(1)] l n g(2) by auto
  have "map_of (fs_files (log_sample\<lparr>fs_heap := fs_heap fs1\<rparr>)) 1 = Some 0" "node_at (log_sample\<lparr>fs_heap := fs_heap fs1\<rparr>) 0 = node_at fs1 0"
    by (simp_all add: log_sample_def bfs_sample_def node_at_def file_at_def)
  with d(3) have "replay_op 0 (Op_file_update_inc d) 1 (log_sample\<lparr>fs_heap := fs_heap fs1\<rparr>) = None" by blast
  with g d(1) show ?thesis by blast
qed

end
