(* ===== verification/Bluefs_Data.thy ===== *)
theory Bluefs_Data
  imports Bluefs
begin

unbundle bit_operations_syntax

text \<open>
  The data of the files: the bytes of a file are the bytes of its extents, one after the other. A flush patches them and
  leaves the rest of the devices alone; a read returns them.
\<close>

section \<open>The bytes of a file\<close>

definition dev_img :: "bluefs \<Rightarrow> nat \<Rightarrow> nat \<Rightarrow> byte" where
  "dev_img fs b = (case dev_at fs b of None \<Rightarrow> (\<lambda>x. 0) | Some d \<Rightarrow> contents d)"

definition ext_bytes :: "bluefs \<Rightarrow> bextent \<Rightarrow> bytes" where
  "ext_bytes fs e = slice (dev_img fs (bx_bdev e)) (bx_offset e) (bx_length e)"

definition file_bytes :: "bluefs \<Rightarrow> bextent list \<Rightarrow> bytes" where
  "file_bytes fs es = concat (map (ext_bytes fs) es)"

lemma length_ext_bytes [simp]: "length (ext_bytes fs e) = bx_length e"
  by (simp add: ext_bytes_def)

lemma length_file_bytes [simp]: "length (file_bytes fs es) = total_length es"
  by (induction es) (simp_all add: file_bytes_def)

lemma file_bytes_simps [simp]: "file_bytes fs [] = []" "file_bytes fs (e # es) = ext_bytes fs e @ file_bytes fs es"
  "file_bytes fs (es @ es1) = file_bytes fs es @ file_bytes fs es1"
  by (simp_all add: file_bytes_def)

text \<open>Extents that share no byte.\<close>

definition apart :: "bextent \<Rightarrow> bextent \<Rightarrow> bool" where
  "apart e f \<longleftrightarrow> bx_bdev e \<noteq> bx_bdev f \<or> bx_offset e + bx_length e \<le> bx_offset f \<or> bx_offset f + bx_length f \<le> bx_offset e"

fun exts_apart :: "bextent list \<Rightarrow> bool" where
  "exts_apart [] \<longleftrightarrow> True"
| "exts_apart (e # es) \<longleftrightarrow> (\<forall>f \<in> set es. apart e f) \<and> exts_apart es"

lemma apart_sym: "apart e f \<longleftrightarrow> apart f e"
  by (auto simp: apart_def)

text \<open>The device of an extent is open for the whole of it, and its reads are not cut short.\<close>

definition ext_there :: "bluefs \<Rightarrow> bextent \<Rightarrow> bool" where
  "ext_there fs e \<longleftrightarrow>
     (case dev_at fs (bx_bdev e) of
        None \<Rightarrow> False
      | Some d \<Rightarrow> no_short d \<and> bx_offset e + bx_length e \<le> file_len d \<and> bx_offset e + bx_length e < 2 ^ 64)"

text \<open>What an access to the devices leaves as it is.\<close>

definition same_files :: "bluefs \<Rightarrow> bluefs \<Rightarrow> bool" where
  "same_files fs fs1 \<longleftrightarrow> fs_heap fs1 = fs_heap fs \<and> fs_cfg fs1 = fs_cfg fs \<and> (\<forall>e. ext_there fs e \<longrightarrow> ext_there fs1 e)"

lemma same_files_refl [simp]: "same_files fs fs"
  by (simp add: same_files_def)

lemma same_files_trans: "same_files fs fs1 \<Longrightarrow> same_files fs1 fs2 \<Longrightarrow> same_files fs fs2"
  by (simp add: same_files_def)

lemma dev_at_set: "dev_at (set_dev b d fs) c = (if c = b \<and> b < length (fs_bdev fs) then Some d else dev_at fs c)"
  by (simp add: dev_at_def set_dev_def)

lemma dev_at_lt: "dev_at fs b = Some d \<Longrightarrow> b < length (fs_bdev fs)"
  by (simp add: dev_at_def split: if_splits)

lemma set_dev_same:
  assumes "dev_at fs b = Some d" and "dev_frame d d1" and "no_short d"
  shows "same_files fs (set_dev b d1 fs)" and "dev_img (set_dev b d1 fs) = (dev_img fs)(b := contents d1)"
proof -
  have "ext_there (set_dev b d1 fs) e" if "ext_there fs e" for e
    using that assms no_short_frame [OF assms(2)] dev_at_lt [OF assms(1)]
    by (auto simp: ext_there_def dev_at_set dev_frame_def split: option.splits)
  then show "same_files fs (set_dev b d1 fs)" by (simp add: same_files_def) (simp add: set_dev_def)
  show "dev_img (set_dev b d1 fs) = (dev_img fs)(b := contents d1)"
    using dev_at_lt [OF assms(1)] by (auto simp: dev_img_def dev_at_set fun_eq_iff)
qed

section \<open>Writing\<close>

lemma ext_bytes_patch:
  assumes "dev_img fs1 = (dev_img fs)(bx_bdev e := patch (bx_offset e + x) bl (dev_img fs (bx_bdev e)))" and "x + length bl \<le> bx_length e"
  shows "ext_bytes fs1 e = take x (ext_bytes fs e) @ bl @ drop (x + length bl) (ext_bytes fs e)"
    and "apart e f \<Longrightarrow> ext_bytes fs1 f = ext_bytes fs f"
proof -
  show "ext_bytes fs1 e = take x (ext_bytes fs e) @ bl @ drop (x + length bl) (ext_bytes fs e)"
    using assms by (intro nth_equalityI) (auto simp: ext_bytes_def patch_def nth_append)
  show "ext_bytes fs1 f = ext_bytes fs f" if "apart e f"
    using that assms unfolding ext_bytes_def by (intro slice_cong) (auto simp: patch_def apart_def)
qed

lemma splice_append:
  assumes "x \<le> length E" and "n = min (length E - x) (length bl)"
  shows "(take x E @ take n bl @ drop (x + n) E) @ drop n bl @ drop (length bl - n) F = take x (E @ F) @ bl @ drop (x + length bl) (E @ F)"
proof (cases "length bl \<le> length E - x")
  case True
  then have "n = length bl" "length E \<ge> x + length bl" using assms by auto
  then show ?thesis by simp
next
  case False
  then have n: "n = length E - x" "n \<le> length bl" using assms(2) by auto
  then have "x + n = length E" "length bl - n = x + length bl - length E" "take x (E @ F) = take x E" using assms(1) by auto
  moreover have "drop (x + length bl) E = []" using n assms(1) by simp
  ultimately show ?thesis using append_take_drop_id [of n bl] by (simp del: append_take_drop_id)
qed

lemma write_extents_spec:
  assumes "write_extents es x bl bf w fs = Some (r, rem, w1, fs1)" and "0 \<le> r" and "length bl < 2 ^ 30"
    and "\<forall>e \<in> set es. ext_there fs e" and "exts_apart es" and "es \<noteq> [] \<longrightarrow> x \<le> bx_length (hd es)" and "x + length bl \<le> total_length es"
  shows "rem = [] \<and> same_files fs fs1 \<and> file_bytes fs1 es = take x (file_bytes fs es) @ bl @ drop (x + length bl) (file_bytes fs es) \<and>
    (\<forall>f. (\<forall>e \<in> set es. apart e f) \<longrightarrow> ext_bytes fs1 f = ext_bytes fs f)"
  using assms
proof (induction es arbitrary: x bl w fs)
  case (Cons e es)
  show ?case
  proof (cases "bl = []")
    case True
    then show ?thesis using Cons.prems by simp
  next
    case False
    obtain d where d: "dev_at fs (bx_bdev e) = Some d" "no_short d" "bx_offset e + bx_length e < 2 ^ 64"
      using Cons.prems(4) by (auto simp: ext_there_def split: option.splits)
    define n where "n = min (bx_length e - x) (length bl)"
    have x: "x \<le> bx_length e" "x + n \<le> bx_length e" "length (take n bl) = n" using Cons.prems(6) by (auto simp: n_def)
    have e64: "sub64 (bx_length e) x = bx_length e - x" "add64 (bx_offset e) x = bx_offset e + x"
      using x d(3) by (simp_all add: sub64_exact add64_exact)
    obtain rc d1 where k: "kd_write (bx_offset e + x) [take n bl] bf d = (rc, d1)" by fastforce
    define fs2 where "fs2 = set_dev (bx_bdev e) d1 fs"
    have pos: "0 \<le> rc"
      using Cons.prems(1,2) False d(1) k e64 by (auto simp: n_def [symmetric] Let_def split: if_splits)
    then have rec: "write_extents es 0 (drop n bl) bf (w\<lparr>bw_dirty := (bw_dirty w)[bx_bdev e := True]\<rparr>) fs2 = Some (r, rem, w1, fs1)"
      using Cons.prems(1) False d(1) k e64 by (simp add: n_def [symmetric] fs2_def)
    have kw: "dev_frame d d1" "contents d1 = patch (bx_offset e + x) (take n bl) (contents d)"
      using kd_write_spec [OF k] pos Cons.prems(3) x d(3) by (auto split: if_splits)
    note same = set_dev_same [OF d(1) kw(1) d(2), folded fs2_def]
    have img: "dev_img fs2 = (dev_img fs)(bx_bdev e := patch (bx_offset e + x) (take n bl) (dev_img fs (bx_bdev e)))"
      using same(2) kw(2) d(1) by (simp add: dev_img_def)
    note patched = ext_bytes_patch [OF img, unfolded x(3), OF x(2)]
    have there: "\<forall>f \<in> set es. ext_there fs2 f" using same(1) Cons.prems(4) by (simp add: same_files_def)
    have left: "0 + length (drop n bl) \<le> total_length es" using Cons.prems(7) x(1) by (auto simp: n_def min_def)
    have IH: "rem = []" "same_files fs2 fs1" "file_bytes fs1 es = drop n bl @ drop (length bl - n) (file_bytes fs2 es)"
      "\<forall>f. (\<forall>e \<in> set es. apart e f) \<longrightarrow> ext_bytes fs1 f = ext_bytes fs2 f"
      using Cons.IH [OF rec Cons.prems(2) _ there _ _ left] Cons.prems(3,5) by auto
    have "file_bytes fs2 es = file_bytes fs es"
      unfolding file_bytes_def by (intro arg_cong [of _ _ concat] map_cong refl patched(2)) (use Cons.prems(5) in simp)
    moreover have "ext_bytes fs1 e = ext_bytes fs2 e" using IH(4) Cons.prems(5) apart_sym by auto
    ultimately have "file_bytes fs1 (e # es) = take x (file_bytes fs (e # es)) @ bl @ drop (x + length bl) (file_bytes fs (e # es))"
      using splice_append [of x "ext_bytes fs e" n bl "file_bytes fs es"] x(1) IH(3) patched(1) by (simp add: n_def)
    moreover have "ext_bytes fs1 f = ext_bytes fs f" if "\<forall>a \<in> set (e # es). apart a f" for f
      using that IH(4) patched(2) by simp
    ultimately show ?thesis using IH(1,2) same(1) same_files_trans by blast
  qed
qed simp

lemma exts_apart_append: "exts_apart (es @ fs) \<longleftrightarrow> exts_apart es \<and> exts_apart fs \<and> (\<forall>e \<in> set es. \<forall>f \<in> set fs. apart e f)"
  by (induction es) auto

text \<open>A node whose extents are in order, share nothing and are all on open devices.\<close>

definition data_ok :: "bluefs \<Rightarrow> fnode \<Rightarrow> bool" where
  "data_ok fs n \<longleftrightarrow> fnode_wf n \<and> exts_apart (fn_extents n) \<and> (\<forall>e \<in> set (fn_extents n). ext_there fs e)"

lemma data_ok_same: "same_files fs fs1 \<Longrightarrow> data_ok fs n \<Longrightarrow> data_ok fs1 n"
  by (simp add: data_ok_def same_files_def)

lemma flush_data_spec:
  assumes "flush_data w off (length bl) bl bf fs = Some (r, w1, fs1)" and "0 \<le> r" and "bl \<noteq> []" and "length bl < 2 ^ 30"
    and "n = node_at fs (bw_file w)" and "data_ok fs n" and "off + length bl \<le> fn_allocated n"
  shows "same_files fs fs1 \<and> file_bytes fs1 (fn_extents n) = take off (file_bytes fs (fn_extents n)) @ bl @ drop (off + length bl) (file_bytes fs (fn_extents n)) \<and>
    (\<forall>f. (\<forall>e \<in> set (fn_extents n). apart e f) \<longrightarrow> ext_bytes fs1 f = ext_bytes fs f)"
proof -
  define es where "es = fn_extents n"
  have ok: "fnode_wf n" "exts_apart es" "\<forall>e \<in> set es. ext_there fs e" using assms(6) by (simp_all add: data_ok_def es_def)
  have "off < fn_allocated n" using assms(3,7) by (cases bl) auto
  from seek_ok [OF ok(1) this] obtain i x where sk: "seek off n = Some (i, x)" and i: "i < length es" "x < bx_length (es ! i)"
    and off: "off = total_length (take i es) + x" by (auto simp: es_def)
  define A where "A = take i es"
  define B where "B = drop i es"
  have AB: "es = A @ B" "B \<noteq> []" "hd B = es ! i" using i by (simp_all add: A_def B_def hd_drop_conv_nth)
  obtain rem where wr: "write_extents B x bl bf w fs = Some (r, rem, w1, fs1)"
    using assms(1,3) sk by (auto simp: flush_data_def assms(5) [symmetric] es_def [symmetric] B_def Let_def bind_eq_Some_conv)
  have ap: "exts_apart A" "exts_apart B" "\<forall>e \<in> set A. \<forall>f \<in> set B. apart e f" using ok(2) by (simp_all add: AB(1) exts_apart_append)
  have tot: "fn_allocated n = total_length A + total_length B"
    using ok(1) AB(1) by (simp add: fnode_wf_def es_def [symmetric] total_length_def)
  have pre: "\<forall>e \<in> set B. ext_there fs e" "B \<noteq> [] \<longrightarrow> x \<le> bx_length (hd B)" "x + length bl \<le> total_length B"
    using ok(3) AB(2,3) i(2) assms(7) off [folded A_def] tot by (auto simp: B_def dest: in_set_dropD)
  have W: "same_files fs fs1" "file_bytes fs1 B = take x (file_bytes fs B) @ bl @ drop (x + length bl) (file_bytes fs B)"
    "\<forall>f. (\<forall>e \<in> set B. apart e f) \<longrightarrow> ext_bytes fs1 f = ext_bytes fs f"
    using write_extents_spec [OF wr assms(2,4) pre(1) ap(2) pre(2,3)] by blast+
  have "file_bytes fs1 A = file_bytes fs A"
    unfolding file_bytes_def using W(3) ap(3) apart_sym by (intro arg_cong [of _ _ concat] map_cong refl) blast
  then have "file_bytes fs1 es = take off (file_bytes fs es) @ bl @ drop (off + length bl) (file_bytes fs es)"
    using W(2) off [folded A_def] by (simp add: AB(1))
  then show ?thesis using W(1,3) AB(1) by (simp add: es_def)
qed

section \<open>Reading\<close>

lemma and_le_nat: "m AND n \<le> (m :: nat)"
  using AND_upper1 [of "int m" "int n"] by (simp only: of_nat_and_eq [symmetric] of_nat_le_iff)

lemma sys_pread_full:
  assumes "sys_pread off len d = (r, bs, e)" and "0 \<le> r" and "no_short d" and "len \<le> MAX_RW_COUNT" and "off + len \<le> file_len d"
  shows "r = int len"
proof -
  obtain k where k: "sys d (tick d) = Done k" "r = int (xfer k (min len (file_len d - off)))"
    using assms(1,2) by (auto simp: sys_pread_def Let_def errno_of_def split: sysret.splits)
  have "xfer k (min len (file_len d - off)) = len"
    using assms(3-5) k(1) unfolding no_short_def xfer_def by (cases "len = 0") force+
  with k(2) show ?thesis by simp
qed

lemma kd_read_random_full:
  assumes "kd_read_random off len bf d = (r, bs, e)" and "no_short d" and "len \<le> 2 ^ 30" and "off + len \<le> file_len d" and "off + len < 2 ^ 64"
  shows "dev_frame d e \<and> contents e = contents d \<and> (0 \<le> r \<longrightarrow> bs = slice (contents d) off len)"
proof (cases "len = 0 \<or> add64 off len < off \<or> \<not> fd_open d")
  case True
  then show ?thesis using assms(1) by (auto simp: kd_read_random_def split: if_splits)
next
  case False
  have len: "len \<le> MAX_RW_COUNT" using assms(3) by (simp add: MAX_RW_COUNT_def)
  show ?thesis
  proof (cases "\<not> bf \<and> (off AND sub64 (dev_block d) 1 \<noteq> 0 \<or> len AND sub64 (dev_block d) 1 \<noteq> 0)")
    case True
    define a where "a = off AND (UINT64_MAX XOR sub64 (dev_block d) 1)"
    define z where "z = sub64 (sub64 (add64 (add64 off len) (dev_block d)) 1 AND (UINT64_MAX XOR sub64 (dev_block d) 1)) a"
    obtain r1 bs1 d1 where pr: "sys_pread a z d = (r1, bs1, d1)" by (metis prod_cases3)
    note sp = sys_pread_spec [OF pr]
    have "a \<le> off" unfolding a_def by (rule and_le_nat)
    then have ex: "sub64 off a = off - a" "add64 (off - a) len = off - a + len" using assms(5) by (simp_all add: sub64_exact add64_exact)
    have run: "kd_read_random off len bf d =
        (if r1 < 0 then (r1, [], d1) else if nat r1 < off - a + len then (- EIO, [], d1) else (to_i32 len, take len (drop (off - a) bs1), d1))"
      unfolding kd_read_random_def Let_def a_def [symmetric] z_def [symmetric] using False True pr ex by simp
    have "take len (drop (off - a) (slice (contents d) a (nat r1))) = slice (contents d) off len" if "off - a + len \<le> nat r1"
      using that \<open>a \<le> off\<close> by (intro nth_equalityI) auto
    then show ?thesis using run assms(1) sp by (auto simp: dev_frame_def split: if_splits)
  next
    case al: False
    obtain r1 bs1 d1 where pr: "sys_pread off len d = (r1, bs1, d1)" by (metis prod_cases3)
    have "(r, bs, e) = (if r1 < 0 then (r1, [], d1) else (r1, bs1, d1))"
      using False al assms(1) pr by (auto simp: kd_read_random_def)
    then show ?thesis using sys_pread_spec [OF pr] sys_pread_full [OF pr _ assms(2) len assms(4)] by (auto simp: dev_frame_def split: if_splits)
  qed
qed

lemma file_bytes_part:
  assumes "i < length es" and "x + l \<le> bx_length (es ! i)"
  shows "take l (drop (total_length (take i es) + x) (file_bytes fs es)) = slice (dev_img fs (bx_bdev (es ! i))) (bx_offset (es ! i) + x) l"
proof -
  have "file_bytes fs es = file_bytes fs (take i es) @ ext_bytes fs (es ! i) @ file_bytes fs (drop (Suc i) es)"
    using id_take_nth_drop [OF assms(1)] by (metis file_bytes_simps(2,3))
  then have "take l (drop (total_length (take i es) + x) (file_bytes fs es)) = take l (drop x (ext_bytes fs (es ! i)))"
    using assms(2) by simp
  also have "\<dots> = slice (dev_img fs (bx_bdev (es ! i))) (bx_offset (es ! i) + x) l"
    using assms(2) by (intro nth_equalityI) (auto simp: ext_bytes_def add.assoc)
  finally show ?thesis .
qed

lemma read_random_loop_spec:
  assumes "data_ok fs (node_at fs (br_file h))" and "off + len \<le> fn_allocated (node_at fs (br_file h))" and "ret + len < 2 ^ 63"
  shows "\<exists>r bs fs1. read_random_loop h off len ret bs0 buf fs = Some (r, bs0 @ bs, fs1) \<and> same_files fs fs1 \<and>
    (0 \<le> r \<longrightarrow> r = int (ret + len) \<and> bs = take len (drop off (file_bytes fs (fn_extents (node_at fs (br_file h))))))"
  using assms
proof (induction len arbitrary: off ret bs0 buf fs rule: less_induct)
  case (less len)
  define n where "n = node_at fs (br_file h)"
  define es where "es = fn_extents n"
  show ?case
  proof (cases "len = 0")
    case True
    then show ?thesis using less.prems(3) by (subst read_random_loop.simps) (simp add: to_i64_def)
  next
    case False
    have ok: "fnode_wf n" "fn_allocated n < 2 ^ 64" using less.prems(1) by (auto simp: data_ok_def n_def fnode_wf_def)
    have "off < fn_allocated n" using less.prems(2) False by (simp add: n_def)
    from seek_ok [OF ok(1) this] obtain i x where sk: "seek off n = Some (i, x)" and i: "i < length es" "x < bx_length (es ! i)"
      and off: "off = total_length (take i es) + x" by (auto simp: es_def)
    define e where "e = es ! i"
    have "ext_there fs e" using less.prems(1) i(1) by (simp add: data_ok_def n_def [symmetric] es_def [symmetric] e_def)
    then obtain d where d: "dev_at fs (bx_bdev e) = Some d" "no_short d" "bx_offset e + bx_length e \<le> file_len d" "bx_offset e + bx_length e < 2 ^ 64"
      by (auto simp: ext_there_def split: option.splits)
    define l where "l = min (min (bx_length e - x) len) (2 ^ 30)"
    have l: "0 < l" "l \<le> len" "x + l \<le> bx_length e" "l \<le> 2 ^ 30" using False i(2) by (auto simp: l_def e_def)
    have ex: "sub64 (bx_length e) x = bx_length e - x" "add64 (bx_offset e) x = bx_offset e + x" "add64 off l = off + l" "add64 ret l = ret + l"
      using d(4) l i(2) less.prems(2,3) ok(2) by (simp_all add: sub64_exact add64_exact e_def n_def)
    obtain r1 b d1 where k: "kd_read_random (bx_offset e + x) l (read_buffered (br_file h) fs) d = (r1, b, d1)" by (metis prod_cases3)
    have R: "dev_frame d d1" "contents d1 = contents d" "0 \<le> r1 \<longrightarrow> b = slice (contents d) (bx_offset e + x) l"
      using kd_read_random_full [OF k d(2) l(4)] d(3,4) l(3) by auto
    define fs2 where "fs2 = set_dev (bx_bdev e) d1 fs"
    note same = set_dev_same [OF d(1) R(1) d(2), folded fs2_def]
    have img: "dev_img fs2 = dev_img fs" using same(2) R(2) d(1) by (auto simp: dev_img_def)
    have run: "read_random_loop h off len ret bs0 buf fs =
        (if r1 < 0 then Some (r1, bs0, fs2) else read_random_loop h (off + l) (len - l) (ret + l) (bs0 @ b @ take (l - length b) (drop (length b) buf)) (drop l buf) fs2)"
      unfolding read_random_loop.simps [of h off len ret bs0 buf fs] Let_def n_def [symmetric] sk option.case prod.case es_def [symmetric]
        e_def [symmetric] d(1) ex(1,2) l_def [symmetric] ex(3,4) k fs2_def [symmetric]
      using False by simp
    show ?thesis
    proof (cases "r1 < 0")
      case True
      then show ?thesis using run same(1) by (intro exI [of _ r1] exI [of _ "[]"] exI [of _ fs2]) simp
    next
      case pos: False
      have nd: "node_at fs2 (br_file h) = n" using same(1) by (simp add: same_files_def node_at_def file_at_def n_def)
      have "ext_bytes fs2 = ext_bytes fs" using img by (intro ext) (simp add: ext_bytes_def)
      then have fb: "file_bytes fs2 = file_bytes fs" by (intro ext) (simp add: file_bytes_def)
      from less.IH [of "len - l" fs2 "off + l" "ret + l" "bs0 @ b" "drop l buf"] l less.prems nd data_ok_same [OF same(1)]
      obtain r bs fs1 where IH: "read_random_loop h (off + l) (len - l) (ret + l) (bs0 @ b) (drop l buf) fs2 = Some (r, (bs0 @ b) @ bs, fs1)" "same_files fs2 fs1"
        "0 \<le> r \<longrightarrow> r = int (ret + len) \<and> bs = take (len - l) (drop (off + l) (file_bytes fs es))"
        by (auto simp: n_def [symmetric] es_def [symmetric] fb)
      have b: "b = take l (drop off (file_bytes fs es))"
        using R(3) pos file_bytes_part [OF i(1), of x l fs] l(3) off d(1) by (simp add: e_def dev_img_def)
      have "b @ take (len - l) (drop (off + l) (file_bytes fs es)) = take len (drop off (file_bytes fs es))"
        unfolding b using l(2) take_add [of l "len - l" "drop off (file_bytes fs es)"] by (simp add: add.commute)
      moreover have "b @ take (l - length b) (drop (length b) buf) = b" using R(3) pos by simp
      ultimately show ?thesis using run pos IH same_files_trans [OF same(1)] by (auto simp: n_def [symmetric] es_def [symmetric])
    qed
  qed
qed

section \<open>Flushing and reading back\<close>

lemma on_vsel_frame: "on_vsel g fs = Some fs1 \<Longrightarrow> \<exists>v. fs1 = fs\<lparr>fs_vsel := v\<rparr>"
  by (auto simp: on_vsel_def split: option.splits intro: exI [of _ None])

lemma flush_range_F_there:
  assumes "flush_range_F w (bw_pos w) len (Some bl) fs = Some (r, w1, fs1)" and "0 \<le> r" and "bl \<noteq> []" and "0 < len" and "len \<le> length bl"
    and "bw_pos w + length bl \<le> fn_allocated n" and "fn_allocated n < 2 ^ 64"
    and "n = node_at fs (bw_file w)" and "\<not> bf_deleted (file_at fs (bw_file w))" and "bw_file w < length (fs_heap fs)"
  shows "\<exists>fs2 w2 r2. flush_data w (bw_pos w) (length bl) bl (cfg_buffered_io (fs_cfg fs)) fs2 = Some (r2, w2, fs1) \<and> 0 \<le> r2 \<and>
    fs_bdev fs2 = fs_bdev fs \<and> fs_cfg fs2 = fs_cfg fs \<and> node_at fs2 (bw_file w) = n\<lparr>fn_size := max (fn_size n) (bw_pos w + len)\<rparr>"
proof -
  define f where "f = bw_file w"
  have nd: "node_at fs f = n" by (simp add: assms(8) f_def)
  have ex: "add64 (bw_pos w) len = bw_pos w + len" "add64 (bw_pos w) (length bl) = bw_pos w + length bl"
    using assms(5-7) by (simp_all add: add64_exact)
  have wl: "(if length bl > len then length bl else len) = length bl" using assms(5) by simp
  define grow where "grow = (if fn_size n < add64 (bw_pos w) len then
       Option.bind (if bf_hint (file_at fs f) \<noteq> 0 then on_vsel (add_usage_size (bf_hint (file_at fs f)) (sub64 (add64 (bw_pos w) len) (fn_size n)) False) fs else Some fs)
         (\<lambda>fs2. Some (upd_file f (\<lambda>x. x\<lparr>bf_fnode := (bf_fnode x)\<lparr>fn_size := add64 (bw_pos w) len\<rparr>, bf_is_dirty := True\<rparr>) fs2))
     else Some fs)"
  have "Option.bind grow (\<lambda>fs2. Option.bind (flush_data w (bw_pos w) (length bl) bl (cfg_buffered_io (fs_cfg fs)) fs2)
      (\<lambda>(rc2, w2, fs3). Some (if rc2 < 0 then (rc2, w2, fs3) else (0, w2\<lparr>bw_pos := add64 (bw_pos w2) len\<rparr>, fs3)))) = Some (r, w1, fs1)"
    using assms(1,3,4,6,9) wl unfolding flush_range_F_def Let_def f_def [symmetric] grow_def nd [symmetric]
    by (simp add: ex nd split del: if_split)
  then obtain fs2 r2 w2 fs3 where g: "grow = Some fs2" and F: "flush_data w (bw_pos w) (length bl) bl (cfg_buffered_io (fs_cfg fs)) fs2 = Some (r2, w2, fs3)"
    and res: "(if r2 < 0 then (r2, w2, fs3) else (0, w2\<lparr>bw_pos := add64 (bw_pos w2) len\<rparr>, fs3)) = (r, w1, fs1)"
    by (auto simp: bind_eq_Some_conv)
  have "0 \<le> r2" "fs3 = fs1" using res assms(2) by (auto split: if_splits)
  moreover have "fs_bdev fs2 = fs_bdev fs \<and> fs_cfg fs2 = fs_cfg fs \<and> node_at fs2 f = n\<lparr>fn_size := max (fn_size n) (bw_pos w + len)\<rparr>"
  proof (cases "fn_size n < bw_pos w + len")
    case True
    then obtain fs4 v where "fs4 = fs\<lparr>fs_vsel := v\<rparr>"
      "fs2 = upd_file f (\<lambda>x. x\<lparr>bf_fnode := (bf_fnode x)\<lparr>fn_size := bw_pos w + len\<rparr>, bf_is_dirty := True\<rparr>) fs4"
      using g by (auto simp: grow_def ex bind_eq_Some_conv split: if_splits dest!: on_vsel_frame intro: that [of _ "fs_vsel fs"])
    then show ?thesis using True assms(8,10) by (simp add: upd_file_def node_at_def file_at_def f_def max_def)
  next
    case False
    then show ?thesis using g assms(8) by (simp add: grow_def ex f_def max_def)
  qed
  ultimately show ?thesis using F by (auto simp: f_def)
qed

text \<open>
  C10: Data that was appended and flushed is read back. A flush of a writer over space the file has (extents in order
  that share nothing, on open devices) that succeeds has stored the buffer at the position of the writer, padded to a
  block with zeros under direct I/O. The other bytes of the file and every extent outside the file are what they were. A
  \<open>read_random\<close> of the place ends, and if no device fails it returns the buffer.
\<close>

theorem flushed_data_read_back:
  assumes "flush_F w True fs = Some (r, w1, fs1)" and "0 \<le> r" and "bw_tail w = []" and "bw_buffer w \<noteq> []"
    and "bl = fst (flush_buffer (io_block_size fs) (sub64 (io_block_size fs) 1) w)" and "length bl < 2 ^ 30"
    and "n = node_at fs (bw_file w)" and "data_ok fs n" and "bw_pos w + length bl \<le> fn_allocated n"
    and "\<not> bf_deleted (file_at fs (bw_file w))" and "bw_file w < length (fs_heap fs)" and "br_file h = bw_file w"
  shows "file_bytes fs1 (fn_extents n) =
      take (bw_pos w) (file_bytes fs (fn_extents n)) @ bl @ drop (bw_pos w + length bl) (file_bytes fs (fn_extents n)) \<and>
    (\<forall>f. (\<forall>e \<in> set (fn_extents n). apart e f) \<longrightarrow> ext_bytes fs1 f = ext_bytes fs f) \<and>
    (\<exists>rc bs fs2. bfs_read_random h (bw_pos w) (length (bw_buffer w)) buf fs1 = Some (rc, bs, fs2) \<and> (0 \<le> rc \<longrightarrow> bs = bw_buffer w))"
proof -
  define es where "es = fn_extents n"
  define k where "k = length (bw_buffer w)"
  obtain z where bl: "bl = bw_buffer w @ z" using assms(3,5) by (auto simp: flush_buffer_def Let_def split: if_splits)
  have k: "0 < k" "k \<le> length bl" "k < 2 ^ 30" using assms(4,6) by (auto simp: k_def bl)
  obtain w0 where fb: "flush_buffer (io_block_size fs) (sub64 (io_block_size fs) 1) w = (bl, w0)" using assms(5) by (metis prod.collapse)
  then have w0: "bw_pos w0 = bw_pos w" "bw_file w0 = bw_file w" by (auto simp: flush_buffer_def Let_def)
  have alloc: "fn_allocated n < 2 ^ 64" using assms(8) by (auto simp: data_ok_def fnode_wf_def)
  have "get_buffer_length w = k" "bl \<noteq> []" using k by (auto simp: get_buffer_length_def k_def)
  then have "flush_range_F w0 (bw_pos w0) k (Some bl) fs = Some (r, w1, fs1)"
    using assms(1) fb k(1) by (simp add: flush_F_def Let_def)
  from flush_range_F_there [OF this assms(2) \<open>bl \<noteq> []\<close> k(1,2), unfolded w0, OF assms(9) alloc assms(7,10,11)]
  obtain fs2 w2 r2 where F: "flush_data w0 (bw_pos w) (length bl) bl (cfg_buffered_io (fs_cfg fs)) fs2 = Some (r2, w2, fs1)" "0 \<le> r2"
    and dev: "fs_bdev fs2 = fs_bdev fs" and nd: "node_at fs2 (bw_file w) = n\<lparr>fn_size := max (fn_size n) (bw_pos w + k)\<rparr>" by auto
  define m where "m = n\<lparr>fn_size := max (fn_size n) (bw_pos w + k)\<rparr>"
  have at: "dev_at fs2 = dev_at fs" by (intro ext) (simp add: dev_at_def dev)
  have eb: "ext_bytes fs2 = ext_bytes fs" by (intro ext) (simp add: ext_bytes_def dev_img_def at)
  then have fbs: "file_bytes fs2 = file_bytes fs" by (intro ext) (simp add: file_bytes_def)
  have m: "fn_extents m = es" "fn_allocated m = fn_allocated n" "data_ok fs2 m" "m = node_at fs2 (bw_file w0)"
    using assms(8) nd w0(2) by (auto simp: m_def es_def data_ok_def fnode_wf_def ext_there_def at)
  note W = flush_data_spec [OF F(1,2) \<open>bl \<noteq> []\<close> assms(6) m(4,3), unfolded m(1,2) fbs eb, OF assms(9)]
  have nd1: "node_at fs1 (br_file h) = m" using W m(4) w0(2) assms(12) by (simp add: same_files_def node_at_def file_at_def)
  have "clip_len (br_ignore_eof h) (bw_pos w) k (fn_size m) = k"
    using assms(9) alloc k by (auto simp: clip_len_def m_def add64_exact)
  moreover have "data_ok fs1 m" "bw_pos w + k \<le> fn_allocated m" "0 + k < 2 ^ 63" using W data_ok_same m(2,3) assms(9) k by auto
  ultimately obtain rc bs fs3 where R: "bfs_read_random h (bw_pos w) k buf fs1 = Some (rc, bs, fs3)"
    "0 \<le> rc \<longrightarrow> bs = take k (drop (bw_pos w) (file_bytes fs1 es))"
    using read_random_loop_spec [of fs1 h "bw_pos w" k 0 "[]" buf] by (auto simp: bfs_read_random_def nd1 m(1))
  have "bw_pos w \<le> total_length es" using assms(8,9) by (auto simp: data_ok_def fnode_wf_def es_def)
  then have "take k (drop (bw_pos w) (file_bytes fs1 es)) = bw_buffer w" using W by (simp add: bl k_def)
  then show ?thesis using W R by (simp add: es_def k_def)
qed

text \<open>A file with one extent of a block, and a writer with two bytes for its second half.\<close>

definition data_node :: fnode where
  "data_node = (fnode_new 2 0 0)\<lparr>fn_extents := [\<lparr>bx_offset = 8192, bx_length = 4096, bx_bdev = 1\<rparr>], fn_index := [0], fn_allocated := 4096\<rparr>"

definition data_sample :: bluefs where
  "data_sample = (bluefs_new (default_config\<lparr>cfg_buffered_io := True\<rparr>) 0)
     \<lparr>fs_vsel := Some (Original 0 0 0), fs_bdev := [None, Some kd_sample, None], fs_heap := [(file_new 2)\<lparr>bf_fnode := data_node\<rparr>]\<rparr>"

definition data_writer :: bwriter where
  "data_writer = \<lparr>bw_file = 0, bw_pos = 2048, bw_buffer = [65, 66], bw_tail = [], bw_iocv = [False, True, False], bw_dirty = [False, False, False]\<rparr>"

definition data_reader :: breader where
  "data_reader = \<lparr>br_file = 0, br_bl_off = 0, br_bl = [], br_pos = 0, br_max_prefetch = 4096, br_random = True, br_ignore_eof = False\<rparr>"

lemma data_flush: "\<exists>w1 fs1. flush_F data_writer True data_sample = Some (0, w1, fs1)"
  by (simp add: flush_F_def data_sample_def data_writer_def get_buffer_length_def io_block_size_def flush_buffer_def flush_range_F_def file_at_def
      node_at_def bluefs_new_def default_config_def file_new_def data_node_def fnode_new_def add64_def sub64_def flush_data_def seek_def upper_bound_def
      dev_at_def kd_write_def write_loop.simps sys_pwritev_def kd_sample_def xfer_def MAX_RW_COUNT_def to_i32_def upd_file_def)

theorem flushed_data_read_back_witness:
  "\<exists>w1 fs1 rc bs fs2. flush_F data_writer True data_sample = Some (0, w1, fs1) \<and>
     bfs_read_random data_reader 2048 2 [0, 0] fs1 = Some (rc, bs, fs2) \<and> (0 \<le> rc \<longrightarrow> bs = [65, 66])"
proof -
  obtain w1 fs1 where F: "flush_F data_writer True data_sample = Some (0, w1, fs1)" using data_flush by blast
  have n: "node_at data_sample (bw_file data_writer) = data_node" by (simp add: node_at_def file_at_def data_sample_def data_writer_def)
  have bl: "fst (flush_buffer (io_block_size data_sample) (sub64 (io_block_size data_sample) 1) data_writer) = [65, 66]"
    by (simp add: flush_buffer_def io_block_size_def data_sample_def default_config_def data_writer_def bluefs_new_def)
  have ok: "data_ok data_sample data_node"
    by (simp add: data_ok_def fnode_wf_def data_node_def ext_there_def dev_at_def data_sample_def kd_sample_def no_short_def MAX_RW_COUNT_def)
  have w: "bw_tail data_writer = []" "bw_buffer data_writer = [65, 66]" "bw_pos data_writer = 2048" "br_file data_reader = bw_file data_writer"
    "length [65, 66 :: byte] < 2 ^ 30" "2048 + length [65, 66 :: byte] \<le> fn_allocated data_node" "bw_file data_writer < length (fs_heap data_sample)"
    "\<not> bf_deleted (file_at data_sample (bw_file data_writer))"
    by (simp_all add: data_writer_def data_reader_def data_node_def data_sample_def file_at_def file_new_def)
  have "bw_buffer data_writer \<noteq> []" by (simp add: w(2))
  from flushed_data_read_back [OF F _ w(1) this bl [symmetric] w(5) n [symmetric] ok w(6) [folded w(3)] w(8,7,4)]
  have "\<exists>rc bs fs2. bfs_read_random data_reader 2048 2 [0, 0] fs1 = Some (rc, bs, fs2) \<and> (0 \<le> rc \<longrightarrow> bs = [65, 66])"
    by (simp add: w(2,3) numeral_2_eq_2)
  then show ?thesis using F by blast
qed

end
