(* ===== verification/Blob.thy ===== *)
theory Blob
  imports Denc Crc32
begin

unbundle bit_operations_syntax

text \<open>
  The blobs of BlueStore (\<^verbatim>\<open>bluestore/bluestore_types.h\<close>, \<^verbatim>\<open>bluestore/bluestore_types.cc\<close>, \<^verbatim>\<open>bluestore/blob.h\<close>,
  \<^verbatim>\<open>bluestore/blob.cc\<close>): the tracker that counts the referenced bytes of each allocation unit, the physical
  extents, checksums and unused bits of a blob, and the object that keeps the two together.

  An operation that can fail an assertion, divide by zero or touch memory outside an array has an \<open>option\<close> result
  and \<open>None\<close> stands for each of these.
\<close>

section \<open>The use tracker\<close>

text \<open>
  \<open>bytes_per_au\<close> and \<open>total_bytes\<close> share storage: the list counts when it is not empty, its length is \<open>num_au\<close>
  (and \<open>alloc_au\<close>), and \<open>tr_total\<close> counts otherwise.
\<close>

record tracker =
  tr_au :: u32
  tr_bytes :: "u32 list"
  tr_total :: u32

definition tr_new :: tracker where
  "tr_new = \<lparr>tr_au = 0, tr_bytes = [], tr_total = 0\<rparr>"

definition tr_get_referenced_bytes :: "tracker \<Rightarrow> u32" where
  "tr_get_referenced_bytes t = (if tr_bytes t = [] then tr_total t else fold (\<lambda>b s. add32 s b) (tr_bytes t) 0)"

definition tr_is_empty :: "tracker \<Rightarrow> bool" where
  "tr_is_empty t = (if tr_bytes t = [] then tr_total t = 0 else list_all (\<lambda>b. b = 0) (tr_bytes t))"

definition tr_init :: "u32 \<Rightarrow> u32 \<Rightarrow> tracker option" where
  "tr_init full_length au_size =
     (if au_size = 0 then None
      else
        let n = sub32 (add32 full_length au_size) 1 div au_size
        in Some \<lparr>tr_au = au_size, tr_bytes = (if n \<le> 1 then [] else replicate n 0), tr_total = 0\<rparr>)"

text \<open>The copy constructor. With a single unit, \<open>init\<close> leaves a null array and \<open>memcpy\<close> writes to it.\<close>

definition tr_copy :: "tracker \<Rightarrow> tracker option" where
  "tr_copy t =
     (if tr_au t = 0 then Some tr_new
      else
        let n = length (tr_bytes t)
        in do {
          c \<leftarrow> tr_init (tr_au t * (if n \<noteq> 0 then n else 1) mod 2 ^ 32) (tr_au t);
          if n = 0 then Some (c\<lparr>tr_bytes := [], tr_total := tr_total t\<rparr>)
          else if n \<le> length (tr_bytes c) then Some (c\<lparr>tr_bytes := tr_bytes t @ drop n (tr_bytes c)\<rparr>)
          else None
        })"

text \<open>The loops step from one unit to the next.\<close>

function get_loop :: "u32 \<Rightarrow> u32 \<Rightarrow> u32 \<Rightarrow> u32 list \<Rightarrow> u32 list option" where
  "get_loop au offset en bs =
     (if offset < en then
        if au = 0 then None
        else
          let pos = offset div au; diff = min (au - offset mod au) (en - offset)
          in if pos < length bs then get_loop au (offset + diff) en (bs[pos := add32 (bs ! pos) diff]) else None
      else Some bs)"
  by pat_completeness auto
termination
proof (relation "measure (\<lambda>(au, offset, en, bs). en - offset)")
  show "((au, offset + diff, en, bs[pos := add32 (bs ! pos) diff]), au, offset, en, bs) \<in> measure (\<lambda>(au, offset, en, bs). en - offset)"
    if "offset < en" "au \<noteq> 0" "pos = offset div au" "diff = min (au - offset mod au) (en - offset)" "pos < length bs"
    for au offset en :: nat and bs pos diff
  proof -
    have "0 < diff" using that(1,2,4) by simp
    then show ?thesis using that(1) by simp
  qed
qed simp

declare get_loop.simps [simp del]

definition tr_get :: "u32 \<Rightarrow> u32 \<Rightarrow> tracker \<Rightarrow> tracker option" where
  "tr_get offset len t =
     (if tr_bytes t = [] then Some (t\<lparr>tr_total := add32 (tr_total t) len\<rparr>)
      else map_option (\<lambda>bs. t\<lparr>tr_bytes := bs\<rparr>) (get_loop (tr_au t) offset (add32 offset len) (tr_bytes t)))"

text \<open>
  \<open>put\<close>. The loop carries the end \<open>next\<close> of the last released range and whether every unit it met became empty; the
  last released range grows by a unit that follows it. The step to the next unit is of 32 bits and can wrap.
\<close>

definition add_release :: "u64 \<Rightarrow> u32 \<Rightarrow> u64 \<Rightarrow> (u64 \<times> u32) list \<Rightarrow> (u64 \<times> u32) list" where
  "add_release next au off rel =
     (if rel = [] \<or> next \<noteq> off then rel @ [(off, au)]
      else butlast rel @ [(fst (last rel), add32 (snd (last rel)) au)])"

function put_loop ::
  "u32 \<Rightarrow> u32 \<Rightarrow> u32 \<Rightarrow> u64 \<Rightarrow> (u64 \<times> u32) list \<Rightarrow> bool \<Rightarrow> u32 list \<Rightarrow> ((u64 \<times> u32) list \<times> bool \<times> u32 list) option" where
  "put_loop au offset en next rel maybe_empty bs =
     (if offset < en then
        if au = 0 then None
        else
          let phase = offset mod au; pos = offset div au; diff = min (au - phase) (en - offset)
          in if pos < length bs \<and> diff \<le> bs ! pos then
               let b = bs ! pos - diff; offset1 = add32 offset (if phase \<noteq> 0 then au - phase else au)
               in if b = 0 then put_loop au offset1 en (pos * au + au) (add_release next au (pos * au) rel) maybe_empty (bs[pos := b])
                  else put_loop au offset1 en next rel False (bs[pos := b])
             else None
      else Some (rel, maybe_empty, bs))"
  by pat_completeness auto
termination
proof (relation "measure (\<lambda>(au, offset, en, next, rel, me, bs). sum_list bs)")
  have less: "sum_list (bs[pos := bs ! pos - diff]) < sum_list bs" if "pos < length bs" "diff \<le> bs ! pos" "0 < diff" for bs :: "nat list" and pos diff
    using that sum_list_update [of pos bs "bs ! pos - diff"] elem_le_sum_list [of pos bs] by simp
  show "((au, offset1, en, pos * au + au, add_release next au (pos * au) rel, maybe_empty, bs[pos := b]), au, offset, en, next, rel, maybe_empty, bs)
      \<in> measure (\<lambda>(au, offset, en, next, rel, me, bs). sum_list bs)"
    if "offset < en" "au \<noteq> 0" "phase = offset mod au" "pos = offset div au" "diff = min (au - phase) (en - offset)"
      "pos < length bs \<and> diff \<le> bs ! pos" "b = bs ! pos - diff" "offset1 = add32 offset (if phase \<noteq> 0 then au - phase else au)" "b = 0"
    for au offset en :: nat and "next" rel maybe_empty bs phase pos diff b offset1
  proof -
    have "0 < diff" using that(1-3,5) by simp
    then show ?thesis using less [of pos bs diff] that(6,7) by simp
  qed
  show "((au, offset1, en, next, rel, False, bs[pos := b]), au, offset, en, next, rel, maybe_empty, bs)
      \<in> measure (\<lambda>(au, offset, en, next, rel, me, bs). sum_list bs)"
    if "offset < en" "au \<noteq> 0" "phase = offset mod au" "pos = offset div au" "diff = min (au - phase) (en - offset)"
      "pos < length bs \<and> diff \<le> bs ! pos" "b = bs ! pos - diff" "offset1 = add32 offset (if phase \<noteq> 0 then au - phase else au)" "b \<noteq> 0"
    for au offset en :: nat and "next" rel maybe_empty bs phase pos diff b offset1
  proof -
    have "0 < diff" using that(1-3,5) by simp
    then show ?thesis using less [of pos bs diff] that(6,7) by simp
  qed
qed simp

declare put_loop.simps [simp del]

definition tr_put :: "u32 \<Rightarrow> u32 \<Rightarrow> tracker \<Rightarrow> (bool \<times> (u64 \<times> u32) list \<times> tracker) option" where
  "tr_put offset len t =
     (if tr_bytes t = [] then
        if tr_total t \<le> len then Some (True, [], t\<lparr>tr_total := 0\<rparr>)
        else Some (False, [], t\<lparr>tr_total := tr_total t - len\<rparr>)
      else
        do {
          (rel, maybe_empty, bs) \<leftarrow> put_loop (tr_au t) offset (add32 offset len) 0 [] True (tr_bytes t);
          let t1 = t\<lparr>tr_bytes := bs\<rparr>;
          let emptied = maybe_empty \<and> tr_is_empty t1;
          Some (emptied, if emptied then [] else rel, t1)
        })"

definition tr_can_split :: "tracker \<Rightarrow> bool" where
  "tr_can_split t \<longleftrightarrow> length (tr_bytes t) > 0"

definition tr_can_split_at :: "u32 \<Rightarrow> tracker \<Rightarrow> bool option" where
  "tr_can_split_at blob_offset t =
     (if tr_au t = 0 then None
      else Some (blob_offset mod tr_au t = 0 \<and> blob_offset < length (tr_bytes t) * tr_au t mod 2 ^ 32))"

text \<open>
  The two halves of a split tracker. A half with no unit keeps the pointer to its empty array where
  \<open>total_bytes\<close> is read: its value is unspecified, \<open>junk\<close>.
\<close>

definition tr_half :: "u32 \<Rightarrow> u32 \<Rightarrow> u32 list \<Rightarrow> tracker" where
  "tr_half junk au bs = \<lparr>tr_au = au, tr_bytes = bs, tr_total = (if bs = [] then junk else 0)\<rparr>"

definition tr_split :: "u32 \<Rightarrow> u32 \<Rightarrow> tracker \<Rightarrow> (tracker \<times> tracker) option" where
  "tr_split junk blob_offset t =
     (if tr_au t = 0 \<or> blob_offset div tr_au t > length (tr_bytes t) then None
      else
        let n = blob_offset div tr_au t
        in Some (tr_half junk (tr_au t) (take n (tr_bytes t)), tr_half junk (tr_au t) (drop n (tr_bytes t))))"

definition tr_add_tail :: "u32 \<Rightarrow> u32 \<Rightarrow> tracker \<Rightarrow> tracker option" where
  "tr_add_tail new_len au_size t =
     (let n = length (tr_bytes t); full_size = tr_au t * (if n \<noteq> 0 then n else 1) mod 2 ^ 32
      in if new_len = full_size then Some t
         else if n = 0 then
           do {
             t1 \<leftarrow> tr_init new_len au_size;
             Some (if tr_bytes t1 \<noteq> [] then t1\<lparr>tr_bytes := (tr_bytes t1)[0 := tr_total t]\<rparr> else t1)
           }
         else if au_size = 0 then None
         else if new_len div au_size > n then Some (t\<lparr>tr_bytes := tr_bytes t @ replicate (new_len div au_size - n) 0\<rparr>)
         else Some t)"

definition tr_equal :: "tracker \<Rightarrow> tracker \<Rightarrow> bool" where
  "tr_equal t other =
     (if tr_bytes t = [] \<and> tr_bytes other = [] then tr_total t = tr_total other \<and> tr_au t = tr_au other
      else if tr_bytes t \<noteq> [] \<and> tr_bytes other \<noteq> [] then
        length (tr_bytes t) = length (tr_bytes other) \<and> tr_au t = tr_au other \<and> list_all2 (=) (tr_bytes t) (tr_bytes other)
      else
        let referenced = (if tr_bytes t \<noteq> [] then tr_get_referenced_bytes other else tr_get_referenced_bytes t);
            bs = (if tr_bytes t \<noteq> [] then tr_bytes t else tr_bytes other)
        in referenced = 0 \<and> tr_au t = tr_au other \<and> list_all (\<lambda>b. b = 0) bs)"

definition enc_tracker :: "tracker \<Rightarrow> bytes" where
  "enc_tracker t =
     enc_u32 (tr_au t) @
     (if tr_au t = 0 then []
      else enc_u32 (length (tr_bytes t) mod 2 ^ 32) @
           (if tr_bytes t = [] then enc_u32 (tr_total t) else concat (map enc_u32 (tr_bytes t))))"

definition dec_tracker :: "tracker decoder" where
  "dec_tracker =
     dec_then dec_u32 (\<lambda>au.
       if au = 0 then dec_return tr_new
       else dec_then dec_u32 (\<lambda>n.
         if n = 0 then dec_then dec_u32 (\<lambda>t. dec_return \<lparr>tr_au = au, tr_bytes = [], tr_total = t\<rparr>)
         else dec_then (dec_items dec_u32 n) (\<lambda>bs. dec_return \<lparr>tr_au = au, tr_bytes = bs, tr_total = 0\<rparr>)))"

definition bound_tracker :: "tracker \<Rightarrow> nat" where
  "bound_tracker t = 4 + (if tr_au t = 0 then 0 else 4 + (if tr_bytes t = [] then 4 else 4 * length (tr_bytes t)))"

section \<open>Blobs\<close>

text \<open>\<open>ChecksumType\<close> is a number here, since a decoded value can be any byte.\<close>

definition CSUM_NONE :: nat where "CSUM_NONE = 1"
definition CSUM_XXHASH32 :: nat where "CSUM_XXHASH32 = 2"
definition CSUM_XXHASH64 :: nat where "CSUM_XXHASH64 = 3"
definition CSUM_CRC32C :: nat where "CSUM_CRC32C = 4"
definition CSUM_CRC32C_16 :: nat where "CSUM_CRC32C_16 = 5"
definition CSUM_CRC32C_8 :: nat where "CSUM_CRC32C_8 = 6"

lemmas csum_types = CSUM_NONE_def CSUM_XXHASH32_def CSUM_XXHASH64_def CSUM_CRC32C_def CSUM_CRC32C_16_def CSUM_CRC32C_8_def

definition csum_value_size :: "nat \<Rightarrow> nat" where
  "csum_value_size type =
     (if type = CSUM_NONE then 0
      else if type = CSUM_CRC32C \<or> type = CSUM_XXHASH32 then 4
      else if type = CSUM_CRC32C_16 then 2
      else if type = CSUM_CRC32C_8 then 1
      else if type = CSUM_XXHASH64 then 8
      else 0)"

abbreviation INVALID_OFFSET :: u64 where
  "INVALID_OFFSET \<equiv> UINT64_MAX"

definition pe_is_valid :: "u64 \<times> u32 \<Rightarrow> bool" where
  "pe_is_valid e \<longleftrightarrow> fst e \<noteq> INVALID_OFFSET"

record bblob =
  bl_extents :: "(u64 \<times> u32) list"
  bl_length :: u32
  bl_flags :: u32
  bl_csum_type :: nat
  bl_csum_order :: nat
  bl_csum :: bytes
  bl_unused :: nat

definition bblob_new :: bblob where
  "bblob_new = \<lparr>bl_extents = [], bl_length = 0, bl_flags = 0, bl_csum_type = CSUM_NONE, bl_csum_order = 0, bl_csum = [], bl_unused = 0\<rparr>"

definition FLAG_CSUM :: nat where "FLAG_CSUM = 4"
definition FLAG_HAS_UNUSED :: nat where "FLAG_HAS_UNUSED = 8"

definition has_flag :: "nat \<Rightarrow> bblob \<Rightarrow> bool" where
  "has_flag f b \<longleftrightarrow> bl_flags b AND f \<noteq> 0"

definition set_flag :: "nat \<Rightarrow> bblob \<Rightarrow> bblob" where
  "set_flag f b = b\<lparr>bl_flags := bl_flags b OR f\<rparr>"

definition clear_flag :: "nat \<Rightarrow> bblob \<Rightarrow> bblob" where
  "clear_flag f b = b\<lparr>bl_flags := bl_flags b AND (UINT32_MAX XOR f)\<rparr>"

abbreviation has_csum :: "bblob \<Rightarrow> bool" where
  "has_csum \<equiv> has_flag FLAG_CSUM"

abbreviation has_unused :: "bblob \<Rightarrow> bool" where
  "has_unused \<equiv> has_flag FLAG_HAS_UNUSED"

text \<open>\<open>1 << csum_chunk_order\<close>, which is undefined for an order of 32 or more.\<close>

definition get_csum_chunk_size :: "bblob \<Rightarrow> u32 option" where
  "get_csum_chunk_size b = (if bl_csum_order b < 32 then Some (2 ^ bl_csum_order b) else None)"

definition get_chunk_size :: "u64 \<Rightarrow> bblob \<Rightarrow> u64 option" where
  "get_chunk_size dev_block_size b =
     (if has_csum b then map_option (max dev_block_size) (get_csum_chunk_size b) else Some dev_block_size)"

definition get_ondisk_length :: "bblob \<Rightarrow> u32" where
  "get_ondisk_length b = fold (\<lambda>e len. add32 len (snd e)) (bl_extents b) 0"

abbreviation get_csum_value_size :: "bblob \<Rightarrow> nat" where
  "get_csum_value_size b \<equiv> csum_value_size (bl_csum_type b)"

text \<open>\<open>buffer::create\<close> leaves the new bytes unspecified: they are an argument of the length that is asked for.\<close>

definition csum_data_size :: "u32 \<Rightarrow> bblob \<Rightarrow> nat option" where
  "csum_data_size len b = map_option (\<lambda>c. get_csum_value_size b * len div c) (get_csum_chunk_size b)"

definition init_csum :: "bytes \<Rightarrow> nat \<Rightarrow> nat \<Rightarrow> u32 \<Rightarrow> bblob \<Rightarrow> bblob option" where
  "init_csum junk type order len b =
     (let b1 = (set_flag FLAG_CSUM b)\<lparr>bl_csum_type := type, bl_csum_order := order\<rparr>
      in map_option (\<lambda>n. b1\<lparr>bl_csum := take n (junk @ replicate n 0)\<rparr>) (csum_data_size len b1))"

definition blob_can_split :: "bblob \<Rightarrow> bool" where
  "blob_can_split b \<longleftrightarrow> \<not> has_flag FLAG_HAS_UNUSED b"

definition blob_can_split_at :: "u32 \<Rightarrow> bblob \<Rightarrow> bool option" where
  "blob_can_split_at blob_offset b =
     (if has_csum b then map_option (\<lambda>c. blob_offset mod c = 0) (get_csum_chunk_size b) else Some True)"

text \<open>
  The walks over the extents: \<open>off\<close> is the blob offset of the first extent of the list. \<open>extents_all\<close> is the loop
  of \<open>is_allocated\<close> and \<open>is_unallocated\<close>, which differ in the test of an extent that meets the range.
\<close>

fun extents_all :: "(u64 \<times> u32 \<Rightarrow> bool) \<Rightarrow> u64 \<Rightarrow> u64 \<Rightarrow> u64 \<Rightarrow> (u64 \<times> u32) list \<Rightarrow> bool" where
  "extents_all P b_off b_len off [] = True"
| "extents_all P b_off b_len off (e # es) =
     (let en = add64 off (snd e)
      in if b_off < en \<and> add64 b_off b_len > off \<and> \<not> P e then False
         else if en \<ge> add64 b_off b_len then True
         else extents_all P b_off b_len en es)"

definition is_unallocated :: "u64 \<Rightarrow> u64 \<Rightarrow> bblob \<Rightarrow> bool" where
  "is_unallocated b_off b_len b \<longleftrightarrow>
     \<not> add64 b_off b_len > bl_length b \<and> extents_all (\<lambda>e. fst e = INVALID_OFFSET) b_off b_len 0 (bl_extents b)"

definition is_allocated :: "u64 \<Rightarrow> u64 \<Rightarrow> bblob \<Rightarrow> bool" where
  "is_allocated b_off b_len b \<longleftrightarrow>
     \<not> add64 b_off b_len > bl_length b \<and> extents_all pe_is_valid b_off b_len 0 (bl_extents b)"

text \<open>\<open>map\<close>: the arguments of the calls of \<open>f\<close>, in order.\<close>

fun extents_map :: "u64 \<Rightarrow> u64 \<Rightarrow> u64 \<Rightarrow> (u64 \<times> u32) list \<Rightarrow> (u64 \<times> u64) list" where
  "extents_map b_off b_len off [] = []"
| "extents_map b_off b_len off (e # es) =
     (let en = add64 off (snd e); b_end = add64 b_off b_len;
          call = (if b_off < en \<and> b_end > off
                  then let s = max b_off off in [(add64 (fst e) (sub64 s off), sub64 (min b_end en) s)] else [])
      in if en \<ge> b_end then call else call @ extents_map b_off b_len en es)"

definition blob_map :: "u64 \<Rightarrow> u64 \<Rightarrow> bblob \<Rightarrow> (u64 \<times> u64) list" where
  "blob_map b_off b_len b = extents_map b_off b_len 0 (bl_extents b)"

text \<open>The unused bits: one for each sixteenth of the blob.\<close>

definition unused_chunk :: "u64 \<Rightarrow> u64 \<Rightarrow> bblob \<Rightarrow> u64 option" where
  "unused_chunk offset len b =
     (if bl_length b mod 16 = 0 \<and> add64 offset len \<le> bl_length b \<and> bl_length b div 16 \<noteq> 0
      then Some (bl_length b div 16) else None)"

definition is_unused :: "u64 \<Rightarrow> u64 \<Rightarrow> bblob \<Rightarrow> bool option" where
  "is_unused offset len b =
     (if \<not> has_unused b then Some False
      else map_option (\<lambda>c. list_all (bit (bl_unused b)) [offset div c..<round_up_to (add64 offset len) c div c]) (unused_chunk offset len b))"

definition add_unused :: "u64 \<Rightarrow> u64 \<Rightarrow> bblob \<Rightarrow> bblob option" where
  "add_unused offset len b =
     map_option (\<lambda>c.
       let start = round_up_to offset c div c; en = add64 offset len div c;
           b1 = b\<lparr>bl_unused := fold (\<lambda>i u. u OR push_bit i 1) [start..<en] (bl_unused b)\<rparr>
       in if start \<noteq> en then set_flag FLAG_HAS_UNUSED b1 else b1) (unused_chunk offset len b)"

definition mark_used :: "u64 \<Rightarrow> u64 \<Rightarrow> bblob \<Rightarrow> bblob option" where
  "mark_used offset len b =
     (if \<not> has_unused b then Some b
      else map_option (\<lambda>c.
        let b1 = b\<lparr>bl_unused := fold unset_bit [offset div c..<round_up_to (add64 offset len) c div c] (bl_unused b)\<rparr>
        in if bl_unused b1 = 0 then clear_flag FLAG_HAS_UNUSED b1 else b1) (unused_chunk offset len b))"

definition blob_add_tail :: "u32 \<Rightarrow> bblob \<Rightarrow> bblob option" where
  "blob_add_tail new_len b =
     (let b1 = b\<lparr>bl_extents := bl_extents b @ [(INVALID_OFFSET, sub32 new_len (bl_length b))], bl_length := new_len\<rparr>
      in if has_csum b then
           do {
             n \<leftarrow> csum_data_size new_len b;
             if length (bl_csum b) \<le> n then Some (b1\<lparr>bl_csum := bl_csum b @ replicate (n - length (bl_csum b)) 0\<rparr>) else None
           }
         else Some b1)"

definition blob_allocated :: "u32 \<Rightarrow> u32 \<Rightarrow> (u64 \<times> u32) list \<Rightarrow> bblob \<Rightarrow> bblob" where
  "blob_allocated b_off len allocs b = b\<lparr>bl_extents := allocs, bl_length := len\<rparr>"

text \<open>\<open>split\<close>: the extents before \<open>blob_offset\<close>, the one that contains it cut in two, and the others.\<close>

fun split_extents :: "u32 \<Rightarrow> u32 \<Rightarrow> (u64 \<times> u32) list \<Rightarrow> (u64 \<times> u32) list \<times> (u64 \<times> u32) list" where
  "split_extents blob_offset off [] = ([], [])"
| "split_extents blob_offset off (e # es) =
     (if add32 off (snd e) \<le> blob_offset
      then let (l, r) = split_extents blob_offset (add32 off (snd e)) es in (e # l, r)
      else if off < blob_offset
      then let n = blob_offset - off
           in ([(fst e, n)], (if pe_is_valid e then add64 (fst e) n else INVALID_OFFSET, sub32 (snd e) n) # es)
      else ([], e # es))"

definition blob_split :: "u32 \<Rightarrow> bblob \<Rightarrow> bblob \<Rightarrow> (bblob \<times> bblob) option" where
  "blob_split blob_offset b rb =
     (let (l, r) = split_extents blob_offset 0 (bl_extents b); r_len = sub32 (bl_length b) blob_offset;
          b1 = b\<lparr>bl_extents := l, bl_length := blob_offset\<rparr>;
          rb1 = rb\<lparr>bl_extents := r, bl_length := r_len, bl_flags := bl_flags b\<rparr>
      in if has_csum b then
           do {
             c \<leftarrow> get_csum_chunk_size b;
             let left = get_csum_value_size b * (blob_offset div c);
             let right = get_csum_value_size b * (r_len div c);
             if left + right \<le> length (bl_csum b) then
               Some (b1\<lparr>bl_csum := take left (bl_csum b)\<rparr>,
                     (set_flag FLAG_CSUM rb1)
                       \<lparr>bl_csum := take right (drop left (bl_csum b)), bl_csum_type := bl_csum_type b, bl_csum_order := bl_csum_order b\<rparr>)
             else None
           }
         else Some (b1, rb1))"

text \<open>
  \<open>release_extents\<close>: whether the blob is empty now, the extents to free and the blob. The loop gives the extents
  that stay and the ones that go.
\<close>

fun release_extents_loop :: "(u64 \<times> u32) list \<Rightarrow> u32 \<Rightarrow> (u64 \<times> u32) list \<Rightarrow> (u64 \<times> u32) list \<times> (u64 \<times> u32) list" where
  "release_extents_loop logical off [] = ([], [])"
| "release_extents_loop logical off (e # es) =
     (let en = add32 off (snd e); (keep, rel) = release_extents_loop logical en es
      in if list_ex (\<lambda>l. fst l \<le> off \<and> add64 (fst l) (snd l) \<ge> en) logical
         then (keep, if pe_is_valid e then e # rel else rel)
         else (e # keep, rel))"

definition release_extents :: "bool \<Rightarrow> (u64 \<times> u32) list \<Rightarrow> bblob \<Rightarrow> bool \<times> (u64 \<times> u32) list \<times> bblob" where
  "release_extents all logical b =
     (if all then (True, filter pe_is_valid (bl_extents b), b\<lparr>bl_extents := [], bl_length := 0\<rparr>)
      else
        let (keep, rel) = release_extents_loop logical 0 (bl_extents b)
        in (keep = [], rel, b\<lparr>bl_extents := keep, bl_length := fold (\<lambda>e len. add32 len (snd e)) keep 0\<rparr>))"

text \<open>
  Checksums, one per chunk. \<open>calc_csum\<close> copies the first \<open>vsz\<close> bytes of the CRC into the array; more than the four
  it has would be read from beyond the variable.
\<close>

definition chunk_crc :: "u64 \<Rightarrow> bytes \<Rightarrow> nat \<Rightarrow> crc" where
  "chunk_crc chunk d i = calc_crc32 (Some (take chunk (drop (i * chunk) d))) chunk 0"

definition csum_index :: "u64 \<Rightarrow> u64 \<Rightarrow> nat \<Rightarrow> u32" where
  "csum_index chunk b_off i = (b_off div chunk + i) mod 2 ^ 32"

fun calc_loop :: "u64 \<Rightarrow> nat \<Rightarrow> u64 \<Rightarrow> bytes \<Rightarrow> nat list \<Rightarrow> bytes \<Rightarrow> bytes option" where
  "calc_loop chunk vsz b_off d [] cs = Some cs"
| "calc_loop chunk vsz b_off d (i # is') cs =
     (let at = csum_index chunk b_off i * vsz
      in if vsz \<le> 4 \<and> at + vsz \<le> length cs
         then calc_loop chunk vsz b_off d is' (take at cs @ le_bytes vsz (unat (chunk_crc chunk d i)) @ drop (at + vsz) cs)
         else None)"

definition calc_csum :: "u64 \<Rightarrow> bytes \<Rightarrow> u64 \<Rightarrow> bblob \<Rightarrow> bblob option" where
  "calc_csum b_off d dev_block_size b =
     (if \<not> has_csum b \<or> d = [] then Some b
      else
        do {
          chunk \<leftarrow> get_chunk_size dev_block_size b;
          if chunk = 0 then None
          else map_option (\<lambda>cs. b\<lparr>bl_csum := cs\<rparr>)
            (calc_loop chunk (get_csum_value_size b) b_off d [0..<length d div chunk mod 2 ^ 32] (bl_csum b))
        })"

text \<open>
  \<open>verify_csum\<close> copies \<open>vsz\<close> bytes over a variable that is not initialised, \<open>junk i\<close> in round \<open>i\<close>, and compares all
  four bytes. The result is the offset of the first bad chunk as an \<open>int\<close>, or \<open>-1\<close>.
\<close>

definition stored_crc :: "u32 \<Rightarrow> nat \<Rightarrow> nat \<Rightarrow> bytes \<Rightarrow> u32" where
  "stored_crc junk vsz at cs = le_val (take vsz (drop at cs) @ drop vsz (le_bytes 4 junk))"

fun verify_loop :: "(nat \<Rightarrow> u32) \<Rightarrow> u64 \<Rightarrow> nat \<Rightarrow> u64 \<Rightarrow> bytes \<Rightarrow> nat list \<Rightarrow> bytes \<Rightarrow> int option" where
  "verify_loop junk chunk vsz b_off d [] cs = Some (- 1)"
| "verify_loop junk chunk vsz b_off d (i # is') cs =
     (let at = csum_index chunk b_off i * vsz
      in if vsz \<le> 4 \<and> at + vsz \<le> length cs then
           if unat (chunk_crc chunk d i) \<noteq> stored_crc (junk i) vsz at cs
           then Some (signed_take_bit 31 (int (add64 b_off (i * chunk))))
           else verify_loop junk chunk vsz b_off d is' cs
         else None)"

definition verify_csum :: "(nat \<Rightarrow> u32) \<Rightarrow> u64 \<Rightarrow> bytes \<Rightarrow> u64 \<Rightarrow> bblob \<Rightarrow> int option" where
  "verify_csum junk b_off d dev_block_size b =
     (if \<not> has_csum b \<or> d = [] then Some (- 1)
      else
        do {
          chunk \<leftarrow> get_chunk_size dev_block_size b;
          if chunk = 0 then None
          else verify_loop junk chunk (get_csum_value_size b) b_off d [0..<length d div chunk mod 2 ^ 32] (bl_csum b)
        })"

text \<open>The encoding. The fields that are not stored keep the values they have in the decoded object, a new one.\<close>

definition enc_u16 :: "nat \<Rightarrow> bytes" where
  "enc_u16 v = le_bytes 2 v"

definition dec_u16 :: "nat decoder" where
  "dec_u16 = dec_then (dec_bytes 2) (\<lambda>b. dec_return (le_val b))"

definition blob_body :: "bblob \<Rightarrow> bytes" where
  "blob_body b =
     enc_pextents (bl_extents b) @ enc_u32 (bl_length b) @ enc_u32 (bl_flags b) @
     (if has_csum b then enc_u8 (bl_csum_type b) @ enc_u8 (bl_csum_order b) @ enc_string (bl_csum b) else []) @
     (if has_unused b then enc_u16 (bl_unused b) else [])"

definition dec_blob_csum :: "bblob \<Rightarrow> bblob decoder" where
  "dec_blob_csum b =
     (if has_csum b then
        dec_then dec_u8 (\<lambda>t. dec_then dec_u8 (\<lambda>ord. dec_then dec_string (\<lambda>cs.
          dec_return (b\<lparr>bl_csum_type := t, bl_csum_order := ord, bl_csum := cs\<rparr>))))
      else dec_return b)"

definition dec_blob_unused :: "bblob \<Rightarrow> bblob decoder" where
  "dec_blob_unused b =
     (if has_unused b then dec_then dec_u16 (\<lambda>u. dec_return (b\<lparr>bl_unused := u\<rparr>)) else dec_return b)"

definition dec_blob_body :: "bblob decoder" where
  "dec_blob_body =
     dec_then dec_pextents (\<lambda>es. dec_then dec_u32 (\<lambda>len. dec_then dec_u32 (\<lambda>fl.
       dec_then (dec_blob_csum (bblob_new\<lparr>bl_extents := es, bl_length := len, bl_flags := fl\<rparr>)) dec_blob_unused)))"

definition enc_blob :: "bblob \<Rightarrow> bytes" where
  "enc_blob b = enc_struct 2 2 (blob_body b)"

definition dec_blob :: "bblob decoder" where
  "dec_blob = dec_struct dec_blob_body"

definition bound_blob_body :: "bblob \<Rightarrow> nat" where
  "bound_blob_body b =
     bound_pextents (bl_extents b) + 4 + 4 +
     (if has_csum b then 1 + 1 + bound_string (bl_csum b) else 0) + (if has_unused b then 2 else 0)"

section \<open>The blob object\<close>

record blob_obj =
  bo_blob :: bblob
  bo_used :: tracker

definition Blob_new :: blob_obj where
  "Blob_new = \<lparr>bo_blob = bblob_new, bo_used = tr_new\<rparr>"

definition Blob_is_referenced :: "blob_obj \<Rightarrow> bool" where
  "Blob_is_referenced B \<longleftrightarrow> \<not> tr_is_empty (bo_used B)"

definition Blob_can_split :: "blob_obj \<Rightarrow> bool" where
  "Blob_can_split B \<longleftrightarrow> tr_can_split (bo_used B) \<and> blob_can_split (bo_blob B)"

definition Blob_can_split_at :: "u32 \<Rightarrow> blob_obj \<Rightarrow> bool option" where
  "Blob_can_split_at blob_offset B =
     do {
       t \<leftarrow> tr_can_split_at blob_offset (bo_used B);
       if t then blob_can_split_at blob_offset (bo_blob B) else Some False
     }"

text \<open>The unit of the tracker: the allocation unit, or the checksum chunk when that is larger.\<close>

definition release_unit :: "u32 \<Rightarrow> bblob \<Rightarrow> u32 option" where
  "release_unit min_alloc_size b =
     (if has_csum b then map_option (max min_alloc_size) (get_csum_chunk_size b) else Some min_alloc_size)"

definition get_ref :: "u32 \<Rightarrow> u32 \<Rightarrow> u32 \<Rightarrow> blob_obj \<Rightarrow> blob_obj option" where
  "get_ref offset len min_alloc_size B =
     (if bl_length (bo_blob B) = 0 then None
      else
        do {
          t \<leftarrow> (if tr_is_empty (bo_used B)
               then do { u \<leftarrow> release_unit min_alloc_size (bo_blob B); tr_init (bl_length (bo_blob B)) u }
               else Some (bo_used B));
          t1 \<leftarrow> tr_get offset len t;
          Some (B\<lparr>bo_used := t1\<rparr>)
        })"

definition put_ref :: "u32 \<Rightarrow> u32 \<Rightarrow> blob_obj \<Rightarrow> (bool \<times> (u64 \<times> u32) list \<times> blob_obj) option" where
  "put_ref offset len B =
     do {
       (emptied, logical, t) \<leftarrow> tr_put offset len (bo_used B);
       if \<not> emptied \<and> logical = [] then Some (False, [], B\<lparr>bo_used := t\<rparr>)
       else
         let (gone, r, b) = release_extents emptied logical (bo_blob B)
         in Some (gone, r, \<lparr>bo_blob = b, bo_used = t\<rparr>)
     }"

definition Blob_split :: "u32 \<Rightarrow> u32 \<Rightarrow> blob_obj \<Rightarrow> blob_obj \<Rightarrow> (blob_obj \<times> blob_obj) option" where
  "Blob_split junk blob_offset B R =
     do {
       (tl, tr) \<leftarrow> tr_split junk blob_offset (bo_used B);
       (bl, br) \<leftarrow> blob_split blob_offset (bo_blob B) (bo_blob R);
       Some (B\<lparr>bo_blob := bl, bo_used := tl\<rparr>, R\<lparr>bo_blob := br, bo_used := tr\<rparr>)
     }"

text \<open>\<open>can_reuse_blob\<close>: the answer, the length that fits, and the blob with its tail.\<close>

definition align_up32 :: "u32 \<Rightarrow> u32 \<Rightarrow> u32" where
  "align_up32 x a = sub32 (add32 x a) 1 AND (UINT32_MAX XOR sub32 a 1)"

definition can_reuse_blob :: "u32 \<Rightarrow> u32 \<Rightarrow> u32 \<Rightarrow> u32 \<Rightarrow> blob_obj \<Rightarrow> (bool \<times> u32 \<times> blob_obj) option" where
  "can_reuse_blob min_alloc_size target_blob_size b_offset len B =
     (let b = bo_blob B; en = add32 b_offset len
      in do {
        aligned \<leftarrow> (if has_csum b then map_option (\<lambda>c. b_offset mod c = 0 \<and> en mod c = 0) (get_csum_chunk_size b) else Some True);
        if \<not> aligned then Some (False, len, B)
        else
          let blen = bl_length b; tgt = max blen target_blob_size;
              new_blen = (if b_offset \<ge> blen then en else max blen en);
              overlap = (if new_blen > blen then sub32 blen b_offset else len)
          in if b_offset < blen \<and> \<not> is_unallocated b_offset overlap b then Some (False, len, B)
             else if new_blen > blen then
               let new_blen1 = align_up32 new_blen min_alloc_size; overflow = int new_blen1 - int tgt
               in if overflow \<ge> int len \<or> has_unused b then Some (False, len, B)
                  else
                    let new_blen2 = (if overflow > 0 then new_blen1 - nat overflow else new_blen1);
                        len1 = (if overflow > 0 then len - nat overflow else len)
                    in if new_blen2 > blen then
                         do {
                           b1 \<leftarrow> blob_add_tail new_blen2 b;
                           au \<leftarrow> release_unit min_alloc_size b1;
                           t1 \<leftarrow> tr_add_tail new_blen2 au (bo_used B);
                           Some (True, len1, B\<lparr>bo_blob := b1, bo_used := t1\<rparr>)
                         }
                       else Some (True, len1, B)
             else Some (True, len, B)
      })"

end
