(* ===== verification/Blob_Refs.thy ===== *)
theory Blob_Refs
  imports Blob
begin

text \<open>
  The use tracker of a blob against what it stands for: how often each byte of the blob is referenced. The tracker
  keeps one sum per allocation unit. A \<open>get\<close> adds a reference to every byte of a range, a \<open>put\<close> takes one away, and
  the units to release are the ones of the range in which no byte is referenced any more.
\<close>

section \<open>The part of a range in a unit\<close>

definition au_part :: "nat \<Rightarrow> nat \<Rightarrow> nat \<Rightarrow> nat \<Rightarrow> nat" where
  "au_part au off en i = min en (i * au + au) - max off (i * au)"

lemma au_part_empty: "en \<le> off \<Longrightarrow> au_part au off en i = 0"
  by (simp add: au_part_def)

lemma unit_of:
  fixes off au :: nat
  assumes "0 < au"
  shows "off div au * au + off mod au = off" and "off mod au < au" and "off + (au - off mod au) = off div au * au + au"
proof -
  show 1: "off div au * au + off mod au = off" by simp
  show 2: "off mod au < au" using assms by simp
  show "off + (au - off mod au) = off div au * au + au" using 1 2 by linarith
qed

lemma unit_cases:
  fixes off au i :: nat
  obtains "i = off div au" | "i < off div au" "i * au + au \<le> off div au * au" | "off div au < i" "off div au * au + au \<le> i * au"
proof -
  have mono: "a * au + au \<le> b * au" if "a < b" for a b
  proof -
    have "(a + 1) * au \<le> b * au" using that by (intro mult_right_mono) auto
    then show ?thesis by simp
  qed
  consider "i = off div au" | "i < off div au" | "off div au < i" by linarith
  then show thesis by cases (use mono that in blast)+
qed

text \<open>The first unit of a range, and what is left of the range after it.\<close>

lemma au_part_step:
  assumes "0 < au" and "off < en"
  shows "au_part au off en i =
    (if i = off div au then min (au - off mod au) (en - off) else 0) + au_part au (off div au * au + au) en i"
proof -
  have d: "min (au - off mod au) (en - off) = min en (off div au * au + au) - off"
    using unit_of [OF assms(1), of off] assms(2) by linarith
  have o: "off div au * au \<le> off" "off < off div au * au + au" using unit_of [OF assms(1), of off] by linarith+
  show ?thesis
  proof (cases rule: unit_cases [of i off au])
    case 1
    then show ?thesis unfolding d au_part_def using o by simp
  next
    case 2
    then have "min en (i * au + au) - max off (i * au) = 0" "min en (i * au + au) - max (off div au * au + au) (i * au) = 0"
      using o assms(1) by linarith+
    then show ?thesis unfolding au_part_def using 2(1) by simp
  next
    case 3
    then have "max off (i * au) = i * au" "max (off div au * au + au) (i * au) = i * au" using o by linarith+
    then show ?thesis unfolding au_part_def using 3(1) by simp
  qed
qed

lemma au_part_capped:
  assumes "0 < au" and "off < en"
  shows "au_part au (off + min (au - off mod au) (en - off)) en i = au_part au (off div au * au + au) en i"
proof (cases "off div au * au + au \<le> en")
  case True
  then have "off + min (au - off mod au) (en - off) = off div au * au + au" using unit_of [OF assms(1), of off] assms(2) by linarith
  then show ?thesis by simp
next
  case False
  then have "off + min (au - off mod au) (en - off) = en" using unit_of [OF assms(1), of off] assms(2) by linarith
  then show ?thesis using False by (simp add: au_part_empty)
qed

lemma au_part_count: "au_part au off en i = card (arange off (en - off) \<inter> arange (i * au) au)"
proof -
  have "arange off (en - off) \<inter> arange (i * au) au = {max off (i * au)..<min en (i * au + au)}"
    by (auto simp: arange_def)
  then show ?thesis by (simp add: au_part_def)
qed

lemma au_part_pos: "0 < au_part au off en i \<longleftrightarrow> off < i * au + au \<and> i * au < en \<and> off < en \<and> 0 < au"
  by (auto simp: au_part_def)

section \<open>The loops\<close>

lemma first_unit: "0 < au \<Longrightarrow> off < en \<Longrightarrow> en \<le> n * au \<Longrightarrow> off div au < n" for off au en n :: nat
  by (metis div_less_iff_less_mult less_le_trans)

lemma get_loop_adds:
  assumes "0 < au" and "en \<le> length bs * au" and "\<forall>i < length bs. bs ! i + au_part au off en i < 2 ^ 32"
  shows "\<exists>bs'. get_loop au off en bs = Some bs' \<and> length bs' = length bs \<and> (\<forall>i < length bs. bs' ! i = bs ! i + au_part au off en i)"
  using assms
proof (induction au off en bs rule: get_loop.induct)
  case (1 au off en bs)
  show ?case
  proof (cases "off < en")
    case False
    then show ?thesis by (simp add: get_loop.simps au_part_empty)
  next
    case True
    define pos diff where "pos = off div au" and "diff = min (au - off mod au) (en - off)"
    define bs1 where "bs1 = bs[pos := add32 (bs ! pos) diff]"
    have au: "0 < au" and pos: "pos < length bs" using 1(2,3) True first_unit by (auto simp: pos_def)
    have part: "au_part au off en i = (if i = pos then diff else 0) + au_part au (off + diff) en i" for i
      unfolding pos_def diff_def au_part_capped [OF au True] by (rule au_part_step [OF au True])
    have "bs ! pos + diff < 2 ^ 32" using 1(4) pos part [of pos] by fastforce
    then have nth1: "bs1 ! i = bs ! i + (if i = pos then diff else 0)" if "i < length bs" for i
      using that by (auto simp: bs1_def add32_exact)
    have "bs1 ! i + au_part au (off + diff) en i < 2 ^ 32" if "i < length bs" for i using 1(4) nth1 [OF that] part [of i] that by fastforce
    then have "\<forall>i < length bs1. bs1 ! i + au_part au (off + diff) en i < 2 ^ 32" by (simp add: bs1_def)
    then obtain bs' where r: "get_loop au (off + diff) en bs1 = Some bs'" "length bs' = length bs1"
        "\<forall>i < length bs1. bs' ! i = bs1 ! i + au_part au (off + diff) en i"
      using 1(1) [OF True _ pos_def diff_def pos, folded bs1_def] au 1(3) by (auto simp: bs1_def)
    have "get_loop au off en bs = Some bs'"
      using True au pos r(1) unfolding bs1_def pos_def diff_def by (simp add: get_loop.simps [of au off])
    moreover have "bs' ! i = bs ! i + au_part au off en i" if "i < length bs" for i
      using r(3) that nth1 [OF that] part [of i] by (simp add: bs1_def)
    ultimately show ?thesis using r(2) by (simp add: bs1_def)
  qed
qed

definition pe_ranges :: "(u64 \<times> u32) list \<Rightarrow> nat set" where
  "pe_ranges v = (\<Union>e \<in> set v. arange (fst e) (snd e))"

lemma pe_ranges_append [simp]: "pe_ranges (a @ b) = pe_ranges a \<union> pe_ranges b"
  by (auto simp: pe_ranges_def)

lemma pe_ranges_simps [simp]: "pe_ranges [] = {}" "pe_ranges (e # v) = arange (fst e) (snd e) \<union> pe_ranges v"
  by (auto simp: pe_ranges_def)

definition ends_at :: "nat \<Rightarrow> (u64 \<times> u32) list \<Rightarrow> bool" where
  "ends_at next rel \<longleftrightarrow> rel = [] \<or> fst (last rel) + snd (last rel) = next"

lemma add_release_ranges:
  assumes "ends_at next rel" and "off + au < 2 ^ 32"
  shows "pe_ranges (add_release next au off rel) = pe_ranges rel \<union> arange off au" and "ends_at (off + au) (add_release next au off rel)"
proof -
  show "pe_ranges (add_release next au off rel) = pe_ranges rel \<union> arange off au"
  proof (cases "rel = [] \<or> next \<noteq> off")
    case True
    then show ?thesis by (auto simp: add_release_def)
  next
    case False
    then obtain r e where rel: "rel = r @ [e]" by (metis rev_exhaust)
    then have "fst e + snd e = off" using assms(1) False by (simp add: ends_at_def)
    then show ?thesis using False assms(2) rel by (auto simp: add_release_def add32_exact arange_def)
  qed
  show "ends_at (off + au) (add_release next au off rel)"
    using assms by (auto simp: add_release_def ends_at_def add32_exact)
qed

lemma put_loop_subtracts:
  assumes "0 < au" and "en \<le> length bs * au" and "length bs * au < 2 ^ 32" and "\<forall>i < length bs. au_part au off en i \<le> bs ! i" and "ends_at next rel"
  shows "\<exists>rel' bs'. put_loop au off en next rel me bs = Some (rel', me \<and> (\<forall>i < length bs. 0 < au_part au off en i \<longrightarrow> bs' ! i = 0), bs') \<and>
    length bs' = length bs \<and> (\<forall>i < length bs. bs' ! i = bs ! i - au_part au off en i) \<and>
    pe_ranges rel' = pe_ranges rel \<union> (\<Union>i \<in> {i. i < length bs \<and> 0 < au_part au off en i \<and> bs' ! i = 0}. arange (i * au) au)"
  using assms
proof (induction au off en "next" rel me bs rule: put_loop.induct)
  case (1 au off en "next" rel me bs)
  show ?case
  proof (cases "off < en")
    case False
    then show ?thesis by (simp add: put_loop.simps au_part_empty)
  next
    case True
    define pos diff where "pos = off div au" and "diff = min (au - off mod au) (en - off)"
    define b bs1 where "b = bs ! pos - diff" and "bs1 = bs[pos := b]"
    have au: "0 < au" and pos: "pos < length bs" using 1(3,4) True first_unit by (auto simp: pos_def)
    have part: "au_part au off en i = (if i = pos then diff else 0) + au_part au (pos * au + au) en i" for i
      unfolding pos_def diff_def by (rule au_part_step [OF au True])
    have none: "au_part au (pos * au + au) en pos = 0" by (simp add: au_part_def)
    have diff: "diff \<le> bs ! pos" "0 < diff" using 1(6) pos part [of pos] True au by (auto simp: diff_def)
    have "(pos + 1) * au \<le> length bs * au" using pos by (intro mult_right_mono) auto
    then have top: "pos * au + au < 2 ^ 32" using 1(5) by simp
    have off1: "add32 off (if off mod au \<noteq> 0 then au - off mod au else au) = pos * au + au"
      using unit_of(3) [OF au, of off] top by (auto simp: add32_exact pos_def)
    have nth1: "bs1 ! i = bs ! i - (if i = pos then diff else 0)" if "i < length bs" for i
      using that by (auto simp: bs1_def b_def)
    have "au_part au (pos * au + au) en i \<le> bs1 ! i" if "i < length bs" for i
      using 1(6) that nth1 [OF that] part [of i] none by (cases "i = pos") auto
    then have le1: "\<forall>i < length bs1. au_part au (pos * au + au) en i \<le> bs1 ! i" by (simp add: bs1_def)
    have len1: "en \<le> length bs1 * au" "length bs1 * au < 2 ^ 32" using 1(4,5) by (simp_all add: bs1_def)
    define next1 rel1 me1 where "next1 = (if b = 0 then pos * au + au else next)"
      and "rel1 = (if b = 0 then add_release next au (pos * au) rel else rel)" and "me1 = (me \<and> b = 0)"
    have ends: "ends_at next1 rel1" and rng1: "pe_ranges rel1 = pe_ranges rel \<union> (if b = 0 then arange (pos * au) au else {})"
      using add_release_ranges [OF 1(7) top] 1(7) by (auto simp: next1_def rel1_def)
    have step: "put_loop au off en next rel me bs = put_loop au (pos * au + au) en next1 rel1 me1 bs1"
      using True au pos diff unfolding put_loop.simps [of au off] Let_def off1 pos_def [symmetric] diff_def [symmetric] b_def [symmetric] bs1_def [symmetric]
      by (simp add: next1_def rel1_def me1_def)
    have "\<exists>rel' bs'. put_loop au (pos * au + au) en next1 rel1 me1 bs1 = Some (rel', me1 \<and> (\<forall>i < length bs1. 0 < au_part au (pos * au + au) en i \<longrightarrow> bs' ! i = 0), bs') \<and>
      length bs' = length bs1 \<and> (\<forall>i < length bs1. bs' ! i = bs1 ! i - au_part au (pos * au + au) en i) \<and>
      pe_ranges rel' = pe_ranges rel1 \<union> (\<Union>i \<in> {i. i < length bs1 \<and> 0 < au_part au (pos * au + au) en i \<and> bs' ! i = 0}. arange (i * au) au)"
    proof (cases "b = 0")
      case b0: True
      show ?thesis
        using 1(1) [OF True _ refl pos_def diff_def _ b_def refl b0, unfolded off1, folded bs1_def] au pos diff len1 le1 ends b0
        by (simp add: next1_def rel1_def me1_def)
    next
      case b1: False
      show ?thesis
        using 1(2) [OF True _ refl pos_def diff_def _ b_def refl b1, unfolded off1, folded bs1_def] au pos diff len1 le1 ends b1
        by (simp add: next1_def rel1_def me1_def)
    qed
    then obtain rel' bs' where r: "put_loop au (pos * au + au) en next1 rel1 me1 bs1 = Some (rel', me1 \<and> (\<forall>i < length bs1. 0 < au_part au (pos * au + au) en i \<longrightarrow> bs' ! i = 0), bs')"
        "length bs' = length bs1" "\<forall>i < length bs1. bs' ! i = bs1 ! i - au_part au (pos * au + au) en i"
        "pe_ranges rel' = pe_ranges rel1 \<union> (\<Union>i \<in> {i. i < length bs1 \<and> 0 < au_part au (pos * au + au) en i \<and> bs' ! i = 0}. arange (i * au) au)"
      by blast
    have at: "bs' ! pos = b" using r(3) pos none nth1 [OF pos] by (simp add: bs1_def b_def)
    have touched: "0 < au_part au off en i \<longleftrightarrow> i = pos \<or> 0 < au_part au (pos * au + au) en i" for i
      using part [of i] diff(2) by auto
    have me: "me1 \<and> (\<forall>i < length bs1. 0 < au_part au (pos * au + au) en i \<longrightarrow> bs' ! i = 0) \<longleftrightarrow>
        me \<and> (\<forall>i < length bs. 0 < au_part au off en i \<longrightarrow> bs' ! i = 0)"
      unfolding touched me1_def using at pos by (auto simp: bs1_def)
    have rng: "pe_ranges rel' = pe_ranges rel \<union> (\<Union>i \<in> {i. i < length bs \<and> 0 < au_part au off en i \<and> bs' ! i = 0}. arange (i * au) au)"
      unfolding r(4) rng1 touched using at pos by (auto simp: bs1_def)
    have "bs' ! i = bs ! i - au_part au off en i" if "i < length bs" for i
      using r(3) that nth1 [OF that] part [of i] by (simp add: bs1_def)
    then show ?thesis using step r(1,2) rng unfolding me by (intro exI [of _ rel'] exI [of _ bs']) (simp add: bs1_def)
  qed
qed

section \<open>Reference counts of bytes\<close>

definition tr_counts :: "tracker \<Rightarrow> u32 list" where
  "tr_counts t = (if tr_bytes t = [] then [tr_total t] else tr_bytes t)"

definition tr_span :: "tracker \<Rightarrow> nat" where
  "tr_span t = length (tr_counts t) * tr_au t"

definition unit_refs :: "(nat \<Rightarrow> nat) \<Rightarrow> nat \<Rightarrow> nat \<Rightarrow> nat" where
  "unit_refs c au i = (\<Sum>x \<in> arange (i * au) au. c x)"

text \<open>\<open>c x\<close> is the number of references to byte \<open>x\<close> of the blob.\<close>

definition tr_rep :: "tracker \<Rightarrow> (nat \<Rightarrow> nat) \<Rightarrow> bool" where
  "tr_rep t c \<longleftrightarrow>
     0 < tr_au t \<and> tr_span t < 2 ^ 32 \<and> (\<forall>x \<ge> tr_span t. c x = 0) \<and>
     (\<forall>i < length (tr_counts t). tr_counts t ! i = unit_refs c (tr_au t) i)"

definition add_refs :: "nat \<Rightarrow> nat \<Rightarrow> (nat \<Rightarrow> nat) \<Rightarrow> nat \<Rightarrow> nat" where
  "add_refs off len c x = (if x \<in> arange off len then c x + 1 else c x)"

definition drop_refs :: "nat \<Rightarrow> nat \<Rightarrow> (nat \<Rightarrow> nat) \<Rightarrow> nat \<Rightarrow> nat" where
  "drop_refs off len c x = (if x \<in> arange off len then c x - 1 else c x)"

lemma unit_refs_part: "(\<Sum>x \<in> arange (i * au) au. if x \<in> arange off len then 1 else 0) = au_part au off (off + len) i"
  by (simp add: sum.If_cases au_part_count Int_def conj_ac)

lemma unit_refs_add: "unit_refs (add_refs off len c) au i = unit_refs c au i + au_part au off (off + len) i"
proof -
  have "add_refs off len c = (\<lambda>x. c x + (if x \<in> arange off len then 1 else 0))" by (auto simp: add_refs_def)
  then show ?thesis by (simp add: unit_refs_def sum.distrib unit_refs_part del: mem_arange)
qed

lemma unit_refs_drop:
  assumes "\<forall>x \<in> arange off len. 0 < c x"
  shows "unit_refs (drop_refs off len c) au i + au_part au off (off + len) i = unit_refs c au i"
proof -
  have "c = add_refs off len (drop_refs off len c)" using assms by (auto simp: add_refs_def drop_refs_def)
  then show ?thesis using unit_refs_add [of off len "drop_refs off len c" au i] by simp
qed

lemma unit_refs_zero: "unit_refs c au i = 0 \<longleftrightarrow> (\<forall>x \<in> arange (i * au) au. c x = 0)"
  by (simp add: unit_refs_def)

lemma in_unit: "0 < au \<Longrightarrow> x \<in> arange (x div au * au) au" for x au :: nat
  unfolding mem_arange using unit_of [of au x] by linarith

lemma all_units_zero:
  assumes "0 < au" and "\<forall>x \<ge> n * au. c x = 0"
  shows "(\<forall>i < n. unit_refs c au i = 0) \<longleftrightarrow> (\<forall>x. c x = 0)"
proof
  assume z: "\<forall>i < n. unit_refs c au i = 0"
  show "\<forall>x. c x = 0"
  proof
    fix x
    show "c x = 0"
    proof (cases "x < n * au")
      case True
      then have "x div au < n" by (simp add: assms(1) div_less_iff_less_mult)
      then show ?thesis using z in_unit [OF assms(1)] unfolding unit_refs_zero by blast
    qed (use assms(2) in simp)
  qed
qed (simp add: unit_refs_def)

text \<open>A new tracker counts nothing, and covers the blob.\<close>

lemma tr_init_rep:
  assumes "0 < au" and "full + au \<le> 2 ^ 32" and "0 < full" and "au < 2 ^ 32" and "(full + au - 1) div au * au < 2 ^ 32"
  shows "\<exists>t. tr_init full au = Some t \<and> tr_rep t (\<lambda>x. 0) \<and> full \<le> tr_span t \<and> tr_au t = au"
proof -
  define n where "n = (full + au - 1) div au"
  have "sub32 (add32 full au) 1 = full + au - 1"
  proof (cases "full + au < 2 ^ 32")
    case True
    then show ?thesis using assms(1) by (simp add: add32_exact sub32_exact)
  next
    case False
    then have "full + au = 2 ^ 32" using assms(2) by simp
    then show ?thesis by (simp add: add32_def sub32_def)
  qed
  then have i: "tr_init full au = Some \<lparr>tr_au = au, tr_bytes = (if n \<le> 1 then [] else replicate n 0), tr_total = 0\<rparr>"
    using assms(1) by (simp add: tr_init_def Let_def n_def)
  have m: "full + au - 1 = n * au + (full + au - 1) mod au" unfolding n_def by (rule div_mult_mod_eq [symmetric])
  have lt: "(full + au - 1) mod au < au" using assms(1) by simp
  have n1: "full \<le> n * au" using m lt by linarith
  have "n \<noteq> 0" using n1 assms(3) by (cases n) auto
  then have len: "length (tr_counts \<lparr>tr_au = au, tr_bytes = (if n \<le> 1 then [] else replicate n 0), tr_total = 0\<rparr>) = n"
    by (auto simp: tr_counts_def)
  have z: "tr_counts \<lparr>tr_au = au, tr_bytes = (if n \<le> 1 then [] else replicate n 0), tr_total = 0\<rparr> ! j = 0" if "j < n" for j
    using that by (cases "n \<le> 1") (auto simp: tr_counts_def le_Suc_eq)
  have "n * au < 2 ^ 32" using assms(5) unfolding n_def .
  then show ?thesis using i len z n1 assms(1) by (simp add: tr_rep_def tr_span_def unit_refs_def)
qed

lemma tr_get_rep:
  assumes r: "tr_rep t c" and fits: "off + len \<le> tr_span t"
    and small: "\<forall>i < length (tr_counts t). unit_refs (add_refs off len c) (tr_au t) i < 2 ^ 32"
  shows "\<exists>t'. tr_get off len t = Some t' \<and> tr_rep t' (add_refs off len c) \<and> tr_span t' = tr_span t"
proof (cases "tr_bytes t = []")
  case True
  have p: "au_part (tr_au t) off (off + len) 0 = len" using fits True by (simp add: au_part_def tr_span_def tr_counts_def)
  have "tr_total t + len < 2 ^ 32" using small r True p by (simp add: unit_refs_add tr_rep_def tr_counts_def)
  then show ?thesis using r True p fits
    by (auto simp: tr_get_def tr_rep_def tr_counts_def tr_span_def unit_refs_add add32_exact add_refs_def)
next
  case False
  have "add32 off len = off + len" using fits r by (simp add: add32_exact tr_rep_def)
  moreover obtain bs where bs: "get_loop (tr_au t) off (off + len) (tr_bytes t) = Some bs" "length bs = length (tr_bytes t)"
      "\<forall>i < length (tr_bytes t). bs ! i = tr_bytes t ! i + au_part (tr_au t) off (off + len) i"
    using get_loop_adds [of "tr_au t" "off + len" "tr_bytes t" off] r fits small False
    by (auto simp: tr_rep_def tr_counts_def tr_span_def unit_refs_add)
  moreover have "bs \<noteq> []" using bs(2) False by auto
  ultimately show ?thesis using r fits False
    by (auto simp: tr_get_def tr_rep_def tr_counts_def tr_span_def unit_refs_add add_refs_def)
qed

lemma meets_part: "arange (i * au) au \<inter> arange off len \<noteq> {} \<longleftrightarrow> 0 < au_part au off (off + len) i"
proof -
  have "au_part au off (off + len) i = card (arange (i * au) au \<inter> arange off len)" by (simp add: au_part_count Int_commute)
  then show ?thesis by (simp add: card_gt_0_iff)
qed

lemma meets_in_span: "0 < au_part au off en i \<Longrightarrow> en \<le> n * au \<Longrightarrow> i < n"
proof (rule ccontr)
  assume p: "0 < au_part au off en i" and en: "en \<le> n * au" and i: "\<not> i < n"
  have "n * au \<le> i * au" using i by (intro mult_right_mono) auto
  moreover have "i * au < en" using p unfolding au_part_pos by blast
  ultimately show False using en by linarith
qed

lemma tr_get_span:
  assumes "tr_get off len t = Some t'"
  shows "tr_span t' = tr_span t"
proof -
  have "length bs' = length bs" if "get_loop au off en bs = Some bs'" for au off en bs bs'
    using that by (induction au off en bs rule: get_loop.induct) (auto simp: get_loop.simps Let_def split: if_splits)
  from this [of "tr_au t" off "add32 off len" "tr_bytes t"] show ?thesis
    using assms by (auto simp: tr_get_def tr_span_def tr_counts_def split: if_splits)
qed

text \<open>The units that a \<open>put\<close> leaves without a reference.\<close>

definition freed_units :: "nat \<Rightarrow> nat \<Rightarrow> nat \<Rightarrow> (nat \<Rightarrow> nat) \<Rightarrow> nat set" where
  "freed_units au off len c = {i. arange (i * au) au \<inter> arange off len \<noteq> {} \<and> (\<forall>x \<in> arange (i * au) au. c x = 0)}"

lemma freed_units_iff:
  "off + len \<le> n * au \<Longrightarrow> freed_units au off len c = {i. i < n \<and> 0 < au_part au off (off + len) i \<and> unit_refs c au i = 0}"
  unfolding freed_units_def meets_part unit_refs_zero using meets_in_span by blast

lemma put_single:
  assumes r: "tr_rep t c" and one: "tr_bytes t = []" and fits: "off + len \<le> tr_span t" and refd: "\<forall>x \<in> arange off len. 0 < c x"
  shows "\<exists>emptied t'. tr_put off len t = Some (emptied, [], t') \<and> tr_rep t' (drop_refs off len c) \<and>
    (emptied \<longleftrightarrow> (\<forall>x. drop_refs off len c x = 0)) \<and> (\<not> emptied \<longrightarrow> freed_units (tr_au t) off len (drop_refs off len c) = {})"
proof -
  let ?c = "drop_refs off len c" and ?t = "t\<lparr>tr_total := tr_total t - len\<rparr>"
  have span: "tr_span t = 1 * tr_au t" and tot: "tr_total t = unit_refs c (tr_au t) 0" and au: "0 < tr_au t"
    using r one by (simp_all add: tr_span_def tr_counts_def tr_rep_def)
  have part: "au_part (tr_au t) off (off + len) 0 = len" using fits span by (simp add: au_part_def)
  have left: "unit_refs ?c (tr_au t) 0 + len = tr_total t" using unit_refs_drop [OF refd, of "tr_au t" 0] tot part by simp
  have out: "\<forall>x \<ge> 1 * tr_au t. ?c x = 0" using r span by (simp add: tr_rep_def drop_refs_def)
  have zero: "unit_refs ?c (tr_au t) 0 = 0 \<longleftrightarrow> (\<forall>x. ?c x = 0)" using all_units_zero [OF au out] by simp
  have "tr_rep ?t ?c" using r one left out span by (simp add: tr_rep_def tr_counts_def tr_span_def)
  moreover have "tr_put off len t = Some (tr_total t \<le> len, [], ?t)" using one by (simp add: tr_put_def)
  moreover have "tr_total t \<le> len \<longleftrightarrow> unit_refs ?c (tr_au t) 0 = 0" using left by linarith
  moreover have "freed_units (tr_au t) off len ?c = {}" if "unit_refs ?c (tr_au t) 0 \<noteq> 0"
    unfolding freed_units_iff [OF fits [unfolded span]] using that by auto
  ultimately show ?thesis unfolding zero [symmetric]
    by (intro exI [of _ "tr_total t \<le> len"] exI [of _ ?t]) auto
qed

lemma put_many:
  assumes r: "tr_rep t c" and many: "tr_bytes t \<noteq> []" and fits: "off + len \<le> tr_span t" and refd: "\<forall>x \<in> arange off len. 0 < c x"
  shows "\<exists>emptied rel t'. tr_put off len t = Some (emptied, rel, t') \<and> tr_rep t' (drop_refs off len c) \<and>
    (emptied \<longleftrightarrow> (\<forall>x. drop_refs off len c x = 0)) \<and>
    (\<not> emptied \<longrightarrow> pe_ranges rel = (\<Union>i \<in> freed_units (tr_au t) off len (drop_refs off len c). arange (i * tr_au t) (tr_au t)))"
proof -
  let ?c = "drop_refs off len c" and ?n = "length (tr_bytes t)" and ?au = "tr_au t"
  have au: "0 < ?au" and span: "tr_span t = ?n * ?au" and lt: "?n * ?au < 2 ^ 32"
    and bytes: "\<And>i. i < ?n \<Longrightarrow> tr_bytes t ! i = unit_refs c ?au i"
    using r many by (simp_all add: tr_rep_def tr_span_def tr_counts_def)
  have left: "unit_refs ?c ?au i + au_part ?au off (off + len) i = tr_bytes t ! i" if "i < ?n" for i
    using unit_refs_drop [OF refd, of ?au i] bytes [OF that] by simp
  then have le: "\<forall>i < ?n. au_part ?au off (off + len) i \<le> tr_bytes t ! i" using le_add2 by metis
  obtain rel bs where l: "put_loop ?au off (off + len) 0 [] True (tr_bytes t) =
        Some (rel, True \<and> (\<forall>i < ?n. 0 < au_part ?au off (off + len) i \<longrightarrow> bs ! i = 0), bs)"
      "length bs = ?n" "\<forall>i < ?n. bs ! i = tr_bytes t ! i - au_part ?au off (off + len) i"
      "pe_ranges rel = pe_ranges [] \<union> (\<Union>i \<in> {i. i < ?n \<and> 0 < au_part ?au off (off + len) i \<and> bs ! i = 0}. arange (i * ?au) ?au)"
    using put_loop_subtracts [of ?au "off + len" "tr_bytes t" off 0 "[]" True, OF au fits [unfolded span] lt le] by (auto simp: ends_at_def)
  have bs: "bs ! i = unit_refs ?c ?au i" if "i < ?n" for i using l(3) that left [OF that] by simp
  have out: "\<forall>x \<ge> ?n * ?au. ?c x = 0" using r span by (simp add: tr_rep_def drop_refs_def)
  have ne: "bs \<noteq> []" using l(2) many by auto
  have "list_all (\<lambda>b. b = 0) bs \<longleftrightarrow> (\<forall>i < ?n. unit_refs ?c ?au i = 0)" using bs l(2) by (simp add: list_all_length)
  then have zero: "list_all (\<lambda>b. b = 0) bs \<longleftrightarrow> (\<forall>x. ?c x = 0)" using all_units_zero [OF au out] by simp
  have all: "(\<forall>i < ?n. 0 < au_part ?au off (off + len) i \<longrightarrow> bs ! i = 0) \<and> list_all (\<lambda>b. b = 0) bs \<longleftrightarrow> (\<forall>x. ?c x = 0)"
    using zero l(2) by (auto simp: list_all_length)
  have "add32 off len = off + len" using fits r by (simp add: add32_exact tr_rep_def)
  then have "tr_put off len t = Some ((\<forall>x. ?c x = 0), if \<forall>x. ?c x = 0 then [] else rel, t\<lparr>tr_bytes := bs\<rparr>)"
    using many ne l(1) all by (simp add: tr_put_def tr_is_empty_def Let_def)
  moreover have "tr_rep (t\<lparr>tr_bytes := bs\<rparr>) ?c" using au lt out ne l(2) bs by (simp add: tr_rep_def tr_span_def tr_counts_def)
  moreover have "{i. i < ?n \<and> 0 < au_part ?au off (off + len) i \<and> bs ! i = 0} = freed_units ?au off len ?c"
    unfolding freed_units_iff [OF fits [unfolded span]] using bs by auto
  ultimately show ?thesis using l(4) by auto
qed

section \<open>Programs of references\<close>

text \<open>
  What a blob relies on in its tracker: \<open>get\<close> and \<open>put\<close> follow the reference counts of the bytes, as long as the counts
  fit, and \<open>put\<close> reports that no byte is referenced any more.
\<close>

locale ref_counter =
  fixes rep :: "'s \<Rightarrow> (nat \<Rightarrow> nat) \<Rightarrow> bool" and room :: "'s \<Rightarrow> (nat \<Rightarrow> nat) \<Rightarrow> nat \<Rightarrow> nat \<Rightarrow> bool" and inside :: "'s \<Rightarrow> nat \<Rightarrow> nat \<Rightarrow> bool"
    and get :: "nat \<Rightarrow> nat \<Rightarrow> 's \<Rightarrow> 's option" and put :: "nat \<Rightarrow> nat \<Rightarrow> 's \<Rightarrow> (bool \<times> 'r \<times> 's) option"
  assumes get_law: "rep s c \<Longrightarrow> room s c off len \<Longrightarrow> \<exists>s'. get off len s = Some s' \<and> rep s' (add_refs off len c)"
    and put_law: "rep s c \<Longrightarrow> inside s off len \<Longrightarrow> \<forall>x \<in> arange off len. 0 < c x \<Longrightarrow>
      \<exists>r s'. put off len s = Some ((\<forall>x. drop_refs off len c x = 0), r, s') \<and> rep s' (drop_refs off len c)"
    and room_inside: "room s c off len \<Longrightarrow> get off len s = Some s' \<Longrightarrow> inside s' off len"
begin

text \<open>A reference that is taken and dropped again leaves the counts as they were, and an unreferenced blob unreferenced.\<close>

lemma get_put:
  assumes "rep s c" and "room s c off len"
  shows "\<exists>s1 r s2. get off len s = Some s1 \<and> put off len s1 = Some ((\<forall>x. c x = 0), r, s2) \<and> rep s2 c"
proof -
  obtain s1 where s1: "get off len s = Some s1" "rep s1 (add_refs off len c)" using get_law [OF assms] by blast
  have undo: "drop_refs off len (add_refs off len c) = c" by (auto simp: drop_refs_def add_refs_def)
  have "\<forall>x \<in> arange off len. 0 < add_refs off len c x" by (simp add: add_refs_def)
  from put_law [OF s1(2) room_inside [OF assms(2) s1(1)] this] show ?thesis using s1(1) unfolding undo by blast
qed

end

text \<open>
  C13: The use tracker of a blob releases space exactly when the last reference goes. If it counts the references
  \<open>c\<close> to the bytes of the blob and each byte of a range has one, \<open>put\<close> on the range succeeds and counts one less for
  each of these bytes; it reports an empty blob if no byte is referenced any more; and otherwise the ranges it reports
  are the allocation units that meet the range and have no referenced byte left.
\<close>

theorem put_releases_unreferenced:
  assumes r: "tr_rep t c" and fits: "off + len \<le> tr_span t" and refd: "\<forall>x \<in> arange off len. 0 < c x"
  shows "\<exists>emptied rel t'. tr_put off len t = Some (emptied, rel, t') \<and> tr_rep t' (drop_refs off len c) \<and>
    (emptied \<longleftrightarrow> (\<forall>x. drop_refs off len c x = 0)) \<and>
    (\<not> emptied \<longrightarrow> pe_ranges rel = (\<Union>i \<in> freed_units (tr_au t) off len (drop_refs off len c). arange (i * tr_au t) (tr_au t)))"
proof (cases "tr_bytes t = []")
  case True
  then show ?thesis using put_single [OF r True fits refd] by auto
next
  case False
  then show ?thesis by (rule put_many [OF r _ fits refd])
qed

text \<open>Two units of four bytes, the first of them referenced once and the second in its first two bytes.\<close>

theorem put_releases_unreferenced_witness:
  "\<exists>emptied rel t'. tr_put 0 5 \<lparr>tr_au = 4, tr_bytes = [4, 2], tr_total = 0\<rparr> = Some (emptied, rel, t') \<and>
     tr_rep t' (drop_refs 0 5 (\<lambda>x. if x < 6 then 1 else 0)) \<and>
     (emptied \<longleftrightarrow> (\<forall>x. drop_refs 0 5 (\<lambda>x. if x < 6 then 1 else 0) x = 0)) \<and>
     (\<not> emptied \<longrightarrow> pe_ranges rel = (\<Union>i \<in> freed_units 4 0 5 (drop_refs 0 5 (\<lambda>x. if x < 6 then 1 else 0)). arange (i * 4) 4))"
proof -
  have "{4..<8::nat} = {4, 5, 6, 7}" by auto
  then have u: "unit_refs (\<lambda>x. if x < 6 then 1 else 0) 4 0 = 4" "unit_refs (\<lambda>x. if x < 6 then 1 else 0) 4 1 = 2"
    by (simp_all add: unit_refs_def arange_def)
  then have "unit_refs (\<lambda>x. if x < 6 then 1 else 0) 4 i = [4, 2] ! i" if "i < Suc (Suc 0)" for i
    using that by (cases i) (auto simp: less_Suc_eq)
  then have "tr_rep \<lparr>tr_au = 4, tr_bytes = [4, 2], tr_total = 0\<rparr> (\<lambda>x. if x < 6 then 1 else 0)"
    by (simp add: tr_rep_def tr_span_def tr_counts_def)
  then show ?thesis using put_releases_unreferenced [of "\<lparr>tr_au = 4, tr_bytes = [4, 2], tr_total = 0\<rparr>" "\<lambda>x. if x < 6 then 1 else 0" 0 5]
    by (simp add: tr_span_def tr_counts_def)
qed

interpretation use_tracker: ref_counter tr_rep
  "\<lambda>t c off len. off + len \<le> tr_span t \<and> (\<forall>i < length (tr_counts t). unit_refs (add_refs off len c) (tr_au t) i < 2 ^ 32)"
  "\<lambda>t off len. off + len \<le> tr_span t" tr_get tr_put
proof
  fix t c off len
  assume r: "tr_rep t c"
  show "\<exists>t'. tr_get off len t = Some t' \<and> tr_rep t' (add_refs off len c)"
    if "off + len \<le> tr_span t \<and> (\<forall>i < length (tr_counts t). unit_refs (add_refs off len c) (tr_au t) i < 2 ^ 32)"
    using tr_get_rep [OF r] that by blast
  show "\<exists>rel t'. tr_put off len t = Some ((\<forall>x. drop_refs off len c x = 0), rel, t') \<and> tr_rep t' (drop_refs off len c)"
    if "off + len \<le> tr_span t" "\<forall>x \<in> arange off len. 0 < c x"
    using put_single [OF r _ that] put_many [OF r _ that] by (cases "tr_bytes t = []") blast+
next
  fix t c off len t'
  assume "off + len \<le> tr_span t \<and> (\<forall>i < length (tr_counts t). unit_refs (add_refs off len c) (tr_au t) i < 2 ^ 32)" and "tr_get off len t = Some t'"
  then show "off + len \<le> tr_span t'" using tr_get_span [of off len t t'] by simp
qed

text \<open>
  A range of a blob that is referenced once and released empties it: \<open>get_ref\<close> on a blob without references sets up
  the tracker, and \<open>put_ref\<close> on the same range frees every extent.
\<close>

lemma get_ref_put_ref:
  assumes fresh: "bo_used B = tr_new" and au: "release_unit mas (bo_blob B) = Some au" and b: "0 < au" "0 < bl_length (bo_blob B)"
    "bl_length (bo_blob B) + au \<le> 2 ^ 32" "(bl_length (bo_blob B) + au - 1) div au * au < 2 ^ 32" and in_blob: "off + len \<le> bl_length (bo_blob B)"
  shows "\<exists>B1 B2. get_ref off len mas B = Some B1 \<and> bo_blob B1 = bo_blob B \<and>
    put_ref off len B1 = Some (True, filter pe_is_valid (bl_extents (bo_blob B)), B2) \<and> bl_extents (bo_blob B2) = []"
proof -
  obtain t where t: "tr_init (bl_length (bo_blob B)) au = Some t" "tr_rep t (\<lambda>x. 0)" "bl_length (bo_blob B) \<le> tr_span t" "tr_au t = au"
    using tr_init_rep [of au "bl_length (bo_blob B)"] b by auto
  have "unit_refs (add_refs off len (\<lambda>x. 0)) au i \<le> au" for i
    unfolding unit_refs_add by (simp add: unit_refs_def au_part_def)
  moreover have "au < 2 ^ 32" using b by linarith
  ultimately have small: "\<forall>i < length (tr_counts t). unit_refs (add_refs off len (\<lambda>x. 0)) (tr_au t) i < 2 ^ 32"
    using le_less_trans t(4) by blast
  obtain t1 rel t2 where p: "tr_get off len t = Some t1" "tr_put off len t1 = Some (True, rel, t2)"
    using use_tracker.get_put [OF t(2), of off len] small in_blob t(3) by auto
  define B1 where "B1 = B\<lparr>bo_used := t1\<rparr>"
  have "get_ref off len mas B = Some B1"
    using fresh b(2) au t(1) p(1) by (simp add: get_ref_def B1_def tr_is_empty_def tr_new_def)
  moreover have "put_ref off len B1 = Some (True, filter pe_is_valid (bl_extents (bo_blob B)), \<lparr>bo_blob = (bo_blob B)\<lparr>bl_extents := [], bl_length := 0\<rparr>, bo_used = t2\<rparr>)"
    using p(2) by (simp add: put_ref_def B1_def release_extents_def)
  ultimately show ?thesis by (simp add: B1_def)
qed

end
