(* ===== verification/Blob_Data.thy ===== *)
theory Blob_Data
  imports Blob_Refs
begin

unbundle bit_operations_syntax

text \<open>
  What a blob says about its data: where each of its bytes lies on the device, which \<open>map\<close> enumerates, \<open>split\<close>
  divides and \<open>release_extents\<close> changes; the checksums of its chunks; and its encoding.
\<close>

section \<open>Locations of the bytes\<close>

definition pe_bytes :: "u64 \<times> u32 \<Rightarrow> u64 option list" where
  "pe_bytes e = (if pe_is_valid e then map Some [fst e..<fst e + snd e] else replicate (snd e) None)"

definition pe_locs :: "(u64 \<times> u32) list \<Rightarrow> u64 option list" where
  "pe_locs es = concat (map pe_bytes es)"

definition pe_ok :: "u64 \<times> u32 \<Rightarrow> bool" where
  "pe_ok e \<longleftrightarrow> snd e < 2 ^ 32 \<and> (pe_is_valid e \<longrightarrow> fst e + snd e \<le> UINT64_MAX)"

lemma length_pe_bytes [simp]: "length (pe_bytes e) = snd e"
  by (simp add: pe_bytes_def)

lemma pe_locs_simps [simp]: "pe_locs [] = []" "pe_locs (e # es) = pe_bytes e @ pe_locs es"
  by (simp_all add: pe_locs_def)

lemma length_pe_locs: "length (pe_locs es) = sum_list (map snd es)"
  by (induction es) simp_all

lemma pe_bytes_cut:
  assumes "pe_ok e" and "n \<le> snd e"
  shows "pe_bytes (fst e, n) = take n (pe_bytes e)"
    and "n < snd e \<Longrightarrow> pe_bytes (if pe_is_valid e then add64 (fst e) n else INVALID_OFFSET, snd e - n) = drop n (pe_bytes e)"
proof -
  show "pe_bytes (fst e, n) = take n (pe_bytes e)" using assms(2) by (simp add: pe_bytes_def pe_is_valid_def take_map)
  assume n: "n < snd e"
  show "pe_bytes (if pe_is_valid e then add64 (fst e) n else INVALID_OFFSET, snd e - n) = drop n (pe_bytes e)"
  proof (cases "pe_is_valid e")
    case True
    then have "fst e + n < UINT64_MAX" using assms(1) n by (simp add: pe_ok_def)
    then have "add64 (fst e) n = fst e + n" "fst e + n \<noteq> INVALID_OFFSET" by (simp_all add: add64_exact UINT64_MAX_def)
    then show ?thesis using True n by (simp add: pe_bytes_def pe_is_valid_def drop_map)
  qed (simp add: pe_bytes_def pe_is_valid_def)
qed

lemma split_extents_locs:
  assumes "off \<le> at" and "off + sum_list (map snd es) < 2 ^ 32" and "list_all pe_ok es"
  shows "pe_locs (fst (split_extents at off es)) = take (at - off) (pe_locs es) \<and>
    pe_locs (snd (split_extents at off es)) = drop (at - off) (pe_locs es)"
  using assms
proof (induction at off es rule: split_extents.induct)
  case (1 at off)
  then show ?case by simp
next
  case (2 at off e es)
  have en: "add32 off (snd e) = off + snd e" using 2(3) by (simp add: add32_exact)
  consider "off + snd e \<le> at" | "at < off + snd e" "off < at" | "at < off + snd e" "off = at" using 2(2) by linarith
  then show ?case
  proof cases
    case 1
    then show ?thesis using 2 en by (simp add: split_beta)
  next
    case 3
    then show ?thesis using en by simp
  next
    case mid: 2
    define n where "n = at - off"
    have n: "n < snd e" "sub32 (snd e) n = snd e - n" using mid 2(4) by (auto simp: n_def pe_ok_def sub32_exact)
    have "split_extents at off (e # es) = ([(fst e, n)], (if pe_is_valid e then add64 (fst e) n else INVALID_OFFSET, snd e - n) # es)"
      using mid en n by (simp add: n_def [symmetric] Let_def)
    then show ?thesis using pe_bytes_cut [of e n] 2(4) n by (simp add: n_def [symmetric])
  qed
qed

lemma fold_add32: "s + sum_list (map snd es) < 2 ^ 32 \<Longrightarrow> fold (\<lambda>e len. add32 len (snd e)) es s = s + sum_list (map snd es)"
  by (induction es arbitrary: s) (simp_all add: add32_exact)

text \<open>\<open>map\<close> on extents that are all allocated.\<close>

definition call_bytes :: "(u64 \<times> u64) list \<Rightarrow> u64 option list" where
  "call_bytes cs = concat (map (\<lambda>c. map Some [fst c..<fst c + snd c]) cs)"

lemma call_bytes_simps [simp]: "call_bytes [] = []" "call_bytes (c # cs) = map Some [fst c..<fst c + snd c] @ call_bytes cs"
  "call_bytes (cs @ ds) = call_bytes cs @ call_bytes ds"
  by (simp_all add: call_bytes_def)

lemma slice_upt: "drop i (take j (map Some [a..<a + l])) = map Some [a + i..<a + min l j]" for a l :: nat
  by (simp add: take_map drop_map take_upt [symmetric] min_def)

lemma extents_map_locs:
  assumes "p + sum_list (map snd es) < 2 ^ 63" and "b_off + b_len < 2 ^ 63" and "list_all pe_ok es" and "list_all pe_is_valid es"
  shows "call_bytes (extents_map b_off b_len p es) = drop (b_off - p) (take (b_off + b_len - p) (pe_locs es))"
  using assms
proof (induction b_off b_len p es rule: extents_map.induct)
  case (1 b_off b_len p)
  then show ?case by simp
next
  case (2 b_off b_len p e es)
  define a l where "a = fst e" and "l = snd e"
  have e: "pe_bytes e = map Some [a..<a + l]" and al: "a + l < 2 ^ 64"
    using 2(4,5) by (auto simp: pe_bytes_def a_def l_def pe_ok_def UINT64_MAX_def)
  have en: "add64 p l = p + l" "add64 b_off b_len = b_off + b_len" using 2(2,3) by (simp_all add: add64_exact l_def)
  define call where "call = (if b_off < p + l \<and> b_off + b_len > p
      then let s = max b_off p in [(add64 a (sub64 s p), sub64 (min (b_off + b_len) (p + l)) s)] else [])"
  have call: "call_bytes call = drop (b_off - p) (take (b_off + b_len - p) (pe_bytes e))"
  proof (cases "b_off < p + l \<and> b_off + b_len > p")
    case False
    then show ?thesis by (auto simp: call_def l_def)
  next
    case True
    define s where "s = max b_off p"
    have "sub64 s p = s - p" "sub64 (min (b_off + b_len) (p + l)) s = min (b_off + b_len) (p + l) - s" "add64 a (s - p) = a + (s - p)"
      using True 2(2,3) al by (auto simp: s_def sub64_exact add64_exact l_def)
    then have "call = [(a + (s - p), min (b_off + b_len) (p + l) - s)]" using True by (simp add: call_def s_def [symmetric])
    moreover have "s - p = b_off - p" "a + (s - p) + (min (b_off + b_len) (p + l) - s) = a + min l (b_off + b_len - p)"
      using True by (auto simp: s_def)
    ultimately show ?thesis by (simp add: e slice_upt add.assoc)
  qed
  have m: "extents_map b_off b_len p (e # es) = (if p + l \<ge> b_off + b_len then call else call @ extents_map b_off b_len (p + l) es)"
    by (simp add: call_def en l_def [symmetric] a_def [symmetric] Let_def)
  show ?case
  proof (cases "p + l \<ge> b_off + b_len")
    case True
    then show ?thesis unfolding m using call by (simp add: l_def)
  next
    case False
    then have "call_bytes (extents_map b_off b_len (p + l) es) = drop (b_off - (p + l)) (take (b_off + b_len - (p + l)) (pe_locs es))"
      using 2(1) [OF refl refl refl] 2(2-5) en by (simp add: l_def)
    then show ?thesis unfolding m using call False by (simp add: l_def)
  qed
qed

text \<open>
  Splitting a blob divides its data at the offset: the left blob keeps the device locations of the bytes before it,
  the right one has those of the bytes after it, and an extent that contains the offset is cut in two.
\<close>

theorem split_divides_data:
  assumes "sum_list (map snd (bl_extents b)) < 2 ^ 32" and "list_all pe_ok (bl_extents b)" and "at \<le> bl_length b" and "bl_length b < 2 ^ 32"
    and "blob_split at b rb = Some (l, r)"
  shows "pe_locs (bl_extents l) = take at (pe_locs (bl_extents b)) \<and> pe_locs (bl_extents r) = drop at (pe_locs (bl_extents b)) \<and>
    bl_length l = at \<and> bl_length r = bl_length b - at"
proof -
  obtain x y where xy: "split_extents at 0 (bl_extents b) = (x, y)" by (cases "split_extents at 0 (bl_extents b)")
  have "pe_locs x = take at (pe_locs (bl_extents b))" "pe_locs y = drop at (pe_locs (bl_extents b))"
    using split_extents_locs [of 0 at "bl_extents b"] assms(1,2) xy by simp_all
  moreover have "bl_extents l = x" "bl_extents r = y" "bl_length l = at" "bl_length r = sub32 (bl_length b) at"
    using assms(5) xy by (auto simp: blob_split_def Let_def set_flag_def bind_eq_Some_conv split: if_splits)
  ultimately show ?thesis using assms(3,4) by (simp add: sub32_exact)
qed

theorem split_divides_data_witness:
  "\<exists>l r. blob_split 6 (bblob_new\<lparr>bl_extents := [(100, 4), (200, 4)], bl_length := 8\<rparr>) bblob_new = Some (l, r) \<and>
     pe_locs (bl_extents l) = take 6 (pe_locs [(100, 4), (200, 4)]) \<and> pe_locs (bl_extents r) = drop 6 (pe_locs [(100, 4), (200, 4)])"
proof -
  let ?b = "bblob_new\<lparr>bl_extents := [(100, 4), (200, 4)], bl_length := 8\<rparr>"
  have "\<exists>l r. blob_split 6 ?b bblob_new = Some (l, r)"
    by (simp add: blob_split_def has_flag_def bblob_new_def FLAG_CSUM_def Let_def split_beta)
  then obtain l r where s: "blob_split 6 ?b bblob_new = Some (l, r)" by blast
  have "list_all pe_ok (bl_extents ?b)" by (simp add: pe_ok_def UINT64_MAX_def)
  then show ?thesis using s split_divides_data [OF _ _ _ _ s] by simp
qed

text \<open>The calls of \<open>map\<close> on a range cover the locations of its bytes, in order.\<close>

lemma blob_map_locs:
  assumes "sum_list (map snd (bl_extents b)) < 2 ^ 63" and "b_off + b_len < 2 ^ 63" and "list_all pe_ok (bl_extents b)" and "list_all pe_is_valid (bl_extents b)"
  shows "call_bytes (blob_map b_off b_len b) = take b_len (drop b_off (pe_locs (bl_extents b)))"
  using extents_map_locs [of 0 "bl_extents b" b_off b_len] assms by (simp add: blob_map_def drop_take)

section \<open>Released extents\<close>

text \<open>
  C37: A blob loses track of its data when a leading extent is released. For a blob of two extents of a unit each, both
  fully referenced once, \<open>put_ref\<close> on the first unit frees the first extent and says that the blob is still in use. But
  the second extent now stands at the offset of the first: the bytes that are still referenced, at the offsets from
  \<open>n\<close>, have no location any more.
\<close>

theorem release_moves_data:
  assumes "0 < n" and "2 * n < 2 ^ 32" and "a + n \<le> UINT64_MAX" and "c + n \<le> UINT64_MAX"
    and "bl_extents (bo_blob B) = [(a, n), (c, n)]" and "bl_length (bo_blob B) = 2 * n"
    and "bo_used B = \<lparr>tr_au = n, tr_bytes = [n, n], tr_total = 0\<rparr>"
  shows "\<exists>B'. put_ref 0 n B = Some (False, [(a, n)], B') \<and> tr_bytes (bo_used B') = [0, n] \<and>
    pe_locs (bl_extents (bo_blob B')) = map Some [c..<c + n] \<and>
    call_bytes (blob_map n n (bo_blob B)) = map Some [c..<c + n] \<and> blob_map n n (bo_blob B') = []"
proof -
  have v: "pe_is_valid (a, n)" "pe_is_valid (c, n)" using assms(1,3,4) by (auto simp: pe_is_valid_def)
  have l: "put_loop n n n n [(0, n)] True [0, n] = Some ([(0, n)], True, [0, n])" by (simp add: put_loop.simps)
  have "put_loop n 0 n 0 [] True [n, n] = put_loop n n n n [(0, n)] True [0, n]"
    using assms(1,2) by (simp add: put_loop.simps [of n 0] add_release_def add32_exact Let_def)
  then have put: "tr_put 0 n (bo_used B) = Some (False, [(0, n)], \<lparr>tr_au = n, tr_bytes = [0, n], tr_total = 0\<rparr>)"
    using assms(1,2,7) l by (simp add: tr_put_def tr_is_empty_def add32_exact)
  have rel: "release_extents False [(0, n)] (bo_blob B) = (False, [(a, n)], (bo_blob B)\<lparr>bl_extents := [(c, n)], bl_length := n\<rparr>)"
    using assms(1,2,5) v by (simp add: release_extents_def add32_exact add64_exact Let_def)
  have "put_ref 0 n B = Some (False, [(a, n)], \<lparr>bo_blob = (bo_blob B)\<lparr>bl_extents := [(c, n)], bl_length := n\<rparr>,
      bo_used = \<lparr>tr_au = n, tr_bytes = [0, n], tr_total = 0\<rparr>\<rparr>)"
    using put rel by (simp add: put_ref_def)
  moreover have "call_bytes (blob_map n n (bo_blob B)) = map Some [c..<c + n]"
    using blob_map_locs [of "bo_blob B" n n] assms v by (simp add: pe_ok_def pe_bytes_def)
  moreover have "blob_map n n ((bo_blob B)\<lparr>bl_extents := [(c, n)], bl_length := n\<rparr>) = []"
    using assms(2) by (simp add: blob_map_def add64_exact Let_def)
  ultimately show ?thesis using v by (simp add: pe_bytes_def)
qed

theorem release_moves_data_witness:
  "\<exists>B'. put_ref 0 4096 \<lparr>bo_blob = bblob_new\<lparr>bl_extents := [(0x10000, 4096), (0x40000, 4096)], bl_length := 8192\<rparr>,
        bo_used = \<lparr>tr_au = 4096, tr_bytes = [4096, 4096], tr_total = 0\<rparr>\<rparr> = Some (False, [(0x10000, 4096)], B') \<and>
     blob_map 4096 4096 (bo_blob B') = []"
proof -
  let ?B = "\<lparr>bo_blob = bblob_new\<lparr>bl_extents := [(0x10000, 4096), (0x40000, 4096)], bl_length := 8192\<rparr>,
        bo_used = \<lparr>tr_au = 4096, tr_bytes = [4096, 4096], tr_total = 0\<rparr>\<rparr>"
  have "(0::nat) < 4096" "2 * 4096 < (2 ^ 32 :: nat)" "0x10000 + 4096 \<le> UINT64_MAX" "0x40000 + 4096 \<le> UINT64_MAX"
    "bl_extents (bo_blob ?B) = [(0x10000, 4096), (0x40000, 4096)]" "bl_length (bo_blob ?B) = 2 * 4096"
    "bo_used ?B = \<lparr>tr_au = 4096, tr_bytes = [4096, 4096], tr_total = 0\<rparr>"
    by (simp_all add: UINT64_MAX_def)
  from release_moves_data [OF this] show ?thesis by blast
qed

end
