(* ===== verification/Deferred_Batch.thy ===== *)
theory Deferred_Batch
  imports Denc
begin

text \<open>
  Deferred writes (\<^verbatim>\<open>bluestore/deferred_writer.cc\<close>): a batch collects the writes of several transactions, a later write
  replacing what it overlaps, and counts the bytes that each transaction still has in it; submitting the batch writes
  runs of adjacent pieces together.

  The map of pieces is the list of its entries in the order of their offsets, an iterator is an index. \<open>None\<close> is a
  failed assertion, an exception or an overflow of an \<open>int\<close>.
\<close>

section \<open>The batch\<close>

type_synonym piece = "u64 \<times> u64 \<times> bytes"

abbreviation pc_off :: "piece \<Rightarrow> u64" where "pc_off \<equiv> fst"
abbreviation pc_seq :: "piece \<Rightarrow> u64" where "pc_seq e \<equiv> fst (snd e)"
abbreviation pc_bl :: "piece \<Rightarrow> bytes" where "pc_bl e \<equiv> snd (snd e)"

record batch =
  ba_iomap :: "piece list"
  ba_seq_bytes :: "u64 \<rightharpoonup> int"

definition batch_new :: batch where
  "batch_new = \<lparr>ba_iomap = [], ba_seq_bytes = Map.empty\<rparr>"

definition pc_end :: "piece \<Rightarrow> u64" where
  "pc_end e = add64 (pc_off e) (length (pc_bl e))"

text \<open>\<open>iomap[k]\<close> with an assignment of both fields.\<close>

fun io_put :: "piece \<Rightarrow> piece list \<Rightarrow> piece list" where
  "io_put e [] = [e]"
| "io_put e (x # m) = (if pc_off e < pc_off x then e # x # m else if pc_off e = pc_off x then e # m else x # io_put e m)"

text \<open>\<open>bufferlist::substr_of\<close> takes 32-bit numbers, and a list has fewer than \<open>2 ^ 32\<close> bytes. It throws, or walks off the list.\<close>

definition substr_of :: "bytes \<Rightarrow> u64 \<Rightarrow> u64 \<Rightarrow> bytes option" where
  "substr_of bl off len =
     (let i = off mod 2 ^ 32; n = len mod 2 ^ 32 in if i + n > length bl then None else Some (take n (drop i bl)))"

lemma substr_of_ok: "off + len \<le> length bl \<Longrightarrow> length bl < 2 ^ 32 \<Longrightarrow> substr_of bl off len = Some (take len (drop off bl))"
  by (simp add: substr_of_def)

text \<open>\<open>i->second -= n\<close> and the assertions around it.\<close>

definition sb_sub :: "u64 \<Rightarrow> nat \<Rightarrow> (u64 \<rightharpoonup> int) \<Rightarrow> (u64 \<rightharpoonup> int) option" where
  "sb_sub seq n sb =
     (case sb seq of None \<Rightarrow> None | Some v \<Rightarrow> if n < 2 ^ 31 \<and> v - int n \<ge> 0 then Some (sb(seq \<mapsto> v - int n)) else None)"

definition sb_add :: "u64 \<Rightarrow> nat \<Rightarrow> (u64 \<rightharpoonup> int) \<Rightarrow> (u64 \<rightharpoonup> int) option" where
  "sb_add seq n sb =
     (let v = (case sb seq of None \<Rightarrow> 0 | Some v \<Rightarrow> v) + int n in if v < 2 ^ 31 then Some (sb(seq \<mapsto> v)) else None)"

text \<open>The entry before the range.\<close>

definition discard_front :: "u64 \<Rightarrow> u64 \<Rightarrow> nat \<Rightarrow> batch \<Rightarrow> batch option" where
  "discard_front offset len i b =
     (if i = 0 then Some b
      else
        let p = ba_iomap b ! (i - 1); en = pc_end p; r_end = add64 offset len
        in if en > offset then
             do {
               head \<leftarrow> substr_of (pc_bl p) 0 (sub64 offset (pc_off p));
               if ba_seq_bytes b (pc_seq p) = None then None
               else if en > r_end then
                 do {
                   tail \<leftarrow> substr_of (pc_bl p) (sub64 r_end (pc_off p)) (en - r_end);
                   sb \<leftarrow> sb_sub (pc_seq p) len (ba_seq_bytes b);
                   Some (b\<lparr>ba_iomap := (io_put (r_end, pc_seq p, tail) (ba_iomap b))[i - 1 := (pc_off p, pc_seq p, head)], ba_seq_bytes := sb\<rparr>)
                 }
               else
                 do {
                   sb \<leftarrow> sb_sub (pc_seq p) (en - offset) (ba_seq_bytes b);
                   Some (b\<lparr>ba_iomap := (ba_iomap b)[i - 1 := (pc_off p, pc_seq p, head)], ba_seq_bytes := sb\<rparr>)
                 }
             }
           else Some b)"

text \<open>The entries that start in the range. The number of entries before its end falls with each of them.\<close>

definition io_erase :: "nat \<Rightarrow> piece list \<Rightarrow> piece list" where
  "io_erase i m = take i m @ drop (Suc i) m"

definition discard_one :: "u64 \<Rightarrow> nat \<Rightarrow> batch \<Rightarrow> batch option" where
  "discard_one r_end i b =
     (let p = ba_iomap b ! i; en = pc_end p
      in if ba_seq_bytes b (pc_seq p) = None then None
         else if en > r_end then
           do {
             tail \<leftarrow> substr_of (pc_bl p) (r_end - pc_off p) (en - r_end);
             sb \<leftarrow> sb_sub (pc_seq p) (r_end - pc_off p) (ba_seq_bytes b);
             Some (b\<lparr>ba_iomap := io_put (r_end, pc_seq p, tail) (io_erase i (ba_iomap b)), ba_seq_bytes := sb\<rparr>)
           }
         else
           do {
             sb \<leftarrow> sb_sub (pc_seq p) (length (pc_bl p)) (ba_seq_bytes b);
             Some (b\<lparr>ba_iomap := io_erase i (ba_iomap b), ba_seq_bytes := sb\<rparr>)
           })"

lemma io_put_filter: "\<not> P e \<Longrightarrow> length (filter P (io_put e m)) \<le> length (filter P m)"
  by (induction m) auto

lemma io_erase_filter: "i < length m \<Longrightarrow> P (m ! i) \<Longrightarrow> Suc (length (filter P (io_erase i m))) = length (filter P m)"
proof -
  assume i: "i < length m" and P: "P (m ! i)"
  have "filter P m = filter P (take i m) @ filter P (m ! i # drop (Suc i) m)" by (metis id_take_nth_drop [OF i] filter_append)
  then show ?thesis using P by (simp add: io_erase_def)
qed

lemma discard_one_decreases:
  assumes "discard_one r_end i b = Some b1" and "i < length (ba_iomap b)" and "pc_off (ba_iomap b ! i) < r_end"
  shows "length (filter (\<lambda>e. pc_off e < r_end) (ba_iomap b1)) < length (filter (\<lambda>e. pc_off e < r_end) (ba_iomap b))"
proof -
  let ?P = "\<lambda>e. pc_off e < r_end"
  have "ba_iomap b1 = io_erase i (ba_iomap b) \<or> (\<exists>e. pc_off e = r_end \<and> ba_iomap b1 = io_put e (io_erase i (ba_iomap b)))"
    using assms(1) by (fastforce simp: discard_one_def Let_def bind_eq_Some_conv split: if_splits)
  moreover have "length (filter ?P (io_put e m)) \<le> length (filter ?P m)" if "pc_off e = r_end" for e m using io_put_filter [of ?P e m] that by simp
  ultimately have "length (filter ?P (ba_iomap b1)) \<le> length (filter ?P (io_erase i (ba_iomap b)))" by (elim disjE exE conjE) simp_all
  then show ?thesis using io_erase_filter [of i "ba_iomap b" ?P] assms(2,3) by simp
qed

function discard_loop :: "u64 \<Rightarrow> nat \<Rightarrow> batch \<Rightarrow> batch option" where
  "discard_loop r_end i b =
     (if i < length (ba_iomap b) \<and> pc_off (ba_iomap b ! i) < r_end
      then case discard_one r_end i b of None \<Rightarrow> None | Some b1 \<Rightarrow> discard_loop r_end i b1
      else Some b)"
  by pat_completeness auto
termination
  by (relation "measure (\<lambda>(r_end, i, b). length (filter (\<lambda>e. pc_off e < r_end) (ba_iomap b)))") (auto dest: discard_one_decreases)

declare discard_loop.simps [simp del]

definition io_lower_bound :: "u64 \<Rightarrow> piece list \<Rightarrow> nat" where
  "io_lower_bound k m = length (takeWhile (\<lambda>e. pc_off e < k) m)"

definition batch_discard :: "u64 \<Rightarrow> u64 \<Rightarrow> batch \<Rightarrow> batch option" where
  "batch_discard offset len b =
     (let i = io_lower_bound offset (ba_iomap b) in do { b1 \<leftarrow> discard_front offset len i b; discard_loop (add64 offset len) i b1 })"

definition prepare_write :: "u64 \<Rightarrow> u64 \<Rightarrow> u64 \<Rightarrow> bytes \<Rightarrow> u64 \<Rightarrow> batch \<Rightarrow> batch option" where
  "prepare_write seq offset len data data_pos b =
     do {
       b1 \<leftarrow> batch_discard offset len b;
       if list_ex (\<lambda>e. pc_off e = offset) (ba_iomap b1) then None
       else
         do {
           bl \<leftarrow> substr_of data data_pos len;
           sb \<leftarrow> sb_add seq len (ba_seq_bytes b1);
           Some \<lparr>ba_iomap = io_put (offset, seq, bl) (ba_iomap b1), ba_seq_bytes = sb\<rparr>
         }
     }"

section \<open>Transactions\<close>

text \<open>A deferred operation is its extents and its data, a transaction its sequence number and its operations.\<close>

record deferred_op =
  do_extents :: "(u64 \<times> u32) list"
  do_data :: bytes

fun queue_op :: "u64 \<Rightarrow> (u64 \<times> u32) list \<Rightarrow> bytes \<Rightarrow> u64 \<Rightarrow> batch \<Rightarrow> batch option" where
  "queue_op seq [] data data_pos b = Some b"
| "queue_op seq (e # es) data data_pos b =
     (if fst e = UINT64_MAX then queue_op seq es data data_pos b
      else
        let write_len = min (snd e) (sub64 (length data) data_pos)
        in if write_len = 0 then Some b
           else case prepare_write seq (fst e) write_len data data_pos b of
                  None \<Rightarrow> None
                | Some b1 \<Rightarrow> queue_op seq es data (add64 data_pos write_len) b1)"

fun queue_ops :: "u64 \<Rightarrow> deferred_op list \<Rightarrow> batch \<Rightarrow> batch option" where
  "queue_ops seq [] b = Some b"
| "queue_ops seq (op # ops) b =
     (case queue_op seq (do_extents op) (do_data op) 0 b of None \<Rightarrow> None | Some b1 \<Rightarrow> queue_ops seq ops b1)"

text \<open>The transactions that \<open>queue\<close> adds to a batch before it is submitted, each with its sequence number.\<close>

fun queue_txns :: "(u64 \<times> deferred_op list) list \<Rightarrow> batch \<Rightarrow> batch option" where
  "queue_txns [] b = Some b"
| "queue_txns (t # ts) b = (case queue_ops (fst t) (snd t) b of None \<Rightarrow> None | Some b1 \<Rightarrow> queue_txns ts b1)"

text \<open>The writes of a submitted batch, as the arguments of \<open>aio_write\<close>.\<close>

fun submit_loop :: "u64 \<Rightarrow> u64 \<Rightarrow> bytes \<Rightarrow> piece list \<Rightarrow> (u64 \<times> bytes) list" where
  "submit_loop start pos bl [] = (if bl \<noteq> [] then [(start, bl)] else [])"
| "submit_loop start pos bl (e # m) =
     (let flush = pc_off e \<noteq> pos; out = (if flush \<and> bl \<noteq> [] then [(start, bl)] else []);
          start1 = (if flush then 0 else start); pos1 = (if flush then pc_off e else pos); bl1 = (if flush then [] else bl);
          start2 = (if bl1 = [] then pos1 else start1)
      in out @ submit_loop start2 (add64 pos1 (length (pc_bl e))) (bl1 @ pc_bl e) m)"

definition batch_writes :: "batch \<Rightarrow> (u64 \<times> bytes) list" where
  "batch_writes b = submit_loop 0 0 [] (ba_iomap b)"

end
