(* ===== verification/Deferred_Space.thy ===== *)
theory Deferred_Space
  imports Deferred_Batch
begin

text \<open>
  What a batch of deferred writes means: the set of its points, each a device address with the transaction and the
  byte to be written there. A write replaces the points of its range, the counters of the transactions are the numbers
  of their bytes, and submitting writes each byte once.
\<close>

section \<open>Points and accounts\<close>

definition pc_pts :: "piece \<Rightarrow> (nat \<times> u64 \<times> byte) set" where
  "pc_pts e = {p. pc_off e \<le> fst p \<and> fst p < pc_off e + length (pc_bl e) \<and> snd p = (pc_seq e, pc_bl e ! (fst p - pc_off e))}"

definition io_cover :: "piece list \<Rightarrow> (nat \<times> u64 \<times> byte) set" where
  "io_cover m = (\<Union>e \<in> set m. pc_pts e)"

lemma io_cover_simps [simp]: "io_cover [] = {}" "io_cover (e # m) = pc_pts e \<union> io_cover m" "io_cover (m @ n) = io_cover m \<union> io_cover n"
  by (auto simp: io_cover_def)

lemma pc_range: "p \<in> pc_pts e \<Longrightarrow> pc_off e \<le> fst p \<and> fst p < pc_off e + length (pc_bl e)"
  by (simp add: pc_pts_def)

definition io_acct :: "u64 \<Rightarrow> piece list \<Rightarrow> nat" where
  "io_acct s m = sum_list (map (\<lambda>e. if pc_seq e = s then length (pc_bl e) else 0) m)"

lemma io_acct_simps [simp]: "io_acct s [] = 0" "io_acct s (e # m) = (if pc_seq e = s then length (pc_bl e) else 0) + io_acct s m"
  "io_acct s (m @ n) = io_acct s m + io_acct s n"
  by (simp_all add: io_acct_def)

definition pc_ok :: "piece \<Rightarrow> bool" where
  "pc_ok e \<longleftrightarrow> pc_bl e \<noteq> [] \<and> pc_off e + length (pc_bl e) < 2 ^ 64 \<and> length (pc_bl e) < 2 ^ 32"

definition pc_before :: "piece \<Rightarrow> piece \<Rightarrow> bool" where
  "pc_before e f \<longleftrightarrow> pc_off e + length (pc_bl e) \<le> pc_off f"

definition io_wf :: "piece list \<Rightarrow> bool" where
  "io_wf m \<longleftrightarrow> sorted_wrt pc_before m \<and> (\<forall>e \<in> set m. pc_ok e)"

text \<open>The counter of a transaction is the number of its bytes in the batch, an \<open>int\<close> that has not overflowed.\<close>

definition counters_ok :: "(u64 \<rightharpoonup> int) \<Rightarrow> piece list \<Rightarrow> bool" where
  "counters_ok sb m \<longleftrightarrow> (\<forall>s. case sb s of None \<Rightarrow> s \<notin> pc_seq ` set m | Some v \<Rightarrow> v = int (io_acct s m) \<and> v < 2 ^ 31)"

definition batch_ok :: "batch \<Rightarrow> bool" where
  "batch_ok b \<longleftrightarrow> io_wf (ba_iomap b) \<and> counters_ok (ba_seq_bytes b) (ba_iomap b)"

lemma io_wf_append: "io_wf (m @ n) \<longleftrightarrow> io_wf m \<and> io_wf n \<and> (\<forall>e \<in> set m. \<forall>f \<in> set n. pc_before e f)"
  by (auto simp: io_wf_def sorted_wrt_append)

lemma io_wf_Cons: "io_wf (e # m) \<longleftrightarrow> pc_ok e \<and> io_wf m \<and> (\<forall>f \<in> set m. pc_before e f)"
  by (auto simp: io_wf_def)

lemma pc_end_ok: "pc_ok e \<Longrightarrow> pc_end e = pc_off e + length (pc_bl e)"
  by (simp add: pc_end_def pc_ok_def add64_exact)

lemma io_acct_none: "s \<notin> pc_seq ` set m \<Longrightarrow> io_acct s m = 0"
  by (induction m) auto

text \<open>
  Replacing a piece \<open>e\<close> by pieces \<open>es\<close> of the same transaction that hold \<open>n\<close> bytes less, and subtracting \<open>n\<close>.
\<close>

lemma sb_sub_replace:
  assumes "counters_ok sb (xs @ e # ys)" and "\<forall>f \<in> set es. pc_seq f = pc_seq e" and "io_acct (pc_seq e) es + n = length (pc_bl e)"
  shows "\<exists>sb'. sb_sub (pc_seq e) n sb = Some sb' \<and> counters_ok sb' (xs @ es @ ys) \<and> sb (pc_seq e) \<noteq> None"
proof -
  let ?s = "pc_seq e"
  obtain v where v: "sb ?s = Some v" "v = int (io_acct ?s (xs @ e # ys))" "v < 2 ^ 31"
    using assms(1) unfolding counters_ok_def by (cases "sb ?s") (force dest: spec [of _ ?s])+
  have n: "int n \<le> v" "v - int n = int (io_acct ?s (xs @ es @ ys))" using v(2) assms(3) by simp_all
  have other: "io_acct s (xs @ es @ ys) = io_acct s (xs @ e # ys)" "s \<in> pc_seq ` set (xs @ es @ ys) \<Longrightarrow> s \<in> pc_seq ` set (xs @ e # ys)" if "s \<noteq> ?s" for s
  proof -
    have "s \<notin> pc_seq ` set es" using assms(2) that by auto
    then show "io_acct s (xs @ es @ ys) = io_acct s (xs @ e # ys)" using that by (simp add: io_acct_none)
    show "s \<in> pc_seq ` set (xs @ es @ ys) \<Longrightarrow> s \<in> pc_seq ` set (xs @ e # ys)" using \<open>s \<notin> pc_seq ` set es\<close> by auto
  qed
  have "counters_ok (sb(?s \<mapsto> v - int n)) (xs @ es @ ys)"
    unfolding counters_ok_def
  proof
    fix s
    show "case (sb(?s \<mapsto> v - int n)) s of None \<Rightarrow> s \<notin> pc_seq ` set (xs @ es @ ys) | Some v \<Rightarrow> v = int (io_acct s (xs @ es @ ys)) \<and> v < 2 ^ 31"
      using assms(1) [unfolded counters_ok_def, rule_format, of s] other [of s] n(2) v(3) by (cases "s = ?s") (auto split: option.splits)
  qed
  moreover have "sb_sub ?s n sb = Some (sb(?s \<mapsto> v - int n))" using v(1,3) n(1) by (simp add: sb_sub_def)
  ultimately show ?thesis using v(1) by auto
qed

lemma sb_add_put:
  assumes "counters_ok sb (xs @ ys)" and "io_acct s (xs @ ys) + length bl < 2 ^ 31"
  shows "\<exists>sb'. sb_add s (length bl) sb = Some sb' \<and> counters_ok sb' (xs @ (off, s, bl) # ys)"
proof -
  have v: "(case sb s of None \<Rightarrow> 0 | Some v \<Rightarrow> v) = int (io_acct s (xs @ ys))"
    using assms(1) [unfolded counters_ok_def, rule_format, of s] io_acct_none [of s "xs @ ys"] by (auto split: option.splits)
  define w where "w = int (io_acct s (xs @ ys)) + int (length bl)"
  have "sb_add s (length bl) sb = Some (sb(s \<mapsto> w))" using v assms(2) by (simp add: sb_add_def w_def)
  moreover have "counters_ok (sb(s \<mapsto> w)) (xs @ (off, s, bl) # ys)"
    unfolding counters_ok_def
  proof
    fix t
    show "case (sb(s \<mapsto> w)) t of None \<Rightarrow> t \<notin> pc_seq ` set (xs @ (off, s, bl) # ys) | Some v \<Rightarrow> v = int (io_acct t (xs @ (off, s, bl) # ys)) \<and> v < 2 ^ 31"
      using assms(1) [unfolded counters_ok_def, rule_format, of t] assms(2) by (cases "t = s") (auto simp: w_def split: option.splits)
  qed
  ultimately show ?thesis by blast
qed

section \<open>Cutting a piece\<close>

abbreviation in_range :: "nat \<Rightarrow> nat \<Rightarrow> nat \<times> 'a \<Rightarrow> bool" where
  "in_range off en p \<equiv> off \<le> fst p \<and> fst p < en"

lemma pc_head:
  assumes "pc_off e < off" and "off < pc_off e + length (pc_bl e)"
  shows "pc_pts (pc_off e, pc_seq e, take (off - pc_off e) (pc_bl e)) = {p \<in> pc_pts e. fst p < off}"
  using assms by (auto simp: pc_pts_def)

lemma pc_tail:
  assumes "pc_off e \<le> en" and "en < pc_off e + length (pc_bl e)"
  shows "pc_pts (en, pc_seq e, drop (en - pc_off e) (pc_bl e)) = {p \<in> pc_pts e. en \<le> fst p}"
  using assms by (auto simp: pc_pts_def)

lemma io_put_between: "\<forall>x \<in> set xs. pc_off x < pc_off e \<Longrightarrow> \<forall>y \<in> set ys. pc_off e < pc_off y \<Longrightarrow> io_put e (xs @ ys) = xs @ e # ys"
  by (induction xs) (cases ys, auto)

lemma io_wf_offs: "io_wf (xs @ e # ys) \<Longrightarrow> (\<forall>x \<in> set xs. pc_off x < pc_off e) \<and> (\<forall>y \<in> set ys. pc_off e + length (pc_bl e) \<le> pc_off y)"
proof -
  assume wf: "io_wf (xs @ e # ys)"
  have "pc_off x < pc_off e" if "x \<in> set xs" for x
  proof -
    have "pc_bl x \<noteq> []" using wf that unfolding io_wf_def pc_ok_def by auto
    moreover have "pc_before x e" using wf that by (simp add: io_wf_append)
    ultimately show ?thesis by (cases "pc_bl x") (simp_all add: pc_before_def)
  qed
  moreover have "pc_off e + length (pc_bl e) \<le> pc_off y" if "y \<in> set ys" for y
    using wf that by (simp add: io_wf_append io_wf_Cons pc_before_def)
  ultimately show ?thesis by blast
qed

lemma outside_low: "\<forall>x \<in> set m. pc_off x + length (pc_bl x) \<le> off \<Longrightarrow> p \<in> io_cover m \<Longrightarrow> \<not> in_range off en p"
  by (fastforce simp: io_cover_def dest: pc_range)

lemma outside_high: "\<forall>x \<in> set m. en \<le> pc_off x \<Longrightarrow> p \<in> io_cover m \<Longrightarrow> \<not> in_range off en p"
  by (fastforce simp: io_cover_def dest: pc_range)

section \<open>Discarding a range\<close>

lemma io_erase_at: "io_erase (length xs) (xs @ e # ys) = xs @ ys"
  by (simp add: io_erase_def)

text \<open>One piece that starts in the range: it goes, or its tail stays.\<close>

lemma discard_one_ok:
  assumes ok: "batch_ok b" and m: "ba_iomap b = xs @ e # ys" and lt: "pc_off e < en" and en: "en < 2 ^ 64"
  shows "\<exists>b' es. discard_one en (length xs) b = Some b' \<and> batch_ok b' \<and> ba_iomap b' = xs @ es @ ys \<and>
    (es = [] \<and> pc_off e + length (pc_bl e) \<le> en \<or> (\<exists>f. es = [f] \<and> pc_off f = en \<and> pc_pts f = {p \<in> pc_pts e. en \<le> fst p}))"
proof -
  have wf: "io_wf (xs @ e # ys)" and sb: "counters_ok (ba_seq_bytes b) (xs @ e # ys)" using ok m by (simp_all add: batch_ok_def)
  have e: "pc_ok e" "pc_end e = pc_off e + length (pc_bl e)" "length (pc_bl e) < 2 ^ 32" using wf pc_end_ok by (simp_all add: io_wf_def pc_ok_def)
  note offs = io_wf_offs [OF wf]
  have nth: "(xs @ e # ys) ! length xs = e" by simp
  show ?thesis
  proof (cases "en < pc_off e + length (pc_bl e)")
    case True
    define f where "f = (en, pc_seq e, drop (en - pc_off e) (pc_bl e))"
    have "length (drop (en - pc_off e) (pc_bl e)) + (en - pc_off e) = length (pc_bl e)" using True lt by simp
    then obtain sb' where sb': "sb_sub (pc_seq e) (en - pc_off e) (ba_seq_bytes b) = Some sb'" "counters_ok sb' (xs @ [f] @ ys)" "ba_seq_bytes b (pc_seq e) \<noteq> None"
      using sb_sub_replace [OF sb, of "[f]" "en - pc_off e"] by (auto simp: f_def)
    have sub: "substr_of (pc_bl e) (en - pc_off e) (pc_end e - en) = Some (drop (en - pc_off e) (pc_bl e))"
      using True lt e(2,3) by (simp add: substr_of_ok)
    have put: "io_put f (xs @ ys) = xs @ f # ys" using offs lt True by (intro io_put_between) (auto simp: f_def)
    have "discard_one en (length xs) b = Some (b\<lparr>ba_iomap := xs @ [f] @ ys, ba_seq_bytes := sb'\<rparr>)"
      using True e(2) sub sb'(1,3) put unfolding discard_one_def Let_def m nth by (auto simp: io_erase_at f_def)
    moreover have "pc_ok f" "\<forall>x \<in> set xs. pc_before x f" "\<forall>y \<in> set ys. pc_before f y"
      using wf lt True en e(1) by (auto simp: f_def pc_ok_def pc_before_def io_wf_append io_wf_Cons)
    then have "io_wf (xs @ [f] @ ys)" using wf by (auto simp: io_wf_append io_wf_Cons)
    moreover have "pc_pts f = {p \<in> pc_pts e. en \<le> fst p}" unfolding f_def using lt True by (intro pc_tail) auto
    ultimately show ?thesis using sb'(2) by (intro exI [of _ "b\<lparr>ba_iomap := xs @ [f] @ ys, ba_seq_bytes := sb'\<rparr>"] exI [of _ "[f]"])
        (simp add: batch_ok_def f_def)
  next
    case False
    obtain sb' where sb': "sb_sub (pc_seq e) (length (pc_bl e)) (ba_seq_bytes b) = Some sb'" "counters_ok sb' (xs @ ys)" "ba_seq_bytes b (pc_seq e) \<noteq> None"
      using sb_sub_replace [OF sb, of "[]" "length (pc_bl e)"] by auto
    have "discard_one en (length xs) b = Some (b\<lparr>ba_iomap := xs @ ys, ba_seq_bytes := sb'\<rparr>)"
      using False e(2) sb'(1,3) unfolding discard_one_def Let_def m nth by (auto simp: io_erase_at)
    moreover have "io_wf (xs @ ys)" using wf by (simp add: io_wf_append io_wf_Cons)
    ultimately show ?thesis using sb'(2) False by (intro exI [of _ "b\<lparr>ba_iomap := xs @ ys, ba_seq_bytes := sb'\<rparr>"] exI [of _ "[]"]) (simp add: batch_ok_def)
  qed
qed

definition discarded :: "nat \<Rightarrow> nat \<Rightarrow> batch \<Rightarrow> batch option \<Rightarrow> bool" where
  "discarded off en b r \<longleftrightarrow> (\<exists>b'. r = Some b' \<and> batch_ok b' \<and> io_cover (ba_iomap b') = {p \<in> io_cover (ba_iomap b). \<not> in_range off en p})"

lemma discarded_same: "batch_ok b \<Longrightarrow> \<forall>p \<in> io_cover (ba_iomap b). \<not> in_range off en p \<Longrightarrow> discarded off en b (Some b)"
  by (auto simp: discarded_def)

lemma discard_loop_ok:
  assumes "batch_ok b" and "ba_iomap b = xs @ ys" and "\<forall>x \<in> set xs. pc_off x + length (pc_bl x) \<le> off" and "\<forall>y \<in> set ys. off \<le> pc_off y" and "en < 2 ^ 64"
  shows "discarded off en b (discard_loop en (length xs) b)"
  using assms
proof (induction ys arbitrary: b)
  case Nil
  then show ?case using outside_low [of xs off _ en] by (auto simp: discard_loop.simps [of en "length xs" b] intro: discarded_same)
next
  case (Cons e ys)
  note m = Cons.prems(2) and low = outside_low [OF Cons.prems(3)]
  have wf: "io_wf (xs @ e # ys)" using Cons.prems(1,2) by (simp add: batch_ok_def)
  have nth: "(xs @ e # ys) ! length xs = e" by simp
  show ?case
  proof (cases "pc_off e < en")
    case False
    then have "\<forall>x \<in> set (e # ys). en \<le> pc_off x" using io_wf_offs [OF wf] by fastforce
    then have "discarded off en b (Some b)" using outside_high [of "e # ys" en] low Cons.prems(1) by (intro discarded_same) (auto simp: m)
    then show ?thesis using False by (simp add: discard_loop.simps [of en "length xs" b] m)
  next
    case True
    obtain b' es where b': "discard_one en (length xs) b = Some b'" "batch_ok b'" "ba_iomap b' = xs @ es @ ys"
        "es = [] \<and> pc_off e + length (pc_bl e) \<le> en \<or> (\<exists>f. es = [f] \<and> pc_off f = en \<and> pc_pts f = {p \<in> pc_pts e. en \<le> fst p})"
      using discard_one_ok [OF Cons.prems(1) m True Cons.prems(5)] by blast
    have step: "discard_loop en (length xs) b = discard_loop en (length xs) b'"
      using True b'(1) by (subst discard_loop.simps) (simp add: m)
    have off: "off \<le> pc_off e" using Cons.prems(4) by simp
    show ?thesis using b'(4)
    proof (elim disjE exE conjE)
      assume es: "es = []" "pc_off e + length (pc_bl e) \<le> en"
      have "discarded off en b' (discard_loop en (length xs) b')" using Cons.IH [of b'] b'(2,3) es Cons.prems by simp
      moreover have "{p \<in> io_cover (ba_iomap b'). \<not> in_range off en p} = {p \<in> io_cover (ba_iomap b). \<not> in_range off en p}"
        using b'(3) es off pc_range [of _ e] by (fastforce simp: m)
      ultimately show ?thesis unfolding step discarded_def by simp
    next
      fix f
      assume f: "es = [f]" "pc_off f = en" "pc_pts f = {p \<in> pc_pts e. en \<le> fst p}"
      have stop: "discard_loop en (length xs) b' = Some b'" using f b'(3) by (simp add: discard_loop.simps [of en "length xs" b'])
      have "\<forall>x \<in> set ys. en \<le> pc_off x" using b'(2,3) f io_wf_offs [of xs f ys] by (fastforce simp: batch_ok_def)
      moreover have "pc_pts f = {p \<in> pc_pts e. \<not> in_range off en p}" unfolding f(3) using off pc_range [of _ e] by fastforce
      ultimately have "io_cover (ba_iomap b') = {p \<in> io_cover (ba_iomap b). \<not> in_range off en p}"
        using f(1) b'(3) low outside_high [of ys en _ off] by (auto simp: m)
      then show ?thesis using b'(2) stop unfolding step discarded_def by simp
    qed
  qed
qed

text \<open>The piece before the range: it keeps its head, and its tail if it reaches beyond the range.\<close>

lemma discard_front_ok:
  assumes ok: "batch_ok b" and m: "ba_iomap b = xs @ ys" and lt: "\<forall>x \<in> set xs. pc_off x < off" and ge: "\<forall>y \<in> set ys. off \<le> pc_off y"
    and len: "off + len < 2 ^ 64"
  shows "\<exists>b1 xs' ys'. discard_front off len (length xs) b = Some b1 \<and> batch_ok b1 \<and> ba_iomap b1 = xs' @ ys' \<and> length xs' = length xs \<and>
    (\<forall>x \<in> set xs'. pc_off x + length (pc_bl x) \<le> off) \<and> (\<forall>y \<in> set ys'. off \<le> pc_off y) \<and>
    {p \<in> io_cover (ba_iomap b1). \<not> in_range off (off + len) p} = {p \<in> io_cover (ba_iomap b). \<not> in_range off (off + len) p}"
proof (cases xs rule: rev_cases)
  case Nil
  then show ?thesis using ok m ge by (intro exI [of _ b] exI [of _ "[]"] exI [of _ ys]) (simp add: discard_front_def)
next
  case (snoc zs e)
  have wf: "io_wf (zs @ e # ys)" and sb: "counters_ok (ba_seq_bytes b) (zs @ e # ys)" using ok m snoc by (simp_all add: batch_ok_def)
  have e: "pc_ok e" "pc_end e = pc_off e + length (pc_bl e)" "length (pc_bl e) < 2 ^ 32" using wf pc_end_ok by (simp_all add: io_wf_def pc_ok_def)
  have zs: "\<forall>x \<in> set zs. pc_off x + length (pc_bl x) \<le> off" using wf lt snoc by (fastforce simp: io_wf_append pc_before_def)
  have lo: "pc_off e < off" using lt snoc by simp
  have nth: "(zs @ e # ys) ! length zs = e" "length xs - 1 = length zs" "length xs \<noteq> 0" using snoc by simp_all
  have a64: "add64 off len = off + len" "sub64 off (pc_off e) = off - pc_off e" "sub64 (off + len) (pc_off e) = off + len - pc_off e"
    using len lo by (simp_all add: add64_exact sub64_exact)
  have m': "ba_iomap b = zs @ e # ys" using m snoc by simp
  note front = discard_front_def [of off len "length xs" b, unfolded Let_def m' nth(1,2) a64 e(2)]
  show ?thesis
  proof (cases "off < pc_off e + length (pc_bl e)")
    case False
    then have "discard_front off len (length xs) b = Some b" using nth(3) unfolding front by simp
    then show ?thesis using ok m ge zs False snoc by (intro exI [of _ b] exI [of _ xs] exI [of _ ys]) auto
  next
    case True
    define h where "h = (pc_off e, pc_seq e, take (off - pc_off e) (pc_bl e))"
    have hsub: "substr_of (pc_bl e) 0 (off - pc_off e) = Some (take (off - pc_off e) (pc_bl e))" using True lo e(3) by (simp add: substr_of_ok)
    have hp: "pc_pts h = {p \<in> pc_pts e. fst p < off}" unfolding h_def by (rule pc_head [OF lo True])
    have hend: "pc_off h + length (pc_bl h) = off" using True lo by (simp add: h_def)
    have hok: "pc_ok h" "\<forall>x \<in> set zs. pc_before x h" "\<forall>y \<in> set ys. pc_before h y" "\<forall>x \<in> set zs. \<forall>y \<in> set ys. pc_before x y"
      using wf lo True e(1) by (auto simp: h_def pc_ok_def pc_before_def io_wf_append io_wf_Cons)
    have wfs: "io_wf zs" "io_wf ys" using wf by (simp_all add: io_wf_append io_wf_Cons)
    show ?thesis
    proof (cases "off + len < pc_off e + length (pc_bl e)")
      case False
      obtain sb' where sb': "sb_sub (pc_seq e) (pc_off e + length (pc_bl e) - off) (ba_seq_bytes b) = Some sb'" "counters_ok sb' (zs @ [h] @ ys)" "ba_seq_bytes b (pc_seq e) \<noteq> None"
        using sb_sub_replace [OF sb, of "[h]" "pc_off e + length (pc_bl e) - off"] True lo by (auto simp: h_def)
      have "discard_front off len (length xs) b = Some (b\<lparr>ba_iomap := zs @ [h] @ ys, ba_seq_bytes := sb'\<rparr>)"
        using True False nth(3) hsub sb'(1,3) unfolding front by (auto simp: h_def)
      moreover have "io_wf (zs @ [h] @ ys)" using hok wfs by (auto simp: io_wf_append io_wf_Cons)
      moreover have "{p \<in> io_cover (zs @ [h] @ ys). \<not> in_range off (off + len) p} = {p \<in> io_cover (zs @ e # ys). \<not> in_range off (off + len) p}"
        using hp False pc_range [of _ e] by fastforce
      ultimately show ?thesis using sb'(2) zs hend ge snoc m'
        by (intro exI [of _ "b\<lparr>ba_iomap := zs @ [h] @ ys, ba_seq_bytes := sb'\<rparr>"] exI [of _ "zs @ [h]"] exI [of _ ys]) (auto simp: batch_ok_def)
    next
      case long: True
      define t where "t = (off + len, pc_seq e, drop (off + len - pc_off e) (pc_bl e))"
      obtain sb' where sb': "sb_sub (pc_seq e) len (ba_seq_bytes b) = Some sb'" "counters_ok sb' (zs @ [h, t] @ ys)" "ba_seq_bytes b (pc_seq e) \<noteq> None"
        using sb_sub_replace [OF sb, of "[h, t]" len] long lo by (auto simp: h_def t_def)
      have tsub: "substr_of (pc_bl e) (off + len - pc_off e) (pc_off e + length (pc_bl e) - (off + len)) = Some (drop (off + len - pc_off e) (pc_bl e))"
        using long lo e(3) by (simp add: substr_of_ok)
      have "io_put t ((zs @ [e]) @ ys) = (zs @ [e]) @ t # ys"
        using io_wf_offs [OF wf] lo long by (intro io_put_between) (fastforce simp: t_def)+
      then have put: "(io_put t (zs @ e # ys))[length zs := h] = zs @ [h, t] @ ys" by simp
      have "discard_front off len (length xs) b = Some (b\<lparr>ba_iomap := zs @ [h, t] @ ys, ba_seq_bytes := sb'\<rparr>)"
        using True long nth(3) hsub tsub sb'(1,3) put unfolding front by (auto simp: h_def t_def)
      moreover have tok: "pc_ok t" "pc_before h t" "\<forall>x \<in> set zs. pc_before x t" "\<forall>y \<in> set ys. pc_before t y"
        using wf e(1) lo long hend zs by (auto simp: t_def pc_ok_def pc_before_def io_wf_append io_wf_Cons)
      then have "io_wf (zs @ [h, t] @ ys)" using hok wfs by (auto simp: io_wf_append io_wf_Cons)
      moreover have "pc_pts t = {p \<in> pc_pts e. off + len \<le> fst p}" unfolding t_def using lo long by (intro pc_tail) auto
      then have "{p \<in> io_cover (zs @ [h, t] @ ys). \<not> in_range off (off + len) p} = {p \<in> io_cover (zs @ e # ys). \<not> in_range off (off + len) p}"
        using hp by auto
      ultimately show ?thesis using sb'(2) zs hend ge snoc m'
        by (intro exI [of _ "b\<lparr>ba_iomap := zs @ [h, t] @ ys, ba_seq_bytes := sb'\<rparr>"] exI [of _ "zs @ [h]"] exI [of _ "t # ys"]) (auto simp: batch_ok_def t_def)
    qed
  qed
qed

lemma io_split: "\<exists>xs ys. m = xs @ ys \<and> length xs = io_lower_bound off m \<and> (\<forall>x \<in> set xs. pc_off x < off) \<and> (io_wf m \<longrightarrow> (\<forall>y \<in> set ys. off \<le> pc_off y))"
proof -
  let ?xs = "takeWhile (\<lambda>e. pc_off e < off) m" and ?ys = "dropWhile (\<lambda>e. pc_off e < off) m"
  have "off \<le> pc_off y" if wf: "io_wf m" and y: "y \<in> set ?ys" for y
  proof -
    obtain z zs where z: "?ys = z # zs" using y by (cases ?ys) auto
    then have "off \<le> pc_off z" using hd_dropWhile [of "\<lambda>e. pc_off e < off" m] by simp
    moreover have "io_wf (?xs @ z # zs)" using wf z takeWhile_dropWhile_id [of "\<lambda>e. pc_off e < off" m] by simp
    ultimately show ?thesis using io_wf_offs [of ?xs z zs] y z by fastforce
  qed
  then show ?thesis by (intro exI [of _ ?xs] exI [of _ ?ys]) (auto simp: io_lower_bound_def dest: set_takeWhileD)
qed

lemma batch_discard_ok:
  assumes "batch_ok b" and "off + len < 2 ^ 64"
  shows "discarded off (off + len) b (batch_discard off len b)"
proof -
  obtain xs ys where s: "ba_iomap b = xs @ ys" "length xs = io_lower_bound off (ba_iomap b)" "\<forall>x \<in> set xs. pc_off x < off" "\<forall>y \<in> set ys. off \<le> pc_off y"
    using io_split [of "ba_iomap b" off] assms(1) by (auto simp: batch_ok_def)
  obtain b1 xs' ys' where f: "discard_front off len (length xs) b = Some b1" "batch_ok b1" "ba_iomap b1 = xs' @ ys'" "length xs' = length xs"
      "\<forall>x \<in> set xs'. pc_off x + length (pc_bl x) \<le> off" "\<forall>y \<in> set ys'. off \<le> pc_off y"
      "{p \<in> io_cover (ba_iomap b1). \<not> in_range off (off + len) p} = {p \<in> io_cover (ba_iomap b). \<not> in_range off (off + len) p}"
    using discard_front_ok [OF assms(1) s(1,3,4) assms(2)] by blast
  have "discarded off (off + len) b1 (discard_loop (off + len) (length xs) b1)" using discard_loop_ok [OF f(2,3,5,6) assms(2)] f(4) by simp
  moreover have "batch_discard off len b = discard_loop (off + len) (length xs) b1"
    using f(1) s(2) assms(2) by (simp add: batch_discard_def Let_def add64_exact)
  ultimately show ?thesis using f(7) unfolding discarded_def by simp
qed

section \<open>Writing\<close>

lemma pc_pts_image: "pc_pts e = (\<lambda>k. (pc_off e + k, pc_seq e, pc_bl e ! k)) ` {..<length (pc_bl e)}"
proof (intro set_eqI iffI)
  fix p
  assume "p \<in> pc_pts e"
  then have "p = (pc_off e + (fst p - pc_off e), pc_seq e, pc_bl e ! (fst p - pc_off e)) \<and> fst p - pc_off e < length (pc_bl e)"
    by (cases p) (auto simp: pc_pts_def)
  then show "p \<in> (\<lambda>k. (pc_off e + k, pc_seq e, pc_bl e ! k)) ` {..<length (pc_bl e)}" by blast
qed (auto simp: pc_pts_def)

text \<open>The bytes of a transaction are counted point by point.\<close>

lemma io_acct_card: "io_wf m \<Longrightarrow> finite (io_cover m) \<and> io_acct s m = card {p \<in> io_cover m. fst (snd p) = s}"
proof (induction m)
  case (Cons e m)
  have fin: "finite (pc_pts e)" "finite (io_cover m)" using Cons by (simp_all add: pc_pts_image io_wf_Cons)
  have "card (pc_pts e) = length (pc_bl e)" unfolding pc_pts_image by (subst card_image) (auto simp: inj_on_def)
  moreover have "{p \<in> pc_pts e. fst (snd p) = s} = (if pc_seq e = s then pc_pts e else {})" by (auto simp: pc_pts_def)
  ultimately have e: "card {p \<in> pc_pts e. fst (snd p) = s} = (if pc_seq e = s then length (pc_bl e) else 0)" by simp
  have above: "pc_off e + length (pc_bl e) \<le> fst p" if "p \<in> io_cover m" for p
    using that Cons.prems by (fastforce simp: io_cover_def io_wf_Cons pc_before_def dest: pc_range)
  have "p \<notin> io_cover m" if "p \<in> pc_pts e" for p using pc_range [OF that] above [of p] by linarith
  then have "pc_pts e \<inter> io_cover m = {}" by blast
  then have "card ({p \<in> pc_pts e. fst (snd p) = s} \<union> {p \<in> io_cover m. fst (snd p) = s}) =
      card {p \<in> pc_pts e. fst (snd p) = s} + card {p \<in> io_cover m. fst (snd p) = s}"
    using fin by (intro card_Un_disjoint) auto
  moreover have "{p \<in> io_cover (e # m). fst (snd p) = s} = {p \<in> pc_pts e. fst (snd p) = s} \<union> {p \<in> io_cover m. fst (snd p) = s}" by auto
  ultimately show ?case using Cons e fin by (simp add: io_wf_Cons)
qed simp

lemma io_acct_mono: "io_wf m \<Longrightarrow> io_wf n \<Longrightarrow> io_cover n \<subseteq> io_cover m \<Longrightarrow> io_acct s n \<le> io_acct s m"
proof -
  assume wf: "io_wf m" "io_wf n" and sub: "io_cover n \<subseteq> io_cover m"
  have "card {p \<in> io_cover n. fst (snd p) = s} \<le> card {p \<in> io_cover m. fst (snd p) = s}"
    using io_acct_card [OF wf(1)] sub by (intro card_mono) auto
  then show ?thesis using io_acct_card [OF wf(1), of s] io_acct_card [OF wf(2), of s] by simp
qed

type_synonym dwrite = "u64 \<times> u64 \<times> u64 \<times> bytes \<times> u64"

text \<open>A write \<open>(seq, offset, length, data, data_pos)\<close>, its points, and what it does to a set of points.\<close>

definition dw_ok :: "dwrite \<Rightarrow> bool" where
  "dw_ok w = (case w of (seq, off, len, data, pos) \<Rightarrow> 0 < len \<and> off + len < 2 ^ 64 \<and> pos + len \<le> length data \<and> length data < 2 ^ 32)"

definition dw_step :: "dwrite \<Rightarrow> (nat \<times> u64 \<times> byte) set \<Rightarrow> (nat \<times> u64 \<times> byte) set" where
  "dw_step w C = (case w of (seq, off, len, data, pos) \<Rightarrow>
     {p \<in> C. \<not> in_range off (off + len) p} \<union> {(off + k, seq, data ! (pos + k)) | k. k < len})"

definition dw_run :: "dwrite \<Rightarrow> batch \<Rightarrow> batch option" where
  "dw_run w b = (case w of (seq, off, len, data, pos) \<Rightarrow> prepare_write seq off len data pos b)"

lemma prepare_write_ok:
  assumes ok: "batch_ok b" and w: "dw_ok (seq, off, len, data, pos)" and small: "io_acct seq (ba_iomap b) + len < 2 ^ 31"
  shows "\<exists>b'. prepare_write seq off len data pos b = Some b' \<and> batch_ok b' \<and> io_cover (ba_iomap b') = dw_step (seq, off, len, data, pos) (io_cover (ba_iomap b))"
proof -
  have len: "0 < len" "off + len < 2 ^ 64" "pos + len \<le> length data" "length data < 2 ^ 32" using w by (simp_all add: dw_ok_def)
  obtain b1 where b1: "batch_discard off len b = Some b1" "batch_ok b1" "io_cover (ba_iomap b1) = {p \<in> io_cover (ba_iomap b). \<not> in_range off (off + len) p}"
    using batch_discard_ok [OF ok len(2)] unfolding discarded_def by blast
  have wf1: "io_wf (ba_iomap b1)" and sb1: "counters_ok (ba_seq_bytes b1) (ba_iomap b1)" using b1(2) by (simp_all add: batch_ok_def)
  have free: "pc_off e + length (pc_bl e) \<le> off \<or> off + len \<le> pc_off e" if "e \<in> set (ba_iomap b1)" for e
  proof (rule ccontr)
    assume n: "\<not> (pc_off e + length (pc_bl e) \<le> off \<or> off + len \<le> pc_off e)"
    define x where "x = max off (pc_off e)"
    have "(x, pc_seq e, pc_bl e ! (x - pc_off e)) \<in> pc_pts e" using n wf1 that by (auto simp: x_def pc_pts_def io_wf_def pc_ok_def)
    then have "(x, pc_seq e, pc_bl e ! (x - pc_off e)) \<in> io_cover (ba_iomap b1)" using that by (auto simp: io_cover_def)
    then show False unfolding b1(3) using n len(1) by (auto simp: x_def)
  qed
  obtain xs ys where s: "ba_iomap b1 = xs @ ys" "\<forall>x \<in> set xs. pc_off x < off" "\<forall>y \<in> set ys. off \<le> pc_off y"
    using io_split [of "ba_iomap b1" off] wf1 by auto
  define bl where "bl = take len (drop pos data)"
  have bl: "length bl = len" "substr_of data pos len = Some bl" using len(3,4) by (simp_all add: bl_def substr_of_ok)
  have ne: "\<not> list_ex (\<lambda>e. pc_off e = off) (ba_iomap b1)"
  proof -
    have "pc_off e \<noteq> off" if "e \<in> set (ba_iomap b1)" for e
      using free [OF that] wf1 that len(1) by (cases "pc_bl e") (auto simp: io_wf_def pc_ok_def)
    then show ?thesis by (auto simp: list_ex_iff)
  qed
  have xs: "pc_off x + length (pc_bl x) \<le> off" if "x \<in> set xs" for x using free [of x] s(1,2) that len(1) by fastforce
  have ys: "off + len \<le> pc_off y" if "y \<in> set ys" for y using free [of y] s(1,3) that wf1 by (cases "pc_bl y") (fastforce simp: io_wf_def pc_ok_def)+
  have put: "io_put (off, seq, bl) (ba_iomap b1) = xs @ (off, seq, bl) # ys"
    unfolding s(1) using s(2) ys len(1) by (intro io_put_between) fastforce+
  have "io_acct seq (xs @ ys) \<le> io_acct seq (ba_iomap b)" using io_acct_mono [of "ba_iomap b" "xs @ ys" seq] ok wf1 b1(3) s(1) by (auto simp: batch_ok_def)
  then obtain sb where sb: "sb_add seq len (ba_seq_bytes b1) = Some sb" "counters_ok sb (xs @ (off, seq, bl) # ys)"
    using sb_add_put [of "ba_seq_bytes b1" xs ys seq bl off] sb1 small bl(1) s(1) by auto
  have "prepare_write seq off len data pos b = Some \<lparr>ba_iomap = xs @ (off, seq, bl) # ys, ba_seq_bytes = sb\<rparr>"
    using b1(1) ne bl(2) sb(1) put by (simp add: prepare_write_def)
  moreover have "io_wf (xs @ (off, seq, bl) # ys)"
    using wf1 xs ys bl(1) len by (auto simp: s(1) io_wf_append io_wf_Cons pc_ok_def pc_before_def)
  moreover have "io_cover (xs @ (off, seq, bl) # ys) = dw_step (seq, off, len, data, pos) (io_cover (ba_iomap b))"
  proof -
    have "pc_pts (off, seq, bl) = {(off + k, seq, data ! (pos + k)) | k. k < len}" using bl(1) len(3) by (auto simp: pc_pts_image bl_def)
    moreover have "io_cover (xs @ (off, seq, bl) # ys) = io_cover (ba_iomap b1) \<union> pc_pts (off, seq, bl)" by (auto simp: s(1))
    ultimately show ?thesis unfolding b1(3) by (simp add: dw_step_def)
  qed
  ultimately show ?thesis using sb(2) by (simp add: batch_ok_def)
qed

section \<open>Submitting\<close>

text \<open>The bytes at their addresses: of a run, and of a list of writes. Two writes with a gap between them are not adjacent.\<close>

definition run_pts :: "u64 \<Rightarrow> bytes \<Rightarrow> (nat \<times> byte) set" where
  "run_pts start bl = {p. start \<le> fst p \<and> fst p < start + length bl \<and> snd p = bl ! (fst p - start)}"

definition w_pts :: "(u64 \<times> bytes) list \<Rightarrow> (nat \<times> byte) set" where
  "w_pts ws = (\<Union>w \<in> set ws. run_pts (fst w) (snd w))"

definition gap :: "u64 \<times> bytes \<Rightarrow> u64 \<times> bytes \<Rightarrow> bool" where
  "gap v w \<longleftrightarrow> fst v + length (snd v) < fst w"

lemma w_pts_simps [simp]: "w_pts [] = {}" "w_pts (w # ws) = run_pts (fst w) (snd w) \<union> w_pts ws"
  by (auto simp: w_pts_def)

lemma run_pts_empty [simp]: "run_pts start [] = {}"
  by (auto simp: run_pts_def)

lemma run_pts_append: "run_pts start (bl @ cl) = run_pts start bl \<union> run_pts (start + length bl) cl"
  by (auto simp: run_pts_def nth_append)

definition byte_of :: "nat \<times> u64 \<times> byte \<Rightarrow> nat \<times> byte" where
  "byte_of p = (fst p, snd (snd p))"

lemma byte_of_piece: "byte_of ` pc_pts e = run_pts (pc_off e) (pc_bl e)"
proof
  show "run_pts (pc_off e) (pc_bl e) \<subseteq> byte_of ` pc_pts e"
  proof
    fix p
    assume "p \<in> run_pts (pc_off e) (pc_bl e)"
    then have "(fst p, pc_seq e, snd p) \<in> pc_pts e" "byte_of (fst p, pc_seq e, snd p) = p" by (cases p; simp add: run_pts_def pc_pts_def byte_of_def)+
    then show "p \<in> byte_of ` pc_pts e" by (metis image_eqI)
  qed
qed (auto simp: run_pts_def pc_pts_def byte_of_def)

lemma submit_loop_ok:
  assumes "io_wf m" and "\<forall>e \<in> set m. pos \<le> pc_off e" and "bl \<noteq> [] \<longrightarrow> start + length bl = pos"
  shows "w_pts (submit_loop start pos bl m) = run_pts start bl \<union> byte_of ` io_cover m \<and> sorted_wrt gap (submit_loop start pos bl m) \<and>
    (\<forall>w \<in> set (submit_loop start pos bl m). snd w \<noteq> [] \<and> (if bl = [] then pos else start) \<le> fst w)"
  using assms
proof (induction m arbitrary: start pos bl)
  case Nil
  then show ?case by simp
next
  case (Cons e m)
  have e: "pc_ok e" "io_wf m" "\<forall>f \<in> set m. pc_off e + length (pc_bl e) \<le> pc_off f" "pc_bl e \<noteq> []"
    using Cons.prems(1) by (auto simp: io_wf_Cons pc_before_def pc_ok_def)
  have a: "add64 (pc_off e) (length (pc_bl e)) = pc_off e + length (pc_bl e)" using e(1) by (simp add: pc_ok_def add64_exact)
  have img: "byte_of ` io_cover (e # m) = run_pts (pc_off e) (pc_bl e) \<union> byte_of ` io_cover m" by (simp add: image_Un byte_of_piece)
  show ?case
  proof (cases "pc_off e = pos")
    case True
    let ?start = "if bl = [] then pos else start"
    have eq: "submit_loop start pos bl (e # m) = submit_loop ?start (pos + length (pc_bl e)) (bl @ pc_bl e) m" using True a by (simp add: Let_def)
    have "run_pts ?start (bl @ pc_bl e) = run_pts start bl \<union> run_pts (pc_off e) (pc_bl e)"
      using True Cons.prems(3) by (auto simp: run_pts_append)
    then show ?thesis using Cons.IH [of "pos + length (pc_bl e)" "bl @ pc_bl e" ?start] e True Cons.prems(3) unfolding eq img by auto
  next
    case False
    then have gt: "pos < pc_off e" using Cons.prems(2) by force
    let ?out = "submit_loop (pc_off e) (pc_off e + length (pc_bl e)) (pc_bl e) m"
    have eq: "submit_loop start pos bl (e # m) = (if bl \<noteq> [] then [(start, bl)] else []) @ ?out" using False a by (simp add: Let_def)
    have IH: "w_pts ?out = run_pts (pc_off e) (pc_bl e) \<union> byte_of ` io_cover m" "sorted_wrt gap ?out" "\<forall>w \<in> set ?out. snd w \<noteq> [] \<and> pc_off e \<le> fst w"
      using Cons.IH [of "pc_off e + length (pc_bl e)" "pc_bl e" "pc_off e"] e by simp_all
    have "\<forall>w \<in> set ?out. bl \<noteq> [] \<longrightarrow> gap (start, bl) w" using IH(3) gt Cons.prems(3) by (fastforce simp: gap_def)
    then show ?thesis using IH gt Cons.prems(3) unfolding eq img by (cases "bl = []") fastforce+
  qed
qed

fun dw_runs :: "dwrite list \<Rightarrow> batch \<Rightarrow> batch option" where
  "dw_runs [] b = Some b"
| "dw_runs (w # ws) b = (case dw_run w b of None \<Rightarrow> None | Some b1 \<Rightarrow> dw_runs ws b1)"

definition dw_len :: "dwrite \<Rightarrow> nat" where
  "dw_len w = (case w of (seq, off, len, data, pos) \<Rightarrow> len)"

lemma dw_run_ok:
  assumes ok: "batch_ok b" and w: "dw_ok w" and small: "\<forall>s. io_acct s (ba_iomap b) + dw_len w < 2 ^ 31"
  shows "\<exists>b'. dw_run w b = Some b' \<and> batch_ok b' \<and> io_cover (ba_iomap b') = dw_step w (io_cover (ba_iomap b)) \<and>
    (\<forall>s. io_acct s (ba_iomap b') \<le> io_acct s (ba_iomap b) + dw_len w)"
proof -
  obtain seq off len data pos where ws: "w = (seq, off, len, data, pos)" by (cases w)
  obtain b' where b': "prepare_write seq off len data pos b = Some b'" "batch_ok b'" "io_cover (ba_iomap b') = dw_step w (io_cover (ba_iomap b))"
    using prepare_write_ok [OF ok, of seq off len data pos] w small by (auto simp: ws dw_len_def)
  have "io_acct s (ba_iomap b') \<le> io_acct s (ba_iomap b) + len" for s
  proof -
    let ?new = "(\<lambda>k. (off + k, seq, data ! (pos + k))) ` {..<len}" and ?old = "{p \<in> io_cover (ba_iomap b). fst (snd p) = s}"
    have fin: "finite (io_cover (ba_iomap b))" using io_acct_card [of "ba_iomap b"] ok by (simp add: batch_ok_def)
    have "{p \<in> io_cover (ba_iomap b'). fst (snd p) = s} \<subseteq> ?old \<union> ?new" unfolding b'(3) ws by (auto simp: dw_step_def)
    then have "card {p \<in> io_cover (ba_iomap b'). fst (snd p) = s} \<le> card (?old \<union> ?new)" using fin by (intro card_mono) auto
    also have "\<dots> \<le> card ?old + card ?new" by (rule card_Un_le)
    also have "card ?new \<le> len" using card_image_le [of "{..<len}"] by simp
    finally show ?thesis using io_acct_card [of "ba_iomap b" s] io_acct_card [of "ba_iomap b'" s] ok b'(2) by (simp add: batch_ok_def)
  qed
  then show ?thesis using b' by (simp add: ws dw_run_def dw_len_def)
qed

lemma dw_runs_ok:
  assumes "batch_ok b" and "\<forall>w \<in> set ws. dw_ok w" and "\<forall>s. io_acct s (ba_iomap b) + (\<Sum>w \<leftarrow> ws. dw_len w) < 2 ^ 31"
  shows "\<exists>b'. dw_runs ws b = Some b' \<and> batch_ok b' \<and> io_cover (ba_iomap b') = fold dw_step ws (io_cover (ba_iomap b))"
  using assms
proof (induction ws arbitrary: b)
  case (Cons w ws)
  have "\<forall>s. io_acct s (ba_iomap b) + dw_len w < 2 ^ 31" using Cons.prems(3) by (metis add.assoc add_lessD1 list.simps(9) sum_list.Cons)
  then obtain b1 where b1: "dw_run w b = Some b1" "batch_ok b1" "io_cover (ba_iomap b1) = dw_step w (io_cover (ba_iomap b))"
      "\<forall>s. io_acct s (ba_iomap b1) \<le> io_acct s (ba_iomap b) + dw_len w"
    using dw_run_ok [of b w] Cons.prems(1,2) by auto
  have "io_acct s (ba_iomap b1) + (\<Sum>w \<leftarrow> ws. dw_len w) < 2 ^ 31" for s
    using b1(4) [rule_format, of s] Cons.prems(3) [rule_format, of s] by simp
  then show ?case using Cons.IH [OF b1(2)] Cons.prems(2) b1(1,3) by auto
qed simp

section \<open>Transactions\<close>

text \<open>The writes that an operation stands for: its data, spread over its valid extents in their order.\<close>

fun op_writes :: "u64 \<Rightarrow> (u64 \<times> u32) list \<Rightarrow> bytes \<Rightarrow> nat \<Rightarrow> dwrite list" where
  "op_writes seq [] data pos = []"
| "op_writes seq (e # es) data pos =
     (if fst e = UINT64_MAX then op_writes seq es data pos
      else let n = min (snd e) (length data - pos) in if n = 0 then [] else (seq, fst e, n, data, pos) # op_writes seq es data (pos + n))"

definition txn_writes :: "u64 \<times> deferred_op list \<Rightarrow> dwrite list" where
  "txn_writes t = concat (map (\<lambda>op. op_writes (fst t) (do_extents op) (do_data op) 0) (snd t))"

definition dop_ok :: "deferred_op \<Rightarrow> bool" where
  "dop_ok op \<longleftrightarrow> length (do_data op) < 2 ^ 32 \<and> (\<forall>e \<in> set (do_extents op). fst e \<noteq> UINT64_MAX \<longrightarrow> fst e + snd e < 2 ^ 64)"

lemma dw_runs_append: "dw_runs (xs @ ys) b = (case dw_runs xs b of None \<Rightarrow> None | Some b1 \<Rightarrow> dw_runs ys b1)"
  by (induction xs arbitrary: b) (auto split: option.splits)

lemma queue_op_runs:
  assumes "length data < 2 ^ 32" and "pos \<le> length data"
  shows "queue_op seq es data pos b = dw_runs (op_writes seq es data pos) b"
  using assms(2)
proof (induction es arbitrary: pos b)
  case (Cons e es)
  define n where "n = min (snd e) (length data - pos)"
  have pos: "pos + n \<le> length data" using Cons.prems by (simp add: n_def)
  then have a: "sub64 (length data) pos = length data - pos" "add64 pos n = pos + n" using assms(1) by (simp_all add: sub64_exact add64_exact)
  show ?case unfolding queue_op.simps op_writes.simps Let_def a(1) n_def [symmetric]
    using Cons.IH [OF Cons.prems] Cons.IH [OF pos] by (simp add: a(2) dw_run_def split: option.split)
qed simp

lemma op_writes_ok:
  assumes "length data < 2 ^ 32" and "pos \<le> length data" and "\<forall>e \<in> set es. fst e \<noteq> UINT64_MAX \<longrightarrow> fst e + snd e < 2 ^ 64"
  shows "\<forall>w \<in> set (op_writes seq es data pos). dw_ok w"
  using assms(2,3)
proof (induction es arbitrary: pos)
  case (Cons e es)
  define n where "n = min (snd e) (length data - pos)"
  have n: "pos + n \<le> length data" "n \<le> snd e" using Cons.prems(1) by (simp_all add: n_def)
  then have "dw_ok (seq, fst e, n, data, pos)" if "0 < n" "fst e \<noteq> UINT64_MAX" using that Cons.prems(2) assms(1) by (auto simp: dw_ok_def)
  then show ?case unfolding op_writes.simps Let_def n_def [symmetric] using Cons.IH [OF Cons.prems(1)] Cons.IH [OF n(1)] Cons.prems(2) by auto
qed simp

lemma queue_ops_runs: "\<forall>op \<in> set ops. dop_ok op \<Longrightarrow> queue_ops seq ops b = dw_runs (txn_writes (seq, ops)) b"
  by (induction ops arbitrary: b) (simp_all add: txn_writes_def dop_ok_def queue_op_runs dw_runs_append split: option.splits)

lemma queue_txns_runs: "\<forall>t \<in> set ts. \<forall>op \<in> set (snd t). dop_ok op \<Longrightarrow> queue_txns ts b = dw_runs (concat (map txn_writes ts)) b"
proof (induction ts arbitrary: b)
  case (Cons t ts)
  then show ?case using queue_ops_runs [of "snd t" "fst t" b] by (simp add: dw_runs_append split: option.splits)
qed simp

lemma txn_writes_ok: "\<forall>op \<in> set (snd t). dop_ok op \<Longrightarrow> \<forall>w \<in> set (txn_writes t). dw_ok w"
  unfolding txn_writes_def dop_ok_def using op_writes_ok [where pos = 0] by fastforce

text \<open>
  C14: Deferred writes. Queueing any transactions into a new batch, with fewer than \<open>2 ^ 31\<close> bytes, succeeds. The batch
  then holds, byte for byte, the last write to each address; the counter of a transaction is the number of its bytes
  that are still to be written; and the submission writes exactly the bytes of the batch, each once and in runs that
  are as long as possible.
\<close>

theorem deferred_last_write_wins:
  assumes "\<forall>t \<in> set ts. \<forall>op \<in> set (snd t). dop_ok op" and "ws = concat (map txn_writes ts)" and "(\<Sum>w \<leftarrow> ws. dw_len w) < 2 ^ 31"
  shows "\<exists>b. queue_txns ts batch_new = Some b \<and> io_cover (ba_iomap b) = fold dw_step ws {} \<and>
    (\<forall>s v. ba_seq_bytes b s = Some v \<longrightarrow> v = int (card {p \<in> fold dw_step ws {}. fst (snd p) = s})) \<and>
    w_pts (batch_writes b) = byte_of ` fold dw_step ws {} \<and> sorted_wrt gap (batch_writes b)"
proof -
  have "batch_ok batch_new" by (simp add: batch_ok_def batch_new_def io_wf_def counters_ok_def)
  moreover have "\<forall>w \<in> set ws. dw_ok w" using txn_writes_ok assms(1,2) by fastforce
  ultimately obtain b where b: "dw_runs ws batch_new = Some b" "batch_ok b" "io_cover (ba_iomap b) = fold dw_step ws {}"
    using dw_runs_ok [of batch_new ws] assms(3) by (auto simp: batch_new_def)
  have wf: "io_wf (ba_iomap b)" and sb: "counters_ok (ba_seq_bytes b) (ba_iomap b)" using b(2) by (simp_all add: batch_ok_def)
  have "v = int (card {p \<in> fold dw_step ws {}. fst (snd p) = s})" if "ba_seq_bytes b s = Some v" for s v
    using sb [unfolded counters_ok_def, rule_format, of s] that io_acct_card [OF wf, of s] b(3) by simp
  moreover have "queue_txns ts batch_new = Some b" using queue_txns_runs [OF assms(1)] b(1) assms(2) by simp
  ultimately show ?thesis using b(3) submit_loop_ok [OF wf, of 0 "[]" 0] by (simp add: batch_writes_def)
qed

text \<open>The second transaction overlaps the first, with an invalid extent between its two places.\<close>

definition two_txns :: "(u64 \<times> deferred_op list) list" where
  "two_txns =
     [(7, [\<lparr>do_extents = [(100, 4)], do_data = [1, 2, 3, 4]\<rparr>]),
      (8, [\<lparr>do_extents = [(102, 4), (UINT64_MAX, 4), (106, 9)], do_data = [5, 6, 7, 8, 9, 9]\<rparr>])]"

theorem deferred_last_write_wins_witness:
  "\<exists>b. queue_txns two_txns batch_new = Some b \<and> w_pts (batch_writes b) = byte_of ` fold dw_step (concat (map txn_writes two_txns)) {} \<and>
     sorted_wrt gap (batch_writes b)"
proof -
  have "\<forall>t \<in> set two_txns. \<forall>op \<in> set (snd t). dop_ok op" by (simp add: two_txns_def dop_ok_def)
  moreover have "(\<Sum>w \<leftarrow> concat (map txn_writes two_txns). dw_len w) < 2 ^ 31" by (simp add: two_txns_def txn_writes_def dw_len_def UINT64_MAX_def)
  ultimately show ?thesis using deferred_last_write_wins [OF _ refl, of two_txns] by blast
qed

end
