(* ===== verification/Object_Key.thy ===== *)
theory Object_Key
  imports Freelist_Refinement
begin

unbundle bit_operations_syntax

text \<open>
  Names of objects and the keys under which they are stored (\<^verbatim>\<open>common/object.h\<close>, \<^verbatim>\<open>common/object.cc\<close>): shard, pool
  and bit-reversed hash in a form that sorts, the strings escaped, snapshot and generation. Where the code reads a
  key as a C string, the key is followed by a zero, and reading beyond it is \<open>None\<close>. A \<open>char\<close> is signed.
\<close>

section \<open>Objects\<close>

record ghobject =
  gh_pool :: int
  gh_hash :: "32 word"
  gh_nspace :: bytes
  gh_key :: bytes
  gh_oid :: bytes
  gh_snap :: u64
  gh_generation :: u64
  gh_shard_id :: byte
  gh_max :: bool

definition ghobject_new :: ghobject where
  "ghobject_new =
     \<lparr>gh_pool = - (2 ^ 63), gh_hash = 0, gh_nspace = [], gh_key = [], gh_oid = [], gh_snap = 0, gh_generation = UINT64_MAX, gh_shard_id = 255, gh_max = False\<rparr>"

definition mk_ghobject :: "int \<Rightarrow> 32 word \<Rightarrow> bytes \<Rightarrow> bytes \<Rightarrow> bytes \<Rightarrow> u64 \<Rightarrow> u64 \<Rightarrow> byte \<Rightarrow> ghobject" where
  "mk_ghobject p h ns k oid s gen sid =
     \<lparr>gh_pool = p, gh_hash = h, gh_nspace = ns, gh_key = (if k = oid then [] else k), gh_oid = oid, gh_snap = s, gh_generation = gen, gh_shard_id = sid, gh_max = False\<rparr>"

definition gh_get_max :: ghobject where
  "gh_get_max = ghobject_new\<lparr>gh_max := True\<rparr>"

definition get_key :: "ghobject \<Rightarrow> bytes" where
  "get_key g = (if gh_key g = [] then gh_oid g else gh_key g)"

text \<open>One round of the reversal: groups of \<open>k\<close> bits, the ones that \<open>m\<close> masks and their neighbours, change places.\<close>

definition swap_groups :: "nat \<Rightarrow> 32 word \<Rightarrow> 32 word \<Rightarrow> 32 word" where
  "swap_groups k m v = (drop_bit k v AND m) OR push_bit k (v AND m)"

definition reverse_bits :: "32 word \<Rightarrow> 32 word" where
  "reverse_bits v =
     (let v1 = swap_groups 1 0x55555555 v; v2 = swap_groups 2 0x33333333 v1; v3 = swap_groups 4 0x0f0f0f0f v2; v4 = swap_groups 8 0x00ff00ff v3
      in drop_bit 16 v4 OR push_bit 16 v4)"

definition reverse_nibbles :: "32 word \<Rightarrow> 32 word" where
  "reverse_nibbles v =
     (let v1 = swap_groups 4 0x0f0f0f0f v; v2 = swap_groups 8 0x00ff00ff v1 in drop_bit 16 v2 OR push_bit 16 v2)"

abbreviation get_bitwise_key_u32 :: "ghobject \<Rightarrow> 32 word" where
  "get_bitwise_key_u32 g \<equiv> reverse_bits (gh_hash g)"

text \<open>\<open>match\<close>: the low \<open>bits\<close> bits are equal; a shift by 32 or more is undefined.\<close>

definition gh_match :: "nat \<Rightarrow> 32 word \<Rightarrow> ghobject \<Rightarrow> bool option" where
  "gh_match bits match_val g =
     (if bits < 32 then Some (match_val AND NOT (push_bit bits (- 1)) = gh_hash g AND NOT (push_bit bits (- 1))) else None)"

definition gh_less :: "ghobject \<Rightarrow> ghobject \<Rightarrow> bool" where
  "gh_less l r =
     (if gh_max l \<noteq> gh_max r then gh_max r
      else if gh_max l then False
      else if gh_shard_id l \<noteq> gh_shard_id r then gh_shard_id l < gh_shard_id r
      else if gh_pool l \<noteq> gh_pool r then gh_pool l < gh_pool r
      else if get_bitwise_key_u32 l \<noteq> get_bitwise_key_u32 r then get_bitwise_key_u32 l < get_bitwise_key_u32 r
      else if gh_nspace l \<noteq> gh_nspace r then gh_nspace l < gh_nspace r
      else if get_key l \<noteq> get_key r then get_key l < get_key r
      else if gh_oid l \<noteq> gh_oid r then gh_oid l < gh_oid r
      else if gh_snap l \<noteq> gh_snap r then gh_snap l < gh_snap r
      else if gh_generation l \<noteq> gh_generation r then gh_generation l < gh_generation r
      else False)"

section \<open>Keys\<close>

definition hex_digit :: "nat \<Rightarrow> byte" where
  "hex_digit n = of_nat (if n < 10 then 48 + n else 87 + n)"

definition key_esc :: "byte \<Rightarrow> bytes" where
  "key_esc c =
     (if sint c \<le> 35 then [35, hex_digit (unat c div 16), hex_digit (unat c mod 16)]
      else if sint c \<ge> 126 then [126, hex_digit (unat c div 16), hex_digit (unat c mod 16)]
      else [c])"

definition append_escaped :: "bytes \<Rightarrow> bytes" where
  "append_escaped s = concat (map key_esc s) @ [33]"

definition key_encode_u32 :: "32 word \<Rightarrow> bytes" where
  "key_encode_u32 u = be_bytes 4 (unat u)"

definition key_encode_shard :: "byte \<Rightarrow> bytes" where
  "key_encode_shard shard = [shard + 0x80]"

definition key_encode_prefix :: "ghobject \<Rightarrow> bytes" where
  "key_encode_prefix g =
     key_encode_shard (gh_shard_id g) @ key_encode_u64 (nat ((gh_pool g + 2 ^ 63) mod 2 ^ 64)) @ key_encode_u32 (get_bitwise_key_u32 g)"

definition ONODE_KEY_SUFFIX :: byte where "ONODE_KEY_SUFFIX = 111"
definition EXTENT_SHARD_KEY_SUFFIX :: byte where "EXTENT_SHARD_KEY_SUFFIX = 120"

definition key_encode_object :: "ghobject \<Rightarrow> bytes" where
  "key_encode_object g =
     key_encode_prefix g @ append_escaped (gh_nspace g) @
     (let k = get_key g
      in if k \<noteq> gh_oid g then append_escaped k @ [if k > gh_oid g then 62 else 60] @ append_escaped (gh_oid g)
         else append_escaped (gh_oid g) @ [61]) @
     key_encode_u64 (gh_snap g) @ key_encode_u64 (gh_generation g) @ [ONODE_KEY_SUFFIX]"

definition key_encode_extent_shard :: "bytes \<Rightarrow> 32 word \<Rightarrow> bytes" where
  "key_encode_extent_shard onode_key offset = onode_key @ key_encode_u32 offset @ [EXTENT_SHARD_KEY_SUFFIX]"

text \<open>
  The decoders. \<open>Some None\<close> is a digit that is not hexadecimal. The part of a string that was read before it is left
  out of the object, which is not used after an error.
\<close>

definition hex_val :: "byte \<Rightarrow> nat option" where
  "hex_val c =
     (if 48 \<le> unat c \<and> unat c \<le> 57 then Some (unat c - 48)
      else if 97 \<le> unat c \<and> unat c \<le> 102 then Some (unat c - 87)
      else if 65 \<le> unat c \<and> unat c \<le> 70 then Some (unat c - 55)
      else None)"

fun decode_escaped :: "bytes \<Rightarrow> (bytes \<times> bytes) option option" where
  "decode_escaped [] = None"
| "decode_escaped (c # p) =
     (if c = 0 \<or> c = 33 then Some (Some ([], c # p))
      else if c = 35 \<or> c = 126 then
        case p of
          [] \<Rightarrow> None
        | a # p1 \<Rightarrow>
            (case hex_val a of
               None \<Rightarrow> Some None
             | Some h \<Rightarrow>
                 (case p1 of
                    [] \<Rightarrow> None
                  | b # p2 \<Rightarrow>
                      (case hex_val b of
                         None \<Rightarrow> Some None
                       | Some l \<Rightarrow> map_option (map_option (\<lambda>(out, q). (of_nat (16 * h + l) # out, q))) (decode_escaped p2))))
      else map_option (map_option (\<lambda>(out, q). (c # out, q))) (decode_escaped p))"

definition take_u64 :: "bytes \<Rightarrow> (u64 \<times> bytes) option" where
  "take_u64 p = map_option (\<lambda>v. (v, drop 8 p)) (key_decode_u64 p)"

definition take_u32 :: "bytes \<Rightarrow> (32 word \<times> bytes) option" where
  "take_u32 p = (if length p < 4 then None else Some (of_nat (fold (\<lambda>b n. n * 256 + unat b) (take 4 p) 0), drop 4 p))"

definition key_decode_prefix :: "bytes \<Rightarrow> ghobject \<Rightarrow> (ghobject \<times> bytes) option" where
  "key_decode_prefix p g =
     (case p of
        [] \<Rightarrow> None
      | c # p1 \<Rightarrow>
          do {
            (pool, p2) \<leftarrow> take_u64 p1;
            (h, p3) \<leftarrow> take_u32 p2;
            Some (g\<lparr>gh_shard_id := c - 0x80, gh_pool := int pool - 2 ^ 63, gh_hash := reverse_bits h\<rparr>, p3)
          })"

text \<open>The tail of a key: snapshot, generation, suffix and the end.\<close>

definition key_decode_tail :: "bytes \<Rightarrow> ghobject \<Rightarrow> (int \<times> ghobject) option" where
  "key_decode_tail p g =
     do {
       (snap, p1) \<leftarrow> take_u64 p;
       (gen, p2) \<leftarrow> take_u64 p1;
       let g1 = g\<lparr>gh_snap := snap, gh_generation := gen\<rparr>;
       case p2 of
         [] \<Rightarrow> None
       | c # p3 \<Rightarrow>
           if c \<noteq> ONODE_KEY_SUFFIX then Some (- 7, g1)
           else (case p3 of [] \<Rightarrow> None | z # p4 \<Rightarrow> Some (if z \<noteq> 0 then - 8 else 0, g1))
     }"

definition key_decode_names :: "bytes \<Rightarrow> ghobject \<Rightarrow> (int \<times> ghobject) option" where
  "key_decode_names p g =
     (case decode_escaped p of
        None \<Rightarrow> None
      | Some None \<Rightarrow> Some (- 3, g)
      | Some (Some (k, q)) \<Rightarrow>
          (case drop 1 q of
             [] \<Rightarrow> None
           | c # p1 \<Rightarrow>
               if c = 61 then key_decode_tail p1 (g\<lparr>gh_key := [], gh_oid := k\<rparr>)
               else if c = 60 \<or> c = 62 then
                 (case decode_escaped p1 of
                    None \<Rightarrow> None
                  | Some None \<Rightarrow> Some (- 5, g)
                  | Some (Some (out, q1)) \<Rightarrow> key_decode_tail (drop 1 q1) (g\<lparr>gh_oid := gh_oid g @ out, gh_key := k\<rparr>))
               else Some (- 6, g)))"

definition key_decode_object :: "bytes \<Rightarrow> ghobject \<Rightarrow> (int \<times> ghobject) option" where
  "key_decode_object key g =
     (if length key < 13 then Some (- 1, g)
      else
        do {
          (g1, p) \<leftarrow> key_decode_prefix (key @ [0]) g;
          case decode_escaped p of
            None \<Rightarrow> None
          | Some None \<Rightarrow> Some (- 2, g1)
          | Some (Some (ns, q)) \<Rightarrow> key_decode_names (drop 1 q) (g1\<lparr>gh_nspace := gh_nspace g1 @ ns\<rparr>)
        })"

section \<open>Reversing the hash\<close>

text \<open>The place from which a round takes the bit at place \<open>n\<close>.\<close>

definition swapped :: "nat \<Rightarrow> nat \<Rightarrow> nat" where
  "swapped k n = (if even (n div k) then n + k else n - k)"

lemma swap_groups_bit:
  assumes "0 < k" and "n < 32" and "list_all (\<lambda>i. bit m i = even (i div k)) [0..<32]"
  shows "bit (swap_groups k m v) n \<longleftrightarrow> bit v (swapped k n)"
proof -
  have m: "bit m i = even (i div k)" if "i < 32" for i using assms(3) that by (simp add: list_all_iff)
  have b: "bit (swap_groups k m v) n \<longleftrightarrow> bit v (k + n) \<and> bit m n \<or> k \<le> n \<and> bit v (n - k) \<and> bit m (n - k)"
    using assms(2) by (auto simp: swap_groups_def bit_simps)
  show ?thesis
  proof (cases "k \<le> n")
    case True
    then have "n div k = Suc ((n - k) div k)" using assms(1) by (simp add: le_div_geq)
    then show ?thesis unfolding b using True m assms(2) by (auto simp: swapped_def add.commute)
  next
    case False
    then show ?thesis unfolding b using m assms(2) by (auto simp: swapped_def add.commute)
  qed
qed

lemma swap_masks:
  "list_all (\<lambda>i. bit (0x55555555 :: 32 word) i = even (i div 1)) [0..<32]" "list_all (\<lambda>i. bit (0x33333333 :: 32 word) i = even (i div 2)) [0..<32]"
  "list_all (\<lambda>i. bit (0x0f0f0f0f :: 32 word) i = even (i div 4)) [0..<32]" "list_all (\<lambda>i. bit (0x00ff00ff :: 32 word) i = even (i div 8)) [0..<32]"
  by code_simp+

lemma swap_halves_bit: "n < 32 \<Longrightarrow> bit (drop_bit 16 v OR push_bit 16 v) n \<longleftrightarrow> bit v (swapped 16 n)" for v :: "32 word"
proof -
  assume n: "n < 32"
  show ?thesis
  proof (cases "n < 16")
    case True
    then show ?thesis by (auto simp: swapped_def bit_simps add.commute)
  next
    case False
    then have "n div 16 = 1" "\<not> bit v (16 + n)" using n bit_imp_le_length [of v "16 + n"] by auto
    then show ?thesis using False n by (auto simp: swapped_def bit_simps)
  qed
qed

definition mirrored :: "nat \<Rightarrow> nat" where
  "mirrored n = swapped 1 (swapped 2 (swapped 4 (swapped 8 (swapped 16 n))))"

lemma swapped_less: "n < 32 \<Longrightarrow> k \<in> {1, 2, 4, 8, 16} \<Longrightarrow> swapped k n < 32"
proof -
  assume "n < 32" "k \<in> {1, 2, 4, 8, 16}"
  moreover have "list_all (\<lambda>k. list_all (\<lambda>n. swapped k n < 32) [0..<32]) [1, 2, 4, 8, 16]" by code_simp
  ultimately show ?thesis by (auto simp: list_all_iff)
qed

lemma reverse_bits_bit: "n < 32 \<Longrightarrow> bit (reverse_bits v) n \<longleftrightarrow> bit v (31 - n)"
proof -
  assume n: "n < 32"
  have one: "bit (swap_groups (Suc 0) 0x55555555 w) i = bit w (swapped (Suc 0) i)" if "i < 32" for w i
    using swap_groups_bit [OF _ that swap_masks(1)] by simp
  have "bit (reverse_bits v) n \<longleftrightarrow> bit v (mirrored n)"
    unfolding reverse_bits_def Let_def mirrored_def using n swapped_less by (simp add: swap_halves_bit one
        swap_groups_bit [OF _ _ swap_masks(2)] swap_groups_bit [OF _ _ swap_masks(3)] swap_groups_bit [OF _ _ swap_masks(4)])
  moreover have "list_all (\<lambda>n. mirrored n = 31 - n) [0..<32]" by (simp add: upt_rec mirrored_def swapped_def)
  then have "mirrored n = 31 - n" using n by (simp add: list_all_iff)
  ultimately show ?thesis by simp
qed

lemma reverse_bits_twice [simp]: "reverse_bits (reverse_bits v) = v"
proof (rule bit_word_eqI)
  fix n
  assume "n < LENGTH(32)"
  then show "bit (reverse_bits (reverse_bits v)) n = bit v n" by (simp add: reverse_bits_bit)
qed

section \<open>Escaped strings\<close>

lemma hex_val_digit: "n < 16 \<Longrightarrow> hex_val (hex_digit n) = Some n"
proof -
  assume "n < 16"
  moreover have "list_all (\<lambda>n. hex_val (hex_digit n) = Some n) [0..<16]" by code_simp
  ultimately show ?thesis by (simp add: list_all_iff)
qed

lemma decode_escaped_char: "decode_escaped (key_esc c @ p) = map_option (map_option (\<lambda>(out, q). (c # out, q))) (decode_escaped p)"
proof -
  have u: "unat c < 256" using unsigned_less [of c, where 'a = nat] by simp
  have c: "of_nat (16 * (unat c div 16) + unat c mod 16) = c" by simp
  have d: "hex_val (hex_digit (unat c div 16)) = Some (unat c div 16)" "hex_val (hex_digit (unat c mod 16)) = Some (unat c mod 16)"
    using u by (auto intro!: hex_val_digit)
  consider "sint c \<le> 35" | "sint c \<ge> 126" | "35 < sint c" "sint c < 126" by linarith
  then show ?thesis
  proof cases
    case 3
    then have "c \<noteq> 0" "c \<noteq> 33" "c \<noteq> 35" "c \<noteq> 126" by auto
    then show ?thesis using 3 by (simp add: key_esc_def)
  qed (use c d in \<open>simp_all add: key_esc_def del: of_nat_add of_nat_mult\<close>)
qed

lemma decode_escaped_append: "decode_escaped (append_escaped s @ p) = Some (Some (s, 33 # p))"
  by (induction s) (simp_all add: append_escaped_def decode_escaped_char)

section \<open>Round trip\<close>

definition gh_ok :: "ghobject \<Rightarrow> bool" where
  "gh_ok g \<longleftrightarrow>
     - (2 ^ 63) \<le> gh_pool g \<and> gh_pool g < 2 ^ 63 \<and> gh_snap g < 2 ^ 64 \<and> gh_generation g < 2 ^ 64 \<and> \<not> gh_max g \<and>
     (gh_key g = [] \<or> gh_key g \<noteq> gh_oid g)"

lemma take_u64_encode: "v < 2 ^ 64 \<Longrightarrow> take_u64 (key_encode_u64 v @ p) = Some (v, p)"
  using key_decode_encode [of v] by (simp add: take_u64_def key_decode_u64_def key_encode_u64_def del: key_decode_encode be_bytes.simps)

lemma take_u32_encode: "take_u32 (key_encode_u32 v @ p) = Some (v, p)"
  using unsigned_less [of v, where 'a = nat] by (simp add: take_u32_def key_encode_u32_def fold_be_bytes del: be_bytes.simps)

lemma decode_prefix:
  assumes "- (2 ^ 63) \<le> gh_pool g" and "gh_pool g < 2 ^ 63"
  shows "key_decode_prefix (key_encode_prefix g @ p) g0 = Some (g0\<lparr>gh_shard_id := gh_shard_id g, gh_pool := gh_pool g, gh_hash := gh_hash g\<rparr>, p)"
proof -
  define v where "v = nat ((gh_pool g + 2 ^ 63) mod 2 ^ 64)"
  have "(gh_pool g + 2 ^ 63) mod 2 ^ 64 = gh_pool g + 2 ^ 63" using assms by (intro mod_pos_pos_trivial) auto
  then have "v < 2 ^ 64" "int v - 2 ^ 63 = gh_pool g" using assms by (simp_all add: v_def)
  then show ?thesis
    by (simp add: key_decode_prefix_def key_encode_prefix_def key_encode_shard_def v_def [symmetric] take_u64_encode take_u32_encode)
qed

lemma decode_tail:
  assumes "gh_snap g < 2 ^ 64" and "gh_generation g < 2 ^ 64"
  shows "key_decode_tail (key_encode_u64 (gh_snap g) @ key_encode_u64 (gh_generation g) @ [ONODE_KEY_SUFFIX, 0]) g0 =
    Some (0, g0\<lparr>gh_snap := gh_snap g, gh_generation := gh_generation g\<rparr>)"
  using assms by (simp add: key_decode_tail_def take_u64_encode)

lemma decode_names:
  assumes "gh_ok g" and "gh_oid g0 = []" and "gh_key g0 = []"
  shows "key_decode_names
      ((let k = get_key g in if k \<noteq> gh_oid g then append_escaped k @ [if k > gh_oid g then 62 else 60] @ append_escaped (gh_oid g)
        else append_escaped (gh_oid g) @ [61]) @ key_encode_u64 (gh_snap g) @ key_encode_u64 (gh_generation g) @ [ONODE_KEY_SUFFIX, 0]) g0 =
    Some (0, g0\<lparr>gh_key := gh_key g, gh_oid := gh_oid g, gh_snap := gh_snap g, gh_generation := gh_generation g\<rparr>)"
proof -
  have tail: "gh_snap g < 2 ^ 64" "gh_generation g < 2 ^ 64" using assms(1) by (simp_all add: gh_ok_def)
  show ?thesis
  proof (cases "get_key g = gh_oid g")
    case True
    then have "gh_key g = []" using assms(1) by (auto simp: gh_ok_def get_key_def split: if_splits)
    then show ?thesis using True tail by (simp add: key_decode_names_def decode_escaped_append decode_tail)
  next
    case False
    then have "get_key g = gh_key g" by (auto simp: get_key_def split: if_splits)
    then show ?thesis using False tail assms(2) by (simp add: key_decode_names_def decode_escaped_append decode_tail Let_def)
  qed
qed

text \<open>
  C38: The key of an object says which object it is. For every object but the maximum, with the field \<open>key\<close> empty when it
  is the name, \<open>key_decode_object\<close> on the key that \<open>key_encode_object\<close> makes returns 0 and gives the object, whatever
  bytes the strings contain. Different objects therefore have different keys.
\<close>

theorem object_key_round_trip:
  assumes "gh_ok g"
  shows "key_decode_object (key_encode_object g) ghobject_new = Some (0, g)"
proof -
  define names where "names = (let k = get_key g in if k \<noteq> gh_oid g then append_escaped k @ [if k > gh_oid g then 62 else 60] @ append_escaped (gh_oid g)
        else append_escaped (gh_oid g) @ [61])"
  define tail where "tail = key_encode_u64 (gh_snap g) @ key_encode_u64 (gh_generation g) @ [ONODE_KEY_SUFFIX, 0]"
  have e: "key_encode_object g @ [0] = key_encode_prefix g @ append_escaped (gh_nspace g) @ names @ tail"
    by (simp add: key_encode_object_def names_def tail_def)
  have len: "\<not> length (key_encode_object g) < 13"
    by (simp add: key_encode_object_def key_encode_prefix_def key_encode_shard_def key_encode_u64_def key_encode_u32_def del: be_bytes.simps)
  let ?g = "ghobject_new\<lparr>gh_shard_id := gh_shard_id g, gh_pool := gh_pool g, gh_hash := gh_hash g\<rparr>"
  have p: "key_decode_prefix (key_encode_object g @ [0]) ghobject_new = Some (?g, append_escaped (gh_nspace g) @ names @ tail)"
    unfolding e using assms by (intro decode_prefix) (auto simp: gh_ok_def)
  have n: "key_decode_names (names @ tail) (?g\<lparr>gh_nspace := gh_nspace g\<rparr>) =
      Some (0, ?g\<lparr>gh_nspace := gh_nspace g, gh_key := gh_key g, gh_oid := gh_oid g, gh_snap := gh_snap g, gh_generation := gh_generation g\<rparr>)"
    unfolding names_def tail_def by (subst decode_names [OF assms]) (simp_all add: ghobject_new_def)
  have g: "?g\<lparr>gh_nspace := gh_nspace g, gh_key := gh_key g, gh_oid := gh_oid g, gh_snap := gh_snap g, gh_generation := gh_generation g\<rparr> = g"
    using assms by (cases g) (simp add: ghobject_new_def gh_ok_def)
  have "gh_nspace ?g = []" by (simp add: ghobject_new_def)
  then show ?thesis using p n len unfolding key_decode_object_def g by (simp add: decode_escaped_append)
qed

theorem object_key_round_trip_witness:
  "key_decode_object (key_encode_object (mk_ghobject (- 1) 0xdeadbeef [0, 33] [97, 126] [200, 35] 5 UINT64_MAX 2)) ghobject_new =
     Some (0, mk_ghobject (- 1) 0xdeadbeef [0, 33] [97, 126] [200, 35] 5 UINT64_MAX 2)"
  by (rule object_key_round_trip) (simp add: gh_ok_def mk_ghobject_def UINT64_MAX_def)

text \<open>
  The keys of objects do not sort like the objects: names with bytes above 127 are escaped like the lowest ones, and of
  two objects with the same locator key the one whose name is larger than that key has the smaller key.
\<close>

lemma object_key_order_differs:
  "gh_less (mk_ghobject 0 0 [] [] [97] 0 0 0) (mk_ghobject 0 0 [] [] [200] 0 0 0)"
  "key_encode_object (mk_ghobject 0 0 [] [] [200] 0 0 0) < key_encode_object (mk_ghobject 0 0 [] [] [97] 0 0 0)"
  "gh_less (mk_ghobject 0 0 [] [107] [97] 0 0 0) (mk_ghobject 0 0 [] [107] [122] 0 0 0)"
  "key_encode_object (mk_ghobject 0 0 [] [107] [122] 0 0 0) < key_encode_object (mk_ghobject 0 0 [] [107] [97] 0 0 0)"
  by (simp_all add: gh_less_def mk_ghobject_def get_key_def key_encode_object_def key_encode_prefix_def append_escaped_def key_esc_def hex_digit_def)

end
