(* ===== verification/Blob_Csum.thy ===== *)
theory Blob_Csum
  imports Blob_Refs
begin

unbundle bit_operations_syntax

text \<open>
  The checksums of a blob and its encoding: data is accepted as it was when its checksums were computed, a damaged
  chunk is reported at its offset, and blobs and trackers decode to what was encoded.
\<close>

section \<open>Checksums\<close>

definition crc_slot :: "bytes \<Rightarrow> nat \<Rightarrow> bytes" where
  "crc_slot cs j = take 4 (drop (j * 4) cs)"

lemma crc_slot_write:
  assumes "k * 4 + 4 \<le> length cs" and "length v = 4"
  shows "crc_slot (take (k * 4) cs @ v @ drop (k * 4 + 4) cs) j = (if j = k then v else crc_slot cs j)"
proof -
  have l: "length (take (k * 4) cs) = k * 4" using assms(1) by simp
  consider "j = k" | "j < k" | "k < j" by linarith
  then show ?thesis
  proof cases
    case 1
    then show ?thesis using assms by (simp add: crc_slot_def)
  next
    case 2
    define A where "A = take (k * 4 - j * 4) (drop (j * 4) cs)"
    have A: "4 \<le> length A" using 2 assms(1) by (simp add: A_def)
    have "drop (j * 4) (take (k * 4) cs @ v @ drop (k * 4 + 4) cs) = A @ v @ drop (k * 4 + 4) cs"
      using 2 assms(1) by (simp add: A_def drop_take)
    moreover have "take 4 A = take 4 (drop (j * 4) cs)" using 2 by (simp add: A_def)
    ultimately show ?thesis using 2 A by (simp add: crc_slot_def)
  next
    case 3
    then have "k * 4 + 4 + (j * 4 - (k * 4 + 4)) = j * 4" by linarith
    then have "drop (j * 4 - (k * 4 + 4)) (drop (k * 4 + 4) cs) = drop (j * 4) cs" by (simp add: add.commute)
    moreover have "drop (j * 4) (take (k * 4) cs @ v @ drop (k * 4 + 4) cs) = drop (j * 4 - (k * 4 + 4)) (drop (k * 4 + 4) cs)"
      using 3 assms by (simp add: drop_append l)
    ultimately show ?thesis using 3 by (simp add: crc_slot_def)
  qed
qed

abbreviation slot_at :: "u64 \<Rightarrow> u64 \<Rightarrow> nat \<Rightarrow> nat" where
  "slot_at chunk b_off i \<equiv> csum_index chunk b_off i"

lemma calc_loop_slots:
  assumes "calc_loop chunk 4 b_off d js cs = Some cs'" and "inj_on (slot_at chunk b_off) (set js)" and "distinct js"
  shows "length cs' = length cs \<and>
    (\<forall>i \<in> set js. slot_at chunk b_off i * 4 + 4 \<le> length cs \<and> crc_slot cs' (slot_at chunk b_off i) = le_bytes 4 (unat (chunk_crc chunk d i))) \<and>
    (\<forall>j. j \<notin> slot_at chunk b_off ` set js \<longrightarrow> crc_slot cs' j = crc_slot cs j)"
  using assms
proof (induction js arbitrary: cs)
  case Nil
  then show ?case by simp
next
  case (Cons i js)
  define k where "k = slot_at chunk b_off i"
  define cs1 where "cs1 = take (k * 4) cs @ le_bytes 4 (unat (chunk_crc chunk d i)) @ drop (k * 4 + 4) cs"
  have k: "k * 4 + 4 \<le> length cs" and r: "calc_loop chunk 4 b_off d js cs1 = Some cs'"
    using Cons.prems(1) by (auto simp: k_def [symmetric] cs1_def Let_def split: if_splits)
  have inj: "inj_on (slot_at chunk b_off) (set js)" "distinct js" "k \<notin> slot_at chunk b_off ` set js"
    using Cons.prems(2,3) by (auto simp: k_def)
  have len: "length cs1 = length cs" using k by (simp add: cs1_def)
  have slot: "crc_slot cs1 j = (if j = k then le_bytes 4 (unat (chunk_crc chunk d i)) else crc_slot cs j)" for j
    unfolding cs1_def by (rule crc_slot_write [OF k]) simp
  note IH = Cons.IH [OF r inj(1,2)]
  have "crc_slot cs' k = le_bytes 4 (unat (chunk_crc chunk d i))" using IH inj(3) slot [of k] by simp
  moreover have "crc_slot cs' j = crc_slot cs j" if "j \<notin> slot_at chunk b_off ` set (i # js)" for j
    using that IH slot [of j] by (auto simp: k_def)
  ultimately show ?case using IH k len by (simp add: k_def [symmetric])
qed

lemma stored_crc_slot: "at = j * 4 \<Longrightarrow> crc_slot cs j = le_bytes 4 (unat w) \<Longrightarrow> stored_crc junk 4 at cs = unat w" for w :: crc
  using unsigned_less [of w, where 'a = nat] by (simp add: stored_crc_def crc_slot_def)

text \<open>A chunk is good if the array has its checksum.\<close>

definition chunk_ok :: "u64 \<Rightarrow> u64 \<Rightarrow> bytes \<Rightarrow> bytes \<Rightarrow> nat \<Rightarrow> bool" where
  "chunk_ok chunk b_off cs d i \<longleftrightarrow>
     slot_at chunk b_off i * 4 + 4 \<le> length cs \<and> crc_slot cs (slot_at chunk b_off i) = le_bytes 4 (unat (chunk_crc chunk d i))"

lemma verify_loop_ok: "\<forall>i \<in> set js. chunk_ok chunk b_off cs d i \<Longrightarrow> verify_loop junk chunk 4 b_off d (js @ ks) cs = verify_loop junk chunk 4 b_off d ks cs"
  by (induction js) (auto simp: chunk_ok_def stored_crc_slot Let_def)

lemma verify_loop_bad:
  assumes "chunk_ok chunk b_off cs d i" and "chunk_crc chunk d' i \<noteq> chunk_crc chunk d i"
  shows "verify_loop junk chunk 4 b_off d' (i # js) cs = Some (signed_take_bit 31 (int (add64 b_off (i * chunk))))"
  using assms stored_crc_slot [OF refl, of cs "slot_at chunk b_off i" "chunk_crc chunk d i" "junk i"]
  by (simp add: chunk_ok_def Let_def unsigned_word_eqI word_unat_eq_iff)

lemma chunk_crc_spec: "chunk_crc chunk d i = crc_spec (take chunk (drop (i * chunk) d)) 0"
  by (simp add: chunk_crc_def calc_crc32_fold)

text \<open>A window of data that lies within chunk \<open>i\<close>.\<close>

lemma chunk_of_window:
  assumes "i * chunk \<le> length x" and "length x + length w \<le> i * chunk + chunk"
  shows "take chunk (drop (i * chunk) (x @ w @ y)) = drop (i * chunk) x @ w @ take (chunk - (length x - i * chunk) - length w) y"
  using assms by (simp add: drop_append)

lemma chunk_before_window: "j < i \<Longrightarrow> i * chunk \<le> length x \<Longrightarrow> take chunk (drop (j * chunk) (x @ w)) = take chunk (drop (j * chunk) x)"
proof -
  assume "j < i" and i: "i * chunk \<le> length x"
  then have "(j + 1) * chunk \<le> i * chunk" by (intro mult_right_mono) auto
  then show ?thesis using i by simp
qed

lemma csum_blob:
  assumes "has_csum b" and "bl_csum_type b = CSUM_CRC32C" and "get_chunk_size dev b = Some chunk" and "d \<noteq> []" and "chunk \<noteq> 0"
    and "b_off div chunk + length d div chunk \<le> 2 ^ 32" and "calc_csum b_off d dev b = Some b'" and "length d < 2 ^ 32"
  shows "\<forall>i < length d div chunk. chunk_ok chunk b_off (bl_csum b') d i"
    and "length d' = length d \<Longrightarrow> verify_csum junk b_off d' dev b' = verify_loop junk chunk 4 b_off d' [0..<length d div chunk] (bl_csum b')"
proof -
  have n: "length d div chunk mod 2 ^ 32 = length d div chunk"
    using assms(8) div_le_dividend [of "length d" chunk] by (intro mod_less) linarith
  have v: "csum_value_size CSUM_CRC32C = 4" by (simp add: csum_value_size_def csum_types)
  obtain cs where cs: "calc_loop chunk 4 b_off d [0..<length d div chunk] (bl_csum b) = Some cs" "b' = b\<lparr>bl_csum := cs\<rparr>"
    using assms(1-5,7) n v by (auto simp: calc_csum_def)
  have "slot_at chunk b_off i = b_off div chunk + i" if "i < length d div chunk" for i
    using that assms(6) by (simp add: csum_index_def)
  then have "inj_on (slot_at chunk b_off) (set [0..<length d div chunk])" by (auto simp: inj_on_def)
  from calc_loop_slots [OF cs(1) this] show "\<forall>i < length d div chunk. chunk_ok chunk b_off (bl_csum b') d i"
    by (simp add: chunk_ok_def cs(2))
  have "get_chunk_size dev b' = Some chunk" "has_csum b'" using assms(1,3) cs(2) by (auto simp: get_chunk_size_def get_csum_chunk_size_def has_flag_def split: if_splits)
  then show "verify_csum junk b_off d' dev b' = verify_loop junk chunk 4 b_off d' [0..<length d div chunk] (bl_csum b')" if "length d' = length d"
    using that assms(2,4,5) n v cs(2) by (auto simp: verify_csum_def)
qed

text \<open>
  C36: Checksums of blobs of type \<open>CSUM_CRC32C\<close>, four bytes per chunk. Data verifies against the checksums that were computed
  of it, whatever the uninitialised variable holds, and data that differs from it only in a window of at most four
  consecutive bytes within one chunk is rejected with the offset of that chunk. The types of one and two bytes are not
  covered: for them \<open>verify_csum\<close> compares uninitialised bytes.
\<close>

theorem csum_accepts_and_detects:
  assumes "has_csum b" and "bl_csum_type b = CSUM_CRC32C" and "get_chunk_size dev b = Some chunk" and "chunk \<noteq> 0"
    and "d = x @ w @ y" and "d \<noteq> []" and "length d < 2 ^ 32" and "b_off div chunk + length d div chunk \<le> 2 ^ 32"
    and "calc_csum b_off d dev b = Some b'"
    and "i < length d div chunk" and "i * chunk \<le> length x" and "length x + length w \<le> i * chunk + chunk"
    and "length w' = length w" and "length w \<le> 4" and "w' \<noteq> w"
  shows "verify_csum junk b_off d dev b' = Some (- 1) \<and>
    verify_csum junk b_off (x @ w' @ y) dev b' = Some (signed_take_bit 31 (int (add64 b_off (i * chunk))))"
proof
  let ?n = "length d div chunk" and ?d' = "x @ w' @ y"
  note cb = csum_blob [OF assms(1-3,6,4,8,9,7)]
  have ok: "\<forall>i < ?n. chunk_ok chunk b_off (bl_csum b') d i" by (rule cb(1))
  show "verify_csum junk b_off d dev b' = Some (- 1)"
    using cb(2) [of d junk] verify_loop_ok [of "[0..<?n]" chunk b_off "bl_csum b'" d junk "[]"] ok by simp
  have "chunk_crc chunk ?d' j = chunk_crc chunk d j" if "j < i" for j
    unfolding chunk_crc_spec assms(5) chunk_before_window [OF that assms(11)] ..
  then have "\<forall>j \<in> set [0..<i]. chunk_ok chunk b_off (bl_csum b') ?d' j" using ok assms(10) by (auto simp: chunk_ok_def)
  moreover have "[0..<?n] = [0..<i] @ i # [Suc i..<?n]" using assms(10) upt_add_eq_append [of 0 i "?n - i"] by (simp add: upt_conv_Cons)
  moreover have "chunk_crc chunk ?d' i \<noteq> chunk_crc chunk d i"
    unfolding chunk_crc_spec assms(5) using chunk_of_window [OF assms(11), of w y] chunk_of_window [OF assms(11), of w' y] assms(12-15)
    by (simp add: crc_burst)
  ultimately show "verify_csum junk b_off ?d' dev b' = Some (signed_take_bit 31 (int (add64 b_off (i * chunk))))"
    using cb(2) [of ?d' junk] verify_loop_ok [of "[0..<i]" chunk b_off "bl_csum b'" ?d' junk] verify_loop_bad [of chunk b_off "bl_csum b'" d i ?d' junk] ok assms(5,10,13)
    by simp
qed

text \<open>Two chunks of four bytes, and a byte of the second one damaged.\<close>

theorem csum_accepts_and_detects_witness:
  "\<exists>b'. calc_csum 8 [1, 2, 3, 4, 5, 6, 7, 8] 4 (bblob_new\<lparr>bl_flags := 4, bl_csum_type := CSUM_CRC32C, bl_csum_order := 2, bl_csum := replicate 16 0\<rparr>) = Some b' \<and>
     verify_csum (\<lambda>i. 77) 8 [1, 2, 3, 4, 5, 6, 7, 8] 4 b' = Some (- 1) \<and>
     verify_csum (\<lambda>i. 77) 8 [1, 2, 3, 4, 5, 0, 7, 8] 4 b' = Some 12"
proof -
  let ?b = "bblob_new\<lparr>bl_flags := 4, bl_csum_type := CSUM_CRC32C, bl_csum_order := 2, bl_csum := replicate 16 0\<rparr>"
  let ?d = "[1, 2, 3, 4, 5, 6, 7, 8] :: bytes"
  have c: "get_chunk_size 4 ?b = Some 4" "has_csum ?b" by (simp_all add: get_chunk_size_def get_csum_chunk_size_def has_flag_def FLAG_CSUM_def)
  have "csum_value_size CSUM_CRC32C = 4" by (simp add: csum_value_size_def csum_types)
  moreover have "[0..<2] = [0, 1 :: nat]" by (simp add: upt_rec)
  ultimately have "\<exists>b'. calc_csum 8 ?d 4 ?b = Some b'" using c by (simp add: calc_csum_def csum_index_def Let_def)
  then obtain b' where b': "calc_csum 8 ?d 4 ?b = Some b'" by blast
  have "verify_csum (\<lambda>i. 77) 8 ?d 4 b' = Some (- 1) \<and>
      verify_csum (\<lambda>i. 77) 8 ([1, 2, 3, 4, 5] @ [0] @ [7, 8]) 4 b' = Some (signed_take_bit 31 (int (add64 8 (1 * 4))))"
    by (rule csum_accepts_and_detects [OF c(2) _ c(1) _ _ _ _ _ b', where w = "[6]"]) simp_all
  then show ?thesis using b' by (simp add: add64_def)
qed

section \<open>Encodings\<close>

interpretation u16: codec enc_u16 dec_u16 "\<lambda>v. v < 2 ^ 16" "\<lambda>v. 2"
  by unfold_locales (simp_all add: enc_u16_def dec_u16_def dec_bytes_append)

definition tracker_ok :: "tracker \<Rightarrow> bool" where
  "tracker_ok t \<longleftrightarrow>
     tr_au t < 2 ^ 32 \<and> length (tr_bytes t) < 2 ^ 32 \<and> (\<forall>b \<in> set (tr_bytes t). b < 2 ^ 32) \<and> tr_total t < 2 ^ 32 \<and>
     (tr_bytes t \<noteq> [] \<longrightarrow> tr_total t = 0) \<and> (tr_au t = 0 \<longrightarrow> t = tr_new)"

interpretation tracker: codec enc_tracker dec_tracker tracker_ok bound_tracker
proof
  fix t :: tracker
  assume ok: "tracker_ok t"
  show "dec_tracker (enc_tracker t @ q) = Inr (t, q)" for q
    using ok u32.items_round_trip [of "tr_bytes t" q]
    by (auto simp: tracker_ok_def enc_tracker_def dec_tracker_def u32.round_trip tr_new_def)
  have "length (concat (map enc_u32 bs)) = 4 * length bs" for bs by (induction bs) (simp_all add: enc_u32_def)
  then show "length (enc_tracker t) \<le> bound_tracker t" by (simp add: enc_tracker_def bound_tracker_def) (simp add: enc_u32_def)
qed

definition blob_ok :: "bblob \<Rightarrow> bool" where
  "blob_ok b \<longleftrightarrow>
     length (bl_extents b) < 2 ^ 32 \<and> (\<forall>e \<in> set (bl_extents b). fst e < 2 ^ 64 \<and> snd e < 2 ^ 32) \<and>
     bl_length b < 2 ^ 32 \<and> bl_flags b < 2 ^ 32 \<and> bl_csum_type b < 2 ^ 8 \<and> bl_csum_order b < 2 ^ 8 \<and>
     length (bl_csum b) < 2 ^ 32 \<and> bl_unused b < 2 ^ 16 \<and>
     (\<not> has_csum b \<longrightarrow> bl_csum_type b = CSUM_NONE \<and> bl_csum_order b = 0 \<and> bl_csum b = []) \<and> (\<not> has_unused b \<longrightarrow> bl_unused b = 0)"

interpretation blob_fields: codec blob_body dec_blob_body blob_ok bound_blob_body
proof
  fix b :: bblob
  assume ok: "blob_ok b"
  let ?b = "bblob_new\<lparr>bl_extents := bl_extents b, bl_length := bl_length b, bl_flags := bl_flags b\<rparr>"
  let ?c = "?b\<lparr>bl_csum_type := bl_csum_type b, bl_csum_order := bl_csum_order b, bl_csum := bl_csum b\<rparr>"
  let ?u = "if has_unused b then enc_u16 (bl_unused b) else []"
  have fl: "has_csum ?b = has_csum b" "has_unused ?c = has_unused b" by (simp_all add: has_flag_def)
  have c: "dec_blob_csum ?b ((if has_csum b then enc_u8 (bl_csum_type b) @ enc_u8 (bl_csum_order b) @ enc_string (bl_csum b) else []) @ q) = Inr (?c, q)" for q
    using ok fl by (auto simp: dec_blob_csum_def blob_ok_def u8.round_trip str.round_trip bblob_new_def)
  have u: "dec_blob_unused ?c (?u @ q) = Inr (b, q)" for q
    using ok fl by (auto simp: dec_blob_unused_def blob_ok_def u16.round_trip bblob_new_def)
  have es: "length (bl_extents b) < 2 ^ 32 \<and> (\<forall>e \<in> set (bl_extents b). fst e < 2 ^ 64 \<and> snd e < 2 ^ 32)" using ok by (simp add: blob_ok_def)
  show "dec_blob_body (blob_body b @ q) = Inr (b, q)" for q
    using ok c [of "?u @ q"] u [of q] by (simp add: dec_blob_body_def blob_body_def pextents.round_trip [OF es] u32.round_trip blob_ok_def)
  show "length (blob_body b) \<le> bound_blob_body b"
    using pextents.fits [OF es] by (simp add: blob_body_def bound_blob_body_def enc_u8_def enc_u16_def enc_u32_def enc_string_def bound_string_def)
qed

text \<open>
  A blob decodes to itself. What its object keeps beside it, the tracker, is not part of the encoding.
\<close>

lemma blob_round_trip:
  assumes "blob_ok b" and "length (blob_body b) < 2 ^ 32"
  shows "dec_blob (enc_blob b @ q) = Inr (b, q)"
  unfolding enc_blob_def dec_blob_def by (rule blob_fields.struct_round_trip [OF assms]) simp_all

end
