(* ===== verification/Lextent_Map.thy ===== *)
theory Lextent_Map
  imports Blob
begin

text \<open>
  The logical extents of an object (\<^verbatim>\<open>bluestore/extent_map.h\<close>, \<^verbatim>\<open>bluestore/extent_map.cc\<close>): which part of which blob
  holds which part of the object. \<open>punch_hole\<close> removes a range and reports what it removed, \<open>set_lextent\<close> replaces a
  range, \<open>compress_extent_map\<close> joins neighbours.

  The \<open>std::set\<close>, ordered by logical offset, is the sorted list of its elements and an iterator is an index, the
  length of the list being the end. A blob pointer is an address in a store of blobs, \<open>None\<close> the null pointer.
\<close>

section \<open>Extents\<close>

type_synonym blob_ref = "nat option"

record lextent =
  lx_lo :: u32
  lx_bo :: u32
  lx_len :: u32
  lx_blob :: blob_ref

definition mk_lextent :: "u32 \<Rightarrow> u32 \<Rightarrow> u32 \<Rightarrow> blob_ref \<Rightarrow> lextent" where
  "mk_lextent lo bo l b = \<lparr>lx_lo = lo, lx_bo = bo, lx_len = l, lx_blob = b\<rparr>"

lemma mk_lextent_sel [simp]:
  "lx_lo (mk_lextent lo bo l b) = lo" "lx_bo (mk_lextent lo bo l b) = bo" "lx_len (mk_lextent lo bo l b) = l" "lx_blob (mk_lextent lo bo l b) = b"
  by (simp_all add: mk_lextent_def)

definition logical_end :: "lextent \<Rightarrow> u32" where
  "logical_end e = add32 (lx_lo e) (lx_len e)"

definition blob_start :: "lextent \<Rightarrow> u32" where
  "blob_start e = sub32 (lx_lo e) (lx_bo e)"

definition blob_end :: "bblob \<Rightarrow> lextent \<Rightarrow> u32" where
  "blob_end b e = add32 (blob_start e) (bl_length b)"

definition blob_escapes_range :: "bblob \<Rightarrow> u32 \<Rightarrow> u32 \<Rightarrow> lextent \<Rightarrow> bool" where
  "blob_escapes_range b off len e \<longleftrightarrow> blob_start e < off \<or> blob_end b e > add32 off len"

section \<open>Operations\<close>

type_synonym lextents = "lextent list"

definition lower_bound :: "u32 \<Rightarrow> lextents \<Rightarrow> nat" where
  "lower_bound key m = length (takeWhile (\<lambda>e. lx_lo e < key) m)"

definition seek_lextent :: "u64 \<Rightarrow> lextents \<Rightarrow> nat" where
  "seek_lextent offset m =
     (let i = lower_bound (add64 offset 1 mod 2 ^ 32) m
      in if i = 0 then length m
         else if logical_end (m ! (i - 1)) > offset then i - 1
         else length m)"

text \<open>\<open>insert\<close> keeps an element with the same key.\<close>

fun lx_add :: "lextent \<Rightarrow> lextents \<Rightarrow> lextents" where
  "lx_add e [] = [e]"
| "lx_add e (x # m) = (if lx_lo e < lx_lo x then e # x # m else if lx_lo e = lx_lo x then x # m else x # lx_add e m)"

definition lx_rm :: "nat \<Rightarrow> lextents \<Rightarrow> lextents" where
  "lx_rm i m = take i m @ drop (Suc i) m"

text \<open>The iterator from which the loop of \<open>punch_hole\<close> continues.\<close>

definition punch_from :: "u64 \<Rightarrow> lextents \<Rightarrow> nat" where
  "punch_from offset m = (let i = seek_lextent offset m in if i = length m then 0 else i)"

definition punched :: "u64 \<Rightarrow> u64 \<Rightarrow> lextent \<Rightarrow> lextent" where
  "punched offset en e =
     (let lo = max (lx_lo e) offset; hi = min (logical_end e) en
      in mk_lextent (lo mod 2 ^ 32) (add64 (lx_bo e) (sub64 lo (lx_lo e)) mod 2 ^ 32) (sub64 hi lo mod 2 ^ 32) (lx_blob e))"

definition punch_head :: "u64 \<Rightarrow> lextent \<Rightarrow> lextent" where
  "punch_head offset e = mk_lextent (lx_lo e) (lx_bo e) (sub64 offset (lx_lo e) mod 2 ^ 32) (lx_blob e)"

definition punch_tail :: "u64 \<Rightarrow> lextent \<Rightarrow> lextent" where
  "punch_tail en e =
     mk_lextent (en mod 2 ^ 32) (add64 (lx_bo e) (sub64 en (lx_lo e)) mod 2 ^ 32) (sub64 (logical_end e) en mod 2 ^ 32) (lx_blob e)"

lemma lx_add_length: "length (lx_add e m) \<le> Suc (length m)"
  by (induction m) auto

lemma lx_add_filter: "length (filter P (lx_add e m)) \<le> length (filter P m) + (if P e then 1 else 0)"
  by (induction m) auto

lemma lx_rm_length: "i < length m \<Longrightarrow> Suc (length (lx_rm i m)) = length m"
  by (simp add: lx_rm_def)

lemma lx_rm_filter: "i < length m \<Longrightarrow> length (filter P (lx_rm i m)) + (if P (m ! i) then 1 else 0) = length (filter P m)"
proof -
  assume i: "i < length m"
  have "filter P m = filter P (take i m) @ filter P (m ! i # drop (Suc i) m)" by (metis id_take_nth_drop [OF i] filter_append)
  then show ?thesis by (simp add: lx_rm_def)
qed

lemma punch_head_end:
  assumes "lx_lo e < offset" and "offset < logical_end e"
  shows "logical_end (punch_head offset e) = offset"
proof -
  have "offset < 2 ^ 32" using assms(2) add32_less [of "lx_lo e" "lx_len e"] by (simp add: logical_end_def)
  then show ?thesis using assms(1) by (simp add: logical_end_def punch_head_def sub64_exact add32_exact)
qed

function punch_loop :: "u64 \<Rightarrow> u64 \<Rightarrow> nat \<Rightarrow> lextents \<Rightarrow> lextents \<Rightarrow> lextents \<times> lextents" where
  "punch_loop offset en i m old =
     (if i < length m then
        let e = m ! i
        in if lx_lo e \<ge> en then (m, old)
           else if logical_end e \<le> offset then punch_loop offset en (Suc i) m old
           else
             let old1 = old @ [punched offset en e]; m0 = lx_rm i m
             in if lx_lo e < offset \<and> logical_end e > en then (lx_add (punch_tail en e) (lx_add (punch_head offset e) m0), old1)
                else if lx_lo e < offset then
                  let m1 = lx_add (punch_head offset e) m0 in punch_loop offset en (punch_from offset m1) m1 old1
                else if logical_end e > en then (lx_add (punch_tail en e) m0, old1)
                else punch_loop offset en (punch_from offset m0) m0 old1
      else (m, old))"
  by pat_completeness auto
termination
proof (relation "inv_image (less_than <*lex*> less_than)
    (\<lambda>(offset, en, i, m, old). (length m + length (filter (\<lambda>e. logical_end e > offset) m), length m - i))", goal_cases)
  case (3 offset en i m old e old1 m0 m1)
  define P where "P = (\<lambda>e. logical_end e > offset)"
  have "length m1 \<le> Suc (length m0)" using lx_add_length [of "punch_head offset e" m0] 3 by simp
  moreover have "Suc (length m0) = length m" using lx_rm_length [of i m] 3 by simp
  moreover have "\<not> P (punch_head offset e)" "P (m ! i)" using 3 punch_head_end [of e offset] by (auto simp: P_def)
  then have "length (filter P m1) \<le> length (filter P m0)" "length (filter P m0) + 1 = length (filter P m)"
    using 3 lx_add_filter [of P "punch_head offset e" m0] lx_rm_filter [of i m P] by auto
  ultimately show ?case by (simp add: P_def)
next
  case (4 offset en i m old e old1 m0)
  define P where "P = (\<lambda>e. logical_end e > offset)"
  have "Suc (length m0) = length m" "length (filter P m0) \<le> length (filter P m)"
    using 4 lx_rm_length lx_rm_filter [of i m P] by auto
  then show ?case by (simp add: P_def)
qed auto

declare punch_loop.simps [simp del]

definition punch_hole :: "u64 \<Rightarrow> u64 \<Rightarrow> lextents \<Rightarrow> lextents \<Rightarrow> lextents \<times> lextents" where
  "punch_hole offset len m old = punch_loop offset (add64 offset len) (punch_from offset m) m old"

fun has_any_lextents :: "u64 \<Rightarrow> u64 \<Rightarrow> lextents \<Rightarrow> bool" where
  "has_any_lextents offset len [] = False"
| "has_any_lextents offset len (e # m) =
     (if lx_lo e \<ge> add64 offset len then False
      else if logical_end e \<le> offset then has_any_lextents offset len m
      else True)"

text \<open>
  The loop of \<open>compress_extent_map\<close> over the extents of the blob: the physical address of blob offset \<open>x\<close>, zero
  when no extent contains it. The code computes it for the end of an extent and for the start of the next in one pass.
\<close>

fun phys_loop :: "u32 \<Rightarrow> u32 \<Rightarrow> u64 \<Rightarrow> (u64 \<times> u32) list \<Rightarrow> u64" where
  "phys_loop x blob_off phys [] = phys"
| "phys_loop x blob_off phys (e # es) =
     phys_loop x (add32 blob_off (snd e))
       (if blob_off \<le> x \<and> x < add32 blob_off (snd e) then add64 (fst e) (x - blob_off) else phys) es"

definition joinable :: "lextent \<Rightarrow> lextent \<Rightarrow> bool" where
  "joinable e f \<longleftrightarrow> logical_end e = lx_lo f \<and> lx_blob e = lx_blob f \<and> add32 (lx_bo e) (lx_len e) = lx_bo f"

definition joined :: "lextent \<Rightarrow> lextent \<Rightarrow> lextent" where
  "joined e f = mk_lextent (lx_lo e) (lx_bo e) (add32 (lx_len e) (lx_len f)) (lx_blob e)"

type_synonym blob_store = "nat \<Rightarrow> blob_obj option"

function compress_loop :: "blob_store \<Rightarrow> u64 \<Rightarrow> u64 \<Rightarrow> nat \<Rightarrow> lextents \<Rightarrow> nat \<Rightarrow> (nat \<times> lextents) option" where
  "compress_loop S offset len i m compressed =
     (if i < length m then
        let e = m ! i
        in if lx_lo e \<ge> add64 offset len then Some (compressed, m)
           else if logical_end e \<le> offset then compress_loop S offset len (Suc i) m compressed
           else if Suc i = length m then Some (compressed, m)
           else
             let f = m ! Suc i
             in if joinable e f then
                  case lx_blob e of
                    None \<Rightarrow> None
                  | Some a \<Rightarrow>
                      (case S a of
                         None \<Rightarrow> None
                       | Some B \<Rightarrow>
                           let es = bl_extents (bo_blob B)
                           in if phys_loop (add32 (lx_bo e) (lx_len e)) 0 0 es \<noteq> phys_loop (lx_bo f) 0 0 es
                              then compress_loop S offset len (Suc i) m compressed
                              else compress_loop S offset len 0 (lx_add (joined e f) (lx_rm i (lx_rm i m))) (Suc compressed))
                else compress_loop S offset len (Suc i) m compressed
      else Some (compressed, m))"
  by pat_completeness auto
termination
proof (relation "inv_image (less_than <*lex*> less_than) (\<lambda>(S, offset, len, i, m, compressed). (length m, length m - i))", goal_cases)
  case (4 S offset len i m compressed e f a B es)
  have "Suc i < length m" using 4 by auto
  then have "Suc (Suc (length (lx_rm i (lx_rm i m)))) = length m" using lx_rm_length [of i m] lx_rm_length [of i "lx_rm i m"] by simp
  then show ?case using lx_add_length [of "joined e f" "lx_rm i (lx_rm i m)"] by auto
qed auto

declare compress_loop.simps [simp del]

definition compress_extent_map :: "blob_store \<Rightarrow> u64 \<Rightarrow> u64 \<Rightarrow> lextents \<Rightarrow> (nat \<times> lextents) option" where
  "compress_extent_map S offset len m = compress_loop S offset len 0 m 0"

text \<open>
  \<open>set_lextent\<close>, with the vector of removed extents or without one. The new extent is not inserted when one with
  its logical offset is there.
\<close>

definition set_lextent ::
  "u32 \<Rightarrow> u32 \<Rightarrow> u32 \<Rightarrow> nat \<Rightarrow> u64 \<Rightarrow> lextents option \<Rightarrow> blob_store \<times> lextents \<Rightarrow> (lextents option \<times> blob_store \<times> lextents) option" where
  "set_lextent lo bo len a min_alloc_size old s =
     (case s of (S, m) \<Rightarrow>
        (case old of
           None \<Rightarrow> Some (None, S, lx_add (mk_lextent lo bo len (Some a)) m)
         | Some old0 \<Rightarrow>
             do {
               B \<leftarrow> S a;
               B1 \<leftarrow> get_ref bo len (min_alloc_size mod 2 ^ 32) B;
               let (m1, old1) = punch_hole lo len m old0;
               Some (Some old1, S(a \<mapsto> B1), lx_add (mk_lextent lo bo len (Some a)) m1)
             }))"

end
