(* ===== verification/Lextent_Space.thy ===== *)
theory Lextent_Space
  imports Lextent_Map
begin

text \<open>
  What an extent map means: the set of its points, each an offset of the object with the blob and the blob offset that
  hold it. Punching a hole removes the points of the hole and reports exactly these; joining neighbours keeps all
  points.
\<close>

section \<open>Points\<close>

definition lx_pts :: "lextent \<Rightarrow> (nat \<times> blob_ref \<times> nat) set" where
  "lx_pts e = {p. lx_lo e \<le> fst p \<and> fst p < lx_lo e + lx_len e \<and> snd p = (lx_blob e, lx_bo e + (fst p - lx_lo e))}"

definition lx_cover :: "lextents \<Rightarrow> (nat \<times> blob_ref \<times> nat) set" where
  "lx_cover m = (\<Union>e \<in> set m. lx_pts e)"

lemma pts_range: "p \<in> lx_pts e \<Longrightarrow> lx_lo e \<le> fst p \<and> fst p < lx_lo e + lx_len e"
  by (simp add: lx_pts_def)

lemma lx_cover_simps [simp]: "lx_cover [] = {}" "lx_cover (e # m) = lx_pts e \<union> lx_cover m" "lx_cover (m @ n) = lx_cover m \<union> lx_cover n"
  by (auto simp: lx_cover_def)

definition lx_ok :: "lextent \<Rightarrow> bool" where
  "lx_ok e \<longleftrightarrow> 0 < lx_len e \<and> lx_lo e + lx_len e < 2 ^ 32 \<and> lx_bo e + lx_len e < 2 ^ 32"

definition lx_before :: "lextent \<Rightarrow> lextent \<Rightarrow> bool" where
  "lx_before e f \<longleftrightarrow> lx_lo e + lx_len e \<le> lx_lo f"

definition lx_wf :: "lextents \<Rightarrow> bool" where
  "lx_wf m \<longleftrightarrow> sorted_wrt lx_before m \<and> (\<forall>e \<in> set m. lx_ok e)"

lemma logical_end_ok: "lx_ok e \<Longrightarrow> logical_end e = lx_lo e + lx_len e"
  by (simp add: logical_end_def lx_ok_def add32_exact)

lemma lx_wf_append: "lx_wf (m @ n) \<longleftrightarrow> lx_wf m \<and> lx_wf n \<and> (\<forall>e \<in> set m. \<forall>f \<in> set n. lx_before e f)"
  by (auto simp: lx_wf_def sorted_wrt_append)

lemma lx_wf_Cons: "lx_wf (e # m) \<longleftrightarrow> lx_ok e \<and> lx_wf m \<and> (\<forall>f \<in> set m. lx_before e f)"
  by (auto simp: lx_wf_def)

text \<open>In a well-formed map each offset has at most one point.\<close>

lemma lx_cover_functional:
  assumes "lx_wf m" and "(x, b, y) \<in> lx_cover m" and "(x, b', y') \<in> lx_cover m"
  shows "b = b' \<and> y = y'"
  using assms
proof (induction m)
  case (Cons e m)
  have "lx_lo e + lx_len e \<le> x" if "(x, c, z) \<in> lx_cover m" for c z
    using that Cons.prems(1) by (fastforce simp: lx_cover_def lx_pts_def lx_wf_Cons lx_before_def)
  then show ?case using Cons by (fastforce simp: lx_pts_def lx_wf_Cons)
qed simp

section \<open>Cutting an extent\<close>

abbreviation in_hole :: "nat \<Rightarrow> nat \<Rightarrow> nat \<times> 'a \<Rightarrow> bool" where
  "in_hole off en p \<equiv> off \<le> fst p \<and> fst p < en"

lemma cut_facts:
  assumes "lx_ok e" and "off < logical_end e" and "lx_lo e < en" and "off \<le> en" and "en < 2 ^ 64"
  shows "lx_pts (punched off en e) = {p \<in> lx_pts e. in_hole off en p}"
proof -
  have bounds: "lx_lo e + lx_len e < 2 ^ 32" "lx_bo e + lx_len e < 2 ^ 32" "off < lx_lo e + lx_len e"
    using assms(1,2) by (simp_all add: lx_ok_def logical_end_ok)
  define lo hi where "lo = max (lx_lo e) off" and "hi = min (lx_lo e + lx_len e) en"
  have lohi: "lx_lo e \<le> lo" "lo \<le> hi" "hi \<le> lx_lo e + lx_len e" using assms(3,4) bounds by (auto simp: lo_def hi_def)
  have s: "sub64 lo (lx_lo e) = lo - lx_lo e" "sub64 hi lo = hi - lo" using lohi bounds by (simp_all add: sub64_exact)
  have "add64 (lx_bo e) (lo - lx_lo e) = lx_bo e + (lo - lx_lo e)" using lohi bounds by (simp add: add64_exact)
  then have "punched off en e = mk_lextent lo (lx_bo e + (lo - lx_lo e)) (hi - lo) (lx_blob e)"
    using s lohi bounds by (simp add: punched_def Let_def logical_end_ok [OF assms(1)] lo_def [symmetric] hi_def [symmetric])
  then show ?thesis using lohi unfolding lx_pts_def by (auto simp: lo_def hi_def)
qed

lemma head_facts:
  assumes "lx_ok e" and "lx_lo e < off" and "off < logical_end e"
  shows "lx_pts (punch_head off e) = {p \<in> lx_pts e. fst p < off}" and "lx_ok (punch_head off e)"
    and "lx_lo (punch_head off e) = lx_lo e" and "lx_lo (punch_head off e) + lx_len (punch_head off e) = off"
proof -
  have "lx_lo e + lx_len e < 2 ^ 32" "lx_bo e + lx_len e < 2 ^ 32" "off < lx_lo e + lx_len e"
    using assms(1,3) by (simp_all add: lx_ok_def logical_end_ok)
  moreover from this have "punch_head off e = mk_lextent (lx_lo e) (lx_bo e) (off - lx_lo e) (lx_blob e)"
    using assms(2) by (simp add: punch_head_def sub64_exact)
  ultimately show "lx_pts (punch_head off e) = {p \<in> lx_pts e. fst p < off}" "lx_ok (punch_head off e)"
    "lx_lo (punch_head off e) = lx_lo e" "lx_lo (punch_head off e) + lx_len (punch_head off e) = off"
    using assms(2) by (auto simp: lx_pts_def lx_ok_def)
qed

lemma tail_facts:
  assumes "lx_ok e" and "lx_lo e < en" and "en < logical_end e"
  shows "lx_pts (punch_tail en e) = {p \<in> lx_pts e. en \<le> fst p}" and "lx_ok (punch_tail en e)"
    and "lx_lo (punch_tail en e) = en" and "lx_lo (punch_tail en e) + lx_len (punch_tail en e) = lx_lo e + lx_len e"
proof -
  have b: "lx_lo e + lx_len e < 2 ^ 32" "lx_bo e + lx_len e < 2 ^ 32" "en < lx_lo e + lx_len e"
    using assms(1,3) by (simp_all add: lx_ok_def logical_end_ok)
  then have "sub64 en (lx_lo e) = en - lx_lo e" "sub64 (logical_end e) en = lx_lo e + lx_len e - en"
    "add64 (lx_bo e) (en - lx_lo e) = lx_bo e + (en - lx_lo e)"
    using assms(1,2) by (simp_all add: sub64_exact add64_exact logical_end_ok)
  then have "punch_tail en e = mk_lextent en (lx_bo e + (en - lx_lo e)) (lx_lo e + lx_len e - en) (lx_blob e)"
    using assms(2) b by (simp add: punch_tail_def)
  then show "lx_pts (punch_tail en e) = {p \<in> lx_pts e. en \<le> fst p}" "lx_ok (punch_tail en e)"
    "lx_lo (punch_tail en e) = en" "lx_lo (punch_tail en e) + lx_len (punch_tail en e) = lx_lo e + lx_len e"
    using assms(2) b by (auto simp: lx_pts_def lx_ok_def)
qed

section \<open>The list\<close>

lemma lx_add_between: "\<forall>x \<in> set xs. lx_lo x < lx_lo e \<Longrightarrow> \<forall>y \<in> set ys. lx_lo e < lx_lo y \<Longrightarrow> lx_add e (xs @ ys) = xs @ e # ys"
  by (induction xs) (cases ys, auto)

lemma lx_rm_at: "length xs = i \<Longrightarrow> lx_rm i (xs @ e # ys) = xs @ ys"
  by (auto simp: lx_rm_def)

lemma nth_split: "i < length m \<Longrightarrow> \<exists>xs ys. m = xs @ m ! i # ys \<and> length xs = i"
  using id_take_nth_drop [of i m] by (intro exI [of _ "take i m"] exI [of _ "drop (Suc i) m"]) simp

lemma nth_split2: "Suc i < length m \<Longrightarrow> \<exists>xs ys. m = xs @ m ! i # m ! Suc i # ys \<and> length xs = i"
proof -
  assume i: "Suc i < length m"
  then have "take i m @ m ! i # m ! Suc i # drop (Suc (Suc i)) m = m" by (simp add: Cons_nth_drop_Suc)
  moreover have "length (take i m) = i" using i by simp
  ultimately show ?thesis by metis
qed

lemma wf_nth_lo: "lx_wf m \<Longrightarrow> i \<le> j \<Longrightarrow> j < length m \<Longrightarrow> lx_lo (m ! i) \<le> lx_lo (m ! j)"
proof (cases "i = j")
  case False
  assume "lx_wf m" "i \<le> j" "j < length m"
  then have "lx_before (m ! i) (m ! j)" using False by (simp add: lx_wf_def sorted_wrt_iff_nth_less)
  then show ?thesis by (simp add: lx_before_def)
qed simp

lemma wf_lo: "lx_wf (xs @ e # ys) \<Longrightarrow> (\<forall>x \<in> set xs. lx_lo x < lx_lo e) \<and> (\<forall>y \<in> set ys. lx_lo e < lx_lo y)"
proof -
  assume wf: "lx_wf (xs @ e # ys)"
  have ok: "0 < lx_len x" if "x \<in> set (xs @ e # ys)" for x using wf that unfolding lx_wf_def lx_ok_def by blast
  have "lx_lo x < lx_lo e" if "x \<in> set xs" for x using wf that ok [of x] by (force simp: lx_wf_append lx_before_def)
  moreover have "lx_lo e < lx_lo y" if "y \<in> set ys" for y using wf that ok [of e] by (force simp: lx_wf_append lx_wf_Cons lx_before_def)
  ultimately show ?thesis by blast
qed

text \<open>Replacing an extent by one with the same offset that ends no later keeps the order.\<close>

lemma wf_replace:
  assumes "lx_wf (xs @ e # ys)" and "lx_ok f" and "lx_lo e \<le> lx_lo f" and "lx_lo f + lx_len f \<le> lx_lo e + lx_len e"
  shows "lx_wf (xs @ f # ys)"
  using assms by (fastforce simp: lx_wf_append lx_wf_Cons lx_before_def)

lemma wf_remove: "lx_wf (xs @ e # ys) \<Longrightarrow> lx_wf (xs @ ys)"
  by (simp add: lx_wf_append lx_wf_Cons)

lemma lower_bound_split: "lower_bound key m \<le> length m \<and> (\<forall>j < lower_bound key m. lx_lo (m ! j) < key)"
  unfolding lower_bound_def by (metis length_takeWhile_le nth_mem set_takeWhileD takeWhile_nth)

lemma seek_found:
  assumes "lx_wf m" and "seek_lextent off m = r" and "r < length m"
  shows "lx_lo (m ! r) \<le> off \<and> off < logical_end (m ! r)"
proof -
  define i where "i = lower_bound (add64 off 1 mod 2 ^ 32) m"
  have i: "i \<noteq> 0" "r = i - 1" "off < logical_end (m ! r)"
    using assms(2,3) unfolding seek_lextent_def Let_def i_def [symmetric] by (auto split: if_splits)
  have "lx_ok (m ! r)" using assms(1,3) by (simp add: lx_wf_def)
  then have "off + 1 < 2 ^ 32" using i(3) by (simp add: lx_ok_def logical_end_ok)
  then have "add64 off 1 mod 2 ^ 32 = off + 1" by (simp add: add64_exact)
  then have "lx_lo (m ! r) < off + 1" using lower_bound_split [of "add64 off 1 mod 2 ^ 32" m] i(1,2) by (simp add: i_def)
  then show ?thesis using i(3) by simp
qed

lemma punch_from_skips:
  assumes "lx_wf m" and "j < punch_from off m"
  shows "j < length m \<and> logical_end (m ! j) \<le> off"
proof -
  define r where "r = seek_lextent off m"
  have r: "j < r" "r \<noteq> length m" using assms(2) by (auto simp: punch_from_def r_def Let_def split: if_splits)
  have "r \<le> length m" using lower_bound_split by (auto simp: r_def seek_lextent_def Let_def le_diff_conv intro: le_SucI)
  then have rl: "r < length m" using r(2) by simp
  have "lx_before (m ! j) (m ! r)" using assms(1) r(1) rl by (auto simp: lx_wf_def sorted_wrt_iff_nth_less)
  moreover have "lx_ok (m ! j)" using assms(1) r(1) rl by (simp add: lx_wf_def)
  ultimately show ?thesis using seek_found [OF assms(1) r_def [symmetric] rl] r(1) rl by (simp add: lx_before_def logical_end_ok)
qed

section \<open>Punching a hole\<close>

text \<open>
  The state of the loop: the extents before the iterator end before the hole. What remains to be shown of it is that
  the rest of the loop removes the points of the hole from the map and adds them to the removed extents.
\<close>

definition punch_result :: "nat \<Rightarrow> nat \<Rightarrow> lextents \<Rightarrow> lextents \<Rightarrow> lextents \<times> lextents \<Rightarrow> bool" where
  "punch_result off en m old r \<longleftrightarrow>
     lx_wf (fst r) \<and> lx_cover (fst r) = {p \<in> lx_cover m. \<not> in_hole off en p} \<and>
     (\<exists>new. snd r = old @ new \<and> lx_cover new = {p \<in> lx_cover m. in_hole off en p})"

lemma punch_done: "lx_wf m \<Longrightarrow> \<forall>p \<in> lx_cover m. \<not> in_hole off en p \<Longrightarrow> punch_result off en m old (m, old)"
  by (auto simp: punch_result_def)

lemma pts_outside:
  "lx_ok e \<Longrightarrow> logical_end e \<le> off \<Longrightarrow> p \<in> lx_pts e \<Longrightarrow> \<not> in_hole off en p" "en \<le> lx_lo e \<Longrightarrow> p \<in> lx_pts e \<Longrightarrow> \<not> in_hole off en p"
  by (auto simp: lx_pts_def logical_end_ok)

lemma punch_step:
  assumes "punch_result off en (xs @ es @ ys) (old @ [o1]) r" and "lx_cover es = {p \<in> lx_pts e. \<not> in_hole off en p}"
    and "lx_pts o1 = {p \<in> lx_pts e. in_hole off en p}"
  shows "punch_result off en (xs @ e # ys) old r"
proof -
  obtain new where new: "snd r = old @ o1 # new" "lx_cover new = {p \<in> lx_cover (xs @ es @ ys). in_hole off en p}"
    using assms(1) by (auto simp: punch_result_def)
  have "lx_cover (o1 # new) = {p \<in> lx_cover (xs @ e # ys). in_hole off en p}" using new(2) assms(2,3) by auto
  moreover have "lx_cover (fst r) = {p \<in> lx_cover (xs @ e # ys). \<not> in_hole off en p}" "lx_wf (fst r)"
    using assms(1,2) unfolding punch_result_def by auto
  ultimately show ?thesis using new(1) unfolding punch_result_def by blast
qed

text \<open>What remains of an extent that meets the hole, in the place of the extent.\<close>

lemma keep_both:
  assumes wf: "lx_wf (xs @ e # ys)" and lo: "lx_lo e < off" and hi: "en < logical_end e" and le: "off \<le> en"
  shows "lx_add (punch_tail en e) (lx_add (punch_head off e) (xs @ ys)) = xs @ [punch_head off e, punch_tail en e] @ ys"
    and "lx_wf (xs @ [punch_head off e, punch_tail en e] @ ys)"
    and "lx_cover [punch_head off e, punch_tail en e] = {p \<in> lx_pts e. \<not> in_hole off en p}"
proof -
  have ok: "lx_ok e" using wf by (simp add: lx_wf_def)
  have end_e: "logical_end e = lx_lo e + lx_len e" by (rule logical_end_ok [OF ok])
  have e: "off < logical_end e" "lx_lo e < en" using lo hi le by simp_all
  note h = head_facts [OF ok lo e(1)] and t = tail_facts [OF ok e(2) hi]
  have lt: "\<forall>x \<in> set xs. lx_lo x < lx_lo e" "\<forall>y \<in> set ys. lx_lo e < lx_lo y" using wf_lo [OF wf] by auto
  have ys: "lx_lo e + lx_len e \<le> lx_lo y" if "y \<in> set ys" for y using wf that by (simp add: lx_wf_append lx_wf_Cons lx_before_def)
  have "lx_add (punch_head off e) (xs @ ys) = xs @ punch_head off e # ys" using lt h(3) by (intro lx_add_between) auto
  moreover have "lx_add (punch_tail en e) ((xs @ [punch_head off e]) @ ys) = (xs @ [punch_head off e]) @ punch_tail en e # ys"
    using ys lt(1) t(3) h(3) e hi end_e by (intro lx_add_between) fastforce+
  ultimately show "lx_add (punch_tail en e) (lx_add (punch_head off e) (xs @ ys)) = xs @ [punch_head off e, punch_tail en e] @ ys" by simp
  show "lx_wf (xs @ [punch_head off e, punch_tail en e] @ ys)" using wf h t le by (auto simp: lx_wf_append lx_wf_Cons lx_before_def)
  show "lx_cover [punch_head off e, punch_tail en e] = {p \<in> lx_pts e. \<not> in_hole off en p}" using h(1) t(1) le by auto
qed

lemma keep_head:
  assumes wf: "lx_wf (xs @ e # ys)" and lo: "lx_lo e < off" and off: "off < logical_end e" and hi: "\<not> en < logical_end e"
  shows "lx_add (punch_head off e) (xs @ ys) = xs @ [punch_head off e] @ ys" and "lx_wf (xs @ [punch_head off e] @ ys)"
    and "lx_cover [punch_head off e] = {p \<in> lx_pts e. \<not> in_hole off en p}"
proof -
  have ok: "lx_ok e" using wf by (simp add: lx_wf_def)
  note h = head_facts [OF ok lo off]
  show "lx_add (punch_head off e) (xs @ ys) = xs @ [punch_head off e] @ ys"
    using wf_lo [OF wf] h(3) lx_add_between [of xs "punch_head off e" ys] by simp
  show "lx_wf (xs @ [punch_head off e] @ ys)" using wf_replace [OF wf h(2)] h(3,4) off logical_end_ok [OF ok] by simp
  show "lx_cover [punch_head off e] = {p \<in> lx_pts e. \<not> in_hole off en p}" unfolding lx_cover_simps h(1) using hi logical_end_ok [OF ok] pts_range [of _ e] by fastforce
qed

lemma keep_tail:
  assumes wf: "lx_wf (xs @ e # ys)" and lo: "\<not> lx_lo e < off" and en: "lx_lo e < en" and hi: "en < logical_end e"
  shows "lx_add (punch_tail en e) (xs @ ys) = xs @ [punch_tail en e] @ ys" and "lx_wf (xs @ [punch_tail en e] @ ys)"
    and "lx_cover [punch_tail en e] = {p \<in> lx_pts e. \<not> in_hole off en p}"
proof -
  have ok: "lx_ok e" using wf by (simp add: lx_wf_def)
  note t = tail_facts [OF ok en hi]
  have ys: "lx_lo e + lx_len e \<le> lx_lo y" if "y \<in> set ys" for y using wf that by (simp add: lx_wf_append lx_wf_Cons lx_before_def)
  have "lx_add (punch_tail en e) (xs @ ys) = xs @ punch_tail en e # ys"
    using ys wf_lo [OF wf] t(3) en hi logical_end_ok [OF ok] by (intro lx_add_between) fastforce+
  then show "lx_add (punch_tail en e) (xs @ ys) = xs @ [punch_tail en e] @ ys" by simp
  show "lx_wf (xs @ [punch_tail en e] @ ys)" using wf_replace [OF wf t(2)] t(3,4) en by simp
  show "lx_cover [punch_tail en e] = {p \<in> lx_pts e. \<not> in_hole off en p}" unfolding lx_cover_simps t(1) using lo pts_range [of _ e] by fastforce
qed

lemma outside_before:
  "lx_wf m \<Longrightarrow> \<forall>x \<in> set m. logical_end x \<le> off \<Longrightarrow> \<forall>p \<in> lx_cover m. \<not> in_hole off en p"
  using pts_outside(1) by (fastforce simp: lx_cover_def lx_wf_def)

lemma outside_after:
  assumes "lx_wf (xs @ e # ys)" and "en \<le> lx_lo e + lx_len e"
  shows "\<forall>p \<in> lx_cover ys. \<not> in_hole off en p"
proof -
  have "en \<le> lx_lo y" if "y \<in> set ys" for y using that assms by (fastforce simp: lx_wf_append lx_wf_Cons lx_before_def)
  then show ?thesis using pts_outside(2) by (fastforce simp: lx_cover_def)
qed

lemma punch_loop_ok:
  assumes "lx_wf m" and "\<forall>j < i. j < length m \<longrightarrow> logical_end (m ! j) \<le> off" and "off \<le> en" and "en < 2 ^ 64"
  shows "punch_result off en m old (punch_loop off en i m old)"
  using assms
proof (induction off en i m old rule: punch_loop.induct)
  case (1 off en i m old)
  note IH = 1(1,2,3) and wf = 1(4) and before = 1(5) and en = 1(6,7)
  show ?case
  proof (cases "i < length m")
    case False
    then have "\<forall>e \<in> set m. logical_end e \<le> off" using before by (auto simp: in_set_conv_nth)
    then show ?thesis using False wf outside_before by (simp add: punch_loop.simps [of off] punch_done)
  next
    case True
    define e where "e = m ! i"
    obtain xs ys where m: "m = xs @ e # ys" and xs: "length xs = i" using nth_split [OF True] by (auto simp: e_def)
    have ok: "lx_ok e" and wf1: "lx_wf (xs @ e # ys)" using wf by (simp_all add: m lx_wf_def)
    have "\<forall>x \<in> set xs. logical_end x \<le> off" using before xs by (fastforce simp: m in_set_conv_nth nth_append)
    then have xs_out: "\<forall>p \<in> lx_cover xs. \<not> in_hole off en p" using outside_before [of xs off en] wf1 by (simp add: lx_wf_append)
    note ys_out = outside_after [OF wf1, of en off] and eend = logical_end_ok [OF ok]
    have m0: "lx_rm i m = xs @ ys" unfolding m by (rule lx_rm_at [OF xs])
    note eqn = punch_loop.simps [of off en i m old] and e' = e_def [symmetric]
    consider "en \<le> lx_lo e" | "lx_lo e < en" "logical_end e \<le> off" | "lx_lo e < en" "off < logical_end e" by linarith
    then show ?thesis
    proof cases
      case 1
      then have "\<forall>p \<in> lx_cover m. \<not> in_hole off en p" using xs_out ys_out pts_outside(2) by (auto simp: m)
      then show ?thesis using True 1 wf by (simp add: eqn e' punch_done)
    next
      case 2
      have "\<forall>j < Suc i. j < length m \<longrightarrow> logical_end (m ! j) \<le> off" using before 2(2) by (simp add: less_Suc_eq e')
      then show ?thesis using IH(1) [OF True e_def] 2 wf en True by (simp add: eqn e')
    next
      case 3
      note o1 = cut_facts [OF ok 3(2,1) en]
      define old1 where "old1 = old @ [punched off en e]"
      have step: "punch_result off en m old r" if "punch_result off en (xs @ es @ ys) old1 r" "lx_cover es = {p \<in> lx_pts e. \<not> in_hole off en p}" for es r
        using punch_step [OF that(1) [unfolded old1_def] that(2) o1] by (simp add: m)
      have last: "punch_result off en m old (xs @ es @ ys, old1)"
        if "lx_wf (xs @ es @ ys)" "lx_cover es = {p \<in> lx_pts e. \<not> in_hole off en p}" "en < logical_end e" for es
        using that xs_out ys_out eend by (intro step [of es] punch_done) auto
      have resume: "punch_result off en m old (punch_loop off en (punch_from off (xs @ es @ ys)) (xs @ es @ ys) old1)"
        if "lx_cover es = {p \<in> lx_pts e. \<not> in_hole off en p}"
          "punch_result off en (xs @ es @ ys) old1 (punch_loop off en (punch_from off (xs @ es @ ys)) (xs @ es @ ys) old1)" for es
        using that(2,1) by (rule step)
      consider "lx_lo e < off" "en < logical_end e" | "lx_lo e < off" "\<not> en < logical_end e"
        | "\<not> lx_lo e < off" "en < logical_end e" | "\<not> lx_lo e < off" "\<not> en < logical_end e" by blast
      then show ?thesis
      proof cases
        case a: 1
        note k = keep_both [OF wf1 a en(1)]
        show ?thesis using last [OF k(2,3) a(2)] k(1) True 3 a by (simp add: eqn e' m0 old1_def)
      next
        case a: 2
        note k = keep_head [OF wf1 a(1) 3(2) a(2)]
        show ?thesis using resume [OF k(3)] IH(2) [OF True e_def _ _ old1_def refl, unfolded m0 k(1)] k(1,2) True 3 a punch_from_skips en
          by (simp add: eqn e' m0 old1_def Let_def)
      next
        case a: 3
        note k = keep_tail [OF wf1 a(1) 3(1) a(2)]
        show ?thesis using last [OF k(2,3) a(2)] k(1) True 3 a by (simp add: eqn e' m0 old1_def)
      next
        case a: 4
        have "lx_cover [] = {p \<in> lx_pts e. \<not> in_hole off en p}" using a eend pts_range [of _ e] by fastforce
        from resume [OF this] show ?thesis using IH(3) [OF True e_def _ _ old1_def refl, unfolded m0] wf_remove [OF wf1] True 3 a punch_from_skips en
          by (simp add: eqn e' m0 old1_def Let_def)
      qed
    qed
  qed
qed

lemma punch_hole_result:
  assumes "lx_wf m" and "off + len < 2 ^ 64"
  shows "punch_result off (off + len) m [] (punch_hole off len m [])"
proof -
  have "\<forall>j < punch_from off m. j < length m \<longrightarrow> logical_end (m ! j) \<le> off" using punch_from_skips [OF assms(1)] by blast
  then show ?thesis
    using punch_loop_ok [OF assms(1), of "punch_from off m" off "off + len" "[]"] assms(2) by (simp add: punch_hole_def add64_exact)
qed

text \<open>
  C11: \<open>ExtentMap::punch_hole\<close> removes exactly the hole. In a well-formed map, whose extents are ordered, disjoint and not
  empty and end below 4 GiB, it ends with a well-formed map that has the points of the old one outside of the range, and
  the extents it reports have the points inside: what the caller will release is what the object lost.
\<close>

theorem punch_hole_exact:
  assumes "lx_wf m" and "off + len < 2 ^ 64" and "punch_hole off len m [] = (m', old)"
  shows "lx_wf m' \<and> lx_cover m' = {p \<in> lx_cover m. \<not> (off \<le> fst p \<and> fst p < off + len)} \<and>
    lx_cover old = {p \<in> lx_cover m. off \<le> fst p \<and> fst p < off + len}"
  using punch_hole_result [OF assms(1,2)] assms(3) by (simp add: punch_result_def)

theorem punch_hole_exact_witness:
  "punch_hole 6 8 [mk_lextent 0 0 8 (Some 1), mk_lextent 8 100 4 (Some 2), mk_lextent 12 0 10 (Some 3)] [] =
     ([mk_lextent 0 0 6 (Some 1), mk_lextent 14 2 8 (Some 3)],
      [mk_lextent 6 6 2 (Some 1), mk_lextent 8 100 4 (Some 2), mk_lextent 12 0 2 (Some 3)]) \<and>
   lx_wf [mk_lextent 0 0 6 (Some 1), mk_lextent 14 2 8 (Some 3)]"
proof -
  let ?m = "[mk_lextent 0 0 8 (Some 1), mk_lextent 8 100 4 (Some 2), mk_lextent 12 0 10 (Some 3)]"
  have p: "punch_hole 6 8 ?m [] = ([mk_lextent 0 0 6 (Some 1), mk_lextent 14 2 8 (Some 3)],
      [mk_lextent 6 6 2 (Some 1), mk_lextent 8 100 4 (Some 2), mk_lextent 12 0 2 (Some 3)])"
    by (simp add: punch_hole_def punch_loop.simps punch_from_def seek_lextent_def lower_bound_def logical_end_def add32_def add64_def
        sub64_def punched_def punch_head_def punch_tail_def lx_rm_def Let_def)
  have "lx_wf ?m" by (simp add: lx_wf_def lx_ok_def lx_before_def)
  then show ?thesis using punch_hole_exact [OF _ _ p] p by simp
qed

section \<open>Looking up\<close>

lemma lx_cover_nth: "p \<in> lx_cover m \<longleftrightarrow> (\<exists>i < length m. p \<in> lx_pts (m ! i))"
  unfolding lx_cover_def by (metis UN_iff in_set_conv_nth)

text \<open>\<open>seek_lextent\<close> finds the extent that holds an offset, when one does.\<close>

lemma seek_lextent_finds:
  assumes "lx_wf m" and "i < length m" and "lx_lo (m ! i) \<le> off" and "off < logical_end (m ! i)"
  shows "seek_lextent off m = i"
proof -
  have ok: "\<And>j. j < length m \<Longrightarrow> lx_ok (m ! j)" using assms(1) by (simp add: lx_wf_def)
  have less: "lx_before (m ! j) (m ! k)" if "j < k" "k < length m" for j k using assms(1) that by (auto simp: lx_wf_def sorted_wrt_iff_nth_less)
  have "off + 1 < 2 ^ 32" using assms(4) ok [OF assms(2)] by (simp add: lx_ok_def logical_end_ok)
  then have key: "add64 off 1 mod 2 ^ 32 = off + 1" by (simp add: add64_exact)
  have "lx_lo (m ! j) < off + 1" if "j \<le> i" for j
    using less [of j i] that assms(2,3) by (cases "j = i") (auto simp: lx_before_def)
  moreover have "off + 1 \<le> lx_lo (m ! Suc i)" if "Suc i < length m"
    using less [of i "Suc i"] that assms(2,4) ok [OF assms(2)] by (simp add: lx_before_def logical_end_ok)
  ultimately have "takeWhile (\<lambda>e. lx_lo e < off + 1) m = take (Suc i) m"
    using assms(2) by (intro takeWhile_eq_take_P_nth) auto
  then have "lower_bound (off + 1) m = Suc i" using assms(2) by (simp add: lower_bound_def)
  then show ?thesis unfolding seek_lextent_def key Let_def using assms(4) by simp
qed

lemma has_any_lextents_iff:
  assumes "lx_wf m" and "off + len < 2 ^ 64"
  shows "has_any_lextents off len m \<longleftrightarrow> (\<exists>e \<in> set m. lx_lo e < off + len \<and> off < lx_lo e + lx_len e)"
  using assms
proof (induction m)
  case (Cons e m)
  have "off + len \<le> lx_lo f" if "off + len \<le> lx_lo e" "f \<in> set m" for f
    using that Cons.prems(1) by (fastforce simp: lx_wf_Cons lx_before_def)
  then have none: "\<not> (\<exists>f \<in> set m. lx_lo f < off + len \<and> off < lx_lo f + lx_len f)" if "off + len \<le> lx_lo e" using that by fastforce
  have e: "logical_end e = lx_lo e + lx_len e" and wf: "lx_wf m" using Cons.prems(1) by (simp_all add: lx_wf_Cons logical_end_ok)
  show ?case
  proof (cases "off + len \<le> lx_lo e")
    case True
    then show ?thesis using none Cons.prems(2) by (simp add: add64_exact)
  next
    case False
    then show ?thesis using Cons.IH [OF wf Cons.prems(2)] Cons.prems(2) e by (simp add: add64_exact)
  qed
qed simp

section \<open>Joining neighbours\<close>

lemma joined_facts:
  assumes "lx_wf (xs @ e # f # ys)" and "joinable e f"
  shows "lx_wf (xs @ joined e f # ys)" and "lx_pts (joined e f) = lx_pts e \<union> lx_pts f"
    and "lx_add (joined e f) (xs @ ys) = xs @ joined e f # ys"
proof -
  have ok: "lx_ok e" "lx_ok f" using assms(1) by (simp_all add: lx_wf_def)
  have j: "lx_lo e + lx_len e = lx_lo f" "lx_bo e + lx_len e = lx_bo f" "lx_blob e = lx_blob f"
    using assms(2) ok by (simp_all add: joinable_def logical_end_ok lx_ok_def add32_exact)
  have d: "joined e f = mk_lextent (lx_lo e) (lx_bo e) (lx_len e + lx_len f) (lx_blob e)"
    using ok(2) j by (simp add: joined_def lx_ok_def add32_exact)
  show "lx_wf (xs @ joined e f # ys)" using assms(1) ok j unfolding d by (auto simp: lx_wf_append lx_wf_Cons lx_before_def lx_ok_def)
  show "lx_pts (joined e f) = lx_pts e \<union> lx_pts f" unfolding d lx_pts_def using j by auto
  show "lx_add (joined e f) (xs @ ys) = xs @ joined e f # ys"
    using wf_lo [OF assms(1)] unfolding d by (intro lx_add_between) auto
qed

definition blobs_live :: "blob_store \<Rightarrow> lextents \<Rightarrow> bool" where
  "blobs_live S m \<longleftrightarrow> (\<forall>e \<in> set m. \<exists>a B. lx_blob e = Some a \<and> S a = Some B)"

definition unjoined :: "nat \<Rightarrow> nat \<Rightarrow> lextents \<Rightarrow> nat \<Rightarrow> bool" where
  "unjoined off en m j \<longleftrightarrow> Suc j < length m \<and> lx_lo (m ! j) < en \<and> off < logical_end (m ! j) \<and> joinable (m ! j) (m ! Suc j)"

definition compress_result :: "nat \<Rightarrow> nat \<Rightarrow> lextents \<Rightarrow> nat \<Rightarrow> (nat \<times> lextents) option \<Rightarrow> bool" where
  "compress_result off en m c r \<longleftrightarrow>
     (\<exists>c' m'. r = Some (c', m') \<and> lx_wf m' \<and> lx_cover m' = lx_cover m \<and> c' + length m' = c + length m \<and> (\<forall>j. \<not> unjoined off en m' j))"

lemma compress_done: "lx_wf m \<Longrightarrow> \<forall>j. \<not> unjoined off en m j \<Longrightarrow> compress_result off en m c (Some (c, m))"
  by (simp add: compress_result_def)

lemma compress_joined:
  assumes "lx_wf (xs @ e # f # ys)" and "joinable e f" and "compress_result off en (xs @ joined e f # ys) (Suc c) r"
  shows "compress_result off en (xs @ e # f # ys) c r"
  using assms(3) joined_facts(2) [OF assms(1,2)] by (auto simp: compress_result_def)

text \<open>The test of physical contiguity compares an address with itself.\<close>

lemma phys_test_vacuous: "joinable e f \<Longrightarrow> phys_loop (add32 (lx_bo e) (lx_len e)) 0 0 es = phys_loop (lx_bo f) 0 0 es"
  by (simp add: joinable_def)

lemma compress_loop_ok:
  assumes "lx_wf m" and "blobs_live S m" and "\<forall>j < i. \<not> unjoined off (off + len) m j" and "off + len < 2 ^ 64"
  shows "compress_result off (off + len) m c (compress_loop S off len i m c)"
  using assms
proof (induction S off len i m c rule: compress_loop.induct)
  case (1 S off len i m c)
  note wf = 1(5) and live = 1(6) and before = 1(7) and en = 1(8)
  note eqn = compress_loop.simps [of S off len i m c]
  have a64: "add64 off len = off + len" using en by (simp add: add64_exact)
  have all: "\<forall>j. \<not> unjoined off (off + len) m j" if "\<And>j. i \<le> j \<Longrightarrow> \<not> unjoined off (off + len) m j" using before that not_less by blast
  have ends: "compress_result off (off + len) m c (Some (c, m))" if "\<And>j. i \<le> j \<Longrightarrow> \<not> unjoined off (off + len) m j"
    using compress_done [OF wf all [OF that]] .
  show ?case
  proof (cases "i < length m")
    case False
    then show ?thesis using ends by (simp add: eqn unjoined_def)
  next
    case True
    define e where "e = m ! i"
    note e' = e_def [symmetric]
    have next_ok: "\<forall>j < Suc i. \<not> unjoined off (off + len) m j" if "\<not> unjoined off (off + len) m i" using before that by (simp add: less_Suc_eq)
    consider "off + len \<le> lx_lo e" | "lx_lo e < off + len" "logical_end e \<le> off" | "lx_lo e < off + len" "off < logical_end e" "Suc i = length m"
      | "lx_lo e < off + len" "off < logical_end e" "Suc i \<noteq> length m" by linarith
    then show ?thesis
    proof cases
      case 1
      have "\<not> unjoined off (off + len) m j" if "i \<le> j" for j
        using wf_nth_lo [OF wf that] 1 by (auto simp: unjoined_def e_def)
      then show ?thesis using ends True 1 by (simp add: eqn a64 e')
    next
      case 2
      then have "\<not> unjoined off (off + len) m i" by (simp add: unjoined_def e')
      then show ?thesis using 1(1) [OF True e_def] 2 wf live next_ok en True by (simp add: eqn a64 e')
    next
      case 3
      then show ?thesis using ends True by (simp add: eqn a64 e' unjoined_def)
    next
      case 4
      define f where "f = m ! Suc i"
      note f' = f_def [symmetric]
      show ?thesis
      proof (cases "joinable e f")
        case False
        then have "\<not> unjoined off (off + len) m i" by (simp add: unjoined_def e' f')
        then show ?thesis using 1(4) [OF True e_def _ _ _ f_def] False 4 wf live next_ok en True by (simp add: eqn a64 e' f')
      next
        case j: True
        obtain a B where ab: "lx_blob e = Some a" "S a = Some B" using live nth_mem [OF True] unfolding blobs_live_def e_def by blast
        obtain xs ys where m: "m = xs @ e # f # ys" and xs: "length xs = i" using nth_split2 [of i m] True 4(3) by (auto simp: e_def f_def)
        have rm: "lx_add (joined e f) (lx_rm i (lx_rm i m)) = xs @ joined e f # ys"
          using joined_facts(3) [OF wf [unfolded m] j] xs by (simp add: m lx_rm_at)
        have "blobs_live S (xs @ joined e f # ys)" using live by (auto simp: m blobs_live_def joined_def)
        then have "compress_result off (off + len) (xs @ joined e f # ys) (Suc c) (compress_loop S off len 0 (xs @ joined e f # ys) (Suc c))"
          using 1(3) [OF True e_def _ _ _ f_def j ab refl, unfolded rm] 4 phys_test_vacuous [OF j] joined_facts(1) [OF wf [unfolded m] j] en a64 by simp
        then have "compress_result off (off + len) m c (compress_loop S off len 0 (xs @ joined e f # ys) (Suc c))"
          unfolding m by (rule compress_joined [OF wf [unfolded m] j])
        then show ?thesis using True 4 j ab phys_test_vacuous [OF j] by (simp add: eqn a64 e' f' rm Let_def)
      qed
    qed
  qed
qed

text \<open>
  C35: \<open>ExtentMap::compress_extent_map\<close> changes only the representation. When the blobs of the extents exist, it
  returns, the map has the same points as before, the result is the number of extents that were saved, and no two
  neighbours that could be joined remain in the range.
\<close>

theorem compress_keeps_points:
  assumes "lx_wf m" and "blobs_live S m" and "off + len < 2 ^ 64"
  shows "\<exists>n m'. compress_extent_map S off len m = Some (n, m') \<and> lx_wf m' \<and> lx_cover m' = lx_cover m \<and> n + length m' = length m \<and>
    (\<forall>j. \<not> unjoined off (off + len) m' j)"
  using compress_loop_ok [OF assms(1,2), of 0 off len 0] assms(3) by (simp add: compress_extent_map_def compress_result_def)

theorem compress_keeps_points_witness:
  "\<exists>n m'. compress_extent_map [1 \<mapsto> Blob_new] 0 100 [mk_lextent 0 0 8 (Some 1), mk_lextent 8 8 4 (Some 1), mk_lextent 12 0 10 (Some 1)] = Some (n, m') \<and>
     n + length m' = 3 \<and> lx_wf m' \<and> (\<forall>j. \<not> unjoined 0 (0 + 100) m' j)"
proof -
  let ?m = "[mk_lextent 0 0 8 (Some 1), mk_lextent 8 8 4 (Some 1), mk_lextent 12 0 10 (Some 1)]"
  have "lx_wf ?m" "blobs_live [1 \<mapsto> Blob_new] ?m" by (simp_all add: lx_wf_def lx_ok_def lx_before_def blobs_live_def)
  moreover have "0 + 100 < (2 ^ 64 :: nat)" "length ?m = 3" by simp_all
  ultimately show ?thesis using compress_keeps_points [of ?m "[1 \<mapsto> Blob_new]" 0 100] by metis
qed

text \<open>Inserting into a gap.\<close>

lemma set_lx_add: "set (lx_add e m) \<subseteq> insert e (set m)"
  by (induction m) auto

lemma apart:
  assumes "lx_ok e" and "lx_ok x" and "\<forall>p \<in> lx_pts x. \<not> in_hole (lx_lo e) (lx_lo e + lx_len e) p"
  shows "lx_before x e \<or> lx_before e x"
proof (rule ccontr)
  assume n: "\<not> (lx_before x e \<or> lx_before e x)"
  define p where "p = max (lx_lo x) (lx_lo e)"
  have "(p, lx_blob x, lx_bo x + (p - lx_lo x)) \<in> lx_pts x" "in_hole (lx_lo e) (lx_lo e + lx_len e) (p, lx_blob x, lx_bo x + (p - lx_lo x))"
    using n assms(1,2) by (auto simp: p_def lx_pts_def lx_before_def lx_ok_def)
  then show False using assms(3) by blast
qed

lemma lx_add_gap:
  assumes "lx_wf m" and "lx_ok e" and "\<forall>p \<in> lx_cover m. \<not> in_hole (lx_lo e) (lx_lo e + lx_len e) p"
  shows "lx_wf (lx_add e m) \<and> lx_cover (lx_add e m) = lx_cover m \<union> lx_pts e"
  using assms
proof (induction m)
  case Nil
  then show ?case by (simp add: lx_wf_def)
next
  case (Cons x m)
  have x: "lx_ok x" "lx_wf m" "\<forall>f \<in> set m. lx_before x f" using Cons.prems(1) by (simp_all add: lx_wf_Cons)
  have "lx_before x e \<or> lx_before e x" using apart [OF Cons.prems(2) x(1)] Cons.prems(3) by simp
  then show ?case
  proof
    assume b: "lx_before e x"
    have "lx_lo e < lx_lo x" using b Cons.prems(2) by (simp add: lx_before_def lx_ok_def)
    moreover have "lx_before e f" if "f \<in> set m" for f using that b x(3) by (fastforce simp: lx_before_def)
    ultimately show ?thesis using b Cons.prems(1,2) by (auto simp: lx_wf_Cons)
  next
    assume b: "lx_before x e"
    have "lx_lo x < lx_lo e" using b x(1) by (simp add: lx_before_def lx_ok_def)
    moreover have "lx_wf (lx_add e m) \<and> lx_cover (lx_add e m) = lx_cover m \<union> lx_pts e" using Cons.IH x(2) Cons.prems(2,3) by simp
    moreover have "\<forall>f \<in> set (lx_add e m). lx_before x f" using set_lx_add [of e m] b x(3) by blast
    ultimately show ?thesis using x(1) by (auto simp: lx_wf_Cons)
  qed
qed

text \<open>
  C12: \<open>set_lextent\<close> with a vector for the removed extents. The range of the object then maps to the range of the blob,
  the rest of the object is as it was, the reported extents have the points that were in the range, and of the blobs only
  the one that is written changes, by \<open>get_ref\<close> on its range.
\<close>

theorem set_lextent_replaces:
  assumes wf: "lx_wf m" and ok: "lx_ok (mk_lextent lo bo len (Some a))"
    and r: "set_lextent lo bo len a mas (Some []) (S, m) = Some (old, S', m')"
  shows "lx_wf m' \<and>
    lx_cover m' = {p \<in> lx_cover m. \<not> (lo \<le> fst p \<and> fst p < lo + len)} \<union> {(lo + k, Some a, bo + k) | k. k < len} \<and>
    (\<exists>v. old = Some v \<and> lx_cover v = {p \<in> lx_cover m. lo \<le> fst p \<and> fst p < lo + len}) \<and>
    (\<exists>B B'. S a = Some B \<and> get_ref bo len (mas mod 2 ^ 32) B = Some B' \<and> S' = S(a \<mapsto> B'))"
proof -
  let ?e = "mk_lextent lo bo len (Some a)"
  obtain m1 v where p: "punch_hole lo len m [] = (m1, v)" by (cases "punch_hole lo len m []")
  obtain B B' where b: "S a = Some B" "get_ref bo len (mas mod 2 ^ 32) B = Some B'" "old = Some v" "S' = S(a \<mapsto> B')" "m' = lx_add ?e m1"
    using r p by (auto simp: set_lextent_def bind_eq_Some_conv)
  have "lo + len < 2 ^ 64" using ok by (simp add: lx_ok_def)
  then have h: "lx_wf m1 \<and> lx_cover m1 = {p \<in> lx_cover m. \<not> in_hole lo (lo + len) p} \<and> lx_cover v = {p \<in> lx_cover m. in_hole lo (lo + len) p}"
    using punch_hole_result [OF wf, of lo len] p by (simp add: punch_result_def)
  then have "lx_wf m' \<and> lx_cover m' = lx_cover m1 \<union> lx_pts ?e" unfolding b(5) by (intro lx_add_gap) (use ok in auto)
  moreover have "lx_pts ?e = {(lo + k, Some a, bo + k) | k. k < len}"
  proof (intro set_eqI iffI)
    fix p
    assume "p \<in> lx_pts ?e"
    then have "p = (lo + (fst p - lo), Some a, bo + (fst p - lo)) \<and> fst p - lo < len" by (cases p) (auto simp: lx_pts_def)
    then show "p \<in> {(lo + k, Some a, bo + k) | k. k < len}" by blast
  qed (auto simp: lx_pts_def)
  ultimately show ?thesis using h b by simp
qed

theorem set_lextent_replaces_witness:
  "\<exists>old S' m'. set_lextent 4 0 8 1 8 (Some []) ([1 \<mapsto> Blob_new\<lparr>bo_blob := bblob_new\<lparr>bl_length := 8\<rparr>\<rparr>], [mk_lextent 0 0 8 (Some 2)]) = Some (old, S', m') \<and>
     lx_wf m' \<and> (11, Some 1, 7) \<in> lx_cover m' \<and> (3, Some 2, 3) \<in> lx_cover m'"
proof -
  let ?S = "[1 \<mapsto> Blob_new\<lparr>bo_blob := bblob_new\<lparr>bl_length := 8\<rparr>\<rparr>]" and ?m = "[mk_lextent 0 0 8 (Some 2)]"
  have "get_ref 0 8 8 (Blob_new\<lparr>bo_blob := bblob_new\<lparr>bl_length := 8\<rparr>\<rparr>) \<noteq> None"
    by (simp add: get_ref_def Blob_new_def bblob_new_def tr_is_empty_def tr_new_def release_unit_def has_flag_def FLAG_CSUM_def tr_init_def tr_get_def
        add32_def sub32_def Let_def)
  then obtain B' where g: "get_ref 0 8 8 (Blob_new\<lparr>bo_blob := bblob_new\<lparr>bl_length := 8\<rparr>\<rparr>) = Some B'" by blast
  obtain m1 v where p: "punch_hole 4 8 ?m [] = (m1, v)" by (cases "punch_hole 4 8 ?m []")
  have r: "set_lextent 4 0 8 1 8 (Some []) (?S, ?m) = Some (Some v, ?S(1 \<mapsto> B'), lx_add (mk_lextent 4 0 8 (Some 1)) m1)"
    using g p by (simp add: set_lextent_def)
  have "lx_wf ?m" "lx_ok (mk_lextent 4 0 8 (Some 1))" by (simp_all add: lx_wf_def lx_ok_def)
  from set_lextent_replaces [OF this r] show ?thesis using r by (auto simp: lx_pts_def)
qed

end
