(* ===== verification/Onode.thy ===== *)
theory Onode
  imports Object_Key Blob_Csum Lextent_Space
begin

unbundle bit_operations_syntax

text \<open>
  Onodes (\<^verbatim>\<open>bluestore/bluestore_types.h\<close>, \<^verbatim>\<open>bluestore/onode.cc\<close>): the metadata of an object with its attributes and
  its extents, how it is stored, and the keys of its omap. The key-value store that holds them is in \<^verbatim>\<open>Mem_Db\<close>.
\<close>

section \<open>Metadata\<close>

record onode =
  on_nid :: u64
  on_size :: u64
  on_attrs :: "(bytes \<times> bytes) list"
  on_shards :: "(u32 \<times> u32) list"
  on_expected_object_size :: u32
  on_expected_write_size :: u32
  on_alloc_hint_flags :: u32
  on_flags :: nat

definition onode_new :: onode where
  "onode_new =
     \<lparr>on_nid = 0, on_size = 0, on_attrs = [], on_shards = [], on_expected_object_size = 0, on_expected_write_size = 0, on_alloc_hint_flags = 0, on_flags = 0\<rparr>"

definition on_has_flag :: "nat \<Rightarrow> onode \<Rightarrow> bool" where
  "on_has_flag f v \<longleftrightarrow> on_flags v AND f \<noteq> 0"

definition set_omap_flags :: "bool \<Rightarrow> onode \<Rightarrow> onode" where
  "set_omap_flags pgmeta v = v\<lparr>on_flags := on_flags v OR (if pgmeta then 1 OR 2 else 1)\<rparr>"

definition clear_omap_flag :: "onode \<Rightarrow> onode" where
  "clear_omap_flag v = v\<lparr>on_flags := on_flags v AND (255 XOR (1 OR 2 OR 4 OR 8))\<rparr>"

text \<open>Attributes: \<open>std::map\<close> as a sorted list. \<open>operator[]\<close> replaces, \<open>emplace_hint\<close> keeps what is there.\<close>

fun at_put :: "bytes \<Rightarrow> bytes \<Rightarrow> (bytes \<times> bytes) list \<Rightarrow> (bytes \<times> bytes) list" where
  "at_put k v [] = [(k, v)]"
| "at_put k v ((a, b) # m) = (if a = k then (k, v) # m else if k < a then (k, v) # (a, b) # m else (a, b) # at_put k v m)"

fun at_insert :: "bytes \<Rightarrow> bytes \<Rightarrow> (bytes \<times> bytes) list \<Rightarrow> (bytes \<times> bytes) list" where
  "at_insert k v [] = [(k, v)]"
| "at_insert k v ((a, b) # m) = (if a = k then (a, b) # m else if k < a then (k, v) # (a, b) # m else (a, b) # at_insert k v m)"

definition set_attr :: "bytes \<Rightarrow> bytes \<Rightarrow> onode \<Rightarrow> onode" where
  "set_attr name val v = v\<lparr>on_attrs := at_put name val (on_attrs v)\<rparr>"

definition set_attrs :: "(bytes \<times> bytes) list \<Rightarrow> onode \<Rightarrow> onode" where
  "set_attrs attrs v = v\<lparr>on_attrs := attrs\<rparr>"

definition remove_attr :: "bytes \<Rightarrow> onode \<Rightarrow> onode" where
  "remove_attr name v = v\<lparr>on_attrs := filter (\<lambda>a. fst a \<noteq> name) (on_attrs v)\<rparr>"

definition get_attr :: "bytes \<Rightarrow> onode \<Rightarrow> bytes" where
  "get_attr name v = (case map_of (on_attrs v) name of Some b \<Rightarrow> b | None \<Rightarrow> [])"

section \<open>Encoding\<close>

definition enc_attr :: "bytes \<times> bytes \<Rightarrow> bytes" where
  "enc_attr a = enc_string (fst a) @ enc_string (snd a)"

definition dec_attr :: "(bytes \<times> bytes) decoder" where
  "dec_attr = dec_then dec_string (\<lambda>k. dec_then dec_string (\<lambda>v. dec_return (k, v)))"

definition enc_shard_info :: "u32 \<times> u32 \<Rightarrow> bytes" where
  "enc_shard_info s = enc_struct 1 1 (enc_u32 (fst s) @ enc_u32 (snd s))"

definition dec_shard_info :: "(u32 \<times> u32) decoder" where
  "dec_shard_info = dec_struct (dec_then dec_u32 (\<lambda>a. dec_then dec_u32 (\<lambda>b. dec_return (a, b))))"

definition onode_body :: "onode \<Rightarrow> bytes" where
  "onode_body v =
     enc_u64 (on_nid v) @ enc_u64 (on_size v) @ enc_vec enc_attr (on_attrs v) @ enc_vec enc_shard_info (on_shards v) @
     enc_u32 (on_expected_object_size v) @ enc_u32 (on_expected_write_size v) @ enc_u32 (on_alloc_hint_flags v) @ enc_u8 (on_flags v)"

definition dec_onode_body :: "onode decoder" where
  "dec_onode_body =
     dec_then dec_u64 (\<lambda>nid. dec_then dec_u64 (\<lambda>sz. dec_then (dec_vec dec_attr) (\<lambda>attrs. dec_then (dec_vec dec_shard_info) (\<lambda>shards.
       dec_then dec_u32 (\<lambda>eos. dec_then dec_u32 (\<lambda>ews. dec_then dec_u32 (\<lambda>hint. dec_then dec_u8 (\<lambda>fl.
         dec_return \<lparr>on_nid = nid, on_size = sz, on_attrs = fold (\<lambda>a m. at_insert (fst a) (snd a) m) attrs [], on_shards = shards,
           on_expected_object_size = eos, on_expected_write_size = ews, on_alloc_hint_flags = hint, on_flags = fl\<rparr>))))))))"

definition enc_onode :: "onode \<Rightarrow> bytes" where
  "enc_onode v = enc_struct 1 1 (onode_body v)"

definition dec_onode :: "onode decoder" where
  "dec_onode = dec_struct dec_onode_body"

text \<open>
  The object: its metadata and its extents, with the blobs in a store. Decoding makes a new blob for every extent that
  has one; \<open>nxt\<close> is the address that \<open>new\<close> returns next.
\<close>

record heap =
  hp_blobs :: blob_store
  hp_next :: nat

fun enc_lextents :: "blob_store \<Rightarrow> lextents \<Rightarrow> bytes option" where
  "enc_lextents S [] = Some []"
| "enc_lextents S (e # m) =
     do {
       blob \<leftarrow> (case lx_blob e of None \<Rightarrow> Some (enc_u8 0) | Some a \<Rightarrow> map_option (\<lambda>B. enc_u8 1 @ enc_blob (bo_blob B)) (S a));
       rest \<leftarrow> enc_lextents S m;
       Some (enc_u32 (lx_lo e) @ enc_u32 (lx_bo e) @ enc_u32 (lx_len e) @ blob @ rest)
     }"

definition encode_object :: "blob_store \<Rightarrow> onode \<times> lextents \<Rightarrow> bytes option" where
  "encode_object S ob =
     map_option (\<lambda>es. enc_onode (fst ob) @ enc_u32 (length (snd ob) mod 2 ^ 32) @ es) (enc_lextents S (snd ob))"

definition new_blob :: "bblob \<Rightarrow> heap \<Rightarrow> nat \<times> heap" where
  "new_blob b h = (hp_next h, \<lparr>hp_blobs = (hp_blobs h)(hp_next h \<mapsto> Blob_new\<lparr>bo_blob := b\<rparr>), hp_next = Suc (hp_next h)\<rparr>)"

definition dec_lextent :: "heap \<Rightarrow> (lextent \<times> heap) decoder" where
  "dec_lextent h =
     dec_then dec_u32 (\<lambda>lo. dec_then dec_u32 (\<lambda>bo. dec_then dec_u32 (\<lambda>len. dec_then dec_u8 (\<lambda>has_blob.
       if has_blob \<noteq> 0 then
         dec_then dec_blob (\<lambda>b. case new_blob b h of (a, h1) \<Rightarrow> dec_return (mk_lextent lo bo len (Some a), h1))
       else dec_return (mk_lextent lo bo len None, h)))))"

fun dec_lextents :: "nat \<Rightarrow> lextents \<Rightarrow> heap \<Rightarrow> (lextents \<times> heap) decoder" where
  "dec_lextents 0 m h = dec_return (m, h)"
| "dec_lextents (Suc n) m h = dec_then (dec_lextent h) (\<lambda>(e, h1). dec_lextents n (lx_add e m) h1)"

definition decode_object :: "heap \<Rightarrow> (onode \<times> lextents \<times> heap) decoder" where
  "decode_object h =
     dec_then dec_onode (\<lambda>v. dec_then dec_u32 (\<lambda>n. dec_then (dec_lextents n [] h) (\<lambda>(m, h1). dec_return (v, m, h1))))"

section \<open>Omap keys\<close>

definition get_omap_prefix :: "onode \<Rightarrow> bytes" where
  "get_omap_prefix v = (if on_has_flag 2 v then [80] else [77])"

definition get_omap_header :: "onode \<Rightarrow> bytes" where
  "get_omap_header v = key_encode_u64 (on_nid v) @ [45]"

definition get_omap_key :: "bytes \<Rightarrow> onode \<Rightarrow> bytes" where
  "get_omap_key key v = key_encode_u64 (on_nid v) @ [46] @ key"

definition get_omap_tail :: "onode \<Rightarrow> bytes" where
  "get_omap_tail v = key_encode_u64 (on_nid v) @ [126]"

definition decode_omap_key :: "bytes \<Rightarrow> bytes" where
  "decode_omap_key key = (if length key > 9 then drop 9 key else [])"

section \<open>Metadata is read back\<close>

lemma at_insert_last: "\<forall>a \<in> set m. fst a < k \<Longrightarrow> at_insert k v m = m @ [(k, v)]"
  by (induction m) (auto dest: less_asym)

lemma at_insert_fold: "sorted_wrt (\<lambda>a b. fst a < fst b) (acc @ xs) \<Longrightarrow> fold (\<lambda>a m. at_insert (fst a) (snd a) m) xs acc = acc @ xs"
proof (induction xs arbitrary: acc)
  case (Cons a xs)
  have "at_insert (fst a) (snd a) acc = acc @ [a]" using Cons.prems at_insert_last [of acc "fst a" "snd a"] by (simp add: sorted_wrt_append)
  then show ?case using Cons.IH [of "acc @ [a]"] Cons.prems by simp
qed simp

definition attr_ok :: "bytes \<times> bytes \<Rightarrow> bool" where
  "attr_ok a \<longleftrightarrow> length (fst a) < 2 ^ 32 \<and> length (snd a) < 2 ^ 32"

interpretation attr: codec enc_attr dec_attr attr_ok "\<lambda>a. bound_string (fst a) + bound_string (snd a)"
proof
  fix a :: "bytes \<times> bytes"
  assume ok: "attr_ok a"
  show "dec_attr (enc_attr a @ q) = Inr (a, q)" for q using ok by (simp add: attr_ok_def enc_attr_def dec_attr_def str.round_trip)
  show "length (enc_attr a) \<le> bound_string (fst a) + bound_string (snd a)"
    using ok str.fits [of "fst a"] str.fits [of "snd a"] by (simp add: attr_ok_def enc_attr_def)
qed

lemma shard_body: "codec (\<lambda>s. enc_u32 (fst s) @ enc_u32 (snd s)) (dec_then dec_u32 (\<lambda>a. dec_then dec_u32 (\<lambda>b. dec_return (a, b))))
    (\<lambda>s. fst s < 2 ^ 32 \<and> snd s < 2 ^ 32) (\<lambda>s. 8)"
  by unfold_locales (simp_all add: u32.round_trip enc_u32_def del: u32.round_trip, simp add: enc_u32_def [symmetric] u32.round_trip)

interpretation shard_info: codec enc_shard_info dec_shard_info "\<lambda>s. fst s < 2 ^ 32 \<and> snd s < 2 ^ 32" "\<lambda>s. bound_struct 8"
proof
  fix s :: "u32 \<times> u32"
  assume ok: "fst s < 2 ^ 32 \<and> snd s < 2 ^ 32"
  show "dec_shard_info (enc_shard_info s @ q) = Inr (s, q)" for q
    unfolding enc_shard_info_def dec_shard_info_def using codec.struct_round_trip [OF shard_body ok, of 1 1 q] by (simp add: enc_u32_def)
  show "length (enc_shard_info s) \<le> bound_struct 8"
    unfolding enc_shard_info_def using codec.struct_fits [OF shard_body ok, of 1 1] by simp
qed

definition onode_ok :: "onode \<Rightarrow> bool" where
  "onode_ok v \<longleftrightarrow>
     on_nid v < 2 ^ 64 \<and> on_size v < 2 ^ 64 \<and> length (on_attrs v) < 2 ^ 32 \<and> (\<forall>a \<in> set (on_attrs v). attr_ok a) \<and>
     sorted_wrt (\<lambda>a b. fst a < fst b) (on_attrs v) \<and> length (on_shards v) < 2 ^ 32 \<and> (\<forall>s \<in> set (on_shards v). fst s < 2 ^ 32 \<and> snd s < 2 ^ 32) \<and>
     on_expected_object_size v < 2 ^ 32 \<and> on_expected_write_size v < 2 ^ 32 \<and> on_alloc_hint_flags v < 2 ^ 32 \<and> on_flags v < 2 ^ 8"

definition bound_onode_body :: "onode \<Rightarrow> nat" where
  "bound_onode_body v =
     8 + 8 + bound_vec (\<lambda>a. bound_string (fst a) + bound_string (snd a)) (on_attrs v) + bound_vec (\<lambda>s. bound_struct 8) (on_shards v) + 4 + 4 + 4 + 1"

interpretation onode_fields: codec onode_body dec_onode_body onode_ok bound_onode_body
proof
  fix v :: onode
  assume ok: "onode_ok v"
  have attrs: "fold (\<lambda>a m. at_insert (fst a) (snd a) m) (on_attrs v) [] = on_attrs v" using ok at_insert_fold [of "[]"] by (simp add: onode_ok_def)
  show "dec_onode_body (onode_body v @ q) = Inr (v, q)" for q
    using ok by (simp add: dec_onode_body_def onode_body_def onode_ok_def u64.round_trip u32.round_trip u8.round_trip attr.vec_round_trip shard_info.vec_round_trip attrs)
  show "length (onode_body v) \<le> bound_onode_body v"
    using ok attr.vec_fits [of "on_attrs v"] shard_info.vec_fits [of "on_shards v"]
    by (simp add: onode_body_def bound_onode_body_def onode_ok_def) (simp add: enc_u64_def enc_u32_def enc_u8_def)
qed

section \<open>Omap keys\<close>

lemma lex_same_prefix: "xs @ ys < xs @ zs \<longleftrightarrow> ys < zs" for xs :: bytes
  by (induction xs) simp_all

lemma lex_longer: "length xs = length zs \<Longrightarrow> xs < zs \<Longrightarrow> xs @ ys < zs @ ws" for xs :: bytes
  by (induction xs zs rule: list_induct2) auto

text \<open>
  The keys of an omap entry sort between the header and the tail of their object, in the order of the user's keys, the
  ranges of different objects are disjoint, and the user's key is recovered from the stored one.
\<close>

theorem omap_keys_sorted:
  assumes "on_nid v < 2 ^ 64" and "on_nid w < 2 ^ 64"
  shows "get_omap_header v < get_omap_key k v" and "get_omap_key k v < get_omap_tail v"
    and "get_omap_key k v < get_omap_key l v \<longleftrightarrow> k < l"
    and "on_nid v < on_nid w \<Longrightarrow> get_omap_tail v < get_omap_header w"
    and "decode_omap_key (get_omap_key k v) = k"
proof -
  show "get_omap_header v < get_omap_key k v" "get_omap_key k v < get_omap_tail v" "get_omap_key k v < get_omap_key l v \<longleftrightarrow> k < l"
    by (simp_all add: get_omap_header_def get_omap_key_def get_omap_tail_def lex_same_prefix)
  show "get_omap_tail v < get_omap_header w" if "on_nid v < on_nid w"
    unfolding get_omap_tail_def get_omap_header_def using that assms by (intro lex_longer) (simp_all add: key_encode_less, simp add: key_encode_u64_def del: be_bytes.simps)
  show "decode_omap_key (get_omap_key k v) = k"
    by (simp add: decode_omap_key_def get_omap_key_def key_encode_u64_def del: be_bytes.simps)
qed

section \<open>Reloading an object\<close>

text \<open>The extents after a reload: each with a blob of its own.\<close>

fun relocate :: "nat \<Rightarrow> lextents \<Rightarrow> lextents" where
  "relocate n [] = []"
| "relocate n (e # m) = e\<lparr>lx_blob := Some n\<rparr> # relocate (Suc n) m"

lemma length_relocate [simp]: "length (relocate n m) = length m"
  by (induction m arbitrary: n) simp_all

lemma relocate_nth: "i < length m \<Longrightarrow> relocate n m ! i = (m ! i)\<lparr>lx_blob := Some (n + i)\<rparr>"
  by (induction m arbitrary: n i) (auto simp: nth_Cons split: nat.splits)

definition holds_blob :: "blob_store \<Rightarrow> lextent \<Rightarrow> bblob \<Rightarrow> bool" where
  "holds_blob S e b \<longleftrightarrow> (\<exists>a B. lx_blob e = Some a \<and> S a = Some B \<and> b = bo_blob B) \<and> blob_ok b \<and> length (blob_body b) < 2 ^ 32"

definition lextent_bytes :: "lextent \<Rightarrow> bblob \<Rightarrow> bytes" where
  "lextent_bytes e b = enc_u32 (lx_lo e) @ enc_u32 (lx_bo e) @ enc_u32 (lx_len e) @ enc_u8 1 @ enc_blob b"

lemma dec_lextent_bytes:
  assumes "lx_ok e" and "holds_blob S e b"
  shows "dec_lextent h (lextent_bytes e b @ q) = Inr ((e\<lparr>lx_blob := Some (hp_next h)\<rparr>, snd (new_blob b h)), q)"
proof -
  have "lx_lo e < 2 ^ 32" "lx_bo e < 2 ^ 32" "lx_len e < 2 ^ 32" using assms(1) by (simp_all add: lx_ok_def)
  moreover have "dec_blob (enc_blob b @ q) = Inr (b, q)" using assms(2) by (intro blob_round_trip) (auto simp: holds_blob_def)
  ultimately show ?thesis
    by (simp add: dec_lextent_def lextent_bytes_def u32.round_trip u8.round_trip new_blob_def mk_lextent_def)
qed

lemma enc_lextents_bytes: "list_all2 (holds_blob S) m bs \<Longrightarrow> enc_lextents S m = Some (concat (map2 lextent_bytes m bs))"
  by (induction m bs rule: list_all2_induct) (auto simp: holds_blob_def lextent_bytes_def)

definition heap_has :: "heap \<Rightarrow> nat \<Rightarrow> bblob list \<Rightarrow> bool" where
  "heap_has h n bs \<longleftrightarrow> (\<forall>i < length bs. hp_blobs h (n + i) = Some (Blob_new\<lparr>bo_blob := bs ! i\<rparr>))"

lemma heap_has_Cons: "heap_has h n (b # bs) \<longleftrightarrow> hp_blobs h n = Some (Blob_new\<lparr>bo_blob := b\<rparr>) \<and> heap_has h (Suc n) bs"
  unfolding heap_has_def by (auto simp: nth_Cons All_less_Suc2 split: nat.splits)

lemma dec_lextents_bytes:
  assumes "list_all2 (holds_blob S) m bs" and "lx_wf (acc @ m)"
  shows "\<exists>h'. dec_lextents (length m) acc h (concat (map2 lextent_bytes m bs) @ q) = Inr ((acc @ relocate (hp_next h) m, h'), q) \<and>
    heap_has h' (hp_next h) bs \<and> (\<forall>a < hp_next h. hp_blobs h' a = hp_blobs h a)"
  using assms
proof (induction m bs arbitrary: acc h rule: list_all2_induct)
  case Nil
  then show ?case by (simp add: heap_has_def)
next
  case (Cons e m b bs)
  define e1 h1 where "e1 = e\<lparr>lx_blob := Some (hp_next h)\<rparr>" and "h1 = snd (new_blob b h)"
  have ok: "lx_ok e" using Cons.prems by (simp add: lx_wf_append lx_wf_Cons)
  have add: "lx_add e1 acc = acc @ [e1]"
    using lx_add_between [of acc e1 "[]"] wf_lo [OF Cons.prems] by (simp add: e1_def)
  have wf: "lx_wf ((acc @ [e1]) @ m)"
    using Cons.prems by (simp add: lx_wf_append lx_wf_Cons lx_ok_def lx_before_def e1_def)
  have h1: "hp_next h1 = Suc (hp_next h)" "hp_blobs h1 (hp_next h) = Some (Blob_new\<lparr>bo_blob := b\<rparr>)"
    "\<forall>a < hp_next h. hp_blobs h1 a = hp_blobs h a" by (simp_all add: h1_def new_blob_def)
  obtain h' where "dec_lextents (length m) (acc @ [e1]) h1 (concat (map2 lextent_bytes m bs) @ q) = Inr (((acc @ [e1]) @ relocate (hp_next h1) m, h'), q)"
    and h': "heap_has h' (hp_next h1) bs" "\<forall>a < hp_next h1. hp_blobs h' a = hp_blobs h1 a"
    using Cons.IH [OF wf, of h1] by blast
  then have "dec_lextents (length (e # m)) acc h (concat (map2 lextent_bytes (e # m) (b # bs)) @ q) = Inr ((acc @ relocate (hp_next h) (e # m), h'), q)"
    using dec_lextent_bytes [OF ok Cons.hyps(1), of h] add h1(1) by (simp add: dec_then_def e1_def h1_def)
  moreover have "heap_has h' (hp_next h) (b # bs)" using h' h1 by (simp add: heap_has_Cons)
  moreover have "\<forall>a < hp_next h. hp_blobs h' a = hp_blobs h a" using h' h1 by simp
  ultimately show ?case by blast
qed

lemma reload_object:
  assumes "onode_ok v" and "length (onode_body v) < 2 ^ 32" and "list_all2 (holds_blob S) m bs" and "lx_wf m" and "length m < 2 ^ 32"
  shows "\<exists>bytes h'. encode_object S (v, m) = Some bytes \<and> decode_object h bytes = Inr ((v, relocate (hp_next h) m, h'), []) \<and>
    heap_has h' (hp_next h) bs \<and> (\<forall>a < hp_next h. hp_blobs h' a = hp_blobs h a)"
proof -
  define es where "es = concat (map2 lextent_bytes m bs)"
  obtain h' where h': "dec_lextents (length m) [] h es = Inr ((relocate (hp_next h) m, h'), [])"
    "heap_has h' (hp_next h) bs" "\<forall>a < hp_next h. hp_blobs h' a = hp_blobs h a"
    using dec_lextents_bytes [OF assms(3), of "[]" h "[]"] assms(4) by (auto simp: es_def)
  have enc: "encode_object S (v, m) = Some (enc_onode v @ enc_u32 (length m) @ es)"
    using enc_lextents_bytes [OF assms(3)] assms(5) by (simp add: encode_object_def es_def)
  have "dec_onode (enc_onode v @ q) = Inr (v, q)" for q
    unfolding dec_onode_def enc_onode_def using onode_fields.struct_round_trip [OF assms(1,2), of 1 1] by simp
  then have "decode_object h (enc_onode v @ enc_u32 (length m) @ es) = Inr ((v, relocate (hp_next h) m, h'), [])"
    unfolding decode_object_def using h'(1) assms(5) by (simp add: u32.round_trip)
  then show ?thesis using enc h' by blast
qed

lemma put_ref_fresh: "put_ref off len (Blob_new\<lparr>bo_blob := b\<rparr>) =
    Some (True, filter pe_is_valid (bl_extents b), \<lparr>bo_blob = b\<lparr>bl_extents := [], bl_length := 0\<rparr>, bo_used = tr_new\<rparr>)"
  by (simp add: put_ref_def tr_put_def Blob_new_def tr_new_def release_extents_def)

text \<open>
  C39: An object is read back as it was written, the metadata, the attributes and the place and length of every extent,
  except for its blobs: an extent gets a blob of its own, with the stored extents and checksums and an empty
  reference tracker, whatever was shared before. So the first \<open>put_ref\<close> after a reload, on any range, says that the
  blob is empty and frees all of its extents, those that other extents of the object still use too.
\<close>

theorem reload_loses_references:
  assumes "onode_ok v" and "length (onode_body v) < 2 ^ 32" and "list_all2 (holds_blob S) m bs" and "lx_wf m" and "length m < 2 ^ 32"
  shows "\<exists>bytes m' h'. encode_object S (v, m) = Some bytes \<and> decode_object h bytes = Inr ((v, m', h'), []) \<and> length m' = length m \<and>
    (\<forall>i < length m. \<exists>B. m' ! i = (m ! i)\<lparr>lx_blob := Some (hp_next h + i)\<rparr> \<and> hp_blobs h' (hp_next h + i) = Some B \<and> bo_blob B = bs ! i \<and>
       (\<forall>off len. \<exists>B'. put_ref off len B = Some (True, filter pe_is_valid (bl_extents (bs ! i)), B')))"
proof -
  obtain bytes h' where r: "encode_object S (v, m) = Some bytes" "decode_object h bytes = Inr ((v, relocate (hp_next h) m, h'), [])"
    "heap_has h' (hp_next h) bs" using reload_object [OF assms] by blast
  have "hp_blobs h' (hp_next h + i) = Some (Blob_new\<lparr>bo_blob := bs ! i\<rparr>)" if "i < length m" for i
    using r(3) that list_all2_lengthD [OF assms(3)] by (simp add: heap_has_def)
  then show ?thesis using r(1,2)
    by (intro exI [of _ bytes] exI [of _ "relocate (hp_next h) m"] exI [of _ h'] conjI) (simp_all add: relocate_nth put_ref_fresh)
qed

definition two_users :: lextents where
  "two_users = [mk_lextent 0 0 4096 (Some 0), mk_lextent 4096 4096 4096 (Some 0)]"

definition shared_blob :: bblob where
  "shared_blob = bblob_new\<lparr>bl_extents := [(0x10000, 8192)], bl_length := 8192\<rparr>"

definition shared_store :: blob_store where
  "shared_store = [0 \<mapsto> \<lparr>bo_blob = shared_blob, bo_used = \<lparr>tr_au = 4096, tr_bytes = [4096, 4096], tr_total = 0\<rparr>\<rparr>]"

theorem reload_loses_references_witness:
  "\<exists>bytes m' h'. encode_object shared_store (onode_new, two_users) = Some bytes \<and>
     decode_object \<lparr>hp_blobs = Map.empty, hp_next = 7\<rparr> bytes = Inr ((onode_new, m', h'), []) \<and> length m' = 2 \<and>
     (\<exists>B B'. lx_blob (m' ! 1) = Some 8 \<and> hp_blobs h' 8 = Some B \<and> put_ref 0 4096 B = Some (True, [(0x10000, 8192)], B'))"
proof -
  have ok: "blob_ok shared_blob" by (simp add: shared_blob_def blob_ok_def bblob_new_def has_flag_def CSUM_NONE_def FLAG_CSUM_def FLAG_HAS_UNUSED_def)
  have "length (blob_body shared_blob) \<le> bound_blob_body shared_blob" by (rule blob_fields.fits [OF ok])
  then have "length (blob_body shared_blob) < 2 ^ 32"
    by (simp add: bound_blob_body_def bound_pextents_def bound_pextent_def bound_varint_def bound_lba_def bound_varint_lowz_def shared_blob_def has_flag_def FLAG_CSUM_def FLAG_HAS_UNUSED_def bblob_new_def bound_string_def)
  then have "holds_blob shared_store e shared_blob" if "e \<in> set two_users" for e
    using that ok by (auto simp: holds_blob_def two_users_def shared_store_def mk_lextent_def)
  then have "list_all2 (holds_blob shared_store) two_users [shared_blob, shared_blob]" by (simp add: two_users_def)
  moreover have "onode_ok onode_new" "length (onode_body onode_new) < 2 ^ 32" by (simp_all add: onode_ok_def onode_new_def onode_body_def enc_vec_def enc_u64_def enc_u32_def enc_u8_def)
  moreover have "lx_wf two_users" "length two_users < 2 ^ 32" by (simp_all add: two_users_def lx_wf_def lx_before_def lx_ok_def mk_lextent_def)
  ultimately obtain bytes m' h' where r: "encode_object shared_store (onode_new, two_users) = Some bytes"
    "decode_object \<lparr>hp_blobs = Map.empty, hp_next = 7\<rparr> bytes = Inr ((onode_new, m', h'), [])" "length m' = length two_users"
    and all: "\<forall>i < length two_users. \<exists>B. m' ! i = (two_users ! i)\<lparr>lx_blob := Some (7 + i)\<rparr> \<and> hp_blobs h' (7 + i) = Some B \<and>
      bo_blob B = [shared_blob, shared_blob] ! i \<and>
      (\<forall>off len. \<exists>B'. put_ref off len B = Some (True, filter pe_is_valid (bl_extents ([shared_blob, shared_blob] ! i)), B'))"
    using reload_loses_references [of onode_new shared_store two_users "[shared_blob, shared_blob]" "\<lparr>hp_blobs = Map.empty, hp_next = 7\<rparr>"] by auto
  have n: "length two_users = 2" by (simp add: two_users_def)
  have "filter pe_is_valid (bl_extents ([shared_blob, shared_blob] ! 1)) = [(0x10000, 8192)]" by (simp add: shared_blob_def pe_is_valid_def UINT64_MAX_def)
  then have "\<exists>B B'. lx_blob (m' ! 1) = Some 8 \<and> hp_blobs h' 8 = Some B \<and> put_ref 0 4096 B = Some (True, [(0x10000, 8192)], B')"
    using all [rule_format, of 1] n by auto
  then show ?thesis using r n by auto
qed

end
